(* ===== verification/Impact_Prelude.thy ===== *)
theory Impact_Prelude
  imports Main "HOL-Library.Word" "HOL-Library.While_Combinator"
begin

text \<open>
  The prelude of the development: how a C function of the repository is written in HOL.

  A C function that may touch global state, and that may fail, is a \<open>prog\<close>: it takes the
  state and returns either a \<open>fault\<close> or a result with the new state. A fault is what the C
  run does instead of returning: dereferencing NULL or a pointer to freed memory, reading or writing outside an array,
  overflowing a signed integer, calling \<open>exit\<close> or one of the \<open>punt\<close> functions, or running
  forever. Programs are sequenced with \<open>bnd\<close>; a counted loop is \<open>for_each\<close> over the list of
  its index values, a search loop that leaves by \<open>return\<close> is \<open>exists_prog\<close>, and a
  \<open>while\<close> loop is \<open>while_prog\<close>, whose value is the fault \<open>Diverges\<close> when it does not stop.

  \<open>wp m Q s\<close> says that \<open>m\<close>, started in \<open>s\<close>, returns without a fault and that the result and
  the final state satisfy \<open>Q\<close>: total correctness, memory safety included. The simp set of
  \<open>wp\<close> and the loop rules below carry the proofs of the components.
\<close>

section \<open>Faults and programs\<close>

datatype fault =
    Null_Deref
  | Out_Of_Bounds
  | Dangling
  | Int_Overflow
  | Exit int
  | Punt string
  | Diverges

text \<open>The largest \<open>int\<close>.\<close>

definition INT_MAX :: int where
  "INT_MAX = 2 ^ 31 - 1"

type_synonym ('s, 'a) prog = "'s \<Rightarrow> fault + ('a \<times> 's)"

definition ret :: "'a \<Rightarrow> ('s, 'a) prog" where
  "ret x = (\<lambda>s. Inr (x, s))"

definition fail :: "fault \<Rightarrow> ('s, 'a) prog" where
  "fail e = (\<lambda>s. Inl e)"

definition bnd :: "('s, 'a) prog \<Rightarrow> ('a \<Rightarrow> ('s, 'b) prog) \<Rightarrow> ('s, 'b) prog" where
  "bnd m f = (\<lambda>s. case m s of Inl e \<Rightarrow> Inl e | Inr p \<Rightarrow> f (fst p) (snd p))"

definition gets :: "('s \<Rightarrow> 'a) \<Rightarrow> ('s, 'a) prog" where
  "gets f = (\<lambda>s. Inr (f s, s))"

definition modify :: "('s \<Rightarrow> 's) \<Rightarrow> ('s, unit) prog" where
  "modify f = (\<lambda>s. Inr ((), f s))"

primrec for_each :: "('i \<Rightarrow> 'a \<Rightarrow> ('s, 'a) prog) \<Rightarrow> 'i list \<Rightarrow> 'a \<Rightarrow> ('s, 'a) prog" where
  "for_each body [] a = ret a"
| "for_each body (i # is) a = bnd (body i a) (\<lambda>a'. for_each body is a')"

primrec exists_prog :: "('i \<Rightarrow> ('s, bool) prog) \<Rightarrow> 'i list \<Rightarrow> ('s, bool) prog" where
  "exists_prog p [] = ret False"
| "exists_prog p (i # is) = bnd (p i) (\<lambda>b. if b then ret True else exists_prog p is)"

text \<open>A search loop that carries variables and leaves with \<open>goto\<close> or \<open>break\<close> when it has found.\<close>

primrec find_each :: "('i \<Rightarrow> 'a \<Rightarrow> ('s, bool \<times> 'a) prog) \<Rightarrow> 'i list \<Rightarrow> 'a \<Rightarrow> ('s, bool \<times> 'a) prog" where
  "find_each body [] a = ret (False, a)"
| "find_each body (i # is) a =
     bnd (body i a) (\<lambda>r. if fst r then ret r else find_each body is (snd r))"

definition while_prog :: "('a \<Rightarrow> bool) \<Rightarrow> ('a \<Rightarrow> ('s, 'a) prog) \<Rightarrow> 'a \<Rightarrow> ('s, 'a) prog" where
  "while_prog b c a = (\<lambda>s.
     case while_option
            (\<lambda>r. case r of Inl e \<Rightarrow> False | Inr p \<Rightarrow> b (fst p))
            (\<lambda>r. case r of Inl e \<Rightarrow> Inl e | Inr p \<Rightarrow> c (fst p) (snd p))
            (Inr (a, s))
     of None \<Rightarrow> Inl Diverges | Some r \<Rightarrow> r)"

text \<open>Reading and writing a C array through a pointer that may be NULL.\<close>

definition array_get :: "'a list option \<Rightarrow> nat \<Rightarrow> ('s, 'a) prog" where
  "array_get p i = (case p of None \<Rightarrow> fail Null_Deref
     | Some xs \<Rightarrow> if i < length xs then ret (xs ! i) else fail Out_Of_Bounds)"

definition array_put :: "'a list option \<Rightarrow> nat \<Rightarrow> 'a \<Rightarrow> ('s, 'a list option) prog" where
  "array_put p i x = (case p of None \<Rightarrow> fail Null_Deref
     | Some xs \<Rightarrow> if i < length xs then ret (Some (xs[i := x])) else fail Out_Of_Bounds)"

text \<open>A call that leaves the state alone and only reads it cannot be told from \<open>gets\<close>.\<close>

definition wp :: "('s, 'a) prog \<Rightarrow> ('a \<Rightarrow> 's \<Rightarrow> bool) \<Rightarrow> 's \<Rightarrow> bool" where
  "wp m Q s = (case m s of Inl e \<Rightarrow> False | Inr p \<Rightarrow> Q (fst p) (snd p))"

section \<open>Weakest preconditions\<close>

named_theorems wp_rules

lemma wp_ret [simp]: "wp (ret x) Q s = Q x s"
  by (simp add: wp_def ret_def)

lemma wp_fail [simp]: "wp (fail e) Q s = False"
  by (simp add: wp_def fail_def)

lemma wp_bnd [simp]: "wp (bnd m f) Q s = wp m (\<lambda>x s'. wp (f x) Q s') s"
  by (simp add: wp_def bnd_def split: sum.splits)

lemma wp_gets [simp]: "wp (gets f) Q s = Q (f s) s"
  by (simp add: wp_def gets_def)

lemma wp_modify [simp]: "wp (modify f) Q s = Q () (f s)"
  by (simp add: wp_def modify_def)

lemma wp_if [simp]: "wp (if b then m else n) Q s = (if b then wp m Q s else wp n Q s)"
  by simp

lemma wp_mono:
  assumes "wp m Q s" and "\<And>x s'. Q x s' \<Longrightarrow> R x s'"
  shows "wp m R s"
  using assms by (auto simp: wp_def split: sum.splits)

lemma wp_seq:
  assumes "wp m R s" and "\<And>x s'. R x s' \<Longrightarrow> wp (f x) Q s'"
  shows "wp (bnd m f) Q s"
  using wp_mono [OF assms] by simp

lemma wp_conj: "wp m Q s \<Longrightarrow> wp m R s \<Longrightarrow> wp m (\<lambda>x s'. Q x s' \<and> R x s') s"
  by (auto simp: wp_def split: sum.splits)

lemma wp_run: "wp m Q s \<longleftrightarrow> (\<exists>x s'. m s = Inr (x, s') \<and> Q x s')"
  by (auto simp: wp_def split: sum.splits)

lemma wp_array_get:
  "wp (array_get p i) Q s = (\<exists>xs. p = Some xs \<and> i < length xs \<and> Q (xs ! i) s)"
  by (auto simp: array_get_def split: option.splits)

lemma wp_array_get_Some [simp]:
  "wp (array_get (Some xs) i) Q s = (i < length xs \<and> Q (xs ! i) s)"
  by (simp add: wp_array_get)

lemma wp_array_put:
  "wp (array_put p i x) Q s = (\<exists>xs. p = Some xs \<and> i < length xs \<and> Q (Some (xs[i := x])) s)"
  by (auto simp: array_put_def split: option.splits)

lemma bnd_ret [simp]: "bnd (ret x) f = f x"
  by (simp add: bnd_def ret_def)

lemma bnd_fail [simp]: "bnd (fail e) f = fail e"
  by (simp add: bnd_def fail_def)

lemma ret_eq_iff [simp]: "ret x s = Inr (y, s') \<longleftrightarrow> x = y \<and> s = s'"
  by (auto simp: ret_def)

lemma fail_neq [simp]: "fail e s \<noteq> Inr p" "fail e s = Inl e' \<longleftrightarrow> e = e'"
  by (auto simp: fail_def)

lemma bnd_ret_right [simp]: "bnd m ret = m"
  by (rule ext) (simp add: bnd_def ret_def split: sum.split)

lemma bnd_assoc: "bnd (bnd m f) h = bnd m (\<lambda>x. bnd (f x) h)"
  by (rule ext) (simp add: bnd_def split: sum.split)

subsection \<open>Loops\<close>

lemma for_each_append: "for_each f (xs @ ys) a = bnd (for_each f xs a) (for_each f ys)"
  by (induction xs arbitrary: a) (simp_all add: bnd_assoc)

lemma for_each_concat:
  "(\<And>i a. i \<in> set is \<Longrightarrow> body i a = for_each f (F i) a) \<Longrightarrow>
   for_each body is a = for_each f (concat (map F is)) a"
  by (induction "is" arbitrary: a) (simp_all add: for_each_append)

text \<open>A loop that carries a value \<open>c i\<close> and otherwise runs \<open>f\<close> on the list \<open>L i\<close>.\<close>

lemma for_each_carry:
  assumes "\<And>i a. i < n \<Longrightarrow> body (ix i) (c i, a) = bnd (for_each f (L i) a) (\<lambda>a. ret (c (Suc i), a))"
  shows "for_each body (map ix [0..<n]) (c 0, a) =
    bnd (for_each f (concat (map L [0..<n])) a) (\<lambda>a. ret (c n, a))"
  using assms
proof (induction n)
  case (Suc n)
  then show ?case by (simp add: for_each_append bnd_assoc)
qed simp

lemma for_each_cong:
  "(\<And>i a. i \<in> set is \<Longrightarrow> body i a = body' i a) \<Longrightarrow> for_each body is a = for_each body' is a"
  by (induction "is" arbitrary: a) simp_all

text \<open>A loop whose body does \<open>continue\<close> at once on some items.\<close>

lemma for_each_filter:
  "(\<And>i a. \<not> P i \<Longrightarrow> body i a = ret a) \<Longrightarrow> for_each body is a = for_each body (filter P is) a"
  by (induction "is" arbitrary: a) simp_all

lemma wp_for_each:
  assumes "I 0 a s"
    and "\<And>k a s. k < length xs \<Longrightarrow> I k a s \<Longrightarrow> wp (body (xs ! k) a) (I (Suc k)) s"
    and "\<And>a s. I (length xs) a s \<Longrightarrow> Q a s"
  shows "wp (for_each body xs a) Q s"
  using assms
proof (induction xs arbitrary: a s I)
  case Nil
  then show ?case by simp
next
  case (Cons x xs)
  have "wp (body x a) (I (Suc 0)) s"
    using Cons.prems(1) Cons.prems(2) [of 0] by simp
  moreover have "wp (for_each body xs a') Q s'" if "I (Suc 0) a' s'" for a' s'
  proof (rule Cons.IH [where I = "\<lambda>k. I (Suc k)"])
    show "I (Suc 0) a' s'" by (rule that)
    show "wp (body (xs ! k) b) (I (Suc (Suc k))) t" if "k < length xs" "I (Suc k) b t" for k b t
      using that Cons.prems(2) [of "Suc k"] by simp
    show "Q b t" if "I (Suc (length xs)) b t" for b t
      using that Cons.prems(3) by simp
  qed
  ultimately show ?case by (auto elim: wp_mono)
qed

lemma wp_for_upto:
  assumes "I 0 a s"
    and "\<And>k a s. k < n \<Longrightarrow> I k a s \<Longrightarrow> wp (body k a) (I (Suc k)) s"
    and "\<And>a s. I n a s \<Longrightarrow> Q a s"
  shows "wp (for_each body [0..<n] a) Q s"
  by (rule wp_for_each [where I = I]) (use assms in auto)

lemma wp_for_downto:
  assumes "I n a s"
    and "\<And>k a s. k < n \<Longrightarrow> I (Suc k) a s \<Longrightarrow> wp (body k a) (I k) s"
    and "\<And>a s. I 0 a s \<Longrightarrow> Q a s"
  shows "wp (for_each body (rev [0..<n]) a) Q s"
proof (rule wp_for_each [where I = "\<lambda>k. I (n - k)"])
  show "I (n - 0) a s" using assms(1) by simp
  show "wp (body (rev [0..<n] ! k) b) (I (n - Suc k)) t"
    if "k < length (rev [0..<n])" "I (n - k) b t" for k b t
  proof -
    have "Suc (n - Suc k) = n - k" using that(1) by simp
    then show ?thesis
      using that assms(2) [of "n - Suc k" b t] by (simp add: rev_nth)
  qed
  show "Q b t" if "I (n - length (rev [0..<n])) b t" for b t
    using that assms(3) by simp
qed

lemma wp_exists_prog:
  assumes "I s"
    and "\<And>x s. x \<in> set xs \<Longrightarrow> I s \<Longrightarrow> wp (p x) (\<lambda>b s'. b = P x \<and> I s') s"
    and "\<And>s. I s \<Longrightarrow> Q (\<exists>x\<in>set xs. P x) s"
  shows "wp (exists_prog p xs) Q s"
  using assms
proof (induction xs arbitrary: s Q)
  case Nil
  then show ?case by simp
next
  case (Cons x xs)
  have "wp (p x) (\<lambda>b s'. b = P x \<and> I s') s"
    using Cons.prems by simp
  moreover have "wp (if b then ret True else exists_prog p xs) Q s'"
    if "b = P x \<and> I s'" for b s'
  proof (cases b)
    case True
    with that Cons.prems(3) show ?thesis by auto
  next
    case False
    with that have "\<not> P x" and "I s'" by auto
    have "wp (exists_prog p xs) Q s'"
    proof (rule Cons.IH)
      show "I s'" by (rule \<open>I s'\<close>)
      show "wp (p y) (\<lambda>b s'. b = P y \<and> I s') t" if "y \<in> set xs" "I t" for y t
        using that Cons.prems(2) by simp
      show "Q (\<exists>y\<in>set xs. P y) t" if "I t" for t
        using that Cons.prems(3) [of t] \<open>\<not> P x\<close> by simp
    qed
    with False show ?thesis by simp
  qed
  ultimately show ?case by (auto elim: wp_mono)
qed

lemma wp_while_prog:
  assumes init: "I a s"
    and step: "\<And>a s. I a s \<Longrightarrow> b a \<Longrightarrow>
      wp (c a) (\<lambda>a' s'. I a' s' \<and> ((a', s'), (a, s)) \<in> r) s"
    and wf: "wf r"
    and exit: "\<And>a s. I a s \<Longrightarrow> \<not> b a \<Longrightarrow> Q a s"
  shows "wp (while_prog b c a) Q s"
proof -
  let ?b = "\<lambda>r. case r of Inl e \<Rightarrow> False | Inr p \<Rightarrow> b (fst p)"
  let ?c = "\<lambda>r. case r of Inl e \<Rightarrow> Inl e | Inr p \<Rightarrow> c (fst p) (snd p)"
  have "\<exists>a' s'. while_option ?b ?c (Inr (a, s)) = Some (Inr (a', s')) \<and> I a' s' \<and> \<not> b a'"
    if "I a s" for a s
    using that
  proof (induction "(a, s)" arbitrary: a s rule: wf_induct_rule [OF wf])
    case (1 a s)
    show ?case
    proof (cases "b a")
      case False
      with 1(2) show ?thesis by (simp add: while_option_unfold [of ?b ?c "Inr (a, s)"])
    next
      case True
      from step [OF 1(2) True] obtain a' s' where
        run: "c a s = Inr (a', s')" and I': "I a' s'" and dec: "((a', s'), (a, s)) \<in> r"
        by (auto simp: wp_run)
      from 1(1) [OF dec I'] True run show ?thesis
        by (simp add: while_option_unfold [of ?b ?c "Inr (a, s)"])
    qed
  qed
  from this [OF init] exit show ?thesis
    by (fastforce simp: wp_run while_prog_def)
qed

end
