(* ===== verification/Set_Base.thy ===== *)
theory Set_Base
  imports Impact_Prelude
begin

text \<open>
  The bit-vector set library, \<open>src/src/library/libflow/set.c\<close> and \<open>set.h\<close>: its data, its
  allocation functions and the operations on single elements.

  A \<open>Set\<close> is a pointer to a descriptor, or NULL for the empty set. The descriptor has two
  sides, one for the elements that are not negative (\<open>b = 0\<close>, here \<open>False\<close>) and one for the
  negative ones (\<open>b = 1\<close>, here \<open>True\<close>). Each side is an array of \<open>max_base\<close> pointers to
  vectors of eight 32-bit words; a vector holds 256 consecutive magnitudes and a NULL vector
  holds none. The model keeps the descriptor's contents as a value: an operation that
  updates a set in place returns the updated contents. Every descriptor carries the number
  the library gave it (\<open>id\<close>), and the globals \<open>SetId\<close>, \<open>OUT\<close>, \<open>mallocated\<close> and
  \<open>maxmallocated\<close> are the library's state. \<open>SetId\<close> is an unbounded counter here.

  The lemmas relate the descriptor to the set of integers it stands for (\<open>elems\<close>), through
  the vector at each position of each side (\<open>slot\<close>).
\<close>

unbundle bit_operations_syntax

section \<open>Data\<close>

type_synonym word32 = "32 word"
type_synonym Set_Vector = "word32 list"

record cset =
  max_base :: "bool \<Rightarrow> nat"
  varray :: "bool \<Rightarrow> Set_Vector option list option"
  set_id :: int

type_synonym Set = "cset option"

record set_lib =
  SetId :: int
  OUT :: Set
  mallocated :: int
  maxmallocated :: int

definition Set_VARRAY_SIZE :: nat where
  "Set_VARRAY_SIZE = 8"

definition Set_VECTOR_SIZE :: nat where
  "Set_VECTOR_SIZE = 8"

definition Set_INDEX :: "int \<Rightarrow> int" where
  "Set_INDEX x = x AND 0xFF"

definition Set_BASE :: "int \<Rightarrow> int" where
  "Set_BASE x = drop_bit 8 x"

definition Set_CONSTRUCT_BASE :: "int \<Rightarrow> int" where
  "Set_CONSTRUCT_BASE x = push_bit 8 x"

definition Set_WORD_SELECT :: "int \<Rightarrow> int" where
  "Set_WORD_SELECT x = drop_bit 5 x"

definition Set_BIT_SELECT :: "int \<Rightarrow> int" where
  "Set_BIT_SELECT x = x AND 0x1F"

text \<open>\<open>ABS\<close> negates a C \<open>int\<close>: the least one has no negation.\<close>

definition INT_MIN :: int where
  "INT_MIN = - (2 ^ 31)"

definition ABS :: "int \<Rightarrow> ('s, int) prog" where
  "ABS x = (if x < 0 then (if x = INT_MIN then fail Int_Overflow else ret (- x)) else ret x)"

definition SIGN :: "int \<Rightarrow> bool" where
  "SIGN x = (if x \<ge> 0 then False else True)"

definition sizeof_Set_Vector :: int where
  "sizeof_Set_Vector = 8"

section \<open>Allocation\<close>

definition NewVArray :: "nat \<Rightarrow> ('z set_lib_scheme, Set_Vector option list) prog" where
  "NewVArray sz =
     (if sz = Set_VARRAY_SIZE then ret (replicate sz None)
      else bnd (modify (\<lambda>g. g\<lparr>mallocated := mallocated g + sizeof_Set_Vector * int sz\<rparr>)) (\<lambda>_.
           bnd (modify (\<lambda>g. if mallocated g > maxmallocated g
                             then g\<lparr>maxmallocated := mallocated g\<rparr> else g)) (\<lambda>_.
           ret (replicate sz None))))"

definition FreeVArray :: "nat \<Rightarrow> Set_Vector option list option \<Rightarrow> ('z set_lib_scheme, unit) prog" where
  "FreeVArray sz va =
     (if va = None then ret ()
      else if sz = Set_VARRAY_SIZE then ret ()
      else modify (\<lambda>g. g\<lparr>mallocated := mallocated g - sizeof_Set_Vector * int sz\<rparr>))"

definition memcpy_varray ::
  "Set_Vector option list \<Rightarrow> Set_Vector option list option \<Rightarrow> nat \<Rightarrow> ('s, Set_Vector option list) prog" where
  "memcpy_varray dst src n =
     (if n = 0 then ret dst
      else case src of None \<Rightarrow> fail Null_Deref
           | Some xs \<Rightarrow> if n \<le> length xs \<and> n \<le> length dst then ret (take n xs @ drop n dst)
                       else fail Out_Of_Bounds)"

definition enlarged_size :: "nat \<Rightarrow> nat" where
  "enlarged_size sz = push_bit 3 (drop_bit 3 sz + 1)"

definition EnlargeVArray ::
  "nat \<Rightarrow> nat \<Rightarrow> Set_Vector option list option \<Rightarrow>
   ('z set_lib_scheme, nat \<times> Set_Vector option list option) prog" where
  "EnlargeVArray sz base va =
     (let new_sz = enlarged_size sz in
      bnd (NewVArray new_sz) (\<lambda>new_vector.
      bnd (memcpy_varray new_vector va base) (\<lambda>new_vector.
      bnd (FreeVArray base va) (\<lambda>_.
      ret (new_sz, Some new_vector)))))"

text \<open>The call \<open>EnlargeVArray (sz, &set->max_base[b], &set->varray[b])\<close>.\<close>

definition EnlargeSide :: "cset \<Rightarrow> bool \<Rightarrow> nat \<Rightarrow> ('z set_lib_scheme, cset) prog" where
  "EnlargeSide s b sz =
     bnd (EnlargeVArray sz (max_base s b) (varray s b)) (\<lambda>p.
     ret (s\<lparr>max_base := (max_base s)(b := fst p), varray := (varray s)(b := snd p)\<rparr>))"

text \<open>The assignment \<open>set->varray[b][i] = v\<close>.\<close>

definition put_vector :: "cset \<Rightarrow> bool \<Rightarrow> nat \<Rightarrow> Set_Vector option \<Rightarrow> ('s, cset) prog" where
  "put_vector s b i v =
     bnd (array_put (varray s b) i v) (\<lambda>va. ret (s\<lparr>varray := (varray s)(b := va)\<rparr>))"

definition NewVector :: "('s, Set_Vector) prog" where
  "NewVector = ret (replicate Set_VECTOR_SIZE 0)"

definition FreeVector :: "Set_Vector option \<Rightarrow> ('s, unit) prog" where
  "FreeVector v = ret ()"

definition NewSet :: "('z set_lib_scheme, cset) prog" where
  "NewSet =
     bnd (NewVArray Set_VARRAY_SIZE) (\<lambda>va.
     bnd (gets SetId) (\<lambda>i.
     bnd (modify (\<lambda>g. g\<lparr>SetId := i + 1\<rparr>)) (\<lambda>_.
     ret \<lparr>max_base = (\<lambda>b. if b then 0 else Set_VARRAY_SIZE),
          varray = (\<lambda>b. if b then None else Some va),
          set_id = i\<rparr>)))"

definition Set_new :: "('z set_lib_scheme, Set) prog" where
  "Set_new = bnd NewSet (\<lambda>s. ret (Some s))"

section \<open>Single elements\<close>

definition ReadBit :: "Set_Vector \<Rightarrow> int \<Rightarrow> ('s, bool) prog" where
  "ReadBit vector element =
     bnd (ABS element) (\<lambda>index.
     let index = Set_INDEX index;
         select = Set_WORD_SELECT index;
         bit_position = Set_BIT_SELECT index in
     bnd (array_get (Some vector) (nat select)) (\<lambda>value.
     let mask = push_bit (nat bit_position) 1 in
     ret (value AND mask \<noteq> 0)))"

definition SetBit :: "Set_Vector \<Rightarrow> int \<Rightarrow> ('s, Set_Vector) prog" where
  "SetBit vector element =
     bnd (ABS element) (\<lambda>index.
     let index = Set_INDEX index;
         select = Set_WORD_SELECT index;
         bit_position = Set_BIT_SELECT index;
         mask = push_bit (nat bit_position) 1 in
     bnd (array_get (Some vector) (nat select)) (\<lambda>value.
     ret (vector[nat select := value OR mask])))"

definition ClearBit :: "Set_Vector \<Rightarrow> int \<Rightarrow> ('s, Set_Vector) prog" where
  "ClearBit vector element =
     bnd (ABS element) (\<lambda>index.
     let index = Set_INDEX index;
         select = Set_WORD_SELECT index;
         bit_position = Set_BIT_SELECT index;
         mask = NOT (push_bit (nat bit_position) 1) in
     bnd (array_get (Some vector) (nat select)) (\<lambda>value.
     ret (vector[nat select := value AND mask])))"

definition Set_in :: "Set \<Rightarrow> int \<Rightarrow> ('s, bool) prog" where
  "Set_in st element =
     (case st of None \<Rightarrow> ret False
      | Some s \<Rightarrow>
          let sign = SIGN element in
          bnd (ABS element) (\<lambda>a.
          let base = nat (Set_BASE a) in
          if base \<ge> max_base s sign then ret False
          else bnd (array_get (varray s sign) base) (\<lambda>v.
               case v of None \<Rightarrow> ret False | Some w \<Rightarrow> ReadBit w element)))"

definition Set_add :: "Set \<Rightarrow> int \<Rightarrow> ('z set_lib_scheme, Set) prog" where
  "Set_add st element =
     bnd (case st of None \<Rightarrow> NewSet | Some s \<Rightarrow> ret s) (\<lambda>s.
     let sign = SIGN element in
     bnd (ABS element) (\<lambda>a.
     let base = nat (Set_BASE a) in
     bnd (if base \<ge> max_base s sign then EnlargeSide s sign base else ret s) (\<lambda>s.
     bnd (array_get (varray s sign) base) (\<lambda>v.
     bnd (case v of None \<Rightarrow> NewVector | Some w \<Rightarrow> ret w) (\<lambda>w.
     bnd (SetBit w element) (\<lambda>w.
     bnd (put_vector s sign base (Some w)) (\<lambda>s.
     ret (Some s))))))))"

definition Set_delete :: "Set \<Rightarrow> int \<Rightarrow> ('s, Set) prog" where
  "Set_delete st element =
     (case st of None \<Rightarrow> ret None
      | Some s \<Rightarrow>
          let sign = SIGN element in
          bnd (ABS element) (\<lambda>a.
          let base = nat (Set_BASE a) in
          if base \<ge> max_base s sign then ret st
          else bnd (array_get (varray s sign) base) (\<lambda>v.
               case v of None \<Rightarrow> ret st
               | Some w \<Rightarrow>
                   bnd (ClearBit w element) (\<lambda>w.
                   bnd (put_vector s sign base (Some w)) (\<lambda>s.
                   ret (Some s))))))"

text \<open>The loops of \<open>FreeSet\<close> that return the vectors and the two arrays.\<close>

definition FreeSides :: "cset \<Rightarrow> ('z set_lib_scheme, unit) prog" where
  "FreeSides s =
     for_each (\<lambda>b _.
       if varray s b = None then ret ()
       else
         bnd (for_each (\<lambda>i _.
                bnd (array_get (varray s b) i) (\<lambda>v.
                case v of None \<Rightarrow> ret () | Some w \<Rightarrow> FreeVector v))
              [0..<max_base s b] ()) (\<lambda>_.
         FreeVArray (max_base s b) (varray s b)))
       [False, True] ()"

text \<open>
  \<open>FreeSet\<close> records the number of every descriptor it frees in the set \<open>OUT\<close>, and ends the
  program when it meets a number it has already recorded.
\<close>

definition FreeSet :: "Set \<Rightarrow> ('z set_lib_scheme, unit) prog" where
  "FreeSet st =
     (case st of None \<Rightarrow> ret ()
      | Some s \<Rightarrow>
          bnd (gets OUT) (\<lambda>out.
          bnd (Set_in out (set_id s)) (\<lambda>was_freed.
          if was_freed then fail (Exit (- 1))
          else
            bnd (Set_add out (set_id s)) (\<lambda>out.
            bnd (modify (\<lambda>g. g\<lparr>OUT := out\<rparr>)) (\<lambda>_.
            FreeSides s)))))"

definition Set_dispose :: "Set \<Rightarrow> ('z set_lib_scheme, Set) prog" where
  "Set_dispose st = bnd (if st \<noteq> None then FreeSet st else ret ()) (\<lambda>_. ret None)"

section \<open>What a descriptor stands for\<close>

definition slot :: "cset \<Rightarrow> bool \<Rightarrow> nat \<Rightarrow> Set_Vector option" where
  "slot s b i = (case varray s b of None \<Rightarrow> None
     | Some va \<Rightarrow> if i < length va then va ! i else None)"

definition vbit :: "Set_Vector option \<Rightarrow> nat \<Rightarrow> bool" where
  "vbit v k = (case v of None \<Rightarrow> False | Some w \<Rightarrow> bit (w ! (k div 32)) (k mod 32))"

definition has :: "cset \<Rightarrow> bool \<Rightarrow> nat \<Rightarrow> bool" where
  "has s b n = vbit (slot s b (n div 256)) (n mod 256)"

definition elems :: "Set \<Rightarrow> int set" where
  "elems st = (case st of None \<Rightarrow> {} | Some s \<Rightarrow> {e. has s (e < 0) (nat \<bar>e\<bar>)})"

definition wf_vec :: "Set_Vector option \<Rightarrow> bool" where
  "wf_vec v = (case v of None \<Rightarrow> True | Some w \<Rightarrow> length w = Set_VECTOR_SIZE)"

definition wf_side :: "nat \<Rightarrow> Set_Vector option list option \<Rightarrow> bool" where
  "wf_side mb va = (case va of None \<Rightarrow> mb = 0
     | Some xs \<Rightarrow> length xs = mb \<and> 0 < mb \<and> 8 dvd mb \<and> list_all wf_vec xs)"

definition wf_arr :: "cset \<Rightarrow> bool" where
  "wf_arr s = (varray s False \<noteq> None \<and> wf_side (max_base s False) (varray s False)
     \<and> wf_side (max_base s True) (varray s True))"

text \<open>Zero is stored on the side of the elements that are not negative, never on the other.\<close>

definition wf_cset :: "cset \<Rightarrow> bool" where
  "wf_cset s = (wf_arr s \<and> \<not> has s True 0)"

definition wf_set :: "Set \<Rightarrow> bool" where
  "wf_set st = (case st of None \<Rightarrow> True | Some s \<Rightarrow> wf_cset s)"

text \<open>What an operation may do to the library's state: number new descriptors.\<close>

definition lib_ext :: "'z set_lib_scheme \<Rightarrow> 'z set_lib_scheme \<Rightarrow> bool" where
  "lib_ext g g' = (SetId g \<le> SetId g' \<and> OUT g' = OUT g \<and> set_lib.more g' = set_lib.more g)"

definition lib_same :: "'z set_lib_scheme \<Rightarrow> 'z set_lib_scheme \<Rightarrow> bool" where
  "lib_same g g' = (SetId g' = SetId g \<and> OUT g' = OUT g \<and> set_lib.more g' = set_lib.more g)"

text \<open>A call that returns a new descriptor with the elements \<open>X\<close>.\<close>

definition new_set :: "'z set_lib_scheme \<Rightarrow> int set \<Rightarrow> Set \<Rightarrow> 'z set_lib_scheme \<Rightarrow> bool" where
  "new_set g X st g' = (\<exists>s. st = Some s \<and> wf_cset s \<and> elems st = X \<and>
     SetId g \<le> set_id s \<and> set_id s < SetId g' \<and> lib_ext g g')"

text \<open>A call that updates \<open>st\<close> in place, or makes a new descriptor when \<open>st\<close> is NULL.\<close>

definition acc_set :: "'z set_lib_scheme \<Rightarrow> Set \<Rightarrow> int set \<Rightarrow> Set \<Rightarrow> 'z set_lib_scheme \<Rightarrow> bool" where
  "acc_set g st X st' g' = (case st of None \<Rightarrow> new_set g X st' g'
     | Some s \<Rightarrow> \<exists>s'. st' = Some s' \<and> wf_cset s' \<and> elems st' = X \<and> set_id s' = set_id s \<and>
         lib_same g g')"

text \<open>
  The library's books are in order when every number in \<open>OUT\<close> was given out. A descriptor is
  live when its number was given out and is not in \<open>OUT\<close>.
\<close>

definition wf_lib :: "'z set_lib_scheme \<Rightarrow> bool" where
  "wf_lib g = (0 \<le> SetId g \<and> wf_set (OUT g) \<and> elems (OUT g) \<subseteq> {0..<SetId g})"

definition live :: "'z set_lib_scheme \<Rightarrow> Set \<Rightarrow> bool" where
  "live g st = (case st of None \<Rightarrow> True
     | Some s \<Rightarrow> wf_cset s \<and> 0 \<le> set_id s \<and> set_id s < SetId g \<and> set_id s \<notin> elems (OUT g))"

definition freed :: "'z set_lib_scheme \<Rightarrow> Set \<Rightarrow> 'z set_lib_scheme \<Rightarrow> bool" where
  "freed g st g' = (SetId g \<le> SetId g' \<and> wf_set (OUT g') \<and>
     elems (OUT g') = elems (OUT g) \<union> set_id ` set_option st \<and> set_lib.more g' = set_lib.more g)"

text \<open>The results of the in-place updates, as functions.\<close>

definition bit_set :: "Set_Vector \<Rightarrow> nat \<Rightarrow> Set_Vector" where
  "bit_set w k = w[k div 32 := w ! (k div 32) OR push_bit (k mod 32) 1]"

definition bit_clear :: "Set_Vector \<Rightarrow> nat \<Rightarrow> Set_Vector" where
  "bit_clear w k = w[k div 32 := w ! (k div 32) AND NOT (push_bit (k mod 32) 1)]"

definition upd_slot :: "cset \<Rightarrow> bool \<Rightarrow> nat \<Rightarrow> Set_Vector option \<Rightarrow> cset" where
  "upd_slot s b i v = s\<lparr>varray := (varray s)(b := map_option (\<lambda>va. va[i := v]) (varray s b))\<rparr>"

section \<open>Arithmetic of elements\<close>

lemma Set_INDEX_mod: "Set_INDEX x = x mod 256"
proof -
  have "x AND 255 = take_bit 8 x"
    by (simp add: take_bit_eq_mask mask_eq_exp_minus_1)
  then show ?thesis by (simp add: Set_INDEX_def take_bit_eq_mod)
qed

lemma Set_BIT_SELECT_mod: "Set_BIT_SELECT x = x mod 32"
proof -
  have "x AND 31 = take_bit 5 x"
    by (simp add: take_bit_eq_mask mask_eq_exp_minus_1)
  then show ?thesis by (simp add: Set_BIT_SELECT_def take_bit_eq_mod)
qed

lemma Set_BASE_div: "Set_BASE x = x div 256"
  by (simp add: Set_BASE_def drop_bit_eq_div)

lemma Set_WORD_SELECT_div: "Set_WORD_SELECT x = x div 32"
  by (simp add: Set_WORD_SELECT_def drop_bit_eq_div)

lemma Set_CONSTRUCT_BASE_mult: "Set_CONSTRUCT_BASE x = 256 * x"
  by (simp add: Set_CONSTRUCT_BASE_def push_bit_eq_mult)

lemmas set_arith = Set_INDEX_mod Set_BIT_SELECT_mod Set_BASE_div Set_WORD_SELECT_div
  Set_CONSTRUCT_BASE_mult

lemma SIGN_less [simp]: "SIGN x = (x < 0)"
  by (auto simp: SIGN_def)

lemma wp_ABS [simp]: "wp (ABS x) Q g = (x \<noteq> INT_MIN \<and> Q \<bar>x\<bar> g)"
  by (auto simp: ABS_def INT_MIN_def)

lemma ABS_INT_MIN: "ABS INT_MIN = fail Int_Overflow"
  by (simp add: ABS_def INT_MIN_def)

lemma nat_abs_div [simp]: "nat (\<bar>x\<bar> div 256) = nat \<bar>x\<bar> div 256"
  by (simp add: nat_div_distrib)

lemma select_bound: "nat (\<bar>x\<bar> mod 256 div 32) < 8"
proof -
  have "\<bar>x\<bar> mod 256 < 256" and "0 \<le> \<bar>x\<bar> mod 256" by simp_all
  then show ?thesis by (simp add: nat_less_iff)
qed

lemma select_nat: "nat (\<bar>x\<bar> mod 256 div 32) = nat \<bar>x\<bar> mod 256 div 32"
  by (simp add: nat_div_distrib nat_mod_distrib)

lemma bit_nat: "nat (\<bar>x\<bar> mod 256 mod 32) = nat \<bar>x\<bar> mod 256 mod 32"
  by (simp add: nat_mod_distrib)

section \<open>Bits of a vector\<close>

lemma wf_vec_simps [simp]:
  "wf_vec None" "wf_vec (Some w) = (length w = 8)"
  by (simp_all add: wf_vec_def Set_VECTOR_SIZE_def)

lemma vbit_None [simp]: "vbit None k = False"
  by (simp add: vbit_def)

lemma vbit_new [simp]: "k < 256 \<Longrightarrow> vbit (Some (replicate 8 0)) k = False"
  by (simp add: vbit_def)

lemma k_div_32: "k mod 256 div 32 < (8::nat)"
  by (simp add: div_less_iff_less_mult)

lemma k_div_32': "k < 256 \<Longrightarrow> k div 32 < (8::nat)"
  by (simp add: div_less_iff_less_mult)

lemma vbit_eq_iff_index: "(j div 32 = k div 32 \<and> j mod 32 = k mod 32) = (j = (k::nat))"
  by (metis div_mult_mod_eq)

lemma wp_ReadBit [simp]:
  "length w = 8 \<Longrightarrow>
   wp (ReadBit w x) Q g = (x \<noteq> INT_MIN \<and> Q (vbit (Some w) (nat \<bar>x\<bar> mod 256)) g)"
  by (auto simp: ReadBit_def Let_def set_arith select_bound vbit_def select_nat bit_nat
      k_div_32 and_exp_eq_0_iff_not_bit)

lemma length_bit_set [simp]: "length (bit_set w k) = length w"
  by (simp add: bit_set_def)

lemma length_bit_clear [simp]: "length (bit_clear w k) = length w"
  by (simp add: bit_clear_def)

lemma wp_SetBit [simp]:
  "length w = 8 \<Longrightarrow>
   wp (SetBit w x) Q g = (x \<noteq> INT_MIN \<and> Q (bit_set w (nat \<bar>x\<bar> mod 256)) g)"
  by (auto simp: SetBit_def Let_def set_arith select_bound select_nat bit_nat
      k_div_32 bit_set_def)

lemma wp_ClearBit [simp]:
  "length w = 8 \<Longrightarrow>
   wp (ClearBit w x) Q g = (x \<noteq> INT_MIN \<and> Q (bit_clear w (nat \<bar>x\<bar> mod 256)) g)"
  by (auto simp: ClearBit_def Let_def set_arith select_bound select_nat bit_nat
      k_div_32 bit_clear_def)

lemma vbit_bit_set:
  assumes "length w = 8" "j < 256" "k < 256"
  shows "vbit (Some (bit_set w k)) j = (j = k \<or> vbit (Some w) j)"
proof (cases "j div 32 = k div 32")
  case True
  have "j = k \<longleftrightarrow> j mod 32 = k mod 32"
    using True vbit_eq_iff_index by metis
  with True assms show ?thesis
    by (auto simp: vbit_def bit_set_def k_div_32' bit_simps)
next
  case False
  with assms show ?thesis by (auto simp: vbit_def bit_set_def)
qed

lemma vbit_bit_clear:
  assumes "length w = 8" "j < 256" "k < 256"
  shows "vbit (Some (bit_clear w k)) j = (j \<noteq> k \<and> vbit (Some w) j)"
proof (cases "j div 32 = k div 32")
  case True
  have "j = k \<longleftrightarrow> j mod 32 = k mod 32"
    using True vbit_eq_iff_index by metis
  with True assms show ?thesis
    by (auto simp: vbit_def bit_clear_def k_div_32' bit_simps)
next
  case False
  with assms show ?thesis by (auto simp: vbit_def bit_clear_def)
qed

section \<open>Slots of a descriptor\<close>

lemma wf_arrD: "wf_arr s \<Longrightarrow> wf_side (max_base s b) (varray s b)"
  by (cases b) (simp_all add: wf_arr_def)

lemma wf_arr_Some: "wf_arr s \<Longrightarrow> i < max_base s b \<Longrightarrow>
    \<exists>va. varray s b = Some va \<and> length va = max_base s b \<and> slot s b i = va ! i \<and> wf_vec (va ! i)"
  using wf_arrD [of s b]
  by (auto simp: wf_side_def slot_def list_all_length split: option.splits)

lemma wf_arr_None: "wf_arr s \<Longrightarrow> varray s b = None \<longleftrightarrow> max_base s b = 0"
  using wf_arrD [of s b] by (auto simp: wf_side_def split: option.splits)

lemma wf_arr_pos: "wf_arr s \<Longrightarrow> 8 \<le> max_base s False"
  by (auto simp: wf_arr_def wf_side_def dvd_imp_le)

lemma wf_arr_dvd: "wf_arr s \<Longrightarrow> 8 dvd max_base s b"
  using wf_arrD [of s b] by (auto simp: wf_side_def split: option.splits)

lemma slot_outside: "wf_arr s \<Longrightarrow> max_base s b \<le> i \<Longrightarrow> slot s b i = None"
  using wf_arrD [of s b] by (auto simp: wf_side_def slot_def split: option.splits)

lemma slot_wf_vec [simp]: "wf_arr s \<Longrightarrow> wf_vec (slot s b i)"
  using wf_arr_Some [of s i b] slot_outside [of s b i] by (cases "i < max_base s b") auto

lemma slot_length: "wf_arr s \<Longrightarrow> slot s b i = Some w \<Longrightarrow> length w = 8"
  using slot_wf_vec [of s b i] by simp

lemma wp_slot_get:
  "wf_arr s \<Longrightarrow> i < max_base s b \<Longrightarrow> wp (array_get (varray s b) i) Q g = Q (slot s b i) g"
  using wf_arr_Some [of s i b] by (auto simp: wp_array_get)

lemma upd_slot_frame [simp]:
  "max_base (upd_slot s b i v) = max_base s" "set_id (upd_slot s b i v) = set_id s"
  by (simp_all add: upd_slot_def)

lemma wp_put_vector:
  "wf_arr s \<Longrightarrow> i < max_base s b \<Longrightarrow> wp (put_vector s b i v) Q g = Q (upd_slot s b i v) g"
  using wf_arr_Some [of s i b] by (auto simp: put_vector_def upd_slot_def wp_array_put)

lemma slot_upd_slot:
  "wf_arr s \<Longrightarrow> i < max_base s b \<Longrightarrow>
   slot (upd_slot s b i v) c j = (if c = b \<and> j = i then v else slot s c j)"
  using wf_arr_Some [of s i b] by (auto simp: upd_slot_def slot_def nth_list_update)

lemma list_all_update: "list_all P xs \<Longrightarrow> P x \<Longrightarrow> list_all P (xs[i := x])"
  by (auto simp: list_all_iff dest: set_update_subset_insert [THEN subsetD])

lemma wf_upd_slot: "wf_arr s \<Longrightarrow> wf_vec v \<Longrightarrow> wf_arr (upd_slot s b i v)"
  by (cases b) (auto simp: wf_arr_def wf_side_def upd_slot_def list_all_update
      split: option.splits)

section \<open>Allocation keeps the library's books\<close>

lemma lib_same_refl [simp]: "lib_same g g"
  by (simp add: lib_same_def)

lemma lib_same_trans: "lib_same g g' \<Longrightarrow> lib_same g' g'' \<Longrightarrow> lib_same g g''"
  by (simp add: lib_same_def)

lemma lib_ext_refl [simp]: "lib_ext g g"
  by (simp add: lib_ext_def)

lemma lib_ext_trans: "lib_ext g g' \<Longrightarrow> lib_ext g' g'' \<Longrightarrow> lib_ext g g''"
  by (simp add: lib_ext_def)

lemma lib_same_ext: "lib_same g g' \<Longrightarrow> lib_ext g g'"
  by (simp add: lib_ext_def lib_same_def)

lemma NewVArray_wp [wp_rules]:
  "(\<And>g'. lib_same g g' \<Longrightarrow> Q (replicate n None) g') \<Longrightarrow> wp (NewVArray n) Q g"
  by (auto simp: NewVArray_def lib_same_def)

lemma FreeVArray_wp [wp_rules]:
  "(\<And>g'. lib_same g g' \<Longrightarrow> Q () g') \<Longrightarrow> wp (FreeVArray n va) Q g"
  by (simp add: FreeVArray_def lib_same_def)

lemma enlarged_size_eq: "enlarged_size n = 8 * (n div 8 + 1)"
  by (simp add: enlarged_size_def push_bit_eq_mult drop_bit_eq_div)

lemma enlarged_size_gt [simp]: "n < enlarged_size n"
  by (simp add: enlarged_size_eq)

lemma le_enlarged_size: "m \<le> n \<Longrightarrow> m \<le> enlarged_size n"
  using enlarged_size_gt [of n] by linarith

lemma enlarged_size_pos [simp]: "0 < enlarged_size n" "8 dvd enlarged_size n"
  by (simp_all add: enlarged_size_eq)

lemma enlarged_size_exact: "8 dvd n \<Longrightarrow> 0 < n \<Longrightarrow> enlarged_size (n - Suc 0) = n"
proof (elim dvdE)
  fix m assume "0 < n" "n = 8 * m"
  then show ?thesis by (cases m) (simp_all add: enlarged_size_eq)
qed

lemma memcpy_varray_wp [wp_rules]:
  assumes "wf_side mb va" "mb \<le> m"
    and "\<And>xs. length xs = m \<Longrightarrow> list_all wf_vec xs \<Longrightarrow>
      (\<forall>i. (if i < length xs then xs ! i else None) =
           (case va of None \<Rightarrow> None | Some ys \<Rightarrow> if i < length ys then ys ! i else None)) \<Longrightarrow> Q xs g"
  shows "wp (memcpy_varray (replicate m None) va mb) Q g"
proof (cases va)
  case None
  with assms(1) have "mb = 0" by (simp add: wf_side_def)
  with None assms(3) [of "replicate m None"] show ?thesis
    by (simp add: memcpy_varray_def list_all_length)
next
  case (Some ys)
  let ?xs = "ys @ drop mb (replicate m None)"
  from Some assms(1) have "length ys = mb" "0 < mb" "list_all wf_vec ys"
    by (auto simp: wf_side_def)
  moreover from this assms(2) have "Q ?xs g"
    by (intro assms(3)) (auto simp: Some nth_append list_all_iff)
  ultimately show ?thesis
    using Some assms(2) by (simp add: memcpy_varray_def)
qed

lemma EnlargeVArray_wp [wp_rules]:
  assumes "wf_side mb va" "mb \<le> enlarged_size sz"
    and "\<And>xs g'. length xs = enlarged_size sz \<Longrightarrow> list_all wf_vec xs \<Longrightarrow>
      (\<forall>i. (if i < length xs then xs ! i else None) =
           (case va of None \<Rightarrow> None | Some ys \<Rightarrow> if i < length ys then ys ! i else None)) \<Longrightarrow>
      lib_same g g' \<Longrightarrow> Q (enlarged_size sz, Some xs) g'"
  shows "wp (EnlargeVArray sz mb va) Q g"
  unfolding EnlargeVArray_def Let_def wp_bnd
  by (intro NewVArray_wp memcpy_varray_wp [OF assms(1,2)] FreeVArray_wp)
     (simp add: assms(3) lib_same_trans)

lemma EnlargeSide_wp [wp_rules]:
  assumes wf: "wf_arr s" and le: "max_base s b \<le> enlarged_size sz"
    and post: "\<And>s' g'. wf_arr s' \<Longrightarrow> slot s' = slot s \<Longrightarrow>
      max_base s' = (max_base s)(b := enlarged_size sz) \<Longrightarrow> set_id s' = set_id s \<Longrightarrow>
      lib_same g g' \<Longrightarrow> Q s' g'"
  shows "wp (EnlargeSide s b sz) Q g"
  unfolding EnlargeSide_def wp_bnd
proof (rule EnlargeVArray_wp [OF wf_arrD [OF wf] le])
  fix xs g'
  assume len: "length xs = enlarged_size sz" and vecs: "list_all wf_vec xs"
    and eq: "\<forall>i. (if i < length xs then xs ! i else None) =
      (case varray s b of None \<Rightarrow> None | Some ys \<Rightarrow> if i < length ys then ys ! i else None)"
    and same: "lib_same g g'"
  let ?s = "s\<lparr>max_base := (max_base s)(b := enlarged_size sz), varray := (varray s)(b := Some xs)\<rparr>"
  have "wf_arr ?s"
    using wf len vecs by (cases b) (auto simp: wf_arr_def wf_side_def)
  moreover have "slot ?s = slot s"
    using eq by (intro ext) (auto simp: slot_def)
  ultimately show "wp (ret (s\<lparr>max_base := (max_base s)(b := fst (enlarged_size sz, Some xs)),
      varray := (varray s)(b := snd (enlarged_size sz, Some xs))\<rparr>)) Q g'"
    using same by (simp add: post)
qed

lemma NewVector_wp [simp]: "wp NewVector Q g = Q (replicate 8 0) g"
  by (simp add: NewVector_def Set_VECTOR_SIZE_def)

text \<open>A fresh descriptor: no vector on either side, eight positions on the first.\<close>

definition fresh_set :: "'z set_lib_scheme \<Rightarrow> cset \<Rightarrow> 'z set_lib_scheme \<Rightarrow> bool" where
  "fresh_set g s g' = (wf_arr s \<and> slot s = (\<lambda>_ _. None) \<and> set_id s = SetId g \<and>
     max_base s = (\<lambda>b. if b then 0 else 8) \<and> SetId g' = SetId g + 1 \<and> lib_ext g g')"

lemma NewSet_wp [wp_rules]:
  assumes "\<And>s g'. fresh_set g s g' \<Longrightarrow> Q s g'"
  shows "wp NewSet Q g"
  unfolding NewSet_def wp_bnd
proof (rule NewVArray_wp, simp, rule assms)
  fix g' assume "lib_same g g'"
  then show "fresh_set g
      \<lparr>max_base = \<lambda>b. if b then 0 else Set_VARRAY_SIZE,
       varray = \<lambda>b. if b then None else Some (replicate Set_VARRAY_SIZE None), set_id = SetId g'\<rparr>
      (g'\<lparr>SetId := SetId g' + 1\<rparr>)"
    by (auto simp: fresh_set_def lib_same_def lib_ext_def wf_arr_def wf_side_def slot_def
        Set_VARRAY_SIZE_def list_all_length intro!: ext)
qed

section \<open>Membership, insertion, deletion\<close>

lemma elems_simps [simp]: "elems None = {}" "e \<in> elems (Some s) \<longleftrightarrow> has s (e < 0) (nat \<bar>e\<bar>)"
  by (simp_all add: elems_def)

lemma wf_set_simps [simp]: "wf_set None" "wf_set (Some s) = wf_cset s"
  by (simp_all add: wf_set_def)

lemma wf_csetD [dest]: "wf_cset s \<Longrightarrow> wf_arr s"
  by (simp add: wf_cset_def)

lemma wp_option_case:
  "wp (case v of None \<Rightarrow> m | Some x \<Rightarrow> f x) Q g =
   (case v of None \<Rightarrow> wp m Q g | Some x \<Rightarrow> wp (f x) Q g)"
  by (simp split: option.split)

lemma wp_Set_in:
  assumes "wf_set st" "x \<noteq> INT_MIN"
  shows "wp (Set_in st x) Q g = Q (x \<in> elems st) g"
proof (cases st)
  case None
  then show ?thesis by (simp add: Set_in_def)
next
  case (Some s)
  with assms have wf: "wf_arr s" by auto
  show ?thesis
  proof (cases "nat \<bar>x\<bar> div 256 < max_base s (x < 0)")
    case True
    with Some wf assms(2) show ?thesis
      by (simp add: Set_in_def Let_def set_arith wp_slot_get wp_option_case has_def slot_length
          split: option.split)
  next
    case False
    with Some wf assms(2) show ?thesis
      by (simp add: Set_in_def Let_def set_arith has_def slot_outside)
  qed
qed

lemma has_upd_slot:
  "wf_arr s \<Longrightarrow> i < max_base s b \<Longrightarrow>
   has (upd_slot s b i v) c m = (if c = b \<and> m div 256 = i then vbit v (m mod 256) else has s c m)"
  by (simp add: has_def slot_upd_slot)

lemma div_mod_256: "(m div 256 = n div 256 \<and> m mod 256 = n mod 256) = (m = (n::nat))"
  by (metis div_mult_mod_eq)

lemma same_element: "((e < 0) = (x < 0) \<and> nat \<bar>e\<bar> = nat \<bar>x\<bar>) = (e = (x::int))"
  by auto

lemma elems_insertI:
  assumes "\<And>c m. has s' c m = (c = (x < 0) \<and> m = nat \<bar>x\<bar> \<or> has s c m)"
  shows "elems (Some s') = insert x (elems (Some s))"
  by (rule set_eqI) (simp add: assms same_element)

lemma elems_removeI:
  assumes "\<And>c m. has s' c m = ((c \<noteq> (x < 0) \<or> m \<noteq> nat \<bar>x\<bar>) \<and> has s c m)"
  shows "elems (Some s') = elems (Some s) - {x}"
  using same_element by (intro set_eqI) (simp add: assms, blast)

lemma has_bit_set:
  assumes "wf_arr s" "n div 256 < max_base s b"
    and "w = (case slot s b (n div 256) of None \<Rightarrow> replicate 8 0 | Some w \<Rightarrow> w)"
  shows "has (upd_slot s b (n div 256) (Some (bit_set w (n mod 256)))) c m =
    (c = b \<and> m = n \<or> has s c m)"
proof (cases "c = b \<and> m div 256 = n div 256")
  case True
  have "length w = 8"
    using assms(1,3) by (auto split: option.splits dest: slot_length)
  moreover have "vbit (Some w) (m mod 256) = vbit (slot s b (n div 256)) (m mod 256)"
    using assms(3) by (auto split: option.splits)
  ultimately show ?thesis
    using True assms(1,2) div_mod_256 [of m n]
    by (auto simp: has_upd_slot vbit_bit_set) (auto simp: has_def)
next
  case False
  with assms(1,2) show ?thesis by (auto simp: has_upd_slot)
qed

lemma has_bit_clear:
  assumes "wf_arr s" "n div 256 < max_base s b" "slot s b (n div 256) = Some w"
  shows "has (upd_slot s b (n div 256) (Some (bit_clear w (n mod 256)))) c m =
    ((c \<noteq> b \<or> m \<noteq> n) \<and> has s c m)"
proof (cases "c = b \<and> m div 256 = n div 256")
  case True
  have "length w = 8"
    using assms(1,3) by (auto dest: slot_length)
  then show ?thesis
    using True assms div_mod_256 [of m n]
    by (auto simp: has_upd_slot vbit_bit_clear) (auto simp: has_def)
next
  case False
  with assms(1,2) show ?thesis by (auto simp: has_upd_slot)
qed

lemma Set_add_Some_wp:
  assumes wf: "wf_cset s" and x: "x \<noteq> INT_MIN"
    and post: "\<And>s' g'. wf_cset s' \<Longrightarrow> elems (Some s') = insert x (elems (Some s)) \<Longrightarrow>
      set_id s' = set_id s \<Longrightarrow> lib_same g g' \<Longrightarrow> Q (Some s') g'"
  shows "wp (Set_add (Some s) x) Q g"
proof -
  let ?b = "x < 0" and ?n = "nat \<bar>x\<bar>"
  let ?grow = "if ?n div 256 \<ge> max_base s ?b then EnlargeSide s ?b (?n div 256) else ret s"
  let ?post = "\<lambda>s' g'. wf_arr s' \<and> slot s' = slot s \<and> set_id s' = set_id s \<and>
    ?n div 256 < max_base s' ?b \<and> lib_same g g'"
  have grow: "wp ?grow ?post g"
    using wf by (auto intro!: EnlargeSide_wp le_enlarged_size)
  let ?rest = "\<lambda>s'. bnd (array_get (varray s' ?b) (?n div 256)) (\<lambda>v.
       bnd (case v of None \<Rightarrow> NewVector | Some w \<Rightarrow> ret w) (\<lambda>w.
       bnd (SetBit w x) (\<lambda>w.
       bnd (put_vector s' ?b (?n div 256) (Some w)) (\<lambda>s. ret (Some s)))))"
  have rest: "wp (?rest s') Q g'"
    if "?post s' g'" for s' g'
  proof -
    from that have s': "wf_arr s'" "slot s' = slot s" "set_id s' = set_id s"
      "?n div 256 < max_base s' ?b" "lib_same g g'" by auto
    let ?w = "case slot s' ?b (?n div 256) of None \<Rightarrow> replicate 8 0 | Some w \<Rightarrow> w"
    let ?s = "upd_slot s' ?b (?n div 256) (Some (bit_set ?w (?n mod 256)))"
    have len: "length ?w = 8"
      using s'(1) by (auto split: option.splits dest: slot_length)
    have has: "has ?s c m = (c = ?b \<and> m = ?n \<or> has s c m)" for c m
      using has_bit_set [OF s'(1,4) refl] s'(2) by (simp add: has_def)
    have "wf_cset ?s"
      using wf s'(1) len has [of True 0] by (auto simp: wf_cset_def wf_upd_slot)
    moreover have "elems (Some ?s) = insert x (elems (Some s))"
      by (rule elems_insertI) (rule has)
    ultimately have "Q (Some ?s) g'"
      using s' by (intro post) auto
    then show ?thesis
      using s' x len by (auto simp: wp_slot_get wp_put_vector wp_option_case split: option.splits)
  qed
  have "wp (bnd ?grow ?rest) Q g"
    by (rule wp_seq [OF grow rest])
  with x show ?thesis
    by (simp add: Set_add_def Let_def set_arith split: if_splits)
qed

lemma fresh_set_empty:
  assumes "fresh_set g s g'"
  shows "wf_cset s" "elems (Some s) = {}" "set_id s = SetId g" "SetId g' = SetId g + 1" "lib_ext g g'"
  using assms by (auto simp: fresh_set_def wf_cset_def has_def elems_def)

lemma Set_add_None: "Set_add None x = bnd NewSet (\<lambda>s. Set_add (Some s) x)"
  by (simp add: Set_add_def)

lemma Set_add_wp [wp_rules]:
  assumes wf: "wf_set st" and x: "x \<noteq> INT_MIN"
    and post: "\<And>st' g'. acc_set g st (insert x (elems st)) st' g' \<Longrightarrow> Q st' g'"
  shows "wp (Set_add st x) Q g"
proof (cases st)
  case (Some s)
  with wf show ?thesis
    by (auto intro!: Set_add_Some_wp [OF _ x] post simp: acc_set_def)
next
  case None
  have "wp (Set_add (Some s) x) Q g'" if "fresh_set g s g'" for s g'
    using fresh_set_empty [OF that]
    by (intro Set_add_Some_wp [OF _ x] post)
       (auto simp: None acc_set_def new_set_def lib_same_def lib_ext_def)
  then show ?thesis
    unfolding None Set_add_None wp_bnd by (rule NewSet_wp)
qed

lemma wp_Set_delete:
  assumes wf: "wf_set st" and x: "x \<noteq> INT_MIN"
    and post: "\<And>st'. wf_set st' \<Longrightarrow> elems st' = elems st - {x} \<Longrightarrow>
      map_option set_id st' = map_option set_id st \<Longrightarrow> Q st' g"
  shows "wp (Set_delete st x) Q g"
proof (cases st)
  case None
  with post [of None] show ?thesis by (simp add: Set_delete_def)
next
  case (Some s)
  let ?b = "x < 0" and ?n = "nat \<bar>x\<bar>"
  from Some wf have wfs: "wf_cset s" "wf_arr s" by auto
  have absent: "Q st g" if "slot s ?b (?n div 256) = None"
  proof (rule post)
    show "elems st = elems st - {x}"
      using that by (simp add: Some has_def)
  qed (simp_all add: wf)
  show ?thesis
  proof (cases "?n div 256 < max_base s ?b")
    case False
    with Some x wfs absent show ?thesis
      by (simp add: Set_delete_def Let_def set_arith slot_outside)
  next
    case True
    have "Q (Some (upd_slot s ?b (?n div 256) (Some (bit_clear w (?n mod 256))))) g"
      if w: "slot s ?b (?n div 256) = Some w" for w
    proof (rule post)
      show "wf_set (Some (upd_slot s ?b (?n div 256) (Some (bit_clear w (?n mod 256)))))"
        using wfs slot_length [OF wfs(2) w]
        by (simp add: wf_cset_def wf_upd_slot has_bit_clear [OF wfs(2) True w])
      show "elems (Some (upd_slot s ?b (?n div 256) (Some (bit_clear w (?n mod 256))))) = elems st - {x}"
        unfolding Some by (rule elems_removeI) (rule has_bit_clear [OF wfs(2) True w])
    qed (simp add: Some)
    with True Some x wfs absent show ?thesis
      by (auto simp: Set_delete_def Let_def set_arith wp_slot_get wp_put_vector wp_option_case
          slot_length split: option.split)
  qed
qed

section \<open>Disposal\<close>

lemma acc_set_OUT:
  assumes "acc_set g st X st' g'"
  shows "wf_set st'" "elems st' = X" "lib_ext g g'"
  using assms by (auto simp: acc_set_def new_set_def lib_same_ext split: option.splits)

lemma FreeVectors_wp:
  assumes "wf_arr s" and "Q () g"
  shows "wp (for_each (\<lambda>i _. bnd (array_get (varray s b) i) (\<lambda>v.
      case v of None \<Rightarrow> ret () | Some w \<Rightarrow> FreeVector v)) [0..<max_base s b] ()) Q g"
  by (rule wp_for_upto [where I = "\<lambda>_ _ g'. g' = g"])
     (use assms in \<open>auto simp: wp_slot_get wp_option_case FreeVector_def split: option.split\<close>)

lemma FreeSides_wp:
  assumes "wf_arr s" and "\<And>g'. lib_same g g' \<Longrightarrow> Q () g'"
  shows "wp (FreeSides s) Q g"
  unfolding FreeSides_def
  by (rule wp_for_each [where I = "\<lambda>_ _ g'. lib_same g g'"])
     (use assms in \<open>auto intro!: FreeVectors_wp FreeVArray_wp intro: lib_same_trans\<close>)

lemma Set_dispose_wp [wp_rules]:
  assumes lib: "wf_lib g" and st: "live g st"
    and post: "\<And>g'. freed g st g' \<Longrightarrow> Q None g'"
  shows "wp (Set_dispose st) Q g"
proof (cases st)
  case None
  with lib post [of g] show ?thesis
    by (simp add: Set_dispose_def freed_def wf_lib_def)
next
  case (Some s)
  from st Some have s: "wf_arr s" "0 \<le> set_id s" "set_id s \<notin> elems (OUT g)"
    by (auto simp: live_def)
  then have id: "set_id s \<noteq> INT_MIN" by (simp add: INT_MIN_def)
  from lib have out: "wf_set (OUT g)" by (simp add: wf_lib_def)
  have "Q None g''"
    if "acc_set g (OUT g) (insert (set_id s) (elems (OUT g))) st' g'"
      "lib_same (g'\<lparr>OUT := st'\<rparr>) g''" for st' g' g''
    using that acc_set_OUT [OF that(1)]
    by (intro post) (auto simp: freed_def Some lib_same_def lib_ext_def)
  then show ?thesis
    using s id out
    by (auto simp: Set_dispose_def FreeSet_def Some wp_Set_in
        intro!: Set_add_wp FreeSides_wp)
qed

lemma wf_lib_freed: "wf_lib g \<Longrightarrow> live g st \<Longrightarrow> freed g st g' \<Longrightarrow> wf_lib g'"
  by (cases st) (auto simp: wf_lib_def live_def freed_def)

lemma live_freed:
  "live g t \<Longrightarrow> freed g st g' \<Longrightarrow> (\<And>a b. t = Some a \<Longrightarrow> st = Some b \<Longrightarrow> set_id a \<noteq> set_id b) \<Longrightarrow>
   live g' t"
  by (cases st) (auto simp: live_def freed_def split: option.splits)

lemma wf_lib_ext: "wf_lib g \<Longrightarrow> lib_ext g g' \<Longrightarrow> wf_lib g'"
  by (auto simp: wf_lib_def lib_ext_def)

lemma live_ext: "live g st \<Longrightarrow> lib_ext g g' \<Longrightarrow> live g' st"
  by (auto simp: live_def lib_ext_def split: option.splits)

lemma live_wf: "live g st \<Longrightarrow> wf_set st"
  by (auto simp: live_def split: option.splits)

lemma live_new_set: "wf_lib g \<Longrightarrow> new_set g X st g' \<Longrightarrow> live g' st"
  by (auto simp: wf_lib_def new_set_def live_def lib_ext_def)

end
