(* ===== verification/Set_Algebra.thy ===== *)
theory Set_Algebra
  imports Set_Base
begin

text \<open>
  The set algebra of \<open>src/src/library/libflow/set.c\<close>: copy, union, intersection, subtraction and
  their accumulating and testing variants.

  The C code handles a vector as eight words read into \<open>t0 .. t7\<close>, combined word by word and
  written back; here the eight words are the list they stand in and the combination is
  \<open>map2\<close>. Each loop over the positions of one side is a definition of its own, and the
  library functions run it for the two sides in the code's order.

  Every operation is shown to return, without touching memory outside its arrays, a
  descriptor whose elements are the mathematical union, intersection or difference, and to
  number new descriptors only. \<open>Set_intersect_acc\<close> is the exception: it keeps the negative
  elements of its first argument when the second has no negative side.
\<close>

section \<open>Vectors\<close>

definition vec_or :: "Set_Vector \<Rightarrow> Set_Vector \<Rightarrow> Set_Vector" where
  "vec_or v w = map2 (\<lambda>x y. x OR y) v w"

definition vec_and :: "Set_Vector \<Rightarrow> Set_Vector \<Rightarrow> Set_Vector" where
  "vec_and v w = map2 (\<lambda>x y. x AND y) v w"

definition vec_diff :: "Set_Vector \<Rightarrow> Set_Vector \<Rightarrow> Set_Vector" where
  "vec_diff v w = map2 (\<lambda>x y. x AND NOT y) v w"

text \<open>\<open>all = ((t0 | t1) | (t2 | t3)) | ((t4 | t5) | (t6 | t7))\<close>\<close>

definition vec_all :: "Set_Vector \<Rightarrow> word32" where
  "vec_all t = ((t ! 0 OR t ! 1) OR (t ! 2 OR t ! 3)) OR ((t ! 4 OR t ! 5) OR (t ! 6 OR t ! 7))"

text \<open>\<open>t0 || t1 || t2 || t3 || t4 || t5 || t6 || t7\<close>\<close>

definition vec_any :: "Set_Vector \<Rightarrow> bool" where
  "vec_any t = (t ! 0 \<noteq> 0 \<or> t ! 1 \<noteq> 0 \<or> t ! 2 \<noteq> 0 \<or> t ! 3 \<noteq> 0 \<or>
                t ! 4 \<noteq> 0 \<or> t ! 5 \<noteq> 0 \<or> t ! 6 \<noteq> 0 \<or> t ! 7 \<noteq> 0)"

text \<open>\<open>vn = set->varray[b][i] = NewVector ()\<close>, then \<open>t0 .. t7\<close> written into it.\<close>

definition store_new :: "cset \<Rightarrow> bool \<Rightarrow> nat \<Rightarrow> Set_Vector \<Rightarrow> ('s, cset) prog" where
  "store_new s b i t = bnd NewVector (\<lambda>vn. put_vector s b i (Some (map2 (\<lambda>_ x. x) vn t)))"

text \<open>\<open>if (i >= set->max_base[b]) EnlargeVArray (i, ...)\<close>\<close>

definition ensure_side :: "cset \<Rightarrow> bool \<Rightarrow> nat \<Rightarrow> ('z set_lib_scheme, cset) prog" where
  "ensure_side s b i = (if i \<ge> max_base s b then EnlargeSide s b i else ret s)"

section \<open>Copy and union\<close>

definition copy_side :: "cset \<Rightarrow> bool \<Rightarrow> cset \<Rightarrow> ('s, cset) prog" where
  "copy_side f b t =
     (if varray f b = None then ret t
      else for_each (\<lambda>i t.
             bnd (array_get (varray f b) i) (\<lambda>fv.
             case fv of None \<Rightarrow> ret t | Some w \<Rightarrow> store_new t b i w))
           [0..<max_base f b] t)"

definition or_side :: "cset \<Rightarrow> bool \<Rightarrow> cset \<Rightarrow> ('s, cset) prog" where
  "or_side f b t =
     (if varray f b = None then ret t
      else for_each (\<lambda>i t.
             bnd (array_get (varray f b) i) (\<lambda>fv.
             case fv of None \<Rightarrow> ret t
             | Some w \<Rightarrow>
                 bnd (array_get (varray t b) i) (\<lambda>tv.
                 bnd (case tv of None \<Rightarrow> NewVector | Some tw \<Rightarrow> ret tw) (\<lambda>tw.
                 put_vector t b i (Some (vec_or tw w))))))
           [0..<max_base f b] t)"

definition Set_copy :: "Set \<Rightarrow> ('z set_lib_scheme, Set) prog" where
  "Set_copy set1 =
     (case set1 of None \<Rightarrow> ret None
      | Some f \<Rightarrow>
          bnd NewSet (\<lambda>new_set.
          bnd (for_each (\<lambda>b t.
                 if varray f b = None then ret t
                 else bnd (EnlargeSide t b (max_base f b - 1)) (\<lambda>t. copy_side f b t))
               [False, True] new_set) (\<lambda>t.
          ret (Some t))))"

definition max_sizes :: "Set \<Rightarrow> Set \<Rightarrow> nat \<times> nat" where
  "max_sizes set1 set2 =
     (case (set1, set2) of
        (Some s1, Some s2) \<Rightarrow>
          (max (max_base s1 False) (max_base s2 False), max (max_base s1 True) (max_base s2 True))
      | (Some s1, None) \<Rightarrow> (max_base s1 False, max_base s1 True)
      | (None, Some s2) \<Rightarrow> (max_base s2 False, max_base s2 True)
      | (None, None) \<Rightarrow> (0, 0))"

text \<open>\<open>NewSet\<close> followed by the two calls of \<open>EnlargeVArray\<close> that make room.\<close>

definition NewSetSized :: "nat \<Rightarrow> nat \<Rightarrow> ('z set_lib_scheme, cset) prog" where
  "NewSetSized pos_max neg_max =
     bnd NewSet (\<lambda>t.
     bnd (if pos_max > Set_VARRAY_SIZE then EnlargeSide t False (pos_max - 1) else ret t) (\<lambda>t.
     if neg_max > 0 then EnlargeSide t True (neg_max - 1) else ret t))"

definition Set_union :: "Set \<Rightarrow> Set \<Rightarrow> ('z set_lib_scheme, Set) prog" where
  "Set_union set1 set2 =
     (let (pos_max, neg_max) = max_sizes set1 set2 in
      bnd (NewSetSized pos_max neg_max) (\<lambda>t.
      bnd (case set1 of None \<Rightarrow> ret t
           | Some s1 \<Rightarrow> for_each (\<lambda>b t. copy_side s1 b t) [False, True] t) (\<lambda>t.
      bnd (case set2 of None \<Rightarrow> ret t
           | Some s2 \<Rightarrow> for_each (\<lambda>b t. or_side s2 b t) [False, True] t) (\<lambda>t.
      ret (Some t)))))"

definition union_acc_side :: "cset \<Rightarrow> bool \<Rightarrow> cset \<Rightarrow> ('z set_lib_scheme, cset) prog" where
  "union_acc_side f b t =
     (if varray f b = None then ret t
      else for_each (\<lambda>i t.
             bnd (array_get (varray f b) i) (\<lambda>fv.
             case fv of None \<Rightarrow> ret t
             | Some w \<Rightarrow>
                 if vec_any w then
                   bnd (ensure_side t b i) (\<lambda>t.
                   bnd (array_get (varray t b) i) (\<lambda>tv.
                   case tv of None \<Rightarrow> store_new t b i w
                   | Some tw \<Rightarrow> put_vector t b i (Some (vec_or tw w))))
                 else ret t))
           (rev [0..<max_base f b]) t)"

definition Set_union_acc :: "Set \<Rightarrow> Set \<Rightarrow> ('z set_lib_scheme, Set) prog" where
  "Set_union_acc set1 set2 =
     bnd (case set1 of None \<Rightarrow> NewSet | Some s1 \<Rightarrow> ret s1) (\<lambda>t.
     bnd (case set2 of None \<Rightarrow> ret t
          | Some s2 \<Rightarrow> for_each (\<lambda>b t. union_acc_side s2 b t) [False, True] t) (\<lambda>t.
     ret (Some t)))"

definition union_acc_ch_side ::
  "cset \<Rightarrow> bool \<Rightarrow> cset \<times> bool \<Rightarrow> ('z set_lib_scheme, cset \<times> bool) prog" where
  "union_acc_ch_side f b tc =
     (if varray f b = None then ret tc
      else for_each (\<lambda>i tc.
             let t = fst tc; change = snd tc in
             bnd (array_get (varray f b) i) (\<lambda>fv.
             case fv of None \<Rightarrow> ret tc
             | Some w \<Rightarrow>
                 if vec_all w \<noteq> 0 then
                   bnd (ensure_side t b i) (\<lambda>t.
                   bnd (array_get (varray t b) i) (\<lambda>tv.
                   case tv of None \<Rightarrow> bnd (store_new t b i w) (\<lambda>t. ret (t, True))
                   | Some tw \<Rightarrow>
                       let change = (if \<not> change then vec_any (vec_diff w tw) else change) in
                       bnd (put_vector t b i (Some (vec_or tw w))) (\<lambda>t. ret (t, change))))
                 else ret tc))
           [0..<max_base f b] tc)"

definition Set_union_acc_ch :: "Set \<Rightarrow> Set \<Rightarrow> ('z set_lib_scheme, Set \<times> bool) prog" where
  "Set_union_acc_ch set1 set2 =
     bnd (case set1 of None \<Rightarrow> NewSet | Some s1 \<Rightarrow> ret s1) (\<lambda>t.
     bnd (case set2 of None \<Rightarrow> ret (t, False)
          | Some s2 \<Rightarrow> for_each (\<lambda>b tc. union_acc_ch_side s2 b tc) [False, True] (t, False)) (\<lambda>tc.
     ret (Some (fst tc), snd tc)))"

section \<open>Intersection\<close>

definition intersect_side :: "cset \<Rightarrow> cset \<Rightarrow> bool \<Rightarrow> cset \<Rightarrow> ('z set_lib_scheme, cset) prog" where
  "intersect_side s1 s2 b t =
     (if varray s1 b = None then ret t
      else if varray s2 b = None then ret t
      else for_each (\<lambda>i t.
             bnd (array_get (varray s1 b) i) (\<lambda>v1.
             case v1 of None \<Rightarrow> ret t
             | Some w1 \<Rightarrow>
                 if i \<ge> max_base s2 b then ret t
                 else
                   bnd (array_get (varray s2 b) i) (\<lambda>v2.
                   case v2 of None \<Rightarrow> ret t
                   | Some w2 \<Rightarrow>
                       let u = vec_and w1 w2 in
                       if vec_all u \<noteq> 0 then
                         bnd (ensure_side t b i) (\<lambda>t. store_new t b i u)
                       else ret t)))
           [0..<max_base s1 b] t)"

definition Set_intersect :: "Set \<Rightarrow> Set \<Rightarrow> ('z set_lib_scheme, Set) prog" where
  "Set_intersect set1 set2 =
     (case (set1, set2) of
        (Some s1, Some s2) \<Rightarrow>
          bnd NewSet (\<lambda>t.
          bnd (for_each (\<lambda>b t. intersect_side s1 s2 b t) [False, True] t) (\<lambda>t.
          ret (Some t)))
      | _ \<Rightarrow> ret None)"

definition intersect_acc_side :: "cset \<Rightarrow> bool \<Rightarrow> cset \<Rightarrow> ('s, cset) prog" where
  "intersect_acc_side s2 b s1 =
     (if varray s1 b = None then ret s1
      else if varray s2 b = None then ret s1
      else for_each (\<lambda>i s1.
             bnd (array_get (varray s1 b) i) (\<lambda>v1.
             case v1 of None \<Rightarrow> ret s1
             | Some w1 \<Rightarrow>
                 bnd (if i \<ge> max_base s2 b then ret None else array_get (varray s2 b) i) (\<lambda>v2.
                 case v2 of None \<Rightarrow> bnd (FreeVector v1) (\<lambda>_. put_vector s1 b i None)
                 | Some w2 \<Rightarrow>
                     let u = vec_and w1 w2 in
                     if vec_all u \<noteq> 0 then put_vector s1 b i (Some u)
                     else bnd (FreeVector v1) (\<lambda>_. put_vector s1 b i None))))
           [0..<max_base s1 b] s1)"

definition Set_intersect_acc :: "Set \<Rightarrow> Set \<Rightarrow> ('z set_lib_scheme, Set) prog" where
  "Set_intersect_acc set1 set2 =
     (case set1 of None \<Rightarrow> ret None
      | Some s1 \<Rightarrow>
          (case set2 of None \<Rightarrow> Set_dispose set1
           | Some s2 \<Rightarrow>
               bnd (for_each (\<lambda>b t. intersect_acc_side s2 b t) [False, True] s1) (\<lambda>t.
               ret (Some t))))"

definition Set_intersect_empty :: "Set \<Rightarrow> Set \<Rightarrow> ('s, bool) prog" where
  "Set_intersect_empty set1 set2 =
     (case (set1, set2) of
        (Some s1, Some s2) \<Rightarrow>
          bnd (exists_prog (\<lambda>b.
                 if varray s1 b = None then ret False
                 else if varray s2 b = None then ret False
                 else exists_prog (\<lambda>i.
                        bnd (array_get (varray s1 b) i) (\<lambda>v1.
                        case v1 of None \<Rightarrow> ret False
                        | Some w1 \<Rightarrow>
                            if i \<ge> max_base s2 b then ret False
                            else bnd (array_get (varray s2 b) i) (\<lambda>v2.
                                 case v2 of None \<Rightarrow> ret False
                                 | Some w2 \<Rightarrow> ret (vec_all (vec_and w1 w2) \<noteq> 0))))
                      [0..<max_base s1 b])
               [False, True]) (\<lambda>found. ret (\<not> found))
      | _ \<Rightarrow> ret True)"

section \<open>Subtraction\<close>

text \<open>The words of \<open>v1\<close> without those of the vector at position \<open>i\<close> of \<open>set2\<close>, if it has one.\<close>

definition subtract_words :: "cset \<Rightarrow> bool \<Rightarrow> nat \<Rightarrow> Set_Vector \<Rightarrow> ('s, Set_Vector) prog" where
  "subtract_words s2 b i w1 =
     bnd (if varray s2 b = None \<or> i \<ge> max_base s2 b then ret None
          else array_get (varray s2 b) i) (\<lambda>v2.
     case v2 of None \<Rightarrow> ret w1 | Some w2 \<Rightarrow> ret (vec_diff w1 w2))"

definition Set_empty_side :: "cset \<Rightarrow> bool \<Rightarrow> ('s, bool) prog" where
  "Set_empty_side s b =
     (if varray s b = None then ret False
      else exists_prog (\<lambda>i.
             bnd (array_get (varray s b) i) (\<lambda>vc.
             case vc of None \<Rightarrow> ret False
             | Some w \<Rightarrow> exists_prog (\<lambda>j. bnd (array_get (Some w) j) (\<lambda>x. ret (x \<noteq> 0)))
                          [0..<Set_VECTOR_SIZE]))
           [0..<max_base s b])"

definition Set_empty :: "Set \<Rightarrow> ('s, bool) prog" where
  "Set_empty st =
     (case st of None \<Rightarrow> ret True
      | Some s \<Rightarrow> bnd (exists_prog (Set_empty_side s) [False, True]) (\<lambda>found. ret (\<not> found)))"

definition subtract_side :: "cset \<Rightarrow> cset \<Rightarrow> bool \<Rightarrow> cset \<Rightarrow> ('z set_lib_scheme, cset) prog" where
  "subtract_side s1 s2 b t =
     (if varray s1 b = None then ret t
      else for_each (\<lambda>i t.
             bnd (array_get (varray s1 b) i) (\<lambda>v1.
             case v1 of None \<Rightarrow> ret t
             | Some w1 \<Rightarrow>
                 bnd (subtract_words s2 b i w1) (\<lambda>u.
                 if vec_all u \<noteq> 0 then
                   bnd (ensure_side t b i) (\<lambda>t. store_new t b i u)
                 else ret t)))
           [0..<max_base s1 b] t)"

definition Set_subtract :: "Set \<Rightarrow> Set \<Rightarrow> ('z set_lib_scheme, Set) prog" where
  "Set_subtract set1 set2 =
     (case set1 of None \<Rightarrow> ret None
      | Some s1 \<Rightarrow>
          (case set2 of None \<Rightarrow> Set_union set1 None
           | Some s2 \<Rightarrow>
               bnd NewSet (\<lambda>t.
               bnd (for_each (\<lambda>b t. subtract_side s1 s2 b t) [False, True] t) (\<lambda>t.
               ret (Some t)))))"

text \<open>The loop that clears the bits of \<open>set2\<close> in \<open>set1\<close> where both have a vector.\<close>

definition clear_side :: "cset \<Rightarrow> bool \<Rightarrow> cset \<Rightarrow> ('s, cset) prog" where
  "clear_side s2 b s1 =
     for_each (\<lambda>i s1.
       bnd (array_get (varray s1 b) i) (\<lambda>v1.
       case v1 of None \<Rightarrow> ret s1
       | Some w1 \<Rightarrow>
           bnd (if varray s2 b = None \<or> i \<ge> max_base s2 b then ret None
                else array_get (varray s2 b) i) (\<lambda>v2.
           case v2 of None \<Rightarrow> ret s1
           | Some w2 \<Rightarrow> put_vector s1 b i (Some (vec_diff w1 w2)))))
     [0..<max_base s1 b] s1"

definition Set_subtract_acc :: "Set \<Rightarrow> Set \<Rightarrow> ('s, Set) prog" where
  "Set_subtract_acc set1 set2 =
     (case set1 of None \<Rightarrow> ret None
      | Some s1 \<Rightarrow>
          (case set2 of None \<Rightarrow> ret set1
           | Some s2 \<Rightarrow>
               bnd (for_each (\<lambda>b t. if varray t b = None then ret t else clear_side s2 b t)
                    [False, True] s1) (\<lambda>t.
               ret (Some t))))"

definition Set_subtract_empty :: "Set \<Rightarrow> Set \<Rightarrow> ('s, bool) prog" where
  "Set_subtract_empty set1 set2 =
     (case set1 of None \<Rightarrow> ret True
      | Some s1 \<Rightarrow>
          (case set2 of None \<Rightarrow> Set_empty set1
           | Some s2 \<Rightarrow>
               bnd (exists_prog (\<lambda>b.
                      if varray s1 b = None then ret False
                      else exists_prog (\<lambda>i.
                             bnd (array_get (varray s1 b) i) (\<lambda>v1.
                             case v1 of None \<Rightarrow> ret False
                             | Some w1 \<Rightarrow>
                                 bnd (subtract_words s2 b i w1) (\<lambda>u. ret (vec_all u \<noteq> 0))))
                           [0..<max_base s1 b])
                    [False, True]) (\<lambda>found. ret (\<not> found))))"

text \<open>The first inner loop of \<open>Set_subtract_union\<close>: the new set has room already.\<close>

definition subtract_into_side :: "cset \<Rightarrow> cset \<Rightarrow> bool \<Rightarrow> cset \<Rightarrow> ('s, cset) prog" where
  "subtract_into_side s1 s2 b t =
     for_each (\<lambda>i t.
       bnd (array_get (varray s1 b) i) (\<lambda>v1.
       case v1 of None \<Rightarrow> ret t
       | Some w1 \<Rightarrow>
           bnd (subtract_words s2 b i w1) (\<lambda>u.
           if vec_all u \<noteq> 0 then store_new t b i u else ret t)))
     [0..<max_base s1 b] t"

text \<open>The second inner loop of \<open>Set_subtract_union\<close> and \<open>Set_subtract_union_acc\<close>.\<close>

definition or_into_side :: "cset \<Rightarrow> bool \<Rightarrow> cset \<Rightarrow> ('s, cset) prog" where
  "or_into_side s3 b t =
     for_each (\<lambda>i t.
       bnd (array_get (varray s3 b) i) (\<lambda>v3.
       case v3 of None \<Rightarrow> ret t
       | Some w3 \<Rightarrow>
           bnd (array_get (varray t b) i) (\<lambda>vn.
           bnd (case vn of None \<Rightarrow> NewVector | Some w \<Rightarrow> ret w) (\<lambda>w.
           put_vector t b i (Some (vec_or w w3))))))
     [0..<max_base s3 b] t"

definition Set_subtract_union :: "Set \<Rightarrow> Set \<Rightarrow> Set \<Rightarrow> ('z set_lib_scheme, Set) prog" where
  "Set_subtract_union set1 set2 set3 =
     (case set1 of None \<Rightarrow> Set_union set3 None
      | Some s1 \<Rightarrow>
     (case set3 of None \<Rightarrow> Set_subtract set1 set2
      | Some s3 \<Rightarrow>
     (case set2 of None \<Rightarrow> Set_union set1 set3
      | Some s2 \<Rightarrow>
          let pos_max = max (max_base s1 False) (max_base s3 False);
              neg_max = max (max_base s1 True) (max_base s3 True) in
          bnd (NewSetSized pos_max neg_max) (\<lambda>t.
          bnd (for_each (\<lambda>b t.
                 bnd (subtract_into_side s1 s2 b t) (\<lambda>t. or_into_side s3 b t))
               [False, True] t) (\<lambda>t.
          ret (Some t))))))"

text \<open>
  \<open>Set_subtract_union_acc\<close> changes the vectors of \<open>set1\<close> before it reads those of \<open>set3\<close>. When both are the same descriptor, as
  their numbers tell, the second loop finds what the first one left.
\<close>

definition Set_subtract_union_acc :: "Set \<Rightarrow> Set \<Rightarrow> Set \<Rightarrow> ('z set_lib_scheme, Set) prog" where
  "Set_subtract_union_acc set1 set2 set3 =
     (case set1 of None \<Rightarrow> Set_union set3 None
      | Some s1 \<Rightarrow>
     (case set3 of None \<Rightarrow> Set_subtract_acc set1 set2
      | Some s3 \<Rightarrow>
     (case set2 of None \<Rightarrow> Set_union_acc set1 set3
      | Some s2 \<Rightarrow>
          bnd (if max_base s1 False < max_base s3 False
               then EnlargeSide s1 False (max_base s3 False - 1) else ret s1) (\<lambda>t.
          bnd (if max_base t True < max_base s3 True
               then EnlargeSide t True (max_base s3 True - 1) else ret t) (\<lambda>t.
          bnd (for_each (\<lambda>b t.
                 bnd (clear_side s2 b t) (\<lambda>t. or_into_side (if set_id s3 = set_id s1 then t else s3) b t))
               [False, True] t) (\<lambda>t.
          ret (Some t)))))))"

section \<open>Compression\<close>

definition compress_side :: "cset \<Rightarrow> bool \<Rightarrow> cset \<Rightarrow> ('s, cset) prog" where
  "compress_side s b t =
     for_each (\<lambda>i t.
       bnd (array_get (varray s b) i) (\<lambda>v1.
       case v1 of None \<Rightarrow> ret t
       | Some w \<Rightarrow> if vec_all w \<noteq> 0 then store_new t b i w else ret t))
     [0..<max_base s b] t"

definition Set_compress :: "Set \<Rightarrow> ('z set_lib_scheme, Set) prog" where
  "Set_compress st =
     (case st of None \<Rightarrow> ret None
      | Some s \<Rightarrow>
          bnd NewSet (\<lambda>t.
          bnd (for_each (\<lambda>b t.
                 if varray s b = None then ret t
                 else bnd (EnlargeSide t b (max_base s b - 1)) (\<lambda>t. compress_side s b t))
               [False, True] t) (\<lambda>t.
          ret (Some t))))"

text \<open>A step of a loop over one side: only the vector at position \<open>i\<close> changes.\<close>

definition side_step ::
  "cset \<Rightarrow> bool \<Rightarrow> nat \<Rightarrow> Set_Vector option \<Rightarrow> 'z set_lib_scheme \<Rightarrow> cset \<Rightarrow> 'z set_lib_scheme \<Rightarrow> bool" where
  "side_step t b i v g t' g' = (wf_arr t' \<and> slot t' = (slot t)(b := (slot t b)(i := v)) \<and>
     set_id t' = set_id t \<and> (\<forall>c. max_base t c \<le> max_base t' c) \<and>
     max_base t' (\<not> b) = max_base t (\<not> b) \<and> lib_same g g')"

text \<open>A loop over one side, finished: the vector at every position is \<open>F\<close> of what it was.\<close>

definition side_done ::
  "cset \<Rightarrow> bool \<Rightarrow> (nat \<Rightarrow> Set_Vector option \<Rightarrow> Set_Vector option) \<Rightarrow> 'z set_lib_scheme \<Rightarrow>
   cset \<Rightarrow> 'z set_lib_scheme \<Rightarrow> bool" where
  "side_done t b F g t' g' = (wf_arr t' \<and> slot t' = (slot t)(b := \<lambda>j. F j (slot t b j)) \<and>
     set_id t' = set_id t \<and> (\<forall>c. max_base t c \<le> max_base t' c) \<and>
     max_base t' (\<not> b) = max_base t (\<not> b) \<and> lib_same g g')"

definition sides_done ::
  "cset \<Rightarrow> (bool \<Rightarrow> nat \<Rightarrow> Set_Vector option \<Rightarrow> Set_Vector option) \<Rightarrow> 'z set_lib_scheme \<Rightarrow>
   cset \<Rightarrow> 'z set_lib_scheme \<Rightarrow> bool" where
  "sides_done t F g t' g' = (wf_arr t' \<and> (\<forall>c j. slot t' c j = F c j (slot t c j)) \<and>
     set_id t' = set_id t \<and> (\<forall>c. max_base t c \<le> max_base t' c) \<and> lib_same g g')"

section \<open>Bits of combined vectors\<close>

lemma length_vec_ops [simp]:
  "length (vec_or v w) = min (length v) (length w)"
  "length (vec_and v w) = min (length v) (length w)"
  "length (vec_diff v w) = min (length v) (length w)"
  by (simp_all add: vec_or_def vec_and_def vec_diff_def)

lemma vbit_vec_ops:
  assumes "length v = 8" "length w = 8" "k < 256"
  shows "vbit (Some (vec_or v w)) k = (vbit (Some v) k \<or> vbit (Some w) k)"
    and "vbit (Some (vec_and v w)) k = (vbit (Some v) k \<and> vbit (Some w) k)"
    and "vbit (Some (vec_diff v w)) k = (vbit (Some v) k \<and> \<not> vbit (Some w) k)"
  using assms
  by (simp_all add: vbit_def vec_or_def vec_and_def vec_diff_def k_div_32' bit_simps)

lemma overwrite_words [simp]: "length t = 8 \<Longrightarrow> map2 (\<lambda>_ x. x) (replicate 8 (0::word32)) t = t"
  by (rule nth_equalityI) simp_all

lemma words_zero_iff:
  assumes "length t = 8"
  shows "(\<exists>j<8. t ! j \<noteq> 0) = (\<exists>k<256. vbit (Some t) k)"
proof
  assume "\<exists>j<8. t ! j \<noteq> 0"
  then obtain j where j: "j < 8" "t ! j \<noteq> 0" by blast
  then obtain n where n: "bit (t ! j) n"
    using bit_eq_iff [of "t ! j" 0] by auto
  then have "n < 32" by (auto dest: bit_imp_le_length)
  with j n have "vbit (Some t) (32 * j + n)" and "32 * j + n < 256"
    by (auto simp: vbit_def)
  then show "\<exists>k<256. vbit (Some t) k" by blast
next
  assume "\<exists>k<256. vbit (Some t) k"
  then obtain k where k: "k < 256" "bit (t ! (k div 32)) (k mod 32)"
    by (auto simp: vbit_def)
  then have "t ! (k div 32) \<noteq> 0" by auto
  with k_div_32' [OF k(1)] show "\<exists>j<8. t ! j \<noteq> 0" by blast
qed

lemma ex_less_8: "(\<exists>j<8. P j) = (P 0 \<or> P 1 \<or> P 2 \<or> P 3 \<or> P 4 \<or> P 5 \<or> P 6 \<or> P (7::nat))"
proof -
  have "j < 8 \<longleftrightarrow> j = 0 \<or> j = 1 \<or> j = 2 \<or> j = 3 \<or> j = 4 \<or> j = 5 \<or> j = 6 \<or> j = 7" for j :: nat
    by arith
  then show ?thesis by metis
qed

lemma vec_all_iff: "length t = 8 \<Longrightarrow> (vec_all t \<noteq> 0) = (\<exists>k<256. vbit (Some t) k)"
  unfolding words_zero_iff [symmetric] ex_less_8 by (simp add: vec_all_def or_eq_0_iff)

lemma vec_any_iff: "length t = 8 \<Longrightarrow> vec_any t = (\<exists>k<256. vbit (Some t) k)"
  unfolding words_zero_iff [symmetric] ex_less_8 by (simp add: vec_any_def)

section \<open>Loops over the positions of a side\<close>

lemma wp_store_new:
  "wf_arr t \<Longrightarrow> i < max_base t b \<Longrightarrow> length w = 8 \<Longrightarrow>
   wp (store_new t b i w) Q g = Q (upd_slot t b i (Some w)) g"
  by (simp add: store_new_def wp_put_vector)

lemma side_step_upd:
  "wf_arr t \<Longrightarrow> i < max_base t b \<Longrightarrow> wf_vec v \<Longrightarrow> side_step t b i v g (upd_slot t b i v) g"
  by (auto simp: side_step_def wf_upd_slot slot_upd_slot intro!: ext)

lemma side_step_id: "wf_arr t \<Longrightarrow> v = slot t b i \<Longrightarrow> side_step t b i v g t g"
  by (simp add: side_step_def)

lemma ensure_side_wp:
  assumes wf: "wf_arr t"
    and post: "\<And>t' g'. wf_arr t' \<Longrightarrow> i < max_base t' b \<Longrightarrow> slot t' = slot t \<Longrightarrow>
      (\<And>v. wf_vec v \<Longrightarrow> side_step t b i v g (upd_slot t' b i v) g') \<Longrightarrow> Q t' g'"
  shows "wp (ensure_side t b i) Q g"
  unfolding ensure_side_def
proof (simp, intro conjI impI)
  assume le: "max_base t b \<le> i"
  show "wp (EnlargeSide t b i) Q g"
  proof (rule EnlargeSide_wp [OF wf le_enlarged_size [OF le]])
    fix t' g'
    assume t': "wf_arr t'" "slot t' = slot t" "max_base t' = (max_base t)(b := enlarged_size i)"
      "set_id t' = set_id t" "lib_same g g'"
    then have "side_step t b i v g (upd_slot t' b i v) g'" if "wf_vec v" for v
      using that le le_enlarged_size [OF le]
      by (auto simp: side_step_def wf_upd_slot slot_upd_slot intro!: ext)
    with t' show "Q t' g'" by (intro post) auto
  qed
next
  assume "\<not> max_base t b \<le> i"
  with wf show "Q t g" by (intro post) (auto intro: side_step_upd)
qed

text \<open>The state of a loop that has handled the positions in \<open>S\<close>.\<close>

definition side_inv ::
  "cset \<Rightarrow> bool \<Rightarrow> (nat \<Rightarrow> Set_Vector option \<Rightarrow> Set_Vector option) \<Rightarrow> 'z set_lib_scheme \<Rightarrow> nat set \<Rightarrow>
   cset \<Rightarrow> 'z set_lib_scheme \<Rightarrow> bool" where
  "side_inv t0 b F g S t g' = (wf_arr t \<and>
     slot t = (slot t0)(b := \<lambda>j. if j \<in> S then F j (slot t0 b j) else slot t0 b j) \<and>
     set_id t = set_id t0 \<and> (\<forall>c. max_base t0 c \<le> max_base t c) \<and>
     max_base t (\<not> b) = max_base t0 (\<not> b) \<and> lib_same g g')"

lemma side_inv_step:
  assumes "side_inv t0 b F g S t g'" "i \<notin> S" "side_step t b i (F i (slot t b i)) g' t' g''"
  shows "side_inv t0 b F g (insert i S) t' g''"
  using assms
  by (auto simp: side_inv_def side_step_def intro: lib_same_trans order_trans intro!: ext)

lemma side_inv_done:
  "side_inv t0 b F g S t g' \<Longrightarrow> (\<And>j. j \<notin> S \<Longrightarrow> F j (slot t0 b j) = slot t0 b j) \<Longrightarrow>
   side_done t0 b F g t g'"
  by (auto simp: side_inv_def side_done_def intro!: ext)

lemma side_inv_init: "wf_arr t0 \<Longrightarrow> side_inv t0 b F g {} t0 g"
  by (simp add: side_inv_def)

lemma side_loop_upto:
  assumes wf: "wf_arr t0"
    and step: "\<And>i t g. i < n \<Longrightarrow> wf_arr t \<Longrightarrow> \<forall>c. max_base t0 c \<le> max_base t c \<Longrightarrow>
      wp (body i t) (side_step t b i (F i (slot t b i)) g) g"
    and out: "\<And>j. n \<le> j \<Longrightarrow> F j (slot t0 b j) = slot t0 b j"
  shows "wp (for_each body [0..<n] t0) (side_done t0 b F g) g"
proof (rule wp_for_upto [where I = "\<lambda>k. side_inv t0 b F g {..<k}"])
  show "side_inv t0 b F g {..<0} t0 g" by (simp add: side_inv_init wf)
  show "wp (body k t) (side_inv t0 b F g {..<Suc k}) h"
    if "k < n" and inv: "side_inv t0 b F g {..<k} t h" for k t h
    using that
    by (auto simp: lessThan_Suc side_inv_def intro!: wp_mono [OF step] side_inv_step [OF inv])
  show "side_done t0 b F g t h" if "side_inv t0 b F g {..<n} t h" for t h
    using that by (rule side_inv_done) (simp add: out)
qed

lemma side_loop_downto:
  assumes wf: "wf_arr t0"
    and step: "\<And>i t g. i < n \<Longrightarrow> wf_arr t \<Longrightarrow> \<forall>c. max_base t0 c \<le> max_base t c \<Longrightarrow>
      wp (body i t) (side_step t b i (F i (slot t b i)) g) g"
    and out: "\<And>j. n \<le> j \<Longrightarrow> F j (slot t0 b j) = slot t0 b j"
  shows "wp (for_each body (rev [0..<n]) t0) (side_done t0 b F g) g"
proof (rule wp_for_downto [where I = "\<lambda>k. side_inv t0 b F g {k..<n}"])
  show "side_inv t0 b F g {n..<n} t0 g" by (simp add: side_inv_init wf)
  show "wp (body k t) (side_inv t0 b F g {k..<n}) h"
    if k: "k < n" and inv: "side_inv t0 b F g {Suc k..<n} t h" for k t h
  proof -
    have "{k..<n} = insert k {Suc k..<n}" using k by auto
    with that show ?thesis
      by (auto simp: side_inv_def intro!: wp_mono [OF step] side_inv_step [OF inv])
  qed
  show "side_done t0 b F g t h" if "side_inv t0 b F g {0..<n} t h" for t h
    using that by (rule side_inv_done) (simp add: out)
qed

lemma side_done_id: "wf_arr t \<Longrightarrow> (\<And>j. F j (slot t b j) = slot t b j) \<Longrightarrow> side_done t b F g t g"
  by (simp add: side_done_def)

lemma side_done_trans:
  "side_done t b F g t' g' \<Longrightarrow> side_done t' b G g' t'' g'' \<Longrightarrow>
   side_done t b (\<lambda>j v. G j (F j v)) g t'' g''"
  by (auto simp: side_done_def intro: lib_same_trans order_trans)

lemma wp_two_sides:
  "wp (for_each f [False, True] t) Q g = wp (f False t) (\<lambda>t'. wp (f True t') Q) g"
  by simp

lemma sides_loop:
  assumes wf: "wf_arr t0"
    and side: "\<And>b t g. wf_arr t \<Longrightarrow> \<forall>c. max_base t0 c \<le> max_base t c \<Longrightarrow>
      wp (f b t) (side_done t b (F b) g) g"
    and post: "\<And>t' g'. sides_done t0 F g t' g' \<Longrightarrow> Q t' g'"
  shows "wp (for_each f [False, True] t0) Q g"
proof -
  have "Q t'' g''"
    if "side_done t0 False (F False) g t' g'" "side_done t' True (F True) g' t'' g''" for t' g' t'' g''
    using that by (intro post) (auto simp: side_done_def sides_done_def intro: lib_same_trans order_trans)
  then show ?thesis
    using wf by (auto simp: side_done_def [of _ False] intro!: wp_mono [OF side])
qed

lemma has_sides_done:
  "sides_done t F g t' g' \<Longrightarrow>
   has t' c m = vbit (F c (m div 256) (slot t c (m div 256))) (m mod 256)"
  by (simp add: sides_done_def has_def)

section \<open>The loops of the operations\<close>

lemma no_side: "wf_arr s \<Longrightarrow> varray s b = None \<Longrightarrow> slot s b j = None"
  by (simp add: slot_def)

lemmas side_simps = wp_slot_get wp_option_case wp_store_new wp_put_vector slot_length Let_def

lemma le_trans_all: "\<forall>c. (m :: 'a \<Rightarrow> nat) c \<le> n c \<Longrightarrow> i < m b \<Longrightarrow> i < n b"
  by (meson less_le_trans)

lemma guard_side:
  "(p = None \<Longrightarrow> Q t g) \<Longrightarrow> wp m Q g \<Longrightarrow> wp (if p = None then ret t else m) Q g"
  by simp

lemma copy_side_wp:
  assumes "wf_arr f" "wf_arr t" "max_base f b \<le> max_base t b"
  shows "wp (copy_side f b t)
    (side_done t b (\<lambda>j v. case slot f b j of None \<Rightarrow> v | Some w \<Rightarrow> Some w) g) g"
  unfolding copy_side_def
proof (rule guard_side)
  show "wp (for_each (\<lambda>i t. bnd (array_get (varray f b) i) (\<lambda>fv.
      case fv of None \<Rightarrow> ret t | Some w \<Rightarrow> store_new t b i w)) [0..<max_base f b] t)
    (side_done t b (\<lambda>j v. case slot f b j of None \<Rightarrow> v | Some w \<Rightarrow> Some w) g) g"
  proof (rule side_loop_upto [OF assms(2)], goal_cases)
    case (1 i u h)
    with assms(3) have "i < max_base u b" by (meson le_trans_all less_le_trans)
    with 1 assms(1) show ?case
      by (auto simp: side_simps side_step_upd side_step_id split: option.split)
  qed (simp add: slot_outside assms(1))
qed (use assms in \<open>simp add: no_side side_done_id\<close>)

text \<open>What joining the vector \<open>fv\<close> into \<open>v\<close> leaves at a position.\<close>

definition or_slot :: "Set_Vector option \<Rightarrow> Set_Vector option \<Rightarrow> Set_Vector option" where
  "or_slot fv v = (case fv of None \<Rightarrow> v
     | Some w \<Rightarrow> Some (vec_or (case v of None \<Rightarrow> replicate 8 0 | Some tw \<Rightarrow> tw) w))"

lemma or_slot_None [simp]: "or_slot None v = v"
  by (simp add: or_slot_def)

lemma vbit_or_slot:
  "wf_vec fv \<Longrightarrow> wf_vec v \<Longrightarrow> k < 256 \<Longrightarrow> vbit (or_slot fv v) k = (vbit fv k \<or> vbit v k)"
  by (auto simp: or_slot_def vbit_vec_ops split: option.split)

lemma vec_or_zero: "length w = 8 \<Longrightarrow> vec_or (replicate 8 0) w = w"
  by (rule nth_equalityI) (simp_all add: vec_or_def)

lemma or_loop_wp:
  assumes "wf_arr f" "wf_arr t" "max_base f b \<le> max_base t b"
  shows "wp (for_each (\<lambda>i t.
      bnd (array_get (varray f b) i) (\<lambda>fv.
      case fv of None \<Rightarrow> ret t
      | Some w \<Rightarrow>
          bnd (array_get (varray t b) i) (\<lambda>tv.
          bnd (case tv of None \<Rightarrow> NewVector | Some tw \<Rightarrow> ret tw) (\<lambda>tw.
          put_vector t b i (Some (vec_or tw w))))))
    [0..<max_base f b] t) (side_done t b (\<lambda>j. or_slot (slot f b j)) g) g"
proof (rule side_loop_upto [OF assms(2)], goal_cases)
  case (1 i u h)
  with assms(3) have "i < max_base u b" by (meson le_trans_all less_le_trans)
  with 1 assms(1) show ?case
    by (auto simp: side_simps or_slot_def intro!: side_step_upd side_step_id split: option.split)
qed (simp add: slot_outside assms(1))

lemma or_side_wp:
  assumes "wf_arr f" "wf_arr t" "max_base f b \<le> max_base t b"
  shows "wp (or_side f b t) (side_done t b (\<lambda>j. or_slot (slot f b j)) g) g"
  unfolding or_side_def
  by (rule guard_side [OF _ or_loop_wp [OF assms]]) (use assms in \<open>simp add: no_side side_done_id\<close>)

lemma or_into_side_wp:
  assumes "wf_arr f" "wf_arr t" "max_base f b \<le> max_base t b"
  shows "wp (or_into_side f b t) (side_done t b (\<lambda>j. or_slot (slot f b j)) g) g"
  unfolding or_into_side_def by (rule or_loop_wp [OF assms])

lemma union_acc_side_wp:
  assumes "wf_arr f" "wf_arr t"
  shows "wp (union_acc_side f b t)
    (side_done t b (\<lambda>j v. if \<exists>k<256. vbit (slot f b j) k then or_slot (slot f b j) v else v) g) g"
  unfolding union_acc_side_def
  apply (rule guard_side)
  subgoal using assms by (simp add: no_side side_done_id)
  subgoal
  proof (rule side_loop_downto [OF assms(2)], goal_cases)
    case (1 i u h)
    with assms(1) show ?case
      by (auto simp: side_simps or_slot_def vec_any_iff vec_or_zero
          intro!: side_step_id ensure_side_wp split: option.split)
  qed (simp add: slot_outside assms(1))
  done

text \<open>The vector kept at a position: \<open>u\<close> when it has a bit, what was there otherwise.\<close>

definition put_nonzero :: "Set_Vector option \<Rightarrow> Set_Vector option \<Rightarrow> Set_Vector option" where
  "put_nonzero u v = (if \<exists>k<256. vbit u k then u else v)"

definition and_slot :: "Set_Vector option \<Rightarrow> Set_Vector option \<Rightarrow> Set_Vector option" where
  "and_slot v1 v2 = (case v1 of None \<Rightarrow> None
     | Some w1 \<Rightarrow> (case v2 of None \<Rightarrow> None | Some w2 \<Rightarrow> Some (vec_and w1 w2)))"

definition diff_slot :: "Set_Vector option \<Rightarrow> Set_Vector option \<Rightarrow> Set_Vector option" where
  "diff_slot v1 v2 = (case v1 of None \<Rightarrow> None
     | Some w1 \<Rightarrow> (case v2 of None \<Rightarrow> Some w1 | Some w2 \<Rightarrow> Some (vec_diff w1 w2)))"

lemma put_nonzero_None [simp]: "put_nonzero None v = v"
  by (simp add: put_nonzero_def)

lemma and_slot_None [simp]: "and_slot None v = None" "and_slot v None = None"
  by (auto simp: and_slot_def split: option.split)

lemma diff_slot_None [simp]: "diff_slot None v = None" "diff_slot v None = v"
  by (auto simp: diff_slot_def split: option.split)

lemma vbit_put_nonzero: "k < 256 \<Longrightarrow> vbit (put_nonzero u None) k = vbit u k"
  by (auto simp: put_nonzero_def)

lemma vbit_and_slot:
  "wf_vec v1 \<Longrightarrow> wf_vec v2 \<Longrightarrow> k < 256 \<Longrightarrow> vbit (and_slot v1 v2) k = (vbit v1 k \<and> vbit v2 k)"
  by (auto simp: and_slot_def vbit_vec_ops split: option.split)

lemma vbit_diff_slot:
  "wf_vec v1 \<Longrightarrow> wf_vec v2 \<Longrightarrow> k < 256 \<Longrightarrow> vbit (diff_slot v1 v2) k = (vbit v1 k \<and> \<not> vbit v2 k)"
  by (auto simp: diff_slot_def vbit_vec_ops split: option.split)

lemma wf_vec_slots:
  "wf_vec v1 \<Longrightarrow> wf_vec v2 \<Longrightarrow> wf_vec (and_slot v1 v2)"
  "wf_vec v1 \<Longrightarrow> wf_vec v2 \<Longrightarrow> wf_vec (diff_slot v1 v2)"
  by (auto simp: and_slot_def diff_slot_def split: option.split)

lemma put_nonzero_wf: "wf_vec u \<Longrightarrow> wf_vec v \<Longrightarrow> wf_vec (put_nonzero u v)"
  by (simp add: put_nonzero_def)

lemma intersect_side_wp:
  assumes "wf_arr s1" "wf_arr s2" "wf_arr t"
  shows "wp (intersect_side s1 s2 b t)
    (side_done t b (\<lambda>j. put_nonzero (and_slot (slot s1 b j) (slot s2 b j))) g) g"
  unfolding intersect_side_def
  apply (rule guard_side)
  subgoal using assms by (simp add: no_side side_done_id)
  apply (rule guard_side)
  subgoal using assms by (simp add: no_side side_done_id)
  subgoal
  proof (rule side_loop_upto [OF assms(3)], goal_cases)
    case (1 i u h)
    with assms(1,2) show ?case
      by (cases "max_base s2 b \<le> i")
         (auto simp: side_simps slot_outside put_nonzero_def and_slot_def vec_all_iff
           intro!: side_step_id ensure_side_wp split: option.split)
  qed (simp add: slot_outside assms(1))
  done

lemma intersect_acc_side_wp:
  assumes "wf_arr s2" "wf_arr t"
  shows "wp (intersect_acc_side s2 b t) (side_done t b
    (\<lambda>j v. if varray s2 b = None then v else put_nonzero (and_slot v (slot s2 b j)) None) g) g"
proof (cases "varray s2 b = None")
  case True
  with assms show ?thesis by (simp add: intersect_acc_side_def side_done_id)
next
  case False
  show ?thesis
    unfolding intersect_acc_side_def if_not_P [OF False]
    apply (rule guard_side)
    subgoal using assms by (simp add: no_side side_done_id)
    subgoal
    proof (rule side_loop_upto [OF assms(2)], goal_cases)
      case (1 i u h)
      then have "i < max_base u b" by (meson le_trans_all)
      with 1 assms(1) show ?case
        by (cases "max_base s2 b \<le> i")
           (auto simp: side_simps slot_outside put_nonzero_def and_slot_def vec_all_iff FreeVector_def
             intro!: side_step_id side_step_upd split: option.split)
    qed (simp add: slot_outside assms)
    done
qed

lemma wp_subtract_words:
  assumes "wf_arr s2"
  shows "wp (subtract_words s2 b i w) Q g =
    Q (case slot s2 b i of None \<Rightarrow> w | Some w2 \<Rightarrow> vec_diff w w2) g"
proof (cases "i < max_base s2 b")
  case True
  with assms wf_arr_None [OF assms, of b] show ?thesis
    by (auto simp: subtract_words_def side_simps split: option.split)
next
  case False
  with assms show ?thesis by (simp add: subtract_words_def slot_outside)
qed

lemma subtract_side_wp:
  assumes "wf_arr s1" "wf_arr s2" "wf_arr t"
  shows "wp (subtract_side s1 s2 b t)
    (side_done t b (\<lambda>j. put_nonzero (diff_slot (slot s1 b j) (slot s2 b j))) g) g"
  unfolding subtract_side_def
  apply (rule guard_side)
  subgoal using assms by (simp add: no_side side_done_id)
  subgoal
  proof (rule side_loop_upto [OF assms(3)], goal_cases)
    case (1 i u h)
    with assms(1,2) show ?case
      by (auto simp: side_simps wp_subtract_words put_nonzero_def diff_slot_def vec_all_iff
          intro!: side_step_id ensure_side_wp split: option.split)
  qed (simp add: slot_outside assms(1))
  done

lemma subtract_into_side_wp:
  assumes "wf_arr s1" "wf_arr s2" "wf_arr t" "max_base s1 b \<le> max_base t b"
  shows "wp (subtract_into_side s1 s2 b t)
    (side_done t b (\<lambda>j. put_nonzero (diff_slot (slot s1 b j) (slot s2 b j))) g) g"
  unfolding subtract_into_side_def
proof (rule side_loop_upto [OF assms(3)], goal_cases)
  case (1 i u h)
  with assms(4) have "i < max_base u b" by (meson le_trans_all less_le_trans)
  with 1 assms(1,2) show ?case
    by (auto simp: side_simps wp_subtract_words put_nonzero_def diff_slot_def vec_all_iff
        intro!: side_step_id side_step_upd split: option.split)
qed (simp add: slot_outside assms(1))

lemma clear_side_wp:
  assumes "wf_arr s2" "wf_arr t"
  shows "wp (clear_side s2 b t) (side_done t b (\<lambda>j v. diff_slot v (slot s2 b j)) g) g"
  unfolding clear_side_def
proof (rule side_loop_upto [OF assms(2)], goal_cases)
  case (1 i u h)
  then have "i < max_base u b" by (meson le_trans_all)
  with 1 assms(1) wf_arr_None [OF assms(1), of b] show ?case
    by (cases "i < max_base s2 b")
       (auto simp: side_simps slot_outside diff_slot_def
         intro!: side_step_id side_step_upd split: option.split)
qed (simp add: slot_outside assms)

lemma compress_side_wp:
  assumes "wf_arr s" "wf_arr t" "max_base s b \<le> max_base t b"
  shows "wp (compress_side s b t) (side_done t b (\<lambda>j. put_nonzero (slot s b j)) g) g"
  unfolding compress_side_def
proof (rule side_loop_upto [OF assms(2)], goal_cases)
  case (1 i u h)
  with assms(3) have "i < max_base u b" by (meson le_trans_all less_le_trans)
  with 1 assms(1) show ?case
    by (auto simp: side_simps put_nonzero_def vec_all_iff
        intro!: side_step_id side_step_upd split: option.split)
qed (simp add: slot_outside assms(1))

section \<open>The operations\<close>

definition blank_set :: "'z set_lib_scheme \<Rightarrow> cset \<Rightarrow> 'z set_lib_scheme \<Rightarrow> bool" where
  "blank_set g t g' = (wf_arr t \<and> slot t = (\<lambda>_ _. None) \<and> set_id t = SetId g \<and>
     SetId g' = SetId g + 1 \<and> lib_ext g g')"

lemma fresh_blank: "fresh_set g t g' \<Longrightarrow> blank_set g t g'"
  by (simp add: fresh_set_def blank_set_def)

lemma blank_same: "blank_set g t g' \<Longrightarrow> wf_arr t' \<Longrightarrow> slot t' = slot t \<Longrightarrow> set_id t' = set_id t \<Longrightarrow>
    lib_same g' g'' \<Longrightarrow> blank_set g t' g''"
  by (auto simp: blank_set_def lib_same_def lib_ext_def)

lemma blank_sides_new:
  assumes "blank_set g t g1" "sides_done t F g1 t' g2"
    and "\<And>c m. vbit (F c (m div 256) None) (m mod 256) = P c m"
    and "\<not> P True 0" "X = {e. P (e < 0) (nat \<bar>e\<bar>)}"
  shows "new_set g X (Some t') g2"
proof -
  have "has t' c m = P c m" for c m
    using assms(1-3) by (simp add: has_sides_done blank_set_def)
  with assms show ?thesis
    by (auto simp: new_set_def blank_set_def sides_done_def wf_cset_def lib_same_def lib_ext_def)
qed

lemma NewSetSized_wp:
  assumes "8 dvd p" "8 dvd n"
    and post: "\<And>t g'. blank_set g t g' \<Longrightarrow> p \<le> max_base t False \<Longrightarrow> n \<le> max_base t True \<Longrightarrow> Q t g'"
  shows "wp (NewSetSized p n) Q g"
  unfolding NewSetSized_def wp_bnd
proof (rule NewSet_wp)
  fix t g1 assume fresh: "fresh_set g t g1"
  let ?m = "if p > Set_VARRAY_SIZE then EnlargeSide t False (p - 1) else ret t"
  have "wp ?m (\<lambda>t' g'. blank_set g t' g' \<and> p \<le> max_base t' False \<and> max_base t' True = 0) g1"
    using fresh fresh_blank [OF fresh] assms(1)
    by (auto simp: fresh_set_def Set_VARRAY_SIZE_def enlarged_size_exact
        intro!: EnlargeSide_wp intro: blank_same)
  moreover have "wp (if n > 0 then EnlargeSide t' True (n - 1) else ret t') Q g'"
    if "blank_set g t' g' \<and> p \<le> max_base t' False \<and> max_base t' True = 0" for t' g'
    using that assms(2)
    by (auto simp: blank_set_def enlarged_size_exact
        intro!: EnlargeSide_wp post intro: blank_same)
  ultimately show "wp ?m (\<lambda>t. wp (if n > 0 then EnlargeSide t True (n - 1) else ret t) Q) g1"
    by (rule wp_mono)
qed

lemma elems_has: "elems (Some s) = {e. has s (e < 0) (nat \<bar>e\<bar>)}"
  by (simp add: elems_def)

lemma enlarge_to: "wf_arr s \<Longrightarrow> max_base s b \<le> enlarged_size (max_base s b - Suc 0)"
  using enlarged_size_exact [OF wf_arr_dvd, of s b] by (cases "max_base s b = 0") auto

lemma enlarge_then:
  assumes wf: "wf_arr s" "wf_arr t" and le: "max_base t b \<le> max_base s b"
    and loop: "\<And>t h. wf_arr t \<Longrightarrow> max_base s b \<le> max_base t b \<Longrightarrow> wp (m t) (side_done t b F h) h"
    and none: "\<And>j. slot s b j = None \<Longrightarrow> F j (slot t b j) = slot t b j"
  shows "wp (if varray s b = None then ret t
      else bnd (EnlargeSide t b (max_base s b - 1)) m) (side_done t b F h) h"
proof (rule guard_side)
  show "side_done t b F h t h" if "varray s b = None"
    using that by (simp add: side_done_id wf none no_side)
  have "wp (m t1) (side_done t b F h) h1"
    if t1: "wf_arr t1" "slot t1 = slot t" "set_id t1 = set_id t" "lib_same h h1"
      "max_base t1 = (max_base t)(b := enlarged_size (max_base s b - Suc 0))" for t1 h1
  proof (rule wp_mono)
    show "wp (m t1) (side_done t1 b F h1) h1"
      using t1 enlarge_to [OF wf(1), of b] by (intro loop) auto
    have "max_base t c \<le> max_base t1 c" for c
      using t1(5) le enlarge_to [OF wf(1), of b] by auto
    then show "side_done t b F h t2 h2" if "side_done t1 b F h1 t2 h2" for t2 h2
      using that t1 by (auto simp: side_done_def intro: lib_same_trans order_trans)
  qed
  then show "wp (bnd (EnlargeSide t b (max_base s b - 1)) m) (side_done t b F h) h"
    using le enlarge_to [OF wf(1), of b] by (auto intro!: EnlargeSide_wp [OF wf(2)])
qed

lemma rebuild_wp:
  assumes s: "wf_cset s"
    and loop: "\<And>b t h. wf_arr t \<Longrightarrow> max_base s b \<le> max_base t b \<Longrightarrow>
      wp (m b t) (side_done t b (F b) h) h"
    and F: "\<And>b j k. k < 256 \<Longrightarrow> vbit (F b j None) k = vbit (slot s b j) k"
    and none: "\<And>b j. slot s b j = None \<Longrightarrow> F b j None = None"
    and post: "\<And>st' g'. new_set g (elems (Some s)) st' g' \<Longrightarrow> Q st' g'"
  shows "wp (bnd NewSet (\<lambda>t. bnd (for_each (\<lambda>b t. if varray s b = None then ret t
      else bnd (EnlargeSide t b (max_base s b - 1)) (m b)) [False, True] t) (\<lambda>t. ret (Some t)))) Q g"
  unfolding wp_bnd
proof (rule NewSet_wp)
  from s have wf: "wf_arr s" by blast
  let ?f = "\<lambda>b t. if varray s b = None then ret t
      else bnd (EnlargeSide t b (max_base s b - 1)) (m b)"
  fix t g1 assume fresh: "fresh_set g t g1"
  then have t: "wf_arr t" "slot t = (\<lambda>_ _. None)" "max_base t False = 8" "max_base t True = 0"
    by (auto simp: fresh_set_def)
  have one: "wp (?f False t) (side_done t False (F False) g1) g1"
    by (rule enlarge_then) (use t wf wf_arr_pos [OF wf] loop none in auto)
  have two: "wp (?f True t1) (\<lambda>t2 g3. Q (Some t2) g3) g2" if t1: "side_done t False (F False) g1 t1 g2"
    for t1 g2
  proof (rule wp_mono)
    show "wp (?f True t1) (side_done t1 True (F True) g2) g2"
      by (rule enlarge_then) (use t t1 wf loop none in \<open>auto simp: side_done_def\<close>)
    fix t2 g3 assume t2: "side_done t1 True (F True) g2 t2 g3"
    have "sides_done t F g1 t2 g3"
      using t1 t2 by (auto simp: side_done_def sides_done_def intro: lib_same_trans order_trans)
    then have "new_set g (elems (Some s)) (Some t2) g3"
      using s by (intro blank_sides_new [OF fresh_blank [OF fresh], where P = "has s" and F = F])
        (auto simp: F has_def wf_cset_def elems_has)
    then show "Q (Some t2) g3" by (rule post)
  qed
  show "wp (for_each ?f [False, True] t) (\<lambda>x. wp (ret (Some x)) Q) g1"
    unfolding wp_two_sides wp_ret by (rule wp_mono [OF one two])
qed

lemma Set_copy_wp:
  assumes "wf_cset s"
    and "\<And>st' g'. new_set g (elems (Some s)) st' g' \<Longrightarrow> Q st' g'"
  shows "wp (Set_copy (Some s)) Q g"
  unfolding Set_copy_def option.case
  by (rule rebuild_wp [OF assms(1), where F = "\<lambda>b j v. case slot s b j of None \<Rightarrow> v | Some w \<Rightarrow> Some w"])
     (use assms(2) copy_side_wp [OF wf_csetD [OF assms(1)]] in \<open>auto split: option.splits\<close>)

lemma Set_compress_wp:
  assumes "wf_cset s"
    and "\<And>st' g'. new_set g (elems (Some s)) st' g' \<Longrightarrow> Q st' g'"
  shows "wp (Set_compress (Some s)) Q g"
  unfolding Set_compress_def option.case
  by (rule rebuild_wp [OF assms(1), where F = "\<lambda>b j. put_nonzero (slot s b j)"])
     (use assms(2) compress_side_wp [OF wf_csetD [OF assms(1)]] in \<open>auto simp: vbit_put_nonzero\<close>)

definition sslot :: "Set \<Rightarrow> bool \<Rightarrow> nat \<Rightarrow> Set_Vector option" where
  "sslot st b j = (case st of None \<Rightarrow> None | Some s \<Rightarrow> slot s b j)"

definition shas :: "Set \<Rightarrow> bool \<Rightarrow> nat \<Rightarrow> bool" where
  "shas st b m = vbit (sslot st b (m div 256)) (m mod 256)"

lemma shas_simps [simp]: "shas None b m = False" "shas (Some s) b m = has s b m"
  by (simp_all add: shas_def sslot_def has_def)

lemma sslot_simps [simp]: "sslot None b j = None" "sslot (Some s) b j = slot s b j"
  by (simp_all add: sslot_def)

lemma elems_shas: "elems st = {e. shas st (e < 0) (nat \<bar>e\<bar>)}"
  by (cases st) (simp_all add: elems_has)

lemma wf_set_shas: "wf_set st \<Longrightarrow> \<not> shas st True 0"
  by (cases st) (simp_all add: wf_cset_def)

lemma wf_vec_sslot [simp]: "wf_set st \<Longrightarrow> wf_vec (sslot st b j)"
  by (cases st) auto

lemma max_sizes_bounds:
  assumes "wf_set st1" "wf_set st2" "max_sizes st1 st2 = (p, n)"
  shows "8 dvd p" "8 dvd n"
    "st1 = Some s1 \<Longrightarrow> p \<le> m False \<Longrightarrow> n \<le> m True \<Longrightarrow> max_base s1 b \<le> m b"
    "st2 = Some s2 \<Longrightarrow> p \<le> m False \<Longrightarrow> n \<le> m True \<Longrightarrow> max_base s2 b \<le> m b"
  using assms
  by (cases b; auto simp: max_sizes_def max_def split: option.splits if_splits dest: wf_arr_dvd)+

lemma sides_done_id: "wf_arr t \<Longrightarrow> (\<And>b j. F b j (slot t b j) = slot t b j) \<Longrightarrow> sides_done t F g t g"
  by (simp add: sides_done_def)

lemma sides_done_trans:
  "sides_done t F g t' g' \<Longrightarrow> sides_done t' G g' t'' g'' \<Longrightarrow>
   sides_done t (\<lambda>b j v. G b j (F b j v)) g t'' g''"
  by (auto simp: sides_done_def intro: lib_same_trans order_trans)

lemma room_trans: "(m :: nat) \<le> f b \<Longrightarrow> \<forall>c. f c \<le> g c \<Longrightarrow> \<forall>c. g c \<le> h c \<Longrightarrow> m \<le> h b"
  by (meson order_trans)

lemma copy_sides_wp:
  assumes "wf_set st" "wf_arr t" "\<And>s b. st = Some s \<Longrightarrow> max_base s b \<le> max_base t b"
  shows "wp (case st of None \<Rightarrow> ret t | Some s \<Rightarrow> for_each (\<lambda>b t. copy_side s b t) [False, True] t)
    (sides_done t (\<lambda>b j v. case sslot st b j of None \<Rightarrow> v | Some w \<Rightarrow> Some w) g) g"
proof (cases st)
  case None
  with assms show ?thesis by (simp add: sides_done_id)
next
  case (Some s)
  have "wp (for_each (\<lambda>b t. copy_side s b t) [False, True] t)
      (sides_done t (\<lambda>b j v. case slot s b j of None \<Rightarrow> v | Some w \<Rightarrow> Some w) g) g"
    by (rule sides_loop [OF assms(2)])
       (use assms Some in \<open>auto intro!: copy_side_wp intro: order_trans\<close>)
  with Some show ?thesis by simp
qed

lemma or_sides_wp:
  assumes "wf_set st" "wf_arr t" "\<And>s b. st = Some s \<Longrightarrow> max_base s b \<le> max_base t b"
  shows "wp (case st of None \<Rightarrow> ret t | Some s \<Rightarrow> for_each (\<lambda>b t. or_side s b t) [False, True] t)
    (sides_done t (\<lambda>b j. or_slot (sslot st b j)) g) g"
proof (cases st)
  case None
  with assms show ?thesis by (simp add: sides_done_id)
next
  case (Some s)
  have "wp (for_each (\<lambda>b t. or_side s b t) [False, True] t)
      (sides_done t (\<lambda>b j. or_slot (slot s b j)) g) g"
    by (rule sides_loop [OF assms(2)])
       (use assms Some in \<open>auto intro!: or_side_wp intro: order_trans\<close>)
  with Some show ?thesis by simp
qed

lemma case_option_id: "(case x of None \<Rightarrow> None | Some w \<Rightarrow> Some w) = x"
  by (cases x) simp_all

lemma Set_union_wp [wp_rules]:
  assumes wf: "wf_set st1" "wf_set st2"
    and post: "\<And>st' g'. new_set g (elems st1 \<union> elems st2) st' g' \<Longrightarrow> Q st' g'"
  shows "wp (Set_union st1 st2) Q g"
proof -
  obtain p n where pn: "max_sizes st1 st2 = (p, n)" by fastforce
  note mx = max_sizes_bounds [OF wf pn]
  let ?F1 = "\<lambda>b j v. case sslot st1 b j of None \<Rightarrow> v | Some w \<Rightarrow> Some w"
  let ?F2 = "\<lambda>b j. or_slot (sslot st2 b j)"
  let ?m1 = "\<lambda>t. case st1 of None \<Rightarrow> ret t
    | Some s1 \<Rightarrow> for_each (\<lambda>b t. copy_side s1 b t) [False, True] t"
  let ?m2 = "\<lambda>t. case st2 of None \<Rightarrow> ret t
    | Some s2 \<Rightarrow> for_each (\<lambda>b t. or_side s2 b t) [False, True] t"
  have "wp (?m1 t) (\<lambda>t1. wp (?m2 t1) (\<lambda>t2. Q (Some t2))) g1"
    if t: "blank_set g t g1" "p \<le> max_base t False" "n \<le> max_base t True" for t g1
  proof (rule wp_mono)
    show "wp (?m1 t) (sides_done t ?F1 g1) g1"
      using t mx(3) by (intro copy_sides_wp wf) (auto simp: blank_set_def)
    fix t1 g2 assume t1: "sides_done t ?F1 g1 t1 g2"
    have "p \<le> max_base t1 False" "n \<le> max_base t1 True"
      using t t1 by (auto simp: sides_done_def intro: order_trans)
    then have "wp (?m2 t1) (sides_done t1 ?F2 g2) g2"
      using t1 mx(4) by (intro or_sides_wp wf) (auto simp: sides_done_def)
    moreover have "Q (Some t2) g3" if t2: "sides_done t1 ?F2 g2 t2 g3" for t2 g3
      by (rule post, rule blank_sides_new [OF t(1) sides_done_trans [OF t1 t2],
            where P = "\<lambda>b m. shas st1 b m \<or> shas st2 b m"])
         (use wf wf_set_shas in \<open>auto simp: case_option_id vbit_or_slot elems_shas shas_def\<close>)
    ultimately show "wp (?m2 t1) (\<lambda>t2. Q (Some t2)) g2" by (rule wp_mono)
  qed
  then show ?thesis
    using mx(1,2) unfolding Set_union_def pn Let_def prod.case wp_bnd wp_ret
    by (intro NewSetSized_wp)
qed

lemma Set_intersect_Some_wp:
  assumes wf: "wf_cset s1" "wf_cset s2"
    and post: "\<And>st' g'. new_set g (elems (Some s1) \<inter> elems (Some s2)) st' g' \<Longrightarrow> Q st' g'"
  shows "wp (Set_intersect (Some s1) (Some s2)) Q g"
proof -
  let ?F = "\<lambda>b j. put_nonzero (and_slot (slot s1 b j) (slot s2 b j))"
  have "wp (for_each (\<lambda>b t. intersect_side s1 s2 b t) [False, True] t) (\<lambda>t. Q (Some t)) g1"
    if t: "fresh_set g t g1" for t g1
  proof (rule sides_loop [where F = ?F])
    show "wf_arr t" using t by (simp add: fresh_set_def)
    show "wp (intersect_side s1 s2 b u) (side_done u b (?F b) h) h" if "wf_arr u" for b u and h
      using that wf by (intro intersect_side_wp) auto
    show "Q (Some t') g2" if t': "sides_done t ?F g1 t' g2" for t' g2
      by (rule post, rule blank_sides_new [OF fresh_blank [OF t] t',
            where P = "\<lambda>b m. has s1 b m \<and> has s2 b m"])
         (use wf in \<open>auto simp: vbit_put_nonzero vbit_and_slot wf_csetD elems_has wf_cset_def has_def\<close>)
  qed
  then show ?thesis
    unfolding Set_intersect_def prod.case option.case wp_bnd wp_ret by (rule NewSet_wp)
qed

lemma Set_subtract_Some_wp:
  assumes wf: "wf_cset s1" "wf_cset s2"
    and post: "\<And>st' g'. new_set g (elems (Some s1) - elems (Some s2)) st' g' \<Longrightarrow> Q st' g'"
  shows "wp (Set_subtract (Some s1) (Some s2)) Q g"
proof -
  let ?F = "\<lambda>b j. put_nonzero (diff_slot (slot s1 b j) (slot s2 b j))"
  have "wp (for_each (\<lambda>b t. subtract_side s1 s2 b t) [False, True] t) (\<lambda>t. Q (Some t)) g1"
    if t: "fresh_set g t g1" for t g1
  proof (rule sides_loop [where F = ?F])
    show "wf_arr t" using t by (simp add: fresh_set_def)
    show "wp (subtract_side s1 s2 b u) (side_done u b (?F b) h) h" if "wf_arr u" for b u and h
      using that wf by (intro subtract_side_wp) auto
    show "Q (Some t') g2" if t': "sides_done t ?F g1 t' g2" for t' g2
      by (rule post, rule blank_sides_new [OF fresh_blank [OF t] t',
            where P = "\<lambda>b m. has s1 b m \<and> \<not> has s2 b m"])
         (use wf in \<open>auto simp: vbit_put_nonzero vbit_diff_slot wf_csetD elems_has wf_cset_def has_def\<close>)
  qed
  then show ?thesis
    unfolding Set_subtract_def option.case wp_bnd wp_ret by (rule NewSet_wp)
qed

text \<open>
  Intersection and subtraction return NULL when an argument is NULL; otherwise they return a
  new descriptor.
\<close>

definition null_or_new :: "bool \<Rightarrow> 'z set_lib_scheme \<Rightarrow> int set \<Rightarrow> Set \<Rightarrow> 'z set_lib_scheme \<Rightarrow> bool" where
  "null_or_new null g X st g' = (if null then st = None \<and> X = {} \<and> g' = g else new_set g X st g')"

lemma Set_intersect_wp [wp_rules]:
  assumes wf: "wf_set st1" "wf_set st2"
    and post: "\<And>st' g'. null_or_new (st1 = None \<or> st2 = None) g (elems st1 \<inter> elems st2) st' g' \<Longrightarrow>
      Q st' g'"
  shows "wp (Set_intersect st1 st2) Q g"
proof (cases "st1 = None \<or> st2 = None")
  case True
  with post [of None g] show ?thesis
    by (auto simp: Set_intersect_def null_or_new_def split: option.split)
next
  case False
  then obtain s1 s2 where s: "st1 = Some s1" "st2 = Some s2" by auto
  show ?thesis
    unfolding s by (rule Set_intersect_Some_wp) (use wf s post in \<open>auto simp: null_or_new_def\<close>)
qed

lemma Set_subtract_wp [wp_rules]:
  assumes wf: "wf_set st1" "wf_set st2"
    and post: "\<And>st' g'. null_or_new (st1 = None) g (elems st1 - elems st2) st' g' \<Longrightarrow> Q st' g'"
  shows "wp (Set_subtract st1 st2) Q g"
proof (cases st1)
  case None
  with post [of None g] show ?thesis by (simp add: Set_subtract_def null_or_new_def)
next
  case (Some s1)
  show ?thesis
  proof (cases st2)
    case None
    then show ?thesis
      unfolding Set_subtract_def Some option.case
      by (simp, intro Set_union_wp) (use wf Some post in \<open>auto simp: null_or_new_def\<close>)
  next
    case (Some s2)
    show ?thesis
      unfolding \<open>st1 = Some s1\<close> Some
      by (rule Set_subtract_Some_wp)
         (use wf \<open>st1 = Some s1\<close> Some post in \<open>auto simp: null_or_new_def\<close>)
  qed
qed

lemma acc_sides:
  assumes "wf_cset s" "sides_done s F g t' g'"
    and "\<And>c m. vbit (F c (m div 256) (slot s c (m div 256))) (m mod 256) = P c m"
    and "\<not> P True 0" "X = {e. P (e < 0) (nat \<bar>e\<bar>)}"
  shows "acc_set g (Some s) X (Some t') g'"
proof -
  have "has t' c m = P c m" for c m
    using assms(2,3) by (simp add: has_sides_done)
  with assms show ?thesis
    by (auto simp: acc_set_def sides_done_def wf_cset_def)
qed

lemma fresh_acc: "fresh_set g s g1 \<Longrightarrow> acc_set g1 (Some s) X st' g2 \<Longrightarrow> new_set g X st' g2"
  by (auto simp: acc_set_def new_set_def fresh_set_def lib_same_def lib_ext_def)

lemma Set_union_acc_Some_wp:
  assumes wf: "wf_cset s1" "wf_set st2"
    and post: "\<And>st' g'. acc_set g (Some s1) (elems (Some s1) \<union> elems st2) st' g' \<Longrightarrow> Q st' g'"
  shows "wp (Set_union_acc (Some s1) st2) Q g"
proof (cases st2)
  case None
  have "acc_set g (Some s1) (elems (Some s1) \<union> elems st2) (Some s1) g"
    using wf(1) None by (simp add: acc_set_def)
  then show ?thesis
    using None by (simp add: Set_union_acc_def post)
next
  case (Some s2)
  let ?F = "\<lambda>b j v. if \<exists>k<256. vbit (slot s2 b j) k then or_slot (slot s2 b j) v else v"
  have wfs: "wf_arr s1" "wf_cset s2" "wf_arr s2" using wf Some by auto
  have "wp (for_each (\<lambda>b t. union_acc_side s2 b t) [False, True] s1) (\<lambda>t. Q (Some t)) g"
  proof (rule sides_loop [where F = ?F, OF wfs(1)])
    show "wp (union_acc_side s2 b u) (side_done u b (?F b) h) h" if "wf_arr u" for b u and h
      using that wfs by (intro union_acc_side_wp) auto
    show "Q (Some t') g2" if t': "sides_done s1 ?F g t' g2" for t' g2
      by (rule post, rule acc_sides [OF wf(1) t', where P = "\<lambda>b m. has s1 b m \<or> has s2 b m"])
         (use wf wfs Some in \<open>auto simp: vbit_or_slot elems_has wf_cset_def has_def\<close>)
  qed
  then show ?thesis
    unfolding Some Set_union_acc_def option.case by simp
qed

lemma Set_union_acc_None: "Set_union_acc None st2 = bnd NewSet (\<lambda>s. Set_union_acc (Some s) st2)"
  by (simp add: Set_union_acc_def)

lemma Set_union_acc_wp [wp_rules]:
  assumes wf: "wf_set st1" "wf_set st2"
    and post: "\<And>st' g'. acc_set g st1 (elems st1 \<union> elems st2) st' g' \<Longrightarrow> Q st' g'"
  shows "wp (Set_union_acc st1 st2) Q g"
proof (cases st1)
  case (Some s1)
  with assms show ?thesis by (auto intro: Set_union_acc_Some_wp)
next
  case None
  have "wp (Set_union_acc (Some s) st2) Q g1" if s: "fresh_set g s g1" for s g1
    by (rule Set_union_acc_Some_wp)
       (use fresh_set_empty [OF s] wf None fresh_acc [OF s] in
         \<open>auto intro!: post simp: acc_set_def [of _ None]\<close>)
  then show ?thesis
    unfolding None Set_union_acc_None wp_bnd by (rule NewSet_wp)
qed

lemma Set_intersect_acc_Some_wp:
  assumes wf: "wf_cset s1" "wf_cset s2"
    and post: "\<And>st' g'. acc_set g (Some s1)
      {e \<in> elems (Some s1). e \<in> elems (Some s2) \<or> e < 0 \<and> varray s2 True = None} st' g' \<Longrightarrow> Q st' g'"
  shows "wp (Set_intersect_acc (Some s1) (Some s2)) Q g"
proof -
  let ?F = "\<lambda>b j v. if varray s2 b = None then v else put_nonzero (and_slot v (slot s2 b j)) None"
  have wfs: "wf_arr s1" "wf_arr s2" using wf by auto
  have pos: "varray s2 False \<noteq> None" using wfs by (simp add: wf_arr_def)
  have "wp (for_each (\<lambda>b t. intersect_acc_side s2 b t) [False, True] s1) (\<lambda>t. Q (Some t)) g"
  proof (rule sides_loop [where F = ?F, OF wfs(1)])
    show "wp (intersect_acc_side s2 b u) (side_done u b (?F b) h) h" if "wf_arr u" for b u and h
      using that wfs by (intro intersect_acc_side_wp) auto
    show "Q (Some t') g2" if t': "sides_done s1 ?F g t' g2" for t' g2
    proof (rule post, rule acc_sides [OF wf(1) t',
          where P = "\<lambda>b m. has s1 b m \<and> (varray s2 b = None \<or> has s2 b m)"])
      show "{e \<in> elems (Some s1). e \<in> elems (Some s2) \<or> e < 0 \<and> varray s2 True = None} =
        {e. has s1 (e < 0) (nat \<bar>e\<bar>) \<and> (varray s2 (e < 0) = None \<or> has s2 (e < 0) (nat \<bar>e\<bar>))}"
      proof (rule set_eqI)
        fix e :: int
        show "(e \<in> {e \<in> elems (Some s1). e \<in> elems (Some s2) \<or> e < 0 \<and> varray s2 True = None}) =
          (e \<in> {e. has s1 (e < 0) (nat \<bar>e\<bar>) \<and> (varray s2 (e < 0) = None \<or> has s2 (e < 0) (nat \<bar>e\<bar>))})"
          using pos by (cases "e < 0") auto
      qed
    qed (use wf wfs in \<open>auto simp: vbit_put_nonzero vbit_and_slot wf_cset_def has_def\<close>)
  qed
  then show ?thesis
    unfolding Set_intersect_acc_def option.case by simp
qed

lemma Set_subtract_acc_wp [wp_rules]:
  assumes wf: "wf_cset s1" "wf_set st2"
    and post: "\<And>st' g'. acc_set g (Some s1) (elems (Some s1) - elems st2) st' g' \<Longrightarrow> Q st' g'"
  shows "wp (Set_subtract_acc (Some s1) st2) Q g"
proof (cases st2)
  case None
  have "acc_set g (Some s1) (elems (Some s1) - elems st2) (Some s1) g"
    using wf(1) None by (simp add: acc_set_def)
  then show ?thesis
    using None by (simp add: Set_subtract_acc_def post)
next
  case (Some s2)
  let ?F = "\<lambda>b j v. diff_slot v (slot s2 b j)"
  have wfs: "wf_arr s1" "wf_cset s2" "wf_arr s2" using wf Some by auto
  have "wp (for_each (\<lambda>b t. if varray t b = None then ret t else clear_side s2 b t) [False, True] s1)
      (\<lambda>t. Q (Some t)) g"
  proof (rule sides_loop [where F = ?F, OF wfs(1)])
    show "wp (if varray u b = None then ret u else clear_side s2 b u) (side_done u b (?F b) h) h"
      if "wf_arr u" for b u and h
      by (rule guard_side)
         (use that wfs in \<open>auto simp: no_side side_done_id intro: clear_side_wp\<close>)
    show "Q (Some t') g2" if t': "sides_done s1 ?F g t' g2" for t' g2
      by (rule post, rule acc_sides [OF wf(1) t', where P = "\<lambda>b m. has s1 b m \<and> \<not> has s2 b m"])
         (use wf wfs Some in \<open>auto simp: vbit_diff_slot elems_has wf_cset_def has_def\<close>)
  qed
  then show ?thesis
    unfolding Some Set_subtract_acc_def option.case by simp
qed

lemma side_pair_wp:
  assumes "wp m (side_done t b F h) h"
    and "\<And>t' h'. side_done t b F h t' h' \<Longrightarrow> wp (f t') (side_done t' b G h') h'"
  shows "wp (bnd m f) (side_done t b (\<lambda>j v. G j (F j v)) h) h"
  unfolding wp_bnd
  by (rule wp_mono [OF assms(1)], rule wp_mono [OF assms(2)]) (auto intro: side_done_trans)

lemma Set_subtract_union_Some_wp:
  assumes wf: "wf_cset s1" "wf_cset s2" "wf_cset s3"
    and post: "\<And>st' g'. new_set g (elems (Some s1) - elems (Some s2) \<union> elems (Some s3)) st' g' \<Longrightarrow>
      Q st' g'"
  shows "wp (Set_subtract_union (Some s1) (Some s2) (Some s3)) Q g"
proof -
  have wfs: "wf_arr s1" "wf_arr s2" "wf_arr s3" using wf by auto
  let ?F = "\<lambda>b j v. or_slot (slot s3 b j) (put_nonzero (diff_slot (slot s1 b j) (slot s2 b j)) v)"
  let ?f = "\<lambda>b t. bnd (subtract_into_side s1 s2 b t) (\<lambda>t. or_into_side s3 b t)"
  have "wp (for_each ?f [False, True] t) (\<lambda>t. Q (Some t)) g1"
    if t: "blank_set g t g1" "max (max_base s1 False) (max_base s3 False) \<le> max_base t False"
      "max (max_base s1 True) (max_base s3 True) \<le> max_base t True" for t g1
  proof (rule sides_loop [where F = ?F])
    show "wf_arr t" using t by (simp add: blank_set_def)
    have room: "max_base s1 b \<le> max_base t b" "max_base s3 b \<le> max_base t b" for b
      using t(2,3) by (cases b; simp)+
    show "wp (?f b u) (side_done u b (?F b) h) h"
      if u: "wf_arr u" "\<forall>c. max_base t c \<le> max_base u c" for b u and h
    proof (rule side_pair_wp
        [where F = "\<lambda>j. put_nonzero (diff_slot (slot s1 b j) (slot s2 b j))"
           and G = "\<lambda>j. or_slot (slot s3 b j)"])
      show "wp (subtract_into_side s1 s2 b u)
          (side_done u b (\<lambda>j. put_nonzero (diff_slot (slot s1 b j) (slot s2 b j))) h) h"
        by (rule subtract_into_side_wp) (use u wfs room in \<open>auto intro: order_trans\<close>)
      show "wp (or_into_side s3 b v) (side_done v b (\<lambda>j. or_slot (slot s3 b j)) h') h'"
        if v: "side_done u b (\<lambda>j. put_nonzero (diff_slot (slot s1 b j) (slot s2 b j))) h v h'" for v h'
      proof (rule or_into_side_wp)
        show "max_base s3 b \<le> max_base v b"
          by (rule room_trans [OF room(2) u(2)]) (use v in \<open>simp add: side_done_def\<close>)
      qed (use v wfs in \<open>auto simp: side_done_def\<close>)
    qed
    show "Q (Some t') g2" if t': "sides_done t ?F g1 t' g2" for t' g2
      by (rule post, rule blank_sides_new [OF t(1) t',
            where P = "\<lambda>b m. has s1 b m \<and> \<not> has s2 b m \<or> has s3 b m"])
         (use wf wfs in \<open>auto simp: vbit_or_slot vbit_put_nonzero vbit_diff_slot put_nonzero_wf
            wf_vec_slots elems_has wf_cset_def has_def\<close>)
  qed
  then show ?thesis
    unfolding Set_subtract_union_def option.case Let_def wp_bnd wp_ret
    by (intro NewSetSized_wp) (use wfs in \<open>auto simp: max_def dest: wf_arr_dvd\<close>)
qed

lemma Set_subtract_union_wp [wp_rules]:
  assumes wf: "wf_set st1" "wf_set st2" "wf_set st3"
    and post: "\<And>st' g'. new_set g (elems st1 - elems st2 \<union> elems st3) st' g' \<Longrightarrow> Q st' g'"
  shows "wp (Set_subtract_union st1 st2 st3) Q g"
proof (cases "st1 = None \<or> st2 = None \<or> st3 = None")
  case False
  then obtain s1 s2 s3 where s: "st1 = Some s1" "st2 = Some s2" "st3 = Some s3" by auto
  show ?thesis
    unfolding s by (rule Set_subtract_union_Some_wp) (use wf s post in auto)
next
  case True
  then show ?thesis
    using wf post
    by (auto simp: Set_subtract_union_def null_or_new_def split: option.split
        intro!: Set_union_wp Set_subtract_wp)
qed

lemma enlarge_for_wp:
  assumes "wf_arr t" "wf_arr s"
    and "\<And>t' g'. wf_arr t' \<Longrightarrow> slot t' = slot t \<Longrightarrow> set_id t' = set_id t \<Longrightarrow>
      max_base s b \<le> max_base t' b \<Longrightarrow> max_base t' (\<not> b) = max_base t (\<not> b) \<Longrightarrow> lib_same g g' \<Longrightarrow> Q t' g'"
  shows "wp (if max_base t b < max_base s b then EnlargeSide t b (max_base s b - 1) else ret t) Q g"
proof (cases "max_base t b < max_base s b")
  case True
  then have "wp (EnlargeSide t b (max_base s b - 1)) Q g"
    using enlarge_to [OF assms(2), of b]
    by (intro EnlargeSide_wp [OF assms(1)] assms(3)) auto
  with True show ?thesis by simp
next
  case False
  with assms(1) assms(3) [of t g] show ?thesis by simp
qed

text \<open>A set joined to itself.\<close>

lemma or_slot_same: "or_slot v v = v"
  by (cases v) (auto simp: or_slot_def vec_or_def intro: nth_equalityI)

lemma or_into_same_wp: "wf_arr t \<Longrightarrow> wp (or_into_side t b t) (side_done t b (\<lambda>_ v. v) g) g"
  by (rule wp_mono [OF or_into_side_wp]) (auto simp: side_done_def or_slot_same)

definition third_elems :: "Set \<Rightarrow> Set \<Rightarrow> int set" where
  "third_elems st1 st3 = (if \<exists>s1 s3. st1 = Some s1 \<and> st3 = Some s3 \<and> set_id s1 = set_id s3 then {} else elems st3)"

lemma Set_subtract_union_acc_Some_wp:
  assumes wf: "wf_cset s1" "wf_cset s2" "wf_cset s3"
    and post: "\<And>st' g'. acc_set g (Some s1)
      (elems (Some s1) - elems (Some s2) \<union> third_elems (Some s1) (Some s3)) st' g' \<Longrightarrow> Q st' g'"
  shows "wp (Set_subtract_union_acc (Some s1) (Some s2) (Some s3)) Q g"
proof -
  have wfs: "wf_arr s1" "wf_arr s2" "wf_arr s3" using wf by auto
  let ?same = "set_id s3 = set_id s1"
  let ?G = "\<lambda>b j v. if ?same then v else or_slot (slot s3 b j) v"
  let ?F = "\<lambda>b j v. ?G b j (diff_slot v (slot s2 b j))"
  let ?f = "\<lambda>b t. bnd (clear_side s2 b t) (\<lambda>t. or_into_side (if ?same then t else s3) b t)"
  have loop: "wp (for_each ?f [False, True] t) (\<lambda>t. Q (Some t)) g1"
    if t: "wf_arr t" "slot t = slot s1" "set_id t = set_id s1" "lib_same g g1"
      "max_base s3 False \<le> max_base t False" "max_base s3 True \<le> max_base t True" for t g1
  proof (rule sides_loop [where F = ?F, OF t(1)])
    have room: "max_base s3 b \<le> max_base t b" for b
      using t(5,6) by (cases b) simp_all
    show "wp (?f b u) (side_done u b (?F b) h) h"
      if u: "wf_arr u" "\<forall>c. max_base t c \<le> max_base u c" for b u and h
    proof (rule side_pair_wp [where F = "\<lambda>j v. diff_slot v (slot s2 b j)" and G = "?G b"])
      show "wp (clear_side s2 b u) (side_done u b (\<lambda>j v. diff_slot v (slot s2 b j)) h) h"
        by (rule clear_side_wp [OF wfs(2) u(1)])
      show "wp (or_into_side (if ?same then v else s3) b v) (side_done v b (?G b) h') h'"
        if v: "side_done u b (\<lambda>j v. diff_slot v (slot s2 b j)) h v h'" for v h'
      proof (cases ?same)
        case True
        then show ?thesis using or_into_same_wp [of v b h'] v by (simp add: side_done_def)
      next
        case False
        have "max_base s3 b \<le> max_base v b"
          by (rule room_trans [OF room u(2)]) (use v in \<open>simp add: side_done_def\<close>)
        from or_into_side_wp [OF wfs(3) _ this] False v show ?thesis by (simp add: side_done_def)
      qed
    qed
    show "Q (Some t') g2" if t': "sides_done t ?F g1 t' g2" for t' g2
    proof (rule post)
      have "wf_cset t" using wf(1) t(1,2) by (simp add: wf_cset_def has_def)
      then have "acc_set g1 (Some t) (elems (Some s1) - elems (Some s2) \<union> third_elems (Some s1) (Some s3)) (Some t') g2"
        by (rule acc_sides [OF _ t', where P = "\<lambda>b m. has s1 b m \<and> \<not> has s2 b m \<or> \<not> ?same \<and> has s3 b m"])
           (use wf wfs t(2) in \<open>auto simp: vbit_or_slot vbit_diff_slot
              wf_vec_slots elems_has wf_cset_def has_def third_elems_def\<close>)
      then show "acc_set g (Some s1) (elems (Some s1) - elems (Some s2) \<union> third_elems (Some s1) (Some s3)) (Some t') g2"
        using t(3,4) by (auto simp: acc_set_def intro: lib_same_trans)
    qed
  qed
  have "wp (bnd (if max_base s1 False < max_base s3 False
          then EnlargeSide s1 False (max_base s3 False - 1) else ret s1) (\<lambda>t.
        bnd (if max_base t True < max_base s3 True
          then EnlargeSide t True (max_base s3 True - 1) else ret t) (\<lambda>t.
        for_each ?f [False, True] t))) (\<lambda>t. Q (Some t)) g"
    unfolding wp_bnd
    by (intro enlarge_for_wp wfs loop) (auto intro: lib_same_trans)
  then show ?thesis
    unfolding Set_subtract_union_acc_def option.case wp_bnd wp_ret .
qed

text \<open>A first argument that is NULL: \<open>Set_subtract_union_acc\<close> copies the third.\<close>

lemma Set_subtract_union_acc_wp [wp_rules]:
  assumes wf: "wf_set st1" "wf_set st2" "wf_set st3"
    and same: "\<And>s1 s3. st1 = Some s1 \<Longrightarrow> st3 = Some s3 \<Longrightarrow> set_id s1 = set_id s3 \<Longrightarrow> s1 = s3"
    and post: "\<And>st' g'. acc_set g st1 (elems st1 - elems st2 \<union> third_elems st1 st3) st' g' \<Longrightarrow> Q st' g'"
  shows "wp (Set_subtract_union_acc st1 st2 st3) Q g"
proof (cases "st1 = None \<or> st2 = None \<or> st3 = None")
  case False
  then obtain s1 s2 s3 where s: "st1 = Some s1" "st2 = Some s2" "st3 = Some s3" by auto
  show ?thesis
    unfolding s by (rule Set_subtract_union_acc_Some_wp) (use wf s post in auto)
next
  case True
  have join: "elems st1 - elems st2 \<union> elems st3 = elems st1 - elems st2 \<union> third_elems st1 st3" if "st1 = None \<or> st2 = None"
    using that same by (auto simp: third_elems_def)
  have none: "third_elems st1 None = {}" by (simp add: third_elems_def)
  show ?thesis
    using True wf post join none
    by (auto simp: Set_subtract_union_acc_def acc_set_def [of _ None] split: option.split
        intro!: Set_union_wp Set_subtract_acc_wp Set_union_acc_wp)
qed

end
