(* ===== verification/Set_Query.thy ===== *)
theory Set_Query
  imports Set_Algebra
begin

text \<open>
  The questions a client asks of a set of \<open>src/src/library/libflow/set.c\<close>: emptiness, the
  emptiness tests of the algebra, and the union that reports a change.
\<close>

section \<open>Tests\<close>

lemma wp_exists_pure:
  assumes "\<And>x Q. x \<in> set xs \<Longrightarrow> wp (p x) Q g = Q (P x) g"
  shows "wp (exists_prog p xs) Q g = Q (\<exists>x\<in>set xs. P x) g"
  using assms by (induction xs) auto

lemma exists_element:
  assumes "\<And>b j k. k < 256 \<Longrightarrow> vbit (u b j) k = P b (256 * j + k)" "\<not> P True 0"
    and "\<And>b j. n b \<le> j \<Longrightarrow> \<not> (\<exists>k<256. vbit (u b j) k)"
  shows "(\<exists>b\<in>{False, True}. \<exists>j\<in>{0..<n b}. \<exists>k<256. vbit (u b j) k) = ({e. P (e < 0) (nat \<bar>e\<bar>)} \<noteq> {})"
proof
  assume "\<exists>b\<in>{False, True}. \<exists>j\<in>{0..<n b}. \<exists>k<256. vbit (u b j) k"
  then obtain b j k where k: "k < 256" "vbit (u b j) k" by blast
  define m where "m = 256 * j + k"
  let ?e = "if b then - int m else int m"
  have "P b m" using k assms(1) by (simp add: m_def)
  moreover from this assms(2) have "b \<Longrightarrow> m \<noteq> 0" by (cases "m = 0") auto
  ultimately have "P (?e < 0) (nat \<bar>?e\<bar>)" by (cases b) auto
  then show "{e. P (e < 0) (nat \<bar>e\<bar>)} \<noteq> {}" by blast
next
  assume "{e. P (e < 0) (nat \<bar>e\<bar>)} \<noteq> {}"
  then obtain e where e: "P (e < 0) (nat \<bar>e\<bar>)" by blast
  let ?b = "e < 0" and ?j = "nat \<bar>e\<bar> div 256" and ?k = "nat \<bar>e\<bar> mod 256"
  have "vbit (u ?b ?j) ?k" using e assms(1) [of ?k ?b ?j] by simp
  moreover have "?k < 256" by simp
  ultimately have ex: "\<exists>k<256. vbit (u ?b ?j) k" by blast
  with assms(3) have "?j < n ?b" by (meson not_le)
  with ex show "\<exists>b\<in>{False, True}. \<exists>j\<in>{0..<n b}. \<exists>k<256. vbit (u b j) k"
    by (intro bexI [where x = ?b] bexI [where x = ?j]) auto
qed

lemma wp_Set_empty:
  assumes "wf_set st"
  shows "wp (Set_empty st) Q g = Q (elems st = {}) g"
proof (cases st)
  case None
  then show ?thesis by (simp add: Set_empty_def)
next
  case (Some s)
  with assms have wf: "wf_cset s" "wf_arr s" by auto
  have words: "wp (exists_prog (\<lambda>j. bnd (array_get (Some w) j) (\<lambda>x. ret (x \<noteq> 0))) [0..<Set_VECTOR_SIZE]) R h
      = R (\<exists>k<256. vbit (Some w) k) h" if "length w = 8" for w R and h :: 'b
    unfolding words_zero_iff [OF that, symmetric]
    by (subst wp_exists_pure [where P = "\<lambda>j. w ! j \<noteq> 0"])
       (use that in \<open>auto simp: Set_VECTOR_SIZE_def Bex_def\<close>)
  have side: "wp (Set_empty_side s b) R h = R (\<exists>j\<in>{0..<max_base s b}. \<exists>k<256. vbit (slot s b j) k) h"
    for b R and h :: 'b
  proof (cases "varray s b = None")
    case True
    with wf show ?thesis by (simp add: Set_empty_side_def wf_arr_None)
  next
    case False
    then show ?thesis
      unfolding Set_empty_side_def if_not_P [OF False]
      by (subst wp_exists_pure [where P = "\<lambda>j. \<exists>k<256. vbit (slot s b j) k"])
         (use wf in \<open>auto simp: wp_slot_get wp_option_case words slot_length split: option.split\<close>)
  qed
  have "(\<exists>b\<in>{False, True}. \<exists>j\<in>{0..<max_base s b}. \<exists>k<256. vbit (slot s b j) k) = (elems st \<noteq> {})"
    unfolding Some elems_has
    by (rule exists_element) (use wf in \<open>auto simp: has_def wf_cset_def slot_outside\<close>)
  then show ?thesis
    unfolding Set_empty_def Some option.case wp_bnd
    by (subst wp_exists_pure [OF side]) (simp add: Some)
qed

lemma wp_Set_intersect_empty:
  assumes "wf_set st1" "wf_set st2"
  shows "wp (Set_intersect_empty st1 st2) Q g = Q (elems st1 \<inter> elems st2 = {}) g"
proof (cases "st1 = None \<or> st2 = None")
  case True
  then show ?thesis by (auto simp: Set_intersect_empty_def split: option.split)
next
  case False
  then obtain s1 s2 where s: "st1 = Some s1" "st2 = Some s2" by auto
  with assms have wf: "wf_cset s1" "wf_cset s2" "wf_arr s1" "wf_arr s2" by auto
  let ?u = "\<lambda>b j. and_slot (slot s1 b j) (slot s2 b j)"
  let ?q = "\<lambda>b i. bnd (array_get (varray s1 b) i) (\<lambda>v1. case v1 of None \<Rightarrow> ret False
    | Some w1 \<Rightarrow> if i \<ge> max_base s2 b then ret False
        else bnd (array_get (varray s2 b) i) (\<lambda>v2. case v2 of None \<Rightarrow> ret False
             | Some w2 \<Rightarrow> ret (vec_all (vec_and w1 w2) \<noteq> 0)))"
  let ?p = "\<lambda>b. if varray s1 b = None then ret False
    else if varray s2 b = None then ret False else exists_prog (?q b) [0..<max_base s1 b]"
  have pos: "wp (?q b i) R h = R (\<exists>k<256. vbit (?u b i) k) h" if "i < max_base s1 b" for b i R and h :: 'a
    using that wf by (cases "max_base s2 b \<le> i")
      (auto simp: wp_slot_get wp_option_case and_slot_def vec_all_iff slot_length slot_outside
        split: option.split)
  have side: "wp (?p b) R h = R (\<exists>j\<in>{0..<max_base s1 b}. \<exists>k<256. vbit (?u b j) k) h"
    for b R and h :: 'a
  proof (cases "varray s1 b = None \<or> varray s2 b = None")
    case True
    with wf show ?thesis by (auto simp: wf_arr_None no_side)
  next
    case False
    then have ne: "varray s1 b \<noteq> None" "varray s2 b \<noteq> None" by simp_all
    show ?thesis
      unfolding if_not_P [OF ne(1)] if_not_P [OF ne(2)]
      by (subst wp_exists_pure [OF pos]) auto
  qed
  have "(\<exists>b\<in>{False, True}. \<exists>j\<in>{0..<max_base s1 b}. \<exists>k<256. vbit (?u b j) k) =
      ({e. has s1 (e < 0) (nat \<bar>e\<bar>) \<and> has s2 (e < 0) (nat \<bar>e\<bar>)} \<noteq> {})"
    by (rule exists_element [where P = "\<lambda>b m. has s1 b m \<and> has s2 b m"])
       (use wf in \<open>auto simp: has_def wf_cset_def slot_outside vbit_and_slot\<close>)
  also have "\<dots> = (elems st1 \<inter> elems st2 \<noteq> {})"
    by (auto simp: s elems_has)
  finally show ?thesis
    unfolding Set_intersect_empty_def s option.case prod.case wp_bnd
    by (subst wp_exists_pure [OF side]) (simp add: s)
qed

lemma wp_Set_subtract_empty:
  assumes "wf_set st1" "wf_set st2"
  shows "wp (Set_subtract_empty st1 st2) Q g = Q (elems st1 \<subseteq> elems st2) g"
proof (cases "st1 = None \<or> st2 = None")
  case True
  then show ?thesis
    using assms by (auto simp: Set_subtract_empty_def wp_Set_empty split: option.split)
next
  case False
  then obtain s1 s2 where s: "st1 = Some s1" "st2 = Some s2" by auto
  with assms have wf: "wf_cset s1" "wf_cset s2" "wf_arr s1" "wf_arr s2" by auto
  let ?u = "\<lambda>b j. diff_slot (slot s1 b j) (slot s2 b j)"
  let ?q = "\<lambda>b i. bnd (array_get (varray s1 b) i) (\<lambda>v1. case v1 of None \<Rightarrow> ret False
    | Some w1 \<Rightarrow> bnd (subtract_words s2 b i w1) (\<lambda>u. ret (vec_all u \<noteq> 0)))"
  let ?p = "\<lambda>b. if varray s1 b = None then ret False else exists_prog (?q b) [0..<max_base s1 b]"
  have pos: "wp (?q b i) R h = R (\<exists>k<256. vbit (?u b i) k) h" if "i < max_base s1 b" for b i R and h :: 'a
    using that wf
    by (auto simp: wp_slot_get wp_option_case wp_subtract_words diff_slot_def vec_all_iff slot_length
        split: option.split)
  have side: "wp (?p b) R h = R (\<exists>j\<in>{0..<max_base s1 b}. \<exists>k<256. vbit (?u b j) k) h"
    for b R and h :: 'a
  proof (cases "varray s1 b = None")
    case True
    with wf show ?thesis by (simp add: wf_arr_None)
  next
    case False
    show ?thesis
      unfolding if_not_P [OF False]
      by (subst wp_exists_pure [OF pos]) auto
  qed
  have "(\<exists>b\<in>{False, True}. \<exists>j\<in>{0..<max_base s1 b}. \<exists>k<256. vbit (?u b j) k) =
      ({e. has s1 (e < 0) (nat \<bar>e\<bar>) \<and> \<not> has s2 (e < 0) (nat \<bar>e\<bar>)} \<noteq> {})"
    by (rule exists_element [where P = "\<lambda>b m. has s1 b m \<and> \<not> has s2 b m"])
       (use wf in \<open>auto simp: has_def wf_cset_def slot_outside vbit_diff_slot\<close>)
  also have "\<dots> = (\<not> elems st1 \<subseteq> elems st2)"
    by (auto simp: s elems_has)
  finally show ?thesis
    unfolding Set_subtract_empty_def s option.case wp_bnd
    by (subst wp_exists_pure [OF side]) (simp add: s)
qed

section \<open>Union with a change flag\<close>

text \<open>What the union leaves at a position: a vector without a bit is not joined.\<close>

definition join_slot :: "Set_Vector option \<Rightarrow> Set_Vector option \<Rightarrow> Set_Vector option" where
  "join_slot fv v = (if \<exists>k<256. vbit fv k then or_slot fv v else v)"

lemma union_acc_ch_step:
  assumes "wf_arr f" "wf_arr t" "i < max_base f b"
  shows "wp (let u = fst (t, c); change = snd (t, c) in
      bnd (array_get (varray f b) i) (\<lambda>fv.
      case fv of None \<Rightarrow> ret (t, c)
      | Some w \<Rightarrow>
          if vec_all w \<noteq> 0 then
            bnd (ensure_side u b i) (\<lambda>t.
            bnd (array_get (varray t b) i) (\<lambda>tv.
            case tv of None \<Rightarrow> bnd (store_new t b i w) (\<lambda>t. ret (t, True))
            | Some tw \<Rightarrow>
                let change = (if \<not> change then vec_any (vec_diff w tw) else change) in
                bnd (put_vector t b i (Some (vec_or tw w))) (\<lambda>t. ret (t, change))))
          else ret (t, c)))
    (\<lambda>tc g'. side_step t b i (join_slot (slot f b i) (slot t b i)) g (fst tc) g' \<and>
      snd tc = (c \<or> (\<exists>k<256. vbit (slot f b i) k \<and> \<not> vbit (slot t b i) k))) g"
proof (cases "slot f b i")
  case None
  with assms show ?thesis by (simp add: side_simps side_step_id join_slot_def)
next
  case (Some w)
  have len: "length w = 8" using slot_length [OF assms(1) Some] .
  have diff: "vec_any (vec_diff w v) = (\<exists>k<256. vbit (Some w) k \<and> \<not> vbit (Some v) k)"
    if "length v = 8" for v
    using that len vbit_vec_ops(3) [of w v] by (auto simp: vec_any_iff)
  show ?thesis
  proof (cases "\<exists>k<256. vbit (Some w) k")
    case False
    with assms Some len show ?thesis
      by (auto simp: side_simps vec_all_iff side_step_id join_slot_def)
  next
    case True
    with assms Some len diff show ?thesis
      by (auto simp: side_simps or_slot_def vec_all_iff vec_or_zero join_slot_def
          intro!: ensure_side_wp split: option.split)
  qed
qed

lemma union_acc_ch_side_wp:
  assumes "wf_arr f" "wf_arr t"
  shows "wp (union_acc_ch_side f b (t, c)) (\<lambda>tc g'.
      side_done t b (\<lambda>j. join_slot (slot f b j)) g (fst tc) g' \<and>
      snd tc = (c \<or> (\<exists>j<max_base f b. \<exists>k<256. vbit (slot f b j) k \<and> \<not> vbit (slot t b j) k))) g"
  unfolding union_acc_ch_side_def
proof (rule guard_side)
  assume "varray f b = None"
  with assms show "side_done t b (\<lambda>j. join_slot (slot f b j)) g (fst (t, c)) g \<and> snd (t, c) =
      (c \<or> (\<exists>j<max_base f b. \<exists>k<256. vbit (slot f b j) k \<and> \<not> vbit (slot t b j) k))"
    by (simp add: side_done_id join_slot_def no_side wf_arr_None)
next
  let ?F = "\<lambda>j. join_slot (slot f b j)"
  let ?new = "\<lambda>j. \<exists>k<256. vbit (slot f b j) k \<and> \<not> vbit (slot t b j) k"
  let ?I = "\<lambda>n tc h. side_inv t b ?F g {..<n} (fst tc) h \<and> snd tc = (c \<or> (\<exists>j<n. ?new j))"
  show "wp (for_each (\<lambda>i tc. let t = fst tc; change = snd tc in
      bnd (array_get (varray f b) i) (\<lambda>fv. case fv of None \<Rightarrow> ret tc
      | Some w \<Rightarrow> if vec_all w \<noteq> 0 then
          bnd (ensure_side t b i) (\<lambda>t. bnd (array_get (varray t b) i) (\<lambda>tv.
          case tv of None \<Rightarrow> bnd (store_new t b i w) (\<lambda>t. ret (t, True))
          | Some tw \<Rightarrow> let change = (if \<not> change then vec_any (vec_diff w tw) else change) in
              bnd (put_vector t b i (Some (vec_or tw w))) (\<lambda>t. ret (t, change))))
        else ret tc)) [0..<max_base f b] (t, c))
    (\<lambda>tc g'. side_done t b ?F g (fst tc) g' \<and> snd tc = (c \<or> (\<exists>j<max_base f b. ?new j))) g"
  proof (rule wp_for_upto [where I = ?I], goal_cases)
    case 1
    with assms show ?case by (simp add: side_inv_init)
  next
    case (2 n tc h)
    obtain u d where tc: "tc = (u, d)" by fastforce
    with 2 have inv: "side_inv t b ?F g {..<n} u h" by simp
    then have u: "wf_arr u" "slot u b n = slot t b n" by (simp_all add: side_inv_def)
    have d: "(d \<or> ?new n) = (c \<or> (\<exists>j<Suc n. ?new j))"
      using 2 tc by (auto simp: less_Suc_eq)
    have "side_inv t b ?F g {..<Suc n} v h'"
      if "side_step u b n (join_slot (slot f b n) (slot t b n)) h v h'" for v h'
      unfolding lessThan_Suc by (rule side_inv_step [OF inv]) (use that u(2) in auto)
    with d show ?case
      unfolding tc by (intro wp_mono [OF union_acc_ch_step [OF assms(1) u(1) 2(1)]]) (simp add: u(2))
  next
    case (3 tc h)
    moreover have "?F j (slot t b j) = slot t b j" if "j \<notin> {..<max_base f b}" for j
      using that by (simp add: join_slot_def slot_outside assms(1))
    ultimately show ?case by (blast intro: side_inv_done)
  qed
qed

lemma not_subset_element:
  assumes "wf_cset s2"
  shows "(\<exists>b\<in>{False, True}. \<exists>j<max_base s2 b. \<exists>k<256. vbit (slot s2 b j) k \<and> \<not> vbit (slot s1 b j) k) =
    (\<not> elems (Some s2) \<subseteq> elems (Some s1))"
proof
  assume "\<exists>b\<in>{False, True}. \<exists>j<max_base s2 b. \<exists>k<256. vbit (slot s2 b j) k \<and> \<not> vbit (slot s1 b j) k"
  then obtain b j k where k: "k < 256" "vbit (slot s2 b j) k" "\<not> vbit (slot s1 b j) k" by blast
  define m where "m = 256 * j + k"
  let ?e = "if b then - int m else int m"
  have m: "has s2 b m" "\<not> has s1 b m" using k by (auto simp: has_def m_def)
  moreover from m(1) assms have "b \<Longrightarrow> m \<noteq> 0" by (cases "m = 0") (auto simp: wf_cset_def)
  ultimately have "?e \<in> elems (Some s2) \<and> ?e \<notin> elems (Some s1)" by (cases b) auto
  then show "\<not> elems (Some s2) \<subseteq> elems (Some s1)" by blast
next
  assume "\<not> elems (Some s2) \<subseteq> elems (Some s1)"
  then obtain e where e: "e \<in> elems (Some s2)" "e \<notin> elems (Some s1)" by blast
  let ?b = "e < 0" and ?j = "nat \<bar>e\<bar> div 256" and ?k = "nat \<bar>e\<bar> mod 256"
  have k: "vbit (slot s2 ?b ?j) ?k" "\<not> vbit (slot s1 ?b ?j) ?k" "?k < 256"
    using e by (simp_all add: has_def)
  moreover have "?j < max_base s2 ?b"
    using k(1) slot_outside [OF wf_csetD [OF assms], of ?b ?j] by (metis not_le vbit_None)
  ultimately show "\<exists>b\<in>{False, True}. \<exists>j<max_base s2 b. \<exists>k<256. vbit (slot s2 b j) k \<and> \<not> vbit (slot s1 b j) k"
    by (intro bexI [where x = ?b] exI [where x = ?j] conjI exI [where x = ?k]) simp_all
qed

lemma Set_union_acc_ch_Some_wp:
  assumes wf: "wf_cset s1" "wf_set st2"
    and post: "\<And>st' g'. acc_set g (Some s1) (elems (Some s1) \<union> elems st2) st' g' \<Longrightarrow>
      Q (st', \<not> elems st2 \<subseteq> elems (Some s1)) g'"
  shows "wp (Set_union_acc_ch (Some s1) st2) Q g"
proof (cases st2)
  case None
  have "acc_set g (Some s1) (elems (Some s1) \<union> elems st2) (Some s1) g"
    using wf(1) None by (simp add: acc_set_def)
  from post [OF this] show ?thesis
    using None by (simp add: Set_union_acc_ch_def)
next
  case (Some s2)
  let ?F = "\<lambda>b j. join_slot (slot s2 b j)"
  let ?new = "\<lambda>b s. \<exists>j<max_base s2 b. \<exists>k<256. vbit (slot s2 b j) k \<and> \<not> vbit (slot s b j) k"
  have wfs: "wf_arr s1" "wf_cset s2" "wf_arr s2" using wf Some by auto
  have "Q (Some t2, ?new False s1 \<or> ?new True s1) g2"
    if "side_done s1 False (?F False) g t1 g1" "side_done t1 True (?F True) g1 t2 g2" for t1 g1 t2 g2
  proof -
    have fin: "sides_done s1 ?F g t2 g2"
      using that by (auto simp: side_done_def sides_done_def intro: lib_same_trans order_trans)
    have "acc_set g (Some s1) (elems (Some s1) \<union> elems st2) (Some t2) g2"
      by (rule acc_sides [OF wf(1) fin, where P = "\<lambda>b m. has s1 b m \<or> has s2 b m"])
         (use wf wfs Some in \<open>auto simp: vbit_or_slot elems_has wf_cset_def has_def join_slot_def\<close>)
    from post [OF this] not_subset_element [OF wfs(2), of s1] show ?thesis
      by (simp add: Some)
  qed
  moreover have "?new True t1 = ?new True s1" if "side_done s1 False (?F False) g t1 g1" for t1 g1
    using that by (simp add: side_done_def)
  ultimately have second: "wp (union_acc_ch_side s2 True (t1, ?new False s1))
      (\<lambda>tc. Q (Some (fst tc), snd tc)) g1"
    if "side_done s1 False (?F False) g t1 g1" for t1 g1
    using that by (intro wp_mono [OF union_acc_ch_side_wp [OF wfs(3)]]) (auto simp: side_done_def [of s1])
  have "wp (union_acc_ch_side s2 False (s1, False))
      (\<lambda>tc. wp (union_acc_ch_side s2 True tc) (\<lambda>tc. Q (Some (fst tc), snd tc))) g"
  proof (rule wp_mono [OF union_acc_ch_side_wp [OF wfs(3,1)]])
    fix tc g1
    assume "side_done s1 False (?F False) g (fst tc) g1 \<and> snd tc = (False \<or> ?new False s1)"
    with second [of "fst tc" g1]
    show "wp (union_acc_ch_side s2 True tc) (\<lambda>tc. Q (Some (fst tc), snd tc)) g1"
      by (cases tc) simp
  qed
  then show ?thesis
    unfolding Set_union_acc_ch_def Some by simp
qed

lemma Set_union_acc_ch_None:
  "Set_union_acc_ch None st2 = bnd NewSet (\<lambda>s. Set_union_acc_ch (Some s) st2)"
  by (simp add: Set_union_acc_ch_def)

lemma Set_union_acc_ch_wp [wp_rules]:
  assumes wf: "wf_set st1" "wf_set st2"
    and post: "\<And>st' g'. acc_set g st1 (elems st1 \<union> elems st2) st' g' \<Longrightarrow>
      Q (st', \<not> elems st2 \<subseteq> elems st1) g'"
  shows "wp (Set_union_acc_ch st1 st2) Q g"
proof (cases st1)
  case (Some s1)
  with assms show ?thesis by (auto intro: Set_union_acc_ch_Some_wp)
next
  case None
  have "wp (Set_union_acc_ch (Some s) st2) Q g1" if s: "fresh_set g s g1" for s g1
  proof (rule Set_union_acc_ch_Some_wp)
    fix st' g'
    assume "acc_set g1 (Some s) (elems (Some s) \<union> elems st2) st' g'"
    then have "acc_set g st1 (elems st1 \<union> elems st2) st' g'"
      using fresh_acc [OF s] fresh_set_empty [OF s] by (simp add: None acc_set_def [of _ None])
    from post [OF this] show "Q (st', \<not> elems st2 \<subseteq> elems (Some s)) g'"
      using fresh_set_empty(2) [OF s] None by simp
  qed (use fresh_set_empty [OF s] wf in auto)
  then show ?thesis
    unfolding None Set_union_acc_ch_None wp_bnd by (rule NewSet_wp)
qed

end
