(* ===== verification/Set_Enum.thy ===== *)
theory Set_Enum
  imports Set_Query
begin

text \<open>
  Counting, comparing and listing the sets of \<open>src/src/library/libflow/set.c\<close>: \<open>Set_size\<close>,
  \<open>Set_same\<close>, \<open>Set_2array\<close> and the iterators.

  \<open>elem_list\<close> is the order in which the library lists a set: the elements that are not
  negative upwards, then the negative ones by magnitude. \<open>Set_2array\<close> writes this list and the
  iterator visits it.
\<close>

section \<open>Size, equality, enumeration\<close>

text \<open>
  The counters \<open>b1 .. b8\<close> of \<open>Set_size\<close> are the list of the eight; they are unbounded here. This is
  the loop that is compiled when \<open>POPCNT\<close> is not defined.
\<close>

definition count_words :: "Set_Vector \<Rightarrow> int list \<Rightarrow> ('s, int list) prog" where
  "count_words vc bs =
     bnd (for_each (\<lambda>j (bs, mask).
            ret (map2 (\<lambda>c x. c + (if x AND mask \<noteq> 0 then 1 else 0)) bs vc, push_bit 1 mask))
          [0..<32] (bs, 1 :: word32)) (\<lambda>(bs, mask).
     ret bs)"

definition Set_size :: "Set \<Rightarrow> ('s, int) prog" where
  "Set_size st =
     (case st of None \<Rightarrow> ret 0
      | Some s \<Rightarrow>
          bnd (for_each (\<lambda>b bs.
                 for_each (\<lambda>i bs.
                   bnd (array_get (varray s b) i) (\<lambda>vc.
                   case vc of None \<Rightarrow> ret bs | Some w \<Rightarrow> count_words w bs))
                 [0..<max_base s b] bs)
               [False, True] (replicate 8 0)) (\<lambda>bs.
          ret (((bs ! 0 + bs ! 1) + (bs ! 2 + bs ! 3)) + ((bs ! 4 + bs ! 5) + (bs ! 6 + bs ! 7)))))"

definition vec_ne :: "Set_Vector \<Rightarrow> Set_Vector \<Rightarrow> Set_Vector" where
  "vec_ne v w = map2 (\<lambda>x y. if x \<noteq> y then 1 else 0) v w"

text \<open>One of the two loops of \<open>Set_same\<close>: does a vector of \<open>s\<close> differ from the one of \<open>s'\<close>?\<close>

definition differ_side :: "cset \<Rightarrow> cset \<Rightarrow> bool \<Rightarrow> ('s, bool) prog" where
  "differ_side s s' b =
     (if varray s b = None then ret False
      else exists_prog (\<lambda>i.
             bnd (array_get (varray s b) i) (\<lambda>v.
             case v of None \<Rightarrow> ret False
             | Some w \<Rightarrow>
                 bnd (if varray s' b = None \<or> i \<ge> max_base s' b then ret None
                      else array_get (varray s' b) i) (\<lambda>v'.
                 let t = (case v' of None \<Rightarrow> w | Some w' \<Rightarrow> vec_ne w w') in
                 ret (vec_all t \<noteq> 0))))
           [0..<max_base s b])"

definition Set_same :: "Set \<Rightarrow> Set \<Rightarrow> ('s, bool) prog" where
  "Set_same set1 set2 =
     (case (set1, set2) of
        (None, None) \<Rightarrow> ret True
      | (None, Some _) \<Rightarrow> Set_empty set2
      | (Some _, None) \<Rightarrow> Set_empty set1
      | (Some s1, Some s2) \<Rightarrow>
          bnd (exists_prog (differ_side s1 s2) [False, True]) (\<lambda>d.
          if d then ret False
          else bnd (exists_prog (differ_side s2 s1) [False, True]) (\<lambda>d. ret (\<not> d))))"

text \<open>\<open>buf[k++] = x\<close>\<close>

definition buf_put :: "int \<Rightarrow> nat \<times> int list option \<Rightarrow> ('s, nat \<times> int list option) prog" where
  "buf_put x kb = bnd (array_put (snd kb) (fst kb) x) (\<lambda>buf. ret (fst kb + 1, buf))"

text \<open>The loop over the bits of one word, four at a time.\<close>

definition word_2array ::
  "int \<Rightarrow> int \<Rightarrow> word32 \<Rightarrow> nat \<times> int list option \<Rightarrow> ('s, nat \<times> int list option) prog" where
  "word_2array sign pos value kb =
     bnd (for_each (\<lambda>j (value, kb).
            let b1 = value AND 1 \<noteq> 0;
                b2 = value AND 2 \<noteq> 0;
                b3 = value AND 4 \<noteq> 0;
                b4 = value AND 8 \<noteq> 0;
                value = drop_bit 4 value in
            bnd (if b1 then buf_put (sign * (pos + j)) kb else ret kb) (\<lambda>kb.
            bnd (if b2 then buf_put (sign * (pos + j + 1)) kb else ret kb) (\<lambda>kb.
            bnd (if b3 then buf_put (sign * (pos + j + 2)) kb else ret kb) (\<lambda>kb.
            bnd (if b4 then buf_put (sign * (pos + j + 3)) kb else ret kb) (\<lambda>kb.
            ret (value, kb))))))
          [0, 4, 8, 12, 16, 20, 24, 28] (value, kb)) (\<lambda>(value, kb).
     ret kb)"

definition Set_2array :: "Set \<Rightarrow> int list option \<Rightarrow> ('s, nat \<times> int list option) prog" where
  "Set_2array st buf =
     (case st of None \<Rightarrow> ret (0, buf)
      | Some s \<Rightarrow>
          for_each (\<lambda>b kb.
            if varray s b = None then ret kb
            else
              let sign = (if b = False then 1 else - 1) in
              for_each (\<lambda>l kb.
                bnd (array_get (varray s b) l) (\<lambda>v1.
                case v1 of None \<Rightarrow> ret kb
                | Some w \<Rightarrow>
                    let base = Set_CONSTRUCT_BASE (int l) in
                    bnd (for_each (\<lambda>i (offset, kb).
                           bnd (array_get (Some w) i) (\<lambda>value.
                           bnd (word_2array sign (base + offset) value kb) (\<lambda>kb.
                           ret (offset + 32, kb))))
                         [0..<Set_VECTOR_SIZE] (0, kb)) (\<lambda>(offset, kb).
                    ret kb)))
              [0..<max_base s b] kb)
          [False, True] (0, buf))"

section \<open>Iterators\<close>

text \<open>
  \<open>it_set\<close> is the set as it is while the iterator runs: a client does not update a set it
  iterates over. The four functions \<open>scan_bits\<close>, \<open>scan_words\<close>, \<open>scan_bases\<close> and \<open>scan_sides\<close> are the
  four nested loops of \<open>Set_next\<close>, which leave together by \<open>goto Set_next_FOUND\<close>.
\<close>

record SetIterator =
  it_set :: Set
  current_varray :: nat
  current_base :: nat
  current_bit :: nat
  nxt :: int
  finis :: int

definition scan_bits :: "word32 \<Rightarrow> nat \<Rightarrow> ('s, bool \<times> nat) prog" where
  "scan_bits val bi =
     find_each (\<lambda>bt bi. if val AND push_bit bt 1 \<noteq> 0 then ret (True, bi) else ret (False, bi + 1))
       [bi AND 0x1F ..< 32] bi"

definition scan_words :: "Set_Vector \<Rightarrow> nat \<Rightarrow> ('s, bool \<times> nat) prog" where
  "scan_words val bi =
     find_each (\<lambda>wo bi.
       bnd (array_get (Some val) wo) (\<lambda>x.
       if x \<noteq> 0 then scan_bits x bi else ret (False, bi + 32)))
     [drop_bit 5 bi ..< Set_VECTOR_SIZE] bi"

definition scan_bases :: "cset \<Rightarrow> bool \<Rightarrow> nat \<times> nat \<Rightarrow> ('s, bool \<times> nat \<times> nat) prog" where
  "scan_bases s b p =
     find_each (\<lambda>bo (_, bi).
       bnd (array_get (varray s b) bo) (\<lambda>val.
       bnd (case val of None \<Rightarrow> ret (False, bi) | Some w \<Rightarrow> scan_words w bi) (\<lambda>(found, bi).
       if found then ret (True, (bo, bi)) else ret (False, (bo + 1, 0)))))
     [fst p ..< max_base s b] p"

text \<open>\<open>if (var) while (bo < mo[va]) ...\<close>\<close>

definition scan_side :: "cset \<Rightarrow> bool \<Rightarrow> nat \<times> nat \<Rightarrow> ('s, bool \<times> nat \<times> nat) prog" where
  "scan_side s b p = (if varray s b \<noteq> None then scan_bases s b p else ret (False, p))"

definition scan_sides :: "cset \<Rightarrow> nat \<times> nat \<times> nat \<Rightarrow> ('s, bool \<times> nat \<times> nat \<times> nat) prog" where
  "scan_sides s p =
     find_each (\<lambda>va (_, bo, bi).
       bnd (scan_side s (va = 1) (bo, bi)) (\<lambda>(found, bo, bi).
       if found then ret (True, (va, bo, bi)) else ret (False, (va + 1, 0, bi))))
     [fst p ..< 2] p"

definition Set_next :: "SetIterator \<Rightarrow> ('s, int \<times> SetIterator) prog" where
  "Set_next si =
     (case it_set si of
        Some s \<Rightarrow>
          if current_varray si < 2 then
            let tmp = nxt si in
            bnd (scan_sides s (current_varray si, current_base si, current_bit si))
              (\<lambda>(found, va, bo, bi).
            ret (tmp, si\<lparr>nxt := (if va \<noteq> 0 then - 1 else 1) * (Set_CONSTRUCT_BASE (int bo) + int bi),
                         current_varray := va, current_base := bo, current_bit := bi + 1\<rparr>))
          else ret (finis si, si\<lparr>nxt := finis si\<rparr>)
      | None \<Rightarrow> ret (finis si, si\<lparr>nxt := finis si\<rparr>))"

text \<open>The allocator leaves \<open>junk\<close> in the field \<open>nxt\<close>.\<close>

definition Set_iterator :: "int \<Rightarrow> Set \<Rightarrow> int \<Rightarrow> ('s, SetIterator) prog" where
  "Set_iterator junk st fin =
     (let si = \<lparr>it_set = st, current_varray = 0, current_base = 0, current_bit = 0,
                nxt = junk, finis = fin\<rparr> in
      if st \<noteq> None then bnd (Set_next si) (\<lambda>(_, si). ret si)
      else ret (si\<lparr>current_varray := 2\<rparr>))"

definition Set_exhausted :: "SetIterator \<Rightarrow> bool" where
  "Set_exhausted si = (if it_set si \<noteq> None \<and> current_varray si < 2 then False else True)"

text \<open>Two pointers are the same when they are both NULL or their descriptors have one number.\<close>

definition Set_reset :: "SetIterator \<Rightarrow> Set \<Rightarrow> ('s, SetIterator) prog" where
  "Set_reset si st =
     bnd (if it_set si = None then ret (si\<lparr>it_set := st\<rparr>)
          else if map_option set_id (it_set si) \<noteq> map_option set_id st
          then fail (Punt ''Set_reset: Attempted to reset an iterator on a different set'')
          else ret (si\<lparr>it_set := st\<rparr>)) (\<lambda>si.
     bnd (Set_next (si\<lparr>current_varray := 0, current_base := 0, current_bit := 0\<rparr>)) (\<lambda>(_, si).
     ret si))"

text \<open>The elements of a set in the order the library lists them.\<close>

definition side_list :: "cset \<Rightarrow> bool \<Rightarrow> int list" where
  "side_list s b =
     map (\<lambda>m. if b then - int m else int m) (filter (has s b) [0..<256 * max_base s b])"

definition elem_list :: "Set \<Rightarrow> int list" where
  "elem_list st = (case st of None \<Rightarrow> [] | Some s \<Rightarrow> side_list s False @ side_list s True)"

text \<open>The client loop \<open>while (!Set_exhausted (si)) x = Set_next (si)\<close>, at most \<open>n\<close> times.\<close>

primrec drain :: "nat \<Rightarrow> SetIterator \<Rightarrow> ('s, int list \<times> SetIterator) prog" where
  "drain 0 si = ret ([], si)"
| "drain (Suc n) si =
     (if Set_exhausted si then ret ([], si)
      else bnd (Set_next si) (\<lambda>(x, si).
           bnd (drain n si) (\<lambda>(xs, si). ret (x # xs, si))))"

section \<open>The list of the elements\<close>

lemma set_elem_list:
  assumes "wf_set st"
  shows "set (elem_list st) = elems st"
proof (cases st)
  case None
  then show ?thesis by (simp add: elem_list_def)
next
  case (Some s)
  with assms have wf: "wf_arr s" "\<not> has s True 0" by (auto simp: wf_cset_def)
  have bound: "m < 256 * max_base s b" if "has s b m" for b m
    using that slot_outside [OF wf(1), of b "m div 256"]
    by (cases "max_base s b \<le> m div 256") (auto simp: has_def div_less_iff_less_mult not_le mult.commute)
  have "e \<in> set (elem_list st) \<longleftrightarrow> has s (e < 0) (nat \<bar>e\<bar>)" for e
  proof (cases "e < 0")
    case True
    then have "e \<in> set (elem_list st) \<longleftrightarrow> (\<exists>m. has s True m \<and> m < 256 * max_base s True \<and> e = - int m)"
      by (auto simp: Some elem_list_def side_list_def)
    also have "\<dots> \<longleftrightarrow> has s True (nat \<bar>e\<bar>)"
      using True bound by (auto intro: exI [where x = "nat (- e)"])
    finally show ?thesis using True by simp
  next
    case False
    then have "e \<in> set (elem_list st) \<longleftrightarrow> (\<exists>m. has s False m \<and> m < 256 * max_base s False \<and> e = int m)"
      using wf(2) by (auto simp: Some elem_list_def side_list_def)
    also have "\<dots> \<longleftrightarrow> has s False (nat \<bar>e\<bar>)"
      using False bound by (auto intro: exI [where x = "nat e"])
    finally show ?thesis using False by simp
  qed
  then show ?thesis unfolding Some elems_has by blast
qed

lemma distinct_elem_list: "wf_set st \<Longrightarrow> distinct (elem_list st)"
proof (cases st)
  case (Some s)
  assume "wf_set st"
  with Some have "m \<noteq> 0" if "has s True m" for m
    using that by (cases "m = 0") (auto simp: wf_cset_def)
  then have "set (side_list s False) \<inter> set (side_list s True) = {}"
    by (fastforce simp: side_list_def)
  with Some show ?thesis
    by (simp add: elem_list_def) (simp add: side_list_def distinct_map inj_on_def)
qed (simp add: elem_list_def)

lemma card_elems: "wf_set st \<Longrightarrow> card (elems st) = length (elem_list st)"
  by (metis distinct_card distinct_elem_list set_elem_list)

lemma finite_elems: "wf_set st \<Longrightarrow> finite (elems st)"
  by (metis List.finite_set set_elem_list)

lemma filter_blocks:
  "filter P [0..<c * n] = concat (map (\<lambda>i. map (\<lambda>j. c * i + j) (filter (\<lambda>j. P (c * i + j)) [0..<c])) [0..<n])"
proof (induction n)
  case (Suc n)
  have "[0..<c * Suc n] = [0..<c * n] @ [c * n..<c * n + c]"
    by (metis add.commute le0 mult_Suc_right upt_add_eq_append)
  moreover have "[c * n..<c * n + c] = map (\<lambda>j. c * n + j) [0..<c]"
    by (rule nth_equalityI) simp_all
  ultimately show ?case
    using Suc by (simp add: filter_map comp_def)
qed simp

lemma has_blocks:
  "filter (has s b) [0..<256 * n] =
   concat (map (\<lambda>i. map (\<lambda>j. 256 * i + j) (filter (vbit (slot s b i)) [0..<256])) [0..<n])"
proof -
  have "filter (\<lambda>j. has s b (256 * i + j)) [0..<256] = filter (vbit (slot s b i)) [0..<256]" for i
    by (rule filter_cong) (auto simp: has_def)
  then show ?thesis by (simp add: filter_blocks)
qed

lemma vbit_blocks:
  "filter (vbit (Some w)) [0..<256] =
   concat (map (\<lambda>i. map (\<lambda>j. 32 * i + j) (filter (bit (w ! i)) [0..<32])) [0..<8])"
proof -
  have "filter (\<lambda>j. vbit (Some w) (32 * i + j)) [0..<32] = filter (bit (w ! i)) [0..<32]" for i
    by (rule filter_cong) (auto simp: vbit_def)
  then show ?thesis using filter_blocks [of "vbit (Some w)" 32 8] by simp
qed

section \<open>Size\<close>

lemma sum_list_map2_add:
  "length bs = length ws \<Longrightarrow> sum_list (map2 (\<lambda>c x. c + f x) bs ws) = sum_list bs + sum_list (map f (ws :: 'a list))"
  for f :: "'a \<Rightarrow> int"
  by (induction bs ws rule: list_induct2) simp_all

lemma sum_list_map_add:
  "sum_list (map f xs) + sum_list (map g xs) = sum_list (map (\<lambda>x. f x + g x) xs)" for f g :: "'a \<Rightarrow> int"
  by (induction xs) simp_all

lemma length_vbits:
  assumes "length w = 8"
  shows "int (length (filter (vbit (Some w)) [0..<256])) =
    sum_list (map (\<lambda>x. int (length (filter (bit x) [0..<32]))) w)"
proof -
  have "map (\<lambda>x. int (length (filter (bit x) [0..<32]))) w =
      map (\<lambda>i. int (length (filter (bit (w ! i)) [0..<32]))) [0..<8]"
    by (rule nth_equalityI) (simp_all add: assms)
  then show ?thesis
    by (simp add: vbit_blocks length_concat comp_def sum_list_of_nat [symmetric] o_def)
qed

lemma count_words_wp:
  assumes "length vc = 8" "length bs = 8"
    and "\<And>bs'. length bs' = 8 \<Longrightarrow>
      sum_list bs' = sum_list bs + int (length (filter (vbit (Some vc)) [0..<256])) \<Longrightarrow> Q bs' g"
  shows "wp (count_words vc bs) Q g"
  unfolding count_words_def wp_bnd
proof (rule wp_for_upto [where I = "\<lambda>j (bs', mask) h. h = g \<and> mask = push_bit j 1 \<and> length bs' = 8 \<and>
    sum_list bs' = sum_list bs + sum_list (map (\<lambda>x. int (length (filter (bit x) [0..<j]))) vc)"], goal_cases)
  case 1
  with assms(2) show ?case by (simp add: sum_list_0)
next
  case (2 j p h)
  obtain bs' mask where p: "p = (bs', mask)" by fastforce
  have "sum_list (map2 (\<lambda>c x. c + (if x AND push_bit j 1 \<noteq> 0 then 1 else 0)) bs' vc) =
      sum_list bs' + sum_list (map (\<lambda>x. if bit x j then 1 else 0) vc)"
    using 2 p assms(1) by (subst sum_list_map2_add) (auto simp: and_exp_eq_0_iff_not_bit)
  moreover have "sum_list (map (\<lambda>x. int (length (filter (bit x) [0..<j]))) vc) +
      sum_list (map (\<lambda>x. if bit x j then 1 else 0) vc) =
      sum_list (map (\<lambda>x. int (length (filter (bit x) [0..<Suc j]))) vc)"
    unfolding sum_list_map_add by (rule arg_cong [where f = sum_list]) (rule map_cong, auto)
  ultimately show ?case
    using 2 p assms(1) by (simp add: push_bit_push_bit)
next
  case (3 p h)
  with assms show ?case by (auto simp: length_vbits split: prod.splits)
qed

lemma sum_list_eight:
  "length bs = 8 \<Longrightarrow> ((bs ! 0 + bs ! 1) + (bs ! 2 + bs ! 3)) + ((bs ! 4 + bs ! 5) + (bs ! 6 + bs ! 7)) =
    sum_list (bs :: int list)"
  by (simp add: numeral_eq_Suc length_Suc_conv) (elim exE conjE, simp)

lemma length_has_Suc:
  "length (filter (has s b) [0..<256 * Suc n]) =
   length (filter (has s b) [0..<256 * n]) + length (filter (vbit (slot s b n)) [0..<256])"
  unfolding has_blocks by simp

lemma size_side_wp:
  assumes "wf_arr s" "length bs = 8"
    and "\<And>bs'. length bs' = 8 \<Longrightarrow> sum_list bs' = sum_list bs + int (length (side_list s b)) \<Longrightarrow> Q bs' g"
  shows "wp (for_each (\<lambda>i bs. bnd (array_get (varray s b) i) (\<lambda>vc.
      case vc of None \<Rightarrow> ret bs | Some w \<Rightarrow> count_words w bs)) [0..<max_base s b] bs) Q g"
proof (rule wp_for_upto [where I = "\<lambda>n bs' h. h = g \<and> length bs' = 8 \<and>
    sum_list bs' = sum_list bs + int (length (filter (has s b) [0..<256 * n]))"], goal_cases)
  case 1
  with assms show ?case by simp
next
  case (2 n bs' h)
  with assms(1) show ?case
    by (auto simp: wp_slot_get wp_option_case slot_length length_has_Suc simp del: mult_Suc_right
        intro!: count_words_wp split: option.split)
next
  case (3 bs' h)
  with assms(3) show ?case by (simp add: side_list_def)
qed

lemma wp_Set_size:
  assumes "wf_set st" and "Q (int (card (elems st))) g"
  shows "wp (Set_size st) Q g"
proof (cases st)
  case None
  with assms show ?thesis by (simp add: Set_size_def)
next
  case (Some s)
  with assms(1) have wf: "wf_arr s" by auto
  have "int (card (elems st)) = int (length (side_list s False)) + int (length (side_list s True))"
    using card_elems [OF assms(1)] by (simp add: Some elem_list_def)
  with assms(2) wf show ?thesis
    unfolding Some Set_size_def option.case wp_bnd wp_two_sides wp_ret
    by (intro size_side_wp) (simp_all only: sum_list_eight, simp_all add: sum_list_replicate)
qed

section \<open>Equality\<close>

lemma vec_all_ne: "length v = 8 \<Longrightarrow> length w = 8 \<Longrightarrow> (vec_all (vec_ne v w) \<noteq> 0) = (v \<noteq> w)"
proof -
  assume len: "length v = 8" "length w = 8"
  have "(vec_all (vec_ne v w) \<noteq> 0) = (\<exists>j<8. vec_ne v w ! j \<noteq> 0)"
    unfolding ex_less_8 by (simp add: vec_all_def or_eq_0_iff)
  also have "\<dots> = (\<exists>j<8. v ! j \<noteq> w ! j)"
    using len by (auto simp: vec_ne_def)
  finally show ?thesis using len by (auto simp: list_eq_iff_nth_eq)
qed

lemma vec_eqI:
  assumes "length v = 8" "length w = 8" "\<And>k. k < 256 \<Longrightarrow> vbit (Some v) k = vbit (Some w) k"
  shows "v = w"
proof (rule nth_equalityI)
  fix i assume "i < length v"
  with assms(1) have i: "i < 8" by simp
  show "v ! i = w ! i"
  proof (rule bit_eqI)
    fix n assume "possible_bit TYPE(word32) n"
    then have "n < 32" by (simp add: possible_bit_word)
    with i assms(3) [of "32 * i + n"] show "bit (v ! i) n = bit (w ! i) n"
      by (simp add: vbit_def)
  qed
qed (simp add: assms)

text \<open>Do the vectors at a position differ, seen from the first?\<close>

definition differ_slot :: "Set_Vector option \<Rightarrow> Set_Vector option \<Rightarrow> bool" where
  "differ_slot v v' = (case v of None \<Rightarrow> False
     | Some w \<Rightarrow> (case v' of None \<Rightarrow> \<exists>k<256. vbit v k | Some w' \<Rightarrow> w \<noteq> w'))"

lemma differ_slot_iff:
  assumes "wf_vec v" "wf_vec v'"
  shows "(differ_slot v v' \<or> differ_slot v' v) = (\<exists>k<256. vbit v k \<noteq> vbit v' k)"
  using assms by (auto simp: differ_slot_def split: option.splits intro: vec_eqI)

lemma wp_differ_side:
  assumes "wf_arr s" "wf_arr s'"
  shows "wp (differ_side s s' b) Q g = Q (\<exists>j. differ_slot (slot s b j) (slot s' b j)) g"
proof (cases "varray s b = None")
  case True
  with assms show ?thesis by (simp add: differ_side_def no_side differ_slot_def)
next
  case False
  have "wp (differ_side s s' b) Q g = Q (\<exists>j\<in>set [0..<max_base s b]. differ_slot (slot s b j) (slot s' b j)) g"
    unfolding differ_side_def if_not_P [OF False]
  proof (rule wp_exists_pure, goal_cases)
    case (1 j R)
    with assms wf_arr_None [OF assms(2), of b] show ?case
      by (cases "j < max_base s' b")
         (auto simp: side_simps slot_outside differ_slot_def vec_all_iff vec_all_ne split: option.split)
  qed
  also have "(\<exists>j\<in>set [0..<max_base s b]. differ_slot (slot s b j) (slot s' b j)) =
      (\<exists>j. differ_slot (slot s b j) (slot s' b j))"
  proof -
    have "j < max_base s b" if "differ_slot (slot s b j) (slot s' b j)" for j
      using that slot_outside [OF assms(1), of b j] by (cases "max_base s b \<le> j") (auto simp: differ_slot_def)
    then show ?thesis by auto
  qed
  finally show ?thesis .
qed

lemma all_has_eq:
  "(\<forall>b m. has s1 b m = has s2 b m) = (\<forall>b j. \<not> (\<exists>k<256. vbit (slot s1 b j) k \<noteq> vbit (slot s2 b j) k))"
proof
  assume L: "\<forall>b m. has s1 b m = has s2 b m"
  have "vbit (slot s1 b j) k = vbit (slot s2 b j) k" if "k < 256" for b j k
    using L [rule_format, of b "256 * j + k"] that by (simp add: has_def)
  then show "\<forall>b j. \<not> (\<exists>k<256. vbit (slot s1 b j) k \<noteq> vbit (slot s2 b j) k)" by blast
qed (simp add: has_def)

lemma elems_eq_iff:
  assumes "wf_cset s1" "wf_cset s2"
  shows "(elems (Some s1) = elems (Some s2)) = (\<forall>b m. has s1 b m = has s2 b m)"
proof
  assume eq: "elems (Some s1) = elems (Some s2)"
  show "\<forall>b m. has s1 b m = has s2 b m"
  proof (intro allI)
    fix b m
    let ?e = "if b then - int m else int m"
    show "has s1 b m = has s2 b m"
    proof (cases "b \<and> m = 0")
      case True
      with assms show ?thesis by (simp add: wf_cset_def)
    next
      case False
      then have "(?e < 0) = b" "nat \<bar>?e\<bar> = m" by auto
      with eq [THEN eqset_imp_iff, of ?e] show ?thesis by simp
    qed
  qed
qed (simp add: elems_has)

lemma wp_differ_sides:
  assumes "wf_arr s" "wf_arr s'"
  shows "wp (exists_prog (differ_side s s') [False, True]) Q g =
    Q (\<exists>b j. differ_slot (slot s b j) (slot s' b j)) g"
  by (subst wp_exists_pure [OF wp_differ_side [OF assms]]) (simp add: ex_bool_eq disj_commute)

lemma if_not_conj: "(if a then Q False g else Q (\<not> b) g) = Q (\<not> a \<and> \<not> b) g"
  by simp

lemma wp_Set_same:
  assumes "wf_set st1" "wf_set st2"
  shows "wp (Set_same st1 st2) Q g = Q (elems st1 = elems st2) g"
proof (cases "st1 = None \<or> st2 = None")
  case True
  with assms show ?thesis
    by (auto simp: Set_same_def wp_Set_empty eq_commute [of "{}"] split: option.split)
next
  case False
  then obtain s1 s2 where s: "st1 = Some s1" "st2 = Some s2" by auto
  with assms have wf: "wf_cset s1" "wf_cset s2" "wf_arr s1" "wf_arr s2" by auto
  let ?d = "\<lambda>s s'. \<exists>b j. differ_slot (slot s b j) (slot s' b j)"
  have eq: "(elems st1 = elems st2) = (\<not> ?d s1 s2 \<and> \<not> ?d s2 s1)"
    using wf differ_slot_iff [OF slot_wf_vec slot_wf_vec, of s1 s2]
    by (simp only: s elems_eq_iff all_has_eq) blast
  have "wp (Set_same st1 st2) Q g = (if ?d s1 s2 then Q False g else Q (\<not> ?d s2 s1) g)"
    unfolding Set_same_def s prod.case option.case wp_bnd
    by (simp only: wp_differ_sides wf wp_if wp_ret wp_bnd)
  then show ?thesis unfolding eq by (simp only: if_not_conj)
qed

section \<open>Listing into an array\<close>

lemma wp_buf_puts:
  "k + length xs \<le> length buf \<Longrightarrow>
   wp (for_each buf_put xs (k, Some buf)) Q g =
   Q (k + length xs, Some (take k buf @ xs @ drop (k + length xs) buf)) g"
proof (induction xs arbitrary: k buf)
  case (Cons x xs)
  have "take (Suc k) (buf[k := x]) @ xs @ drop (Suc k + length xs) (buf[k := x]) =
      take k buf @ (x # xs) @ drop (k + length (x # xs)) buf"
    using Cons.prems by (simp add: take_Suc_conv_app_nth drop_update_cancel)
  with Cons show ?case by (simp add: buf_put_def wp_array_put)
qed simp

lemma and_literals:
  "(x AND 1 \<noteq> 0) = bit x 0" "(x AND 2 \<noteq> 0) = bit x 1"
  "(x AND 4 \<noteq> 0) = bit x 2" "(x AND 8 \<noteq> 0) = bit x 3" for x :: word32
  using and_exp_eq_0_iff_not_bit [of x 0] and_exp_eq_0_iff_not_bit [of x 1]
    and_exp_eq_0_iff_not_bit [of x 2] and_exp_eq_0_iff_not_bit [of x 3]
  by simp_all

lemma upt_four: "[n..<n + 4] = [n, n + 1, n + 2, n + 3]"
  by (simp add: upt_rec numeral_eq_Suc)

lemma cond_put: "(if b then buf_put x kb else ret kb) = for_each buf_put (if b then [x] else []) kb"
  by simp

lemma word_2array_eq:
  "(word_2array sign pos w kb :: ('s, nat \<times> int list option) prog) =
   for_each buf_put (map (\<lambda>j. sign * (pos + int j)) (filter (bit w) [0..<32])) kb"
proof -
  let ?L = "\<lambda>n. map (\<lambda>j. sign * (pos + int (4 * n + j))) (filter (\<lambda>j. bit w (4 * n + j)) [0..<4])"
  let ?body = "\<lambda>j (value, kb).
      let b1 = value AND 1 \<noteq> 0; b2 = value AND 2 \<noteq> 0; b3 = value AND 4 \<noteq> 0; b4 = value AND 8 \<noteq> 0;
          value = drop_bit 4 value in
      bnd (if b1 then buf_put (sign * (pos + j)) kb else ret kb) (\<lambda>kb.
      bnd (if b2 then buf_put (sign * (pos + j + 1)) kb else ret kb) (\<lambda>kb.
      bnd (if b3 then buf_put (sign * (pos + j + 2)) kb else ret kb) (\<lambda>kb.
      bnd (if b4 then buf_put (sign * (pos + j + 3)) kb else ret kb) (\<lambda>kb.
      ret (value, kb) :: ('s, word32 \<times> nat \<times> int list option) prog))))"
  have "?body (int (4 * n)) (drop_bit (4 * n) w, kb) =
      bnd (for_each buf_put (?L n) kb) (\<lambda>kb. ret (drop_bit (4 * Suc n) w, kb))" for n kb
  proof -
    have "?L n = (if bit w (4 * n) then [sign * (pos + int (4 * n))] else [])
        @ (if bit w (4 * n + 1) then [sign * (pos + int (4 * n) + 1)] else [])
        @ (if bit w (4 * n + 2) then [sign * (pos + int (4 * n) + 2)] else [])
        @ (if bit w (4 * n + 3) then [sign * (pos + int (4 * n) + 3)] else [])"
      unfolding upt_four [of 0, simplified] by (simp add: add.assoc)
    then show ?thesis
      by (simp only: prod.case Let_def and_literals bit_drop_bit_eq comp_def cond_put for_each_append bnd_assoc)
         (simp add: ac_simps)
  qed
  then have "for_each ?body (map (\<lambda>n. int (4 * n)) [0..<8]) (drop_bit (4 * 0) w, kb) =
      bnd (for_each buf_put (concat (map ?L [0..<8])) kb) (\<lambda>kb. ret (drop_bit (4 * 8) w, kb))"
    by (rule for_each_carry [where ix = "\<lambda>n. int (4 * n)" and c = "\<lambda>n. drop_bit (4 * n) w" and L = ?L])
  moreover have "map (\<lambda>n. int (4 * n)) [0..<8] = [0, 4, 8, 12, 16, 20, 24, 28]"
    by (simp add: upt_rec)
  moreover have "concat (map ?L [0..<8]) = map (\<lambda>j. sign * (pos + int j)) (filter (bit w) [0..<32])"
    using filter_blocks [of "bit w" 4 8] by (simp add: map_concat comp_def del: upt_rec_numeral)
  ultimately show ?thesis
    by (simp add: word_2array_def bnd_assoc del: upt_rec_numeral)
qed

lemma vector_2array_eq:
  assumes "length w = 8"
  shows "bnd (for_each (\<lambda>i (offset, kb). bnd (array_get (Some w) i) (\<lambda>value.
        bnd (word_2array sign (base + offset) value kb) (\<lambda>kb. ret (offset + 32, kb))))
      [0..<Set_VECTOR_SIZE] (0, kb)) (\<lambda>(offset, kb). ret kb :: ('s, nat \<times> int list option) prog) =
    for_each buf_put (map (\<lambda>j. sign * (base + int j)) (filter (vbit (Some w)) [0..<256])) kb"
proof -
  let ?L = "\<lambda>i. map (\<lambda>j. sign * (base + int (32 * i + j))) (filter (bit (w ! i)) [0..<32])"
  let ?body = "\<lambda>i (offset, kb). bnd (array_get (Some w) i :: ('s, word32) prog) (\<lambda>value.
        bnd (word_2array sign (base + offset) value kb) (\<lambda>kb. ret (offset + 32, kb)))"
  have "?body i (32 * int i, kb) = bnd (for_each buf_put (?L i) kb) (\<lambda>kb. ret (32 * int (Suc i), kb))"
    if "i < 8" for i kb
    using that assms by (simp add: array_get_def word_2array_eq ac_simps)
  then have "for_each ?body (map (\<lambda>i. i) [0..<8]) (32 * int 0, kb) =
      bnd (for_each buf_put (concat (map ?L [0..<8])) kb) (\<lambda>kb. ret (32 * int 8, kb))"
    by (rule for_each_carry [where ix = "\<lambda>i. i" and c = "\<lambda>i. 32 * int i" and L = ?L])
  then show ?thesis
    by (simp add: Set_VECTOR_SIZE_def bnd_assoc vbit_blocks map_concat comp_def del: upt_rec_numeral)
qed

lemma side_2array_eq:
  assumes "wf_arr s"
  shows "(if varray s b = None then ret kb
      else let sign = (if b = False then 1 else - 1) in
        for_each (\<lambda>l kb. bnd (array_get (varray s b) l) (\<lambda>v1.
          case v1 of None \<Rightarrow> ret kb
          | Some w \<Rightarrow> let base = Set_CONSTRUCT_BASE (int l) in
              bnd (for_each (\<lambda>i (offset, kb). bnd (array_get (Some w) i) (\<lambda>value.
                     bnd (word_2array sign (base + offset) value kb) (\<lambda>kb. ret (offset + 32, kb))))
                   [0..<Set_VECTOR_SIZE] (0, kb)) (\<lambda>(offset, kb). ret kb)))
        [0..<max_base s b] kb) =
    for_each buf_put (side_list s b) kb"
proof (cases "varray s b = None")
  case True
  with assms show ?thesis by (simp add: wf_arr_None side_list_def)
next
  case False
  let ?sg = "if b = False then 1 else - 1 :: int"
  let ?F = "\<lambda>l. map (\<lambda>j. ?sg * (256 * int l + int j)) (filter (vbit (slot s b l)) [0..<256])"
  have get: "array_get (varray s b) l = ret (slot s b l)" if "l < max_base s b" for l
    using wf_arr_Some [OF assms that] that by (auto simp: array_get_def)
  have "side_list s b = concat (map ?F [0..<max_base s b])"
    unfolding side_list_def has_blocks map_concat by (simp add: comp_def)
  then show ?thesis
    unfolding if_not_P [OF False] Let_def
    by (simp only:) (rule for_each_concat,
      auto simp: get Set_CONSTRUCT_BASE_mult vector_2array_eq slot_length [OF assms] split: option.split)
qed

lemma Set_2array_eq:
  assumes "wf_set st"
  shows "Set_2array st buf = for_each buf_put (elem_list st) (0, buf)"
proof (cases st)
  case None
  then show ?thesis by (simp add: Set_2array_def elem_list_def)
next
  case (Some s)
  with assms have wf: "wf_arr s" by auto
  show ?thesis
    unfolding Set_2array_def Some option.case side_2array_eq [OF wf]
    by (simp add: elem_list_def for_each_append)
qed

lemma wp_Set_2array:
  assumes "wf_set st" "card (elems st) \<le> length buf"
  shows "wp (Set_2array st (Some buf)) Q g =
    Q (card (elems st), Some (elem_list st @ drop (card (elems st)) buf)) g"
  using assms by (simp add: Set_2array_eq wp_buf_puts card_elems)

section \<open>Iterators\<close>

text \<open>What a search from the position \<open>a\<close> finds: the first number from \<open>a\<close> on with the property.\<close>

definition first_from :: "(nat \<Rightarrow> bool) \<Rightarrow> nat \<Rightarrow> nat \<Rightarrow> bool \<times> nat" where
  "first_from P a n = (case filter P [a..<n] of [] \<Rightarrow> (False, n) | k # _ \<Rightarrow> (True, k))"

lemma first_from_Suc:
  "a < n \<Longrightarrow> first_from P a n = (if P a then (True, a) else first_from P (Suc a) n)"
  by (simp add: first_from_def upt_conv_Cons)

lemma first_from_end [simp]: "first_from P n n = (False, n)"
  by (simp add: first_from_def)

lemma first_from_skip:
  assumes "a \<le> m" "m \<le> n" "\<And>k. a \<le> k \<Longrightarrow> k < m \<Longrightarrow> \<not> P k"
  shows "first_from P a n = first_from P m n"
proof -
  have "[a..<n] = [a..<m] @ [m..<n]"
    using assms(1,2) upt_add_eq_append [of a m "n - m"] by simp
  moreover have "filter P [a..<m] = []" using assms(3) by (simp add: filter_empty_conv)
  ultimately show ?thesis by (simp add: first_from_def)
qed

lemma find_bits_eq:
  assumes "c + bt \<le> c + 32" "bt \<le> 32" "\<And>j. j < 32 \<Longrightarrow> bit w j = P (c + j)"
  shows "find_each (\<lambda>bt bi. if w AND push_bit bt 1 \<noteq> 0 then ret (True, bi) else ret (False, bi + 1))
      [bt..<32] (c + bt) = ret (first_from P (c + bt) (c + 32))"
  using assms(2)
proof (induction rule: inc_induct)
  case (step n)
  then show ?case
    using assms(3) [of n]
    by (simp add: upt_conv_Cons first_from_Suc and_exp_eq_0_iff_not_bit del: upt_rec_numeral)
qed simp

lemma and_31: "n AND 31 = n mod (32 :: nat)"
proof -
  have "n AND 31 = take_bit 5 n" by (simp add: take_bit_eq_mask mask_eq_exp_minus_1)
  then show ?thesis by (simp add: take_bit_eq_mod)
qed

lemma first_from_split:
  assumes "a \<le> m" "m \<le> n"
  shows "first_from P a n = (if fst (first_from P a m) then first_from P a m else first_from P m n)"
proof -
  have "[a..<n] = [a..<m] @ [m..<n]"
    using assms upt_add_eq_append [of a m "n - m"] by simp
  then show ?thesis by (simp add: first_from_def split: list.split)
qed

lemma first_from_not: "\<not> fst (first_from P a n) \<Longrightarrow> snd (first_from P a n) = n"
  by (simp add: first_from_def split: list.splits)

lemma scan_words_eq:
  assumes len: "length w = 8" and bi: "bi \<le> 256"
    and mid: "bi mod 32 \<noteq> 0 \<Longrightarrow> w ! (bi div 32) \<noteq> 0"
  shows "(scan_words w bi :: ('s, bool \<times> nat) prog) = ret (first_from (vbit (Some w)) bi 256)"
proof -
  let ?body = "\<lambda>wo bi. bnd (array_get (Some w) wo :: ('s, word32) prog) (\<lambda>x.
       if x \<noteq> 0 then scan_bits x bi else ret (False, bi + 32))"
  have "find_each ?body [wo..<8] bi = ret (first_from (vbit (Some w)) bi 256)"
    if "wo \<le> 8" "bi = 256 \<and> wo = 8 \<or> wo < 8 \<and> bi div 32 = wo"
      "bi mod 32 \<noteq> 0 \<Longrightarrow> w ! wo \<noteq> 0" for wo bi
    using that
  proof (induction arbitrary: bi rule: inc_induct)
    case (step wo)
    then have wo: "wo < 8" "bi div 32 = wo" by auto
    define bt where "bt = bi mod 32"
    have bi: "bi = 32 * wo + bt" "bt < 32" using wo by (auto simp: bt_def)
    have next_bi: "find_each ?body [Suc wo..<8] (32 * wo + 32) = ret (first_from (vbit (Some w)) (32 * wo + 32) 256)"
      using wo(1) by (intro step.IH) auto
    have get: "(array_get (Some w) wo :: ('s, word32) prog) = ret (w ! wo)"
      using wo len by (simp add: array_get_def)
    have unfold: "find_each ?body [wo..<8] bi =
        bnd (?body wo bi) (\<lambda>r. if fst r then ret r else find_each ?body [Suc wo..<8] (snd r))"
      using wo(1) by (simp add: upt_conv_Cons del: upt_rec_numeral)
    show ?case
    proof (cases "w ! wo = 0")
      case True
      with step.prems bi have "bt = 0" by auto
      moreover have "first_from (vbit (Some w)) bi 256 = first_from (vbit (Some w)) (32 * wo + 32) 256"
      proof (intro first_from_skip)
        fix k assume k: "bi \<le> k" "k < 32 * wo + 32"
        then have "k div 32 = wo" using bi by (intro div_nat_eqI) auto
        with True show "\<not> vbit (Some w) k" by (simp add: vbit_def)
      qed (use wo bi in auto)
      ultimately show ?thesis
        unfolding unfold get using True next_bi bi by simp
    next
      case False
      let ?r = "first_from (vbit (Some w)) bi (32 * wo + 32)"
      have bits: "(scan_bits (w ! wo) bi :: ('s, bool \<times> nat) prog) = ret ?r"
        unfolding scan_bits_def using bi find_bits_eq [of "32 * wo" bt "w ! wo" "vbit (Some w)"]
        by (simp add: vbit_def and_31)
      have "first_from (vbit (Some w)) bi 256 =
          (if fst ?r then ?r else first_from (vbit (Some w)) (32 * wo + 32) 256)"
        using bi wo by (intro first_from_split) auto
      moreover have "snd ?r = 32 * wo + 32" if "\<not> fst ?r"
        using that by (rule first_from_not)
      ultimately show ?thesis
        unfolding unfold get using False next_bi bits by simp
    qed
  qed (auto simp: first_from_def)
  from this [of "bi div 32" bi] show ?thesis
    using bi mid unfolding scan_words_def Set_VECTOR_SIZE_def
    by (cases "bi = 256") (auto simp: drop_bit_eq_div div_less_iff_less_mult)
qed

text \<open>The elements from the position \<open>(va, bo, bi)\<close> on, in the order of \<open>elem_list\<close>.\<close>

definition rest_side :: "cset \<Rightarrow> bool \<Rightarrow> nat \<Rightarrow> int list" where
  "rest_side s b p = map (\<lambda>m. if b then - int m else int m) (filter (has s b) [p..<256 * max_base s b])"

definition rest_from :: "cset \<Rightarrow> nat \<Rightarrow> nat \<Rightarrow> nat \<Rightarrow> int list" where
  "rest_from s va bo bi =
     (if va = 0 then rest_side s False (256 * bo + bi) @ rest_side s True 0
      else if va = 1 then rest_side s True (256 * bo + bi) else [])"

text \<open>
  A position inside a word is one where the word has a bit: the scan adds 32 to \<open>bi\<close> for a word
  that is zero, which is right at the start of a word only.
\<close>

definition scan_ok :: "cset \<Rightarrow> bool \<Rightarrow> nat \<Rightarrow> nat \<Rightarrow> bool" where
  "scan_ok s b bo bi = (bi \<le> 256 \<and> (\<forall>w. bo < max_base s b \<longrightarrow> slot s b bo = Some w \<longrightarrow>
     bi mod 32 \<noteq> 0 \<longrightarrow> w ! (bi div 32) \<noteq> 0))"

lemma first_from_shift:
  assumes "\<And>k. k < n \<Longrightarrow> P k = R (c + k)"
  shows "first_from R (c + a) (c + n) = (fst (first_from P a n), c + snd (first_from P a n))"
proof -
  have "[c + a..<c + n] = map (\<lambda>k. c + k) [a..<n]"
    by (rule nth_equalityI) (auto simp: nth_append)
  moreover have "filter (\<lambda>k. R (c + k)) [a..<n] = filter P [a..<n]"
    using assms by (intro filter_cong) auto
  ultimately show ?thesis
    by (simp add: first_from_def filter_map comp_def split: list.split)
qed

lemma first_from_bounds:
  assumes "first_from P a n = (f, k)" "a \<le> n"
  shows "f \<Longrightarrow> a \<le> k \<and> k < n \<and> P k" "\<not> f \<Longrightarrow> k = n" "\<And>j. a \<le> j \<Longrightarrow> j < k \<Longrightarrow> \<not> P j"
proof -
  have *: "\<not> P j" if "filter P [a..<n] = k # ys" "a \<le> j" "j < k" for ys j
  proof
    assume "P j"
    have "k \<in> set (filter P [a..<n])" using that(1) by simp
    then have "j \<in> set (filter P [a..<n])" using that(2,3) \<open>P j\<close> by auto
    moreover have "sorted (filter P [a..<n])" by (rule sorted_wrt_filter) simp
    ultimately show False using that by auto
  qed
  show "a \<le> k \<and> k < n \<and> P k" if found: f
  proof -
    obtain ys where "filter P [a..<n] = k # ys"
      using assms found by (auto simp: first_from_def split: list.splits)
    then have "k \<in> set (filter P [a..<n])" by simp
    then show ?thesis by simp
  qed
  show "\<not> f \<Longrightarrow> k = n" using assms by (auto simp: first_from_def split: list.splits)
  show "\<not> P j" if "a \<le> j" "j < k" for j
  proof (cases "filter P [a..<n]")
    case Nil
    with assms(1) have "k = n" by (simp add: first_from_def)
    with Nil that show ?thesis by (simp add: filter_empty_conv)
  next
    case (Cons x ys)
    with assms(1) have "x = k" by (simp add: first_from_def)
    with Cons that * show ?thesis by blast
  qed
qed

lemma filter_first:
  assumes "first_from P a n = (f, k)" "a \<le> n"
  shows "filter P [a..<n] = (if f then k # filter P [Suc k..<n] else [])"
proof (cases f)
  case False
  with assms show ?thesis by (auto simp: first_from_def split: list.splits)
next
  case True
  note b = first_from_bounds [OF assms]
  have "[a..<n] = [a..<k] @ k # [Suc k..<n]"
    using b(1) [OF True] upt_add_eq_append [of a k "n - k"] by (simp add: upt_conv_Cons)
  moreover have "filter P [a..<k] = []" using b(3) by (simp add: filter_empty_conv)
  ultimately show ?thesis using True b(1) by simp
qed

text \<open>What scanning one side finds.\<close>

definition found_at :: "bool \<times> nat \<Rightarrow> nat \<Rightarrow> bool \<times> nat \<times> nat" where
  "found_at r mb = (if fst r then (True, snd r div 256, snd r mod 256) else (False, mb, 0))"

lemma scan_vector_eq:
  assumes wf: "wf_arr s" and bo: "bo < max_base s b" and ok: "scan_ok s b bo bi"
  shows "bnd (case slot s b bo of None \<Rightarrow> ret (False, bi) | Some w \<Rightarrow> scan_words w bi) (\<lambda>(found, bi).
      if found then ret (True, (bo, bi)) else ret (False, (bo + 1, 0))) =
    ret (found_at (first_from (has s b) (256 * bo + bi) (256 * bo + 256)) (Suc bo))"
proof -
  have r: "first_from (has s b) (256 * bo + bi) (256 * bo + 256) =
      (fst (first_from (vbit (slot s b bo)) bi 256), 256 * bo + snd (first_from (vbit (slot s b bo)) bi 256))"
    by (rule first_from_shift) (simp add: has_def)
  show ?thesis
  proof (cases "slot s b bo")
    case None
    then show ?thesis unfolding r by (simp add: first_from_def found_at_def filter_empty_conv)
  next
    case (Some w)
    obtain f k where fk: "first_from (vbit (Some w)) bi 256 = (f, k)" by fastforce
    have "f \<Longrightarrow> k < 256" using first_from_bounds(1) [OF fk] ok by (simp add: scan_ok_def)
    with Some fk bo ok slot_length [OF wf Some] show ?thesis
      unfolding r by (simp add: scan_words_eq scan_ok_def found_at_def)
  qed
qed

lemma scan_bases_eq:
  assumes wf: "wf_arr s" and bo: "bo \<le> max_base s b" "bo = max_base s b \<Longrightarrow> bi = 0"
    and ok: "scan_ok s b bo bi"
  shows "(scan_bases s b (bo, bi) :: ('s, bool \<times> nat \<times> nat) prog) =
    ret (found_at (first_from (has s b) (256 * bo + bi) (256 * max_base s b)) (max_base s b))"
proof -
  let ?n = "max_base s b"
  let ?v = "\<lambda>bo bi v. bnd (case v of None \<Rightarrow> ret (False, bi) | Some w \<Rightarrow> scan_words w bi)
      (\<lambda>(found, bi). if found then ret (True, (bo, bi)) else (ret (False, (bo + 1, 0)) ::
        ('s, bool \<times> nat \<times> nat) prog))"
  let ?body = "\<lambda>bo (_ :: nat, bi). bnd (array_get (varray s b) bo) (?v bo bi)"
  have "find_each ?body [bo..<?n] (bo, bi) =
      ret (found_at (first_from (has s b) (256 * bo + bi) (256 * ?n)) ?n)"
    using bo ok
  proof (induction arbitrary: bi rule: inc_induct)
    case base
    then show ?case by (simp add: found_at_def)
  next
    case (step bo)
    let ?r = "first_from (has s b) (256 * bo + bi) (256 * bo + 256)"
    have get: "(array_get (varray s b) bo :: ('s, Set_Vector option) prog) = ret (slot s b bo)"
      using wf_arr_Some [OF wf step.hyps(2)] step.hyps(2) by (auto simp: array_get_def)
    have split: "first_from (has s b) (256 * bo + bi) (256 * ?n) =
        (if fst ?r then ?r else first_from (has s b) (256 * Suc bo + 0) (256 * ?n))"
      using step first_from_split [of "256 * bo + bi" "256 * bo + 256" "256 * ?n" "has s b"]
      by (simp add: scan_ok_def add.commute)
    have "find_each ?body [bo..<?n] (bo, bi) = bnd (ret (found_at ?r (Suc bo)))
        (\<lambda>r. if fst r then ret r else find_each ?body [Suc bo..<?n] (snd r))"
      using step.hyps(2) by (simp add: upt_conv_Cons get scan_vector_eq [OF wf step.hyps(2) step.prems(2), simplified])
    moreover have "find_each ?body [Suc bo..<?n] (Suc bo, 0) =
        ret (found_at (first_from (has s b) (256 * Suc bo + 0) (256 * ?n)) ?n)"
      by (rule step.IH) (simp_all add: scan_ok_def)
    ultimately show ?case
      unfolding split by (simp add: found_at_def)
  qed
  then show ?thesis by (simp add: scan_bases_def)
qed

definition elt :: "bool \<Rightarrow> nat \<Rightarrow> nat \<Rightarrow> int" where
  "elt b bo bi = (if b then - 1 else 1) * (Set_CONSTRUCT_BASE (int bo) + int bi)"

definition pos_ok :: "cset \<Rightarrow> bool \<Rightarrow> nat \<Rightarrow> nat \<Rightarrow> bool" where
  "pos_ok s b bo bi = (scan_ok s b bo bi \<and> (bo < max_base s b \<or> bo = 0 \<and> bi = 0))"

lemma pos_ok_start [simp]: "pos_ok s b 0 0"
  by (simp add: pos_ok_def scan_ok_def)

lemma scan_side_run:
  assumes wf: "wf_arr s" and ok: "pos_ok s b bo bi"
  obtains f bo' bi' where
    "(scan_side s b (bo, bi) :: ('s, bool \<times> nat \<times> nat) prog) = ret (f, bo', bi')"
    "rest_side s b (256 * bo + bi) =
      (if f then elt b bo' bi' # rest_side s b (256 * bo' + (bi' + 1)) else [])"
    "f \<Longrightarrow> pos_ok s b bo' (bi' + 1)" "\<not> f \<Longrightarrow> bi' = 0"
proof -
  let ?n = "max_base s b"
  obtain f p where fp: "first_from (has s b) (256 * bo + bi) (256 * ?n) = (f, p)" by fastforce
  have le: "bo \<le> ?n" "bo = ?n \<Longrightarrow> bi = 0" "256 * bo + bi \<le> 256 * ?n" "scan_ok s b bo bi"
    using ok by (auto simp: pos_ok_def scan_ok_def)
  note run = scan_bases_eq [OF wf le(1,2,4), unfolded fp]
  show thesis
  proof (cases f)
    case False
    have eq: "(scan_side s b (bo, bi) :: ('s, bool \<times> nat \<times> nat) prog) =
        ret (f, (if varray s b \<noteq> None then ?n else bo), 0)"
      using False ok wf_arr_None [OF wf, of b]
      by (auto simp: scan_side_def run found_at_def pos_ok_def)
    show ?thesis
      by (rule that [OF eq]) (use False filter_first [OF fp le(3)] in \<open>auto simp: rest_side_def\<close>)
  next
    case True
    note b = first_from_bounds(1) [OF fp le(3) True]
    define bo' bi' where d: "bo' = p div 256" "bi' = p mod 256"
    then have p: "p = 256 * bo' + bi'" "bi' < 256" by auto
    with b have bo': "bo' < ?n" by auto
    then have some: "varray s b \<noteq> None" using wf_arr_None [OF wf, of b] by auto
    have eq: "(scan_side s b (bo, bi) :: ('s, bool \<times> nat \<times> nat) prog) = ret (f, bo', bi')"
      using True some by (simp add: scan_side_def run found_at_def d)
    have "w ! (Suc bi' div 32) \<noteq> 0" if "slot s b bo' = Some w" "Suc bi' mod 32 \<noteq> 0" for w
    proof -
      have "bit (w ! (bi' div 32)) (bi' mod 32)"
        using b that(1) by (simp add: has_def d vbit_def)
      moreover have "Suc bi' div 32 = bi' div 32" using that(2) by (simp add: div_Suc)
      ultimately show ?thesis by auto
    qed
    then have ok': "pos_ok s b bo' (bi' + 1)"
      using bo' p(2) by (simp add: pos_ok_def scan_ok_def)
    show ?thesis
      by (rule that [OF eq]) (use True ok' p filter_first [OF fp le(3)] in
        \<open>auto simp: rest_side_def elt_def Set_CONSTRUCT_BASE_mult\<close>)
  qed
qed

lemma scan_sides_unfold:
  "scan_sides s (0, bo, bi) = bnd (scan_side s False (bo, bi)) (\<lambda>(f, bo, bi).
     if f then ret (True, 0, bo, bi) else scan_sides s (1, 0, bi))"
  "scan_sides s (1, bo, bi) = bnd (scan_side s True (bo, bi)) (\<lambda>(f, bo, bi).
     if f then ret (True, 1, bo, bi) else ret (False, 2, 0, bi))"
proof -
  have "[0..<2] = [0, Suc 0]" "[Suc 0..<2] = [Suc 0]" by (simp_all add: upt_rec)
  then show "scan_sides s (0, bo, bi) = bnd (scan_side s False (bo, bi)) (\<lambda>(f, bo, bi).
     if f then ret (True, 0, bo, bi) else scan_sides s (1, 0, bi))"
    and "scan_sides s (1, bo, bi) = bnd (scan_side s True (bo, bi)) (\<lambda>(f, bo, bi).
     if f then ret (True, 1, bo, bi) else ret (False, 2, 0, bi))"
    by (auto simp: scan_sides_def fun_eq_iff bnd_def ret_def split: sum.split)
qed

text \<open>The result \<open>r\<close> of a scan that starts at \<open>(va, bo, bi)\<close>.\<close>

definition scan_result :: "cset \<Rightarrow> nat \<Rightarrow> nat \<Rightarrow> nat \<Rightarrow> bool \<times> nat \<times> nat \<times> nat \<Rightarrow> bool" where
  "scan_result s va bo bi r = (case r of (f, va', bo', bi') \<Rightarrow>
     if f then va' < 2 \<and> pos_ok s (va' = 1) bo' (bi' + 1) \<and>
       rest_from s va bo bi = elt (va' \<noteq> 0) bo' bi' # rest_from s va' bo' (bi' + 1)
     else va' = 2 \<and> rest_from s va bo bi = [])"

lemma scan_sides_one:
  assumes wf: "wf_arr s" and ok: "pos_ok s True bo bi"
  obtains r where "(scan_sides s (1, bo, bi) :: ('s, bool \<times> nat \<times> nat \<times> nat) prog) = ret r"
    "scan_result s 1 bo bi r"
proof -
  obtain f bo' bi' where r: "(scan_side s True (bo, bi) :: ('s, bool \<times> nat \<times> nat) prog) = ret (f, bo', bi')"
    "rest_side s True (256 * bo + bi) =
      (if f then elt True bo' bi' # rest_side s True (256 * bo' + (bi' + 1)) else [])"
    "f \<Longrightarrow> pos_ok s True bo' (bi' + 1)"
    using scan_side_run [OF wf ok, where 's = 's] by metis
  show thesis
    by (rule that [of "if f then (True, 1, bo', bi') else (False, 2, 0, bi')"])
       (use r in \<open>auto simp: scan_sides_unfold(2) [simplified] scan_result_def rest_from_def\<close>)
qed

lemma scan_sides_run:
  assumes wf: "wf_arr s" and va: "va < 2" and ok: "pos_ok s (va = 1) bo bi"
  obtains r where "(scan_sides s (va, bo, bi) :: ('s, bool \<times> nat \<times> nat \<times> nat) prog) = ret r"
    "scan_result s va bo bi r"
proof (cases "va = 1")
  case True
  with scan_sides_one [OF wf, of bo bi] ok that show ?thesis by auto
next
  case False
  with va have va0: "va = 0" by simp
  with ok have ok0: "pos_ok s False bo bi" by simp
  obtain f bo' bi' where r: "(scan_side s False (bo, bi) :: ('s, bool \<times> nat \<times> nat) prog) = ret (f, bo', bi')"
    "rest_side s False (256 * bo + bi) =
      (if f then elt False bo' bi' # rest_side s False (256 * bo' + (bi' + 1)) else [])"
    "f \<Longrightarrow> pos_ok s False bo' (bi' + 1)" "\<not> f \<Longrightarrow> bi' = 0"
    using scan_side_run [OF wf ok0, where 's = 's] by metis
  obtain r1 where r1: "(scan_sides s (1, 0, 0) :: ('s, bool \<times> nat \<times> nat \<times> nat) prog) = ret r1"
    "scan_result s 1 0 0 r1"
    by (rule scan_sides_one [OF wf pos_ok_start])
  show ?thesis
    by (rule that [of "if f then (True, 0, bo', bi') else r1"])
       (use r r1 va0 in \<open>auto simp: scan_sides_unfold(1) scan_result_def rest_from_def split: if_splits\<close>)
qed

text \<open>The iterator \<open>si\<close> runs over \<open>s\<close> and has the elements \<open>xs\<close> still to give.\<close>

definition it_gives :: "SetIterator \<Rightarrow> cset \<Rightarrow> int list \<Rightarrow> bool" where
  "it_gives si s xs = (it_set si = Some s \<and> wf_arr s \<and>
     (case xs of [] \<Rightarrow> current_varray si = 2
      | x # ys \<Rightarrow> current_varray si < 2 \<and> nxt si = x \<and>
          pos_ok s (current_varray si = 1) (current_base si) (current_bit si) \<and>
          rest_from s (current_varray si) (current_base si) (current_bit si) = ys))"

lemma Set_next_pos:
  assumes "it_set si = Some s" "wf_arr s" "current_varray si < 2"
    "pos_ok s (current_varray si = 1) (current_base si) (current_bit si)"
  obtains si' where "(Set_next si :: ('s, int \<times> SetIterator) prog) = ret (nxt si, si')"
    "it_gives si' s (rest_from s (current_varray si) (current_base si) (current_bit si))"
    "finis si' = finis si"
proof -
  obtain r where r: "(scan_sides s (current_varray si, current_base si, current_bit si) ::
      ('s, bool \<times> nat \<times> nat \<times> nat) prog) = ret r"
    "scan_result s (current_varray si) (current_base si) (current_bit si) r"
    by (rule scan_sides_run [OF assms(2-4)])
  obtain f va bo bi where rr: "r = (f, va, bo, bi)" by (cases r) auto
  let ?si = "si\<lparr>nxt := elt (va \<noteq> 0) bo bi, current_varray := va, current_base := bo, current_bit := bi + 1\<rparr>"
  have "it_gives ?si s (rest_from s (current_varray si) (current_base si) (current_bit si))"
    using r(2) assms(1,2) by (auto simp: rr scan_result_def it_gives_def split: if_splits)
  moreover have "(Set_next si :: ('s, int \<times> SetIterator) prog) = ret (nxt si, ?si)"
    using assms r(1) by (simp add: Set_next_def rr elt_def)
  ultimately show thesis by (intro that [of ?si]) simp_all
qed

lemma Set_next_gives:
  assumes "it_gives si s (x # xs)"
  obtains si' where "(Set_next si :: ('s, int \<times> SetIterator) prog) = ret (x, si')" "it_gives si' s xs"
proof -
  have si: "it_set si = Some s" "wf_arr s" "current_varray si < 2" "nxt si = x"
    "pos_ok s (current_varray si = 1) (current_base si) (current_bit si)"
    "rest_from s (current_varray si) (current_base si) (current_bit si) = xs"
    using assms by (simp_all add: it_gives_def)
  show thesis
    by (rule Set_next_pos [OF si(1-3,5)]) (use si that in simp)
qed

lemma it_gives_exhausted: "it_gives si s xs \<Longrightarrow> Set_exhausted si = (xs = [])"
  by (auto simp: it_gives_def Set_exhausted_def split: list.splits)

lemma rest_from_start: "rest_from s 0 0 0 = elem_list (Some s)"
  by (simp add: rest_from_def rest_side_def elem_list_def side_list_def)

lemma Set_iterator_gives:
  assumes "wf_arr s"
  obtains si where "(Set_iterator junk (Some s) fin :: ('s, SetIterator) prog) = ret si"
    "it_gives si s (elem_list (Some s))"
proof -
  let ?si = "\<lparr>it_set = Some s, current_varray = 0, current_base = 0, current_bit = 0, nxt = junk, finis = fin\<rparr>"
  obtain si' where "(Set_next ?si :: ('s, int \<times> SetIterator) prog) = ret (nxt ?si, si')"
    "it_gives si' s (rest_from s 0 0 0)"
    by (rule Set_next_pos [of ?si s]) (use assms in auto)
  then show thesis
    by (intro that [of si']) (simp_all add: Set_iterator_def rest_from_start)
qed

lemma drain_gives:
  assumes "it_gives si s xs" "length xs \<le> n"
  obtains si' where "(drain n si :: ('s, int list \<times> SetIterator) prog) = ret (xs, si')" "Set_exhausted si'"
  using assms
proof (induction xs arbitrary: n si thesis)
  case Nil
  then show ?case
    by (cases n) (auto dest: it_gives_exhausted)
next
  case (Cons x xs)
  from Cons.prems(3) obtain m where m: "n = Suc m" "length xs \<le> m" by (cases n) auto
  obtain si1 where s1: "(Set_next si :: ('s, int \<times> SetIterator) prog) = ret (x, si1)" "it_gives si1 s xs"
    by (rule Set_next_gives [OF Cons.prems(2)])
  obtain si2 where s2: "(drain m si1 :: ('s, int list \<times> SetIterator) prog) = ret (xs, si2)" "Set_exhausted si2"
    by (rule Cons.IH [OF _ s1(2) m(2)])
  show ?case
    by (rule Cons.prems(1) [of si2])
       (use m s1 s2 it_gives_exhausted [OF Cons.prems(2)] in auto)
qed

end
