(* ===== verification/Set_Interface.thy ===== *)
theory Set_Interface
  imports Set_Enum
begin

text \<open>
  What the set library of \<open>src/src/library/libflow/set.c\<close> promises its clients.

  The locale \<open>set_library\<close> is the interface the dataflow analyses rely on: which handles are
  live, what they stand for, and that the operations the analyses call return new live
  handles and leave every other live handle alone. Its lemmas are about the loops the
  analyses write over it: joining or intersecting a list of sets with disposal of the
  intermediate results, and comparing two sets by two subtractions. The interpretation at
  the end of the locale's section discharges the laws for the model of the library.

  The second part states the properties of the library's own operations.
\<close>

section \<open>Growth of the library's state\<close>

text \<open>
  \<open>grows g g'\<close>: between \<open>g\<close> and \<open>g'\<close> descriptors were numbered and only descriptors numbered after
  \<open>g\<close> were freed.
\<close>

definition grows :: "'z set_lib_scheme \<Rightarrow> 'z set_lib_scheme \<Rightarrow> bool" where
  "grows g g' = (wf_lib g' \<and> SetId g \<le> SetId g' \<and> set_lib.more g' = set_lib.more g \<and>
     (\<forall>i<SetId g. i \<in> elems (OUT g') \<longleftrightarrow> i \<in> elems (OUT g)))"

text \<open>A handle made after \<open>g\<close>, or NULL.\<close>

definition made_after :: "'z set_lib_scheme \<Rightarrow> Set \<Rightarrow> bool" where
  "made_after g st = (case st of None \<Rightarrow> True | Some s \<Rightarrow> SetId g \<le> set_id s)"

text \<open>Two handles that are not the same descriptor.\<close>

definition apart :: "Set \<Rightarrow> Set \<Rightarrow> bool" where
  "apart st st' = (\<forall>s s'. st = Some s \<longrightarrow> st' = Some s' \<longrightarrow> set_id s \<noteq> set_id s')"

lemma grows_refl: "wf_lib g \<Longrightarrow> grows g g"
  by (simp add: grows_def)

lemma grows_trans: "grows g g' \<Longrightarrow> grows g' g'' \<Longrightarrow> grows g g''"
  by (auto simp: grows_def)

lemma grows_wf: "grows g g' \<Longrightarrow> wf_lib g'"
  by (simp add: grows_def)

lemma live_grows: "live g st \<Longrightarrow> grows g g' \<Longrightarrow> live g' st"
  by (cases st) (auto simp: live_def grows_def)

lemma grows_ext: "wf_lib g \<Longrightarrow> lib_ext g g' \<Longrightarrow> grows g g'"
  by (auto simp: grows_def lib_ext_def wf_lib_def)

lemma made_after_grows: "made_after g' st \<Longrightarrow> grows g g' \<Longrightarrow> made_after g st"
  by (auto simp: made_after_def grows_def split: option.splits)

lemma made_after_None [simp]: "made_after g None"
  by (simp add: made_after_def)

lemma live_None [simp]: "live g None"
  by (simp add: live_def)

lemma apart_None [simp]: "apart None st" "apart st None"
  by (simp_all add: apart_def)

lemma apart_sym: "apart st st' \<Longrightarrow> apart st' st"
  by (auto simp: apart_def)

lemma apart_made_after: "live g st \<Longrightarrow> made_after g st' \<Longrightarrow> apart st st'"
  by (auto simp: apart_def live_def made_after_def split: option.splits)

lemma new_set_grows:
  "wf_lib g \<Longrightarrow> new_set g X st g' \<Longrightarrow> grows g g' \<and> live g' st \<and> made_after g st \<and> elems st = X"
  by (auto simp: live_new_set) (auto simp: new_set_def made_after_def intro: grows_ext)

text \<open>Freeing: the state after, seen from a state before the freed handle was made.\<close>

lemma freed_grows:
  assumes "grows g0 g" "live g st" "made_after g0 st" "freed g st g'"
  shows "grows g0 g'"
  using assms wf_lib_freed [OF _ assms(2,4)]
  by (cases st) (auto simp: grows_def freed_def made_after_def)

lemma live_freed_apart: "live g t \<Longrightarrow> freed g st g' \<Longrightarrow> apart t st \<Longrightarrow> live g' t"
  by (rule live_freed) (auto simp: apart_def)

section \<open>The interface\<close>

locale set_library =
  fixes ok :: "'g \<Rightarrow> bool"
    and extends :: "'g \<Rightarrow> 'g \<Rightarrow> bool"
    and alive :: "'g \<Rightarrow> 'h \<Rightarrow> bool"
    and later :: "'g \<Rightarrow> 'h \<Rightarrow> bool"
    and other :: "'h \<Rightarrow> 'h \<Rightarrow> bool"
    and released :: "'g \<Rightarrow> 'h \<Rightarrow> 'g \<Rightarrow> bool"
    and contents :: "'h \<Rightarrow> int set"
    and nil :: 'h
    and union :: "'h \<Rightarrow> 'h \<Rightarrow> ('g, 'h) prog"
    and intersect :: "'h \<Rightarrow> 'h \<Rightarrow> ('g, 'h) prog"
    and subtract :: "'h \<Rightarrow> 'h \<Rightarrow> ('g, 'h) prog"
    and cardinal :: "'h \<Rightarrow> ('g, int) prog"
    and dispose :: "'h \<Rightarrow> ('g, 'h) prog"
  assumes extends_refl: "ok g \<Longrightarrow> extends g g"
    and extends_trans: "extends g g' \<Longrightarrow> extends g' g'' \<Longrightarrow> extends g g''"
    and extends_ok: "extends g g' \<Longrightarrow> ok g'"
    and alive_extends: "alive g h \<Longrightarrow> extends g g' \<Longrightarrow> alive g' h"
    and later_extends: "later g' h \<Longrightarrow> extends g g' \<Longrightarrow> later g h"
    and later_other: "alive g h \<Longrightarrow> later g k \<Longrightarrow> other k h"
    and nil_alive: "alive g nil" and nil_later: "later g nil" and nil_empty: "contents nil = {}"
    and finite_contents: "alive g h \<Longrightarrow> finite (contents h)"
    and union_law: "ok g \<Longrightarrow> alive g h \<Longrightarrow> alive g k \<Longrightarrow>
      wp (union h k) (\<lambda>r g'. extends g g' \<and> alive g' r \<and> later g r \<and> contents r = contents h \<union> contents k) g"
    and intersect_law: "ok g \<Longrightarrow> alive g h \<Longrightarrow> alive g k \<Longrightarrow>
      wp (intersect h k) (\<lambda>r g'. extends g g' \<and> alive g' r \<and> later g r \<and> contents r = contents h \<inter> contents k) g"
    and subtract_law: "ok g \<Longrightarrow> alive g h \<Longrightarrow> alive g k \<Longrightarrow>
      wp (subtract h k) (\<lambda>r g'. extends g g' \<and> alive g' r \<and> later g r \<and> contents r = contents h - contents k) g"
    and cardinal_law: "alive g h \<Longrightarrow> wp (cardinal h) (\<lambda>n g'. g' = g \<and> n = int (card (contents h))) g"
    and dispose_law: "ok g \<Longrightarrow> alive g h \<Longrightarrow> wp (dispose h) (\<lambda>r g'. r = nil \<and> released g h g') g"
    and released_extends: "extends g0 g \<Longrightarrow> alive g h \<Longrightarrow> later g0 h \<Longrightarrow> released g h g' \<Longrightarrow> extends g0 g'"
    and released_alive: "alive g k \<Longrightarrow> released g h g' \<Longrightarrow> other k h \<Longrightarrow> alive g' k"
begin

text \<open>A result that is new with respect to \<open>g0\<close> and has the contents \<open>X\<close>.\<close>

definition made :: "'g \<Rightarrow> int set \<Rightarrow> 'h \<Rightarrow> 'g \<Rightarrow> bool" where
  "made g0 X r g = (extends g0 g \<and> alive g r \<and> later g0 r \<and> contents r = X)"

lemma made_nil: "ok g \<Longrightarrow> made g {} nil g"
  by (simp add: made_def extends_refl nil_alive nil_later nil_empty)

lemma made_trans: "extends g0 g \<Longrightarrow> made g X r g' \<Longrightarrow> made g0 X r g'"
  by (auto simp: made_def intro: extends_trans later_extends)

text \<open>\<open>temp = f (temp, ...)\<close> followed by the disposal of the old \<open>temp\<close>.\<close>

lemma replace_made:
  assumes "made g0 X h g" "wp m (made g Y) g"
  shows "wp (bnd m (\<lambda>r. bnd (dispose h) (\<lambda>_. ret r))) (made g0 Y) g"
proof -
  have h: "extends g0 g" "alive g h" "later g0 h" using assms(1) by (auto simp: made_def)
  have "wp (bnd (dispose h) (\<lambda>_. ret r)) (made g0 Y) g'" if r: "made g Y r g'" for r g'
  proof -
    have g': "extends g0 g'" "alive g' h"
      using r h by (auto simp: made_def intro: extends_trans alive_extends)
    have "made g0 Y r g''" if "released g' h g''" for g''
      using that r g' h later_other [OF h(2)]
      by (auto simp: made_def intro: released_extends released_alive later_extends)
    with dispose_law [OF extends_ok [OF g'(1)] g'(2)] show ?thesis
      by (auto elim: wp_mono)
  qed
  with assms(2) show ?thesis by (auto elim: wp_mono)
qed

lemma union_made: "ok g \<Longrightarrow> alive g h \<Longrightarrow> alive g k \<Longrightarrow> wp (union h k) (made g (contents h \<union> contents k)) g"
  by (rule wp_mono [OF union_law]) (auto simp: made_def)

lemma intersect_made:
  "ok g \<Longrightarrow> alive g h \<Longrightarrow> alive g k \<Longrightarrow> wp (intersect h k) (made g (contents h \<inter> contents k)) g"
  by (rule wp_mono [OF intersect_law]) (auto simp: made_def)

lemma subtract_made:
  "ok g \<Longrightarrow> alive g h \<Longrightarrow> alive g k \<Longrightarrow> wp (subtract h k) (made g (contents h - contents k)) g"
  by (rule wp_mono [OF subtract_law]) (auto simp: made_def)

text \<open>Folding a list of sets into an accumulator; \<open>rd\<close> reads the next set from the state.\<close>

lemma fold_loop:
  assumes law: "\<And>g h k. ok g \<Longrightarrow> alive g h \<Longrightarrow> alive g k \<Longrightarrow> wp (f h k) (made g (c (contents h) (contents k))) g"
    and rd: "\<And>x g. x \<in> set xs \<Longrightarrow> extends g0 g \<Longrightarrow> wp (rd x) (\<lambda>h g'. h = val x \<and> g' = g) g"
    and alive: "\<And>x. x \<in> set xs \<Longrightarrow> alive g0 (val x)"
    and init: "made g0 X acc g"
  shows "wp (for_each (\<lambda>x acc. bnd (rd x) (\<lambda>h. bnd (f acc h) (\<lambda>r. bnd (dispose acc) (\<lambda>_. ret r)))) xs acc)
    (made g0 (fold (\<lambda>x Y. c Y (contents (val x))) xs X)) g"
  using rd alive init
proof (induction xs arbitrary: X acc g)
  case (Cons x xs)
  have g: "extends g0 g" "ok g" "alive g acc" "contents acc = X"
    using Cons.prems(3) by (auto simp: made_def intro: extends_ok)
  have "wp (f acc (val x)) (made g (c X (contents (val x)))) g"
    using law [OF g(2,3)] Cons.prems(2) [of x] g by (auto intro: alive_extends)
  from replace_made [OF Cons.prems(3) this]
  have "wp (bnd (rd x) (\<lambda>h. bnd (f acc h) (\<lambda>r. bnd (dispose acc) (\<lambda>_. ret r))))
      (made g0 (c X (contents (val x)))) g"
    using Cons.prems(1) [of x g] g(1) by (auto elim: wp_mono)
  moreover have "wp (for_each (\<lambda>x acc. bnd (rd x) (\<lambda>h. bnd (f acc h) (\<lambda>r. bnd (dispose acc) (\<lambda>_. ret r)))) xs r)
      (made g0 (fold (\<lambda>x Y. c Y (contents (val x))) xs (c X (contents (val x))))) g'"
    if "made g0 (c X (contents (val x))) r g'" for r g'
    using that Cons.prems by (intro Cons.IH) auto
  ultimately show ?case
    unfolding for_each.simps fold_Cons o_apply by (rule wp_seq)
qed simp

lemma fold_union: "fold (\<lambda>x Y. Y \<union> f x) xs X = X \<union> (\<Union>x\<in>set xs. f x)"
  by (induction xs arbitrary: X) auto

lemma fold_inter: "fold (\<lambda>x Y. Y \<inter> f x) xs X = X \<inter> (\<Inter>x\<in>set xs. f x)"
  by (induction xs arbitrary: X) auto

lemma union_loop:
  assumes "\<And>x g. x \<in> set xs \<Longrightarrow> extends g0 g \<Longrightarrow> wp (rd x) (\<lambda>h g'. h = val x \<and> g' = g) g"
    and "\<And>x. x \<in> set xs \<Longrightarrow> alive g0 (val x)" and "made g0 X acc g"
  shows "wp (for_each (\<lambda>x acc. bnd (rd x) (\<lambda>h. bnd (union acc h) (\<lambda>r. bnd (dispose acc) (\<lambda>_. ret r)))) xs acc)
    (made g0 (X \<union> (\<Union>x\<in>set xs. contents (val x)))) g"
  using fold_loop [where f = union and c = "(\<union>)" and val = val, OF union_made assms]
  by (simp add: fold_union)

lemma intersect_loop:
  assumes "\<And>x g. x \<in> set xs \<Longrightarrow> extends g0 g \<Longrightarrow> wp (rd x) (\<lambda>h g'. h = val x \<and> g' = g) g"
    and "\<And>x. x \<in> set xs \<Longrightarrow> alive g0 (val x)" and "made g0 X acc g"
  shows "wp (for_each (\<lambda>x acc. bnd (rd x) (\<lambda>h. bnd (intersect acc h) (\<lambda>r. bnd (dispose acc) (\<lambda>_. ret r)))) xs acc)
    (made g0 (X \<inter> (\<Inter>x\<in>set xs. contents (val x)))) g"
  using fold_loop [where f = intersect and c = "(\<inter>)" and val = val, OF intersect_made assms]
  by (simp add: fold_inter)

text \<open>\<open>temp = in - kill; out = gen + temp\<close>, then the disposal of \<open>temp\<close>.\<close>

lemma transfer:
  assumes "ok g" "alive g gen" "alive g in'" "alive g kill"
  shows "wp (bnd (subtract in' kill) (\<lambda>temp. bnd (union gen temp) (\<lambda>out. bnd (dispose temp) (\<lambda>_. ret out))))
    (made g (contents gen \<union> (contents in' - contents kill))) g"
proof (rule wp_seq [OF subtract_made [OF assms(1,3,4)]])
  fix temp g1 assume t: "made g (contents in' - contents kill) temp g1"
  then have "extends g g1" "alive g1 temp" "contents temp = contents in' - contents kill"
    by (auto simp: made_def)
  then have "wp (union gen temp) (made g1 (contents gen \<union> (contents in' - contents kill))) g1"
    using union_made [of g1 gen temp] assms(2) by (auto intro: extends_ok alive_extends)
  then show "wp (bnd (union gen temp) (\<lambda>out. bnd (dispose temp) (\<lambda>_. ret out)))
      (made g (contents gen \<union> (contents in' - contents kill))) g1"
    by (rule replace_made [OF t])
qed

text \<open>The test for a change: two subtractions, each measured and disposed of.\<close>

lemma dispose_made:
  assumes "made g X h g1"
  shows "wp (dispose h) (\<lambda>_. extends g) g1"
proof -
  have h: "extends g g1" "alive g1 h" "later g h" using assms by (auto simp: made_def)
  from dispose_law [OF extends_ok [OF h(1)] h(2)] show ?thesis
    by (rule wp_mono) (use h in \<open>auto intro: released_extends\<close>)
qed

lemma cardinal_made: "made g X h g1 \<Longrightarrow> wp (cardinal h) (\<lambda>n g'. g' = g1 \<and> (n \<noteq> 0) = (X \<noteq> {})) g1"
  using cardinal_law [of g1 h] finite_contents [of g1 h]
  by (auto simp: made_def elim: wp_mono)

lemma compare:
  assumes "ok g" "alive g old" "alive g new"
  shows "wp (bnd (subtract old new) (\<lambda>temp. bnd (cardinal temp) (\<lambda>n.
      bnd (if n \<noteq> 0 then ret (change + 1, temp)
           else bnd (dispose temp) (\<lambda>_. bnd (subtract new old) (\<lambda>temp. bnd (cardinal temp) (\<lambda>n.
                if n \<noteq> 0 then ret (change + 1, temp) else ret (change, temp))))) (\<lambda>(change, temp).
      bnd (dispose temp) (\<lambda>_. ret change)))))
    (\<lambda>c g'. extends g g' \<and> c = (if contents old = contents new then change else change + (1 :: int))) g"
    (is "wp _ ?Q g")
proof (rule wp_seq [OF subtract_made [OF assms]])
  fix t g1 assume t: "made g (contents old - contents new) t g1"
  let ?d = "\<lambda>(change, temp). bnd (dispose temp) (\<lambda>_. ret change)"
  have drop: "wp (?d (c, t')) ?Q g2"
    if "made g X t' g2" "c = (if contents old = contents new then change else change + 1)" for c X t' g2
    using dispose_made [OF that(1)] that(2) by (auto elim: wp_mono)
  show "wp (bnd (cardinal t) (\<lambda>n.
      bnd (if n \<noteq> 0 then ret (change + 1, t)
           else bnd (dispose t) (\<lambda>_. bnd (subtract new old) (\<lambda>temp. bnd (cardinal temp) (\<lambda>n.
                if n \<noteq> 0 then ret (change + 1, temp) else ret (change, temp))))) ?d)) ?Q g1"
  proof (rule wp_seq [OF cardinal_made [OF t]], elim conjE)
    fix n g1'
    assume g1': "g1' = g1" and n: "(n \<noteq> 0) = (contents old - contents new \<noteq> {})"
    show "wp (bnd (if n \<noteq> 0 then ret (change + 1, t)
           else bnd (dispose t) (\<lambda>_. bnd (subtract new old) (\<lambda>temp. bnd (cardinal temp) (\<lambda>n.
                if n \<noteq> 0 then ret (change + 1, temp) else ret (change, temp))))) ?d) ?Q g1'"
    proof (cases "n \<noteq> 0")
      case True
      with n have "contents old \<noteq> contents new" by auto
      with True show ?thesis unfolding g1' using drop [OF t, of "change + 1"] by simp
    next
      case False
      with n have sub: "contents old \<subseteq> contents new" by auto
      have rest: "wp (bnd (bnd (subtract new old) (\<lambda>temp. bnd (cardinal temp) (\<lambda>n.
          if n \<noteq> 0 then ret (change + 1, temp) else ret (change, temp)))) ?d) ?Q g2"
        if g2: "extends g g2" for g2
        unfolding bnd_assoc
      proof (rule wp_seq)
        show "wp (subtract new old) (made g2 (contents new - contents old)) g2"
          using g2 assms by (intro subtract_made) (auto intro: extends_ok alive_extends)
        fix t2 g3 assume t2: "made g2 (contents new - contents old) t2 g3"
        have "wp (bnd (if n \<noteq> 0 then ret (change + 1, t2) else ret (change, t2)) ?d) ?Q g3"
          if "(n \<noteq> 0) = (contents new - contents old \<noteq> {})" for n :: int
          using that sub drop [OF made_trans [OF g2 t2], of change]
            drop [OF made_trans [OF g2 t2], of "change + 1"]
          by (cases "contents old = contents new") auto
        then show "wp (bnd (cardinal t2) (\<lambda>n.
            bnd (if n \<noteq> 0 then ret (change + 1, t2) else ret (change, t2)) ?d)) ?Q g3"
          by (intro wp_seq [OF cardinal_made [OF t2]]) blast
      qed
      show ?thesis
        unfolding g1' if_not_P [OF False] bnd_assoc [of "dispose t"]
        by (rule wp_seq [OF dispose_made [OF t] rest])
    qed
  qed
qed

end

lemma null_or_new_grows:
  assumes "wf_lib g" "null_or_new b g X st g'"
  shows "grows g g' \<and> live g' st \<and> made_after g st \<and> elems st = X"
  using assms new_set_grows [OF assms(1), of X st g']
  by (auto simp: null_or_new_def grows_refl split: if_splits)

interpretation lib: set_library wf_lib grows live made_after apart freed elems None
    Set_union Set_intersect Set_subtract Set_size Set_dispose
proof (unfold_locales, goal_cases)
  case (10 g h)
  then show ?case by (intro finite_elems live_wf)
next
  case (11 g h k)
  then show ?case using new_set_grows [of g] by (auto intro!: Set_union_wp dest: live_wf)
next
  case (12 g h k)
  then show ?case using null_or_new_grows [of g] by (auto intro!: Set_intersect_wp dest: live_wf)
next
  case (13 g h k)
  then show ?case using null_or_new_grows [of g] by (auto intro!: Set_subtract_wp dest: live_wf)
next
  case (14 g h)
  then show ?case by (intro wp_Set_size) (auto dest: live_wf)
next
  case (15 g h)
  then show ?case by (intro Set_dispose_wp) auto
qed (auto intro: grows_refl grows_trans grows_wf live_grows made_after_grows apart_sym
      apart_made_after freed_grows live_freed_apart)

section \<open>Sets held in a table\<close>

text \<open>
  The discipline of a client that keeps sets in a table \<open>h\<close>: every handle is live and no two entries hold the same descriptor,
  so disposing of one entry leaves the others alone.
\<close>

definition holds :: "'z set_lib_scheme \<Rightarrow> ('k \<Rightarrow> Set) \<Rightarrow> bool" where
  "holds g h = (wf_lib g \<and> (\<forall>k. live g (h k)) \<and> (\<forall>k k'. k \<noteq> k' \<longrightarrow> apart (h k) (h k')))"

definition unheld :: "'z set_lib_scheme \<Rightarrow> ('k \<Rightarrow> Set) \<Rightarrow> Set \<Rightarrow> bool" where
  "unheld g h x = (live g x \<and> (\<forall>k. apart x (h k)))"

lemma unheld_None [simp]: "unheld g h None"
  by (simp add: unheld_def)

lemma holds_wf: "holds g h \<Longrightarrow> wf_lib g"
  by (simp add: holds_def)

lemma holds_live: "holds g h \<Longrightarrow> live g (h k)"
  by (simp add: holds_def)

lemma unheld_live: "unheld g h x \<Longrightarrow> live g x"
  by (simp add: unheld_def)

lemma holds_grows: "holds g h \<Longrightarrow> grows g g' \<Longrightarrow> holds g' h"
  by (auto simp: holds_def intro: live_grows grows_wf)

lemma unheld_grows: "unheld g h x \<Longrightarrow> grows g g' \<Longrightarrow> unheld g' h x"
  by (auto simp: unheld_def intro: live_grows)

lemma live_same: "SetId g' = SetId g \<Longrightarrow> OUT g' = OUT g \<Longrightarrow> live g' x = live g x"
  by (simp add: live_def split: option.split)

lemma holds_same: "SetId g' = SetId g \<Longrightarrow> OUT g' = OUT g \<Longrightarrow> holds g' h = holds g h"
  by (simp add: holds_def wf_lib_def live_same [of g' g])

lemma unheld_same: "SetId g' = SetId g \<Longrightarrow> OUT g' = OUT g \<Longrightarrow> unheld g' h x = unheld g h x"
  by (simp add: unheld_def live_same [of g' g])

lemma holds_put: "holds g h \<Longrightarrow> live g x \<Longrightarrow> (\<And>k'. k' \<noteq> k \<Longrightarrow> apart x (h k')) \<Longrightarrow> holds g (h(k := x))"
  by (auto simp: holds_def intro: apart_sym)

lemma unheld_put: "unheld g h x \<Longrightarrow> apart x y \<Longrightarrow> unheld g (h(k := y)) x"
  by (auto simp: unheld_def)

lemma holds_replace:
  assumes "holds g h" "unheld g h x" "freed g (h k) g'"
  shows "holds g' (h(k := x))"
proof -
  have keep: "live g' y" if "live g y" "apart y (h k)" for y by (rule live_freed_apart [OF that(1) assms(3) that(2)])
  have "wf_lib g'" using wf_lib_freed [OF _ _ assms(3)] assms(1) by (simp add: holds_def)
  then show ?thesis using assms(1,2) keep by (auto simp: holds_def unheld_def intro: apart_sym)
qed

lemma unheld_freed:
  assumes "unheld g h y" "apart y z" "freed g z g'"
  shows "unheld g' h y"
  using assms live_freed_apart [of g y z g'] by (simp add: unheld_def)

lemma holds_freed:
  assumes "holds g h" "unheld g h x" "freed g x g'"
  shows "holds g' h"
proof -
  have keep: "live g' y" if "live g y" "apart y x" for y by (rule live_freed_apart [OF that(1) assms(3) that(2)])
  have "wf_lib g'" using wf_lib_freed [OF _ _ assms(3)] assms(1,2) by (simp add: holds_def unheld_def)
  then show ?thesis using assms(1,2) keep by (auto simp: holds_def unheld_def intro: apart_sym)
qed

lemma made_unheld:
  assumes "holds g h" "lib.made g X x g'"
  shows "unheld g' h x" "holds g' h" "elems x = X" "grows g g'" "live g y \<Longrightarrow> apart x y"
proof -
  have m: "grows g g'" "live g' x" "made_after g x" "elems x = X" using assms(2) by (auto simp: lib.made_def)
  then show "grows g g'" "elems x = X" "holds g' h" using holds_grows [OF assms(1)] by auto
  have a: "apart x y" if "live g y" for y using that m(3) by (auto intro: apart_sym apart_made_after)
  then show "live g y \<Longrightarrow> apart x y" .
  show "unheld g' h x" using m(2) a holds_live [OF assms(1)] by (simp add: unheld_def)
qed

lemma freed_more: "freed g x g' \<Longrightarrow> set_lib.more g' = set_lib.more g"
  by (simp add: freed_def)

lemma add_live:
  assumes wf: "wf_lib g" and l: "live g h" and x: "x \<noteq> INT_MIN"
  shows "wp (Set_add h x) (\<lambda>h' g'. grows g g' \<and> live g' h' \<and> elems h' = insert x (elems h) \<and>
    (\<forall>z. live g z \<longrightarrow> apart z h \<longrightarrow> apart z h')) g"
proof (rule Set_add_wp [OF _ x])
  show "wf_set h" using l by (auto dest: live_wf)
  fix h' g' assume acc: "acc_set g h (insert x (elems h)) h' g'"
  show "grows g g' \<and> live g' h' \<and> elems h' = insert x (elems h) \<and> (\<forall>z. live g z \<longrightarrow> apart z h \<longrightarrow> apart z h')"
  proof (cases h)
    case None
    with acc new_set_grows [OF wf, of "{x}" h' g'] show ?thesis
      by (auto simp: acc_set_def intro: apart_made_after)
  next
    case (Some s)
    with acc l wf show ?thesis
      by (auto simp: acc_set_def lib_same_def live_def grows_def wf_lib_def apart_def)
  qed
qed

lemma add_made:
  assumes h: "lib.made g0 X h g" and x: "x \<noteq> INT_MIN"
  shows "wp (Set_add h x) (lib.made g0 (insert x X)) g"
proof (rule Set_add_wp [OF _ x])
  have m: "grows g0 g" "live g h" "made_after g0 h" "elems h = X" "wf_lib g"
    using h by (auto simp: lib.made_def intro: grows_wf)
  then show "wf_set h" by (auto dest: live_wf)
  fix h' g' assume "acc_set g h (insert x (elems h)) h' g'"
  then show "lib.made g0 (insert x X) h' g'"
    using m new_set_grows [OF m(5), of "insert x X" h' g']
    by (cases h) (auto simp: acc_set_def lib.made_def lib_same_def live_def made_after_def grows_def wf_lib_def split: option.splits)
qed

section \<open>Sample sets\<close>

text \<open>The set \<open>{1, 3, -2}\<close> and the set \<open>{3, 5}\<close>, as the library lays them out.\<close>

definition sample :: cset where
  "sample = \<lparr>max_base = (\<lambda>b. 8),
     varray = (\<lambda>b. Some (Some ((if b then 4 else 10) # replicate 7 0) # replicate 7 None)),
     set_id = 0\<rparr>"

definition sample2 :: cset where
  "sample2 = \<lparr>max_base = (\<lambda>b. if b then 0 else 8),
     varray = (\<lambda>b. if b then None else Some (Some (40 # replicate 7 0) # replicate 7 None)),
     set_id = 1\<rparr>"

definition sample_lib :: "unit set_lib_scheme" where
  "sample_lib = \<lparr>SetId = 2, OUT = None, mallocated = 0, maxmallocated = 0\<rparr>"

lemma bits_4: "bit (4 :: word32) n = (n = 2)" and bits_10: "bit (10 :: word32) n = (n = 1 \<or> n = 3)"
  and bits_40: "bit (40 :: word32) n = (n = 3 \<or> n = 5)"
proof -
  have eq: "(4 :: word32) = push_bit 2 1" "(10 :: word32) = push_bit 1 1 OR push_bit 3 1"
    "(40 :: word32) = push_bit 3 1 OR push_bit 5 1"
    by simp_all
  show "bit (4 :: word32) n = (n = 2)" "bit (10 :: word32) n = (n = 1 \<or> n = 3)"
    "bit (40 :: word32) n = (n = 3 \<or> n = 5)"
    unfolding eq bit_or_iff bit_push_bit_iff bit_1_iff by (auto simp: possible_bit_word)
qed

lemma has_one_word:
  assumes "varray s b = Some (Some (w # replicate 7 0) # replicate 7 None)"
  shows "has s b m = bit w m"
proof -
  consider "256 \<le> m" | "32 \<le> m" "m < 256" | "m < 32" by linarith
  then show ?thesis
  proof cases
    case 1
    then have "0 < m div 256" by (simp add: div_greater_zero_iff)
    then have "slot s b (m div 256) = None"
      using assms by (cases "m div 256") (auto simp: slot_def nth_replicate)
    with 1 show ?thesis by (auto simp: has_def dest: bit_imp_le_length)
  next
    case 2
    then have "0 < m div 32" "m div 32 < 8" by (simp_all add: div_greater_zero_iff k_div_32')
    then have "(w # replicate 7 0) ! (m div 32) = 0" by (cases "m div 32") auto
    with 2 assms show ?thesis by (auto simp: has_def slot_def vbit_def dest: bit_imp_le_length)
  next
    case 3
    with assms show ?thesis by (simp add: has_def slot_def vbit_def)
  qed
qed

lemma has_sample [simp]:
  "has sample b m = (if b then m = 2 else m = 1 \<or> m = 3)" "has sample2 b m = (\<not> b \<and> (m = 3 \<or> m = 5))"
proof -
  have "has sample True m = bit (4 :: word32) m" "has sample False m = bit (10 :: word32) m"
    "has sample2 False m = bit (40 :: word32) m"
    by (rule has_one_word, simp add: sample_def sample2_def)+
  moreover have "\<not> has sample2 True m" by (simp add: has_def slot_def sample2_def)
  ultimately show "has sample b m = (if b then m = 2 else m = 1 \<or> m = 3)"
    "has sample2 b m = (\<not> b \<and> (m = 3 \<or> m = 5))"
    unfolding bits_4 bits_10 bits_40 by (cases b, simp_all)+
qed

lemma wf_sample [simp]: "wf_cset sample" "wf_cset sample2"
  unfolding wf_cset_def by (simp_all, simp_all add: wf_arr_def wf_side_def sample_def sample2_def list_all_iff)

lemma elems_sample [simp]: "elems (Some sample) = {1, 3, - 2}" "elems (Some sample2) = {3, 5}"
  by (auto simp: elems_has)

lemma ids_sample [simp]: "set_id sample = 0" "set_id sample2 = 1"
  by (simp_all add: sample_def sample2_def)

lemma live_sample [simp]: "wf_lib sample_lib" "live sample_lib (Some sample)" "live sample_lib (Some sample2)"
  by (simp_all add: sample_lib_def wf_lib_def live_def)

end
