(* ===== verification/Set_Properties.thy ===== *)
theory Set_Properties
  imports Set_Interface
begin

text \<open>
  The properties of the set library of \<open>src/src/library/libflow/set.c\<close>. \<open>wp m Q g\<close> says that the
  call \<open>m\<close> returns from the library state \<open>g\<close>, without a fault, with a result and a state that
  satisfy \<open>Q\<close>.
\<close>

section \<open>Single elements\<close>

text \<open>
  C1. Adding an element to a set, then testing and deleting: after \<open>Set_add\<close> of \<open>x\<close> the set has \<open>x\<close>
  and what it had, after \<open>Set_delete\<close> of \<open>x\<close> it has what it had without \<open>x\<close>, the descriptor stays
  well formed, and an existing descriptor keeps its identity.
\<close>

theorem Set_add_in_delete:
  assumes "wf_set st" "x \<noteq> INT_MIN" "y \<noteq> INT_MIN"
  shows "wp (bnd (Set_add st x) (\<lambda>st1.
             bnd (Set_in st1 y) (\<lambda>b1.
             bnd (Set_delete st1 x) (\<lambda>st2.
             bnd (Set_in st2 y) (\<lambda>b2. ret (st1, b1, st2, b2))))))
    (\<lambda>(st1, b1, st2, b2) g'. wf_set st1 \<and> wf_set st2 \<and> acc_set g st (insert x (elems st)) st1 g' \<and>
       b1 = (y = x \<or> y \<in> elems st) \<and> elems st2 = elems st - {x} \<and> b2 = (y \<noteq> x \<and> y \<in> elems st)) g"
proof -
  have "wp (bnd (Set_in st1 y) (\<lambda>b1. bnd (Set_delete st1 x) (\<lambda>st2. bnd (Set_in st2 y) (\<lambda>b2.
      ret (st1, b1, st2, b2)))))
    (\<lambda>(st1, b1, st2, b2) g'. wf_set st1 \<and> wf_set st2 \<and> acc_set g st (insert x (elems st)) st1 g' \<and>
       b1 = (y = x \<or> y \<in> elems st) \<and> elems st2 = elems st - {x} \<and> b2 = (y \<noteq> x \<and> y \<in> elems st)) g'"
    if "acc_set g st (insert x (elems st)) st1 g'" for st1 g'
    using that acc_set_OUT [OF that] assms by (auto simp: wp_Set_in intro!: wp_Set_delete)
  with assms show ?thesis unfolding wp_bnd [of "Set_add st x"] by (intro Set_add_wp) auto
qed

theorem Set_add_in_delete_witness:
  "wf_set (Some sample) \<and> wp (bnd (Set_add (Some sample) (- 300)) (\<lambda>st1.
             bnd (Set_in st1 (- 300)) (\<lambda>b1.
             bnd (Set_delete st1 (- 300)) (\<lambda>st2.
             bnd (Set_in st2 (- 300)) (\<lambda>b2. ret (st1, b1, st2, b2))))))
    (\<lambda>(st1, b1, st2, b2) g'. wf_set st1 \<and> wf_set st2 \<and>
       acc_set sample_lib (Some sample) {- 300, 1, 3, - 2} st1 g' \<and>
       b1 \<and> elems st2 = {1, 3, - 2} \<and> \<not> b2) sample_lib"
  using Set_add_in_delete [of "Some sample" "- 300" "- 300" sample_lib]
  by (simp add: INT_MIN_def del: wp_bnd)

text \<open>
  The least \<open>int\<close> cannot be tested for, added or deleted: \<open>ABS\<close> overflows on it in the three
  functions, whatever the set is.
\<close>

theorem Set_INT_MIN_overflow:
  "Set_in (Some s) INT_MIN g = Inl Int_Overflow \<and>
   Set_add (Some s) INT_MIN g = Inl Int_Overflow \<and>
   Set_delete (Some s) INT_MIN g = Inl Int_Overflow"
  by (simp add: Set_in_def Set_add_def Set_delete_def Let_def ABS_INT_MIN)

section \<open>Set algebra\<close>

lemma Set_union_correct:
  assumes "wf_set st1" "wf_set st2"
  shows "wp (Set_union st1 st2) (new_set g (elems st1 \<union> elems st2)) g"
  using assms by (intro Set_union_wp)

lemma Set_intersect_correct:
  assumes "wf_set st1" "wf_set st2"
  shows "wp (Set_intersect st1 st2)
    (null_or_new (st1 = None \<or> st2 = None) g (elems st1 \<inter> elems st2)) g"
  using assms by (intro Set_intersect_wp)

lemma Set_subtract_correct:
  assumes "wf_set st1" "wf_set st2"
  shows "wp (Set_subtract st1 st2) (null_or_new (st1 = None) g (elems st1 - elems st2)) g"
  using assms by (intro Set_subtract_wp)

lemma Set_copy_compress_correct:
  assumes "wf_cset s"
  shows "wp (Set_copy (Some s)) (new_set g (elems (Some s))) g \<and>
    wp (Set_compress (Some s)) (new_set g (elems (Some s))) g"
  using assms by (intro conjI Set_copy_wp Set_compress_wp)

text \<open>
  C2. The algebra. \<open>Set_union\<close>, \<open>Set_intersect\<close> and \<open>Set_subtract\<close> return a new descriptor, different from every descriptor numbered
  before, with the union, the intersection and the difference of their arguments; the intersection is NULL when an argument is NULL, the
  difference when the first one is. \<open>Set_copy\<close> and \<open>Set_compress\<close> return a new descriptor with the elements of their argument. None
  of them faults.
\<close>

theorem Set_algebra_correct:
  assumes "wf_set st1" "wf_set st2"
  shows "wp (Set_union st1 st2) (new_set g (elems st1 \<union> elems st2)) g \<and>
    wp (Set_intersect st1 st2) (null_or_new (st1 = None \<or> st2 = None) g (elems st1 \<inter> elems st2)) g \<and>
    wp (Set_subtract st1 st2) (null_or_new (st1 = None) g (elems st1 - elems st2)) g \<and>
    (st1 \<noteq> None \<longrightarrow> wp (Set_copy st1) (new_set g (elems st1)) g \<and> wp (Set_compress st1) (new_set g (elems st1)) g)"
proof -
  have "wp (Set_copy st1) (new_set g (elems st1)) g \<and> wp (Set_compress st1) (new_set g (elems st1)) g" if some: "st1 \<noteq> None"
  proof -
    obtain s where "st1 = Some s" using some by blast
    then show ?thesis using Set_copy_compress_correct [of s g] assms(1) by simp
  qed
  then show ?thesis using Set_union_correct [OF assms] Set_intersect_correct [OF assms] Set_subtract_correct [OF assms] by blast
qed

theorem Set_algebra_witness:
  "wf_set (Some sample) \<and> wf_set (Some sample2) \<and>
   wp (Set_union (Some sample) (Some sample2)) (new_set sample_lib {1, 3, 5, - 2}) sample_lib \<and>
   wp (Set_intersect (Some sample) (Some sample2)) (null_or_new False sample_lib {3}) sample_lib \<and>
   wp (Set_subtract (Some sample) (Some sample2)) (null_or_new False sample_lib {1, - 2}) sample_lib \<and>
   wp (Set_compress (Some sample)) (new_set sample_lib {1, 3, - 2}) sample_lib"
proof -
  have wf: "wf_set (Some sample)" "wf_set (Some sample2)" by simp_all
  have "elems (Some sample) \<union> elems (Some sample2) = {1, 3, 5, - 2}" unfolding elems_sample by auto
  moreover have "elems (Some sample) \<inter> elems (Some sample2) = {3}" "elems (Some sample) = {1, 3, - 2}" unfolding elems_sample by auto
  moreover have "elems (Some sample) - elems (Some sample2) = {1, - 2}" unfolding elems_sample by auto
  ultimately show ?thesis using wf Set_algebra_correct [OF wf, of sample_lib] by (simp del: elems_sample)
qed

text \<open>
  C3. The fused operations. \<open>Set_subtract_union\<close> makes a new set with \<open>(set1 - set2) + set3\<close>, and
  \<open>Set_subtract_union_acc\<close> updates its first argument to it when the third one is another descriptor. When the third
  argument is the first one itself, its elements in \<open>set2\<close> are cleared before they are joined, so \<open>set1 - set2\<close> is left.
\<close>

theorem Set_subtract_union_correct:
  assumes "wf_set st1" "wf_set st2" "wf_set st3"
  shows "wp (Set_subtract_union st1 st2 st3) (new_set g (elems st1 - elems st2 \<union> elems st3)) g \<and>
    (apart st1 st3 \<longrightarrow> wp (Set_subtract_union_acc st1 st2 st3) (acc_set g st1 (elems st1 - elems st2 \<union> elems st3)) g) \<and>
    wp (Set_subtract_union_acc st1 st2 st1) (acc_set g st1 (elems st1 - elems st2)) g"
proof (intro conjI impI)
  assume "apart st1 st3"
  then have "third_elems st1 st3 = elems st3" "\<And>s1 s3. st1 = Some s1 \<Longrightarrow> st3 = Some s3 \<Longrightarrow> set_id s1 \<noteq> set_id s3"
    by (auto simp: third_elems_def apart_def)
  then show "wp (Set_subtract_union_acc st1 st2 st3) (acc_set g st1 (elems st1 - elems st2 \<union> elems st3)) g"
    using assms by (intro Set_subtract_union_acc_wp) auto
next
  have "third_elems st1 st1 = {}" by (cases st1) (simp_all add: third_elems_def)
  then show "wp (Set_subtract_union_acc st1 st2 st1) (acc_set g st1 (elems st1 - elems st2)) g"
    using assms by (intro Set_subtract_union_acc_wp) auto
qed (use assms in \<open>intro Set_subtract_union_wp\<close>)

theorem Set_subtract_union_witness:
  "wp (Set_subtract_union (Some sample) (Some sample2) (Some sample2))
     (new_set sample_lib {1, 3, 5, - 2}) sample_lib \<and>
   wp (Set_subtract_union_acc (Some sample) (Some sample2) (Some sample2))
     (acc_set sample_lib (Some sample) {1, 3, 5, - 2}) sample_lib \<and>
   wp (Set_subtract_union_acc (Some sample) (Some sample2) (Some sample))
     (acc_set sample_lib (Some sample) {1, - 2}) sample_lib"
proof -
  have "elems (Some sample) - elems (Some sample2) \<union> elems (Some sample2) = {1, 3, 5, - 2}"
    unfolding elems_sample by auto
  moreover have "elems (Some sample) - elems (Some sample2) = {1, - 2}" unfolding elems_sample by auto
  moreover have "apart (Some sample) (Some sample2)" by (simp add: apart_def sample_def sample2_def)
  ultimately show ?thesis
    using Set_subtract_union_correct [of "Some sample" "Some sample2" "Some sample2" sample_lib]
    by (simp del: elems_sample)
qed

text \<open>
  C4. \<open>Set_union_acc_ch\<close> updates its first argument to the union and reports a change exactly when
  the second argument has an element the first had not.
\<close>

theorem Set_union_acc_ch_correct:
  assumes "wf_set st1" "wf_set st2"
  shows "wp (Set_union_acc_ch st1 st2)
    (\<lambda>(st', change) g'. acc_set g st1 (elems st1 \<union> elems st2) st' g' \<and>
       change = (elems st1 \<union> elems st2 \<noteq> elems st1)) g"
  using assms by (intro Set_union_acc_ch_wp) auto

theorem Set_union_acc_ch_witness:
  "wp (Set_union_acc_ch (Some sample) (Some sample2))
    (\<lambda>(st', change) g'. acc_set sample_lib (Some sample) {1, 3, 5, - 2} st' g' \<and> change) sample_lib"
proof -
  have "elems (Some sample) \<union> elems (Some sample2) = {1, 3, 5, - 2}"
    unfolding elems_sample by auto
  moreover have "5 \<notin> elems (Some sample)" by simp
  then have "{1, 3, 5, - 2} \<noteq> elems (Some sample)" by blast
  ultimately show ?thesis
    using Set_union_acc_ch_correct [of "Some sample" "Some sample2" sample_lib]
    by (simp del: elems_sample)
qed

text \<open>
  C5. What \<open>Set_intersect_acc\<close> leaves in its first argument: the elements the arguments share, and
  all the negative elements of the first argument when the second has no negative side. The
  result is the intersection only when the second argument has a negative side or the first
  has no negative element.
\<close>

theorem Set_intersect_acc_exact:
  assumes "wf_cset s1" "wf_cset s2"
  shows "wp (Set_intersect_acc (Some s1) (Some s2)) (acc_set g (Some s1)
    {e \<in> elems (Some s1). e \<in> elems (Some s2) \<or> e < 0 \<and> varray s2 True = None}) g"
  using assms by (intro Set_intersect_acc_Some_wp)

theorem Set_intersect_acc_witness:
  "wp (Set_intersect_acc (Some sample) (Some sample2)) (acc_set sample_lib (Some sample) {3, - 2}) sample_lib"
proof -
  have "{e \<in> {1, 3, - 2}. e \<in> {3, 5} \<or> e < 0 \<and> varray sample2 True = None} = {3, - 2 :: int}"
    by (auto simp: sample2_def)
  with Set_intersect_acc_exact [of sample sample2 sample_lib] show ?thesis by simp
qed

section \<open>Questions\<close>

text \<open>
  C6. \<open>Set_size\<close> counts the elements, \<open>Set_same\<close> decides equality, and the three emptiness tests
  decide emptiness of the set, of the intersection and of the difference.
\<close>

theorem Set_queries_correct:
  assumes "wf_set st1" "wf_set st2"
  shows "wp (Set_size st1) (\<lambda>n g'. n = int (card (elems st1)) \<and> g' = g) g \<and>
    wp (Set_same st1 st2) (\<lambda>b g'. b = (elems st1 = elems st2) \<and> g' = g) g \<and>
    wp (Set_empty st1) (\<lambda>b g'. b = (elems st1 = {}) \<and> g' = g) g \<and>
    wp (Set_intersect_empty st1 st2) (\<lambda>b g'. b = (elems st1 \<inter> elems st2 = {}) \<and> g' = g) g \<and>
    wp (Set_subtract_empty st1 st2) (\<lambda>b g'. b = (elems st1 - elems st2 = {}) \<and> g' = g) g"
  using assms
  by (auto simp: wp_Set_same wp_Set_empty wp_Set_intersect_empty wp_Set_subtract_empty intro!: wp_Set_size)

theorem Set_queries_witness:
  "wp (Set_size (Some sample)) (\<lambda>n g'. n = 3 \<and> g' = sample_lib) sample_lib \<and>
   wp (Set_same (Some sample) (Some sample2)) (\<lambda>b g'. \<not> b \<and> g' = sample_lib) sample_lib"
proof -
  have "5 \<notin> elems (Some sample)" by simp
  then have "elems (Some sample) \<noteq> elems (Some sample2)" unfolding elems_sample(2) by blast
  with Set_queries_correct [of "Some sample" "Some sample2" sample_lib] show ?thesis
    by simp
qed

text \<open>
  C7. \<open>Set_2array\<close> writes each element exactly once and returns their number, when the buffer is
  large enough.
\<close>

theorem Set_2array_correct:
  assumes "wf_set st" "card (elems st) \<le> length buf"
  shows "wp (Set_2array st (Some buf)) (\<lambda>(k, buf') g'. k = card (elems st) \<and> g' = g \<and>
    (\<exists>xs. buf' = Some (xs @ drop k buf) \<and> distinct xs \<and> set xs = elems st)) g"
  using assms distinct_elem_list [OF assms(1)] set_elem_list [OF assms(1)]
  by (auto simp: wp_Set_2array)

theorem Set_2array_witness:
  "card (elems (Some sample)) \<le> length [0, 0, 0, 7 :: int] \<and>
   wp (Set_2array (Some sample) (Some [0, 0, 0, 7])) (\<lambda>(k, buf') g'. k = 3 \<and> g' = sample_lib \<and>
    (\<exists>xs. buf' = Some (xs @ [7]) \<and> distinct xs \<and> set xs = {1, 3, - 2})) sample_lib"
  using Set_2array_correct [of "Some sample" "[0, 0, 0, 7]" sample_lib] by (auto elim!: wp_mono)

text \<open>
  C8. An iterator made by \<open>Set_iterator\<close> gives every element of the set exactly once and is then
  exhausted, after as many calls of \<open>Set_next\<close> as the set has elements.
\<close>

theorem Set_iterator_complete:
  assumes "wf_set st"
  shows "wp (bnd (Set_iterator junk st fin) (drain (card (elems st))))
    (\<lambda>(xs, si) g'. distinct xs \<and> set xs = elems st \<and> Set_exhausted si \<and> g' = g) g"
proof (cases st)
  case None
  then show ?thesis by (simp add: Set_iterator_def Set_exhausted_def)
next
  case (Some s)
  with assms have wf: "wf_arr s" by auto
  obtain si where si: "(Set_iterator junk (Some s) fin :: ('a, SetIterator) prog) = ret si"
    "it_gives si s (elem_list (Some s))"
    by (rule Set_iterator_gives [OF wf])
  obtain si' where "(drain (card (elems st)) si :: ('a, int list \<times> SetIterator) prog) = ret (elem_list st, si')"
    "Set_exhausted si'"
    by (rule drain_gives [OF si(2)]) (use Some card_elems [OF assms] in auto)
  with si(1) Some assms show ?thesis
    by (simp add: distinct_elem_list set_elem_list)
qed

theorem Set_iterator_witness:
  "wf_set (Some sample) \<and> wp (bnd (Set_iterator 99 (Some sample) 0) (drain 3))
    (\<lambda>(xs, si) g'. distinct xs \<and> set xs = {1, 3, - 2} \<and> Set_exhausted si \<and> g' = sample_lib) sample_lib"
proof -
  have "card (elems (Some sample)) = 3" by simp
  with Set_iterator_complete [of "Some sample" 99 0 sample_lib] show ?thesis
    by (simp del: wp_bnd add: numeral_3_eq_3)
qed

section \<open>Disposal\<close>

text \<open>
  C9. Disposing of a live set returns NULL and records its number; disposing of it again ends the
  program.
\<close>

theorem Set_double_dispose:
  assumes "wf_lib g" "live g (Some s)"
  shows "\<exists>g'. Set_dispose (Some s) g = Inr (None, g') \<and> wf_lib g' \<and> freed g (Some s) g' \<and>
    Set_dispose (Some s) g' = Inl (Exit (- 1))"
proof -
  have "wp (Set_dispose (Some s)) (\<lambda>r g'. r = None \<and> freed g (Some s) g') g"
    by (rule Set_dispose_wp [OF assms]) simp
  then obtain g' where g': "Set_dispose (Some s) g = Inr (None, g')" "freed g (Some s) g'"
    by (auto simp: wp_run)
  moreover have "wf_lib g'" by (rule wf_lib_freed [OF assms g'(2)])
  moreover have "set_id s \<noteq> INT_MIN" using assms(2) by (auto simp: live_def INT_MIN_def)
  then have "wp (Set_in (OUT g') (set_id s)) (\<lambda>b h. b \<and> h = g') g'"
    using g'(2) by (subst wp_Set_in) (auto simp: freed_def)
  then have "Set_in (OUT g') (set_id s) g' = Inr (True, g')"
    by (auto simp: wp_run)
  then have "Set_dispose (Some s) g' = Inl (Exit (- 1))"
    by (simp add: Set_dispose_def FreeSet_def bnd_def gets_def fail_def)
  ultimately show ?thesis by blast
qed

theorem Set_double_dispose_witness:
  "live sample_lib (Some sample) \<and>
   (\<exists>g'. Set_dispose (Some sample) sample_lib = Inr (None, g') \<and> wf_lib g' \<and>
      freed sample_lib (Some sample) g' \<and> Set_dispose (Some sample) g' = Inl (Exit (- 1)))"
  using Set_double_dispose [of sample_lib sample] by simp

end
