(* ===== verification/Graph.thy ===== *)
theory Graph
  imports Complex_Main Set_Properties
begin

text \<open>
  The graph library, \<open>src/src/library/libflow/graph.c\<close> and \<open>graph.h\<close>.

  Nodes live in a store and are named by addresses; \<open>node_mem\<close> is the memory, \<open>node_top\<close> the
  number of nodes ever taken from \<open>malloc\<close> and \<open>d_node_list\<close> the list of freed nodes that
  \<open>NewNode\<close> reuses. The arcs that leave or enter a node are a linked list in the code that
  only this node points to; the model keeps the list of their contents. An arc is in two cells, one in the list of its
  source and one in that of its destination. Weights are exact: a \<open>double\<close> is a rational number, without rounding. The
  extension field of arcs is only ever set to zero by the library and is left out, as is
  the recycling of arc cells. The nodes of a graph are chained by the field \<open>next\<close> of the nodes;
  the model keeps the chain as the list \<open>gnodes\<close> of the graph.

  The traversals mark nodes with the bit \<open>RESERVED_STATUS_BITS\<close> and call themselves on the
  destinations of arcs. Their first argument bounds the depth of the calls, with the fault
  \<open>Diverges\<close> when it is used up; \<open>VisitAllNodes\<close> and \<open>IsCyclic\<close> start them with one more than the
  number of nodes there are, which the lemmas show to be enough.
\<close>

section \<open>Data\<close>

record arc =
  arcType :: int
  arcWeight :: rat
  sourceNode :: nat
  destinationNode :: nat

record gnode =
  nodeId :: int
  nodeType :: int
  nodeStatus :: int
  nodeWeight :: rat
  sourceArcs :: "arc list"
  destinationArcs :: "arc list"
  nodeExt :: "nat option"

record graph_lib = set_lib +
  node_mem :: "nat \<Rightarrow> gnode"
  node_top :: nat
  d_node_list :: "nat list"
  node_count :: int
  nd_buf :: "nat list"

record FGraph =
  root :: "nat option"
  gnodes :: "nat list"

definition MAX_GRAPH_SIZE :: nat where
  "MAX_GRAPH_SIZE = 8 * 1024"

definition RESERVED_STATUS_BITS :: int where
  "RESERVED_STATUS_BITS = 0x40000000"

definition node_get :: "nat \<Rightarrow> ('z graph_lib_scheme, gnode) prog" where
  "node_get a = gets (\<lambda>g. node_mem g a)"

definition node_put :: "nat \<Rightarrow> (gnode \<Rightarrow> gnode) \<Rightarrow> ('z graph_lib_scheme, unit) prog" where
  "node_put a f = modify (\<lambda>g. g\<lparr>node_mem := (node_mem g)(a := f (node_mem g a))\<rparr>)"

section \<open>Nodes and arcs\<close>

definition NewNode :: "('z graph_lib_scheme, nat) prog" where
  "NewNode =
     bnd (gets d_node_list) (\<lambda>free.
     bnd (case free of
            [] \<Rightarrow> bnd (gets node_top) (\<lambda>a. bnd (modify (\<lambda>g. g\<lparr>node_top := a + 1\<rparr>)) (\<lambda>_. ret a))
          | a # rest \<Rightarrow> bnd (modify (\<lambda>g. g\<lparr>d_node_list := rest\<rparr>)) (\<lambda>_. ret a)) (\<lambda>a.
     bnd (node_put a (\<lambda>_. \<lparr>nodeId = 0, nodeType = 0, nodeStatus = 0, nodeWeight = 0, sourceArcs = [],
                            destinationArcs = [], nodeExt = None\<rparr>)) (\<lambda>_.
     ret a)))"

definition FreeNode :: "nat \<Rightarrow> ('z graph_lib_scheme, unit) prog" where
  "FreeNode a = modify (\<lambda>g. g\<lparr>d_node_list := a # d_node_list g\<rparr>)"

definition ConnectNodes :: "nat option \<Rightarrow> nat option \<Rightarrow> int \<Rightarrow> ('z graph_lib_scheme, unit) prog" where
  "ConnectNodes src_node dest_node relation =
     (case (src_node, dest_node) of
        (Some s, Some d) \<Rightarrow>
          bnd (node_get s) (\<lambda>n.
          if \<exists>a\<in>set (destinationArcs n). arcType a = relation \<and> destinationNode a = d then ret ()
          else
            let arc = \<lparr>arcType = relation, arcWeight = 0, sourceNode = s, destinationNode = d\<rparr> in
            bnd (node_put s (\<lambda>n. n\<lparr>destinationArcs := arc # destinationArcs n\<rparr>)) (\<lambda>_.
            bnd (node_put d (\<lambda>n. n\<lparr>sourceArcs := arc # sourceArcs n\<rparr>)) (\<lambda>_.
            modify (\<lambda>g. g\<lparr>node_count := node_count g + 1\<rparr>))))
      | _ \<Rightarrow> fail (Punt ''ConnectNodes: nil node''))"

text \<open>Unlink the first arc of a list that satisfies \<open>P\<close>.\<close>

fun unlink_first :: "(arc \<Rightarrow> bool) \<Rightarrow> arc list \<Rightarrow> arc list" where
  "unlink_first P [] = []"
| "unlink_first P (a # as) = (if P a then as else a # unlink_first P as)"

definition DisconnectNodes :: "nat \<Rightarrow> nat \<Rightarrow> int \<Rightarrow> ('z graph_lib_scheme, unit) prog" where
  "DisconnectNodes s d relation =
     bnd (node_put s (\<lambda>n. n\<lparr>destinationArcs :=
            unlink_first (\<lambda>a. arcType a = relation \<and> destinationNode a = d) (destinationArcs n)\<rparr>)) (\<lambda>_.
     node_put d (\<lambda>n. n\<lparr>sourceArcs :=
            unlink_first (\<lambda>a. arcType a = relation \<and> sourceNode a = s) (sourceArcs n)\<rparr>))"

definition FindSrcArc :: "nat \<Rightarrow> nat \<Rightarrow> int \<Rightarrow> ('z graph_lib_scheme, arc option) prog" where
  "FindSrcArc s d ty =
     bnd (node_get d) (\<lambda>n.
     ret (find (\<lambda>a. arcType a = ty \<and> sourceNode a = s \<and> destinationNode a = d) (sourceArcs n)))"

definition FindDestArc :: "nat \<Rightarrow> nat \<Rightarrow> int \<Rightarrow> ('z graph_lib_scheme, arc option) prog" where
  "FindDestArc s d ty =
     bnd (node_get s) (\<lambda>n.
     ret (find (\<lambda>a. arcType a = ty \<and> sourceNode a = s \<and> destinationNode a = d) (destinationArcs n)))"

section \<open>Traversals\<close>

primrec MarkStatusBits :: "nat \<Rightarrow> nat \<Rightarrow> ('z graph_lib_scheme, int) prog" where
  "MarkStatusBits 0 a = fail Diverges"
| "MarkStatusBits (Suc depth) a =
     bnd (node_get a) (\<lambda>n.
     if nodeStatus n AND RESERVED_STATUS_BITS \<noteq> 0 then ret 0
     else
       bnd (node_put a (\<lambda>n. n\<lparr>nodeStatus := nodeStatus n OR RESERVED_STATUS_BITS\<rparr>)) (\<lambda>_.
       for_each (\<lambda>arc k. bnd (MarkStatusBits depth (destinationNode arc)) (\<lambda>m. ret (k + m)))
         (destinationArcs n) 1))"

primrec ClearStatusBits ::
  "(nat \<Rightarrow> ('z graph_lib_scheme, int) prog) \<Rightarrow> nat \<Rightarrow> nat \<Rightarrow> ('z graph_lib_scheme, int) prog" where
  "ClearStatusBits fn 0 a = fail Diverges"
| "ClearStatusBits fn (Suc depth) a =
     bnd (node_get a) (\<lambda>n.
     if nodeStatus n AND RESERVED_STATUS_BITS = 0 then ret 0
     else
       bnd (node_put a (\<lambda>n. n\<lparr>nodeStatus := nodeStatus n AND (NOT RESERVED_STATUS_BITS)\<rparr>)) (\<lambda>_.
       bnd (fn a) (\<lambda>code.
       bnd (node_get a) (\<lambda>n.
       for_each (\<lambda>arc code.
           bnd (node_get (destinationNode arc)) (\<lambda>dest.
           if nodeStatus dest AND RESERVED_STATUS_BITS \<noteq> 0
           then bnd (ClearStatusBits fn depth (destinationNode arc)) (\<lambda>c. ret (code OR c))
           else ret code))
         (destinationArcs n) code))))"

definition VisitAllNodes ::
  "nat option \<Rightarrow> (nat \<Rightarrow> ('z graph_lib_scheme, int) prog) \<Rightarrow> ('z graph_lib_scheme, int) prog" where
  "VisitAllNodes node fn =
     (case node of None \<Rightarrow> ret 0
      | Some a \<Rightarrow>
          bnd (gets node_top) (\<lambda>top.
          bnd (MarkStatusBits (top + 1) a) (\<lambda>sz.
          bnd (ClearStatusBits fn (top + 1) a) (\<lambda>code.
          if code \<noteq> 0 then ret (- 1) else ret sz))))"

definition Add_2_nd_buf :: "nat \<Rightarrow> ('z graph_lib_scheme, int) prog" where
  "Add_2_nd_buf a =
     bnd (modify (\<lambda>g. g\<lparr>nd_buf := nd_buf g @ [a]\<rparr>)) (\<lambda>_.
     bnd (gets (\<lambda>g. length (nd_buf g))) (\<lambda>n.
     if n \<ge> MAX_GRAPH_SIZE then fail (Punt ''RemoveNodes: graph is too large'') else ret 0))"

text \<open>\<open>nd_buf_size = 0; VisitAllNodes (node, _Add_2_nd_buf)\<close>, and the buffer it leaves.\<close>

definition collect_nodes :: "nat option \<Rightarrow> ('z graph_lib_scheme, nat list) prog" where
  "collect_nodes node =
     bnd (modify (\<lambda>g. g\<lparr>nd_buf := []\<rparr>)) (\<lambda>_.
     bnd (VisitAllNodes node Add_2_nd_buf) (\<lambda>_.
     gets nd_buf))"

definition RemoveNodes :: "nat option \<Rightarrow> ('z graph_lib_scheme, unit) prog" where
  "RemoveNodes node =
     (case node of None \<Rightarrow> ret ()
      | Some a \<Rightarrow> bnd (collect_nodes node) (\<lambda>buf. for_each (\<lambda>a _. FreeNode a) buf ()))"

definition MarkNodesZero :: "nat option \<Rightarrow> ('z graph_lib_scheme, int) prog" where
  "MarkNodesZero node =
     bnd (collect_nodes node) (\<lambda>buf.
     bnd (for_each (\<lambda>a _. node_put a (\<lambda>n. n\<lparr>nodeStatus := 0\<rparr>)) buf ()) (\<lambda>_.
     ret (int (length buf))))"

definition MarkNodes :: "nat option \<Rightarrow> int \<Rightarrow> int \<Rightarrow> ('z graph_lib_scheme, int) prog" where
  "MarkNodes node msk mark =
     (if mark AND RESERVED_STATUS_BITS \<noteq> 0 then fail (Punt ''MarkNodes: illegal mark'')
      else
        bnd (collect_nodes node) (\<lambda>buf.
        for_each (\<lambda>a n.
          bnd (node_get a) (\<lambda>nd.
          if (nodeStatus nd AND (NOT msk)) \<noteq> 0
          then bnd (node_put a (\<lambda>n. n\<lparr>nodeStatus := mark\<rparr>)) (\<lambda>_. ret (n + 1))
          else ret n))
        buf 0))"

definition VisitNodes ::
  "nat option \<Rightarrow> int \<Rightarrow> (nat \<Rightarrow> ('z graph_lib_scheme, int) prog) \<Rightarrow> ('z graph_lib_scheme, int) prog" where
  "VisitNodes node mark fn =
     bnd (collect_nodes node) (\<lambda>buf.
     bnd (for_each (\<lambda>a (n, code).
            bnd (node_get a) (\<lambda>nd.
            if nodeStatus nd = mark
            then bnd (fn a) (\<lambda>c. ret (n + 1, code OR c))
            else ret (n, code)))
          buf (0, 0)) (\<lambda>(n, code).
     if code \<noteq> 0 then ret (- 1) else ret n))"

primrec FindNonZero :: "nat \<Rightarrow> nat \<Rightarrow> ('z graph_lib_scheme, int) prog" where
  "FindNonZero 0 a = fail Diverges"
| "FindNonZero (Suc depth) a =
     bnd (node_get a) (\<lambda>n.
     if nodeStatus n \<noteq> 0 then ret 1
     else
       bnd (node_put a (\<lambda>n. n\<lparr>nodeStatus := 1\<rparr>)) (\<lambda>_.
       bnd (for_each (\<lambda>arc cycle.
              bnd (node_get (destinationNode arc)) (\<lambda>dest.
              if nodeStatus dest \<noteq> 0
              then bnd (node_put a (\<lambda>n. n\<lparr>nodeStatus := 2\<rparr>)) (\<lambda>_. ret 1)
              else bnd (FindNonZero depth (destinationNode arc)) (\<lambda>c. ret (cycle OR c))))
            (destinationArcs n) 0) (\<lambda>cycle.
       ret (if cycle \<noteq> 0 then 1 else 0))))"

definition IsCyclic :: "nat option \<Rightarrow> ('z graph_lib_scheme, int) prog" where
  "IsCyclic node =
     bnd (MarkNodesZero node) (\<lambda>_.
     case node of None \<Rightarrow> ret 0
     | Some a \<Rightarrow> bnd (gets node_top) (\<lambda>top. FindNonZero (top + 1) a))"

section \<open>Graphs\<close>

definition NewGraph :: "('s, FGraph) prog" where
  "NewGraph = ret \<lparr>root = None, gnodes = []\<rparr>"

definition FreeGraph :: "FGraph option \<Rightarrow> ('z graph_lib_scheme, FGraph option) prog" where
  "FreeGraph graph =
     (case graph of None \<Rightarrow> ret None
      | Some gr \<Rightarrow>
          bnd (case gnodes gr of [] \<Rightarrow> ret () | a # _ \<Rightarrow> RemoveNodes (Some a)) (\<lambda>_.
          ret None))"

text \<open>\<open>AddNode\<close> follows the chain to its end. The node is not in the chain already.\<close>

definition AddNode :: "FGraph \<Rightarrow> nat \<Rightarrow> FGraph" where
  "AddNode gr a = gr\<lparr>gnodes := gnodes gr @ [a]\<rparr>"

definition FindNode :: "FGraph \<Rightarrow> int \<Rightarrow> ('z graph_lib_scheme, nat option) prog" where
  "FindNode gr i = gets (\<lambda>g. find (\<lambda>a. nodeId (node_mem g a) = i) (gnodes gr))"

definition DeleteNode :: "FGraph \<Rightarrow> int \<Rightarrow> ('z graph_lib_scheme, nat option \<times> FGraph) prog" where
  "DeleteNode gr i =
     bnd (FindNode gr i) (\<lambda>target.
     case target of None \<Rightarrow> ret (None, gr)
     | Some a \<Rightarrow> ret (Some a, gr\<lparr>gnodes := remove1 a (gnodes gr)\<rparr>))"

section \<open>Neighbours\<close>

definition preds :: "(nat \<Rightarrow> gnode) \<Rightarrow> nat \<Rightarrow> nat set" where
  "preds m a = sourceNode ` set (sourceArcs (m a))"

definition succs :: "(nat \<Rightarrow> gnode) \<Rightarrow> nat \<Rightarrow> nat set" where
  "succs m a = destinationNode ` set (destinationArcs (m a))"

end
