(* ===== verification/Graph_Search.thy ===== *)
theory Graph_Search
  imports Impact_Prelude
begin

text \<open>
  Depth-first search, apart from any program: what the recursive traversals of
  \<open>src/src/library/libflow/graph.c\<close> have in common.

  \<open>sc\<close> gives the successors of a node and \<open>unv\<close> says which nodes are not visited yet. A call on the node \<open>a\<close>
  visits the nodes that can be reached from \<open>a\<close> over nodes not visited. \<open>dfs_part\<close> is the state of the loop
  over the successors, \<open>dfs_set\<close> what the call leaves; \<open>dfs_set_unique\<close> says that this determines the set.
\<close>

definition reach_in :: "(nat \<Rightarrow> nat set) \<Rightarrow> (nat \<Rightarrow> bool) \<Rightarrow> nat \<Rightarrow> nat set" where
  "reach_in sc unv a = {x. (a, x) \<in> {(u, v). v \<in> sc u \<and> unv v}\<^sup>*}"

definition dfs_set :: "(nat \<Rightarrow> nat set) \<Rightarrow> (nat \<Rightarrow> bool) \<Rightarrow> nat \<Rightarrow> nat set \<Rightarrow> bool" where
  "dfs_set sc unv a X = (unv a \<and> a \<in> X \<and> X \<subseteq> reach_in sc unv a \<and> (\<forall>x\<in>X. sc x \<subseteq> X \<union> {y. \<not> unv y}))"

definition dfs_part :: "(nat \<Rightarrow> nat set) \<Rightarrow> (nat \<Rightarrow> bool) \<Rightarrow> nat \<Rightarrow> nat set \<Rightarrow> nat set \<Rightarrow> bool" where
  "dfs_part sc unv a B X = (unv a \<and> a \<in> X \<and> X \<subseteq> reach_in sc unv a \<and>
     (\<forall>x\<in>X - {a}. sc x \<subseteq> X \<union> {y. \<not> unv y}) \<and> B \<subseteq> X \<union> {y. \<not> unv y})"

lemma reach_in_refl: "a \<in> reach_in sc unv a"
  by (simp add: reach_in_def)

lemma reach_in_step: "x \<in> reach_in sc unv a \<Longrightarrow> y \<in> sc x \<Longrightarrow> unv y \<Longrightarrow> y \<in> reach_in sc unv a"
  by (auto simp: reach_in_def intro: rtrancl_into_rtrancl)

lemma reach_in_unv: "unv a \<Longrightarrow> x \<in> reach_in sc unv a \<Longrightarrow> unv x"
  unfolding reach_in_def mem_Collect_eq by (erule rtranclE) auto

lemma reach_in_trans:
  assumes "b \<in> reach_in sc unv a" "\<And>y. unv' y \<Longrightarrow> unv y"
  shows "reach_in sc unv' b \<subseteq> reach_in sc unv a"
proof
  fix x assume "x \<in> reach_in sc unv' b"
  then have "(b, x) \<in> {(u, v). v \<in> sc u \<and> unv' v}\<^sup>*" by (simp add: reach_in_def)
  then show "x \<in> reach_in sc unv a"
    by induction (use assms in \<open>auto intro: reach_in_step\<close>)
qed

theorem dfs_set_unique: "dfs_set sc unv a X \<Longrightarrow> X = reach_in sc unv a"
proof
  assume d: "dfs_set sc unv a X"
  then show "X \<subseteq> reach_in sc unv a" by (simp add: dfs_set_def)
  show "reach_in sc unv a \<subseteq> X"
  proof
    fix x assume "x \<in> reach_in sc unv a"
    then have "(a, x) \<in> {(u, v). v \<in> sc u \<and> unv v}\<^sup>*" by (simp add: reach_in_def)
    then show "x \<in> X" by induction (use d in \<open>auto simp: dfs_set_def\<close>)
  qed
qed

lemma dfs_set_unv: "dfs_set sc unv a X \<Longrightarrow> x \<in> X \<Longrightarrow> unv x"
  using reach_in_unv [of unv a x sc] by (auto simp: dfs_set_def)

lemma dfs_part_unv: "dfs_part sc unv a B X \<Longrightarrow> x \<in> X \<Longrightarrow> unv x"
  using reach_in_unv [of unv a x sc] by (auto simp: dfs_part_def)

lemma dfs_start: "unv a \<Longrightarrow> dfs_part sc unv a {} {a}"
  by (simp add: dfs_part_def reach_in_refl)

lemma dfs_skip: "dfs_part sc unv a B X \<Longrightarrow> b \<in> X \<or> \<not> unv b \<Longrightarrow> dfs_part sc unv a (insert b B) X"
  by (auto simp: dfs_part_def)

lemma dfs_visit:
  assumes X: "dfs_part sc unv a B X" and b: "b \<in> sc a" and Y: "dfs_set sc (\<lambda>y. unv y \<and> y \<notin> X) b Y"
  shows "dfs_part sc unv a (insert b B) (X \<union> Y)" "X \<inter> Y = {}"
proof -
  have ub: "unv b" "b \<notin> X" "b \<in> Y" using Y by (auto simp: dfs_set_def)
  have "b \<in> reach_in sc unv a"
    using reach_in_step [of a sc unv a b] reach_in_refl b ub(1) by metis
  then have "Y \<subseteq> reach_in sc unv a"
    using Y reach_in_trans [of b sc unv a "\<lambda>y. unv y \<and> y \<notin> X"] by (auto simp: dfs_set_def)
  moreover have "sc x \<subseteq> X \<union> Y \<union> {y. \<not> unv y}" if "x \<in> X \<union> Y - {a}" for x
    using that X Y by (fastforce simp: dfs_part_def dfs_set_def)
  ultimately show "dfs_part sc unv a (insert b B) (X \<union> Y)"
    using X ub(3) by (auto simp: dfs_part_def)
  show "X \<inter> Y = {}" using dfs_set_unv [OF Y] by auto
qed

lemma dfs_done: "dfs_part sc unv a B X \<Longrightarrow> B = sc a \<Longrightarrow> dfs_set sc unv a X"
  by (auto simp: dfs_part_def dfs_set_def)

text \<open>The reachable nodes, and that they stay within a set closed under successors.\<close>

definition reach :: "(nat \<Rightarrow> nat set) \<Rightarrow> nat \<Rightarrow> nat set" where
  "reach sc a = reach_in sc (\<lambda>_. True) a"

lemma reach_in_sub: "a \<in> A \<Longrightarrow> (\<And>x. x \<in> A \<Longrightarrow> sc x \<subseteq> A) \<Longrightarrow> reach_in sc unv a \<subseteq> A"
proof
  fix x assume A: "a \<in> A" "\<And>x. x \<in> A \<Longrightarrow> sc x \<subseteq> A" and "x \<in> reach_in sc unv a"
  then have "(a, x) \<in> {(u, v). v \<in> sc u \<and> unv v}\<^sup>*" by (simp add: reach_in_def)
  then show "x \<in> A" by induction (use A in auto)
qed

lemma reach_in_all:
  assumes "\<And>x. x \<in> reach sc a \<Longrightarrow> unv x"
  shows "reach_in sc unv a = reach sc a"
proof
  show "reach_in sc unv a \<subseteq> reach sc a"
    unfolding reach_def by (rule reach_in_trans [OF reach_in_refl]) simp
  show "reach sc a \<subseteq> reach_in sc unv a"
  proof
    fix x assume x: "x \<in> reach sc a"
    then have "(a, x) \<in> {(u, v). v \<in> sc u \<and> True}\<^sup>*" by (simp add: reach_def reach_in_def)
    then show "x \<in> reach_in sc unv a"
    proof induction
      case (step y z)
      have "y \<in> reach sc a" using step.hyps(1) by (simp add: reach_def reach_in_def)
      then have "z \<in> reach sc a" using step.hyps(2) reach_in_step [of y sc "\<lambda>_. True" a z] by (simp add: reach_def)
      with step assms show ?case by (auto intro: reach_in_step)
    qed (rule reach_in_refl)
  qed
qed

section \<open>Too few arcs for a cycle\<close>

lemma reach_step: "x \<in> reach sc a \<Longrightarrow> y \<in> sc x \<Longrightarrow> y \<in> reach sc a"
  by (simp add: reach_def reach_in_step)

lemma reach_self [simp]: "a \<in> reach sc a"
  by (simp add: reach_def reach_in_refl)

lemma reach_iff: "x \<in> reach sc a \<longleftrightarrow> (a, x) \<in> {(u, v). v \<in> sc u}\<^sup>*"
  by (simp add: reach_def reach_in_def)

text \<open>Every node but the first has an arc in; with no arc to spare it has only one, and arcs lead away from the first node.\<close>

lemma one_arc_each:
  assumes "finite (reach sc a)" "(\<Sum>x\<in>reach sc a. card (sc x)) < card (reach sc a)"
  shows "inj_on snd (Sigma (reach sc a) sc)" "a \<notin> snd ` Sigma (reach sc a) sc"
proof -
  let ?R = "reach sc a"
  let ?P = "Sigma ?R sc"
  have "?P \<subseteq> ?R \<times> ?R" by (auto intro: reach_step)
  then have fin: "finite ?P" using assms(1) finite_subset by blast
  have sub: "?R - {a} \<subseteq> snd ` ?P"
  proof
    fix x assume x: "x \<in> ?R - {a}"
    then obtain u where "(a, u) \<in> {(u, v). v \<in> sc u}\<^sup>*" "x \<in> sc u" by (auto simp: reach_iff elim: rtranclE)
    then show "x \<in> snd ` ?P" by (force simp: reach_iff)
  qed
  have "card ?P = (\<Sum>x\<in>?R. card (sc x))"
  proof (rule card_SigmaI [OF assms(1)], rule ballI)
    fix x assume "x \<in> ?R"
    then have "sc x \<subseteq> ?R" by (auto intro: reach_step)
    then show "finite (sc x)" using assms(1) by (rule finite_subset)
  qed
  then have P: "card ?P \<le> card (?R - {a})" using assms by simp
  have le: "card (?R - {a}) \<le> card (snd ` ?P)" using fin sub by (intro card_mono) auto
  with P card_image_le [OF fin, of snd] have "card (snd ` ?P) = card ?P" by linarith
  then show "inj_on snd ?P" by (rule eq_card_imp_inj_on [OF fin])
  have "card (snd ` ?P) \<le> card (?R - {a})" using P card_image_le [OF fin, of snd] by linarith
  with sub fin le show "a \<notin> snd ` ?P" using card_seteq [of "snd ` ?P" "?R - {a}"] by auto
qed

lemma arcs_away:
  assumes "finite (reach sc a)" "(\<Sum>x\<in>reach sc a. card (sc x)) < card (reach sc a)" "u \<in> reach sc a" "v \<in> sc u"
  shows "(LEAST n. (a, u) \<in> {(u, v). v \<in> sc u} ^^ n) < (LEAST n. (a, v) \<in> {(u, v). v \<in> sc u} ^^ n)"
proof -
  let ?E = "{(u, v). v \<in> sc u}"
  let ?d = "LEAST n. (a, v) \<in> ?E ^^ n"
  have uv: "(u, v) \<in> Sigma (reach sc a) sc" using assms(3,4) by auto
  then have "v \<noteq> a" using one_arc_each(2) [OF assms(1,2)] by (metis image_eqI snd_conv)
  obtain n where "(a, v) \<in> ?E ^^ n"
    using reach_step [OF assms(3,4)] by (auto simp: reach_iff dest: rtrancl_imp_relpow)
  then have d: "(a, v) \<in> ?E ^^ ?d" by (rule LeastI)
  with \<open>v \<noteq> a\<close> obtain k where k: "?d = Suc k" by (cases ?d) auto
  with d obtain w where w: "(a, w) \<in> ?E ^^ k" "v \<in> sc w" by auto
  then have "(w, v) \<in> Sigma (reach sc a) sc" by (auto simp: reach_iff dest: relpow_imp_rtrancl)
  with uv have "w = u" using inj_onD [OF one_arc_each(1) [OF assms(1,2)], of "(w, v)" "(u, v)"] by simp
  with w(1) have "(LEAST n. (a, u) \<in> ?E ^^ n) \<le> k" by (intro Least_le) simp
  with k show ?thesis by simp
qed

lemma few_arcs_acyclic:
  assumes "finite (reach sc a)" "(\<Sum>x\<in>reach sc a. card (sc x)) < card (reach sc a)" "x \<in> reach sc a"
  shows "(x, x) \<notin> {(u, v). v \<in> sc u}\<^sup>+"
proof -
  let ?d = "\<lambda>x. LEAST n. (a, x) \<in> {(u, v). v \<in> sc u} ^^ n"
  have "y \<in> reach sc a \<and> ?d x < ?d y" if "(x, y) \<in> {(u, v). v \<in> sc u}\<^sup>+" for y
    using that
  proof (induction rule: trancl_induct)
    case (base y)
    then show ?case using arcs_away [OF assms(1,2)] assms(3) by (auto intro: reach_step)
  next
    case (step y z)
    then show ?case using arcs_away [OF assms(1,2), of y z] by (auto intro: reach_step)
  qed
  then show ?thesis by blast
qed

section \<open>Recursive programs that search\<close>

definition heads :: "('e \<Rightarrow> nat) \<Rightarrow> (nat \<Rightarrow> 'e list) \<Rightarrow> nat \<Rightarrow> nat set" where
  "heads dest arcs a = dest ` set (arcs a)"

text \<open>
  A program \<open>V depth a\<close> that visits \<open>a\<close> and then runs \<open>body\<close> on each of its arcs. \<open>St xs s\<close> says that \<open>s\<close> is the
  state after the nodes \<open>xs\<close> were visited in this order, \<open>fresh\<close> which nodes the search was to visit, and
  \<open>Acc ys k r\<close> that \<open>r\<close> is the right result when \<open>ys\<close> were visited and \<open>k\<close> arcs led to nodes that were not
  visited over them. The laws are about one arc; \<open>visits\<close> is what follows for the whole search.
\<close>

locale dfs_program =
  fixes arcs :: "nat \<Rightarrow> 'e list"
    and dest :: "'e \<Rightarrow> nat"
    and V :: "nat \<Rightarrow> nat \<Rightarrow> ('s, 'r) prog"
    and start :: "nat \<Rightarrow> ('s, 'r) prog"
    and body :: "nat \<Rightarrow> nat \<Rightarrow> 'e \<Rightarrow> 'r \<Rightarrow> ('s, 'r) prog"
    and finish :: "'r \<Rightarrow> 'r"
    and comb :: "'r \<Rightarrow> 'r \<Rightarrow> 'r"
    and fresh :: "nat \<Rightarrow> bool"
    and St :: "nat list \<Rightarrow> 's \<Rightarrow> bool"
    and Acc :: "nat list \<Rightarrow> nat \<Rightarrow> 'r \<Rightarrow> bool"
  assumes V_eq: "St xs s \<Longrightarrow> fresh a \<Longrightarrow> a \<notin> set xs \<Longrightarrow>
      V (Suc d) a s = bnd (start a) (\<lambda>r. bnd (for_each (body d a) (arcs a) r) (\<lambda>r. ret (finish r))) s"
    and start: "St xs s \<Longrightarrow> fresh a \<Longrightarrow> a \<notin> set xs \<Longrightarrow> wp (start a) (\<lambda>r s'. St (xs @ [a]) s' \<and> Acc [a] 0 r) s"
    and skip: "St xs s \<Longrightarrow> a \<in> set xs \<Longrightarrow> \<not> fresh (dest e) \<or> dest e \<in> set xs \<Longrightarrow> Acc ys k r \<Longrightarrow>
      wp (body (Suc d) a e r) (\<lambda>r' s'. St xs s' \<and> Acc ys (Suc k) r') s"
    and call: "St xs s \<Longrightarrow> a \<in> set xs \<Longrightarrow> fresh (dest e) \<Longrightarrow> dest e \<notin> set xs \<Longrightarrow>
      wp (V d (dest e)) Q s \<Longrightarrow> wp (body d a e r) (\<lambda>r' s'. \<exists>q. Q q s' \<and> r' = comb r q) s"
    and comb: "Acc ys k r \<Longrightarrow> Acc zs j q \<Longrightarrow> Acc (ys @ zs) (k + j) (comb r q)"
    and finish: "Acc ys k r \<Longrightarrow> Acc ys k (finish r)"
begin

text \<open>The search stays below \<open>t\<close>; the nodes still to visit bound its depth.\<close>

abbreviation sc :: "nat \<Rightarrow> nat set" where
  "sc \<equiv> heads dest arcs"

definition left :: "nat \<Rightarrow> nat list \<Rightarrow> nat set" where
  "left t xs = {x. x < t \<and> fresh x \<and> x \<notin> set xs}"

lemma card_left:
  assumes "a \<in> left t xs" "a \<in> set ys"
  shows "card (left t (xs @ ys)) < card (left t xs)"
proof (rule psubset_card_mono)
  show "finite (left t xs)" by (simp add: left_def)
  show "left t (xs @ ys) \<subset> left t xs" using assms by (auto simp: left_def)
qed

definition visited :: "nat list \<Rightarrow> nat \<Rightarrow> 'r \<Rightarrow> 's \<Rightarrow> bool" where
  "visited xs a r s = (\<exists>ys k. St (xs @ ys) s \<and> Acc ys k r \<and> distinct ys \<and>
     dfs_set sc (\<lambda>y. fresh y \<and> y \<notin> set xs) a (set ys) \<and> (\<Sum>y\<leftarrow>ys. length (arcs y)) + 1 = k + length ys)"

text \<open>In the loop of the call on \<open>a\<close>, with \<open>n\<close> arcs done.\<close>

definition looping :: "nat list \<Rightarrow> nat \<Rightarrow> nat \<Rightarrow> 'r \<Rightarrow> 's \<Rightarrow> bool" where
  "looping xs a n r s = (\<exists>ys k. St (xs @ a # ys) s \<and> Acc (a # ys) k r \<and> distinct (a # ys) \<and>
     dfs_part sc (\<lambda>y. fresh y \<and> y \<notin> set xs) a (dest ` set (take n (arcs a))) (set (a # ys)) \<and>
     n + (\<Sum>y\<leftarrow>ys. length (arcs y)) = k + length ys)"

lemma take_arcs: "n < length (arcs a) \<Longrightarrow>
  dest ` set (take (Suc n) (arcs a)) = insert (dest (arcs a ! n)) (dest ` set (take n (arcs a)))"
  by (simp add: take_Suc_conv_app_nth)

lemma looping_step:
  assumes n: "n < length (arcs a)" and I: "looping xs a n r s"
    and V: "\<And>ys s b. St (xs @ a # ys) s \<Longrightarrow> fresh b \<Longrightarrow> b \<notin> set (xs @ a # ys) \<Longrightarrow> b \<in> sc a \<Longrightarrow>
      wp (V (Suc d) b) (visited (xs @ a # ys) b) s"
  shows "wp (body (Suc d) a (arcs a ! n) r) (looping xs a (Suc n)) s"
proof -
  let ?e = "arcs a ! n"
  let ?unv = "\<lambda>y. fresh y \<and> y \<notin> set xs"
  obtain ys k where I: "St (xs @ a # ys) s" "Acc (a # ys) k r" "distinct (a # ys)"
    "dfs_part sc ?unv a (dest ` set (take n (arcs a))) (set (a # ys))"
    "n + (\<Sum>y\<leftarrow>ys. length (arcs y)) = k + length ys" using I unfolding looping_def by blast
  have b: "dest ?e \<in> sc a" using n by (simp add: heads_def)
  show ?thesis
  proof (cases "fresh (dest ?e) \<and> dest ?e \<notin> set (xs @ a # ys)")
    case False
    then have "dfs_part sc ?unv a (dest ` set (take (Suc n) (arcs a))) (set (a # ys))"
      unfolding take_arcs [OF n] by (intro dfs_skip [OF I(4)]) auto
    with I(3,5) have "St (xs @ a # ys) s' \<and> Acc (a # ys) (Suc k) r' \<Longrightarrow> looping xs a (Suc n) r' s'" for r' s'
      unfolding looping_def by (intro exI [of _ ys] exI [of _ "Suc k"]) simp
    moreover have "wp (body (Suc d) a ?e r) (\<lambda>r' s'. St (xs @ a # ys) s' \<and> Acc (a # ys) (Suc k) r') s"
      by (rule skip) (use I False in auto)
    ultimately show ?thesis by (rule wp_mono [rotated])
  next
    case True
    have "wp (body (Suc d) a ?e r) (\<lambda>r' s'. \<exists>q. visited (xs @ a # ys) (dest ?e) q s' \<and> r' = comb r q) s"
      by (rule call) (use I True V b in auto)
    then show ?thesis
    proof (rule wp_mono, elim exE conjE)
      fix r' s' q assume "visited (xs @ a # ys) (dest ?e) q s'" and r': "r' = comb r q"
      then obtain zs j where z: "St ((xs @ a # ys) @ zs) s'" "Acc zs j q" "distinct zs"
        "dfs_set sc (\<lambda>y. fresh y \<and> y \<notin> set (xs @ a # ys)) (dest ?e) (set zs)"
        "(\<Sum>y\<leftarrow>zs. length (arcs y)) + 1 = j + length zs" unfolding visited_def by blast
      have "dfs_set sc (\<lambda>y. ?unv y \<and> y \<notin> set (a # ys)) (dest ?e) (set zs)" using z(4) by (simp add: conj_ac)
      note v = dfs_visit [OF I(4) b this]
      show "looping xs a (Suc n) r' s'"
        unfolding looping_def take_arcs [OF n]
        using z v I(3,5) comb [OF I(2) z(2)] r' by (intro exI [of _ "ys @ zs"] exI [of _ "k + j"]) auto
    qed
  qed
qed

theorem visits:
  assumes "\<And>a. a < t \<Longrightarrow> sc a \<subseteq> {..<t}" "St xs s" "fresh a" "a \<notin> set xs" "a < t" "card (left t xs) < depth"
  shows "wp (V depth a) (visited xs a) s"
  using assms
proof (induction depth arbitrary: a xs s)
  case (Suc depth)
  have V: "wp (V depth b) (visited (xs @ a # ys) b) s'"
    if "St (xs @ a # ys) s'" "fresh b" "b \<notin> set (xs @ a # ys)" "b \<in> sc a" for ys s' b
  proof (rule Suc.IH)
    show "card (left t (xs @ a # ys)) < depth"
      using card_left [of a t xs "a # ys"] Suc.prems(3-6) by (simp add: left_def)
  qed (use that Suc.prems in auto)
  have "wp (for_each (body depth a) (arcs a) r) (\<lambda>r. visited xs a (finish r)) s'" if "St (xs @ [a]) s' \<and> Acc [a] 0 r" for r s'
  proof (rule wp_for_each [where I = "looping xs a"])
    show "looping xs a 0 r s'"
      unfolding looping_def using that Suc.prems by (intro exI [of _ "[]"] exI [of _ 0]) (simp add: dfs_start)
  next
    fix n r s assume "n < length (arcs a)" "looping xs a n r s"
    moreover obtain d where "depth = Suc d"
      using card_left [of a t xs "[a]"] Suc.prems(3-6) by (cases depth) (auto simp: left_def)
    ultimately show "wp (body depth a (arcs a ! n) r) (looping xs a (Suc n)) s"
      using looping_step V by simp
  next
    fix r s assume "looping xs a (length (arcs a)) r s"
    then obtain ys k where "St (xs @ a # ys) s" "Acc (a # ys) k r" "distinct (a # ys)"
      "dfs_part sc (\<lambda>y. fresh y \<and> y \<notin> set xs) a (sc a) (set (a # ys))"
      "length (arcs a) + (\<Sum>y\<leftarrow>ys. length (arcs y)) = k + length ys" by (auto simp: looping_def heads_def)
    then show "visited xs a (finish r) s"
      unfolding visited_def using dfs_done finish by (intro exI [of _ "a # ys"] exI [of _ k]) simp
  qed
  then have "wp (bnd (start a) (\<lambda>r. bnd (for_each (body depth a) (arcs a) r) (\<lambda>r. ret (finish r)))) (visited xs a) s"
    using wp_mono [OF start [OF Suc.prems(2-4)]] by simp
  with V_eq [OF Suc.prems(2-4)] show ?case by (simp add: wp_def)
qed simp

text \<open>From the start, when every node that can be reached is fresh.\<close>

corollary visits_all:
  assumes "\<And>a. a < t \<Longrightarrow> sc a \<subseteq> {..<t}" "St [] s" "a < t" "\<And>x. x \<in> reach sc a \<Longrightarrow> fresh x" "t < depth"
  shows "wp (V depth a) (\<lambda>r s'. \<exists>ys k. St ys s' \<and> Acc ys k r \<and> distinct ys \<and> set ys = reach sc a \<and>
    (\<Sum>y\<leftarrow>ys. length (arcs y)) + 1 = k + length ys) s"
proof (rule wp_mono [OF visits])
  show "card (left t []) < depth"
    using card_mono [of "{..<t}" "left t []"] assms(5) by (simp add: left_def subset_iff)
  show "fresh a" using assms(4) by (simp add: reach_def reach_in_refl)
  fix r s' assume "visited [] a r s'"
  then obtain ys k where ys: "St ys s'" "Acc ys k r" "distinct ys" "dfs_set sc fresh a (set ys)"
    "(\<Sum>y\<leftarrow>ys. length (arcs y)) + 1 = k + length ys" by (auto simp: visited_def)
  moreover have "set ys = reach sc a"
    using dfs_set_unique [OF ys(4)] reach_in_all [of sc a fresh] assms(4) by simp
  ultimately show "\<exists>ys k. St ys s' \<and> Acc ys k r \<and> distinct ys \<and> set ys = reach sc a \<and>
    (\<Sum>y\<leftarrow>ys. length (arcs y)) + 1 = k + length ys" by blast
qed (use assms in auto)

end

end
