(* ===== verification/Graph_Traversals.thy ===== *)
theory Graph_Traversals
  imports Graph Graph_Search
begin

text \<open>
  The traversals of \<open>src/src/library/libflow/graph.c\<close>: marking, visiting and the test for cycles, as
  instances of depth-first search. The bound on the depth of the calls is shown to be enough, so the
  traversals end on every graph, cyclic or not.
\<close>

section \<open>Marks\<close>

definition is_marked :: "gnode \<Rightarrow> bool" where
  "is_marked n = (nodeStatus n AND RESERVED_STATUS_BITS \<noteq> 0)"

definition mark :: "nat set \<Rightarrow> (nat \<Rightarrow> gnode) \<Rightarrow> nat \<Rightarrow> gnode" where
  "mark X m x = (if x \<in> X then (m x)\<lparr>nodeStatus := nodeStatus (m x) OR RESERVED_STATUS_BITS\<rparr> else m x)"

definition unmark :: "nat set \<Rightarrow> (nat \<Rightarrow> gnode) \<Rightarrow> nat \<Rightarrow> gnode" where
  "unmark X m x = (if x \<in> X then (m x)\<lparr>nodeStatus := nodeStatus (m x) AND NOT RESERVED_STATUS_BITS\<rparr> else m x)"

definition out :: "(nat \<Rightarrow> gnode) \<Rightarrow> nat \<Rightarrow> nat set" where
  "out m a = destinationNode ` set (destinationArcs (m a))"

lemma reserved_bit: "s AND RESERVED_STATUS_BITS = 0 \<longleftrightarrow> \<not> bit s 30"
  using and_exp_eq_0_iff_not_bit [of s 30] by (simp add: RESERVED_STATUS_BITS_def)

lemma bit_reserved: "bit RESERVED_STATUS_BITS n \<longleftrightarrow> n = 30"
  using bit_exp_iff [of 30 n, where 'a = int] by (auto simp: RESERVED_STATUS_BITS_def)

lemma is_marked_bit: "is_marked n = bit (nodeStatus n) 30"
  by (simp add: is_marked_def reserved_bit)

lemma is_marked_mark [simp]: "is_marked (mark X m x) \<longleftrightarrow> x \<in> X \<or> is_marked (m x)"
  by (simp add: is_marked_bit mark_def bit_or_iff bit_reserved)

lemma is_marked_unmark [simp]: "is_marked (unmark X m x) \<longleftrightarrow> x \<notin> X \<and> is_marked (m x)"
  by (simp add: is_marked_bit unmark_def bit_and_iff bit_not_iff bit_reserved)

lemma out_mark [simp]: "out (mark X m) = out m" "out (unmark X m) = out m"
  by (auto simp: out_def mark_def unmark_def fun_eq_iff)

lemma arcs_mark [simp]:
  "destinationArcs (mark X m x) = destinationArcs (m x)" "destinationArcs (unmark X m x) = destinationArcs (m x)"
  by (simp_all add: mark_def unmark_def)

lemma mark_mark: "mark X (mark Y m) = mark (X \<union> Y) m"
  by (auto simp: mark_def fun_eq_iff)

lemma unmark_unmark: "unmark X (unmark Y m) = unmark (X \<union> Y) m"
  by (auto simp: unmark_def fun_eq_iff)

lemma unmark_mark:
  assumes "\<And>x. x \<in> X \<Longrightarrow> \<not> is_marked (m x)"
  shows "unmark X (mark X m) = m"
proof
  fix x
  have "(s OR RESERVED_STATUS_BITS) AND NOT RESERVED_STATUS_BITS = s" if "\<not> bit s 30" for s
    by (rule bit_eqI) (use that in \<open>auto simp: bit_and_iff bit_or_iff bit_not_iff bit_reserved\<close>)
  then show "unmark X (mark X m) x = m x"
    using assms [of x] by (cases "m x") (auto simp: unmark_def mark_def is_marked_bit)
qed

text \<open>Every arc leads to a node that was allocated.\<close>

definition within_top :: "(nat \<Rightarrow> gnode) \<Rightarrow> nat \<Rightarrow> bool" where
  "within_top m t = (\<forall>a<t. out m a \<subseteq> {..<t})"

lemma node_put_mem: "wp (node_put a f) Q s = Q () (s\<lparr>node_mem := (node_mem s)(a := f (node_mem s a))\<rparr>)"
  by (simp add: node_put_def)

lemma node_get_mem: "wp (node_get a) Q s = Q (node_mem s a) s"
  by (simp add: node_get_def)

lemma bnd_node_get: "bnd (node_get a) f s = f (node_mem s a) s"
  by (simp add: bnd_def node_get_def gets_def)

section \<open>Marking\<close>

definition marking :: "'z graph_lib_scheme \<Rightarrow> nat list \<Rightarrow> 'z graph_lib_scheme \<Rightarrow> bool" where
  "marking g xs s = (s = g\<lparr>node_mem := mark (set xs) (node_mem g)\<rparr>)"

interpretation marks: dfs_program
  "\<lambda>a. destinationArcs (node_mem g a)" destinationNode MarkStatusBits
  "\<lambda>a. bnd (node_put a (\<lambda>n. n\<lparr>nodeStatus := nodeStatus n OR RESERVED_STATUS_BITS\<rparr>)) (\<lambda>_. ret 1)"
  "\<lambda>d a arc k. bnd (MarkStatusBits d (destinationNode arc)) (\<lambda>m. ret (k + m))"
  "\<lambda>r. r" "(+)" "\<lambda>x. \<not> is_marked (node_mem g x)" "marking g" "\<lambda>ys k r. r = int (length ys)"
  for g :: "'z graph_lib_scheme"
proof (unfold_locales, goal_cases)
  case (1 xs s a d)
  then show ?case by (simp add: marking_def bnd_node_get is_marked_def [symmetric] bnd_assoc)
next
  case (2 xs s a)
  then have "(mark (set xs) (node_mem g))(a := (node_mem g a)\<lparr>nodeStatus := nodeStatus (node_mem g a) OR RESERVED_STATUS_BITS\<rparr>) =
      mark (insert a (set xs)) (node_mem g)" by (auto simp: mark_def fun_eq_iff)
  with 2 show ?case by (simp add: marking_def node_put_mem) (simp add: mark_def)
next
  case (3 xs s a e ys k r d)
  then have "is_marked (node_mem s (destinationNode e))" by (auto simp: marking_def)
  with 3 show ?case by (simp add: node_get_mem is_marked_def)
qed simp_all

section \<open>Visiting\<close>

text \<open>
  A callback that answers 0, leaves the nodes alone and whose effect on the visits so far is \<open>J\<close>.
  \<open>A\<close> are the nodes it may be called on.
\<close>

locale visitor =
  fixes fn :: "nat \<Rightarrow> ('z graph_lib_scheme, int) prog"
    and A :: "nat set"
    and J :: "nat list \<Rightarrow> 'z graph_lib_scheme \<Rightarrow> bool"
  assumes visit: "J xs g \<Longrightarrow> a \<in> A \<Longrightarrow> a \<notin> set xs \<Longrightarrow>
      wp (fn a) (\<lambda>c g'. c = 0 \<and> node_mem g' = node_mem g \<and> J (xs @ [a]) g') g"
    and J_mem: "J xs (g\<lparr>node_mem := m\<rparr>) = J xs g"
begin

definition clearing :: "(nat \<Rightarrow> gnode) \<Rightarrow> nat list \<Rightarrow> 'z graph_lib_scheme \<Rightarrow> bool" where
  "clearing m xs s = (J xs s \<and> node_mem s = mark (A - set xs) m \<and> (\<forall>x. \<not> is_marked (m x)))"

lemma clear_one:
  assumes "clearing m xs s" "a \<in> A" "a \<notin> set xs"
  obtains s1 s2 where "node_put a (\<lambda>n. n\<lparr>nodeStatus := nodeStatus n AND (NOT RESERVED_STATUS_BITS)\<rparr>) s = Inr ((), s1)"
    "fn a s1 = Inr (0, s2)" "node_mem s2 a = m a" "clearing m (xs @ [a]) s2"
proof -
  let ?m = "node_mem s"
  let ?s1 = "s\<lparr>node_mem := unmark {a} ?m\<rparr>"
  have m: "?m = mark {a} (mark (A - set (xs @ [a])) m)"
    using assms by (auto simp: clearing_def mark_def fun_eq_iff)
  have um: "unmark {a} ?m = mark (A - set (xs @ [a])) m"
    unfolding m by (rule unmark_mark) (use assms(1) in \<open>auto simp: clearing_def\<close>)
  have "node_put a (\<lambda>n. n\<lparr>nodeStatus := nodeStatus n AND (NOT RESERVED_STATUS_BITS)\<rparr>) s = Inr ((), ?s1)"
    unfolding node_put_def modify_def
    by (simp, rule arg_cong [where f = "\<lambda>m. s\<lparr>node_mem := m\<rparr>"]) (auto simp: unmark_def fun_eq_iff)
  moreover have "J xs ?s1" using assms(1) by (simp add: clearing_def J_mem)
  from visit [OF this assms(2,3)] obtain s2 where "fn a ?s1 = Inr (0, s2)" "node_mem s2 = unmark {a} ?m" "J (xs @ [a]) s2"
    by (auto simp: wp_run)
  moreover from this um assms(1) have "clearing m (xs @ [a]) s2" by (simp add: clearing_def)
  ultimately show thesis using that um by (auto simp: mark_def)
qed

end

sublocale visitor \<subseteq> clears: dfs_program
  "\<lambda>a. destinationArcs (m a)" destinationNode "ClearStatusBits fn"
  "\<lambda>a. bnd (node_put a (\<lambda>n. n\<lparr>nodeStatus := nodeStatus n AND (NOT RESERVED_STATUS_BITS)\<rparr>)) (\<lambda>_. fn a)"
  "\<lambda>d a arc code. bnd (node_get (destinationNode arc)) (\<lambda>dest.
     if nodeStatus dest AND RESERVED_STATUS_BITS \<noteq> 0
     then bnd (ClearStatusBits fn d (destinationNode arc)) (\<lambda>c. ret (code OR c))
     else ret code)"
  "\<lambda>r. r" "(OR)" "\<lambda>x. x \<in> A" "clearing m" "\<lambda>ys k r. r = 0"
  for m :: "nat \<Rightarrow> gnode"
proof (unfold_locales, goal_cases)
  case (1 xs s a d)
  then have "is_marked (node_mem s a)" by (auto simp: clearing_def)
  then have "nodeStatus (node_mem s a) AND RESERVED_STATUS_BITS \<noteq> 0" by (simp add: is_marked_def)
  moreover from 1 obtain s1 s2 where
    "node_put a (\<lambda>n. n\<lparr>nodeStatus := nodeStatus n AND (NOT RESERVED_STATUS_BITS)\<rparr>) s = Inr ((), s1)"
    "fn a s1 = Inr (0, s2)" "node_mem s2 a = m a" by (rule clear_one)
  ultimately show ?case
    by (simp add: bnd_node_get bnd_assoc) (simp add: bnd_def node_get_def gets_def)
next
  case (2 xs s a)
  then obtain s1 s2 where
    "node_put a (\<lambda>n. n\<lparr>nodeStatus := nodeStatus n AND (NOT RESERVED_STATUS_BITS)\<rparr>) s = Inr ((), s1)"
    "fn a s1 = Inr (0, s2)" "clearing m (xs @ [a]) s2" by (rule clear_one)
  then show ?case by (simp add: wp_run bnd_def)
next
  case (3 xs s a e ys k r d)
  then have "\<not> is_marked (node_mem s (destinationNode e))" by (auto simp: clearing_def)
  with 3 show ?case by (simp add: node_get_mem is_marked_def)
next
  case (4 xs s a e d Q r)
  then have "is_marked (node_mem s (destinationNode e))" by (auto simp: clearing_def)
  with 4 show ?case by (auto simp: node_get_mem is_marked_def elim!: wp_mono)
qed simp_all

lemma heads_out: "heads destinationNode (\<lambda>a. destinationArcs (m a)) = out m"
  by (simp add: fun_eq_iff heads_def out_def)

lemma mark_nothing [simp]: "mark {} m = m"
  by (simp add: mark_def fun_eq_iff)

lemma mark_all:
  assumes "within_top (node_mem g) t" "a < t" "\<And>x. \<not> is_marked (node_mem g x)" "t < depth"
  shows "wp (MarkStatusBits depth a) (\<lambda>r s. s = g\<lparr>node_mem := mark (reach (out (node_mem g)) a) (node_mem g)\<rparr> \<and>
    r = int (card (reach (out (node_mem g)) a))) g"
  by (rule wp_mono, rule marks.visits_all [where g = g and t = t, unfolded heads_out])
    (use assms in \<open>auto simp: within_top_def marking_def distinct_card dest!: sym [where t = "reach _ _"]\<close>)

context visitor
begin

lemma clear_all:
  assumes "within_top m t" "a < t" "\<And>x. \<not> is_marked (m x)" "t < depth" "A = reach (out m) a" "J [] g"
  shows "wp (ClearStatusBits fn depth a) (\<lambda>c s. c = 0 \<and> node_mem s = m \<and>
    (\<exists>ys. distinct ys \<and> set ys = A \<and> J ys s)) (g\<lparr>node_mem := mark A m\<rparr>)"
proof (rule wp_mono, rule clears.visits_all [where m = m and t = t and a = a, unfolded heads_out, folded assms(5)])
  show "clearing m [] (g\<lparr>node_mem := mark A m\<rparr>)" using assms(3,6) by (simp add: clearing_def J_mem)
qed (use assms(1,2,4) in \<open>auto simp: within_top_def clearing_def\<close>)

theorem visit_all:
  assumes "within_top (node_mem g) (node_top g)" "a < node_top g" "\<And>x. \<not> is_marked (node_mem g x)"
    "A = reach (out (node_mem g)) a" "J [] g"
  shows "wp (VisitAllNodes (Some a) fn) (\<lambda>r g'. node_mem g' = node_mem g \<and> r = int (card A) \<and>
    (\<exists>ys. distinct ys \<and> set ys = A \<and> J ys g')) g"
proof -
  define depth where "depth = node_top g + 1"
  have less: "node_top g < depth" by (simp add: depth_def)
  note m = mark_all [OF assms(1-3) less, folded assms(4)]
  note c = clear_all [OF assms(1-3) less assms(4,5)]
  have "wp (bnd (MarkStatusBits depth a) (\<lambda>sz. bnd (ClearStatusBits fn depth a) (\<lambda>code.
      if code \<noteq> 0 then ret (- 1) else ret sz))) (\<lambda>r g'. node_mem g' = node_mem g \<and> r = int (card A) \<and>
      (\<exists>ys. distinct ys \<and> set ys = A \<and> J ys g')) g"
    by (rule wp_seq [OF m], elim conjE, simp, rule wp_mono [OF c]) auto
  then show ?thesis unfolding VisitAllNodes_def option.case wp_bnd wp_gets depth_def .
qed

end

section \<open>The buffer of nodes\<close>

definition buffered :: "nat set \<Rightarrow> 'z graph_lib_scheme \<Rightarrow> nat list \<Rightarrow> 'z graph_lib_scheme \<Rightarrow> bool" where
  "buffered A g xs s = (s\<lparr>node_mem := node_mem g\<rparr> = g\<lparr>nd_buf := xs\<rparr> \<and> distinct xs \<and> set xs \<subseteq> A \<and>
     finite A \<and> card A < MAX_GRAPH_SIZE)"

lemma buffered_state:
  assumes "buffered A g xs s"
  obtains m where "s = g\<lparr>nd_buf := xs, node_mem := m\<rparr>"
proof -
  from assms have "s\<lparr>node_mem := node_mem g\<rparr>\<lparr>node_mem := node_mem s\<rparr> = g\<lparr>nd_buf := xs\<rparr>\<lparr>node_mem := node_mem s\<rparr>"
    unfolding buffered_def by metis
  then show thesis using that [of "node_mem s"] by simp
qed

interpretation buffers: visitor Add_2_nd_buf A "buffered A g" for A and g :: "'z graph_lib_scheme"
proof (unfold_locales, goal_cases)
  case (1 xs s a)
  then have "card (set (xs @ [a])) \<le> card A" by (intro card_mono) (auto simp: buffered_def)
  moreover have "card (set (xs @ [a])) = length xs + 1" using 1 by (simp add: buffered_def distinct_card)
  moreover from 1(1) obtain m where "s = g\<lparr>nd_buf := xs, node_mem := m\<rparr>" by (rule buffered_state)
  ultimately show ?case using 1 by (auto simp: buffered_def Add_2_nd_buf_def)
qed (auto simp: buffered_def)

lemma collect_nodes_wp:
  assumes "within_top (node_mem g) (node_top g)" "a < node_top g" "\<And>x. \<not> is_marked (node_mem g x)"
    "card (reach (out (node_mem g)) a) < MAX_GRAPH_SIZE"
  shows "wp (collect_nodes (Some a)) (\<lambda>buf g'. g' = g\<lparr>nd_buf := buf\<rparr> \<and> distinct buf \<and> set buf = reach (out (node_mem g)) a) g"
proof -
  let ?A = "reach (out (node_mem g)) a"
  let ?g = "g\<lparr>nd_buf := []\<rparr>"
  have "finite ?A"
    unfolding reach_def
    by (rule finite_subset [OF reach_in_sub [of a "{..<node_top g}"]]) (use assms in \<open>auto simp: within_top_def\<close>)
  then have "wp (VisitAllNodes (Some a) Add_2_nd_buf) (\<lambda>r g'. node_mem g' = node_mem ?g \<and> r = int (card ?A) \<and>
    (\<exists>ys. distinct ys \<and> set ys = ?A \<and> buffered ?A g ys g')) ?g"
    by (intro buffers.visit_all) (use assms in \<open>simp_all add: buffered_def\<close>)
  then show ?thesis
    unfolding collect_nodes_def wp_bnd wp_modify wp_gets
  proof (rule wp_mono, elim exE conjE)
    fix r g' ys assume g': "node_mem g' = node_mem ?g" "buffered ?A g ys g'" and ys: "distinct ys" "set ys = ?A"
    from g'(2) obtain m where "g' = g\<lparr>nd_buf := ys, node_mem := m\<rparr>" by (rule buffered_state)
    with g'(1) have "g' = g\<lparr>nd_buf := ys\<rparr>" by simp
    with ys show "g' = g\<lparr>nd_buf := nd_buf g'\<rparr> \<and> distinct (nd_buf g') \<and> set (nd_buf g') = ?A" by simp
  qed
qed

section \<open>Setting the status of nodes\<close>

definition stamp :: "nat set \<Rightarrow> (nat \<Rightarrow> int) \<Rightarrow> (nat \<Rightarrow> gnode) \<Rightarrow> nat \<Rightarrow> gnode" where
  "stamp X f m x = (if x \<in> X then (m x)\<lparr>nodeStatus := f x\<rparr> else m x)"

lemma stamp_simps [simp]:
  "out (stamp X f m) = out m" "destinationArcs (stamp X f m x) = destinationArcs (m x)"
  "nodeStatus (stamp X f m x) = (if x \<in> X then f x else nodeStatus (m x))"
  "stamp {} f m = m"
  by (auto simp: out_def stamp_def fun_eq_iff)

lemma stamp_insert: "(stamp X f m)(a := (stamp X f m a)\<lparr>nodeStatus := v\<rparr>) = stamp (insert a X) (f(a := v)) m"
  by (auto simp: stamp_def fun_eq_iff)

lemma reach_finite: "within_top m t \<Longrightarrow> a < t \<Longrightarrow> reach (out m) a \<subseteq> {..<t}"
  unfolding reach_def by (rule reach_in_sub) (auto simp: within_top_def)

lemma MarkNodesZero_wp:
  assumes "within_top (node_mem g) (node_top g)" "a < node_top g" "\<And>x. \<not> is_marked (node_mem g x)"
    "card (reach (out (node_mem g)) a) < MAX_GRAPH_SIZE"
  shows "wp (MarkNodesZero (Some a)) (\<lambda>n g'. n = int (card (reach (out (node_mem g)) a)) \<and>
    (\<exists>buf. g' = g\<lparr>nd_buf := buf, node_mem := stamp (reach (out (node_mem g)) a) (\<lambda>_. 0) (node_mem g)\<rparr>)) g"
  unfolding MarkNodesZero_def wp_bnd
proof (rule wp_mono [OF collect_nodes_wp [OF assms]], elim conjE)
  fix buf g' assume g': "g' = g\<lparr>nd_buf := buf\<rparr>" and buf: "distinct buf" "set buf = reach (out (node_mem g)) a"
  have "wp (for_each (\<lambda>a _. node_put a (\<lambda>n. n\<lparr>nodeStatus := 0\<rparr>)) buf ())
      (\<lambda>_ s. s = g'\<lparr>node_mem := stamp (set buf) (\<lambda>_. 0) (node_mem g)\<rparr>) g'"
  proof (rule wp_for_each [where I = "\<lambda>k _ s. s = g'\<lparr>node_mem := stamp (set (take k buf)) (\<lambda>_. 0) (node_mem g)\<rparr>"])
    fix k u s assume "k < length buf" "s = g'\<lparr>node_mem := stamp (set (take k buf)) (\<lambda>_. 0) (node_mem g)\<rparr>"
    then show "wp (node_put (buf ! k) (\<lambda>n. n\<lparr>nodeStatus := 0\<rparr>))
        (\<lambda>_ s. s = g'\<lparr>node_mem := stamp (set (take (Suc k) buf)) (\<lambda>_. 0) (node_mem g)\<rparr>) s"
      by (simp add: node_put_mem stamp_insert take_Suc_conv_app_nth fun_upd_idem)
  qed (simp_all add: g')
  then show "wp (for_each (\<lambda>a _. node_put a (\<lambda>n. n\<lparr>nodeStatus := 0\<rparr>)) buf ()) (\<lambda>x. wp (ret (int (length buf))) (\<lambda>n g'.
      n = int (card (reach (out (node_mem g)) a)) \<and>
      (\<exists>buf. g' = g\<lparr>nd_buf := buf, node_mem := stamp (reach (out (node_mem g)) a) (\<lambda>_. 0) (node_mem g)\<rparr>))) g'"
    by (rule wp_mono) (use buf distinct_card [OF buf(1)] in \<open>auto simp: g'\<close>)
qed

section \<open>The test for cycles\<close>

definition searching :: "'z graph_lib_scheme \<Rightarrow> nat list \<Rightarrow> 'z graph_lib_scheme \<Rightarrow> bool" where
  "searching g xs s = (\<exists>f. s = g\<lparr>node_mem := stamp (set xs) f (node_mem g)\<rparr> \<and> (\<forall>x\<in>set xs. f x \<in> {1, 2}))"

interpretation finds: dfs_program
  "\<lambda>a. destinationArcs (node_mem g a)" destinationNode FindNonZero
  "\<lambda>a. bnd (node_put a (\<lambda>n. n\<lparr>nodeStatus := 1\<rparr>)) (\<lambda>_. ret 0)"
  "\<lambda>d a arc cycle. bnd (node_get (destinationNode arc)) (\<lambda>dest.
     if nodeStatus dest \<noteq> 0
     then bnd (node_put a (\<lambda>n. n\<lparr>nodeStatus := 2\<rparr>)) (\<lambda>_. ret 1)
     else bnd (FindNonZero d (destinationNode arc)) (\<lambda>c. ret (cycle OR c)))"
  "\<lambda>cycle. if cycle \<noteq> 0 then 1 else 0" "(OR)" "\<lambda>x. nodeStatus (node_mem g x) = 0" "searching g"
  "\<lambda>ys k r. r = (if k = 0 then 0 else 1)"
  for g :: "'z graph_lib_scheme"
proof (unfold_locales, goal_cases)
  case (1 xs s a d)
  then show ?case by (auto simp: searching_def bnd_node_get bnd_assoc)
next
  case (2 xs s a)
  then show ?case by (fastforce simp: searching_def node_put_mem stamp_insert)
next
  case (3 xs s a e ys k r d)
  then obtain f where f: "s = g\<lparr>node_mem := stamp (set xs) f (node_mem g)\<rparr>" "\<forall>x\<in>set xs. f x \<in> {1, 2}"
    by (auto simp: searching_def)
  with 3 have "nodeStatus (node_mem s (destinationNode e)) \<noteq> 0" by auto
  moreover have "searching g xs (s\<lparr>node_mem := (node_mem s)(a := (node_mem s a)\<lparr>nodeStatus := 2\<rparr>)\<rparr>)"
    using f 3(2) unfolding searching_def by (intro exI [of _ "f(a := 2)"]) (simp add: stamp_insert insert_absorb)
  ultimately show ?case by (simp add: node_get_mem node_put_mem)
next
  case (4 xs s a e d Q r)
  then have "nodeStatus (node_mem s (destinationNode e)) = 0" by (auto simp: searching_def)
  with 4 show ?case by (auto simp: node_get_mem elim!: wp_mono)
qed simp_all

lemma IsCyclic_wp:
  assumes "within_top (node_mem g) (node_top g)" "a < node_top g" "\<And>x. \<not> is_marked (node_mem g x)"
    "card (reach (out (node_mem g)) a) < MAX_GRAPH_SIZE"
  shows "wp (IsCyclic (Some a)) (\<lambda>r g'. (\<exists>buf f. g' = g\<lparr>nd_buf := buf, node_mem := stamp (reach (out (node_mem g)) a) f (node_mem g)\<rparr> \<and>
      (\<forall>x\<in>reach (out (node_mem g)) a. f x \<in> {1, 2})) \<and>
    r = (if (\<Sum>x\<in>reach (out (node_mem g)) a. length (destinationArcs (node_mem g x))) < card (reach (out (node_mem g)) a) then 0 else 1)) g"
  (is "wp _ ?Q g")
  unfolding IsCyclic_def option.case wp_bnd
proof (rule wp_mono [OF MarkNodesZero_wp [OF assms]], elim conjE exE)
  let ?R = "reach (out (node_mem g)) a"
  fix n g' buf assume g': "g' = g\<lparr>nd_buf := buf, node_mem := stamp ?R (\<lambda>_. 0) (node_mem g)\<rparr>"
  define depth where "depth = node_top g' + 1"
  have "wp (FindNonZero depth a) ?Q g'"
  proof (rule wp_mono, rule finds.visits_all [where g = g' and t = "node_top g" and a = a, unfolded heads_out])
    fix r :: int and s assume "\<exists>ys k. searching g' ys s \<and> r = (if k = 0 then 0 else 1) \<and> distinct ys \<and>
      set ys = reach (out (node_mem g')) a \<and> (\<Sum>y\<leftarrow>ys. length (destinationArcs (node_mem g' y))) + 1 = k + length ys"
    then obtain ys k where *: "searching g' ys s" "r = (if k = 0 then 0 else 1)" "distinct ys" "set ys = ?R"
      "(\<Sum>y\<leftarrow>ys. length (destinationArcs (node_mem g y))) + 1 = k + length ys" by (auto simp: g')
    have "(\<Sum>x\<in>?R. length (destinationArcs (node_mem g x))) + 1 = k + card ?R"
      using *(5) sum_list_distinct_conv_sum_set [OF *(3)] distinct_card [OF *(3)] *(4) by metis
    moreover have "stamp ?R f (stamp ?R h m) = stamp ?R f m" for f h m by (simp add: stamp_def fun_eq_iff)
    ultimately show "?Q r s" using *(1,2,4) by (auto simp: searching_def g')
  qed (use assms in \<open>auto simp: g' depth_def within_top_def searching_def\<close>)
  then show "wp (gets node_top) (\<lambda>top. wp (FindNonZero (top + 1) a) ?Q) g'"
    by (simp only: wp_gets depth_def)
qed

end
