(* ===== verification/Graph_Links.thy ===== *)
theory Graph_Links
  imports Graph_Traversals
begin

text \<open>
  The double bookkeeping of arcs in \<open>src/src/library/libflow/graph.c\<close>: an arc is kept in a cell of its source and
  in another cell of its destination. \<open>linked N\<close> says that the two agree on the nodes \<open>N\<close> of a graph and that no arc
  leaves \<open>N\<close>; the arcs are as \<open>ConnectNodes\<close> makes them, without a weight. It is kept by connecting and disconnecting nodes of \<open>N\<close> and by adding a new node, and under
  it the two searches for an arc give the same answer.
\<close>

abbreviation the_arc :: "nat \<Rightarrow> nat \<Rightarrow> int \<Rightarrow> arc" where
  "the_arc s d ty \<equiv> \<lparr>arcType = ty, arcWeight = 0, sourceNode = s, destinationNode = d\<rparr>"

definition linked :: "nat set \<Rightarrow> (nat \<Rightarrow> gnode) \<Rightarrow> bool" where
  "linked N m = (\<forall>a\<in>N. (\<forall>e\<in>set (destinationArcs (m a)). sourceNode e = a \<and> destinationNode e \<in> N \<and> arcWeight e = 0) \<and>
     (\<forall>e\<in>set (sourceArcs (m a)). destinationNode e = a \<and> sourceNode e \<in> N \<and> arcWeight e = 0) \<and>
     distinct (destinationArcs (m a)) \<and> distinct (sourceArcs (m a)) \<and>
     (\<forall>b\<in>N. \<forall>ty. the_arc a b ty \<in> set (destinationArcs (m a)) \<longleftrightarrow> the_arc a b ty \<in> set (sourceArcs (m b))))"

definition has_arc :: "(nat \<Rightarrow> gnode) \<Rightarrow> nat \<Rightarrow> nat \<Rightarrow> int \<Rightarrow> bool" where
  "has_arc m s d ty = (the_arc s d ty \<in> set (destinationArcs (m s)))"

lemma linked_has:
  assumes "linked N m" "s \<in> N" "d \<in> N"
  shows "e \<in> set (destinationArcs (m s)) \<Longrightarrow> arcType e = ty \<and> destinationNode e = d \<longleftrightarrow> e = the_arc s d ty"
    and "e \<in> set (sourceArcs (m d)) \<Longrightarrow> arcType e = ty \<and> sourceNode e = s \<longleftrightarrow> e = the_arc s d ty"
    and "the_arc s d ty \<in> set (sourceArcs (m d)) \<longleftrightarrow> has_arc m s d ty"
  using assms unfolding linked_def has_arc_def by (cases e; force)+

lemma linked_distinct: "linked N m \<Longrightarrow> a \<in> N \<Longrightarrow> distinct (destinationArcs (m a))" "linked N m \<Longrightarrow> a \<in> N \<Longrightarrow> distinct (sourceArcs (m a))"
  by (simp_all add: linked_def)

lemma linked_out: "linked N m \<Longrightarrow> a \<in> N \<Longrightarrow> out m a \<subseteq> N"
  by (auto simp: linked_def out_def)

lemma linked_new:
  assumes "linked N m" "a \<notin> N" "sourceArcs n = []" "destinationArcs n = []"
  shows "linked (insert a N) (m(a := n))"
  using assms unfolding linked_def by (auto; force)

section \<open>Memories\<close>

definition join_nodes :: "nat \<Rightarrow> nat \<Rightarrow> int \<Rightarrow> (nat \<Rightarrow> gnode) \<Rightarrow> nat \<Rightarrow> gnode" where
  "join_nodes s d ty m x = (m x)\<lparr>destinationArcs := (if x = s then the_arc s d ty # destinationArcs (m x) else destinationArcs (m x)),
     sourceArcs := (if x = d then the_arc s d ty # sourceArcs (m x) else sourceArcs (m x))\<rparr>"

definition cut_nodes :: "nat \<Rightarrow> nat \<Rightarrow> int \<Rightarrow> (nat \<Rightarrow> gnode) \<Rightarrow> nat \<Rightarrow> gnode" where
  "cut_nodes s d ty m x = (m x)\<lparr>destinationArcs := (if x = s then remove1 (the_arc s d ty) (destinationArcs (m x)) else destinationArcs (m x)),
     sourceArcs := (if x = d then remove1 (the_arc s d ty) (sourceArcs (m x)) else sourceArcs (m x))\<rparr>"

lemma linked_join: "linked N m \<Longrightarrow> s \<in> N \<Longrightarrow> d \<in> N \<Longrightarrow> \<not> has_arc m s d ty \<Longrightarrow> linked N (join_nodes s d ty m)"
  unfolding linked_def has_arc_def join_nodes_def by auto

lemma linked_cut: "linked N m \<Longrightarrow> linked N (cut_nodes s d ty m)"
  unfolding linked_def cut_nodes_def by (auto dest: notin_set_remove1)

lemma has_arc_join: "has_arc (join_nodes s d ty m) s' d' ty' \<longleftrightarrow> (s', d', ty') = (s, d, ty) \<or> has_arc m s' d' ty'"
  by (auto simp: has_arc_def join_nodes_def)

lemma has_arc_cut: "linked N m \<Longrightarrow> s \<in> N \<Longrightarrow> has_arc (cut_nodes s d ty m) s' d' ty' \<longleftrightarrow> (s', d', ty') \<noteq> (s, d, ty) \<and> has_arc m s' d' ty'"
  by (auto simp: has_arc_def cut_nodes_def linked_distinct)

lemma cut_join: "cut_nodes s d ty (join_nodes s d ty m) = m"
  by (auto simp: cut_nodes_def join_nodes_def fun_eq_iff)

definition put_both :: "nat \<Rightarrow> (gnode \<Rightarrow> gnode) \<Rightarrow> nat \<Rightarrow> (gnode \<Rightarrow> gnode) \<Rightarrow> (nat \<Rightarrow> gnode) \<Rightarrow> nat \<Rightarrow> gnode" where
  "put_both s f d h m x = (if x = d then h else (\<lambda>n. n)) ((if x = s then f else (\<lambda>n. n)) (m x))"

lemma put_put: "bnd (node_put s f) (\<lambda>_. node_put d h) g = Inr ((), g\<lparr>node_mem := put_both s f d h (node_mem g)\<rparr>)"
proof -
  have "((node_mem g)(s := f (node_mem g s)))(d := h (((node_mem g)(s := f (node_mem g s))) d)) = put_both s f d h (node_mem g)"
    by (auto simp: put_both_def fun_eq_iff)
  then show ?thesis by (simp add: node_put_def modify_def bnd_def del: fun_upd_apply)
qed

section \<open>Operations\<close>

lemma ConnectNodes_run:
  assumes "linked N (node_mem g)" "s \<in> N" "d \<in> N"
  shows "ConnectNodes (Some s) (Some d) ty g = Inr ((), if has_arc (node_mem g) s d ty then g
    else g\<lparr>node_mem := join_nodes s d ty (node_mem g), node_count := node_count g + 1\<rparr>)"
proof -
  have "(\<exists>a\<in>set (destinationArcs (node_mem g s)). arcType a = ty \<and> destinationNode a = d) = has_arc (node_mem g) s d ty"
    using linked_has(1) [OF assms] by (auto simp: has_arc_def)
  moreover have "put_both s (\<lambda>n. n\<lparr>destinationArcs := the_arc s d ty # destinationArcs n\<rparr>) d (\<lambda>n. n\<lparr>sourceArcs := the_arc s d ty # sourceArcs n\<rparr>)
      (node_mem g) = join_nodes s d ty (node_mem g)"
    by (simp add: join_nodes_def put_both_def fun_eq_iff)
  ultimately show ?thesis
    by (simp add: ConnectNodes_def bnd_node_get Let_def bnd_assoc [symmetric])
      (simp add: bnd_def [of "bnd _ _"] put_put ret_def modify_def)
qed

lemma unlink_first_remove1: "(\<And>a. a \<in> set xs \<Longrightarrow> P a \<longleftrightarrow> a = e) \<Longrightarrow> unlink_first P xs = remove1 e xs"
  by (induction xs) auto

lemma DisconnectNodes_run:
  assumes "linked N (node_mem g)" "s \<in> N" "d \<in> N"
  shows "DisconnectNodes s d ty g = Inr ((), g\<lparr>node_mem := cut_nodes s d ty (node_mem g)\<rparr>)"
proof -
  let ?m = "node_mem g"
  have "unlink_first (\<lambda>a. arcType a = ty \<and> destinationNode a = d) (destinationArcs (?m s)) = remove1 (the_arc s d ty) (destinationArcs (?m s))"
    "unlink_first (\<lambda>a. arcType a = ty \<and> sourceNode a = s) (sourceArcs (?m d)) = remove1 (the_arc s d ty) (sourceArcs (?m d))"
    by (intro unlink_first_remove1 linked_has [OF assms], assumption)+
  then have "put_both s (\<lambda>n. n\<lparr>destinationArcs := unlink_first (\<lambda>a. arcType a = ty \<and> destinationNode a = d) (destinationArcs n)\<rparr>)
      d (\<lambda>n. n\<lparr>sourceArcs := unlink_first (\<lambda>a. arcType a = ty \<and> sourceNode a = s) (sourceArcs n)\<rparr>) ?m = cut_nodes s d ty ?m"
    by (cases "d = s") (simp_all add: cut_nodes_def put_both_def fun_eq_iff)
  then show ?thesis by (simp add: DisconnectNodes_def put_put)
qed

lemma find_arc:
  assumes "\<And>e. e \<in> set xs \<Longrightarrow> arcWeight e = 0"
  shows "find (\<lambda>a. arcType a = ty \<and> sourceNode a = s \<and> destinationNode a = d) xs = (if the_arc s d ty \<in> set xs then Some (the_arc s d ty) else None)"
  using assms
proof (induction xs)
  case (Cons e xs)
  have "arcType e = ty \<and> sourceNode e = s \<and> destinationNode e = d \<longleftrightarrow> e = the_arc s d ty" using Cons.prems [of e] by (cases e) auto
  then show ?case using Cons by auto
qed simp

lemma FindArc_run:
  assumes "linked N (node_mem g)" "s \<in> N" "d \<in> N"
  shows "FindDestArc s d ty g = Inr (if has_arc (node_mem g) s d ty then Some (the_arc s d ty) else None, g)"
    and "FindSrcArc s d ty g = FindDestArc s d ty g"
proof -
  have "find (\<lambda>a. arcType a = ty \<and> sourceNode a = s \<and> destinationNode a = d) (destinationArcs (node_mem g s)) =
      (if the_arc s d ty \<in> set (destinationArcs (node_mem g s)) then Some (the_arc s d ty) else None)"
    "find (\<lambda>a. arcType a = ty \<and> sourceNode a = s \<and> destinationNode a = d) (sourceArcs (node_mem g d)) =
      (if the_arc s d ty \<in> set (sourceArcs (node_mem g d)) then Some (the_arc s d ty) else None)"
    using assms by (intro find_arc; auto simp: linked_def)+
  then show "FindDestArc s d ty g = Inr (if has_arc (node_mem g) s d ty then Some (the_arc s d ty) else None, g)"
    "FindSrcArc s d ty g = FindDestArc s d ty g"
    using linked_has(3) [OF assms] by (simp_all add: FindDestArc_def FindSrcArc_def bnd_node_get has_arc_def ret_def)
qed

section \<open>Allocation\<close>

text \<open>The free list holds nodes that were allocated, each once.\<close>

definition free_ok :: "'z graph_lib_scheme \<Rightarrow> bool" where
  "free_ok g = (distinct (d_node_list g) \<and> set (d_node_list g) \<subseteq> {..<node_top g})"

definition in_use :: "'z graph_lib_scheme \<Rightarrow> nat set" where
  "in_use g = {..<node_top g} - set (d_node_list g)"

definition blank_node :: gnode where
  "blank_node = \<lparr>nodeId = 0, nodeType = 0, nodeStatus = 0, nodeWeight = 0, sourceArcs = [], destinationArcs = [], nodeExt = None\<rparr>"

lemma NewNode_run:
  fixes g :: "'z graph_lib_scheme"
  assumes "free_ok g"
  obtains a t free where
    "NewNode g = Inr (a, g\<lparr>node_mem := (node_mem g)(a := blank_node), node_top := t, d_node_list := free\<rparr>)"
    "a \<notin> in_use g" "{..<t} = insert a {..<node_top g}" "distinct free" "set free \<subseteq> {..<t}" "{..<t} - set free = insert a (in_use g)"
proof (cases "d_node_list g")
  case Nil
  then show ?thesis
    by (intro that [of "node_top g" "[]" "Suc (node_top g)"])
      (auto simp: NewNode_def bnd_def gets_def modify_def ret_def node_put_def blank_node_def in_use_def)
next
  case (Cons b bs)
  with assms show ?thesis
    by (intro that [of b bs "node_top g"])
      (auto simp: NewNode_def bnd_def gets_def modify_def ret_def node_put_def blank_node_def free_ok_def in_use_def)
qed

lemma FreeNodes_run: "for_each (\<lambda>a _. FreeNode a) xs () g = Inr ((), g\<lparr>d_node_list := rev xs @ d_node_list g\<rparr>)"
  by (induction xs arbitrary: g) (simp_all add: FreeNode_def bnd_def modify_def ret_def)

lemma RemoveNodes_run:
  assumes "within_top (node_mem g) (node_top g)" "a < node_top g" "\<And>x. \<not> is_marked (node_mem g x)"
    "card (reach (out (node_mem g)) a) < MAX_GRAPH_SIZE" "free_ok g" "reach (out (node_mem g)) a \<subseteq> in_use g"
  obtains buf free where "RemoveNodes (Some a) g = Inr ((), g\<lparr>nd_buf := buf, d_node_list := free\<rparr>)"
    "distinct free" "set free \<subseteq> {..<node_top g}" "{..<node_top g} - set free = in_use g - reach (out (node_mem g)) a"
proof -
  let ?R = "reach (out (node_mem g)) a"
  from collect_nodes_wp [OF assms(1-4)] obtain buf where buf: "collect_nodes (Some a) g = Inr (buf, g\<lparr>nd_buf := buf\<rparr>)"
    "distinct buf" "set buf = ?R" by (auto simp: wp_run)
  let ?free = "rev buf @ d_node_list g"
  show thesis
  proof (rule that)
    show "RemoveNodes (Some a) g = Inr ((), g\<lparr>nd_buf := buf, d_node_list := ?free\<rparr>)"
      by (simp add: RemoveNodes_def bnd_def buf(1) FreeNodes_run)
    show "distinct ?free" "set ?free \<subseteq> {..<node_top g}"
      using assms(5,6) buf(2,3) by (auto simp: free_ok_def in_use_def)
    show "{..<node_top g} - set ?free = in_use g - ?R" using buf(3) by (auto simp: in_use_def)
  qed
qed

text \<open>\<open>FreeGraph\<close> frees the nodes that the first one reaches, when they are in use and fit the buffer.\<close>

definition freeable :: "nat list \<Rightarrow> 'z graph_lib_scheme \<Rightarrow> bool" where
  "freeable xs g = (free_ok g \<and> within_top (node_mem g) (node_top g) \<and> (\<forall>x. \<not> is_marked (node_mem g x)) \<and>
     (\<forall>a as. xs = a # as \<longrightarrow> reach (out (node_mem g)) a \<subseteq> in_use g \<and> card (reach (out (node_mem g)) a) < MAX_GRAPH_SIZE))"

lemma FreeGraph_run:
  assumes "freeable (gnodes gr) g"
  obtains buf free where "FreeGraph (Some gr) g = Inr (None, g\<lparr>nd_buf := buf, d_node_list := free\<rparr>)"
    "distinct free" "set free \<subseteq> {..<node_top g}" "in_use g - (\<Union>a\<in>set (take 1 (gnodes gr)). reach (out (node_mem g)) a) = {..<node_top g} - set free"
proof (cases "gnodes gr")
  case Nil
  show ?thesis
    by (rule that [of "d_node_list g" "nd_buf g"]) (use Nil assms in \<open>auto simp: FreeGraph_def ret_def bnd_def freeable_def free_ok_def in_use_def\<close>)
next
  case (Cons a as)
  have r: "within_top (node_mem g) (node_top g)" "\<And>x. \<not> is_marked (node_mem g x)" "card (reach (out (node_mem g)) a) < MAX_GRAPH_SIZE" "free_ok g"
    "reach (out (node_mem g)) a \<subseteq> in_use g" using assms Cons by (auto simp: freeable_def)
  have "a \<in> reach (out (node_mem g)) a" by (simp add: reach_def reach_in_refl)
  with r(5) have "a \<in> in_use g" by (rule subsetD)
  then have a: "a < node_top g" by (simp add: in_use_def)
  obtain buf free where "RemoveNodes (Some a) g = Inr ((), g\<lparr>nd_buf := buf, d_node_list := free\<rparr>)"
    "distinct free" "set free \<subseteq> {..<node_top g}" "{..<node_top g} - set free = in_use g - reach (out (node_mem g)) a"
    by (rule RemoveNodes_run [OF r(1) a r(2-5)])
  then show ?thesis using that by (simp add: FreeGraph_def Cons bnd_def ret_def)
qed

end
