(* ===== verification/Graph_Properties.thy ===== *)
theory Graph_Properties
  imports Graph_Links
begin

text \<open>
  Properties of the graph library. The witnesses use a diamond: node 0 with arcs to 1 and 2, which both
  have an arc to 3.
\<close>

section \<open>A sample graph\<close>

definition diamond_mem :: "nat \<Rightarrow> gnode" where
  "diamond_mem = join_nodes 0 1 1 (join_nodes 0 2 1 (join_nodes 1 3 1 (join_nodes 2 3 1 (\<lambda>_. blank_node))))"

definition diamond :: graph_lib where
  "diamond = \<lparr>SetId = 0, OUT = None, mallocated = 0, maxmallocated = 0,
     node_mem = diamond_mem, node_top = 4, d_node_list = [], node_count = 4, nd_buf = []\<rparr>"

lemma diamond_simps [simp]: "node_mem diamond = diamond_mem" "node_top diamond = 4" "d_node_list diamond = []"
  "\<not> is_marked (diamond_mem x)"
  by (simp_all add: diamond_def diamond_mem_def is_marked_def join_nodes_def blank_node_def)

lemma linked_diamond: "linked {..<4} diamond_mem"
  unfolding diamond_mem_def
  by (intro linked_join, simp_all add: has_arc_join, simp_all add: linked_def has_arc_def blank_node_def)

lemma out_diamond: "out diamond_mem x = (if x = 0 then {1, 2} else if x = 1 \<or> x = 2 then {3} else {})"
  by (auto simp: out_def diamond_mem_def join_nodes_def blank_node_def)

lemma within_diamond: "within_top diamond_mem 4"
  by (auto simp: within_top_def out_diamond)

lemma reach_diamond: "reach (out diamond_mem) 0 = {0, 1, 2, 3}"
proof
  show "reach (out diamond_mem) 0 \<subseteq> {0, 1, 2, 3}"
    unfolding reach_def by (rule reach_in_sub) (auto simp: out_diamond)
  have "1 \<in> reach (out diamond_mem) 0" "2 \<in> reach (out diamond_mem) 0"
    by (rule reach_step [OF reach_self], simp add: out_diamond)+
  moreover from this(1) have "3 \<in> reach (out diamond_mem) 0" by (rule reach_step) (simp add: out_diamond)
  ultimately show "{0, 1, 2, 3} \<subseteq> reach (out diamond_mem) 0" by simp
qed

lemma arcs_diamond: "length (destinationArcs (diamond_mem x)) = (if x = 0 then 2 else if x = 1 \<or> x = 2 then 1 else 0)"
  by (simp add: diamond_mem_def join_nodes_def blank_node_def)

lemma diamond_no_cycle: "(x, y) \<in> {(u, v). v \<in> out diamond_mem u}\<^sup>+ \<Longrightarrow> x < y"
  by (induction rule: trancl_induct) (auto simp: out_diamond split: if_splits)

section \<open>Properties\<close>

text \<open>
  C10. \<open>VisitAllNodes\<close> calls the function exactly once on each node that can be reached, on any graph with cycles or
  without, leaves every status field as it was, ends within the depth it was given and
  returns the number of nodes. The function is one that answers 0 and leaves nodes alone; \<open>J\<close> describes its
  effect on the sequence of nodes it was called on.
\<close>
theorem VisitAllNodes_correct:
  assumes "visitor fn (reach (out (node_mem g)) a) J" and "J [] g"
    and "within_top (node_mem g) (node_top g)" and "a < node_top g" and "\<And>x. \<not> is_marked (node_mem g x)"
  shows "\<exists>ys g'. VisitAllNodes (Some a) fn g = Inr (int (length ys), g') \<and> distinct ys \<and>
    set ys = reach (out (node_mem g)) a \<and> J ys g' \<and> node_mem g' = node_mem g"
proof -
  have "wp (VisitAllNodes (Some a) fn) (\<lambda>r g'. node_mem g' = node_mem g \<and> r = int (card (reach (out (node_mem g)) a)) \<and>
      (\<exists>ys. distinct ys \<and> set ys = reach (out (node_mem g)) a \<and> J ys g')) g"
    by (rule visitor.visit_all [OF assms(1,3,4) _ refl assms(2)]) (simp add: assms(5))
  then obtain g' ys where run: "VisitAllNodes (Some a) fn g = Inr (int (card (set ys)), g')" "node_mem g' = node_mem g"
    and ys: "distinct ys" "set ys = reach (out (node_mem g)) a" "J ys g'" by (auto simp: wp_run)
  then show ?thesis using distinct_card [OF ys(1)] by (intro exI [of _ ys] exI [of _ g']) auto
qed

theorem VisitAllNodes_witness:
  "\<exists>ys g'. VisitAllNodes (Some 0) Add_2_nd_buf diamond = Inr (int (length ys), g') \<and> distinct ys \<and>
    set ys = {0, 1, 2, 3} \<and> nd_buf g' = ys"
proof -
  let ?J = "buffered {0, 1, 2, 3} diamond"
  have v: "visitor Add_2_nd_buf (reach (out (node_mem diamond)) 0) ?J"
    using buffers.visitor_axioms [of "{0, 1, 2, 3}" diamond] by (simp add: reach_diamond)
  have "?J [] diamond" by (simp add: buffered_def MAX_GRAPH_SIZE_def diamond_def)
  from VisitAllNodes_correct [OF v this] obtain ys g' where
    "VisitAllNodes (Some 0) Add_2_nd_buf diamond = Inr (int (length ys), g')" "distinct ys" "set ys = {0, 1, 2, 3}" "?J ys g'"
    using within_diamond by (auto simp: reach_diamond)
  moreover from this(4) have "nd_buf g' = ys" by (auto elim!: buffered_state)
  ultimately show ?thesis by blast
qed

text \<open>
  C11. \<open>IsCyclic\<close> returns 0 exactly when the nodes it can reach have fewer arcs than there are nodes, and then no
  cycle can be reached. It returns 1 otherwise: on every graph with a cycle, but also on graphs without
  one where two arcs meet, as the diamond. It leaves the status 1 or 2 on every node it reached.
\<close>
theorem IsCyclic_correct:
  assumes "within_top (node_mem g) (node_top g)" and "a < node_top g" and "\<And>x. \<not> is_marked (node_mem g x)"
    and "card (reach (out (node_mem g)) a) < MAX_GRAPH_SIZE"
  shows "\<exists>r g'. IsCyclic (Some a) g = Inr (r, g') \<and> r \<in> {0, 1} \<and>
    (r = 0 \<longleftrightarrow> (\<Sum>x\<in>reach (out (node_mem g)) a. length (destinationArcs (node_mem g x))) < card (reach (out (node_mem g)) a)) \<and>
    (r = 0 \<longrightarrow> (\<forall>x\<in>reach (out (node_mem g)) a. (x, x) \<notin> {(u, v). v \<in> out (node_mem g) u}\<^sup>+)) \<and>
    (\<forall>x\<in>reach (out (node_mem g)) a. nodeStatus (node_mem g' x) \<in> {1, 2})"
proof -
  let ?R = "reach (out (node_mem g)) a"
  let ?len = "\<lambda>x. length (destinationArcs (node_mem g x))"
  from IsCyclic_wp [OF assms] obtain r g' where run: "IsCyclic (Some a) g = Inr (r, g')"
    and r: "r = (if sum ?len ?R < card ?R then 0 else 1)" and st: "\<forall>x\<in>?R. nodeStatus (node_mem g' x) \<in> {1, 2}"
    by (auto simp: wp_run)
  have fin: "finite ?R" using reach_finite [OF assms(1,2)] finite_subset by blast
  have "sum (\<lambda>x. card (out (node_mem g) x)) ?R \<le> sum ?len ?R"
    by (rule sum_mono) (metis out_def card_image_le card_length le_trans List.finite_set)
  then have "\<forall>x\<in>?R. (x, x) \<notin> {(u, v). v \<in> out (node_mem g) u}\<^sup>+" if "sum ?len ?R < card ?R"
    using few_arcs_acyclic [OF fin] that by auto
  with run r st show ?thesis by auto
qed

theorem IsCyclic_witness:
  "\<exists>g'. IsCyclic (Some 0) diamond = Inr (1, g') \<and> (\<forall>x. (x, x) \<notin> {(u, v). v \<in> out diamond_mem u}\<^sup>+)"
proof -
  from IsCyclic_correct [of diamond 0] obtain r g' where "IsCyclic (Some 0) diamond = Inr (r, g')" "r \<in> {0, 1}"
    "r = 0 \<longleftrightarrow> (\<Sum>x\<in>{0, 1, 2, 3}. length (destinationArcs (diamond_mem x))) < card {0, 1, 2, 3 :: nat}"
    using within_diamond by (auto simp: reach_diamond MAX_GRAPH_SIZE_def)
  moreover have "\<not> (\<Sum>x\<in>{0, 1, 2, 3}. length (destinationArcs (diamond_mem x))) < card {0, 1, 2, 3 :: nat}"
    by (simp add: arcs_diamond)
  ultimately show ?thesis using diamond_no_cycle by blast
qed

text \<open>
  C12. The arcs as a set of triples: \<open>ConnectNodes\<close> inserts one, \<open>DisconnectNodes\<close> deletes one, \<open>FindDestArc\<close> and
  \<open>FindSrcArc\<close> look one up and agree. The lists at the two ends of an arc stay in step and inside the
  graph \<open>N\<close>, and
  disconnecting nodes that were just connected restores the memory.
\<close>
theorem arcs_refine:
  assumes "linked N (node_mem g)" and "s \<in> N" and "d \<in> N"
  shows "(\<exists>g1. ConnectNodes (Some s) (Some d) ty g = Inr ((), g1) \<and> linked N (node_mem g1) \<and>
      (\<forall>s' d' ty'. has_arc (node_mem g1) s' d' ty' \<longleftrightarrow> (s', d', ty') = (s, d, ty) \<or> has_arc (node_mem g) s' d' ty') \<and>
      (has_arc (node_mem g) s d ty \<or> (\<exists>g2. DisconnectNodes s d ty g1 = Inr ((), g2) \<and> node_mem g2 = node_mem g))) \<and>
    (\<exists>g1. DisconnectNodes s d ty g = Inr ((), g1) \<and> linked N (node_mem g1) \<and>
      (\<forall>s' d' ty'. has_arc (node_mem g1) s' d' ty' \<longleftrightarrow> (s', d', ty') \<noteq> (s, d, ty) \<and> has_arc (node_mem g) s' d' ty')) \<and>
    FindDestArc s d ty g = Inr (if has_arc (node_mem g) s d ty then Some (the_arc s d ty) else None, g) \<and>
    FindSrcArc s d ty g = FindDestArc s d ty g"
proof (intro conjI)
  show "\<exists>g1. ConnectNodes (Some s) (Some d) ty g = Inr ((), g1) \<and> linked N (node_mem g1) \<and>
      (\<forall>s' d' ty'. has_arc (node_mem g1) s' d' ty' \<longleftrightarrow> (s', d', ty') = (s, d, ty) \<or> has_arc (node_mem g) s' d' ty') \<and>
      (has_arc (node_mem g) s d ty \<or> (\<exists>g2. DisconnectNodes s d ty g1 = Inr ((), g2) \<and> node_mem g2 = node_mem g))"
    using linked_join [OF assms, of ty] assms
    by (auto simp: ConnectNodes_run [OF assms] has_arc_join DisconnectNodes_run [where N = N] cut_join)
qed (use linked_cut [OF assms(1)] in \<open>auto simp: DisconnectNodes_run [OF assms] has_arc_cut [OF assms(1,2)] FindArc_run [OF assms]\<close>)

theorem arcs_refine_witness: "\<exists>g1 g2. ConnectNodes (Some 3) (Some 0) 1 diamond = Inr ((), g1) \<and> has_arc (node_mem g1) 3 0 1 \<and>
  DisconnectNodes 3 0 1 g1 = Inr ((), g2) \<and> node_mem g2 = diamond_mem"
proof -
  have "\<not> has_arc diamond_mem 3 0 1" by (simp add: has_arc_def diamond_mem_def join_nodes_def blank_node_def)
  moreover have "linked {..<4} (node_mem diamond)" by (simp add: linked_diamond)
  ultimately show ?thesis using arcs_refine [of "{..<4}" diamond 3 0 1] by auto
qed

text \<open>
  C13. \<open>RemoveNodes\<close> returns exactly the nodes that can be reached to the free list, each once, and \<open>NewNode\<close> hands
  out a cleared node that is not in use: no node is handed out twice.
\<close>
theorem node_recycling:
  assumes "free_ok g"
  shows "(\<exists>a g'. NewNode g = Inr (a, g') \<and> free_ok g' \<and> a \<notin> in_use g \<and> in_use g' = insert a (in_use g) \<and>
      node_mem g' = (node_mem g)(a := blank_node)) \<and>
    (within_top (node_mem g) (node_top g) \<and> (\<forall>x. \<not> is_marked (node_mem g x)) \<and> a < node_top g \<and>
      card (reach (out (node_mem g)) a) < MAX_GRAPH_SIZE \<and> reach (out (node_mem g)) a \<subseteq> in_use g \<longrightarrow>
      (\<exists>g'. RemoveNodes (Some a) g = Inr ((), g') \<and> free_ok g' \<and> in_use g' = in_use g - reach (out (node_mem g)) a))"
proof
  from assms show "\<exists>a g'. NewNode g = Inr (a, g') \<and> free_ok g' \<and> a \<notin> in_use g \<and> in_use g' = insert a (in_use g) \<and>
      node_mem g' = (node_mem g)(a := blank_node)"
    by (rule NewNode_run) (simp add: free_ok_def in_use_def)
  show "within_top (node_mem g) (node_top g) \<and> (\<forall>x. \<not> is_marked (node_mem g x)) \<and> a < node_top g \<and>
      card (reach (out (node_mem g)) a) < MAX_GRAPH_SIZE \<and> reach (out (node_mem g)) a \<subseteq> in_use g \<longrightarrow>
      (\<exists>g'. RemoveNodes (Some a) g = Inr ((), g') \<and> free_ok g' \<and> in_use g' = in_use g - reach (out (node_mem g)) a)"
  proof (intro impI, elim conjE)
    assume *: "within_top (node_mem g) (node_top g)" "\<forall>x. \<not> is_marked (node_mem g x)" "a < node_top g"
      "card (reach (out (node_mem g)) a) < MAX_GRAPH_SIZE" "reach (out (node_mem g)) a \<subseteq> in_use g"
    show "\<exists>g'. RemoveNodes (Some a) g = Inr ((), g') \<and> free_ok g' \<and> in_use g' = in_use g - reach (out (node_mem g)) a"
      by (rule RemoveNodes_run [OF *(1,3) _ *(4) assms *(5)]) (use *(2) in \<open>auto simp: free_ok_def in_use_def\<close>)
  qed
qed

theorem node_recycling_witness:
  "\<exists>g' a g''. RemoveNodes (Some 0) diamond = Inr ((), g') \<and> in_use g' = {} \<and> NewNode g' = Inr (a, g'') \<and> in_use g'' = {a}"
proof -
  have f: "free_ok diamond" "in_use diamond = {0, 1, 2, 3}" by (auto simp: free_ok_def in_use_def)
  from node_recycling [OF f(1), of 0] obtain g' where g': "RemoveNodes (Some 0) diamond = Inr ((), g')" "free_ok g'" "in_use g' = {}"
    using within_diamond f(2) by (auto simp: reach_diamond MAX_GRAPH_SIZE_def)
  with node_recycling [OF g'(2), of 0] show ?thesis by auto
qed

end
