(* ===== verification/Fixpoint.thy ===== *)
theory Fixpoint
  imports Set_Interface
begin

text \<open>
  Round-robin iteration over sets, as the analyses of \<open>src/src/library/libflow/dataflow.c\<close> do it.

  The locale \<open>chain\<close> is the contract of the order the sets move in: upwards for the analyses that
  start from few elements and join, downwards for those that start from all and intersect.
  A \<open>rank\<close> that falls with every strict step bounds the number of rounds. The lemmas of the
  locale carry one update of one node through the invariant of the iteration, and \<open>stable_wp\<close> a step that
  recomputes one node through the loop; the two interpretations give the two directions.
\<close>

text \<open>
  The loop of an analysis. A step recomputes the node \<open>a\<close>: its entry in the table \<open>tab\<close> from \<open>F\<close>, and its entry in a second table \<open>ti\<close>
  from \<open>J\<close>; it counts a change of the first. \<open>P\<close> is what the steps keep.
\<close>

definition recomputes ::
  "('s \<Rightarrow> bool) \<Rightarrow> ('s \<Rightarrow> nat \<Rightarrow> int set) \<Rightarrow> ('s \<Rightarrow> nat \<Rightarrow> int set) \<Rightarrow> nat list \<Rightarrow> (nat \<Rightarrow> nat) \<Rightarrow> (nat \<Rightarrow> (nat \<Rightarrow> int set) \<Rightarrow> int set) \<Rightarrow>
   (nat \<Rightarrow> (nat \<Rightarrow> int set) \<Rightarrow> int set) \<Rightarrow> (nat \<Rightarrow> int \<Rightarrow> ('s, int) prog) \<Rightarrow> bool" where
  "recomputes P ti tab ns idf F J step = (\<forall>a\<in>set ns. \<forall>c g. P g \<longrightarrow>
     wp (step a c) (\<lambda>c' g'. P g' \<and>
       tab g' = (tab g)(idf a := F a (tab g)) \<and>
       ti g' = (ti g)(idf a := J a (tab g)) \<and>
       c' = (if tab g (idf a) = F a (tab g) then c else c + 1)) g)"

locale chain =
  fixes le :: "int set \<Rightarrow> int set \<Rightarrow> bool"
    and bounded_by :: "int set \<Rightarrow> bool"
    and rank :: "int set \<Rightarrow> nat"
  assumes le_refl: "le A A"
    and le_trans: "le A B \<Longrightarrow> le B C \<Longrightarrow> le A C"
    and le_antisym: "le A B \<Longrightarrow> le B A \<Longrightarrow> A = B"
    and rank_less: "le A B \<Longrightarrow> A \<noteq> B \<Longrightarrow> bounded_by A \<Longrightarrow> bounded_by B \<Longrightarrow> rank B < rank A"
begin

text \<open>
  The nodes \<open>ns\<close> have the identifiers \<open>idf\<close>; \<open>F a D\<close> is the new value of node \<open>a\<close> when \<open>D\<close> is the
  table of values.
\<close>

definition mono_on :: "nat list \<Rightarrow> (nat \<Rightarrow> nat) \<Rightarrow> (nat \<Rightarrow> (nat \<Rightarrow> int set) \<Rightarrow> int set) \<Rightarrow> bool" where
  "mono_on ns idf F = (\<forall>a\<in>set ns. \<forall>D D'. (\<forall>b\<in>set ns. le (D (idf b)) (D' (idf b))) \<longrightarrow> le (F a D) (F a D'))"

definition closed_on :: "nat list \<Rightarrow> (nat \<Rightarrow> nat) \<Rightarrow> (nat \<Rightarrow> (nat \<Rightarrow> int set) \<Rightarrow> int set) \<Rightarrow> bool" where
  "closed_on ns idf F = (\<forall>a\<in>set ns. \<forall>D. (\<forall>b\<in>set ns. bounded_by (D (idf b))) \<longrightarrow> bounded_by (F a D))"

definition advancing :: "nat list \<Rightarrow> (nat \<Rightarrow> nat) \<Rightarrow> (nat \<Rightarrow> (nat \<Rightarrow> int set) \<Rightarrow> int set) \<Rightarrow> (nat \<Rightarrow> int set) \<Rightarrow> bool" where
  "advancing ns idf F D = (\<forall>a\<in>set ns. le (D (idf a)) (F a D) \<and> bounded_by (D (idf a)))"

definition before :: "nat list \<Rightarrow> (nat \<Rightarrow> nat) \<Rightarrow> (nat \<Rightarrow> int set) \<Rightarrow> (nat \<Rightarrow> int set) \<Rightarrow> bool" where
  "before ns idf D D' = (\<forall>a\<in>set ns. le (D (idf a)) (D' (idf a)))"

definition total_rank :: "nat list \<Rightarrow> (nat \<Rightarrow> nat) \<Rightarrow> (nat \<Rightarrow> int set) \<Rightarrow> nat" where
  "total_rank ns idf D = sum_list (map (\<lambda>a. rank (D (idf a))) ns)"

definition solution :: "nat list \<Rightarrow> (nat \<Rightarrow> nat) \<Rightarrow> (nat \<Rightarrow> (nat \<Rightarrow> int set) \<Rightarrow> int set) \<Rightarrow> (nat \<Rightarrow> int set) \<Rightarrow> bool" where
  "solution ns idf F S = (\<forall>a\<in>set ns. S (idf a) = F a S)"

lemma before_refl: "before ns idf D D"
  by (simp add: before_def le_refl)

lemma before_trans: "before ns idf D D' \<Longrightarrow> before ns idf D' D'' \<Longrightarrow> before ns idf D D''"
  by (auto simp: before_def intro: le_trans)

lemma before_update:
  "le (D (idf a)) X \<Longrightarrow> before ns idf D (D(idf a := X))"
  by (auto simp: before_def le_refl)

lemma advancing_update:
  assumes F: "mono_on ns idf F" "closed_on ns idf F" and inj: "inj_on idf (set ns)"
    and D: "advancing ns idf F D" and a: "a \<in> set ns"
  shows "advancing ns idf F (D(idf a := F a D))"
proof -
  let ?D = "D(idf a := F a D)"
  have le: "le (D (idf a)) (F a D)" using D a by (simp add: advancing_def)
  have up: "le (F b D) (F b ?D)" if "b \<in> set ns" for b
    using F(1) that before_update [of D idf a "F a D" ns] le by (simp add: mono_on_def before_def)
  have "bounded_by (F a D)" using F(2) D a by (auto simp: closed_on_def advancing_def)
  moreover have "le (?D (idf b)) (F b ?D)" if b: "b \<in> set ns" for b
  proof (cases "b = a")
    case True
    with up [OF a] show ?thesis by simp
  next
    case False
    with inj a b have "idf b \<noteq> idf a" by (auto simp: inj_on_def)
    with D b up [OF b] show ?thesis by (auto simp: advancing_def intro: le_trans)
  qed
  ultimately show ?thesis using D by (auto simp: advancing_def)
qed

lemma solution_update:
  assumes "mono_on ns idf F" "solution ns idf F S" "before ns idf D S" "a \<in> set ns"
  shows "before ns idf (D(idf a := F a D)) S"
proof -
  have "le (F a D) (F a S)" using assms by (auto simp: mono_on_def before_def)
  with assms(2,4) have "le (F a D) (S (idf a))" by (simp add: solution_def)
  with assms(3) show ?thesis by (auto simp: before_def)
qed

lemma rank_le: "le A B \<Longrightarrow> bounded_by A \<Longrightarrow> bounded_by B \<Longrightarrow> rank B \<le> rank A"
  using rank_less [of A B] by (cases "A = B") auto

lemma total_rank_before:
  assumes "before ns idf D D'" "\<forall>a\<in>set ns. bounded_by (D (idf a)) \<and> bounded_by (D' (idf a))"
  shows "total_rank ns idf D' \<le> total_rank ns idf D"
  unfolding total_rank_def
  by (rule sum_list_mono) (use assms rank_le in \<open>auto simp: before_def\<close>)

lemma total_rank_update:
  assumes D: "advancing ns idf F D" and F: "closed_on ns idf F" and a: "a \<in> set ns" "F a D \<noteq> D (idf a)"
  shows "total_rank ns idf (D(idf a := F a D)) < total_rank ns idf D"
proof -
  let ?D = "D(idf a := F a D)"
  have wa: "bounded_by (F a D)" "le (D (idf a)) (F a D)" "bounded_by (D (idf a))"
    using F D a by (auto simp: closed_on_def advancing_def)
  obtain xs ys where ns: "ns = xs @ a # ys" using a(1) by (meson split_list)
  have le: "total_rank zs idf ?D \<le> total_rank zs idf D" if "set zs \<subseteq> set ns" for zs
    using that D wa by (intro total_rank_before before_update) (auto simp: advancing_def)
  have "rank (F a D) < rank (D (idf a))" using wa a(2) by (intro rank_less) auto
  moreover have "total_rank xs idf ?D \<le> total_rank xs idf D" "total_rank ys idf ?D \<le> total_rank ys idf D"
    by (rule le, auto simp: ns)+
  ultimately show ?thesis by (simp add: ns total_rank_def)
qed

text \<open>The state of a round that began with the table \<open>D0\<close> and has handled \<open>k\<close> nodes.\<close>

definition round_inv ::
  "('s \<Rightarrow> bool) \<Rightarrow> ('s \<Rightarrow> nat \<Rightarrow> int set) \<Rightarrow> ('s \<Rightarrow> nat \<Rightarrow> int set) \<Rightarrow> nat list \<Rightarrow> (nat \<Rightarrow> nat) \<Rightarrow> (nat \<Rightarrow> (nat \<Rightarrow> int set) \<Rightarrow> int set) \<Rightarrow>
   (nat \<Rightarrow> (nat \<Rightarrow> int set) \<Rightarrow> int set) \<Rightarrow> (nat \<Rightarrow> int set) set \<Rightarrow> (nat \<Rightarrow> int set) \<Rightarrow> nat \<Rightarrow> int \<Rightarrow> 's \<Rightarrow> bool" where
  "round_inv P ti tab ns idf F J SS D0 k c g = (P g \<and> advancing ns idf F (tab g) \<and>
     (\<forall>S\<in>SS. before ns idf (tab g) S) \<and> before ns idf D0 (tab g) \<and> 0 \<le> c \<and>
     (if c = 0 then tab g = D0 \<and>
        (\<forall>j<k. D0 (idf (ns ! j)) = F (ns ! j) D0 \<and> ti g (idf (ns ! j)) = J (ns ! j) D0)
      else total_rank ns idf (tab g) < total_rank ns idf D0))"

lemma round_step:
  assumes F: "mono_on ns idf F" "closed_on ns idf F" and dist: "distinct (map idf ns)"
    and SS: "\<forall>S\<in>SS. solution ns idf F S"
    and inv: "round_inv P ti tab ns idf F J SS D0 k c g" and k: "k < length ns"
    and g': "P g'" "tab g' = (tab g)(idf (ns ! k) := F (ns ! k) (tab g))"
      "ti g' = (ti g)(idf (ns ! k) := J (ns ! k) (tab g))"
    and c': "c' = (if tab g (idf (ns ! k)) = F (ns ! k) (tab g) then c else c + 1)"
  shows "round_inv P ti tab ns idf F J SS D0 (Suc k) c' g'"
proof -
  let ?D = "tab g" and ?a = "ns ! k"
  have a: "?a \<in> set ns" using k by simp
  have inj: "inj_on idf (set ns)" using dist by (simp add: distinct_map)
  have adv: "advancing ns idf F ?D" and c0: "0 \<le> c" using inv by (auto simp: round_inv_def)
  have adv': "advancing ns idf F (tab g')"
    unfolding g'(2) by (rule advancing_update [OF F inj adv a])
  have below: "before ns idf (tab g') S" if "S \<in> SS" for S
    unfolding g'(2) using that inv SS by (intro solution_update [OF F(1) _ _ a]) (auto simp: round_inv_def)
  have "before ns idf ?D (tab g')"
    unfolding g'(2) using adv a by (intro before_update) (simp add: advancing_def)
  then have past: "before ns idf D0 (tab g')"
    using inv by (auto simp: round_inv_def intro: before_trans)
  have keep: "idf (ns ! j) \<noteq> idf ?a" if "j < k" for j
    using that k dist by (auto simp: distinct_conv_nth)
  show ?thesis
  proof (cases "?D (idf ?a) = F ?a ?D")
    case True
    then have same: "tab g' = ?D" by (auto simp: g'(2) fun_eq_iff)
    have "ti g' (idf (ns ! j)) = J (ns ! j) D0" if "c = 0" "j < Suc k" for j
      using that inv keep [of j] by (cases "j = k") (auto simp: g'(3) round_inv_def)
    moreover have "D0 (idf (ns ! j)) = F (ns ! j) D0" if "c = 0" "j < Suc k" for j
      using that inv True by (cases "j = k") (auto simp: round_inv_def)
    ultimately show ?thesis
      using inv True adv' below past g'(1) unfolding round_inv_def c' same by (auto split: if_splits)
  next
    case False
    then have "total_rank ns idf (tab g') < total_rank ns idf ?D"
      unfolding g'(2) by (intro total_rank_update [OF adv F(2) a]) auto
    moreover have "total_rank ns idf ?D \<le> total_rank ns idf D0"
      using inv by (auto simp: round_inv_def split: if_splits)
    ultimately show ?thesis
      using False adv' below past g'(1) c0 by (simp add: round_inv_def c')
  qed
qed

lemma round_wp:
  assumes F: "mono_on ns idf F" "closed_on ns idf F" and dist: "distinct (map idf ns)"
    and SS: "\<forall>S\<in>SS. solution ns idf F S" and step: "recomputes P ti tab ns idf F J step"
    and g: "P g" "advancing ns idf F (tab g)" "\<forall>S\<in>SS. before ns idf (tab g) S"
  shows "wp (for_each step ns 0) (round_inv P ti tab ns idf F J SS (tab g) (length ns)) g"
proof (rule wp_for_each [where I = "round_inv P ti tab ns idf F J SS (tab g)"])
  show "round_inv P ti tab ns idf F J SS (tab g) 0 0 g" using g by (simp add: round_inv_def before_refl)
  fix k c h
  assume k: "k < length ns" and inv: "round_inv P ti tab ns idf F J SS (tab g) k c h"
  then have "P h" by (simp add: round_inv_def)
  with step k have "wp (step (ns ! k) c) (\<lambda>c' g'. P g' \<and>
       tab g' = (tab h)(idf (ns ! k) := F (ns ! k) (tab h)) \<and>
       ti g' = (ti h)(idf (ns ! k) := J (ns ! k) (tab h)) \<and>
       c' = (if tab h (idf (ns ! k)) = F (ns ! k) (tab h) then c else c + 1)) h"
    by (simp add: recomputes_def)
  then show "wp (step (ns ! k) c) (round_inv P ti tab ns idf F J SS (tab g) (Suc k)) h"
    by (rule wp_mono) (use round_step [OF F dist SS inv k] in blast)
qed

theorem stable_wp:
  assumes F: "mono_on ns idf F" "closed_on ns idf F" and dist: "distinct (map idf ns)"
    and SS: "\<forall>S\<in>SS. solution ns idf F S \<and> before ns idf (tab g) S"
    and step: "recomputes P ti tab ns idf F J step"
    and g: "P g" "advancing ns idf F (tab g)"
  shows "wp (bnd (while_prog (\<lambda>change. change \<noteq> 0) (\<lambda>_. for_each step ns 0) 1) (\<lambda>_. ret ())) (\<lambda>_ g'. P g' \<and> solution ns idf F (tab g') \<and>
      (\<forall>a\<in>set ns. ti g' (idf a) = J a (tab g') \<and> bounded_by (tab g' (idf a))) \<and>
      (\<forall>S\<in>SS. before ns idf (tab g') S) \<and> before ns idf (tab g) (tab g')) g"
proof -
  let ?I = "\<lambda>(c :: int) h. P h \<and> advancing ns idf F (tab h) \<and>
      before ns idf (tab g) (tab h) \<and>
      (\<forall>S\<in>SS. before ns idf (tab h) S) \<and> (c = 0 \<longrightarrow> (\<forall>j<length ns.
        tab h (idf (ns ! j)) = F (ns ! j) (tab h) \<and>
        ti h (idf (ns ! j)) = J (ns ! j) (tab h)))"
  let ?r = "measure (\<lambda>(c :: int, h). 2 * total_rank ns idf (tab h) + (if c = 0 then 0 else 1))"
  have "wp (while_prog (\<lambda>c. c \<noteq> 0) (\<lambda>_. for_each step ns 0) 1) (\<lambda>c h. ?I c h \<and> c = 0) g"
  proof (rule wp_while_prog [where I = ?I and r = ?r])
    show "?I 1 g" using g SS by (simp add: before_refl)
    fix c h assume I: "?I c h" and "c \<noteq> (0 :: int)"
    have "wp (for_each step ns 0) (round_inv P ti tab ns idf F J SS (tab h) (length ns)) h"
      by (rule round_wp [OF F dist _ step]) (use I SS in auto)
    then show "wp (for_each step ns 0) (\<lambda>c' h'. ?I c' h' \<and> ((c', h'), c, h) \<in> ?r) h"
      by (rule wp_mono) (use \<open>c \<noteq> 0\<close> I in \<open>auto simp: round_inv_def intro: before_trans split: if_splits\<close>)
  qed auto
  then show ?thesis
    unfolding wp_bnd wp_ret
    by (rule wp_mono) (auto simp: solution_def advancing_def in_set_conv_nth)
qed

end

interpretation upward: chain "(\<subseteq>)" "\<lambda>A. A \<subseteq> {0..<16384}" "\<lambda>A. 16384 - card A"
proof
  fix A B :: "int set"
  assume "A \<subseteq> B" "A \<noteq> B" "B \<subseteq> {0..<16384}"
  then have "card A < card B" and "card B \<le> 16384"
    using psubset_card_mono [of B A] card_mono [of "{0..<16384 :: int}" B]
    by (auto intro: finite_subset)
  then show "16384 - card B < 16384 - card A" by simp
qed auto

interpretation downward: chain "(\<supseteq>)" "\<lambda>A. A \<subseteq> {0..<16384}" card
  by unfold_locales (auto intro!: psubset_card_mono intro: finite_subset)

end
