(* ===== verification/Dataflow.thy ===== *)
theory Dataflow
  imports Graph Fixpoint
begin

text \<open>
  The dataflow analyses, \<open>src/src/library/libflow/dataflow.c\<close> and \<open>dataflow.h\<close>: the tables of nodes
  and registers, the functions that build the flow graph, and the five analyses.

  The tables \<open>nodes\<close> and \<open>regs\<close> are functions from an index; every access checks the index against
  the size of the array and faults outside of it. A field of a node that holds a set is named
  by \<open>nfield\<close>, with \<open>fld\<close> to read and \<open>fld_upd\<close> to write it. The pointer \<open>nodeExt\<close> of a graph node
  into the table is the index it points to. The fragments that the analyses repeat are
  definitions of their own: \<open>join_arcs\<close> folds a field over the arcs of a node, \<open>gen_kill\<close>
  computes \<open>gen + (in - kill)\<close>, \<open>see_change\<close> compares two sets by two subtractions and \<open>put_field\<close>
  stores a set and disposes of the one it replaces.
\<close>

section \<open>Data\<close>

record I_Node =
  nd_id :: int
  dest_reg :: Set
  src_reg :: Set
  gen :: Set
  kill :: Set
  use :: Set
  def :: Set
  e_in :: Set
  e_out :: Set
  a_in :: Set
  a_out :: Set
  v_in :: Set
  v_out :: Set
  nd_dom :: Set
  post_dom :: Set
  nd_defined :: int

record I_Reg =
  e_def :: Set
  e_use :: Set
  rg_defined :: int

record df = graph_lib +
  nodes_defined :: int
  nodes :: "nat \<Rightarrow> I_Node"
  regs :: "nat \<Rightarrow> I_Reg"
  df_graph :: "FGraph option"
  cur_node :: "nat option"
  entry :: "nat option"

datatype nfield = Dest_reg | Src_reg | Gen | Kill | Use | Def | E_in | E_out | A_in | A_out
  | V_in | V_out | Dom | Post_dom

fun fld :: "nfield \<Rightarrow> I_Node \<Rightarrow> Set" where
  "fld Dest_reg = dest_reg"
| "fld Src_reg = src_reg"
| "fld Gen = gen"
| "fld Kill = kill"
| "fld Use = use"
| "fld Def = def"
| "fld E_in = e_in"
| "fld E_out = e_out"
| "fld A_in = a_in"
| "fld A_out = a_out"
| "fld V_in = v_in"
| "fld V_out = v_out"
| "fld Dom = nd_dom"
| "fld Post_dom = post_dom"

fun fld_upd :: "nfield \<Rightarrow> Set \<Rightarrow> I_Node \<Rightarrow> I_Node" where
  "fld_upd Dest_reg x n = n\<lparr>dest_reg := x\<rparr>"
| "fld_upd Src_reg x n = n\<lparr>src_reg := x\<rparr>"
| "fld_upd Gen x n = n\<lparr>gen := x\<rparr>"
| "fld_upd Kill x n = n\<lparr>kill := x\<rparr>"
| "fld_upd Use x n = n\<lparr>use := x\<rparr>"
| "fld_upd Def x n = n\<lparr>def := x\<rparr>"
| "fld_upd E_in x n = n\<lparr>e_in := x\<rparr>"
| "fld_upd E_out x n = n\<lparr>e_out := x\<rparr>"
| "fld_upd A_in x n = n\<lparr>a_in := x\<rparr>"
| "fld_upd A_out x n = n\<lparr>a_out := x\<rparr>"
| "fld_upd V_in x n = n\<lparr>v_in := x\<rparr>"
| "fld_upd V_out x n = n\<lparr>v_out := x\<rparr>"
| "fld_upd Dom x n = n\<lparr>nd_dom := x\<rparr>"
| "fld_upd Post_dom x n = n\<lparr>post_dom := x\<rparr>"

definition MAX_NODE_ID :: int where
  "MAX_NODE_ID = 16 * 1024"

definition MAX_REG_ID :: int where
  "MAX_REG_ID = 16 * 1024"

definition GOOD_ID :: "int \<Rightarrow> bool" where
  "GOOD_ID i = (i \<ge> 0 \<and> i < MAX_NODE_ID)"

definition GOOD_REG_ID :: "int \<Rightarrow> bool" where
  "GOOD_REG_ID i = (i \<ge> 0 \<and> i < MAX_REG_ID)"

type_synonym 'a df_prog = "(df, 'a) prog"

text \<open>\<open>punt\<close> of \<open>dataflow.c\<close>: a message, then \<open>exit (-1)\<close>.\<close>

definition df_punt :: "string \<Rightarrow> 'a df_prog" where
  "df_punt mesg = fail (Punt mesg)"

section \<open>The tables\<close>

definition nd_get :: "int \<Rightarrow> I_Node df_prog" where
  "nd_get i = (if GOOD_ID i then gets (\<lambda>g. nodes g (nat i)) else fail Out_Of_Bounds)"

definition nd_put :: "int \<Rightarrow> (I_Node \<Rightarrow> I_Node) \<Rightarrow> unit df_prog" where
  "nd_put i f = (if GOOD_ID i
     then modify (\<lambda>g. g\<lparr>nodes := (nodes g)(nat i := f (nodes g (nat i)))\<rparr>) else fail Out_Of_Bounds)"

definition rg_get :: "int \<Rightarrow> I_Reg df_prog" where
  "rg_get i = (if GOOD_REG_ID i then gets (\<lambda>g. regs g (nat i)) else fail Out_Of_Bounds)"

definition rg_put :: "int \<Rightarrow> (I_Reg \<Rightarrow> I_Reg) \<Rightarrow> unit df_prog" where
  "rg_put i f = (if GOOD_REG_ID i
     then modify (\<lambda>g. g\<lparr>regs := (regs g)(nat i := f (regs g (nat i)))\<rparr>) else fail Out_Of_Bounds)"

text \<open>\<open>if (nodes[i].f != 0) { Set_dispose (nodes[i].f); nodes[i].f = 0; }\<close>\<close>

definition reset_field :: "int \<Rightarrow> nfield \<Rightarrow> unit df_prog" where
  "reset_field i f =
     bnd (nd_get i) (\<lambda>n.
     if fld f n \<noteq> None
     then bnd (Set_dispose (fld f n)) (\<lambda>_. nd_put i (fld_upd f None))
     else ret ())"

definition reset_reg :: "int \<Rightarrow> unit df_prog" where
  "reset_reg i =
     bnd (rg_put i (\<lambda>r. r\<lparr>rg_defined := 0\<rparr>)) (\<lambda>_.
     bnd (rg_get i) (\<lambda>r.
     bnd (if e_def r \<noteq> None
          then bnd (Set_dispose (e_def r)) (\<lambda>_. rg_put i (\<lambda>r. r\<lparr>e_def := None\<rparr>)) else ret ()) (\<lambda>_.
     if e_use r \<noteq> None
     then bnd (Set_dispose (e_use r)) (\<lambda>_. rg_put i (\<lambda>r. r\<lparr>e_use := None\<rparr>)) else ret ())))"

text \<open>The fields that \<open>reset_nodes\<close> clears, in its order. The two dominator fields are not among them.\<close>

definition reset_fields :: "nfield list" where
  "reset_fields = [Dest_reg, Src_reg, Gen, Kill, Use, Def, E_in, E_out, A_in, A_out, V_in, V_out]"

definition reset_nodes :: "unit df_prog" where
  "reset_nodes =
     bnd (gets nodes_defined) (\<lambda>defd.
     if defd \<noteq> 0 then
       bnd (for_each (\<lambda>i _.
              bnd (nd_put i (\<lambda>n. n\<lparr>nd_defined := 0, nd_id := i\<rparr>)) (\<lambda>_.
              for_each (\<lambda>f _. reset_field i f) reset_fields ()))
            [0..MAX_NODE_ID - 1] ()) (\<lambda>_.
       for_each (\<lambda>i _. reset_reg i) [0..MAX_REG_ID - 1] ())
     else
       bnd (modify (\<lambda>g. g\<lparr>nodes_defined := 1\<rparr>)) (\<lambda>_.
       bnd (for_each (\<lambda>i _.
              nd_put i (\<lambda>n. fold (\<lambda>f n. fld_upd f None n) reset_fields (n\<lparr>nd_defined := 0, nd_id := i\<rparr>)))
            [0..MAX_NODE_ID - 1] ()) (\<lambda>_.
       for_each (\<lambda>i _. rg_put i (\<lambda>r. r\<lparr>rg_defined := 0, e_def := None, e_use := None\<rparr>))
         [0..MAX_REG_ID - 1] ())))"

definition find_df_node :: "int \<Rightarrow> nat option df_prog" where
  "find_df_node i =
     bnd (gets nodes_defined) (\<lambda>defd.
     if defd = 0 then ret None
     else if \<not> GOOD_ID i then df_punt ''find_df_node: illegal node id''
     else bnd (nd_get i) (\<lambda>n. ret (if nd_defined n = 0 then None else Some (nat i))))"

definition add_node :: "int \<Rightarrow> nat df_prog" where
  "add_node i =
     bnd (gets nodes_defined) (\<lambda>defd.
     if defd = 0 then df_punt ''add_node: need to call define_df_graph() first''
     else if \<not> GOOD_ID i then df_punt ''add_node: illegal node id''
     else bnd (nd_get i) (\<lambda>n.
          bnd (if nd_defined n = 0 then nd_put i (\<lambda>n. n\<lparr>nd_defined := 1\<rparr>) else ret ()) (\<lambda>_.
          ret (nat i))))"

definition find_df_reg :: "int \<Rightarrow> nat option df_prog" where
  "find_df_reg i =
     bnd (gets nodes_defined) (\<lambda>defd.
     if defd = 0 then ret None
     else if \<not> GOOD_REG_ID i then df_punt ''find_df_reg: illegal register id''
     else bnd (rg_get i) (\<lambda>r. ret (if rg_defined r = 0 then None else Some (nat i))))"

definition add_reg :: "int \<Rightarrow> nat df_prog" where
  "add_reg i =
     bnd (gets nodes_defined) (\<lambda>defd.
     if defd = 0 then df_punt ''add_reg: need to call define_df_graph() first''
     else if \<not> GOOD_REG_ID i then df_punt ''add_reg: illegal register id''
     else bnd (rg_get i) (\<lambda>r.
          bnd (if rg_defined r = 0 then rg_put i (\<lambda>r. r\<lparr>rg_defined := 1\<rparr>) else ret ()) (\<lambda>_.
          ret (nat i))))"

section \<open>Building the graph\<close>

definition define_df_graph :: "unit df_prog" where
  "define_df_graph =
     bnd (gets df_graph) (\<lambda>gr.
     bnd (if gr \<noteq> None
          then bnd (FreeGraph gr) (\<lambda>_. modify (\<lambda>g. g\<lparr>df_graph := None\<rparr>)) else ret ()) (\<lambda>_.
     bnd reset_nodes (\<lambda>_.
     bnd (modify (\<lambda>g. g\<lparr>cur_node := None, entry := None\<rparr>)) (\<lambda>_.
     bnd NewGraph (\<lambda>gr.
     modify (\<lambda>g. g\<lparr>df_graph := Some gr\<rparr>))))))"

text \<open>\<open>FindNode\<close>, and a new node at the end of the chain when there is none with this id.\<close>

definition find_or_add :: "FGraph \<Rightarrow> int \<Rightarrow> nat df_prog" where
  "find_or_add gr i =
     bnd (FindNode gr i) (\<lambda>n.
     case n of Some a \<Rightarrow> ret a
     | None \<Rightarrow>
         bnd NewNode (\<lambda>a.
         bnd (node_put a (\<lambda>n. n\<lparr>nodeId := i\<rparr>)) (\<lambda>_.
         bnd (modify (\<lambda>g. g\<lparr>df_graph := Some (AddNode gr a)\<rparr>)) (\<lambda>_.
         ret a))))"

definition add_df_node :: "int \<Rightarrow> unit df_prog" where
  "add_df_node i =
     bnd (gets df_graph) (\<lambda>graph.
     case graph of None \<Rightarrow> df_punt ''add_df_node: need to call define_df_graph() first''
     | Some gr \<Rightarrow>
         if \<not> GOOD_ID i then df_punt ''add_df_node: bad node id''
         else
           bnd (find_or_add gr i) (\<lambda>n.
           bnd (find_df_node i) (\<lambda>node.
           if node \<noteq> None then df_punt ''add_df_node: cannot add a node twice''
           else
             bnd (add_node i) (\<lambda>node.
             bnd (modify (\<lambda>g. g\<lparr>cur_node := Some node\<rparr>)) (\<lambda>_.
             bnd (node_put n (\<lambda>nd. nd\<lparr>nodeExt := Some node\<rparr>)) (\<lambda>_.
             modify (\<lambda>g. if entry g = None then g\<lparr>entry := Some n\<rparr> else g)))))))"

definition add_df_node_src_reg :: "int \<Rightarrow> unit df_prog" where
  "add_df_node_src_reg reg_id =
     bnd (gets df_graph) (\<lambda>graph.
     if graph = None then df_punt ''add_df_node_src_reg: need to call define_df_graph() first''
     else
       bnd (gets cur_node) (\<lambda>node.
       case node of None \<Rightarrow> df_punt ''add_df_node_src_reg: need to call add_df_node() first''
       | Some i \<Rightarrow>
           if \<not> GOOD_REG_ID reg_id then df_punt ''add_df_node_src_reg: bad register id''
           else
             bnd (add_reg reg_id) (\<lambda>r.
             bnd (nd_get (int i)) (\<lambda>n.
             bnd (Set_add (src_reg n) reg_id) (\<lambda>s.
             bnd (nd_put (int i) (fld_upd Src_reg s)) (\<lambda>_.
             bnd (rg_get reg_id) (\<lambda>rg.
             bnd (Set_add (e_use rg) (nd_id n)) (\<lambda>u.
             rg_put reg_id (\<lambda>rg. rg\<lparr>e_use := u\<rparr>)))))))))"

definition add_df_node_dest_reg :: "int \<Rightarrow> unit df_prog" where
  "add_df_node_dest_reg reg_id =
     bnd (gets df_graph) (\<lambda>graph.
     if graph = None then df_punt ''add_df_node_dest_reg: need to call define_df_graph() first''
     else
       bnd (gets cur_node) (\<lambda>node.
       case node of None \<Rightarrow> df_punt ''add_df_node_dest_reg: need to call add_df_node() first''
       | Some i \<Rightarrow>
           if \<not> GOOD_REG_ID reg_id then df_punt ''add_df_node_dest_reg: bad register id''
           else
             bnd (add_reg reg_id) (\<lambda>r.
             bnd (nd_get (int i)) (\<lambda>n.
             bnd (Set_add (dest_reg n) reg_id) (\<lambda>s.
             bnd (nd_put (int i) (fld_upd Dest_reg s)) (\<lambda>_.
             bnd (rg_get reg_id) (\<lambda>rg.
             bnd (Set_add (e_def rg) (nd_id n)) (\<lambda>u.
             rg_put reg_id (\<lambda>rg. rg\<lparr>e_def := u\<rparr>)))))))))"

definition connect_df_node :: "int \<Rightarrow> int \<Rightarrow> unit df_prog" where
  "connect_df_node src_id dest_id =
     bnd (gets df_graph) (\<lambda>graph.
     case graph of None \<Rightarrow> df_punt ''connect_df_node: need to call define_df_graph() first''
     | Some gr \<Rightarrow>
         bnd (find_or_add gr src_id) (\<lambda>n1.
         bnd (gets df_graph) (\<lambda>graph.
         case graph of None \<Rightarrow> fail Null_Deref
         | Some gr \<Rightarrow>
             bnd (find_or_add gr dest_id) (\<lambda>n2.
             ConnectNodes (Some n1) (Some n2) 0))))"

definition end_df_graph :: "unit df_prog" where
  "end_df_graph =
     bnd (gets df_graph) (\<lambda>graph.
     case graph of None \<Rightarrow> df_punt ''end_df_graph: need to call define_df_graph() first''
     | Some gr \<Rightarrow>
         bnd (gets entry) (\<lambda>ent.
         if ent = None then df_punt ''end_of_graph: empty function''
         else
           for_each (\<lambda>n _.
             bnd (node_get n) (\<lambda>nd.
             if nodeExt nd = None then df_punt ''incomplete definition: missing some nodes'' else ret ()))
           (gnodes gr) ()))"

section \<open>Shared fragments of the analyses\<close>

text \<open>\<open>temp = x; x = op (x, nodes[id].f); Set_dispose (temp)\<close> for the node at the far end of each arc.\<close>

definition join_arcs ::
  "(Set \<Rightarrow> Set \<Rightarrow> Set df_prog) \<Rightarrow> (arc \<Rightarrow> nat) \<Rightarrow> nfield \<Rightarrow> arc list \<Rightarrow> Set \<Rightarrow> Set df_prog" where
  "join_arcs op far f arcs x =
     for_each (\<lambda>arc x.
       bnd (bnd (node_get (far arc)) (\<lambda>n. bnd (nd_get (nodeId n)) (\<lambda>nd. ret (fld f nd)))) (\<lambda>s.
       bnd (op x s) (\<lambda>r.
       bnd (Set_dispose x) (\<lambda>_. ret r))))
     arcs x"

definition gen_kill :: "Set \<Rightarrow> Set \<Rightarrow> Set \<Rightarrow> Set df_prog" where
  "gen_kill gn x kl =
     bnd (Set_subtract x kl) (\<lambda>temp.
     bnd (Set_union gn temp) (\<lambda>out.
     bnd (Set_dispose temp) (\<lambda>_. ret out)))"

definition see_change :: "Set \<Rightarrow> Set \<Rightarrow> int \<Rightarrow> int df_prog" where
  "see_change old new change =
     bnd (Set_subtract old new) (\<lambda>temp.
     bnd (Set_size temp) (\<lambda>n.
     bnd (if n \<noteq> 0 then ret (change + 1, temp)
          else bnd (Set_dispose temp) (\<lambda>_.
               bnd (Set_subtract new old) (\<lambda>temp.
               bnd (Set_size temp) (\<lambda>n.
               if n \<noteq> 0 then ret (change + 1, temp) else ret (change, temp))))) (\<lambda>(change, temp).
     bnd (Set_dispose temp) (\<lambda>_. ret change))))"

definition put_field :: "int \<Rightarrow> nfield \<Rightarrow> Set \<Rightarrow> unit df_prog" where
  "put_field i f x =
     bnd (nd_get i) (\<lambda>n.
     let temp = fld f n in
     bnd (nd_put i (fld_upd f x)) (\<lambda>_.
     bnd (Set_dispose temp) (\<lambda>_. ret ())))"

text \<open>\<open>change = 1; while (change) { change = 0; for (node ...) ... }\<close>\<close>

definition until_stable :: "(nat \<Rightarrow> int \<Rightarrow> int df_prog) \<Rightarrow> nat list \<Rightarrow> unit df_prog" where
  "until_stable step ns =
     bnd (while_prog (\<lambda>change. change \<noteq> 0) (\<lambda>_. for_each step ns 0) 1) (\<lambda>_. ret ())"

section \<open>Reaching definitions\<close>

definition init_gen_kill :: "nat \<Rightarrow> unit df_prog" where
  "init_gen_kill node =
     bnd (node_get node) (\<lambda>nd.
     let i = nodeId nd in
     bnd (Set_add None i) (\<lambda>gn.
     bnd (for_each (\<lambda>reg_id df.
            bnd (rg_get reg_id) (\<lambda>r.
            if rg_defined r = 0 then ret df
            else
              bnd (nd_get i) (\<lambda>n.
              bnd (Set_in (dest_reg n) reg_id) (\<lambda>b.
              if \<not> b then ret df
              else bnd (Set_union df (e_def r)) (\<lambda>df'. bnd (Set_dispose df) (\<lambda>_. ret df'))))))
          [0..MAX_REG_ID - 1] None) (\<lambda>df.
     bnd (Set_subtract df gn) (\<lambda>kl.
     bnd (Set_dispose df) (\<lambda>_.
     bnd (nd_put i (fld_upd Gen gn)) (\<lambda>_.
     nd_put i (fld_upd Kill kl)))))))"

definition init_e_out :: "nat \<Rightarrow> unit df_prog" where
  "init_e_out node =
     bnd (node_get node) (\<lambda>nd.
     let i = nodeId nd in
     bnd (nd_get i) (\<lambda>n.
     bnd (Set_union (gen n) None) (\<lambda>out.
     nd_put i (fld_upd E_out out))))"

definition reach_step :: "nat \<Rightarrow> int \<Rightarrow> int df_prog" where
  "reach_step node change =
     bnd (node_get node) (\<lambda>nd.
     let i = nodeId nd in
     bnd (join_arcs Set_union sourceNode E_out (sourceArcs nd) None) (\<lambda>x.
     bnd (nd_get i) (\<lambda>n.
     bnd (gen_kill (gen n) x (kill n)) (\<lambda>out.
     bnd (see_change (e_out n) out change) (\<lambda>change.
     bnd (put_field i E_in x) (\<lambda>_.
     bnd (put_field i E_out out) (\<lambda>_.
     ret change)))))))"

definition reaching_definition :: "FGraph \<Rightarrow> unit df_prog" where
  "reaching_definition graph =
     bnd (for_each (\<lambda>n _. init_gen_kill n) (gnodes graph) ()) (\<lambda>_.
     bnd (for_each (\<lambda>n _. init_e_out n) (gnodes graph) ()) (\<lambda>_.
     until_stable reach_step (gnodes graph)))"

section \<open>Available expressions\<close>

definition avail_step :: "Set \<Rightarrow> nat option \<Rightarrow> nat \<Rightarrow> int \<Rightarrow> int df_prog" where
  "avail_step U ent node change =
     (if Some node = ent then ret change
      else
        bnd (node_get node) (\<lambda>nd.
        let i = nodeId nd in
        bnd (Set_union U None) (\<lambda>x.
        bnd (join_arcs Set_intersect sourceNode A_out (sourceArcs nd) x) (\<lambda>x.
        bnd (nd_get i) (\<lambda>n.
        bnd (gen_kill (gen n) x (kill n)) (\<lambda>out.
        bnd (see_change (a_out n) out change) (\<lambda>change.
        bnd (put_field i A_in x) (\<lambda>_.
        bnd (put_field i A_out out) (\<lambda>_.
        ret change)))))))))"

text \<open>\<open>ptr = nodeExt (entry); ptr->a_in = 0; ptr->a_out = Set_union (ptr->gen, 0)\<close>\<close>

definition init_avail_entry :: "nat option \<Rightarrow> unit df_prog" where
  "init_avail_entry ent =
     (case ent of None \<Rightarrow> fail Null_Deref
      | Some e \<Rightarrow>
          bnd (node_get e) (\<lambda>nd.
          case nodeExt nd of None \<Rightarrow> fail Null_Deref
          | Some p \<Rightarrow>
              bnd (nd_put (int p) (fld_upd A_in None)) (\<lambda>_.
              bnd (nd_get (int p)) (\<lambda>n.
              bnd (Set_union (gen n) None) (\<lambda>out.
              nd_put (int p) (fld_upd A_out out))))))"

definition init_avail :: "Set \<Rightarrow> nat option \<Rightarrow> nat \<Rightarrow> unit df_prog" where
  "init_avail U ent node =
     (if Some node = ent then ret ()
      else
        bnd (node_get node) (\<lambda>nd.
        let i = nodeId nd in
        bnd (nd_put i (fld_upd A_in None)) (\<lambda>_.
        bnd (nd_get i) (\<lambda>n.
        bnd (Set_subtract U (kill n)) (\<lambda>out.
        nd_put i (fld_upd A_out out))))))"

definition ud_chain :: "FGraph \<Rightarrow> nat option \<Rightarrow> unit df_prog" where
  "ud_chain graph ent =
     bnd (for_each (\<lambda>node U. bnd (node_get node) (\<lambda>nd. Set_add U (nodeId nd))) (gnodes graph) None) (\<lambda>U.
     bnd (init_avail_entry ent) (\<lambda>_.
     bnd (for_each (\<lambda>node _. init_avail U ent node) (gnodes graph) ()) (\<lambda>_.
     bnd (until_stable (avail_step U ent) (gnodes graph)) (\<lambda>_.
     bnd (Set_dispose U) (\<lambda>_. ret ())))))"

section \<open>Live variables\<close>

definition init_live :: "nat \<Rightarrow> unit df_prog" where
  "init_live node =
     bnd (node_get node) (\<lambda>nd.
     let i = nodeId nd in
     bnd (nd_get i) (\<lambda>n.
     bnd (Set_union (src_reg n) None) (\<lambda>u.
     bnd (nd_put i (fld_upd Use u)) (\<lambda>_.
     bnd (Set_union (dest_reg n) None) (\<lambda>d.
     bnd (nd_put i (fld_upd Def d)) (\<lambda>_.
     bnd (nd_put i (fld_upd V_in None)) (\<lambda>_.
     nd_put i (fld_upd V_out None))))))))"

definition live_step :: "nat \<Rightarrow> int \<Rightarrow> int df_prog" where
  "live_step node change =
     bnd (node_get node) (\<lambda>nd.
     let i = nodeId nd in
     bnd (join_arcs Set_union destinationNode V_in (destinationArcs nd) None) (\<lambda>out.
     bnd (nd_get i) (\<lambda>n.
     bnd (gen_kill (use n) out (def n)) (\<lambda>x.
     bnd (see_change (v_in n) x change) (\<lambda>change.
     bnd (put_field i V_in x) (\<lambda>_.
     bnd (put_field i V_out out) (\<lambda>_.
     ret change)))))))"

definition live_variable :: "FGraph \<Rightarrow> unit df_prog" where
  "live_variable graph =
     bnd (for_each (\<lambda>n _. init_live n) (gnodes graph) ()) (\<lambda>_.
     until_stable live_step (gnodes graph))"

section \<open>Dominators\<close>

text \<open>
  The intersection of the field \<open>f\<close> over a list of arcs: a copy of the first, NULL when there is
  none. The first loop of \<open>dominator\<close> and of \<open>post_dominator\<close> collects all ids and disposes of old
  results.
\<close>

definition meet_arcs :: "(arc \<Rightarrow> nat) \<Rightarrow> nfield \<Rightarrow> arc list \<Rightarrow> Set df_prog" where
  "meet_arcs far f arcs =
     (case arcs of [] \<Rightarrow> ret None
      | arc # rest \<Rightarrow>
          bnd (bnd (node_get (far arc)) (\<lambda>n. bnd (nd_get (nodeId n)) (\<lambda>nd. ret (fld f nd)))) (\<lambda>s.
          bnd (Set_union s None) (\<lambda>x.
          join_arcs Set_intersect far f rest x)))"

definition dom_collect :: "nfield \<Rightarrow> nat \<Rightarrow> Set \<Rightarrow> Set df_prog" where
  "dom_collect f node all =
     bnd (node_get node) (\<lambda>nd.
     let i = nodeId nd in
     bnd (nd_get i) (\<lambda>n.
     bnd (if fld f n \<noteq> None
          then bnd (Set_dispose (fld f n)) (\<lambda>x. nd_put i (fld_upd f x)) else ret ()) (\<lambda>_.
     Set_add all i)))"

definition dom_step :: "(gnode \<Rightarrow> arc list) \<Rightarrow> (arc \<Rightarrow> nat) \<Rightarrow> nfield \<Rightarrow> nat \<Rightarrow> int \<Rightarrow> int df_prog" where
  "dom_step arcs far f node change =
     bnd (node_get node) (\<lambda>nd.
     let i = nodeId nd in
     bnd (nd_get i) (\<lambda>n.
     bnd (meet_arcs far f (arcs nd)) (\<lambda>temp.
     bnd (Set_add temp i) (\<lambda>temp.
     bnd (Set_same temp (fld f n)) (\<lambda>same.
     let change = (if \<not> same then change + 1 else change) in
     bnd (nd_get i) (\<lambda>n.
     bnd (Set_dispose (fld f n)) (\<lambda>x.
     bnd (nd_put i (fld_upd f x)) (\<lambda>_.
     bnd (nd_put i (fld_upd f temp)) (\<lambda>_.
     ret change)))))))))"

text \<open>
  The second loop of \<open>dominator\<close>: the set made for the entry is lost, because the assignment of the
  copy of \<open>all\<close> is not in an \<open>else\<close> branch.
\<close>

definition dominator :: "FGraph \<Rightarrow> nat option \<Rightarrow> unit df_prog" where
  "dominator graph ent =
     bnd (for_each (dom_collect Dom) (gnodes graph) None) (\<lambda>all.
     bnd (for_each (\<lambda>node _.
            bnd (node_get node) (\<lambda>nd.
            let i = nodeId nd in
            bnd (if ent = Some node
                 then bnd (Set_add None i) (\<lambda>x. nd_put i (fld_upd Dom x)) else ret ()) (\<lambda>_.
            bnd (Set_union None all) (\<lambda>x.
            nd_put i (fld_upd Dom x)))))
          (gnodes graph) ()) (\<lambda>_.
     bnd (until_stable (dom_step sourceArcs sourceNode Dom) (gnodes graph)) (\<lambda>_.
     bnd (Set_dispose all) (\<lambda>_. ret ()))))"

definition post_dominator :: "FGraph \<Rightarrow> nat option \<Rightarrow> unit df_prog" where
  "post_dominator graph ent =
     bnd (for_each (dom_collect Post_dom) (gnodes graph) None) (\<lambda>all.
     bnd (for_each (\<lambda>node _.
            bnd (node_get node) (\<lambda>nd.
            let i = nodeId nd in
            bnd (if destinationArcs nd = [] then Set_add None i else Set_union None all) (\<lambda>x.
            nd_put i (fld_upd Post_dom x))))
          (gnodes graph) ()) (\<lambda>_.
     bnd (until_stable (dom_step destinationArcs destinationNode Post_dom) (gnodes graph)) (\<lambda>_.
     bnd (Set_dispose all) (\<lambda>_. ret ()))))"

section \<open>The driver\<close>

text \<open>Without a graph every analysis reads through a NULL pointer.\<close>

definition analyze_df_graph :: "int \<Rightarrow> unit df_prog" where
  "analyze_df_graph mode =
     bnd (gets df_graph) (\<lambda>graph.
     bnd (gets entry) (\<lambda>ent.
     case graph of
       None \<Rightarrow> if mode AND 31 = 0 then ret () else fail Null_Deref
     | Some gr \<Rightarrow>
         bnd (if mode AND 1 \<noteq> 0 then reaching_definition gr else ret ()) (\<lambda>_.
         bnd (if mode AND 2 \<noteq> 0 then ud_chain gr ent else ret ()) (\<lambda>_.
         bnd (if mode AND 4 \<noteq> 0 then live_variable gr else ret ()) (\<lambda>_.
         bnd (if mode AND 8 \<noteq> 0 then dominator gr ent else ret ()) (\<lambda>_.
         if mode AND 16 \<noteq> 0 then post_dominator gr ent else ret ()))))))"

end
