(* ===== verification/Dataflow_Tables.thy ===== *)
theory Dataflow_Tables
  imports Dataflow
begin

text \<open>
  Ownership of the sets in the tables of \<open>src/src/library/libflow/dataflow.c\<close>, and the fragments the
  analyses share.

  A \<open>key\<close> names a set-valued field of a node or of a register; \<open>handle\<close> is the set stored there
  and \<open>content\<close> what it stands for. The tables are \<open>owned\<close> when every handle is live and no two
  fields hold the same descriptor: then storing a new set and disposing of the old one can
  never free a descriptor that another field still holds. \<open>skel\<close> is everything in the state
  that the analyses do not change. A step of an analysis is \<open>recomputes\<close> for the invariant \<open>steady\<close>, and the loop
  is that of \<open>stable_wp\<close> in \<open>Fixpoint\<close>.
\<close>

section \<open>Keys and ownership\<close>

datatype key = NK nat nfield | RK nat bool

fun handle :: "df \<Rightarrow> key \<Rightarrow> Set" where
  "handle g (NK i f) = fld f (nodes g i)"
| "handle g (RK r b) = (if b then e_use (regs g r) else e_def (regs g r))"

definition content :: "df \<Rightarrow> key \<Rightarrow> int set" where
  "content g k = elems (handle g k)"

definition owned :: "df \<Rightarrow> bool" where
  owned_holds: "owned g = holds g (handle g)"

lemma owned_def: "owned g = (wf_lib g \<and> (\<forall>k. live g (handle g k)) \<and> (\<forall>k k'. k \<noteq> k' \<longrightarrow> apart (handle g k) (handle g k')))"
  by (simp add: owned_holds holds_def)

text \<open>A live set that no field holds.\<close>

definition loose :: "df \<Rightarrow> Set \<Rightarrow> bool" where
  "loose g x = (live g x \<and> (\<forall>k. apart x (handle g k)))"

definition skel :: "df \<Rightarrow> (nat \<Rightarrow> gnode) \<times> nat \<times> nat list \<times> int \<times> nat list \<times> int \<times> FGraph option \<times>
    nat option \<times> nat option \<times> (nat \<Rightarrow> int) \<times> (nat \<Rightarrow> int) \<times> (nat \<Rightarrow> int)" where
  "skel g = (node_mem g, node_top g, d_node_list g, node_count g, nd_buf g, nodes_defined g, df_graph g,
     cur_node g, entry g, \<lambda>i. nd_id (nodes g i), \<lambda>i. nd_defined (nodes g i), \<lambda>i. rg_defined (regs g i))"

lemma more_fields:
  fixes g g' :: df
  assumes "set_lib.more g' = set_lib.more g"
  shows "skel g' = skel g" "handle g' = handle g" "nodes g' = nodes g" "regs g' = regs g"
    "node_mem g' = node_mem g"
proof -
  show n: "nodes g' = nodes g" and r: "regs g' = regs g" and m: "node_mem g' = node_mem g"
    using assms by (cases g; cases g'; simp)+
  show "skel g' = skel g"
    using assms unfolding skel_def n r m by (cases g; cases g'; simp)
  show "handle g' = handle g"
  proof
    fix k show "handle g' k = handle g k" by (cases k) (simp_all add: n r)
  qed
qed

lemma grows_fields:
  fixes g g' :: df
  assumes "grows g g'"
  shows "skel g' = skel g" "handle g' = handle g" "nodes g' = nodes g" "regs g' = regs g"
    "node_mem g' = node_mem g"
proof -
  have "set_lib.more g' = set_lib.more g" using assms by (simp add: grows_def)
  note m = more_fields [OF this]
  show "skel g' = skel g" "handle g' = handle g" "nodes g' = nodes g" "regs g' = regs g"
    "node_mem g' = node_mem g" by (fact m)+
qed

lemma content_grows: "grows g g' \<Longrightarrow> content g' = content g"
  by (frule grows_fields(2)) (simp add: content_def fun_eq_iff)

lemma owned_wf: "owned g \<Longrightarrow> wf_lib g"
  by (simp add: owned_def)

lemma owned_live: "owned g \<Longrightarrow> live g (handle g k)"
  by (simp add: owned_def)

lemma owned_node: "owned g \<Longrightarrow> live g (fld f (nodes g i))"
  using owned_live [of g "NK i f"] by simp

lemma owned_reg: "owned g \<Longrightarrow> live g (e_def (regs g i))"
  using owned_live [of g "RK i False"] by simp

lemma owned_grows: "owned g \<Longrightarrow> grows g g' \<Longrightarrow> owned g'"
  by (frule grows_fields(2)) (auto simp: owned_def intro: live_grows grows_wf)

lemma loose_live: "loose g x \<Longrightarrow> live g x"
  by (simp add: loose_def)

lemma loose_grows: "loose g x \<Longrightarrow> grows g g' \<Longrightarrow> loose g' x"
  by (frule grows_fields(2)) (auto simp: loose_def intro: live_grows)

lemma loose_made:
  assumes "owned g" "lib.made g X x g'"
  shows "loose g' x" "owned g'" "grows g g'" "elems x = X" "live g y \<Longrightarrow> apart x y"
proof -
  have m: "grows g g'" "live g' x" "made_after g x" "elems x = X"
    using assms(2) by (auto simp: lib.made_def)
  then show "grows g g'" "elems x = X" "owned g'"
    using owned_grows [OF assms(1)] by auto
  have a: "apart x y" if "live g y" for y
    using that m(3) by (auto intro: apart_sym apart_made_after)
  then show "live g y \<Longrightarrow> apart x y" .
  show "loose g' x"
    using m(2) a owned_live [OF assms(1)] by (simp add: loose_def grows_fields [OF m(1)])
qed

lemma loose_None [simp]: "loose g None"
  by (simp add: loose_def)

text \<open>The state seen by the set library does not depend on the tables.\<close>

lemma lib_upd [simp]:
  "wf_lib (g\<lparr>nodes := N\<rparr>) = wf_lib g" "live (g\<lparr>nodes := N\<rparr>) = live g"
  "wf_lib (g\<lparr>regs := R\<rparr>) = wf_lib g" "live (g\<lparr>regs := R\<rparr>) = live g"
  by (simp_all add: wf_lib_def live_def fun_eq_iff split: option.split)

lemma fld_fld_upd [simp]: "fld f (fld_upd f' x n) = (if f = f' then x else fld f n)"
  by (cases f; cases f'; simp)

lemma fld_upd_flags [simp]: "nd_id (fld_upd f x n) = nd_id n" "nd_defined (fld_upd f x n) = nd_defined n"
  by (cases f; simp)+

lemma handle_nodes_upd:
  "handle (g\<lparr>nodes := (nodes g)(i := fld_upd f x (nodes g i))\<rparr>) = (handle g)(NK i f := x)"
proof
  fix k show "handle (g\<lparr>nodes := (nodes g)(i := fld_upd f x (nodes g i))\<rparr>) k = ((handle g)(NK i f := x)) k"
    by (cases k) auto
qed

lemma skel_nodes_upd: "skel (g\<lparr>nodes := (nodes g)(i := fld_upd f x (nodes g i))\<rparr>) = skel g"
  by (auto simp: skel_def fun_eq_iff)

section \<open>Storing a set\<close>

text \<open>After \<open>x\<close> was stored under \<open>k\<close> and the set that was there was freed.\<close>

lemma stored:
  fixes g g1 g2 :: df
  assumes own: "owned g" and x: "loose g x"
    and g1: "handle g1 = (handle g)(k := x)" "SetId g1 = SetId g" "OUT g1 = OUT g"
    and fr: "freed g1 (handle g k) g2"
  shows "owned g2" "handle g2 = (handle g)(k := x)"
    "loose g y \<Longrightarrow> apart y x \<Longrightarrow> loose g2 y"
proof -
  have live1: "live g1 = live g" and wf1: "wf_lib g1 = wf_lib g"
    using g1(2,3) by (auto simp: live_def wf_lib_def fun_eq_iff split: option.split)
  have h2: "handle g2 = handle g1" using more_fields(2) [OF freed_more [OF fr]] .
  then show h: "handle g2 = (handle g)(k := x)" using g1(1) by simp
  have old: "live g1 (handle g k)" using owned_live [OF own] by (simp add: live1)
  have keep: "live g2 y" if "live g y" "apart y (handle g k)" for y
    by (rule live_freed_apart [OF _ fr]) (use that in \<open>simp_all add: live1\<close>)
  have "wf_lib g2" using wf_lib_freed [OF _ old fr] owned_wf [OF own] wf1 by simp
  moreover have "live g2 (handle g2 k')" for k'
    using own x keep by (auto simp: h owned_def loose_def)
  moreover have "apart (handle g2 k1) (handle g2 k2)" if "k1 \<noteq> k2" for k1 k2
    using that own x by (auto simp: h owned_def loose_def intro: apart_sym)
  ultimately show "owned g2" by (simp add: owned_def)
  show "loose g2 y" if "loose g y" "apart y x"
    using that keep by (auto simp: h loose_def)
qed

lemma put_field_wp:
  assumes own: "owned g" and x: "loose g x" and i: "GOOD_ID i"
    and post: "\<And>g'. owned g' \<Longrightarrow> handle g' = (handle g)(NK (nat i) f := x) \<Longrightarrow> skel g' = skel g \<Longrightarrow>
      (\<And>y. loose g y \<Longrightarrow> apart y x \<Longrightarrow> loose g' y) \<Longrightarrow> Q () g'"
  shows "wp (put_field i f x) Q g"
proof -
  let ?g1 = "g\<lparr>nodes := (nodes g)(nat i := fld_upd f x (nodes g (nat i)))\<rparr>"
  have g1: "handle ?g1 = (handle g)(NK (nat i) f := x)" "skel ?g1 = skel g"
    by (rule handle_nodes_upd, rule skel_nodes_upd)
  have "wp (Set_dispose (handle g (NK (nat i) f))) (\<lambda>_. Q ()) ?g1"
  proof (rule Set_dispose_wp)
    show "wf_lib ?g1" "live ?g1 (handle g (NK (nat i) f))"
      using owned_wf [OF own] owned_live [OF own, of "NK (nat i) f"] by simp_all
    fix g2 assume fr: "freed ?g1 (handle g (NK (nat i) f)) g2"
    note st = stored [OF own x g1(1) _ _ fr]
    show "Q () g2"
      by (rule post) (use st g1(2) more_fields(1) [OF freed_more [OF fr]] in auto)
  qed
  with i show ?thesis
    by (simp add: put_field_def nd_get_def nd_put_def Let_def)
qed

text \<open>A set stored without disposing of the old one, which is lost.\<close>

lemma nd_put_wp:
  assumes own: "owned g" and x: "loose g x" and i: "GOOD_ID i"
    and post: "\<And>g'. owned g' \<Longrightarrow> handle g' = (handle g)(NK (nat i) f := x) \<Longrightarrow> skel g' = skel g \<Longrightarrow>
      (\<And>y. loose g y \<Longrightarrow> apart y x \<Longrightarrow> loose g' y) \<Longrightarrow> Q () g'"
  shows "wp (nd_put i (fld_upd f x)) Q g"
proof -
  let ?g1 = "g\<lparr>nodes := (nodes g)(nat i := fld_upd f x (nodes g (nat i)))\<rparr>"
  have h: "handle ?g1 = (handle g)(NK (nat i) f := x)" by (rule handle_nodes_upd)
  have "owned ?g1"
    using own x by (auto simp: owned_def h loose_def intro: apart_sym)
  moreover have "loose ?g1 y" if "loose g y" "apart y x" for y
    using that by (auto simp: h loose_def)
  ultimately have "Q () ?g1" by (intro post h skel_nodes_upd) auto
  with i show ?thesis by (simp add: nd_put_def)
qed

text \<open>The old set disposed of before the field is overwritten.\<close>

lemma dispose_upd:
  fixes i :: nat and f :: nfield
  assumes own: "owned g" and x: "loose g x"
  defines "up \<equiv> \<lambda>g :: df. g\<lparr>nodes := (nodes g)(i := fld_upd f x (nodes g i))\<rparr>"
  shows "wp (Set_dispose (fld f (nodes g i))) (\<lambda>z g'. z = None \<and> owned (up g') \<and>
    handle (up g') = (handle g)(NK i f := x) \<and> skel (up g') = skel g \<and>
    (\<forall>y. loose g y \<longrightarrow> apart y x \<longrightarrow> loose (up g') y)) g"
proof (rule Set_dispose_wp [OF owned_wf [OF own] owned_node [OF own]])
  fix g2 assume fr: "freed g (fld f (nodes g i)) g2"
  note m = more_fields [OF freed_more [OF fr]]
  have fr': "freed (up g) (handle g (NK i f)) (up g2)"
    using fr m(3) by (auto simp: freed_def up_def) (cases g; cases g2; simp)
  note st = stored [OF own x handle_nodes_upd _ _ fr' [unfolded up_def], folded up_def]
  show "None = None \<and> owned (up g2) \<and> handle (up g2) = (handle g)(NK i f := x) \<and> skel (up g2) = skel g \<and>
    (\<forall>y. loose g y \<longrightarrow> apart y x \<longrightarrow> loose (up g2) y)"
    using st skel_nodes_upd [of g2 i f x] m(1) by (simp add: up_def)
qed

lemma fld_upd_upd [simp]: "fld_upd f x (fld_upd f z n) = fld_upd f x n"
  by (cases f) simp_all

lemma dispose_put_wp:
  assumes own: "owned g" and x: "loose g x" and i: "GOOD_ID i"
    and post: "\<And>g'. owned g' \<Longrightarrow> handle g' = (handle g)(NK (nat i) f := x) \<Longrightarrow> skel g' = skel g \<Longrightarrow>
      (\<And>y. loose g y \<Longrightarrow> apart y x \<Longrightarrow> loose g' y) \<Longrightarrow> Q c g'"
  shows "wp (bnd (nd_get i) (\<lambda>n. bnd (Set_dispose (fld f n)) (\<lambda>z. bnd (nd_put i (fld_upd f z)) (\<lambda>_.
    bnd (nd_put i (fld_upd f x)) (\<lambda>_. ret c))))) Q g"
  using i post by (simp add: nd_get_def nd_put_def) (rule wp_mono [OF dispose_upd [OF own x]], simp)

lemma dispose_reset_wp:
  assumes own: "owned g" and i: "GOOD_ID i"
    and post: "\<And>g'. owned g' \<Longrightarrow> handle g' = (handle g)(NK (nat i) f := None) \<Longrightarrow> skel g' = skel g \<Longrightarrow>
      (\<And>y. loose g y \<Longrightarrow> loose g' y) \<Longrightarrow> Q () g'"
  shows "wp (bnd (Set_dispose (fld f (nodes g (nat i)))) (\<lambda>z. nd_put i (fld_upd f z))) Q g"
  using i post by (simp add: nd_put_def) (rule wp_mono [OF dispose_upd [OF own loose_None]], simp)

text \<open>A set that no field holds disposed of, and added to.\<close>

lemma dispose_loose:
  assumes own: "owned g" and x: "loose g x"
  shows "wp (Set_dispose x) (\<lambda>_ g'. owned g' \<and> handle g' = handle g \<and> skel g' = skel g \<and>
    (\<forall>z. loose g z \<longrightarrow> apart z x \<longrightarrow> loose g' z)) g"
proof (rule Set_dispose_wp [OF owned_wf [OF own] loose_live [OF x]])
  fix g' assume fr: "freed g x g'"
  note m = more_fields [OF freed_more [OF fr]]
  have keep: "live g' y" if "live g y" "apart y x" for y
    by (rule live_freed_apart [OF that(1) fr that(2)])
  have "wf_lib g'" by (rule wf_lib_freed [OF owned_wf [OF own] loose_live [OF x] fr])
  then show "owned g' \<and> handle g' = handle g \<and> skel g' = skel g \<and> (\<forall>z. loose g z \<longrightarrow> apart z x \<longrightarrow> loose g' z)"
    using own x keep m by (auto simp: owned_def loose_def intro: apart_sym)
qed

lemma add_loose:
  assumes own: "owned g" and h: "loose g h" and x: "x \<noteq> INT_MIN"
  shows "wp (Set_add h x) (\<lambda>h' g'. grows g g' \<and> loose g' h' \<and> elems h' = insert x (elems h) \<and>
    (\<forall>z. live g z \<longrightarrow> apart z h \<longrightarrow> apart z h')) g"
proof (rule wp_mono [OF add_live [OF owned_wf [OF own] loose_live [OF h] x]], elim conjE)
  fix h' g' assume m: "grows g g'" "live g' h'" "elems h' = insert x (elems h)"
    "\<forall>z. live g z \<longrightarrow> apart z h \<longrightarrow> apart z h'"
  have "apart h (handle g k)" "live g (handle g k)" for k
    using h own by (auto simp: loose_def owned_def)
  with m show "grows g g' \<and> loose g' h' \<and> elems h' = insert x (elems h) \<and>
      (\<forall>z. live g z \<longrightarrow> apart z h \<longrightarrow> apart z h')"
    using apart_sym grows_fields(2) [OF m(1)] unfolding loose_def by metis
qed

text \<open>An element added to a set that a field holds.\<close>

lemma owned_put:
  fixes g g1 :: df
  assumes own: "owned g" and g1: "handle g1 = (handle g)(k := x)" "SetId g1 = SetId g" "OUT g1 = OUT g"
    and x: "live g x" "\<And>k'. k' \<noteq> k \<Longrightarrow> apart x (handle g k')"
  shows "owned g1" "content g1 = (content g)(k := elems x)"
proof -
  have "live g1 = live g" "wf_lib g1 = wf_lib g"
    using g1(2,3) by (auto simp: live_def wf_lib_def fun_eq_iff split: option.split)
  then show "owned g1" using own x by (auto simp: owned_def g1(1) intro: apart_sym)
  show "content g1 = (content g)(k := elems x)" by (simp add: content_def g1(1) fun_eq_iff)
qed

lemma add_held:
  assumes own: "owned g" and x: "x \<noteq> INT_MIN"
    and up: "\<And>h g'. handle (up h g') = (handle g')(k := h) \<and> SetId (up h g') = SetId g' \<and> OUT (up h g') = OUT g'"
  shows "wp (Set_add (handle g k) x) (\<lambda>h g'. grows g g' \<and> owned (up h g') \<and>
    content (up h g') = (content g)(k := insert x (content g k))) g"
proof (rule wp_mono [OF add_live [OF owned_wf [OF own] owned_live [OF own] x]], elim conjE)
  fix h g' assume m: "grows g g'" "live g' h" "elems h = insert x (elems (handle g k))"
    "\<forall>z. live g z \<longrightarrow> apart z (handle g k) \<longrightarrow> apart z h"
  have "apart h (handle g' k')" if "k' \<noteq> k" for k'
    using that m(4) own grows_fields(2) [OF m(1)] by (auto simp: owned_def intro: apart_sym)
  note p = owned_put [OF owned_grows [OF own m(1)], of "up h g'" k h, OF _ _ _ m(2) this]
  show "grows g g' \<and> owned (up h g') \<and> content (up h g') = (content g)(k := insert x (content g k))"
    using p m(1,3) up [of h g'] content_grows [OF m(1)] by (simp add: content_def)
qed

text \<open>Two fields of one node stored one after the other.\<close>

lemma put_two_fields:
  assumes own: "owned g" and x: "loose g x" "loose g y" "apart y x" and i: "GOOD_ID i" and f: "f1 \<noteq> f2"
    and post: "\<And>g'. owned g' \<Longrightarrow> handle g' = (handle g)(NK (nat i) f1 := x, NK (nat i) f2 := y) \<Longrightarrow>
      skel g' = skel g \<Longrightarrow> (\<And>z. loose g z \<Longrightarrow> apart z x \<Longrightarrow> apart z y \<Longrightarrow> loose g' z) \<Longrightarrow> Q c g'"
  shows "wp (bnd (put_field i f1 x) (\<lambda>_. bnd (put_field i f2 y) (\<lambda>_. ret c))) Q g"
  unfolding wp_bnd
  by (rule put_field_wp [OF own x(1) i], rule put_field_wp [OF _ _ i])
     (use x post in auto)

section \<open>The fragments\<close>

text \<open>The identifier of a graph node, as an index of the table.\<close>

definition idn :: "(nat \<Rightarrow> gnode) \<Rightarrow> nat \<Rightarrow> nat" where
  "idn m a = nat (nodeId (m a))"

lemma read_field:
  assumes "GOOD_ID (nodeId (node_mem g a))"
  shows "wp (bnd (node_get a) (\<lambda>n. bnd (nd_get (nodeId n)) (\<lambda>nd. ret (fld f nd)))) Q g =
    Q (handle g (NK (idn (node_mem g) a) f)) g"
  using assms by (simp add: node_get_def nd_get_def idn_def)

lemma join_arcs_wp:
  assumes own: "owned g" and init: "lib.made g X x g1"
    and good: "\<And>arc. arc \<in> set arcs \<Longrightarrow> GOOD_ID (nodeId (node_mem g (far arc)))"
  shows "wp (join_arcs Set_union far f arcs x)
      (lib.made g (X \<union> (\<Union>arc\<in>set arcs. content g (NK (idn (node_mem g) (far arc)) f)))) g1"
    and "wp (join_arcs Set_intersect far f arcs x)
      (lib.made g (X \<inter> (\<Inter>arc\<in>set arcs. content g (NK (idn (node_mem g) (far arc)) f)))) g1"
proof -
  let ?val = "\<lambda>arc. handle g (NK (idn (node_mem g) (far arc)) f)"
  have rd: "wp (bnd (node_get (far arc)) (\<lambda>n. bnd (nd_get (nodeId n)) (\<lambda>nd. ret (fld f nd))))
      (\<lambda>h g'. h = ?val arc \<and> g' = g2) g2" if "arc \<in> set arcs" "grows g g2" for arc g2
    using that good [of arc] grows_fields [OF that(2)] by (subst read_field) auto
  show "wp (join_arcs Set_union far f arcs x)
      (lib.made g (X \<union> (\<Union>arc\<in>set arcs. content g (NK (idn (node_mem g) (far arc)) f)))) g1"
    unfolding join_arcs_def content_def
    by (rule lib.union_loop [where val = ?val, OF rd owned_live [OF own] init])
  show "wp (join_arcs Set_intersect far f arcs x)
      (lib.made g (X \<inter> (\<Inter>arc\<in>set arcs. content g (NK (idn (node_mem g) (far arc)) f)))) g1"
    unfolding join_arcs_def content_def
    by (rule lib.intersect_loop [where val = ?val, OF rd owned_live [OF own] init])
qed

lemma gen_kill_wp:
  assumes "wf_lib g" "live g gn" "live g x" "live g kl"
  shows "wp (gen_kill gn x kl) (lib.made g (elems gn \<union> (elems x - elems kl))) g"
  unfolding gen_kill_def by (rule lib.transfer [OF assms])

lemma see_change_wp:
  assumes "wf_lib g" "live g old" "live g new"
  shows "wp (see_change old new c) (\<lambda>c' g'. grows g g' \<and> c' = (if elems old = elems new then c else c + 1)) g"
  unfolding see_change_def by (rule lib.compare [OF assms])

declare handle.simps [simp del]

section \<open>The loop of an analysis\<close>

text \<open>
  What the state keeps through the loop: the tables are owned, the skeleton and the contents
  of the fields outside of \<open>K\<close> are those of \<open>g0\<close>, and sets that no field held stay so.
\<close>

definition steady :: "key set \<Rightarrow> df \<Rightarrow> df \<Rightarrow> bool" where
  "steady K g0 g = (owned g \<and> skel g = skel g0 \<and> (\<forall>k. k \<notin> K \<longrightarrow> content g k = content g0 k) \<and>
     (\<forall>z. loose g0 z \<longrightarrow> loose g z))"

definition table :: "nfield \<Rightarrow> df \<Rightarrow> nat \<Rightarrow> int set" where
  "table f g i = content g (NK i f)"

end
