(* ===== verification/Flow_Paths.thy ===== *)
theory Flow_Paths
  imports Fixpoint
begin

text \<open>
  What flows along the paths of a graph, as the reference for the analyses of
  \<open>src/src/library/libflow/dataflow.c\<close>.

  \<open>nb a\<close> are the neighbours a value comes to \<open>a\<close> from: the predecessors in a forward analysis, the
  successors in a backward one. \<open>carried\<close> says that a value that some node generates comes to \<open>a\<close> without
  being killed on the way; \<open>carried_path\<close> states the same over paths. It is the least solution of the
  equations of the analyses that join, and its complement the greatest solution of those
  that meet.
\<close>

inductive carried ::
  "(nat \<Rightarrow> nat set) \<Rightarrow> (nat \<Rightarrow> int set) \<Rightarrow> (nat \<Rightarrow> int set) \<Rightarrow> int \<Rightarrow> nat \<Rightarrow> bool"
  for nb gn kl where
    origin: "d \<in> gn a \<Longrightarrow> carried nb gn kl d a"
  | along: "carried nb gn kl d b \<Longrightarrow> b \<in> nb a \<Longrightarrow> d \<notin> kl a \<Longrightarrow> carried nb gn kl d a"

inductive_simps carried_unfold: "carried nb gn kl d a"

text \<open>A path that starts in the first node of the list and follows \<open>nb\<close>.\<close>

fun is_path :: "(nat \<Rightarrow> nat set) \<Rightarrow> nat list \<Rightarrow> bool" where
  "is_path nb [] = False"
| "is_path nb [a] = True"
| "is_path nb (a # b # p) = (b \<in> nb a \<and> is_path nb (b # p))"

lemma path_inside: "is_path nb (a # p) \<Longrightarrow> a \<in> A \<Longrightarrow> (\<And>b. b \<in> A \<Longrightarrow> nb b \<subseteq> A) \<Longrightarrow> last (a # p) \<in> A"
proof (induction p arbitrary: a)
  case (Cons b p)
  then have "b \<in> A" "is_path nb (b # p)" by auto
  with Cons.IH [of b] Cons.prems(3) show ?case by simp
qed simp

lemma path_carried:
  "is_path nb p \<Longrightarrow> d \<in> gn (last p) \<Longrightarrow> \<forall>x\<in>set (butlast p). d \<notin> kl x \<Longrightarrow> carried nb gn kl d (hd p)"
  by (induction nb p rule: is_path.induct) (auto intro: carried.intros)

lemma carried_path:
  "carried nb gn kl d a \<longleftrightarrow>
   (\<exists>p. is_path nb (a # p) \<and> d \<in> gn (last (a # p)) \<and> (\<forall>x\<in>set (butlast (a # p)). d \<notin> kl x))"
  (is "_ \<longleftrightarrow> ?path a")
proof
  show "?path a" if "carried nb gn kl d a"
    using that
  proof induction
    case (origin d a)
    then show ?case by (intro exI [of _ "[]"]) simp
  next
    case (along d b a)
    then obtain p where "is_path nb (b # p)" "d \<in> gn (last (b # p))" "\<forall>x\<in>set (butlast (b # p)). d \<notin> kl x"
      by blast
    with along.hyps show ?case by (intro exI [of _ "b # p"]) simp
  qed
  show "carried nb gn kl d a" if "?path a"
    using that path_carried [of nb "a # _" d gn kl] by auto
qed

lemma carried_least:
  assumes "carried nb gn kl d a" "a \<in> A" "\<And>b. b \<in> A \<Longrightarrow> nb b \<subseteq> A"
    and "\<And>b. b \<in> A \<Longrightarrow> gn b \<union> ((\<Union>c\<in>nb b. D c) - kl b) \<subseteq> D b"
  shows "d \<in> D a"
  using assms(1,2)
proof induction
  case (origin d a)
  with assms(4) show ?case by blast
next
  case (along d b a)
  with assms(3,4) show ?case by blast
qed

lemma carried_fix: "{d. carried nb gn kl d a} = gn a \<union> ((\<Union>b\<in>nb a. {d. carried nb gn kl d b}) - kl a)"
  by (auto simp: carried_unfold [of nb gn kl _ a])

lemma carried_cong_imp:
  assumes "carried nb gn kl d a" "a \<in> A" "\<And>a. a \<in> A \<Longrightarrow> nb a \<subseteq> A"
    and "\<And>a. a \<in> A \<Longrightarrow> gn a = gn' a" "\<And>a. a \<in> A \<Longrightarrow> kl a = kl' a"
  shows "carried nb gn' kl' d a"
  using assms(1,2)
proof induction
  case (origin d a)
  with assms(4) show ?case by (auto intro: carried.origin)
next
  case (along d b a)
  then have "b \<in> A" using assms(3) by blast
  with along assms(5) show ?case by (auto intro: carried.along)
qed

lemma carried_cong:
  assumes "\<And>a. a \<in> A \<Longrightarrow> gn a = gn' a" "\<And>a. a \<in> A \<Longrightarrow> kl a = kl' a" "\<And>a. a \<in> A \<Longrightarrow> nb a \<subseteq> A" "a \<in> A"
  shows "carried nb gn kl d a = carried nb gn' kl' d a"
  using carried_cong_imp [of nb gn kl d a A gn' kl'] carried_cong_imp [of nb gn' kl' d a A gn kl] assms
  by auto

text \<open>The values joined and met at the far ends of the arcs, in a table indexed by identifiers.\<close>

definition join_at :: "(nat \<Rightarrow> nat) \<Rightarrow> nat set \<Rightarrow> (nat \<Rightarrow> int set) \<Rightarrow> int set" where
  "join_at idf A D = (\<Union>b\<in>A. D (idf b))"

definition meet_at :: "(nat \<Rightarrow> nat) \<Rightarrow> nat set \<Rightarrow> (nat \<Rightarrow> int set) \<Rightarrow> int set" where
  "meet_at idf A D = (\<Inter>b\<in>A. D (idf b))"

section \<open>The least solution\<close>

definition least_table :: "nat list \<Rightarrow> (nat \<Rightarrow> nat) \<Rightarrow> (nat \<Rightarrow> nat set) \<Rightarrow> (nat \<Rightarrow> int set) \<Rightarrow>
    (nat \<Rightarrow> int set) \<Rightarrow> nat \<Rightarrow> int set" where
  "least_table ns idf nb gn kl i = {d. \<exists>a\<in>set ns. idf a = i \<and> carried nb gn kl d a}"

lemma least_table_at:
  "inj_on idf (set ns) \<Longrightarrow> a \<in> set ns \<Longrightarrow> least_table ns idf nb gn kl (idf a) = {d. carried nb gn kl d a}"
  by (auto simp: least_table_def inj_on_def)

text \<open>An equation system that joins.\<close>

definition joins :: "nat list \<Rightarrow> (nat \<Rightarrow> nat) \<Rightarrow> (nat \<Rightarrow> nat set) \<Rightarrow> (nat \<Rightarrow> int set) \<Rightarrow>
    (nat \<Rightarrow> int set) \<Rightarrow> (nat \<Rightarrow> (nat \<Rightarrow> int set) \<Rightarrow> int set) \<Rightarrow> bool" where
  "joins ns idf nb gn kl F = (\<forall>a\<in>set ns. nb a \<subseteq> set ns \<and> gn a \<subseteq> {0..<16384} \<and>
     (\<forall>D. F a D = gn a \<union> (join_at idf (nb a) D - kl a)))"

lemma joinsD:
  assumes "joins ns idf nb gn kl F" "a \<in> set ns"
  shows "nb a \<subseteq> set ns" "gn a \<subseteq> {0..<16384}" "F a D = gn a \<union> (join_at idf (nb a) D - kl a)"
  using assms by (auto simp: joins_def)

lemma joins_mono:
  assumes "joins ns idf nb gn kl F"
  shows "upward.mono_on ns idf F"
  unfolding upward.mono_on_def
proof (intro ballI allI impI)
  fix a D D' assume a: "a \<in> set ns" and "\<forall>b\<in>set ns. D (idf b) \<subseteq> (D' (idf b) :: int set)"
  then have "join_at idf (nb a) D \<subseteq> join_at idf (nb a) D'"
    using joinsD(1) [OF assms a] unfolding join_at_def by blast
  then show "F a D \<subseteq> F a D'" unfolding joinsD(3) [OF assms a] by blast
qed

lemma joins_closed:
  assumes "joins ns idf nb gn kl F"
  shows "upward.closed_on ns idf F"
  unfolding upward.closed_on_def
proof (intro ballI allI impI)
  fix a D assume a: "a \<in> set ns" and "\<forall>b\<in>set ns. D (idf b) \<subseteq> {0..<16384 :: int}"
  then have "join_at idf (nb a) D \<subseteq> {0..<16384}"
    using joinsD(1) [OF assms a] unfolding join_at_def by blast
  then show "F a D \<subseteq> {0..<16384}" unfolding joinsD(3) [OF assms a] using joinsD(2) [OF assms a] by blast
qed

lemma least_table_solution:
  assumes "joins ns idf nb gn kl F" "inj_on idf (set ns)"
  shows "upward.solution ns idf F (least_table ns idf nb gn kl)"
  unfolding upward.solution_def
proof
  fix a assume a: "a \<in> set ns"
  have "join_at idf (nb a) (least_table ns idf nb gn kl) = (\<Union>b\<in>nb a. {d. carried nb gn kl d b})"
    using assms a by (auto simp: join_at_def joins_def least_table_at subset_iff)
  then show "least_table ns idf nb gn kl (idf a) = F a (least_table ns idf nb gn kl)"
    using assms a carried_fix [of nb gn kl a] by (simp add: joins_def least_table_at)
qed

lemma least_table_least:
  assumes "joins ns idf nb gn kl F" "upward.solution ns idf F D" "a \<in> set ns" "carried nb gn kl d a"
  shows "d \<in> D (idf a)"
  by (rule carried_least [OF assms(4,3)]) (use assms(1,2) in \<open>auto simp: joins_def upward.solution_def join_at_def\<close>)

section \<open>The greatest solution\<close>

text \<open>
  A value is lost at \<open>a\<close> when it is lost at a neighbour and not generated at \<open>a\<close>; it is lost for the
  first time at nodes where it is \<open>bad\<close>, and at nodes outside of \<open>ns\<close>, which are not recomputed and
  hold what they generate.
\<close>

definition lost :: "nat list \<Rightarrow> int set \<Rightarrow> (nat \<Rightarrow> nat set) \<Rightarrow> (nat \<Rightarrow> int set) \<Rightarrow> (nat \<Rightarrow> int set) \<Rightarrow> int \<Rightarrow> nat \<Rightarrow> bool" where
  "lost ns U nb gn bad = carried nb (\<lambda>a. if a \<in> set ns then bad a - gn a else U - gn a) gn"

definition meets :: "nat list \<Rightarrow> (nat \<Rightarrow> nat) \<Rightarrow> int set \<Rightarrow> (nat \<Rightarrow> nat set) \<Rightarrow> (nat \<Rightarrow> int set) \<Rightarrow>
    (nat \<Rightarrow> int set) \<Rightarrow> (nat \<Rightarrow> (nat \<Rightarrow> int set) \<Rightarrow> int set) \<Rightarrow> bool" where
  "meets ns idf U nb gn bad F = (\<forall>a\<in>set ns. \<forall>D. (\<forall>b\<in>set ns. D (idf b) \<subseteq> U) \<longrightarrow>
     F a D = {d\<in>U. d \<in> gn a \<or> d \<notin> bad a \<and> (\<forall>b\<in>nb a. d \<in> (if b \<in> set ns then D (idf b) else gn b))})"

definition greatest_table :: "nat list \<Rightarrow> (nat \<Rightarrow> nat) \<Rightarrow> int set \<Rightarrow> (nat \<Rightarrow> nat set) \<Rightarrow> (nat \<Rightarrow> int set) \<Rightarrow>
    (nat \<Rightarrow> int set) \<Rightarrow> nat \<Rightarrow> int set" where
  "greatest_table ns idf U nb gn bad i = {d\<in>U. \<forall>a\<in>set ns. idf a = i \<longrightarrow> \<not> lost ns U nb gn bad d a}"

lemma greatest_table_at:
  "inj_on idf (set ns) \<Longrightarrow> a \<in> set ns \<Longrightarrow>
   greatest_table ns idf U nb gn bad (idf a) = {d\<in>U. \<not> lost ns U nb gn bad d a}"
  by (auto simp: greatest_table_def inj_on_def)

lemma lost_unfold:
  "lost ns U nb gn bad d a \<longleftrightarrow> d \<notin> gn a \<and>
     ((if a \<in> set ns then d \<in> bad a else d \<in> U) \<or> (\<exists>b\<in>nb a. lost ns U nb gn bad d b))"
  unfolding lost_def by (subst carried_unfold) auto

lemma lost_outside: "a \<notin> set ns \<Longrightarrow> d \<in> U \<Longrightarrow> lost ns U nb gn bad d a \<longleftrightarrow> d \<notin> gn a"
  by (subst lost_unfold) auto

lemma greatest_table_solution:
  assumes "meets ns idf U nb gn bad F" "inj_on idf (set ns)"
  shows "downward.solution ns idf F (greatest_table ns idf U nb gn bad)" (is "downward.solution _ _ _ ?S")
  unfolding downward.solution_def
proof
  fix a assume a: "a \<in> set ns"
  have "?S (idf b) \<subseteq> U" for b by (auto simp: greatest_table_def)
  then have F: "F a ?S = {d\<in>U. d \<in> gn a \<or> d \<notin> bad a \<and> (\<forall>b\<in>nb a. d \<in> (if b \<in> set ns then ?S (idf b) else gn b))}"
    using assms(1) a by (simp add: meets_def)
  have nb: "d \<in> (if b \<in> set ns then ?S (idf b) else gn b) \<longleftrightarrow> \<not> lost ns U nb gn bad d b" if "d \<in> U" for d b
    using that by (simp add: greatest_table_at [OF assms(2)] lost_outside)
  have "F a ?S = {d\<in>U. d \<in> gn a \<or> d \<notin> bad a \<and> (\<forall>b\<in>nb a. \<not> lost ns U nb gn bad d b)}"
    unfolding F by (intro Collect_cong conj_cong refl) (simp only: nb)
  then show "?S (idf a) = F a ?S"
    unfolding greatest_table_at [OF assms(2) a] using a by (auto simp: lost_unfold [of ns U nb gn bad _ a])
qed

lemma greatest_table_greatest:
  assumes F: "meets ns idf U nb gn bad F" and D: "downward.solution ns idf F D" "\<forall>a\<in>set ns. D (idf a) \<subseteq> U"
    and d: "lost ns U nb gn bad d a"
  shows "a \<in> set ns \<Longrightarrow> d \<notin> D (idf a)"
  using d unfolding lost_def
proof induction
  case (origin d a)
  have "D (idf a) = F a D" using D(1) origin.prems by (simp add: downward.solution_def)
  with F D(2) origin show ?case by (auto simp: meets_def)
next
  case (along d b a)
  have eq: "D (idf a) = F a D" using D(1) along.prems by (simp add: downward.solution_def)
  show ?case
  proof (cases "b \<in> set ns")
    case True
    with along eq F D(2) show ?thesis by (auto simp: meets_def)
  next
    case False
    have "d \<notin> gn b" using along.hyps(1) lost_unfold [of ns U nb gn bad d b] by (simp add: lost_def)
    with False along eq F D(2) show ?thesis by (auto simp: meets_def)
  qed
qed

text \<open>An analysis that starts from enough elements and meets computes the greatest solution.\<close>

theorem greatest_wp:
  assumes dist: "distinct (map idf ns)" and F: "meets ns idf U nb gn bad F"
    and mono: "downward.mono_on ns idf F" and closed: "downward.closed_on ns idf F" and U: "U \<subseteq> {0..<16384}"
    and step: "recomputes P ti tab ns idf F J step" and st: "P g"
    and init: "\<And>a. a \<in> set ns \<Longrightarrow> {d\<in>U. d \<in> gn a \<or> d \<notin> bad a} \<subseteq> tab g (idf a)"
      "\<And>a. a \<in> set ns \<Longrightarrow> tab g (idf a) \<subseteq> U"
  shows "wp (bnd (while_prog (\<lambda>change. change \<noteq> 0) (\<lambda>_. for_each step ns 0) 1) (\<lambda>_. ret ())) (\<lambda>_ g'. P g' \<and> (\<forall>a\<in>set ns.
      tab g' (idf a) = {d\<in>U. \<not> lost ns U nb gn bad d a} \<and> ti g' (idf a) = J a (tab g'))) g"
proof -
  let ?S = "greatest_table ns idf U nb gn bad"
  have inj: "inj_on idf (set ns)" using dist by (simp add: distinct_map)
  have "F a (tab g) \<subseteq> tab g (idf a)" if a: "a \<in> set ns" for a
  proof -
    have "F a (tab g) \<subseteq> {d\<in>U. d \<in> gn a \<or> d \<notin> bad a}"
      using F a init(2) by (auto simp: meets_def)
    with init(1) [OF a] show ?thesis by blast
  qed
  then have adv: "downward.advancing ns idf F (tab g)"
    using init(2) U by (fastforce simp: downward.advancing_def)
  have "?S (idf a) \<subseteq> tab g (idf a)" if a: "a \<in> set ns" for a
  proof -
    have "?S (idf a) \<subseteq> {d\<in>U. d \<in> gn a \<or> d \<notin> bad a}"
      unfolding greatest_table_at [OF inj a] using a by (auto simp: lost_unfold [of ns U nb gn bad _ a])
    with init(1) [OF a] show ?thesis by blast
  qed
  then have low: "downward.before ns idf (tab g) ?S" by (simp add: downward.before_def)
  have "wp (bnd (while_prog (\<lambda>change. change \<noteq> 0) (\<lambda>_. for_each step ns 0) 1) (\<lambda>_. ret ())) (\<lambda>_ g'. P g' \<and> downward.solution ns idf F (tab g') \<and>
      (\<forall>a\<in>set ns. ti g' (idf a) = J a (tab g') \<and> tab g' (idf a) \<subseteq> {0..<16384}) \<and>
      (\<forall>S\<in>{?S}. downward.before ns idf (tab g') S) \<and> downward.before ns idf (tab g) (tab g')) g"
    by (rule downward.stable_wp [OF mono closed dist _ step st adv])
       (use low greatest_table_solution [OF F inj] in simp)
  then show ?thesis
  proof (rule wp_mono)
    fix u g'
    assume g': "P g' \<and> downward.solution ns idf F (tab g') \<and>
      (\<forall>a\<in>set ns. ti g' (idf a) = J a (tab g') \<and> tab g' (idf a) \<subseteq> {0..<16384}) \<and>
      (\<forall>S\<in>{?S}. downward.before ns idf (tab g') S) \<and> downward.before ns idf (tab g) (tab g')"
    have sub: "tab g' (idf a) \<subseteq> U" if "a \<in> set ns" for a
      using g' that init(2) by (force simp: downward.before_def)
    have "tab g' (idf a) = {d\<in>U. \<not> lost ns U nb gn bad d a}" if a: "a \<in> set ns" for a
    proof
      show "tab g' (idf a) \<subseteq> {d\<in>U. \<not> lost ns U nb gn bad d a}"
        using sub a greatest_table_greatest [OF F, of "tab g'" _ a] g' by blast
      show "{d\<in>U. \<not> lost ns U nb gn bad d a} \<subseteq> tab g' (idf a)"
        unfolding greatest_table_at [OF inj a, symmetric] using g' a by (simp add: downward.before_def)
    qed
    with g' show "P g' \<and> (\<forall>a\<in>set ns.
      tab g' (idf a) = {d\<in>U. \<not> lost ns U nb gn bad d a} \<and> ti g' (idf a) = J a (tab g'))" by simp
  qed
qed

text \<open>Not lost, over paths: every path to a bad node passes through a node that generates the value.\<close>

lemma lost_path:
  "lost ns U nb gn bad d a \<longleftrightarrow>
   (\<exists>p. is_path nb (a # p) \<and> (let y = last (a # p) in if y \<in> set ns then d \<in> bad y else d \<in> U) \<and>
        (\<forall>x\<in>set (a # p). d \<notin> gn x))"
proof -
  have "xs \<noteq> [] \<Longrightarrow> set xs = insert (last xs) (set (butlast xs))" for xs :: "nat list"
    by (cases xs rule: rev_cases) simp_all
  then have set: "set (a # p) = insert (last (a # p)) (set (butlast (a # p)))" for p by blast
  show ?thesis
    unfolding lost_def carried_path Let_def set by (intro iff_exI) (auto simp del: butlast.simps last.simps split: if_splits)
qed

end
