(* ===== verification/Dataflow_Analyses.thy ===== *)
theory Dataflow_Analyses
  imports Dataflow_Tables Flow_Paths
begin

text \<open>
  The analyses of \<open>src/src/library/libflow/dataflow.c\<close>: each computes a solution of its dataflow
  equations, the least one for reaching definitions and live variables and the greatest one
  for available expressions and the two dominator analyses.

  \<open>flow_graph\<close> says what a graph built with the functions of the library looks like: the nodes have
  different identifiers within the tables, and every arc stays within the graph.
\<close>

section \<open>Flow graphs\<close>

definition flow_graph :: "(nat \<Rightarrow> gnode) \<Rightarrow> nat list \<Rightarrow> bool" where
  "flow_graph m ns = (distinct (map (idn m) ns) \<and> (\<forall>a\<in>set ns. GOOD_ID (nodeId (m a)) \<and>
     (\<forall>arc\<in>set (sourceArcs (m a)). sourceNode arc \<in> set ns) \<and>
     (\<forall>arc\<in>set (destinationArcs (m a)). destinationNode arc \<in> set ns)))"

lemma flow_graphD:
  assumes "flow_graph m ns" "a \<in> set ns"
  shows "GOOD_ID (nodeId (m a))" "preds m a \<subseteq> set ns" "succs m a \<subseteq> set ns"
    "\<And>arc. arc \<in> set (sourceArcs (m a)) \<Longrightarrow> GOOD_ID (nodeId (m (sourceNode arc)))"
    "\<And>arc. arc \<in> set (destinationArcs (m a)) \<Longrightarrow> GOOD_ID (nodeId (m (destinationNode arc)))"
  using assms by (auto simp: flow_graph_def preds_def succs_def)

definition node_keys :: "(nat \<Rightarrow> nat) \<Rightarrow> nat set \<Rightarrow> nfield set \<Rightarrow> key set" where
  "node_keys idf A fs = {NK (idf a) f |a f. a \<in> A \<and> f \<in> fs}"

lemma node_keys_iff [simp]:
  "NK i f \<in> node_keys idf A fs \<longleftrightarrow> f \<in> fs \<and> i \<in> idf ` A" "RK r b \<notin> node_keys idf A fs"
  by (auto simp: node_keys_def)

lemma steadyD:
  assumes "steady K g0 g"
  shows "owned g" "skel g = skel g0" "node_mem g = node_mem g0"
    "k \<notin> K \<Longrightarrow> content g k = content g0 k" "NK i f \<notin> K \<Longrightarrow> table f g i = table f g0 i"
    "loose g0 z \<Longrightarrow> loose g z"
  using assms by (auto simp: steady_def skel_def table_def)

lemma steady_refl: "owned g \<Longrightarrow> steady K g g"
  by (simp add: steady_def)

lemma steady_trans: "steady K g0 g1 \<Longrightarrow> steady K' g1 g2 \<Longrightarrow> K \<subseteq> L \<Longrightarrow> K' \<subseteq> L \<Longrightarrow> steady L g0 g2"
  unfolding steady_def by (metis subsetD)

text \<open>Storing the results of a step keeps the state steady.\<close>

lemma steady_store:
  assumes "steady K g0 g" "grows g g3" "owned g'" "skel g' = skel g3"
    "handle g' = (handle g3)(NK i fi := x, NK i fo := y)" "NK i fi \<in> K" "NK i fo \<in> K"
    "\<And>z. loose g z \<Longrightarrow> loose g' z"
  shows "steady K g0 g'"
    "fi \<noteq> fo \<Longrightarrow> table fi g' = (table fi g)(i := elems x)"
    "table fo g' = (table fo g)(i := elems y)"
proof -
  have h: "handle g3 = handle g" "skel g3 = skel g" using grows_fields [OF assms(2)] by auto
  then show "steady K g0 g'"
    using assms by (auto simp: steady_def content_def)
  show "fi \<noteq> fo \<Longrightarrow> table fi g' = (table fi g)(i := elems x)"
    "table fo g' = (table fo g)(i := elems y)"
    using assms(5) h by (simp_all add: table_def content_def fun_eq_iff)
qed

text \<open>A new set stored in a field whose old set is lost.\<close>

lemma put_made:
  assumes st: "steady K g0 g" and x: "lib.made g X x g1" and i: "GOOD_ID i" and k: "NK (nat i) f \<in> K"
    and post: "\<And>g'. steady K g0 g' \<Longrightarrow> handle g' = (handle g)(NK (nat i) f := x) \<Longrightarrow>
      table f g' = (table f g)(nat i := X) \<Longrightarrow> (\<And>f'. f' \<noteq> f \<Longrightarrow> table f' g' = table f' g) \<Longrightarrow> Q () g'"
  shows "wp (nd_put i (fld_upd f x)) Q g1"
proof -
  note m = loose_made [OF steadyD(1) [OF st] x]
  show ?thesis
  proof (rule nd_put_wp [OF m(2,1) i])
    fix g' assume g': "owned g'" "handle g' = (handle g1)(NK (nat i) f := x)" "skel g' = skel g1" "\<And>y. loose g1 y \<Longrightarrow> apart y x \<Longrightarrow> loose g' y"
    have lo: "loose g' z" if "loose g z" for z
      using that m(3) m(5) [of z] by (intro g'(4)) (auto intro: loose_live loose_grows apart_sym)
    have h: "handle g' = (handle g)(NK (nat i) f := x)" using g'(2) grows_fields [OF m(3)] by simp
    show "Q () g'"
    proof (rule post)
      show "steady K g0 g'" "table f g' = (table f g)(nat i := X)"
        using steady_store [where fi = f and x = x and fo = f and y = x, OF st m(3) g'(1,3)] g'(2) k m(4) lo
        by simp_all
      show "handle g' = (handle g)(NK (nat i) f := x)" by (rule h)
      show "\<And>f'. f' \<noteq> f \<Longrightarrow> table f' g' = table f' g"
        by (simp add: table_def content_def h fun_eq_iff)
    qed
  qed
qed

section \<open>The step of the analyses with gen and kill sets\<close>

lemma flow_mid:
  assumes own: "owned g" and x: "lib.made g X x g1" and i: "GOOD_ID i"
    and rest: "\<And>y g3. owned g3 \<Longrightarrow> grows g g3 \<Longrightarrow> loose g3 x \<Longrightarrow> loose g3 y \<Longrightarrow> apart y x \<Longrightarrow>
      (\<And>z. loose g z \<Longrightarrow> loose g3 z \<and> apart z x \<and> apart z y) \<Longrightarrow> elems x = X \<Longrightarrow> elems y = content g (NK (nat i) fg) \<union> (X - content g (NK (nat i) fk)) \<Longrightarrow>
      wp (R y (if content g (NK (nat i) fo) = elems y then c else c + 1)) Q g3"
  shows "wp (bnd (nd_get i) (\<lambda>n. bnd (gen_kill (fld fg n) x (fld fk n)) (\<lambda>y.
    bnd (see_change (fld fo n) y c) (R y)))) Q g1"
proof -
  note m1 = loose_made [OF own x]
  note f1 = grows_fields [OF m1(3)]
  let ?n = "nodes g (nat i)"
  have live1: "live g1 (fld f ?n)" for f
    using owned_node [OF m1(2)] f1(3) by metis
  have lx: "live g1 x" using m1(1) by (simp add: loose_def)
  have "wp (bnd (see_change (fld fo ?n) y c) (R y)) Q g2"
    if y: "lib.made g1 (elems (fld fg ?n) \<union> (elems x - elems (fld fk ?n))) y g2" for y g2
  proof -
    note m2 = loose_made [OF m1(2) y]
    have l2: "live g2 (fld fo ?n)" "live g2 y"
      using live1 m2(1,3) by (auto simp: loose_def intro: live_grows)
    have step: "wp (R y c') Q g3"
      if "grows g2 g3" "c' = (if elems (fld fo ?n) = elems y then c else c + 1)" for c' g3
    proof -
      have g3: "owned g3" "grows g g3" "loose g3 x" "loose g3 y"
        using m1 m2 that(1) by (auto intro: owned_grows grows_trans loose_grows)
      have lo: "loose g3 z \<and> apart z x \<and> apart z y" if "loose g z" for z
        using that g3(2) m1(5) m2(5) [OF live_grows [OF loose_live m1(3)]] by (auto intro: loose_live loose_grows live_grows apart_sym)
      have y: "elems y = content g (NK (nat i) fg) \<union> (X - content g (NK (nat i) fk))"
        using m1(4) m2(4) by (simp add: content_def handle.simps)
      show ?thesis
        using rest [OF g3 m2(5) [OF lx] lo m1(4) y] that(2) by (simp add: content_def handle.simps)
    qed
    show ?thesis
      by (rule wp_seq [OF see_change_wp [OF owned_wf [OF m2(2)] l2]]) (blast intro: step)
  qed
  then have "wp (bnd (gen_kill (fld fg ?n) x (fld fk ?n)) (\<lambda>y. bnd (see_change (fld fo ?n) y c) (R y))) Q g1"
    by (intro wp_seq [OF gen_kill_wp [OF owned_wf [OF m1(2)] live1 lx live1]])
  with i f1 show ?thesis by (simp add: nd_get_def)
qed

text \<open>
  From a set \<open>X\<close> for one side of the node to the stored results, in either order of the two
  stores.
\<close>

lemma flow_step:
  fixes c :: int
  assumes st: "steady K g0 g" and m: "wp m (lib.made g X) g" and i: "GOOD_ID i" and f: "fi \<noteq> fo"
    and K: "NK (nat i) fi \<in> K" "NK (nat i) fo \<in> K" "NK (nat i) fg \<notin> K" "NK (nat i) fk \<notin> K"
  defines "Y \<equiv> table fg g0 (nat i) \<union> (X - table fk g0 (nat i))"
  defines "Q \<equiv> \<lambda>c' g'. steady K g0 g' \<and> table fo g' = (table fo g)(nat i := Y) \<and>
      table fi g' = (table fi g)(nat i := X) \<and> c' = (if table fo g (nat i) = Y then c else c + 1)"
  shows "wp (bnd m (\<lambda>x. bnd (nd_get i) (\<lambda>n. bnd (gen_kill (fld fg n) x (fld fk n)) (\<lambda>y.
      bnd (see_change (fld fo n) y c) (\<lambda>c. bnd (put_field i fi x) (\<lambda>_. bnd (put_field i fo y) (\<lambda>_.
      ret c))))))) Q g"
    and "wp (bnd m (\<lambda>x. bnd (nd_get i) (\<lambda>n. bnd (gen_kill (fld fg n) x (fld fk n)) (\<lambda>y.
      bnd (see_change (fld fo n) y c) (\<lambda>c. bnd (put_field i fo y) (\<lambda>_. bnd (put_field i fi x) (\<lambda>_.
      ret c))))))) Q g"
proof -
  note s = steadyD [OF st]
  have Q: "Q (if content g (NK (nat i) fo) = elems y then c else c + 1) g'"
    if "grows g g3" "owned g'" "skel g' = skel g3" "handle g' = (handle g3)(NK (nat i) fi := x, NK (nat i) fo := y)"
      "elems x = X" "elems y = content g (NK (nat i) fg) \<union> (X - content g (NK (nat i) fk))"
      "\<And>z. loose g z \<Longrightarrow> loose g' z" for x y g3 g'
    using steady_store [OF st that(1-4) K(1,2) that(7)] f that(5,6) s(4) [OF K(3)] s(4) [OF K(4)]
    by (simp add: Q_def Y_def table_def)
  show "wp (bnd m (\<lambda>x. bnd (nd_get i) (\<lambda>n. bnd (gen_kill (fld fg n) x (fld fk n)) (\<lambda>y.
      bnd (see_change (fld fo n) y c) (\<lambda>c. bnd (put_field i fi x) (\<lambda>_. bnd (put_field i fo y) (\<lambda>_.
      ret c))))))) Q g"
  proof (rule wp_seq [OF m], rule flow_mid [OF s(1) _ i], assumption, rule put_two_fields, goal_cases)
    case (7 x g1 y g3 g')
    then show ?case by (intro Q [of g3 g' x y]) auto
  qed (use i f in auto)
  show "wp (bnd m (\<lambda>x. bnd (nd_get i) (\<lambda>n. bnd (gen_kill (fld fg n) x (fld fk n)) (\<lambda>y.
      bnd (see_change (fld fo n) y c) (\<lambda>c. bnd (put_field i fo y) (\<lambda>_. bnd (put_field i fi x) (\<lambda>_.
      ret c))))))) Q g"
  proof (rule wp_seq [OF m], rule flow_mid [OF s(1) _ i], assumption, rule put_two_fields, goal_cases)
    case (7 x g1 y g3 g')
    then show ?case using f by (intro Q [of g3 g' x y]) (auto simp: fun_upd_twist)
  qed (use i f in \<open>auto intro: apart_sym\<close>)
qed

section \<open>The loops of the analyses\<close>

text \<open>A first loop that sets the fields \<open>fs\<close> of every node.\<close>

lemma init_loop:
  assumes dist: "distinct (map idf ns)" and st: "steady K g0 g"
    and body: "\<And>a g. a \<in> set ns \<Longrightarrow> steady K g0 g \<Longrightarrow>
      wp (body a) (\<lambda>_ g'. steady K g0 g' \<and> (\<forall>f\<in>fs. table f g' = (table f g)(idf a := V f a))) g"
  shows "wp (for_each (\<lambda>a _. body a) ns ())
    (\<lambda>_ g'. steady K g0 g' \<and> (\<forall>f\<in>fs. \<forall>a\<in>set ns. table f g' (idf a) = V f a)) g"
proof (rule wp_for_each [where I = "\<lambda>k _ g. steady K g0 g \<and>
    (\<forall>f\<in>fs. \<forall>j<k. table f g (idf (ns ! j)) = V f (ns ! j))"])
  fix k u h
  assume k: "k < length ns" and
    I: "steady K g0 h \<and> (\<forall>f\<in>fs. \<forall>j<k. table f h (idf (ns ! j)) = V f (ns ! j))"
  have "idf (ns ! j) \<noteq> idf (ns ! k)" if "j < k" for j
    using that k dist by (auto simp: distinct_conv_nth)
  then show "wp (body (ns ! k)) (\<lambda>_ g. steady K g0 g \<and>
      (\<forall>f\<in>fs. \<forall>j<Suc k. table f g (idf (ns ! j)) = V f (ns ! j))) h"
    using I k by (intro wp_mono [OF body]) (auto simp: less_Suc_eq)
qed (use st in \<open>auto simp: in_set_conv_nth\<close>)

text \<open>An analysis that joins ends with what is carried along the paths.\<close>

lemma join_result:
  assumes dist: "distinct (map idf ns)" and F: "joins ns idf nb gn kl F"
    and step: "recomputes (steady K g0) (table fi) (table fo) ns idf F J step"
    and st: "steady K g0 g" and init: "\<And>a. a \<in> set ns \<Longrightarrow> table fo g (idf a) \<subseteq> gn a"
  shows "wp (until_stable step ns) (\<lambda>_ g'. steady K g0 g' \<and> (\<forall>a\<in>set ns.
      table fo g' (idf a) = {d. carried nb gn kl d a} \<and> table fi g' (idf a) = J a (table fo g'))) g"
proof -
  let ?S = "least_table ns idf nb gn kl"
  have inj: "inj_on idf (set ns)" using dist by (simp add: distinct_map)
  have adv: "upward.advancing ns idf F (table fo g)"
    using init joinsD [OF F] by (fastforce simp: upward.advancing_def)
  have low: "upward.before ns idf (table fo g) ?S"
    using init by (fastforce simp: upward.before_def least_table_at [OF inj] intro: carried.origin)
  have "wp (until_stable step ns) (\<lambda>_ g'. steady K g0 g' \<and> upward.solution ns idf F (table fo g') \<and>
      (\<forall>a\<in>set ns. table fi g' (idf a) = J a (table fo g') \<and> table fo g' (idf a) \<subseteq> {0..<16384}) \<and>
      (\<forall>S\<in>{?S}. upward.before ns idf (table fo g') S) \<and> upward.before ns idf (table fo g) (table fo g')) g"
    by (rule upward.stable_wp [OF joins_mono [OF F] joins_closed [OF F] dist _ step st adv, folded until_stable_def])
       (use low least_table_solution [OF F inj] in simp)
  then show ?thesis
  proof (rule wp_mono)
    fix u g'
    assume g': "steady K g0 g' \<and> upward.solution ns idf F (table fo g') \<and>
      (\<forall>a\<in>set ns. table fi g' (idf a) = J a (table fo g') \<and> table fo g' (idf a) \<subseteq> {0..<16384}) \<and>
      (\<forall>S\<in>{?S}. upward.before ns idf (table fo g') S) \<and> upward.before ns idf (table fo g) (table fo g')"
    have "table fo g' (idf a) = {d. carried nb gn kl d a}" if a: "a \<in> set ns" for a
      using g' a least_table_least [OF F _ a, of "table fo g'"]
      by (fastforce simp: upward.before_def least_table_at [OF inj])
    with g' show "steady K g0 g' \<and> (\<forall>a\<in>set ns.
      table fo g' (idf a) = {d. carried nb gn kl d a} \<and> table fi g' (idf a) = J a (table fo g'))" by simp
  qed
qed

text \<open>Adding to a set made before: in place, or a new set.\<close>

section \<open>Reaching definitions\<close>

definition reach_eq :: "df \<Rightarrow> nat \<Rightarrow> (nat \<Rightarrow> int set) \<Rightarrow> int set" where
  "reach_eq g a D = table Gen g (idn (node_mem g) a) \<union>
     (join_at (idn (node_mem g)) (preds (node_mem g) a) D - table Kill g (idn (node_mem g) a))"

lemma reach_step_recomputes:
  assumes fg: "flow_graph (node_mem g0) ns"
  defines "K \<equiv> node_keys (idn (node_mem g0)) (set ns) {E_in, E_out}"
  shows "recomputes (steady K g0) (table E_in) (table E_out) ns (idn (node_mem g0)) (reach_eq g0)
    (\<lambda>a. join_at (idn (node_mem g0)) (preds (node_mem g0) a)) reach_step"
  unfolding recomputes_def
proof (intro ballI allI impI)
  fix a c g assume a: "a \<in> set ns" and st: "steady K g0 g"
  note s = steadyD [OF st] and d = flow_graphD [OF fg a]
  let ?m = "node_mem g0" and ?i = "nodeId (node_mem g0 a)"
  let ?X = "join_at (idn ?m) (preds ?m a) (table E_out g)"
  have k: "NK (idn ?m a) E_in \<in> K" "NK (idn ?m a) E_out \<in> K" "NK (idn ?m a) Gen \<notin> K" "NK (idn ?m a) Kill \<notin> K"
    using a by (auto simp: K_def)
  have "wp (join_arcs Set_union sourceNode E_out (sourceArcs (?m a)) None) (lib.made g ?X) g"
    using join_arcs_wp(1) [OF s(1) lib.made_nil [OF owned_wf [OF s(1)]], of "sourceArcs (?m a)" sourceNode E_out]
      d(4) s(3) by (simp add: join_at_def preds_def table_def)
  from flow_step(1) [OF st this d(1), of E_in E_out Gen Kill c] k
  show "wp (reach_step a c) (\<lambda>c' g'. steady K g0 g' \<and>
      table E_out g' = (table E_out g)(idn ?m a := reach_eq g0 a (table E_out g)) \<and>
      table E_in g' = (table E_in g)(idn ?m a := ?X) \<and>
      c' = (if table E_out g (idn ?m a) = reach_eq g0 a (table E_out g) then c else c + 1)) g"
    unfolding reach_step_def node_get_def wp_bnd [of "gets _"] wp_gets Let_def s(3)
    by (simp only: fld.simps reach_eq_def idn_def simp_thms nfield.distinct)
qed



text \<open>The definitions of the registers that node \<open>a\<close> writes, other than its own.\<close>

definition kill_of :: "df \<Rightarrow> nat \<Rightarrow> int set" where
  "kill_of g a = (\<Union>r\<in>{r\<in>{0..MAX_REG_ID - 1}. rg_defined (regs g (nat r)) \<noteq> 0 \<and>
     r \<in> table Dest_reg g (idn (node_mem g) a)}. content g (RK (nat r) False)) - {nodeId (node_mem g a)}"

lemma kill_loop:
  assumes own: "owned g" and i: "GOOD_ID i" and gr: "grows g g1"
  shows "wp (for_each (\<lambda>reg_id df. bnd (rg_get reg_id) (\<lambda>r.
      if rg_defined r = 0 then ret df
      else bnd (nd_get i) (\<lambda>n. bnd (Set_in (dest_reg n) reg_id) (\<lambda>b.
        if \<not> b then ret df
        else bnd (Set_union df (e_def r)) (\<lambda>df'. bnd (Set_dispose df) (\<lambda>_. ret df'))))))
      [0..MAX_REG_ID - 1] None)
    (lib.made g1 (\<Union>r\<in>{r\<in>{0..MAX_REG_ID - 1}. rg_defined (regs g (nat r)) \<noteq> 0 \<and>
       r \<in> table Dest_reg g (nat i)}. content g (RK (nat r) False))) g1"
    (is "wp (for_each ?body ?rs None) (lib.made g1 (\<Union>r\<in>{r\<in>_. ?P r}. ?c r)) g1")
proof (rule wp_for_each [where I = "\<lambda>k. lib.made g1 (\<Union>r\<in>{r\<in>set (take k ?rs). ?P r}. ?c r)"])
  show "lib.made g1 (\<Union>r\<in>{r \<in> set (take 0 ?rs). ?P r}. ?c r) None g1"
    using lib.made_nil [OF grows_wf [OF gr]] by simp
  fix k h g2
  let ?Y = "\<lambda>k. \<Union>r\<in>{r\<in>set (take k ?rs). ?P r}. ?c r"
  assume k: "k < length ?rs" and m: "lib.made g1 (?Y k) h g2"
  let ?r = "?rs ! k"
  have "?r \<in> set ?rs" using k by (rule nth_mem)
  then have r: "GOOD_REG_ID ?r" "?r \<noteq> INT_MIN" by (auto simp: GOOD_REG_ID_def INT_MIN_def)
  have Y: "?Y (Suc k) = (if ?P ?r then ?Y k \<union> ?c ?r else ?Y k)"
    using k by (auto simp: take_Suc_conv_app_nth)
  have g2: "grows g g2" using gr m by (auto simp: lib.made_def intro: grows_trans)
  note own2 = owned_grows [OF own g2] and f = grows_fields [OF g2]
  have e: "elems (e_def (regs g (nat ?r))) = ?c ?r"
    by (simp add: content_def handle.simps)
  have d: "elems (dest_reg (nodes g (nat i))) = table Dest_reg g (nat i)"
    by (simp add: table_def content_def handle.simps)
  have wf: "wf_set (dest_reg (nodes g (nat i)))"
    using owned_node [OF own, of Dest_reg "nat i"] by (auto dest: live_wf)
  have "wp (Set_union h (e_def (regs g (nat ?r)))) (lib.made g2 (?Y k \<union> ?c ?r)) g2"
    using lib.union_made [OF owned_wf [OF own2], of h "e_def (regs g (nat ?r))"] m e
      owned_reg [OF own2] f(4) by (auto simp: lib.made_def)
  from lib.replace_made [OF m this]
  show "wp (?body ?r h) (lib.made g1 (?Y (Suc k))) g2"
    using m r(1) i f by (simp add: rg_get_def nd_get_def wp_Set_in [OF wf r(2)] Y d)
qed simp_all

lemma GOOD_ID_nonmin: "GOOD_ID i \<Longrightarrow> i \<noteq> INT_MIN"
  by (auto simp: GOOD_ID_def INT_MIN_def)

text \<open>Two fields of one node stored, the old sets lost.\<close>

lemma put_two_lost:
  assumes "owned g" "loose g x" "loose g y" "apart y x" "GOOD_ID i"
    and "\<And>g'. owned g' \<Longrightarrow> handle g' = (handle g)(NK (nat i) f1 := x, NK (nat i) f2 := y) \<Longrightarrow>
      skel g' = skel g \<Longrightarrow> (\<And>z. loose g z \<Longrightarrow> apart z x \<Longrightarrow> apart z y \<Longrightarrow> loose g' z) \<Longrightarrow> Q () g'"
  shows "wp (bnd (nd_put i (fld_upd f1 x)) (\<lambda>_. nd_put i (fld_upd f2 y))) Q g"
  unfolding wp_bnd
  by (rule nd_put_wp [OF assms(1,2,5)], rule nd_put_wp [OF _ _ assms(5)]) (use assms in auto)

lemma init_gen_kill_wp:
  assumes fg: "flow_graph (node_mem g0) ns" and a: "a \<in> set ns" and st: "steady K g0 g"
    and K: "K = node_keys (idn (node_mem g0)) (set ns) {Gen, Kill}"
  shows "wp (init_gen_kill a) (\<lambda>_ g'. steady K g0 g' \<and>
      table Gen g' = (table Gen g)(idn (node_mem g0) a := {nodeId (node_mem g0 a)}) \<and>
      table Kill g' = (table Kill g)(idn (node_mem g0) a := kill_of g0 a)) g"
proof -
  let ?m = "node_mem g0"
  let ?i = "nodeId (?m a)"
  let ?j = "idn ?m a"
  note s = steadyD [OF st] and i = flow_graphD(1) [OF fg a]
  have j: "?j = nat ?i" by (simp add: idn_def)
  have "rg_defined (regs g r) = rg_defined (regs g0 r)" for r
    using s(2) by (auto simp: skel_def fun_eq_iff)
  moreover have "table Dest_reg g (nat ?i) = table Dest_reg g0 (nat ?i)" "content g (RK r False) = content g0 (RK r False)" for r
    by (rule s(5), simp add: K) (rule s(4), simp add: K)
  ultimately have kill: "(\<Union>r\<in>{r\<in>{0..MAX_REG_ID - 1}. rg_defined (regs g (nat r)) \<noteq> 0 \<and>
       r \<in> table Dest_reg g (nat ?i)}. content g (RK (nat r) False)) - {?i} = kill_of g0 a"
    by (simp add: kill_of_def j)
  let ?D = "\<Union>r\<in>{r\<in>{0..MAX_REG_ID - 1}. rg_defined (regs g (nat r)) \<noteq> 0 \<and>
       r \<in> table Dest_reg g (nat ?i)}. content g (RK (nat r) False)"
  have wf: "wf_lib g" by (rule owned_wf [OF s(1)])
  show ?thesis
    unfolding init_gen_kill_def node_get_def wp_bnd [of "gets _"] wp_gets Let_def s(3)
  proof (rule wp_seq [OF add_made [OF lib.made_nil [OF wf] GOOD_ID_nonmin [OF i]]])
    fix gn g1 assume gn: "lib.made g {?i} gn g1"
    note m1 = loose_made [OF s(1) gn]
    show "wp (bnd (for_each (\<lambda>reg_id df. bnd (rg_get reg_id) (\<lambda>r.
        if rg_defined r = 0 then ret df
        else bnd (nd_get ?i) (\<lambda>n. bnd (Set_in (dest_reg n) reg_id) (\<lambda>b.
          if \<not> b then ret df
          else bnd (Set_union df (e_def r)) (\<lambda>df'. bnd (Set_dispose df) (\<lambda>_. ret df'))))))
        [0..MAX_REG_ID - 1] None) (\<lambda>df. bnd (Set_subtract df gn) (\<lambda>kl. bnd (Set_dispose df) (\<lambda>_.
        bnd (nd_put ?i (fld_upd Gen gn)) (\<lambda>_. nd_put ?i (fld_upd Kill kl))))))
      (\<lambda>_ g'. steady K g0 g' \<and> table Gen g' = (table Gen g)(?j := {?i}) \<and>
        table Kill g' = (table Kill g)(?j := kill_of g0 a)) g1"
    proof (rule wp_seq [OF kill_loop [OF s(1) i m1(3)]])
      fix df g2 assume df: "lib.made g1 ?D df g2"
      have g2: "live g2 gn" "wf_lib g2" "live g2 df"
        using df m1(1) by (auto simp: lib.made_def loose_def intro: live_grows grows_wf)
      have "wp (Set_subtract df gn) (lib.made g2 (kill_of g0 a)) g2"
        using lib.subtract_made [OF g2(2,3,1)] df m1(4) kill by (simp add: lib.made_def)
      from lib.replace_made [OF df this]
      have sub: "wp (bnd (Set_subtract df gn) (\<lambda>kl. bnd (Set_dispose df) (\<lambda>_. ret kl))) (lib.made g1 (kill_of g0 a)) g2" .
      have "wp (bnd (bnd (Set_subtract df gn) (\<lambda>kl. bnd (Set_dispose df) (\<lambda>_. ret kl))) (\<lambda>kl.
          bnd (nd_put ?i (fld_upd Gen gn)) (\<lambda>_. nd_put ?i (fld_upd Kill kl))))
        (\<lambda>_ g'. steady K g0 g' \<and> table Gen g' = (table Gen g)(?j := {?i}) \<and>
          table Kill g' = (table Kill g)(?j := kill_of g0 a)) g2"
      proof (rule wp_seq [OF sub])
        fix kl g3 assume kl: "lib.made g1 (kill_of g0 a) kl g3"
        note m3 = loose_made [OF m1(2) kl]
        have gr: "grows g g3" using m1(3) m3(3) by (rule grows_trans)
        have gn3: "loose g3 gn" using m1(1) m3(3) by (rule loose_grows)
        have ap: "apart kl gn" using m1(1) by (intro m3(5)) (simp add: loose_def)
        show "wp (bnd (nd_put ?i (fld_upd Gen gn)) (\<lambda>_. nd_put ?i (fld_upd Kill kl)))
          (\<lambda>_ g'. steady K g0 g' \<and> table Gen g' = (table Gen g)(?j := {?i}) \<and>
            table Kill g' = (table Kill g)(?j := kill_of g0 a)) g3"
        proof (rule put_two_lost [OF m3(2) gn3 m3(1) ap i])
          fix g' assume "owned g'" "handle g' = (handle g3)(NK (nat ?i) Gen := gn, NK (nat ?i) Kill := kl)"
            "skel g' = skel g3" and lo: "\<And>z. loose g3 z \<Longrightarrow> apart z gn \<Longrightarrow> apart z kl \<Longrightarrow> loose g' z"
          have "loose g' z" if "loose g z" for z
            using that gr m1(5) m3(5) [OF live_grows [OF loose_live m1(3)]]
            by (intro lo) (auto intro: loose_live loose_grows live_grows apart_sym)
          from steady_store [OF st gr \<open>owned g'\<close> \<open>skel g' = skel g3\<close> \<open>handle g' = _\<close> _ _ this] m1(4) m3(4) a
          show "steady K g0 g' \<and> table Gen g' = (table Gen g)(?j := {?i}) \<and>
            table Kill g' = (table Kill g)(?j := kill_of g0 a)" by (simp add: j [symmetric] K)
        qed
      qed
      then show "wp (bnd (Set_subtract df gn) (\<lambda>kl. bnd (Set_dispose df) (\<lambda>_.
          bnd (nd_put ?i (fld_upd Gen gn)) (\<lambda>_. nd_put ?i (fld_upd Kill kl)))))
        (\<lambda>_ g'. steady K g0 g' \<and> table Gen g' = (table Gen g)(?j := {?i}) \<and>
          table Kill g' = (table Kill g)(?j := kill_of g0 a)) g2"
        by (simp only: bnd_assoc bnd_ret)
    qed
  qed
qed

text \<open>\<open>Set_union (nodes[i].f, 0)\<close> copies a set.\<close>

lemma copy_made: "owned g \<Longrightarrow> wp (Set_union (fld f (nodes g i)) None) (lib.made g (table f g i)) g"
  using lib.union_made [OF owned_wf owned_node, of g None f i]
  by (simp add: table_def content_def handle.simps)

lemma init_e_out_wp:
  assumes fg: "flow_graph (node_mem g0) ns" and a: "a \<in> set ns" and st: "steady K g0 g"
    and K: "K = node_keys (idn (node_mem g0)) (set ns) {E_out}"
  shows "wp (init_e_out a) (\<lambda>_ g'. steady K g0 g' \<and>
      table E_out g' = (table E_out g)(idn (node_mem g0) a := table Gen g0 (idn (node_mem g0) a))) g"
proof -
  let ?m = "node_mem g0"
  let ?i = "nodeId (?m a)"
  note s = steadyD [OF st] and i = flow_graphD(1) [OF fg a]
  have j: "idn ?m a = nat ?i" by (simp add: idn_def)
  have k: "NK (nat ?i) E_out \<in> K" using a by (auto simp: K j [symmetric])
  have gen: "table Gen g (nat ?i) = table Gen g0 (nat ?i)" by (rule s(5)) (simp add: K)
  show ?thesis
    unfolding init_e_out_def node_get_def wp_bnd [of "gets _"] wp_gets Let_def s(3) nd_get_def if_P [OF i] j
    by (rule wp_seq [OF copy_made [of g Gen, simplified fld.simps, OF s(1)]], rule put_made [OF st _ i k])
       (simp_all add: gen)
qed

text \<open>The equations of reaching definitions, with the gen and kill sets the first loop computes.\<close>

lemma reach_joins:
  assumes fg: "flow_graph (node_mem g0) ns"
    and gen: "\<And>a. a \<in> set ns \<Longrightarrow> table Gen g0 (idn (node_mem g0) a) = {nodeId (node_mem g0 a)}"
  shows "joins ns (idn (node_mem g0)) (preds (node_mem g0)) (\<lambda>a. {nodeId (node_mem g0 a)})
    (\<lambda>a. table Kill g0 (idn (node_mem g0) a)) (reach_eq g0)"
  using flow_graphD [OF fg] gen by (auto simp: joins_def reach_eq_def GOOD_ID_def MAX_NODE_ID_def)

lemma flow_graph_inj:
  "flow_graph m ns \<Longrightarrow> distinct (map (idn m) ns)"
  by (simp add: flow_graph_def)

lemma reaching_definition_wp:
  fixes g :: df
  assumes own: "owned g" and fg: "flow_graph (node_mem g) (gnodes gr)"
  defines "m \<equiv> node_mem g" and "ns \<equiv> gnodes gr"
  shows "wp (reaching_definition gr) (\<lambda>_ g'. steady (node_keys (idn m) (set ns) {Gen, Kill, E_in, E_out}) g g' \<and>
    (\<forall>a\<in>set ns. table E_out g' (idn m a) = {d. carried (preds m) (\<lambda>a. {nodeId (m a)}) (kill_of g) d a} \<and>
      table E_in g' (idn m a) = join_at (idn m) (preds m a) (table E_out g'))) g"
    (is "wp _ ?Q g")
proof -
  note dist = flow_graph_inj [OF fg [folded m_def ns_def]]
  let ?K1 = "node_keys (idn m) (set ns) {Gen, Kill}"
  let ?K2 = "node_keys (idn m) (set ns) {E_out}"
  let ?K3 = "node_keys (idn m) (set ns) {E_in, E_out}"
  let ?V = "\<lambda>f a. if f = Gen then {nodeId (m a)} else kill_of g a"
  have one: "wp (for_each (\<lambda>n _. init_gen_kill n) ns ()) (\<lambda>_ g'. steady ?K1 g g' \<and>
      (\<forall>f\<in>{Gen, Kill}. \<forall>a\<in>set ns. table f g' (idn m a) = ?V f a)) g"
    by (rule init_loop [OF dist steady_refl [OF own]],
        rule wp_mono [OF init_gen_kill_wp [OF fg [folded ns_def]]]) (auto simp: m_def)
  show ?thesis
    unfolding reaching_definition_def ns_def [symmetric]
  proof (rule wp_seq [OF one], elim conjE)
    fix u g1 assume st1: "steady ?K1 g g1"
      and V: "\<forall>f\<in>{Gen, Kill}. \<forall>a\<in>set ns. table f g1 (idn m a) = ?V f a"
    note s1 = steadyD [OF st1]
    have m1: "node_mem g1 = m" using s1(3) by (simp add: m_def)
    have fg1: "flow_graph (node_mem g1) ns" using fg s1(3) by (simp add: ns_def)
    have two: "wp (for_each (\<lambda>n _. init_e_out n) ns ()) (\<lambda>_ g'. steady ?K2 g1 g' \<and>
        (\<forall>f\<in>{E_out}. \<forall>a\<in>set ns. table f g' (idn m a) = {nodeId (m a)})) g1"
      by (rule init_loop [OF dist steady_refl [OF s1(1)]],
          rule wp_mono [OF init_e_out_wp [OF fg1]]) (use V in \<open>auto simp: m1\<close>)
    show "wp (bnd (for_each (\<lambda>n _. init_e_out n) ns ()) (\<lambda>_. until_stable reach_step ns)) ?Q g1"
    proof (rule wp_seq [OF two], elim conjE)
      fix u g2 assume st2: "steady ?K2 g1 g2" and out: "\<forall>f\<in>{E_out}. \<forall>a\<in>set ns. table f g2 (idn m a) = {nodeId (m a)}"
      note s2 = steadyD [OF st2]
      have m2: "node_mem g2 = m" using s2(3) m1 by simp
      have fg2: "flow_graph (node_mem g2) ns" using fg1 m1 m2 by simp
      have gk: "table Gen g2 (idn m a) = {nodeId (m a)}" "table Kill g2 (idn m a) = kill_of g a" if "a \<in> set ns" for a
        using that V s2(5) by auto
      have "wp (until_stable reach_step ns) (\<lambda>_ g'. steady ?K3 g2 g' \<and> (\<forall>a\<in>set ns.
          table E_out g' (idn m a) = {d. carried (preds m) (\<lambda>a. {nodeId (m a)}) (\<lambda>a. table Kill g2 (idn m a)) d a} \<and>
          table E_in g' (idn m a) = join_at (idn m) (preds m a) (table E_out g'))) g2"
        by (rule join_result [OF dist reach_joins [OF fg2, unfolded m2] reach_step_recomputes [OF fg2, unfolded m2]
            steady_refl [OF s2(1)]]) (use gk out in auto)
      moreover have "carried (preds m) (\<lambda>a. {nodeId (m a)}) (\<lambda>a. table Kill g2 (idn m a)) d a =
          carried (preds m) (\<lambda>a. {nodeId (m a)}) (kill_of g) d a" if "a \<in> set ns" for d a
        by (rule carried_cong [where A = "set ns"]) (use gk(2) that flow_graphD(2) [OF fg2] m2 in auto)
      moreover have "steady (node_keys (idn m) (set ns) {Gen, Kill, E_in, E_out}) g g'" if "steady ?K3 g2 g'" for g'
        by (rule steady_trans [OF st1 steady_trans [OF st2 that, of ?K3]]) (auto simp: node_keys_def)
      ultimately show "wp (until_stable reach_step ns) ?Q g2"
        by (auto elim: wp_mono)
    qed
  qed
qed

end
