(* ===== verification/Dataflow_Live.thy ===== *)
theory Dataflow_Live
  imports Dataflow_Analyses
begin

text \<open>
  Live variables, \<open>live_variable\<close> of \<open>src/src/library/libflow/dataflow.c\<close>: a backward analysis over the
  registers that the nodes read and write.
\<close>

definition live_eq :: "df \<Rightarrow> nat \<Rightarrow> (nat \<Rightarrow> int set) \<Rightarrow> int set" where
  "live_eq g a D = table Use g (idn (node_mem g) a) \<union>
     (join_at (idn (node_mem g)) (succs (node_mem g) a) D - table Def g (idn (node_mem g) a))"

lemma live_step_recomputes:
  assumes fg: "flow_graph (node_mem g0) ns"
  defines "K \<equiv> node_keys (idn (node_mem g0)) (set ns) {V_in, V_out}"
  shows "recomputes (steady K g0) (table V_out) (table V_in) ns (idn (node_mem g0)) (live_eq g0)
    (\<lambda>a. join_at (idn (node_mem g0)) (succs (node_mem g0) a)) live_step"
  unfolding recomputes_def
proof (intro ballI allI impI)
  fix a c g assume a: "a \<in> set ns" and st: "steady K g0 g"
  note s = steadyD [OF st] and d = flow_graphD [OF fg a]
  let ?m = "node_mem g0" and ?i = "nodeId (node_mem g0 a)"
  let ?X = "join_at (idn ?m) (succs ?m a) (table V_in g)"
  have k: "NK (idn ?m a) V_out \<in> K" "NK (idn ?m a) V_in \<in> K" "NK (idn ?m a) Use \<notin> K" "NK (idn ?m a) Def \<notin> K"
    using a by (auto simp: K_def)
  have "wp (join_arcs Set_union destinationNode V_in (destinationArcs (?m a)) None) (lib.made g ?X) g"
    using join_arcs_wp(1) [OF s(1) lib.made_nil [OF owned_wf [OF s(1)]], of "destinationArcs (?m a)" destinationNode V_in]
      d(5) s(3) by (simp add: join_at_def succs_def table_def)
  from flow_step(2) [OF st this d(1), of V_out V_in Use Def c] k
  show "wp (live_step a c) (\<lambda>c' g'. steady K g0 g' \<and>
      table V_in g' = (table V_in g)(idn ?m a := live_eq g0 a (table V_in g)) \<and>
      table V_out g' = (table V_out g)(idn ?m a := ?X) \<and>
      c' = (if table V_in g (idn ?m a) = live_eq g0 a (table V_in g) then c else c + 1)) g"
    unfolding live_step_def node_get_def wp_bnd [of "gets _"] wp_gets Let_def s(3)
    by (simp only: fld.simps live_eq_def idn_def simp_thms nfield.distinct)
qed

text \<open>What the first loop leaves in the fields of a node.\<close>

definition live_start :: "df \<Rightarrow> nfield \<Rightarrow> nat \<Rightarrow> int set" where
  "live_start g f i = (if f = Use then table Src_reg g i else if f = Def then table Dest_reg g i else {})"

lemma init_live_wp:
  assumes fg: "flow_graph (node_mem g0) ns" and a: "a \<in> set ns" and st: "steady K g0 g"
    and K: "K = node_keys (idn (node_mem g0)) (set ns) {Use, Def, V_in, V_out}"
  shows "wp (init_live a) (\<lambda>_ g'. steady K g0 g' \<and> (\<forall>f\<in>{Use, Def, V_in, V_out}.
      table f g' = (table f g)(idn (node_mem g0) a := live_start g0 f (idn (node_mem g0) a)))) g"
    (is "wp _ ?Q g")
proof -
  let ?m = "node_mem g0"
  let ?i = "nodeId (?m a)"
  note s = steadyD [OF st] and i = flow_graphD(1) [OF fg a]
  have j: "idn ?m a = nat ?i" by (simp add: idn_def)
  have k: "NK (nat ?i) f \<in> K" if "f \<in> {Use, Def, V_in, V_out}" for f using that a by (auto simp: K j [symmetric])
  have reg: "table Src_reg g (nat ?i) = table Src_reg g0 (nat ?i)" "table Dest_reg g (nat ?i) = table Dest_reg g0 (nat ?i)"
    by (rule s(5), simp add: K)+
  let ?n = "nodes g (nat ?i)"
  show ?thesis
    unfolding init_live_def node_get_def wp_bnd [of "gets _"] wp_gets Let_def s(3) nd_get_def if_P [OF i] j
  proof (rule wp_seq [OF copy_made [of g Src_reg, simplified fld.simps, OF s(1)]], subst wp_bnd,
      rule put_made [OF st _ i k], assumption, simp)
    fix u g1 g2
    assume st2: "steady K g0 g2" and h2: "handle g2 = (handle g)(NK (nat ?i) Use := u)"
      and t2: "table Use g2 = (table Use g)(nat ?i := table Src_reg g (nat ?i))" "\<And>f'. f' \<noteq> Use \<Longrightarrow> table f' g2 = table f' g"
    have "dest_reg ?n = dest_reg (nodes g2 (nat ?i))"
      using fun_cong [OF h2, of "NK (nat ?i) Dest_reg"] by (simp add: handle.simps)
    then have cp: "wp (Set_union (dest_reg ?n) None) (lib.made g2 (table Dest_reg g (nat ?i))) g2"
      using copy_made [of g2 Dest_reg "nat ?i", OF steadyD(1) [OF st2]] t2(2) by simp
    have nil: "lib.made g' {} None g'" if "steady K g0 g'" for g'
      using that by (intro lib.made_nil owned_wf steadyD(1))
    show "wp (bnd (Set_union (dest_reg ?n) None) (\<lambda>d. bnd (nd_put ?i (fld_upd Def d)) (\<lambda>_.
        bnd (nd_put ?i (fld_upd V_in None)) (\<lambda>_. nd_put ?i (fld_upd V_out None))))) (\<lambda>_ g'. steady K g0 g' \<and>
        (\<forall>f\<in>{Use, Def, V_in, V_out}. table f g' = (table f g)(nat ?i := live_start g0 f (nat ?i)))) g2"
      apply (rule wp_seq [OF cp], subst wp_bnd, rule put_made [OF st2 _ i k], assumption, simp)
      apply (subst wp_bnd, rule put_made [OF _ nil i k], assumption, assumption, simp)
      apply (rule put_made [OF _ nil i k], assumption, assumption, simp)
      apply (simp add: t2 reg live_start_def)
      done
  qed
qed

text \<open>The registers read and written are within the table of registers.\<close>

definition regs_in_range :: "df \<Rightarrow> bool" where
  "regs_in_range g = (\<forall>i. table Src_reg g i \<subseteq> {0..<MAX_REG_ID} \<and> table Dest_reg g i \<subseteq> {0..<MAX_REG_ID})"

lemma live_variable_wp:
  fixes g :: df
  assumes own: "owned g" and fg: "flow_graph (node_mem g) (gnodes gr)" and regs: "regs_in_range g"
  defines "m \<equiv> node_mem g" and "ns \<equiv> gnodes gr"
  shows "wp (live_variable gr) (\<lambda>_ g'. steady (node_keys (idn m) (set ns) {Use, Def, V_in, V_out}) g g' \<and>
    (\<forall>a\<in>set ns. table V_in g' (idn m a) = {r. carried (succs m) (\<lambda>a. table Src_reg g (idn m a))
        (\<lambda>a. table Dest_reg g (idn m a)) r a} \<and>
      table V_out g' (idn m a) = join_at (idn m) (succs m a) (table V_in g'))) g"
    (is "wp _ ?Q g")
proof -
  note dist = flow_graph_inj [OF fg [folded m_def ns_def]]
  let ?K1 = "node_keys (idn m) (set ns) {Use, Def, V_in, V_out}"
  let ?K2 = "node_keys (idn m) (set ns) {V_in, V_out}"
  have one: "wp (for_each (\<lambda>n _. init_live n) ns ()) (\<lambda>_ g'. steady ?K1 g g' \<and>
      (\<forall>f\<in>{Use, Def, V_in, V_out}. \<forall>a\<in>set ns. table f g' (idn m a) = live_start g f (idn m a))) g"
    by (rule init_loop [OF dist steady_refl [OF own]],
        rule wp_mono [OF init_live_wp [OF fg [folded ns_def]]]) (auto simp: m_def)
  show ?thesis
    unfolding live_variable_def ns_def [symmetric]
  proof (rule wp_seq [OF one], elim conjE)
    fix u g1 assume st1: "steady ?K1 g g1"
      and V: "\<forall>f\<in>{Use, Def, V_in, V_out}. \<forall>a\<in>set ns. table f g1 (idn m a) = live_start g f (idn m a)"
    note s1 = steadyD [OF st1]
    have m1: "node_mem g1 = m" using s1(3) by (simp add: m_def)
    have fg1: "flow_graph (node_mem g1) ns" using fg s1(3) by (simp add: ns_def)
    let ?gn = "\<lambda>a. table Src_reg g (idn m a)" and ?kl = "\<lambda>a. table Dest_reg g (idn m a)"
    have "joins ns (idn m) (succs m) ?gn ?kl (live_eq g1)"
      using V flow_graphD(3) [OF fg1] regs
      by (simp add: joins_def live_eq_def m1 live_start_def regs_in_range_def MAX_REG_ID_def)
    then have "wp (until_stable live_step ns) (\<lambda>_ g'. steady ?K2 g1 g' \<and> (\<forall>a\<in>set ns.
        table V_in g' (idn m a) = {d. carried (succs m) ?gn ?kl d a} \<and>
        table V_out g' (idn m a) = join_at (idn m) (succs m a) (table V_in g'))) g1"
      by (rule join_result [OF dist _ live_step_recomputes [OF fg1, unfolded m1] steady_refl [OF s1(1)]])
         (use V in \<open>simp add: live_start_def\<close>)
    moreover have "steady ?K1 g g'" if "steady ?K2 g1 g'" for g'
      by (rule steady_trans [OF st1 that]) (auto simp: node_keys_def)
    ultimately show "wp (until_stable live_step ns) ?Q g1"
      by (auto elim: wp_mono)
  qed
qed

end
