(* ===== verification/Dataflow_Meet.thy ===== *)
theory Dataflow_Meet
  imports Dataflow_Live
begin

text \<open>
  The analyses of \<open>src/src/library/libflow/dataflow.c\<close> that start from all elements and intersect: the
  available expressions of \<open>ud_chain\<close>, the dominators and the post-dominators.
\<close>

section \<open>The loop\<close>

lemmas meet_result = greatest_wp [where P = "steady K g0" and ti = "table fi" and tab = "table fo" for K g0 fi fo, folded until_stable_def]

lemma steady_dispose:
  assumes st: "steady K g0 g" and x: "loose g x" and new: "\<And>z. loose g0 z \<Longrightarrow> apart z x"
  shows "wp (Set_dispose x) (\<lambda>_ g'. steady K g0 g' \<and> handle g' = handle g) g"
  by (rule wp_mono [OF dispose_loose [OF steadyD(1) [OF st] x]])
     (use st new in \<open>auto simp: steady_def content_def\<close>)

lemma table_handle: "handle g' = handle g \<Longrightarrow> table f g' = table f g"
  by (simp add: table_def content_def fun_eq_iff)

section \<open>Dominators\<close>

text \<open>
  Both analyses intersect the field \<open>f\<close> over the neighbours \<open>nb\<close> of a node and add the node itself. A
  node without neighbours is dominated by itself only.
\<close>

definition dom_eq :: "(nat \<Rightarrow> gnode) \<Rightarrow> (nat \<Rightarrow> nat set) \<Rightarrow> nat \<Rightarrow> (nat \<Rightarrow> int set) \<Rightarrow> int set" where
  "dom_eq m nb a D = insert (nodeId (m a)) (if nb a = {} then {} else meet_at (idn m) (nb a) D)"

lemma meet_arcs_wp:
  assumes own: "owned g" and good: "\<And>arc. arc \<in> set arcs \<Longrightarrow> GOOD_ID (nodeId (node_mem g (far arc)))"
  shows "wp (meet_arcs far f arcs)
    (lib.made g (if arcs = [] then {} else meet_at (idn (node_mem g)) (far ` set arcs) (table f g))) g"
proof (cases arcs)
  case Nil
  then show ?thesis using lib.made_nil [OF owned_wf [OF own]] by (simp add: meet_arcs_def)
next
  case (Cons arc rest)
  let ?h = "handle g (NK (idn (node_mem g) (far arc)) f)"
  have "wp (Set_union ?h None) (lib.made g (content g (NK (idn (node_mem g) (far arc)) f))) g"
    using lib.union_made [OF owned_wf [OF own] owned_live [OF own], of None] by (simp add: content_def)
  moreover have "wp (join_arcs Set_intersect far f rest x)
      (lib.made g (meet_at (idn (node_mem g)) (far ` set arcs) (table f g))) g1"
    if "lib.made g (content g (NK (idn (node_mem g) (far arc)) f)) x g1" for x g1
    using join_arcs_wp(2) [OF own that, of rest far f] good
    by (simp add: Cons meet_at_def table_def)
  ultimately have "wp (bnd (Set_union ?h None) (\<lambda>x. join_arcs Set_intersect far f rest x))
      (lib.made g (meet_at (idn (node_mem g)) (far ` set arcs) (table f g))) g"
    by (rule wp_seq)
  then show ?thesis
    using good [of arc] Cons by (simp add: meet_arcs_def node_get_def nd_get_def idn_def handle.simps)
qed

lemma dom_step_recomputes:
  fixes f :: nfield
  assumes fg: "flow_graph (node_mem g0) ns"
    and nb: "\<And>a. nb a = far ` set (arcs (node_mem g0 a))"
    and good: "\<And>a arc. a \<in> set ns \<Longrightarrow> arc \<in> set (arcs (node_mem g0 a)) \<Longrightarrow> GOOD_ID (nodeId (node_mem g0 (far arc)))"
  defines "K \<equiv> node_keys (idn (node_mem g0)) (set ns) {f}"
  shows "recomputes (steady K g0) (table f) (table f) ns (idn (node_mem g0)) (dom_eq (node_mem g0) nb) (dom_eq (node_mem g0) nb)
    (dom_step arcs far f)"
  unfolding recomputes_def
proof (intro ballI allI impI)
  fix a and c :: int and g assume a: "a \<in> set ns" and st: "steady K g0 g"
  note s = steadyD [OF st] and i = flow_graphD(1) [OF fg a]
  let ?m = "node_mem g0"
  let ?i = "nodeId (?m a)" and ?X = "dom_eq ?m nb a (table f g)"
  have j: "idn ?m a = nat ?i" by (simp add: idn_def)
  have k: "NK (nat ?i) f \<in> K" using a by (auto simp: K_def j [symmetric])
  let ?P = "\<lambda>c' g'. steady K g0 g' \<and> table f g' = (table f g)(nat ?i := ?X) \<and>
      c' = (if table f g (nat ?i) = ?X then c else c + 1)"
  have meet: "wp (meet_arcs far f (arcs (?m a)))
      (lib.made g (if nb a = {} then {} else meet_at (idn ?m) (nb a) (table f g))) g"
    using meet_arcs_wp [OF s(1), of "arcs (?m a)" far f] good [OF a] s(3) by (cases "arcs (?m a) = []") (simp_all add: nb)
  show "wp (dom_step arcs far f a c) (\<lambda>c' g'. steady K g0 g' \<and>
      table f g' = (table f g)(idn ?m a := ?X) \<and> table f g' = (table f g)(idn ?m a := ?X) \<and>
      c' = (if table f g (idn ?m a) = ?X then c else c + 1)) g"
    unfolding dom_step_def node_get_def wp_bnd [of "gets _"] wp_gets Let_def s(3) j nd_get_def [of ?i] if_P [OF i]
  proof (rule wp_seq [OF meet], rule wp_seq [OF add_made [OF _ GOOD_ID_nonmin [OF i]]], assumption)
    fix u g1 temp g2
    assume temp: "lib.made g (insert ?i (if nb a = {} then {} else meet_at (idn ?m) (nb a) (table f g))) temp g2"
    note m2 = loose_made [OF s(1) temp]
    note f2 = grows_fields [OF m2(3)]
    have old: "wf_set (fld f (nodes g (nat ?i)))" "wf_set temp"
      using owned_node [OF s(1)] loose_live [OF m2(1)] by (auto dest: live_wf)
    have el: "elems temp = ?X" "elems (fld f (nodes g (nat ?i))) = table f g (nat ?i)"
      using m2(4) by (simp_all add: dom_eq_def table_def content_def handle.simps)
    have c: "(if elems temp \<noteq> elems (fld f (nodes g (nat ?i))) then c + 1 else c) =
        (if table f g (nat ?i) = ?X then c else c + 1)"
      using el by auto
    have "wp (bnd (nd_get ?i) (\<lambda>n. bnd (Set_dispose (fld f n)) (\<lambda>z. bnd (nd_put ?i (fld_upd f z)) (\<lambda>_.
        bnd (nd_put ?i (fld_upd f temp)) (\<lambda>_. ret (if table f g (nat ?i) = ?X then c else c + 1)))))) ?P g2"
    proof (rule dispose_put_wp [OF m2(2,1) i])
      fix g' assume g': "owned g'" "handle g' = (handle g2)(NK (nat ?i) f := temp)" "skel g' = skel g2"
        "\<And>y. loose g2 y \<Longrightarrow> apart y temp \<Longrightarrow> loose g' y"
      have "loose g' z" if "loose g z" for z
        using that m2(3) m2(5) [OF loose_live [OF that]] by (intro g'(4)) (auto intro: loose_grows apart_sym)
      with steady_store [where fi = f and x = temp and fo = f and y = temp, OF st m2(3) g'(1,3)] g'(2) k el(1)
      show "?P (if table f g (nat ?i) = ?X then c else c + 1) g'" by simp
    qed
    then show "wp (bnd (Set_same temp (fld f (nodes g (nat ?i)))) (\<lambda>same.
        bnd (gets (\<lambda>g. nodes g (nat ?i))) (\<lambda>n. bnd (Set_dispose (fld f n)) (\<lambda>z. bnd (nd_put ?i (fld_upd f z)) (\<lambda>_.
        bnd (nd_put ?i (fld_upd f temp)) (\<lambda>_. ret (if \<not> same then c + 1 else c))))))) (\<lambda>c' g'. steady K g0 g' \<and>
      table f g' = (table f g)(nat ?i := ?X) \<and> table f g' = (table f g)(nat ?i := ?X) \<and>
      c' = (if table f g (nat ?i) = ?X then c else c + 1)) g2"
      unfolding wp_bnd [of "Set_same _ _"] wp_Set_same [OF old(2,1)] c nd_get_def if_P [OF i]
      by (rule wp_mono) simp
  qed
qed

text \<open>The first loop: the old results are disposed of and all identifiers are collected.\<close>

lemma steady_grows: "steady K g0 g \<Longrightarrow> grows g g' \<Longrightarrow> steady K g0 g'"
  by (frule grows_fields(1), frule grows_fields(2))
     (auto simp: steady_def content_def intro: owned_grows loose_grows)

lemma dom_collect_wp:
  assumes fg: "flow_graph (node_mem g0) ns" and a: "a \<in> set ns" and st: "steady K g0 g"
    and K: "K = node_keys (idn (node_mem g0)) (set ns) {f}"
    and all: "loose g all" "\<And>z. loose g0 z \<Longrightarrow> apart z all"
  shows "wp (dom_collect f a all) (\<lambda>all' g'. steady K g0 g' \<and> loose g' all' \<and>
    elems all' = insert (nodeId (node_mem g0 a)) (elems all) \<and> (\<forall>z. loose g0 z \<longrightarrow> apart z all')) g"
proof -
  let ?m = "node_mem g0"
  let ?i = "nodeId (?m a)"
  let ?Q = "\<lambda>all' g'. steady K g0 g' \<and> loose g' all' \<and> elems all' = insert ?i (elems all) \<and>
    (\<forall>z. loose g0 z \<longrightarrow> apart z all')"
  note s = steadyD [OF st] and i = flow_graphD(1) [OF fg a]
  have k: "NK (nat ?i) f \<in> K" using a by (auto simp: K idn_def)
  have add: "wp (Set_add all ?i) ?Q g1" if st1: "steady K g0 g1" and lo: "loose g1 all" for g1
    by (rule wp_mono [OF add_loose [OF steadyD(1) [OF st1] lo GOOD_ID_nonmin [OF i]]])
       (use all(2) loose_live [OF steadyD(6) [OF st1]] steady_grows [OF st1] in auto)
  have reset: "wp (bnd (Set_dispose (fld f (nodes g (nat ?i)))) (\<lambda>x. nd_put ?i (fld_upd f x)))
      (\<lambda>_ g'. steady K g0 g' \<and> loose g' all) g"
  proof (rule dispose_reset_wp [OF s(1) i])
    fix g' assume g': "owned g'" "handle g' = (handle g)(NK (nat ?i) f := None)" "skel g' = skel g"
      "\<And>y. loose g y \<Longrightarrow> loose g' y"
    then show "steady K g0 g' \<and> loose g' all"
      using st k all(1) by (auto simp: steady_def content_def)
  qed
  have "wp (if fld f (nodes g (nat ?i)) \<noteq> None
      then bnd (Set_dispose (fld f (nodes g (nat ?i)))) (\<lambda>x. nd_put ?i (fld_upd f x)) else ret ())
      (\<lambda>_ g'. steady K g0 g' \<and> loose g' all) g"
    using reset st all(1) by (simp del: wp_bnd)
  then show ?thesis
    unfolding dom_collect_def node_get_def wp_bnd [of "gets _"] wp_gets Let_def s(3) nd_get_def [of ?i] if_P [OF i]
    by (rule wp_seq) (use add in blast)
qed

lemma dom_collect_loop:
  assumes own: "owned g" and fg: "flow_graph (node_mem g) ns" and K: "K = node_keys (idn (node_mem g)) (set ns) {f}"
  shows "wp (for_each (dom_collect f) ns None) (\<lambda>all g'. steady K g g' \<and>
    loose g' all \<and> elems all = (nodeId \<circ> node_mem g) ` set ns \<and> (\<forall>z. loose g z \<longrightarrow> apart z all)) g"
    (is "wp _ (?I (set ns)) g")
proof (rule wp_for_each [where I = "\<lambda>k. ?I (set (take k ns))"])
  show "?I (set (take 0 ns)) None g" using own by (simp add: steady_refl)
  fix k all h assume k: "k < length ns" and "?I (set (take k ns)) all h"
  then show "wp (dom_collect f (ns ! k) all) (?I (set (take (Suc k) ns))) h"
    by (intro wp_mono [OF dom_collect_wp [OF fg _ _ K]]) (auto simp: take_Suc_conv_app_nth)
qed simp

text \<open>The whole analysis, for a second loop that leaves suitable sets.\<close>

definition node_ids :: "(nat \<Rightarrow> gnode) \<Rightarrow> nat list \<Rightarrow> int set" where
  "node_ids m ns = (nodeId \<circ> m) ` set ns"

definition ends :: "(nat \<Rightarrow> nat set) \<Rightarrow> nat \<Rightarrow> int set" where
  "ends nb a = (if nb a = {} then UNIV else {})"

lemma node_ids_range: "flow_graph m ns \<Longrightarrow> node_ids m ns \<subseteq> {0..<16384}"
  using flow_graphD(1) by (fastforce simp: node_ids_def GOOD_ID_def MAX_NODE_ID_def)

lemma dom_eq_meets:
  assumes "\<And>a. a \<in> set ns \<Longrightarrow> nb a \<subseteq> set ns"
  shows "meets ns (idn m) (node_ids m ns) nb (\<lambda>a. {nodeId (m a)}) (ends nb) (dom_eq m nb)"
  unfolding meets_def
proof (intro ballI allI impI)
  fix a D assume a: "a \<in> set ns" and D: "\<forall>b\<in>set ns. D (idn m b) \<subseteq> node_ids m ns"
  show "dom_eq m nb a D = {d \<in> node_ids m ns. d \<in> {nodeId (m a)} \<or> d \<notin> ends nb a \<and>
      (\<forall>b\<in>nb a. d \<in> (if b \<in> set ns then D (idn m b) else {nodeId (m b)}))}"
  proof (cases "nb a = {}")
    case True
    with a show ?thesis by (auto simp: dom_eq_def ends_def node_ids_def)
  next
    case False
    have "nb a \<subseteq> set ns" by (rule assms [OF a])
    moreover from this False D have "meet_at (idn m) (nb a) D \<subseteq> node_ids m ns" unfolding meet_at_def by blast
    moreover have "nodeId (m a) \<in> node_ids m ns" using a by (simp add: node_ids_def)
    ultimately show ?thesis
      using False by (auto simp: dom_eq_def ends_def meet_at_def)
  qed
qed

lemma dom_eq_mono:
  assumes "\<And>a. a \<in> set ns \<Longrightarrow> nb a \<subseteq> set ns"
  shows "downward.mono_on ns (idn m) (dom_eq m nb)"
  unfolding downward.mono_on_def
proof (intro ballI allI impI)
  fix a D D' assume a: "a \<in> set ns" and le: "\<forall>b\<in>set ns. D' (idn m b) \<subseteq> (D (idn m b) :: int set)"
  have "meet_at (idn m) (nb a) D' \<subseteq> meet_at (idn m) (nb a) D"
    using assms [OF a] le unfolding meet_at_def by blast
  then show "dom_eq m nb a D' \<subseteq> dom_eq m nb a D" by (auto simp: dom_eq_def)
qed

lemma dom_eq_closed:
  assumes "\<And>a. a \<in> set ns \<Longrightarrow> nb a \<subseteq> set ns" "flow_graph m ns"
  shows "downward.closed_on ns (idn m) (dom_eq m nb)"
  unfolding downward.closed_on_def
proof (intro ballI allI impI)
  fix a D assume a: "a \<in> set ns" and D: "\<forall>b\<in>set ns. D (idn m b) \<subseteq> {0..<16384 :: int}"
  have "meet_at (idn m) (nb a) D \<subseteq> {0..<16384}" if "nb a \<noteq> {}"
    using that assms(1) [OF a] D unfolding meet_at_def by blast
  moreover have "nodeId (m a) \<in> {0..<16384}"
    using node_ids_range [OF assms(2)] a by (auto simp: node_ids_def)
  ultimately show "dom_eq m nb a D \<subseteq> {0..<16384}" by (simp add: dom_eq_def)
qed

lemma dom_analysis:
  fixes g :: df and f :: nfield
  assumes own: "owned g" and fg: "flow_graph (node_mem g) ns"
    and nb: "\<And>a. nb a = far ` set (arcs (node_mem g a))"
    and good: "\<And>a arc. a \<in> set ns \<Longrightarrow> arc \<in> set (arcs (node_mem g a)) \<Longrightarrow> far arc \<in> set ns"
    and start: "\<And>all a g0 g1. node_mem g0 = node_mem g \<Longrightarrow> a \<in> set ns \<Longrightarrow> loose g0 all \<Longrightarrow>
      elems all = node_ids (node_mem g) ns \<Longrightarrow> steady (node_keys (idn (node_mem g)) (set ns) {f}) g0 g1 \<Longrightarrow>
      wp (init all a) (\<lambda>_ g'. steady (node_keys (idn (node_mem g)) (set ns) {f}) g0 g' \<and>
        (\<forall>f'\<in>{f}. table f' g' = (table f' g1)(idn (node_mem g) a := V a))) g1"
    and V: "\<And>a. a \<in> set ns \<Longrightarrow> {d\<in>node_ids (node_mem g) ns. d = nodeId (node_mem g a) \<or> nb a \<noteq> {}} \<subseteq> V a"
      "\<And>a. a \<in> set ns \<Longrightarrow> V a \<subseteq> node_ids (node_mem g) ns"
  shows "wp (bnd (for_each (dom_collect f) ns None) (\<lambda>all.
      bnd (for_each (\<lambda>a _. init all a) ns ()) (\<lambda>_.
      bnd (until_stable (dom_step arcs far f) ns) (\<lambda>_.
      bnd (Set_dispose all) (\<lambda>_. ret ())))))
    (\<lambda>_ g'. steady (node_keys (idn (node_mem g)) (set ns) {f}) g g' \<and> (\<forall>a\<in>set ns.
      table f g' (idn (node_mem g) a) = {d\<in>node_ids (node_mem g) ns.
        \<not> lost ns (node_ids (node_mem g) ns) nb (\<lambda>a. {nodeId (node_mem g a)}) (ends nb) d a})) g"
proof -
  let ?m = "node_mem g" and ?U = "node_ids (node_mem g) ns"
  let ?K = "node_keys (idn ?m) (set ns) {f}"
  let ?R = "\<lambda>a. {d\<in>?U. \<not> lost ns ?U nb (\<lambda>a. {nodeId (?m a)}) (ends nb) d a}"
  note dist = flow_graph_inj [OF fg]
  have nbs: "nb a \<subseteq> set ns" if "a \<in> set ns" for a using good [OF that] by (auto simp: nb)
  have V': "{d\<in>?U. d \<in> {nodeId (?m a)} \<or> d \<notin> ends nb a} \<subseteq> V a" if "a \<in> set ns" for a
    using V(1) [OF that] by (cases "nb a = {}") (auto simp: ends_def)
  show ?thesis
  proof (rule wp_seq [OF dom_collect_loop [OF own fg refl]], elim conjE)
    fix all g1 assume st1: "steady ?K g g1" and all: "loose g1 all" "elems all = (nodeId \<circ> ?m) ` set ns"
      and ap: "\<forall>z. loose g z \<longrightarrow> apart z all"
    note s1 = steadyD [OF st1]
    have two: "wp (for_each (\<lambda>a _. init all a) ns ()) (\<lambda>_ g'. steady ?K g1 g' \<and>
        (\<forall>f'\<in>{f}. \<forall>a\<in>set ns. table f' g' (idn ?m a) = V a)) g1"
      using all s1(3)
      by (intro init_loop [OF dist steady_refl [OF s1(1)]] start) (simp_all add: node_ids_def)
    show "wp (bnd (for_each (\<lambda>a _. init all a) ns ()) (\<lambda>_. bnd (until_stable (dom_step arcs far f) ns) (\<lambda>_.
        bnd (Set_dispose all) (\<lambda>_. ret ())))) (\<lambda>_ g'. steady ?K g g' \<and> (\<forall>a\<in>set ns. table f g' (idn ?m a) = ?R a)) g1"
    proof (rule wp_seq [OF two], elim conjE)
      fix u g2 assume st2: "steady ?K g1 g2" and V2: "\<forall>f'\<in>{f}. \<forall>a\<in>set ns. table f' g2 (idn ?m a) = V a"
      note s2 = steadyD [OF st2]
      have m2: "node_mem g2 = ?m" using s1(3) s2(3) by simp
      have step: "recomputes (steady ?K g2) (table f) (table f) ns (idn ?m) (dom_eq ?m nb) (dom_eq ?m nb) (dom_step arcs far f)"
        using dom_step_recomputes [of g2 ns nb far arcs f] m2 fg nb good flow_graphD(1) [OF fg] by simp
      have loop: "wp (until_stable (dom_step arcs far f) ns) (\<lambda>_ g'. steady ?K g2 g' \<and> (\<forall>a\<in>set ns.
          table f g' (idn ?m a) = ?R a \<and> table f g' (idn ?m a) = dom_eq ?m nb a (table f g'))) g2"
        by (rule meet_result [OF dist dom_eq_meets [OF nbs] dom_eq_mono [OF nbs] dom_eq_closed [OF nbs fg]
              node_ids_range [OF fg] step steady_refl [OF s2(1)]])
           (use V2 V' V(2) in simp_all)
      show "wp (bnd (until_stable (dom_step arcs far f) ns) (\<lambda>_. bnd (Set_dispose all) (\<lambda>_. ret ())))
          (\<lambda>_ g'. steady ?K g g' \<and> (\<forall>a\<in>set ns. table f g' (idn ?m a) = ?R a)) g2"
      proof (rule wp_seq [OF loop], elim conjE)
        fix u g3 assume st3: "steady ?K g2 g3" and R: "\<forall>a\<in>set ns. table f g3 (idn ?m a) = ?R a \<and>
          table f g3 (idn ?m a) = dom_eq ?m nb a (table f g3)"
        have st: "steady ?K g g3"
          by (rule steady_trans [OF st1 steady_trans [OF st2 st3 subset_refl subset_refl]]) auto
        have "loose g3 all" using steadyD(6) [OF st3 s2(6) [OF all(1)]] .
        from steady_dispose [OF st this] ap
        have "wp (Set_dispose all) (\<lambda>_ g'. steady ?K g g' \<and> handle g' = handle g3) g3" by blast
        moreover have "\<forall>a\<in>set ns. table f g' (idn ?m a) = ?R a" if "handle g' = handle g3" for g'
          unfolding table_handle [OF that] using R by (intro ballI) (drule (1) bspec, erule conjunct1)
        ultimately show "wp (bnd (Set_dispose all) (\<lambda>_. ret ()))
            (\<lambda>_ g'. steady ?K g g' \<and> (\<forall>a\<in>set ns. table f g' (idn ?m a) = ?R a)) g3"
          unfolding wp_bnd wp_ret by (elim wp_mono) blast
      qed
    qed
  qed
qed

text \<open>Copying \<open>all\<close>, and a set of one node.\<close>

lemma copy_loose: "owned g \<Longrightarrow> loose g x \<Longrightarrow> wp (Set_union None x) (lib.made g (elems x)) g"
  using lib.union_made [OF owned_wf, of g None x] by (simp add: loose_live)

lemma single_made: "owned g \<Longrightarrow> GOOD_ID i \<Longrightarrow> wp (Set_add None i) (lib.made g {i}) g"
  using add_made [OF lib.made_nil [OF owned_wf] GOOD_ID_nonmin] by simp

text \<open>
  \<open>dominator\<close> takes no account of the entry node: the set of the entry is overwritten with \<open>all\<close>, and
  what stops the iteration are the nodes without predecessors.
\<close>

lemma dominator_wp:
  fixes g :: df
  assumes own: "owned g" and fg: "flow_graph (node_mem g) (gnodes gr)"
  defines "m \<equiv> node_mem g" and "ns \<equiv> gnodes gr"
  shows "wp (dominator gr ent) (\<lambda>_ g'. steady (node_keys (idn m) (set ns) {Dom}) g g' \<and> (\<forall>a\<in>set ns.
    table Dom g' (idn m a) = {d\<in>node_ids m ns.
      \<not> lost ns (node_ids m ns) (preds m) (\<lambda>a. {nodeId (m a)}) (ends (preds m)) d a})) g"
  unfolding dominator_def m_def ns_def
proof (rule dom_analysis [OF own fg, where V = "\<lambda>_. node_ids (node_mem g) (gnodes gr)"], goal_cases)
  case (3 all a g0 g1)
  let ?K = "node_keys (idn (node_mem g)) (set (gnodes gr)) {Dom}"
  let ?i = "nodeId (node_mem g a)"
  note s = steadyD [OF 3(5)] and i = flow_graphD(1) [OF fg 3(2)]
  have k: "NK (nat ?i) Dom \<in> ?K" using 3(2) by (auto simp: idn_def)
  have m: "node_mem g1 = node_mem g" using s(3) 3(1) by simp
  have all: "loose g1 all" by (rule s(6) [OF 3(3)])
  let ?P = "\<lambda>_ g'. steady ?K g0 g' \<and> table Dom g' = (table Dom g1)(nat ?i := node_ids (node_mem g) (gnodes gr))"
  have rest: "wp (bnd (Set_union None all) (\<lambda>x. nd_put ?i (fld_upd Dom x))) ?P g2"
    if st2: "steady ?K g0 g2" and t: "\<exists>X. table Dom g2 = (table Dom g1)(nat ?i := X)" for g2
  proof (rule wp_seq [OF copy_loose [OF steadyD(1) [OF st2] steadyD(6) [OF st2 3(3)]]],
      rule put_made [OF st2 _ i k], assumption)
    fix x g3 g' assume "steady ?K g0 g'" "table Dom g' = (table Dom g2)(nat ?i := elems all)"
    with t 3(4) show "?P () g'" by auto
  qed
  have "wp (bnd (if ent = Some a then bnd (Set_add None ?i) (\<lambda>x. nd_put ?i (fld_upd Dom x)) else ret ()) (\<lambda>_.
      bnd (Set_union None all) (\<lambda>x. nd_put ?i (fld_upd Dom x)))) ?P g1"
  proof (rule wp_seq)
    show "wp (if ent = Some a then bnd (Set_add None ?i) (\<lambda>x. nd_put ?i (fld_upd Dom x)) else ret ())
      (\<lambda>_ g2. steady ?K g0 g2 \<and> (\<exists>X. table Dom g2 = (table Dom g1)(nat ?i := X))) g1"
    proof (cases "ent = Some a")
      case True
      have "wp (bnd (Set_add None ?i) (\<lambda>x. nd_put ?i (fld_upd Dom x)))
        (\<lambda>_ g2. steady ?K g0 g2 \<and> (\<exists>X. table Dom g2 = (table Dom g1)(nat ?i := X))) g1"
        by (rule wp_seq [OF single_made [OF s(1) i]], rule put_made [OF 3(5) _ i k], assumption) auto
      with True show ?thesis by simp
    next
      case False
      with 3(5) show ?thesis by (auto intro!: exI [of _ "table Dom g1 (nat ?i)"])
    qed
  qed (use rest in blast)
  then show ?case
    unfolding node_get_def wp_bnd [of "gets _"] wp_gets Let_def m by (rule wp_mono) (simp add: idn_def)
qed (use flow_graphD(4) [OF fg] fg in \<open>auto simp: preds_def flow_graph_def\<close>)

lemma post_dominator_wp:
  fixes g :: df
  assumes own: "owned g" and fg: "flow_graph (node_mem g) (gnodes gr)"
  defines "m \<equiv> node_mem g" and "ns \<equiv> gnodes gr"
  shows "wp (post_dominator gr ent) (\<lambda>_ g'. steady (node_keys (idn m) (set ns) {Post_dom}) g g' \<and> (\<forall>a\<in>set ns.
    table Post_dom g' (idn m a) = {d\<in>node_ids m ns.
      \<not> lost ns (node_ids m ns) (succs m) (\<lambda>a. {nodeId (m a)}) (ends (succs m)) d a})) g"
  unfolding post_dominator_def m_def ns_def
proof (rule dom_analysis [OF own fg, where V = "\<lambda>a. if succs (node_mem g) a = {} then {nodeId (node_mem g a)}
    else node_ids (node_mem g) (gnodes gr)"], goal_cases)
  case (3 all a g0 g1)
  let ?K = "node_keys (idn (node_mem g)) (set (gnodes gr)) {Post_dom}"
  let ?i = "nodeId (node_mem g a)"
  let ?X = "if succs (node_mem g) a = {} then {?i} else node_ids (node_mem g) (gnodes gr)"
  note s = steadyD [OF 3(5)] and i = flow_graphD(1) [OF fg 3(2)]
  have k: "NK (nat ?i) Post_dom \<in> ?K" using 3(2) by (auto simp: idn_def)
  have m: "node_mem g1 = node_mem g" using s(3) 3(1) by simp
  have "wp (if destinationArcs (node_mem g a) = [] then Set_add None ?i else Set_union None all) (lib.made g1 ?X) g1"
    using copy_loose [OF s(1) s(6) [OF 3(3)]] single_made [OF s(1) i] 3(4) by (simp add: succs_def)
  then have "wp (bnd (if destinationArcs (node_mem g a) = [] then Set_add None ?i else Set_union None all)
      (\<lambda>x. nd_put ?i (fld_upd Post_dom x))) (\<lambda>_ g'. steady ?K g0 g' \<and>
        table Post_dom g' = (table Post_dom g1)(nat ?i := ?X)) g1"
    by (rule wp_seq) (rule put_made [OF 3(5) _ i k], assumption, auto)
  then show ?case
    unfolding node_get_def wp_bnd [of "gets _"] wp_gets Let_def m by (rule wp_mono) (simp add: idn_def)
qed (use fg in \<open>auto simp: succs_def flow_graph_def node_ids_def\<close>)

section \<open>Available expressions\<close>

text \<open>
  The entry node is not recomputed; its set stays that of \<open>g\<close>.
\<close>

definition avail_eq :: "df \<Rightarrow> int set \<Rightarrow> nat \<Rightarrow> nat \<Rightarrow> (nat \<Rightarrow> int set) \<Rightarrow> int set" where
  "avail_eq g U e a D = table Gen g (idn (node_mem g) a) \<union>
     (U \<inter> meet_at (idn (node_mem g)) (preds (node_mem g) a) (D(idn (node_mem g) e := table A_out g (idn (node_mem g) e))) -
      table Kill g (idn (node_mem g) a))"

lemma others:
  assumes "flow_graph m ns" "e \<in> set ns"
  shows "set (filter (\<lambda>a. Some a \<noteq> Some e) ns) = set ns - {e}" "idn m e \<notin> idn m ` (set ns - {e})"
    "distinct (map (idn m) (filter (\<lambda>a. Some a \<noteq> Some e) ns))"
proof -
  have inj: "inj_on (idn m) (set ns)" "distinct ns" using assms(1) by (auto simp: flow_graph_def distinct_map)
  then show "idn m e \<notin> idn m ` (set ns - {e})" using assms(2) by (auto simp: inj_on_def)
  show "set (filter (\<lambda>a. Some a \<noteq> Some e) ns) = set ns - {e}" by auto
  show "distinct (map (idn m) (filter (\<lambda>a. Some a \<noteq> Some e) ns))"
    using inj by (auto simp: distinct_map inj_on_def)
qed

lemma avail_step_recomputes:
  assumes fg: "flow_graph (node_mem g0) ns" and e: "e \<in> set ns" and U: "loose g0 U"
  defines "ns' \<equiv> filter (\<lambda>a. Some a \<noteq> Some e) ns"
  defines "K \<equiv> node_keys (idn (node_mem g0)) (set ns') {A_in, A_out}"
  shows "recomputes (steady K g0) (table A_in) (table A_out) ns' (idn (node_mem g0)) (avail_eq g0 (elems U) e)
    (\<lambda>a D. elems U \<inter> meet_at (idn (node_mem g0)) (preds (node_mem g0) a)
      (D(idn (node_mem g0) e := table A_out g0 (idn (node_mem g0) e)))) (avail_step U (Some e))"
  unfolding recomputes_def
proof (intro ballI allI impI)
  fix a and c :: int and g assume a': "a \<in> set ns'" and st: "steady K g0 g"
  then have a: "a \<in> set ns" "a \<noteq> e" by (auto simp: ns'_def)
  note s = steadyD [OF st] and d = flow_graphD [OF fg a(1)]
  let ?m = "node_mem g0" and ?i = "nodeId (node_mem g0 a)"
  let ?X = "elems U \<inter> meet_at (idn ?m) (preds ?m a) ((table A_out g)(idn ?m e := table A_out g0 (idn ?m e)))"
  have k: "NK (idn ?m a) A_in \<in> K" "NK (idn ?m a) A_out \<in> K" "NK (idn ?m a) Gen \<notin> K" "NK (idn ?m a) Kill \<notin> K"
    using a' by (auto simp: K_def)
  have "NK (idn ?m e) A_out \<notin> K" using others [OF fg e] by (simp add: K_def ns'_def)
  then have e_out: "(table A_out g)(idn ?m e := table A_out g0 (idn ?m e)) = table A_out g"
    using s(5) by (auto simp: fun_eq_iff)
  have "wp (Set_union U None) (lib.made g (elems U)) g"
    using lib.union_made [OF owned_wf [OF s(1)] loose_live [OF s(6) [OF U]], of None] by simp
  then have "wp (bnd (Set_union U None) (\<lambda>x. join_arcs Set_intersect sourceNode A_out (sourceArcs (?m a)) x))
      (lib.made g ?X) g"
  proof (rule wp_seq)
    fix x g1 assume x: "lib.made g (elems U) x g1"
    show "wp (join_arcs Set_intersect sourceNode A_out (sourceArcs (?m a)) x) (lib.made g ?X) g1"
      using join_arcs_wp(2) [OF s(1) x, of "sourceArcs (?m a)" sourceNode A_out] d(4) s(3)
      unfolding e_out by (simp add: meet_at_def preds_def table_def)
  qed
  from flow_step(1) [OF st this d(1), of A_in A_out Gen Kill c] k
  show "wp (avail_step U (Some e) a c) (\<lambda>c' g'. steady K g0 g' \<and>
      table A_out g' = (table A_out g)(idn ?m a := avail_eq g0 (elems U) e a (table A_out g)) \<and>
      table A_in g' = (table A_in g)(idn ?m a := ?X) \<and>
      c' = (if table A_out g (idn ?m a) = avail_eq g0 (elems U) e a (table A_out g) then c else c + 1)) g"
    using a(2)
    unfolding avail_step_def node_get_def wp_bnd [of "gets _"] wp_gets Let_def s(3) bnd_assoc
    by (simp add: avail_eq_def idn_def node_get_def s(3) Let_def)
qed

text \<open>The loops skip the entry.\<close>

lemma init_avail_skip:
  "for_each (\<lambda>a _. init_avail U ent a) ns () =
   for_each (\<lambda>a _. init_avail U ent a) (filter (\<lambda>a. Some a \<noteq> ent) ns) ()"
  by (rule for_each_filter) (simp add: init_avail_def)

lemma avail_step_skip:
  "until_stable (avail_step U ent) ns = until_stable (avail_step U ent) (filter (\<lambda>a. Some a \<noteq> ent) ns)"
proof -
  have "for_each (avail_step U ent) ns 0 = for_each (avail_step U ent) (filter (\<lambda>a. Some a \<noteq> ent) ns) 0"
    by (rule for_each_filter) (simp add: avail_step_def)
  then show ?thesis by (simp add: until_stable_def)
qed

lemma collect_ids:
  assumes own: "owned g" and fg: "flow_graph (node_mem g) ns"
  shows "wp (for_each (\<lambda>node U. bnd (node_get node) (\<lambda>nd. Set_add U (nodeId nd))) ns None)
    (lib.made g (node_ids (node_mem g) ns)) g"
proof (rule wp_for_each [where I = "\<lambda>k. lib.made g (node_ids (node_mem g) (take k ns))"])
  show "lib.made g (node_ids (node_mem g) (take 0 ns)) None g"
    using lib.made_nil [OF owned_wf [OF own]] by (simp add: node_ids_def)
  fix k U h assume k: "k < length ns" and U: "lib.made g (node_ids (node_mem g) (take k ns)) U h"
  let ?i = "nodeId (node_mem g (ns ! k))"
  have i: "?i \<noteq> INT_MIN" using flow_graphD(1) [OF fg nth_mem [OF k]] by (rule GOOD_ID_nonmin)
  have "node_mem h = node_mem g" using U by (intro grows_fields) (simp add: lib.made_def)
  moreover have "insert ?i (node_ids (node_mem g) (take k ns)) = node_ids (node_mem g) (take (Suc k) ns)"
    using k by (simp add: node_ids_def take_Suc_conv_app_nth)
  ultimately show "wp (bnd (node_get (ns ! k)) (\<lambda>nd. Set_add U (nodeId nd)))
      (lib.made g (node_ids (node_mem g) (take (Suc k) ns))) h"
    using add_made [OF U i] by (simp add: node_get_def)
qed simp

lemma init_avail_entry_wp:
  assumes fg: "flow_graph (node_mem g) ns" and e: "e \<in> set ns" and own: "owned g"
    and ext: "nodeExt (node_mem g e) = Some (idn (node_mem g) e)"
    and K: "K = node_keys (idn (node_mem g)) (set ns) {A_in, A_out}"
  shows "wp (init_avail_entry (Some e)) (\<lambda>_ g'. steady K g g' \<and> table A_in g' (idn (node_mem g) e) = {} \<and>
    table A_out g' (idn (node_mem g) e) = table Gen g (idn (node_mem g) e)) g"
proof -
  let ?j = "idn (node_mem g) e"
  have i: "GOOD_ID (int ?j)" using flow_graphD(1) [OF fg e] by (simp add: idn_def GOOD_ID_def)
  have k: "NK (nat (int ?j)) A_in \<in> K" "NK (nat (int ?j)) A_out \<in> K" using e by (auto simp: K)
  note st0 = steady_refl [OF own, of K]
  show ?thesis
    unfolding init_avail_entry_def option.case node_get_def wp_bnd [of "gets _"] wp_gets ext
  proof (subst wp_bnd, rule put_made [OF st0 lib.made_nil [OF owned_wf [OF own]] i k(1)])
    fix g1 assume st1: "steady K g g1" and t: "table A_in g1 = (table A_in g)(nat (int ?j) := {})"
      and o: "\<And>f'. f' \<noteq> A_in \<Longrightarrow> table f' g1 = table f' g"
    have cp: "wp (Set_union (gen (nodes g1 ?j)) None) (lib.made g1 (table Gen g ?j)) g1"
      using copy_made [of g1 Gen ?j, OF steadyD(1) [OF st1]] o by simp
    show "wp (bnd (nd_get (int ?j)) (\<lambda>n. bnd (Set_union (gen n) None) (\<lambda>out. nd_put (int ?j) (fld_upd A_out out))))
        (\<lambda>_ g'. steady K g g' \<and> table A_in g' ?j = {} \<and> table A_out g' ?j = table Gen g ?j) g1"
      unfolding nd_get_def if_P [OF i] wp_bnd [of "gets _"] wp_gets nat_int
      by (rule wp_seq [OF cp], rule put_made [OF st1 _ i k(2)], assumption) (simp add: t)
  qed
qed

lemma init_avail_wp:
  assumes fg: "flow_graph (node_mem g0) ns" and a: "a \<in> A" "A \<subseteq> set ns" "Some a \<noteq> ent" and st: "steady K g0 g" and U: "loose g0 U"
    and K: "K = node_keys (idn (node_mem g0)) A {A_in, A_out}"
  shows "wp (init_avail U ent a) (\<lambda>_ g'. steady K g0 g' \<and> (\<forall>f\<in>{A_in, A_out}.
    table f g' = (table f g)(idn (node_mem g0) a :=
      if f = A_in then {} else elems U - table Kill g0 (idn (node_mem g0) a)))) g"
proof -
  let ?m = "node_mem g0"
  let ?i = "nodeId (?m a)"
  note s = steadyD [OF st]
  have i: "GOOD_ID ?i" using flow_graphD(1) [OF fg] a by blast
  have j: "idn ?m a = nat ?i" by (simp add: idn_def)
  have k: "NK (nat ?i) A_in \<in> K" "NK (nat ?i) A_out \<in> K" using a(1) by (auto simp: K j [symmetric])
  show ?thesis
    unfolding init_avail_def if_not_P [OF a(3)] node_get_def wp_bnd [of "gets _"] wp_gets Let_def s(3) j
  proof (subst wp_bnd, rule put_made [OF st lib.made_nil [OF owned_wf [OF s(1)]] i k(1)])
    fix g1 assume st1: "steady K g0 g1" and t: "table A_in g1 = (table A_in g)(nat ?i := {})"
      "\<And>f'. f' \<noteq> A_in \<Longrightarrow> table f' g1 = table f' g"
    note s1 = steadyD [OF st1]
    have "table Kill g1 (nat ?i) = table Kill g0 (nat ?i)" by (rule s1(5)) (simp add: K)
    then have sub: "wp (Set_subtract U (kill (nodes g1 (nat ?i)))) (lib.made g1 (elems U - table Kill g0 (nat ?i))) g1"
      using lib.subtract_made [OF owned_wf [OF s1(1)] loose_live [OF s1(6) [OF U]] owned_node [OF s1(1), of Kill "nat ?i"]]
      by (simp add: table_def content_def handle.simps)
    show "wp (bnd (nd_get ?i) (\<lambda>n. bnd (Set_subtract U (kill n)) (\<lambda>out. nd_put ?i (fld_upd A_out out))))
      (\<lambda>_ g'. steady K g0 g' \<and> (\<forall>f\<in>{A_in, A_out}. table f g' = (table f g)(nat ?i :=
        if f = A_in then {} else elems U - table Kill g0 (nat ?i)))) g1"
      unfolding nd_get_def if_P [OF i] wp_bnd [of "gets _"] wp_gets
      by (rule wp_seq [OF sub], rule put_made [OF st1 _ i k(2)], assumption) (simp add: t)
  qed
qed

text \<open>The equations of the analysis, when the entry holds what it generates.\<close>

lemma avail_meets:
  assumes fg: "flow_graph (node_mem g) ns" and e: "e \<in> set ns"
    and gen: "\<And>a. a \<in> set ns \<Longrightarrow> table Gen g (idn (node_mem g) a) \<subseteq> U"
    and ent: "table A_out g (idn (node_mem g) e) = table Gen g (idn (node_mem g) e)"
  defines "m \<equiv> node_mem g" and "ns' \<equiv> filter (\<lambda>a. Some a \<noteq> Some e) ns"
  shows "meets ns' (idn m) U (preds m) (\<lambda>a. table Gen g (idn m a)) (\<lambda>a. table Kill g (idn m a)) (avail_eq g U e)"
    and "downward.mono_on ns' (idn m) (avail_eq g U e)"
    and "U \<subseteq> {0..<16384} \<Longrightarrow> downward.closed_on ns' (idn m) (avail_eq g U e)"
proof -
  note oth = others [OF fg e, folded m_def ns'_def]
  have nb: "b \<in> set ns" if "a \<in> set ns'" "b \<in> preds m a" for a b
    using that flow_graphD(2) [OF fg] by (auto simp: m_def ns'_def)
  have val: "(D(idn m e := table A_out g (idn m e))) (idn m b) =
      (if b \<in> set ns' then D (idn m b) else table Gen g (idn m b))" if "b \<in> set ns" for D b
  proof (cases "b = e")
    case True
    with ent oth(1) show ?thesis by (simp add: m_def)
  next
    case False
    with that oth(2) have "idn m b \<noteq> idn m e" by (metis DiffI imageI singletonD)
    with False that oth(1) show ?thesis by simp
  qed
  have at: "meet_at (idn m) (preds m a) (D(idn m e := table A_out g (idn m e))) =
      (\<Inter>b\<in>preds m a. if b \<in> set ns' then D (idn m b) else table Gen g (idn m b))" if "a \<in> set ns'" for a D
    unfolding meet_at_def by (rule INF_cong [OF refl]) (use nb [OF that] val in blast)
  show "meets ns' (idn m) U (preds m) (\<lambda>a. table Gen g (idn m a)) (\<lambda>a. table Kill g (idn m a)) (avail_eq g U e)"
    unfolding meets_def
  proof (intro ballI allI impI)
    fix a D assume a: "a \<in> set ns'"
    have "table Gen g (idn m a) \<subseteq> U" using gen a oth(1) by (auto simp: m_def)
    then show "avail_eq g U e a D = {d \<in> U. d \<in> table Gen g (idn m a) \<or> d \<notin> table Kill g (idn m a) \<and>
        (\<forall>b\<in>preds m a. d \<in> (if b \<in> set ns' then D (idn m b) else table Gen g (idn m b)))}"
      unfolding avail_eq_def m_def [symmetric] at [OF a] by blast
  qed
  show "downward.mono_on ns' (idn m) (avail_eq g U e)"
    unfolding downward.mono_on_def
  proof (intro ballI allI impI)
    fix a D D' assume a: "a \<in> set ns'" and le: "\<forall>b\<in>set ns'. D' (idn m b) \<subseteq> (D (idn m b) :: int set)"
    have "(\<Inter>b\<in>preds m a. if b \<in> set ns' then D' (idn m b) else table Gen g (idn m b)) \<subseteq>
        (\<Inter>b\<in>preds m a. if b \<in> set ns' then D (idn m b) else table Gen g (idn m b))"
      by (rule INF_mono) (use le in \<open>auto intro!: bexI\<close>)
    then show "avail_eq g U e a D' \<subseteq> avail_eq g U e a D"
      unfolding avail_eq_def m_def [symmetric] at [OF a] by blast
  qed
  show "downward.closed_on ns' (idn m) (avail_eq g U e)" if "U \<subseteq> {0..<16384}"
    unfolding downward.closed_on_def
  proof (intro ballI allI impI)
    fix a D assume "a \<in> set ns'"
    then have "table Gen g (idn m a) \<subseteq> U" using gen oth(1) by (auto simp: m_def)
    with that show "avail_eq g U e a D \<subseteq> {0..<16384}" unfolding avail_eq_def m_def [symmetric] by blast
  qed
qed

lemma ud_chain_wp:
  fixes g :: df
  assumes own: "owned g" and fg: "flow_graph (node_mem g) (gnodes gr)" and e: "e \<in> set (gnodes gr)"
    and ext: "nodeExt (node_mem g e) = Some (idn (node_mem g) e)"
  defines "m \<equiv> node_mem g" and "ns \<equiv> gnodes gr"
  defines "U \<equiv> node_ids m ns" and "ns' \<equiv> filter (\<lambda>a. Some a \<noteq> Some e) ns"
  assumes gen: "\<And>a. a \<in> set ns \<Longrightarrow> table Gen g (idn m a) \<subseteq> U - table Kill g (idn m a)"
  shows "wp (ud_chain gr (Some e)) (\<lambda>_ g'. steady (node_keys (idn m) (set ns) {A_in, A_out}) g g' \<and>
    table A_out g' (idn m e) = table Gen g (idn m e) \<and> table A_in g' (idn m e) = {} \<and>
    (\<forall>a\<in>set ns'. table A_out g' (idn m a) = {d\<in>U. \<not> lost ns' U (preds m)
        (\<lambda>a. table Gen g (idn m a)) (\<lambda>a. table Kill g (idn m a)) d a} \<and>
      table A_in g' (idn m a) = U \<inter> meet_at (idn m) (preds m a) (table A_out g'))) g"
    (is "wp _ ?Q g")
proof -
  note fg' = fg [folded m_def ns_def] and e' = e [folded ns_def]
  note oth = others [OF fg' e', folded ns'_def]
  let ?K = "node_keys (idn m) (set ns) {A_in, A_out}" and ?K' = "node_keys (idn m) (set ns') {A_in, A_out}"
  have KK: "?K' \<subseteq> ?K" using oth(1) by (auto simp: node_keys_def)
  have rng: "U \<subseteq> {0..<16384}" unfolding U_def by (rule node_ids_range [OF fg'])
  show ?thesis
    unfolding ud_chain_def ns_def [symmetric] init_avail_skip [of _ _ ns] avail_step_skip [of _ _ ns] ns'_def [symmetric]
  proof (rule wp_seq [OF collect_ids [OF own fg [folded ns_def]]], fold m_def, fold U_def)
    fix us g1 assume us: "lib.made g U us g1"
    note m1 = loose_made [OF own us]
    have mm1: "node_mem g1 = m" using grows_fields [OF m1(3)] by (simp add: m_def)
    have st1: "steady ?K g g1" by (rule steady_grows [OF steady_refl [OF own] m1(3)])
    have one: "wp (init_avail_entry (Some e)) (\<lambda>_ g'. steady ?K g1 g' \<and> table A_in g' (idn m e) = {} \<and>
        table A_out g' (idn m e) = table Gen g1 (idn m e)) g1"
      using init_avail_entry_wp [of g1 ns e ?K] fg' e' m1(2) ext by (simp add: mm1 m_def)
    show "wp (bnd (init_avail_entry (Some e)) (\<lambda>_. bnd (for_each (\<lambda>node _. init_avail us (Some e) node) ns' ()) (\<lambda>_.
        bnd (until_stable (avail_step us (Some e)) ns') (\<lambda>_. bnd (Set_dispose us) (\<lambda>_. ret ()))))) ?Q g1"
    proof (rule wp_seq [OF one], elim conjE)
      fix u g2 assume st2: "steady ?K g1 g2" and in2: "table A_in g2 (idn m e) = {}"
        and out2: "table A_out g2 (idn m e) = table Gen g1 (idn m e)"
      note s2 = steadyD [OF st2]
      have mm2: "node_mem g2 = m" using s2(3) mm1 by simp
      have two: "wp (for_each (\<lambda>a _. init_avail us (Some e) a) ns' ()) (\<lambda>_ g'. steady ?K' g2 g' \<and>
          (\<forall>f\<in>{A_in, A_out}. \<forall>a\<in>set ns'. table f g' (idn m a) =
            (if f = A_in then {} else elems us - table Kill g2 (idn m a)))) g2"
        by (rule init_loop [OF oth(3) steady_refl [OF s2(1)]],
            rule init_avail_wp [where A = "set ns'" and ns = ns and ?g0.0 = g2, unfolded mm2, OF fg' _ _ _ _ s2(6) [OF m1(1)] refl])
           (use oth(1) in auto)
      show "wp (bnd (for_each (\<lambda>node _. init_avail us (Some e) node) ns' ()) (\<lambda>_.
        bnd (until_stable (avail_step us (Some e)) ns') (\<lambda>_. bnd (Set_dispose us) (\<lambda>_. ret ())))) ?Q g2"
      proof (rule wp_seq [OF two], elim conjE)
        fix u g3 assume st3: "steady ?K' g2 g3" and V: "\<forall>f\<in>{A_in, A_out}. \<forall>a\<in>set ns'. table f g3 (idn m a) =
            (if f = A_in then {} else elems us - table Kill g2 (idn m a))"
        note s3 = steadyD [OF st3]
        have mm3: "node_mem g3 = m" using s3(3) mm2 by simp
        have st03: "steady ?K g g3"
          by (rule steady_trans [OF st1 steady_trans [OF st2 st3 subset_refl KK] subset_refl subset_refl])
        have gk: "table Gen g3 i = table Gen g i" "table Kill g3 i = table Kill g i" for i
          using steadyD(5) [OF st03] by simp_all
        have gk2: "table Kill g2 i = table Kill g i" "table Gen g1 i = table Gen g i" for i
          using steadyD(5) [OF steady_trans [OF st1 st2 subset_refl subset_refl]] steadyD(5) [OF st1] by simp_all
        have e3: "table A_in g3 (idn m e) = {}" "table A_out g3 (idn m e) = table Gen g (idn m e)"
          using s3(5) [of "idn m e"] oth(1,2) in2 out2 gk2 by simp_all
        have lo3: "loose g3 us" by (rule s3(6) [OF s2(6) [OF m1(1)]])
        note meets = avail_meets [of g3 ns e U, unfolded mm3 gk, OF fg' e' _ e3(2), folded ns'_def]
        have loop: "wp (until_stable (avail_step us (Some e)) ns') (\<lambda>_ g'. steady ?K' g3 g' \<and> (\<forall>a\<in>set ns'.
            table A_out g' (idn m a) = {d\<in>U. \<not> lost ns' U (preds m) (\<lambda>a. table Gen g (idn m a))
              (\<lambda>a. table Kill g (idn m a)) d a} \<and>
            table A_in g' (idn m a) = U \<inter> meet_at (idn m) (preds m a)
              ((table A_out g')(idn m e := table A_out g3 (idn m e))))) g3"
          by (rule meet_result [OF oth(3) meets(1) meets(2) meets(3) [OF _ rng] rng
                avail_step_recomputes [of g3 ns e us, unfolded mm3 m1(4), OF fg' e' lo3, folded ns'_def]
                steady_refl [OF s3(1)]])
             (use gen oth(1) V gk2 m1(4) in auto)
        show "wp (bnd (until_stable (avail_step us (Some e)) ns') (\<lambda>_. bnd (Set_dispose us) (\<lambda>_. ret ()))) ?Q g3"
        proof (rule wp_seq [OF loop], elim conjE)
          fix u g4 assume st4: "steady ?K' g3 g4" and R: "\<forall>a\<in>set ns'. table A_out g4 (idn m a) =
              {d\<in>U. \<not> lost ns' U (preds m) (\<lambda>a. table Gen g (idn m a)) (\<lambda>a. table Kill g (idn m a)) d a} \<and>
            table A_in g4 (idn m a) = U \<inter> meet_at (idn m) (preds m a)
              ((table A_out g4)(idn m e := table A_out g3 (idn m e)))"
          note s4 = steadyD [OF st4]
          have e4: "table A_in g4 (idn m e) = {}" "table A_out g4 (idn m e) = table Gen g (idn m e)"
            "table A_out g3 (idn m e) = table A_out g4 (idn m e)"
            using s4(5) [of "idn m e"] oth(1,2) e3 by simp_all
          have up: "(table A_out g4)(idn m e := table A_out g3 (idn m e)) = table A_out g4"
            by (rule fun_upd_idem) (simp add: e4(3))
          have st04: "steady ?K g g4" by (rule steady_trans [OF st03 st4 subset_refl KK])
          have "wp (Set_dispose us) (\<lambda>_ g'. steady ?K g g' \<and> handle g' = handle g4) g4"
            by (rule steady_dispose [OF st04 s4(6) [OF lo3]]) (blast intro: apart_sym m1(5) loose_live)
          then show "wp (bnd (Set_dispose us) (\<lambda>_. ret ())) ?Q g4"
            unfolding wp_bnd wp_ret
          proof (rule wp_mono, elim conjE)
            fix r g' assume "steady ?K g g'" and h: "handle g' = handle g4"
            with R [unfolded up] e4(1,2) show "?Q () g'" by (simp add: table_handle [OF h])
          qed
        qed
      qed
    qed
  qed
qed

end
