(* ===== verification/Dataflow_Properties.thy ===== *)
theory Dataflow_Properties
  imports Dataflow_Meet
begin

text \<open>
  The analyses of \<open>src/src/library/libflow/dataflow.c\<close> give what the paths of the flow graph say. Each
  theorem is about total correctness: the analysis ends, faults nowhere, leaves the tables
  owned, and its result is stated over paths, without reference to the iteration.
\<close>

section \<open>A small flow graph\<close>

text \<open>
  Two nodes with the identifiers 3 and 5 in a loop. Node 3 writes the registers 3 and 5 and node 5 reads
  them; register 3 is written by both nodes, as the tables have it.
\<close>

definition two_nodes :: "nat \<Rightarrow> gnode" where
  "two_nodes a = \<lparr>nodeId = (if a = 0 then 3 else 5), nodeType = 0, nodeStatus = 0, nodeWeight = 0,
     sourceArcs = [\<lparr>arcType = 0, arcWeight = 0, sourceNode = 1 - a, destinationNode = a\<rparr>],
     destinationArcs = [\<lparr>arcType = 0, arcWeight = 0, sourceNode = a, destinationNode = 1 - a\<rparr>],
     nodeExt = Some (if a = 0 then 3 else 5)\<rparr>"

definition empty_node :: "int \<Rightarrow> I_Node" where
  "empty_node i = \<lparr>nd_id = i, dest_reg = None, src_reg = None, gen = None, kill = None, use = None, def = None,
     e_in = None, e_out = None, a_in = None, a_out = None, v_in = None, v_out = None, nd_dom = None,
     post_dom = None, nd_defined = 0\<rparr>"

definition sample_df :: df where
  "sample_df = \<lparr>SetId = 3, OUT = None, mallocated = 0, maxmallocated = 0,
     node_mem = two_nodes, node_top = 2, d_node_list = [], node_count = 2, nd_buf = [], nodes_defined = 1,
     nodes = (\<lambda>i. if i = 3 then (empty_node 3)\<lparr>dest_reg := Some sample2\<rparr>
       else if i = 5 then (empty_node 5)\<lparr>src_reg := Some (sample2\<lparr>set_id := 2\<rparr>)\<rparr> else empty_node (int i)),
     regs = (\<lambda>r. if r = 3 then \<lparr>e_def = Some (sample2\<lparr>set_id := 0\<rparr>), e_use = None, rg_defined = 1\<rparr>
       else \<lparr>e_def = None, e_use = None, rg_defined = 0\<rparr>),
     df_graph = Some \<lparr>root = None, gnodes = [0, 1]\<rparr>, cur_node = Some 5, entry = Some 0\<rparr>"

definition sample_graph :: FGraph where
  "sample_graph = \<lparr>root = None, gnodes = [0, 1]\<rparr>"

lemma sample_handles:
  "handle sample_df k = (if k = NK 3 Dest_reg then Some sample2
     else if k = NK 5 Src_reg then Some (sample2\<lparr>set_id := 2\<rparr>)
     else if k = RK 3 False then Some (sample2\<lparr>set_id := 0\<rparr>) else None)"
proof (cases k)
  case (NK i f)
  then show ?thesis by (cases f) (auto simp: handle.simps sample_df_def empty_node_def)
next
  case (RK r b)
  then show ?thesis by (auto simp: handle.simps sample_df_def)
qed

lemma wf_set_id [simp]: "wf_cset (s\<lparr>set_id := n\<rparr>) = wf_cset s" "elems (Some (s\<lparr>set_id := n\<rparr>)) = elems (Some s)"
  by (simp_all add: wf_cset_def wf_arr_def wf_side_def elems_has has_def slot_def)

lemma owned_sample: "owned sample_df"
  unfolding owned_def sample_handles
  by (auto simp: apart_def live_def wf_lib_def sample_df_def)

lemma flow_sample: "flow_graph (node_mem sample_df) (gnodes sample_graph)"
  by (auto simp: flow_graph_def sample_df_def sample_graph_def two_nodes_def idn_def GOOD_ID_def MAX_NODE_ID_def)

lemma node_mem_sample: "node_mem sample_df = two_nodes" "gnodes sample_graph = [0, 1]"
  by (simp_all add: sample_df_def sample_graph_def)

lemma table_sample:
  "table f sample_df i = (if (i, f) = (3, Dest_reg) \<or> (i, f) = (5, Src_reg) then {3, 5} else {})"
  unfolding table_def content_def sample_handles by (simp add: wf_set_id(2) [symmetric])

lemma two_nodes_simps [simp]:
  "nodeId (two_nodes 0) = 3" "nodeId (two_nodes (Suc 0)) = 5" "idn two_nodes 0 = 3" "idn two_nodes (Suc 0) = 5"
  "preds two_nodes 0 = {Suc 0}" "preds two_nodes (Suc 0) = {0}" "succs two_nodes 0 = {Suc 0}"
  "succs two_nodes (Suc 0) = {0}" "nodeExt (two_nodes 0) = Some 3"
  by (simp_all add: two_nodes_def idn_def preds_def succs_def)

section \<open>Reaching definitions\<close>

text \<open>
  C14. \<open>reaching_definition\<close>: a definition reaches the end of a node when there is a path from the defining
  node on which no later node defines a register that the definition's node is listed under.
\<close>
theorem reaching_definition_correct:
  fixes g :: df
  assumes "owned g" and "flow_graph (node_mem g) (gnodes gr)"
  shows "\<exists>g'. reaching_definition gr g = Inr ((), g') \<and> owned g' \<and>
    (\<forall>a\<in>set (gnodes gr). \<forall>d. d \<in> table E_out g' (idn (node_mem g) a) \<longleftrightarrow>
      (\<exists>p. is_path (preds (node_mem g)) (a # p) \<and> d = nodeId (node_mem g (last (a # p))) \<and>
        (\<forall>x\<in>set (butlast (a # p)). d \<notin> kill_of g x))) \<and>
    (\<forall>a\<in>set (gnodes gr). table E_in g' (idn (node_mem g) a) =
      (\<Union>b\<in>preds (node_mem g) a. table E_out g' (idn (node_mem g) b)))"
proof -
  obtain g' where "reaching_definition gr g = Inr ((), g')"
    and st: "steady (node_keys (idn (node_mem g)) (set (gnodes gr)) {Gen, Kill, E_in, E_out}) g g'"
    and R: "\<forall>a\<in>set (gnodes gr). table E_out g' (idn (node_mem g) a) =
        {d. carried (preds (node_mem g)) (\<lambda>a. {nodeId (node_mem g a)}) (kill_of g) d a} \<and>
      table E_in g' (idn (node_mem g) a) = join_at (idn (node_mem g)) (preds (node_mem g) a) (table E_out g')"
    using reaching_definition_wp [OF assms] by (auto simp: wp_run)
  with steadyD(1) [OF st] show ?thesis
    by (intro exI [of _ g']) (simp add: carried_path join_at_def)
qed

theorem reaching_definition_witness:
  "\<exists>g'. reaching_definition sample_graph sample_df = Inr ((), g') \<and> 3 \<in> table E_out g' 5"
proof -
  from reaching_definition_correct [OF owned_sample flow_sample] obtain g' where
    run: "reaching_definition sample_graph sample_df = Inr ((), g')" and
    R: "\<forall>a\<in>{0, 1}. \<forall>d. d \<in> table E_out g' (idn two_nodes a) \<longleftrightarrow>
      (\<exists>p. is_path (preds two_nodes) (a # p) \<and> d = nodeId (two_nodes (last (a # p))) \<and>
        (\<forall>x\<in>set (butlast (a # p)). d \<notin> kill_of sample_df x))"
    by (auto simp: node_mem_sample)
  have "3 \<notin> kill_of sample_df (Suc 0)"
    by (simp add: kill_of_def node_mem_sample table_sample)
  with R have "3 \<in> table E_out g' (idn two_nodes (Suc 0))"
    by (simp del: two_nodes_simps(4)) (intro exI [of _ "[0]"], simp)
  with run show ?thesis by simp
qed

section \<open>Live variables\<close>

text \<open>
  C15. \<open>live_variable\<close>: a register is live before a node when a path leads from it to a node that reads
  the register and no node before the last one writes it.
\<close>
theorem live_variable_correct:
  fixes g :: df
  assumes "owned g" and "flow_graph (node_mem g) (gnodes gr)" and "regs_in_range g"
  shows "\<exists>g'. live_variable gr g = Inr ((), g') \<and> owned g' \<and>
    (\<forall>a\<in>set (gnodes gr). \<forall>r. r \<in> table V_in g' (idn (node_mem g) a) \<longleftrightarrow>
      (\<exists>p. is_path (succs (node_mem g)) (a # p) \<and> r \<in> table Src_reg g (idn (node_mem g) (last (a # p))) \<and>
        (\<forall>x\<in>set (butlast (a # p)). r \<notin> table Dest_reg g (idn (node_mem g) x)))) \<and>
    (\<forall>a\<in>set (gnodes gr). table V_out g' (idn (node_mem g) a) =
      (\<Union>b\<in>succs (node_mem g) a. table V_in g' (idn (node_mem g) b)))"
proof -
  obtain g' where "live_variable gr g = Inr ((), g')"
    and st: "steady (node_keys (idn (node_mem g)) (set (gnodes gr)) {Use, Def, V_in, V_out}) g g'"
    and R: "\<forall>a\<in>set (gnodes gr). table V_in g' (idn (node_mem g) a) =
        {r. carried (succs (node_mem g)) (\<lambda>a. table Src_reg g (idn (node_mem g) a))
          (\<lambda>a. table Dest_reg g (idn (node_mem g) a)) r a} \<and>
      table V_out g' (idn (node_mem g) a) = join_at (idn (node_mem g)) (succs (node_mem g) a) (table V_in g')"
    using live_variable_wp [OF assms] by (auto simp: wp_run)
  with steadyD(1) [OF st] show ?thesis
    by (intro exI [of _ g']) (simp add: carried_path join_at_def)
qed

theorem live_variable_witness:
  "\<exists>g'. live_variable sample_graph sample_df = Inr ((), g') \<and> 3 \<in> table V_in g' 5 \<and> 3 \<in> table V_out g' 3"
proof -
  have "regs_in_range sample_df" by (simp add: regs_in_range_def table_sample MAX_REG_ID_def)
  from live_variable_correct [OF owned_sample flow_sample this] obtain g' where
    run: "live_variable sample_graph sample_df = Inr ((), g')" and
    R: "\<forall>a\<in>{0, 1}. \<forall>r. r \<in> table V_in g' (idn two_nodes a) \<longleftrightarrow>
      (\<exists>p. is_path (succs two_nodes) (a # p) \<and> r \<in> table Src_reg sample_df (idn two_nodes (last (a # p))) \<and>
        (\<forall>x\<in>set (butlast (a # p)). r \<notin> table Dest_reg sample_df (idn two_nodes x)))" and
    out: "\<forall>a\<in>{0, 1}. table V_out g' (idn two_nodes a) = (\<Union>b\<in>succs two_nodes a. table V_in g' (idn two_nodes b))"
    by (auto simp: node_mem_sample)
  have "3 \<in> table V_in g' (idn two_nodes (Suc 0))"
    using R by (simp del: two_nodes_simps(4)) (intro exI [of _ "[]"], simp add: table_sample)
  with run out show ?thesis by simp
qed

section \<open>Available expressions\<close>

text \<open>
  C16. \<open>ud_chain\<close>: an element is available at the end of a node when every path that leads back from it to
  the entry, or to a node that kills the element, passes through a node that generates it. The gen and
  kill sets are those \<open>reaching_definition\<close> leaves.
\<close>
theorem ud_chain_correct:
  fixes g :: df
  assumes "owned g" and fg: "flow_graph (node_mem g) (gnodes gr)" and e: "e \<in> set (gnodes gr)"
    and "nodeExt (node_mem g e) = Some (idn (node_mem g) e)"
    and gen: "\<And>a. a \<in> set (gnodes gr) \<Longrightarrow>
      table Gen g (idn (node_mem g) a) \<subseteq> node_ids (node_mem g) (gnodes gr) - table Kill g (idn (node_mem g) a)"
  shows "\<exists>g'. ud_chain gr (Some e) g = Inr ((), g') \<and> owned g' \<and>
    (\<forall>a\<in>set (gnodes gr). \<forall>d\<in>node_ids (node_mem g) (gnodes gr). d \<in> table A_out g' (idn (node_mem g) a) \<longleftrightarrow>
      (\<forall>p. is_path (preds (node_mem g)) (a # p) \<and>
          (last (a # p) = e \<or> d \<in> table Kill g (idn (node_mem g) (last (a # p)))) \<longrightarrow>
        (\<exists>x\<in>set (a # p). d \<in> table Gen g (idn (node_mem g) x))))"
proof -
  let ?m = "node_mem g" and ?ns = "gnodes gr"
  let ?U = "node_ids ?m ?ns" and ?G = "\<lambda>a. table Gen g (idn ?m a)" and ?L = "\<lambda>a. table Kill g (idn ?m a)"
  let ?ns' = "filter (\<lambda>a. Some a \<noteq> Some e) ?ns"
  obtain g' where run: "ud_chain gr (Some e) g = Inr ((), g')"
    and st: "steady (node_keys (idn ?m) (set ?ns) {A_in, A_out}) g g'"
    and ent: "table A_out g' (idn ?m e) = ?G e"
    and R: "\<forall>a\<in>set ?ns'. table A_out g' (idn ?m a) = {d\<in>?U. \<not> lost ?ns' ?U (preds ?m) ?G ?L d a} \<and>
      table A_in g' (idn ?m a) = ?U \<inter> meet_at (idn ?m) (preds ?m a) (table A_out g')"
    using ud_chain_wp [OF assms] by (auto simp: wp_run)
  have lost: "lost ?ns' ?U (preds ?m) ?G ?L d a \<longleftrightarrow> (\<exists>p. is_path (preds ?m) (a # p) \<and>
      (last (a # p) = e \<or> d \<in> ?L (last (a # p))) \<and> (\<forall>x\<in>set (a # p). d \<notin> ?G x))"
    if d: "d \<in> ?U" and a: "a \<in> set ?ns" for a d
  proof -
    have stop: "(if y \<in> set ?ns' then d \<in> ?L y else d \<in> ?U) \<longleftrightarrow> y = e \<or> d \<in> ?L y" if "y \<in> set ?ns" for y
      using that d by auto
    show ?thesis
      unfolding lost_path Let_def
      by (intro iff_exI conj_cong refl) (rule stop [OF path_inside [OF _ a flow_graphD(2) [OF fg]]])
  qed
  have "d \<in> table A_out g' (idn ?m a) \<longleftrightarrow> \<not> lost ?ns' ?U (preds ?m) ?G ?L d a"
    if "a \<in> set ?ns" "d \<in> ?U" for a d
    using that R ent by (cases "a = e") (simp_all add: lost_outside)
  with run steadyD(1) [OF st] lost show ?thesis
    by (intro exI [of _ g']) blast
qed

theorem ud_chain_witness:
  "\<exists>g'. ud_chain sample_graph (Some 0) sample_df = Inr ((), g') \<and> 3 \<notin> table A_out g' 5"
proof -
  have "\<exists>g'. ud_chain sample_graph (Some 0) sample_df = Inr ((), g') \<and> owned g' \<and>
    (\<forall>a\<in>set (gnodes sample_graph). \<forall>d\<in>node_ids (node_mem sample_df) (gnodes sample_graph).
      d \<in> table A_out g' (idn (node_mem sample_df) a) \<longleftrightarrow>
      (\<forall>p. is_path (preds (node_mem sample_df)) (a # p) \<and>
          (last (a # p) = 0 \<or> d \<in> table Kill sample_df (idn (node_mem sample_df) (last (a # p)))) \<longrightarrow>
        (\<exists>x\<in>set (a # p). d \<in> table Gen sample_df (idn (node_mem sample_df) x))))"
    by (rule ud_chain_correct [OF owned_sample flow_sample]) (auto simp: node_mem_sample table_sample)
  then obtain g' where run: "ud_chain sample_graph (Some 0) sample_df = Inr ((), g')"
    and R: "\<forall>a\<in>{0, 1}. \<forall>d\<in>node_ids two_nodes [0, 1]. d \<in> table A_out g' (idn two_nodes a) \<longleftrightarrow>
      (\<forall>p. is_path (preds two_nodes) (a # p) \<and>
          (last (a # p) = 0 \<or> d \<in> table Kill sample_df (idn two_nodes (last (a # p)))) \<longrightarrow>
        (\<exists>x\<in>set (a # p). d \<in> table Gen sample_df (idn two_nodes x)))"
    by (auto simp: node_mem_sample)
  have "3 \<notin> table A_out g' (idn two_nodes (Suc 0))"
    using R by (simp add: node_ids_def table_sample del: two_nodes_simps(4)) (intro exI [of _ "[0]"], simp)
  with run show ?thesis by simp
qed

section \<open>Dominators\<close>

lemma lost_ends:
  assumes "a \<in> set ns" "\<And>b. b \<in> set ns \<Longrightarrow> nb b \<subseteq> set ns"
  shows "\<not> lost ns U nb (\<lambda>a. {nodeId (m a)}) (ends nb) d a \<longleftrightarrow>
    (\<forall>p. is_path nb (a # p) \<and> nb (last (a # p)) = {} \<longrightarrow> d \<in> (nodeId \<circ> m) ` set (a # p))"
proof -
  have "(let y = last (a # p) in if y \<in> set ns then d \<in> ends nb y else d \<in> U) \<longleftrightarrow> nb (last (a # p)) = {}"
    if "is_path nb (a # p)" for p
    using path_inside [OF that assms] by (simp add: Let_def ends_def del: last.simps)
  then have "lost ns U nb (\<lambda>a. {nodeId (m a)}) (ends nb) d a \<longleftrightarrow>
      (\<exists>p. is_path nb (a # p) \<and> nb (last (a # p)) = {} \<and> (\<forall>x\<in>set (a # p). d \<notin> {nodeId (m x)}))"
    unfolding lost_path by (intro iff_exI conj_cong refl)
  then show ?thesis unfolding image_iff o_apply by blast
qed

text \<open>
  C17. \<open>dominator\<close>: node \<open>d\<close> dominates node \<open>a\<close> when every path that leads back from \<open>a\<close> to a node without
  predecessors passes through \<open>d\<close>. The entry of the graph plays no part, although the code means to
  start from it.
\<close>
theorem dominator_correct:
  fixes g :: df
  assumes "owned g" and fg: "flow_graph (node_mem g) (gnodes gr)"
  shows "\<exists>g'. dominator gr ent g = Inr ((), g') \<and> owned g' \<and>
    (\<forall>a\<in>set (gnodes gr). table Dom g' (idn (node_mem g) a) = {d \<in> node_ids (node_mem g) (gnodes gr).
      \<forall>p. is_path (preds (node_mem g)) (a # p) \<and> preds (node_mem g) (last (a # p)) = {} \<longrightarrow>
        d \<in> (nodeId \<circ> node_mem g) ` set (a # p)})"
proof -
  let ?m = "node_mem g" and ?ns = "gnodes gr"
  obtain g' where "dominator gr ent g = Inr ((), g')" and st: "steady (node_keys (idn ?m) (set ?ns) {Dom}) g g'"
    and "\<forall>a\<in>set ?ns. table Dom g' (idn ?m a) =
      {d\<in>node_ids ?m ?ns. \<not> lost ?ns (node_ids ?m ?ns) (preds ?m) (\<lambda>a. {nodeId (?m a)}) (ends (preds ?m)) d a}"
    using dominator_wp [OF assms, of ent] by (auto simp: wp_run)
  with steadyD(1) [OF st] show ?thesis
    by (intro exI [of _ g']) (simp add: lost_ends [OF _ flow_graphD(2) [OF fg]] del: last.simps)
qed

text \<open>In the loop of two nodes the entry 3 has a predecessor, and the node 5 is taken to dominate it.\<close>

theorem dominator_witness:
  "\<exists>g'. dominator sample_graph (Some 0) sample_df = Inr ((), g') \<and> 5 \<in> table Dom g' 3"
proof -
  obtain g' where run: "dominator sample_graph (Some 0) sample_df = Inr ((), g')"
    and R: "\<forall>a\<in>{0, 1}. table Dom g' (idn two_nodes a) = {d \<in> node_ids two_nodes [0, 1].
      \<forall>p. is_path (preds two_nodes) (a # p) \<and> preds two_nodes (last (a # p)) = {} \<longrightarrow>
        d \<in> (nodeId \<circ> two_nodes) ` set (a # p)}"
    using dominator_correct [OF owned_sample flow_sample, of "Some 0"] by (auto simp: node_mem_sample)
  have "preds two_nodes a \<noteq> {}" for a by (simp add: preds_def two_nodes_def)
  with R have "5 \<in> table Dom g' (idn two_nodes 0)" by (simp add: node_ids_def del: two_nodes_simps(3))
  with run show ?thesis by simp
qed

text \<open>
  C18. \<open>post_dominator\<close>: node \<open>d\<close> post-dominates node \<open>a\<close> when every path from \<open>a\<close> to a node without
  successors passes through \<open>d\<close>.
\<close>
theorem post_dominator_correct:
  fixes g :: df
  assumes "owned g" and fg: "flow_graph (node_mem g) (gnodes gr)"
  shows "\<exists>g'. post_dominator gr ent g = Inr ((), g') \<and> owned g' \<and>
    (\<forall>a\<in>set (gnodes gr). table Post_dom g' (idn (node_mem g) a) = {d \<in> node_ids (node_mem g) (gnodes gr).
      \<forall>p. is_path (succs (node_mem g)) (a # p) \<and> succs (node_mem g) (last (a # p)) = {} \<longrightarrow>
        d \<in> (nodeId \<circ> node_mem g) ` set (a # p)})"
proof -
  let ?m = "node_mem g" and ?ns = "gnodes gr"
  obtain g' where "post_dominator gr ent g = Inr ((), g')" and st: "steady (node_keys (idn ?m) (set ?ns) {Post_dom}) g g'"
    and "\<forall>a\<in>set ?ns. table Post_dom g' (idn ?m a) =
      {d\<in>node_ids ?m ?ns. \<not> lost ?ns (node_ids ?m ?ns) (succs ?m) (\<lambda>a. {nodeId (?m a)}) (ends (succs ?m)) d a}"
    using post_dominator_wp [OF assms, of ent] by (auto simp: wp_run)
  with steadyD(1) [OF st] show ?thesis
    by (intro exI [of _ g']) (simp add: lost_ends [OF _ flow_graphD(3) [OF fg]] del: last.simps)
qed

theorem post_dominator_witness:
  "\<exists>g'. post_dominator sample_graph None sample_df = Inr ((), g') \<and> 3 \<in> table Post_dom g' 3"
proof -
  obtain g' where run: "post_dominator sample_graph None sample_df = Inr ((), g')"
    and R: "\<forall>a\<in>{0, 1}. table Post_dom g' (idn two_nodes a) = {d \<in> node_ids two_nodes [0, 1].
      \<forall>p. is_path (succs two_nodes) (a # p) \<and> succs two_nodes (last (a # p)) = {} \<longrightarrow>
        d \<in> (nodeId \<circ> two_nodes) ` set (a # p)}"
    using post_dominator_correct [OF owned_sample flow_sample, of None] by (auto simp: node_mem_sample)
  have "3 \<in> table Post_dom g' (idn two_nodes 0)" using R by (simp add: node_ids_def del: two_nodes_simps(3))
  with run show ?thesis by simp
qed

end
