(* ===== verification/Dataflow_Build.thy ===== *)
theory Dataflow_Build
  imports Graph_Links Dataflow_Meet
begin

text \<open>
  Building a flow graph with the functions of \<open>src/src/library/libflow/dataflow.c\<close>.

  \<open>flow_spec\<close> is what a client means to describe: the nodes it named and those it defined, the current
  node and the entry, the arcs, and the registers each node reads and writes. \<open>spec_call\<close> is the effect of a
  call on it, with \<open>None\<close> where the call must be refused. The relation \<open>built\<close> connects it with
  the state of the library, and every call is shown to keep the relation or to punt, as the specification says.
\<close>

section \<open>What a client describes\<close>

record flow_spec =
  sp_ids :: "int set"
  sp_added :: "int set"
  sp_cur :: "int option"
  sp_entry :: "int option"
  sp_arcs :: "(int \<times> int) set"
  sp_src :: "int \<Rightarrow> int set"
  sp_dst :: "int \<Rightarrow> int set"

datatype flow_call = Add_Node int | Src_Reg int | Dest_Reg int | Connect int int

definition or_else :: "'a option \<Rightarrow> 'a \<Rightarrow> 'a option" where
  "or_else x y = (if x = None then Some y else x)"

definition spec_start :: flow_spec where
  "spec_start = \<lparr>sp_ids = {}, sp_added = {}, sp_cur = None, sp_entry = None, sp_arcs = {},
     sp_src = (\<lambda>_. {}), sp_dst = (\<lambda>_. {})\<rparr>"

fun spec_call :: "flow_call \<Rightarrow> flow_spec \<Rightarrow> flow_spec option" where
  "spec_call (Add_Node i) st =
     (if \<not> GOOD_ID i \<or> i \<in> sp_added st then None
      else Some (st\<lparr>sp_ids := insert i (sp_ids st), sp_added := insert i (sp_added st), sp_cur := Some i,
        sp_entry := or_else (sp_entry st) i\<rparr>))"
| "spec_call (Src_Reg r) st =
     (case sp_cur st of None \<Rightarrow> None
      | Some i \<Rightarrow> if \<not> GOOD_REG_ID r then None
          else Some (st\<lparr>sp_src := (sp_src st)(i := insert r (sp_src st i))\<rparr>))"
| "spec_call (Dest_Reg r) st =
     (case sp_cur st of None \<Rightarrow> None
      | Some i \<Rightarrow> if \<not> GOOD_REG_ID r then None
          else Some (st\<lparr>sp_dst := (sp_dst st)(i := insert r (sp_dst st i))\<rparr>))"
| "spec_call (Connect i j) st =
     Some (st\<lparr>sp_ids := insert i (insert j (sp_ids st)), sp_arcs := insert (i, j) (sp_arcs st)\<rparr>)"

fun run_call :: "flow_call \<Rightarrow> unit df_prog" where
  "run_call (Add_Node i) = add_df_node i"
| "run_call (Src_Reg r) = add_df_node_src_reg r"
| "run_call (Dest_Reg r) = add_df_node_dest_reg r"
| "run_call (Connect i j) = connect_df_node i j"

definition spec_ready :: "flow_spec \<Rightarrow> bool" where
  "spec_ready st = (sp_entry st \<noteq> None \<and> sp_ids st \<subseteq> sp_added st)"

section \<open>The relation\<close>

text \<open>The nodes \<open>ns\<close> of a graph in the store.\<close>

definition store_ok :: "nat list \<Rightarrow> 'z graph_lib_scheme \<Rightarrow> bool" where
  "store_ok ns g = (free_ok g \<and> within_top (node_mem g) (node_top g) \<and> (\<forall>x. \<not> is_marked (node_mem g x)) \<and>
     set ns \<subseteq> in_use g \<and> distinct ns \<and> linked (set ns) (node_mem g))"

abbreviation idm :: "(nat \<Rightarrow> gnode) \<Rightarrow> nat \<Rightarrow> int" where
  "idm m a \<equiv> nodeId (m a)"

definition drawn :: "flow_spec \<Rightarrow> (nat \<Rightarrow> gnode) \<Rightarrow> nat list \<Rightarrow> bool" where
  "drawn st m ns = (inj_on (idm m) (set ns) \<and> idm m ` set ns = sp_ids st \<and>
     (\<forall>a\<in>set ns. nodeExt (m a) = (if idm m a \<in> sp_added st then Some (nat (idm m a)) else None) \<and>
       (\<forall>e\<in>set (destinationArcs (m a)). arcType e = 0) \<and>
       (\<forall>b\<in>set ns. has_arc m a b 0 \<longleftrightarrow> (idm m a, idm m b) \<in> sp_arcs st)))"

definition graph_ok :: "flow_spec \<Rightarrow> df \<Rightarrow> bool" where
  "graph_ok st g = (\<exists>gr. df_graph g = Some gr \<and> store_ok (gnodes gr) g \<and> drawn st (node_mem g) (gnodes gr) \<and>
     map_option (idm (node_mem g)) (entry g) = sp_entry st \<and> set_option (entry g) \<subseteq> set (gnodes gr))"

definition tabs_ok :: "flow_spec \<Rightarrow> df \<Rightarrow> bool" where
  "tabs_ok st g = (owned g \<and> nodes_defined g \<noteq> 0 \<and>
     (\<forall>i\<in>{0..<MAX_NODE_ID}. nd_id (nodes g (nat i)) = i \<and> (nd_defined (nodes g (nat i)) \<noteq> 0 \<longleftrightarrow> i \<in> sp_added st)) \<and>
     cur_node g = map_option nat (sp_cur st) \<and>
     (\<forall>i. table Src_reg g i = sp_src st (int i) \<and> table Dest_reg g i = sp_dst st (int i)) \<and>
     (\<forall>r. content g (RK r True) = {i. int r \<in> sp_src st i} \<and> content g (RK r False) = {i. int r \<in> sp_dst st i} \<and>
       (rg_defined (regs g r) = 0 \<longrightarrow> (\<forall>i. int r \<notin> sp_src st i \<union> sp_dst st i))))"

definition sane :: "flow_spec \<Rightarrow> bool" where
  "sane st = (sp_added st \<subseteq> {0..<MAX_NODE_ID} \<and> sp_added st \<subseteq> sp_ids st \<and> sp_arcs st \<subseteq> sp_ids st \<times> sp_ids st \<and>
     set_option (sp_cur st) \<subseteq> sp_added st \<and> set_option (sp_entry st) \<subseteq> sp_added st \<and>
     (\<forall>i. sp_src st i \<union> sp_dst st i \<subseteq> {0..<MAX_REG_ID} \<and> (i \<notin> sp_added st \<longrightarrow> sp_src st i \<union> sp_dst st i = {})))"

definition built :: "flow_spec \<Rightarrow> df \<Rightarrow> bool" where
  "built st g = (sane st \<and> graph_ok st g \<and> tabs_ok st g)"

lemma sane_call: "sane st \<Longrightarrow> spec_call c st = Some st' \<Longrightarrow> sane st'"
proof (cases c)
  case (Add_Node i)
  assume s: "sane st" "spec_call c st = Some st'"
  let ?e = "or_else (sp_entry st) i"
  have i: "GOOD_ID i \<and> i \<notin> sp_added st" using s(2) Add_Node by (rule_tac ccontr) simp
  have st': "st' = st\<lparr>sp_ids := insert i (sp_ids st), sp_added := insert i (sp_added st),
      sp_cur := Some i, sp_entry := ?e\<rparr>" using s(2) Add_Node i by simp
  have "set_option ?e \<subseteq> insert i (sp_added st)" using s(1) by (cases "sp_entry st") (auto simp: sane_def or_else_def)
  moreover have "i \<in> {0..<MAX_NODE_ID}" using i by (simp add: GOOD_ID_def)
  moreover have "sp_arcs st \<subseteq> insert i (sp_ids st) \<times> insert i (sp_ids st)" using s(1) by (auto simp: sane_def)
  ultimately show ?thesis using s(1) unfolding sane_def st' by simp blast
next
  case (Src_Reg r)
  assume s: "sane st" "spec_call c st = Some st'"
  then obtain i where "sp_cur st = Some i" "GOOD_REG_ID r" "st' = st\<lparr>sp_src := (sp_src st)(i := insert r (sp_src st i))\<rparr>"
    using Src_Reg by (auto split: if_splits option.splits)
  with s(1) show ?thesis by (auto simp: sane_def GOOD_REG_ID_def)
next
  case (Dest_Reg r)
  assume s: "sane st" "spec_call c st = Some st'"
  then obtain i where "sp_cur st = Some i" "GOOD_REG_ID r" "st' = st\<lparr>sp_dst := (sp_dst st)(i := insert r (sp_dst st i))\<rparr>"
    using Dest_Reg by (auto split: if_splits option.splits)
  with s(1) show ?thesis by (auto simp: sane_def GOOD_REG_ID_def)
next
  case (Connect i j)
  assume s: "sane st" "spec_call c st = Some st'"
  then have "st' = st\<lparr>sp_ids := insert i (insert j (sp_ids st)), sp_arcs := insert (i, j) (sp_arcs st)\<rparr>"
    using Connect by simp
  with s(1) show ?thesis unfolding sane_def by simp blast
qed

text \<open>The two halves of the state do not interfere.\<close>

lemma graph_ok_cong:
  fixes g g' :: df
  assumes "node_mem g' = node_mem g" "node_top g' = node_top g" "d_node_list g' = d_node_list g"
    "df_graph g' = df_graph g" "entry g' = entry g"
  shows "graph_ok st g' = graph_ok st g"
  unfolding graph_ok_def store_ok_def free_ok_def in_use_def assms ..

lemma graph_ok_skel:
  assumes "skel g' = skel g"
  shows "graph_ok st g' = graph_ok st g"
  by (rule graph_ok_cong) (use assms in \<open>simp_all add: skel_def\<close>)

lemma handle_cong: "nodes g' = nodes g \<Longrightarrow> regs g' = regs g \<Longrightarrow> handle g' = handle g"
proof
  fix k assume "nodes g' = nodes g" "regs g' = regs g"
  then show "handle g' k = handle g k" by (cases k) (simp_all add: handle.simps)
qed

lemma live_cong: "SetId g' = SetId g \<Longrightarrow> OUT g' = OUT g \<Longrightarrow> live g' = live g \<and> wf_lib g' = wf_lib g"
  by (auto simp: live_def wf_lib_def fun_eq_iff split: option.split)

lemma tabs_ok_cong:
  fixes g g' :: df
  assumes "SetId g' = SetId g" "OUT g' = OUT g" "nodes g' = nodes g" "regs g' = regs g"
    "nodes_defined g' = nodes_defined g" "cur_node g' = cur_node g"
  shows "tabs_ok st g' = tabs_ok st g"
  using handle_cong [OF assms(3,4)] live_cong [OF assms(1,2)] assms
  by (simp add: tabs_ok_def owned_def table_def content_def)


section \<open>Nodes and arcs\<close>

lemma find_id:
  assumes "inj_on (idm m) (set ns)"
  shows "find (\<lambda>a. idm m a = i) ns = Some a \<longleftrightarrow> a \<in> set ns \<and> idm m a = i"
    and "find (\<lambda>a. idm m a = i) ns = None \<longleftrightarrow> i \<notin> idm m ` set ns"
proof -
  show "find (\<lambda>a. idm m a = i) ns = None \<longleftrightarrow> i \<notin> idm m ` set ns" by (auto simp: find_None_iff)
  show "find (\<lambda>a. idm m a = i) ns = Some a \<longleftrightarrow> a \<in> set ns \<and> idm m a = i"
  proof
    assume "find (\<lambda>a. idm m a = i) ns = Some a"
    then show "a \<in> set ns \<and> idm m a = i" by (auto simp: find_Some_iff)
  next
    assume a: "a \<in> set ns \<and> idm m a = i"
    then obtain b where b: "find (\<lambda>a. idm m a = i) ns = Some b" by (cases "find (\<lambda>a. idm m a = i) ns") (auto simp: find_None_iff)
    then have "b \<in> set ns \<and> idm m b = i" by (auto simp: find_Some_iff)
    with a b assms show "find (\<lambda>a. idm m a = i) ns = Some a" by (auto dest: inj_onD)
  qed
qed

lemma store_new:
  fixes g :: "'z graph_lib_scheme"
  assumes "store_ok ns g" "a \<notin> in_use g" "{..<t} = insert a {..<node_top g}" "distinct free" "set free \<subseteq> {..<t}"
    "{..<t} - set free = insert a (in_use g)"
  shows "store_ok (ns @ [a]) (g\<lparr>node_mem := (node_mem g)(a := blank_node\<lparr>nodeId := i\<rparr>), node_top := t, d_node_list := free\<rparr>)"
proof -
  let ?n = "blank_node\<lparr>nodeId := i\<rparr>"
  let ?m = "(node_mem g)(a := ?n)"
  have n: "sourceArcs ?n = []" "destinationArcs ?n = []" "\<not> is_marked ?n" by (simp_all add: blank_node_def is_marked_def)
  have a: "a \<notin> set ns" using assms(1,2) by (auto simp: store_ok_def)
  have "out ?m x \<subseteq> {..<t}" if "x < t" for x
  proof (cases "x = a")
    case False
    with that assms(3) have "x < node_top g" by (metis insertE lessThan_iff)
    then have "out (node_mem g) x \<subseteq> {..<t}" using assms(1,3) by (auto simp: store_ok_def within_top_def)
    with False show ?thesis by (simp add: out_def)
  qed (simp add: out_def n)
  then have "within_top ?m t" by (simp add: within_top_def)
  moreover have "linked (set (ns @ [a])) ?m" using assms(1) a n by (auto simp: store_ok_def intro: linked_new)
  ultimately show ?thesis using assms a n by (auto simp: store_ok_def free_ok_def in_use_def)
qed

lemma drawn_new:
  assumes "drawn st m ns" "linked (set ns) m" "sane st" "a \<notin> set ns" "i \<notin> sp_ids st"
  shows "drawn (st\<lparr>sp_ids := insert i (sp_ids st)\<rparr>) (m(a := blank_node\<lparr>nodeId := i\<rparr>)) (ns @ [a])"
proof -
  let ?m = "m(a := blank_node\<lparr>nodeId := i\<rparr>)"
  have i: "i \<notin> sp_added st" "(i, j) \<notin> sp_arcs st" "(j, i) \<notin> sp_arcs st" for j
    using assms(3,5) by (auto simp: sane_def)
  have ids: "i \<notin> idm m ` set ns" using assms(1,5) by (simp add: drawn_def)
  have "\<not> has_arc m b a ty" if "b \<in> set ns" for b ty
    using linked_out [OF assms(2) that] assms(4) by (force simp: has_arc_def out_def)
  moreover have "idm ?m ` set (ns @ [a]) = insert i (sp_ids st)"
  proof -
    have "idm ?m ` set ns = idm m ` set ns" by (rule image_cong) (use assms(4) in auto)
    then show ?thesis using assms(1) by (simp add: drawn_def)
  qed
  moreover have "inj_on (idm ?m) (set (ns @ [a]))"
    using assms(1,4) ids by (auto simp: drawn_def inj_on_def)
  ultimately show ?thesis
    using assms(1,4) i by (auto simp: drawn_def blank_node_def has_arc_def)
qed

definition same_tabs :: "df \<Rightarrow> df \<Rightarrow> bool" where
  "same_tabs g g' = (SetId g' = SetId g \<and> OUT g' = OUT g \<and> nodes g' = nodes g \<and> regs g' = regs g \<and>
     nodes_defined g' = nodes_defined g \<and> cur_node g' = cur_node g)"

lemma find_or_add_wp:
  assumes gok: "graph_ok st g" and gr: "df_graph g = Some gr" and sane: "sane st"
    and post: "\<And>a g' gr'. graph_ok (st\<lparr>sp_ids := insert i (sp_ids st)\<rparr>) g' \<Longrightarrow> df_graph g' = Some gr' \<Longrightarrow>
      a \<in> set (gnodes gr') \<Longrightarrow> idm (node_mem g') a = i \<Longrightarrow> same_tabs g g' \<Longrightarrow> set (gnodes gr) \<subseteq> set (gnodes gr') \<Longrightarrow>
      (\<And>b. b \<in> set (gnodes gr) \<Longrightarrow> node_mem g' b = node_mem g b) \<Longrightarrow> Q a g'"
  shows "wp (find_or_add gr i) Q g"
proof -
  let ?ns = "gnodes gr"
  from gok gr have so: "store_ok ?ns g" and dr: "drawn st (node_mem g) ?ns" 
    and en: "map_option (idm (node_mem g)) (entry g) = sp_entry st" "set_option (entry g) \<subseteq> set ?ns" by (auto simp: graph_ok_def)
  then have inj: "inj_on (idm (node_mem g)) (set ?ns)" and ids: "idm (node_mem g) ` set ?ns = sp_ids st" by (auto simp: drawn_def)
  show ?thesis
  proof (cases "i \<in> sp_ids st")
    case True
    then obtain a where a: "a \<in> set ?ns" "idm (node_mem g) a = i" unfolding ids [symmetric] by auto
    then have "find (\<lambda>a. idm (node_mem g) a = i) ?ns = Some a" using find_id(1) [OF inj] by simp
    moreover have "st\<lparr>sp_ids := insert i (sp_ids st)\<rparr> = st" using True by (simp add: insert_absorb)
    ultimately show ?thesis
      using a gok gr by (simp add: find_or_add_def FindNode_def post same_tabs_def)
  next
    case False
    then have f: "find (\<lambda>a. idm (node_mem g) a = i) ?ns = None" using find_id(2) [OF inj] ids by simp
    have "free_ok g" using so by (simp add: store_ok_def)
    then obtain a t free where new: "NewNode g = Inr (a, g\<lparr>node_mem := (node_mem g)(a := blank_node), node_top := t, d_node_list := free\<rparr>)"
      and a: "a \<notin> in_use g" "{..<t} = insert a {..<node_top g}" "distinct free" "set free \<subseteq> {..<t}" "{..<t} - set free = insert a (in_use g)"
      by (rule NewNode_run)
    let ?m = "(node_mem g)(a := blank_node\<lparr>nodeId := i\<rparr>)"
    let ?g = "g\<lparr>node_top := t, d_node_list := free, node_mem := ?m, df_graph := Some (AddNode gr a)\<rparr>"
    have an: "a \<notin> set ?ns" using so a(1) by (auto simp: store_ok_def)
    have "store_ok (?ns @ [a]) ?g"
      using store_new [OF so a, of i] by (simp add: store_ok_def free_ok_def in_use_def)
    moreover have "drawn (st\<lparr>sp_ids := insert i (sp_ids st)\<rparr>) ?m (?ns @ [a])"
      by (rule drawn_new [OF dr _ sane an False]) (use so in \<open>simp add: store_ok_def\<close>)
    moreover have "map_option (idm ?m) (entry g) = sp_entry st" "set_option (entry g) \<subseteq> set (?ns @ [a])"
      using en an by (cases "entry g"; auto)+
    ultimately have "graph_ok (st\<lparr>sp_ids := insert i (sp_ids st)\<rparr>) ?g" by (simp add: graph_ok_def AddNode_def)
    then have "Q a ?g" by (rule post [where gr' = "AddNode gr a"]) (use an in \<open>auto simp: AddNode_def same_tabs_def\<close>)
    then show ?thesis
      by (simp add: find_or_add_def FindNode_def f) (simp add: wp_def new node_put_def bnd_def modify_def ret_def)
  qed
qed

lemma drawn_join:
  assumes "drawn st m ns" "a \<in> set ns" "b \<in> set ns" "sane st"
  defines "st' \<equiv> st\<lparr>sp_arcs := insert (idm m a, idm m b) (sp_arcs st)\<rparr>"
  shows "has_arc m a b 0 \<Longrightarrow> drawn st' m ns" "drawn st' (join_nodes a b 0 m) ns"
proof -
  have inj: "x = y" if "x \<in> set ns" "y \<in> set ns" "idm m x = idm m y" for x y
    using assms(1) that by (auto simp: drawn_def inj_on_def)
  have j: "nodeId (join_nodes a b 0 m x) = idm m x" "nodeExt (join_nodes a b 0 m x) = nodeExt (m x)" for x
    by (simp_all add: join_nodes_def)
  show "drawn st' m ns" if "has_arc m a b 0"
  proof -
    have "(idm m a, idm m b) \<in> sp_arcs st" using assms(1-3) that by (auto simp: drawn_def)
    with assms(1) show ?thesis by (simp add: st'_def insert_absorb)
  qed
  have "idm m x = idm m a \<and> idm m y = idm m b \<longleftrightarrow> x = a \<and> y = b" if "x \<in> set ns" "y \<in> set ns" for x y
    using inj that assms(2,3) by blast
  moreover have "arcType e = 0" if "x \<in> set ns" "e \<in> set (destinationArcs (join_nodes a b 0 m x))" for x e
    using that assms(1) by (auto simp: join_nodes_def drawn_def split: if_splits)
  ultimately show "drawn st' (join_nodes a b 0 m) ns"
    using assms(1) unfolding drawn_def j has_arc_join st'_def by simp
qed

lemma store_join:
  fixes g :: "'z graph_lib_scheme"
  assumes "store_ok ns g" "a \<in> set ns" "b \<in> set ns" "\<not> has_arc (node_mem g) a b ty"
  shows "store_ok ns (g\<lparr>node_mem := join_nodes a b ty (node_mem g), node_count := c\<rparr>)"
proof -
  have top: "b < node_top g" using assms(1,3) by (auto simp: store_ok_def in_use_def)
  have "out (join_nodes a b ty (node_mem g)) x \<subseteq> insert b (out (node_mem g) x)" for x
    by (auto simp: out_def join_nodes_def split: if_splits)
  then have "within_top (join_nodes a b ty (node_mem g)) (node_top g)"
    using assms(1) top unfolding store_ok_def within_top_def by (metis insert_subset lessThan_iff order_trans)
  moreover have "linked (set ns) (join_nodes a b ty (node_mem g))"
    by (rule linked_join) (use assms in \<open>simp_all add: store_ok_def\<close>)
  moreover have "is_marked (join_nodes a b ty (node_mem g) x) = is_marked (node_mem g x)" for x
    by (simp add: is_marked_def join_nodes_def)
  ultimately show ?thesis using assms(1) by (simp add: store_ok_def free_ok_def in_use_def)
qed

lemma connect_df_node_wp:
  assumes "built st g"
  shows "wp (connect_df_node i j) (\<lambda>_ g'. graph_ok (st\<lparr>sp_ids := insert i (insert j (sp_ids st)),
    sp_arcs := insert (i, j) (sp_arcs st)\<rparr>) g' \<and> same_tabs g g') g"
proof -
  let ?st1 = "st\<lparr>sp_ids := insert i (sp_ids st)\<rparr>"
  let ?st2 = "?st1\<lparr>sp_ids := insert j (sp_ids ?st1)\<rparr>"
  have sane: "sane st" "sane ?st1" "sane ?st2" using assms by (auto simp: built_def sane_def)
  from assms obtain gr where gok: "graph_ok st g" and gr: "df_graph g = Some gr" by (auto simp: built_def graph_ok_def)
  have link: "wp (ConnectNodes (Some a) (Some b) 0) (\<lambda>_ g'. graph_ok (st\<lparr>sp_ids := insert i (insert j (sp_ids st)),
      sp_arcs := insert (i, j) (sp_arcs st)\<rparr>) g' \<and> same_tabs g g') g2"
    if g2: "graph_ok ?st2 g2" "df_graph g2 = Some gr2" "same_tabs g g2"
      and ab: "a \<in> set (gnodes gr2)" "b \<in> set (gnodes gr2)" "idm (node_mem g2) a = i" "idm (node_mem g2) b = j" for a b g2 gr2
  proof -
    let ?m = "node_mem g2"
    from g2 have so: "store_ok (gnodes gr2) g2" and dr: "drawn ?st2 ?m (gnodes gr2)"
      and en: "map_option (idm ?m) (entry g2) = sp_entry st" "set_option (entry g2) \<subseteq> set (gnodes gr2)"
      by (auto simp: graph_ok_def)
    have lk: "linked (set (gnodes gr2)) ?m" using so by (simp add: store_ok_def)
    have st: "st\<lparr>sp_ids := insert i (insert j (sp_ids st)), sp_arcs := insert (i, j) (sp_arcs st)\<rparr> =
        ?st2\<lparr>sp_arcs := insert (idm ?m a, idm ?m b) (sp_arcs ?st2)\<rparr>" using ab by (simp add: insert_commute)
    note dj = drawn_join [OF dr ab(1,2) sane(3), folded st]
    have "idm (join_nodes a b 0 ?m) x = idm ?m x" for x by (simp add: join_nodes_def)
    then show ?thesis
      using store_join [OF so ab(1,2), of 0] so dj en g2(2,3)
      by (auto simp: wp_def ConnectNodes_run [OF lk ab(1,2)] graph_ok_def same_tabs_def)
  qed
  show ?thesis
    unfolding connect_df_node_def
    by (simp add: gr, rule find_or_add_wp [OF gok gr sane(1)], simp,
        rule find_or_add_wp [OF _ _ sane(2)], assumption, assumption, rule link, assumption, assumption)
       (auto simp: same_tabs_def)
qed

section \<open>Calls that are refused\<close>

definition punts :: "('s, 'a) prog \<Rightarrow> 's \<Rightarrow> bool" where
  "punts p s = (\<exists>mesg. p s = Inl (Punt mesg))"

lemma punts_bnd: "wp p (\<lambda>x. punts (f x)) s \<Longrightarrow> punts (bnd p f) s"
  by (auto simp: wp_def punts_def bnd_def split: sum.splits)

lemma punts_df [simp]: "punts (df_punt mesg) s"
  by (simp add: punts_def df_punt_def)

section \<open>Defining a node\<close>

lemma tabs_okD:
  assumes "tabs_ok st g" "GOOD_ID i"
  shows "nodes_defined g \<noteq> 0" "nd_id (nodes g (nat i)) = i" "nd_defined (nodes g (nat i)) = 0 \<longleftrightarrow> i \<notin> sp_added st"
  using assms by (auto simp: tabs_ok_def GOOD_ID_def)

lemma fld_flags [simp]: "fld f (n\<lparr>nd_defined := v\<rparr>) = fld f n" "fld f (n\<lparr>nd_id := w\<rparr>) = fld f n"
  by (cases f; simp)+

lemma tabs_add:
  assumes "tabs_ok st g" "sane st" "GOOD_ID i" "i \<notin> sp_added st"
    "nodes g' = (nodes g)(nat i := (nodes g (nat i))\<lparr>nd_defined := 1\<rparr>)" "regs g' = regs g" "SetId g' = SetId g" "OUT g' = OUT g"
    "nodes_defined g' = nodes_defined g" "cur_node g' = Some (nat i)"
  shows "tabs_ok (st\<lparr>sp_ids := X, sp_added := insert i (sp_added st), sp_cur := Some i, sp_entry := e\<rparr>) g'"
proof -
  have h: "handle g' = handle g"
  proof
    fix k show "handle g' k = handle g k" using assms(5,6) by (cases k) (simp_all add: handle.simps)
  qed
  have "nd_id (nodes g' (nat j)) = j \<and> (nd_defined (nodes g' (nat j)) \<noteq> 0 \<longleftrightarrow> j \<in> insert i (sp_added st))"
    if "j \<in> {0..<MAX_NODE_ID}" for j
    using that assms(1,3,5) by (auto simp: tabs_ok_def GOOD_ID_def nat_eq_iff2)
  with assms h live_cong [OF assms(7,8)] show ?thesis
    unfolding tabs_ok_def owned_def table_def content_def by simp
qed

lemma graph_add:
  assumes "graph_ok st g" "df_graph g = Some gr" "n \<in> set (gnodes gr)" "idm (node_mem g) n = i"
    "node_mem g' = (node_mem g)(n := (node_mem g n)\<lparr>nodeExt := Some (nat i)\<rparr>)" "node_top g' = node_top g"
    "d_node_list g' = d_node_list g" "df_graph g' = df_graph g" "entry g' = or_else (entry g) n"
  shows "graph_ok (st\<lparr>sp_added := insert i (sp_added st), sp_cur := c, sp_entry := or_else (sp_entry st) i\<rparr>) g'"
proof -
  let ?m = "node_mem g'"
  have arcs: "destinationArcs (?m x) = destinationArcs (node_mem g x)" "sourceArcs (?m x) = sourceArcs (node_mem g x)"
    "idm ?m x = idm (node_mem g) x" "nodeStatus (?m x) = nodeStatus (node_mem g x)" for x
    using assms(5) by auto
  have so: "store_ok (gnodes gr) g'" if "store_ok (gnodes gr) g"
    using that unfolding store_ok_def free_ok_def in_use_def within_top_def linked_def out_def is_marked_def assms(6,7) arcs .
  have inj: "x = n \<longleftrightarrow> idm (node_mem g) x = i" if "x \<in> set (gnodes gr)" "drawn st (node_mem g) (gnodes gr)" for x
    using that assms(3,4) by (auto simp: drawn_def inj_on_def)
  have "drawn (st\<lparr>sp_added := insert i (sp_added st), sp_cur := c, sp_entry := e\<rparr>) ?m (gnodes gr)"
    if dr: "drawn st (node_mem g) (gnodes gr)" for e
  proof -
    have "nodeExt (?m x) = (if idm (node_mem g) x \<in> insert i (sp_added st) then Some (nat (idm (node_mem g) x)) else None)"
      if x: "x \<in> set (gnodes gr)" for x
      using x inj [OF x dr] dr by (cases "x = n") (simp_all add: assms(5) drawn_def)
    then show ?thesis using dr unfolding drawn_def arcs has_arc_def by simp
  qed
  moreover have "map_option (idm (node_mem g)) (entry g') = or_else (sp_entry st) i"
    "set_option (entry g') \<subseteq> set (gnodes gr)" if "map_option (idm (node_mem g)) (entry g) = sp_entry st" "set_option (entry g) \<subseteq> set (gnodes gr)"
  proof -
    show "map_option (idm (node_mem g)) (entry g') = or_else (sp_entry st) i"
      using assms(4,9) unfolding that(1) [symmetric] by (simp add: or_else_def)
    show "set_option (entry g') \<subseteq> set (gnodes gr)" using assms(3,9) that(2) by (simp add: or_else_def)
  qed
  moreover from assms(1,2) have "store_ok (gnodes gr) g" "drawn st (node_mem g) (gnodes gr)"
    "map_option (idm (node_mem g)) (entry g) = sp_entry st" "set_option (entry g) \<subseteq> set (gnodes gr)" by (auto simp: graph_ok_def)
  ultimately show ?thesis using assms(2,8) so unfolding graph_ok_def arcs by simp
qed

lemma add_node_run:
  assumes "nodes_defined g \<noteq> 0" "GOOD_ID i" "nd_defined (nodes g (nat i)) = 0"
  shows "bnd (find_df_node i) (\<lambda>node. if node \<noteq> None then df_punt mesg
    else bnd (add_node i) (\<lambda>node. bnd (modify (\<lambda>g. g\<lparr>cur_node := Some node\<rparr>)) (\<lambda>_.
      bnd (node_put n (\<lambda>nd. nd\<lparr>nodeExt := Some node\<rparr>)) (\<lambda>_.
      modify (\<lambda>g. if entry g = None then g\<lparr>entry := Some n\<rparr> else g))))) g =
    Inr ((), g\<lparr>nodes := (nodes g)(nat i := (nodes g (nat i))\<lparr>nd_defined := 1\<rparr>), cur_node := Some (nat i),
      node_mem := (node_mem g)(n := (node_mem g n)\<lparr>nodeExt := Some (nat i)\<rparr>),
      entry := or_else (entry g) n\<rparr>)"
  using assms by (simp add: or_else_def find_df_node_def add_node_def nd_get_def nd_put_def node_put_def bnd_def gets_def modify_def ret_def)

lemma add_df_node_wp:
  assumes "built st g" "GOOD_ID i" "i \<notin> sp_added st"
  shows "wp (add_df_node i) (\<lambda>_ g'. built (st\<lparr>sp_ids := insert i (sp_ids st), sp_added := insert i (sp_added st), sp_cur := Some i,
        sp_entry := or_else (sp_entry st) i\<rparr>) g') g"
    (is "wp _ (\<lambda>_. built ?st') g")
proof -
  let ?st1 = "st\<lparr>sp_ids := insert i (sp_ids st)\<rparr>"
  have b: "sane st" "graph_ok st g" "tabs_ok st g" using assms(1) by (auto simp: built_def)
  then obtain gr where gr: "df_graph g = Some gr" by (auto simp: graph_ok_def)
  have sane: "sane ?st'" using sane_call [OF b(1), of "Add_Node i" ?st'] assms(2,3) by simp
  have "wp (find_or_add gr i) (\<lambda>n g1. graph_ok ?st1 g1 \<and> same_tabs g g1 \<and> (\<exists>gr1. df_graph g1 = Some gr1 \<and>
      n \<in> set (gnodes gr1) \<and> idm (node_mem g1) n = i)) g"
    by (rule find_or_add_wp [OF b(2) gr b(1)]) auto
  then have "wp (bnd (find_or_add gr i) (\<lambda>n. bnd (find_df_node i) (\<lambda>node. if node \<noteq> None then df_punt ''add_df_node: cannot add a node twice''
    else bnd (add_node i) (\<lambda>node. bnd (modify (\<lambda>g. g\<lparr>cur_node := Some node\<rparr>)) (\<lambda>_.
      bnd (node_put n (\<lambda>nd. nd\<lparr>nodeExt := Some node\<rparr>)) (\<lambda>_.
      modify (\<lambda>g. if entry g = None then g\<lparr>entry := Some n\<rparr> else g))))))) (\<lambda>_. built ?st') g"
  proof (rule wp_seq, elim exE conjE)
    fix n g1 gr1
    assume g1: "graph_ok ?st1 g1" "same_tabs g g1" "df_graph g1 = Some gr1" "n \<in> set (gnodes gr1)" "idm (node_mem g1) n = i"
    have t1: "tabs_ok st g1" using b(3) g1(2) tabs_ok_cong [of g1 g] by (simp add: same_tabs_def)
    let ?g' = "g1\<lparr>nodes := (nodes g1)(nat i := (nodes g1 (nat i))\<lparr>nd_defined := 1\<rparr>), cur_node := Some (nat i),
      node_mem := (node_mem g1)(n := (node_mem g1 n)\<lparr>nodeExt := Some (nat i)\<rparr>),
      entry := or_else (entry g1) n\<rparr>"
    have "tabs_ok ?st' ?g'" by (rule tabs_add [OF t1 b(1) assms(2,3)]) simp_all
    moreover have "graph_ok (?st1\<lparr>sp_added := insert i (sp_added ?st1), sp_cur := Some i,
        sp_entry := or_else (sp_entry ?st1) i\<rparr>) ?g'"
      by (rule graph_add [OF g1(1,3-5)]) simp_all
    ultimately have "built ?st' ?g'" using sane by (simp add: built_def)
    then show "wp (bnd (find_df_node i) (\<lambda>node. if node \<noteq> None then df_punt ''add_df_node: cannot add a node twice''
      else bnd (add_node i) (\<lambda>node. bnd (modify (\<lambda>g. g\<lparr>cur_node := Some node\<rparr>)) (\<lambda>_.
        bnd (node_put n (\<lambda>nd. nd\<lparr>nodeExt := Some node\<rparr>)) (\<lambda>_.
        modify (\<lambda>g. if entry g = None then g\<lparr>entry := Some n\<rparr> else g)))))) (\<lambda>_. built ?st') g1"
      using add_node_run [of g1 i _ n] tabs_okD [OF t1 assms(2)] assms(2,3) by (simp add: wp_def)
  qed
  then show ?thesis unfolding add_df_node_def by (simp add: gr assms(2) cong: if_cong)
qed

section \<open>Registers\<close>

lemma bnd_gets: "bnd (gets h) p s = p (h s) s"
  by (simp add: bnd_def gets_def)

definition rg_upd :: "bool \<Rightarrow> Set \<Rightarrow> I_Reg \<Rightarrow> I_Reg" where
  "rg_upd b u r = (if b then r\<lparr>e_use := u\<rparr> else r\<lparr>e_def := u\<rparr>)"

lemma handle_regs_upd: "handle (g\<lparr>regs := (regs g)(r := rg_upd b u (regs g r))\<rparr>) = (handle g)(RK r b := u)"
proof
  fix k show "handle (g\<lparr>regs := (regs g)(r := rg_upd b u (regs g r))\<rparr>) k = ((handle g)(RK r b := u)) k"
    by (cases k) (auto simp: handle.simps rg_upd_def)
qed

lemma skel_regs_upd: "skel (g\<lparr>regs := (regs g)(r := rg_upd b u (regs g r))\<rparr>) = skel g"
  by (auto simp: skel_def fun_eq_iff rg_upd_def)

lemma add_to_node:
  assumes "owned g" "GOOD_ID i" "x \<noteq> INT_MIN"
  shows "wp (bnd (Set_add (fld f (nodes g (nat i))) x) (\<lambda>s. nd_put i (fld_upd f s)))
    (\<lambda>_ g'. owned g' \<and> skel g' = skel g \<and> content g' = (content g)(NK (nat i) f := insert x (content g (NK (nat i) f)))) g"
proof -
  let ?up = "\<lambda>s g'. g'\<lparr>nodes := (nodes g')(nat i := fld_upd f s (nodes g' (nat i)))\<rparr>"
  have "wp (Set_add (handle g (NK (nat i) f)) x) (\<lambda>h g'. grows g g' \<and> owned (?up h g') \<and>
      content (?up h g') = (content g)(NK (nat i) f := insert x (content g (NK (nat i) f)))) g"
    by (rule add_held [OF assms(1,3)]) (simp add: handle_nodes_upd)
  then show ?thesis
    using assms(2) by (auto simp: nd_put_def handle.simps skel_nodes_upd grows_fields elim!: wp_mono)
qed

lemma add_to_reg:
  assumes "owned g" "GOOD_REG_ID r" "x \<noteq> INT_MIN"
  shows "wp (bnd (Set_add (handle g (RK (nat r) b)) x) (\<lambda>s. rg_put r (rg_upd b s)))
    (\<lambda>_ g'. owned g' \<and> skel g' = skel g \<and> content g' = (content g)(RK (nat r) b := insert x (content g (RK (nat r) b)))) g"
proof -
  let ?up = "\<lambda>s g'. g'\<lparr>regs := (regs g')(nat r := rg_upd b s (regs g' (nat r)))\<rparr>"
  have "wp (Set_add (handle g (RK (nat r) b)) x) (\<lambda>h g'. grows g g' \<and> owned (?up h g') \<and>
      content (?up h g') = (content g)(RK (nat r) b := insert x (content g (RK (nat r) b)))) g"
    by (rule add_held [OF assms(1,3)]) (simp add: handle_regs_upd)
  then show ?thesis
    using assms(2) by (auto simp: rg_put_def skel_regs_upd grows_fields elim!: wp_mono)
qed

text \<open>What the two calls on registers have in common.\<close>

definition note_reg :: "nfield \<Rightarrow> bool \<Rightarrow> int \<Rightarrow> int \<Rightarrow> unit df_prog" where
  "note_reg f b i r =
     bnd (add_reg r) (\<lambda>_.
     bnd (nd_get i) (\<lambda>n.
     bnd (Set_add (fld f n) r) (\<lambda>s.
     bnd (nd_put i (fld_upd f s)) (\<lambda>_.
     bnd (rg_get r) (\<lambda>rg.
     bnd (Set_add (if b then e_use rg else e_def rg) (nd_id n)) (\<lambda>u.
     rg_put r (rg_upd b u)))))))"

lemma owned_regs_flag:
  fixes v :: int and r :: nat
  defines "g1 \<equiv> \<lambda>g :: df. g\<lparr>regs := (regs g)(r := (regs g r)\<lparr>rg_defined := v\<rparr>)\<rparr>"
  shows "handle (g1 g) = handle g" "owned (g1 g) = owned g" "content (g1 g) = content g"
proof -
  show h: "handle (g1 g) = handle g"
  proof
    fix k show "handle (g1 g) k = handle g k" by (cases k) (auto simp: handle.simps g1_def)
  qed
  have "live (g1 g) = live g" "wf_lib (g1 g) = wf_lib g" by (simp_all add: g1_def)
  with h show "owned (g1 g) = owned g" "content (g1 g) = content g" by (simp_all add: owned_def content_def fun_eq_iff)
qed

lemma add_reg_run:
  assumes "nodes_defined g \<noteq> 0" "GOOD_REG_ID r"
  obtains v where "v \<noteq> 0" "add_reg r g = Inr (nat r, g\<lparr>regs := (regs g)(nat r := (regs g (nat r))\<lparr>rg_defined := v\<rparr>)\<rparr>)"
proof -
  let ?v = "if rg_defined (regs g (nat r)) = 0 then 1 else rg_defined (regs g (nat r))"
  have same: "g = g\<lparr>regs := (regs g)(nat r := (regs g (nat r))\<lparr>rg_defined := rg_defined (regs g (nat r))\<rparr>)\<rparr>" by simp
  show thesis
    by (rule that [of ?v]) (use assms same in \<open>auto simp: add_reg_def rg_get_def rg_put_def bnd_def gets_def modify_def ret_def\<close>)
qed

lemma note_reg_wp:
  assumes own: "owned g" and i: "GOOD_ID i" and r: "GOOD_REG_ID r" and d: "nodes_defined g \<noteq> 0" and nid: "nd_id (nodes g (nat i)) = i"
  shows "wp (note_reg f b i r) (\<lambda>_ g'. owned g' \<and>
    (\<exists>v. v \<noteq> 0 \<and> skel g' = skel (g\<lparr>regs := (regs g)(nat r := (regs g (nat r))\<lparr>rg_defined := v\<rparr>)\<rparr>)) \<and>
    content g' = (content g)(NK (nat i) f := insert r (content g (NK (nat i) f)), RK (nat r) b := insert i (content g (RK (nat r) b)))) g"
proof -
  obtain v where v: "v \<noteq> 0" and run: "add_reg r g = Inr (nat r, g\<lparr>regs := (regs g)(nat r := (regs g (nat r))\<lparr>rg_defined := v\<rparr>)\<rparr>)"
    using d r by (rule add_reg_run)
  let ?g1 = "g\<lparr>regs := (regs g)(nat r := (regs g (nat r))\<lparr>rg_defined := v\<rparr>)\<rparr>"
  note g1 = owned_regs_flag [where r = "nat r" and v = v and g = g]
  have ne: "r \<noteq> INT_MIN" "i \<noteq> INT_MIN" using r i by (auto simp: GOOD_REG_ID_def GOOD_ID_def INT_MIN_def)
  have "wp (bnd (Set_add (fld f (nodes ?g1 (nat i))) r) (\<lambda>s. nd_put i (fld_upd f s)))
      (\<lambda>_ g2. owned g2 \<and> skel g2 = skel ?g1 \<and> content g2 = (content ?g1)(NK (nat i) f := insert r (content ?g1 (NK (nat i) f)))) ?g1"
    by (rule add_to_node [OF _ i ne(1)]) (use own g1 in simp)
  then have "wp (bnd (bnd (Set_add (fld f (nodes ?g1 (nat i))) r) (\<lambda>s. nd_put i (fld_upd f s)))
      (\<lambda>_. bnd (rg_get r) (\<lambda>rg. bnd (Set_add (if b then e_use rg else e_def rg) i) (\<lambda>u. rg_put r (rg_upd b u)))))
      (\<lambda>_ g'. owned g' \<and> skel g' = skel ?g1 \<and> content g' = (content g)(NK (nat i) f := insert r (content g (NK (nat i) f)),
        RK (nat r) b := insert i (content g (RK (nat r) b)))) ?g1"
  proof (rule wp_seq, elim conjE)
    fix u g2 assume g2: "owned g2" "skel g2 = skel ?g1"
      "content g2 = (content ?g1)(NK (nat i) f := insert r (content ?g1 (NK (nat i) f)))"
    have "wp (bnd (Set_add (handle g2 (RK (nat r) b)) i) (\<lambda>s. rg_put r (rg_upd b s)))
      (\<lambda>_ g'. owned g' \<and> skel g' = skel g2 \<and> content g' = (content g2)(RK (nat r) b := insert i (content g2 (RK (nat r) b)))) g2"
      by (rule add_to_reg [OF g2(1) r ne(2)])
    then show "wp (bnd (rg_get r) (\<lambda>rg. bnd (Set_add (if b then e_use rg else e_def rg) i) (\<lambda>u. rg_put r (rg_upd b u))))
      (\<lambda>_ g'. owned g' \<and> skel g' = skel ?g1 \<and> content g' = (content g)(NK (nat i) f := insert r (content g (NK (nat i) f)),
        RK (nat r) b := insert i (content g (RK (nat r) b)))) g2"
      using r g2(2,3) g1(3) by (simp add: rg_get_def handle.simps)
  qed
  then obtain g' where g': "bnd (Set_add (fld f (nodes ?g1 (nat i))) r) (\<lambda>s. bnd (nd_put i (fld_upd f s))
      (\<lambda>_. bnd (rg_get r) (\<lambda>rg. bnd (Set_add (if b then e_use rg else e_def rg) i) (\<lambda>u. rg_put r (rg_upd b u))))) ?g1 = Inr ((), g')"
    "owned g'" "skel g' = skel ?g1" "content g' = (content g)(NK (nat i) f := insert r (content g (NK (nat i) f)),
        RK (nat r) b := insert i (content g (RK (nat r) b)))" by (auto simp: wp_run bnd_assoc)
  have "note_reg f b i r g = Inr ((), g')"
    using g'(1) i nid by (simp add: note_reg_def bnd_def [of "add_reg r"] run nd_get_def bnd_gets)
  with g'(2-4) v show ?thesis by (auto simp: wp_def)
qed

lemma rg_upd_eq: "rg_upd True u = (\<lambda>r. r\<lparr>e_use := u\<rparr>)" "rg_upd False u = (\<lambda>r. r\<lparr>e_def := u\<rparr>)"
  by (simp_all add: rg_upd_def fun_eq_iff)

lemma reg_calls:
  assumes "df_graph g = Some gr" "cur_node g = Some (nat i)" "GOOD_ID i" "GOOD_REG_ID r"
  shows "add_df_node_src_reg r g = note_reg Src_reg True i r g" "add_df_node_dest_reg r g = note_reg Dest_reg False i r g"
  using assms by (simp_all add: add_df_node_src_reg_def add_df_node_dest_reg_def note_reg_def bnd_gets rg_upd_eq GOOD_ID_def)

lemma tabs_reg:
  assumes t: "tabs_ok st g" and s: "sane st" and i: "sp_cur st = Some i" and r: "GOOD_REG_ID r" and own: "owned g'" and v: "v \<noteq> 0"
    and sk: "skel g' = skel (g\<lparr>regs := (regs g)(nat r := (regs g (nat r))\<lparr>rg_defined := v\<rparr>)\<rparr>)"
  shows "content g' = (content g)(NK (nat i) Src_reg := insert r (content g (NK (nat i) Src_reg)), RK (nat r) True := insert i (content g (RK (nat r) True))) \<Longrightarrow>
      tabs_ok (st\<lparr>sp_src := (sp_src st)(i := insert r (sp_src st i))\<rparr>) g'"
    and "content g' = (content g)(NK (nat i) Dest_reg := insert r (content g (NK (nat i) Dest_reg)), RK (nat r) False := insert i (content g (RK (nat r) False))) \<Longrightarrow>
      tabs_ok (st\<lparr>sp_dst := (sp_dst st)(i := insert r (sp_dst st i))\<rparr>) g'"
proof -
  have i0: "0 \<le> i" and r0: "0 \<le> r" using s i r by (auto simp: sane_def GOOD_REG_ID_def)
  have n: "int n = i \<longleftrightarrow> n = nat i" "int n = r \<longleftrightarrow> n = nat r" for n using i0 r0 by auto
  have f: "nodes_defined g' = nodes_defined g" "cur_node g' = cur_node g" "nd_id (nodes g' j) = nd_id (nodes g j)"
    "nd_defined (nodes g' j) = nd_defined (nodes g j)" "rg_defined (regs g' q) = (if q = nat r then v else rg_defined (regs g q))" for j q
    using sk by (auto simp: skel_def fun_eq_iff)
  show "tabs_ok (st\<lparr>sp_src := (sp_src st)(i := insert r (sp_src st i))\<rparr>) g'"
    if "content g' = (content g)(NK (nat i) Src_reg := insert r (content g (NK (nat i) Src_reg)), RK (nat r) True := insert i (content g (RK (nat r) True)))"
    using t own v i0 r0 unfolding tabs_ok_def table_def that f by (auto simp: n)
  show "tabs_ok (st\<lparr>sp_dst := (sp_dst st)(i := insert r (sp_dst st i))\<rparr>) g'"
    if "content g' = (content g)(NK (nat i) Dest_reg := insert r (content g (NK (nat i) Dest_reg)), RK (nat r) False := insert i (content g (RK (nat r) False)))"
    using t own v i0 r0 unfolding tabs_ok_def table_def that f by (auto simp: n)
qed

section \<open>The simulation\<close>

lemma reg_call_ok:
  assumes b: "built st g" and i: "sp_cur st = Some i" and r: "GOOD_REG_ID r"
  shows "wp (add_df_node_src_reg r) (\<lambda>_. built (st\<lparr>sp_src := (sp_src st)(i := insert r (sp_src st i))\<rparr>)) g"
    and "wp (add_df_node_dest_reg r) (\<lambda>_. built (st\<lparr>sp_dst := (sp_dst st)(i := insert r (sp_dst st i))\<rparr>)) g"
proof -
  have s: "sane st" and t: "tabs_ok st g" and gok: "graph_ok st g" using b by (auto simp: built_def)
  then obtain gr where gr: "df_graph g = Some gr" by (auto simp: graph_ok_def)
  have ig: "GOOD_ID i" using s i by (auto simp: sane_def GOOD_ID_def)
  have cur: "cur_node g = Some (nat i)" using t i by (simp add: tabs_ok_def)
  have own: "owned g" using t by (simp add: tabs_ok_def)
  note run = reg_calls [OF gr cur ig r]
  note nw = note_reg_wp [OF own ig r tabs_okD(1,2) [OF t ig]]
  have s1: "sane (st\<lparr>sp_src := (sp_src st)(i := insert r (sp_src st i))\<rparr>)" using sane_call [OF s, of "Src_Reg r"] i r by simp
  have s2: "sane (st\<lparr>sp_dst := (sp_dst st)(i := insert r (sp_dst st i))\<rparr>)" using sane_call [OF s, of "Dest_Reg r"] i r by simp
  have keep: "graph_ok st' g'" if "skel g' = skel (g\<lparr>regs := R\<rparr>)" "sp_ids st' = sp_ids st" "sp_added st' = sp_added st"
    "sp_arcs st' = sp_arcs st" "sp_entry st' = sp_entry st" for g' R and st' :: flow_spec
  proof -
    have "graph_ok st' g' = graph_ok st' g" by (rule graph_ok_cong) (use that(1) in \<open>simp_all add: skel_def\<close>)
    then show ?thesis using gok that(2-) by (simp add: graph_ok_def drawn_def)
  qed
  obtain g' v where "note_reg Src_reg True i r g = Inr ((), g')" "owned g'" "v \<noteq> 0"
    "skel g' = skel (g\<lparr>regs := (regs g)(nat r := (regs g (nat r))\<lparr>rg_defined := v\<rparr>)\<rparr>)"
    "content g' = (content g)(NK (nat i) Src_reg := insert r (content g (NK (nat i) Src_reg)), RK (nat r) True := insert i (content g (RK (nat r) True)))"
    using nw [of Src_reg True] unfolding wp_run by auto
  then show "wp (add_df_node_src_reg r) (\<lambda>_. built (st\<lparr>sp_src := (sp_src st)(i := insert r (sp_src st i))\<rparr>)) g"
    using tabs_reg(1) [OF t s i r] s1 keep by (auto simp: wp_def run built_def)
  obtain g' v where "note_reg Dest_reg False i r g = Inr ((), g')" "owned g'" "v \<noteq> 0"
    "skel g' = skel (g\<lparr>regs := (regs g)(nat r := (regs g (nat r))\<lparr>rg_defined := v\<rparr>)\<rparr>)"
    "content g' = (content g)(NK (nat i) Dest_reg := insert r (content g (NK (nat i) Dest_reg)), RK (nat r) False := insert i (content g (RK (nat r) False)))"
    using nw [of Dest_reg False] unfolding wp_run by auto
  then show "wp (add_df_node_dest_reg r) (\<lambda>_. built (st\<lparr>sp_dst := (sp_dst st)(i := insert r (sp_dst st i))\<rparr>)) g"
    using tabs_reg(2) [OF t s i r] s2 keep by (auto simp: wp_def run built_def)
qed

lemma add_df_node_punts:
  assumes b: "built st g" and i: "\<not> GOOD_ID i \<or> i \<in> sp_added st"
  shows "punts (add_df_node i) g"
proof -
  have s: "sane st" and t: "tabs_ok st g" and gok: "graph_ok st g" using b by (auto simp: built_def)
  then obtain gr where gr: "df_graph g = Some gr" by (auto simp: graph_ok_def)
  show ?thesis
  proof (cases "GOOD_ID i")
    case False
    then show ?thesis by (simp add: add_df_node_def punts_def bnd_gets gr df_punt_def)
  next
    case True
    have two: "punts (bnd (find_df_node i) (\<lambda>node. if node \<noteq> None then df_punt mesg else p)) g1" if "same_tabs g g1" for g1 p mesg
    proof -
      have "tabs_ok st g1" using t that tabs_ok_cong [of g1 g] by (simp add: same_tabs_def)
      from tabs_okD [OF this True] i True show ?thesis
        by (simp add: punts_def find_df_node_def bnd_gets nd_get_def bnd_assoc df_punt_def)
    qed
    have "punts (bnd (find_or_add gr i) (\<lambda>n. bnd (find_df_node i) (\<lambda>node. if node \<noteq> None then df_punt mesg else p n))) g" for mesg p
      by (rule punts_bnd, rule find_or_add_wp [OF gok gr s], rule two)
    with True show ?thesis by (simp add: add_df_node_def punts_def bnd_gets gr)
  qed
qed

theorem call_simulated:
  assumes "built st g"
  shows "case spec_call c st of None \<Rightarrow> punts (run_call c) g | Some st' \<Rightarrow> wp (run_call c) (\<lambda>_. built st') g"
proof -
  have s: "sane st" and t: "tabs_ok st g" and gok: "graph_ok st g" using assms by (auto simp: built_def)
  then obtain gr where gr: "df_graph g = Some gr" by (auto simp: graph_ok_def)
  have cur: "cur_node g = map_option nat (sp_cur st)" using t by (simp add: tabs_ok_def)
  show ?thesis
  proof (cases c)
    case (Add_Node i)
    then show ?thesis using add_df_node_wp [OF assms] add_df_node_punts [OF assms] by simp
  next
    case (Src_Reg r)
    then show ?thesis using reg_call_ok(1) [OF assms] gr cur
      by (auto simp: add_df_node_src_reg_def punts_def bnd_gets df_punt_def split: option.split)
  next
    case (Dest_Reg r)
    then show ?thesis using reg_call_ok(2) [OF assms] gr cur
      by (auto simp: add_df_node_dest_reg_def punts_def bnd_gets df_punt_def split: option.split)
  next
    case (Connect i j)
    have "sane (st\<lparr>sp_ids := insert i (insert j (sp_ids st)), sp_arcs := insert (i, j) (sp_arcs st)\<rparr>)"
      using sane_call [OF s, of "Connect i j"] by simp
    moreover have "tabs_ok (st\<lparr>sp_ids := insert i (insert j (sp_ids st)), sp_arcs := insert (i, j) (sp_arcs st)\<rparr>) g'" if "same_tabs g g'" for g'
      using t that tabs_ok_cong [of g' g st] by (simp add: same_tabs_def tabs_ok_def)
    ultimately show ?thesis
      using Connect connect_df_node_wp [OF assms, of i j] by (auto simp: built_def elim!: wp_mono)
  qed
qed

end
