(* ===== verification/Dataflow_Reset.thy ===== *)
theory Dataflow_Reset
  imports Dataflow_Build
begin

text \<open>
  Starting a flow graph: \<open>define_df_graph\<close> of \<open>src/src/library/libflow/dataflow.c\<close> frees the graph there was,
  disposes of the sets in the tables (or clears them, the first time) and leaves the state that describes the
  empty graph.
\<close>

section \<open>Clearing the tables\<close>

definition gskel :: "df \<Rightarrow> (nat \<Rightarrow> gnode) \<times> nat \<times> nat list \<times> int \<times> FGraph option" where
  "gskel g = (node_mem g, node_top g, d_node_list g, nodes_defined g, df_graph g)"

definition wipe :: "key set \<Rightarrow> (key \<Rightarrow> Set) \<Rightarrow> key \<Rightarrow> Set" where
  "wipe K h k = (if k \<in> K then None else h k)"

lemma wipe_simps [simp]: "wipe {} h = h" "wipe K (wipe L h) = wipe (K \<union> L) h" "(wipe K h)(k := None) = wipe (insert k K) h"
  by (auto simp: wipe_def fun_eq_iff)

lemma gskel_skel: "skel g' = skel g \<Longrightarrow> gskel g' = gskel g"
  by (simp add: gskel_def skel_def)

text \<open>The state in which the keys \<open>K\<close> are cleared and the flags are \<open>N\<close> and \<open>R\<close>.\<close>

definition cleared :: "df \<Rightarrow> key set \<Rightarrow> (nat \<Rightarrow> int \<times> int) \<Rightarrow> (nat \<Rightarrow> int) \<Rightarrow> df \<Rightarrow> bool" where
  "cleared g0 K N R g = (owned g \<and> gskel g = gskel g0 \<and> handle g = wipe K (handle g0) \<and>
     (\<lambda>j. (nd_id (nodes g j), nd_defined (nodes g j))) = N \<and> (\<lambda>r. rg_defined (regs g r)) = R)"

lemma cleared_skel:
  assumes "cleared g0 K N R g" "owned g'" "skel g' = skel g" "handle g' = (handle g)(k := None)"
  shows "cleared g0 (insert k K) N R g'"
  using assms gskel_skel [OF assms(3)] by (auto simp: cleared_def skel_def fun_eq_iff wipe_def)

lemma cleared_None: "cleared g0 K N R g \<Longrightarrow> handle g k = None \<Longrightarrow> cleared g0 (insert k K) N R g"
  by (rule cleared_skel [of g0 K N R g]) (auto simp: cleared_def fun_eq_iff wipe_def)

lemma reset_field_wp:
  assumes "cleared g0 K N R g" "GOOD_ID i"
  shows "wp (reset_field i f) (\<lambda>_. cleared g0 (insert (NK (nat i) f) K) N R) g"
proof (cases "fld f (nodes g (nat i)) = None")
  case True
  then show ?thesis using assms cleared_None [OF assms(1), of "NK (nat i) f"] by (simp add: reset_field_def nd_get_def handle.simps)
next
  case False
  have own: "owned g" using assms(1) by (simp add: cleared_def)
  from False assms(2) show ?thesis
    by (simp add: reset_field_def nd_get_def nd_put_def)
      (rule wp_mono [OF dispose_upd [OF own loose_None]], auto intro: cleared_skel [OF assms(1)])
qed

lemma reset_fields_wp:
  assumes "cleared g0 K N R g" "GOOD_ID i"
  shows "wp (for_each (\<lambda>f _. reset_field i f) fs ()) (\<lambda>_. cleared g0 (NK (nat i) ` set fs \<union> K) N R) g"
proof (rule wp_for_each [where I = "\<lambda>k _. cleared g0 (NK (nat i) ` set (take k fs) \<union> K) N R"])
  fix k u g assume "k < length fs" "cleared g0 (NK (nat i) ` set (take k fs) \<union> K) N R g"
  then show "wp (reset_field i (fs ! k)) (\<lambda>_. cleared g0 (NK (nat i) ` set (take (Suc k) fs) \<union> K) N R) g"
    using reset_field_wp [OF _ assms(2)] by (simp add: take_Suc_conv_app_nth)
qed (use assms in simp_all)

lemma nd_flags_wp:
  assumes "cleared g0 K N R g" "GOOD_ID i"
  shows "wp (nd_put i (\<lambda>n. n\<lparr>nd_defined := 0, nd_id := i\<rparr>)) (\<lambda>_. cleared g0 K (N(nat i := (i, 0))) R) g"
proof -
  let ?g = "g\<lparr>nodes := (nodes g)(nat i := (nodes g (nat i))\<lparr>nd_defined := 0, nd_id := i\<rparr>)\<rparr>"
  have h: "handle ?g = handle g"
  proof
    fix k show "handle ?g k = handle g k" by (cases k) (auto simp: handle.simps)
  qed
  have "owned ?g = owned g" by (simp add: owned_def h)
  with assms h have "cleared g0 K (N(nat i := (i, 0))) R ?g" by (auto simp: cleared_def gskel_def fun_eq_iff)
  with assms(2) show ?thesis by (simp add: nd_put_def)
qed

text \<open>The first time the fields are overwritten without looking.\<close>

lemma clear_fields_wp:
  assumes "cleared g0 K N R g" "GOOD_ID i"
  shows "wp (nd_put i (\<lambda>n. fold (\<lambda>f n. fld_upd f None n) fs (n\<lparr>nd_defined := 0, nd_id := i\<rparr>)))
    (\<lambda>_. cleared g0 (NK (nat i) ` set fs \<union> K) (N(nat i := (i, 0))) R) g"
proof -
  have f: "fld f (fold (\<lambda>f n. fld_upd f None n) fs n) = (if f \<in> set fs then None else fld f n)" for f n
    by (induction fs arbitrary: n) auto
  have g: "nd_id (fold (\<lambda>f n. fld_upd f None n) fs n) = nd_id n" "nd_defined (fold (\<lambda>f n. fld_upd f None n) fs n) = nd_defined n" for n
    by (induction fs arbitrary: n) auto
  let ?g = "g\<lparr>nodes := (nodes g)(nat i := fold (\<lambda>f n. fld_upd f None n) fs ((nodes g (nat i))\<lparr>nd_defined := 0, nd_id := i\<rparr>))\<rparr>"
  have h: "handle ?g = wipe (NK (nat i) ` set fs) (handle g)"
  proof
    fix k show "handle ?g k = wipe (NK (nat i) ` set fs) (handle g) k" by (cases k) (auto simp: handle.simps wipe_def f)
  qed
  have "owned g" using assms(1) by (simp add: cleared_def)
  then have "owned ?g" by (auto simp: owned_def h wipe_def apart_def live_def)
  with assms h have "cleared g0 (NK (nat i) ` set fs \<union> K) (N(nat i := (i, 0))) R ?g"
    by (auto simp: cleared_def gskel_def fun_eq_iff g wipe_def)
  with assms(2) show ?thesis by (simp add: nd_put_def)
qed

text \<open>Registers.\<close>

lemma dispose_reg:
  fixes r :: nat and b :: bool
  assumes own: "owned g"
  defines "up \<equiv> \<lambda>g :: df. g\<lparr>regs := (regs g)(r := rg_upd b None (regs g r))\<rparr>"
  shows "wp (Set_dispose (handle g (RK r b))) (\<lambda>_ g'. owned (up g') \<and> handle (up g') = (handle g)(RK r b := None) \<and> skel (up g') = skel g) g"
proof (rule Set_dispose_wp [OF owned_wf [OF own] owned_live [OF own]])
  fix g2 assume fr: "freed g (handle g (RK r b)) g2"
  note m = more_fields [OF freed_more [OF fr]]
  have fr': "freed (up g) (handle g (RK r b)) (up g2)"
    using fr m(4) by (auto simp: freed_def up_def) (cases g; cases g2; simp)
  note st = stored [OF own loose_None handle_regs_upd _ _ fr' [unfolded up_def], folded up_def]
  show "owned (up g2) \<and> handle (up g2) = (handle g)(RK r b := None) \<and> skel (up g2) = skel g"
    using st skel_regs_upd [of g2 r b None] m(1) by (simp add: up_def)
qed

lemma reset_reg_side:
  assumes "cleared g0 K N R g" "GOOD_REG_ID r"
  shows "wp (if handle g (RK (nat r) b) \<noteq> None then bnd (Set_dispose (handle g (RK (nat r) b))) (\<lambda>_. rg_put r (rg_upd b None)) else ret ())
    (\<lambda>_. cleared g0 (insert (RK (nat r) b) K) N R) g"
proof (cases "handle g (RK (nat r) b) = None")
  case True
  then show ?thesis using cleared_None [OF assms(1), of "RK (nat r) b"] by simp
next
  case False
  have own: "owned g" using assms(1) by (simp add: cleared_def)
  have "wp (Set_dispose (handle g (RK (nat r) b))) (\<lambda>_ g'. cleared g0 (insert (RK (nat r) b) K) N R
      (g'\<lparr>regs := (regs g')(nat r := rg_upd b None (regs g' (nat r)))\<rparr>)) g"
    by (rule wp_mono [OF dispose_reg [OF own]]) (auto intro: cleared_skel [OF assms(1)])
  with False assms(2) show ?thesis by (simp add: rg_put_def)
qed

lemma rg_flag_wp:
  assumes "cleared g0 K N R g" "GOOD_REG_ID r"
  shows "wp (rg_put r (\<lambda>x. x\<lparr>rg_defined := 0\<rparr>)) (\<lambda>_. cleared g0 K N (R(nat r := 0))) g"
proof -
  note f = owned_regs_flag [where r = "nat r" and v = 0 and g = g]
  have "cleared g0 K N (R(nat r := 0)) (g\<lparr>regs := (regs g)(nat r := (regs g (nat r))\<lparr>rg_defined := 0\<rparr>)\<rparr>)"
    using assms(1) f(1,2) by (auto simp: cleared_def gskel_def fun_eq_iff)
  with assms(2) show ?thesis by (simp add: rg_put_def)
qed

lemma reset_reg_wp:
  assumes "cleared g0 K N R g" "GOOD_REG_ID r"
  shows "wp (reset_reg r) (\<lambda>_. cleared g0 ({RK (nat r) True, RK (nat r) False} \<union> K) N (R(nat r := 0))) g"
proof -
  have two: "wp (bnd (if handle g1 (RK (nat r) False) \<noteq> None then bnd (Set_dispose (handle g1 (RK (nat r) False))) (\<lambda>_. rg_put r (rg_upd False None)) else ret ()) (\<lambda>_.
      if h \<noteq> None then bnd (Set_dispose h) (\<lambda>_. rg_put r (rg_upd True None)) else ret ()))
      (\<lambda>_. cleared g0 ({RK (nat r) True, RK (nat r) False} \<union> K) N R1) g1"
    if c: "cleared g0 K N R1 g1" and h: "h = handle g1 (RK (nat r) True)" for g1 R1 h
  proof (rule wp_seq [OF reset_reg_side [OF c assms(2), of False]])
    fix u g2 assume g2: "cleared g0 (insert (RK (nat r) False) K) N R1 g2"
    then have "handle g2 (RK (nat r) True) = h" using c h by (simp add: cleared_def wipe_def)
    then show "wp (if h \<noteq> None then bnd (Set_dispose h) (\<lambda>_. rg_put r (rg_upd True None)) else ret ())
        (\<lambda>_. cleared g0 ({RK (nat r) True, RK (nat r) False} \<union> K) N R1) g2"
      using reset_reg_side [OF g2 assms(2), of True] by (cases h) simp_all
  qed
  show ?thesis
    unfolding reset_reg_def
  proof (rule wp_seq [OF rg_flag_wp [OF assms]])
    fix u g1 assume "cleared g0 K N (R(nat r := 0)) g1"
    from two [OF this refl, unfolded handle.simps if_True if_False simp_thms rg_upd_eq] assms(2)
    show "wp (bnd (rg_get r) (\<lambda>x. bnd (if e_def x \<noteq> None then bnd (Set_dispose (e_def x)) (\<lambda>_. rg_put r (\<lambda>r. r\<lparr>e_def := None\<rparr>)) else ret ()) (\<lambda>_.
        if e_use x \<noteq> None then bnd (Set_dispose (e_use x)) (\<lambda>_. rg_put r (\<lambda>r. r\<lparr>e_use := None\<rparr>)) else ret ())))
        (\<lambda>_. cleared g0 ({RK (nat r) True, RK (nat r) False} \<union> K) N (R(nat r := 0))) g1"
      by (simp only: rg_get_def if_True wp_bnd [of "gets _"] wp_gets)
  qed
qed

lemma clear_reg_wp:
  assumes "cleared g0 K N R g" "GOOD_REG_ID r"
  shows "wp (rg_put r (\<lambda>x. x\<lparr>rg_defined := 0, e_def := None, e_use := None\<rparr>))
    (\<lambda>_. cleared g0 ({RK (nat r) True, RK (nat r) False} \<union> K) N (R(nat r := 0))) g"
proof -
  let ?g = "g\<lparr>regs := (regs g)(nat r := (regs g (nat r))\<lparr>rg_defined := 0, e_def := None, e_use := None\<rparr>)\<rparr>"
  have h: "handle ?g = wipe {RK (nat r) True, RK (nat r) False} (handle g)"
  proof
    fix k show "handle ?g k = wipe {RK (nat r) True, RK (nat r) False} (handle g) k" by (cases k) (auto simp: handle.simps wipe_def)
  qed
  have "owned g" using assms(1) by (simp add: cleared_def)
  then have "owned ?g" by (auto simp: owned_def h wipe_def apart_def live_def)
  with assms h have "cleared g0 ({RK (nat r) True, RK (nat r) False} \<union> K) N (R(nat r := 0)) ?g"
    by (auto simp: cleared_def gskel_def fun_eq_iff wipe_def)
  with assms(2) show ?thesis by (simp add: rg_put_def)
qed

section \<open>The loops over the tables\<close>

definition node_wipe :: "nat \<Rightarrow> key set" where
  "node_wipe n = {NK i f | i f. i < n \<and> f \<in> set reset_fields}"

definition reg_wipe :: "nat \<Rightarrow> key set" where
  "reg_wipe n = {RK r b | r b. r < n}"

lemma node_wipe_Suc: "NK n ` set reset_fields \<union> (node_wipe n \<union> K) = node_wipe (Suc n) \<union> K"
  by (auto simp: node_wipe_def less_Suc_eq)

lemma reg_wipe_Suc: "{RK n True, RK n False} \<union> (reg_wipe n \<union> K) = reg_wipe (Suc n) \<union> K"
proof -
  have "reg_wipe (Suc n) = {RK n True, RK n False} \<union> reg_wipe n"
    by (auto simp: reg_wipe_def less_Suc_eq)
  then show ?thesis by auto
qed

lemma nodes_loop:
  assumes "cleared g0 K N R g"
    and body: "\<And>i K N g. cleared g0 K N R g \<Longrightarrow> GOOD_ID i \<Longrightarrow>
      wp (body i ()) (\<lambda>_. cleared g0 (NK (nat i) ` set reset_fields \<union> K) (N(nat i := (i, 0))) R) g"
  shows "wp (for_each body [0..MAX_NODE_ID - 1] ()) (\<lambda>_. cleared g0 (node_wipe (nat MAX_NODE_ID) \<union> K)
    (\<lambda>j. if j < nat MAX_NODE_ID then (int j, 0) else N j) R) g"
proof (rule wp_for_each [where I = "\<lambda>k _. cleared g0 (node_wipe k \<union> K) (\<lambda>j. if j < k then (int j, 0) else N j) R"])
  fix k u g assume k: "k < length [0..MAX_NODE_ID - 1]"
    and c: "cleared g0 (node_wipe k \<union> K) (\<lambda>j. if j < k then (int j, 0) else N j) R g"
  have i: "[0..MAX_NODE_ID - 1] ! k = int k" "GOOD_ID (int k)" using k by (auto simp: GOOD_ID_def nth_upto)
  have "(\<lambda>j. if j < k then (int j, 0) else N j)(k := (int k, 0)) = (\<lambda>j. if j < Suc k then (int j, 0) else N j)"
    by (auto simp: fun_eq_iff less_Suc_eq)
  with body [OF c i(2)] show "wp (body ([0..MAX_NODE_ID - 1] ! k) u) (\<lambda>_. cleared g0 (node_wipe (Suc k) \<union> K)
      (\<lambda>j. if j < Suc k then (int j, 0) else N j) R) g"
    by (simp add: i(1) node_wipe_Suc)
qed (use assms(1) in \<open>simp_all add: node_wipe_def\<close>)

lemma regs_loop:
  assumes "cleared g0 K N R g"
    and body: "\<And>r K R g. cleared g0 K N R g \<Longrightarrow> GOOD_REG_ID r \<Longrightarrow>
      wp (body r ()) (\<lambda>_. cleared g0 ({RK (nat r) True, RK (nat r) False} \<union> K) N (R(nat r := 0))) g"
  shows "wp (for_each body [0..MAX_REG_ID - 1] ()) (\<lambda>_. cleared g0 (reg_wipe (nat MAX_REG_ID) \<union> K) N
    (\<lambda>r. if r < nat MAX_REG_ID then 0 else R r)) g"
proof (rule wp_for_each [where I = "\<lambda>k _. cleared g0 (reg_wipe k \<union> K) N (\<lambda>r. if r < k then 0 else R r)"])
  fix k u g assume k: "k < length [0..MAX_REG_ID - 1]" and c: "cleared g0 (reg_wipe k \<union> K) N (\<lambda>r. if r < k then 0 else R r) g"
  have i: "[0..MAX_REG_ID - 1] ! k = int k" "GOOD_REG_ID (int k)" using k by (auto simp: GOOD_REG_ID_def nth_upto)
  have "(\<lambda>r. if r < k then 0 else R r)(k := 0) = (\<lambda>r. if r < Suc k then 0 else R r)"
    by (auto simp: fun_eq_iff less_Suc_eq)
  with body [OF c i(2)] show "wp (body ([0..MAX_REG_ID - 1] ! k) u) (\<lambda>_. cleared g0 (reg_wipe (Suc k) \<union> K) N
      (\<lambda>r. if r < Suc k then 0 else R r)) g"
    by (simp add: i(1) reg_wipe_Suc [symmetric])
qed (use assms(1) in \<open>simp_all add: reg_wipe_def\<close>)

definition good_keys :: "key set" where
  "good_keys = node_wipe (nat MAX_NODE_ID) \<union> reg_wipe (nat MAX_REG_ID)"

lemma reset_nodes_wp:
  assumes own: "owned g"
  shows "wp reset_nodes (\<lambda>_ g'. owned g' \<and> node_mem g' = node_mem g \<and> node_top g' = node_top g \<and> d_node_list g' = d_node_list g \<and>
    df_graph g' = df_graph g \<and> nodes_defined g' \<noteq> 0 \<and> handle g' = wipe good_keys (handle g) \<and>
    (\<forall>j<nat MAX_NODE_ID. nd_id (nodes g' j) = int j \<and> nd_defined (nodes g' j) = 0)) g"
    (is "wp _ (\<lambda>_. ?Q) g")
proof -
  let ?N = "\<lambda>g j. (nd_id (nodes g j), nd_defined (nodes g j))"
  let ?R = "\<lambda>g r. rg_defined (regs g r)"
  have start: "cleared g {} (?N g) (?R g) g" if "owned g" for g using that by (simp add: cleared_def)
  have finish: "?Q g'" if c: "cleared g1 (reg_wipe (nat MAX_REG_ID) \<union> (node_wipe (nat MAX_NODE_ID) \<union> {}))
      (\<lambda>j. if j < nat MAX_NODE_ID then (int j, 0) else N j) R g'" "handle g1 = handle g" "node_mem g1 = node_mem g" "node_top g1 = node_top g" "d_node_list g1 = d_node_list g"
      "df_graph g1 = df_graph g" "nodes_defined g1 \<noteq> 0" for g1 N R g'
  proof -
    have "reg_wipe (nat MAX_REG_ID) \<union> (node_wipe (nat MAX_NODE_ID) \<union> {}) = good_keys" by (auto simp: good_keys_def)
    moreover have "nd_id (nodes g' j) = int j \<and> nd_defined (nodes g' j) = 0" if "j < nat MAX_NODE_ID" for j
      using c(1) that by (auto simp: cleared_def fun_eq_iff dest: spec [of _ j])
    ultimately show ?thesis using that by (simp add: cleared_def gskel_def)
  qed
  show ?thesis
  proof (cases "nodes_defined g = 0")
    case False
    have "wp (bnd (for_each (\<lambda>i _. bnd (nd_put i (\<lambda>n. n\<lparr>nd_defined := 0, nd_id := i\<rparr>)) (\<lambda>_.
          for_each (\<lambda>f _. reset_field i f) reset_fields ())) [0..MAX_NODE_ID - 1] ())
        (\<lambda>_. for_each (\<lambda>i _. reset_reg i) [0..MAX_REG_ID - 1] ())) (\<lambda>_. ?Q) g"
      by (rule wp_seq, rule nodes_loop [OF start [OF own]], rule wp_seq [OF nd_flags_wp], assumption, assumption,
          rule reset_fields_wp, assumption, assumption,
          rule wp_mono, rule regs_loop, assumption, rule reset_reg_wp, assumption, assumption,
          rule finish, assumption) (use False in auto)
    with False show ?thesis by (simp add: reset_nodes_def)
  next
    case True
    let ?g1 = "g\<lparr>nodes_defined := 1\<rparr>"
    have h: "handle ?g1 = handle g" by (rule handle_cong) simp_all
    then have own1: "owned ?g1" using own live_cong [of ?g1 g] by (simp add: owned_def)
    have "wp (bnd (for_each (\<lambda>i _. nd_put i (\<lambda>n. fold (\<lambda>f n. fld_upd f None n) reset_fields (n\<lparr>nd_defined := 0, nd_id := i\<rparr>)))
          [0..MAX_NODE_ID - 1] ())
        (\<lambda>_. for_each (\<lambda>i _. rg_put i (\<lambda>r. r\<lparr>rg_defined := 0, e_def := None, e_use := None\<rparr>)) [0..MAX_REG_ID - 1] ())) (\<lambda>_. ?Q) ?g1"
      by (rule wp_seq, rule nodes_loop [OF start [OF own1]], rule clear_fields_wp, assumption, assumption,
          rule wp_mono, rule regs_loop, assumption, rule clear_reg_wp, assumption, assumption,
          rule finish, assumption) (use h in auto)
    with True show ?thesis by (simp add: reset_nodes_def)
  qed
qed

section \<open>A new graph\<close>

text \<open>
  The state between two graphs. When there is a graph, its nodes are in the store and the ones
  that can be reached from the first fit the buffer of the graph library.
\<close>

definition idle :: "df \<Rightarrow> bool" where
  "idle g = (owned g \<and> free_ok g \<and> within_top (node_mem g) (node_top g) \<and> (\<forall>x. \<not> is_marked (node_mem g x)) \<and>
     (\<forall>i\<ge>nat MAX_NODE_ID. table Src_reg g i = {} \<and> table Dest_reg g i = {}) \<and>
     (\<forall>r\<ge>nat MAX_REG_ID. \<forall>b. content g (RK r b) = {}) \<and>
     (\<forall>gr. df_graph g = Some gr \<longrightarrow> store_ok (gnodes gr) g \<and>
       (gnodes gr \<noteq> [] \<longrightarrow> card (reach (out (node_mem g)) (hd (gnodes gr))) < MAX_GRAPH_SIZE)))"

lemma reach_linked: "linked N m \<Longrightarrow> a \<in> N \<Longrightarrow> reach (out m) a \<subseteq> N"
  unfolding reach_def by (rule reach_in_sub) (auto dest: linked_out)

lemma idle_freeable:
  assumes "idle g" "df_graph g = Some gr"
  shows "freeable (gnodes gr) g"
proof -
  have so: "store_ok (gnodes gr) g" using assms by (simp add: idle_def)
  have "reach (out (node_mem g)) a \<subseteq> in_use g" if "a \<in> set (gnodes gr)" for a
    using reach_linked [of "set (gnodes gr)" "node_mem g" a] so that by (auto simp: store_ok_def)
  then show ?thesis using assms by (auto simp: freeable_def idle_def)
qed

theorem define_df_graph_wp:
  assumes "idle g"
  shows "wp define_df_graph (\<lambda>_. built spec_start) g"
proof -
  have own: "owned g" using assms by (simp add: idle_def)
  have rest: "wp (bnd reset_nodes (\<lambda>_. bnd (modify (\<lambda>g. g\<lparr>cur_node := None, entry := None\<rparr>)) (\<lambda>_.
      bnd NewGraph (\<lambda>gr. modify (\<lambda>g. g\<lparr>df_graph := Some gr\<rparr>))))) (\<lambda>_. built spec_start) g1"
    if g1: "node_mem g1 = node_mem g" "node_top g1 = node_top g" "nodes g1 = nodes g" "regs g1 = regs g" "SetId g1 = SetId g" "OUT g1 = OUT g"
      "distinct (d_node_list g1)" "set (d_node_list g1) \<subseteq> {..<node_top g}" for g1
  proof -
    have h1: "handle g1 = handle g" by (rule handle_cong) (use g1 in simp_all)
    have "owned g1" using own h1 live_cong [of g1 g] g1 by (simp add: owned_def)
    then show ?thesis
    proof (rule wp_seq [OF reset_nodes_wp], elim conjE)
      fix u g2
      assume g2: "owned g2" "node_mem g2 = node_mem g1" "node_top g2 = node_top g1" "d_node_list g2 = d_node_list g1"
        "nodes_defined g2 \<noteq> 0" "handle g2 = wipe good_keys (handle g1)"
        "\<forall>j<nat MAX_NODE_ID. nd_id (nodes g2 j) = int j \<and> nd_defined (nodes g2 j) = 0"
      let ?g = "g2\<lparr>cur_node := None, entry := None, df_graph := Some \<lparr>root = None, gnodes = []\<rparr>\<rparr>"
      have h: "handle ?g = handle g2" by (rule handle_cong) simp_all
      have "content g2 k = {}" if "k \<in> good_keys \<or> content g k = {}" for k
        using that g2(6) h1 by (auto simp: content_def wipe_def)
      moreover have "NK i f \<in> good_keys" if "i < nat MAX_NODE_ID" "f = Src_reg \<or> f = Dest_reg" for i f
        using that by (auto simp: good_keys_def node_wipe_def reset_fields_def)
      moreover have "RK r b \<in> good_keys" if "r < nat MAX_REG_ID" for r b
        using that by (simp add: good_keys_def reg_wipe_def)
      ultimately have c: "table Src_reg g2 i = {}" "table Dest_reg g2 i = {}" "content g2 (RK r b) = {}" for i r b
        using assms unfolding idle_def table_def by (metis linorder_not_less)+
      have "owned ?g" using g2(1) h live_cong [of ?g g2] by (simp add: owned_def)
      then have "tabs_ok spec_start ?g"
        using g2(5,7) c h by (simp add: tabs_ok_def spec_start_def table_def content_def)
      moreover have "graph_ok spec_start ?g"
        using assms g1 g2 by (simp add: graph_ok_def spec_start_def store_ok_def drawn_def free_ok_def idle_def linked_def)
      ultimately have "built spec_start ?g" by (simp add: built_def sane_def spec_start_def)
      then show "wp (bnd (modify (\<lambda>g. g\<lparr>cur_node := None, entry := None\<rparr>)) (\<lambda>_.
          bnd NewGraph (\<lambda>gr. modify (\<lambda>g. g\<lparr>df_graph := Some gr\<rparr>)))) (\<lambda>_. built spec_start) g2"
        by (simp add: NewGraph_def)
    qed
  qed
  show ?thesis
  proof (cases "df_graph g")
    case None
    then show ?thesis using rest [of g] assms by (simp add: define_df_graph_def idle_def free_ok_def)
  next
    case (Some gr)
    obtain buf free where run: "FreeGraph (Some gr) g = Inr (None, g\<lparr>nd_buf := buf, d_node_list := free\<rparr>)"
      and f: "distinct free" "set free \<subseteq> {..<node_top g}" by (rule FreeGraph_run [OF idle_freeable [OF assms Some]])
    have "wp (FreeGraph (Some gr)) (\<lambda>_ g1. g1 = g\<lparr>nd_buf := buf, d_node_list := free\<rparr>) g" by (simp add: wp_def run)
    then show ?thesis
      unfolding define_df_graph_def using rest [of "g\<lparr>nd_buf := buf, d_node_list := free, df_graph := None\<rparr>"] f
      by (auto simp: Some elim!: wp_mono)
  qed
qed

section \<open>Sequences of calls\<close>

fun spec_calls :: "flow_call list \<Rightarrow> flow_spec \<Rightarrow> flow_spec option" where
  "spec_calls [] st = Some st"
| "spec_calls (c # cs) st = (case spec_call c st of None \<Rightarrow> None | Some st' \<Rightarrow> spec_calls cs st')"

definition run_calls :: "flow_call list \<Rightarrow> unit df_prog" where
  "run_calls cs = for_each (\<lambda>c _. run_call c) cs ()"

lemma calls_simulated:
  assumes "built st g"
  shows "case spec_calls cs st of None \<Rightarrow> punts (run_calls cs) g | Some st' \<Rightarrow> wp (run_calls cs) (\<lambda>_. built st') g"
  using assms
proof (induction cs arbitrary: st g)
  case (Cons c cs)
  note one = call_simulated [OF Cons.prems, of c]
  show ?case
  proof (cases "spec_call c st")
    case None
    with one show ?thesis by (auto simp: run_calls_def punts_def bnd_def)
  next
    case (Some st')
    with one have w: "wp (run_call c) (\<lambda>_. built st') g" by simp
    have "run_calls (c # cs) = bnd (run_call c) (\<lambda>_. run_calls cs)" by (simp add: run_calls_def)
    moreover have "punts (run_calls (c # cs)) g" if "spec_calls cs st' = None"
      unfolding calculation by (rule punts_bnd, rule wp_mono [OF w]) (use Cons.IH [of st'] that in auto)
    moreover have "wp (run_calls (c # cs)) (\<lambda>_. built st'') g" if "spec_calls cs st' = Some st''" for st''
      unfolding calculation(1) by (rule wp_seq [OF w]) (use Cons.IH [of st'] that in auto)
    ultimately show ?thesis by (simp add: Some split: option.split)
  qed
qed (simp add: run_calls_def)

lemma end_df_graph_run:
  assumes "built st g"
  shows "end_df_graph g = (if spec_ready st then Inr ((), g)
    else Inl (Punt (if sp_entry st = None then ''end_of_graph: empty function'' else ''incomplete definition: missing some nodes'')))"
proof -
  from assms obtain gr where gr: "df_graph g = Some gr" "drawn st (node_mem g) (gnodes gr)"
    "map_option (idm (node_mem g)) (entry g) = sp_entry st" by (auto simp: built_def graph_ok_def)
  let ?body = "\<lambda>n (_ :: unit). bnd (node_get n) (\<lambda>nd. if nodeExt nd = None then df_punt ''incomplete definition: missing some nodes'' else ret ())"
  have "for_each ?body ns () g = (if \<forall>a\<in>set ns. nodeExt (node_mem g a) \<noteq> None then Inr ((), g) else Inl (Punt ''incomplete definition: missing some nodes''))" for ns
    by (induction ns) (auto simp: bnd_def node_get_def gets_def ret_def df_punt_def fail_def)
  moreover have "(\<forall>a\<in>set (gnodes gr). nodeExt (node_mem g a) \<noteq> None) \<longleftrightarrow> sp_ids st \<subseteq> sp_added st"
  proof -
    have ids: "sp_ids st = idm (node_mem g) ` set (gnodes gr)" using gr(2) by (simp add: drawn_def)
    show ?thesis using gr(2) unfolding drawn_def ids by (auto split: if_splits)
  qed
  moreover have "entry g = None \<longleftrightarrow> sp_entry st = None" unfolding gr(3) [symmetric] by simp
  ultimately show ?thesis
    by (simp add: end_df_graph_def bnd_gets gr(1) spec_ready_def df_punt_def fail_def)
qed

section \<open>What the analyses need\<close>

lemma built_ready:
  assumes "built st g" "spec_ready st"
  obtains gr where "df_graph g = Some gr" "flow_graph (node_mem g) (gnodes gr)" "owned g" "regs_in_range g"
    "drawn st (node_mem g) (gnodes gr)" "linked (set (gnodes gr)) (node_mem g)"
proof -
  from assms(1) obtain gr where gr: "df_graph g = Some gr" and dr: "drawn st (node_mem g) (gnodes gr)"
    and so: "store_ok (gnodes gr) g" and s: "sane st" and t: "tabs_ok st g" by (auto simp: built_def graph_ok_def)
  let ?m = "node_mem g" and ?ns = "gnodes gr"
  have good: "GOOD_ID (idm ?m a)" if "a \<in> set ?ns" for a
  proof -
    have "idm ?m a \<in> sp_ids st" using that dr by (auto simp: drawn_def)
    then show ?thesis using s assms(2) by (auto simp: spec_ready_def sane_def GOOD_ID_def)
  qed
  have "inj_on (idn ?m) (set ?ns)"
    using dr good unfolding drawn_def inj_on_def idn_def GOOD_ID_def by (metis nat_eq_iff2)
  then have "flow_graph ?m ?ns"
    using so good by (auto simp: flow_graph_def distinct_map store_ok_def linked_def)
  moreover have "regs_in_range g" using t s by (simp add: regs_in_range_def tabs_ok_def sane_def)
  ultimately show thesis using that gr dr so t by (simp add: tabs_ok_def store_ok_def)
qed

lemma drawn_arcs:
  assumes dr: "drawn st m ns" and lk: "linked (set ns) m" and a: "a \<in> set ns"
  shows "succs m a = {b \<in> set ns. (idm m a, idm m b) \<in> sp_arcs st}" "preds m a = {b \<in> set ns. (idm m b, idm m a) \<in> sp_arcs st}"
proof -
  have arc: "has_arc m a b 0 \<longleftrightarrow> (idm m a, idm m b) \<in> sp_arcs st" if "a \<in> set ns" "b \<in> set ns" for a b
    using dr that by (simp add: drawn_def)
  have ty: "e = the_arc a (destinationNode e) 0 \<and> destinationNode e \<in> set ns" if "a \<in> set ns" "e \<in> set (destinationArcs (m a))" for a e
    using dr lk that by (simp add: drawn_def linked_def)
  have two: "the_arc a b t \<in> set (sourceArcs (m b)) \<longleftrightarrow> has_arc m a b t" if "a \<in> set ns" "b \<in> set ns" for a b t
    by (rule linked_has(3) [OF lk that])
  show "succs m a = {b \<in> set ns. (idm m a, idm m b) \<in> sp_arcs st}"
  proof (rule set_eqI, rule iffI)
    fix b assume "b \<in> succs m a"
    then obtain e where e: "e \<in> set (destinationArcs (m a))" "b = destinationNode e" by (auto simp: succs_def)
    then have b: "b \<in> set ns" "the_arc a b 0 \<in> set (destinationArcs (m a))" using ty [OF a e(1)] by simp_all
    then show "b \<in> {b \<in> set ns. (idm m a, idm m b) \<in> sp_arcs st}" using arc [OF a b(1)] by (simp add: has_arc_def)
  next
    fix b assume "b \<in> {b \<in> set ns. (idm m a, idm m b) \<in> sp_arcs st}"
    then have "the_arc a b 0 \<in> set (destinationArcs (m a))" using arc [OF a, of b] by (simp add: has_arc_def)
    then show "b \<in> succs m a" unfolding succs_def by (rule rev_image_eqI) simp
  qed
  show "preds m a = {b \<in> set ns. (idm m b, idm m a) \<in> sp_arcs st}"
  proof (rule set_eqI, rule iffI)
    fix b assume "b \<in> preds m a"
    then obtain e where e: "e \<in> set (sourceArcs (m a))" "b = sourceNode e" by (auto simp: preds_def)
    then have b: "b \<in> set ns" "destinationNode e = a" "arcWeight e = 0" using lk a by (simp_all add: linked_def)
    have ea: "e = the_arc b a (arcType e)" using e(2) b(2,3) by simp
    with e(1) two [OF b(1) a, of "arcType e"] have "has_arc m b a (arcType e)" by simp
    then have "arcType e = 0" using ty [OF b(1), of "the_arc b a (arcType e)"] by (simp add: has_arc_def)
    with \<open>has_arc m b a (arcType e)\<close> b(1) arc [OF b(1) a] show "b \<in> {b \<in> set ns. (idm m b, idm m a) \<in> sp_arcs st}" by simp
  next
    fix b assume b: "b \<in> {b \<in> set ns. (idm m b, idm m a) \<in> sp_arcs st}"
    then have "the_arc b a 0 \<in> set (sourceArcs (m a))" using arc [of b a] two [of b a 0] a by simp
    then show "b \<in> preds m a" unfolding preds_def by (rule rev_image_eqI) simp
  qed
qed

definition spec_succs :: "flow_spec \<Rightarrow> nat \<Rightarrow> nat set" where
  "spec_succs st i = {j. (int i, int j) \<in> sp_arcs st}"

definition spec_preds :: "flow_spec \<Rightarrow> nat \<Rightarrow> nat set" where
  "spec_preds st i = {j. (int j, int i) \<in> sp_arcs st}"

definition spec_kill :: "flow_spec \<Rightarrow> nat \<Rightarrow> int set" where
  "spec_kill st i = {j. sp_dst st (int i) \<inter> sp_dst st j \<noteq> {}} - {int i}"

lemma drawn_spec:
  assumes dr: "drawn st m ns" and lk: "linked (set ns) m" and a: "a \<in> set ns" and s: "sane st"
    and good: "\<And>a. a \<in> set ns \<Longrightarrow> 0 \<le> idm m a"
  shows "idn m ` succs m a = spec_succs st (idn m a)" "idn m ` preds m a = spec_preds st (idn m a)"
proof -
  have ids: "sp_ids st = idm m ` set ns" using dr by (simp add: drawn_def)
  have n: "int (idn m b) = idm m b" if "b \<in> set ns" for b using good [OF that] by (simp add: idn_def)
  have at: "\<exists>b\<in>set ns. idm m b = int j" if "(int j, k) \<in> sp_arcs st \<or> (k, int j) \<in> sp_arcs st" for j k
  proof -
    have "int j \<in> sp_ids st" using that s by (auto simp: sane_def)
    then show ?thesis unfolding ids by (metis imageE)
  qed
  show "idn m ` succs m a = spec_succs st (idn m a)"
  proof
    show "idn m ` succs m a \<subseteq> spec_succs st (idn m a)"
      unfolding drawn_arcs(1) [OF dr lk a] using n a by (auto simp: spec_succs_def)
    show "spec_succs st (idn m a) \<subseteq> idn m ` succs m a"
    proof
      fix j assume "j \<in> spec_succs st (idn m a)"
      then have j: "(idm m a, int j) \<in> sp_arcs st" using n [OF a] by (simp add: spec_succs_def)
      with at obtain b where b: "b \<in> set ns" "idm m b = int j" by blast
      then show "j \<in> idn m ` succs m a" unfolding drawn_arcs(1) [OF dr lk a] using j by (intro image_eqI [of _ _ b]) (simp_all add: idn_def)
    qed
  qed
  show "idn m ` preds m a = spec_preds st (idn m a)"
  proof
    show "idn m ` preds m a \<subseteq> spec_preds st (idn m a)"
      unfolding drawn_arcs(2) [OF dr lk a] using n a by (auto simp: spec_preds_def)
    show "spec_preds st (idn m a) \<subseteq> idn m ` preds m a"
    proof
      fix j assume "j \<in> spec_preds st (idn m a)"
      then have j: "(int j, idm m a) \<in> sp_arcs st" using n [OF a] by (simp add: spec_preds_def)
      with at obtain b where b: "b \<in> set ns" "idm m b = int j" by blast
      then show "j \<in> idn m ` preds m a" unfolding drawn_arcs(2) [OF dr lk a] using j by (intro image_eqI [of _ _ b]) (simp_all add: idn_def)
    qed
  qed
qed

text \<open>The same flow seen through other names for the nodes.\<close>

lemma carried_rename:
  assumes "\<And>a. a \<in> A \<Longrightarrow> nb a \<subseteq> A" "\<And>a. a \<in> A \<Longrightarrow> f ` nb a = nb' (f a)"
    and "\<And>a. a \<in> A \<Longrightarrow> gn a = gn' (f a)" "\<And>a. a \<in> A \<Longrightarrow> kl a = kl' (f a)" and a: "a \<in> A"
  shows "carried nb gn kl d a \<longleftrightarrow> carried nb' gn' kl' d (f a)"
proof
  assume "carried nb gn kl d a"
  then show "carried nb' gn' kl' d (f a)" using a
  proof induction
    case (origin d a)
    then show ?case using assms(3) by (auto intro: carried.origin)
  next
    case (along d b a)
    then have "b \<in> A" "f b \<in> nb' (f a)" using assms(1,2) by blast+
    with along assms(4) show ?case by (metis carried.along)
  qed
next
  assume "carried nb' gn' kl' d (f a)"
  moreover have "carried nb' gn' kl' d x \<Longrightarrow> b \<in> A \<Longrightarrow> f b = x \<Longrightarrow> carried nb gn kl d b" for x b
  proof (induction arbitrary: b rule: carried.induct)
    case (origin d a)
    then show ?case using assms(3) by (auto intro: carried.origin)
  next
    case (along d y x)
    then have "y \<in> f ` nb b" using assms(2) [of b] by simp
    then obtain c where c: "c \<in> nb b" "f c = y" by blast
    with along assms(1,4) have "carried nb gn kl d c" "d \<notin> kl b" by blast+
    with c(1) show ?case by (auto intro: carried.along)
  qed
  ultimately show "carried nb gn kl d a" using a by blast
qed

section \<open>Analysing what was described\<close>

text \<open>The calls \<open>cs\<close> between \<open>define_df_graph\<close> and \<open>end_df_graph\<close>, then the analyses of \<open>mode\<close>.\<close>

definition analyze_calls :: "flow_call list \<Rightarrow> int \<Rightarrow> unit df_prog" where
  "analyze_calls cs mode =
     bnd define_df_graph (\<lambda>_. bnd (run_calls cs) (\<lambda>_. bnd end_df_graph (\<lambda>_. analyze_df_graph mode)))"

lemma sane_regs:
  assumes "sane st" "r \<in> sp_src st i \<union> sp_dst st i"
  shows "0 \<le> r" "r < MAX_REG_ID"
proof -
  have "sp_src st i \<union> sp_dst st i \<subseteq> {0..<MAX_REG_ID}" using assms(1) by (simp add: sane_def)
  with assms(2) have "r \<in> {0..<MAX_REG_ID}" by blast
  then show "0 \<le> r" "r < MAX_REG_ID" by simp_all
qed

lemma kill_of_spec:
  assumes t: "tabs_ok st g" and s: "sane st" and a: "0 \<le> idm (node_mem g) a"
  shows "kill_of g a = spec_kill st (idn (node_mem g) a)"
proof -
  let ?i = "idm (node_mem g) a"
  have i: "int (idn (node_mem g) a) = ?i" using a by (simp add: idn_def)
  have "{r \<in> {0..MAX_REG_ID - 1}. rg_defined (regs g (nat r)) \<noteq> 0 \<and> r \<in> table Dest_reg g (idn (node_mem g) a)} = sp_dst st ?i"
  proof (rule set_eqI)
    fix r
    have "r \<in> {0..MAX_REG_ID - 1} \<and> rg_defined (regs g (nat r)) \<noteq> 0" if r: "r \<in> sp_dst st ?i"
    proof -
      have "r \<in> {0..<MAX_REG_ID}" using sane_regs [OF s, of r ?i] r by simp
      moreover from this have "int (nat r) \<in> sp_src st ?i \<union> sp_dst st ?i" using r by simp
      then have "rg_defined (regs g (nat r)) \<noteq> 0" using t unfolding tabs_ok_def by blast
      ultimately show ?thesis by auto
    qed
    then show "r \<in> {r \<in> {0..MAX_REG_ID - 1}. rg_defined (regs g (nat r)) \<noteq> 0 \<and> r \<in> table Dest_reg g (idn (node_mem g) a)} \<longleftrightarrow>
        r \<in> sp_dst st ?i" using t i by (auto simp: tabs_ok_def)
  qed
  moreover have "content g (RK (nat r) False) = {j. r \<in> sp_dst st j}" if "r \<in> sp_dst st ?i" for r
  proof -
    have "0 \<le> r" using sane_regs [OF s, of r ?i] that by simp
    then show ?thesis using t by (simp add: tabs_ok_def)
  qed
  ultimately show ?thesis unfolding kill_of_def spec_kill_def i by auto
qed

lemma built_idle:
  assumes b: "built st g" and c: "card (sp_ids st) < MAX_GRAPH_SIZE" and own: "owned g'" and sk: "skel g' = skel g"
    and keep: "\<And>i. table Src_reg g' i = table Src_reg g i \<and> table Dest_reg g' i = table Dest_reg g i" "\<And>r b. content g' (RK r b) = content g (RK r b)"
  shows "idle g'"
proof -
  from b obtain gr where gr: "df_graph g = Some gr" and dr: "drawn st (node_mem g) (gnodes gr)"
    and so: "store_ok (gnodes gr) g" and s: "sane st" and t: "tabs_ok st g" by (auto simp: built_def graph_ok_def)
  have same: "node_mem g' = node_mem g" "node_top g' = node_top g" "d_node_list g' = d_node_list g" "df_graph g' = df_graph g"
    using sk by (simp_all add: skel_def)
  have so': "store_ok (gnodes gr) g'" using so same by (simp add: store_ok_def free_ok_def in_use_def)
  have "card (reach (out (node_mem g)) (hd (gnodes gr))) < MAX_GRAPH_SIZE" if "gnodes gr \<noteq> []"
  proof -
    have "reach (out (node_mem g)) (hd (gnodes gr)) \<subseteq> set (gnodes gr)"
      by (rule reach_linked) (use so that in \<open>auto simp: store_ok_def\<close>)
    then have "card (reach (out (node_mem g)) (hd (gnodes gr))) \<le> card (set (gnodes gr))" by (intro card_mono) auto
    also have "\<dots> = card (sp_ids st)" using dr card_image [of "idm (node_mem g)" "set (gnodes gr)"] by (simp add: drawn_def)
    finally show ?thesis using c by simp
  qed
  moreover have "table Src_reg g i = {} \<and> table Dest_reg g i = {}" if "nat MAX_NODE_ID \<le> i" for i
  proof -
    have "int i \<notin> sp_added st" using s that by (auto simp: sane_def)
    then show ?thesis using s t by (simp add: sane_def tabs_ok_def)
  qed
  moreover have "content g (RK r b) = {}" if "nat MAX_REG_ID \<le> r" for r b
  proof -
    have "int r \<notin> sp_src st i \<union> sp_dst st i" for i using sane_regs(2) [OF s, of "int r" i] that by auto
    then show ?thesis using t by (cases b) (simp_all add: tabs_ok_def)
  qed
  ultimately show ?thesis using so' own gr same keep by (auto simp: idle_def store_ok_def)
qed

end
