(* ===== verification/Dataflow_Construction.thy ===== *)
theory Dataflow_Construction
  imports Dataflow_Reset
begin

text \<open>
  Properties of building a flow graph and of analysing it, stated over what the client described and
  not over the state of the library.
\<close>

section \<open>The start of the program\<close>

text \<open>All static variables are zero and nothing was allocated.\<close>

definition program_start :: df where
  "program_start = \<lparr>SetId = 0, OUT = None, mallocated = 0, maxmallocated = 0,
     node_mem = (\<lambda>_. blank_node), node_top = 0, d_node_list = [], node_count = 0, nd_buf = [], nodes_defined = 0,
     nodes = (\<lambda>_. \<lparr>nd_id = 0, dest_reg = None, src_reg = None, gen = None, kill = None, use = None, def = None,
       e_in = None, e_out = None, a_in = None, a_out = None, v_in = None, v_out = None, nd_dom = None,
       post_dom = None, nd_defined = 0\<rparr>),
     regs = (\<lambda>_. \<lparr>e_def = None, e_use = None, rg_defined = 0\<rparr>), df_graph = None, cur_node = None, entry = None\<rparr>"

lemma handle_start: "handle program_start k = None"
proof (cases k)
  case (NK i f)
  then show ?thesis by (cases f) (simp_all add: handle.simps program_start_def)
qed (simp add: handle.simps program_start_def)

lemma idle_start: "idle program_start"
  by (auto simp: idle_def owned_def handle_start table_def content_def live_def wf_lib_def apart_def free_ok_def within_top_def
      is_marked_def blank_node_def) (simp_all add: program_start_def blank_node_def)

section \<open>Construction\<close>

text \<open>
  C19. Building a flow graph implements its description: after \<open>define_df_graph\<close>, every sequence of calls is accepted or
  refused with an error message exactly as the specification says, and \<open>end_df_graph\<close> accepts exactly the
  descriptions with an entry in which every node that an arc names was defined. The tables and the graph then agree with
  the description.
\<close>
theorem construction_refines:
  assumes "idle g"
  shows "\<exists>g0. define_df_graph g = Inr ((), g0) \<and>
    (case spec_calls cs spec_start of
       None \<Rightarrow> \<exists>mesg. run_calls cs g0 = Inl (Punt mesg)
     | Some st \<Rightarrow> \<exists>g1. run_calls cs g0 = Inr ((), g1) \<and> built st g1 \<and>
         end_df_graph g1 = (if spec_ready st then Inr ((), g1)
           else Inl (Punt (if sp_entry st = None then ''end_of_graph: empty function'' else ''incomplete definition: missing some nodes''))))"
proof -
  obtain g0 where g0: "define_df_graph g = Inr ((), g0)" "built spec_start g0"
    using define_df_graph_wp [OF assms] by (auto simp: wp_run)
  show ?thesis
    using g0(1) calls_simulated [OF g0(2), of cs] end_df_graph_run by (auto simp: punts_def wp_run split: option.splits)
qed

definition sample_calls :: "flow_call list" where
  "sample_calls = [Add_Node 1, Dest_Reg 7, Connect 1 2, Add_Node 2, Src_Reg 7, Connect 2 1]"

definition sample_spec :: flow_spec where
  "sample_spec = \<lparr>sp_ids = {1, 2}, sp_added = {1, 2}, sp_cur = Some 2, sp_entry = Some 1, sp_arcs = {(1, 2), (2, 1)},
     sp_src = (\<lambda>i. if i = 2 then {7} else {}), sp_dst = (\<lambda>i. if i = 1 then {7} else {})\<rparr>"

lemma sample_accepted: "spec_calls sample_calls spec_start = Some sample_spec" "spec_ready sample_spec"
  by (auto simp: sample_calls_def spec_start_def sample_spec_def GOOD_ID_def GOOD_REG_ID_def MAX_NODE_ID_def MAX_REG_ID_def
      or_else_def spec_ready_def fun_eq_iff)

theorem construction_refines_witness:
  "\<exists>g0 g1. define_df_graph program_start = Inr ((), g0) \<and> run_calls sample_calls g0 = Inr ((), g1) \<and> end_df_graph g1 = Inr ((), g1)"
  using construction_refines [OF idle_start, of sample_calls] by (auto simp: sample_accepted)

section \<open>Analysis\<close>

lemma analyze_built:
  assumes "built st g1" "spec_ready st"
  shows "\<exists>g3. analyze_df_graph 5 g1 = Inr ((), g3) \<and> (\<forall>i. int i \<in> sp_ids st \<longrightarrow>
      table V_in g3 i = {r. carried (spec_succs st) (\<lambda>i. sp_src st (int i)) (\<lambda>i. sp_dst st (int i)) r i} \<and>
      table E_out g3 i = {d. carried (spec_preds st) (\<lambda>i. {int i}) (spec_kill st) d i}) \<and>
    (card (sp_ids st) < MAX_GRAPH_SIZE \<longrightarrow> idle g3)"
proof -
  obtain gr where gr: "df_graph g1 = Some gr" "flow_graph (node_mem g1) (gnodes gr)" "owned g1" "regs_in_range g1"
    "drawn st (node_mem g1) (gnodes gr)" "linked (set (gnodes gr)) (node_mem g1)" using assms by (rule built_ready)
  have st: "sane st" "tabs_ok st g1" using assms(1) by (simp_all add: built_def)
  let ?m = "node_mem g1" and ?ns = "gnodes gr"
  obtain g2 where g2: "reaching_definition gr g1 = Inr ((), g2)" "steady (node_keys (idn ?m) (set ?ns) {Gen, Kill, E_in, E_out}) g1 g2"
    "\<forall>a\<in>set ?ns. table E_out g2 (idn ?m a) = {d. carried (preds ?m) (\<lambda>a. {nodeId (?m a)}) (kill_of g1) d a}"
    using reaching_definition_wp [OF gr(3,2)] by (auto simp: wp_run)
  note s2 = steadyD [OF g2(2)]
  have fg2: "flow_graph (node_mem g2) ?ns" and r2: "regs_in_range g2"
    using gr(2,4) s2(3,5) by (simp_all add: regs_in_range_def)
  obtain g3 where g3: "live_variable gr g2 = Inr ((), g3)" "steady (node_keys (idn ?m) (set ?ns) {Use, Def, V_in, V_out}) g2 g3"
    "\<forall>a\<in>set ?ns. table V_in g3 (idn ?m a) = {r. carried (succs ?m) (\<lambda>a. table Src_reg g2 (idn ?m a)) (\<lambda>a. table Dest_reg g2 (idn ?m a)) r a}"
    using live_variable_wp [OF s2(1) fg2 r2] s2(3) by (auto simp: wp_run)
  note s3 = steadyD [OF g3(2)]
  have run: "analyze_df_graph 5 g1 = Inr ((), g3)"
    using g2(1) g3(1) gr(1) by (simp add: bnd_def analyze_df_graph_def gets_def ret_def)
  have good: "0 \<le> idm ?m a" if "a \<in> set ?ns" for a using flow_graphD(1) [OF gr(2) that] by (simp add: GOOD_ID_def)
  note spec = drawn_spec [OF gr(5,6) _ st(1) good]
  have live: "table V_in g3 (idn ?m a) = {r. carried (spec_succs st) (\<lambda>i. sp_src st (int i)) (\<lambda>i. sp_dst st (int i)) r (idn ?m a)}" if "a \<in> set ?ns" for a
  proof -
    have "carried (succs ?m) (\<lambda>a. table Src_reg g2 (idn ?m a)) (\<lambda>a. table Dest_reg g2 (idn ?m a)) r a \<longleftrightarrow>
        carried (spec_succs st) (\<lambda>i. sp_src st (int i)) (\<lambda>i. sp_dst st (int i)) r (idn ?m a)" for r
      by (rule carried_rename [where A = "set ?ns"]) (use that spec flow_graphD(3) [OF gr(2)] s2(5) st(2) in \<open>simp_all add: tabs_ok_def\<close>)
    then show ?thesis using g3(3) that by simp
  qed
  have reach: "table E_out g3 (idn ?m a) = {d. carried (spec_preds st) (\<lambda>i. {int i}) (spec_kill st) d (idn ?m a)}" if "a \<in> set ?ns" for a
  proof -
    have "carried (preds ?m) (\<lambda>a. {idm ?m a}) (kill_of g1) d a \<longleftrightarrow> carried (spec_preds st) (\<lambda>i. {int i}) (spec_kill st) d (idn ?m a)" for d
      by (rule carried_rename [where A = "set ?ns"])
        (use that spec flow_graphD(2) [OF gr(2)] kill_of_spec [OF st(2,1)] good in \<open>simp_all add: idn_def\<close>)
    then show ?thesis using g2(3) that s3(5) by simp
  qed
  have "\<exists>a\<in>set ?ns. idn ?m a = i" if "int i \<in> sp_ids st" for i
  proof -
    have "sp_ids st = idm ?m ` set ?ns" using gr(5) by (simp add: drawn_def)
    with that obtain a where "a \<in> set ?ns" "int i = idm ?m a" by blast
    then show ?thesis by (intro bexI [of _ a]) (auto simp: idn_def)
  qed
  then have "table V_in g3 i = {r. carried (spec_succs st) (\<lambda>i. sp_src st (int i)) (\<lambda>i. sp_dst st (int i)) r i} \<and>
      table E_out g3 i = {d. carried (spec_preds st) (\<lambda>i. {int i}) (spec_kill st) d i}" if "int i \<in> sp_ids st" for i
    using that live reach by blast
  moreover have "idle g3" if "card (sp_ids st) < MAX_GRAPH_SIZE"
    by (rule built_idle [OF assms(1) that s3(1)]) (use s2 s3 in simp_all)
  ultimately show ?thesis using run by blast
qed

text \<open>
  C20. From an accepted description to the results: reaching definitions and live variables are those of the flow graph
  that was described, over all its paths, and unless the graph has 8192 nodes or more, another graph can be built afterwards.
\<close>
theorem analysis_of_description:
  assumes "idle g" and "spec_calls cs spec_start = Some st" and "spec_ready st"
  shows "\<exists>g'. analyze_calls cs 5 g = Inr ((), g') \<and>
    (\<forall>i. int i \<in> sp_ids st \<longrightarrow>
      table V_in g' i = {r. \<exists>p. is_path (spec_succs st) (i # p) \<and> r \<in> sp_src st (int (last (i # p))) \<and>
        (\<forall>x\<in>set (butlast (i # p)). r \<notin> sp_dst st (int x))} \<and>
      table E_out g' i = {d. \<exists>p. is_path (spec_preds st) (i # p) \<and> d = int (last (i # p)) \<and>
        (\<forall>x\<in>set (butlast (i # p)). d \<notin> spec_kill st x)}) \<and>
    (card (sp_ids st) < MAX_GRAPH_SIZE \<longrightarrow> idle g')"
proof -
  obtain g0 where g0: "define_df_graph g = Inr ((), g0)" "built spec_start g0"
    using define_df_graph_wp [OF assms(1)] by (auto simp: wp_run)
  obtain g1 where g1: "run_calls cs g0 = Inr ((), g1)" "built st g1"
    using calls_simulated [OF g0(2), of cs] assms(2) by (auto simp: wp_run)
  have "analyze_calls cs 5 g = analyze_df_graph 5 g1"
    using g0(1) g1(1) end_df_graph_run [OF g1(2)] assms(3) by (simp add: analyze_calls_def bnd_def)
  with analyze_built [OF g1(2) assms(3)] show ?thesis by (auto simp: carried_path)
qed

theorem analysis_of_description_witness:
  "\<exists>g'. analyze_calls sample_calls 5 program_start = Inr ((), g') \<and> 7 \<in> table V_in g' 2 \<and> 1 \<in> table E_out g' 2 \<and> idle g'"
proof -
  from analysis_of_description [OF idle_start sample_accepted] obtain g' where run: "analyze_calls sample_calls 5 program_start = Inr ((), g')"
    and R: "table V_in g' 2 = {r. \<exists>p. is_path (spec_succs sample_spec) (2 # p) \<and> r \<in> sp_src sample_spec (int (last (2 # p))) \<and>
        (\<forall>x\<in>set (butlast (2 # p)). r \<notin> sp_dst sample_spec (int x))}"
      "table E_out g' 2 = {d. \<exists>p. is_path (spec_preds sample_spec) (2 # p) \<and> d = int (last (2 # p)) \<and>
        (\<forall>x\<in>set (butlast (2 # p)). d \<notin> spec_kill sample_spec x)}"
    and "card (sp_ids sample_spec) < MAX_GRAPH_SIZE \<longrightarrow> idle g'"
    by (auto simp: sample_spec_def)
  moreover have "7 \<in> table V_in g' 2"
    unfolding R(1) by (rule CollectI, rule exI [of _ "[]"]) (simp add: sample_spec_def)
  moreover have "1 \<in> table E_out g' 2"
    unfolding R(2) by (rule CollectI, rule exI [of _ "[1]"]) (simp add: sample_spec_def spec_preds_def spec_kill_def)
  moreover have "card (sp_ids sample_spec) < MAX_GRAPH_SIZE" by (simp add: sample_spec_def MAX_GRAPH_SIZE_def)
  ultimately show ?thesis by blast
qed

end
