(* ===== verification/Linked_List.thy ===== *)
theory Linked_List
  imports Impact_Prelude
begin

text \<open>
  Doubly linked lists as the containers of the repository build them: every element has a \<open>next\<close> and a \<open>prev\<close>
  pointer, NULL at the ends. The memory has one map per field of a struct, from addresses to the contents of
  the field. \<open>dll nx pv b xs e\<close> says that the elements \<open>xs\<close> are linked in this order, that the first one points
  back to \<open>b\<close> and the last one forward to \<open>e\<close>. \<open>link f p v\<close> is the assignment \<open>p->f = v\<close> that the code guards by
  \<open>if (p)\<close>.
\<close>

definition fst_of :: "nat list \<Rightarrow> nat option \<Rightarrow> nat option" where
  "fst_of xs e = (case xs of [] \<Rightarrow> e | x # _ \<Rightarrow> Some x)"

definition lst_of :: "nat list \<Rightarrow> nat option \<Rightarrow> nat option" where
  "lst_of xs b = (if xs = [] then b else Some (last xs))"

definition link :: "(nat \<Rightarrow> 'a) \<Rightarrow> nat option \<Rightarrow> 'a \<Rightarrow> nat \<Rightarrow> 'a" where
  "link f p v = (case p of None \<Rightarrow> f | Some q \<Rightarrow> f(q := v))"

fun dll :: "(nat \<Rightarrow> nat option) \<Rightarrow> (nat \<Rightarrow> nat option) \<Rightarrow> nat option \<Rightarrow> nat list \<Rightarrow> nat option \<Rightarrow> bool" where
  "dll nx pv b [] e = True"
| "dll nx pv b (x # xs) e = (pv x = b \<and> nx x = fst_of xs e \<and> dll nx pv (Some x) xs e)"

lemma fst_of_simps [simp]: "fst_of [] e = e" "fst_of (x # xs) e = Some x"
  "fst_of (xs @ ys) e = fst_of xs (fst_of ys e)"
  by (simp_all add: fst_of_def split: list.split)

lemma lst_of_simps [simp]: "lst_of [] b = b" "lst_of (xs @ [x]) b = Some x" "lst_of (x # xs) b = lst_of xs (Some x)"
  "lst_of (xs @ ys) b = lst_of ys (lst_of xs b)"
  by (simp_all add: lst_of_def)

lemma fst_of_None [simp]: "fst_of xs None = None \<longleftrightarrow> xs = []" "None = fst_of xs None \<longleftrightarrow> xs = []"
  by (simp_all add: fst_of_def split: list.split)

lemma fst_lst_neq [simp]: "fst_of xs (Some y) \<noteq> None" "lst_of xs (Some y) \<noteq> None"
  by (simp_all add: fst_of_def lst_of_def split: list.split)

lemma fst_of_Some: "fst_of xs None = Some x \<longleftrightarrow> (\<exists>ys. xs = x # ys)"
  by (cases xs) auto

lemma lst_of_None [simp]: "lst_of xs None = None \<longleftrightarrow> xs = []" "None = lst_of xs None \<longleftrightarrow> xs = []"
  by (auto simp: lst_of_def)

lemma lst_of_Some: "lst_of xs None = Some x \<longleftrightarrow> (\<exists>ys. xs = ys @ [x])"
  by (cases xs rule: rev_cases) auto

lemma fst_lst_mem: "fst_of xs None = Some x \<Longrightarrow> x \<in> set xs" "lst_of xs None = Some x \<Longrightarrow> x \<in> set xs"
  by (auto simp: fst_of_Some lst_of_Some)

lemma link_simps [simp]: "link f None v = f" "link f (Some q) v = f(q := v)"
  by (simp_all add: link_def)

lemma link_other: "p \<noteq> Some a \<Longrightarrow> link f p v a = f a"
  by (cases p) auto

lemma link_end [simp]:
  "x \<notin> set xs \<Longrightarrow> link f (fst_of xs None) v x = f x" "x \<notin> set xs \<Longrightarrow> link f (lst_of xs None) v x = f x"
  by (auto intro!: link_other dest: fst_lst_mem)

lemma dll_append [simp]:
  "dll nx pv b (xs @ ys) e \<longleftrightarrow> dll nx pv b xs (fst_of ys e) \<and> dll nx pv (lst_of xs b) ys e"
  by (induction xs arbitrary: b) auto

lemma dll_cong:
  "(\<And>x. x \<in> set xs \<Longrightarrow> nx' x = nx x) \<Longrightarrow> (\<And>x. x \<in> set xs \<Longrightarrow> pv' x = pv x) \<Longrightarrow> dll nx' pv' b xs e = dll nx pv b xs e"
  by (induction xs arbitrary: b) auto

lemma dll_link_other:
  "(\<And>a. p = Some a \<Longrightarrow> a \<notin> set xs) \<Longrightarrow> dll (link nx p v) pv b xs e = dll nx pv b xs e"
  "(\<And>a. p = Some a \<Longrightarrow> a \<notin> set xs) \<Longrightarrow> dll nx (link pv p v) b xs e = dll nx pv b xs e"
  by (cases p; auto intro!: dll_cong)+

lemma dll_upd_other [simp]:
  "a \<notin> set xs \<Longrightarrow> dll (nx(a := v)) pv b xs e = dll nx pv b xs e"
  "a \<notin> set xs \<Longrightarrow> dll nx (pv(a := v)) b xs e = dll nx pv b xs e"
  by (auto intro!: dll_cong)

lemma dll_link_last:
  assumes "distinct xs" "dll nx pv b xs e"
  shows "dll (link nx (lst_of xs None) e') pv b xs e'"
proof (cases xs rule: rev_cases)
  case (snoc ys y)
  with assms have "y \<notin> set ys" "dll nx pv b ys (Some y)" "pv y = lst_of ys b" by auto
  with snoc show ?thesis by (simp del: lst_of_simps(4))
qed simp

lemma dll_link_first:
  assumes "distinct xs" "dll nx pv b xs e"
  shows "dll nx (link pv (fst_of xs None) b') b' xs e"
  using assms by (cases xs) auto

lemma dll_push_front:
  assumes "distinct xs" "dll nx pv None xs None" "x \<notin> set xs"
  shows "dll (nx(x := fst_of xs None)) ((link pv (fst_of xs None) (Some x))(x := None)) None (x # xs) None"
  using dll_link_first [OF assms(1,2), of "Some x"] assms(3) by simp

lemma dll_push_back:
  assumes "distinct xs" "dll nx pv None xs None" "x \<notin> set xs"
  shows "dll ((link nx (lst_of xs None) (Some x))(x := None)) (pv(x := lst_of xs None)) None (xs @ [x]) None"
  using dll_link_last [OF assms(1,2), of "Some x"] assms(3) by simp

lemma dll_neighbours:
  assumes "dll nx pv b (xs @ x # ys) e"
  shows "pv x = lst_of xs b" "nx x = fst_of ys e"
  using assms by auto

lemma dll_remove:
  assumes "distinct (xs @ x # ys)" "dll nx pv None (xs @ x # ys) None"
  shows "dll (link nx (pv x) (nx x)) (link pv (nx x) (pv x)) None (xs @ ys) None"
proof -
  let ?nx = "link nx (pv x) (nx x)" and ?pv = "link pv (nx x) (pv x)"
  have p: "pv x = lst_of xs None" and n: "nx x = fst_of ys None" using assms(2) by auto
  have "dll ?nx pv None xs (nx x)" unfolding p using assms by (intro dll_link_last [where e = "Some x"]) auto
  then have "dll ?nx ?pv None xs (nx x)"
    using assms(1) by (subst dll_link_other(2)) (auto simp: n dest: fst_lst_mem)
  moreover have "dll nx ?pv (pv x) ys None" unfolding n using assms by (intro dll_link_first [where b = "Some x"]) auto
  then have "dll ?nx ?pv (pv x) ys None"
    using assms(1) by (subst dll_link_other(1)) (auto simp: p dest: fst_lst_mem)
  ultimately show ?thesis by (simp add: p n)
qed

lemma dll_tail:
  assumes "distinct (x # xs)" "dll nx pv None (x # xs) None"
  shows "dll nx (link pv (nx x) None) None xs None"
  using dll_remove [of "[]" x xs nx pv] assms by simp

lemma fst_of_remove:
  "fst_of (xs @ ys) None = (if xs = [] then fst_of ys None else fst_of (xs @ x # ys) None)"
  by (cases xs) auto

lemma lst_of_remove:
  "lst_of (xs @ ys) None = (if ys = [] then lst_of xs None else lst_of (xs @ x # ys) None)"
  by (cases ys rule: rev_cases) auto

section \<open>Walking along a list\<close>

text \<open>A call whose result is known.\<close>

lemma wp_exec: "m s = Inr (x, s') \<Longrightarrow> wp m Q s = Q x s'"
  by (simp add: wp_def)


text \<open>
  A loop that goes from an element to the next one. \<open>I xs r s\<close> holds when the elements \<open>xs\<close> are still to be visited;
  the loop variable is the pointer \<open>fst r\<close> and what the loop carries besides.
\<close>

lemma while_prog_unfold: "while_prog b c a = (if b a then bnd (c a) (while_prog b c) else ret a)"
proof (rule ext)
  fix s
  let ?b = "\<lambda>r. case r of Inl e \<Rightarrow> False | Inr p \<Rightarrow> b (fst p)"
  let ?c = "\<lambda>r. case r of Inl e \<Rightarrow> Inl e | Inr p \<Rightarrow> c (fst p) (snd p)"
  show "while_prog b c a s = (if b a then bnd (c a) (while_prog b c) else ret a) s"
  proof (cases "b a")
    case True
    then have "while_option ?b ?c (Inr (a, s)) = while_option ?b ?c (c a s)" by (subst while_option_unfold) simp
    moreover have "while_option ?b ?c (Inl e) = Some (Inl e)" for e by (subst while_option_unfold) simp
    ultimately show ?thesis using True by (simp add: while_prog_def bnd_def split: sum.split)
  next
    case False
    then have "while_option ?b ?c (Inr (a, s)) = Some (Inr (a, s))" by (subst while_option_unfold) simp
    with False show ?thesis by (simp add: while_prog_def ret_def)
  qed
qed

lemma while_stop: "\<not> b r \<Longrightarrow> Q r t \<Longrightarrow> wp (while_prog b c r) Q t"
  by (simp add: while_prog_unfold)

lemma wp_walk:
  assumes "I xs a s"
    and step: "\<And>x xs a s. I (x # xs) a s \<Longrightarrow> b (Some x, a) \<Longrightarrow>
      wp (c (Some x, a)) (\<lambda>r s'. (\<exists>a'. r = (fst_of xs None, a') \<and> I xs a' s') \<or> \<not> b r \<and> Q r s') s"
    and null: "\<And>a. \<not> b (None, a)"
    and exit: "\<And>xs a s. I xs a s \<Longrightarrow> \<not> b (fst_of xs None, a) \<Longrightarrow> Q (fst_of xs None, a) s"
  shows "wp (while_prog b c (fst_of xs None, a)) Q s"
  using assms(1)
proof (induction xs arbitrary: a s)
  case Nil
  then show ?case using null [of a] exit [of "[]" a s] by (simp add: while_prog_unfold)
next
  case (Cons x xs)
  show ?case
  proof (cases "b (Some x, a)")
    case False
    then show ?thesis using exit [OF Cons.prems] by (simp add: while_prog_unfold)
  next
    case True
    have "wp (bnd (c (Some x, a)) (while_prog b c)) Q s"
      by (rule wp_seq [OF step [OF Cons.prems True]]) (use Cons.IH in \<open>auto intro: while_stop\<close>)
    then show ?thesis using True by (simp add: while_prog_unfold [of b c "(Some x, a)"])
  qed
qed

end
