(* ===== verification/Merge_Sort.thy ===== *)
theory Merge_Sort
  imports Linked_List "HOL-Library.Multiset"
begin

text \<open>
  Merge sort, \<open>src/src/library/sort/merge_sort.c\<close> and \<open>merge_sort.h\<close>. The state is the array \<open>output\<close>; the array
  \<open>list\<close> is only read. A pointer into an array is the position it points to. \<open>double\<close> weights are the elements of a
  linear order. The buffer \<open>temp\<close> of \<open>merge\<close> is filled from its start: the list of what it holds, of length \<open>k\<close>.
\<close>

record 'w Element =
  weight_of :: 'w
  index_of :: int
  ptr_of :: int

definition RECORD_SIZE :: nat where
  "RECORD_SIZE = 4096 * 2"

definition cell :: "nat \<Rightarrow> ('e list, 'e) prog" where
  "cell k = bnd (gets (\<lambda>a. a)) (\<lambda>a. array_get (Some a) k)"

definition set_cell :: "nat \<Rightarrow> 'e \<Rightarrow> ('e list, unit) prog" where
  "set_cell k e = bnd (gets (\<lambda>a. a)) (\<lambda>a. if k < length a then modify (\<lambda>_. a[k := e]) else fail Out_Of_Bounds)"

definition put_temp :: "'e list \<Rightarrow> 'e \<Rightarrow> ('s, 'e list) prog" where
  "put_temp temp e = (if length temp < RECORD_SIZE then ret (temp @ [e]) else fail Out_Of_Bounds)"

definition copy_rest :: "nat \<Rightarrow> nat \<Rightarrow> nat \<times> 'e list \<Rightarrow> ('e list, nat \<times> 'e list) prog" where
  "copy_rest arr len = while_prog (\<lambda>r. fst r < len) (\<lambda>r.
     bnd (cell (arr + fst r)) (\<lambda>e.
     bnd (put_temp (snd r) e) (\<lambda>temp. ret (fst r + 1, temp))))"

definition merge :: "nat \<Rightarrow> nat \<Rightarrow> nat \<Rightarrow> nat \<Rightarrow> (('w :: linorder) Element list, unit) prog" where
  "merge left size_left right size_right =
     bnd (while_prog (\<lambda>(i, j, temp). i < size_left \<and> j < size_right) (\<lambda>(i, j, temp).
            bnd (cell (left + i)) (\<lambda>a.
            bnd (cell (right + j)) (\<lambda>b.
            if weight_of a \<ge> weight_of b then bnd (put_temp temp a) (\<lambda>temp. ret (i + 1, j, temp))
            else bnd (put_temp temp b) (\<lambda>temp. ret (i, j + 1, temp))))) (0, 0, [])) (\<lambda>(i, j, temp).
     bnd (copy_rest left size_left (i, temp)) (\<lambda>(i, temp).
     bnd (copy_rest right size_right (j, temp)) (\<lambda>(j, temp).
     for_each (\<lambda>i _. bnd (array_get (Some temp) i) (\<lambda>e. set_cell (left + i) e)) [0..<size_left + size_right] ())))"

function merge_sort :: "('w :: linorder) Element list \<Rightarrow> nat \<Rightarrow> nat \<Rightarrow> int \<Rightarrow> ('w Element list, unit) prog" where
  "merge_sort lst list output len =
     (if len \<le> 1 then bnd (array_get (Some lst) list) (\<lambda>e. set_cell output e)
      else
        let middle = (len + 1) div 2 in
        bnd (merge_sort lst list output middle) (\<lambda>_.
        bnd (merge_sort lst (list + nat middle) (output + nat middle) (len - middle)) (\<lambda>_.
        merge output (nat middle) (output + nat middle) (nat (len - middle)))))"
  by pat_completeness auto

termination merge_sort
  by (relation "measure (\<lambda>(_, _, _, len). nat len)") auto

declare merge_sort.simps [simp del]

section \<open>Faults and results together\<close>

text \<open>
  \<open>yields m E Q s\<close>: the run ends in a state with \<open>Q\<close>, or with an access out of bounds, and then \<open>E\<close> holds.
\<close>

definition yields :: "('s, 'a) prog \<Rightarrow> bool \<Rightarrow> ('a \<Rightarrow> 's \<Rightarrow> bool) \<Rightarrow> 's \<Rightarrow> bool" where
  "yields m E Q s = (case m s of Inl e \<Rightarrow> e = Out_Of_Bounds \<and> E | Inr p \<Rightarrow> Q (fst p) (snd p))"

lemma yields_ret [simp]: "yields (ret x) E Q s = Q x s"
  by (simp add: yields_def ret_def)

lemma yields_fail [simp]: "yields (fail e) E Q s = (e = Out_Of_Bounds \<and> E)"
  by (simp add: yields_def fail_def)

lemma yields_gets [simp]: "yields (gets f) E Q s = Q (f s) s"
  by (simp add: yields_def gets_def)

lemma yields_modify [simp]: "yields (modify h) E Q s = Q () (h s)"
  by (simp add: yields_def modify_def)

lemma yields_bnd [simp]: "yields (bnd m k) E Q s = yields m E (\<lambda>x. yields (k x) E Q) s"
  by (simp add: yields_def bnd_def split: sum.split)

lemma yields_mono: "yields m E Q s \<Longrightarrow> (\<And>x s'. Q x s' \<Longrightarrow> R x s') \<Longrightarrow> yields m E R s"
  by (auto simp: yields_def split: sum.splits)

lemma yields_while:
  assumes "I a s"
    and step: "\<And>a s. I a s \<Longrightarrow> b a \<Longrightarrow> yields (c a) E (\<lambda>a' s'. I a' s' \<and> f a' < (f a :: nat)) s"
    and exit: "\<And>a s. I a s \<Longrightarrow> \<not> b a \<Longrightarrow> Q a s"
  shows "yields (while_prog b c a) E Q s"
  using assms(1)
proof (induction "f a" arbitrary: a s rule: less_induct)
  case less
  show ?case
  proof (cases "b a")
    case True
    have "yields (c a) E (\<lambda>x. yields (while_prog b c x) E Q) s"
      by (rule yields_mono [OF step [OF less.prems True]]) (use less.hyps in auto)
    with True show ?thesis by (simp add: while_prog_unfold [of b c a])
  qed (use exit [OF less.prems] in \<open>simp add: while_prog_unfold\<close>)
qed

lemma yields_for_each:
  assumes "\<And>k s. k < n \<Longrightarrow> I k s \<Longrightarrow> yields (body k ()) E (\<lambda>_. I (Suc k)) s"
  shows "I 0 s \<Longrightarrow> yields (for_each body [0..<n] ()) E (\<lambda>_. I n) s"
  using assms
proof (induction n)
  case (Suc n)
  then have "yields (for_each body [0..<n] ()) E (\<lambda>_. I n) s" by simp
  then have "yields (for_each body [0..<n] ()) E (\<lambda>_ t. yields (body n ()) E (\<lambda>_. I (Suc n)) t) s"
    by (rule yields_mono) (use Suc.prems in simp)
  then show ?case by (simp add: for_each_append)
qed simp

lemma yields_cell [simp]: "k < length a \<Longrightarrow> yields (cell k) E Q a = Q (a ! k) a"
  by (simp add: cell_def array_get_def)

lemma yields_set_cell [simp]: "k < length a \<Longrightarrow> yields (set_cell k e) E Q a = Q () (a[k := e])"
  by (simp add: set_cell_def)

lemma yields_put_temp [simp]:
  "yields (put_temp temp e) E Q a = (if length temp < RECORD_SIZE then Q (temp @ [e]) a else E)"
  by (simp add: put_temp_def)

section \<open>Merging\<close>

fun merged :: "('w :: linorder) Element list \<Rightarrow> 'w Element list \<Rightarrow> 'w Element list" where
  "merged [] rs = rs"
| "merged ls [] = ls"
| "merged (l # ls) (r # rs) = (if weight_of l \<ge> weight_of r then l # merged ls (r # rs) else r # merged (l # ls) rs)"

lemma merged_Nil [simp]: "merged ls [] = ls"
  by (cases ls) auto

lemma length_merged [simp]: "length (merged ls rs) = length ls + length rs"
  by (induction ls rs rule: merged.induct) auto

lemma yields_copy_rest:
  assumes "arr + length xs \<le> length a" "\<And>i. i < length xs \<Longrightarrow> a ! (arr + i) = xs ! i" "i \<le> length xs" "length temp \<le> RECORD_SIZE"
    and "length temp + (length xs - i) \<le> n"
  shows "yields (copy_rest arr (length xs) (i, temp)) (RECORD_SIZE < n)
    (\<lambda>r a'. a' = a \<and> snd r = temp @ drop i xs \<and> length (snd r) \<le> RECORD_SIZE) a"
  unfolding copy_rest_def
proof (rule yields_while [where f = "\<lambda>r. length xs - fst r" and
    I = "\<lambda>r a'. a' = a \<and> fst r \<le> length xs \<and> length (snd r) \<le> RECORD_SIZE \<and> snd r @ drop (fst r) xs = temp @ drop i xs"])
  fix r a' assume r: "a' = a \<and> fst r \<le> length xs \<and> length (snd r) \<le> RECORD_SIZE \<and> snd r @ drop (fst r) xs = temp @ drop i xs" "fst r < length xs"
  have "snd r @ xs ! fst r # drop (Suc (fst r)) xs = temp @ drop i xs" using r by (simp add: Cons_nth_drop_Suc)
  moreover from r(1) have "length (snd r) + (length xs - fst r) = length temp + (length xs - i)"
    by (metis length_append length_drop)
  then have "RECORD_SIZE \<le> length (snd r) \<Longrightarrow> RECORD_SIZE < n" using assms(5) r by linarith
  ultimately show "yields (bnd (cell (arr + fst r)) (\<lambda>e. bnd (put_temp (snd r) e) (\<lambda>temp. ret (fst r + 1, temp)))) (RECORD_SIZE < n)
     (\<lambda>r' a'. (a' = a \<and> fst r' \<le> length xs \<and> length (snd r') \<le> RECORD_SIZE \<and> snd r' @ drop (fst r') xs = temp @ drop i xs) \<and>
        length xs - fst r' < length xs - fst r) a'"
    using r assms(1,2) by (simp add: diff_less_mono2)
qed (use assms in auto)

lemma yields_copy_back:
  assumes "left + length xs \<le> length a"
  shows "yields (for_each (\<lambda>i _. bnd (array_get (Some xs) i) (\<lambda>e. set_cell (left + i) e)) [0..<length xs] ()) E
    (\<lambda>_ a'. a' = take left a @ xs @ drop (left + length xs) a) a"
proof -
  have "yields (for_each (\<lambda>i _. bnd (array_get (Some xs) i) (\<lambda>e. set_cell (left + i) e)) [0..<length xs] ()) E
    (\<lambda>_ a'. a' = take left a @ take (length xs) xs @ drop (left + length xs) a) a"
  proof (rule yields_for_each [where I = "\<lambda>k a'. a' = take left a @ take k xs @ drop (left + k) a"])
    fix k a' assume k: "k < length xs" and a': "a' = take left a @ take k xs @ drop (left + k) a"
    have "drop (left + k) a = a ! (left + k) # drop (left + Suc k) a" using k assms by (simp add: Cons_nth_drop_Suc)
    then have "a'[left + k := xs ! k] = take left a @ take (Suc k) xs @ drop (left + Suc k) a"
      using k assms a' by (simp add: list_update_append take_Suc_conv_app_nth)
    moreover have "left + k < length a'" using k assms a' by simp
    ultimately show "yields (bnd (array_get (Some xs) k) (\<lambda>e. set_cell (left + k) e)) E
      (\<lambda>_ a'. a' = take left a @ take (Suc k) xs @ drop (left + Suc k) a) a'" using k by (simp add: array_get_def)
  qed simp
  then show ?thesis by simp
qed

text \<open>The first loop, and the whole of \<open>merge\<close>, on an array that has \<open>ls\<close> and then \<open>rs\<close> from \<open>left\<close> on.\<close>

lemma yields_merge_loop:
  assumes a: "left + length ls + length rs \<le> length a" "\<And>i. i < length ls \<Longrightarrow> a ! (left + i) = ls ! i"
    "\<And>j. j < length rs \<Longrightarrow> a ! (left + length ls + j) = rs ! j"
  shows "yields (while_prog (\<lambda>(i, j, temp). i < length ls \<and> j < length rs) (\<lambda>(i, j, temp).
            bnd (cell (left + i)) (\<lambda>a.
            bnd (cell (left + length ls + j)) (\<lambda>b.
            if weight_of a \<ge> weight_of b then bnd (put_temp temp a) (\<lambda>temp. ret (i + 1, j, temp))
            else bnd (put_temp temp b) (\<lambda>temp. ret (i, j + 1, temp))))) (0, 0, [])) (RECORD_SIZE < length ls + length rs)
     (\<lambda>(i, j, temp) a'. a' = a \<and> i \<le> length ls \<and> j \<le> length rs \<and> length temp \<le> RECORD_SIZE \<and> length temp = i + j \<and>
        temp @ drop i ls @ drop j rs = merged ls rs) a"
proof (rule yields_while [where f = "\<lambda>(i, j, temp). (length ls - i) + (length rs - j)" and
    I = "\<lambda>(i, j, temp) a'. a' = a \<and> i \<le> length ls \<and> j \<le> length rs \<and> length temp \<le> RECORD_SIZE \<and> length temp = i + j \<and>
        temp @ merged (drop i ls) (drop j rs) = merged ls rs"], goal_cases)
  case (2 r a')
  obtain i j temp where r: "r = (i, j, temp)" by (cases r)
  have I: "a' = a" "i < length ls" "j < length rs" "length temp \<le> RECORD_SIZE" "length temp = i + j"
    "temp @ merged (drop i ls) (drop j rs) = merged ls rs" using 2 r by auto
  have d: "drop i ls = ls ! i # drop (Suc i) ls" "drop j rs = rs ! j # drop (Suc j) rs"
    using I(2,3) by (simp_all add: Cons_nth_drop_Suc)
  have "RECORD_SIZE \<le> length temp \<Longrightarrow> RECORD_SIZE < length ls + length rs" using I(2,3,5) by linarith
  moreover have "if weight_of (ls ! i) \<ge> weight_of (rs ! j)
      then (temp @ [ls ! i]) @ merged (drop (Suc i) ls) (drop j rs) = merged ls rs
      else (temp @ [rs ! j]) @ merged (drop i ls) (drop (Suc j) rs) = merged ls rs"
    using I(6) unfolding d by (auto split: if_splits)
  ultimately show ?case using I a by (auto simp: r diff_less_mono2)
qed auto

lemma yields_merge:
  assumes a: "left + length ls + length rs \<le> length a" "\<And>i. i < length ls \<Longrightarrow> a ! (left + i) = ls ! i"
    "\<And>j. j < length rs \<Longrightarrow> a ! (left + length ls + j) = rs ! j"
  shows "yields (merge left (length ls) (left + length ls) (length rs)) (RECORD_SIZE < length ls + length rs)
    (\<lambda>_ a'. length ls + length rs \<le> RECORD_SIZE \<and> a' = take left a @ merged ls rs @ drop (left + length ls + length rs) a) a"
proof -
  let ?n = "length ls + length rs" and ?M = "merged ls rs"
  have rest: "yields (bnd (copy_rest left (length ls) (i, temp)) (\<lambda>(i, temp).
     bnd (copy_rest (left + length ls) (length rs) (j, temp)) (\<lambda>(j, temp).
     for_each (\<lambda>i _. bnd (array_get (Some temp) i) (\<lambda>e. set_cell (left + i) e)) [0..<?n] ()))) (RECORD_SIZE < ?n)
     (\<lambda>_ a'. ?n \<le> RECORD_SIZE \<and> a' = take left a @ ?M @ drop (left + length ls + length rs) a) a"
    if "i \<le> length ls" "j \<le> length rs" "length temp \<le> RECORD_SIZE" "length temp = i + j" "temp @ drop i ls @ drop j rs = ?M" for i j temp
  proof -
    let ?t = "temp @ drop i ls"
    have 3: "yields (for_each (\<lambda>i _. bnd (array_get (Some ?M) i) (\<lambda>e. set_cell (left + i) e)) [0..<?n] ()) (RECORD_SIZE < ?n)
      (\<lambda>_ a'. ?n \<le> RECORD_SIZE \<and> a' = take left a @ ?M @ drop (left + length ls + length rs) a) a" if "length ?M \<le> RECORD_SIZE"
      using yields_copy_back [of left ?M a] a(1) that by (auto simp: add.assoc elim: yields_mono)
    have "yields (copy_rest (left + length ls) (length rs) (j, ?t)) (RECORD_SIZE < ?n)
      (\<lambda>r a'. a' = a \<and> snd r = ?M \<and> length (snd r) \<le> RECORD_SIZE) a" if "length ?t \<le> RECORD_SIZE"
      using yields_copy_rest [of "left + length ls" rs a j ?t ?n] a that \<open>j \<le> length rs\<close> \<open>length temp = i + j\<close> \<open>i \<le> length ls\<close>
        \<open>temp @ drop i ls @ drop j rs = ?M\<close> by simp
    then have 2: "yields (bnd (copy_rest (left + length ls) (length rs) (j, ?t)) (\<lambda>(j, temp).
       for_each (\<lambda>i _. bnd (array_get (Some temp) i) (\<lambda>e. set_cell (left + i) e)) [0..<?n] ())) (RECORD_SIZE < ?n)
       (\<lambda>_ a'. ?n \<le> RECORD_SIZE \<and> a' = take left a @ ?M @ drop (left + length ls + length rs) a) a" if "length ?t \<le> RECORD_SIZE"
      unfolding yields_bnd using that 3 by (auto elim!: yields_mono simp: case_prod_beta)
    have "yields (copy_rest left (length ls) (i, temp)) (RECORD_SIZE < ?n)
      (\<lambda>r a'. a' = a \<and> snd r = ?t \<and> length (snd r) \<le> RECORD_SIZE) a"
      using yields_copy_rest [of left ls a i temp ?n] a that by simp
    then show ?thesis
      unfolding yields_bnd [of "copy_rest left (length ls) (i, temp)"]
      by (rule yields_mono) (use 2 in \<open>auto simp: case_prod_beta\<close>)
  qed
  show ?thesis unfolding merge_def yields_bnd [of "while_prog b c x" for b c x]
    by (rule yields_mono [OF yields_merge_loop [OF a]]) (use rest in \<open>auto simp del: yields_bnd\<close>)
qed

section \<open>Sorting\<close>

text \<open>The reference: the stable sort by descending weight.\<close>

definition desc :: "('w :: linorder) Element list \<Rightarrow> 'w Element list" where
  "desc xs = rev (sort_key weight_of (rev xs))"

abbreviation falls :: "('w :: linorder) Element list \<Rightarrow> bool" where
  "falls xs \<equiv> sorted (rev (map weight_of xs))"

lemma desc_falls: "falls (desc xs)"
  by (simp add: desc_def rev_map)

lemma desc_filter: "filter (\<lambda>e. weight_of e = k) (desc xs) = filter (\<lambda>e. weight_of e = k) xs"
  by (simp add: desc_def rev_filter [symmetric] sort_key_stable)

lemma desc_mset: "mset (desc xs) = mset xs"
  by (simp add: desc_def)

lemma length_desc [simp]: "length (desc xs) = length xs"
  by (simp add: desc_def)

lemma merged_set [simp]: "set (merged ls rs) = set ls \<union> set rs"
  by (induction ls rs rule: merged.induct) auto

lemma merged_mset: "mset (merged ls rs) = mset ls + mset rs"
  by (induction ls rs rule: merged.induct) auto

lemma falls_Cons: "falls (x # xs) \<longleftrightarrow> (\<forall>y\<in>set xs. weight_of y \<le> weight_of x) \<and> falls xs"
  by (auto simp: sorted_append)

lemma merged_falls: "falls ls \<Longrightarrow> falls rs \<Longrightarrow> falls (merged ls rs)"
proof (induction ls rs rule: merged.induct)
  case (3 l ls r rs)
  then show ?case unfolding falls_Cons by (auto simp: falls_Cons simp del: list.map)
qed auto

lemma merged_filter:
  assumes "falls ls" "falls rs"
  shows "filter (\<lambda>e. weight_of e = k) (merged ls rs) = filter (\<lambda>e. weight_of e = k) ls @ filter (\<lambda>e. weight_of e = k) rs"
  using assms
proof (induction ls rs rule: merged.induct)
  case (3 l ls r rs)
  show ?case
  proof (cases "weight_of l \<ge> weight_of r")
    case True
    then show ?thesis using 3 unfolding falls_Cons by simp
  next
    case False
    then have "filter (\<lambda>e. weight_of e = weight_of r) (l # ls) = []" using 3(3) unfolding falls_Cons by (auto simp: filter_empty_conv)
    then show ?thesis using False 3 unfolding falls_Cons by auto
  qed
qed auto

lemma desc_unique:
  assumes "mset ys = mset xs" "\<And>k. filter (\<lambda>e. weight_of e = k) ys = filter (\<lambda>e. weight_of e = k) xs" "falls ys"
  shows "desc xs = ys"
proof -
  have eq: "(\<lambda>x. weight_of e = weight_of x) = (\<lambda>x. weight_of x = weight_of e)" for e :: "'a Element" by auto
  have "sort_key weight_of (rev xs) = rev ys"
    using assms by (intro properties_for_sort_key) (simp_all add: rev_filter [symmetric] rev_map eq)
  then show ?thesis by (simp add: desc_def)
qed

lemma merged_desc: "merged (desc xs) (desc ys) = desc (xs @ ys)"
  by (rule desc_unique [symmetric])
    (simp_all add: merged_mset desc_mset merged_filter [OF desc_falls desc_falls] desc_filter merged_falls [OF desc_falls desc_falls])

lemma yields_weaken: "yields m E Q s \<Longrightarrow> (E \<Longrightarrow> E') \<Longrightarrow> (\<And>x s'. Q x s' \<Longrightarrow> R x s') \<Longrightarrow> yields m E' R s"
  by (auto simp: yields_def split: sum.splits)

lemma sort_halves:
  assumes "m + k = n" "l + n \<le> length lst" "out + n \<le> length a"
    and a1: "a1 = take out a @ desc (take m (drop l lst)) @ drop (out + m) a"
    and a2: "a2 = take (out + m) a1 @ desc (take k (drop (l + m) lst)) @ drop (out + m + k) a1"
  shows "yields (merge out m (out + m) k) (RECORD_SIZE < n) (\<lambda>_ a'. n \<le> RECORD_SIZE \<and>
    a' = take out a @ desc (take n (drop l lst)) @ drop (out + n) a) a2"
proof -
  define xs ys where "xs = desc (take m (drop l lst))" and "ys = desc (take k (drop (l + m) lst))"
  have len: "length xs = m" "length ys = k" using assms(1,2) by (simp_all add: xs_def ys_def)
  have all: "merged xs ys = desc (take n (drop l lst))"
    unfolding xs_def ys_def merged_desc assms(1) [symmetric] take_add by (simp add: add.commute)
  have eq: "a2 = take out a @ xs @ ys @ drop (out + n) a"
    unfolding a2 a1 xs_def [symmetric] ys_def [symmetric] using assms(1,3) by (simp add: len) (simp add: add.assoc [symmetric] add.commute)
  have pre: "length (take out a) = out" using assms(3) by simp
  have at: "a2 ! (out + i) = xs ! i" if "i < m" for i
    using that len by (simp add: eq nth_append pre del: length_take)
  have at': "a2 ! (out + m + j) = ys ! j" if "j < k" for j
    using that len by (simp add: eq nth_append pre del: length_take)
  have "yields (merge out (length xs) (out + length xs) (length ys)) (RECORD_SIZE < length xs + length ys)
    (\<lambda>_ a'. length xs + length ys \<le> RECORD_SIZE \<and> a' = take out a2 @ merged xs ys @ drop (out + length xs + length ys) a2) a2"
    by (rule yields_merge, unfold len) (use assms(1,3) at at' in \<open>simp_all add: eq len\<close>)
  moreover have "take out a2 = take out a" "drop (out + m + k) a2 = drop (out + n) a"
    unfolding eq using assms(1,3) len by simp_all
  ultimately show ?thesis unfolding len all assms(1) by simp
qed

lemma yields_merge_sort:
  assumes "1 \<le> len" "l + nat len \<le> length lst" "out + nat len \<le> length a"
  shows "yields (merge_sort lst l out len) (RECORD_SIZE < nat len) (\<lambda>_ a'. nat len \<le> RECORD_SIZE \<and>
    a' = take out a @ desc (take (nat len) (drop l lst)) @ drop (out + nat len) a) a"
  using assms
proof (induction lst l out len arbitrary: a rule: merge_sort.induct)
  case (1 lst l out len)
  show ?case
  proof (cases "len \<le> 1")
    case True
    then have len: "len = 1" using 1(3) by simp
    have "take (Suc 0) (drop l lst) = [lst ! l]" "a[out := lst ! l] = take out a @ lst ! l # drop (Suc out) a"
      using 1(4,5) len by (simp_all add: take_Suc_conv_app_nth upd_conv_take_nth_drop)
    moreover have "merge_sort lst l out 1 = bnd (array_get (Some lst) l) (\<lambda>e. set_cell out e)" by (simp add: merge_sort.simps)
    ultimately show ?thesis using 1(4,5) by (simp add: len array_get_def desc_def RECORD_SIZE_def)
  next
    case False
    define mid where "mid = (len + 1) div 2"
    define n m k where "n = nat len" and "m = nat mid" and "k = nat (len - mid)"
    have mid: "1 \<le> mid" "1 \<le> len - mid" "m + k = n" using False by (auto simp: mid_def n_def m_def k_def)
    have ln: "l + n \<le> length lst" "out + n \<le> length a" using 1(4,5) by (simp_all add: n_def)
    define a1 where "a1 = take out a @ desc (take m (drop l lst)) @ drop (out + m) a"
    define a2 where "a2 = take (out + m) a1 @ desc (take k (drop (l + m) lst)) @ drop (out + m + k) a1"
    have la: "length a1 = length a" using ln mid(3) by (simp add: a1_def)
    note IH = 1(1,2) [OF False mid_def]
    have 1: "yields (merge_sort lst l out mid) (RECORD_SIZE < n) (\<lambda>_ a'. a' = a1) a"
      by (rule yields_weaken [OF IH(1)]) (use mid ln in \<open>auto simp: m_def [symmetric] a1_def\<close>)
    have 2: "yields (merge_sort lst (l + m) (out + m) (len - mid)) (RECORD_SIZE < n) (\<lambda>_ a'. a' = a2) a1"
      unfolding m_def by (rule yields_weaken [OF IH(2)]) (use mid ln la in \<open>auto simp: m_def [symmetric] k_def [symmetric] a2_def\<close>)
    note 3 = sort_halves [OF mid(3) ln a1_def a2_def]
    have "yields (bnd (merge_sort lst l out mid) (\<lambda>_. bnd (merge_sort lst (l + m) (out + m) (len - mid)) (\<lambda>_. merge out m (out + m) k)))
      (RECORD_SIZE < n) (\<lambda>_ a'. n \<le> RECORD_SIZE \<and> a' = take out a @ desc (take n (drop l lst)) @ drop (out + n) a) a"
      unfolding yields_bnd by (rule yields_mono [OF 1], hypsubst, rule yields_mono [OF 2], hypsubst, rule 3)
    then show ?thesis using False
      by (simp add: merge_sort.simps [of lst l out len] Let_def mid_def [symmetric] n_def [symmetric] m_def [symmetric] k_def [symmetric] del: yields_bnd)
  qed
qed

end
