(* ===== verification/Select_Sort.thy ===== *)
theory Select_Sort
  imports Merge_Sort
begin

text \<open>
  Selection sort, \<open>src/src/library/sort/select_sort.c\<close> and \<open>select_sort.h\<close>. \<open>min_sort\<close> and \<open>max_sort\<close> are the same loops with the
  comparison turned round; \<open>select_sort\<close> has the comparison as an argument. The state is the array. The counter \<open>equal\<close>
  is an \<open>int\<close>, which 65537 entries of the same weight overflow.
\<close>

record ('p, 'w) ST_Entry =
  st_ptr :: 'p
  st_index :: int
  st_weight :: 'w

definition select_best :: "('w \<Rightarrow> 'w \<Rightarrow> bool) \<Rightarrow> nat \<Rightarrow> int \<Rightarrow> (('p, 'w) ST_Entry list, nat \<times> int) prog" where
  "select_best lt i equal =
     for_each (\<lambda>j (best, equal).
       bnd (cell best) (\<lambda>a.
       bnd (cell j) (\<lambda>b.
       if st_weight a = st_weight b then if equal \<ge> INT_MAX then fail Int_Overflow else ret (best, equal + 1)
       else if lt (st_weight a) (st_weight b) then ret (j, equal)
       else ret (best, equal)))) [1..<i + 1] (0, equal)"

definition swap_entries :: "nat \<Rightarrow> nat \<Rightarrow> (('p, 'w) ST_Entry list, unit) prog" where
  "swap_entries best i =
     bnd (cell best) (\<lambda>t.
     bnd (cell i) (\<lambda>e.
     bnd (set_cell best e) (\<lambda>_. set_cell i t)))"

definition select_sort :: "('w \<Rightarrow> 'w \<Rightarrow> bool) \<Rightarrow> int \<Rightarrow> (('p, 'w) ST_Entry list, bool) prog" where
  "select_sort lt sz =
     bnd (for_each (\<lambda>i equal.
            bnd (select_best lt i equal) (\<lambda>(best, equal).
            bnd (swap_entries best i) (\<lambda>_. ret equal))) (rev [1..<nat sz]) 0) (\<lambda>equal.
     ret (equal \<noteq> 0))"

definition min_sort :: "int \<Rightarrow> (('p, 'w :: linorder) ST_Entry list, bool) prog" where
  "min_sort sz = select_sort (\<lambda>x y. x < y) sz"

definition max_sort :: "int \<Rightarrow> (('p, 'w :: linorder) ST_Entry list, bool) prog" where
  "max_sort sz = select_sort (\<lambda>x y. x > y) sz"

section \<open>Loops over a range\<close>

lemma wp_for_range:
  assumes "m \<le> n" "I m a s" "\<And>k a s. m \<le> k \<Longrightarrow> k < n \<Longrightarrow> I k a s \<Longrightarrow> wp (body k a) (I (Suc k)) s" "\<And>a s. I n a s \<Longrightarrow> Q a s"
  shows "wp (for_each body [m..<n] a) Q s"
proof (rule wp_for_each [where I = "\<lambda>k. I (m + k)"])
  show "wp (body ([m..<n] ! k) b) (I (m + Suc k)) t" if "k < length [m..<n]" "I (m + k) b t" for k b t
    using that assms(3) [of "m + k"] by simp
qed (use assms(1,2,4) in auto)

lemma wp_for_range_down:
  assumes "m \<le> n" "I n a s" "\<And>k a s. m \<le> k \<Longrightarrow> k < n \<Longrightarrow> I (Suc k) a s \<Longrightarrow> wp (body k a) (I k) s" "\<And>a s. I m a s \<Longrightarrow> Q a s"
  shows "wp (for_each body (rev [m..<n]) a) Q s"
proof (rule wp_for_each [where I = "\<lambda>k. I (n - k)"])
  show "wp (body (rev [m..<n] ! k) b) (I (n - Suc k)) t" if "k < length (rev [m..<n])" "I (n - k) b t" for k b t
  proof -
    have "Suc (n - Suc k) = n - k" "rev [m..<n] ! k = n - Suc k" using that(1) by (auto simp: rev_nth)
    then show ?thesis using that assms(3) [of "n - Suc k" b t] by simp
  qed
qed (use assms(1,2,4) in auto)

lemma wp_cell [simp]: "wp (cell k) Q a \<longleftrightarrow> k < length a \<and> Q (a ! k) a"
  by (simp add: cell_def)

lemma wp_set_cell [simp]: "wp (set_cell k e) Q a \<longleftrightarrow> k < length a \<and> Q () (a[k := e])"
  by (simp add: set_cell_def)

lemma dup_not_distinct:
  assumes "a < b" "b < n" "n \<le> length xs" "f (xs ! a) = f (xs ! b)"
  shows "\<not> distinct (map f (take n xs))"
proof
  assume "distinct (map f (take n xs))"
  then have "map f (take n xs) ! a \<noteq> map f (take n xs) ! b"
    using assms(1-3) by (subst nth_eq_iff_index_eq) auto
  then show False using assms by simp
qed

section \<open>Too many equal weights\<close>

definition same_weights :: "'w \<Rightarrow> ('p, 'w) ST_Entry list \<Rightarrow> bool" where
  "same_weights w xs \<longleftrightarrow> (\<forall>e\<in>set xs. st_weight e = w)"

lemma select_best_same:
  assumes "same_weights w xs" "i < length xs" "0 \<le> e" "e \<le> INT_MAX"
  shows "select_best lt i e xs = (if e + int i \<le> INT_MAX then Inr ((0, e + int i), xs) else Inl Int_Overflow)"
proof -
  let ?f = "\<lambda>j (best, equal). bnd (cell best) (\<lambda>a. bnd (cell j) (\<lambda>b.
       if st_weight a = st_weight b then if equal \<ge> INT_MAX then fail Int_Overflow else ret (best, equal + 1)
       else if lt (st_weight a) (st_weight b) then ret (j, equal) else ret (best, equal)))"
  have all: "for_each ?f js (0, e) xs = (if e + int (length js) \<le> INT_MAX then Inr ((0, e + int (length js)), xs) else Inl Int_Overflow)"
    if "\<forall>j\<in>set js. j < length xs" for js
    using that assms(3,4)
  proof (induction js arbitrary: e)
    case (Cons j js)
    have "0 < length xs" "j < length xs" using Cons.prems(1) by auto
    then have "st_weight (xs ! 0) = w" "st_weight (xs ! j) = w" using assms(1) by (auto simp: same_weights_def)
    then have step: "?f j (0, e) xs = (if e \<ge> INT_MAX then Inl Int_Overflow else Inr ((0, e + 1), xs))"
      using \<open>j < length xs\<close> \<open>0 < length xs\<close> by (simp add: cell_def array_get_def bnd_def gets_def ret_def fail_def)
    show ?case
    proof (cases "e \<ge> INT_MAX")
      case True
      then show ?thesis using step by (simp add: bnd_def)
    next
      case False
      then have "0 \<le> e + 1" "e + 1 \<le> INT_MAX" "\<forall>j\<in>set js. j < length xs" using Cons.prems by auto
      from Cons.IH [OF this(3,1,2)] False step show ?thesis by (simp add: bnd_def add.assoc add.commute)
    qed
  qed (simp add: ret_def)
  have "\<forall>j\<in>set [1..<i + 1]. j < length xs" using assms(2) by auto
  from all [OF this] show ?thesis unfolding select_best_def by (simp only: length_upt add_diff_cancel_right')
qed

lemma sum_below: "2 * sum_list (map int (rev [1..<n])) = int n * (int n - 1)"
proof (induction n)
  case (Suc n)
  have "[1..<Suc n] = (if n = 0 then [] else [1..<n] @ [n])" by simp
  with Suc show ?case by (cases n) (auto simp: algebra_simps)
qed simp

lemma select_sort_overflow:
  assumes same: "same_weights w xs" and sz: "65536 < sz" "nat sz \<le> length xs"
  shows "select_sort lt sz xs = Inl Int_Overflow"
proof -
  let ?f = "\<lambda>i equal. bnd (select_best lt i equal) (\<lambda>(best, equal). bnd (swap_entries best i) (\<lambda>_. ret equal))"
  have loop: "for_each ?f is e xs = Inl Int_Overflow"
    if "same_weights w xs" "\<forall>i\<in>set is. i < length xs" "0 \<le> e" "e \<le> INT_MAX" "INT_MAX < e + sum_list (map int is)" for "is" e xs
    using that
  proof (induction "is" arbitrary: e xs)
    case (Cons i "is")
    note best = select_best_same [OF Cons.prems(1) _ Cons.prems(3,4), of i lt]
    have len: "i < length xs" "0 < length xs" using Cons.prems(2) by auto
    show ?case
    proof (cases "e + int i \<le> INT_MAX")
      case False
      then show ?thesis using best len by (simp add: bnd_def)
    next
      case True
      let ?ys = "xs[0 := xs ! i, i := xs ! 0]"
      have "set ?ys = set xs" using len by (intro set_swap)
      then have "same_weights w ?ys" using Cons.prems(1) by (simp add: same_weights_def)
      then have "for_each ?f is (e + int i) ?ys = Inl Int_Overflow"
        by (rule Cons.IH) (use Cons.prems True in \<open>simp_all add: add.assoc\<close>)
      moreover have "swap_entries 0 i xs = Inr ((), ?ys)"
        using len by (simp add: swap_entries_def cell_def set_cell_def array_get_def bnd_def gets_def ret_def modify_def)
      ultimately show ?thesis using best len True by (simp add: bnd_def ret_def)
    qed
  qed simp
  have "65537 * 65536 \<le> int (nat sz) * (int (nat sz) - 1)" using sz(1) by (intro mult_mono) auto
  then have "INT_MAX < 0 + sum_list (map int (rev [1..<nat sz]))" using sum_below [of "nat sz"] by (simp add: INT_MAX_def)
  from loop [OF same _ _ _ this] sz(2) show ?thesis by (simp add: select_sort_def bnd_def INT_MAX_def)
qed

section \<open>Selection\<close>

text \<open>The contract of the comparison: a strict linear order. It is the order by which the array ends up sorted.\<close>

locale selection =
  fixes lt :: "'w \<Rightarrow> 'w \<Rightarrow> bool"
  assumes irrefl: "\<not> lt x x"
    and lt_trans: "lt x y \<Longrightarrow> lt y z \<Longrightarrow> lt x z"
    and linear: "lt x y \<or> x = y \<or> lt y x"
begin

definition best_of :: "('p, 'w) ST_Entry list \<Rightarrow> nat \<Rightarrow> int \<Rightarrow> nat \<Rightarrow> nat \<times> int \<Rightarrow> bool" where
  "best_of xs i e j r \<longleftrightarrow> fst r < j \<and> e \<le> snd r \<and> snd r < e + int j \<and> (\<forall>t<j. \<not> lt (st_weight (xs ! fst r)) (st_weight (xs ! t))) \<and>
     (snd r = e \<longrightarrow> (\<forall>t<j. t \<noteq> fst r \<longrightarrow> st_weight (xs ! t) \<noteq> st_weight (xs ! fst r))) \<and>
     (snd r \<noteq> e \<longrightarrow> \<not> distinct (map st_weight (take (Suc i) xs)))"

lemma best_step:
  assumes r: "best_of xs i e j (best, eq)" and j: "j \<le> i" "i < length xs"
  shows "st_weight (xs ! best) = st_weight (xs ! j) \<Longrightarrow> best_of xs i e (Suc j) (best, eq + 1)"
    and "lt (st_weight (xs ! best)) (st_weight (xs ! j)) \<Longrightarrow> best_of xs i e (Suc j) (j, eq)"
    and "st_weight (xs ! best) \<noteq> st_weight (xs ! j) \<Longrightarrow> \<not> lt (st_weight (xs ! best)) (st_weight (xs ! j)) \<Longrightarrow> best_of xs i e (Suc j) (best, eq)"
proof -
  assume eq: "st_weight (xs ! best) = st_weight (xs ! j)"
  have "best < j" using r by (simp add: best_of_def)
  then have "\<not> distinct (map st_weight (take (Suc i) xs))"
    using eq j by (intro dup_not_distinct [of best j]) auto
  then show "best_of xs i e (Suc j) (best, eq + 1)" using r eq irrefl by (auto simp: best_of_def less_Suc_eq)
next
  assume less: "lt (st_weight (xs ! best)) (st_weight (xs ! j))"
  have "\<not> lt (st_weight (xs ! j)) (st_weight (xs ! t)) \<and> st_weight (xs ! t) \<noteq> st_weight (xs ! j)" if "t < j" for t
    using r that less irrefl lt_trans unfolding best_of_def by (metis fst_conv)
  then show "best_of xs i e (Suc j) (j, eq)" using r irrefl by (auto simp: best_of_def less_Suc_eq)
qed (use r in \<open>auto simp: best_of_def less_Suc_eq\<close>)

lemma select_best_wp:
  assumes "i < length xs" "e + int i \<le> INT_MAX"
  shows "wp (select_best lt i e) (\<lambda>r xs'. xs' = xs \<and> best_of xs i e (Suc i) r) xs"
  unfolding select_best_def
proof (rule wp_for_range [where I = "\<lambda>j r xs'. xs' = xs \<and> best_of xs i e j r"])
  fix j r xs' assume j: "1 \<le> j" "j < i + 1" "xs' = xs \<and> best_of xs i e j r"
  obtain best eq where r: "r = (best, eq)" by (cases r)
  have b: "best_of xs i e j (best, eq)" "best < length xs" "j < length xs" "j \<le> i" "eq < INT_MAX" using j r assms by (auto simp: best_of_def)
  show "wp ((\<lambda>(best, equal). bnd (cell best) (\<lambda>a. bnd (cell j) (\<lambda>b.
       if st_weight a = st_weight b then if equal \<ge> INT_MAX then fail Int_Overflow else ret (best, equal + 1)
       else if lt (st_weight a) (st_weight b) then ret (j, equal) else ret (best, equal)))) r)
     (\<lambda>r xs'. xs' = xs \<and> best_of xs i e (Suc j) r) xs'"
    using best_step [OF b(1,4) assms(1)] b(2,3,5) j(3) by (auto simp: r)
qed (use irrefl in \<open>auto simp: best_of_def\<close>)

text \<open>\<open>xs\<close> with its entries from \<open>k\<close> on in their final places, \<open>n\<close> being the number of entries to sort.\<close>

definition placed :: "('p, 'w) ST_Entry list \<Rightarrow> nat \<Rightarrow> nat \<Rightarrow> int \<Rightarrow> ('p, 'w) ST_Entry list \<Rightarrow> bool" where
  "placed xs0 n k e xs \<longleftrightarrow> mset (take n xs) = mset (take n xs0) \<and> drop n xs = drop n xs0 \<and> length xs = length xs0 \<and> 0 \<le> e \<and>
     2 * e \<le> int n * (int n - 1) - int k * (int k - 1) \<and>
     (\<forall>b. k \<le> b \<and> b < n \<longrightarrow> (\<forall>a<b. \<not> lt (st_weight (xs ! b)) (st_weight (xs ! a)))) \<and>
     (e = 0 \<longrightarrow> (\<forall>b. k \<le> b \<and> b < n \<longrightarrow> (\<forall>a<b. st_weight (xs ! a) \<noteq> st_weight (xs ! b)))) \<and>
     (e \<noteq> 0 \<longrightarrow> \<not> distinct (map st_weight (take n xs0)))"

lemma placed_step:
  assumes p: "placed xs0 n (Suc i) e xs" and i: "i < n" "n \<le> length xs0" and b: "best_of xs i e (Suc i) (best, eq)"
  shows "placed xs0 n i eq (xs[best := xs ! i, i := xs ! best])"
proof -
  let ?ys = "xs[best := xs ! i, i := xs ! best]"
  define t where "t a = (if a = best then i else if a = i then best else a)" for a
  have p': "mset (take n xs) = mset (take n xs0)" "drop n xs = drop n xs0" "length xs = length xs0" "0 \<le> e"
    "e \<noteq> 0 \<longrightarrow> \<not> distinct (map st_weight (take n xs0))" "2 * e \<le> int n * (int n - 1) - int (Suc i) * (int (Suc i) - 1)"
    using p by (auto simp: placed_def)
  have bi: "best \<le> i" "e \<le> eq" using b by (auto simp: best_of_def)
  have ys: "?ys ! a = xs ! t a" if "a < n" for a using that i bi p'(3) by (auto simp: t_def nth_list_update)
  have t: "t i = best" "a < c \<Longrightarrow> i < c \<Longrightarrow> t a < c" "i < c \<Longrightarrow> t c = c" "a < i \<Longrightarrow> t a \<le> i \<and> t a \<noteq> best" for a c
    using bi by (auto simp: t_def)
  have "mset (take n ?ys) = mset ((take n xs)[best := take n xs ! i, i := take n xs ! best])"
    using i bi by (simp add: take_update_swap)
  also have "\<dots> = mset (take n xs)" using i bi p'(3) by (intro mset_swap) auto
  finally have m: "mset (take n ?ys) = mset (take n xs0)" using p'(1) by simp
  have d: "\<not> distinct (map st_weight (take n xs0))" if "eq \<noteq> 0"
  proof (cases "eq = e")
    case False
    then have "\<not> distinct (map st_weight (take (Suc i) xs))" using b by (simp add: best_of_def)
    then have "\<not> distinct (map st_weight (take n xs))"
      using i(1) distinct_take [of "map st_weight (take n xs)" "Suc i"] by (auto simp: take_map min_def)
    then show ?thesis using p'(1) by (metis mset_map mset_eq_imp_distinct_iff)
  qed (use that p'(5) in simp)
  have order: "\<not> lt (st_weight (?ys ! c)) (st_weight (?ys ! a))" if "i \<le> c" "c < n" "a < c" for a c
  proof (cases "c = i")
    case True
    then show ?thesis using that ys [of c] ys [of a] t(1) t(4) [of a] b by (simp add: best_of_def less_Suc_eq_le)
  next
    case False
    then show ?thesis using that ys [of c] ys [of a] t(2) [of a c] t(3) [of c] p by (simp add: placed_def)
  qed
  have differ: "st_weight (?ys ! a) \<noteq> st_weight (?ys ! c)" if "eq = 0" "i \<le> c" "c < n" "a < c" for a c
  proof -
    have e: "e = 0" "eq = e" using that(1) bi(2) p'(4) by auto
    show ?thesis
    proof (cases "c = i")
      case True
      then show ?thesis using that e ys [of c] ys [of a] t(1) t(4) [of a] b by (simp add: best_of_def less_Suc_eq_le)
    next
      case False
      then show ?thesis using that e ys [of c] ys [of a] t(2) [of a c] t(3) [of c] p by (simp add: placed_def)
    qed
  qed
  have "drop n ?ys = drop n xs0" "length ?ys = length xs0" using i bi p'(2,3) by simp_all
  moreover have "2 * eq \<le> int n * (int n - 1) - int i * (int i - 1)"
    using p'(6) b by (simp add: best_of_def algebra_simps)
  ultimately show ?thesis unfolding placed_def using m d order differ bi(2) p'(4) by auto
qed

lemma select_sort_wp:
  assumes "nat sz \<le> length xs" "sz \<le> 65536"
  shows "wp (select_sort lt sz) (\<lambda>r ys. mset (take (nat sz) ys) = mset (take (nat sz) xs) \<and> drop (nat sz) ys = drop (nat sz) xs \<and>
    sorted_wrt (\<lambda>a b. \<not> lt (st_weight b) (st_weight a)) (take (nat sz) ys) \<and> (r \<longleftrightarrow> \<not> distinct (map st_weight (take (nat sz) xs)))) xs"
proof -
  let ?n = "nat sz"
  have range: "[1..<?n] = [min 1 ?n..<?n]" by (cases "?n = 0") (auto simp: min_def)
  have low: "int (min (Suc 0) ?n) * (int (min (Suc 0) ?n) - 1) = 0" by (cases "?n = 0") (auto simp: min_def)
  have "wp (for_each (\<lambda>i equal. bnd (select_best lt i equal) (\<lambda>(best, equal). bnd (swap_entries best i) (\<lambda>_. ret equal))) (rev [1..<?n]) 0)
    (\<lambda>e ys. placed xs ?n 1 e ys) xs"
    unfolding range
  proof (rule wp_for_range_down [where I = "\<lambda>k e ys. placed xs ?n k e ys"])
    fix i e ys assume i: "min 1 ?n \<le> i" "i < ?n" and p: "placed xs ?n (Suc i) e ys"
    have len: "i < length ys" using p i assms(1) by (simp add: placed_def)
    have room: "e + int i \<le> INT_MAX"
    proof -
      have "int ?n * (int ?n - 1) \<le> 65536 * 65535" using i assms(2) by (intro mult_mono) auto
      moreover have "2 * e \<le> int ?n * (int ?n - 1) - int (Suc i) * (int (Suc i) - 1)" using p by (simp add: placed_def)
      moreover have "2 * int i \<le> int (Suc i) * (int (Suc i) - 1) + 2" by (cases i) (auto simp: algebra_simps)
      ultimately show ?thesis by (simp add: INT_MAX_def)
    qed
    show "wp (bnd (select_best lt i e) (\<lambda>(best, equal). bnd (swap_entries best i) (\<lambda>_. ret equal))) (placed xs ?n i) ys"
      unfolding wp_bnd
    proof (rule wp_mono [OF select_best_wp [OF len room]], elim conjE, hypsubst)
      fix r assume b: "best_of ys i e (Suc i) r"
      obtain best eq where r: "r = (best, eq)" by (cases r)
      with b have bl: "best < length ys" using len by (simp add: best_of_def)
      show "wp (case r of (best, equal) \<Rightarrow> bnd (swap_entries best i) (\<lambda>_. ret equal)) (placed xs ?n i) ys"
        using placed_step [OF p i(2) assms(1) b [unfolded r]] bl len by (simp add: r swap_entries_def)
    qed
  qed (auto simp: placed_def low)
  then show ?thesis
    unfolding select_sort_def wp_bnd wp_ret
  proof (rule wp_mono)
    fix e ys assume p: "placed xs ?n 1 e ys"
    have len: "length ys = length xs" using p by (simp add: placed_def)
    have s: "sorted_wrt (\<lambda>a b. \<not> lt (st_weight b) (st_weight a)) (take ?n ys)"
      using p by (auto simp: sorted_wrt_iff_nth_less placed_def)
    have "distinct (map st_weight (take ?n ys))" if "e = 0"
      unfolding distinct_conv_nth
    proof (intro allI impI)
      fix a c assume ac: "a < length (map st_weight (take ?n ys))" "c < length (map st_weight (take ?n ys))" "a \<noteq> c"
      have "st_weight (ys ! a) \<noteq> st_weight (ys ! c)" if "a < c" "c < ?n" for a c
        using p \<open>e = 0\<close> that by (auto simp: placed_def)
      from this [of a c] this [of c a] ac show "map st_weight (take ?n ys) ! a \<noteq> map st_weight (take ?n ys) ! c"
        by (cases "a < c") auto
    qed
    then have "distinct (map st_weight (take ?n xs))" if "e = 0"
      using that p unfolding placed_def by (metis mset_map mset_eq_imp_distinct_iff)
    then show "mset (take ?n ys) = mset (take ?n xs) \<and> drop ?n ys = drop ?n xs \<and>
      sorted_wrt (\<lambda>a b. \<not> lt (st_weight b) (st_weight a)) (take ?n ys) \<and> ((e \<noteq> 0) \<longleftrightarrow> \<not> distinct (map st_weight (take ?n xs)))"
      using p s by (auto simp: placed_def)
  qed
qed

end

interpretation ascending: selection "\<lambda>x y :: 'w :: linorder. x < y"
  by unfold_locales auto

interpretation descending: selection "\<lambda>x y :: 'w :: linorder. x > y"
  by unfold_locales auto

end
