(* ===== verification/Trace.thy ===== *)
theory Trace
  imports Graph Select_Sort
begin

text \<open>
  Trace selection, \<open>src/src/library/libflow/trace.c\<close> and \<open>trace.h\<close>: the nodes of a weighted flow graph are put into traces, sequences of
  nodes that follow each other along arcs, and the chain of the nodes is rearranged trace by trace. The dominators and
  levels of the nodes are kept in the array \<open>others\<close>, to which the extension field of a node points (the model keeps the
  index). The code compiled is the one with \<open>SECOND_LEVEL_SELECT\<close> and without \<open>WEIGHT_BASED\<close>.

  A pointer to the cell of an arc is written as the node that has the cell in its list of destination arcs, with the position
  in that list: the lists do not change during the selection, only the types of the arcs do.
\<close>

section \<open>State\<close>

record Ext =
  dominator :: Set
  level :: int
  order :: int

datatype selector = By_Node_Weight | By_Arc_Weight | By_Min_Prob

record trace_lib = graph_lib +
  others :: "nat \<Rightarrow> Ext"
  n_others :: nat
  best_successor_of :: selector
  best_predecessor_of :: selector
  min_prob_requirement :: rat

definition VISITED :: int where "VISITED = 1"
definition TRACE_HEAD :: int where "TRACE_HEAD = 2"
definition TRACE_TAIL :: int where "TRACE_TAIL = 4"
definition LOOP_HEAD :: int where "LOOP_HEAD = 8"
definition NOT_VISITED :: int where "NOT_VISITED = 0"

definition SCALE :: int where "SCALE = 5"
definition FAVOR_FORWARD :: int where "FAVOR_FORWARD = 2"

definition flag :: "int \<Rightarrow> gnode \<Rightarrow> bool" where
  "flag m n = (nodeStatus n AND m \<noteq> 0)"

definition raise_flag :: "int \<Rightarrow> nat \<Rightarrow> ('z graph_lib_scheme, unit) prog" where
  "raise_flag m a = node_put a (\<lambda>n. n\<lparr>nodeStatus := nodeStatus n OR m\<rparr>)"

definition clear_flag :: "int \<Rightarrow> nat \<Rightarrow> ('z graph_lib_scheme, unit) prog" where
  "clear_flag m a = node_put a (\<lambda>n. n\<lparr>nodeStatus := nodeStatus n AND NOT m\<rparr>)"

definition set_type :: "nat \<Rightarrow> int \<Rightarrow> ('z graph_lib_scheme, unit) prog" where
  "set_type a ty = node_put a (\<lambda>n. n\<lparr>nodeType := ty\<rparr>)"

text \<open>The entry of \<open>others\<close> that the extension field points to.\<close>

definition get_ext :: "nat \<Rightarrow> (trace_lib, Ext) prog" where
  "get_ext a = bnd (node_get a) (\<lambda>n. case nodeExt n of None \<Rightarrow> fail Null_Deref | Some i \<Rightarrow> gets (\<lambda>g. others g i))"

definition put_others :: "nat \<Rightarrow> (Ext \<Rightarrow> Ext) \<Rightarrow> (trace_lib, unit) prog" where
  "put_others i f = modify (\<lambda>g. g\<lparr>others := (others g)(i := f (others g i))\<rparr>)"

definition put_ext :: "nat \<Rightarrow> (Ext \<Rightarrow> Ext) \<Rightarrow> (trace_lib, unit) prog" where
  "put_ext a f = bnd (node_get a) (\<lambda>n. case nodeExt n of None \<Rightarrow> fail Null_Deref | Some i \<Rightarrow> put_others i f)"

section \<open>Dominators and levels\<close>

definition FreeExtensionFields :: "(trace_lib, unit) prog" where
  "FreeExtensionFields =
     bnd (gets n_others) (\<lambda>n.
     bnd (for_each (\<lambda>i _.
            bnd (gets (\<lambda>g. dominator (others g i))) (\<lambda>d.
            bnd (Set_dispose d) (\<lambda>_.
            put_others i (\<lambda>e. e\<lparr>dominator := None\<rparr>)))) [0..<n] ()) (\<lambda>_.
     modify (\<lambda>g. g\<lparr>n_others := 0\<rparr>)))"

text \<open>The array \<open>others\<close> has \<open>MAX_GRAPH_SIZE\<close> entries, and the loop does not check it.\<close>

definition number_nodes :: "nat list \<Rightarrow> (trace_lib, Set) prog" where
  "number_nodes ns =
     for_each (\<lambda>ptr all.
       bnd (gets n_others) (\<lambda>n.
       bnd (node_put ptr (\<lambda>nd. nd\<lparr>nodeExt := Some n\<rparr>)) (\<lambda>_.
       if n \<ge> MAX_GRAPH_SIZE then fail Out_Of_Bounds
       else
         bnd (put_others n (\<lambda>_. \<lparr>dominator = None, level = - 1, order = int n\<rparr>)) (\<lambda>_.
         bnd (Set_add all (int n)) (\<lambda>all.
         bnd (modify (\<lambda>g. g\<lparr>n_others := n + 1\<rparr>)) (\<lambda>_.
         ret all)))))) ns None"

definition init_dominators :: "nat \<Rightarrow> Set \<Rightarrow> nat list \<Rightarrow> (trace_lib, unit) prog" where
  "init_dominators entry all ns =
     bnd (put_ext entry (\<lambda>e. e\<lparr>level := 0\<rparr>)) (\<lambda>_.
     bnd (get_ext entry) (\<lambda>e.
     bnd (Set_add None (order e)) (\<lambda>dom.
     bnd (put_ext entry (\<lambda>e. e\<lparr>dominator := dom\<rparr>)) (\<lambda>_.
     for_each (\<lambda>ptr _.
       if ptr = entry then ret ()
       else bnd (Set_union None all) (\<lambda>dom. put_ext ptr (\<lambda>e. e\<lparr>dominator := dom\<rparr>))) ns ()))))"

definition meet_sources :: "arc list \<Rightarrow> Set \<Rightarrow> (trace_lib, Set) prog" where
  "meet_sources arcs start =
     for_each (\<lambda>arc dom.
       bnd (get_ext (sourceNode arc)) (\<lambda>e.
       bnd (Set_intersect dom (dominator e)) (\<lambda>temp.
       bnd (Set_dispose dom) (\<lambda>_.
       ret temp)))) arcs start"

definition dominator_node :: "nat \<Rightarrow> Set \<Rightarrow> nat \<Rightarrow> int \<Rightarrow> (trace_lib, int) prog" where
  "dominator_node entry all ptr change =
     (if ptr = entry then ret change
      else
        bnd (node_get ptr) (\<lambda>n.
        if sourceArcs n = [] then ret change
        else
          bnd (Set_union all None) (\<lambda>dom.
          bnd (meet_sources (sourceArcs n) dom) (\<lambda>dom.
          bnd (get_ext ptr) (\<lambda>e.
          bnd (Set_add dom (order e)) (\<lambda>dom.
          bnd (Set_same dom (dominator e)) (\<lambda>same.
          if same then bnd (Set_dispose dom) (\<lambda>_. ret change)
          else
            bnd (Set_dispose (dominator e)) (\<lambda>_.
            bnd (put_ext ptr (\<lambda>e. e\<lparr>dominator := dom\<rparr>)) (\<lambda>_.
            ret (change + 1))))))))))"

text \<open>The levels of the sources of a node, up to the first forward one that has none yet: None when there is one.\<close>

primrec source_level :: "int \<Rightarrow> arc list \<Rightarrow> int \<Rightarrow> (trace_lib, int option) prog" where
  "source_level ord [] best = ret (Some best)"
| "source_level ord (arc # arcs) best =
     bnd (get_ext (sourceNode arc)) (\<lambda>ex.
     if order ex \<ge> ord then source_level ord arcs best
     else if level ex < 0 then ret None
     else source_level ord arcs (if level ex > best then level ex else best))"

definition level_node :: "nat \<Rightarrow> int \<Rightarrow> (trace_lib, int) prog" where
  "level_node ptr change =
     bnd (get_ext ptr) (\<lambda>ext.
     if level ext \<ge> 0 then ret change
     else
       bnd (node_get ptr) (\<lambda>n.
       bnd (source_level (order ext) (sourceArcs n) (- 1)) (\<lambda>r.
       case r of None \<Rightarrow> ret change
       | Some best \<Rightarrow> bnd (put_ext ptr (\<lambda>e. e\<lparr>level := best + 1\<rparr>)) (\<lambda>_. ret (change + 1)))))"

text \<open>\<open>change = 1; while (change != 0) ...\<close> over all nodes of the graph.\<close>

definition until_no_change :: "(nat \<Rightarrow> int \<Rightarrow> (trace_lib, int) prog) \<Rightarrow> nat list \<Rightarrow> (trace_lib, unit) prog" where
  "until_no_change step ns =
     bnd (while_prog (\<lambda>change. change \<noteq> 0) (\<lambda>_. for_each step ns 0) 1) (\<lambda>_. ret ())"

definition AddExtensionFields :: "FGraph \<Rightarrow> (trace_lib, unit) prog" where
  "AddExtensionFields graph =
     bnd FreeExtensionFields (\<lambda>_.
     if gnodes graph = [] then ret ()
     else case root graph of None \<Rightarrow> fail (Punt ''no root node'')
     | Some r \<Rightarrow>
         bnd (number_nodes (gnodes graph)) (\<lambda>all.
         bnd (init_dominators r all (gnodes graph)) (\<lambda>_.
         bnd (until_no_change (dominator_node r all) (gnodes graph)) (\<lambda>_.
         bnd (Set_dispose all) (\<lambda>_.
         until_no_change level_node (gnodes graph))))))"

section \<open>Weights\<close>

text \<open>
  When a successor is chosen, a closer one is favoured when the dynamic counts are low; \<open>favour_successor\<close> and
  \<open>favour_predecessor\<close> are what is added to a weight.
\<close>

definition level_diff :: "nat \<Rightarrow> nat \<Rightarrow> (trace_lib, int) prog" where
  "level_diff src dest = bnd (get_ext src) (\<lambda>extSRC. bnd (get_ext dest) (\<lambda>extDEST. ret (level extDEST - level extSRC)))"

definition favour_successor :: "int \<Rightarrow> rat" where
  "favour_successor diff = (if diff > 0 then of_int ((FAVOR_FORWARD - diff) * SCALE) else 0)"

definition favour_predecessor :: "int \<Rightarrow> rat" where
  "favour_predecessor diff = (if diff > 0 then of_int (diff * SCALE) else 0)"

definition successor_node_weight :: "nat \<Rightarrow> nat \<Rightarrow> (trace_lib, rat) prog" where
  "successor_node_weight src dest =
     bnd (level_diff src dest) (\<lambda>diff. bnd (node_get dest) (\<lambda>n. ret (nodeWeight n + favour_successor diff)))"

definition predecessor_node_weight :: "nat \<Rightarrow> nat \<Rightarrow> (trace_lib, rat) prog" where
  "predecessor_node_weight src dest =
     bnd (level_diff src dest) (\<lambda>diff. bnd (node_get src) (\<lambda>n. ret (nodeWeight n + favour_predecessor diff)))"

definition successor_arc_weight :: "arc \<Rightarrow> (trace_lib, rat) prog" where
  "successor_arc_weight a =
     bnd (level_diff (sourceNode a) (destinationNode a)) (\<lambda>diff. ret (arcWeight a + favour_successor diff))"

definition predecessor_arc_weight :: "arc \<Rightarrow> (trace_lib, rat) prog" where
  "predecessor_arc_weight a =
     bnd (level_diff (sourceNode a) (destinationNode a)) (\<lambda>diff. ret (arcWeight a + favour_predecessor diff))"

section \<open>The best neighbour\<close>

text \<open>The first arc of a list with the largest weight.\<close>

definition best_arc :: "(arc \<Rightarrow> (trace_lib, rat) prog) \<Rightarrow> arc list \<Rightarrow> (trace_lib, arc option) prog" where
  "best_arc weight arcs =
     for_each (\<lambda>lnk best.
       case best of None \<Rightarrow> ret (Some lnk)
       | Some b \<Rightarrow> bnd (weight lnk) (\<lambda>w. bnd (weight b) (\<lambda>v. ret (if w > v then Some lnk else Some b)))) arcs None"

definition best_successor_1 :: "nat \<Rightarrow> (trace_lib, arc option) prog" where
  "best_successor_1 src =
     bnd (node_get src) (\<lambda>n.
     bnd (best_arc (\<lambda>lnk. successor_node_weight src (destinationNode lnk)) (destinationArcs n)) (\<lambda>best.
     case best of None \<Rightarrow> ret None
     | Some lnk \<Rightarrow>
         bnd (node_get (destinationNode lnk)) (\<lambda>dest.
         if flag VISITED dest then ret None
         else if nodeWeight dest = 0 then ret None
         else ret (Some lnk))))"

definition best_predecessor_1 :: "nat \<Rightarrow> (trace_lib, arc option) prog" where
  "best_predecessor_1 dest =
     bnd (node_get dest) (\<lambda>n.
     bnd (best_arc (\<lambda>lnk. predecessor_node_weight (sourceNode lnk) dest) (sourceArcs n)) (\<lambda>best.
     case best of None \<Rightarrow> ret None
     | Some lnk \<Rightarrow>
         bnd (node_get (sourceNode lnk)) (\<lambda>src.
         if flag VISITED src then ret None
         else if nodeWeight src = 0 then ret None
         else ret (Some lnk))))"

definition best_successor_2 :: "nat \<Rightarrow> (trace_lib, arc option) prog" where
  "best_successor_2 src =
     bnd (node_get src) (\<lambda>n.
     bnd (best_arc successor_arc_weight (destinationArcs n)) (\<lambda>best.
     case best of None \<Rightarrow> ret None
     | Some lnk \<Rightarrow>
         if arcWeight lnk = 0 then ret None
         else
           bnd (node_get (destinationNode lnk)) (\<lambda>dest.
           if flag VISITED dest then ret None else ret (Some lnk))))"

definition best_predecessor_2 :: "nat \<Rightarrow> (trace_lib, arc option) prog" where
  "best_predecessor_2 dest =
     bnd (node_get dest) (\<lambda>n.
     bnd (best_arc predecessor_arc_weight (sourceArcs n)) (\<lambda>best.
     case best of None \<Rightarrow> ret None
     | Some lnk \<Rightarrow>
         if arcWeight lnk = 0 then ret None
         else
           bnd (node_get (sourceNode lnk)) (\<lambda>src.
           if flag VISITED src then ret None else ret (Some lnk))))"

text \<open>
  \<open>w / v < p\<close> for a weight that is not 0. The division by 0 gives an infinity with the sign of the
  weight.
\<close>

definition improbable :: "rat \<Rightarrow> rat \<Rightarrow> rat \<Rightarrow> bool" where
  "improbable w v p = (if v = 0 then w < 0 else w / v < p)"

definition probable :: "arc \<Rightarrow> (trace_lib, arc option) prog" where
  "probable a =
     bnd (node_get (sourceNode a)) (\<lambda>src.
     bnd (node_get (destinationNode a)) (\<lambda>dest.
     bnd (gets min_prob_requirement) (\<lambda>limit.
     if improbable (arcWeight a) (nodeWeight src) limit then ret None
     else if improbable (arcWeight a) (nodeWeight dest) limit then ret None
     else ret (Some a))))"

definition best_successor_3 :: "nat \<Rightarrow> (trace_lib, arc option) prog" where
  "best_successor_3 src =
     bnd (node_get src) (\<lambda>n.
     bnd (best_arc successor_arc_weight (destinationArcs n)) (\<lambda>best.
     case best of None \<Rightarrow> ret None
     | Some lnk \<Rightarrow>
         if arcWeight lnk = 0 then ret None
         else
           bnd (node_get (destinationNode lnk)) (\<lambda>dest.
           if flag VISITED dest then ret None else probable lnk)))"

definition best_predecessor_3 :: "nat \<Rightarrow> (trace_lib, arc option) prog" where
  "best_predecessor_3 dest =
     bnd (node_get dest) (\<lambda>n.
     bnd (best_arc predecessor_arc_weight (sourceArcs n)) (\<lambda>best.
     case best of None \<Rightarrow> ret None
     | Some lnk \<Rightarrow>
         if arcWeight lnk = 0 then ret None
         else
           bnd (node_get (sourceNode lnk)) (\<lambda>src.
           if flag VISITED src then ret None else probable lnk)))"

definition best_successor :: "nat \<Rightarrow> (trace_lib, arc option) prog" where
  "best_successor a =
     bnd (gets best_successor_of) (\<lambda>f.
     case f of By_Node_Weight \<Rightarrow> best_successor_1 a | By_Arc_Weight \<Rightarrow> best_successor_2 a | By_Min_Prob \<Rightarrow> best_successor_3 a)"

definition best_predecessor :: "nat \<Rightarrow> (trace_lib, arc option) prog" where
  "best_predecessor a =
     bnd (gets best_predecessor_of) (\<lambda>f.
     case f of By_Node_Weight \<Rightarrow> best_predecessor_1 a | By_Arc_Weight \<Rightarrow> best_predecessor_2 a | By_Min_Prob \<Rightarrow> best_predecessor_3 a)"

end
