(* ===== verification/Trace_Dominators.thy ===== *)
theory Trace_Dominators
  imports Trace Flow_Paths
begin

text \<open>
  The dominators and levels of trace selection, \<open>AddExtensionFields\<close> of \<open>src/src/library/libflow/trace.c\<close>. The array \<open>others\<close> holds one set
  per node. The invariant \<open>ext_ok\<close> of the library says that these sets are live and are no descriptors of one another, so that the next
  selection can dispose of them. The iteration is that of \<open>Fixpoint\<close>, its result is stated over the paths of
  \<open>Flow_Paths\<close>.
\<close>

section \<open>The sets of the array\<close>

definition doms :: "trace_lib \<Rightarrow> nat \<Rightarrow> Set" where
  "doms g i = (if i < n_others g then dominator (others g i) else None)"

definition ext_ok :: "trace_lib \<Rightarrow> bool" where
  "ext_ok g = (holds g (doms g) \<and> n_others g \<le> MAX_GRAPH_SIZE)"

text \<open>What the preparation of a selection leaves alone, besides the graph.\<close>

definition params :: "trace_lib \<Rightarrow> nat \<times> nat list \<times> int \<times> nat list \<times> selector \<times> selector \<times> rat" where
  "params g = (node_top g, d_node_list g, node_count g, nd_buf g, best_successor_of g, best_predecessor_of g, min_prob_requirement g)"

lemma more_trace:
  fixes g g' :: trace_lib
  assumes "set_lib.more g' = set_lib.more g"
  shows "params g' = params g" "node_mem g' = node_mem g" "others g' = others g" "n_others g' = n_others g" "doms g' = doms g"
proof -
  show o: "others g' = others g" "n_others g' = n_others g" "params g' = params g" "node_mem g' = node_mem g"
    using assms by (cases g; cases g'; simp add: params_def)+
  show "doms g' = doms g" by (simp add: o doms_def fun_eq_iff)
qed

lemma grows_trace:
  fixes g g' :: trace_lib
  assumes "grows g g'"
  shows "params g' = params g" "node_mem g' = node_mem g" "others g' = others g" "n_others g' = n_others g" "doms g' = doms g"
  by (rule more_trace, use assms in \<open>simp add: grows_def\<close>)+

lemma freed_trace:
  fixes g g' :: trace_lib
  assumes "freed g x g'"
  shows "params g' = params g" "node_mem g' = node_mem g" "others g' = others g" "n_others g' = n_others g" "doms g' = doms g"
  by (rule more_trace [OF freed_more [OF assms]])+

lemma upd_trace [simp]:
  "params (g\<lparr>others := X\<rparr>) = params g" "params (g\<lparr>n_others := n\<rparr>) = params g" "params (g\<lparr>node_mem := m\<rparr>) = params g"
  "doms (g\<lparr>node_mem := m\<rparr>) = doms g"
  by (simp_all add: params_def doms_def fun_eq_iff)

lemma doms_put: "doms (g\<lparr>others := (others g)(i := f (others g i))\<rparr>) =
    (if i < n_others g then (doms g)(i := dominator (f (others g i))) else doms g)"
  by (auto simp: doms_def fun_eq_iff)

lemma holds_upd [simp]:
  "holds (g\<lparr>others := X\<rparr> :: trace_lib) h = holds g h" "holds (g\<lparr>n_others := n\<rparr> :: trace_lib) h = holds g h"
  "holds (g\<lparr>node_mem := m\<rparr> :: trace_lib) h = holds g h"
  by (rule holds_same; simp)+

lemma unheld_upd [simp]:
  "unheld (g\<lparr>others := X\<rparr> :: trace_lib) h x = unheld g h x" "unheld (g\<lparr>n_others := n\<rparr> :: trace_lib) h x = unheld g h x"
  "unheld (g\<lparr>node_mem := m\<rparr> :: trace_lib) h x = unheld g h x"
  by (rule unheld_same; simp)+

lemma wf_lib_upd [simp]:
  "wf_lib (g\<lparr>others := X\<rparr> :: trace_lib) = wf_lib g" "wf_lib (g\<lparr>n_others := n\<rparr> :: trace_lib) = wf_lib g"
  "wf_lib (g\<lparr>node_mem := m\<rparr> :: trace_lib) = wf_lib g"
  by (simp_all add: wf_lib_def)

lemma live_upd [simp]:
  "live (g\<lparr>others := X\<rparr> :: trace_lib) x = live g x" "live (g\<lparr>n_others := n\<rparr> :: trace_lib) x = live g x"
  "live (g\<lparr>node_mem := m\<rparr> :: trace_lib) x = live g x"
  by (rule live_same; simp)+

text \<open>A new dominator set stored, the old one disposed of.\<close>

lemma replace_dom_wp:
  assumes "holds g (doms g)" "unheld g (doms g) x" "i < n_others g"
    and put: "\<And>g1. node_mem g1 = node_mem g \<Longrightarrow> put g1 = put_others i (\<lambda>e. e\<lparr>dominator := x\<rparr>) g1"
    and "\<And>g'. holds g' (doms g') \<Longrightarrow> doms g' = (doms g)(i := x) \<Longrightarrow> params g' = params g \<Longrightarrow> node_mem g' = node_mem g \<Longrightarrow>
      n_others g' = n_others g \<Longrightarrow> others g' = (others g)(i := (others g i)\<lparr>dominator := x\<rparr>) \<Longrightarrow>
      (\<And>y. unheld g (doms g) y \<Longrightarrow> apart y x \<Longrightarrow> unheld g' (doms g') y) \<Longrightarrow> Q () g'"
  shows "wp (bnd (Set_dispose (dominator (others g i))) (\<lambda>_. put)) Q g"
  unfolding wp_bnd
proof (rule Set_dispose_wp)
  show "wf_lib g" "live g (dominator (others g i))"
    using assms(1,3) holds_live [OF assms(1), of i] by (auto simp: doms_def intro: holds_wf)
  fix g1 assume "freed g (dominator (others g i)) g1"
  then have fr: "freed g (doms g i) g1" using assms(3) by (simp add: doms_def)
  note f = freed_trace [OF fr]
  let ?g = "g1\<lparr>others := (others g1)(i := (others g1 i)\<lparr>dominator := x\<rparr>)\<rparr>"
  have d: "doms ?g = (doms g)(i := x)" using assms(3) by (auto simp: doms_def fun_eq_iff f)
  have u: "unheld ?g (doms ?g) y" if "unheld g (doms g) y" "apart y x" for y
    using unheld_put [OF unheld_freed [OF that(1) _ fr] that(2)] that(1) by (simp add: d unheld_def)
  have "Q () ?g"
    by (rule assms(5)) (use holds_replace [OF assms(1,2) fr] d u f in \<open>simp_all\<close>)
  then have "wp (put_others i (\<lambda>e. e\<lparr>dominator := x\<rparr>)) Q g1" by (simp add: put_others_def)
  then show "wp put Q g1" unfolding wp_def put [OF f(2)] .
qed

lemma FreeExtensionFields_wp:
  assumes "ext_ok g"
  shows "wp FreeExtensionFields (\<lambda>_ g'. wf_lib g' \<and> n_others g' = 0 \<and> params g' = params g \<and> node_mem g' = node_mem g) g"
proof -
  let ?n = "n_others g"
  let ?I = "\<lambda>k (_ :: unit) h. holds h (doms h) \<and> n_others h = ?n \<and> params h = params g \<and> node_mem h = node_mem g"
  have "wp (for_each (\<lambda>i _. bnd (gets (\<lambda>g. dominator (others g i))) (\<lambda>d. bnd (Set_dispose d) (\<lambda>_.
      put_others i (\<lambda>e. e\<lparr>dominator := None\<rparr>)))) [0..<?n] ()) (?I ?n) g"
  proof (rule wp_for_upto [where I = ?I])
    fix k u h assume k: "k < ?n" and I: "?I k u h"
    then have "wp (bnd (Set_dispose (dominator (others h k))) (\<lambda>_. put_others k (\<lambda>e. e\<lparr>dominator := None\<rparr>))) (?I (Suc k)) h"
      by (intro replace_dom_wp) auto
    then show "wp (bnd (gets (\<lambda>g. dominator (others g k))) (\<lambda>d. bnd (Set_dispose d) (\<lambda>_.
        put_others k (\<lambda>e. e\<lparr>dominator := None\<rparr>)))) (?I (Suc k)) h" by simp
  qed (use assms in \<open>auto simp: ext_ok_def\<close>)
  then show ?thesis
    unfolding FreeExtensionFields_def wp_bnd wp_gets wp_modify
    by (rule wp_mono) (auto intro: holds_wf)
qed

section \<open>Numbering the nodes\<close>

definition pos :: "nat list \<Rightarrow> nat \<Rightarrow> nat" where
  "pos ns a = length (takeWhile (\<lambda>b. b \<noteq> a) ns)"

lemma pos_less: "a \<in> set ns \<Longrightarrow> pos ns a < length ns"
  by (induction ns) (auto simp: pos_def)

lemma nth_pos: "a \<in> set ns \<Longrightarrow> ns ! pos ns a = a"
  using nth_length_takeWhile [of "\<lambda>b. b \<noteq> a" ns] pos_less [of a ns] by (simp add: pos_def)

lemma pos_nth: "distinct ns \<Longrightarrow> k < length ns \<Longrightarrow> pos ns (ns ! k) = k"
  using nth_pos [of "ns ! k" ns] pos_less [of "ns ! k" ns] by (simp add: nth_eq_iff_index_eq)

lemma pos_append: "a \<in> set ns \<Longrightarrow> pos (ns @ ms) a = pos ns a"
  unfolding pos_def by (subst takeWhile_append1) auto

lemma pos_last: "a \<notin> set ns \<Longrightarrow> pos (ns @ [a]) a = length ns"
  unfolding pos_def by (subst takeWhile_append2) auto

lemma pos_inj: "inj_on (pos ns) (set ns)"
  by (rule inj_on_inverseI [of _ "\<lambda>i. ns ! i"]) (rule nth_pos)

definition numbered :: "nat list \<Rightarrow> (nat \<Rightarrow> gnode) \<Rightarrow> nat \<Rightarrow> gnode" where
  "numbered ns m a = (if a \<in> set ns then (m a)\<lparr>nodeExt := Some (pos ns a)\<rparr> else m a)"

lemma numbered_fields [simp]:
  "sourceArcs (numbered ns m a) = sourceArcs (m a)" "destinationArcs (numbered ns m a) = destinationArcs (m a)"
  by (simp_all add: numbered_def)

lemma numbered_snoc:
  "a \<notin> set ns \<Longrightarrow> (numbered ns m)(a := (numbered ns m a)\<lparr>nodeExt := Some (length ns)\<rparr>) = numbered (ns @ [a]) m"
  by (auto simp: numbered_def fun_eq_iff pos_append pos_last)

definition numbering :: "trace_lib \<Rightarrow> nat list \<Rightarrow> Set \<Rightarrow> trace_lib \<Rightarrow> bool" where
  "numbering g ns all h = (wf_lib h \<and> n_others h = length ns \<and> node_mem h = numbered ns (node_mem g) \<and> params h = params g \<and>
     (\<forall>i<length ns. others h i = \<lparr>dominator = None, level = - 1, order = int i\<rparr>) \<and> live h all \<and> elems all = int ` {..<length ns})"

lemma number_nodes_wp:
  assumes "wf_lib g" "n_others g = 0" "distinct ns" "length ns \<le> MAX_GRAPH_SIZE"
  shows "wp (number_nodes ns) (\<lambda>all h. numbering g ns all h) g"
  unfolding number_nodes_def
proof (rule wp_for_each [where I = "\<lambda>k. numbering g (take k ns)"])
  show "numbering g (take 0 ns) None g" using assms(1,2) by (simp add: numbering_def numbered_def fun_eq_iff)
  fix k all h assume k: "k < length ns" and I: "numbering g (take k ns) all h"
  let ?a = "ns ! k"
  have len: "length (take k ns) = k" and tk: "take (Suc k) ns = take k ns @ [?a]" using k by (simp_all add: take_Suc_conv_app_nth)
  have new: "?a \<notin> set (take k ns)" using distinct_take [OF assms(3), of "Suc k"] by (simp add: tk)
  have small: "k < MAX_GRAPH_SIZE" using k assms(4) by simp
  have n: "n_others h = k" using I k by (simp add: numbering_def)
  let ?h = "h\<lparr>node_mem := (node_mem h)(?a := (node_mem h ?a)\<lparr>nodeExt := Some k\<rparr>),
      others := (others h)(k := \<lparr>dominator = None, level = - 1, order = int k\<rparr>)\<rparr>"
  have "wp (Set_add all (int k)) (\<lambda>all' h'. grows ?h h' \<and> live h' all' \<and> elems all' = insert (int k) (elems all) \<and>
      (\<forall>z. live ?h z \<longrightarrow> apart z all \<longrightarrow> apart z all')) ?h"
    by (rule add_live) (use I in \<open>auto simp: numbering_def INT_MIN_def\<close>)
  then have "wp (Set_add all (int k)) (\<lambda>all' h'. numbering g (take (Suc k) ns) all' (h'\<lparr>n_others := k + 1\<rparr>)) ?h"
  proof (rule wp_mono, elim conjE)
    fix all' h' assume r: "grows ?h h'" "live h' all'" "elems all' = insert (int k) (elems all)"
    note f = grows_trace [OF r(1)]
    have "int ` {..<Suc k} = insert (int k) (int ` {..<k})" by (auto simp: less_Suc_eq)
    moreover have "node_mem h' = numbered (take k ns @ [?a]) (node_mem g)"
      using numbered_snoc [OF new, of "node_mem g"] I len f by (simp add: numbering_def)
    ultimately show "numbering g (take (Suc k) ns) all' (h'\<lparr>n_others := k + 1\<rparr>)"
      using I r f k n grows_wf [OF r(1)] unfolding numbering_def tk by (auto simp: less_Suc_eq min_def)
  qed
  then show "wp (bnd (gets n_others) (\<lambda>n. bnd (node_put ?a (\<lambda>nd. nd\<lparr>nodeExt := Some n\<rparr>)) (\<lambda>_.
       if n \<ge> MAX_GRAPH_SIZE then fail Out_Of_Bounds
       else bnd (put_others n (\<lambda>_. \<lparr>dominator = None, level = - 1, order = int n\<rparr>)) (\<lambda>_.
         bnd (Set_add all (int n)) (\<lambda>all. bnd (modify (\<lambda>g. g\<lparr>n_others := n + 1\<rparr>)) (\<lambda>_. ret all)))))) (numbering g (take (Suc k) ns)) h"
    using small n by (simp add: node_put_def put_others_def)
qed simp

text \<open>The loop writes behind the end of the array when there are more nodes than it has entries.\<close>

lemma number_nodes_overflow:
  assumes "wf_lib g" "n_others g = 0" "distinct ns" "length ns > MAX_GRAPH_SIZE"
  shows "number_nodes ns g = Inl Out_Of_Bounds"
proof -
  let ?xs = "take MAX_GRAPH_SIZE ns"
  obtain a ys where ns: "ns = ?xs @ a # ys" using assms(4) id_take_nth_drop by blast
  have len: "length ?xs = MAX_GRAPH_SIZE" using assms(4) by simp
  have "wp (number_nodes ?xs) (\<lambda>all h. numbering g ?xs all h) g" using assms(1-3) len by (intro number_nodes_wp) auto
  then obtain all h where "number_nodes ?xs g = Inr (all, h)" "n_others h = MAX_GRAPH_SIZE"
    using len by (auto simp: wp_run numbering_def)
  then show ?thesis
    by (subst ns, unfold number_nodes_def for_each_append)
      (simp add: number_nodes_def bnd_def gets_def node_put_def modify_def fail_def)
qed

section \<open>The first sets\<close>

text \<open>The extension fields are in place: entry \<open>i\<close> of the array belongs to the node \<open>ns ! i\<close>.\<close>

definition fielded :: "nat list \<Rightarrow> (nat \<Rightarrow> gnode) \<Rightarrow> bool" where
  "fielded ns m = (\<forall>a\<in>set ns. nodeExt (m a) = Some (pos ns a))"

definition extended :: "nat list \<Rightarrow> (nat \<Rightarrow> gnode) \<Rightarrow> trace_lib \<Rightarrow> bool" where
  "extended ns m g = (holds g (doms g) \<and> n_others g = length ns \<and> node_mem g = m \<and> fielded ns m \<and>
     (\<forall>i<length ns. order (others g i) = int i))"

lemma extendedD:
  assumes "extended ns m g"
  shows "holds g (doms g)" "wf_lib g" "n_others g = length ns" "node_mem g = m" "fielded ns m"
    "i < length ns \<Longrightarrow> order (others g i) = int i" "i < length ns \<Longrightarrow> dominator (others g i) = doms g i"
  using assms by (auto simp: extended_def doms_def intro: holds_wf)

lemma wp_get_ext:
  assumes "fielded ns (node_mem g)" "a \<in> set ns"
  shows "wp (get_ext a) Q g = Q (others g (pos ns a)) g"
  using assms by (simp add: get_ext_def node_get_def fielded_def)

lemma wp_put_ext:
  assumes "fielded ns (node_mem g)" "a \<in> set ns"
  shows "wp (put_ext a f) Q g = Q () (g\<lparr>others := (others g)(pos ns a := f (others g (pos ns a)))\<rparr>)"
  using assms by (simp add: put_ext_def node_get_def fielded_def put_others_def)

lemma put_ext_others: "fielded ns (node_mem g) \<Longrightarrow> a \<in> set ns \<Longrightarrow> put_ext a f g = put_others (pos ns a) f g"
  by (simp add: put_ext_def node_get_def fielded_def bnd_def gets_def)

lemma extended_grows: "extended ns m g \<Longrightarrow> grows g g' \<Longrightarrow> extended ns m g'"
  using grows_trace [of g g'] by (auto simp: extended_def intro: holds_grows)

lemma store_dom:
  assumes "extended ns m g" "live g x" "\<And>k. k \<noteq> i \<Longrightarrow> apart x (doms g k)" "i < length ns"
  defines "h \<equiv> g\<lparr>others := (others g)(i := (others g i)\<lparr>dominator := x\<rparr>)\<rparr>"
  shows "extended ns m h" "doms h = (doms g)(i := x)" "level (others h j) = level (others g j)" "params h = params g"
    "unheld g (doms g) y \<Longrightarrow> apart y x \<Longrightarrow> unheld h (doms h) y"
proof -
  note e = extendedD [OF assms(1)]
  show d: "doms h = (doms g)(i := x)" using assms(4) e(3) by (auto simp: h_def doms_def fun_eq_iff)
  have "holds g ((doms g)(i := x))" by (rule holds_put [OF e(1) assms(2,3)])
  then show "extended ns m h" using assms(1) by (simp add: extended_def d) (simp add: h_def)
  show "unheld h (doms h) y" if "unheld g (doms g) y" "apart y x"
    using unheld_put [OF that] by (simp add: d) (simp add: h_def)
qed (simp_all add: h_def)

definition all_orders :: "nat list \<Rightarrow> int set" where
  "all_orders ns = int ` {..<length ns}"

definition prepared :: "nat list \<Rightarrow> nat \<Rightarrow> (nat \<Rightarrow> gnode) \<Rightarrow> Set \<Rightarrow> nat \<Rightarrow> trace_lib \<Rightarrow> bool" where
  "prepared ns r m all k g = (extended ns m g \<and> unheld g (doms g) all \<and>
     (\<forall>i<length ns. level (others g i) = (if i = pos ns r then 0 else - 1)) \<and> elems (doms g (pos ns r)) = {int (pos ns r)} \<and>
     (\<forall>i<length ns. i \<noteq> pos ns r \<longrightarrow> (if i < k then elems (doms g i) = all_orders ns else doms g i = None)))"

lemma init_dominators_wp:
  assumes n: "numbering g0 ns all g" and ns: "distinct ns" "r \<in> set ns"
  shows "wp (init_dominators r all ns) (\<lambda>_ h. prepared ns r (numbered ns (node_mem g0)) all (length ns) h \<and> params h = params g0) g"
proof -
  let ?m = "numbered ns (node_mem g0)" and ?i = "pos ns r" and ?U = "all_orders ns"
  let ?I = "\<lambda>k (_ :: unit) h. prepared ns r ?m all k h \<and> params h = params g0"
  have i: "?i < length ns" by (rule pos_less [OF ns(2)])
  have g: "wf_lib g" "n_others g = length ns" "node_mem g = ?m" "params g = params g0" "live g all" "elems all = ?U"
    "\<And>i. i < length ns \<Longrightarrow> others g i = \<lparr>dominator = None, level = - 1, order = int i\<rparr>"
    using n by (auto simp: numbering_def all_orders_def)
  have fl: "fielded ns ?m" by (simp add: fielded_def numbered_def)
  have empty: "doms g = (\<lambda>_. None)" using g by (auto simp: doms_def fun_eq_iff)
  let ?g1 = "g\<lparr>others := (others g)(?i := (others g ?i)\<lparr>level := 0\<rparr>)\<rparr>"
  have e1: "extended ns ?m ?g1" and d1: "doms ?g1 = (\<lambda>_. None)"
    using g fl empty by (auto simp: extended_def holds_def doms_def fun_eq_iff)
  have start: "wp (bnd (Set_add None (int ?i)) (\<lambda>dom. put_ext r (\<lambda>e. e\<lparr>dominator := dom\<rparr>))) (?I 0) ?g1"
    unfolding wp_bnd
  proof (rule wp_mono [OF add_made [OF lib.made_nil]])
    fix dom h assume "lib.made ?g1 {int ?i} dom h"
    note u = made_unheld [OF extendedD(1) [OF e1] this]
    note f = grows_trace [OF u(4)] and e = extended_grows [OF e1 u(4)]
    have dh: "doms h = (\<lambda>_. None)" using f(5) d1 by simp
    have lev: "level (others h j) = (if j = ?i then 0 else - 1)" if "j < length ns" for j using f(3) g(7) that by simp
    have ap: "apart dom (doms h k)" for k by (simp add: dh)
    note s = store_dom [OF e unheld_live [OF u(1)] ap i]
    have "unheld h (doms h) all" using live_grows [OF _ u(4), of all] g(5) by (simp add: unheld_def dh)
    moreover have "apart all dom" using u(5) [of all] g(5) by (auto intro: apart_sym)
    ultimately have "prepared ns r ?m all 0 (h\<lparr>others := (others h)(?i := (others h ?i)\<lparr>dominator := dom\<rparr>)\<rparr>)"
      unfolding prepared_def using s u(3) i lev by (simp add: dh)
    then show "wp (put_ext r (\<lambda>e. e\<lparr>dominator := dom\<rparr>)) (?I 0) h"
      using wp_put_ext [of ns h r] fl ns(2) f g(3,4) by simp
  qed (use g in \<open>auto simp: INT_MIN_def\<close>)
  have loop: "wp (for_each (\<lambda>ptr _. if ptr = r then ret () else bnd (Set_union None all) (\<lambda>dom. put_ext ptr (\<lambda>e. e\<lparr>dominator := dom\<rparr>))) ns ())
      (?I (length ns)) h" if "?I 0 () h" for h
  proof (rule wp_for_each [where I = ?I])
    fix k u h assume k: "k < length ns" and I: "?I k u h"
    let ?a = "ns ! k"
    have pk: "pos ns ?a = k" by (rule pos_nth [OF ns(1) k])
    have P: "prepared ns r ?m all k h" and pr: "params h = params g0" using I by auto
    then have e: "extended ns ?m h" and un: "unheld h (doms h) all" by (auto simp: prepared_def)
    show "wp (if ?a = r then ret () else bnd (Set_union None all) (\<lambda>dom. put_ext ?a (\<lambda>e. e\<lparr>dominator := dom\<rparr>))) (?I (Suc k)) h"
    proof (cases "?a = r")
      case True
      with I pk show ?thesis by (auto simp: prepared_def less_Suc_eq)
    next
      case False
      then have ki: "k \<noteq> ?i" using nth_pos [OF ns(2)] by auto
      have "wp (bnd (Set_union None all) (\<lambda>dom. put_ext ?a (\<lambda>e. e\<lparr>dominator := dom\<rparr>))) (?I (Suc k)) h"
        unfolding wp_bnd
      proof (rule wp_mono [OF lib.union_made])
        fix dom h1 assume "lib.made h (elems None \<union> elems all) dom h1"
        note u = made_unheld [OF extendedD(1) [OF e] this]
        note f = grows_trace [OF u(4)] and e1 = extended_grows [OF e u(4)]
        have ap: "apart dom (doms h1 j)" for j using u(1) f by (simp add: unheld_def)
        note s = store_dom [OF e1 unheld_live [OF u(1)] ap k]
        have "unheld h1 (doms h1) all" using unheld_grows [OF un u(4)] f by simp
        moreover have "apart all dom" using u(5) [OF unheld_live [OF un]] by (rule apart_sym)
        ultimately have "prepared ns r ?m all (Suc k) (h1\<lparr>others := (others h1)(k := (others h1 k)\<lparr>dominator := dom\<rparr>)\<rparr>)"
          using P s u(3) g(6) ki by (auto simp: prepared_def f less_Suc_eq)
        then show "wp (put_ext ?a (\<lambda>e. e\<lparr>dominator := dom\<rparr>)) (?I (Suc k)) h1"
          using wp_put_ext [of ns h1 ?a] fl k f pr extendedD(4) [OF e] pk by simp
      qed (use e un extendedD(2) unheld_live in auto)
      with False show ?thesis by simp
    qed
  qed (use that in auto)
  have eo: "order (others ?g1 ?i) = int ?i" using g(7) [OF i] by simp
  have "wp (bnd (bnd (Set_add None (int ?i)) (\<lambda>dom. put_ext r (\<lambda>e. e\<lparr>dominator := dom\<rparr>))) (\<lambda>_.
      for_each (\<lambda>ptr _. if ptr = r then ret () else bnd (Set_union None all) (\<lambda>dom. put_ext ptr (\<lambda>e. e\<lparr>dominator := dom\<rparr>))) ns ()))
      (?I (length ns)) ?g1"
    by (rule wp_seq [OF start]) (rule loop, simp)
  then have "wp (init_dominators r all ns) (?I (length ns)) g"
    using wp_put_ext [of ns g r] wp_get_ext [of ns ?g1 r] fl ns(2) g(3) eo by (simp add: init_dominators_def bnd_assoc)
  then show ?thesis by simp
qed

section \<open>The iteration\<close>

text \<open>The new set of a node: the entry and the nodes without sources keep theirs.\<close>

definition trace_dom_eq :: "nat list \<Rightarrow> nat \<Rightarrow> (nat \<Rightarrow> gnode) \<Rightarrow> nat \<Rightarrow> (nat \<Rightarrow> int set) \<Rightarrow> int set" where
  "trace_dom_eq ns r m a D = (if a = r then {int (pos ns r)} else if sourceArcs (m a) = [] then all_orders ns
     else insert (int (pos ns a)) (all_orders ns \<inter> meet_at (pos ns) (preds m a) D))"

definition dom_bad :: "nat \<Rightarrow> nat \<Rightarrow> int set" where
  "dom_bad r a = (if a = r then UNIV else {})"

lemma all_orders_range: "length ns \<le> MAX_GRAPH_SIZE \<Longrightarrow> all_orders ns \<subseteq> {0..<16384}"
  by (auto simp: all_orders_def MAX_GRAPH_SIZE_def)

lemma pos_order: "a \<in> set ns \<Longrightarrow> int (pos ns a) \<in> all_orders ns"
  by (simp add: all_orders_def pos_less)

lemma trace_dom_eq_meets:
  assumes "\<And>a. a \<in> set ns \<Longrightarrow> preds m a \<subseteq> set ns"
  shows "meets ns (pos ns) (all_orders ns) (preds m) (\<lambda>a. {int (pos ns a)}) (dom_bad r) (trace_dom_eq ns r m)"
  unfolding meets_def
proof (intro ballI allI impI)
  fix a D assume a: "a \<in> set ns"
  have "(\<forall>b\<in>preds m a. d \<in> (if b \<in> set ns then D (pos ns b) else {int (pos ns b)})) \<longleftrightarrow> d \<in> meet_at (pos ns) (preds m a) D" for d
    using assms [OF a] by (auto simp: meet_at_def subset_iff)
  moreover have "preds m a = {}" if "sourceArcs (m a) = []" using that by (simp add: preds_def)
  ultimately show "trace_dom_eq ns r m a D = {d \<in> all_orders ns. d \<in> {int (pos ns a)} \<or> d \<notin> dom_bad r a \<and>
      (\<forall>b\<in>preds m a. d \<in> (if b \<in> set ns then D (pos ns b) else {int (pos ns b)}))}"
    using pos_order [OF a] by (auto simp: trace_dom_eq_def dom_bad_def meet_at_def)
qed

lemma trace_dom_eq_mono:
  assumes "\<And>a. a \<in> set ns \<Longrightarrow> preds m a \<subseteq> set ns"
  shows "downward.mono_on ns (pos ns) (trace_dom_eq ns r m)"
  unfolding downward.mono_on_def
proof (intro ballI allI impI)
  fix a D D' assume a: "a \<in> set ns" and le: "\<forall>b\<in>set ns. D' (pos ns b) \<subseteq> (D (pos ns b) :: int set)"
  have "meet_at (pos ns) (preds m a) D' \<subseteq> meet_at (pos ns) (preds m a) D"
    using assms [OF a] le unfolding meet_at_def by blast
  then show "trace_dom_eq ns r m a D' \<subseteq> trace_dom_eq ns r m a D" by (auto simp: trace_dom_eq_def)
qed

lemma trace_dom_eq_closed: "length ns \<le> MAX_GRAPH_SIZE \<Longrightarrow> r \<in> set ns \<Longrightarrow> downward.closed_on ns (pos ns) (trace_dom_eq ns r m)"
  using all_orders_range [of ns] pos_order [of _ ns] by (fastforce simp: downward.closed_on_def trace_dom_eq_def split: if_splits)

definition dom_table :: "trace_lib \<Rightarrow> nat \<Rightarrow> int set" where
  "dom_table g i = elems (doms g i)"

definition iterating :: "nat list \<Rightarrow> nat \<Rightarrow> (nat \<Rightarrow> gnode) \<Rightarrow> Set \<Rightarrow> trace_lib \<Rightarrow> trace_lib \<Rightarrow> bool" where
  "iterating ns r m all g0 g = (extended ns m g \<and> unheld g (doms g) all \<and> params g = params g0 \<and>
     (\<forall>i<length ns. level (others g i) = level (others g0 i)) \<and>
     (\<forall>a\<in>set ns. a = r \<or> sourceArcs (m a) = [] \<longrightarrow> dom_table g (pos ns a) = trace_dom_eq ns r m a undefined))"

lemma meet_sources_wp:
  assumes e: "extended ns m g" and src: "sourceNode ` set arcs \<subseteq> set ns" and init: "lib.made g X x g1"
  shows "wp (meet_sources arcs x) (lib.made g (X \<inter> meet_at (pos ns) (sourceNode ` set arcs) (dom_table g))) g1"
proof -
  let ?val = "\<lambda>arc. doms g (pos ns (sourceNode arc))"
  have rd: "wp (bnd (get_ext (sourceNode arc)) (\<lambda>e. ret (dominator e))) (\<lambda>h g'. h = ?val arc \<and> g' = g2) g2"
    if "arc \<in> set arcs" "grows g g2" for arc g2
  proof -
    have "sourceNode arc \<in> set ns" using src that(1) by auto
    then show ?thesis
      using wp_get_ext [of ns g2 "sourceNode arc"] extendedD(3-7) [OF e] grows_trace [OF that(2)] pos_less [of "sourceNode arc" ns] by simp
  qed
  have "wp (meet_sources arcs x) (lib.made g (X \<inter> (\<Inter>arc\<in>set arcs. elems (?val arc)))) g1"
    using lib.intersect_loop [where val = ?val, OF rd holds_live [OF extendedD(1) [OF e]] init]
    by (simp add: meet_sources_def bnd_assoc)
  then show ?thesis by (simp add: meet_at_def dom_table_def image_image)
qed

lemma dominator_node_recomputes:
  assumes ns: "distinct ns" and pr: "\<And>a. a \<in> set ns \<Longrightarrow> preds m a \<subseteq> set ns" and all: "elems all = all_orders ns"
  shows "recomputes (iterating ns r m all g0) dom_table dom_table ns (pos ns) (trace_dom_eq ns r m) (trace_dom_eq ns r m) (dominator_node r all)"
  unfolding recomputes_def
proof (intro ballI allI impI)
  fix a and c :: int and g assume a: "a \<in> set ns" and I: "iterating ns r m all g0 g"
  let ?i = "pos ns a" and ?X = "trace_dom_eq ns r m a (dom_table g)"
  let ?Q = "\<lambda>c' g'. iterating ns r m all g0 g' \<and> dom_table g' = (dom_table g)(?i := ?X) \<and> dom_table g' = (dom_table g)(?i := ?X) \<and>
       c' = (if dom_table g ?i = ?X then c else c + 1)"
  have e: "extended ns m g" and un: "unheld g (doms g) all" using I by (auto simp: iterating_def)
  note d = extendedD [OF e] and i = pos_less [OF a]
  show "wp (dominator_node r all a c) ?Q g"
  proof (cases "a = r \<or> sourceArcs (m a) = []")
    case True
    then have "dom_table g ?i = ?X" using I a by (auto simp: iterating_def trace_dom_eq_def)
    then show ?thesis using I True d(4) by (auto simp: dominator_node_def node_get_def fun_eq_iff)
  next
    case False
    let ?arcs = "sourceArcs (m a)"
    have sub: "sourceNode ` set ?arcs \<subseteq> set ns" using pr [OF a] by (simp add: preds_def)
    have X: "?X = insert (int ?i) (elems all \<inter> meet_at (pos ns) (sourceNode ` set ?arcs) (dom_table g))"
      using False by (simp add: trace_dom_eq_def preds_def all)
    have rest: "wp (bnd (get_ext a) (\<lambda>e. bnd (Set_add dom (order e)) (\<lambda>dom. bnd (Set_same dom (dominator e)) (\<lambda>same.
          if same then bnd (Set_dispose dom) (\<lambda>_. ret c)
          else bnd (Set_dispose (dominator e)) (\<lambda>_. bnd (put_ext a (\<lambda>e. e\<lparr>dominator := dom\<rparr>)) (\<lambda>_. ret (c + 1))))))) ?Q g1"
      if m1: "lib.made g (elems all \<inter> meet_at (pos ns) (sourceNode ` set ?arcs) (dom_table g)) dom g1" for dom g1
    proof -
      have g1: "grows g g1" using m1 by (simp add: lib.made_def)
      note f1 = grows_trace [OF g1]
      have o1: "others g1 ?i = others g ?i" "order (others g ?i) = int ?i" "dominator (others g ?i) = doms g ?i"
        using f1 d i by auto
      have add: "wp (Set_add dom (int ?i)) (lib.made g ?X) g1"
        unfolding X by (rule add_made [OF m1]) (simp add: INT_MIN_def)
      have fin: "wp (bnd (Set_same dom (doms g ?i)) (\<lambda>same. if same then bnd (Set_dispose dom) (\<lambda>_. ret c)
          else bnd (Set_dispose (doms g ?i)) (\<lambda>_. bnd (put_ext a (\<lambda>e. e\<lparr>dominator := dom\<rparr>)) (\<lambda>_. ret (c + 1))))) ?Q g2"
        if m2: "lib.made g ?X dom g2" for dom g2
      proof -
        note u = made_unheld [OF d(1) m2]
        note f2 = grows_trace [OF u(4)] and e2 = extended_grows [OF e u(4)]
        note d2 = extendedD [OF e2]
        have un2: "unheld g2 (doms g2) all" using unheld_grows [OF un u(4)] f2 by simp
        have x2: "unheld g2 (doms g2) dom" using u(1) f2 by simp
        have ad: "apart all dom" using u(5) [OF unheld_live [OF un]] by (rule apart_sym)
        have I2: "iterating ns r m all g0 g2" using I e2 un2 by (simp add: iterating_def dom_table_def f2)
        have wf: "wf_set dom" "wf_set (doms g ?i)" using unheld_live [OF x2] holds_live [OF d(1)] by (auto dest: live_wf)
        show ?thesis
        proof (cases "?X = dom_table g ?i")
          case True
          have "wp (Set_dispose dom) (\<lambda>_. ?Q c) g2"
          proof (rule Set_dispose_wp [OF d2(2) unheld_live [OF x2]])
            fix g3 assume fr: "freed g2 dom g3"
            note f3 = freed_trace [OF fr]
            have "extended ns m g3" using e2 holds_freed [OF d2(1) x2 fr] by (simp add: extended_def f3)
            moreover have "unheld g3 (doms g3) all" using unheld_freed [OF un2 ad fr] by (simp add: f3)
            ultimately have "iterating ns r m all g0 g3" using I2 by (simp add: iterating_def dom_table_def f3)
            moreover have "dom_table g3 = dom_table g" by (simp add: dom_table_def f3 f2 fun_eq_iff)
            ultimately show "?Q c g3" using True by simp
          qed
          then show ?thesis using True u(3) by (simp add: wp_Set_same [OF wf] dom_table_def)
        next
          case False
          have "wp (bnd (Set_dispose (dominator (others g2 ?i))) (\<lambda>_. put_ext a (\<lambda>e. e\<lparr>dominator := dom\<rparr>))) (\<lambda>_. ?Q (c + 1)) g2"
          proof (rule replace_dom_wp [OF d2(1) x2])
            show "?i < n_others g2" using i d2(3) by simp
            show "put_ext a (\<lambda>e. e\<lparr>dominator := dom\<rparr>) h = put_others ?i (\<lambda>e. e\<lparr>dominator := dom\<rparr>) h" if "node_mem h = node_mem g2" for h
              using d2(4,5) that a by (intro put_ext_others) auto
            fix g' assume g': "holds g' (doms g')" "doms g' = (doms g2)(?i := dom)" "params g' = params g2" "node_mem g' = node_mem g2"
              "n_others g' = n_others g2" "others g' = (others g2)(?i := (others g2 ?i)\<lparr>dominator := dom\<rparr>)"
              "\<And>y. unheld g2 (doms g2) y \<Longrightarrow> apart y dom \<Longrightarrow> unheld g' (doms g') y"
            have t: "dom_table g' = (dom_table g)(?i := ?X)" using g'(2) u(3) by (auto simp: dom_table_def fun_eq_iff f2)
            have "extended ns m g'" using e2 g' by (simp add: extended_def)
            moreover have "dom_table g' (pos ns b) = trace_dom_eq ns r m b undefined"
              if "b \<in> set ns" "b = r \<or> sourceArcs (m b) = []" for b
            proof -
              have "b \<noteq> a" using that \<open>\<not> (a = r \<or> ?arcs = [])\<close> by auto
              then have "pos ns b \<noteq> ?i" using pos_inj a that(1) by (auto simp: inj_on_def)
              then show ?thesis using I that by (auto simp: t iterating_def)
            qed
            ultimately have "iterating ns r m all g0 g'" using I2 g' g'(7) [OF un2 ad] by (simp add: iterating_def)
            then show "?Q (c + 1) g'" using t False by auto
          qed
          then have "wp (bnd (Set_dispose (doms g ?i)) (\<lambda>_. bnd (put_ext a (\<lambda>e. e\<lparr>dominator := dom\<rparr>)) (\<lambda>_. ret (c + 1)))) ?Q g2"
            using o1(3) f2 by simp
          then show ?thesis using False u(3) by (simp add: wp_Set_same [OF wf] dom_table_def)
        qed
      qed
      have fl1: "fielded ns (node_mem g1)" using f1 d by simp
      show ?thesis unfolding wp_bnd [of "get_ext a"] wp_get_ext [OF fl1 a] o1 by (rule wp_seq [OF add fin])
    qed
    have un0: "wp (Set_union all None) (lib.made g (elems all)) g"
      using lib.union_made [OF d(2) unheld_live [OF un], of None] by simp
    have "wp (bnd (Set_union all None) (\<lambda>dom. bnd (meet_sources ?arcs dom) (\<lambda>dom. bnd (get_ext a) (\<lambda>e.
          bnd (Set_add dom (order e)) (\<lambda>dom. bnd (Set_same dom (dominator e)) (\<lambda>same.
          if same then bnd (Set_dispose dom) (\<lambda>_. ret c)
          else bnd (Set_dispose (dominator e)) (\<lambda>_. bnd (put_ext a (\<lambda>e. e\<lparr>dominator := dom\<rparr>)) (\<lambda>_. ret (c + 1))))))))) ?Q g"
      by (rule wp_seq [OF un0], rule wp_seq [OF meet_sources_wp [OF e sub]], assumption, rule rest)
    then show ?thesis using False d(4) unfolding dominator_node_def by (simp only: wp_bnd [of "gets _"] node_get_def wp_gets if_False de_Morgan_disj simp_thms)
  qed
qed

section \<open>Levels\<close>

text \<open>
  The level of the node number \<open>i\<close>: 0 for the entry \<open>r\<close>, else one more than the largest level of its sources that come before it in
  the chain. \<open>P\<close> gives the numbers of the sources.
\<close>

fun level_of :: "(nat \<Rightarrow> nat list) \<Rightarrow> nat \<Rightarrow> nat \<Rightarrow> int" where
  "level_of P r i = (if i = r then 0 else fold (\<lambda>j best. max best (level_of P r j)) (filter (\<lambda>j. j < i) (P i)) (- 1) + 1)"

declare level_of.simps [simp del]

lemma fold_max_ge: "best \<le> fold (\<lambda>j best. max best (f j)) js (best :: int)"
proof (induction js arbitrary: best)
  case (Cons j js)
  from Cons [of "max best (f j)"] show ?case by simp
qed simp

lemma level_of_nonneg: "0 \<le> level_of P r i"
  using fold_max_ge [of "- 1" "level_of P r" "filter (\<lambda>j. j < i) (P i)"] by (simp add: level_of.simps [of P r i])

definition source_positions :: "nat list \<Rightarrow> (nat \<Rightarrow> gnode) \<Rightarrow> nat \<Rightarrow> nat list" where
  "source_positions ns m i = map (\<lambda>arc. pos ns (sourceNode arc)) (sourceArcs (m (ns ! i)))"

definition relevel :: "(nat \<Rightarrow> int) \<Rightarrow> trace_lib \<Rightarrow> trace_lib" where
  "relevel L g = g\<lparr>others := \<lambda>i. (others g i)\<lparr>level := L i\<rparr>\<rparr>"

lemma relevel_fields [simp]:
  "others (relevel L g) i = (others g i)\<lparr>level := L i\<rparr>" "node_mem (relevel L g) = node_mem g" "n_others (relevel L g) = n_others g"
  "doms (relevel L g) = doms g" "params (relevel L g) = params g" "SetId (relevel L g) = SetId g" "OUT (relevel L g) = OUT g"
  by (simp_all add: relevel_def doms_def fun_eq_iff)

lemma relevel_put: "(relevel L g)\<lparr>others := (others (relevel L g))(k := (others (relevel L g) k)\<lparr>level := x\<rparr>)\<rparr> = relevel (L(k := x)) g"
proof -
  have "(\<lambda>i. (others g i)\<lparr>level := L i\<rparr>)(k := ((others g k)\<lparr>level := L k\<rparr>)\<lparr>level := x\<rparr>) = (\<lambda>i. (others g i)\<lparr>level := (L(k := x)) i\<rparr>)"
    by (auto simp: fun_eq_iff)
  then show ?thesis by (simp add: relevel_def)
qed

lemma relevel_same: "relevel (\<lambda>i. level (others g i)) g = g"
  by (simp add: relevel_def)

lemma extended_relevel: "extended ns m g \<Longrightarrow> extended ns m (relevel L g)"
  using holds_same [of "relevel L g" g "doms g"] by (simp add: extended_def)

lemma source_level_wp:
  assumes e: "extended ns m g" and src: "sourceNode ` set arcs \<subseteq> set ns"
    and L: "\<And>j. j < k \<Longrightarrow> 0 \<le> L j" "\<And>j. j < k \<Longrightarrow> j < length ns \<Longrightarrow> level (others g j) = L j"
  shows "wp (source_level (int k) arcs best) Q g =
    Q (Some (fold (\<lambda>j best. max best (L j)) (filter (\<lambda>j. j < k) (map (\<lambda>arc. pos ns (sourceNode arc)) arcs)) best)) g"
  using src
proof (induction arcs arbitrary: best)
  case (Cons arc arcs)
  let ?a = "sourceNode arc"
  have a: "?a \<in> set ns" using Cons.prems by simp
  note d = extendedD [OF e] and i = pos_less [OF a]
  have fl: "fielded ns (node_mem g)" using d by simp
  have o: "order (others g (pos ns ?a)) = int (pos ns ?a)" using d(6) [OF i] .
  have mx: "(if L (pos ns ?a) > best then L (pos ns ?a) else best) = max best (L (pos ns ?a))" by simp
  show ?case using Cons L(1) [of "pos ns ?a"] L(2) [of "pos ns ?a"] i o mx
    by (cases "pos ns ?a < k") (simp_all add: wp_get_ext [OF fl a])
qed simp

lemma level_node_wp:
  fixes r :: nat
  assumes e: "extended ns m g" and ns: "distinct ns" and pr: "\<And>a. a \<in> set ns \<Longrightarrow> preds m a \<subseteq> set ns" and k: "k < length ns"
  defines "V \<equiv> level_of (source_positions ns m) r"
  assumes M: "\<And>i. i < k \<Longrightarrow> M i = V i" "M k = V k \<or> M k = - 1 \<and> k \<noteq> r"
  shows "wp (level_node (ns ! k) c) (\<lambda>c' h. h = relevel (M(k := V k)) g \<and> c' = (if M k = V k then c else c + 1)) (relevel M g)"
proof -
  let ?g = "relevel M g" and ?a = "ns ! k"
  have eg: "extended ns m ?g" by (rule extended_relevel [OF e])
  note d = extendedD [OF eg]
  have a: "?a \<in> set ns" "pos ns ?a = k" using k pos_nth [OF ns] by auto
  have fl: "fielded ns (node_mem ?g)" using d by simp
  have sub: "sourceNode ` set (sourceArcs (m ?a)) \<subseteq> set ns" using pr [OF a(1)] by (simp add: preds_def)
  have V0: "0 \<le> V j" for j unfolding V_def by (rule level_of_nonneg)
  have o: "order (others ?g k) = int k" using d(6) [OF k] .
  show ?thesis
  proof (cases "M k = V k")
    case True
    then have "M(k := V k) = M" by auto
    then show ?thesis using True V0 [of k] fl a by (simp add: level_node_def wp_get_ext [OF fl a(1)])
  next
    case False
    then have neg: "M k = - 1" "k \<noteq> r" using M(2) by auto
    have lev: "fold (\<lambda>j best. max best (V j)) (filter (\<lambda>j. j < k) (map (\<lambda>arc. pos ns (sourceNode arc)) (sourceArcs (m ?a)))) (- 1) + 1 = V k"
      using neg(2) by (simp add: V_def level_of.simps [of "source_positions ns m" r k] source_positions_def)
    have "wp (bnd (source_level (int k) (sourceArcs (m ?a)) (- 1)) (\<lambda>q. case q of None \<Rightarrow> ret c
       | Some best \<Rightarrow> bnd (put_ext ?a (\<lambda>e. e\<lparr>level := best + 1\<rparr>)) (\<lambda>_. ret (c + 1))))
       (\<lambda>c' h. h = relevel (M(k := V k)) g \<and> c' = c + 1) ?g"
      unfolding wp_bnd
      by (subst source_level_wp [where L = V, OF eg sub V0]) (use M(1) fl a lev relevel_put [of M g k "V k"] in \<open>simp_all add: wp_put_ext [OF fl a(1)]\<close>)
    then show ?thesis
      using False neg o unfolding level_node_def wp_bnd [of "get_ext _"] wp_get_ext [OF fl a(1)] a(2)
      by (simp add: node_get_def extendedD(4) [OF e])
  qed
qed

lemma level_pass_wp:
  fixes r :: nat
  assumes e: "extended ns m g" and ns: "distinct ns" and pr: "\<And>a. a \<in> set ns \<Longrightarrow> preds m a \<subseteq> set ns"
  defines "V \<equiv> level_of (source_positions ns m) r"
  assumes M: "\<And>i. i < length ns \<Longrightarrow> M i = V i \<or> M i = - 1 \<and> i \<noteq> r"
  shows "wp (for_each level_node ns 0) (\<lambda>c h. h = relevel (\<lambda>i. if i < length ns then V i else M i) g \<and> 0 \<le> c \<and>
    ((\<forall>i<length ns. M i = V i) \<longrightarrow> c = 0)) (relevel M g)"
proof (rule wp_for_each [where I = "\<lambda>k c h. h = relevel (\<lambda>i. if i < k then V i else M i) g \<and> 0 \<le> c \<and> ((\<forall>i<length ns. M i = V i) \<longrightarrow> c = 0)"])
  fix k and c :: int and h
  assume k: "k < length ns" and I: "h = relevel (\<lambda>i. if i < k then V i else M i) g \<and> 0 \<le> c \<and> ((\<forall>i<length ns. M i = V i) \<longrightarrow> c = 0)"
  have eq: "(\<lambda>i. if i < k then V i else M i)(k := V k) = (\<lambda>i. if i < Suc k then V i else M i)" by (auto simp: fun_eq_iff less_Suc_eq)
  have "wp (level_node (ns ! k) c) (\<lambda>c' h. h = relevel ((\<lambda>i. if i < k then V i else M i)(k := V k)) g \<and>
      c' = (if (\<lambda>i. if i < k then V i else M i) k = V k then c else c + 1)) (relevel (\<lambda>i. if i < k then V i else M i) g)"
    unfolding V_def by (rule level_node_wp [OF e ns pr k]) (use M [OF k] in \<open>auto simp: V_def\<close>)
  then show "wp (level_node (ns ! k) c) (\<lambda>c h. h = relevel (\<lambda>i. if i < Suc k then V i else M i) g \<and> 0 \<le> c \<and> ((\<forall>i<length ns. M i = V i) \<longrightarrow> c = 0)) h"
    unfolding eq using I k by (auto elim!: wp_mono)
qed auto

lemma levels_wp:
  assumes e: "extended ns m g" and ns: "distinct ns" "r \<in> set ns" and pr: "\<And>a. a \<in> set ns \<Longrightarrow> preds m a \<subseteq> set ns"
    and L: "\<And>i. i < length ns \<Longrightarrow> level (others g i) = (if i = pos ns r then 0 else - 1)"
  shows "wp (until_no_change level_node ns) (\<lambda>_ h. \<exists>L. h = relevel L g \<and>
    (\<forall>i<length ns. L i = level_of (source_positions ns m) (pos ns r) i)) g"
proof -
  let ?V = "level_of (source_positions ns m) (pos ns r)" and ?M = "\<lambda>i. level (others g i)"
  let ?L = "\<lambda>i. if i < length ns then ?V i else ?M i"
  let ?h = "relevel ?L g"
  let ?I = "\<lambda>(c :: int) h. (h = g \<or> h = ?h) \<and> (c = 0 \<longrightarrow> h = ?h)"
  let ?r = "measure (\<lambda>(c :: int, h). if c = 0 then 0 else if h = ?h then 1 else 2 :: nat)"
  have M: "?M i = ?V i \<or> ?M i = - 1 \<and> i \<noteq> pos ns r" if "i < length ns" for i
    using L [OF that] by (auto simp: level_of.simps [of "source_positions ns m" "pos ns r" i])
  have "wp (while_prog (\<lambda>c. c \<noteq> 0) (\<lambda>_. for_each level_node ns 0) 1) (\<lambda>_ h. h = ?h) g"
  proof (rule wp_while_prog [where I = ?I and r = ?r])
    fix c h assume I: "?I c h" and c: "c \<noteq> (0 :: int)"
    show "wp (for_each level_node ns 0) (\<lambda>c' h'. ?I c' h' \<and> ((c', h'), (c, h)) \<in> ?r) h"
    proof (cases "h = ?h")
      case True
      have "(\<lambda>i. if i < length ns then ?V i else ?L i) = ?L" by auto
      then have "wp (for_each level_node ns 0) (\<lambda>c h. h = ?h \<and> c = 0) ?h"
        by (intro wp_mono [OF level_pass_wp [OF e ns(1) pr, where r = "pos ns r" and M = ?L]]) auto
      then show ?thesis using True c by (auto elim!: wp_mono)
    next
      case False
      then have "h = relevel ?M g" using I by (simp add: relevel_same)
      moreover have "wp (for_each level_node ns 0) (\<lambda>c h. h = ?h) (relevel ?M g)"
        by (rule wp_mono [OF level_pass_wp [OF e ns(1) pr, where r = "pos ns r" and M = ?M]]) (use M in auto)
      ultimately show ?thesis using False c by (auto elim!: wp_mono)
    qed
  qed auto
  then show ?thesis unfolding until_no_change_def wp_bnd wp_ret by (rule wp_mono) auto
qed

section \<open>The preparation of a selection\<close>

text \<open>A node \<open>d\<close> dominates \<open>a\<close> when every path that leads back from \<open>a\<close> to the entry \<open>r\<close> passes through \<open>d\<close>.\<close>

definition dominates :: "(nat \<Rightarrow> gnode) \<Rightarrow> nat \<Rightarrow> nat \<Rightarrow> nat \<Rightarrow> bool" where
  "dominates m r d a = (\<forall>p. is_path (preds m) (a # p) \<longrightarrow> last (a # p) = r \<longrightarrow> d \<in> set (a # p))"

lemma lost_dominates:
  assumes pr: "\<And>a. a \<in> set ns \<Longrightarrow> preds m a \<subseteq> set ns" and a: "a \<in> set ns" and i: "i < length ns" "distinct ns"
  shows "lost ns (all_orders ns) (preds m) (\<lambda>a. {int (pos ns a)}) (dom_bad r) (int i) a \<longleftrightarrow> \<not> dominates m r (ns ! i) a"
proof -
  have x: "(int i \<notin> {int (pos ns x)}) = (x \<noteq> ns ! i)" for x
  proof (cases "x \<in> set ns")
    case True
    then show ?thesis using pos_nth [OF i(2,1)] nth_pos [OF True] by auto
  next
    case False
    then have "pos ns x = length ns" by (induction ns) (auto simp: pos_def)
    then show ?thesis using False i by auto
  qed
  have y: "last (a # p) \<in> set ns" if "is_path (preds m) (a # p)" for p
    by (rule path_inside [OF that a]) (rule pr)
  show ?thesis
    unfolding lost_path dominates_def x Let_def using y by (auto simp: dom_bad_def simp del: last.simps)
qed

theorem AddExtensionFields_wp:
  fixes g :: trace_lib
  assumes g: "ext_ok g" and gr: "gnodes gr = ns" "root gr = Some r"
    and ns: "distinct ns" "r \<in> set ns" "length ns \<le> MAX_GRAPH_SIZE"
    and pr: "\<And>a. a \<in> set ns \<Longrightarrow> preds (node_mem g) a \<subseteq> set ns"
  shows "wp (AddExtensionFields gr) (\<lambda>_ h. extended ns (numbered ns (node_mem g)) h \<and> params h = params g \<and>
    (\<forall>a\<in>set ns. dom_table h (pos ns a) = {int i | i. i < length ns \<and> dominates (node_mem g) r (ns ! i) a} \<and>
      level (others h (pos ns a)) = level_of (source_positions ns (node_mem g)) (pos ns r) (pos ns a))) g"
proof -
  let ?m = "numbered ns (node_mem g)" and ?U = "all_orders ns"
  let ?S = "\<lambda>a. {d\<in>?U. \<not> lost ns ?U (preds ?m) (\<lambda>a. {int (pos ns a)}) (dom_bad r) d a}"
  have same: "preds ?m = preds (node_mem g)" "source_positions ns ?m = source_positions ns (node_mem g)"
    by (auto simp: fun_eq_iff preds_def source_positions_def numbered_def)
  have dom: "dominates ?m = dominates (node_mem g)" by (simp add: dominates_def same fun_eq_iff)
  have pr': "preds ?m a \<subseteq> set ns" if "a \<in> set ns" for a using pr [OF that] by (simp add: same)
  have dist: "distinct (map (pos ns) ns)" using ns(1) pos_inj by (simp add: distinct_map)
  let ?Q = "\<lambda>_ h. extended ns ?m h \<and> params h = params g \<and> (\<forall>a\<in>set ns. dom_table h (pos ns a) = ?S a \<and>
      level (others h (pos ns a)) = level_of (source_positions ns ?m) (pos ns r) (pos ns a))"
  have iter: "wp (bnd (until_no_change (dominator_node r all) ns) (\<lambda>_. bnd (Set_dispose all) (\<lambda>_. until_no_change level_node ns))) ?Q h"
    if h: "prepared ns r ?m all (length ns) h" "params h = params g" and all: "elems all = ?U" for all h
  proof -
    have tab: "dom_table h (pos ns a) = trace_dom_eq ns r ?m a undefined" if "a \<in> set ns" "a = r \<or> sourceArcs (?m a) = []" for a
      using h(1) pos_less [OF that(1)] that nth_pos [OF that(1)] nth_pos [OF ns(2)] by (auto simp: prepared_def dom_table_def trace_dom_eq_def)
    have start: "iterating ns r ?m all h h" using h(1) tab by (simp add: iterating_def prepared_def)
    have V: "dom_table h (pos ns a) = (if a = r then {int (pos ns r)} else ?U)" if "a \<in> set ns" for a
      using h(1) pos_less [OF that] nth_pos [OF that] nth_pos [OF ns(2)] by (auto simp: prepared_def dom_table_def)
    have "wp (until_no_change (dominator_node r all) ns) (\<lambda>_ h'. iterating ns r ?m all h h' \<and> (\<forall>a\<in>set ns. dom_table h' (pos ns a) = ?S a \<and>
        dom_table h' (pos ns a) = trace_dom_eq ns r ?m a (dom_table h'))) h"
      unfolding until_no_change_def
      by (rule greatest_wp [OF dist trace_dom_eq_meets [OF pr'] trace_dom_eq_mono [OF pr'] trace_dom_eq_closed [OF ns(3,2)]
            all_orders_range [OF ns(3)] dominator_node_recomputes [OF ns(1) pr' all] start])
         (use V pos_order [of _ ns] in \<open>auto simp: dom_bad_def\<close>)
    then show ?thesis
    proof (rule wp_seq, elim conjE)
      fix u h1 assume I: "iterating ns r ?m all h h1" and S: "\<forall>a\<in>set ns. dom_table h1 (pos ns a) = ?S a \<and>
        dom_table h1 (pos ns a) = trace_dom_eq ns r ?m a (dom_table h1)"
      have e: "extended ns ?m h1" and un: "unheld h1 (doms h1) all" using I by (auto simp: iterating_def)
      show "wp (bnd (Set_dispose all) (\<lambda>_. until_no_change level_node ns)) ?Q h1"
        unfolding wp_bnd
      proof (rule Set_dispose_wp [OF extendedD(2) [OF e] unheld_live [OF un]])
        fix h2 assume fr: "freed h1 all h2"
        note f = freed_trace [OF fr]
        have e2: "extended ns ?m h2" using e holds_freed [OF extendedD(1) [OF e] un fr] by (simp add: extended_def f)
        have lev: "level (others h2 i) = (if i = pos ns r then 0 else - 1)" if "i < length ns" for i
          using I h(1) that by (simp add: f iterating_def prepared_def)
        show "wp (until_no_change level_node ns) ?Q h2"
        proof (rule wp_mono [OF levels_wp [OF e2 ns(1,2) pr' lev]], assumption, assumption, elim exE conjE)
          fix u h3 L assume L: "h3 = relevel L h2" "\<forall>i<length ns. L i = level_of (source_positions ns ?m) (pos ns r) i"
          have "dom_table h3 = dom_table h1" by (simp add: L(1) dom_table_def f fun_eq_iff)
          then show "?Q u h3" using S L(2) extended_relevel [OF e2] I h(2) by (simp add: L(1) f iterating_def pos_less)
        qed
      qed
    qed
  qed
  have run: "wp (bnd FreeExtensionFields (\<lambda>_. bnd (number_nodes ns) (\<lambda>all. bnd (init_dominators r all ns) (\<lambda>_.
      bnd (until_no_change (dominator_node r all) ns) (\<lambda>_. bnd (Set_dispose all) (\<lambda>_. until_no_change level_node ns)))))) ?Q g"
  proof (rule wp_seq [OF FreeExtensionFields_wp [OF g]], elim conjE)
    fix u h assume h: "wf_lib h" "n_others h = 0" "params h = params g" "node_mem h = node_mem g"
    show "wp (bnd (number_nodes ns) (\<lambda>all. bnd (init_dominators r all ns) (\<lambda>_.
        bnd (until_no_change (dominator_node r all) ns) (\<lambda>_. bnd (Set_dispose all) (\<lambda>_. until_no_change level_node ns))))) ?Q h"
    proof (rule wp_seq [OF number_nodes_wp [OF h(1,2) ns(1,3)]])
      fix all h1 assume n: "numbering h ns all h1"
      then have "elems all = ?U" by (simp add: numbering_def all_orders_def)
      then show "wp (bnd (init_dominators r all ns) (\<lambda>_. bnd (until_no_change (dominator_node r all) ns) (\<lambda>_.
          bnd (Set_dispose all) (\<lambda>_. until_no_change level_node ns)))) ?Q h1"
        by (intro wp_seq [OF init_dominators_wp [OF n ns(1,2)]] iter) (simp_all add: h)
    qed
  qed
  have S: "?S a = {int i | i. i < length ns \<and> dominates (node_mem g) r (ns ! i) a}" if "a \<in> set ns" for a
    using lost_dominates [OF pr' that _ ns(1), of _ r] by (auto simp: all_orders_def dom)
  have "?Q u h \<Longrightarrow> extended ns ?m h \<and> params h = params g \<and>
    (\<forall>a\<in>set ns. dom_table h (pos ns a) = {int i | i. i < length ns \<and> dominates (node_mem g) r (ns ! i) a} \<and>
      level (others h (pos ns a)) = level_of (source_positions ns (node_mem g)) (pos ns r) (pos ns a))" for u :: unit and h
    by (elim conjE, intro conjI ballI, assumption, assumption, (drule (1) bspec, elim conjE, rule trans [OF _ S], assumption, assumption),
        unfold same(2), blast)
  from wp_mono [OF run this] ns(2) show ?thesis by (auto simp: AddExtensionFields_def gr simp del: wp_bnd)
qed

lemma ext_ok_extended: "extended ns m g \<Longrightarrow> length ns \<le> MAX_GRAPH_SIZE \<Longrightarrow> ext_ok g"
  by (simp add: extended_def ext_ok_def)

lemma AddExtensionFields_empty:
  "ext_ok g \<Longrightarrow> gnodes gr = [] \<Longrightarrow> wp (AddExtensionFields gr) (\<lambda>_ h. ext_ok h \<and> params h = params g \<and> node_mem h = node_mem g) g"
  unfolding AddExtensionFields_def wp_bnd
  by (rule wp_mono [OF FreeExtensionFields_wp]) (auto simp: ext_ok_def doms_def holds_def)

end
