(* ===== verification/Trace_Selection.thy ===== *)
theory Trace_Selection
  imports Trace
begin

text \<open>
  Selecting the traces, with \<open>SelectTraces\<close> or \<open>SelectBySortArc\<close>, and placing them one after the other: the second half of the model of
  \<open>src/src/library/libflow/trace.c\<close>.
\<close>

section \<open>Growing traces from seeds\<close>

definition clear_node :: "nat \<Rightarrow> (trace_lib, unit) prog" where
  "clear_node a = node_put a (\<lambda>n. n\<lparr>nodeType := 0, nodeStatus := NOT_VISITED,
     sourceArcs := map (\<lambda>e. e\<lparr>arcType := 0\<rparr>) (sourceArcs n), destinationArcs := map (\<lambda>e. e\<lparr>arcType := 0\<rparr>) (destinationArcs n)\<rparr>)"

text \<open>A call of a library function on a local array.\<close>

definition on_local :: "('a, 'b) prog \<Rightarrow> 'a \<Rightarrow> ('s, 'a) prog" where
  "on_local m x = (\<lambda>s. case m x of Inl f \<Rightarrow> Inl f | Inr r \<Rightarrow> Inr (snd r, s))"

definition list_nodes :: "nat list \<Rightarrow> (trace_lib, (nat, rat) ST_Entry list) prog" where
  "list_nodes ns =
     for_each (\<lambda>ptr sorted_list.
       bnd (node_get ptr) (\<lambda>n.
       let sorted_list = sorted_list @ [\<lparr>st_ptr = ptr, st_index = int (length sorted_list), st_weight = nodeWeight n\<rparr>] in
       if length sorted_list \<ge> MAX_GRAPH_SIZE then fail (Punt ''SelectTrace: graph is too large'')
       else ret sorted_list)) ns []"

definition sort_nodes :: "nat list \<Rightarrow> (trace_lib, (nat, rat) ST_Entry list) prog" where
  "sort_nodes ns = bnd (list_nodes ns) (\<lambda>sorted_list. on_local (max_sort (int (length sorted_list))) sorted_list)"

text \<open>
  The seed of the next trace: \<open>current\<close> if it is not visited yet, else the best unvisited successor of the tail of the last
  trace, else the unvisited node with the largest weight, else none.
\<close>

definition fall_through :: "nat \<Rightarrow> (trace_lib, nat option) prog" where
  "fall_through prev =
     bnd (node_get prev) (\<lambda>n.
     for_each (\<lambda>pc best.
       bnd (node_get (destinationNode pc)) (\<lambda>dest.
       if flag VISITED dest then ret best
       else case best of None \<Rightarrow> ret (Some (destinationNode pc))
         | Some b \<Rightarrow>
             bnd (successor_node_weight prev (destinationNode pc)) (\<lambda>w.
             bnd (successor_node_weight prev b) (\<lambda>v.
             ret (if w > v then Some (destinationNode pc) else best))))) (destinationArcs n) None)"

definition first_unvisited :: "(nat, rat) ST_Entry list \<Rightarrow> (trace_lib, nat option) prog" where
  "first_unvisited sorted_list =
     bnd (find_each (\<lambda>e _. bnd (node_get (st_ptr e)) (\<lambda>n. if flag VISITED n then ret (False, None) else ret (True, Some (st_ptr e))))
       sorted_list None) (\<lambda>r.
     ret (snd r))"

definition pick_seed :: "(nat, rat) ST_Entry list \<Rightarrow> nat option \<Rightarrow> nat option \<Rightarrow> (trace_lib, nat option) prog" where
  "pick_seed sorted_list current prev =
     (case current of None \<Rightarrow> fail Null_Deref
      | Some cur \<Rightarrow>
          bnd (node_get cur) (\<lambda>n.
          if \<not> flag VISITED n then ret (Some cur)
          else case prev of None \<Rightarrow> fail (Punt ''this should not happen'')
            | Some tail \<Rightarrow>
                bnd (fall_through tail) (\<lambda>best.
                if best = None then first_unvisited sorted_list else ret best)))"

text \<open>\<open>FindSrcArc\<close> and \<open>FindDestArc\<close> give the first cell that fits, whose type is then changed.\<close>

fun retype_first :: "nat \<Rightarrow> nat \<Rightarrow> int \<Rightarrow> arc list \<Rightarrow> arc list" where
  "retype_first s d ty [] = []"
| "retype_first s d ty (e # es) =
     (if arcType e = 0 \<and> sourceNode e = s \<and> destinationNode e = d then e\<lparr>arcType := ty\<rparr> # es else e # retype_first s d ty es)"

definition mark_arc :: "nat \<Rightarrow> nat \<Rightarrow> nat \<Rightarrow> (trace_lib, unit) prog" where
  "mark_arc seed s d =
     bnd (node_get seed) (\<lambda>n.
     bnd (FindSrcArc s d 0) (\<lambda>arc.
     bnd (if arc \<noteq> None then node_put d (\<lambda>nd. nd\<lparr>sourceArcs := retype_first s d (nodeType n) (sourceArcs nd)\<rparr>)
          else fail (Punt ''SelectTraces: corrupted source link'')) (\<lambda>_.
     bnd (FindDestArc s d 0) (\<lambda>arc.
     if arc \<noteq> None then node_put s (\<lambda>nd. nd\<lparr>destinationArcs := retype_first s d (nodeType n) (destinationArcs nd)\<rparr>)
     else fail (Punt ''SelectTraces: corrupted destination link'')))))"

text \<open>\<open>Set_in (ext (a)->dominator, ext (b)->order)\<close>, with the check of both extension fields.\<close>

definition dominated_by :: "nat \<Rightarrow> nat \<Rightarrow> (trace_lib, bool) prog" where
  "dominated_by a b =
     bnd (node_get a) (\<lambda>na.
     bnd (node_get b) (\<lambda>nb.
     if nodeExt na = None \<or> nodeExt nb = None then fail (Punt ''corrupted extension field'')
     else bnd (get_ext a) (\<lambda>ea. bnd (get_ext b) (\<lambda>eb. Set_in (dominator ea) (order eb)))))"

definition add_to_trace :: "nat \<Rightarrow> nat \<Rightarrow> (trace_lib, unit) prog" where
  "add_to_trace seed a =
     bnd (node_get seed) (\<lambda>n.
     bnd (set_type a (nodeType n)) (\<lambda>_.
     raise_flag VISITED a))"

definition grow_forward :: "nat option \<Rightarrow> nat \<Rightarrow> (trace_lib, nat) prog" where
  "grow_forward ENTRY seed =
     bnd (while_prog (\<lambda>r. snd r) (\<lambda>r.
            let current = fst r; stop = bnd (raise_flag TRACE_TAIL current) (\<lambda>_. ret (current, False)) in
            bnd (best_successor current) (\<lambda>lnk.
            case lnk of None \<Rightarrow> stop
            | Some e \<Rightarrow>
                let dest = destinationNode e in
                if Some dest = ENTRY then stop
                else
                  bnd (dominated_by current dest) (\<lambda>dominated.
                  if dominated then stop
                  else
                    bnd (mark_arc seed current dest) (\<lambda>_.
                    bnd (add_to_trace seed dest) (\<lambda>_.
                    ret (dest, True)))))) (seed, True)) (\<lambda>r.
     ret (fst r))"

definition grow_backward :: "nat option \<Rightarrow> nat \<Rightarrow> (trace_lib, nat) prog" where
  "grow_backward ENTRY seed =
     bnd (while_prog (\<lambda>r. snd r) (\<lambda>r.
            let current = fst r; stop = bnd (raise_flag TRACE_HEAD current) (\<lambda>_. ret (current, False)) in
            if Some current = ENTRY then stop
            else
              bnd (best_predecessor current) (\<lambda>lnk.
              case lnk of None \<Rightarrow> stop
              | Some e \<Rightarrow>
                  let src = sourceNode e in
                  bnd (dominated_by src current) (\<lambda>dominated.
                  if dominated then stop
                  else
                    bnd (mark_arc seed src current) (\<lambda>_.
                    bnd (add_to_trace seed src) (\<lambda>_.
                    ret (src, True)))))) (seed, True)) (\<lambda>r.
     ret (fst r))"

primrec select_loop ::
  "nat \<Rightarrow> nat option \<Rightarrow> (nat, rat) ST_Entry list \<Rightarrow> nat option \<Rightarrow> nat option \<Rightarrow> int \<Rightarrow> (trace_lib, unit) prog" where
  "select_loop 0 ENTRY sorted_list current prev trace_id = ret ()"
| "select_loop (Suc n) ENTRY sorted_list current prev trace_id =
     bnd (pick_seed sorted_list current prev) (\<lambda>seed.
     case seed of None \<Rightarrow> ret ()
     | Some seed \<Rightarrow>
         bnd (node_get seed) (\<lambda>nd.
         if flag VISITED nd then fail (Punt ''incorrect seed selection'')
         else
           bnd (set_type seed trace_id) (\<lambda>_.
           bnd (raise_flag VISITED seed) (\<lambda>_.
           bnd (grow_forward ENTRY seed) (\<lambda>tail.
           bnd (grow_backward ENTRY seed) (\<lambda>head.
           select_loop n ENTRY sorted_list (Some head) (Some tail) (trace_id + 1)))))))"

definition check_visited :: "nat list \<Rightarrow> (trace_lib, unit) prog" where
  "check_visited ns =
     for_each (\<lambda>ptr _. bnd (node_get ptr) (\<lambda>n. if \<not> flag VISITED n then fail (Punt ''SelectTraces: failed to select all nodes'') else ret ())) ns ()"

text \<open>A trace whose tail has an arc to its head is an inner loop.\<close>

definition detect_loops :: "nat list \<Rightarrow> (trace_lib, unit) prog" where
  "detect_loops ns =
     for_each (\<lambda>ptr _.
       bnd (node_get ptr) (\<lambda>n.
       if \<not> flag TRACE_TAIL n then ret ()
       else
         bnd (find_each (\<lambda>lnk _.
                bnd (node_get (destinationNode lnk)) (\<lambda>dest.
                bnd (node_get ptr) (\<lambda>n.
                if flag TRACE_HEAD dest \<and> nodeType dest = nodeType n
                then bnd (raise_flag LOOP_HEAD (destinationNode lnk)) (\<lambda>_. ret (True, ()))
                else ret (False, ())))) (destinationArcs n) ()) (\<lambda>_.
         ret ()))) ns ()"

definition SelectTraces :: "FGraph \<Rightarrow> (trace_lib, unit) prog" where
  "SelectTraces graph =
     bnd (AddExtensionFields graph) (\<lambda>_.
     bnd (for_each (\<lambda>ptr _. clear_node ptr) (gnodes graph) ()) (\<lambda>_.
     bnd (sort_nodes (gnodes graph)) (\<lambda>sorted_list.
     bnd (select_loop (length sorted_list) (root graph) sorted_list (root graph) None 1) (\<lambda>_.
     bnd (check_visited (gnodes graph)) (\<lambda>_.
     detect_loops (gnodes graph))))))"

section \<open>Joining traces by the weight of arcs\<close>

text \<open>The array of the arcs has \<open>MAX_SIZE\<close> entries, the call stops when it is full.\<close>

definition MAX_SIZE :: nat where
  "MAX_SIZE = MAX_GRAPH_SIZE * 2"

type_synonym cell = "nat \<times> nat"

definition arc_get :: "cell \<Rightarrow> (trace_lib, arc) prog" where
  "arc_get c = bnd (node_get (fst c)) (\<lambda>n. array_get (Some (destinationArcs n)) (snd c))"

definition arc_set_type :: "cell \<Rightarrow> int \<Rightarrow> (trace_lib, unit) prog" where
  "arc_set_type c ty = node_put (fst c) (\<lambda>n. n\<lparr>destinationArcs := (destinationArcs n)[snd c := (destinationArcs n ! snd c)\<lparr>arcType := ty\<rparr>]\<rparr>)"

definition list_and_clear :: "nat list \<Rightarrow> (trace_lib, nat list) prog" where
  "list_and_clear ns =
     for_each (\<lambda>ptr node_list.
       let node_list = node_list @ [ptr] in
       if length node_list \<ge> MAX_GRAPH_SIZE then fail (Punt ''SelectBySortArc: graph is too large'')
       else bnd (clear_node ptr) (\<lambda>_. ret node_list)) ns []"

definition list_arcs :: "nat list \<Rightarrow> (trace_lib, (cell, rat) ST_Entry list) prog" where
  "list_arcs ns =
     for_each (\<lambda>ptr sorted_list.
       bnd (node_get ptr) (\<lambda>n.
       for_each (\<lambda>i sorted_list.
         let sorted_list = sorted_list @ [\<lparr>st_ptr = (ptr, i), st_index = 0, st_weight = arcWeight (destinationArcs n ! i)\<rparr>] in
         if length sorted_list \<ge> MAX_SIZE then fail (Punt ''SelectBySortArc: graph is too large'')
         else ret sorted_list) [0..<length (destinationArcs n)] sorted_list)) ns []"

text \<open>Joining the trace \<open>bad_id\<close> to the trace \<open>trace_id\<close>: the types of its nodes and arcs are changed.\<close>

definition merge_traces :: "nat list \<Rightarrow> (cell, rat) ST_Entry list \<Rightarrow> int \<Rightarrow> int \<Rightarrow> (trace_lib, unit) prog" where
  "merge_traces node_list sorted_list bad_id trace_id =
     bnd (for_each (\<lambda>a _. bnd (node_get a) (\<lambda>n. if nodeType n = bad_id then set_type a trace_id else ret ())) node_list ()) (\<lambda>_.
     for_each (\<lambda>e _. bnd (arc_get (st_ptr e)) (\<lambda>ac. if arcType ac = bad_id then arc_set_type (st_ptr e) trace_id else ret ())) sorted_list ())"

definition may_join :: "nat option \<Rightarrow> nat \<Rightarrow> nat \<Rightarrow> (trace_lib, bool) prog" where
  "may_join rt src dest =
     bnd (node_get src) (\<lambda>s.
     bnd (node_get dest) (\<lambda>d.
     ret (Some dest \<noteq> rt \<and>
       (nodeStatus s = NOT_VISITED \<or> flag TRACE_TAIL s) \<and>
       (nodeStatus d = NOT_VISITED \<or> flag TRACE_HEAD d) \<and>
       \<not> (flag TRACE_TAIL s \<and> flag TRACE_HEAD d \<and> nodeType s = nodeType d) \<and>
       src \<noteq> dest)))"

definition join_by_arc ::
  "nat option \<Rightarrow> nat list \<Rightarrow> (cell, rat) ST_Entry list \<Rightarrow> cell \<Rightarrow> int \<Rightarrow> (trace_lib, int) prog" where
  "join_by_arc rt node_list sorted_list c next_trace_id =
     bnd (arc_get c) (\<lambda>arc.
     let src = sourceNode arc; dest = destinationNode arc in
     bnd (may_join rt src dest) (\<lambda>may.
     if \<not> may then ret next_trace_id
     else
       bnd (clear_flag TRACE_TAIL src) (\<lambda>_.
       bnd (clear_flag TRACE_HEAD dest) (\<lambda>_.
       bnd (node_get src) (\<lambda>s.
       bnd (node_get dest) (\<lambda>d.
       if flag VISITED s then
         let trace_id = nodeType s in
         bnd (arc_set_type c trace_id) (\<lambda>_.
         if flag VISITED d then
           bnd (merge_traces node_list sorted_list (nodeType d) trace_id) (\<lambda>_. ret next_trace_id)
         else
           bnd (raise_flag (VISITED OR TRACE_TAIL) dest) (\<lambda>_.
           bnd (set_type dest trace_id) (\<lambda>_.
           ret next_trace_id)))
       else if flag VISITED d then
         let trace_id = nodeType d in
         bnd (arc_set_type c trace_id) (\<lambda>_.
         bnd (raise_flag (VISITED OR TRACE_HEAD) src) (\<lambda>_.
         bnd (set_type src trace_id) (\<lambda>_.
         ret next_trace_id)))
       else
         let trace_id = next_trace_id in
         bnd (arc_set_type c trace_id) (\<lambda>_.
         bnd (raise_flag (VISITED OR TRACE_HEAD) src) (\<lambda>_.
         bnd (set_type src trace_id) (\<lambda>_.
         bnd (raise_flag (VISITED OR TRACE_TAIL) dest) (\<lambda>_.
         bnd (set_type dest trace_id) (\<lambda>_.
         ret (next_trace_id + 1))))))))))))"

definition single_traces :: "nat list \<Rightarrow> int \<Rightarrow> (trace_lib, int) prog" where
  "single_traces ns next_trace_id =
     for_each (\<lambda>ptr next_trace_id.
       bnd (node_get ptr) (\<lambda>n.
       if flag VISITED n then ret next_trace_id
       else
         bnd (raise_flag (VISITED OR TRACE_HEAD OR TRACE_TAIL) ptr) (\<lambda>_.
         bnd (set_type ptr next_trace_id) (\<lambda>_.
         ret (next_trace_id + 1))))) ns next_trace_id"

definition SelectBySortArc :: "FGraph \<Rightarrow> (trace_lib, unit) prog" where
  "SelectBySortArc graph =
     bnd (list_and_clear (gnodes graph)) (\<lambda>node_list.
     bnd (list_arcs (gnodes graph)) (\<lambda>arcs.
     bnd (on_local (max_sort (int (length arcs))) arcs) (\<lambda>sorted_list.
     bnd (for_each (\<lambda>e next_trace_id. join_by_arc (root graph) node_list sorted_list (st_ptr e) next_trace_id) sorted_list 1) (\<lambda>next_trace_id.
     bnd (single_traces (gnodes graph) next_trace_id) (\<lambda>_.
     detect_loops (gnodes graph))))))"

end
