(* ===== verification/Trace_Marks.thy ===== *)
theory Trace_Marks
  imports Trace_Dominators Trace_Selection Graph_Traversals
begin

text \<open>
  The marks that the selection of \<open>src/src/library/libflow/trace.c\<close> leaves on a graph: the flags of the nodes and the types of the arcs. A
  trace is a list of nodes, and \<open>links\<close> are the pairs of nodes that follow each other in one. \<open>marked\<close> says that the arcs with a type
  are those along the links; joining two nodes keeps it. What the selection does not change of a node is its \<open>outline\<close>.
\<close>

section \<open>Flags\<close>

lemma flag_or [simp]: "flag k (n\<lparr>nodeStatus := nodeStatus n OR m\<rparr>) \<longleftrightarrow> flag k n \<or> m AND k \<noteq> 0"
  by (simp add: flag_def bit.conj_disj_distrib2 or_eq_0_iff)

lemma flag_values [simp]:
  "VISITED AND VISITED \<noteq> 0" "VISITED AND TRACE_HEAD = 0" "VISITED AND TRACE_TAIL = 0" "VISITED AND LOOP_HEAD = 0"
  "TRACE_HEAD AND VISITED = 0" "TRACE_HEAD AND TRACE_HEAD \<noteq> 0" "TRACE_HEAD AND TRACE_TAIL = 0" "TRACE_HEAD AND LOOP_HEAD = 0"
  "TRACE_TAIL AND VISITED = 0" "TRACE_TAIL AND TRACE_HEAD = 0" "TRACE_TAIL AND TRACE_TAIL \<noteq> 0" "TRACE_TAIL AND LOOP_HEAD = 0"
  "LOOP_HEAD AND VISITED = 0" "LOOP_HEAD AND TRACE_HEAD = 0" "LOOP_HEAD AND TRACE_TAIL = 0" "LOOP_HEAD AND LOOP_HEAD \<noteq> 0"
  by (simp_all add: VISITED_def TRACE_HEAD_def TRACE_TAIL_def LOOP_HEAD_def)

lemma flag_nonzero [simp]: "VISITED \<noteq> 0" "TRACE_HEAD \<noteq> 0" "TRACE_TAIL \<noteq> 0" "LOOP_HEAD \<noteq> 0"
  by (simp_all add: VISITED_def TRACE_HEAD_def TRACE_TAIL_def LOOP_HEAD_def)

lemma flag_clear [simp]:
  "flag VISITED (n\<lparr>nodeStatus := nodeStatus n AND NOT VISITED\<rparr>) \<longleftrightarrow> False"
  "flag TRACE_HEAD (n\<lparr>nodeStatus := nodeStatus n AND NOT VISITED\<rparr>) \<longleftrightarrow> flag TRACE_HEAD n"
  "flag TRACE_TAIL (n\<lparr>nodeStatus := nodeStatus n AND NOT VISITED\<rparr>) \<longleftrightarrow> flag TRACE_TAIL n"
  "flag VISITED (n\<lparr>nodeStatus := nodeStatus n AND NOT TRACE_HEAD\<rparr>) \<longleftrightarrow> flag VISITED n"
  "flag TRACE_HEAD (n\<lparr>nodeStatus := nodeStatus n AND NOT TRACE_HEAD\<rparr>) \<longleftrightarrow> False"
  "flag TRACE_TAIL (n\<lparr>nodeStatus := nodeStatus n AND NOT TRACE_HEAD\<rparr>) \<longleftrightarrow> flag TRACE_TAIL n"
  "flag VISITED (n\<lparr>nodeStatus := nodeStatus n AND NOT TRACE_TAIL\<rparr>) \<longleftrightarrow> flag VISITED n"
  "flag TRACE_HEAD (n\<lparr>nodeStatus := nodeStatus n AND NOT TRACE_TAIL\<rparr>) \<longleftrightarrow> flag TRACE_HEAD n"
  "flag TRACE_TAIL (n\<lparr>nodeStatus := nodeStatus n AND NOT TRACE_TAIL\<rparr>) \<longleftrightarrow> False"
  by (simp_all add: flag_def and.assoc VISITED_def TRACE_HEAD_def TRACE_TAIL_def)

lemma flag_zero: "nodeStatus n = 0 \<Longrightarrow> \<not> flag k n"
  by (simp add: flag_def)

lemma flag_other [simp]:
  "flag k (n\<lparr>nodeType := ty\<rparr>) = flag k n" "flag k (n\<lparr>sourceArcs := as\<rparr>) = flag k n" "flag k (n\<lparr>destinationArcs := as\<rparr>) = flag k n"
  "flag k (n\<lparr>nodeWeight := w\<rparr>) = flag k n" "flag k (n\<lparr>nodeId := i\<rparr>) = flag k n"
  by (simp_all add: flag_def)

text \<open>The bit that the traversals of the graph library use is none of the flags.\<close>

lemma reserved_flags [simp]:
  "VISITED AND RESERVED_STATUS_BITS = 0" "TRACE_HEAD AND RESERVED_STATUS_BITS = 0" "TRACE_TAIL AND RESERVED_STATUS_BITS = 0"
  "LOOP_HEAD AND RESERVED_STATUS_BITS = 0" "(j OR k) AND RESERVED_STATUS_BITS = 0 \<longleftrightarrow> j AND RESERVED_STATUS_BITS = 0 \<and> k AND RESERVED_STATUS_BITS = 0"
  by (simp_all add: VISITED_def TRACE_HEAD_def TRACE_TAIL_def LOOP_HEAD_def RESERVED_STATUS_BITS_def reserved_bit [unfolded RESERVED_STATUS_BITS_def] bit_or_iff)

lemma is_marked_flags [simp]:
  "is_marked (n\<lparr>nodeStatus := nodeStatus n OR k\<rparr>) \<longleftrightarrow> is_marked n \<or> k AND RESERVED_STATUS_BITS \<noteq> 0"
  "k AND RESERVED_STATUS_BITS = 0 \<Longrightarrow> is_marked (n\<lparr>nodeStatus := nodeStatus n AND NOT k\<rparr>) = is_marked n"
  "is_marked (n\<lparr>nodeType := ty\<rparr>) = is_marked n" "is_marked (n\<lparr>nodeStatus := 0\<rparr>) \<longleftrightarrow> False"
  by (simp_all add: is_marked_def reserved_bit bit_or_iff bit_and_iff bit_not_iff)

section \<open>The outline of a graph\<close>

definition untyped :: "arc \<Rightarrow> rat \<times> nat \<times> nat" where
  "untyped e = (arcWeight e, sourceNode e, destinationNode e)"

definition outline :: "gnode \<Rightarrow> bool \<times> int \<times> rat \<times> nat option \<times> (rat \<times> nat \<times> nat) list \<times> (rat \<times> nat \<times> nat) list" where
  "outline n = (is_marked n, nodeId n, nodeWeight n, nodeExt n, map untyped (sourceArcs n), map untyped (destinationArcs n))"

lemma outline_upd [simp]:
  "outline (n\<lparr>nodeType := ty\<rparr>) = outline n"
  "k AND RESERVED_STATUS_BITS = 0 \<Longrightarrow> outline (n\<lparr>nodeStatus := nodeStatus n OR k\<rparr>) = outline n"
  "k AND RESERVED_STATUS_BITS = 0 \<Longrightarrow> outline (n\<lparr>nodeStatus := nodeStatus n AND NOT k\<rparr>) = outline n"
  by (simp_all add: outline_def)

lemma outlineD:
  assumes "outline n = outline n'"
  shows "is_marked n = is_marked n'" "nodeExt n = nodeExt n'" "nodeWeight n = nodeWeight n'" "nodeId n = nodeId n'"
    "untyped ` set (sourceArcs n) = untyped ` set (sourceArcs n')" "untyped ` set (destinationArcs n) = untyped ` set (destinationArcs n')"
  using assms by (simp_all add: outline_def) (metis list.set_map)+

text \<open>Every arc is kept at both of its ends, and no arc leaves the graph.\<close>

definition ends :: "arc list \<Rightarrow> (nat \<times> nat) set" where
  "ends es = (\<lambda>e. (sourceNode e, destinationNode e)) ` set es"

lemma ends_untyped: "ends es = snd ` untyped ` set es"
  by (simp add: ends_def untyped_def image_image)

definition paired :: "nat list \<Rightarrow> (nat \<Rightarrow> gnode) \<Rightarrow> bool" where
  "paired ns m = (\<forall>a\<in>set ns.
     (\<forall>p\<in>ends (destinationArcs (m a)). fst p = a \<and> snd p \<in> set ns \<and> p \<in> ends (sourceArcs (m (snd p)))) \<and>
     (\<forall>p\<in>ends (sourceArcs (m a)). snd p = a \<and> fst p \<in> set ns \<and> p \<in> ends (destinationArcs (m (fst p)))))"

lemma pairedD:
  assumes "paired ns m" "a \<in> set ns"
  shows "e \<in> set (destinationArcs (m a)) \<Longrightarrow> sourceNode e = a \<and> destinationNode e \<in> set ns"
    and "e \<in> set (sourceArcs (m a)) \<Longrightarrow> destinationNode e = a \<and> sourceNode e \<in> set ns"
    and "e \<in> set (destinationArcs (m a)) \<Longrightarrow> \<exists>e'\<in>set (sourceArcs (m (destinationNode e))). sourceNode e' = a \<and> destinationNode e' = destinationNode e"
    and "e \<in> set (sourceArcs (m a)) \<Longrightarrow> \<exists>e'\<in>set (destinationArcs (m (sourceNode e))). sourceNode e' = sourceNode e \<and> destinationNode e' = a"
  using assms by (fastforce simp: paired_def ends_def)+

lemma paired_preds: "paired ns m \<Longrightarrow> a \<in> set ns \<Longrightarrow> preds m a \<subseteq> set ns"
  using pairedD(2) by (fastforce simp: preds_def)

lemma ends_outline:
  "outline n = outline n' \<Longrightarrow> ends (sourceArcs n) = ends (sourceArcs n')"
  "outline n = outline n' \<Longrightarrow> ends (destinationArcs n) = ends (destinationArcs n')"
  by (simp_all add: ends_untyped outlineD [of n n'])

lemma paired_outline:
  assumes "\<And>a. a \<in> set ns \<Longrightarrow> outline (m' a) = outline (m a)" "paired ns m"
  shows "paired ns m'"
  using assms(2) ends_outline(1) [OF assms(1)] ends_outline(2) [OF assms(1)] unfolding paired_def by (metis (no_types, lifting))

section \<open>Links\<close>

definition links :: "nat list \<Rightarrow> (nat \<times> nat) set" where
  "links t = set (zip t (tl t))"

definition all_links :: "nat list list \<Rightarrow> (nat \<times> nat) set" where
  "all_links ts = (\<Union>t\<in>set ts. links t)"

lemma links_append: "xs \<noteq> [] \<Longrightarrow> ys \<noteq> [] \<Longrightarrow> links (xs @ ys) = insert (last xs, hd ys) (links xs \<union> links ys)"
proof (induction xs)
  case (Cons x xs)
  show ?case
  proof (cases "xs = []")
    case True
    with Cons.prems show ?thesis by (cases ys) (auto simp: links_def)
  next
    case False
    have "links (x # zs) = insert (x, hd zs) (links zs)" if "zs \<noteq> []" for zs using that by (cases zs) (auto simp: links_def)
    then show ?thesis using Cons False by auto
  qed
qed simp

lemma links_single [simp]: "links [a] = {}"
  by (simp add: links_def)

lemma links_set: "(a, b) \<in> links t \<Longrightarrow> a \<in> set t \<and> b \<in> set (tl t)"
  unfolding links_def by (auto dest: set_zip_leftD set_zip_rightD)

lemma all_links_simps [simp]: "all_links [] = {}" "all_links (ts @ us) = all_links ts \<union> all_links us" "all_links [t] = links t"
  by (auto simp: all_links_def)

lemma all_links_set: "(a, b) \<in> all_links ts \<Longrightarrow> a \<in> set (concat ts) \<and> b \<in> set (concat ts)"
  by (fastforce simp: all_links_def dest: links_set list.set_sel(2) [rotated])

section \<open>Types of arcs\<close>

definition marked :: "nat list \<Rightarrow> (nat \<Rightarrow> gnode) \<Rightarrow> (nat \<times> nat) set \<Rightarrow> bool" where
  "marked ns m R = ((\<forall>a\<in>set ns. \<forall>e\<in>set (destinationArcs (m a)). arcType e \<noteq> 0 \<longrightarrow> (a, destinationNode e) \<in> R \<and> arcType e = nodeType (m a)) \<and>
     (\<forall>a\<in>set ns. \<forall>e\<in>set (sourceArcs (m a)). arcType e \<noteq> 0 \<longrightarrow> (sourceNode e, a) \<in> R \<and> arcType e = nodeType (m a)) \<and>
     (\<forall>a b. (a, b) \<in> R \<longrightarrow> nodeType (m a) \<noteq> 0 \<and> (\<exists>e\<in>set (destinationArcs (m a)). destinationNode e = b \<and> arcType e = nodeType (m a))))"

definition retyped :: "nat \<Rightarrow> nat \<Rightarrow> int \<Rightarrow> (nat \<Rightarrow> gnode) \<Rightarrow> nat \<Rightarrow> gnode" where
  "retyped s d ty m a = (m a)\<lparr>sourceArcs := (if a = d then retype_first s d ty (sourceArcs (m a)) else sourceArcs (m a)),
     destinationArcs := (if a = s then retype_first s d ty (destinationArcs (m a)) else destinationArcs (m a))\<rparr>"

lemma retyped_fields [simp]:
  "nodeType (retyped s d ty m a) = nodeType (m a)" "nodeStatus (retyped s d ty m a) = nodeStatus (m a)"
  "flag k (retyped s d ty m a) = flag k (m a)"
  by (simp_all add: retyped_def)

lemma retype_first_untyped [simp]: "map untyped (retype_first s d ty es) = map untyped es"
  by (induction es) (auto simp: untyped_def)

lemma outline_retyped [simp]: "outline (retyped s d ty m a) = outline (m a)"
  by (simp add: outline_def retyped_def is_marked_def)

lemma retype_first_in:
  "e \<in> set (retype_first s d ty es) \<Longrightarrow> e \<in> set es \<or> arcType e = ty \<and> sourceNode e = s \<and> destinationNode e = d"
  by (induction es) (auto split: if_splits)

lemma retype_first_keeps: "e \<in> set es \<Longrightarrow> arcType e \<noteq> 0 \<Longrightarrow> e \<in> set (retype_first s d ty es)"
  by (induction es) auto

lemma retype_first_new:
  "e \<in> set es \<Longrightarrow> arcType e = 0 \<Longrightarrow> sourceNode e = s \<Longrightarrow> destinationNode e = d \<Longrightarrow>
   \<exists>e'\<in>set (retype_first s d ty es). destinationNode e' = d \<and> arcType e' = ty"
  by (induction es) auto

text \<open>One of the two nodes, \<open>x\<close>, has no link yet and gets the type of the other.\<close>

lemma marked_join:
  assumes mk: "marked ns m R" and arc: "e \<in> set (destinationArcs (m s))" "arcType e = 0" "sourceNode e = s" "destinationNode e = d"
    and sd: "s \<noteq> d" and x: "x = s \<or> x = d" "\<And>y. (x, y) \<notin> R" "\<And>y. (y, x) \<notin> R"
    and ty: "\<And>a. a \<in> {s, d} \<Longrightarrow> a \<noteq> x \<Longrightarrow> nodeType (m a) = ty" "ty \<noteq> 0" and xin: "x \<in> set ns"
    and m': "\<And>a. sourceArcs (m' a) = sourceArcs (retyped s d ty m a)" "\<And>a. destinationArcs (m' a) = destinationArcs (retyped s d ty m a)"
      "\<And>a. nodeType (m' a) = (if a = x then ty else nodeType (m a))"
  shows "marked ns m' (insert (s, d) R)"
proof -
  have x0: "arcType e = 0" if "e \<in> set (destinationArcs (m x)) \<or> e \<in> set (sourceArcs (m x))" for e
    using mk xin x(2,3) that unfolding marked_def by blast
  have tys: "nodeType (m' s) = ty" "nodeType (m' d) = ty" using x(1) ty(1) by (auto simp: m'(3))
  have 1: "(a, destinationNode e) \<in> insert (s, d) R \<and> arcType e = nodeType (m' a)"
    if "a \<in> set ns" "e \<in> set (destinationArcs (m' a))" "arcType e \<noteq> 0" for a e
  proof -
    have "e \<in> set (destinationArcs (m a)) \<or> a = s \<and> arcType e = ty \<and> destinationNode e = d"
      using that(2) by (auto simp: m' retyped_def split: if_splits dest: retype_first_in)
    then show ?thesis
    proof
      assume e: "e \<in> set (destinationArcs (m a))"
      with x0 that(3) have "a \<noteq> x" by auto
      with mk that e show ?thesis by (auto simp: marked_def m'(3))
    qed (use tys in auto)
  qed
  have 2: "(sourceNode e, a) \<in> insert (s, d) R \<and> arcType e = nodeType (m' a)"
    if "a \<in> set ns" "e \<in> set (sourceArcs (m' a))" "arcType e \<noteq> 0" for a e
  proof -
    have "e \<in> set (sourceArcs (m a)) \<or> a = d \<and> arcType e = ty \<and> sourceNode e = s"
      using that(2) by (auto simp: m' retyped_def split: if_splits dest: retype_first_in)
    then show ?thesis
    proof
      assume e: "e \<in> set (sourceArcs (m a))"
      with x0 that(3) have "a \<noteq> x" by auto
      with mk that e show ?thesis by (auto simp: marked_def m'(3))
    qed (use tys in auto)
  qed
  have 3: "nodeType (m' a) \<noteq> 0 \<and> (\<exists>e\<in>set (destinationArcs (m' a)). destinationNode e = b \<and> arcType e = nodeType (m' a))" if "(a, b) \<in> insert (s, d) R" for a b
  proof (cases "(a, b) = (s, d)")
    case True
    then have "a = s" "b = d" by auto
    with retype_first_new [OF arc, of ty] show ?thesis by (auto simp: tys ty(2) m'(2) retyped_def)
  next
    case False
    with that have ab: "(a, b) \<in> R" by auto
    then obtain e where e: "e \<in> set (destinationArcs (m a))" "destinationNode e = b" "arcType e = nodeType (m a)" "nodeType (m a) \<noteq> 0"
      using mk unfolding marked_def by metis
    have "a \<noteq> x" using ab x(2) by auto
    moreover have "e \<in> set (destinationArcs (m' a))" using e by (auto simp: m'(2) retyped_def intro: retype_first_keeps)
    ultimately show ?thesis using e by (auto simp: m'(3))
  qed
  show ?thesis unfolding marked_def using 1 2 3 by blast
qed

end
