(* ===== verification/Trace_Growth.thy ===== *)
theory Trace_Growth
  imports Trace_Marks
begin

text \<open>
  Growing traces from seeds, \<open>SelectTraces\<close> of \<open>src/src/library/libflow/trace.c\<close>: the invariant of the selection is \<open>selection\<close>, over the list
  of the traces found so far.
\<close>

section \<open>What the selection leaves alone\<close>

definition moved :: "nat list \<Rightarrow> trace_lib \<Rightarrow> trace_lib \<Rightarrow> bool" where
  "moved ns g h = (h = g\<lparr>node_mem := node_mem h\<rparr> \<and> (\<forall>a. outline (node_mem h a) = outline (node_mem g a)) \<and>
     (\<forall>a. a \<notin> set ns \<longrightarrow> node_mem h a = node_mem g a))"

definition ready :: "nat list \<Rightarrow> trace_lib \<Rightarrow> bool" where
  "ready ns g = (extended ns (node_mem g) g \<and> paired ns (node_mem g) \<and> distinct ns)"

lemma moved_refl: "moved ns g g"
  by (simp add: moved_def)

lemma moved_trans: "moved ns g h \<Longrightarrow> moved ns h k \<Longrightarrow> moved ns g k"
  unfolding moved_def by (cases g; cases h; cases k) auto

lemma moved_put:
  assumes "moved ns g h" "\<And>a. outline (m a) = outline (node_mem h a)" "\<And>a. a \<notin> set ns \<Longrightarrow> m a = node_mem h a"
  shows "moved ns g (h\<lparr>node_mem := m\<rparr>)"
  using assms unfolding moved_def by (cases g; cases h) auto

lemma moved_paired: "moved ns g h \<Longrightarrow> paired ns (node_mem g) \<Longrightarrow> paired ns (node_mem h)"
  by (rule paired_outline) (auto simp: moved_def)

lemma moved_fields:
  assumes "moved ns g h"
  shows "others h = others g" "n_others h = n_others g" "params h = params g" "doms h = doms g" "SetId h = SetId g" "OUT h = OUT g"
    "mallocated h = mallocated g" "best_successor_of h = best_successor_of g"
proof -
  have "h = g\<lparr>node_mem := node_mem h\<rparr>" using assms by (simp add: moved_def)
  from arg_cong [OF this, of others] arg_cong [OF this, of n_others] arg_cong [OF this, of params] arg_cong [OF this, of doms]
    arg_cong [OF this, of SetId] arg_cong [OF this, of OUT] arg_cong [OF this, of mallocated] arg_cong [OF this, of best_successor_of]
  show "others h = others g" "n_others h = n_others g" "params h = params g" "doms h = doms g" "SetId h = SetId g" "OUT h = OUT g"
    "mallocated h = mallocated g" "best_successor_of h = best_successor_of g" by simp_all
qed

lemma moved_ready: "moved ns g h \<Longrightarrow> ready ns g \<Longrightarrow> ready ns h"
  unfolding ready_def extended_def fielded_def
  using moved_paired [of ns g h] moved_fields [of ns g h] holds_same [of h g "doms g"] outlineD(2) [of "node_mem h _" "node_mem g _"]
  by (simp add: moved_def)

lemma readyD:
  assumes "ready ns g"
  shows "extended ns (node_mem g) g" "paired ns (node_mem g)" "distinct ns" "fielded ns (node_mem g)"
  using assms extendedD(5) by (auto simp: ready_def)

section \<open>The best neighbours\<close>

lemma wp_level_diff:
  "ready ns g \<Longrightarrow> a \<in> set ns \<Longrightarrow> b \<in> set ns \<Longrightarrow>
   wp (level_diff a b) Q g = Q (level (others g (pos ns b)) - level (others g (pos ns a))) g"
  by (simp add: level_diff_def wp_get_ext [OF readyD(4)])

lemma best_arc_wp:
  assumes "\<And>e Q. e \<in> set arcs \<Longrightarrow> wp (weight e) Q g = Q (val e) g"
  shows "wp (best_arc weight arcs) (\<lambda>r h. h = g \<and> (case r of None \<Rightarrow> arcs = [] | Some b \<Rightarrow> b \<in> set arcs \<and> (\<forall>e\<in>set arcs. val e \<le> val b))) g"
  unfolding best_arc_def
proof (rule wp_for_each [where I = "\<lambda>k r h. h = g \<and> (case r of None \<Rightarrow> k = 0 | Some b \<Rightarrow> b \<in> set (take k arcs) \<and> (\<forall>e\<in>set (take k arcs). val e \<le> val b))"])
  fix k r h assume k: "k < length arcs"
    and I: "h = g \<and> (case r of None \<Rightarrow> k = 0 | Some b \<Rightarrow> b \<in> set (take k arcs) \<and> (\<forall>e\<in>set (take k arcs). val e \<le> val b))"
  have tk: "set (take (Suc k) arcs) = insert (arcs ! k) (set (take k arcs))" using k by (simp add: take_Suc_conv_app_nth)
  have w: "wp (weight (arcs ! k)) Q g = Q (val (arcs ! k)) g" for Q using assms k by simp
  show "wp (case r of None \<Rightarrow> ret (Some (arcs ! k))
       | Some b \<Rightarrow> bnd (weight (arcs ! k)) (\<lambda>w. bnd (weight b) (\<lambda>v. ret (if w > v then Some (arcs ! k) else Some b))))
     (\<lambda>r h. h = g \<and> (case r of None \<Rightarrow> Suc k = 0 | Some b \<Rightarrow> b \<in> set (take (Suc k) arcs) \<and> (\<forall>e\<in>set (take (Suc k) arcs). val e \<le> val b))) h"
  proof (cases r)
    case None
    with I tk k show ?thesis by simp
  next
    case (Some b)
    then have "b \<in> set arcs" using I by (auto dest: in_set_takeD)
    then have v: "wp (weight b) Q g = Q (val b) g" for Q using assms by simp
    have "h = g" "b \<in> set (take k arcs)" "\<forall>e\<in>set (take k arcs). val e \<le> val b" using I Some by auto
    then show ?thesis by (simp add: Some v w tk) (meson less_le_trans linear not_le order.trans)
  qed
qed (simp_all split: option.splits)

text \<open>What is common to the ways of choosing: the best arc, unless its other end is visited or it fails a test.\<close>

lemma choose_wp:
  assumes "\<And>e Q. e \<in> set arcs \<Longrightarrow> wp (weight e) Q g = Q (val e) g"
    and "\<And>b. b \<in> set arcs \<Longrightarrow> (\<And>e. e \<in> set arcs \<Longrightarrow> val e \<le> val b) \<Longrightarrow> wp (test b) (\<lambda>r h. h = g \<and> (\<forall>e. r = Some e \<longrightarrow> P e)) g"
  shows "wp (bnd (best_arc weight arcs) (\<lambda>best. case best of None \<Rightarrow> ret None | Some b \<Rightarrow> test b)) (\<lambda>r h. h = g \<and> (\<forall>e. r = Some e \<longrightarrow> P e)) g"
  unfolding wp_bnd
  by (rule wp_mono [OF best_arc_wp [OF assms(1)]]) (use assms(2) in \<open>auto split: option.splits\<close>)

lemma best_successor_wp:
  assumes r: "ready ns g" and s: "s \<in> set ns"
  shows "wp (best_successor s) (\<lambda>r h. h = g \<and> (\<forall>e. r = Some e \<longrightarrow>
    e \<in> set (destinationArcs (node_mem g s)) \<and> \<not> flag VISITED (node_mem g (destinationNode e)))) g"
proof -
  note p = pairedD(1) [OF readyD(2) [OF r] s]
  have w: "wp (successor_node_weight s (destinationNode e)) Q g = Q (nodeWeight (node_mem g (destinationNode e)) +
      favour_successor (level (others g (pos ns (destinationNode e))) - level (others g (pos ns s)))) g"
    if "e \<in> set (destinationArcs (node_mem g s))" for e Q
    using p [OF that] s by (simp add: successor_node_weight_def node_get_def wp_level_diff [OF r])
  have v: "wp (successor_arc_weight e) Q g = Q (arcWeight e +
      favour_successor (level (others g (pos ns (destinationNode e))) - level (others g (pos ns s)))) g"
    if "e \<in> set (destinationArcs (node_mem g s))" for e Q
    using p [OF that] s by (simp add: successor_arc_weight_def wp_level_diff [OF r])
  show ?thesis
    unfolding best_successor_def wp_bnd wp_gets
    by (cases "best_successor_of g"; simp only: selector.case)
       (simp add: best_successor_1_def best_successor_2_def best_successor_3_def node_get_def del: wp_bnd [of "best_arc _ _"];
        rule choose_wp [OF w, unfolded wp_bnd] choose_wp [OF v, unfolded wp_bnd], assumption,
        auto simp: probable_def node_get_def)+
qed

lemma best_predecessor_wp:
  assumes r: "ready ns g" and d: "d \<in> set ns"
  shows "wp (best_predecessor d) (\<lambda>r h. h = g \<and> (\<forall>e. r = Some e \<longrightarrow>
    e \<in> set (sourceArcs (node_mem g d)) \<and> \<not> flag VISITED (node_mem g (sourceNode e)))) g"
proof -
  note p = pairedD(2) [OF readyD(2) [OF r] d]
  have w: "wp (predecessor_node_weight (sourceNode e) d) Q g = Q (nodeWeight (node_mem g (sourceNode e)) +
      favour_predecessor (level (others g (pos ns d)) - level (others g (pos ns (sourceNode e))))) g"
    if "e \<in> set (sourceArcs (node_mem g d))" for e Q
    using p [OF that] d by (simp add: predecessor_node_weight_def node_get_def wp_level_diff [OF r])
  have v: "wp (predecessor_arc_weight e) Q g = Q (arcWeight e +
      favour_predecessor (level (others g (pos ns d)) - level (others g (pos ns (sourceNode e))))) g"
    if "e \<in> set (sourceArcs (node_mem g d))" for e Q
    using p [OF that] d by (simp add: predecessor_arc_weight_def wp_level_diff [OF r])
  show ?thesis
    unfolding best_predecessor_def wp_bnd wp_gets
    by (cases "best_predecessor_of g"; simp only: selector.case)
       (simp add: best_predecessor_1_def best_predecessor_2_def best_predecessor_3_def node_get_def;
        rule choose_wp [OF w, unfolded wp_bnd] choose_wp [OF v, unfolded wp_bnd], assumption,
        auto simp: probable_def node_get_def)+
qed

lemma dominated_by_wp:
  assumes r: "ready ns g" and ab: "a \<in> set ns" "b \<in> set ns"
  shows "wp (dominated_by a b) Q g = Q (int (pos ns b) \<in> dom_table g (pos ns a)) g"
proof -
  note e = extendedD [OF readyD(1) [OF r]]
  have "wf_set (doms g (pos ns a))" using holds_live [OF e(1)] by (rule live_wf)
  moreover have "nodeExt (node_mem g a) = Some (pos ns a)" "nodeExt (node_mem g b) = Some (pos ns b)" using readyD(4) [OF r] ab by (auto simp: fielded_def)
  ultimately show ?thesis
    using ab e(6) e(7) pos_less
    by (simp add: dominated_by_def node_get_def wp_get_ext [OF readyD(4) [OF r]] wp_Set_in INT_MIN_def dom_table_def)
qed

section \<open>Joining a node to a trace\<close>

lemma mark_arc_wp:
  assumes e: "e \<in> set (destinationArcs (node_mem g s))" "arcType e = 0" "sourceNode e = s" "destinationNode e = d"
    and e': "e' \<in> set (sourceArcs (node_mem g d))" "arcType e' = 0" "sourceNode e' = s" "destinationNode e' = d"
  shows "wp (mark_arc seed s d) Q g = Q () (g\<lparr>node_mem := retyped s d (nodeType (node_mem g seed)) (node_mem g)\<rparr>)"
proof -
  let ?m = "node_mem g" and ?ty = "nodeType (node_mem g seed)"
  let ?m1 = "?m(d := (?m d)\<lparr>sourceArcs := retype_first s d ?ty (sourceArcs (?m d))\<rparr>)"
  have "find (\<lambda>a. arcType a = 0 \<and> sourceNode a = s \<and> destinationNode a = d) (sourceArcs (?m d)) \<noteq> None"
    "find (\<lambda>a. arcType a = 0 \<and> sourceNode a = s \<and> destinationNode a = d) (destinationArcs (?m s)) \<noteq> None"
    using e e' by (auto simp: find_None_iff)
  moreover have "destinationArcs (?m1 s) = destinationArcs (?m s)" by simp
  moreover have "?m1(s := (?m1 s)\<lparr>destinationArcs := retype_first s d ?ty (destinationArcs (?m s))\<rparr>) = retyped s d ?ty ?m"
    by (auto simp: retyped_def fun_eq_iff)
  ultimately show ?thesis
    by (simp add: mark_arc_def FindSrcArc_def FindDestArc_def node_get_def node_put_def del: fun_upd_apply)
qed

definition joined :: "nat \<Rightarrow> nat \<Rightarrow> nat \<Rightarrow> int \<Rightarrow> (nat \<Rightarrow> gnode) \<Rightarrow> nat \<Rightarrow> gnode" where
  "joined s d x ty m a = (if a = x then (retyped s d ty m a)\<lparr>nodeType := ty, nodeStatus := nodeStatus (m a) OR VISITED\<rparr> else retyped s d ty m a)"

lemma joined_fields:
  "nodeType (joined s d x ty m a) = (if a = x then ty else nodeType (m a))"
  "flag k (joined s d x ty m a) = (flag k (m a) \<or> a = x \<and> VISITED AND k \<noteq> 0)"
  "nodeStatus (joined s d x ty m a) = (if a = x then nodeStatus (m a) OR VISITED else nodeStatus (m a))"
  "sourceArcs (joined s d x ty m a) = sourceArcs (retyped s d ty m a)"
  "destinationArcs (joined s d x ty m a) = destinationArcs (retyped s d ty m a)"
  "outline (joined s d x ty m a) = outline (m a)"
  using flag_or [of k "m a" VISITED] by (auto simp: joined_def flag_def outline_def retyped_def is_marked_def)

lemma add_to_trace_wp:
  assumes "x \<noteq> seed"
  shows "wp (add_to_trace seed x) Q (g\<lparr>node_mem := retyped s d (nodeType (node_mem g seed)) (node_mem g)\<rparr>) =
    Q () (g\<lparr>node_mem := joined s d x (nodeType (node_mem g seed)) (node_mem g)\<rparr>)"
proof -
  let ?r = "retyped s d (nodeType (node_mem g seed)) (node_mem g)"
  have "(?r(x := (?r x)\<lparr>nodeType := nodeType (node_mem g seed)\<rparr>))(x := ((?r(x := (?r x)\<lparr>nodeType := nodeType (node_mem g seed)\<rparr>)) x)
      \<lparr>nodeStatus := nodeStatus ((?r(x := (?r x)\<lparr>nodeType := nodeType (node_mem g seed)\<rparr>)) x) OR VISITED\<rparr>) =
    joined s d x (nodeType (node_mem g seed)) (node_mem g)"
    by (auto simp: joined_def fun_eq_iff)
  then show ?thesis by (simp add: add_to_trace_def set_type_def raise_flag_def node_get_def node_put_def del: fun_upd_apply)
qed

section \<open>The invariant of the selection\<close>

definition visited :: "nat list \<Rightarrow> (nat \<Rightarrow> gnode) \<Rightarrow> nat list list \<Rightarrow> bool" where
  "visited ns m ts = (distinct (concat ts) \<and> [] \<notin> set ts \<and> set (concat ts) \<subseteq> set ns \<and>
     (\<forall>a\<in>set ns. flag VISITED (m a) \<longleftrightarrow> a \<in> set (concat ts)) \<and> (\<forall>a\<in>set ns. a \<notin> set (concat ts) \<longrightarrow> nodeStatus (m a) = 0))"

definition indexed :: "(nat \<Rightarrow> gnode) \<Rightarrow> nat list list \<Rightarrow> bool" where
  "indexed m ts = (\<forall>i<length ts. \<forall>a\<in>set (ts ! i). nodeType (m a) = int i + 1)"

text \<open>The flags of the nodes of a trace \<open>t\<close>: whether its first node is flagged as head and its last node as tail.\<close>

definition ended :: "(nat \<Rightarrow> gnode) \<Rightarrow> bool \<Rightarrow> bool \<Rightarrow> nat list \<Rightarrow> bool" where
  "ended m h l t = (\<forall>a\<in>set t. (flag TRACE_HEAD (m a) \<longleftrightarrow> h \<and> a = hd t) \<and> (flag TRACE_TAIL (m a) \<longleftrightarrow> l \<and> a = last t))"

text \<open>The entry \<open>r\<close> is not in the middle or at the end of a trace.\<close>

definition entered :: "nat \<Rightarrow> nat list list \<Rightarrow> bool" where
  "entered r ts = (\<forall>t\<in>set ts. r \<notin> set (tl t))"

definition selection :: "nat list \<Rightarrow> nat \<Rightarrow> (nat \<Rightarrow> gnode) \<Rightarrow> nat list list \<Rightarrow> bool" where
  "selection ns r m ts = (visited ns m ts \<and> indexed m ts \<and> marked ns m (all_links ts) \<and> entered r ts \<and>
     (\<forall>a\<in>set ns. \<not> flag LOOP_HEAD (m a)))"

text \<open>The trace under way, \<open>t\<close>, with the finished ones.\<close>

definition under_way :: "nat list \<Rightarrow> nat \<Rightarrow> (nat \<Rightarrow> gnode) \<Rightarrow> nat list list \<Rightarrow> bool \<Rightarrow> bool \<Rightarrow> nat list \<Rightarrow> bool" where
  "under_way ns r m ts h l t = (selection ns r m (ts @ [t]) \<and> (\<forall>u\<in>set ts. ended m True True u) \<and> ended m h l t)"

text \<open>A neighbour that is not visited yet is joined to the trace, in front or behind.\<close>

lemma visited_grow:
  assumes v: "visited ns m (ts @ [t])" and x: "x \<in> set ns" "\<not> flag VISITED (m x)"
    and t': "set t' = insert x (set t)" "distinct t \<Longrightarrow> x \<notin> set t \<Longrightarrow> distinct t'" "t' \<noteq> []"
  shows "visited ns (joined s d x ty m) (ts @ [t'])" "x \<notin> set (concat (ts @ [t]))" "nodeStatus (m x) = 0"
proof -
  show new: "x \<notin> set (concat (ts @ [t]))" using v x by (auto simp: visited_def)
  then show "nodeStatus (m x) = 0" using v x by (auto simp: visited_def)
  show "visited ns (joined s d x ty m) (ts @ [t'])"
    using v x new t' unfolding visited_def by (auto simp: joined_fields)
qed

lemma indexed_grow:
  assumes "indexed m (ts @ [t])" "x \<notin> set (concat (ts @ [t]))" "set t' = insert x (set t)" "ty = int (length ts) + 1"
  shows "indexed (joined s d x ty m) (ts @ [t'])"
  using assms unfolding indexed_def
  by (auto simp: joined_fields nth_append less_Suc_eq split: if_splits)

lemma free_arcs:
  assumes mk: "marked ns m R" and pr: "paired ns m" and s: "s \<in> set ns" and e: "e \<in> set (destinationArcs (m s))" "destinationNode e = d"
    and R: "(s, d) \<notin> R"
  shows "arcType e = 0" "sourceNode e = s"
    "\<exists>e'\<in>set (sourceArcs (m d)). arcType e' = 0 \<and> sourceNode e' = s \<and> destinationNode e' = d"
proof -
  have d: "d \<in> set ns" "sourceNode e = s" using pairedD(1) [OF pr s e(1)] e(2) by auto
  then show "sourceNode e = s" by simp
  show "arcType e = 0" using mk s e R by (auto simp: marked_def)
  obtain e' where e': "e' \<in> set (sourceArcs (m d))" "sourceNode e' = s" "destinationNode e' = d"
    using pairedD(3) [OF pr s e(1)] e(2) by auto
  then have "arcType e' = 0" using mk d(1) R by (auto simp: marked_def)
  with e' show "\<exists>e'\<in>set (sourceArcs (m d)). arcType e' = 0 \<and> sourceNode e' = s \<and> destinationNode e' = d" by blast
qed

lemma selection_grow:
  assumes sel: "selection ns r m (ts @ [t])" and pr: "paired ns m" and x: "x \<in> set ns" "\<not> flag VISITED (m x)"
    and sd: "s = x \<and> d \<in> set t \<or> s \<in> set t \<and> d = x" and e: "e \<in> set (destinationArcs (m s))" "destinationNode e = d"
    and t': "set t' = insert x (set t)" "distinct t \<Longrightarrow> x \<notin> set t \<Longrightarrow> distinct t'" "links t' = insert (s, d) (links t)" "r \<notin> set (tl t')"
  shows "selection ns r (joined s d x (int (length ts) + 1) m) (ts @ [t'])" "(s, d) \<notin> all_links (ts @ [t])" "nodeStatus (m x) = 0" "x \<notin> set (concat (ts @ [t]))"
proof -
  let ?ty = "int (length ts) + 1"
  have sel': "visited ns m (ts @ [t])" "indexed m (ts @ [t])" "marked ns m (all_links (ts @ [t]))" "entered r (ts @ [t])"
    using sel by (auto simp: selection_def)
  have "t' \<noteq> []" using t'(1) by auto
  note v = visited_grow [OF sel'(1) x t'(1,2) this]
  show new: "x \<notin> set (concat (ts @ [t]))" by (rule v(2)) auto
  have nolink: "(x, y) \<notin> all_links (ts @ [t])" "(y, x) \<notin> all_links (ts @ [t])" for y
    using new all_links_set [of x y "ts @ [t]"] all_links_set [of y x "ts @ [t]"] by auto
  then show nl: "(s, d) \<notin> all_links (ts @ [t])" using sd by auto
  show "nodeStatus (m x) = 0" by (rule v(3)) auto
  have tin: "set t \<subseteq> set ns" using sel'(1) by (auto simp: visited_def)
  then have s: "s \<in> set ns" using sd x(1) by auto
  note fr = free_arcs [OF sel'(3) pr s e nl]
  have tt: "nodeType (m a) = ?ty" if "a \<in> set t" for a using sel'(2) that by (auto simp: indexed_def nth_append dest: spec [of _ "length ts"])
  have "marked ns (joined s d x ?ty m) (insert (s, d) (all_links (ts @ [t])))"
    by (rule marked_join [OF sel'(3) e(1) fr(1,2) e(2), where x = x and ty = ?ty])
       (use sd new nolink tt x in \<open>auto simp: joined_fields\<close>)
  moreover have "insert (s, d) (all_links (ts @ [t])) = all_links (ts @ [t'])" using t'(3) by simp
  moreover have "entered r (ts @ [t'])" using sel'(4) t'(4) by (auto simp: entered_def)
  ultimately show "selection ns r (joined s d x ?ty m) (ts @ [t'])"
    using v(1) [of s d ?ty] indexed_grow [OF sel'(2) new t'(1) refl, of s d] sel by (simp add: selection_def joined_fields)
qed

lemma ended_grow:
  assumes "ended m h l t" "x \<notin> set t"
  shows "ended (joined s d x ty m) h l t"
  using assms by (auto simp: ended_def joined_fields)

lemma under_way_forward:
  assumes u: "under_way ns r m ts False False t" and pr: "paired ns m" and d: "d \<in> set ns" "\<not> flag VISITED (m d)" "d \<noteq> r" and t: "t \<noteq> []"
    and e: "e \<in> set (destinationArcs (m (last t)))" "destinationNode e = d"
  shows "under_way ns r (joined (last t) d d (int (length ts) + 1) m) ts False False (t @ [d])" "(last t, d) \<notin> all_links (ts @ [t])"
proof -
  have sel: "selection ns r m (ts @ [t])" using u by (simp add: under_way_def)
  have "r \<notin> set (tl (t @ [d]))" using sel d(3) t by (auto simp: selection_def entered_def)
  note g = selection_grow [OF sel pr d(1,2) _ e, of "t @ [d]"]
  have "selection ns r (joined (last t) d d (int (length ts) + 1) m) (ts @ [t @ [d]])" "(last t, d) \<notin> all_links (ts @ [t])"
    "nodeStatus (m d) = 0" "d \<notin> set (concat (ts @ [t]))"
    by (rule g; use t \<open>r \<notin> _\<close> links_append [of t "[d]"] in auto)+
  then show "under_way ns r (joined (last t) d d (int (length ts) + 1) m) ts False False (t @ [d])" "(last t, d) \<notin> all_links (ts @ [t])"
    using u ended_grow [of m _ _ _ d] by (auto simp: under_way_def ended_def joined_fields flag_zero)
qed

lemma under_way_backward:
  assumes u: "under_way ns r m ts False True t" and pr: "paired ns m" and s: "s \<in> set ns" "\<not> flag VISITED (m s)" "hd t \<noteq> r" and t: "t \<noteq> []"
    and e: "e \<in> set (destinationArcs (m s))" "destinationNode e = hd t"
  shows "under_way ns r (joined s (hd t) s (int (length ts) + 1) m) ts False True (s # t)" "(s, hd t) \<notin> all_links (ts @ [t])"
proof -
  have sel: "selection ns r m (ts @ [t])" using u by (simp add: under_way_def)
  have "r \<notin> set (tl (s # t))" using sel s(3) t by (cases t) (auto simp: selection_def entered_def)
  note g = selection_grow [OF sel pr s(1,2) _ e, of "s # t"]
  have "selection ns r (joined s (hd t) s (int (length ts) + 1) m) (ts @ [s # t])" "(s, hd t) \<notin> all_links (ts @ [t])"
    "nodeStatus (m s) = 0" "s \<notin> set (concat (ts @ [t]))"
    by (rule g; use t \<open>r \<notin> _\<close> links_append [of "[s]" t] in auto)+
  then show "under_way ns r (joined s (hd t) s (int (length ts) + 1) m) ts False True (s # t)" "(s, hd t) \<notin> all_links (ts @ [t])"
    using u t ended_grow [of m _ _ _ s] by (auto simp: under_way_def ended_def joined_fields flag_zero)
qed

section \<open>Growing\<close>

definition raised :: "int \<Rightarrow> nat \<Rightarrow> (nat \<Rightarrow> gnode) \<Rightarrow> nat \<Rightarrow> gnode" where
  "raised k a m = m(a := (m a)\<lparr>nodeStatus := nodeStatus (m a) OR k\<rparr>)"

lemma raised_fields [simp]:
  "nodeType (raised k a m b) = nodeType (m b)" "sourceArcs (raised k a m b) = sourceArcs (m b)"
  "destinationArcs (raised k a m b) = destinationArcs (m b)" "k AND RESERVED_STATUS_BITS = 0 \<Longrightarrow> outline (raised k a m b) = outline (m b)"
  "flag j (raised k a m b) = (flag j (m b) \<or> b = a \<and> k AND j \<noteq> 0)"
  by (auto simp: raised_def)

lemma raised_other: "b \<noteq> a \<Longrightarrow> raised k a m b = m b"
  by (simp add: raised_def)

lemma wp_raise_flag: "wp (raise_flag k a) Q g = Q () (g\<lparr>node_mem := raised k a (node_mem g)\<rparr>)"
  by (simp add: raise_flag_def node_put_def raised_def)

lemma marked_cong:
  assumes "\<And>a. sourceArcs (m' a) = sourceArcs (m a)" "\<And>a. destinationArcs (m' a) = destinationArcs (m a)" "\<And>a. nodeType (m' a) = nodeType (m a)"
  shows "marked ns m' R = marked ns m R"
  by (simp add: marked_def assms)

lemma selection_raised:
  assumes "selection ns r m ts" "a \<in> set (concat ts)" "k AND VISITED = 0" "k AND LOOP_HEAD = 0"
  shows "selection ns r (raised k a m) ts"
proof -
  have "marked ns (raised k a m) (all_links ts) = marked ns m (all_links ts)" by (rule marked_cong) simp_all
  then show ?thesis
    using assms by (auto simp: selection_def visited_def indexed_def raised_def)
qed

definition unseen :: "nat list \<Rightarrow> (nat \<Rightarrow> gnode) \<Rightarrow> nat" where
  "unseen ns m = card {a\<in>set ns. \<not> flag VISITED (m a)}"

lemma unseen_joined: "x \<in> set ns \<Longrightarrow> \<not> flag VISITED (m x) \<Longrightarrow> unseen ns (joined s d x ty m) < unseen ns m"
  unfolding unseen_def by (rule psubset_card_mono) (auto simp: joined_fields)

lemma unseen_raised [simp]: "k AND VISITED = 0 \<Longrightarrow> unseen ns (raised k a m) = unseen ns m"
  by (simp add: unseen_def)

definition tracing :: "nat list \<Rightarrow> nat \<Rightarrow> trace_lib \<Rightarrow> nat list list \<Rightarrow> bool \<Rightarrow> bool \<Rightarrow> nat list \<Rightarrow> trace_lib \<Rightarrow> bool" where
  "tracing ns r g ts h l t k = (moved ns g k \<and> under_way ns r (node_mem k) ts h l t \<and> t \<noteq> [])"

lemma under_way_ns: "under_way ns r m ts h l t \<Longrightarrow> set t \<subseteq> set ns" "under_way ns r m ts h l t \<Longrightarrow> a \<in> set t \<Longrightarrow> nodeType (m a) = int (length ts) + 1"
  "under_way ns r m ts h l t \<Longrightarrow> distinct t \<and> r \<notin> set (tl t)" "under_way ns r m ts h l t \<Longrightarrow> a \<in> set t \<Longrightarrow> flag VISITED (m a)"
  by (auto simp: under_way_def selection_def visited_def indexed_def entered_def nth_append dest: spec [of _ "length ts"])

lemma moved_joined:
  assumes "moved ns g k" "s \<in> set ns" "d \<in> set ns" "x \<in> {s, d}"
  shows "moved ns g (k\<lparr>node_mem := joined s d x ty (node_mem k)\<rparr>)"
proof (rule moved_put [OF assms(1)])
  show "outline (joined s d x ty (node_mem k) a) = outline (node_mem k a)" for a by (rule joined_fields)
qed (use assms in \<open>auto simp: joined_def retyped_def\<close>)

lemma moved_raised: "moved ns g k \<Longrightarrow> a \<in> set ns \<Longrightarrow> f AND RESERVED_STATUS_BITS = 0 \<Longrightarrow> moved ns g (k\<lparr>node_mem := raised f a (node_mem k)\<rparr>)"
  by (rule moved_put) (simp, auto simp: raised_def)

text \<open>One joint: the arc is marked at both ends and the new node gets the type of the trace.\<close>

lemma join_wp:
  assumes tr: "tracing ns r g ts h l t k" and rd: "ready ns k" and seed: "seed \<in> set t" and s: "s \<in> set ns"
    and x: "x \<notin> set t" and e: "e \<in> set (destinationArcs (node_mem k s))" "destinationNode e = d" "(s, d) \<notin> all_links (ts @ [t])"
    and Q: "Q (k\<lparr>node_mem := joined s d x (int (length ts) + 1) (node_mem k)\<rparr>)"
  shows "wp (bnd (mark_arc seed s d) (\<lambda>_. add_to_trace seed x)) (\<lambda>_. Q) k"
proof -
  have u: "under_way ns r (node_mem k) ts h l t" using tr by (simp add: tracing_def)
  then have mk: "marked ns (node_mem k) (all_links (ts @ [t]))" by (simp add: under_way_def selection_def)
  note fr = free_arcs [OF mk readyD(2) [OF rd] s e(1,2,3)]
  obtain e' where e': "e' \<in> set (sourceArcs (node_mem k d))" "arcType e' = 0" "sourceNode e' = s" "destinationNode e' = d"
    using fr(3) by blast
  have "x \<noteq> seed" using x seed by auto
  note a = add_to_trace_wp [OF this, where g = k and s = s and d = d]
  show ?thesis
    using Q by (simp add: mark_arc_wp [OF e(1) fr(1,2) e(2) e'] a under_way_ns(2) [OF u seed, symmetric])
qed

lemma tracing_ready: "tracing ns r g ts h l t k \<Longrightarrow> ready ns g \<Longrightarrow> ready ns k"
  by (auto simp: tracing_def intro: moved_ready)

lemma tracing_ns: "tracing ns r g ts h l t k \<Longrightarrow> set t \<subseteq> set ns \<and> t \<noteq> []"
  using under_way_ns(1) [of ns r "node_mem k" ts h l t] by (auto simp: tracing_def)

lemma tracing_stop:
  "tracing ns r g ts False False t k \<Longrightarrow> tracing ns r g ts False True t (k\<lparr>node_mem := raised TRACE_TAIL (last t) (node_mem k)\<rparr>)"
  "tracing ns r g ts False True t k \<Longrightarrow> tracing ns r g ts True True t (k\<lparr>node_mem := raised TRACE_HEAD (hd t) (node_mem k)\<rparr>)"
proof -
  have u: "under_way ns r (raised f a m) ts h' l' t"
    if "under_way ns r m ts h l t" "a \<in> set t" "ended (raised f a m) h' l' t" "f AND VISITED = 0" "f AND LOOP_HEAD = 0" for f a m h l h' l'
  proof -
    have "ended (raised f a m) True True u" if "u \<in> set ts" for u
      using that \<open>under_way _ _ _ _ _ _ _\<close> \<open>a \<in> set t\<close> by (fastforce simp: under_way_def ended_def selection_def visited_def raised_def)
    then show ?thesis
      using that selection_raised [of ns r m "ts @ [t]" a f] by (auto simp: under_way_def)
  qed
  show "tracing ns r g ts False True t (k\<lparr>node_mem := raised TRACE_TAIL (last t) (node_mem k)\<rparr>)" if tr: "tracing ns r g ts False False t k"
  proof -
    have "last t \<in> set t" "last t \<in> set ns" using tracing_ns [OF tr] by auto
    then show ?thesis
      using u [of "node_mem k" False False "last t" TRACE_TAIL False True] tr moved_raised [of ns g k "last t"]
      by (auto simp: tracing_def under_way_def ended_def)
  qed
  show "tracing ns r g ts True True t (k\<lparr>node_mem := raised TRACE_HEAD (hd t) (node_mem k)\<rparr>)" if tr: "tracing ns r g ts False True t k"
  proof -
    have "hd t \<in> set t" "hd t \<in> set ns" using tracing_ns [OF tr] by (auto intro: hd_in_set)
    then show ?thesis
      using u [of "node_mem k" False True "hd t" TRACE_HEAD True True] tr moved_raised [of ns g k "hd t"]
      by (auto simp: tracing_def under_way_def ended_def)
  qed
qed

lemma tracing_forward:
  assumes tr: "tracing ns r g ts False False t k" and rd: "ready ns g" and seed: "seed \<in> set t"
    and e: "e \<in> set (destinationArcs (node_mem k (last t)))" "\<not> flag VISITED (node_mem k (destinationNode e))" "destinationNode e = d" "d \<noteq> r"
  shows "wp (bnd (mark_arc seed (last t) d) (\<lambda>_. add_to_trace seed d)) (\<lambda>_ k'. tracing ns r g ts False False (t @ [d]) k' \<and>
    unseen ns (node_mem k') < unseen ns (node_mem k)) k"
proof -
  have mv: "moved ns g k" and u: "under_way ns r (node_mem k) ts False False t" and ne: "t \<noteq> []" using tr by (auto simp: tracing_def)
  have rk: "ready ns k" by (rule tracing_ready [OF tr rd])
  have lt: "last t \<in> set ns" using under_way_ns(1) [OF u] ne by auto
  have d: "d \<in> set ns" "\<not> flag VISITED (node_mem k d)" using pairedD(1) [OF readyD(2) [OF rk] lt e(1)] e(2,3) by auto
  note w = under_way_forward [OF u readyD(2) [OF rk] d e(4) ne e(1,3)]
  have "d \<notin> set t" using under_way_ns(4) [OF u] d(2) by auto
  then show ?thesis
    by (rule join_wp [OF tr rk seed lt _ e(1,3) w(2)])
       (use w(1) moved_joined [OF mv lt d(1)] unseen_joined [where x = d and m = "node_mem k", OF d] in \<open>simp add: tracing_def\<close>)
qed

lemma tracing_backward:
  assumes tr: "tracing ns r g ts False True t k" and rd: "ready ns g" and seed: "seed \<in> set t" and r: "hd t \<noteq> r"
    and e: "e \<in> set (sourceArcs (node_mem k (hd t)))" "\<not> flag VISITED (node_mem k (sourceNode e))" "sourceNode e = s"
  shows "wp (bnd (mark_arc seed s (hd t)) (\<lambda>_. add_to_trace seed s)) (\<lambda>_ k'. tracing ns r g ts False True (s # t) k' \<and>
    unseen ns (node_mem k') < unseen ns (node_mem k)) k"
proof -
  have mv: "moved ns g k" and u: "under_way ns r (node_mem k) ts False True t" and ne: "t \<noteq> []" using tr by (auto simp: tracing_def)
  have rk: "ready ns k" by (rule tracing_ready [OF tr rd])
  have ht: "hd t \<in> set ns" using under_way_ns(1) [OF u] ne by auto
  obtain e' where e': "e' \<in> set (destinationArcs (node_mem k s))" "destinationNode e' = hd t"
    using pairedD(4) [OF readyD(2) [OF rk] ht e(1)] e(3) by auto
  have s: "s \<in> set ns" "\<not> flag VISITED (node_mem k s)" using pairedD(2) [OF readyD(2) [OF rk] ht e(1)] e(2,3) by auto
  note w = under_way_backward [OF u readyD(2) [OF rk] s r ne e']
  have "s \<notin> set t" using under_way_ns(4) [OF u] s(2) by auto
  then show ?thesis
    by (rule join_wp [OF tr rk seed s(1) _ e' w(2)])
       (use w(1) moved_joined [OF mv s(1) ht] unseen_joined [where x = s and m = "node_mem k", OF s] in \<open>simp add: tracing_def\<close>)
qed

text \<open>The loops. The measure counts the nodes that are not visited, twice, and the last round.\<close>

definition pace :: "nat list \<Rightarrow> nat \<times> bool \<Rightarrow> trace_lib \<Rightarrow> nat" where
  "pace ns a k = 2 * unseen ns (node_mem k) + (if snd a then 1 else 0)"

definition forward :: "nat list \<Rightarrow> nat \<Rightarrow> trace_lib \<Rightarrow> nat list list \<Rightarrow> nat \<Rightarrow> nat \<times> bool \<Rightarrow> trace_lib \<Rightarrow> bool" where
  "forward ns r g ts seed a k = (\<exists>t. tracing ns r g ts False (\<not> snd a) t k \<and> hd t = seed \<and> fst a = last t)"

definition backward :: "nat list \<Rightarrow> nat \<Rightarrow> trace_lib \<Rightarrow> nat list list \<Rightarrow> nat \<Rightarrow> nat \<Rightarrow> nat \<times> bool \<Rightarrow> trace_lib \<Rightarrow> bool" where
  "backward ns r g ts seed lst a k = (\<exists>t. tracing ns r g ts (\<not> snd a) True t k \<and> seed \<in> set t \<and> last t = lst \<and> fst a = hd t)"

lemma grow_forward_wp:
  assumes tr: "tracing ns r g ts False False [seed] g0" and rd: "ready ns g"
  shows "wp (grow_forward (Some r) seed) (\<lambda>c k. \<exists>t. tracing ns r g ts False True t k \<and> hd t = seed \<and> c = last t) g0"
proof -
  have "wp (grow_forward (Some r) seed) (\<lambda>c. forward ns r g ts seed (c, False)) g0"
    unfolding grow_forward_def wp_bnd wp_ret
  proof (rule wp_while_prog [where I = "forward ns r g ts seed" and r = "measure (\<lambda>(a, k). pace ns a k)"])
    fix a k assume I: "forward ns r g ts seed a k" and a: "snd a"
    let ?c = "fst a" and ?Q = "\<lambda>a' k'. forward ns r g ts seed a' k' \<and> ((a', k'), (a, k)) \<in> measure (\<lambda>(a, k). pace ns a k)"
    obtain t where t: "tracing ns r g ts False False t k" "hd t = seed" "?c = last t" using I a by (auto simp: forward_def)
    note n = tracing_ns [OF t(1)] and rk = tracing_ready [OF t(1) rd]
    have c: "?c \<in> set ns" "seed \<in> set t" using n t(2,3) by (auto intro: hd_in_set)
    have stop: "wp (bnd (raise_flag TRACE_TAIL ?c) (\<lambda>_. ret (?c, False))) ?Q k"
      using tracing_stop(1) [OF t(1)] t(2,3) a by (auto simp: wp_raise_flag forward_def pace_def)
    have move: "wp (bnd (mark_arc seed ?c d) (\<lambda>_. bnd (add_to_trace seed d) (\<lambda>_. ret (d, True)))) ?Q k"
      if "e \<in> set (destinationArcs (node_mem k ?c))" "\<not> flag VISITED (node_mem k (destinationNode e))" "destinationNode e = d" "d \<noteq> r" for e d
      unfolding bnd_assoc [symmetric]
      by (subst wp_bnd, rule wp_mono [OF tracing_forward [OF t(1) rd c(2) that [unfolded t(3)], folded t(3)]])
         (use n t(2) a in \<open>force simp: forward_def pace_def\<close>)
    show "wp (let current = ?c; stop = bnd (raise_flag TRACE_TAIL current) (\<lambda>_. ret (current, False)) in
         bnd (best_successor current) (\<lambda>lnk. case lnk of None \<Rightarrow> stop
         | Some e \<Rightarrow> let dest = destinationNode e in if Some dest = Some r then stop
             else bnd (dominated_by current dest) (\<lambda>dominated. if dominated then stop
               else bnd (mark_arc seed current dest) (\<lambda>_. bnd (add_to_trace seed dest) (\<lambda>_. ret (dest, True)))))) ?Q k"
      unfolding Let_def wp_bnd [of "best_successor _"]
    proof (rule wp_mono [OF best_successor_wp [OF rk c(1)]], elim conjE, hypsubst)
      fix lnk assume l: "\<forall>e. lnk = Some e \<longrightarrow> e \<in> set (destinationArcs (node_mem k ?c)) \<and> \<not> flag VISITED (node_mem k (destinationNode e))"
      have "wp (bnd (dominated_by ?c (destinationNode e)) (\<lambda>dominated. if dominated then bnd (raise_flag TRACE_TAIL ?c) (\<lambda>_. ret (?c, False))
          else bnd (mark_arc seed ?c (destinationNode e)) (\<lambda>_. bnd (add_to_trace seed (destinationNode e)) (\<lambda>_. ret (destinationNode e, True))))) ?Q k"
        if e: "lnk = Some e" "destinationNode e \<noteq> r" for e
      proof -
        have dn: "destinationNode e \<in> set ns" using pairedD(1) [OF readyD(2) [OF rk] c(1)] l e by blast
        have "e \<in> set (destinationArcs (node_mem k ?c))" "\<not> flag VISITED (node_mem k (destinationNode e))" using l e(1) by auto
        from move [OF this refl e(2)] stop show ?thesis
          unfolding wp_bnd [of "dominated_by _ _"] dominated_by_wp [OF rk c(1) dn] by (simp only: split: if_split) blast
      qed
      with stop show "wp (case lnk of None \<Rightarrow> bnd (raise_flag TRACE_TAIL ?c) (\<lambda>_. ret (?c, False))
         | Some e \<Rightarrow> if Some (destinationNode e) = Some r then bnd (raise_flag TRACE_TAIL ?c) (\<lambda>_. ret (?c, False))
             else bnd (dominated_by ?c (destinationNode e)) (\<lambda>dominated. if dominated then bnd (raise_flag TRACE_TAIL ?c) (\<lambda>_. ret (?c, False))
               else bnd (mark_arc seed ?c (destinationNode e)) (\<lambda>_. bnd (add_to_trace seed (destinationNode e)) (\<lambda>_. ret (destinationNode e, True))))) ?Q k"
        by (simp only: option.inject split: option.split if_split) blast
    qed
  qed (use tr in \<open>auto simp: forward_def\<close>)
  then show ?thesis unfolding forward_def by (rule wp_mono) auto
qed

lemma grow_backward_wp:
  assumes tr: "tracing ns r g ts False True t0 g0" "hd t0 = seed" and rd: "ready ns g"
  shows "wp (grow_backward (Some r) seed) (\<lambda>c k. \<exists>t. tracing ns r g ts True True t k \<and> seed \<in> set t \<and> last t = last t0 \<and> c = hd t) g0"
proof -
  have "wp (grow_backward (Some r) seed) (\<lambda>c. backward ns r g ts seed (last t0) (c, False)) g0"
    unfolding grow_backward_def wp_bnd wp_ret
  proof (rule wp_while_prog [where I = "backward ns r g ts seed (last t0)" and r = "measure (\<lambda>(a, k). pace ns a k)"])
    fix a k assume I: "backward ns r g ts seed (last t0) a k" and a: "snd a"
    let ?c = "fst a" and ?Q = "\<lambda>a' k'. backward ns r g ts seed (last t0) a' k' \<and> ((a', k'), (a, k)) \<in> measure (\<lambda>(a, k). pace ns a k)"
    obtain t where t: "tracing ns r g ts False True t k" "seed \<in> set t" "last t = last t0" "?c = hd t" using I a by (auto simp: backward_def)
    note n = tracing_ns [OF t(1)] and rk = tracing_ready [OF t(1) rd]
    have c: "?c \<in> set ns" using n t(4) by (auto intro: hd_in_set)
    have stop: "wp (bnd (raise_flag TRACE_HEAD ?c) (\<lambda>_. ret (?c, False))) ?Q k"
      using tracing_stop(2) [OF t(1)] t(2,3,4) a by (auto simp: wp_raise_flag backward_def pace_def)
    have move: "wp (bnd (mark_arc seed s ?c) (\<lambda>_. bnd (add_to_trace seed s) (\<lambda>_. ret (s, True)))) ?Q k"
      if r: "?c \<noteq> r" and "e \<in> set (sourceArcs (node_mem k ?c))" "\<not> flag VISITED (node_mem k (sourceNode e))" "sourceNode e = s" for e s
      unfolding bnd_assoc [symmetric]
      by (subst wp_bnd, rule wp_mono [OF tracing_backward [OF t(1) rd t(2) that [unfolded t(4)], folded t(4)]])
         (use n t(2,3) a in \<open>force simp: backward_def pace_def\<close>)
    have choose: "wp (bnd (best_predecessor ?c) (\<lambda>lnk. case lnk of None \<Rightarrow> bnd (raise_flag TRACE_HEAD ?c) (\<lambda>_. ret (?c, False))
         | Some e \<Rightarrow> bnd (dominated_by (sourceNode e) ?c) (\<lambda>dominated. if dominated then bnd (raise_flag TRACE_HEAD ?c) (\<lambda>_. ret (?c, False))
               else bnd (mark_arc seed (sourceNode e) ?c) (\<lambda>_. bnd (add_to_trace seed (sourceNode e)) (\<lambda>_. ret (sourceNode e, True)))))) ?Q k"
      if r: "?c \<noteq> r"
      unfolding wp_bnd [of "best_predecessor _"]
    proof (rule wp_mono [OF best_predecessor_wp [OF rk c]], elim conjE, hypsubst)
      fix lnk assume l: "\<forall>e. lnk = Some e \<longrightarrow> e \<in> set (sourceArcs (node_mem k ?c)) \<and> \<not> flag VISITED (node_mem k (sourceNode e))"
      have "wp (bnd (dominated_by (sourceNode e) ?c) (\<lambda>dominated. if dominated then bnd (raise_flag TRACE_HEAD ?c) (\<lambda>_. ret (?c, False))
          else bnd (mark_arc seed (sourceNode e) ?c) (\<lambda>_. bnd (add_to_trace seed (sourceNode e)) (\<lambda>_. ret (sourceNode e, True))))) ?Q k"
        if e: "lnk = Some e" for e
      proof -
        have dn: "sourceNode e \<in> set ns" using pairedD(2) [OF readyD(2) [OF rk] c] l e by blast
        have "e \<in> set (sourceArcs (node_mem k ?c))" "\<not> flag VISITED (node_mem k (sourceNode e))" using l e(1) by auto
        from move [OF r this refl] stop show ?thesis
          unfolding wp_bnd [of "dominated_by _ _"] dominated_by_wp [OF rk dn c] by (simp only: split: if_split) blast
      qed
      with stop show "wp (case lnk of None \<Rightarrow> bnd (raise_flag TRACE_HEAD ?c) (\<lambda>_. ret (?c, False))
         | Some e \<Rightarrow> bnd (dominated_by (sourceNode e) ?c) (\<lambda>dominated. if dominated then bnd (raise_flag TRACE_HEAD ?c) (\<lambda>_. ret (?c, False))
               else bnd (mark_arc seed (sourceNode e) ?c) (\<lambda>_. bnd (add_to_trace seed (sourceNode e)) (\<lambda>_. ret (sourceNode e, True))))) ?Q k"
        by (simp only: option.inject split: option.split) blast
    qed
    show "wp (let current = ?c; stop = bnd (raise_flag TRACE_HEAD current) (\<lambda>_. ret (current, False)) in
         if Some current = Some r then stop
         else bnd (best_predecessor current) (\<lambda>lnk. case lnk of None \<Rightarrow> stop
         | Some e \<Rightarrow> let src = sourceNode e in bnd (dominated_by src current) (\<lambda>dominated. if dominated then stop
               else bnd (mark_arc seed src current) (\<lambda>_. bnd (add_to_trace seed src) (\<lambda>_. ret (src, True)))))) ?Q k"
      unfolding Let_def using stop choose by (simp only: option.inject split: if_split) blast
  next
    have "seed \<in> set t0" using tr(2) tracing_ns [OF tr(1)] by (auto intro: hd_in_set)
    then show "backward ns r g ts seed (last t0) (seed, True) g0" using tr by (auto simp: backward_def)
  qed (auto simp: backward_def)
  then show ?thesis unfolding backward_def by (rule wp_mono) auto
qed

end
