(* ===== verification/Trace_Partition.thy ===== *)
theory Trace_Partition
  imports Trace_Growth
begin

text \<open>
  The result of \<open>SelectTraces\<close> in \<open>src/src/library/libflow/trace.c\<close>: the traces partition the nodes of the graph. \<open>traces\<close> is the
  specification, which the other way of selecting, \<open>SelectBySortArc\<close>, meets as well.
\<close>

section \<open>The specification\<close>

text \<open>Two nodes have the same type when they are in the same trace.\<close>

definition typed :: "(nat \<Rightarrow> gnode) \<Rightarrow> nat list list \<Rightarrow> bool" where
  "typed m ts = (\<forall>t\<in>set ts. \<forall>a\<in>set t. 0 < nodeType (m a) \<and> (\<forall>u\<in>set ts. \<forall>b\<in>set u. nodeType (m a) = nodeType (m b) \<longleftrightarrow> t = u))"

definition traces :: "nat list \<Rightarrow> nat \<Rightarrow> (nat \<Rightarrow> gnode) \<Rightarrow> nat list list \<Rightarrow> bool" where
  "traces ns r m ts = (distinct (concat ts) \<and> set (concat ts) = set ns \<and> [] \<notin> set ts \<and> typed m ts \<and>
     (\<forall>t\<in>set ts. ended m True True t) \<and> marked ns m (all_links ts) \<and> entered r ts)"

text \<open>The heads of inner loops: the tail of the trace has an arc back to its head.\<close>

definition looped :: "nat list \<Rightarrow> (nat \<Rightarrow> gnode) \<Rightarrow> nat list list \<Rightarrow> bool" where
  "looped ns m ts = (\<forall>a\<in>set ns. flag LOOP_HEAD (m a) \<longleftrightarrow> (\<exists>t\<in>set ts. a = hd t \<and> a \<in> succs m (last t)))"

lemma indexed_typed:
  assumes "indexed m ts" "distinct (concat ts)" "[] \<notin> set ts"
  shows "typed m ts"
  unfolding typed_def
proof (intro ballI conjI)
  fix t a assume t: "t \<in> set ts" "a \<in> set t"
  then obtain i where i: "i < length ts" "t = ts ! i" by (auto simp: in_set_conv_nth)
  then have ty: "nodeType (m a) = int i + 1" using assms(1) t by (simp add: indexed_def)
  then show "0 < nodeType (m a)" by simp
  fix u b assume u: "u \<in> set ts" "b \<in> set u"
  then obtain j where j: "j < length ts" "u = ts ! j" by (auto simp: in_set_conv_nth)
  then have "nodeType (m b) = int j + 1" using assms(1) u by (simp add: indexed_def)
  moreover have "distinct ts" using assms(2,3) by (metis distinct_concat_iff removeAll_id)
  ultimately show "nodeType (m a) = nodeType (m b) \<longleftrightarrow> t = u" using ty i j by (auto simp: nth_eq_iff_index_eq)
qed

section \<open>Clearing and sorting\<close>

definition cleared :: "nat list \<Rightarrow> (nat \<Rightarrow> gnode) \<Rightarrow> nat \<Rightarrow> gnode" where
  "cleared ns m a = (if a \<in> set ns then (m a)\<lparr>nodeType := 0, nodeStatus := NOT_VISITED,
     sourceArcs := map (\<lambda>e. e\<lparr>arcType := 0\<rparr>) (sourceArcs (m a)), destinationArcs := map (\<lambda>e. e\<lparr>arcType := 0\<rparr>) (destinationArcs (m a))\<rparr> else m a)"

lemma cleared_Nil [simp]: "cleared [] m = m"
  by (simp add: cleared_def fun_eq_iff)

lemma cleared_Cons: "cleared ns (m(a := cleared [a] m a)) = cleared (a # ns) m"
  by (auto simp: cleared_def fun_eq_iff)

lemma wp_clear_node: "wp (clear_node a) Q g = Q () (g\<lparr>node_mem := (node_mem g)(a := cleared [a] (node_mem g) a)\<rparr>)"
  by (simp add: clear_node_def node_put_def cleared_def)

lemma wp_clear_nodes: "wp (for_each (\<lambda>ptr _. clear_node ptr) ns ()) Q g = Q () (g\<lparr>node_mem := cleared ns (node_mem g)\<rparr>)"
proof (induction ns arbitrary: g)
  case (Cons a ns)
  then show ?case by (simp add: wp_clear_node cleared_Cons del: fun_upd_apply)
qed simp

lemma cleared_fields [simp]:
  "nodeExt (cleared ns m a) = nodeExt (m a)" "nodeId (cleared ns m a) = nodeId (m a)" "nodeWeight (cleared ns m a) = nodeWeight (m a)"
  "length (destinationArcs (cleared ns m a)) = length (destinationArcs (m a))" "a \<notin> set ns \<Longrightarrow> cleared ns m a = m a"
  by (simp_all add: cleared_def)

lemma ends_cleared [simp]:
  "ends (sourceArcs (cleared ns m a)) = ends (sourceArcs (m a))" "ends (destinationArcs (cleared ns m a)) = ends (destinationArcs (m a))"
  by (simp_all add: ends_def cleared_def image_image)

lemma paired_cleared: "paired ns (cleared ns m) = paired ns m"
  by (simp add: paired_def)

lemma is_marked_cleared [simp]: "is_marked (cleared ns m a) \<longleftrightarrow> a \<notin> set ns \<and> is_marked (m a)"
  by (simp add: cleared_def is_marked_def NOT_VISITED_def)

lemma ready_cleared: "ready ns g \<Longrightarrow> ready ns (g\<lparr>node_mem := cleared ns (node_mem g)\<rparr>)"
  using holds_same [of "g\<lparr>node_mem := cleared ns (node_mem g)\<rparr>" g "doms g"]
  by (simp add: ready_def extended_def fielded_def paired_cleared doms_def)

lemma selection_cleared: "selection ns r (cleared ns m) []"
  by (auto simp: selection_def visited_def indexed_def marked_def entered_def cleared_def NOT_VISITED_def flag_def)

lemma sort_nodes_wp:
  assumes "length ns < MAX_GRAPH_SIZE"
  shows "wp (sort_nodes ns) (\<lambda>xs h. h = g \<and> length xs = length ns \<and> st_ptr ` set xs = set ns) g"
proof -
  have "wp (list_nodes ns) (\<lambda>xs h. h = g \<and> map st_ptr xs = ns) g"
    unfolding list_nodes_def
    by (rule wp_for_each [where I = "\<lambda>k xs h. h = g \<and> map st_ptr xs = take k ns"])
       (use assms in \<open>auto simp: node_get_def Let_def take_Suc_conv_app_nth dest: arg_cong [of _ _ length]\<close>)
  then show ?thesis
    unfolding sort_nodes_def
  proof (rule wp_seq, elim conjE)
    fix xs :: "(nat, rat) ST_Entry list" and h assume h: "h = g" "map st_ptr xs = ns"
    have "int (length xs) \<le> 65536" using assms arg_cong [OF h(2), of length] by (simp add: MAX_GRAPH_SIZE_def)
    then obtain b ys where ys: "max_sort (int (length xs)) xs = Inr (b, ys)" "mset ys = mset xs"
      using descending.select_sort_wp [of "int (length xs)" xs] by (auto simp: wp_run max_sort_def)
    have "st_ptr ` set ys = set ns" "length ys = length ns" using ys(2) h(2) mset_eq_setD [OF ys(2)] mset_eq_length [OF ys(2)] by auto
    then show "wp (on_local (max_sort (int (length xs))) xs) (\<lambda>xs h. h = g \<and> length xs = length ns \<and> st_ptr ` set xs = set ns) h"
      by (simp add: wp_def on_local_def ys(1) h(1))
  qed
qed

section \<open>Seeds\<close>

lemma fall_through_wp:
  assumes rd: "ready ns g" and a: "a \<in> set ns"
  shows "wp (fall_through a) (\<lambda>best h. h = g \<and> (\<forall>b. best = Some b \<longrightarrow> b \<in> set ns \<and> \<not> flag VISITED (node_mem g b))) g"
proof -
  have ok: "wp (successor_node_weight a b) Q g = Q (nodeWeight (node_mem g b) +
      favour_successor (level (others g (pos ns b)) - level (others g (pos ns a)))) g" if "b \<in> set ns" for b Q
    using that a by (simp add: successor_node_weight_def node_get_def wp_level_diff [OF rd])
  note p = pairedD(1) [OF readyD(2) [OF rd] a]
  show ?thesis
    unfolding fall_through_def wp_bnd node_get_def wp_gets
    by (rule wp_for_each [where I = "\<lambda>_ best h. h = g \<and> (\<forall>b. best = Some b \<longrightarrow> b \<in> set ns \<and> \<not> flag VISITED (node_mem g b))"])
       (use p in \<open>auto simp: ok split: option.splits\<close>)
qed

lemma wp_first_unvisited:
  "wp (first_unvisited xs) Q g = Q (map_option st_ptr (find (\<lambda>e. \<not> flag VISITED (node_mem g (st_ptr e))) xs)) g"
  unfolding first_unvisited_def by (induction xs) (simp_all add: node_get_def)

section \<open>The loop over the seeds\<close>

definition settled :: "nat list \<Rightarrow> nat \<Rightarrow> trace_lib \<Rightarrow> nat list list \<Rightarrow> trace_lib \<Rightarrow> bool" where
  "settled ns r g ts k = (moved ns g k \<and> selection ns r (node_mem k) ts \<and> (\<forall>u\<in>set ts. ended (node_mem k) True True u) \<and>
     (ts \<noteq> [] \<longrightarrow> hd (hd ts) = r))"

text \<open>The variables \<open>current\<close> and \<open>prev\<close> of the code.\<close>

definition between :: "nat \<Rightarrow> nat list list \<Rightarrow> nat option \<Rightarrow> nat option \<Rightarrow> bool" where
  "between r ts current prev = (if ts = [] then current = Some r \<and> prev = None
     else current = Some (hd (last ts)) \<and> prev = Some (last (last ts)))"

lemma pick_seed_wp:
  assumes st: "settled ns r g ts k" and rd: "ready ns g" and r: "r \<in> set ns" and xs: "st_ptr ` set xs = set ns"
    and b: "between r ts current prev"
  shows "wp (pick_seed xs current prev) (\<lambda>s h. h = k \<and> (case s of None \<Rightarrow> set ns \<subseteq> set (concat ts)
    | Some a \<Rightarrow> a \<in> set ns \<and> \<not> flag VISITED (node_mem k a) \<and> (ts = [] \<longrightarrow> a = r))) k"
proof -
  have rk: "ready ns k" using st rd by (auto simp: settled_def intro: moved_ready)
  have vis: "visited ns (node_mem k) ts" using st by (simp add: settled_def selection_def)
  show ?thesis
  proof (cases "ts = []")
    case True
    then show ?thesis using b r vis by (simp add: between_def pick_seed_def node_get_def visited_def)
  next
    case False
    then have t: "last ts \<in> set ts" "last ts \<noteq> []" using vis by (auto simp: visited_def) (metis last_in_set)
    then have ends: "hd (last ts) \<in> set (concat ts)" "last (last ts) \<in> set (concat ts)" by (auto intro!: bexI [of _ "last ts"])
    then have "flag VISITED (node_mem k (hd (last ts)))" "last (last ts) \<in> set ns" using vis by (auto simp: visited_def)
    moreover have "wp (bnd (fall_through (last (last ts))) (\<lambda>best. if best = None then first_unvisited xs else ret best))
        (\<lambda>s h. h = k \<and> (case s of None \<Rightarrow> set ns \<subseteq> set (concat ts) | Some a \<Rightarrow> a \<in> set ns \<and> \<not> flag VISITED (node_mem k a) \<and> (ts = [] \<longrightarrow> a = r))) k"
      unfolding wp_bnd
    proof (rule wp_mono [OF fall_through_wp [OF rk \<open>last (last ts) \<in> set ns\<close>]], elim conjE, hypsubst)
      fix best assume best: "\<forall>b. best = Some b \<longrightarrow> b \<in> set ns \<and> \<not> flag VISITED (node_mem k b)"
      have "set ns \<subseteq> set (concat ts)" if none: "find (\<lambda>e. \<not> flag VISITED (node_mem k (st_ptr e))) xs = None"
      proof -
        have "\<forall>a\<in>set ns. flag VISITED (node_mem k a)" using none unfolding xs [symmetric] find_None_iff by auto
        then show ?thesis using vis by (auto simp: visited_def)
      qed
      moreover have "st_ptr e \<in> set ns \<and> \<not> flag VISITED (node_mem k (st_ptr e))"
        if "find (\<lambda>e. \<not> flag VISITED (node_mem k (st_ptr e))) xs = Some e" for e
        using that xs by (auto simp: find_Some_iff)
      ultimately show "wp (if best = None then first_unvisited xs else ret best)
        (\<lambda>s h. h = k \<and> (case s of None \<Rightarrow> set ns \<subseteq> set (concat ts) | Some a \<Rightarrow> a \<in> set ns \<and> \<not> flag VISITED (node_mem k a) \<and> (ts = [] \<longrightarrow> a = r))) k"
        using best False by (cases best) (auto simp: wp_first_unvisited split: option.split)
    qed
    ultimately show ?thesis using b False by (simp add: between_def pick_seed_def node_get_def)
  qed
qed

lemma marked_type:
  assumes "marked ns m R" "\<And>y. (x, y) \<notin> R" "\<And>y. (y, x) \<notin> R"
    and "\<And>a. sourceArcs (m' a) = sourceArcs (m a)" "\<And>a. destinationArcs (m' a) = destinationArcs (m a)" "\<And>a. a \<noteq> x \<Longrightarrow> nodeType (m' a) = nodeType (m a)"
  shows "marked ns m' R"
proof -
  have "arcType e = 0 \<or> a \<noteq> x" if "a \<in> set ns" "e \<in> set (destinationArcs (m a)) \<or> e \<in> set (sourceArcs (m a))" for a e
    using assms(1-3) that unfolding marked_def by blast
  moreover have "a \<noteq> x" if "(a, b) \<in> R" for a b using assms(2) that by auto
  ultimately show ?thesis using assms(1,6) unfolding marked_def assms(4,5) by (metis (no_types, lifting))
qed

lemma tracing_start:
  assumes st: "settled ns r g ts k" and a: "a \<in> set ns" "\<not> flag VISITED (node_mem k a)"
  shows "wp (bnd (set_type a (int (length ts) + 1)) (\<lambda>_. raise_flag VISITED a)) (\<lambda>_ k'. tracing ns r g ts False False [a] k') k"
proof -
  let ?m = "node_mem k"
  let ?m' = "?m(a := (?m a)\<lparr>nodeType := int (length ts) + 1, nodeStatus := nodeStatus (?m a) OR VISITED\<rparr>)"
  have s: "moved ns g k" "visited ns ?m ts" "indexed ?m ts" "marked ns ?m (all_links ts)" "entered r ts" "\<forall>u\<in>set ts. ended ?m True True u"
    "\<forall>a\<in>set ns. \<not> flag LOOP_HEAD (?m a)"
    using st by (auto simp: settled_def selection_def)
  have new: "a \<notin> set (concat ts)" and clean: "nodeStatus (?m a) = 0" using s(2) a by (auto simp: visited_def)
  have nl: "(a, y) \<notin> all_links ts" "(y, a) \<notin> all_links ts" for y
    using new all_links_set [of a y ts] all_links_set [of y a ts] by auto
  have mk: "marked ns ?m' (all_links ts)" by (rule marked_type [OF s(4) nl]) auto
  have fl: "flag j (?m' b) \<longleftrightarrow> flag j (?m b) \<or> b = a \<and> VISITED AND j \<noteq> 0" for j b
    using flag_or [of j "?m a" VISITED] by (auto simp: flag_def)
  have "visited ns ?m' (ts @ [[a]])"
    using s(2) a(1) new clean by (auto simp: visited_def fl) (auto simp: VISITED_def flag_def)
  moreover have "indexed ?m' (ts @ [[a]])" using s(3) new by (auto simp: indexed_def nth_append less_Suc_eq)
  moreover have "\<forall>b\<in>set ns. \<not> flag LOOP_HEAD (?m' b)" using s(7) unfolding fl by simp
  ultimately have "selection ns r ?m' (ts @ [[a]])"
    using mk s(5) by (simp add: selection_def entered_def)
  moreover have "ended ?m' True True u" if "u \<in> set ts" for u using s(6) new that by (auto simp: ended_def)
  moreover have "ended ?m' False False [a]" using clean unfolding ended_def fl by (simp add: flag_zero)
  ultimately have "under_way ns r ?m' ts False False [a]" by (simp add: under_way_def)
  moreover have "moved ns g (k\<lparr>node_mem := ?m'\<rparr>)" by (rule moved_put [OF s(1)]) (use a in \<open>auto simp: outline_def is_marked_def\<close>)
  ultimately show ?thesis
    by (simp add: set_type_def raise_flag_def node_put_def tracing_def)
qed

lemma tracing_end:
  assumes st: "settled ns r g ts k0" and tr: "tracing ns r g ts True True t k" and seed: "ts = [] \<Longrightarrow> r \<in> set t"
  shows "settled ns r g (ts @ [t]) k"
proof -
  have u: "moved ns g k" "under_way ns r (node_mem k) ts True True t" "t \<noteq> []" using tr by (auto simp: tracing_def)
  have "hd t = r" if "ts = []" using seed [OF that] under_way_ns(3) [OF u(2)] u(3) by (cases t) auto
  then show ?thesis using u st by (cases ts) (auto simp: settled_def under_way_def)
qed

lemma select_loop_wp:
  assumes "settled ns r g ts k" "between r ts current prev" "length ns \<le> n + length (concat ts)"
    and rd: "ready ns g" and r: "r \<in> set ns" and xs: "st_ptr ` set xs = set ns"
  shows "wp (select_loop n (Some r) xs current prev (int (length ts) + 1)) (\<lambda>_ k'. \<exists>ts'. settled ns r g ts' k' \<and> set (concat ts') = set ns) k"
  using assms(1-3)
proof (induction n arbitrary: ts current prev k)
  case 0
  have v: "distinct (concat ts)" "set (concat ts) \<subseteq> set ns" using 0(1) by (simp_all add: settled_def selection_def visited_def)
  have "card (set ns) \<le> card (set (concat ts))" using 0(3) distinct_card [OF v(1)] distinct_card [OF readyD(3) [OF rd]] by simp
  then have "set (concat ts) = set ns" using card_seteq [OF _ v(2)] by simp
  then show ?case using 0(1) by auto
next
  case (Suc n)
  let ?Q = "\<lambda>_ k'. \<exists>ts'. settled ns r g ts' k' \<and> set (concat ts') = set ns"
  show ?case
    unfolding select_loop.simps wp_bnd [of "pick_seed _ _ _"]
  proof (rule wp_mono [OF pick_seed_wp [OF Suc.prems(1) rd r xs Suc.prems(2)]], elim conjE, hypsubst)
    fix s assume s: "case s of None \<Rightarrow> set ns \<subseteq> set (concat ts) | Some a \<Rightarrow> a \<in> set ns \<and> \<not> flag VISITED (node_mem k a) \<and> (ts = [] \<longrightarrow> a = r)"
    have sub: "set (concat ts) \<subseteq> set ns" using Suc.prems(1) by (simp add: settled_def selection_def visited_def)
    let ?grow = "\<lambda>a. bnd (grow_forward (Some r) a) (\<lambda>tail. bnd (grow_backward (Some r) a) (\<lambda>head.
      select_loop n (Some r) xs (Some head) (Some tail) (int (length ts) + 1 + 1)))"
    have grow: "wp (bnd (bnd (set_type a (int (length ts) + 1)) (\<lambda>_. raise_flag VISITED a)) (\<lambda>_. ?grow a)) ?Q k"
      if a: "a \<in> set ns" "\<not> flag VISITED (node_mem k a)" "ts = [] \<longrightarrow> a = r" for a
    proof (rule wp_seq [OF tracing_start [OF Suc.prems(1) a(1,2)]], rule wp_seq [OF grow_forward_wp [OF _ rd]], assumption, elim exE conjE)
      fix k1 tail t0 assume t0: "tracing ns r g ts False True t0 k1" "hd t0 = a" "tail = last t0"
      show "wp (bnd (grow_backward (Some r) a) (\<lambda>head. select_loop n (Some r) xs (Some head) (Some tail) (int (length ts) + 1 + 1))) ?Q k1"
      proof (rule wp_seq [OF grow_backward_wp [OF t0(1,2) rd]], elim exE conjE)
        fix head k2 t assume t: "tracing ns r g ts True True t k2" "a \<in> set t" "last t = last t0" "head = hd t"
        have end_: "settled ns r g (ts @ [t]) k2" by (rule tracing_end [OF Suc.prems(1) t(1)]) (use t(2) a(3) in auto)
        have bt: "between r (ts @ [t]) (Some head) (Some tail)" using t t0 by (simp add: between_def)
        have "t \<noteq> []" using t(2) by auto
        then have "length ns \<le> n + length (concat (ts @ [t]))" using Suc.prems(3) by (cases t) auto
        from Suc.IH [OF end_ bt this] show "wp (select_loop n (Some r) xs (Some head) (Some tail) (int (length ts) + 1 + 1)) ?Q k2" by simp
      qed
    qed
    show "wp (case s of None \<Rightarrow> ret () | Some seed \<Rightarrow> bnd (node_get seed) (\<lambda>nd. if flag VISITED nd then fail (Punt ''incorrect seed selection'')
         else bnd (set_type seed (int (length ts) + 1)) (\<lambda>_. bnd (raise_flag VISITED seed) (\<lambda>_. ?grow seed)))) ?Q k"
    proof (cases s)
      case None
      then show ?thesis using s sub Suc.prems(1) by auto
    next
      case (Some a)
      then show ?thesis using s grow [of a] by (simp add: node_get_def bnd_assoc)
    qed
  qed
qed

section \<open>Loops\<close>

definition loop_arc :: "(nat \<Rightarrow> gnode) \<Rightarrow> nat \<Rightarrow> arc option" where
  "loop_arc m b = (if flag TRACE_TAIL (m b)
     then find (\<lambda>e. flag TRACE_HEAD (m (destinationNode e)) \<and> nodeType (m (destinationNode e)) = nodeType (m b)) (destinationArcs (m b)) else None)"

definition loop_marks :: "nat list \<Rightarrow> (nat \<Rightarrow> gnode) \<Rightarrow> nat \<Rightarrow> gnode" where
  "loop_marks bs m a = (if \<exists>b\<in>set bs. \<exists>e. loop_arc m b = Some e \<and> destinationNode e = a
     then (m a)\<lparr>nodeStatus := nodeStatus (m a) OR LOOP_HEAD\<rparr> else m a)"

lemma loop_marks_Nil [simp]: "loop_marks [] m = m"
  by (simp add: loop_marks_def fun_eq_iff)

lemma loop_marks_fields [simp]:
  "nodeType (loop_marks bs m a) = nodeType (m a)" "sourceArcs (loop_marks bs m a) = sourceArcs (m a)"
  "destinationArcs (loop_marks bs m a) = destinationArcs (m a)" "outline (loop_marks bs m a) = outline (m a)"
  "flag k (loop_marks bs m a) = (flag k (m a) \<or> (\<exists>b\<in>set bs. \<exists>e. loop_arc m b = Some e \<and> destinationNode e = a) \<and> LOOP_HEAD AND k \<noteq> 0)"
  by (auto simp: loop_marks_def)

lemma loop_arc_marks [simp]: "loop_arc (loop_marks bs m) b = loop_arc m b"
  by (simp add: loop_arc_def)

lemma loop_marks_snoc: "loop_marks (bs @ [b]) m =
    (case loop_arc m b of None \<Rightarrow> loop_marks bs m | Some e \<Rightarrow> raised LOOP_HEAD (destinationNode e) (loop_marks bs m))"
  by (auto simp: loop_marks_def raised_def fun_eq_iff or.assoc split: option.split)

lemma wp_node_get: "wp (node_get a) Q g = Q (node_mem g a) g"
  by (simp add: node_get_def)

lemma wp_loop_search:
  "wp (bnd (find_each (\<lambda>lnk _. bnd (node_get (destinationNode lnk)) (\<lambda>dest. bnd (node_get b) (\<lambda>n.
      if flag TRACE_HEAD dest \<and> nodeType dest = nodeType n then bnd (raise_flag LOOP_HEAD (destinationNode lnk)) (\<lambda>_. ret (True, ()))
      else ret (False, ())))) es ()) (\<lambda>_. ret ())) Q g =
   (case find (\<lambda>e. flag TRACE_HEAD (node_mem g (destinationNode e)) \<and> nodeType (node_mem g (destinationNode e)) = nodeType (node_mem g b)) es of
      None \<Rightarrow> Q () g | Some e \<Rightarrow> Q () (g\<lparr>node_mem := raised LOOP_HEAD (destinationNode e) (node_mem g)\<rparr>))"
  by (induction es) (auto simp: node_get_def wp_raise_flag)

lemma detect_loops_wp: "wp (detect_loops ns) (\<lambda>_ h. h = g\<lparr>node_mem := loop_marks ns (node_mem g)\<rparr>) g"
  unfolding detect_loops_def
proof (rule wp_for_each [where I = "\<lambda>k _ h. h = g\<lparr>node_mem := loop_marks (take k ns) (node_mem g)\<rparr>"])
  fix k u h assume k: "k < length ns" and h: "h = g\<lparr>node_mem := loop_marks (take k ns) (node_mem g)\<rparr>"
  let ?b = "ns ! k" and ?m = "node_mem g"
  have "loop_marks (take (Suc k) ns) ?m = (case loop_arc ?m ?b of None \<Rightarrow> loop_marks (take k ns) ?m
      | Some e \<Rightarrow> raised LOOP_HEAD (destinationNode e) (loop_marks (take k ns) ?m))"
    using k by (simp add: take_Suc_conv_app_nth loop_marks_snoc)
  then show "wp (bnd (node_get ?b) (\<lambda>n. if \<not> flag TRACE_TAIL n then ret ()
       else bnd (find_each (\<lambda>lnk _. bnd (node_get (destinationNode lnk)) (\<lambda>dest. bnd (node_get ?b) (\<lambda>n.
                if flag TRACE_HEAD dest \<and> nodeType dest = nodeType n
                then bnd (raise_flag LOOP_HEAD (destinationNode lnk)) (\<lambda>_. ret (True, ()))
                else ret (False, ())))) (destinationArcs n) ()) (\<lambda>_. ret ())))
     (\<lambda>_ h. h = g\<lparr>node_mem := loop_marks (take (Suc k) ns) ?m\<rparr>) h"
    unfolding wp_bnd [of "node_get ?b"] wp_node_get h wp_if wp_loop_search
    by (auto simp: loop_arc_def split: option.split)
qed simp_all

lemma loop_marks_traces:
  assumes tr: "traces ns r m ts" and pr: "paired ns m" and quiet: "\<forall>a\<in>set ns. \<not> flag LOOP_HEAD (m a)"
  shows "traces ns r (loop_marks ns m) ts" "looped ns (loop_marks ns m) ts"
proof -
  have "marked ns (loop_marks ns m) (all_links ts) = marked ns m (all_links ts)" by (rule marked_cong) simp_all
  then show "traces ns r (loop_marks ns m) ts"
    using tr by (simp add: traces_def typed_def ended_def)
  have same: "succs (loop_marks ns m) = succs m" by (simp add: succs_def fun_eq_iff)
  have t: "set (concat ts) = set ns" "typed m ts" "\<forall>t\<in>set ts. ended m True True t" "[] \<notin> set ts" using tr by (auto simp: traces_def)
  have head: "a = hd t \<and> a \<in> succs m (last t)"
    if "t \<in> set ts" "b \<in> set t" "loop_arc m b = Some e" "destinationNode e = a" for t a b e
  proof -
    have e: "flag TRACE_TAIL (m b)" "e \<in> set (destinationArcs (m b))" "flag TRACE_HEAD (m a)" "nodeType (m a) = nodeType (m b)"
      using that(3,4) by (auto simp: loop_arc_def find_Some_iff split: if_splits)
    have "b = last t" using t(3) that(1,2) e(1) by (auto simp: ended_def)
    moreover have "a \<in> set ns" using pairedD(1) [OF pr _ e(2)] that t(1) by auto
    then obtain u where "u \<in> set ts" "a \<in> set u" using t(1) by auto
    then have "a = hd u" "u = t" using t(2,3) e(3,4) that(1,2) by (auto simp: ended_def typed_def)
    ultimately show ?thesis using e(2) that(4) by (auto simp: succs_def intro!: image_eqI [of _ _ e])
  qed
  have tail: "\<exists>b\<in>set ns. \<exists>e. loop_arc m b = Some e \<and> destinationNode e = hd t" if u: "t \<in> set ts" "hd t \<in> succs m (last t)" for t
  proof -
    have ne: "t \<noteq> []" using u t(4) by auto
    then have "set t \<subseteq> set ns" using u(1) t(1) by auto
    with ne have inn: "last t \<in> set t" "hd t \<in> set t" "last t \<in> set ns" by auto
    then have "flag TRACE_TAIL (m (last t))" "flag TRACE_HEAD (m (hd t))" "nodeType (m (hd t)) = nodeType (m (last t))"
      using t(2,3) u(1) by (auto simp: ended_def typed_def)
    then have "loop_arc m (last t) \<noteq> None" using u(2) by (auto simp: loop_arc_def find_None_iff succs_def)
    then obtain e where e: "loop_arc m (last t) = Some e" by auto
    with head [OF u(1) inn(1) e refl] inn(3) show ?thesis by auto
  qed
  show "looped ns (loop_marks ns m) ts"
    unfolding looped_def same
  proof (intro ballI)
    fix a assume a: "a \<in> set ns"
    have "(\<exists>b\<in>set ns. \<exists>e. loop_arc m b = Some e \<and> destinationNode e = a) \<longleftrightarrow> (\<exists>t\<in>set ts. a = hd t \<and> a \<in> succs m (last t))"
      using head tail unfolding t(1) [symmetric] by fastforce
    then show "flag LOOP_HEAD (loop_marks ns m a) \<longleftrightarrow> (\<exists>t\<in>set ts. a = hd t \<and> a \<in> succs m (last t))" using quiet a by simp
  qed
qed

lemma moved_loop_marks:
  assumes pr: "paired ns (node_mem k)"
  shows "moved ns k (k\<lparr>node_mem := loop_marks ns (node_mem k)\<rparr>)"
proof (rule moved_put [OF moved_refl])
  fix a assume a: "a \<notin> set ns"
  have "destinationNode e \<in> set ns" if "b \<in> set ns" "loop_arc (node_mem k) b = Some e" for b e
    using that pairedD(1) [OF pr that(1), of e] by (auto simp: loop_arc_def find_Some_iff split: if_splits)
  then show "loop_marks ns (node_mem k) a = node_mem k a" using a by (auto simp: loop_marks_def)
qed simp

section \<open>The whole selection\<close>

lemma check_visited_wp: "\<forall>a\<in>set ns. flag VISITED (node_mem g a) \<Longrightarrow> wp (check_visited ns) (\<lambda>_ h. h = g) g"
  unfolding check_visited_def
  by (rule wp_for_each [where I = "\<lambda>_ _ h. h = g"]) (auto simp: node_get_def)

lemma paired_numbered: "paired ns (numbered ns m) = paired ns m"
  by (simp add: paired_def)

theorem SelectTraces_wp:
  fixes g :: trace_lib
  assumes g: "ext_ok g" and gr: "gnodes gr = ns" "root gr = Some r" and ns: "distinct ns" "r \<in> set ns" "length ns < MAX_GRAPH_SIZE"
    and pr: "paired ns (node_mem g)"
  shows "wp (SelectTraces gr) (\<lambda>_ h. \<exists>ts. ext_ok h \<and> params h = params g \<and> paired ns (node_mem h) \<and>
    (\<forall>a. outline (node_mem h a) = outline (cleared ns (numbered ns (node_mem g)) a)) \<and> (\<forall>a. a \<notin> set ns \<longrightarrow> node_mem h a = node_mem g a) \<and>
    traces ns r (node_mem h) ts \<and> hd (hd ts) = r \<and> looped ns (node_mem h) ts \<and> (\<forall>a\<in>set ns. flag VISITED (node_mem h a))) g"
    (is "wp _ ?Q g")
  unfolding SelectTraces_def gr
proof (rule wp_seq [OF AddExtensionFields_wp [OF g gr ns(1,2) less_imp_le [OF ns(3)] paired_preds [OF pr]]], assumption, elim conjE)
  fix u g1 assume e: "extended ns (numbered ns (node_mem g)) g1" and p1: "params g1 = params g"
  have m1: "node_mem g1 = numbered ns (node_mem g)" using e by (simp add: extended_def)
  have rd1: "ready ns g1" using e pr ns(1) by (simp add: ready_def m1 paired_numbered)
  let ?g2 = "g1\<lparr>node_mem := cleared ns (node_mem g1)\<rparr>"
  have rd: "ready ns ?g2" by (rule ready_cleared [OF rd1])
  have st: "settled ns r ?g2 [] ?g2" using moved_refl selection_cleared by (simp add: settled_def)
  show "wp (bnd (for_each (\<lambda>ptr _. clear_node ptr) ns ()) (\<lambda>_. bnd (sort_nodes ns) (\<lambda>sorted_list.
     bnd (select_loop (length sorted_list) (Some r) sorted_list (Some r) None 1) (\<lambda>_. bnd (check_visited ns) (\<lambda>_. detect_loops ns))))) ?Q g1"
    unfolding wp_bnd [of "for_each _ _ _"] wp_clear_nodes
  proof (rule wp_seq [OF sort_nodes_wp [OF ns(3)]], elim conjE, hypsubst)
    fix xs :: "(nat, rat) ST_Entry list" assume xs: "length xs = length ns" "st_ptr ` set xs = set ns"
    have loop: "wp (select_loop (length xs) (Some r) xs (Some r) None 1) (\<lambda>_ k'. \<exists>ts'. settled ns r ?g2 ts' k' \<and> set (concat ts') = set ns) ?g2"
      using select_loop_wp [OF st _ _ rd ns(2) xs(2), of "Some r" None "length xs"] xs(1) by (simp add: between_def)
    show "wp (bnd (select_loop (length xs) (Some r) xs (Some r) None 1) (\<lambda>_. bnd (check_visited ns) (\<lambda>_. detect_loops ns))) ?Q ?g2"
    proof (rule wp_seq [OF loop], elim exE conjE)
      fix k ts assume k: "settled ns r ?g2 ts k" and cov: "set (concat ts) = set ns"
      have mv: "moved ns ?g2 k" using k by (simp add: settled_def)
      have rk: "ready ns k" by (rule moved_ready [OF mv rd])
      have s: "visited ns (node_mem k) ts" "indexed (node_mem k) ts" "marked ns (node_mem k) (all_links ts)" "entered r ts"
        "\<forall>a\<in>set ns. \<not> flag LOOP_HEAD (node_mem k a)" "\<forall>u\<in>set ts. ended (node_mem k) True True u"
        using k by (auto simp: settled_def selection_def)
      have v: "\<forall>a\<in>set ns. flag VISITED (node_mem k a)" using s(1) cov by (auto simp: visited_def)
      have tr: "traces ns r (node_mem k) ts"
        using s cov indexed_typed [OF s(2)] by (auto simp: traces_def visited_def)
      note lt = loop_marks_traces [OF tr readyD(2) [OF rk] s(5)]
      have "ts \<noteq> []" using cov ns(2) by auto
      then have "hd (hd ts) = r" using k by (simp add: settled_def)
      let ?h = "k\<lparr>node_mem := loop_marks ns (node_mem k)\<rparr>"
      have "ext_ok ?h" using ext_ok_extended [OF readyD(1) [OF rk]] ns(3) by (simp add: ext_ok_def)
      moreover have "loop_marks ns (node_mem k) a = node_mem g a" if "a \<notin> set ns" for a
        using moved_trans [OF mv moved_loop_marks [OF readyD(2) [OF rk]]] that by (simp add: moved_def m1 numbered_def)
      moreover have "paired ns (loop_marks ns (node_mem k))" using readyD(2) [OF rk] by (simp add: paired_def)
      ultimately have "?Q () ?h"
        using lt mv v \<open>hd (hd ts) = r\<close> p1 moved_fields(3) [OF mv] by (auto simp: moved_def m1 params_def)
      then show "wp (bnd (check_visited ns) (\<lambda>_. detect_loops ns)) ?Q k"
        unfolding wp_bnd
        by (intro wp_mono [OF check_visited_wp [OF v]], hypsubst, intro wp_mono [OF detect_loops_wp], hypsubst)
    qed
  qed
qed

end
