(* ===== verification/Trace_Joining.thy ===== *)
theory Trace_Joining
  imports Trace_Partition
begin

text \<open>
  Joining traces along the heaviest arcs, \<open>SelectBySortArc\<close> of \<open>src/src/library/libflow/trace.c\<close>. All nodes start as fragments of one node;
  an arc from the last node of a fragment to the first node of another joins the two. The traces left at the end are those of the
  specification \<open>traces\<close>, and no arc could join two of them.
\<close>

section \<open>Types of arc cells\<close>

definition map_arcs :: "(cell \<Rightarrow> int \<Rightarrow> int) \<Rightarrow> (nat \<Rightarrow> gnode) \<Rightarrow> nat \<Rightarrow> gnode" where
  "map_arcs f m a = (m a)\<lparr>destinationArcs := map (\<lambda>j. (destinationArcs (m a) ! j)\<lparr>arcType := f (a, j) (arcType (destinationArcs (m a) ! j))\<rparr>)
     [0..<length (destinationArcs (m a))]\<rparr>"

lemma map_arcs_fields [simp]:
  "nodeType (map_arcs f m a) = nodeType (m a)" "nodeStatus (map_arcs f m a) = nodeStatus (m a)" "sourceArcs (map_arcs f m a) = sourceArcs (m a)"
  "length (destinationArcs (map_arcs f m a)) = length (destinationArcs (m a))" "flag k (map_arcs f m a) = flag k (m a)"
  "j < length (destinationArcs (m a)) \<Longrightarrow> destinationArcs (map_arcs f m a) ! j =
    (destinationArcs (m a) ! j)\<lparr>arcType := f (a, j) (arcType (destinationArcs (m a) ! j))\<rparr>"
  by (simp_all add: map_arcs_def)

lemma outline_map_arcs [simp]: "outline (map_arcs f m a) = outline (m a)"
proof -
  have "map untyped (destinationArcs (map_arcs f m a)) = map untyped (destinationArcs (m a))"
    by (rule nth_equalityI) (simp_all add: map_arcs_def untyped_def)
  then show ?thesis by (simp add: outline_def) (simp add: map_arcs_def is_marked_def)
qed

lemma map_arcs_id: "(\<And>a j. j < length (destinationArcs (m a)) \<Longrightarrow> f (a, j) (arcType (destinationArcs (m a) ! j)) = arcType (destinationArcs (m a) ! j)) \<Longrightarrow> map_arcs f m = m"
proof
  fix a assume f: "\<And>a j. j < length (destinationArcs (m a)) \<Longrightarrow> f (a, j) (arcType (destinationArcs (m a) ! j)) = arcType (destinationArcs (m a) ! j)"
  have "destinationArcs (map_arcs f m a) = destinationArcs (m a)" by (rule nth_equalityI) (simp_all add: f)
  then show "map_arcs f m a = m a" by (simp add: map_arcs_def)
qed

lemma map_arcs_twice: "map_arcs f (map_arcs f' m) = map_arcs (\<lambda>c. f c \<circ> f' c) m"
  by (rule ext) (simp add: map_arcs_def cong: map_cong)

lemma map_arcs_put:
  assumes "i < length (destinationArcs (m a))"
  shows "m(a := (m a)\<lparr>destinationArcs := (destinationArcs (m a))[i := (destinationArcs (m a) ! i)\<lparr>arcType := ty\<rparr>]\<rparr>) =
    map_arcs (\<lambda>c t. if c = (a, i) then ty else t) m"
proof
  fix b
  show "(m(a := (m a)\<lparr>destinationArcs := (destinationArcs (m a))[i := (destinationArcs (m a) ! i)\<lparr>arcType := ty\<rparr>]\<rparr>)) b =
    map_arcs (\<lambda>c t. if c = (a, i) then ty else t) m b"
  proof (cases "b = a")
    case True
    have "(destinationArcs (m a))[i := (destinationArcs (m a) ! i)\<lparr>arcType := ty\<rparr>] =
      map (\<lambda>j. (destinationArcs (m a) ! j)\<lparr>arcType := if j = i then ty else arcType (destinationArcs (m a) ! j)\<rparr>) [0..<length (destinationArcs (m a))]"
      by (rule nth_equalityI) (auto simp: nth_list_update)
    then show ?thesis by (simp add: True map_arcs_def)
  next
    case False
    then show ?thesis by (simp add: map_arcs_def map_nth)
  qed
qed

lemma wp_arc_get: "i < length (destinationArcs (node_mem g a)) \<Longrightarrow> wp (arc_get (a, i)) Q g = Q (destinationArcs (node_mem g a) ! i) g"
  by (simp add: arc_get_def wp_node_get)

lemma wp_arc_set_type:
  "i < length (destinationArcs (node_mem g a)) \<Longrightarrow>
   wp (arc_set_type (a, i) ty) Q g = Q () (g\<lparr>node_mem := map_arcs (\<lambda>c t. if c = (a, i) then ty else t) (node_mem g)\<rparr>)"
  by (simp add: arc_set_type_def node_put_def map_arcs_put del: fun_upd_apply)

lemma wp_set_type: "wp (set_type a ty) Q g = Q () (g\<lparr>node_mem := (node_mem g)(a := (node_mem g a)\<lparr>nodeType := ty\<rparr>)\<rparr>)"
  by (simp add: set_type_def node_put_def)

definition lowered :: "int \<Rightarrow> nat \<Rightarrow> (nat \<Rightarrow> gnode) \<Rightarrow> nat \<Rightarrow> gnode" where
  "lowered k a m = m(a := (m a)\<lparr>nodeStatus := nodeStatus (m a) AND NOT k\<rparr>)"

lemma wp_clear_flag: "wp (clear_flag k a) Q g = Q () (g\<lparr>node_mem := lowered k a (node_mem g)\<rparr>)"
  by (simp add: clear_flag_def node_put_def lowered_def)

section \<open>Merging\<close>

text \<open>All cells of the arcs of the graph.\<close>

definition cells :: "nat list \<Rightarrow> (nat \<Rightarrow> gnode) \<Rightarrow> cell set" where
  "cells ns m = {(a, j). a \<in> set ns \<and> j < length (destinationArcs (m a))}"

definition retag :: "nat list \<Rightarrow> int \<Rightarrow> int \<Rightarrow> (nat \<Rightarrow> gnode) \<Rightarrow> nat \<Rightarrow> gnode" where
  "retag ns bad ty m a = (if a \<in> set ns \<and> nodeType (m a) = bad then (m a)\<lparr>nodeType := ty\<rparr> else m a)"

lemma retag_Nil [simp]: "retag [] bad ty m = m"
  by (simp add: retag_def fun_eq_iff)

lemma retag_fields [simp]:
  "nodeStatus (retag ns bad ty m a) = nodeStatus (m a)" "sourceArcs (retag ns bad ty m a) = sourceArcs (m a)"
  "destinationArcs (retag ns bad ty m a) = destinationArcs (m a)" "flag k (retag ns bad ty m a) = flag k (m a)" "outline (retag ns bad ty m a) = outline (m a)"
  by (simp_all add: retag_def)

lemma retag_nodes_wp:
  "bad \<noteq> ty \<Longrightarrow> wp (for_each (\<lambda>a _. bnd (node_get a) (\<lambda>n. if nodeType n = bad then set_type a ty else ret ())) ns ()) (\<lambda>_ h. h = g\<lparr>node_mem := retag ns bad ty (node_mem g)\<rparr>) g"
proof (rule wp_for_each [where I = "\<lambda>k _ h. h = g\<lparr>node_mem := retag (take k ns) bad ty (node_mem g)\<rparr>"])
  show "g = g\<lparr>node_mem := retag (take 0 ns) bad ty (node_mem g)\<rparr>" by simp
  fix k u h assume k: "k < length ns" and h: "h = g\<lparr>node_mem := retag (take k ns) bad ty (node_mem g)\<rparr>" and ne: "bad \<noteq> ty"
  let ?m = "retag (take k ns) bad ty (node_mem g)"
  have "retag (take (Suc k) ns) bad ty (node_mem g) = (if nodeType (?m (ns ! k)) = bad then ?m(ns ! k := (?m (ns ! k))\<lparr>nodeType := ty\<rparr>) else ?m)"
    using k ne by (auto simp: retag_def take_Suc_conv_app_nth fun_eq_iff)
  then show "wp (bnd (node_get (ns ! k)) (\<lambda>n. if nodeType n = bad then set_type (ns ! k) ty else ret ()))
      (\<lambda>_ h. h = g\<lparr>node_mem := retag (take (Suc k) ns) bad ty (node_mem g)\<rparr>) h"
    by (simp add: wp_node_get wp_set_type h del: fun_upd_apply)
qed simp

definition retag_cell :: "cell set \<Rightarrow> int \<Rightarrow> int \<Rightarrow> cell \<Rightarrow> int \<Rightarrow> int" where
  "retag_cell C bad ty c t = (if c \<in> C \<and> t = bad then ty else t)"

lemma retag_arcs_wp:
  assumes "bad \<noteq> ty" "st_ptr ` set xs \<subseteq> cells ns (node_mem g)"
  shows "wp (for_each (\<lambda>e _. bnd (arc_get (st_ptr e)) (\<lambda>ac. if arcType ac = bad then arc_set_type (st_ptr e) ty else ret ())) xs ())
    (\<lambda>_ h. h = g\<lparr>node_mem := map_arcs (retag_cell (st_ptr ` set xs) bad ty) (node_mem g)\<rparr>) g"
proof (rule wp_for_each [where I = "\<lambda>k _ h. h = g\<lparr>node_mem := map_arcs (retag_cell (st_ptr ` set (take k xs)) bad ty) (node_mem g)\<rparr>"])
  have "map_arcs (retag_cell {} bad ty) (node_mem g) = node_mem g" by (rule map_arcs_id) (simp add: retag_cell_def)
  then show "g = g\<lparr>node_mem := map_arcs (retag_cell (st_ptr ` set (take 0 xs)) bad ty) (node_mem g)\<rparr>" by simp
  fix k u h assume k: "k < length xs" and h: "h = g\<lparr>node_mem := map_arcs (retag_cell (st_ptr ` set (take k xs)) bad ty) (node_mem g)\<rparr>"
  obtain a i where c: "st_ptr (xs ! k) = (a, i)" by (cases "st_ptr (xs ! k)")
  let ?C = "st_ptr ` set (take k xs)" and ?t = "arcType (destinationArcs (node_mem g a) ! i)"
  let ?m = "map_arcs (retag_cell ?C bad ty) (node_mem g)"
  have "st_ptr (xs ! k) \<in> cells ns (node_mem g)" using assms(2) k nth_mem by blast
  then have i: "i < length (destinationArcs (node_mem g a))" by (simp add: cells_def c)
  have C: "st_ptr ` set (take (Suc k) xs) = insert (a, i) ?C" using k c by (simp add: take_Suc_conv_app_nth)
  have "map_arcs (retag_cell (insert (a, i) ?C) bad ty) (node_mem g) =
      (if retag_cell ?C bad ty (a, i) ?t = bad then map_arcs (\<lambda>c t. if c = (a, i) then ty else t) ?m else ?m)"
    unfolding map_arcs_twice using assms(1)
    by (auto simp: map_arcs_def retag_cell_def fun_eq_iff intro!: arg_cong [of _ _ "\<lambda>x. _\<lparr>destinationArcs := x\<rparr>"])
  then show "wp (bnd (arc_get (st_ptr (xs ! k))) (\<lambda>ac. if arcType ac = bad then arc_set_type (st_ptr (xs ! k)) ty else ret ()))
      (\<lambda>_ h. h = g\<lparr>node_mem := map_arcs (retag_cell (st_ptr ` set (take (Suc k) xs)) bad ty) (node_mem g)\<rparr>) h"
    unfolding C c h using i by (simp add: wp_arc_get wp_arc_set_type)
qed simp

lemma merge_traces_wp:
  assumes "bad \<noteq> ty" "st_ptr ` set xs = cells ns (node_mem g)"
  shows "wp (merge_traces ns xs bad ty) (\<lambda>_ h. h = g\<lparr>node_mem := map_arcs (retag_cell (cells ns (node_mem g)) bad ty) (retag ns bad ty (node_mem g))\<rparr>) g"
  unfolding merge_traces_def
proof (rule wp_seq [OF retag_nodes_wp [OF assms(1)]], hypsubst)
  let ?g = "g\<lparr>node_mem := retag ns bad ty (node_mem g)\<rparr>"
  have "cells ns (node_mem ?g) = cells ns (node_mem g)" by (simp add: cells_def)
  then show "wp (for_each (\<lambda>e _. bnd (arc_get (st_ptr e)) (\<lambda>ac. if arcType ac = bad then arc_set_type (st_ptr e) ty else ret ())) xs ())
    (\<lambda>_ h. h = g\<lparr>node_mem := map_arcs (retag_cell (cells ns (node_mem g)) bad ty) (retag ns bad ty (node_mem g))\<rparr>) ?g"
    using retag_arcs_wp [OF assms(1), of xs ns ?g] assms(2) by simp
qed

section \<open>Fragments\<close>

text \<open>A fragment of several nodes is a trace already, with a type below \<open>bound\<close>; a single node is not visited.\<close>

definition whole :: "(nat \<Rightarrow> gnode) \<Rightarrow> int \<Rightarrow> nat list \<Rightarrow> bool" where
  "whole m bound t = ((\<exists>ty. 0 < ty \<and> ty < bound \<and> (\<forall>a\<in>set t. nodeType (m a) = ty \<and> flag VISITED (m a))) \<and> ended m True True t)"

definition single :: "(nat \<Rightarrow> gnode) \<Rightarrow> nat list \<Rightarrow> bool" where
  "single m t = (\<forall>a\<in>set t. nodeStatus (m a) = 0 \<and> nodeType (m a) = 0)"

definition pieces :: "nat list \<Rightarrow> nat \<Rightarrow> nat list set \<Rightarrow> bool" where
  "pieces ns r P = ((\<forall>t\<in>P. t \<noteq> [] \<and> distinct t \<and> r \<notin> set (tl t)) \<and> (\<forall>t\<in>P. \<forall>u\<in>P. t \<noteq> u \<longrightarrow> set t \<inter> set u = {}) \<and> (\<Union>t\<in>P. set t) = set ns)"

definition links_in :: "nat list set \<Rightarrow> (nat \<times> nat) set" where
  "links_in P = (\<Union>t\<in>P. links t)"

definition fragments :: "nat list \<Rightarrow> nat \<Rightarrow> (nat \<Rightarrow> gnode) \<Rightarrow> int \<Rightarrow> nat list set \<Rightarrow> bool" where
  "fragments ns r m bound P = (pieces ns r P \<and> 0 < bound \<and> (\<forall>t\<in>P. if tl t = [] then single m t else whole m bound t) \<and>
     (\<forall>t\<in>P. \<forall>u\<in>P. tl t \<noteq> [] \<longrightarrow> tl u \<noteq> [] \<longrightarrow> nodeType (m (hd t)) = nodeType (m (hd u)) \<longrightarrow> t = u) \<and>
     marked ns m (links_in P) \<and> (\<forall>a\<in>set ns. \<not> flag LOOP_HEAD (m a) \<and> (\<forall>e\<in>set (sourceArcs (m a)). arcType e = 0)))"

text \<open>The memory after \<open>t1\<close> and \<open>t2\<close> have been joined by the arc in the cell \<open>(s, i)\<close>.\<close>

definition joined_up :: "nat list \<Rightarrow> (nat \<Rightarrow> gnode) \<Rightarrow> nat list \<Rightarrow> nat list \<Rightarrow> cell \<Rightarrow> int \<Rightarrow> (nat \<Rightarrow> gnode) \<Rightarrow> bool" where
  "joined_up ns m t1 t2 c ty m' = ((\<forall>a\<in>set (t1 @ t2). nodeType (m' a) = ty \<and> flag VISITED (m' a) \<and> \<not> flag LOOP_HEAD (m' a)) \<and>
     ended m' True True (t1 @ t2) \<and> (\<forall>a. a \<notin> set (t1 @ t2) \<longrightarrow> nodeType (m' a) = nodeType (m a) \<and> nodeStatus (m' a) = nodeStatus (m a)) \<and>
     (\<forall>a. sourceArcs (m' a) = sourceArcs (m a) \<and> outline (m' a) = outline (m a)) \<and>
     (\<forall>a\<in>set ns. \<forall>j<length (destinationArcs (m a)). arcType (destinationArcs (m' a) ! j) = (if (a, j) = c then ty
        else if a \<in> set (t1 @ t2) \<and> arcType (destinationArcs (m a) ! j) \<noteq> 0 then ty else arcType (destinationArcs (m a) ! j))))"

lemma outline_cells:
  assumes "outline n = outline n'"
  shows "length (destinationArcs n) = length (destinationArcs n')"
    and "j < length (destinationArcs n) \<Longrightarrow> destinationNode (destinationArcs n ! j) = destinationNode (destinationArcs n' ! j)"
proof -
  have eq: "map untyped (destinationArcs n) = map untyped (destinationArcs n')" using assms by (simp add: outline_def)
  then show len: "length (destinationArcs n) = length (destinationArcs n')" by (metis length_map)
  assume "j < length (destinationArcs n)"
  then have "untyped (destinationArcs n ! j) = untyped (destinationArcs n' ! j)" using eq len by (metis nth_map)
  then show "destinationNode (destinationArcs n ! j) = destinationNode (destinationArcs n' ! j)" by (simp add: untyped_def)
qed

lemma distinct_last_links: "distinct t \<Longrightarrow> (last t, b) \<notin> links t"
proof (induction t)
  case (Cons a t)
  then show ?case using links_append [of "[a]" t] links_set [of "last t" b] by (cases t) (auto simp: links_def split: if_splits)
qed (simp add: links_def)

lemma links_in_piece: "pieces ns r P \<Longrightarrow> (a, b) \<in> links_in P \<Longrightarrow> t \<in> P \<Longrightarrow> a \<in> set t \<Longrightarrow> (a, b) \<in> links t"
proof -
  assume P: "pieces ns r P" and l: "(a, b) \<in> links_in P" and t: "t \<in> P" "a \<in> set t"
  from l obtain u where u: "u \<in> P" "(a, b) \<in> links u" by (auto simp: links_in_def)
  then have "u = t" using P t links_set [OF u(2)] by (auto simp: pieces_def)
  with u(2) show ?thesis by simp
qed

lemma pieces_join:
  assumes "pieces ns r P" "t1 \<in> P" "t2 \<in> P" "t1 \<noteq> t2" "hd t2 \<noteq> r"
  shows "pieces ns r (insert (t1 @ t2) (P - {t1, t2}))" "links_in (insert (t1 @ t2) (P - {t1, t2})) = insert (last t1, hd t2) (links_in P)"
proof -
  have p: "t1 \<noteq> []" "t2 \<noteq> []" "distinct t1" "distinct t2" "r \<notin> set (tl t1)" "r \<notin> set (tl t2)" "set t1 \<inter> set t2 = {}" using assms by (auto simp: pieces_def)
  have "r \<notin> set t2" using p(2,6) assms(5) by (cases t2) auto
  then have "r \<notin> set (tl (t1 @ t2))" using p by simp
  moreover have "(\<Union>t\<in>P. set t) = set ns" "\<forall>u\<in>P - {t1, t2}. set u \<inter> set (t1 @ t2) = {}" using assms by (auto simp: pieces_def)
  moreover have "(\<Union>t\<in>insert (t1 @ t2) (P - {t1, t2}). set t) = (\<Union>t\<in>P. set t)" using assms(2,3) by auto
  ultimately show "pieces ns r (insert (t1 @ t2) (P - {t1, t2}))"
    using assms(1) p by (auto simp: pieces_def)
  show "links_in (insert (t1 @ t2) (P - {t1, t2})) = insert (last t1, hd t2) (links_in P)"
    using assms(2,3) links_append [OF p(1,2)] by (auto simp: links_in_def)
qed

lemma joined_up_marked:
  assumes P: "pieces ns r P" and mk: "marked ns m (links_in P)" and t: "t1 \<in> P" "t2 \<in> P" "t1 \<noteq> t2"
    and i: "i < length (destinationArcs (m (last t1)))" "destinationNode (destinationArcs (m (last t1)) ! i) = hd t2" and ty: "0 < ty"
    and src: "\<forall>a\<in>set ns. \<forall>e\<in>set (sourceArcs (m a)). arcType e = 0"
    and ju: "joined_up ns m t1 t2 (last t1, i) ty m'"
  shows "marked ns m' (insert (last t1, hd t2) (links_in P))"
proof -
  let ?T = "set (t1 @ t2)" and ?s = "last t1"
  have p: "t1 \<noteq> []" "t2 \<noteq> []" "distinct t1" "set t1 \<inter> set t2 = {}" "set t1 \<subseteq> set ns" "set t2 \<subseteq> set ns" using P t by (auto simp: pieces_def)
  then have s: "?s \<in> ?T" "?s \<in> set t1" "?s \<in> set ns" by auto
  have tys: "nodeType (m' a) = (if a \<in> ?T then ty else nodeType (m a))" for a using ju by (auto simp: joined_up_def)
  have out: "outline (m' a) = outline (m a)" for a using ju by (simp add: joined_up_def)
  note oc = outline_cells [OF out]
  have arc: "arcType (destinationArcs (m' a) ! j) = (if (a, j) = (?s, i) then ty
      else if a \<in> ?T \<and> arcType (destinationArcs (m a) ! j) \<noteq> 0 then ty else arcType (destinationArcs (m a) ! j))"
    if "a \<in> set ns" "j < length (destinationArcs (m a))" for a j using ju that by (simp add: joined_up_def)
  have 1: "(a, destinationNode e) \<in> insert (?s, hd t2) (links_in P) \<and> arcType e = nodeType (m' a)"
    if a: "a \<in> set ns" and e: "e \<in> set (destinationArcs (m' a))" "arcType e \<noteq> 0" for a e
  proof -
    obtain j where j: "j < length (destinationArcs (m' a))" "e = destinationArcs (m' a) ! j" using e(1) by (auto simp: in_set_conv_nth)
    note o = oc(1) [of a] oc(2) [OF j(1)]
    show ?thesis
    proof (cases "(a, j) = (?s, i)")
      case True
      then show ?thesis using arc [OF a] j o i(2) tys [of a] s by simp
    next
      case False
      then have t0: "arcType (destinationArcs (m a) ! j) \<noteq> 0" using arc [OF a, of j] j o(1) e(2) by (auto split: if_splits)
      have "destinationArcs (m a) ! j \<in> set (destinationArcs (m a))" using j(1) o(1) by simp
      then have "(a, destinationNode e) \<in> links_in P" "arcType (destinationArcs (m a) ! j) = nodeType (m a)"
        using mk a t0 o(2) j(2) by (auto simp: marked_def)
      then show ?thesis using arc [OF a, of j] j o(1) t0 False tys [of a] by auto
    qed
  qed
  have 2: "arcType e = 0" if "a \<in> set ns" "e \<in> set (sourceArcs (m' a))" for a e using src ju that by (simp add: joined_up_def)
  have 3: "nodeType (m' a) \<noteq> 0 \<and> (\<exists>e\<in>set (destinationArcs (m' a)). destinationNode e = b \<and> arcType e = nodeType (m' a))"
    if ab: "(a, b) \<in> insert (?s, hd t2) (links_in P)" for a b
  proof (cases "(a, b) = (?s, hd t2)")
    case True
    have "destinationArcs (m' ?s) ! i \<in> set (destinationArcs (m' ?s))" using i(1) oc(1) [of ?s] by simp
    then show ?thesis using True arc [OF s(3) i(1)] oc(1) [of ?s] oc(2) [of i ?s] i tys [of ?s] s(1) ty by auto
  next
    case False
    then have l: "(a, b) \<in> links_in P" using ab by auto
    then obtain e where e: "nodeType (m a) \<noteq> 0" "e \<in> set (destinationArcs (m a))" "destinationNode e = b" "arcType e = nodeType (m a)"
      using mk unfolding marked_def by metis
    obtain j where j: "j < length (destinationArcs (m a))" "e = destinationArcs (m a) ! j" using e(2) by (auto simp: in_set_conv_nth)
    have "a \<noteq> ?s" using links_in_piece [OF P l t(1)] s(2) distinct_last_links [OF p(3)] by auto
    moreover have "a \<in> set ns" using l P by (fastforce simp: links_in_def pieces_def dest: links_set)
    ultimately have "arcType (destinationArcs (m' a) ! j) = nodeType (m' a)" using arc [of a j] j e tys [of a] by auto
    moreover have "destinationArcs (m' a) ! j \<in> set (destinationArcs (m' a))" "destinationNode (destinationArcs (m' a) ! j) = b"
      using oc(1) [of a] oc(2) [of j a] j e(3) by auto
    ultimately show ?thesis using tys [of a] ty e(1) by auto
  qed
  show ?thesis unfolding marked_def using 1 2 3 by blast
qed

lemma fragmentsD:
  assumes "fragments ns r m bound P"
  shows "pieces ns r P" "0 < bound" "marked ns m (links_in P)" "\<forall>a\<in>set ns. \<forall>e\<in>set (sourceArcs (m a)). arcType e = 0"
    "t \<in> P \<Longrightarrow> tl t = [] \<Longrightarrow> single m t" "t \<in> P \<Longrightarrow> tl t \<noteq> [] \<Longrightarrow> whole m bound t" "a \<in> set ns \<Longrightarrow> \<not> flag LOOP_HEAD (m a)"
    "t \<in> P \<Longrightarrow> u \<in> P \<Longrightarrow> tl t \<noteq> [] \<Longrightarrow> tl u \<noteq> [] \<Longrightarrow> nodeType (m (hd t)) = nodeType (m (hd u)) \<Longrightarrow> t = u"
  using assms by (auto simp: fragments_def)

lemma piecesD:
  assumes "pieces ns r P" "t \<in> P"
  shows "t \<noteq> []" "distinct t" "r \<notin> set (tl t)" "set t \<subseteq> set ns" "hd t \<in> set t" "last t \<in> set t"
    "u \<in> P \<Longrightarrow> a \<in> set t \<Longrightarrow> a \<in> set u \<Longrightarrow> t = u"
  using assms by (auto simp: pieces_def intro: hd_in_set)

lemma piece_of:
  assumes "pieces ns r P" "a \<in> set ns"
  obtains t where "t \<in> P" "a \<in> set t"
proof -
  have "a \<in> (\<Union>t\<in>P. set t)" using assms by (simp add: pieces_def)
  then show thesis using that by auto
qed

lemma fragments_join:
  assumes fr: "fragments ns r m bound P" and t: "t1 \<in> P" "t2 \<in> P" "t1 \<noteq> t2" "hd t2 \<noteq> r"
    and i: "i < length (destinationArcs (m (last t1)))" "destinationNode (destinationArcs (m (last t1)) ! i) = hd t2"
    and ty: "0 < ty" "ty < bound'" "bound \<le> bound'" "\<And>u. u \<in> P \<Longrightarrow> u \<noteq> t1 \<Longrightarrow> u \<noteq> t2 \<Longrightarrow> tl u \<noteq> [] \<Longrightarrow> nodeType (m (hd u)) \<noteq> ty"
    and ju: "joined_up ns m t1 t2 (last t1, i) ty m'"
  shows "fragments ns r m' bound' (insert (t1 @ t2) (P - {t1, t2}))"
proof -
  let ?P = "insert (t1 @ t2) (P - {t1, t2})"
  note f = fragmentsD [OF fr]
  note j = pieces_join [OF f(1) t] and p = piecesD [OF f(1)]
  have mk: "marked ns m' (links_in ?P)" unfolding j(2) by (rule joined_up_marked [OF f(1,3) t(1-3) i ty(1) f(4) ju])
  have outside: "nodeType (m' a) = nodeType (m a) \<and> nodeStatus (m' a) = nodeStatus (m a)" if "u \<in> P - {t1, t2}" "a \<in> set u" for u a
  proof -
    have "a \<notin> set (t1 @ t2)" using that p(7) [of u t1 a] p(7) [of u t2 a] t(1,2) by auto
    then show ?thesis using ju by (simp add: joined_up_def)
  qed
  then have flags: "flag k (m' a) = flag k (m a)" if "u \<in> P - {t1, t2}" "a \<in> set u" for k u a using that by (simp add: flag_def)
  have new: "tl (t1 @ t2) \<noteq> []" "whole m' bound' (t1 @ t2)" "nodeType (m' (hd (t1 @ t2))) = ty"
    using p(1) [OF t(1)] p(1) [OF t(2)] ju ty(1,2) by (auto simp: joined_up_def whole_def)
  have old: "if tl u = [] then single m' u else whole m' bound' u" if u: "u \<in> P - {t1, t2}" for u
  proof (cases "tl u = []")
    case True
    then show ?thesis using f(5) [of u] u outside [OF u] by (simp add: single_def)
  next
    case False
    have "whole m bound u" using f(6) [of u] u False by simp
    then obtain ty' where "0 < ty'" "ty' < bound" "\<forall>a\<in>set u. nodeType (m a) = ty' \<and> flag VISITED (m a)" "ended m True True u" by (auto simp: whole_def)
    then show ?thesis using False outside [OF u] flags [OF u] ty(3) unfolding whole_def ended_def by (auto intro!: exI [of _ ty'])
  qed
  have types: "t = u" if "t \<in> ?P" "u \<in> ?P" "tl t \<noteq> []" "tl u \<noteq> []" "nodeType (m' (hd t)) = nodeType (m' (hd u))" for t u
    using that new(3) outside p(5) ty(4) f(8) [of t u] by auto metis+
  have rest: "\<not> flag LOOP_HEAD (m' a) \<and> (\<forall>e\<in>set (sourceArcs (m' a)). arcType e = 0)" if "a \<in> set ns" for a
  proof -
    have "flag LOOP_HEAD (m' a) = False" using ju f(7) [OF that] by (cases "a \<in> set (t1 @ t2)") (auto simp: joined_up_def flag_def)
    then show ?thesis using ju f(4) that by (simp add: joined_up_def)
  qed
  show ?thesis
    unfolding fragments_def
  proof (intro conjI ballI impI)
    show "if tl u = [] then single m' u else whole m' bound' u" if "u \<in> ?P" for u using that old new(1,2) by (cases "u = t1 @ t2") auto
    show "0 < bound'" using ty(3) f(2) by simp
    show "t = u" if "t \<in> ?P" "u \<in> ?P" "tl t \<noteq> []" "tl u \<noteq> []" "nodeType (m' (hd t)) = nodeType (m' (hd u))" for t u by (rule types [OF that])
  qed (use j(1) mk rest in auto)
qed

text \<open>The test of the code, over fragments.\<close>

definition joinable :: "nat list set \<Rightarrow> nat \<Rightarrow> nat \<Rightarrow> nat \<Rightarrow> bool" where
  "joinable P r s d = (d \<noteq> r \<and> (\<exists>t1\<in>P. \<exists>t2\<in>P. t1 \<noteq> t2 \<and> last t1 = s \<and> hd t2 = d))"

lemma fragment_ends:
  assumes fr: "fragments ns r m bound P" and t: "t \<in> P" "a \<in> set t"
  shows "nodeStatus (m a) = 0 \<or> flag TRACE_TAIL (m a) \<longleftrightarrow> a = last t" "nodeStatus (m a) = 0 \<or> flag TRACE_HEAD (m a) \<longleftrightarrow> a = hd t"
    "flag VISITED (m a) \<longleftrightarrow> tl t \<noteq> []" "flag TRACE_TAIL (m a) \<longleftrightarrow> tl t \<noteq> [] \<and> a = last t" "flag TRACE_HEAD (m a) \<longleftrightarrow> tl t \<noteq> [] \<and> a = hd t"
    "tl t \<noteq> [] \<Longrightarrow> nodeType (m a) = nodeType (m (hd t))" "tl t = [] \<Longrightarrow> nodeType (m a) = 0"
    "tl t \<noteq> [] \<Longrightarrow> 0 < nodeType (m a) \<and> nodeType (m a) < bound"
proof -
  note f = fragmentsD [OF fr] and p = piecesD [OF fragmentsD(1) [OF fr] t(1)]
  show zero: "nodeType (m a) = 0" if "tl t = []" using f(5) [OF t(1) that] t(2) by (simp add: single_def)
  have w: "flag VISITED (m a)" "flag TRACE_HEAD (m a) \<longleftrightarrow> a = hd t" "flag TRACE_TAIL (m a) \<longleftrightarrow> a = last t"
    "nodeType (m a) = nodeType (m (hd t))" "0 < nodeType (m a) \<and> nodeType (m a) < bound" "nodeStatus (m a) \<noteq> 0" if "tl t \<noteq> []"
    using f(6) [OF t(1) that] t(2) p(5) by (auto simp: whole_def ended_def flag_def)
  show "nodeType (m a) = nodeType (m (hd t))" "0 < nodeType (m a) \<and> nodeType (m a) < bound" if "tl t \<noteq> []" by (rule w(4,5) [OF that])+
  have one: "nodeStatus (m a) = 0 \<and> a = hd t \<and> a = last t \<and> \<not> flag k (m a)" if "tl t = []" for k
    using that f(5) [OF t(1) that] t(2) p(1) flag_zero [of "m a" k] by (cases t) (auto simp: single_def)
  show "nodeStatus (m a) = 0 \<or> flag TRACE_TAIL (m a) \<longleftrightarrow> a = last t" "nodeStatus (m a) = 0 \<or> flag TRACE_HEAD (m a) \<longleftrightarrow> a = hd t"
    "flag VISITED (m a) \<longleftrightarrow> tl t \<noteq> []" "flag TRACE_TAIL (m a) \<longleftrightarrow> tl t \<noteq> [] \<and> a = last t" "flag TRACE_HEAD (m a) \<longleftrightarrow> tl t \<noteq> [] \<and> a = hd t"
    using one w(1-3,6) by blast+
qed

lemma may_join_wp:
  assumes fr: "fragments ns r (node_mem g) bound P" and sd: "s \<in> set ns" "d \<in> set ns"
  shows "wp (may_join (Some r) s d) Q g = Q (joinable P r s d) g"
proof -
  let ?m = "node_mem g"
  note p = piecesD [OF fragmentsD(1) [OF fr]]
  obtain t1 where t1: "t1 \<in> P" "s \<in> set t1" using piece_of [OF fragmentsD(1) [OF fr] sd(1)] by blast
  obtain t2 where t2: "t2 \<in> P" "d \<in> set t2" using piece_of [OF fragmentsD(1) [OF fr] sd(2)] by blast
  note e1 = fragment_ends [OF fr t1] and e2 = fragment_ends [OF fr t2]
  have u1: "u = t1" if "u \<in> P" "last u = s" for u using p(6) [OF that(1)] p(7) [OF that(1) t1(1)] that(2) t1(2) by auto
  have u2: "u = t2" if "u \<in> P" "hd u = d" for u using p(5) [OF that(1)] p(7) [OF that(1) t2(1)] that(2) t2(2) by auto
  have j: "joinable P r s d \<longleftrightarrow> d \<noteq> r \<and> t1 \<noteq> t2 \<and> s = last t1 \<and> d = hd t2"
    unfolding joinable_def using u1 u2 t1(1) t2(1) by metis
  have "s \<noteq> d" if "t1 \<noteq> t2" using that p(7) [OF t1(1) t2(1)] t1(2) t2(2) by auto
  moreover have "flag TRACE_TAIL (?m s) \<and> flag TRACE_HEAD (?m d) \<and> nodeType (?m s) = nodeType (?m d) \<or> s = d"
    if "t1 = t2" "s = last t1" "d = hd t2"
    using that e1(4,6) e2(5,6) p(1) [OF t1(1)] by (cases t1) (auto split: if_splits)
  moreover have "\<not> (flag TRACE_TAIL (?m s) \<and> flag TRACE_HEAD (?m d) \<and> nodeType (?m s) = nodeType (?m d))" if "t1 \<noteq> t2"
    using that e1(4,6) e2(5,6) fragmentsD(8) [OF fr t1(1) t2(1)] by auto
  ultimately have "(Some d \<noteq> Some r \<and> (nodeStatus (?m s) = NOT_VISITED \<or> flag TRACE_TAIL (?m s)) \<and>
      (nodeStatus (?m d) = NOT_VISITED \<or> flag TRACE_HEAD (?m d)) \<and>
      \<not> (flag TRACE_TAIL (?m s) \<and> flag TRACE_HEAD (?m d) \<and> nodeType (?m s) = nodeType (?m d)) \<and> s \<noteq> d) = joinable P r s d"
    unfolding j NOT_VISITED_def e1(1) e2(2) by blast
  then show ?thesis by (simp add: may_join_def wp_node_get)
qed

section \<open>One arc\<close>

lemma lowered_fields [simp]:
  "nodeType (lowered k a m b) = nodeType (m b)" "sourceArcs (lowered k a m b) = sourceArcs (m b)"
  "destinationArcs (lowered k a m b) = destinationArcs (m b)" "k AND RESERVED_STATUS_BITS = 0 \<Longrightarrow> outline (lowered k a m b) = outline (m b)"
  "nodeStatus (lowered k a m b) = (if b = a then nodeStatus (m b) AND NOT k else nodeStatus (m b))"
  by (auto simp: lowered_def)

lemma lowered_flags [simp]:
  "flag VISITED (lowered TRACE_TAIL a m b) = flag VISITED (m b)" "flag VISITED (lowered TRACE_HEAD a m b) = flag VISITED (m b)"
  "flag LOOP_HEAD (lowered TRACE_TAIL a m b) = flag LOOP_HEAD (m b)" "flag LOOP_HEAD (lowered TRACE_HEAD a m b) = flag LOOP_HEAD (m b)"
  "flag TRACE_HEAD (lowered TRACE_TAIL a m b) = flag TRACE_HEAD (m b)" "flag TRACE_TAIL (lowered TRACE_HEAD a m b) = flag TRACE_TAIL (m b)"
  "flag TRACE_TAIL (lowered TRACE_TAIL a m b) = (flag TRACE_TAIL (m b) \<and> b \<noteq> a)" "flag TRACE_HEAD (lowered TRACE_HEAD a m b) = (flag TRACE_HEAD (m b) \<and> b \<noteq> a)"
  by (auto simp: lowered_def) (simp_all add: flag_def and.assoc LOOP_HEAD_def TRACE_TAIL_def TRACE_HEAD_def)

lemma flag_pairs [simp]:
  "(VISITED OR TRACE_TAIL) AND VISITED \<noteq> 0" "(VISITED OR TRACE_TAIL) AND TRACE_TAIL \<noteq> 0" "(VISITED OR TRACE_TAIL) AND TRACE_HEAD = 0"
  "(VISITED OR TRACE_TAIL) AND LOOP_HEAD = 0" "(VISITED OR TRACE_HEAD) AND VISITED \<noteq> 0" "(VISITED OR TRACE_HEAD) AND TRACE_TAIL = 0"
  "(VISITED OR TRACE_HEAD) AND TRACE_HEAD \<noteq> 0" "(VISITED OR TRACE_HEAD) AND LOOP_HEAD = 0"
  by (simp_all add: VISITED_def TRACE_HEAD_def TRACE_TAIL_def LOOP_HEAD_def)

definition tagged :: "nat \<Rightarrow> int \<Rightarrow> (nat \<Rightarrow> gnode) \<Rightarrow> nat \<Rightarrow> gnode" where
  "tagged a ty m = m(a := (m a)\<lparr>nodeType := ty\<rparr>)"

lemma tagged_fields [simp]:
  "nodeType (tagged a ty m b) = (if b = a then ty else nodeType (m b))" "sourceArcs (tagged a ty m b) = sourceArcs (m b)"
  "destinationArcs (tagged a ty m b) = destinationArcs (m b)" "outline (tagged a ty m b) = outline (m b)" "flag k (tagged a ty m b) = flag k (m b)"
  "nodeStatus (tagged a ty m b) = nodeStatus (m b)"
  by (auto simp: tagged_def)

lemma raised_status: "nodeStatus (raised k a m b) = (if b = a then nodeStatus (m b) OR k else nodeStatus (m b))"
  by (simp add: raised_def)

lemma wp_tag: "wp (set_type a ty) Q g = Q () (g\<lparr>node_mem := tagged a ty (node_mem g)\<rparr>)"
  by (simp add: wp_set_type tagged_def)

text \<open>The memory once the arc has its type, and the ways to go on.\<close>

definition joint :: "nat \<Rightarrow> nat \<Rightarrow> nat \<Rightarrow> int \<Rightarrow> (nat \<Rightarrow> gnode) \<Rightarrow> nat \<Rightarrow> gnode" where
  "joint s i d ty m = map_arcs (\<lambda>c t. if c = (s, i) then ty else t) (lowered TRACE_HEAD d (lowered TRACE_TAIL s m))"

lemma arc_type:
  assumes fr: "fragments ns r m bound P" and t: "t \<in> P" "a \<in> set t" and j: "j < length (destinationArcs (m a))" "arcType (destinationArcs (m a) ! j) \<noteq> 0"
  shows "tl t \<noteq> []" "arcType (destinationArcs (m a) ! j) = nodeType (m a)"
proof -
  note f = fragmentsD [OF fr]
  have a: "a \<in> set ns" using piecesD(4) [OF f(1) t(1)] t(2) by auto
  have l: "(a, destinationNode (destinationArcs (m a) ! j)) \<in> links_in P" "arcType (destinationArcs (m a) ! j) = nodeType (m a)"
    using f(3) a j nth_mem [OF j(1)] by (auto simp: marked_def)
  then show "arcType (destinationArcs (m a) ! j) = nodeType (m a)" by simp
  show "tl t \<noteq> []" using links_in_piece [OF f(1) l(1) t] by (auto simp: links_def)
qed

lemma joined_upI:
  assumes fr: "fragments ns r m bound P" and t: "t1 \<in> P" "t2 \<in> P"
    and nt: "\<And>a. nodeType (m' a) = (if a \<in> set (t1 @ t2) then ty else nodeType (m a))"
    and fl: "\<And>a. a \<in> set (t1 @ t2) \<Longrightarrow> flag VISITED (m' a)" "\<And>a. a \<in> set (t1 @ t2) \<Longrightarrow> flag TRACE_HEAD (m' a) \<longleftrightarrow> a = hd t1"
      "\<And>a. a \<in> set (t1 @ t2) \<Longrightarrow> flag TRACE_TAIL (m' a) \<longleftrightarrow> a = last t2" "\<And>a. flag LOOP_HEAD (m' a) = flag LOOP_HEAD (m a)"
    and st: "\<And>a. a \<notin> set (t1 @ t2) \<Longrightarrow> nodeStatus (m' a) = nodeStatus (m a)"
    and same: "\<And>a. sourceArcs (m' a) = sourceArcs (m a)" "\<And>a. outline (m' a) = outline (m a)"
    and arcs: "\<And>a j. a \<in> set ns \<Longrightarrow> j < length (destinationArcs (m a)) \<Longrightarrow> (a, j) \<noteq> c \<Longrightarrow> arcType (destinationArcs (m' a) ! j) =
      (if a \<in> set (t1 @ t2) \<and> arcType (destinationArcs (m a) ! j) \<noteq> 0 then ty else arcType (destinationArcs (m a) ! j))"
      "\<And>a j. c = (a, j) \<Longrightarrow> arcType (destinationArcs (m' a) ! j) = ty"
  shows "joined_up ns m t1 t2 c ty m'"
proof -
  note f = fragmentsD [OF fr] and p = piecesD [OF fragmentsD(1) [OF fr]]
  have "a \<in> set ns" if "a \<in> set (t1 @ t2)" for a using that p(4) [OF t(1)] p(4) [OF t(2)] by auto
  moreover have "hd (t1 @ t2) = hd t1" "last (t1 @ t2) = last t2" using p(1) [OF t(1)] p(1) [OF t(2)] by auto
  ultimately show ?thesis
    unfolding joined_up_def ended_def using nt fl f(7) st same arcs by simp
qed

text \<open>The flags are the same in all cases: the nodes \<open>X\<close> of \<open>s\<close> and \<open>d\<close> are those that were not visited.\<close>

lemma joint_up:
  assumes fr: "fragments ns r m bound P" and t: "t1 \<in> P" "t2 \<in> P" "t1 \<noteq> t2" and sd: "s = last t1" "d = hd t2"
    and X: "X = (if tl t1 = [] then {s} else {}) \<union> (if tl t2 = [] then {d} else {})"
    and fl: "\<And>a. flag VISITED (m' a) \<longleftrightarrow> flag VISITED (m a) \<or> a \<in> X" "\<And>a. flag LOOP_HEAD (m' a) = flag LOOP_HEAD (m a)"
      "\<And>a. flag TRACE_HEAD (m' a) \<longleftrightarrow> flag TRACE_HEAD (m a) \<and> a \<noteq> d \<or> a = s \<and> s \<in> X"
      "\<And>a. flag TRACE_TAIL (m' a) \<longleftrightarrow> flag TRACE_TAIL (m a) \<and> a \<noteq> s \<or> a = d \<and> d \<in> X"
    and st: "\<And>a. a \<noteq> s \<Longrightarrow> a \<noteq> d \<Longrightarrow> nodeStatus (m' a) = nodeStatus (m a)"
    and same: "\<And>a. sourceArcs (m' a) = sourceArcs (m a)" "\<And>a. outline (m' a) = outline (m a)"
    and nt: "\<And>a. nodeType (m' a) = (if a \<in> set (t1 @ t2) then ty else nodeType (m a))"
    and arcs: "\<And>a j. a \<in> set ns \<Longrightarrow> j < length (destinationArcs (m a)) \<Longrightarrow> arcType (destinationArcs (m' a) ! j) = (if (a, j) = (s, i) then ty
      else if a \<in> set (t1 @ t2) \<and> arcType (destinationArcs (m a) ! j) \<noteq> 0 then ty else arcType (destinationArcs (m a) ! j))"
    and i: "i < length (destinationArcs (m s))"
  shows "joined_up ns m t1 t2 (s, i) ty m'"
proof -
  note p = piecesD [OF fragmentsD(1) [OF fr]] and e1 = fragment_ends [OF fr t(1)] and e2 = fragment_ends [OF fr t(2)]
  have s: "s \<in> set t1" "s \<in> set ns" "hd t1 \<in> set t1" and d: "d \<in> set t2" "last t2 \<in> set t2" using sd p(4,5,6) t by auto
  have dis: "a \<notin> set t2" if "a \<in> set t1" for a using p(7) [OF t(1,2) that] t(3) by auto
  have ne: "s \<noteq> d" "hd t1 \<noteq> d" "last t2 \<noteq> s" using dis s d by auto
  have X1: "s \<in> X \<longleftrightarrow> tl t1 = []" and X2: "d \<in> X \<longleftrightarrow> tl t2 = []" using X ne(1) by auto
  have one: "a = s \<and> hd t1 = s" if "tl t1 = []" "a \<in> set t1" for a using that p(1) [OF t(1)] sd(1) by (cases t1) auto
  have two: "a = d \<and> last t2 = d" if "tl t2 = []" "a \<in> set t2" for a using that p(1) [OF t(2)] sd(2) by (cases t2) auto
  have in1: "flag VISITED (m' a)" "flag TRACE_HEAD (m' a) \<longleftrightarrow> a = hd t1" "\<not> flag TRACE_TAIL (m' a)" if a: "a \<in> set t1" for a
  proof -
    have "a \<noteq> d" using dis [OF a] d(1) by auto
    then show "flag VISITED (m' a)" "flag TRACE_HEAD (m' a) \<longleftrightarrow> a = hd t1" "\<not> flag TRACE_TAIL (m' a)"
      using fl e1(3-5) [OF a] one [OF _ a] X1 sd(1) by blast+
  qed
  have in2: "flag VISITED (m' a)" "\<not> flag TRACE_HEAD (m' a)" "flag TRACE_TAIL (m' a) \<longleftrightarrow> a = last t2" if a: "a \<in> set t2" for a
  proof -
    have "a \<noteq> s" using dis [of s] s(1) a by auto
    then show "flag VISITED (m' a)" "\<not> flag TRACE_HEAD (m' a)" "flag TRACE_TAIL (m' a) \<longleftrightarrow> a = last t2"
      using fl e2(3-5) [OF a] two [OF _ a] X2 sd(2) by blast+
  qed
  have hl: "hd t1 \<notin> set t2" "last t2 \<notin> set t1" using dis s(3) d(2) by auto
  show ?thesis
  proof (rule joined_upI [OF fr t(1,2) nt])
    show "flag VISITED (m' a)" "flag TRACE_HEAD (m' a) \<longleftrightarrow> a = hd t1" "flag TRACE_TAIL (m' a) \<longleftrightarrow> a = last t2" if "a \<in> set (t1 @ t2)" for a
      using in1 in2 hl that by auto
    show "nodeStatus (m' a) = nodeStatus (m a)" if "a \<notin> set (t1 @ t2)" for a using that s(1) d(1) by (intro st) auto
    show "arcType (destinationArcs (m' a) ! j) = ty" if "(s, i) = (a, j)" for a j using that arcs [of a j] s(2) i by simp
  qed (use fl(2) same arcs in auto)
qed

lemma join_steps:
  assumes fr: "fragments ns r m bound P" and t: "t1 \<in> P" "t2 \<in> P" "t1 \<noteq> t2" and sd: "s = last t1" "d = hd t2"
    and i: "i < length (destinationArcs (m s))"
  shows "tl t1 \<noteq> [] \<Longrightarrow> tl t2 \<noteq> [] \<Longrightarrow> joined_up ns m t1 t2 (s, i) (nodeType (m s))
      (map_arcs (retag_cell (cells ns m) (nodeType (m d)) (nodeType (m s))) (retag ns (nodeType (m d)) (nodeType (m s)) (joint s i d (nodeType (m s)) m)))"
    and "tl t1 \<noteq> [] \<Longrightarrow> tl t2 = [] \<Longrightarrow> joined_up ns m t1 t2 (s, i) (nodeType (m s))
      (tagged d (nodeType (m s)) (raised (VISITED OR TRACE_TAIL) d (joint s i d (nodeType (m s)) m)))"
    and "tl t1 = [] \<Longrightarrow> tl t2 \<noteq> [] \<Longrightarrow> joined_up ns m t1 t2 (s, i) (nodeType (m d))
      (tagged s (nodeType (m d)) (raised (VISITED OR TRACE_HEAD) s (joint s i d (nodeType (m d)) m)))"
    and "tl t1 = [] \<Longrightarrow> tl t2 = [] \<Longrightarrow> joined_up ns m t1 t2 (s, i) bound
      (tagged d bound (raised (VISITED OR TRACE_TAIL) d (tagged s bound (raised (VISITED OR TRACE_HEAD) s (joint s i d bound m)))))"
proof -
  note f = fragmentsD [OF fr] and p = piecesD [OF fragmentsD(1) [OF fr]]
  note e1 = fragment_ends [OF fr t(1)] and e2 = fragment_ends [OF fr t(2)]
  have s: "s \<in> set t1" "s \<in> set ns" and d: "d \<in> set t2" "d \<in> set ns" using sd p(4,5,6) t by auto
  have ne: "s \<noteq> d" "d \<noteq> s" using p(7) [OF t(1,2), of s] t(3) s(1) d(1) by auto
  have one: "set t1 = {s}" if "tl t1 = []" using that p(1) [OF t(1)] sd by (cases t1) auto
  have two: "set t2 = {d}" if "tl t2 = []" using that p(1) [OF t(2)] sd by (cases t2) auto
  have js: "outline (joint s i d ty m a) = outline (m a)" "sourceArcs (joint s i d ty m a) = sourceArcs (m a)"
    "nodeType (joint s i d ty m a) = nodeType (m a)"
    "flag VISITED (joint s i d ty m a) = flag VISITED (m a)" "flag LOOP_HEAD (joint s i d ty m a) = flag LOOP_HEAD (m a)"
    "flag TRACE_TAIL (joint s i d ty m a) = (flag TRACE_TAIL (m a) \<and> a \<noteq> s)" "flag TRACE_HEAD (joint s i d ty m a) = (flag TRACE_HEAD (m a) \<and> a \<noteq> d)"
    "a \<noteq> s \<Longrightarrow> a \<noteq> d \<Longrightarrow> nodeStatus (joint s i d ty m a) = nodeStatus (m a)"
    "length (destinationArcs (joint s i d ty m a)) = length (destinationArcs (m a))" for ty a
    by (simp_all add: joint_def)
  have arcs: "arcType (destinationArcs (joint s i d ty m a) ! j) = (if (a, j) = (s, i) then ty else arcType (destinationArcs (m a) ! j))"
    if "j < length (destinationArcs (m a))" for ty a j using that by (simp add: joint_def)
  have ty1: "nodeType (m a) = nodeType (m s)" if "tl t1 \<noteq> []" "a \<in> set t1" for a using e1(6) [OF that(2,1)] e1(6) [OF s(1) that(1)] by simp
  have ty2: "nodeType (m a) = nodeType (m d)" if "tl t2 \<noteq> []" "a \<in> set t2" for a using e2(6) [OF that(2,1)] e2(6) [OF d(1) that(1)] by simp
  have old: "a \<in> set t1 \<and> tl t1 \<noteq> [] \<and> arcType (destinationArcs (m a) ! j) = nodeType (m s) \<or>
      a \<in> set t2 \<and> tl t2 \<noteq> [] \<and> arcType (destinationArcs (m a) ! j) = nodeType (m d)"
    if "a \<in> set (t1 @ t2)" "j < length (destinationArcs (m a))" "arcType (destinationArcs (m a) ! j) \<noteq> 0" for a j
    using that arc_type [OF fr t(1) _ that(2,3)] arc_type [OF fr t(2) _ that(2,3)] ty1 ty2 by auto
  show "joined_up ns m t1 t2 (s, i) (nodeType (m s))
      (tagged d (nodeType (m s)) (raised (VISITED OR TRACE_TAIL) d (joint s i d (nodeType (m s)) m)))" if w: "tl t1 \<noteq> []" "tl t2 = []"
  proof (rule joint_up [OF fr t sd refl])
    let ?m' = "tagged d (nodeType (m s)) (raised (VISITED OR TRACE_TAIL) d (joint s i d (nodeType (m s)) m))"
    show "nodeType (?m' a) = (if a \<in> set (t1 @ t2) then nodeType (m s) else nodeType (m a))" for a
      using two [OF w(2)] ty1 [OF w(1), of a] by (simp add: js)
    show "arcType (destinationArcs (?m' a) ! j) = (if (a, j) = (s, i) then nodeType (m s)
      else if a \<in> set (t1 @ t2) \<and> arcType (destinationArcs (m a) ! j) \<noteq> 0 then nodeType (m s) else arcType (destinationArcs (m a) ! j))"
      if "j < length (destinationArcs (m a))" for a j using arcs [OF that] old [OF _ that] w by auto
  qed (use w ne i in \<open>simp_all add: js raised_status\<close>)
  show "joined_up ns m t1 t2 (s, i) (nodeType (m d))
      (tagged s (nodeType (m d)) (raised (VISITED OR TRACE_HEAD) s (joint s i d (nodeType (m d)) m)))" if w: "tl t1 = []" "tl t2 \<noteq> []"
  proof (rule joint_up [OF fr t sd refl])
    let ?m' = "tagged s (nodeType (m d)) (raised (VISITED OR TRACE_HEAD) s (joint s i d (nodeType (m d)) m))"
    show "nodeType (?m' a) = (if a \<in> set (t1 @ t2) then nodeType (m d) else nodeType (m a))" for a
      using one [OF w(1)] ty2 [OF w(2), of a] by (simp add: js)
    show "arcType (destinationArcs (?m' a) ! j) = (if (a, j) = (s, i) then nodeType (m d)
      else if a \<in> set (t1 @ t2) \<and> arcType (destinationArcs (m a) ! j) \<noteq> 0 then nodeType (m d) else arcType (destinationArcs (m a) ! j))"
      if "j < length (destinationArcs (m a))" for a j using arcs [OF that] old [OF _ that] w by auto
  qed (use w ne i in \<open>simp_all add: js raised_status\<close>)
  show "joined_up ns m t1 t2 (s, i) bound
      (tagged d bound (raised (VISITED OR TRACE_TAIL) d (tagged s bound (raised (VISITED OR TRACE_HEAD) s (joint s i d bound m)))))" if w: "tl t1 = []" "tl t2 = []"
  proof (rule joint_up [OF fr t sd refl])
    let ?m' = "tagged d bound (raised (VISITED OR TRACE_TAIL) d (tagged s bound (raised (VISITED OR TRACE_HEAD) s (joint s i d bound m))))"
    show "nodeType (?m' a) = (if a \<in> set (t1 @ t2) then bound else nodeType (m a))" for a
      using one [OF w(1)] two [OF w(2)] by (simp add: js)
    show "arcType (destinationArcs (?m' a) ! j) = (if (a, j) = (s, i) then bound
      else if a \<in> set (t1 @ t2) \<and> arcType (destinationArcs (m a) ! j) \<noteq> 0 then bound else arcType (destinationArcs (m a) ! j))"
      if "j < length (destinationArcs (m a))" for a j using arcs [OF that] old [OF _ that] w by auto
  qed (use w ne i in \<open>auto simp: js raised_status\<close>)
  show "joined_up ns m t1 t2 (s, i) (nodeType (m s))
      (map_arcs (retag_cell (cells ns m) (nodeType (m d)) (nodeType (m s))) (retag ns (nodeType (m d)) (nodeType (m s)) (joint s i d (nodeType (m s)) m)))"
    if w: "tl t1 \<noteq> []" "tl t2 \<noteq> []"
  proof (rule joint_up [OF fr t sd refl])
    let ?s = "nodeType (m s)" and ?d = "nodeType (m d)"
    let ?m1 = "retag ns ?d ?s (joint s i d ?s m)"
    let ?m' = "map_arcs (retag_cell (cells ns m) ?d ?s) ?m1"
    have diff: "?s \<noteq> ?d"
      using f(8) [OF t(1,2) w] t(3) e1(6) [OF s(1) w(1)] e2(6) [OF d(1) w(2)] by auto
    have other: "nodeType (m a) \<noteq> ?d" if a: "a \<in> set ns" "a \<notin> set t2" for a
    proof -
      obtain u where u: "u \<in> P" "a \<in> set u" using piece_of [OF f(1) a(1)] by blast
      then have "u \<noteq> t2" using a(2) by auto
      then show ?thesis
        using f(8) [OF u(1) t(2) _ w(2)] fragment_ends(6,7) [OF fr u] e2(6,8) [OF d(1) w(2)] by (cases "tl u = []") auto
    qed
    show "nodeType (?m' a) = (if a \<in> set (t1 @ t2) then ?s else nodeType (m a))" for a
      using other [of a] ty1 [OF w(1), of a] ty2 [OF w(2), of a] p(4) [OF t(2)] by (auto simp: retag_def js)
    show "arcType (destinationArcs (?m' a) ! j) = (if (a, j) = (s, i) then ?s
      else if a \<in> set (t1 @ t2) \<and> arcType (destinationArcs (m a) ! j) \<noteq> 0 then ?s else arcType (destinationArcs (m a) ! j))"
      if a: "a \<in> set ns" and j: "j < length (destinationArcs (m a))" for a j
    proof -
      have c: "arcType (destinationArcs (?m' a) ! j) = retag_cell (cells ns m) ?d ?s (a, j) (if (a, j) = (s, i) then ?s else arcType (destinationArcs (m a) ! j))"
        using j arcs [OF j] by (simp add: js)
      have "arcType (destinationArcs (m a) ! j) \<noteq> ?d" if n: "a \<notin> set (t1 @ t2)"
      proof -
        obtain u where u: "u \<in> P" "a \<in> set u" using piece_of [OF f(1) a] by blast
        show ?thesis using arc_type(2) [OF fr u j] other [OF a] n e2(8) [OF d(1) w(2)] by (cases "arcType (destinationArcs (m a) ! j) = 0") auto
      qed
      then show ?thesis using old [OF _ j] diff e2(8) [OF d(1) w(2)] a j unfolding c by (auto simp: retag_cell_def cells_def)
    qed
  qed (use w ne i in \<open>simp_all add: js\<close>)
qed

lemma map_arcs_other: "(\<And>j t. f (a, j) t = t) \<Longrightarrow> map_arcs f m a = m a"
  by (simp add: map_arcs_def map_nth)

lemma joint_other: "a \<noteq> s \<Longrightarrow> a \<noteq> d \<Longrightarrow> joint s i d ty m a = m a"
  by (simp add: joint_def map_arcs_other lowered_def)

definition join_pieces :: "nat list set \<Rightarrow> nat \<Rightarrow> nat \<Rightarrow> nat \<Rightarrow> nat list set \<Rightarrow> bool" where
  "join_pieces P r s d P' = (if joinable P r s d
     then \<exists>t1\<in>P. \<exists>t2\<in>P. t1 \<noteq> t2 \<and> last t1 = s \<and> hd t2 = d \<and> d \<noteq> r \<and> P' = insert (t1 @ t2) (P - {t1, t2}) else P' = P)"

lemma join_by_arc_wp:
  assumes fr: "fragments ns r (node_mem g) bound P" and pr: "paired ns (node_mem g)" and c: "(s, i) \<in> cells ns (node_mem g)"
    and xs: "st_ptr ` set xs = cells ns (node_mem g)" and d: "d = destinationNode (destinationArcs (node_mem g s) ! i)"
  shows "wp (join_by_arc (Some r) ns xs (s, i) bound) (\<lambda>b h. moved ns g h \<and> (\<exists>P'. join_pieces P r s d P' \<and> fragments ns r (node_mem h) b P')) g"
    (is "wp _ ?Q g")
proof -
  let ?m = "node_mem g"
  note f = fragmentsD [OF fr] and p = piecesD [OF fragmentsD(1) [OF fr]]
  have i: "s \<in> set ns" "i < length (destinationArcs (?m s))" using c by (auto simp: cells_def)
  have arc: "sourceNode (destinationArcs (?m s) ! i) = s" "d \<in> set ns" using pairedD(1) [OF pr i(1)] i(2) d by auto
  have cj: "cells ns (joint s i d ty ?m) = cells ns ?m" for ty by (simp add: cells_def joint_def)
  have lw: "length (destinationArcs (lowered TRACE_HEAD d (lowered TRACE_TAIL s ?m) s)) = length (destinationArcs (?m s))" by simp
  let ?run = "bnd (clear_flag TRACE_TAIL s) (\<lambda>_. bnd (clear_flag TRACE_HEAD d) (\<lambda>_. bnd (node_get s) (\<lambda>sn. bnd (node_get d) (\<lambda>dn.
       if flag VISITED sn then bnd (arc_set_type (s, i) (nodeType sn)) (\<lambda>_.
         if flag VISITED dn then bnd (merge_traces ns xs (nodeType dn) (nodeType sn)) (\<lambda>_. ret bound)
         else bnd (raise_flag (VISITED OR TRACE_TAIL) d) (\<lambda>_. bnd (set_type d (nodeType sn)) (\<lambda>_. ret bound)))
       else if flag VISITED dn then bnd (arc_set_type (s, i) (nodeType dn)) (\<lambda>_.
         bnd (raise_flag (VISITED OR TRACE_HEAD) s) (\<lambda>_. bnd (set_type s (nodeType dn)) (\<lambda>_. ret bound)))
       else bnd (arc_set_type (s, i) bound) (\<lambda>_. bnd (raise_flag (VISITED OR TRACE_HEAD) s) (\<lambda>_. bnd (set_type s bound) (\<lambda>_.
         bnd (raise_flag (VISITED OR TRACE_TAIL) d) (\<lambda>_. bnd (set_type d bound) (\<lambda>_. ret (bound + 1))))))))))"
  have run: "wp ?run ?Q g" if j: "joinable P r s d"
  proof -
    obtain t1 t2 where t: "t1 \<in> P" "t2 \<in> P" "t1 \<noteq> t2" "s = last t1" "d = hd t2" "d \<noteq> r" using j by (auto simp: joinable_def)
    let ?P = "insert (t1 @ t2) (P - {t1, t2})"
    have jp: "join_pieces P r s d ?P" using j t by (auto simp: join_pieces_def)
    have sin: "s \<in> set t1" "d \<in> set t2" "t2 \<in> P" using p(5,6) t by auto
    note e1 = fragment_ends [OF fr t(1) sin(1)] and e2 = fragment_ends [OF fr t(2) sin(2)]
    note st = join_steps [OF fr t(1-5) i(2)]
    have done_: "?Q b (g\<lparr>node_mem := m'\<rparr>)"
      if ju: "joined_up ns ?m t1 t2 (s, i) ty m'" and other: "\<And>a. a \<notin> set ns \<Longrightarrow> m' a = ?m a"
        and ty: "0 < ty" "ty < b" "bound \<le> b" "\<And>u. u \<in> P \<Longrightarrow> u \<noteq> t1 \<Longrightarrow> u \<noteq> t2 \<Longrightarrow> tl u \<noteq> [] \<Longrightarrow> nodeType (?m (hd u)) \<noteq> ty" for m' ty b
    proof -
      have "fragments ns r m' b ?P"
        by (rule fragments_join [OF fr t(1-3) _ _ _ ty]) (use t i d ju in auto)
      moreover have "moved ns g (g\<lparr>node_mem := m'\<rparr>)" using ju other by (intro moved_put [OF moved_refl]) (auto simp: joined_up_def)
      ultimately show ?thesis using jp by auto
    qed
    have o: "a \<noteq> s \<and> a \<noteq> d" if "a \<notin> set ns" for a using that i(1) arc(2) by auto
    have t1u: "nodeType (?m (hd u)) \<noteq> nodeType (?m s)" if "tl t1 \<noteq> []" "u \<in> P" "u \<noteq> t1" "tl u \<noteq> []" for u
      using f(8) [OF that(2) t(1) that(4,1)] that(3) e1(6) that(1) by auto
    have t2u: "nodeType (?m (hd u)) \<noteq> nodeType (?m d)" if "tl t2 \<noteq> []" "u \<in> P" "u \<noteq> t2" "tl u \<noteq> []" for u
      using f(8) [OF that(2) t(2) that(4,1)] that(3) e2(6) that(1) by auto
    have bu: "nodeType (?m (hd u)) \<noteq> bound" if "u \<in> P" "tl u \<noteq> []" for u
      using fragment_ends(8) [OF fr that(1) p(5) [OF that(1)] that(2)] by simp
    let ?sn = "nodeType (?m s)" and ?dn = "nodeType (?m d)"
    have A: "wp (bnd (merge_traces ns xs ?dn ?sn) (\<lambda>_. ret bound)) ?Q (g\<lparr>node_mem := joint s i d ?sn ?m\<rparr>)" if w: "tl t1 \<noteq> []" "tl t2 \<noteq> []"
    proof -
      have "?dn \<noteq> ?sn" using t1u [OF w(1) t(2)] t(3) w(2) e2(6) by auto
      then have X: "wp (merge_traces ns xs ?dn ?sn) (\<lambda>_ h. h = g\<lparr>node_mem := map_arcs (retag_cell (cells ns ?m) ?dn ?sn) (retag ns ?dn ?sn (joint s i d ?sn ?m))\<rparr>)
          (g\<lparr>node_mem := joint s i d ?sn ?m\<rparr>)"
        using merge_traces_wp [of ?dn ?sn xs ns "g\<lparr>node_mem := joint s i d ?sn ?m\<rparr>"] xs by (simp add: cj)
      have Y: "?Q bound (g\<lparr>node_mem := map_arcs (retag_cell (cells ns ?m) ?dn ?sn) (retag ns ?dn ?sn (joint s i d ?sn ?m))\<rparr>)"
        by (rule done_ [OF st(1) [OF w]])
           (use o e1(8) w t1u in \<open>auto simp: map_arcs_other retag_cell_def cells_def retag_def joint_other\<close>)
      show ?thesis unfolding wp_bnd wp_ret by (rule wp_mono [OF X], hypsubst, rule Y)
    qed
    have B: "?Q bound (g\<lparr>node_mem := tagged d ?sn (raised (VISITED OR TRACE_TAIL) d (joint s i d ?sn ?m))\<rparr>)" if w: "tl t1 \<noteq> []" "tl t2 = []"
      by (rule done_ [OF st(2) [OF w]]) (use o e1(8) w t1u in \<open>auto simp: tagged_def raised_other joint_other\<close>)
    have C: "?Q bound (g\<lparr>node_mem := tagged s ?dn (raised (VISITED OR TRACE_HEAD) s (joint s i d ?dn ?m))\<rparr>)" if w: "tl t1 = []" "tl t2 \<noteq> []"
      by (rule done_ [OF st(3) [OF w]]) (use o e2(8) w t2u in \<open>auto simp: tagged_def raised_other joint_other\<close>)
    have D: "?Q (bound + 1) (g\<lparr>node_mem := tagged d bound (raised (VISITED OR TRACE_TAIL) d (tagged s bound (raised (VISITED OR TRACE_HEAD) s (joint s i d bound ?m))))\<rparr>)"
      if w: "tl t1 = []" "tl t2 = []"
      by (rule done_ [OF st(4) [OF w]]) (use o f(2) w bu in \<open>auto simp: tagged_def raised_other joint_other\<close>)
    show ?thesis
      using A B C D e1(3) e2(3)
      by (simp add: wp_clear_flag wp_node_get wp_arc_set_type lw i(2) joint_def [symmetric] wp_raise_flag wp_tag)
  qed
  show ?thesis
  proof (cases "joinable P r s d")
    case True
    show ?thesis
      using run [OF True] unfolding join_by_arc_def Let_def wp_bnd [of "arc_get _"] wp_arc_get [OF i(2)] arc(1) d [symmetric]
        wp_bnd [of "may_join _ _ _"] may_join_wp [OF fr i(1) arc(2)]
      by (simp only: True not_True_eq_False if_False)
  next
    case False
    have "?Q bound g" using False fr by (auto simp: join_pieces_def moved_refl)
    then show ?thesis using False by (simp add: join_by_arc_def wp_arc_get i(2) Let_def arc(1) d [symmetric] may_join_wp [OF fr i(1) arc(2)])
  qed
qed

end
