(* ===== verification/Trace_Arcs.thy ===== *)
theory Trace_Arcs
  imports Trace_Joining
begin

text \<open>
  The result of \<open>SelectBySortArc\<close> in \<open>src/src/library/libflow/trace.c\<close>: traces as \<open>SelectTraces\<close> makes them, which no arc of the graph could
  join any more.
\<close>

section \<open>The arcs in order\<close>

lemma join_pieces_settles:
  assumes P: "pieces ns r P" and j: "join_pieces P r s d P'"
  shows "pieces ns r P'" "\<not> joinable P' r s d" "\<not> joinable P r s' d' \<Longrightarrow> \<not> joinable P' r s' d'"
proof -
  have "pieces ns r P' \<and> \<not> joinable P' r s d \<and> (\<not> joinable P r s' d' \<longrightarrow> \<not> joinable P' r s' d')"
  proof (cases "joinable P r s d")
    case False
    then show ?thesis using P j by (simp add: join_pieces_def)
  next
    case True
    then obtain t1 t2 where t: "t1 \<in> P" "t2 \<in> P" "t1 \<noteq> t2" "last t1 = s" "hd t2 = d" "d \<noteq> r" and P': "P' = insert (t1 @ t2) (P - {t1, t2})"
      using j by (auto simp: join_pieces_def)
    have pc: "pieces ns r P'" unfolding P' by (rule pieces_join [OF P t(1-3)]) (use t in simp)
    note p = piecesD [OF P] and p' = piecesD [OF pc]
    have ne: "t1 \<noteq> []" "t2 \<noteq> []" using p(1) t(1,2) by auto
    have mem: "s \<in> set (t1 @ t2)" "d \<in> set (t1 @ t2)" using p(6) [OF t(1)] p(5) [OF t(2)] t(4,5) by auto
    have J: "t1 @ t2 \<in> P'" by (simp add: P')
    have uniq: "u = t1 @ t2" if "u \<in> P'" "last u = s \<or> hd u = d" for u
      using p'(7) [OF J that(1), of s] p'(7) [OF J that(1), of d] p'(5,6) [OF that(1)] that(2) mem by auto
    have "\<not> joinable P' r s d" unfolding joinable_def using uniq by metis
    moreover have "joinable P r s' d'" if jn: "joinable P' r s' d'"
    proof -
      obtain u1 u2 where u: "u1 \<in> P'" "u2 \<in> P'" "u1 \<noteq> u2" "last u1 = s'" "hd u2 = d'" "d' \<noteq> r" using jn by (auto simp: joinable_def)
      let ?v1 = "if u1 = t1 @ t2 then t2 else u1" and ?v2 = "if u2 = t1 @ t2 then t1 else u2"
      have "?v1 \<in> P" "?v2 \<in> P" "?v1 \<noteq> ?v2" "last ?v1 = s'" "hd ?v2 = d'" using u t ne by (auto simp: P' split: if_splits)
      with u(6) show ?thesis unfolding joinable_def by blast
    qed
    ultimately show ?thesis using pc by blast
  qed
  then show "pieces ns r P'" "\<not> joinable P' r s d" "\<not> joinable P r s' d' \<Longrightarrow> \<not> joinable P' r s' d'" by auto
qed

text \<open>No arc of the cells \<open>C\<close> can join two pieces.\<close>

definition blocked :: "(nat \<Rightarrow> gnode) \<Rightarrow> nat \<Rightarrow> cell set \<Rightarrow> nat list set \<Rightarrow> bool" where
  "blocked m r C P = (\<forall>(s, i)\<in>C. \<not> joinable P r s (destinationNode (destinationArcs (m s) ! i)))"

definition joining :: "nat list \<Rightarrow> nat \<Rightarrow> trace_lib \<Rightarrow> cell set \<Rightarrow> int \<Rightarrow> trace_lib \<Rightarrow> bool" where
  "joining ns r g C b h = (moved ns g h \<and> (\<exists>P. fragments ns r (node_mem h) b P \<and> blocked (node_mem g) r C P))"

lemma moved_cells: "moved ns g h \<Longrightarrow> cells ns (node_mem h) = cells ns (node_mem g)"
proof -
  assume mv: "moved ns g h"
  have "length (destinationArcs (node_mem h a)) = length (destinationArcs (node_mem g a))" for a
    using mv outline_cells(1) [of "node_mem h a" "node_mem g a"] by (simp add: moved_def)
  then show ?thesis by (simp add: cells_def)
qed

lemma join_loop_wp:
  assumes fr: "fragments ns r (node_mem g) b P" and pr: "paired ns (node_mem g)" and xs: "st_ptr ` set xs = cells ns (node_mem g)"
  shows "wp (for_each (\<lambda>e b. join_by_arc (Some r) ns xs (st_ptr e) b) xs b) (joining ns r g (cells ns (node_mem g))) g"
proof (rule wp_for_each [where I = "\<lambda>k. joining ns r g (st_ptr ` set (take k xs))"])
  show "joining ns r g (st_ptr ` set (take 0 xs)) b g" using fr by (auto simp: joining_def moved_refl blocked_def)
  show "joining ns r g (cells ns (node_mem g)) b h" if "joining ns r g (st_ptr ` set (take (length xs) xs)) b h" for b h using that xs by simp
  fix k b h assume k: "k < length xs" and J: "joining ns r g (st_ptr ` set (take k xs)) b h"
  then obtain P where mv: "moved ns g h" and P: "fragments ns r (node_mem h) b P" "blocked (node_mem g) r (st_ptr ` set (take k xs)) P"
    by (auto simp: joining_def)
  obtain s i where c: "st_ptr (xs ! k) = (s, i)" by (cases "st_ptr (xs ! k)")
  let ?d = "destinationNode (destinationArcs (node_mem h s) ! i)"
  have "(s, i) \<in> st_ptr ` set xs" using k by (force simp: c [symmetric])
  then have ci: "(s, i) \<in> cells ns (node_mem h)" using xs moved_cells [OF mv] by simp
  have dd: "?d = destinationNode (destinationArcs (node_mem g s) ! i)"
    using ci outline_cells(2) [of "node_mem h s" "node_mem g s" i] mv by (auto simp: moved_def cells_def)
  have T: "st_ptr ` set (take (Suc k) xs) = insert (s, i) (st_ptr ` set (take k xs))" using k by (simp add: take_Suc_conv_app_nth c)
  show "wp (join_by_arc (Some r) ns xs (st_ptr (xs ! k)) b) (joining ns r g (st_ptr ` set (take (Suc k) xs))) h"
    unfolding c
  proof (rule wp_mono [OF join_by_arc_wp [OF P(1) moved_paired [OF mv pr] ci _ refl]], simp add: xs moved_cells [OF mv], elim conjE exE)
    fix b' h' P' assume mv': "moved ns h h'" and jp: "join_pieces P r s ?d P'" and P': "fragments ns r (node_mem h') b' P'"
    note st = join_pieces_settles [OF fragmentsD(1) [OF P(1)] jp]
    have "blocked (node_mem g) r (insert (s, i) (st_ptr ` set (take k xs))) P'"
      using P(2) st(2,3) dd by (auto simp: blocked_def)
    then show "joining ns r g (st_ptr ` set (take (Suc k) xs)) b' h'" unfolding T joining_def using moved_trans [OF mv mv'] P' by blast
  qed
qed

section \<open>Single nodes\<close>

definition finished :: "nat list \<Rightarrow> nat \<Rightarrow> (nat \<Rightarrow> gnode) \<Rightarrow> int \<Rightarrow> nat list set \<Rightarrow> nat set \<Rightarrow> bool" where
  "finished ns r m b P K = (pieces ns r P \<and> 0 < b \<and> (\<forall>t\<in>P. if tl t = [] \<and> hd t \<notin> K then single m t else whole m b t) \<and>
     (\<forall>t\<in>P. \<forall>u\<in>P. tl t \<noteq> [] \<or> hd t \<in> K \<longrightarrow> tl u \<noteq> [] \<or> hd u \<in> K \<longrightarrow> nodeType (m (hd t)) = nodeType (m (hd u)) \<longrightarrow> t = u) \<and>
     marked ns m (links_in P) \<and> (\<forall>a\<in>set ns. \<not> flag LOOP_HEAD (m a)))"

lemma fragments_finished: "fragments ns r m b P \<Longrightarrow> finished ns r m b P {}"
  by (auto simp: fragments_def finished_def)

lemma finished_visited:
  assumes fin: "finished ns r m b P K" and t: "t \<in> P" "a \<in> set t" and v: "flag VISITED (m a)"
  shows "tl t \<noteq> [] \<or> hd t \<in> K"
  using fin t v flag_zero [of "m a" VISITED] unfolding finished_def single_def by fastforce

definition opened :: "nat \<Rightarrow> int \<Rightarrow> (nat \<Rightarrow> gnode) \<Rightarrow> nat \<Rightarrow> gnode" where
  "opened a b m = tagged a b (raised (VISITED OR TRACE_HEAD OR TRACE_TAIL) a m)"

lemma opened_fields [simp]:
  "nodeType (opened a b m c) = (if c = a then b else nodeType (m c))" "sourceArcs (opened a b m c) = sourceArcs (m c)"
  "destinationArcs (opened a b m c) = destinationArcs (m c)" "outline (opened a b m c) = outline (m c)"
  "flag VISITED (opened a b m c) = (flag VISITED (m c) \<or> c = a)" "flag TRACE_HEAD (opened a b m c) = (flag TRACE_HEAD (m c) \<or> c = a)"
  "flag TRACE_TAIL (opened a b m c) = (flag TRACE_TAIL (m c) \<or> c = a)" "flag LOOP_HEAD (opened a b m c) = flag LOOP_HEAD (m c)"
  "c \<noteq> a \<Longrightarrow> opened a b m c = m c"
  by (simp_all add: opened_def tagged_def raised_other) (simp_all add: VISITED_def TRACE_HEAD_def TRACE_TAIL_def LOOP_HEAD_def)

lemma finished_open:
  assumes fin: "finished ns r m b P K" and a: "a \<in> set ns" "\<not> flag VISITED (m a)" "a \<notin> K"
  shows "finished ns r (opened a b m) (b + 1) P (insert a K)"
proof -
  let ?m = "opened a b m"
  have P: "pieces ns r P" "0 < b" "marked ns m (links_in P)" using fin by (auto simp: finished_def)
  note p = piecesD [OF P(1)]
  obtain t0 where t0: "t0 \<in> P" "a \<in> set t0" using piece_of [OF P(1) a(1)] by blast
  have "\<not> whole m b t0" using a(2) t0(2) by (auto simp: whole_def)
  then have one: "tl t0 = []" "hd t0 \<notin> K" using fin t0(1) by (auto simp: finished_def split: if_splits)
  then have t0a: "t0 = [a]" using t0 p(1) [OF t0(1)] by (cases t0) auto
  have other: "a \<notin> set t" if "t \<in> P" "t \<noteq> t0" for t using p(7) [OF t0(1) that(1) t0(2)] that(2) by auto
  have hdo: "hd t \<noteq> a" if "t \<in> P" "t \<noteq> t0" for t using other [OF that] p(5) [OF that(1)] by auto
  have nl: "(a, y) \<notin> links_in P" "(y, a) \<notin> links_in P" for y
  proof -
    have no: "(x, y) \<notin> links t0" for x y by (simp add: t0a)
    show "(a, y) \<notin> links_in P" using links_in_piece [OF P(1) _ t0] no by blast
    show "(y, a) \<notin> links_in P"
    proof
      assume "(y, a) \<in> links_in P"
      then obtain u where u: "u \<in> P" "(y, a) \<in> links u" by (auto simp: links_in_def)
      then have "a \<in> set u" using links_set [OF u(2)] by (cases u) auto
      then have "u = t0" using p(7) [OF u(1) t0(1)] t0(2) by auto
      then show False using u(2) no by simp
    qed
  qed
  have mk: "marked ns ?m (links_in P)" by (rule marked_type [OF P(3) nl]) auto
  have new: "whole ?m (b + 1) t0" using P(2) by (auto simp: whole_def ended_def t0a)
  have old: "if tl t = [] \<and> hd t \<notin> insert a K then single ?m t else whole ?m (b + 1) t" if t: "t \<in> P" for t
  proof (cases "t = t0")
    case True
    then show ?thesis using new by (simp add: t0a)
  next
    case False
    have c: "?m x = m x" if "x \<in> set t" for x using other [OF t False] that by (intro opened_fields(9)) auto
    have "if tl t = [] \<and> hd t \<notin> K then single m t else whole m b t" using fin t by (simp add: finished_def)
    moreover have "whole m b t \<Longrightarrow> whole ?m (b + 1) t" using c by (fastforce simp: whole_def ended_def)
    moreover have "single m t \<Longrightarrow> single ?m t" using c by (simp add: single_def)
    ultimately show ?thesis using hdo [OF t False] by auto
  qed
  have below: "nodeType (m (hd t)) < b" if "t \<in> P" "tl t \<noteq> [] \<or> hd t \<in> K" for t
    using fin that p(5) [OF that(1)] by (fastforce simp: finished_def whole_def split: if_splits)
  have uniq: "t = u" if tu: "t \<in> P" "u \<in> P" "tl t \<noteq> [] \<or> hd t \<in> insert a K" "tl u \<noteq> [] \<or> hd u \<in> insert a K" "nodeType (?m (hd t)) = nodeType (?m (hd u))" for t u
  proof -
    have t': "t \<noteq> t0 \<Longrightarrow> tl t \<noteq> [] \<or> hd t \<in> K" "u \<noteq> t0 \<Longrightarrow> tl u \<noteq> [] \<or> hd u \<in> K" using tu hdo by auto
    show ?thesis
    proof (cases "t = t0 \<or> u = t0")
      case True
      then show ?thesis using tu(1,2,5) t' below hdo by (cases "t = t0"; cases "u = t0") (auto simp: t0a)
    next
      case False
      then have "nodeType (m (hd t)) = nodeType (m (hd u))" using tu(1,2,5) hdo by simp
      then show ?thesis using fin tu(1,2) t' False unfolding finished_def by blast
    qed
  qed
  show ?thesis
    unfolding finished_def using P(1,2) old uniq mk fin by (auto simp: finished_def)
qed

lemma single_traces_wp:
  assumes fin: "finished ns r (node_mem g) b P {}" and ns: "distinct ns"
  shows "wp (single_traces ns b) (\<lambda>b h. moved ns g h \<and> finished ns r (node_mem h) b P (set ns)) g"
  unfolding single_traces_def
proof (rule wp_for_each [where I = "\<lambda>k b h. moved ns g h \<and> finished ns r (node_mem h) b P (set (take k ns))"])
  fix k b h assume k: "k < length ns" and I: "moved ns g h \<and> finished ns r (node_mem h) b P (set (take k ns))"
  let ?a = "ns ! k" and ?K = "set (take k ns)"
  have K: "set (take (Suc k) ns) = insert ?a ?K" using k by (simp add: take_Suc_conv_app_nth)
  have a: "?a \<in> set ns" "?a \<notin> ?K" using k distinct_take [OF ns, of "Suc k"] by (auto simp: take_Suc_conv_app_nth)
  have skip: "finished ns r (node_mem h) b P (insert ?a ?K)" if v: "flag VISITED (node_mem h ?a)"
  proof -
    have fin: "finished ns r (node_mem h) b P ?K" using I by simp
    then have pc: "pieces ns r P" by (simp add: finished_def)
    have "tl t \<noteq> [] \<or> hd t \<in> ?K" if "t \<in> P" "hd t = ?a" for t
      using finished_visited [OF fin that(1) _ v] piecesD(5) [OF pc that(1)] that(2) by simp
    then have eq: "(tl t \<noteq> [] \<or> hd t \<in> insert ?a ?K) = (tl t \<noteq> [] \<or> hd t \<in> ?K)" if "t \<in> P" for t using that by auto
    then have "if tl t = [] \<and> hd t \<notin> insert ?a ?K then single (node_mem h) t else whole (node_mem h) b t" if "t \<in> P" for t
      using fin eq [OF that] that unfolding finished_def by (auto split: if_splits)
    then show ?thesis using fin eq unfolding finished_def by (simp only: cong: ball_cong) simp
  qed
  have mv: "moved ns g (h\<lparr>node_mem := opened ?a b (node_mem h)\<rparr>)"
    by (rule moved_put [of ns g h]) (use I a(1) in \<open>auto intro!: opened_fields(9)\<close>)
  show "wp (bnd (node_get ?a) (\<lambda>n. if flag VISITED n then ret b
       else bnd (raise_flag (VISITED OR TRACE_HEAD OR TRACE_TAIL) ?a) (\<lambda>_. bnd (set_type ?a b) (\<lambda>_. ret (b + 1)))))
     (\<lambda>b h. moved ns g h \<and> finished ns r (node_mem h) b P (set (take (Suc k) ns))) h"
    unfolding K using I skip finished_open [of ns r "node_mem h" b P ?K ?a] a mv
    by (simp add: wp_node_get wp_raise_flag wp_tag opened_def [symmetric])
qed (use fin in \<open>auto simp: moved_refl\<close>)

lemma finished_traces:
  assumes fin: "finished ns r m b P (set ns)"
  obtains ts where "set ts = P" "traces ns r m ts"
proof -
  have P: "pieces ns r P" "marked ns m (links_in P)" using fin by (auto simp: finished_def)
  note p = piecesD [OF P(1)]
  have w: "whole m b t" if "t \<in> P" for t using fin that p(4) [OF that] p(5) [OF that] by (auto simp: finished_def split: if_splits)
  have "hd ` P \<subseteq> set ns" using p(4,5) by auto
  moreover have "inj_on hd P" by (rule inj_onI) (metis p(5) p(7))
  ultimately have "finite P" using finite_imageD finite_subset by blast
  then obtain ts where ts: "set ts = P" "distinct ts" using finite_distinct_list by blast
  have "distinct (concat ts)"
    by (rule distinct_concat [OF ts(2)]) (use p(2) P(1) in \<open>auto simp: ts(1) pieces_def\<close>)
  moreover have "set (concat ts) = set ns" using P(1) by (auto simp: ts(1) pieces_def)
  moreover have "typed m ts"
    unfolding typed_def
  proof (intro ballI conjI)
    fix t a assume t: "t \<in> set ts" "a \<in> set t"
    then have eq: "nodeType (m a) = nodeType (m (hd t))" "0 < nodeType (m a)" using w [of t] p(5) [of t] by (auto simp: ts(1) whole_def)
    then show "0 < nodeType (m a)" by simp
    fix u c assume u: "u \<in> set ts" "c \<in> set u"
    then have "nodeType (m c) = nodeType (m (hd u))" using w [of u] p(5) [of u] by (auto simp: ts(1) whole_def)
    moreover have "hd t \<in> set ns" "hd u \<in> set ns" using p(4) [of t] p(5) [of t] p(4) [of u] p(5) [of u] t u ts(1) by auto
    ultimately show "nodeType (m a) = nodeType (m c) \<longleftrightarrow> t = u" using fin t(1) u(1) eq(1) ts(1) by (auto simp: finished_def)
  qed
  moreover have "all_links ts = links_in P" by (simp add: all_links_def links_in_def ts(1))
  ultimately have "traces ns r m ts"
    using P(2) w p(1) p(3) by (fastforce simp: traces_def entered_def ts(1) whole_def)
  with ts(1) that show thesis by blast
qed

section \<open>Listing\<close>

lemma list_and_clear_wp:
  assumes "length ns < MAX_GRAPH_SIZE"
  shows "wp (list_and_clear ns) (\<lambda>xs h. xs = ns \<and> h = g\<lparr>node_mem := cleared ns (node_mem g)\<rparr>) g"
  unfolding list_and_clear_def
proof (rule wp_for_each [where I = "\<lambda>k xs h. xs = take k ns \<and> h = g\<lparr>node_mem := cleared (take k ns) (node_mem g)\<rparr>"])
  fix k xs h assume k: "k < length ns" and I: "xs = take k ns \<and> h = g\<lparr>node_mem := cleared (take k ns) (node_mem g)\<rparr>"
  let ?a = "ns ! k" and ?m = "cleared (take k ns) (node_mem g)"
  have "?m(?a := cleared [?a] ?m ?a) = cleared (take (Suc k) ns) (node_mem g)"
    using k by (auto simp: cleared_def take_Suc_conv_app_nth fun_eq_iff)
  then show "wp (let node_list = xs @ [?a] in if length node_list \<ge> MAX_GRAPH_SIZE then fail (Punt ''SelectBySortArc: graph is too large'')
      else bnd (clear_node ?a) (\<lambda>_. ret node_list)) (\<lambda>xs h. xs = take (Suc k) ns \<and> h = g\<lparr>node_mem := cleared (take (Suc k) ns) (node_mem g)\<rparr>) h"
    using assms I k by (simp add: wp_clear_node take_Suc_conv_app_nth del: fun_upd_apply)
qed simp_all

text \<open>The cells of the arcs in the order in which the code lists them.\<close>

definition cell_list :: "nat list \<Rightarrow> (nat \<Rightarrow> gnode) \<Rightarrow> cell list" where
  "cell_list ns m = concat (map (\<lambda>a. map (Pair a) [0..<length (destinationArcs (m a))]) ns)"

lemma set_cell_list: "set (cell_list ns m) = cells ns m"
  by (auto simp: cell_list_def cells_def)

lemma cell_list_take: "k < length ns \<Longrightarrow> cell_list (take (Suc k) ns) m = cell_list (take k ns) m @ map (Pair (ns ! k)) [0..<length (destinationArcs (m (ns ! k)))]"
  by (simp add: cell_list_def take_Suc_conv_app_nth)

lemma cell_list_drop: "cell_list ns m = cell_list (take k ns) m @ cell_list (drop k ns) m"
  unfolding cell_list_def by (simp flip: concat_append map_append)

lemma list_arcs_wp:
  assumes len: "length (cell_list ns (node_mem g)) < MAX_SIZE"
  shows "wp (list_arcs ns) (\<lambda>xs h. h = g \<and> map st_ptr xs = cell_list ns (node_mem g)) g"
  unfolding list_arcs_def
proof (rule wp_for_each [where I = "\<lambda>k xs h. h = g \<and> map st_ptr xs = cell_list (take k ns) (node_mem g)"])
  show "g = g \<and> map st_ptr [] = cell_list (take 0 ns) (node_mem g)" by (simp add: cell_list_def)
  fix k and xs :: "(cell, rat) ST_Entry list" and h assume k: "k < length ns" and I: "h = g \<and> map st_ptr xs = cell_list (take k ns) (node_mem g)"
  let ?a = "ns ! k" and ?m = "node_mem g"
  let ?es = "destinationArcs (?m ?a)"
  have "length (cell_list (take k ns) ?m) + length ?es \<le> length (cell_list ns ?m)"
    using cell_list_drop [of ns ?m "Suc k"] by (simp add: cell_list_take [OF k])
  then have b: "length (cell_list (take k ns) ?m) + length ?es < MAX_SIZE" using len by simp
  have "wp (for_each (\<lambda>i xs. let xs = xs @ [\<lparr>st_ptr = (?a, i), st_index = 0, st_weight = arcWeight (?es ! i)\<rparr>] in
         if length xs \<ge> MAX_SIZE then fail (Punt ''SelectBySortArc: graph is too large'') else ret xs) [0..<length ?es] xs)
      (\<lambda>xs h. h = g \<and> map st_ptr xs = cell_list (take (Suc k) ns) ?m) g"
  proof (rule wp_for_each [where I = "\<lambda>j xs h. h = g \<and> map st_ptr xs = cell_list (take k ns) ?m @ map (Pair ?a) [0..<j]"])
    fix j and xs :: "(cell, rat) ST_Entry list" and h assume j: "j < length [0..<length ?es]" and I: "h = g \<and> map st_ptr xs = cell_list (take k ns) ?m @ map (Pair ?a) [0..<j]"
    have "length xs = length (cell_list (take k ns) ?m) + j" using arg_cong [OF conjunct2 [OF I], of length] by simp
    then have "Suc (length xs) < MAX_SIZE" using b j by simp
    then show "wp (let xs = xs @ [\<lparr>st_ptr = (?a, [0..<length ?es] ! j), st_index = 0, st_weight = arcWeight (?es ! ([0..<length ?es] ! j))\<rparr>] in
         if length xs \<ge> MAX_SIZE then fail (Punt ''SelectBySortArc: graph is too large'') else ret xs)
      (\<lambda>xs h. h = g \<and> map st_ptr xs = cell_list (take k ns) ?m @ map (Pair ?a) [0..<Suc j]) h"
      using I j by (simp add: Let_def)
  qed (use I k in \<open>simp_all add: cell_list_take\<close>)
  then show "wp (bnd (node_get ?a) (\<lambda>n. for_each (\<lambda>i xs. let xs = xs @ [\<lparr>st_ptr = (?a, i), st_index = 0, st_weight = arcWeight (destinationArcs n ! i)\<rparr>] in
         if length xs \<ge> MAX_SIZE then fail (Punt ''SelectBySortArc: graph is too large'') else ret xs) [0..<length (destinationArcs n)] xs))
      (\<lambda>xs h. h = g \<and> map st_ptr xs = cell_list (take (Suc k) ns) ?m) h"
    using I by (simp add: wp_node_get)
qed simp

lemma sort_arcs_wp:
  fixes arcs :: "(cell, rat) ST_Entry list"
  assumes "length arcs < MAX_SIZE"
  shows "wp (on_local (max_sort (int (length arcs))) arcs) (\<lambda>xs h. h = g \<and> st_ptr ` set xs = st_ptr ` set arcs) g"
proof -
  obtain b ys where ys: "max_sort (int (length arcs)) arcs = Inr (b, ys)" "mset ys = mset arcs"
    using descending.select_sort_wp [of "int (length arcs)" arcs] assms by (auto simp: wp_run max_sort_def MAX_SIZE_def MAX_GRAPH_SIZE_def)
  then show ?thesis using mset_eq_setD [OF ys(2)] by (simp add: wp_def on_local_def)
qed

section \<open>The whole selection\<close>

lemma fragments_start:
  assumes "distinct ns"
  shows "fragments ns r (cleared ns m) 1 ((\<lambda>a. [a]) ` set ns)"
proof -
  have "links_in ((\<lambda>a. [a]) ` set ns) = {}" by (simp add: links_in_def)
  moreover have "marked ns (cleared ns m) {}" by (auto simp: marked_def cleared_def)
  ultimately show ?thesis
    by (auto simp: fragments_def pieces_def single_def cleared_def NOT_VISITED_def flag_def)
qed

text \<open>No arc leads from the tail of a trace to the head of another, unless that is the root.\<close>

definition maximal :: "nat \<Rightarrow> (nat \<Rightarrow> gnode) \<Rightarrow> nat list list \<Rightarrow> bool" where
  "maximal r m ts = (\<forall>t\<in>set ts. \<forall>u\<in>set ts. hd u \<in> succs m (last t) \<longrightarrow> t = u \<or> hd u = r)"

lemma blocked_maximal:
  assumes "blocked m r (cells ns m) (set ts)" "traces ns r m' ts"
  shows "maximal r m ts"
  unfolding maximal_def
proof (intro ballI impI)
  fix t u assume t: "t \<in> set ts" "u \<in> set ts" "hd u \<in> succs m (last t)"
  then have "last t \<in> set t" "set t \<subseteq> set ns" using assms(2) by (auto simp: traces_def intro!: last_in_set)
  moreover obtain j where "j < length (destinationArcs (m (last t)))" "destinationNode (destinationArcs (m (last t)) ! j) = hd u"
    using t(3) by (auto simp: succs_def in_set_conv_nth)
  ultimately have "\<not> joinable (set ts) r (last t) (hd u)" using assms(1) by (force simp: blocked_def cells_def)
  then show "t = u \<or> hd u = r" using t(1,2) by (auto simp: joinable_def)
qed

lemma blocked_cells:
  assumes "\<And>a. outline (m' a) = outline (m a)" "blocked m r (cells ns m) P"
  shows "blocked m' r (cells ns m') P"
proof -
  have "length (destinationArcs (m' a)) = length (destinationArcs (m a))" for a by (rule outline_cells(1) [OF assms(1)])
  then have "cells ns m' = cells ns m" by (simp add: cells_def)
  moreover have "destinationNode (destinationArcs (m' a) ! i) = destinationNode (destinationArcs (m a) ! i)" if "(a, i) \<in> cells ns m'" for a i
    using that by (intro outline_cells(2) [OF assms(1)]) (simp add: cells_def)
  ultimately show ?thesis using assms(2) unfolding blocked_def by (metis (mono_tags, lifting) case_prodD case_prodI2)
qed

theorem SelectBySortArc_wp:
  assumes gr: "gnodes gr = ns" "root gr = Some r" and ns: "distinct ns" "length ns < MAX_GRAPH_SIZE" "length (cell_list ns (node_mem g)) < MAX_SIZE"
    and pr: "paired ns (node_mem g)"
  shows "wp (SelectBySortArc gr) (\<lambda>_ h. moved ns (g\<lparr>node_mem := cleared ns (node_mem g)\<rparr>) h \<and> (\<exists>ts. traces ns r (node_mem h) ts \<and> looped ns (node_mem h) ts \<and> maximal r (node_mem h) ts)) g"
    (is "wp _ ?Q g")
  unfolding SelectBySortArc_def gr
proof (rule wp_seq [OF list_and_clear_wp [OF ns(2)]], elim conjE, hypsubst)
  let ?g1 = "g\<lparr>node_mem := cleared ns (node_mem g)\<rparr>"
  have pr1: "paired ns (node_mem ?g1)" using pr by (simp add: paired_cleared)
  have "length (cell_list ns (node_mem ?g1)) = length (cell_list ns (node_mem g))" by (simp add: cell_list_def cleared_def comp_def length_concat cong: map_cong)
  then have len: "length (cell_list ns (node_mem ?g1)) < MAX_SIZE" using ns(3) by simp
  show "wp (bnd (list_arcs ns) (\<lambda>arcs. bnd (on_local (max_sort (int (length arcs))) arcs) (\<lambda>sorted_list.
     bnd (for_each (\<lambda>e next_trace_id. join_by_arc (Some r) ns sorted_list (st_ptr e) next_trace_id) sorted_list 1) (\<lambda>next_trace_id.
     bnd (single_traces ns next_trace_id) (\<lambda>_. detect_loops ns))))) ?Q ?g1"
  proof (rule wp_seq [OF list_arcs_wp [OF len]], elim conjE, hypsubst)
    fix arcs :: "(cell, rat) ST_Entry list"
    assume arcs: "map st_ptr arcs = cell_list ns (node_mem ?g1)"
    then have "length arcs < MAX_SIZE" using len by (metis length_map)
    then show "wp (bnd (on_local (max_sort (int (length arcs))) arcs) (\<lambda>sorted_list.
       bnd (for_each (\<lambda>e next_trace_id. join_by_arc (Some r) ns sorted_list (st_ptr e) next_trace_id) sorted_list 1) (\<lambda>next_trace_id.
       bnd (single_traces ns next_trace_id) (\<lambda>_. detect_loops ns)))) ?Q ?g1"
    proof (rule wp_seq [OF sort_arcs_wp], elim conjE, hypsubst)
      fix xs :: "(cell, rat) ST_Entry list"
      assume "st_ptr ` set xs = st_ptr ` set arcs"
      with arcs have xs: "st_ptr ` set xs = cells ns (node_mem ?g1)" by (metis list.set_map set_cell_list)
      show "wp (bnd (for_each (\<lambda>e b. join_by_arc (Some r) ns xs (st_ptr e) b) xs 1) (\<lambda>b. bnd (single_traces ns b) (\<lambda>_. detect_loops ns))) ?Q ?g1"
      proof (rule wp_seq [OF join_loop_wp [OF _ pr1 xs]])
        show "fragments ns r (node_mem ?g1) 1 ((\<lambda>a. [a]) ` set ns)" using fragments_start [OF ns(1)] by simp
      next
        fix b k assume "joining ns r ?g1 (cells ns (node_mem ?g1)) b k"
        then obtain P where P: "moved ns ?g1 k" "fragments ns r (node_mem k) b P" "blocked (node_mem ?g1) r (cells ns (node_mem ?g1)) P"
          by (auto simp: joining_def)
        show "wp (bnd (single_traces ns b) (\<lambda>_. detect_loops ns)) ?Q k"
        proof (rule wp_seq [OF single_traces_wp [OF fragments_finished [OF P(2)] ns(1)]], elim conjE)
          fix b' k' assume k': "moved ns k k'" "finished ns r (node_mem k') b' P (set ns)"
          obtain ts where ts: "set ts = P" "traces ns r (node_mem k') ts" using finished_traces [OF k'(2)] by blast
          have mv: "moved ns ?g1 k'" by (rule moved_trans [OF P(1) k'(1)])
          have pr': "paired ns (node_mem k')" by (rule moved_paired [OF mv pr1])
          have quiet: "\<forall>a\<in>set ns. \<not> flag LOOP_HEAD (node_mem k' a)" using k'(2) by (simp add: finished_def)
          note lt = loop_marks_traces [OF ts(2) pr' quiet]
          let ?h = "k'\<lparr>node_mem := loop_marks ns (node_mem k')\<rparr>"
          have mh: "moved ns ?g1 ?h" by (rule moved_trans [OF mv moved_loop_marks [OF pr']])
          have "blocked (node_mem ?h) r (cells ns (node_mem ?h)) (set ts)"
            by (rule blocked_cells [OF _ P(3) [folded ts(1)]]) (use mh in \<open>simp add: moved_def\<close>)
          then have "maximal r (node_mem ?h) ts" by (rule blocked_maximal) (use lt in simp)
          then have "?Q () ?h" using lt mh by auto
          then show "wp (detect_loops ns) ?Q k'" by (intro wp_mono [OF detect_loops_wp], hypsubst)
        qed
      qed
    qed
  qed
qed

end
