(* ===== verification/Trace_Placement.thy ===== *)
theory Trace_Placement
  imports Trace_Selection
begin

text \<open>
  Placing the traces, and the report: the last part of the model of \<open>src/src/library/libflow/trace.c\<close>. The chain of the
  nodes of a graph is a list of the graph, so the rearranged graph is a result of the call.
\<close>

section \<open>The graph of the traces\<close>

definition add_trace_nodes :: "FGraph \<Rightarrow> (trace_lib, FGraph) prog" where
  "add_trace_nodes graph =
     bnd NewGraph (\<lambda>new_graph.
     for_each (\<lambda>node ng.
       bnd (node_get node) (\<lambda>n.
       bnd (FindNode ng (nodeType n)) (\<lambda>temp.
       bnd (case temp of Some t \<Rightarrow> ret (t, ng)
            | None \<Rightarrow>
                bnd NewNode (\<lambda>t.
                bnd (node_put t (\<lambda>nd. nd\<lparr>nodeId := nodeType n\<rparr>)) (\<lambda>_.
                ret (t, AddNode ng t)))) (\<lambda>r.
       ret (if Some node = root graph then (snd r)\<lparr>root := Some (fst r)\<rparr> else snd r)))))
       (gnodes graph) new_graph)"

text \<open>\<open>ar = FindSrcArc (s, d, 0); arcWeight (ar) = w;\<close> and the same for the destination arc.\<close>

fun reweigh_first :: "nat \<Rightarrow> nat \<Rightarrow> rat \<Rightarrow> arc list \<Rightarrow> arc list" where
  "reweigh_first s d w [] = []"
| "reweigh_first s d w (e # es) =
     (if arcType e = 0 \<and> sourceNode e = s \<and> destinationNode e = d then e\<lparr>arcWeight := w\<rparr> # es else e # reweigh_first s d w es)"

definition weigh_arc :: "nat \<Rightarrow> nat \<Rightarrow> rat \<Rightarrow> (trace_lib, unit) prog" where
  "weigh_arc s d w =
     bnd (FindSrcArc s d 0) (\<lambda>ar.
     bnd (if ar = None then fail Null_Deref else node_put d (\<lambda>n. n\<lparr>sourceArcs := reweigh_first s d w (sourceArcs n)\<rparr>)) (\<lambda>_.
     bnd (FindDestArc s d 0) (\<lambda>ar.
     if ar = None then fail Null_Deref else node_put s (\<lambda>n. n\<lparr>destinationArcs := reweigh_first s d w (destinationArcs n)\<rparr>))))"

definition need :: "nat option \<Rightarrow> ('s, nat) prog" where
  "need p = (case p of None \<Rightarrow> fail Null_Deref | Some a \<Rightarrow> ret a)"

definition connect_traces :: "FGraph \<Rightarrow> FGraph \<Rightarrow> (trace_lib, unit) prog" where
  "connect_traces graph ng =
     for_each (\<lambda>node _.
       bnd (node_get node) (\<lambda>n.
       if \<not> flag TRACE_TAIL n then ret ()
       else
         for_each (\<lambda>arc _.
           bnd (node_get (destinationNode arc)) (\<lambda>d.
           if nodeType d \<noteq> nodeType n \<and> flag TRACE_HEAD d then
             bnd (FindNode ng (nodeType n)) (\<lambda>src_node.
             bnd (FindNode ng (nodeType d)) (\<lambda>dest_node.
             bnd (ConnectNodes src_node dest_node 0) (\<lambda>_.
             bnd (need src_node) (\<lambda>s.
             bnd (need dest_node) (\<lambda>t.
             weigh_arc s t (arcWeight arc))))))
           else ret ())) (destinationArcs n) ())) (gnodes graph) ()"

definition weigh_nodes :: "nat list \<Rightarrow> (trace_lib, unit) prog" where
  "weigh_nodes ns =
     for_each (\<lambda>node _.
       bnd (node_get node) (\<lambda>n.
       let best = fold (\<lambda>arc best. if arcWeight arc > best then arcWeight arc else best) (sourceArcs n @ destinationArcs n) 1 in
       node_put node (\<lambda>n. n\<lparr>nodeWeight := best\<rparr>))) ns ()"

definition trace_graph :: "FGraph \<Rightarrow> (trace_lib, FGraph) prog" where
  "trace_graph graph =
     bnd (add_trace_nodes graph) (\<lambda>ng.
     bnd (connect_traces graph ng) (\<lambda>_.
     bnd (weigh_nodes (gnodes ng)) (\<lambda>_.
     ret ng)))"

section \<open>The order of the nodes\<close>

text \<open>The array \<open>node_order\<close> has \<open>MAX_GRAPH_SIZE\<close> entries.\<close>

definition push_node :: "nat list \<Rightarrow> nat \<Rightarrow> ('s, nat list) prog" where
  "push_node node_order a = (if length node_order \<ge> MAX_GRAPH_SIZE then fail Out_Of_Bounds else ret (node_order @ [a]))"

definition in_trace_arc :: "gnode \<Rightarrow> arc option" where
  "in_trace_arc n = find (\<lambda>e. arcType e = nodeType n) (destinationArcs n)"

definition lay_out_trace :: "nat \<Rightarrow> nat list \<Rightarrow> (trace_lib, nat list) prog" where
  "lay_out_trace head node_order =
     bnd (while_prog (\<lambda>r. fst r \<noteq> None) (\<lambda>r.
            bnd (need (fst r)) (\<lambda>ptr.
            bnd (push_node (snd r) ptr) (\<lambda>node_order.
            bnd (node_get ptr) (\<lambda>n.
            if flag TRACE_TAIL n then ret (None, node_order)
            else case in_trace_arc n of None \<Rightarrow> ret (None, node_order) | Some next \<Rightarrow> ret (Some (destinationNode next), node_order)))))
          (Some head, node_order)) (\<lambda>r.
     ret (snd r))"

definition find_head :: "nat list \<Rightarrow> int \<Rightarrow> (trace_lib, nat option) prog" where
  "find_head ns trace_id =
     bnd (find_each (\<lambda>ptr _. bnd (node_get ptr) (\<lambda>n.
            if nodeType n = trace_id \<and> flag TRACE_HEAD n then ret (True, Some ptr) else ret (False, None))) ns None) (\<lambda>r.
     ret (snd r))"

definition next_trace :: "nat list \<Rightarrow> nat \<Rightarrow> (trace_lib, nat option) prog" where
  "next_trace ns current =
     bnd (node_get current) (\<lambda>n.
     case in_trace_arc n of Some ar \<Rightarrow> ret (Some (destinationNode ar))
     | None \<Rightarrow>
         for_each (\<lambda>nn best.
           bnd (node_get nn) (\<lambda>n.
           if flag VISITED n then ret best
           else if \<not> flag TRACE_HEAD n then ret best
           else case best of None \<Rightarrow> ret (Some nn)
             | Some b \<Rightarrow> bnd (node_get b) (\<lambda>nb. ret (if nodeWeight n > nodeWeight nb then Some nn else best)))) ns None)"

definition lay_out_traces :: "FGraph \<Rightarrow> FGraph \<Rightarrow> (trace_lib, nat list) prog" where
  "lay_out_traces graph ng =
     bnd (while_prog (\<lambda>r. fst r \<noteq> None) (\<lambda>r.
            bnd (need (fst r)) (\<lambda>current.
            bnd (node_get current) (\<lambda>n.
            if flag VISITED n then fail (Punt ''PlaceTraces: reached a VISITed node'')
            else
              bnd (raise_flag VISITED current) (\<lambda>_.
              bnd (find_head (gnodes graph) (nodeId n)) (\<lambda>ptr.
              case ptr of None \<Rightarrow> fail (Punt ''PlaceTraces: internal error (1)'')
              | Some head \<Rightarrow>
                  bnd (lay_out_trace head (snd r)) (\<lambda>node_order.
                  bnd (next_trace (gnodes ng) current) (\<lambda>current.
                  ret (current, node_order))))))))
          (root ng, [])) (\<lambda>r.
     ret (snd r))"

text \<open>The end of the new chain is written behind its last node, into \<open>node_order\<close>.\<close>

definition PlaceTraces :: "FGraph \<Rightarrow> (trace_lib, FGraph) prog" where
  "PlaceTraces graph =
     (if gnodes graph = [] then ret graph
      else
        bnd (trace_graph graph) (\<lambda>ng.
        bnd (modify (\<lambda>g. g\<lparr>best_successor_of := By_Arc_Weight, best_predecessor_of := By_Arc_Weight\<rparr>)) (\<lambda>_.
        bnd (SelectTraces ng) (\<lambda>_.
        bnd (for_each (\<lambda>a _. clear_flag VISITED a) (gnodes ng) ()) (\<lambda>_.
        bnd (lay_out_traces graph ng) (\<lambda>node_order.
        bnd (for_each (\<lambda>a _. bnd (node_get a) (\<lambda>n.
               if \<not> flag VISITED n then fail (Punt ''PlaceTraces: missing some traces'') else ret ())) (gnodes ng) ()) (\<lambda>_.
        bnd (FreeGraph (Some ng)) (\<lambda>_.
        if length node_order \<ge> MAX_GRAPH_SIZE then fail Out_Of_Bounds
        else ret (graph\<lparr>gnodes := node_order\<rparr>)))))))))"

section \<open>The entry of the library\<close>

definition SELECT_BY_NODE_WEIGHT :: int where "SELECT_BY_NODE_WEIGHT = 0"
definition SELECT_BY_ARC_WEIGHT :: int where "SELECT_BY_ARC_WEIGHT = 1"
definition SELECT_BY_MIN_PROB :: int where "SELECT_BY_MIN_PROB = 2"
definition SELECT_BY_MAX_ARC :: int where "SELECT_BY_MAX_ARC = 3"

definition select_with :: "selector \<Rightarrow> rat \<Rightarrow> FGraph \<Rightarrow> (trace_lib, FGraph) prog" where
  "select_with sel prob graph =
     bnd (modify (\<lambda>g. g\<lparr>best_successor_of := sel, best_predecessor_of := sel, min_prob_requirement := prob\<rparr>)) (\<lambda>_.
     bnd (SelectTraces graph) (\<lambda>_.
     PlaceTraces graph))"

definition TraceSelection :: "FGraph option \<Rightarrow> int \<Rightarrow> rat \<Rightarrow> (trace_lib, FGraph) prog" where
  "TraceSelection graph meth min_prob =
     (case graph of None \<Rightarrow> fail (Punt ''TraceSelection: nil graph'')
      | Some gr \<Rightarrow>
          if min_prob < 0 \<or> min_prob > 1 then fail (Punt ''TraceSelection: min_prob must be within [0..1]'')
          else if meth = SELECT_BY_NODE_WEIGHT then select_with By_Node_Weight 0 gr
          else if meth = SELECT_BY_ARC_WEIGHT then select_with By_Arc_Weight 0 gr
          else if meth = SELECT_BY_MIN_PROB then select_with By_Min_Prob min_prob gr
          else if meth = SELECT_BY_MAX_ARC then bnd (SelectBySortArc gr) (\<lambda>_. PlaceTraces gr)
          else fail (Punt ''TraceSelection: illegal selection method''))"

section \<open>The report\<close>

text \<open>The entries of the array \<open>matrix\<close>, which the model keeps as a record of the same order.\<close>

record matrix =
  W_A :: rat
  W_B :: rat
  W_C :: rat
  W_D :: rat
  W_E :: rat
  W_BACK_EDGE :: rat
  W_SEQUENTIAL :: rat
  N_NODES :: rat
  W_NODES :: rat
  N_ARCS :: rat
  W_ARCS :: rat
  N_TRACE :: rat
  L_TRACE :: rat
  N_LOOP :: rat
  L_LOOP :: rat
  N_ROOT :: rat
  N_LEAF :: rat

definition zero_matrix :: matrix where
  "zero_matrix = \<lparr>W_A = 0, W_B = 0, W_C = 0, W_D = 0, W_E = 0, W_BACK_EDGE = 0, W_SEQUENTIAL = 0, N_NODES = 0, W_NODES = 0,
     N_ARCS = 0, W_ARCS = 0, N_TRACE = 0, L_TRACE = 0, N_LOOP = 0, L_LOOP = 0, N_ROOT = 0, N_LEAF = 0\<rparr>"

text \<open>
  The entries are sums of doubles. How a sum or a quotient is rounded is the machine's: \<open>fl\<close> rounds the exact result, and every
  \<open>matrix[X] += w\<close> is \<open>fl (X mx + w)\<close>.
\<close>

fun sequential_weight :: "(rat \<Rightarrow> rat) \<Rightarrow> nat list \<Rightarrow> matrix \<Rightarrow> (trace_lib, matrix) prog" where
  "sequential_weight fl (a # b # ns) mx =
     bnd (node_get a) (\<lambda>n.
     bnd (for_each (\<lambda>e mx. ret (if destinationNode e = b then mx\<lparr>W_SEQUENTIAL := fl (W_SEQUENTIAL mx + arcWeight e)\<rparr> else mx)) (destinationArcs n) mx) (\<lambda>mx.
     sequential_weight fl (b # ns) mx))"
| "sequential_weight fl _ mx = ret mx"

definition measure_arc :: "(rat \<Rightarrow> rat) \<Rightarrow> gnode \<Rightarrow> arc \<Rightarrow> matrix \<Rightarrow> (trace_lib, matrix) prog" where
  "measure_arc fl n e mx =
     bnd (node_get (sourceNode e)) (\<lambda>src.
     bnd (node_get (destinationNode e)) (\<lambda>dest.
     if arcType e \<noteq> 0 \<and> arcType e = nodeType n then ret (mx\<lparr>W_E := fl (W_E mx + arcWeight e)\<rparr>)
     else if arcType e \<noteq> 0 then fail (Punt ''ReportSelectionResult: illegal arc type'')
     else if flag TRACE_TAIL src \<and> flag TRACE_HEAD dest then
       let mx = mx\<lparr>W_A := fl (W_A mx + arcWeight e)\<rparr> in
       ret (if nodeType src = nodeType dest then mx\<lparr>W_BACK_EDGE := fl (W_BACK_EDGE mx + arcWeight e)\<rparr> else mx)
     else if flag TRACE_TAIL src \<and> \<not> flag TRACE_HEAD dest then ret (mx\<lparr>W_B := fl (W_B mx + arcWeight e)\<rparr>)
     else if \<not> flag TRACE_TAIL src \<and> flag TRACE_HEAD dest then ret (mx\<lparr>W_C := fl (W_C mx + arcWeight e)\<rparr>)
     else ret (mx\<lparr>W_D := fl (W_D mx + arcWeight e)\<rparr>)))"

definition measure_arcs :: "(rat \<Rightarrow> rat) \<Rightarrow> nat list \<Rightarrow> matrix \<Rightarrow> (trace_lib, matrix) prog" where
  "measure_arcs fl ns mx = for_each (\<lambda>a mx. bnd (node_get a) (\<lambda>n. for_each (measure_arc fl n) (destinationArcs n) mx)) ns mx"

definition count_nodes :: "(rat \<Rightarrow> rat) \<Rightarrow> nat list \<Rightarrow> matrix \<Rightarrow> (trace_lib, matrix) prog" where
  "count_nodes fl ns mx =
     for_each (\<lambda>a mx.
       bnd (clear_flag VISITED a) (\<lambda>_.
       bnd (node_get a) (\<lambda>n.
       let mx = mx\<lparr>N_NODES := fl (N_NODES mx + 1), W_NODES := fl (W_NODES mx + nodeWeight n)\<rparr>;
           mx = (if destinationArcs n = [] then mx\<lparr>N_LEAF := fl (N_LEAF mx + 1)\<rparr> else mx);
           mx = (if sourceArcs n = [] then mx\<lparr>N_ROOT := fl (N_ROOT mx + 1)\<rparr> else mx) in
       for_each (\<lambda>e mx. ret (mx\<lparr>N_ARCS := fl (N_ARCS mx + 1), W_ARCS := fl (W_ARCS mx + arcWeight e)\<rparr>)) (destinationArcs n) mx))) ns mx"

text \<open>The variables \<open>loop\<close> and \<open>size\<close> are an \<open>int\<close>.\<close>

definition measure_trace :: "(rat \<Rightarrow> rat) \<Rightarrow> nat list \<Rightarrow> nat \<Rightarrow> matrix \<Rightarrow> (trace_lib, matrix) prog" where
  "measure_trace fl ns node mx =
     bnd (node_get node) (\<lambda>nd.
     if flag VISITED nd then ret mx
     else
       bnd (for_each (\<lambda>ptr r.
              bnd (node_get ptr) (\<lambda>n.
              if nodeType n = nodeType nd then
                bnd (raise_flag VISITED ptr) (\<lambda>_.
                bnd (node_get node) (\<lambda>nd.
                ret (fst r \<or> flag LOOP_HEAD nd, snd r + 1)))
              else ret r)) ns (False, 0)) (\<lambda>r.
       let mx = mx\<lparr>N_TRACE := fl (N_TRACE mx + 1), L_TRACE := fl (L_TRACE mx + snd r)\<rparr> in
       ret (if fst r then mx\<lparr>N_LOOP := fl (N_LOOP mx + 1), L_LOOP := fl (L_LOOP mx + snd r)\<rparr> else mx)))"

text \<open>Nothing is done for a null pointer to the matrix, and its old contents are overwritten.\<close>

definition ReportSelectionResult :: "(rat \<Rightarrow> rat) \<Rightarrow> FGraph option \<Rightarrow> matrix option \<Rightarrow> (trace_lib, matrix option) prog" where
  "ReportSelectionResult fl graph matrix =
     (case graph of None \<Rightarrow> fail (Punt ''ReportSelectionResult: nil graph'')
      | Some gr \<Rightarrow>
          if matrix = None then ret None
          else
            bnd (sequential_weight fl (gnodes gr) zero_matrix) (\<lambda>mx.
            bnd (measure_arcs fl (gnodes gr) mx) (\<lambda>mx.
            bnd (count_nodes fl (gnodes gr) mx) (\<lambda>mx.
            bnd (for_each (measure_trace fl (gnodes gr)) (gnodes gr) mx) (\<lambda>mx.
            if L_TRACE mx \<noteq> N_NODES mx then fail (Punt ''ReportSelectionResult: incorrect accounting'')
            else
              let mx = (if N_TRACE mx \<noteq> 0 then mx\<lparr>L_TRACE := fl (L_TRACE mx / N_TRACE mx)\<rparr> else mx) in
              ret (Some (if N_LOOP mx \<noteq> 0 then mx\<lparr>L_LOOP := fl (L_LOOP mx / N_LOOP mx)\<rparr> else mx)))))))"

end
