(* ===== verification/Trace_Graph.thy ===== *)
theory Trace_Graph
  imports Trace_Arcs Trace_Placement Graph_Links
begin

text \<open>
  The graph of the traces in \<open>PlaceTraces\<close> of \<open>src/src/library/libflow/trace.c\<close>: one new node for each trace, which has
  the type of the trace as its identifier, and the arcs from tails to heads. The nodes of the program are not touched.
\<close>

section \<open>New nodes\<close>

text \<open>\<open>grown g xs h\<close>: between \<open>g\<close> and \<open>h\<close> the nodes \<open>xs\<close> have been allocated, and only they have changed.\<close>

definition grown :: "trace_lib \<Rightarrow> nat list \<Rightarrow> trace_lib \<Rightarrow> bool" where
  "grown g xs h = (h = g\<lparr>node_mem := node_mem h, node_top := node_top h, d_node_list := d_node_list h, node_count := node_count h\<rparr> \<and>
     free_ok h \<and> in_use h = in_use g \<union> set xs \<and> {..<node_top h} = {..<node_top g} \<union> set xs \<and> distinct xs \<and> set xs \<inter> in_use g = {} \<and>
     (\<forall>a. a \<notin> set xs \<longrightarrow> node_mem h a = node_mem g a))"

lemma grown_refl: "free_ok g \<Longrightarrow> grown g [] g"
  by (simp add: grown_def)

lemma grownD:
  assumes "grown g xs h"
  shows "free_ok h" "in_use h = in_use g \<union> set xs" "{..<node_top h} = {..<node_top g} \<union> set xs" "distinct xs" "set xs \<inter> in_use g = {}"
    "a \<notin> set xs \<Longrightarrow> node_mem h a = node_mem g a" "a \<in> in_use g \<Longrightarrow> a \<notin> set xs" "a \<in> in_use g \<Longrightarrow> node_mem h a = node_mem g a"
  using assms by (auto simp: grown_def)

lemma grown_put: "grown g xs h \<Longrightarrow> (\<And>a. a \<notin> set xs \<Longrightarrow> m a = node_mem h a) \<Longrightarrow> grown g xs (h\<lparr>node_mem := m\<rparr>)"
  "grown g xs h \<Longrightarrow> (\<And>a. a \<notin> set xs \<Longrightarrow> m a = node_mem h a) \<Longrightarrow> grown g xs (h\<lparr>node_mem := m, node_count := n\<rparr>)"
  by (cases g; cases h; auto simp: grown_def free_ok_def in_use_def)+

lemma NewNode_grown_wp:
  assumes "grown g xs h"
  shows "wp NewNode (\<lambda>x h'. x \<notin> set xs \<and> grown g (xs @ [x]) h' \<and> node_mem h' = (node_mem h)(x := blank_node)) h"
proof -
  note gr = grownD [OF assms]
  from gr(1) obtain x t free where run: "NewNode h = Inr (x, h\<lparr>node_mem := (node_mem h)(x := blank_node), node_top := t, d_node_list := free\<rparr>)"
    and x: "x \<notin> in_use h" "{..<t} = insert x {..<node_top h}" "distinct free" "set free \<subseteq> {..<t}" "{..<t} - set free = insert x (in_use h)"
    by (rule NewNode_run)
  let ?h = "h\<lparr>node_mem := (node_mem h)(x := blank_node), node_top := t, d_node_list := free\<rparr>"
  have "?h = g\<lparr>node_mem := node_mem ?h, node_top := node_top ?h, d_node_list := d_node_list ?h, node_count := node_count ?h\<rparr>"
    using assms by (cases g; cases h) (auto simp: grown_def)
  moreover have "free_ok ?h" using x(2-4) by (simp add: free_ok_def)
  moreover have use: "in_use ?h = in_use g \<union> set (xs @ [x])" using x(5) gr(2) by (simp add: in_use_def [of ?h])
  moreover have "{..<node_top ?h} = {..<node_top g} \<union> set (xs @ [x])" using x(2) gr(3) by simp
  moreover have "distinct (xs @ [x])" "set (xs @ [x]) \<inter> in_use g = {}" using x(1) gr(2,4,5) by auto
  moreover have "node_mem ?h a = node_mem g a" if "a \<notin> set (xs @ [x])" for a using gr(6) [of a] that by simp
  ultimately have "grown g (xs @ [x]) ?h" unfolding grown_def by blast
  then show ?thesis using run x(1) gr(2) by (simp add: wp_def)
qed

definition supers :: "nat list \<Rightarrow> nat \<Rightarrow> trace_lib \<Rightarrow> FGraph \<Rightarrow> trace_lib \<Rightarrow> bool" where
  "supers as r g ng h = (grown g (gnodes ng) h \<and> (\<forall>x\<in>set (gnodes ng). sourceArcs (node_mem h x) = [] \<and> destinationArcs (node_mem h x) = []) \<and>
     bij_betw (\<lambda>x. nodeId (node_mem h x)) (set (gnodes ng)) ((\<lambda>a. nodeType (node_mem g a)) ` set as) \<and>
     (if r \<in> set as then \<exists>x\<in>set (gnodes ng). root ng = Some x \<and> nodeId (node_mem h x) = nodeType (node_mem g r) else root ng = None))"

lemma FindNode_wp: "wp (FindNode ng i) Q h = Q (find (\<lambda>a. nodeId (node_mem h a) = i) (gnodes ng)) h"
  by (simp add: FindNode_def)

lemma add_trace_nodes_wp:
  assumes gr: "gnodes gr = ns" "root gr = Some r" and f: "free_ok g" and use: "set ns \<subseteq> in_use g"
  shows "wp (add_trace_nodes gr) (supers ns r g) g"
  unfolding add_trace_nodes_def gr NewGraph_def wp_bnd wp_ret
proof (rule wp_for_each [where I = "\<lambda>k. supers (take k ns) r g"])
  show "supers (take 0 ns) r g \<lparr>root = None, gnodes = []\<rparr> g" using f by (simp add: supers_def grown_refl bij_betw_def)
  show "supers ns r g ng h" if "supers (take (length ns) ns) r g ng h" for ng h using that by simp
  fix k ng h assume k: "k < length ns" and S: "supers (take k ns) r g ng h"
  let ?a = "ns ! k" and ?xs = "gnodes ng" and ?ty = "\<lambda>a. nodeType (node_mem g a)" and ?id = "\<lambda>x. nodeId (node_mem h x)"
  have T: "set (take (Suc k) ns) = insert ?a (set (take k ns))" using k by (simp add: take_Suc_conv_app_nth)
  have sub: "set (take (Suc k) ns) \<subseteq> in_use g" using use set_take_subset by fastforce
  have gw: "grown g ?xs h" and bij: "bij_betw ?id (set ?xs) (?ty ` set (take k ns))"
    and bare: "\<forall>x\<in>set ?xs. sourceArcs (node_mem h x) = [] \<and> destinationArcs (node_mem h x) = []"
    and rt: "if r \<in> set (take k ns) then \<exists>x\<in>set ?xs. root ng = Some x \<and> ?id x = ?ty r else root ng = None"
    using S by (auto simp: supers_def)
  have a: "?a \<in> in_use g" using use k by auto
  have na: "node_mem h ?a = node_mem g ?a" by (rule grownD(8) [OF gw a])
  have step: "supers (take (Suc k) ns) r g (if Some ?a = Some r then ng'\<lparr>root := Some x\<rparr> else ng') h'"
    if gw': "grown g (gnodes ng') h'" and bare': "\<forall>x\<in>set (gnodes ng'). sourceArcs (node_mem h' x) = [] \<and> destinationArcs (node_mem h' x) = []"
      and bij': "bij_betw (\<lambda>x. nodeId (node_mem h' x)) (set (gnodes ng')) (insert (?ty ?a) (?ty ` set (take k ns)))"
      and x: "x \<in> set (gnodes ng')" "nodeId (node_mem h' x) = ?ty ?a"
      and old: "set ?xs \<subseteq> set (gnodes ng')" "root ng' = root ng" "\<And>y. y \<in> set ?xs \<Longrightarrow> nodeId (node_mem h' y) = ?id y" for ng' x h'
    unfolding supers_def T using gw' bare' bij' x old rt by (cases "?a = r") (auto split: if_splits)
  show "wp (bnd (node_get ?a) (\<lambda>n. bnd (FindNode ng (nodeType n)) (\<lambda>temp.
       bnd (case temp of Some t \<Rightarrow> ret (t, ng)
            | None \<Rightarrow> bnd NewNode (\<lambda>t. bnd (node_put t (\<lambda>nd. nd\<lparr>nodeId := nodeType n\<rparr>)) (\<lambda>_. ret (t, AddNode ng t)))) (\<lambda>r'.
       ret (if Some ?a = Some r then (snd r')\<lparr>root := Some (fst r')\<rparr> else snd r'))))) (supers (take (Suc k) ns) r g) h"
  proof (cases "find (\<lambda>x. ?id x = ?ty ?a) ?xs")
    case (Some x)
    then have x: "x \<in> set ?xs" "?id x = ?ty ?a" by (auto simp: find_Some_iff)
    then have "?ty ?a \<in> ?id ` set ?xs" by force
    then have "insert (?ty ?a) (?ty ` set (take k ns)) = ?ty ` set (take k ns)" using bij by (simp add: bij_betw_def insert_absorb)
    then show ?thesis using step [OF gw bare _ x] bij Some by (simp add: wp_node_get na FindNode_wp split: if_splits)
  next
    case None
    then have new: "?ty ?a \<notin> ?id ` set ?xs" by (auto simp: find_None_iff)
    have "wp (bnd NewNode (\<lambda>t. bnd (node_put t (\<lambda>nd. nd\<lparr>nodeId := ?ty ?a\<rparr>)) (\<lambda>_. ret (t, AddNode ng t))))
      (\<lambda>r'. supers (take (Suc k) ns) r g (if Some ?a = Some r then (snd r')\<lparr>root := Some (fst r')\<rparr> else snd r')) h"
    proof (rule wp_seq [OF NewNode_grown_wp [OF gw]], elim conjE)
      fix x h' assume x: "x \<notin> set ?xs" "grown g (?xs @ [x]) h'" "node_mem h' = (node_mem h)(x := blank_node)"
      let ?m = "(node_mem h)(x := blank_node\<lparr>nodeId := ?ty ?a\<rparr>)"
      have "bij_betw (\<lambda>y. nodeId (?m y)) (insert x (set ?xs)) (insert (?ty ?a) (?ty ` set (take k ns)))"
      proof -
        have "bij_betw (\<lambda>y. nodeId (?m y)) (set ?xs) (?ty ` set (take k ns))"
          using bij by (rule bij_betw_cong [THEN iffD1, rotated]) (use x(1) in auto)
        then show ?thesis using x(1) new bij notIn_Un_bij_betw [of x "set ?xs" "\<lambda>y. nodeId (?m y)" "?ty ` set (take k ns)"]
          by (auto simp: bij_betw_def)
      qed
      moreover have "grown g (?xs @ [x]) (h'\<lparr>node_mem := ?m\<rparr>)" by (rule grown_put(1) [OF x(2)]) (simp add: x(3))
      moreover have "sourceArcs blank_node = []" "destinationArcs blank_node = []" by (simp_all add: blank_node_def)
      ultimately have "supers (take (Suc k) ns) r g (if Some ?a = Some r then (AddNode ng x)\<lparr>root := Some x\<rparr> else AddNode ng x) (h'\<lparr>node_mem := ?m\<rparr>)"
        by (intro step) (use bare x(1) in \<open>auto simp: AddNode_def\<close>)
      then show "wp (bnd (node_put x (\<lambda>nd. nd\<lparr>nodeId := ?ty ?a\<rparr>)) (\<lambda>_. ret (x, AddNode ng x)))
        (\<lambda>r'. supers (take (Suc k) ns) r g (if Some ?a = Some r then (snd r')\<lparr>root := Some (fst r')\<rparr> else snd r')) h'"
        by (cases "?a = r") (simp_all add: node_put_mem x(3))
    qed
    then show ?thesis using None by (simp add: wp_node_get na FindNode_wp)
  qed
qed

section \<open>Arcs\<close>

lemma wp_ret_fun: "wp (ret x) Q = Q x"
  by (rule ext) simp

text \<open>The graph of the nodes \<open>xs\<close> while it is connected: the identifiers are those of \<open>h0\<close> and no arc has a type.\<close>

definition netted :: "trace_lib \<Rightarrow> nat list \<Rightarrow> trace_lib \<Rightarrow> trace_lib \<Rightarrow> bool" where
  "netted g xs h0 h = (grown g xs h \<and> paired xs (node_mem h) \<and> (\<forall>x\<in>set xs. nodeId (node_mem h x) = nodeId (node_mem h0 x) \<and>
     (\<forall>e\<in>set (sourceArcs (node_mem h x) @ destinationArcs (node_mem h x)). arcType e = 0)))"

lemma netted_put:
  assumes "netted g xs h0 h" "paired xs m" "\<And>a. a \<notin> set xs \<Longrightarrow> m a = node_mem h a"
    "\<And>x. x \<in> set xs \<Longrightarrow> nodeId (m x) = nodeId (node_mem h x)"
    "\<And>x e. x \<in> set xs \<Longrightarrow> e \<in> set (sourceArcs (m x) @ destinationArcs (m x)) \<Longrightarrow> arcType e = 0"
  shows "netted g xs h0 (h\<lparr>node_mem := m\<rparr>)" "netted g xs h0 (h\<lparr>node_mem := m, node_count := n\<rparr>)"
  using assms grown_put [of g xs h m] by (simp_all add: netted_def)

lemma netted_same_ends:
  assumes "netted g xs h0 h" "\<And>x. ends (sourceArcs (m x)) = ends (sourceArcs (node_mem h x))" "\<And>x. ends (destinationArcs (m x)) = ends (destinationArcs (node_mem h x))"
    "\<And>a. a \<notin> set xs \<Longrightarrow> m a = node_mem h a" "\<And>x. x \<in> set xs \<Longrightarrow> nodeId (m x) = nodeId (node_mem h x)"
    "\<And>x. arcType ` set (sourceArcs (m x)) = arcType ` set (sourceArcs (node_mem h x))" "\<And>x. arcType ` set (destinationArcs (m x)) = arcType ` set (destinationArcs (node_mem h x))"
  shows "netted g xs h0 (h\<lparr>node_mem := m\<rparr>)"
proof (rule netted_put(1) [OF assms(1) _ assms(4,5)])
  show "paired xs m" using assms(1) unfolding netted_def paired_def assms(2,3) by simp
  fix x e assume x: "x \<in> set xs" and e: "e \<in> set (sourceArcs (m x) @ destinationArcs (m x))"
  have "\<forall>t\<in>arcType ` set (sourceArcs (node_mem h x)) \<union> arcType ` set (destinationArcs (node_mem h x)). t = 0" using assms(1) x by (auto simp: netted_def)
  then show "arcType e = 0" using e unfolding assms(6,7) [symmetric] by auto
qed

lemma connect_wp:
  assumes net: "netted g xs h0 h" and sd: "s \<in> set xs" "d \<in> set xs" "s \<noteq> d"
  shows "wp (ConnectNodes (Some s) (Some d) 0) (\<lambda>_ h'. netted g xs h0 h' \<and> (s, d) \<in> ends (destinationArcs (node_mem h' s))) h"
proof (cases "\<exists>e\<in>set (destinationArcs (node_mem h s)). arcType e = 0 \<and> destinationNode e = d")
  case True
  then obtain e where e: "e \<in> set (destinationArcs (node_mem h s))" "arcType e = 0" "destinationNode e = d" by blast
  have "sourceNode e = s" using net pairedD(1) [of xs "node_mem h" s e] sd(1) e(1) by (simp add: netted_def)
  then have "(s, d) \<in> ends (destinationArcs (node_mem h s))" using e by (force simp: ends_def)
  then show ?thesis using True net by (simp add: ConnectNodes_def wp_node_get)
next
  case False
  let ?e = "the_arc s d 0"
  let ?m = "join_nodes s d 0 (node_mem h)"
  let ?m1 = "(node_mem h)(s := (node_mem h s)\<lparr>destinationArcs := ?e # destinationArcs (node_mem h s)\<rparr>)"
  have m: "?m1(d := (?m1 d)\<lparr>sourceArcs := ?e # sourceArcs (?m1 d)\<rparr>) = ?m"
    using sd(3) by (auto simp: join_nodes_def fun_eq_iff)
  have pr: "paired xs (node_mem h)" using net by (simp add: netted_def)
  have ends_m: "ends (destinationArcs (?m x)) = (if x = s then insert (s, d) (ends (destinationArcs (node_mem h x))) else ends (destinationArcs (node_mem h x)))"
    "ends (sourceArcs (?m x)) = (if x = d then insert (s, d) (ends (sourceArcs (node_mem h x))) else ends (sourceArcs (node_mem h x)))" for x
    by (auto simp: join_nodes_def ends_def)
  have "paired xs ?m" using pr sd(1,2) unfolding paired_def ends_m by (auto split: if_splits)
  then have "netted g xs h0 (h\<lparr>node_mem := ?m, node_count := node_count h + 1\<rparr>)"
    by (rule netted_put(2) [OF net]) (use net sd in \<open>auto simp: join_nodes_def netted_def split: if_splits\<close>)
  moreover have "(s, d) \<in> ends (destinationArcs (?m s))" by (simp add: ends_m)
  moreover have no: "(\<exists>e\<in>set (destinationArcs (node_mem h s)). arcType e = 0 \<and> destinationNode e = d) = False" using False by simp
  ultimately show ?thesis by (simp add: ConnectNodes_def wp_node_get Let_def node_put_mem m no del: fun_upd_apply)
qed

lemma reweigh_first_same [simp]: "ends (reweigh_first s d w es) = ends es" "arcType ` set (reweigh_first s d w es) = arcType ` set es"
  by (induction es) (auto simp: ends_def)

lemma weigh_arc_wp:
  assumes net: "netted g xs h0 h" and sd: "s \<in> set xs" "d \<in> set xs" "s \<noteq> d" "(s, d) \<in> ends (destinationArcs (node_mem h s))"
  shows "wp (weigh_arc s d w) (\<lambda>_. netted g xs h0) h"
proof -
  let ?m = "node_mem h"
  have pr: "paired xs ?m" using net by (simp add: netted_def)
  have "(s, d) \<in> ends (sourceArcs (?m d))" using pr sd by (force simp: paired_def)
  then obtain e1 e2 where e1: "e1 \<in> set (sourceArcs (?m d))" "sourceNode e1 = s" "destinationNode e1 = d"
    and e2: "e2 \<in> set (destinationArcs (?m s))" "sourceNode e2 = s" "destinationNode e2 = d" using sd(4) by (auto simp: ends_def)
  then have "arcType e1 = 0" "arcType e2 = 0" using net sd(1,2) by (auto simp: netted_def)
  then have f: "find (\<lambda>a. arcType a = 0 \<and> sourceNode a = s \<and> destinationNode a = d) (sourceArcs (?m d)) \<noteq> None"
    "find (\<lambda>a. arcType a = 0 \<and> sourceNode a = s \<and> destinationNode a = d) (destinationArcs (?m s)) \<noteq> None"
    using e1 e2 by (auto simp: find_None_iff)
  let ?m' = "?m(d := (?m d)\<lparr>sourceArcs := reweigh_first s d w (sourceArcs (?m d))\<rparr>, s := (?m s)\<lparr>destinationArcs := reweigh_first s d w (destinationArcs (?m s))\<rparr>)"
  have "netted g xs h0 (h\<lparr>node_mem := ?m'\<rparr>)" by (rule netted_same_ends [OF net]) (use sd in auto)
  then show ?thesis using f sd(3)
    by (simp add: weigh_arc_def FindSrcArc_def FindDestArc_def wp_node_get node_put_mem del: fun_upd_apply) (simp add: fun_upd_apply)
qed

lemma find_super:
  assumes S: "supers ns r g ng h0" and net: "netted g (gnodes ng) h0 h" and a: "a \<in> set ns"
  obtains x where "find (\<lambda>x. nodeId (node_mem h x) = nodeType (node_mem g a)) (gnodes ng) = Some x" "x \<in> set (gnodes ng)"
    "nodeId (node_mem h0 x) = nodeType (node_mem g a)"
proof -
  have ids: "\<And>x. x \<in> set (gnodes ng) \<Longrightarrow> nodeId (node_mem h x) = nodeId (node_mem h0 x)" using net by (simp add: netted_def)
  have "nodeType (node_mem g a) \<in> (\<lambda>x. nodeId (node_mem h0 x)) ` set (gnodes ng)" using S a by (simp add: supers_def bij_betw_def)
  then have "find (\<lambda>x. nodeId (node_mem h x) = nodeType (node_mem g a)) (gnodes ng) \<noteq> None" using ids by (auto simp: find_None_iff)
  then obtain x where "find (\<lambda>x. nodeId (node_mem h x) = nodeType (node_mem g a)) (gnodes ng) = Some x" by auto
  moreover from this have "x \<in> set (gnodes ng)" "nodeId (node_mem h x) = nodeType (node_mem g a)" by (auto simp: find_Some_iff)
  ultimately show thesis using that ids by simp
qed

lemma connect_traces_wp:
  assumes gr: "gnodes gr = ns" and S: "supers ns r g ng h0" and net: "netted g (gnodes ng) h0 h"
    and use: "set ns \<subseteq> in_use g" and pr: "paired ns (node_mem g)"
  shows "wp (connect_traces gr ng) (\<lambda>_. netted g (gnodes ng) h0) h"
  unfolding connect_traces_def gr
proof (rule wp_for_each [where I = "\<lambda>_ _. netted g (gnodes ng) h0"])
  fix k u h1 assume k: "k < length ns" and N: "netted g (gnodes ng) h0 h1"
  let ?a = "ns ! k" and ?xs = "gnodes ng"
  have same: "node_mem h' a = node_mem g a" if "netted g ?xs h0 h'" "a \<in> set ns" for h' a
    using that use grownD(8) [of g ?xs h' a] by (auto simp: netted_def)
  have a: "?a \<in> set ns" using k by simp
  let ?n = "node_mem g ?a"
  have "wp (for_each (\<lambda>arc _. bnd (node_get (destinationNode arc)) (\<lambda>d.
       if nodeType d \<noteq> nodeType ?n \<and> flag TRACE_HEAD d then
         bnd (FindNode ng (nodeType ?n)) (\<lambda>src_node. bnd (FindNode ng (nodeType d)) (\<lambda>dest_node.
         bnd (ConnectNodes src_node dest_node 0) (\<lambda>_. bnd (need src_node) (\<lambda>s. bnd (need dest_node) (\<lambda>t. weigh_arc s t (arcWeight arc))))))
       else ret ())) (destinationArcs ?n) ()) (\<lambda>_. netted g ?xs h0) h1"
  proof (rule wp_for_each [where I = "\<lambda>_ _. netted g ?xs h0"])
    fix j u h2 assume j: "j < length (destinationArcs ?n)" and N2: "netted g ?xs h0 h2"
    let ?e = "destinationArcs ?n ! j"
    have d: "destinationNode ?e \<in> set ns" using pairedD(1) [OF pr a nth_mem [OF j]] by simp
    note md = same [OF N2 d]
    from S N2 a obtain s where s: "find (\<lambda>x. nodeId (node_mem h2 x) = nodeType ?n) ?xs = Some s" "s \<in> set ?xs" "nodeId (node_mem h0 s) = nodeType ?n"
      by (rule find_super)
    from S N2 d obtain t where t: "find (\<lambda>x. nodeId (node_mem h2 x) = nodeType (node_mem g (destinationNode ?e))) ?xs = Some t" "t \<in> set ?xs"
      "nodeId (node_mem h0 t) = nodeType (node_mem g (destinationNode ?e))" by (rule find_super)
    have "wp (bnd (ConnectNodes (Some s) (Some t) 0) (\<lambda>_. weigh_arc s t (arcWeight ?e))) (\<lambda>_. netted g ?xs h0) h2"
      if "nodeType (node_mem g (destinationNode ?e)) \<noteq> nodeType ?n"
    proof -
      have ne: "s \<noteq> t" using that s(3) t(3) by auto
      show ?thesis by (rule wp_seq [OF connect_wp [OF N2 s(2) t(2) ne]], elim conjE) (rule weigh_arc_wp [OF _ s(2) t(2) ne])
    qed
    then show "wp (bnd (node_get (destinationNode ?e)) (\<lambda>d.
       if nodeType d \<noteq> nodeType ?n \<and> flag TRACE_HEAD d then
         bnd (FindNode ng (nodeType ?n)) (\<lambda>src_node. bnd (FindNode ng (nodeType d)) (\<lambda>dest_node.
         bnd (ConnectNodes src_node dest_node 0) (\<lambda>_. bnd (need src_node) (\<lambda>s. bnd (need dest_node) (\<lambda>t. weigh_arc s t (arcWeight ?e))))))
       else ret ())) (\<lambda>_. netted g ?xs h0) h2"
      using N2 by (simp add: wp_node_get md FindNode_wp s(1) t(1) need_def wp_ret_fun)
  qed (use N in auto)
  then show "wp (bnd (node_get ?a) (\<lambda>n. if \<not> flag TRACE_TAIL n then ret () else for_each (\<lambda>arc _.
           bnd (node_get (destinationNode arc)) (\<lambda>d.
           if nodeType d \<noteq> nodeType n \<and> flag TRACE_HEAD d then
             bnd (FindNode ng (nodeType n)) (\<lambda>src_node. bnd (FindNode ng (nodeType d)) (\<lambda>dest_node.
             bnd (ConnectNodes src_node dest_node 0) (\<lambda>_. bnd (need src_node) (\<lambda>s. bnd (need dest_node) (\<lambda>t. weigh_arc s t (arcWeight arc))))))
           else ret ())) (destinationArcs n) ())) (\<lambda>_. netted g ?xs h0) h1"
    unfolding wp_bnd [of "node_get ?a"] wp_node_get same [OF N a] using N by simp
qed (use net in auto)

lemma weigh_nodes_wp:
  assumes "netted g xs h0 h"
  shows "wp (weigh_nodes xs) (\<lambda>_. netted g xs h0) h"
  unfolding weigh_nodes_def
proof (rule wp_for_each [where I = "\<lambda>_ _. netted g xs h0"])
  fix k u h1 assume k: "k < length xs" and N: "netted g xs h0 h1"
  have "netted g xs h0 (h1\<lparr>node_mem := (node_mem h1)(xs ! k := (node_mem h1 (xs ! k))\<lparr>nodeWeight := w\<rparr>)\<rparr>)" for w
    by (rule netted_same_ends [OF N]) (use k in auto)
  then show "wp (bnd (node_get (xs ! k)) (\<lambda>n. let best = fold (\<lambda>arc best. if arcWeight arc > best then arcWeight arc else best)
      (sourceArcs n @ destinationArcs n) 1 in node_put (xs ! k) (\<lambda>n. n\<lparr>nodeWeight := best\<rparr>))) (\<lambda>_. netted g xs h0) h1"
    by (simp add: wp_node_get Let_def node_put_mem del: fun_upd_apply)
qed (use assms in auto)

lemma trace_graph_wp:
  assumes gr: "gnodes gr = ns" "root gr = Some r" and f: "free_ok g" and use: "set ns \<subseteq> in_use g" and pr: "paired ns (node_mem g)"
  shows "wp (trace_graph gr) (\<lambda>ng h. \<exists>h0. supers ns r g ng h0 \<and> netted g (gnodes ng) h0 h) g"
  unfolding trace_graph_def
proof (rule wp_seq [OF add_trace_nodes_wp [OF gr f use]])
  fix ng h0 assume S: "supers ns r g ng h0"
  have N: "netted g (gnodes ng) h0 h0" using S by (simp add: supers_def netted_def paired_def ends_def)
  show "wp (bnd (connect_traces gr ng) (\<lambda>_. bnd (weigh_nodes (gnodes ng)) (\<lambda>_. ret ng)))
    (\<lambda>ng h. \<exists>h0. supers ns r g ng h0 \<and> netted g (gnodes ng) h0 h) h0"
    by (rule wp_seq [OF connect_traces_wp [OF gr(1) S N use pr]], rule wp_seq [OF weigh_nodes_wp], assumption) (use S in auto)
qed

end
