(* ===== verification/Trace_Layout.thy ===== *)
theory Trace_Layout
  imports Trace_Graph
begin

text \<open>
  The order in which \<open>PlaceTraces\<close> of \<open>src/src/library/libflow/trace.c\<close> lays out the nodes: the traces of the graph of traces
  give the order of the traces, and each trace is laid out from its head to its tail.
\<close>

section \<open>Following a trace\<close>

lemma links_nth: "(a, b) \<in> links t \<longleftrightarrow> (\<exists>i. Suc i < length t \<and> t ! i = a \<and> t ! Suc i = b)"
  by (auto simp: links_def in_set_zip nth_tl less_diff_conv)

lemma tracesD:
  assumes "traces ns r m ts"
  shows "distinct (concat ts)" "set (concat ts) = set ns" "typed m ts" "marked ns m (all_links ts)" "entered r ts"
    "t \<in> set ts \<Longrightarrow> t \<noteq> []" "t \<in> set ts \<Longrightarrow> distinct t" "t \<in> set ts \<Longrightarrow> set t \<subseteq> set ns" "t \<in> set ts \<Longrightarrow> ended m True True t"
    "t \<in> set ts \<Longrightarrow> u \<in> set ts \<Longrightarrow> a \<in> set t \<Longrightarrow> a \<in> set u \<Longrightarrow> t = u" "distinct ts"
    "a \<in> set ns \<Longrightarrow> \<exists>t\<in>set ts. a \<in> set t"
proof -
  show d: "distinct (concat ts)" and s: "set (concat ts) = set ns" and "typed m ts" "marked ns m (all_links ts)" "entered r ts"
    "t \<in> set ts \<Longrightarrow> ended m True True t" using assms by (simp_all add: traces_def)
  show "t \<in> set ts \<Longrightarrow> t \<noteq> []" using assms by (auto simp: traces_def)
  show "t \<in> set ts \<Longrightarrow> distinct t" using d by (simp add: distinct_concat_iff)
  show "t \<in> set ts \<Longrightarrow> set t \<subseteq> set ns" "a \<in> set ns \<Longrightarrow> \<exists>t\<in>set ts. a \<in> set t" using s by auto
  show "t = u" if "t \<in> set ts" "u \<in> set ts" "a \<in> set t" "a \<in> set u" using d that by (auto simp: distinct_concat_iff)
  have "[] \<notin> set ts" using assms by (simp add: traces_def)
  then show "distinct ts" using d by (metis distinct_concat_iff removeAll_id)
qed

lemma some_traces:
  assumes "traces ns r m ts" "distinct d" "set d \<subseteq> set ts"
  shows "distinct (concat d)"
proof (rule distinct_concat [OF assms(2)])
  show "distinct t" if "t \<in> set d" for t using tracesD(7) [OF assms(1)] assms(3) that by blast
  show "set t \<inter> set u = {}" if "t \<in> set d" "u \<in> set d" "t \<noteq> u" for t u
    using tracesD(10) [OF assms(1), of t u] assms(3) that by blast
qed

lemma trace_step:
  assumes tr: "traces ns r m ts" and t: "t \<in> set ts" "i < length t"
  shows "map_option destinationNode (in_trace_arc (m (t ! i))) = (if Suc i < length t then Some (t ! Suc i) else None)"
proof -
  let ?a = "t ! i"
  note tD = tracesD [OF tr]
  have a: "?a \<in> set t" "?a \<in> set ns" using t tD(8) [OF t(1)] by auto
  have ty: "0 < nodeType (m ?a)" using tD(3) t(1) a(1) by (simp add: typed_def)
  have uniq: "Suc i < length t \<and> b = t ! Suc i" if l: "(?a, b) \<in> all_links ts" for b
  proof -
    obtain u where u: "u \<in> set ts" "(?a, b) \<in> links u" using l by (auto simp: all_links_def)
    then have "u = t" using tD(10) [OF u(1) t(1), of ?a] a(1) links_set [OF u(2)] by simp
    then obtain j where "Suc j < length t" "t ! j = ?a" "t ! Suc j = b" using u(2) by (auto simp: links_nth)
    then show ?thesis using tD(7) [OF t(1)] t(2) by (auto simp: nth_eq_iff_index_eq)
  qed
  have arc: "Suc i < length t \<and> destinationNode e = t ! Suc i" if "e \<in> set (destinationArcs (m ?a))" "arcType e = nodeType (m ?a)" for e
  proof -
    have "arcType e \<noteq> 0" using that(2) ty by simp
    then have "(?a, destinationNode e) \<in> all_links ts" using tD(4) a(2) that(1) unfolding marked_def by blast
    then show ?thesis by (rule uniq)
  qed
  show ?thesis
  proof (cases "in_trace_arc (m ?a)")
    case None
    have "\<not> Suc i < length t"
    proof
      assume "Suc i < length t"
      then have "(?a, t ! Suc i) \<in> all_links ts" using t(1) by (auto simp: all_links_def links_nth)
      then have "\<exists>e\<in>set (destinationArcs (m ?a)). arcType e = nodeType (m ?a)" using tD(4) unfolding marked_def by blast
      then show False using None by (auto simp: in_trace_arc_def find_None_iff)
    qed
    then show ?thesis using None by simp
  next
    case (Some e)
    then show ?thesis using arc [of e] by (auto simp: in_trace_arc_def find_Some_iff)
  qed
qed

lemma lay_out_trace_wp:
  assumes tr: "traces ns r (node_mem g) ts" and t: "t \<in> set ts" and len: "length ord + length t \<le> MAX_GRAPH_SIZE"
  shows "wp (lay_out_trace (hd t) ord) (\<lambda>r h. h = g \<and> r = ord @ t) g"
proof -
  note tD = tracesD [OF tr]
  let ?I = "\<lambda>a h. h = g \<and> ((\<exists>i<length t. a = (Some (t ! i), ord @ take i t)) \<or> a = (None, ord @ t))"
  let ?r = "measure (\<lambda>(a, h :: trace_lib). case fst a of None \<Rightarrow> 0 | Some _ \<Rightarrow> Suc (length ord + length t - length (snd a :: nat list)))"
  have "wp (while_prog (\<lambda>r. fst r \<noteq> None) (\<lambda>r. bnd (need (fst r)) (\<lambda>ptr. bnd (push_node (snd r) ptr) (\<lambda>node_order. bnd (node_get ptr) (\<lambda>n.
            if flag TRACE_TAIL n then ret (None, node_order)
            else case in_trace_arc n of None \<Rightarrow> ret (None, node_order) | Some next \<Rightarrow> ret (Some (destinationNode next), node_order)))))
          (Some (hd t), ord)) (\<lambda>a h. h = g \<and> a = (None, ord @ t)) g"
  proof (rule wp_while_prog [where I = ?I and r = ?r])
    show "?I (Some (hd t), ord) g" using tD(6) [OF t] by (auto simp: hd_conv_nth)
    fix a :: "nat option \<times> nat list" and h :: trace_lib assume I: "?I a h" and b: "fst a \<noteq> None"
    then obtain i where i: "i < length t" and a: "a = (Some (t ! i), ord @ take i t)" and h: "h = g" by auto
    let ?n = "node_mem g (t ! i)"
    have "flag TRACE_TAIL ?n \<longleftrightarrow> t ! i = last t" using tD(9) [OF t] i by (simp add: ended_def)
    moreover have "last t = t ! (length t - 1)" using tD(6) [OF t] by (rule last_conv_nth)
    ultimately have tail: "flag TRACE_TAIL ?n \<longleftrightarrow> Suc i = length t"
      using i nth_eq_iff_index_eq [OF tD(7) [OF t], of i "length t - 1"] by auto
    note st = trace_step [OF tr t i]
    have one: "?I (Some (t ! Suc i), ord @ take (Suc i) t) g" if "Suc i < length t" using that by auto
    have snoc: "ord @ take i t @ [t ! i] = ord @ take (Suc i) t" using i by (simp add: take_Suc_conv_app_nth)
    show "wp (bnd (need (fst a)) (\<lambda>ptr. bnd (push_node (snd a) ptr) (\<lambda>node_order. bnd (node_get ptr) (\<lambda>n.
            if flag TRACE_TAIL n then ret (None, node_order)
            else case in_trace_arc n of None \<Rightarrow> ret (None, node_order) | Some next \<Rightarrow> ret (Some (destinationNode next), node_order)))))
         (\<lambda>a' s'. ?I a' s' \<and> ((a', s'), a, h) \<in> ?r) h"
    proof (cases "Suc i = length t")
      case True
      then have "take (Suc i) t = t" by simp
      then show ?thesis using len i tail True by (simp add: a h need_def push_node_def node_get_def wp_ret_fun snoc)
    next
      case False
      then have l: "Suc i < length t" using i by simp
      then obtain e where e: "in_trace_arc ?n = Some e" "destinationNode e = t ! Suc i" using st by auto
      show ?thesis using len l tail False one [OF l]
        by (simp add: a h need_def push_node_def node_get_def wp_ret_fun snoc e)
    qed
  qed auto
  then show ?thesis by (auto simp: lay_out_trace_def elim: wp_mono)
qed

lemma find_head_wp:
  "wp (find_head ns i) Q g = Q (find (\<lambda>a. nodeType (node_mem g a) = i \<and> flag TRACE_HEAD (node_mem g a)) ns) g"
  unfolding find_head_def by (induction ns) (simp_all add: node_get_def)

lemma find_head_trace:
  assumes tr: "traces ns r m ts" and t: "t \<in> set ts"
  shows "find (\<lambda>a. nodeType (m a) = nodeType (m (hd t)) \<and> flag TRACE_HEAD (m a)) ns = Some (hd t)"
proof -
  note tD = tracesD [OF tr]
  have hd: "hd t \<in> set t" using tD(6) [OF t] by simp
  have one: "a = hd t" if a: "a \<in> set ns" "nodeType (m a) = nodeType (m (hd t))" "flag TRACE_HEAD (m a)" for a
  proof -
    obtain u where u: "u \<in> set ts" "a \<in> set u" using tD(12) a(1) by blast
    then have "u = t" using tD(3) t hd a(2) by (auto simp: typed_def)
    then show ?thesis using tD(9) [OF t] u(2) a(3) by (simp add: ended_def)
  qed
  have "flag TRACE_HEAD (m (hd t))" "hd t \<in> set ns" using tD(8,9) [OF t] hd by (auto simp: ended_def)
  then have "find (\<lambda>a. nodeType (m a) = nodeType (m (hd t)) \<and> flag TRACE_HEAD (m a)) ns \<noteq> None" by (auto simp: find_None_iff)
  then obtain a where a: "find (\<lambda>a. nodeType (m a) = nodeType (m (hd t)) \<and> flag TRACE_HEAD (m a)) ns = Some a" by auto
  then have "a = hd t" using one [of a] by (auto simp: find_Some_iff)
  with a show ?thesis by simp
qed

section \<open>Following the traces of traces\<close>

definition visiting :: "nat list \<Rightarrow> (nat \<Rightarrow> gnode) \<Rightarrow> nat \<Rightarrow> gnode" where
  "visiting vs m a = (if a \<in> set vs then (m a)\<lparr>nodeStatus := nodeStatus (m a) OR VISITED\<rparr> else m a)"

lemma visiting_Nil [simp]: "visiting [] m = m"
  by (simp add: visiting_def fun_eq_iff)

lemma visiting_fields [simp]:
  "nodeId (visiting vs m a) = nodeId (m a)" "nodeType (visiting vs m a) = nodeType (m a)" "nodeWeight (visiting vs m a) = nodeWeight (m a)"
  "destinationArcs (visiting vs m a) = destinationArcs (m a)" "sourceArcs (visiting vs m a) = sourceArcs (m a)"
  "in_trace_arc (visiting vs m a) = in_trace_arc (m a)" "outline (visiting vs m a) = outline (m a)"
  "flag k (visiting vs m a) = (flag k (m a) \<or> a \<in> set vs \<and> VISITED AND k \<noteq> 0)"
  by (auto simp: visiting_def in_trace_arc_def)

lemma visiting_other: "a \<notin> set vs \<Longrightarrow> visiting vs m a = m a"
  by (simp add: visiting_def)

lemma visiting_snoc: "c \<notin> set vs \<Longrightarrow> raised VISITED c (visiting vs m) = visiting (vs @ [c]) m"
  by (auto simp: visiting_def raised_def fun_eq_iff)

text \<open>What the specification of traces depends on.\<close>

definition alike :: "gnode \<Rightarrow> gnode \<Rightarrow> bool" where
  "alike n n' = (nodeType n' = nodeType n \<and> sourceArcs n' = sourceArcs n \<and> destinationArcs n' = destinationArcs n \<and>
     flag TRACE_HEAD n' = flag TRACE_HEAD n \<and> flag TRACE_TAIL n' = flag TRACE_TAIL n)"

lemma marked_alike:
  assumes al: "\<And>a. a \<in> set ns \<Longrightarrow> alike (m a) (m' a)" and R: "\<And>a b. (a, b) \<in> R \<Longrightarrow> a \<in> set ns" and mk: "marked ns m R"
  shows "marked ns m' R"
  unfolding marked_def
proof (intro conjI ballI allI impI)
  note al' = al [unfolded alike_def]
  fix a assume a: "a \<in> set ns"
  show "(a, destinationNode e) \<in> R" "arcType e = nodeType (m' a)" if "e \<in> set (destinationArcs (m' a))" "arcType e \<noteq> 0" for e
    using mk that a al' [OF a] unfolding marked_def by simp_all
  show "(sourceNode e, a) \<in> R" "arcType e = nodeType (m' a)" if "e \<in> set (sourceArcs (m' a))" "arcType e \<noteq> 0" for e
    using mk that a al' [OF a] unfolding marked_def by simp_all
next
  fix a b assume ab: "(a, b) \<in> R"
  then show "nodeType (m' a) \<noteq> 0" "\<exists>e\<in>set (destinationArcs (m' a)). destinationNode e = b \<and> arcType e = nodeType (m' a)"
    using mk al [OF R [OF ab]] unfolding marked_def alike_def by simp_all
qed

lemma traces_alike:
  assumes al: "\<And>a. a \<in> set ns \<Longrightarrow> alike (m a) (m' a)" and tr: "traces ns r m ts"
  shows "traces ns r m' ts"
proof -
  note tD = tracesD [OF tr]
  have c: "alike (m a) (m' a)" if "t \<in> set ts" "a \<in> set t" for t a using al tD(8) [OF that(1)] that(2) by auto
  have "nodeType (m' a) = nodeType (m a)" if "t \<in> set ts" "a \<in> set t" for t a using c [OF that] by (simp add: alike_def)
  then have "typed m' ts" using tD(3) unfolding typed_def by simp
  moreover have "\<forall>t\<in>set ts. ended m' True True t" using tD(9) c by (simp add: ended_def alike_def)
  moreover have "marked ns m' (all_links ts)"
    by (rule marked_alike [OF al _ tD(4)]) (use all_links_set tD(2) in blast)+
  ultimately show ?thesis using tr by (simp add: traces_def)
qed

lemma traces_cong: "(\<And>a. a \<in> set ns \<Longrightarrow> m' a = m a) \<Longrightarrow> traces ns r m ts \<Longrightarrow> traces ns r m' ts"
  by (rule traces_alike) (simp_all add: alike_def)

lemma best_head_wp:
  "wp (for_each (\<lambda>nn best. bnd (node_get nn) (\<lambda>n.
       if flag VISITED n then ret best else if \<not> flag TRACE_HEAD n then ret best
       else case best of None \<Rightarrow> ret (Some nn)
         | Some b \<Rightarrow> bnd (node_get b) (\<lambda>nb. ret (if nodeWeight n > nodeWeight nb then Some nn else best)))) xs None)
     (\<lambda>best h. h = g \<and> (case best of None \<Rightarrow> \<forall>x\<in>set xs. flag TRACE_HEAD (node_mem g x) \<longrightarrow> flag VISITED (node_mem g x)
       | Some b \<Rightarrow> b \<in> set xs \<and> flag TRACE_HEAD (node_mem g b) \<and> \<not> flag VISITED (node_mem g b))) g"
  (is "wp _ (?Q xs) g")
proof (rule wp_for_each [where I = "\<lambda>k. ?Q (take k xs)"])
  fix k best h assume k: "k < length xs" and I: "?Q (take k xs) best h"
  then show "wp (bnd (node_get (xs ! k)) (\<lambda>n. if flag VISITED n then ret best else if \<not> flag TRACE_HEAD n then ret best
       else case best of None \<Rightarrow> ret (Some (xs ! k))
         | Some b \<Rightarrow> bnd (node_get b) (\<lambda>nb. ret (if nodeWeight n > nodeWeight nb then Some (xs ! k) else best))))
     (?Q (take (Suc k) xs)) h"
    by (cases best) (auto simp: node_get_def take_Suc_conv_app_nth)
next
  show "?Q xs best h" if "?Q (take (length xs) xs) best h" for best h using that unfolding take_all [OF order.refl] .
qed simp

text \<open>\<open>tr\<close> gives the trace that a node of the graph of traces stands for.\<close>

definition stands :: "nat list \<Rightarrow> nat list list \<Rightarrow> (nat \<Rightarrow> nat list) \<Rightarrow> (nat \<Rightarrow> gnode) \<Rightarrow> bool" where
  "stands xs ts tr m = (bij_betw tr (set xs) (set ts) \<and> (\<forall>x\<in>set xs. nodeType (m (hd (tr x))) = nodeId (m x)))"

text \<open>
  The order so far: the nodes \<open>vs\<close> of the graph of traces have been visited, the traces \<open>d\<close> of that graph completely and the
  beginning \<open>p\<close> of another, which goes on with \<open>current\<close>.
\<close>

definition laying :: "nat \<Rightarrow> nat list list \<Rightarrow> nat list \<Rightarrow> nat list list \<Rightarrow> nat list \<Rightarrow> nat option \<Rightarrow> bool" where
  "laying x0 us vs d p current = (vs = concat d @ p \<and> distinct d \<and> set d \<subseteq> set us \<and>
     (if vs = [] then current = Some x0 else hd vs = x0) \<and>
     (case current of None \<Rightarrow> p = [] \<and> set d = set us | Some c \<Rightarrow> \<exists>u\<in>set us - set d. \<exists>q. u = p @ c # q))"

lemma laying_next:
  assumes us: "traces xs x0 m us" and L: "laying x0 us vs d p (Some c)"
  shows "c \<notin> set vs" "c \<in> set xs" "distinct (vs @ [c])" "set (vs @ [c]) \<subseteq> set xs"
    and "in_trace_arc (m c) = Some e \<Longrightarrow> laying x0 us (vs @ [c]) d (p @ [c]) (Some (destinationNode e))"
    and "in_trace_arc (m c) = None \<Longrightarrow> \<exists>d'. vs @ [c] = concat d' \<and> distinct d' \<and> set d' \<subseteq> set us \<and> hd (vs @ [c]) = x0"
proof -
  note uD = tracesD [OF us]
  obtain u q where u: "u \<in> set us" "u \<notin> set d" "u = p @ c # q" and vs: "vs = concat d @ p" and d: "distinct d" "set d \<subseteq> set us"
    and h: "if vs = [] then Some c = Some x0 else hd vs = x0"
    using L unfolding laying_def by auto
  have dis: "a \<notin> set (concat d)" if a: "a \<in> set u" for a
  proof
    assume "a \<in> set (concat d)"
    then obtain v where "v \<in> set d" "a \<in> set v" by auto
    then show False using uD(10) [OF u(1), of v a] d(2) a u(2) by auto
  qed
  have du: "distinct u" by (rule uD(7) [OF u(1)])
  have "distinct (concat d)"
    by (rule some_traces [OF us d])
  moreover have "distinct p" "c \<notin> set p" "set p \<subseteq> set u" "c \<in> set u" using du unfolding u(3) by auto
  ultimately show dv: "distinct (vs @ [c])" using dis unfolding vs by auto
  then show c: "c \<notin> set vs" by simp
  show "c \<in> set xs" using uD(8) [OF u(1)] u(3) by auto
  show "set (vs @ [c]) \<subseteq> set xs" using uD(8) u(1,3) d(2) by (fastforce simp: vs)
  have hd': "hd (vs @ [c]) = x0" using h by (cases vs) (auto split: if_splits)
  have st: "map_option destinationNode (in_trace_arc (m c)) = (case q of [] \<Rightarrow> None | c' # _ \<Rightarrow> Some c')"
    using trace_step [OF us u(1), of "length p"] u(3) by (auto simp: nth_append split: list.splits)
  show "laying x0 us (vs @ [c]) d (p @ [c]) (Some (destinationNode e))" if "in_trace_arc (m c) = Some e"
    using st that u d hd' vs by (auto simp: laying_def split: list.splits)
  show "\<exists>d'. vs @ [c] = concat d' \<and> distinct d' \<and> set d' \<subseteq> set us \<and> hd (vs @ [c]) = x0" if "in_trace_arc (m c) = None"
    using st that u d hd' vs by (intro exI [of _ "d @ [u]"]) (auto split: list.splits)
qed

lemma laying_bound:
  assumes tr: "traces ns r m ts" and st: "stands xs ts tr m" and ws: "distinct ws" "set ws \<subseteq> set xs"
  shows "length (concat (map tr ws)) \<le> length ns"
proof -
  note tD = tracesD [OF tr]
  have inj: "inj_on tr (set ws)" and sub: "tr ` set ws \<subseteq> set ts"
    using st ws(2) by (auto simp: stands_def bij_betw_def intro: inj_on_subset)
  have "distinct (concat (map tr ws))"
    by (rule some_traces [OF tr]) (use inj ws(1) sub in \<open>simp_all add: distinct_map\<close>)
  then have "length (concat (map tr ws)) = card (set (concat (map tr ws)))" by (rule distinct_card [symmetric])
  also have "\<dots> \<le> card (set ns)" by (rule card_mono) (use tD(8) sub in auto)
  finally show ?thesis using card_length [of ns] by linarith
qed

lemma lay_out_traces_wp:
  fixes g :: trace_lib
  assumes gr: "gnodes gr = ns" and ng: "gnodes ng = xs" "root ng = Some x0"
    and tr: "traces ns r (node_mem g) ts" and us: "traces xs x0 (node_mem g) us" and st: "stands xs ts tr (node_mem g)"
    and x0: "x0 \<in> set xs" and dis: "set xs \<inter> set ns = {}" and new: "\<forall>x\<in>set xs. \<not> flag VISITED (node_mem g x)" and len: "length ns \<le> MAX_GRAPH_SIZE"
  shows "wp (lay_out_traces gr ng) (\<lambda>ord h. \<exists>vs. h = g\<lparr>node_mem := visiting vs (node_mem g)\<rparr> \<and> ord = concat (map tr vs) \<and>
    distinct vs \<and> set vs = set xs \<and> hd vs = x0) g"
proof -
  let ?m = "node_mem g"
  note uD = tracesD [OF us] and tD = tracesD [OF tr]
  define I where "I = (\<lambda>(a :: nat option \<times> nat list) h. \<exists>vs d p. h = g\<lparr>node_mem := visiting vs ?m\<rparr> \<and> snd a = concat (map tr vs) \<and> laying x0 us vs d p (fst a))"
  have "wp (while_prog (\<lambda>r. fst r \<noteq> None) (\<lambda>r.
            bnd (need (fst r)) (\<lambda>current. bnd (node_get current) (\<lambda>n.
            if flag VISITED n then fail (Punt ''PlaceTraces: reached a VISITed node'')
            else bnd (raise_flag VISITED current) (\<lambda>_. bnd (find_head (gnodes gr) (nodeId n)) (\<lambda>ptr.
              case ptr of None \<Rightarrow> fail (Punt ''PlaceTraces: internal error (1)'')
              | Some head \<Rightarrow> bnd (lay_out_trace head (snd r)) (\<lambda>node_order. bnd (next_trace (gnodes ng) current) (\<lambda>current.
                  ret (current, node_order)))))))) (root ng, [])) (\<lambda>a h. I a h \<and> fst a = None) g"
  proof (rule wp_while_prog [where I = I and r = "measure (\<lambda>(a, h). length ns - length (snd a))"])
    obtain u where u: "u \<in> set us" and xu: "x0 \<in> set u" using uD(12) [OF x0] by blast
    have "x0 \<notin> set (tl u)" using uD(5) u by (simp add: entered_def)
    then have "u = [] @ x0 # tl u" using xu by (simp add: list.set_sel) (metis list.collapse list.set_sel(1) set_ConsD empty_iff list.set(1))
    then have "laying x0 us [] [] [] (Some x0)" using u unfolding laying_def by auto
    then show "I (root ng, []) g" unfolding I_def ng(2) by (intro exI [of _ "[]"]) simp
    fix a h assume "I a h" and b: "fst a \<noteq> None"
    then obtain vs d p c where h: "h = g\<lparr>node_mem := visiting vs ?m\<rparr>" and a: "fst a = Some c" "snd a = concat (map tr vs)" and L: "laying x0 us vs d p (Some c)"
      by (auto simp: I_def)
    note nx = laying_next [OF us L]
    let ?h = "g\<lparr>node_mem := visiting (vs @ [c]) ?m\<rparr>"
    have nv: "\<not> flag VISITED (node_mem h c)" using new nx(1,2) by (simp add: h)
    have same: "visiting (vs @ [c]) ?m a = ?m a" if "a \<in> set ns" for a using that nx(4) dis by (intro visiting_other) blast
    have tr': "traces ns r (node_mem ?h) ts" by (rule traces_cong [OF _ tr]) (simp add: same)
    have t: "tr c \<in> set ts" "nodeType (?m (hd (tr c))) = nodeId (?m c)" using st nx(2) by (auto simp: stands_def bij_betw_def)
    have "hd (tr c) \<in> set ns" using tD(6,8) [OF t(1)] by auto
    then have fh: "find (\<lambda>a. nodeType (node_mem ?h a) = nodeId (node_mem h c) \<and> flag TRACE_HEAD (node_mem ?h a)) ns = Some (hd (tr c))"
      using find_head_trace [OF tr' t(1)] t(2) same by (simp add: h)
    have bound: "length (concat (map tr (vs @ [c]))) \<le> length ns" by (rule laying_bound [OF tr st nx(3,4)])
    then have fits: "length (snd a) + length (tr c) \<le> MAX_GRAPH_SIZE" using len by (simp add: a(2))
    have ne: "tr c \<noteq> []" by (rule tD(6) [OF t(1)])
    let ?Q = "\<lambda>a' s'. I a' s' \<and> ((a', s'), a, h) \<in> measure (\<lambda>(a, h). length ns - length (snd a))"
    have good: "?Q (current, snd a @ tr c) ?h" if "laying x0 us (vs @ [c]) d' p' current" for d' p' current
    proof -
      have "I (current, snd a @ tr c) ?h" unfolding I_def using that a(2) by (intro exI [of _ "vs @ [c]"] exI [of _ d'] exI [of _ p']) simp
      then show ?thesis using bound ne a(2) by (cases "tr c") auto
    qed
    have go_on: "wp (next_trace xs c) (\<lambda>current h'. ?Q (current, snd a @ tr c) h') ?h"
    proof (cases "in_trace_arc (?m c)")
      case (Some e)
      then show ?thesis using good [OF nx(5) [OF Some]] by (simp add: next_trace_def node_get_def)
    next
      case None
      from nx(6) [OF this] obtain d' where d': "vs @ [c] = concat d'" "distinct d'" "set d' \<subseteq> set us" "hd (vs @ [c]) = x0" by blast
      have seen: "flag VISITED (node_mem ?h x) \<longleftrightarrow> x \<in> set (concat d')" if "x \<in> set xs" for x
        using new that unfolding d'(1) [symmetric] by simp
      have head: "\<exists>u. u \<in> set us \<and> b = hd u" if b: "b \<in> set xs" "flag TRACE_HEAD (?m b)" for b
      proof -
        obtain u where u: "u \<in> set us" "b \<in> set u" using uD(12) [OF b(1)] by blast
        then show ?thesis using uD(9) [OF u(1)] b(2) by (auto simp: ended_def)
      qed
      have to: "laying x0 us (vs @ [c]) d' [] best"
        if b: "case best of None \<Rightarrow> \<forall>x\<in>set xs. flag TRACE_HEAD (node_mem ?h x) \<longrightarrow> flag VISITED (node_mem ?h x)
          | Some b \<Rightarrow> b \<in> set xs \<and> flag TRACE_HEAD (node_mem ?h b) \<and> \<not> flag VISITED (node_mem ?h b)" for best
      proof (cases best)
        case None
        have "u \<in> set d'" if u: "u \<in> set us" for u
        proof -
          have hu: "hd u \<in> set u" "hd u \<in> set xs" using uD(6,8) [OF u] by auto
          then have "flag TRACE_HEAD (?m (hd u))" using uD(9) [OF u] by (simp add: ended_def)
          moreover have "\<forall>x\<in>set xs. flag TRACE_HEAD (node_mem ?h x) \<longrightarrow> flag VISITED (node_mem ?h x)" using b None by simp
          ultimately have "flag VISITED (node_mem ?h (hd u))" using hu(2) by simp
          then have "hd u \<in> set (concat d')" unfolding seen [OF hu(2)] .
          then obtain v where v: "v \<in> set d'" "hd u \<in> set v" by auto
          then show ?thesis using uD(10) [OF _ u v(2) hu(1)] d'(3) by auto
        qed
        then have "set d' = set us" using d'(3) by blast
        moreover have "vs @ [c] \<noteq> []" by simp
        ultimately show ?thesis unfolding laying_def None using d' by (simp only: append_Nil2 if_False option.case)
      next
        case (Some b)
        have b': "b \<in> set xs" "flag TRACE_HEAD (?m b)" "\<not> flag VISITED (node_mem ?h b)" using b Some by auto
        have nb: "b \<notin> set (concat d')" unfolding seen [OF b'(1), symmetric] by (rule b'(3))
        obtain u where u: "u \<in> set us" "b = hd u" using head [OF b'(1,2)] by blast
        then have "u \<notin> set d'" "u = [] @ b # tl u" using nb uD(6) [OF u(1)] by auto
        then have "\<exists>u\<in>set us - set d'. \<exists>q. u = [] @ b # q" using u(1) by blast
        moreover have "vs @ [c] \<noteq> []" by simp
        ultimately show ?thesis unfolding laying_def Some using d' by (simp only: append_Nil2 if_False option.case)
      qed
      have "wp (for_each (\<lambda>nn best. bnd (node_get nn) (\<lambda>n. if flag VISITED n then ret best else if \<not> flag TRACE_HEAD n then ret best
           else case best of None \<Rightarrow> ret (Some nn)
             | Some b \<Rightarrow> bnd (node_get b) (\<lambda>nb. ret (if nodeWeight n > nodeWeight nb then Some nn else best)))) xs None)
         (\<lambda>current h'. ?Q (current, snd a @ tr c) h') ?h"
        by (rule wp_mono [OF best_head_wp], elim conjE, hypsubst, rule good, rule to)
      then show ?thesis using None unfolding next_trace_def wp_bnd node_get_def wp_gets by simp
    qed
    have lay: "wp (lay_out_trace (hd (tr c)) (snd a)) (\<lambda>r h. h = ?h \<and> r = snd a @ tr c) ?h" by (rule lay_out_trace_wp [OF tr' t(1) fits])
    have "wp (bnd (lay_out_trace (hd (tr c)) (snd a)) (\<lambda>node_order. bnd (next_trace xs c) (\<lambda>current. ret (current, node_order)))) ?Q ?h"
      by (rule wp_seq [OF lay], elim conjE, hypsubst) (use go_on in simp)
    then show "wp (bnd (need (fst a)) (\<lambda>current. bnd (node_get current) (\<lambda>n.
            if flag VISITED n then fail (Punt ''PlaceTraces: reached a VISITed node'')
            else bnd (raise_flag VISITED current) (\<lambda>_. bnd (find_head (gnodes gr) (nodeId n)) (\<lambda>ptr.
              case ptr of None \<Rightarrow> fail (Punt ''PlaceTraces: internal error (1)'')
              | Some head \<Rightarrow> bnd (lay_out_trace head (snd a)) (\<lambda>node_order. bnd (next_trace (gnodes ng) current) (\<lambda>current.
                  ret (current, node_order)))))))) ?Q h"
      using nv fh visiting_snoc [OF nx(1), of ?m]
      by (simp add: need_def a(1) wp_ret_fun wp_node_get wp_raise_flag find_head_wp gr ng(1) h)
  qed auto
  then show ?thesis
    unfolding lay_out_traces_def
  proof (rule wp_seq)
    fix a h assume "I a h \<and> fst a = None"
    then obtain vs d p where h: "h = g\<lparr>node_mem := visiting vs ?m\<rparr>" "snd a = concat (map tr vs)" and L: "laying x0 us vs d p None"
      by (auto simp: I_def)
    then have vs: "vs = concat d" "distinct d" "set d = set us" "hd vs = x0" by (auto simp: laying_def split: if_splits)
    have "set vs = set xs" using uD(2) vs(1,3) by simp
    moreover have "distinct vs" unfolding vs(1) by (rule some_traces [OF us vs(2)]) (simp add: vs(3))
    ultimately show "wp (ret (snd a)) (\<lambda>ord h. \<exists>vs. h = g\<lparr>node_mem := visiting vs ?m\<rparr> \<and> ord = concat (map tr vs) \<and>
      distinct vs \<and> set vs = set xs \<and> hd vs = x0) h" using h vs(4) by auto
  qed
qed

end
