(* ===== verification/Trace_Placing.thy ===== *)
theory Trace_Placing
  imports Trace_Layout
begin

text \<open>
  The result of \<open>PlaceTraces\<close> and of \<open>TraceSelection\<close> in \<open>src/src/library/libflow/trace.c\<close>: the chain of the nodes of the graph is
  rearranged trace by trace, starting with the trace of the root.
\<close>

section \<open>The state of the library\<close>

definition trace_ok :: "trace_lib \<Rightarrow> bool" where
  "trace_ok g = (ext_ok g \<and> free_ok g \<and> within_top (node_mem g) (node_top g) \<and> (\<forall>x. \<not> is_marked (node_mem g x)))"

lemma out_ends: "out m a = snd ` ends (destinationArcs (m a))"
  by (simp add: out_def ends_def image_image)

lemma reach_paired: "paired xs m \<Longrightarrow> a \<in> set xs \<Longrightarrow> reach (out m) a \<subseteq> set xs"
  unfolding reach_def by (rule reach_in_sub) (auto simp: out_def dest: pairedD(1))

lemma trace_ok_kept:
  assumes ok: "trace_ok g" and h: "ext_ok h" "params h = params g" "\<And>a. is_marked (node_mem h a) \<Longrightarrow> is_marked (node_mem g a)"
    "\<And>a. ends (destinationArcs (node_mem h a)) = ends (destinationArcs (node_mem g a))"
  shows "trace_ok h" "in_use h = in_use g"
proof -
  have "out (node_mem h) = out (node_mem g)" using h(4) by (simp add: fun_eq_iff out_ends)
  then have "within_top (node_mem h) t = within_top (node_mem g) t" for t by (simp add: within_top_def)
  then show "trace_ok h" using ok h(1-3) by (auto simp: trace_ok_def free_ok_def params_def)
  show "in_use h = in_use g" using h(2) by (simp add: in_use_def params_def)
qed

lemma ext_ok_same:
  assumes "ext_ok g" "others h = others g" "n_others h = n_others g" "SetId h = SetId g" "OUT h = OUT g"
  shows "ext_ok h"
proof -
  have "doms h = doms g" using assms(2,3) by (simp add: doms_def fun_eq_iff)
  then show ?thesis using assms holds_same [of h g "doms g"] by (simp add: ext_ok_def)
qed

section \<open>From nodes of the graph of traces to traces\<close>

lemma stands_exists:
  assumes tr: "traces ns r m ts" and bij: "bij_betw id' (set xs) ((\<lambda>a. nodeType (m a)) ` set ns)"
  obtains tr where "bij_betw tr (set xs) (set ts)" "\<And>x. x \<in> set xs \<Longrightarrow> nodeType (m (hd (tr x))) = id' x"
proof -
  note tD = tracesD [OF tr]
  let ?f = "\<lambda>t. nodeType (m (hd t))"
  have hd: "hd t \<in> set t" if "t \<in> set ts" for t using tD(6) [OF that] by simp
  have "inj_on ?f (set ts)" using tD(3) hd by (auto simp: typed_def intro!: inj_onI)
  moreover have "?f ` set ts = (\<lambda>a. nodeType (m a)) ` set ns"
  proof
    show "?f ` set ts \<subseteq> (\<lambda>a. nodeType (m a)) ` set ns" using hd tD(8) by blast
    have "nodeType (m a) \<in> ?f ` set ts" if a: "a \<in> set ns" for a
    proof -
      obtain t where t: "t \<in> set ts" "a \<in> set t" using tD(12) [OF a] by blast
      then have "nodeType (m a) = ?f t" using tD(3) hd [OF t(1)] by (simp add: typed_def)
      then show ?thesis using t(1) by blast
    qed
    then show "(\<lambda>a. nodeType (m a)) ` set ns \<subseteq> ?f ` set ts" by blast
  qed
  ultimately have f: "bij_betw ?f (set ts) ((\<lambda>a. nodeType (m a)) ` set ns)" by (simp add: bij_betw_def)
  let ?tr = "inv_into (set ts) ?f \<circ> id'"
  have "bij_betw ?tr (set xs) (set ts)" using bij bij_betw_inv_into [OF f] by (rule bij_betw_trans)
  moreover have "?f (?tr x) = id' x" if "x \<in> set xs" for x
  proof -
    have "id' x \<in> ?f ` set ts" using f bij imageI [OF that, of id'] by (simp add: bij_betw_def)
    from f_inv_into_f [OF this] show ?thesis by simp
  qed
  ultimately show thesis using that by blast
qed

lemma traces_reorder:
  assumes "traces ns r m ts" "mset us = mset ts"
  shows "traces ns r m us"
proof -
  have "set us = set ts" by (rule mset_eq_setD [OF assms(2)])
  moreover have "distinct (concat us)"
    by (rule some_traces [OF assms(1)]) (use assms tracesD(11) [OF assms(1)] calculation mset_eq_imp_distinct_iff in auto)
  ultimately show ?thesis using assms(1) by (simp add: traces_def typed_def entered_def all_links_def)
qed

section \<open>Marks for the layout\<close>

definition unvisited :: "nat list \<Rightarrow> (nat \<Rightarrow> gnode) \<Rightarrow> nat \<Rightarrow> gnode" where
  "unvisited xs m a = (if a \<in> set xs then (m a)\<lparr>nodeStatus := nodeStatus (m a) AND NOT VISITED\<rparr> else m a)"

lemma unvisited_fields [simp]:
  "nodeId (unvisited xs m a) = nodeId (m a)" "outline (unvisited xs m a) = outline (m a)"
  "a \<in> set xs \<Longrightarrow> \<not> flag VISITED (unvisited xs m a)" "a \<notin> set xs \<Longrightarrow> unvisited xs m a = m a" "alike (m a) (unvisited xs m a)"
  by (simp_all add: unvisited_def alike_def)

lemma unvisited_Nil: "unvisited [] m = m"
  by (simp add: unvisited_def fun_eq_iff)

lemma clear_visited_wp: "wp (for_each (\<lambda>a _. clear_flag VISITED a) xs ()) (\<lambda>_ h. h = g\<lparr>node_mem := unvisited xs (node_mem g)\<rparr>) g"
proof (rule wp_for_each [where I = "\<lambda>k _ h. h = g\<lparr>node_mem := unvisited (take k xs) (node_mem g)\<rparr>"])
  show "g = g\<lparr>node_mem := unvisited (take 0 xs) (node_mem g)\<rparr>" by (simp add: unvisited_Nil)
  fix k u h assume k: "k < length xs" and h: "h = g\<lparr>node_mem := unvisited (take k xs) (node_mem g)\<rparr>"
  have "lowered VISITED (xs ! k) (unvisited (take k xs) (node_mem g)) = unvisited (take (Suc k) xs) (node_mem g)"
    using k by (auto simp: lowered_def unvisited_def take_Suc_conv_app_nth fun_eq_iff and.assoc)
  then show "wp (clear_flag VISITED (xs ! k)) (\<lambda>_ h. h = g\<lparr>node_mem := unvisited (take (Suc k) xs) (node_mem g)\<rparr>) h"
    by (simp add: wp_clear_flag h)
qed simp

lemma all_visited_wp:
  "\<forall>a\<in>set xs. flag VISITED (node_mem g a) \<Longrightarrow>
   wp (for_each (\<lambda>a _. bnd (node_get a) (\<lambda>n. if \<not> flag VISITED n then fail (Punt msg) else ret ())) xs ()) (\<lambda>_ h. h = g) g"
  by (rule wp_for_each [where I = "\<lambda>_ _ h. h = g"]) (auto simp: node_get_def)

lemma FreeGraph_wp:
  assumes "freeable (gnodes gr) g"
  shows "wp (FreeGraph (Some gr)) (\<lambda>_ h. \<exists>buf free. h = g\<lparr>nd_buf := buf, d_node_list := free\<rparr> \<and> free_ok h \<and> (\<forall>a as. gnodes gr = a # as \<longrightarrow>
    in_use h = in_use g - reach (out (node_mem g)) a)) g"
proof -
  obtain buf free where run: "FreeGraph (Some gr) g = Inr (None, g\<lparr>nd_buf := buf, d_node_list := free\<rparr>)"
    and f: "distinct free" "set free \<subseteq> {..<node_top g}" "in_use g - (\<Union>a\<in>set (take 1 (gnodes gr)). reach (out (node_mem g)) a) = {..<node_top g} - set free"
    by (rule FreeGraph_run [OF assms])
  have "free_ok (g\<lparr>nd_buf := buf, d_node_list := free\<rparr>)" using f(1,2) by (simp add: free_ok_def)
  moreover have "in_use (g\<lparr>nd_buf := buf, d_node_list := free\<rparr>) = in_use g - reach (out (node_mem g)) a" if "gnodes gr = a # as" for a as
    using f(3) that by (simp add: in_use_def)
  ultimately show ?thesis by (auto simp: wp_def run)
qed

section \<open>PlaceTraces\<close>

text \<open>The graph of traces just before its nodes are freed.\<close>

lemma placed_freeable:
  assumes ok: "trace_ok g" and xs: "grown g xs h" and mem: "\<And>a. a \<notin> set xs \<Longrightarrow> node_mem k a = node_mem g a"
    and top: "node_top k = node_top h" "d_node_list k = d_node_list h" and pr: "paired xs (node_mem k)"
    and um: "\<And>x. x \<in> set xs \<Longrightarrow> \<not> is_marked (node_mem k x)" and len: "length xs < MAX_GRAPH_SIZE"
  shows "freeable xs k" "within_top (node_mem k) (node_top k)" "\<not> is_marked (node_mem k x)"
proof -
  note gr = grownD [OF xs]
  have use: "in_use k = in_use g \<union> set xs" using gr(2) top by (simp add: in_use_def)
  have tops: "{..<node_top k} = {..<node_top g} \<union> set xs" using gr(3) top by simp
  have out_xs: "out (node_mem k) a \<subseteq> set xs" if "a \<in> set xs" for a using pr that by (auto simp: out_def dest: pairedD(1))
  show wt: "within_top (node_mem k) (node_top k)"
    unfolding within_top_def
  proof (intro allI impI)
    fix a assume a: "a < node_top k"
    show "out (node_mem k) a \<subseteq> {..<node_top k}"
    proof (cases "a \<in> set xs")
      case True
      then show ?thesis using out_xs [OF True] tops by blast
    next
      case False
      then have "a < node_top g" using a tops by auto
      then have "out (node_mem g) a \<subseteq> {..<node_top g}" using ok by (simp add: trace_ok_def within_top_def)
      moreover have "out (node_mem k) a = out (node_mem g) a" using mem [OF False] by (simp add: out_def)
      ultimately show ?thesis using tops by blast
    qed
  qed
  show no: "\<not> is_marked (node_mem k x)" for x using um mem [of x] ok by (cases "x \<in> set xs") (auto simp: trace_ok_def)
  have "reach (out (node_mem k)) a \<subseteq> in_use k \<and> card (reach (out (node_mem k)) a) < MAX_GRAPH_SIZE" if "xs = a # as" for a as
  proof -
    have r: "reach (out (node_mem k)) a \<subseteq> set xs" by (rule reach_paired [OF pr]) (simp add: that)
    then have "card (reach (out (node_mem k)) a) \<le> length xs" using card_mono [OF finite_set r] card_length [of xs] by linarith
    with r use len show ?thesis by auto
  qed
  moreover have "free_ok k" using gr(1) top by (simp add: free_ok_def)
  ultimately show "freeable xs k" using wt no by (simp add: freeable_def)
qed

lemma placed_order:
  assumes tr: "traces ns r m ts" and T: "bij_betw T (set xs) (set ts)" "nodeType (m (hd (T x0))) = nodeType (m r)"
    and vs: "distinct vs" "set vs = set xs" "hd vs = x0" and x0: "x0 \<in> set xs" and r: "r \<in> set ns"
  shows "mset (map T vs) = mset ts" "hd (hd (map T vs)) = r" "length (concat (map T vs)) \<le> length ns"
proof -
  note tD = tracesD [OF tr]
  have dT: "distinct (map T vs)" using T(1) vs(1,2) by (simp add: distinct_map bij_betw_def)
  have sT: "set (map T vs) = set ts" using T(1) vs(2) by (simp add: bij_betw_def)
  show "mset (map T vs) = mset ts" using dT sT tD(11) set_eq_iff_mset_eq_distinct by blast
  have "vs \<noteq> []" using x0 vs(2) by auto
  then have hd: "hd (map T vs) = T x0" using vs(3) by (simp add: hd_map)
  have t0: "T x0 \<in> set ts" using T(1) x0 by (auto simp: bij_betw_def)
  obtain t where t: "t \<in> set ts" "r \<in> set t" using tD(12) [OF r] by blast
  have "hd (T x0) \<in> set (T x0)" using tD(6) [OF t0] by simp
  then have "t = T x0" using tD(3) t t0 T(2) unfolding typed_def by metis
  moreover have "hd t = r" using tD(5,6) t by (metis entered_def list.collapse set_ConsD)
  ultimately show "hd (hd (map T vs)) = r" using hd by simp
  have "length (concat (map T vs)) = card (set (concat (map T vs)))"
    by (rule distinct_card [symmetric], rule some_traces [OF tr dT]) (simp only: sT order.refl)
  also have "set (concat (map T vs)) = set ns" using tD(2) sT by (simp only: set_concat)
  also have "card (set ns) \<le> length ns" by (rule card_length)
  finally show "length (concat (map T vs)) \<le> length ns" .
qed

theorem PlaceTraces_wp:
  assumes ok: "trace_ok g" and gr: "gnodes gr = ns" "root gr = Some r" and ns: "r \<in> set ns" "set ns \<subseteq> in_use g" "length ns < MAX_GRAPH_SIZE" "distinct ns"
    and pr: "paired ns (node_mem g)" and tr: "traces ns r (node_mem g) ts"
  shows "wp (PlaceTraces gr) (\<lambda>gr' h. \<exists>us. mset us = mset ts \<and> hd (hd us) = r \<and> gr' = gr\<lparr>gnodes := concat us\<rparr> \<and>
    trace_ok h \<and> in_use g \<subseteq> in_use h \<and> (\<forall>a\<in>in_use g. node_mem h a = node_mem g a)) g"
    (is "wp _ ?Q g")
proof -
  have ne: "gnodes gr \<noteq> []" using gr(1) ns(1) by auto
  have f: "free_ok g" and ext: "ext_ok g" using ok by (simp_all add: trace_ok_def)
  show ?thesis
    unfolding PlaceTraces_def using ne
  proof (simp only: if_False, intro wp_seq [OF trace_graph_wp [OF gr f ns(2) pr]], elim exE conjE)
    fix ng h1 h0 assume S: "supers ns r g ng h0" and N: "netted g (gnodes ng) h0 h1"
    let ?xs = "gnodes ng"
    have g1: "grown g ?xs h1" and p1: "paired ?xs (node_mem h1)" and ids: "\<And>x. x \<in> set ?xs \<Longrightarrow> nodeId (node_mem h1 x) = nodeId (node_mem h0 x)"
      using N by (auto simp: netted_def)
    have dx: "distinct ?xs" by (rule grownD(4) [OF g1])
    have bij: "bij_betw (\<lambda>x. nodeId (node_mem h0 x)) (set ?xs) ((\<lambda>a. nodeType (node_mem g a)) ` set ns)" using S by (simp add: supers_def)
    obtain x0 where x0: "root ng = Some x0" "x0 \<in> set ?xs" "nodeId (node_mem h0 x0) = nodeType (node_mem g r)"
      using S ns(1) by (auto simp: supers_def)
    have "length ?xs = card ((\<lambda>a. nodeType (node_mem g a)) ` set ns)" using distinct_card [OF dx] bij_betw_same_card [OF bij] by simp
    also have "\<dots> \<le> length ns" using card_image_le [OF finite_set, of "\<lambda>a. nodeType (node_mem g a)" ns] card_length [of ns] by linarith
    finally have lx: "length ?xs < MAX_GRAPH_SIZE" using ns(3) by simp
    let ?h2 = "h1\<lparr>best_successor_of := By_Arc_Weight, best_predecessor_of := By_Arc_Weight\<rparr>"
    have "others ?h2 = others g \<and> n_others ?h2 = n_others g \<and> SetId ?h2 = SetId g \<and> OUT ?h2 = OUT g"
      using g1 unfolding grown_def by (cases g; cases h1) auto
    then have e2: "ext_ok ?h2" by (intro ext_ok_same [OF ext]) auto
    have dis: "set ?xs \<inter> set ns = {}" using grownD(5) [OF g1] ns(2) by blast
    let ?rest = "\<lambda>node_order. bnd (for_each (\<lambda>a _. bnd (node_get a) (\<lambda>n.
        if \<not> flag VISITED n then fail (Punt ''PlaceTraces: missing some traces'') else ret ())) ?xs ()) (\<lambda>_.
        bnd (FreeGraph (Some ng)) (\<lambda>_. if length node_order \<ge> MAX_GRAPH_SIZE then fail Out_Of_Bounds
        else ret (gr\<lparr>gnodes := node_order\<rparr>)))"
    show "wp (bnd (modify (\<lambda>g. g\<lparr>best_successor_of := By_Arc_Weight, best_predecessor_of := By_Arc_Weight\<rparr>)) (\<lambda>_.
        bnd (SelectTraces ng) (\<lambda>_. bnd (for_each (\<lambda>a _. clear_flag VISITED a) ?xs ()) (\<lambda>_.
        bnd (lay_out_traces gr ng) ?rest)))) ?Q h1"
      unfolding wp_bnd [of "modify _"] wp_modify
    proof (rule wp_seq [OF SelectTraces_wp [OF e2 refl x0(1) dx x0(2) lx]], simp add: p1, elim exE conjE)
      fix h3 us
      assume e3: "ext_ok h3" and par: "params h3 = params ?h2" and p3: "paired ?xs (node_mem h3)"
        and ol: "\<forall>a. outline (node_mem h3 a) = outline (cleared ?xs (numbered ?xs (node_mem ?h2)) a)"
        and out3: "\<forall>a. a \<notin> set ?xs \<longrightarrow> node_mem h3 a = node_mem ?h2 a" and us: "traces ?xs x0 (node_mem h3) us"
      have mem3: "node_mem h3 a = node_mem g a" if "a \<notin> set ?xs" for a using out3 that grownD(6) [OF g1 that] by simp
      have top3: "node_top h3 = node_top h1" "d_node_list h3 = d_node_list h1" using par by (simp_all add: params_def)
      have id3: "nodeId (node_mem h3 x) = nodeId (node_mem h0 x)" if "x \<in> set ?xs" for x
        using outlineD(4) [OF ol [rule_format, of x]] ids [OF that] by (simp add: numbered_def)
      show "wp (bnd (for_each (\<lambda>a _. clear_flag VISITED a) ?xs ()) (\<lambda>_. bnd (lay_out_traces gr ng) ?rest)) ?Q h3"
      proof (rule wp_seq [OF clear_visited_wp], hypsubst)
        let ?h4 = "h3\<lparr>node_mem := unvisited ?xs (node_mem h3)\<rparr>"
        have mem4: "node_mem ?h4 a = node_mem g a" if "a \<notin> set ?xs" for a using mem3 [OF that] that by simp
        have away: "a \<notin> set ?xs" if "a \<in> set ns" for a using dis that by blast
        have tr4: "traces ns r (node_mem ?h4) ts" by (rule traces_cong [OF mem4 [OF away] tr])
        have us4: "traces ?xs x0 (node_mem ?h4) us" by (rule traces_alike [OF _ us]) simp
        obtain T where T: "bij_betw T (set ?xs) (set ts)" "\<And>x. x \<in> set ?xs \<Longrightarrow> nodeType (node_mem g (hd (T x))) = nodeId (node_mem h0 x)"
          using stands_exists [OF tr bij] by blast
        have T_ns: "hd (T x) \<in> set ns" if "x \<in> set ?xs" for x
          using bij_betwE [OF T(1)] that tracesD(6,8) [OF tr, of "T x"] by auto
        have st: "stands ?xs ts T (node_mem ?h4)"
          using T id3 mem4 [OF away [OF T_ns]] by (simp add: stands_def)
        have new: "\<forall>x\<in>set ?xs. \<not> flag VISITED (node_mem ?h4 x)" by simp
        show "wp (bnd (lay_out_traces gr ng) ?rest) ?Q ?h4"
        proof (rule wp_seq [OF lay_out_traces_wp [OF gr(1) refl x0(1) tr4 us4 st x0(2) dis new less_imp_le [OF ns(3)]]], elim exE conjE)
          fix ord h5 vs assume h5: "h5 = ?h4\<lparr>node_mem := visiting vs (node_mem ?h4)\<rparr>" and ord: "ord = concat (map T vs)"
            and vs: "distinct vs" "set vs = set ?xs" "hd vs = x0"
          have mem5: "node_mem h5 a = node_mem g a" if "a \<notin> set ?xs" for a using mem4 [OF that] that vs(2) by (simp add: h5 visiting_other)
          have ol5: "outline (node_mem h5 a) = outline (node_mem h3 a)" for a by (simp add: h5)
          have p5: "paired ?xs (node_mem h5)" by (rule paired_outline [OF ol5 p3])
          have um: "\<not> is_marked (node_mem h5 x)" if "x \<in> set ?xs" for x
            using outlineD(1) [OF ol5 [of x]] outlineD(1) [OF ol [rule_format, of x]] that by simp
          have top5: "node_top h5 = node_top h1" "d_node_list h5 = d_node_list h1" using top3 by (simp_all add: h5)
          have fr: "freeable ?xs h5" "within_top (node_mem h5) (node_top h5)" "\<And>x. \<not> is_marked (node_mem h5 x)"
            by (rule placed_freeable [OF ok g1 _ top5 p5 _ lx]; simp add: mem5 um)+
          have seen: "\<forall>x\<in>set ?xs. flag VISITED (node_mem h5 x)" using vs(2) by (simp add: h5)
          note po = placed_order [OF tr T(1) _ vs x0(2) ns(1)]
          have x0t: "nodeType (node_mem g (hd (T x0))) = nodeType (node_mem g r)" using T(2) [OF x0(2)] x0(3) by simp
          have "wp (bnd (FreeGraph (Some ng)) (\<lambda>_. if length ord \<ge> MAX_GRAPH_SIZE then fail Out_Of_Bounds else ret (gr\<lparr>gnodes := ord\<rparr>))) ?Q h5"
          proof (rule wp_seq [OF FreeGraph_wp [OF fr(1)]], elim exE conjE)
            fix k buf free assume k: "k = h5\<lparr>nd_buf := buf, d_node_list := free\<rparr>" and fk: "free_ok k"
              and use: "\<forall>a as. ?xs = a # as \<longrightarrow> in_use k = in_use h5 - reach (out (node_mem h5)) a"
            have "ext_ok k" by (rule ext_ok_same [OF e3]) (simp_all add: k h5)
            then have "trace_ok k" using fk fr(2,3) by (simp add: trace_ok_def k)
            moreover have "in_use g \<subseteq> in_use k"
            proof -
              obtain a as where a: "?xs = a # as" using x0(2) by (cases ?xs) auto
              have "reach (out (node_mem h5)) a \<subseteq> set ?xs" by (rule reach_paired [OF p5]) (simp add: a)
              moreover have "in_use h5 = in_use g \<union> set ?xs" using grownD(2) [OF g1] top5 by (simp add: in_use_def)
              ultimately show ?thesis using use a grownD(5) [OF g1] by blast
            qed
            moreover have "\<forall>a\<in>in_use g. node_mem k a = node_mem g a" using mem5 grownD(7) [OF g1] by (simp add: k)
            moreover have "length ord < MAX_GRAPH_SIZE" using po(3) [OF x0t] ns(3) by (simp add: ord)
            ultimately show "wp (if length ord \<ge> MAX_GRAPH_SIZE then fail Out_Of_Bounds else ret (gr\<lparr>gnodes := ord\<rparr>)) ?Q k"
              using po(1,2) [OF x0t] by (simp add: ord) (intro exI [of _ "map T vs"], simp)
          qed
          note fin = this
          show "wp (?rest ord) ?Q h5" by (rule wp_seq [OF all_visited_wp [OF seen]]) (simp only: fin)
        qed
      qed
    qed
  qed
qed

section \<open>TraceSelection\<close>

text \<open>What a selection leaves of a node: all but the types, the flags and the extension.\<close>

definition drawn :: "gnode \<Rightarrow> int \<times> rat \<times> (rat \<times> nat \<times> nat) list \<times> (rat \<times> nat \<times> nat) list" where
  "drawn n = (nodeId n, nodeWeight n, map untyped (sourceArcs n), map untyped (destinationArcs n))"

lemma drawn_outline: "outline n = outline n' \<Longrightarrow> drawn n = drawn n'"
  by (simp add: outline_def drawn_def)

lemma drawn_cleared [simp]: "drawn (cleared ns m a) = drawn (m a)" "drawn (numbered ns m a) = drawn (m a)"
  by (auto simp: drawn_def cleared_def numbered_def untyped_def)

definition selected :: "nat list \<Rightarrow> nat \<Rightarrow> trace_lib \<Rightarrow> nat list list \<Rightarrow> trace_lib \<Rightarrow> bool" where
  "selected ns r g ts h = (trace_ok h \<and> in_use h = in_use g \<and> paired ns (node_mem h) \<and> (\<forall>a. drawn (node_mem h a) = drawn (node_mem g a)) \<and>
     (\<forall>a. a \<notin> set ns \<longrightarrow> node_mem h a = node_mem g a) \<and> traces ns r (node_mem h) ts \<and> looped ns (node_mem h) ts)"

lemma selectedI:
  assumes ok: "trace_ok g" and h: "ext_ok h" "params h = params g" "paired ns (node_mem h)"
    "\<And>a. outline (node_mem h a) = outline (cleared ns m a)" "\<And>a. a \<notin> set ns \<Longrightarrow> node_mem h a = node_mem g a"
    "traces ns r (node_mem h) ts" "looped ns (node_mem h) ts"
    and m: "\<And>a. drawn (m a) = drawn (node_mem g a)" "\<And>a. ends (destinationArcs (m a)) = ends (destinationArcs (node_mem g a))"
  shows "selected ns r g ts h"
proof -
  have "is_marked (node_mem g a)" if "is_marked (node_mem h a)" for a
    using that outlineD(1) [OF h(4) [of a]] h(5) [of a] by (cases "a \<in> set ns") auto
  moreover have "ends (destinationArcs (node_mem h a)) = ends (destinationArcs (node_mem g a))" for a
    using ends_outline(2) [OF h(4) [of a]] m(2) by simp
  ultimately have "trace_ok h" "in_use h = in_use g" using trace_ok_kept [OF ok h(1,2)] by blast+
  moreover have "drawn (node_mem h a) = drawn (node_mem g a)" for a using drawn_outline [OF h(4) [of a]] m(1) by simp
  ultimately show ?thesis using h(3,5-7) by (simp add: selected_def)
qed

lemma SelectTraces_selected:
  assumes ok: "trace_ok g" and gr: "gnodes gr = ns" "root gr = Some r" and ns: "distinct ns" "r \<in> set ns" "length ns < MAX_GRAPH_SIZE"
    and pr: "paired ns (node_mem g)"
  shows "wp (SelectTraces gr) (\<lambda>_ h. \<exists>ts. selected ns r g ts h) g"
proof -
  have "ext_ok g" using ok by (simp add: trace_ok_def)
  from SelectTraces_wp [OF this gr ns pr] show ?thesis
  proof (rule wp_mono, elim exE conjE)
    fix u h ts assume h: "ext_ok h" "params h = params g" "paired ns (node_mem h)"
      "\<forall>a. outline (node_mem h a) = outline (cleared ns (numbered ns (node_mem g)) a)" "\<forall>a. a \<notin> set ns \<longrightarrow> node_mem h a = node_mem g a"
      "traces ns r (node_mem h) ts" "looped ns (node_mem h) ts"
    have "selected ns r g ts h" by (rule selectedI [OF ok h(1-3) h(4) [rule_format] _ h(6,7)]) (use h(5) in simp_all)
    then show "\<exists>ts. selected ns r g ts h" by blast
  qed
qed

lemma SelectBySortArc_selected:
  assumes ok: "trace_ok g" and gr: "gnodes gr = ns" "root gr = Some r" and ns: "distinct ns" "length ns < MAX_GRAPH_SIZE"
    and arcs: "length (cell_list ns (node_mem g)) < MAX_SIZE" and pr: "paired ns (node_mem g)"
  shows "wp (SelectBySortArc gr) (\<lambda>_ h. \<exists>ts. selected ns r g ts h \<and> maximal r (node_mem h) ts) g"
  using SelectBySortArc_wp [OF gr ns arcs pr]
proof (rule wp_mono, elim exE conjE)
  let ?g = "g\<lparr>node_mem := cleared ns (node_mem g)\<rparr>"
  fix u h ts assume mv: "moved ns ?g h" and ts: "traces ns r (node_mem h) ts" "looped ns (node_mem h) ts" "maximal r (node_mem h) ts"
  note fs = moved_fields [OF mv]
  have "ext_ok h" by (rule ext_ok_same [of g]) (use ok fs in \<open>simp_all add: trace_ok_def\<close>)
  moreover have "params h = params g" using fs(3) by (simp add: params_def)
  moreover have "paired ns (node_mem h)" by (rule moved_paired [OF mv]) (simp add: paired_cleared pr)
  moreover have "outline (node_mem h a) = outline (cleared ns (node_mem g) a)" for a using mv by (simp add: moved_def)
  moreover have "node_mem h a = node_mem g a" if "a \<notin> set ns" for a using mv that by (simp add: moved_def)
  ultimately have "selected ns r g ts h" by (intro selectedI [OF ok]) (use ts in simp_all)
  then show "\<exists>ts. selected ns r g ts h \<and> maximal r (node_mem h) ts" using ts(3) by blast
qed

lemma looped_cong:
  assumes "traces ns r m ts" "\<And>a. a \<in> set ns \<Longrightarrow> m' a = m a" "set us = set ts"
  shows "looped ns m' us = looped ns m ts" "maximal r m' us = maximal r m ts"
proof -
  have "succs m' (last t) = succs m (last t)" if t: "t \<in> set ts" for t
  proof -
    have "last t \<in> set ns" using tracesD(6,8) [OF assms(1) t] by auto
    then show ?thesis using assms(2) by (simp add: succs_def)
  qed
  then show "looped ns m' us = looped ns m ts" "maximal r m' us = maximal r m ts"
    using assms(2,3) by (simp_all add: looped_def maximal_def cong: conj_cong ball_cong bex_cong)
qed

text \<open>The outcome: the chain of the graph lists the traces one after the other, the one of the root first.\<close>

definition arranged :: "nat list \<Rightarrow> nat \<Rightarrow> trace_lib \<Rightarrow> FGraph \<Rightarrow> nat list list \<Rightarrow> FGraph \<Rightarrow> trace_lib \<Rightarrow> bool" where
  "arranged ns r g gr us gr' h = (gr' = gr\<lparr>gnodes := concat us\<rparr> \<and> traces ns r (node_mem h) us \<and> hd (hd us) = r \<and> looped ns (node_mem h) us \<and>
     trace_ok h \<and> in_use g \<subseteq> in_use h \<and> (\<forall>a\<in>in_use g. drawn (node_mem h a) = drawn (node_mem g a)) \<and>
     (\<forall>a\<in>in_use g - set ns. node_mem h a = node_mem g a))"

lemma selected_placed:
  assumes sel: "selected ns r g ts k" and gr: "gnodes gr = ns" "root gr = Some r"
    and ns: "r \<in> set ns" "set ns \<subseteq> in_use g" "length ns < MAX_GRAPH_SIZE" "distinct ns"
  shows "wp (PlaceTraces gr) (\<lambda>gr' h. \<exists>us. arranged ns r g gr us gr' h \<and> maximal r (node_mem h) us = maximal r (node_mem k) ts) k"
proof -
  have k: "trace_ok k" "in_use k = in_use g" "paired ns (node_mem k)" "traces ns r (node_mem k) ts" "looped ns (node_mem k) ts"
    "\<And>a. drawn (node_mem k a) = drawn (node_mem g a)" "\<And>a. a \<notin> set ns \<Longrightarrow> node_mem k a = node_mem g a"
    using sel by (simp_all add: selected_def)
  from PlaceTraces_wp [OF k(1) gr ns(1) ns(2) [folded k(2)] ns(3,4) k(3,4)] show ?thesis
  proof (rule wp_mono, elim exE conjE)
    fix gr' h us assume us: "mset us = mset ts" "hd (hd us) = r" "gr' = gr\<lparr>gnodes := concat us\<rparr>" and h: "trace_ok h" "in_use k \<subseteq> in_use h"
      and mem: "\<forall>a\<in>in_use k. node_mem h a = node_mem k a"
    have same: "node_mem h a = node_mem k a" if "a \<in> set ns" for a using mem ns(2) k(2) that by auto
    have "traces ns r (node_mem h) us" by (rule traces_reorder [OF traces_cong [OF same k(4)] us(1)])
    moreover note lp = looped_cong [OF k(4) same mset_eq_setD [OF us(1)]]
    ultimately show "\<exists>us. arranged ns r g gr us gr' h \<and> maximal r (node_mem h) us = maximal r (node_mem k) ts"
      using us h mem k unfolding arranged_def by (intro exI [of _ us]) simp
  qed
qed

theorem TraceSelection_wp:
  assumes ok: "trace_ok g" and gr: "gnodes gr = ns" "root gr = Some r"
    and ns: "distinct ns" "r \<in> set ns" "set ns \<subseteq> in_use g" "length ns < MAX_GRAPH_SIZE" and pr: "paired ns (node_mem g)"
    and p: "0 \<le> p" "p \<le> 1" and meth: "meth \<in> {SELECT_BY_NODE_WEIGHT, SELECT_BY_ARC_WEIGHT, SELECT_BY_MIN_PROB, SELECT_BY_MAX_ARC}"
    and arcs: "meth = SELECT_BY_MAX_ARC \<Longrightarrow> length (cell_list ns (node_mem g)) < MAX_SIZE"
  shows "wp (TraceSelection (Some gr) meth p) (\<lambda>gr' h. \<exists>us. arranged ns r g gr us gr' h \<and>
    (meth = SELECT_BY_MAX_ARC \<longrightarrow> maximal r (node_mem h) us)) g"
proof -
  have two: "wp (select_with sel q gr) (\<lambda>gr' h. \<exists>us. arranged ns r g gr us gr' h) g" for sel q
  proof -
    let ?g = "g\<lparr>best_successor_of := sel, best_predecessor_of := sel, min_prob_requirement := q\<rparr>"
    have "ext_ok ?g" by (rule ext_ok_same [of g]) (use ok in \<open>simp_all add: trace_ok_def\<close>)
    then have ok': "trace_ok ?g" using ok by (simp add: trace_ok_def free_ok_def)
    have use: "in_use ?g = in_use g" by (simp add: in_use_def)
    have pr': "paired ns (node_mem ?g)" using pr by simp
    have eq: "arranged ns r ?g gr us gr' h = arranged ns r g gr us gr' h" for us gr' h by (simp add: arranged_def use)
    have "wp (bnd (SelectTraces gr) (\<lambda>_. PlaceTraces gr)) (\<lambda>gr' h. \<exists>us. arranged ns r ?g gr us gr' h) ?g"
    proof (rule wp_seq [OF SelectTraces_selected [OF ok' gr ns(1,2,4) pr']], elim exE)
      fix u k ts assume "selected ns r ?g ts k"
      from selected_placed [OF this gr ns(2) ns(3) [folded use] ns(4,1)]
      show "wp (PlaceTraces gr) (\<lambda>gr' h. \<exists>us. arranged ns r ?g gr us gr' h) k" by (rule wp_mono) blast
    qed
    then show ?thesis unfolding eq by (simp add: select_with_def)
  qed
  have arc: "wp (bnd (SelectBySortArc gr) (\<lambda>_. PlaceTraces gr)) (\<lambda>gr' h. \<exists>us. arranged ns r g gr us gr' h \<and> maximal r (node_mem h) us) g"
    if "meth = SELECT_BY_MAX_ARC"
  proof (rule wp_seq [OF SelectBySortArc_selected [OF ok gr ns(1,4) arcs [OF that] pr]], elim exE conjE)
    fix u k ts assume "selected ns r g ts k" "maximal r (node_mem k) ts"
    with selected_placed [OF this(1) gr ns(2,3,4,1)]
    show "wp (PlaceTraces gr) (\<lambda>gr' h. \<exists>us. arranged ns r g gr us gr' h \<and> maximal r (node_mem h) us) k" by (auto elim: wp_mono)
  qed
  note codes = SELECT_BY_NODE_WEIGHT_def SELECT_BY_ARC_WEIGHT_def SELECT_BY_MIN_PROB_def SELECT_BY_MAX_ARC_def
  from meth consider "meth = 0" | "meth = 1" | "meth = 2" | "meth = 3" by (auto simp: codes)
  then show ?thesis
    using p two arc by cases (simp_all add: TraceSelection_def codes)
qed

end
