(* ===== verification/Trace_Report.thy ===== *)
theory Trace_Report
  imports Trace_Placing "HOL-Library.Sublist"
begin

text \<open>
  The report on a selection, \<open>ReportSelectionResult\<close> in \<open>src/src/library/libflow/trace.c\<close>: its entries are rounded sums over the arcs, the nodes
  and the traces in the order of the chain. After the nodes have been rearranged the sequential transitions include the transitions
  inside of traces, so their sum is not smaller, whatever the rounding.
\<close>

section \<open>Rounded sums\<close>

text \<open>
  What is used of the arithmetic of the machine: rounding is monotone, a rounded number stays as it is, and the whole numbers up to
  \<open>2 ^ 53\<close> are numbers of type \<open>double\<close>. The sums stay within the range of the type.
\<close>

definition rounding :: "(rat \<Rightarrow> rat) \<Rightarrow> bool" where
  "rounding fl \<longleftrightarrow> mono fl \<and> (\<forall>x. fl (fl x) = fl x) \<and> (\<forall>n \<le> 2 ^ 53. fl (of_nat n) = of_nat n)"

definition add_up :: "(rat \<Rightarrow> rat) \<Rightarrow> rat \<Rightarrow> rat list \<Rightarrow> rat" where
  "add_up fl s ws = foldl (\<lambda>s w. fl (s + w)) s ws"

lemma add_up_simps [simp]:
  "add_up fl s [] = s" "add_up fl s (w # ws) = add_up fl (fl (s + w)) ws" "add_up fl s (ws @ vs) = add_up fl (add_up fl s ws) vs"
  by (simp_all add: add_up_def)

lemma add_up_whole:
  assumes "rounding fl" "k + sum_list ks \<le> 2 ^ 53"
  shows "add_up fl (of_nat k) (map of_nat ks) = of_nat (k + sum_list ks)"
  using assms(2)
proof (induction ks arbitrary: k)
  case (Cons n ks)
  have "fl (of_nat (k + n)) = of_nat (k + n)" using assms(1) Cons.prems by (simp add: rounding_def del: of_nat_add)
  then show ?case using Cons.IH [of "k + n"] Cons.prems by simp
qed simp

lemma add_up_count: "rounding fl \<Longrightarrow> k + length xs \<le> 2 ^ 53 \<Longrightarrow> add_up fl (of_nat k) (map (\<lambda>_. 1) xs) = of_nat (k + length xs)"
  using add_up_whole [of fl k "map (\<lambda>_. 1) xs"] by (simp add: sum_list_triv comp_def)

lemma add_up_exact:
  assumes "rounding fl" "set ws \<subseteq> \<nat>" "sum_list ws \<le> 2 ^ 53"
  shows "add_up fl 0 ws = sum_list ws"
proof -
  obtain ks :: "nat list" where ws: "ws = map of_nat ks"
    using assms(2) by (induction ws) (auto simp: Nats_def Cons_eq_map_conv)
  have sum: "sum_list ws = of_nat (sum_list ks)" unfolding ws by (induction ks) simp_all
  then have "rat_of_nat (sum_list ks) \<le> rat_of_nat (2 ^ 53)" using assms(3) by simp
  then have "0 + sum_list ks \<le> 2 ^ 53" unfolding of_nat_le_iff by simp
  from add_up_whole [OF assms(1) this] show ?thesis by (simp add: ws sum [unfolded ws])
qed

lemma rounding_grows: "rounding fl \<Longrightarrow> fl t = t \<Longrightarrow> 0 \<le> y \<Longrightarrow> t \<le> fl (t + y)"
  unfolding rounding_def by (metis add_increasing2 monoD order_refl)

lemma add_up_subseq:
  assumes fl: "rounding fl" and sub: "subseq xs ys" "\<forall>y\<in>set ys. 0 \<le> y" and s: "s \<le> t" "fl t = t"
  shows "add_up fl s xs \<le> add_up fl t ys"
  using sub s
proof (induction arbitrary: s t rule: list_emb.induct)
  case (list_emb_Nil ys)
  then show ?case
  proof (induction ys arbitrary: t)
    case (Cons y ys)
    have "t \<le> fl (t + y)" by (rule rounding_grows [OF fl]) (use Cons.prems in auto)
    then have "add_up fl s [] \<le> add_up fl (fl (t + y)) ys" by (intro Cons.IH) (use Cons.prems fl in \<open>auto simp: rounding_def\<close>)
    then show ?case by simp
  qed simp
next
  case (list_emb_Cons xs ys y)
  have "t \<le> fl (t + y)" by (rule rounding_grows [OF fl]) (use list_emb_Cons.prems in auto)
  then have "add_up fl s xs \<le> add_up fl (fl (t + y)) ys"
    by (intro list_emb_Cons.IH) (use list_emb_Cons.prems fl in \<open>auto simp: rounding_def\<close>)
  then show ?case by simp
next
  case (list_emb_Cons2 x y xs ys)
  have "fl (s + x) \<le> fl (t + y)" using list_emb_Cons2.hyps list_emb_Cons2.prems fl by (simp add: rounding_def monoD)
  then have "add_up fl (fl (s + x)) xs \<le> add_up fl (fl (t + y)) ys"
    by (intro list_emb_Cons2.IH) (use list_emb_Cons2.prems fl in \<open>auto simp: rounding_def\<close>)
  then show ?case by simp
qed

section \<open>The weights of arcs\<close>

definition arc_weights :: "(arc \<Rightarrow> bool) \<Rightarrow> (nat \<Rightarrow> gnode) \<Rightarrow> nat list \<Rightarrow> rat list" where
  "arc_weights P m ns = concat (map (\<lambda>a. map arcWeight (filter P (destinationArcs (m a)))) ns)"

lemma arc_weights_simps [simp]:
  "arc_weights P m [] = []" "arc_weights P m (a # ns) = map arcWeight (filter P (destinationArcs (m a))) @ arc_weights P m ns"
  by (simp_all add: arc_weights_def)

lemma wp_for_each_ret: "wp (for_each (\<lambda>x a. ret (f x a)) xs a) Q s = Q (fold f xs a) s"
  by (induction xs arbitrary: a) simp_all

text \<open>The weights of the arcs from each node to the next one of the chain.\<close>

fun chain_weights :: "(nat \<Rightarrow> gnode) \<Rightarrow> nat list \<Rightarrow> rat list" where
  "chain_weights m (a # b # ns) = map arcWeight (filter (\<lambda>e. destinationNode e = b) (destinationArcs (m a))) @ chain_weights m (b # ns)"
| "chain_weights m _ = []"

lemma sequential_weight_wp:
  "wp (sequential_weight fl ns mx) Q g = Q (mx\<lparr>W_SEQUENTIAL := add_up fl (W_SEQUENTIAL mx) (chain_weights (node_mem g) ns)\<rparr>) g"
proof (induction "node_mem g" ns arbitrary: mx rule: chain_weights.induct)
  case (1 a b ns)
  have "fold (\<lambda>e mx. if destinationNode e = b then mx\<lparr>W_SEQUENTIAL := fl (W_SEQUENTIAL mx + arcWeight e)\<rparr> else mx) es mx =
    mx\<lparr>W_SEQUENTIAL := add_up fl (W_SEQUENTIAL mx) (map arcWeight (filter (\<lambda>e. destinationNode e = b) es))\<rparr>" for es :: "arc list" and mx :: matrix
    by (induction es arbitrary: mx) simp_all
  then show ?case by (simp add: wp_node_get wp_for_each_ret 1)
qed simp_all

lemma all_links_concat: "[] \<notin> set ts \<Longrightarrow> all_links ts \<subseteq> links (concat ts)"
proof (induction ts)
  case (Cons t ts)
  show ?case
  proof (cases "concat ts = []")
    case True
    then have "ts = []" using Cons.prems by (cases ts) auto
    then show ?thesis by (simp add: all_links_def)
  next
    case False
    then show ?thesis using Cons links_append [of t "concat ts"] by (auto simp: all_links_def)
  qed
qed (simp add: all_links_def)

lemma subseq_weights:
  assumes "\<And>e. e \<in> set es \<Longrightarrow> P e \<Longrightarrow> R e"
  shows "subseq (map arcWeight (filter P es)) (map arcWeight (filter R es))"
proof -
  have "filter P es = filter P (filter R es)" using assms by (induction es) auto
  then show ?thesis by (metis subseq_filter_left subseq_map)
qed

lemma subseq_arc_weights: "subseq (arc_weights P m ns) (arc_weights (\<lambda>_. True) m ns)"
  by (induction ns) (auto intro!: list_emb_append_mono subseq_weights [where R = "\<lambda>_. True", simplified])

lemma subseq_chain_weights: "subseq (chain_weights m ns) (arc_weights (\<lambda>_. True) m ns)"
  by (induction m ns rule: chain_weights.induct) (auto intro!: list_emb_append_mono subseq_weights [where R = "\<lambda>_. True", simplified])

lemma subseq_in_chain:
  assumes "distinct ns" "\<forall>a\<in>set ns. \<forall>e\<in>set (destinationArcs (m a)). arcType e \<noteq> 0 \<longrightarrow> (a, destinationNode e) \<in> links ns"
  shows "subseq (arc_weights (\<lambda>e. arcType e \<noteq> 0) m ns) (chain_weights m ns)"
  using assms
proof (induction m ns rule: chain_weights.induct)
  case (1 m a b ns)
  have links: "links (a # b # ns) = insert (a, b) (links (b # ns))" using links_append [of "[a]" "b # ns"] by simp
  have na: "(a, c) \<notin> links (b # ns)" for c using 1(2) links_set [of a c "b # ns"] by auto
  have "subseq (map arcWeight (filter (\<lambda>e. arcType e \<noteq> 0) (destinationArcs (m a)))) (map arcWeight (filter (\<lambda>e. destinationNode e = b) (destinationArcs (m a))))"
    by (rule subseq_weights) (use 1(3) na in \<open>auto simp: links\<close>)
  moreover have "subseq (arc_weights (\<lambda>e. arcType e \<noteq> 0) m (b # ns)) (chain_weights m (b # ns))"
  proof (rule 1(1))
    show "\<forall>x\<in>set (b # ns). \<forall>e\<in>set (destinationArcs (m x)). arcType e \<noteq> 0 \<longrightarrow> (x, destinationNode e) \<in> links (b # ns)"
      using 1(2,3) by (auto simp: links)
  qed (use 1(2) in simp)
  ultimately show ?case using list_emb_append_mono by (metis arc_weights_simps(2) chain_weights.simps(1))
qed (auto simp: filter_empty_conv)

section \<open>Transitions\<close>

abbreviation in_trace :: "arc \<Rightarrow> bool" where
  "in_trace e \<equiv> arcType e \<noteq> 0"

definition from_to :: "(nat \<Rightarrow> gnode) \<Rightarrow> bool \<Rightarrow> bool \<Rightarrow> arc \<Rightarrow> bool" where
  "from_to m tail head e = (arcType e = 0 \<and> flag TRACE_TAIL (m (sourceNode e)) = tail \<and> flag TRACE_HEAD (m (destinationNode e)) = head)"

definition back_edge :: "(nat \<Rightarrow> gnode) \<Rightarrow> arc \<Rightarrow> bool" where
  "back_edge m e = (from_to m True True e \<and> nodeType (m (sourceNode e)) = nodeType (m (destinationNode e)))"

definition add_transitions :: "(rat \<Rightarrow> rat) \<Rightarrow> ((arc \<Rightarrow> bool) \<Rightarrow> rat list) \<Rightarrow> (nat \<Rightarrow> gnode) \<Rightarrow> matrix \<Rightarrow> matrix" where
  "add_transitions fl w m mx = mx\<lparr>W_A := add_up fl (W_A mx) (w (from_to m True True)), W_B := add_up fl (W_B mx) (w (from_to m True False)),
     W_C := add_up fl (W_C mx) (w (from_to m False True)), W_D := add_up fl (W_D mx) (w (from_to m False False)), W_E := add_up fl (W_E mx) (w in_trace),
     W_BACK_EDGE := add_up fl (W_BACK_EDGE mx) (w (back_edge m))\<rparr>"

lemma add_transitions_zero: "add_transitions fl (\<lambda>_. []) m mx = mx"
  by (simp add: add_transitions_def)

lemma add_transitions_add: "add_transitions fl w m (add_transitions fl v m mx) = add_transitions fl (\<lambda>P. v P @ w P) m mx"
  by (cases mx) (simp add: add_transitions_def)

lemma measure_arc_wp:
  assumes "in_trace e \<Longrightarrow> arcType e = nodeType n"
  shows "wp (measure_arc fl n e mx) Q g = Q (add_transitions fl (\<lambda>P. if P e then [arcWeight e] else []) (node_mem g) mx) g"
proof (cases "in_trace e")
  case True
  then have "\<not> from_to m t h e" "\<not> back_edge m e" for m t h by (simp_all add: from_to_def back_edge_def)
  then show ?thesis using True assms by (simp add: measure_arc_def wp_node_get add_transitions_def)
next
  case False
  obtain t h where th: "flag TRACE_TAIL (node_mem g (sourceNode e)) = t" "flag TRACE_HEAD (node_mem g (destinationNode e)) = h" by blast
  then have "from_to (node_mem g) t' h' e \<longleftrightarrow> t' = t \<and> h' = h" for t' h' using False by (auto simp: from_to_def)
  then show ?thesis using False th by (cases t; cases h) (simp_all add: measure_arc_def wp_node_get add_transitions_def back_edge_def Let_def)
qed

lemma measure_list_wp:
  assumes "\<forall>e\<in>set es. in_trace e \<longrightarrow> arcType e = nodeType n"
  shows "wp (for_each (measure_arc fl n) es mx) Q g = Q (add_transitions fl (\<lambda>P. map arcWeight (filter P es)) (node_mem g) mx) g"
  using assms
proof (induction es arbitrary: mx)
  case (Cons e es)
  have "(\<lambda>P. (if P e then [arcWeight e] else []) @ map arcWeight (filter P es)) = (\<lambda>P. map arcWeight (filter P (e # es)))" by (simp add: fun_eq_iff)
  then show ?case using Cons by (simp add: measure_arc_wp add_transitions_add)
qed (simp add: add_transitions_zero)

lemma measure_arcs_wp:
  assumes "\<forall>a\<in>set ns. \<forall>e\<in>set (destinationArcs (node_mem g a)). in_trace e \<longrightarrow> arcType e = nodeType (node_mem g a)"
  shows "wp (measure_arcs fl ns mx) Q g = Q (add_transitions fl (\<lambda>P. arc_weights P (node_mem g) ns) (node_mem g) mx) g"
  using assms unfolding measure_arcs_def
proof (induction ns arbitrary: mx)
  case (Cons a ns)
  then show ?case by (simp add: wp_node_get measure_list_wp add_transitions_add)
qed (simp add: add_transitions_zero)

lemma transitions_total:
  "sum_list (arc_weights (from_to m True True) k ns) + sum_list (arc_weights (from_to m True False) k ns) + sum_list (arc_weights (from_to m False True) k ns) +
   sum_list (arc_weights (from_to m False False) k ns) + sum_list (arc_weights in_trace k ns) = sum_list (arc_weights (\<lambda>_. True) k ns)"
proof (induction ns)
  case (Cons a ns)
  have "(\<Sum>e\<leftarrow>filter (from_to m True True) es. arcWeight e) + (\<Sum>e\<leftarrow>filter (from_to m True False) es. arcWeight e) +
      (\<Sum>e\<leftarrow>filter (from_to m False True) es. arcWeight e) + (\<Sum>e\<leftarrow>filter (from_to m False False) es. arcWeight e) +
      (\<Sum>e\<leftarrow>filter in_trace es. arcWeight e) = (\<Sum>e\<leftarrow>es. arcWeight e)" for es
    by (induction es) (auto simp: from_to_def)
  from this [of "destinationArcs (k a)"] Cons show ?case by simp
qed simp

text \<open>The transitions inside of traces are among the sequential ones once the chain is the one of the traces.\<close>

lemma in_trace_sequential:
  assumes tr: "traces ns r m us"
  shows "subseq (arc_weights in_trace m (concat us)) (chain_weights m (concat us))"
proof (rule subseq_in_chain)
  note tD = tracesD [OF tr]
  show "distinct (concat us)" by (rule tD(1))
  show "\<forall>a\<in>set (concat us). \<forall>e\<in>set (destinationArcs (m a)). arcType e \<noteq> 0 \<longrightarrow> (a, destinationNode e) \<in> links (concat us)"
  proof (intro ballI impI)
    fix a e assume a: "a \<in> set (concat us)" and e: "e \<in> set (destinationArcs (m a))" and "arcType e \<noteq> 0"
    then have "(a, destinationNode e) \<in> all_links us" using tD(2,4) unfolding marked_def by blast
    moreover have "[] \<notin> set us" using tD(6) by blast
    ultimately show "(a, destinationNode e) \<in> links (concat us)" using all_links_concat by blast
  qed
qed

section \<open>Nodes and traces\<close>

definition ones :: "'a list \<Rightarrow> rat list" where
  "ones xs = map (\<lambda>_. 1) xs"

lemma ones_simps [simp]: "ones [] = []" "ones (x # xs) = 1 # ones xs" "ones (xs @ ys) = ones xs @ ones ys"
  by (simp_all add: ones_def)

definition add_counts :: "(rat \<Rightarrow> rat) \<Rightarrow> (nat \<Rightarrow> gnode) \<Rightarrow> nat list \<Rightarrow> matrix \<Rightarrow> matrix" where
  "add_counts fl m ns mx = mx\<lparr>N_NODES := add_up fl (N_NODES mx) (ones ns), W_NODES := add_up fl (W_NODES mx) (map (\<lambda>a. nodeWeight (m a)) ns),
     N_LEAF := add_up fl (N_LEAF mx) (ones (filter (\<lambda>a. destinationArcs (m a) = []) ns)),
     N_ROOT := add_up fl (N_ROOT mx) (ones (filter (\<lambda>a. sourceArcs (m a) = []) ns)),
     N_ARCS := add_up fl (N_ARCS mx) (ones (arc_weights (\<lambda>_. True) m ns)), W_ARCS := add_up fl (W_ARCS mx) (arc_weights (\<lambda>_. True) m ns)\<rparr>"

lemma count_arcs:
  "fold (\<lambda>e mx. mx\<lparr>N_ARCS := fl (N_ARCS mx + 1), W_ARCS := fl (W_ARCS mx + arcWeight e)\<rparr>) es mx =
   mx\<lparr>N_ARCS := add_up fl (N_ARCS mx) (ones (map arcWeight es)), W_ARCS := add_up fl (W_ARCS mx) (map arcWeight es)\<rparr>"
  for es :: "arc list" and mx :: matrix
  by (induction es arbitrary: mx) auto

lemma arc_weights_append: "arc_weights P m (xs @ ys) = arc_weights P m xs @ arc_weights P m ys"
  by (simp add: arc_weights_def)

lemma count_nodes_wp:
  assumes "distinct ns"
  shows "wp (count_nodes fl ns mx) (\<lambda>mx' h. mx' = add_counts fl (node_mem g) ns mx \<and> h = g\<lparr>node_mem := unvisited ns (node_mem g)\<rparr>) g"
  unfolding count_nodes_def
proof (rule wp_for_each [where I = "\<lambda>k mx' h. mx' = add_counts fl (node_mem g) (take k ns) mx \<and> h = g\<lparr>node_mem := unvisited (take k ns) (node_mem g)\<rparr>"])
  show "mx = add_counts fl (node_mem g) (take 0 ns) mx \<and> g = g\<lparr>node_mem := unvisited (take 0 ns) (node_mem g)\<rparr>"
    by (simp add: add_counts_def unvisited_Nil)
  fix k mx' h assume k: "k < length ns" and I: "mx' = add_counts fl (node_mem g) (take k ns) mx \<and> h = g\<lparr>node_mem := unvisited (take k ns) (node_mem g)\<rparr>"
  let ?a = "ns ! k" and ?m = "node_mem g"
  have T: "take (Suc k) ns = take k ns @ [?a]" using k by (simp add: take_Suc_conv_app_nth)
  have new: "?a \<notin> set (take k ns)" using distinct_take [OF assms, of "Suc k"] by (simp add: T)
  have un: "lowered VISITED ?a (unvisited (take k ns) ?m) = unvisited (take (Suc k) ns) ?m"
    using new by (auto simp: lowered_def unvisited_def T fun_eq_iff)
  have n: "destinationArcs (unvisited xs ?m ?a) = destinationArcs (?m ?a)" "sourceArcs (unvisited xs ?m ?a) = sourceArcs (?m ?a)"
    "nodeWeight (unvisited xs ?m ?a) = nodeWeight (?m ?a)" for xs by (simp_all add: unvisited_def)
  show "wp (bnd (clear_flag VISITED ?a) (\<lambda>_. bnd (node_get ?a) (\<lambda>n.
       let mx = mx'\<lparr>N_NODES := fl (N_NODES mx' + 1), W_NODES := fl (W_NODES mx' + nodeWeight n)\<rparr>;
           mx = (if destinationArcs n = [] then mx\<lparr>N_LEAF := fl (N_LEAF mx + 1)\<rparr> else mx);
           mx = (if sourceArcs n = [] then mx\<lparr>N_ROOT := fl (N_ROOT mx + 1)\<rparr> else mx) in
       for_each (\<lambda>e mx. ret (mx\<lparr>N_ARCS := fl (N_ARCS mx + 1), W_ARCS := fl (W_ARCS mx + arcWeight e)\<rparr>)) (destinationArcs n) mx)))
     (\<lambda>mx' h. mx' = add_counts fl ?m (take (Suc k) ns) mx \<and> h = g\<lparr>node_mem := unvisited (take (Suc k) ns) ?m\<rparr>) h"
    using I by (cases mx) (simp add: wp_clear_flag wp_node_get un n wp_for_each_ret count_arcs Let_def, simp add: T add_counts_def arc_weights_append)
qed simp

lemma visiting_raise: "raised VISITED c (visiting vs m) = visiting (vs @ [c]) m"
  by (auto simp: visiting_def raised_def fun_eq_iff or.assoc)

lemma visiting_set: "set vs = set vs' \<Longrightarrow> visiting vs m = visiting vs' m"
  by (simp add: visiting_def fun_eq_iff)

definition lengths :: "'a list list \<Rightarrow> rat list" where
  "lengths us = map (\<lambda>u. of_nat (length u)) us"

lemma lengths_simps [simp]: "lengths [] = []" "lengths (us @ [u]) = lengths us @ [of_nat (length u)]"
  by (simp_all add: lengths_def)

definition add_traces :: "(rat \<Rightarrow> rat) \<Rightarrow> (nat \<Rightarrow> gnode) \<Rightarrow> nat list list \<Rightarrow> matrix \<Rightarrow> matrix" where
  "add_traces fl m us mx = mx\<lparr>N_TRACE := add_up fl (N_TRACE mx) (ones us), L_TRACE := add_up fl (L_TRACE mx) (lengths us),
     N_LOOP := add_up fl (N_LOOP mx) (ones (filter (\<lambda>u. flag LOOP_HEAD (m (hd u))) us)),
     L_LOOP := add_up fl (L_LOOP mx) (lengths (filter (\<lambda>u. flag LOOP_HEAD (m (hd u))) us))\<rparr>"

text \<open>The nodes of the type of \<open>a\<close> are marked and counted.\<close>

lemma measure_members_wp:
  fixes g :: trace_lib
  assumes g: "node_mem g = visiting vs m"
  shows "wp (for_each (\<lambda>ptr r. bnd (node_get ptr) (\<lambda>n. if nodeType n = ty then
      bnd (raise_flag VISITED ptr) (\<lambda>_. bnd (node_get a) (\<lambda>nd. ret (fst r \<or> flag LOOP_HEAD nd, snd r + 1))) else ret r)) ns (False, 0 :: rat))
    (\<lambda>r h. h = g\<lparr>node_mem := visiting (vs @ filter (\<lambda>x. nodeType (m x) = ty) ns) m\<rparr> \<and>
      r = (filter (\<lambda>x. nodeType (m x) = ty) ns \<noteq> [] \<and> flag LOOP_HEAD (m a), of_nat (length (filter (\<lambda>x. nodeType (m x) = ty) ns)))) g"
    (is "wp (for_each ?body _ _) _ _")
proof (rule wp_for_each [where I = "\<lambda>k r h. h = g\<lparr>node_mem := visiting (vs @ filter (\<lambda>x. nodeType (m x) = ty) (take k ns)) m\<rparr> \<and>
      r = (filter (\<lambda>x. nodeType (m x) = ty) (take k ns) \<noteq> [] \<and> flag LOOP_HEAD (m a), of_nat (length (filter (\<lambda>x. nodeType (m x) = ty) (take k ns))))"])
  fix k and r :: "bool \<times> rat" and h assume k: "k < length ns" and I: "h = g\<lparr>node_mem := visiting (vs @ filter (\<lambda>x. nodeType (m x) = ty) (take k ns)) m\<rparr> \<and>
      r = (filter (\<lambda>x. nodeType (m x) = ty) (take k ns) \<noteq> [] \<and> flag LOOP_HEAD (m a), of_nat (length (filter (\<lambda>x. nodeType (m x) = ty) (take k ns))))"
  have T: "take (Suc k) ns = take k ns @ [ns ! k]" using k by (simp add: take_Suc_conv_app_nth)
  show "wp (?body (ns ! k) r) (\<lambda>r h. h = g\<lparr>node_mem := visiting (vs @ filter (\<lambda>x. nodeType (m x) = ty) (take (Suc k) ns)) m\<rparr> \<and>
      r = (filter (\<lambda>x. nodeType (m x) = ty) (take (Suc k) ns) \<noteq> [] \<and> flag LOOP_HEAD (m a),
        of_nat (length (filter (\<lambda>x. nodeType (m x) = ty) (take (Suc k) ns))))) h"
    using I by (auto simp add: wp_node_get wp_raise_flag visiting_raise T)
qed (use g in simp_all)

lemma same_type:
  assumes tr: "traces ns r m us" and chain: "distinct xs" "set xs = set ns" and u: "u \<in> set us" "a \<in> set u"
  shows "set (filter (\<lambda>x. nodeType (m x) = nodeType (m a)) xs) = set u" "length (filter (\<lambda>x. nodeType (m x) = nodeType (m a)) xs) = length u"
proof -
  note tD = tracesD [OF tr]
  have "x \<in> set u" if x: "x \<in> set ns" "nodeType (m x) = nodeType (m a)" for x
  proof -
    obtain t where t: "t \<in> set us" "x \<in> set t" using tD(12) [OF x(1)] by blast
    then have "t = u" using tD(3) u x(2) unfolding typed_def by blast
    with t(2) show ?thesis by simp
  qed
  moreover have "nodeType (m x) = nodeType (m a)" if "x \<in> set u" for x using tD(3) u that unfolding typed_def by blast
  ultimately show s: "set (filter (\<lambda>x. nodeType (m x) = nodeType (m a)) xs) = set u" using tD(8) [OF u(1)] chain(2) by auto
  show "length (filter (\<lambda>x. nodeType (m x) = nodeType (m a)) xs) = length u"
    using distinct_card [of "filter (\<lambda>x. nodeType (m x) = nodeType (m a)) xs"] distinct_card [OF tD(7) [OF u(1)]] chain(1) by (simp add: s del: set_filter)
qed

lemma measure_rest_wp:
  "\<forall>a\<in>set as. flag VISITED (node_mem g a) \<Longrightarrow> wp (for_each (measure_trace fl ns) as mx) Q g = Q mx g"
  by (induction as) (simp_all add: measure_trace_def wp_node_get)

lemma measure_traces_wp:
  fixes g :: trace_lib
  assumes tr: "traces ns r m us" and g: "node_mem g = m" and new: "\<forall>a\<in>set ns. \<not> flag VISITED (m a)"
  shows "wp (for_each (measure_trace fl (concat us)) (concat us) mx)
    (\<lambda>mx' h. mx' = add_traces fl m us mx \<and> h = g\<lparr>node_mem := visiting (concat us) m\<rparr>) g"
proof -
  note tD = tracesD [OF tr]
  let ?f = "measure_trace fl (concat us)"
  let ?I = "\<lambda>j mx' h. mx' = add_traces fl m (take j us) mx \<and> h = g\<lparr>node_mem := visiting (concat (take j us)) m\<rparr>"
  have "wp (for_each (for_each ?f) us mx) (?I (length us)) g"
  proof (rule wp_for_each [where I = ?I])
    show "?I 0 mx g" using g by (cases mx) (simp add: add_traces_def)
    fix j mx' h assume j: "j < length us" and I: "?I j mx' h"
    let ?u = "us ! j" and ?vs = "concat (take j us)"
    have u: "?u \<in> set us" using j by simp
    obtain a as where ua: "?u = a # as" using tD(6) [OF u] by (cases "us ! j") auto
    have T: "take (Suc j) us = take j us @ [?u]" using j by (simp add: take_Suc_conv_app_nth)
    have a: "a \<in> set ?u" "a \<in> set ns" using ua tD(8) [OF u] by auto
    have "distinct (concat (take (Suc j) us))" by (rule some_traces [OF tr]) (use tD(11) in \<open>auto dest: in_set_takeD\<close>)
    then have "a \<notin> set ?vs" using T ua by auto
    then have na: "\<not> flag VISITED (node_mem h a)" using new a(2) I by simp
    have ty: "nodeType (node_mem h a) = nodeType (m a)" using I by simp
    note st = same_type [OF tr tD(1) tD(2) u a(1)]
    let ?fs = "filter (\<lambda>x. nodeType (m x) = nodeType (m a)) (concat us)"
    have mem: "visiting (?vs @ ?fs) m = visiting (concat (take (Suc j) us)) m" by (rule visiting_set) (use st(1) T in simp)
    have some: "?fs \<noteq> []"
    proof
      assume "?fs = []"
      then have "set ?u = {}" using st(1) by (simp del: set_filter)
      then show False using a(1) by simp
    qed
    let ?mx = "\<lambda>r. let mx = mx'\<lparr>N_TRACE := fl (N_TRACE mx' + 1), L_TRACE := fl (L_TRACE mx' + snd r)\<rparr> in
       if fst r then mx\<lparr>N_LOOP := fl (N_LOOP mx + 1), L_LOOP := fl (L_LOOP mx + snd r)\<rparr> else mx"
    have mx: "?mx (flag LOOP_HEAD (m a), of_nat (length ?u)) = add_traces fl m (take (Suc j) us) mx"
      using I by (cases mx) (simp add: add_traces_def T ua Let_def add_ac)
    have pair: "(?fs \<noteq> [] \<and> flag LOOP_HEAD (m a), rat_of_nat (length ?fs)) = (flag LOOP_HEAD (m a), rat_of_nat (length ?u))"
      using some st(2) by simp
    have one: "wp (?f a mx') (\<lambda>mx'' h'. mx'' = add_traces fl m (take (Suc j) us) mx \<and> h' = g\<lparr>node_mem := visiting (concat (take (Suc j) us)) m\<rparr>) h"
      unfolding measure_trace_def wp_bnd [of "node_get a"] wp_node_get ty
    proof (simp only: na if_False, rule wp_seq [OF measure_members_wp [where vs = ?vs and m = m]], simp add: I, elim conjE, hypsubst)
      have "?mx (?fs \<noteq> [] \<and> flag LOOP_HEAD (m a), of_nat (length ?fs)) = add_traces fl m (take (Suc j) us) mx"
        by (simp only: pair mx)
      then show "wp (let mx = mx'\<lparr>N_TRACE := fl (N_TRACE mx' + 1), L_TRACE := fl (L_TRACE mx' + snd (?fs \<noteq> [] \<and> flag LOOP_HEAD (m a), of_nat (length ?fs)))\<rparr> in
          ret (if fst (?fs \<noteq> [] \<and> flag LOOP_HEAD (m a), of_nat (length ?fs) :: rat)
            then mx\<lparr>N_LOOP := fl (N_LOOP mx + 1), L_LOOP := fl (L_LOOP mx + snd (?fs \<noteq> [] \<and> flag LOOP_HEAD (m a), of_nat (length ?fs)))\<rparr> else mx))
        (\<lambda>mx'' h'. mx'' = add_traces fl m (take (Suc j) us) mx \<and> h' = g\<lparr>node_mem := visiting (concat (take (Suc j) us)) m\<rparr>)
        (h\<lparr>node_mem := visiting (?vs @ ?fs) m\<rparr>)"
        using I mem by (simp add: Let_def)
    qed
    show "wp (for_each ?f ?u mx') (?I (Suc j)) h"
      unfolding ua for_each.simps
      by (rule wp_seq [OF one], elim conjE, hypsubst, subst measure_rest_wp) (simp_all add: T ua)
  qed simp
  moreover have "for_each (for_each ?f) us mx = for_each ?f (concat us) mx" using for_each_concat [of us "for_each ?f" ?f id] by simp
  ultimately show ?thesis by simp
qed

section \<open>The report\<close>

lemma loop_unvisited: "flag LOOP_HEAD (unvisited xs m a) = flag LOOP_HEAD (m a)"
  by (cases "a \<in> set xs") (simp_all add: unvisited_def flag_def and.assoc VISITED_def LOOP_HEAD_def)

lemma looped_heads:
  assumes tr: "traces ns r m us" and lp: "looped ns m us" and u: "u \<in> set us"
  shows "flag LOOP_HEAD (m (hd u)) \<longleftrightarrow> hd u \<in> succs m (last u)"
proof -
  note tD = tracesD [OF tr]
  have h: "hd u \<in> set u" "hd u \<in> set ns" using tD(6,8) [OF u] by auto
  have "t = u" if t: "t \<in> set us" "hd u = hd t" for t
  proof (rule tD(10) [OF t(1) u])
    show "hd t \<in> set t" using tD(6) [OF t(1)] by simp
    show "hd t \<in> set u" using h(1) unfolding t(2) .
  qed
  then show ?thesis using lp h(2) u unfolding looped_def by blast
qed

definition loops :: "(nat \<Rightarrow> gnode) \<Rightarrow> nat list list \<Rightarrow> nat list list" where
  "loops m us = filter (\<lambda>u. hd u \<in> succs m (last u)) us"

text \<open>The rounded sum of the weights of a class of arcs, in the order of the chain.\<close>

abbreviation arc_total :: "(rat \<Rightarrow> rat) \<Rightarrow> (arc \<Rightarrow> bool) \<Rightarrow> (nat \<Rightarrow> gnode) \<Rightarrow> nat list \<Rightarrow> rat" where
  "arc_total fl P m ns \<equiv> add_up fl 0 (arc_weights P m ns)"

definition reported :: "(rat \<Rightarrow> rat) \<Rightarrow> (nat \<Rightarrow> gnode) \<Rightarrow> nat list list \<Rightarrow> matrix \<Rightarrow> bool" where
  "reported fl m us mx = (W_A mx = arc_total fl (from_to m True True) m (concat us) \<and> W_B mx = arc_total fl (from_to m True False) m (concat us) \<and>
     W_C mx = arc_total fl (from_to m False True) m (concat us) \<and> W_D mx = arc_total fl (from_to m False False) m (concat us) \<and>
     W_E mx = arc_total fl in_trace m (concat us) \<and> W_ARCS mx = arc_total fl (\<lambda>_. True) m (concat us) \<and>
     W_BACK_EDGE mx = arc_total fl (back_edge m) m (concat us) \<and> W_SEQUENTIAL mx = add_up fl 0 (chain_weights m (concat us)) \<and>
     N_NODES mx = of_nat (length (concat us)) \<and> N_TRACE mx = of_nat (length us) \<and> N_LOOP mx = of_nat (length (loops m us)) \<and>
     (us \<noteq> [] \<longrightarrow> L_TRACE mx = fl (of_nat (length (concat us)) / of_nat (length us))) \<and>
     (loops m us \<noteq> [] \<longrightarrow> L_LOOP mx = fl (of_nat (length (concat (loops m us))) / of_nat (length (loops m us)))))"

text \<open>The counts of nodes and traces are whole numbers that a double holds.\<close>

lemma count_exact:
  assumes "rounding fl" "length xs \<le> 2 ^ 53"
  shows "add_up fl 0 (ones xs) = of_nat (length xs)"
  using add_up_count [OF assms(1), of 0 xs] assms(2) by (simp add: ones_def)

lemma lengths_exact:
  assumes "rounding fl" "length (concat us) \<le> 2 ^ 53"
  shows "add_up fl 0 (lengths us) = of_nat (length (concat us))"
proof -
  have "lengths us = map of_nat (map length us)" by (simp add: lengths_def)
  then show ?thesis using add_up_whole [OF assms(1), of 0 "map length us"] assms(2) by (simp add: length_concat)
qed

lemma traces_fewer:
  assumes "\<forall>u\<in>set us. u \<noteq> []"
  shows "length us \<le> length (concat us)"
  using assms
proof (induction us)
  case (Cons u us)
  then show ?case by (cases u) simp_all
qed simp

lemma loops_fewer: "length (concat (loops m us)) \<le> length (concat us)"
  by (induction us) (simp_all add: loops_def)

theorem ReportSelectionResult_wp:
  fixes g :: trace_lib
  assumes fl: "rounding fl" and tr: "traces ns r (node_mem g) us" and lp: "looped ns (node_mem g) us" and gr: "gnodes gr = concat us"
    and few: "length (concat us) \<le> 2 ^ 53"
  shows "wp (ReportSelectionResult fl (Some gr) (Some old)) (\<lambda>res h. (\<exists>mx. res = Some mx \<and> reported fl (node_mem g) us mx) \<and>
    h = g\<lparr>node_mem := visiting (concat us) (unvisited (concat us) (node_mem g))\<rparr>) g"
proof -
  let ?m = "node_mem g" and ?c = "concat us"
  let ?m1 = "unvisited ?c ?m"
  note tD = tracesD [OF tr]
  have typed: "\<forall>a\<in>set ?c. \<forall>e\<in>set (destinationArcs (?m a)). in_trace e \<longrightarrow> arcType e = nodeType (?m a)"
    using tD(2,4) unfolding marked_def by blast
  have tr1: "traces ns r ?m1 us" by (rule traces_alike [OF _ tr]) simp
  have new: "\<forall>a\<in>set ns. \<not> flag VISITED (?m1 a)" using tD(2) by simp
  have lps: "filter (\<lambda>u. flag LOOP_HEAD (?m1 (hd u))) us = loops ?m us"
    unfolding loops_def by (rule filter_cong) (simp_all add: loop_unvisited looped_heads [OF tr lp])
  have nonempty: "\<forall>u\<in>set us. u \<noteq> []" using tD(6) by blast
  have fewer: "length us \<le> 2 ^ 53" using traces_fewer [OF nonempty] few by linarith
  have "length (loops ?m us) \<le> length us" by (simp add: loops_def)
  then have fewer_loops: "length (loops ?m us) \<le> 2 ^ 53" using fewer by linarith
  have short: "length (concat (loops ?m us)) \<le> 2 ^ 53" using loops_fewer [of ?m us] few by linarith
  let ?mx0 = "zero_matrix\<lparr>W_SEQUENTIAL := add_up fl 0 (chain_weights ?m ?c)\<rparr>"
  let ?mx1 = "add_counts fl ?m ?c (add_transitions fl (\<lambda>P. arc_weights P ?m ?c) ?m ?mx0)"
  define mx where "mx = add_traces fl ?m1 us ?mx1"
  note exact = count_exact [OF fl few] count_exact [OF fl fewer] count_exact [OF fl fewer_loops] lengths_exact [OF fl few] lengths_exact [OF fl short]
  have L: "L_TRACE mx = N_NODES mx" "N_NODES mx = of_nat (length ?c)" "N_TRACE mx = of_nat (length us)"
    "N_LOOP mx = of_nat (length (loops ?m us))" "L_LOOP mx = of_nat (length (concat (loops ?m us)))"
    by (simp_all only: mx_def add_traces_def add_counts_def add_transitions_def zero_matrix_def lps exact matrix.simps matrix.update_convs)
  have W: "W_A mx = arc_total fl (from_to ?m True True) ?m ?c" "W_B mx = arc_total fl (from_to ?m True False) ?m ?c"
    "W_C mx = arc_total fl (from_to ?m False True) ?m ?c" "W_D mx = arc_total fl (from_to ?m False False) ?m ?c"
    "W_E mx = arc_total fl in_trace ?m ?c" "W_ARCS mx = arc_total fl (\<lambda>_. True) ?m ?c"
    "W_BACK_EDGE mx = arc_total fl (back_edge ?m) ?m ?c" "W_SEQUENTIAL mx = add_up fl 0 (chain_weights ?m ?c)"
    by (simp_all add: mx_def add_traces_def add_counts_def add_transitions_def zero_matrix_def)
  have rep: "reported fl ?m us (let mx' = (if N_TRACE mx \<noteq> 0 then mx\<lparr>L_TRACE := fl (L_TRACE mx / N_TRACE mx)\<rparr> else mx) in
      if N_LOOP mx' \<noteq> 0 then mx'\<lparr>L_LOOP := fl (L_LOOP mx' / N_LOOP mx')\<rparr> else mx')"
    using L W unfolding reported_def by (cases "us = []"; cases "loops ?m us = []") (simp_all add: Let_def)
  have loop: "wp (for_each (measure_trace fl ?c) ?c ?mx1) (\<lambda>mx' h. mx' = mx \<and> h = g\<lparr>node_mem := visiting ?c ?m1\<rparr>) (g\<lparr>node_mem := ?m1\<rparr>)"
    using measure_traces_wp [OF tr1 _ new, of "g\<lparr>node_mem := ?m1\<rparr>"] by (simp add: mx_def)
  have some: "(Some old = None) = False" by simp
  have zero: "W_SEQUENTIAL zero_matrix = 0" by (simp add: zero_matrix_def)
  show ?thesis
    unfolding ReportSelectionResult_def option.case some if_False gr wp_bnd [of "sequential_weight _ _ _"] sequential_weight_wp
      wp_bnd [of "measure_arcs _ _ _"] measure_arcs_wp [OF typed] zero
  proof (rule wp_seq [OF count_nodes_wp [OF tD(1)]], elim conjE, hypsubst, rule wp_seq [OF loop], elim conjE, hypsubst)
    show "wp (if L_TRACE mx \<noteq> N_NODES mx then fail (Punt ''ReportSelectionResult: incorrect accounting'')
        else let mx' = (if N_TRACE mx \<noteq> 0 then mx\<lparr>L_TRACE := fl (L_TRACE mx / N_TRACE mx)\<rparr> else mx) in
          ret (Some (if N_LOOP mx' \<noteq> 0 then mx'\<lparr>L_LOOP := fl (L_LOOP mx' / N_LOOP mx')\<rparr> else mx')))
      (\<lambda>res h. (\<exists>mx. res = Some mx \<and> reported fl ?m us mx) \<and> h = g\<lparr>node_mem := visiting ?c ?m1\<rparr>) (g\<lparr>node_mem := visiting ?c ?m1\<rparr>)"
      using rep L(1) by (simp add: Let_def)
  qed
qed

end
