(* ===== verification/Trace_Properties.thy ===== *)
theory Trace_Properties
  imports Trace_Report
begin

text \<open>
  Properties of the trace selection. The witnesses use three nodes: 0, the root, has arcs to 1 and 2, and 1 has one back to 0.
\<close>

section \<open>The graphs a selection is made on\<close>

text \<open>
  The library is in a state that its own functions leave, the chain of the nodes holds each once, the root is one of them, and the
  arcs lead from node to node of the graph and are in the lists of both ends.
\<close>

definition selectable :: "FGraph \<Rightarrow> nat \<Rightarrow> trace_lib \<Rightarrow> bool" where
  "selectable gr r g = (trace_ok g \<and> root gr = Some r \<and> r \<in> set (gnodes gr) \<and> distinct (gnodes gr) \<and> set (gnodes gr) \<subseteq> in_use g \<and>
     length (gnodes gr) < MAX_GRAPH_SIZE \<and> paired (gnodes gr) (node_mem g))"

definition methods :: "int set" where
  "methods = {SELECT_BY_NODE_WEIGHT, SELECT_BY_ARC_WEIGHT, SELECT_BY_MIN_PROB, SELECT_BY_MAX_ARC}"

lemma traces_perm:
  assumes "traces ns r m us" "distinct ns"
  shows "mset (concat us) = mset ns"
  using set_eq_iff_mset_eq_distinct [OF tracesD(1) [OF assms(1)] assms(2)] tracesD(2) [OF assms(1)] by blast









section \<open>A sample graph\<close>

definition tri_arc :: "rat \<Rightarrow> nat \<Rightarrow> nat \<Rightarrow> arc" where
  "tri_arc w s d = \<lparr>arcType = 0, arcWeight = w, sourceNode = s, destinationNode = d\<rparr>"

definition tri_mem :: "nat \<Rightarrow> gnode" where
  "tri_mem a = blank_node\<lparr>nodeWeight := of_nat (4 - a),
     sourceArcs := (if a = 0 then [tri_arc 2 1 0] else if a = 1 then [tri_arc 3 0 1] else if a = 2 then [tri_arc 1 0 2] else []),
     destinationArcs := (if a = 0 then [tri_arc 3 0 1, tri_arc 1 0 2] else if a = 1 then [tri_arc 2 1 0] else [])\<rparr>"

definition tri_lib :: trace_lib where
  "tri_lib = \<lparr>SetId = 0, OUT = None, mallocated = 0, maxmallocated = 0, node_mem = tri_mem, node_top = 3, d_node_list = [],
     node_count = 3, nd_buf = [], others = (\<lambda>_. \<lparr>dominator = None, level = 0, order = 0\<rparr>), n_others = 0,
     best_successor_of = By_Node_Weight, best_predecessor_of = By_Node_Weight, min_prob_requirement = 0\<rparr>"

definition tri :: FGraph where
  "tri = \<lparr>root = Some 0, gnodes = [0, 1, 2]\<rparr>"

lemma tri_simps [simp]: "root tri = Some 0" "gnodes tri = [0, 1, 2]" "node_mem tri_lib = tri_mem"
  by (simp_all add: tri_def tri_lib_def)

lemma set_less_3: "x \<in> {0, 1, 2 :: nat} \<longleftrightarrow> x < 3"
  by auto

lemma tri_ext: "ext_ok tri_lib"
  by (simp add: ext_ok_def holds_def doms_def wf_lib_def tri_lib_def)

lemma tri_ok: "trace_ok tri_lib"
  by (simp add: trace_ok_def tri_ext)
    (auto simp: tri_lib_def free_ok_def within_top_def out_def tri_mem_def blank_node_def tri_arc_def is_marked_def split: if_splits)

lemma tri_paired: "paired [0, 1, 2] tri_mem"
  unfolding paired_def Trace_Marks.ends_def by (auto simp: tri_mem_def blank_node_def tri_arc_def)

lemma tri_selectable: "selectable tri 0 tri_lib"
  unfolding selectable_def in_use_def tri_simps by (intro conjI tri_ok tri_paired) (auto simp: tri_lib_def MAX_GRAPH_SIZE_def)

lemma tri_cells: "cell_list [0, 1, 2] tri_mem = [(0, 0), (0, 1), (1, 0)]"
  by (simp add: cell_list_def tri_mem_def blank_node_def upt_rec)

section \<open>Properties\<close>

text \<open>
  C23. \<open>AddExtensionFields\<close> ends and gives each node an extension field of its own, in the order of the chain. The dominators of a node are the
  nodes that are on every path from the root to it (of a node that no path reaches, all nodes), and its level is one more
  than the largest level of the sources that come before it in the chain, and 0 when there are none and for the root.
\<close>
theorem AddExtensionFields_correct:
  assumes "ext_ok g" and "root gr = Some r" and "r \<in> set (gnodes gr)" and "distinct (gnodes gr)" and "length (gnodes gr) \<le> MAX_GRAPH_SIZE"
    and "\<And>a. a \<in> set (gnodes gr) \<Longrightarrow> preds (node_mem g) a \<subseteq> set (gnodes gr)"
  shows "\<exists>h. AddExtensionFields gr g = Inr ((), h) \<and> n_others h = length (gnodes gr) \<and> (\<forall>i<length (gnodes gr).
    nodeExt (node_mem h (gnodes gr ! i)) = Some i \<and> order (others h i) = int i \<and>
    elems (dominator (others h i)) = {int j | j. j < length (gnodes gr) \<and> dominates (node_mem g) r (gnodes gr ! j) (gnodes gr ! i)} \<and>
    level (others h i) = level_of (source_positions (gnodes gr) (node_mem g)) (pos (gnodes gr) r) i)"
proof -
  let ?ns = "gnodes gr"
  from AddExtensionFields_wp [OF assms(1) refl assms(2,4,3,5,6)] obtain h where run: "AddExtensionFields gr g = Inr ((), h)"
    and e: "extended ?ns (numbered ?ns (node_mem g)) h"
    and d: "\<forall>a\<in>set ?ns. dom_table h (pos ?ns a) = {int j | j. j < length ?ns \<and> dominates (node_mem g) r (?ns ! j) a} \<and>
      level (others h (pos ?ns a)) = level_of (source_positions ?ns (node_mem g)) (pos ?ns r) (pos ?ns a)"
    by (auto simp: wp_run)
  have "nodeExt (node_mem h (?ns ! i)) = Some i \<and> order (others h i) = int i \<and>
      elems (dominator (others h i)) = {int j | j. j < length ?ns \<and> dominates (node_mem g) r (?ns ! j) (?ns ! i)} \<and>
      level (others h i) = level_of (source_positions ?ns (node_mem g)) (pos ?ns r) i" if i: "i < length ?ns" for i
  proof -
    have p: "pos ?ns (?ns ! i) = i" using nth_eq_iff_index_eq [OF assms(4) pos_less [OF nth_mem [OF i]] i] nth_pos [OF nth_mem [OF i]] by simp
    show ?thesis using bspec [OF d nth_mem [OF i]] extendedD(4,5) [OF e] extendedD(6,7) [OF e i] i
      by (simp add: p fielded_def dom_table_def)
  qed
  then show ?thesis using run extendedD(3) [OF e] by blast
qed

theorem AddExtensionFields_witness: "\<exists>h. AddExtensionFields tri tri_lib = Inr ((), h) \<and>
  0 \<in> elems (dominator (others h 2)) \<and> 1 \<notin> elems (dominator (others h 2)) \<and> level (others h 2) = 1"
proof -
  have pr: "preds (node_mem tri_lib) a \<subseteq> set (gnodes tri)" if "a \<in> set (gnodes tri)" for a
    using paired_preds [OF tri_paired] that by simp
  have len: "length (gnodes tri) \<le> MAX_GRAPH_SIZE" by (simp add: MAX_GRAPH_SIZE_def)
  have in0: "0 \<in> set (gnodes tri)" and dist: "distinct (gnodes tri)" and len3: "length (gnodes tri) = 3" by simp_all
  from AddExtensionFields_correct [OF tri_ext tri_simps(1) in0 dist len pr] obtain h where run: "AddExtensionFields tri tri_lib = Inr ((), h)"
    and all: "\<forall>i<length (gnodes tri). elems (dominator (others h i)) = {int j | j. j < length (gnodes tri) \<and> dominates (node_mem tri_lib) 0 (gnodes tri ! j) (gnodes tri ! i)} \<and>
      level (others h i) = level_of (source_positions (gnodes tri) (node_mem tri_lib)) (pos (gnodes tri) 0) i" by blast
  have two: "elems (dominator (others h 2)) = {int j | j. j < 3 \<and> dominates tri_mem 0 ([0, 1, 2] ! j) 2}"
      "level (others h 2) = level_of (source_positions [0, 1, 2] tri_mem) 0 2"
    using all [rule_format, of 2] unfolding len3 by (simp_all add: pos_def)
  have "is_path (preds tri_mem) [2, 0]" by (simp add: preds_def tri_mem_def tri_arc_def)
  then have "\<not> dominates tri_mem 0 1 2" unfolding dominates_def by (auto intro!: exI [of _ "[0 :: nat]"])
  moreover have "dominates tri_mem 0 0 2" unfolding dominates_def by (metis last_in_set list.discI)
  moreover have "level_of (source_positions [0, 1, 2] tri_mem) 0 2 = 1"
    by (subst level_of.simps, simp add: source_positions_def tri_mem_def tri_arc_def pos_def, subst level_of.simps, simp)
  ultimately show ?thesis using run two by (intro exI [of _ h]) (auto intro: exI [of _ "0 :: nat"] simp: nth_Cons')
qed

text \<open>A selection by arcs stops on a graph that is too large before it writes behind its array.\<close>

lemma list_and_clear_large:
  assumes "MAX_GRAPH_SIZE \<le> length ns"
  shows "list_and_clear ns g = Inl (Punt ''SelectBySortArc: graph is too large'')"
proof -
  let ?body = "\<lambda>ptr node_list. let node_list = node_list @ [ptr] in
    if length node_list \<ge> MAX_GRAPH_SIZE then fail (Punt ''SelectBySortArc: graph is too large'') else bnd (clear_node ptr) (\<lambda>_. ret node_list)"
  have "for_each ?body ns xs g = Inl (Punt ''SelectBySortArc: graph is too large'')"
    if "length xs < MAX_GRAPH_SIZE" "MAX_GRAPH_SIZE \<le> length xs + length ns" for xs
    using that
  proof (induction ns arbitrary: xs g)
    case (Cons a ns)
    show ?case
    proof (cases "Suc (length xs) \<ge> MAX_GRAPH_SIZE")
      case False
      obtain h where "clear_node a g = Inr ((), h)" using wp_clear_node [of a "\<lambda>_ _. True" g] by (auto simp: wp_run)
      with False Cons.prems Cons.IH [of "xs @ [a]" h] show ?thesis by (simp add: bnd_def ret_def)
    qed (simp add: bnd_def fail_def)
  qed simp
  from this [of "[]"] assms show ?thesis by (simp add: list_and_clear_def MAX_GRAPH_SIZE_def)
qed

lemma SelectTraces_fails: "AddExtensionFields gr g = Inl e \<Longrightarrow> SelectTraces gr g = Inl e"
  by (simp add: SelectTraces_def bnd_def)

text \<open>What stops \<open>AddExtensionFields\<close> stops a selection by nodes, whatever the parameters.\<close>

lemma TraceSelection_fails:
  assumes "ext_ok g" and "\<And>k. ext_ok k \<Longrightarrow> AddExtensionFields gr k = Inl e"
    and "0 \<le> p" "p \<le> 1" "meth \<in> {SELECT_BY_NODE_WEIGHT, SELECT_BY_ARC_WEIGHT, SELECT_BY_MIN_PROB}"
  shows "TraceSelection (Some gr) meth p g = Inl e"
proof -
  have "select_with s q gr g = Inl e" for s q
  proof -
    have "ext_ok (g\<lparr>best_successor_of := s, best_predecessor_of := s, min_prob_requirement := q\<rparr>)"
      by (rule ext_ok_same [OF assms(1)]) simp_all
    from SelectTraces_fails [OF assms(2) [OF this]] show ?thesis by (simp add: select_with_def bnd_def modify_def)
  qed
  then show ?thesis using assms(3-5) by (auto simp: TraceSelection_def)
qed

text \<open>
  C25. The errors of the selection. \<open>TraceSelection\<close> stops on a null graph, on every graph when the probability is not within 0 and 1, and on
  every graph when the method is unknown. The selection by the largest arcs stops on a graph of \<open>MAX_GRAPH_SIZE\<close> or more nodes, the ones by nodes
  stop on a graph with nodes and no root. But the array of the extension fields has \<open>MAX_GRAPH_SIZE\<close> entries, and \<open>AddExtensionFields\<close> writes one for
  each node without looking at their number: on a larger graph the selection by nodes writes behind the array before the number of the nodes is tested.
\<close>
theorem trace_errors:
  "TraceSelection None meth p g = Inl (Punt ''TraceSelection: nil graph'') \<and>
   (p < 0 \<or> 1 < p \<longrightarrow> TraceSelection (Some gr) meth p g = Inl (Punt ''TraceSelection: min_prob must be within [0..1]'')) \<and>
   (0 \<le> p \<and> p \<le> 1 \<and> meth \<notin> methods \<longrightarrow> TraceSelection (Some gr) meth p g = Inl (Punt ''TraceSelection: illegal selection method'')) \<and>
   (0 \<le> p \<and> p \<le> 1 \<and> meth = SELECT_BY_MAX_ARC \<and> MAX_GRAPH_SIZE \<le> length (gnodes gr) \<longrightarrow>
     TraceSelection (Some gr) meth p g = Inl (Punt ''SelectBySortArc: graph is too large'')) \<and>
   (ext_ok g \<and> gnodes gr \<noteq> [] \<and> root gr = None \<longrightarrow> SelectTraces gr g = Inl (Punt ''no root node'') \<and>
     (0 \<le> p \<and> p \<le> 1 \<and> meth \<in> {SELECT_BY_NODE_WEIGHT, SELECT_BY_ARC_WEIGHT, SELECT_BY_MIN_PROB} \<longrightarrow>
       TraceSelection (Some gr) meth p g = Inl (Punt ''no root node''))) \<and>
   (ext_ok g \<and> root gr \<noteq> None \<and> distinct (gnodes gr) \<and> MAX_GRAPH_SIZE < length (gnodes gr) \<longrightarrow>
     AddExtensionFields gr g = Inl Out_Of_Bounds \<and> SelectTraces gr g = Inl Out_Of_Bounds \<and>
     (0 \<le> p \<and> p \<le> 1 \<and> meth \<in> {SELECT_BY_NODE_WEIGHT, SELECT_BY_ARC_WEIGHT, SELECT_BY_MIN_PROB} \<longrightarrow>
       TraceSelection (Some gr) meth p g = Inl Out_Of_Bounds))"
  (is "?nil \<and> ?prob \<and> ?meth \<and> ?large \<and> ?rootless \<and> ?over")
proof (intro conjI)
  show ?nil by (simp add: TraceSelection_def fail_def)
  show ?prob by (simp add: TraceSelection_def fail_def)
  show ?meth by (auto simp: TraceSelection_def fail_def methods_def)
  show ?large
    using list_and_clear_large [of "gnodes gr" g]
    by (auto simp: TraceSelection_def SelectBySortArc_def bnd_def SELECT_BY_NODE_WEIGHT_def SELECT_BY_ARC_WEIGHT_def SELECT_BY_MIN_PROB_def SELECT_BY_MAX_ARC_def)
  have free: "\<exists>h. FreeExtensionFields k = Inr ((), h) \<and> wf_lib h \<and> n_others h = 0" if "ext_ok k" for k
    using FreeExtensionFields_wp [OF that] by (auto simp: wp_run)
  have no_root: "AddExtensionFields gr k = Inl (Punt ''no root node'')" if "ext_ok k" "gnodes gr \<noteq> []" "root gr = None" for k
    using free [OF that(1)] that(2,3) by (auto simp: AddExtensionFields_def bnd_def fail_def)
  show ?rootless using no_root SelectTraces_fails TraceSelection_fails by blast
  have over: "AddExtensionFields gr k = Inl Out_Of_Bounds"
    if "ext_ok k" "root gr \<noteq> None" "distinct (gnodes gr)" "MAX_GRAPH_SIZE < length (gnodes gr)" for k
    using free [OF that(1)] number_nodes_overflow [OF _ _ that(3,4)] that(2,4) by (auto simp: AddExtensionFields_def bnd_def)
  show ?over using over SelectTraces_fails TraceSelection_fails by blast
qed

theorem trace_errors_witness:
  "TraceSelection (Some tri) SELECT_BY_MAX_ARC 2 tri_lib = Inl (Punt ''TraceSelection: min_prob must be within [0..1]'') \<and>
   TraceSelection (Some tri) 4 0 tri_lib = Inl (Punt ''TraceSelection: illegal selection method'') \<and>
   TraceSelection (Some \<lparr>root = Some 0, gnodes = [0..<8192]\<rparr>) SELECT_BY_MAX_ARC 0 tri_lib = Inl (Punt ''SelectBySortArc: graph is too large'') \<and>
   TraceSelection (Some \<lparr>root = None, gnodes = [0]\<rparr>) SELECT_BY_NODE_WEIGHT 0 tri_lib = Inl (Punt ''no root node'') \<and>
   TraceSelection (Some \<lparr>root = Some 0, gnodes = [0..<8193]\<rparr>) SELECT_BY_MIN_PROB (1 / 2) tri_lib = Inl Out_Of_Bounds"
proof (intro conjI)
  have four: "4 \<notin> methods"
    by (simp add: methods_def SELECT_BY_NODE_WEIGHT_def SELECT_BY_ARC_WEIGHT_def SELECT_BY_MIN_PROB_def SELECT_BY_MAX_ARC_def)
  note size = MAX_GRAPH_SIZE_def
  show "TraceSelection (Some tri) SELECT_BY_MAX_ARC 2 tri_lib = Inl (Punt ''TraceSelection: min_prob must be within [0..1]'')"
    using trace_errors [of SELECT_BY_MAX_ARC 2 tri_lib tri] by simp
  show "TraceSelection (Some tri) 4 0 tri_lib = Inl (Punt ''TraceSelection: illegal selection method'')"
    using trace_errors [of 4 0 tri_lib tri] four by simp
  show "TraceSelection (Some \<lparr>root = Some 0, gnodes = [0..<8192]\<rparr>) SELECT_BY_MAX_ARC 0 tri_lib = Inl (Punt ''SelectBySortArc: graph is too large'')"
    using trace_errors [of SELECT_BY_MAX_ARC 0 tri_lib "\<lparr>root = Some 0, gnodes = [0..<8192]\<rparr>"] by (simp add: size)
  show "TraceSelection (Some \<lparr>root = None, gnodes = [0]\<rparr>) SELECT_BY_NODE_WEIGHT 0 tri_lib = Inl (Punt ''no root node'')"
    using trace_errors [of SELECT_BY_NODE_WEIGHT 0 tri_lib "\<lparr>root = None, gnodes = [0]\<rparr>"] tri_ext by simp
  show "TraceSelection (Some \<lparr>root = Some 0, gnodes = [0..<8193]\<rparr>) SELECT_BY_MIN_PROB (1 / 2) tri_lib = Inl Out_Of_Bounds"
    using trace_errors [of SELECT_BY_MIN_PROB "1 / 2" tri_lib "\<lparr>root = Some 0, gnodes = [0..<8193]\<rparr>"] tri_ext by (simp add: size)
qed

text \<open>
  C22. \<open>SelectTraces\<close> ends, whatever the weights and the way the best neighbour is chosen, and puts every node of the graph into exactly one trace: the
  traces are paths along arcs of the graph that share no node, the type of a node is the number of its trace, the head and the tail
  of a trace are flagged and nothing else is, the root is the head of the first trace, and the arcs that got a type
  are those along a trace. \<open>LOOP_HEAD\<close> is set exactly on the heads of the traces whose tail has an arc back to the head.
\<close>
theorem SelectTraces_partition:
  assumes "selectable gr r g"
  shows "\<exists>h ts. SelectTraces gr g = Inr ((), h) \<and> traces (gnodes gr) r (node_mem h) ts \<and> hd (hd ts) = r \<and> looped (gnodes gr) (node_mem h) ts \<and>
    (\<forall>a\<in>set (gnodes gr). flag VISITED (node_mem h a) \<and> (\<exists>!t. t \<in> set ts \<and> a \<in> set t)) \<and>
    (\<forall>a. drawn (node_mem h a) = drawn (node_mem g a)) \<and> (\<forall>a. a \<notin> set (gnodes gr) \<longrightarrow> node_mem h a = node_mem g a)"
proof -
  have s: "ext_ok g" "root gr = Some r" "distinct (gnodes gr)" "r \<in> set (gnodes gr)" "length (gnodes gr) < MAX_GRAPH_SIZE" "paired (gnodes gr) (node_mem g)"
    using assms by (simp_all add: selectable_def trace_ok_def)
  from SelectTraces_wp [OF s(1) refl s(2-6)] obtain h ts where run: "SelectTraces gr g = Inr ((), h)"
    and out: "\<And>a. outline (node_mem h a) = outline (cleared (gnodes gr) (numbered (gnodes gr) (node_mem g)) a)"
      "\<forall>a. a \<notin> set (gnodes gr) \<longrightarrow> node_mem h a = node_mem g a"
    and tr: "traces (gnodes gr) r (node_mem h) ts" "hd (hd ts) = r" "looped (gnodes gr) (node_mem h) ts" "\<forall>a\<in>set (gnodes gr). flag VISITED (node_mem h a)"
    by (auto simp: wp_run)
  note tD = tracesD [OF tr(1)]
  have "\<exists>!t. t \<in> set ts \<and> a \<in> set t" if "a \<in> set (gnodes gr)" for a using tD(12) [OF that] tD(10) by blast
  moreover have "drawn (node_mem h a) = drawn (node_mem g a)" for a using drawn_outline [OF out(1)] by simp
  ultimately show ?thesis using run tr out(2) by blast
qed

theorem SelectTraces_witness: "\<exists>h ts. SelectTraces tri tri_lib = Inr ((), h) \<and> traces [0, 1, 2] 0 (node_mem h) ts \<and> hd (hd ts) = 0"
  using SelectTraces_partition [OF tri_selectable] by (simp only: tri_simps) blast

text \<open>
  C1. \<open>SelectBySortArc\<close> ends and partitions the nodes in the same way, and its traces can not be joined further: an arc from the tail of a
  trace to the head of a trace goes to the root or closes a loop.
\<close>
theorem SelectBySortArc_maximal:
  assumes "selectable gr r g" and "length (cell_list (gnodes gr) (node_mem g)) < MAX_SIZE"
  shows "\<exists>h ts. SelectBySortArc gr g = Inr ((), h) \<and> traces (gnodes gr) r (node_mem h) ts \<and> looped (gnodes gr) (node_mem h) ts \<and>
    (\<forall>t\<in>set ts. \<forall>u\<in>set ts. hd u \<in> succs (node_mem h) (last t) \<longrightarrow> t = u \<or> hd u = r) \<and>
    (\<forall>a. drawn (node_mem h a) = drawn (node_mem g a)) \<and> (\<forall>a. a \<notin> set (gnodes gr) \<longrightarrow> node_mem h a = node_mem g a)"
proof -
  have s: "trace_ok g" "root gr = Some r" "distinct (gnodes gr)" "length (gnodes gr) < MAX_GRAPH_SIZE" "paired (gnodes gr) (node_mem g)"
    using assms(1) by (simp_all add: selectable_def)
  from SelectBySortArc_selected [OF s(1) refl s(2-4) assms(2) s(5)] show ?thesis
    unfolding wp_run selected_def maximal_def by (elim exE conjE) (intro exI conjI, simp, assumption+)
qed

theorem SelectBySortArc_witness: "\<exists>h ts. SelectBySortArc tri tri_lib = Inr ((), h) \<and> traces [0, 1, 2] 0 (node_mem h) ts \<and> maximal 0 (node_mem h) ts"
  using SelectBySortArc_maximal [OF tri_selectable] unfolding tri_simps tri_cells maximal_def by (simp add: MAX_SIZE_def MAX_GRAPH_SIZE_def) blast

text \<open>
  C21. \<open>TraceSelection\<close> ends with every method and rearranges the chain of the nodes: the new chain has the same nodes, each once, the
  root first, and is the concatenation of the traces, each in its order along the arcs. The weights, the
  identifiers and the arcs of the nodes are as before up to the types, no node that was in use is lost, and nodes outside of the
  graph are not touched. The selection by the largest arcs leaves no two traces that an arc could join.
\<close>
theorem TraceSelection_arranges:
  assumes "selectable gr r g" and "meth \<in> methods" and "0 \<le> p" and "p \<le> 1"
    and "meth = SELECT_BY_MAX_ARC \<Longrightarrow> length (cell_list (gnodes gr) (node_mem g)) < MAX_SIZE"
  shows "\<exists>gr' h us. TraceSelection (Some gr) meth p g = Inr (gr', h) \<and> gr' = gr\<lparr>gnodes := concat us\<rparr> \<and> mset (gnodes gr') = mset (gnodes gr) \<and>
    hd (gnodes gr') = r \<and> traces (gnodes gr) r (node_mem h) us \<and> looped (gnodes gr) (node_mem h) us \<and>
    (meth = SELECT_BY_MAX_ARC \<longrightarrow> maximal r (node_mem h) us) \<and> trace_ok h \<and> in_use g \<subseteq> in_use h \<and>
    (\<forall>a\<in>in_use g. drawn (node_mem h a) = drawn (node_mem g a)) \<and> (\<forall>a\<in>in_use g - set (gnodes gr). node_mem h a = node_mem g a)"
proof -
  have s: "trace_ok g" "root gr = Some r" "distinct (gnodes gr)" "r \<in> set (gnodes gr)" "set (gnodes gr) \<subseteq> in_use g"
    "length (gnodes gr) < MAX_GRAPH_SIZE" "paired (gnodes gr) (node_mem g)" using assms(1) by (simp_all add: selectable_def)
  from TraceSelection_wp [OF s(1) refl s(2-7) assms(3,4) assms(2) [unfolded methods_def] assms(5)] obtain gr' h us
    where run: "TraceSelection (Some gr) meth p g = Inr (gr', h)" and a: "arranged (gnodes gr) r g gr us gr' h"
      and mx: "meth = SELECT_BY_MAX_ARC \<longrightarrow> maximal r (node_mem h) us" by (auto simp: wp_run)
  have a': "gr' = gr\<lparr>gnodes := concat us\<rparr>" "traces (gnodes gr) r (node_mem h) us" "hd (hd us) = r" using a by (simp_all add: arranged_def)
  note tD = tracesD [OF a'(2)]
  have "mset (concat us) = mset (gnodes gr)" by (rule traces_perm [OF a'(2) s(3)])
  moreover have "hd (concat us) = r"
  proof (cases us)
    case Nil
    then show ?thesis using tD(2) s(4) by simp
  next
    case (Cons u us')
    then show ?thesis using a'(3) tD(6) [of u] by simp
  qed
  ultimately show ?thesis using run mx a unfolding arranged_def by (intro exI [of _ gr'] exI [of _ h] exI [of _ us]) simp
qed

theorem TraceSelection_witness: "\<exists>gr' h. TraceSelection (Some tri) SELECT_BY_MAX_ARC 0 tri_lib = Inr (gr', h) \<and>
  mset (gnodes gr') = {#0, 1, 2#} \<and> hd (gnodes gr') = 0"
  using TraceSelection_arranges [OF tri_selectable, of SELECT_BY_MAX_ARC 0] unfolding tri_simps tri_cells
  by (simp add: methods_def MAX_SIZE_def MAX_GRAPH_SIZE_def) blast





end
