(* ===== verification/Heap_Queue.thy ===== *)
theory Heap_Queue
  imports Impact_Prelude "HOL-Library.Multiset"
begin

text \<open>
  The priority queue of \<open>src/src/library/heap/heap.c\<close> and \<open>heap.h\<close>.

  A heap node is named by its position in the tree: the root is 1, the left child of \<open>k\<close> is \<open>2 * k\<close>, the
  right child \<open>2 * k + 1\<close> and the parent \<open>k div 2\<close>. The three pointers of a node are these positions, and a
  pointer is NULL when there is no node at its position; reading through it is then a fault. The
  code finds the place of the next or the last node by reading the bits of the size from the
  top, which is \<open>top_bit\<close> and \<open>walk\<close>. Weights are doubles in the code; here they are of any linearly
  ordered type, which leaves out only NaN. An element is a pointer that may be NULL.

  \<open>1 << n\<close> overflows from \<open>n = 31\<close> on, so the operations fault from a size of 2^30 on.
\<close>

section \<open>Data\<close>

record ('w, 'e) HeapNode =
  weight :: 'w
  element :: "'e option"

record ('w, 'e) Heap =
  heap :: "nat \<rightharpoonup> ('w, 'e) HeapNode"
  hp_size :: int
  dir :: int

definition HEAP_MAX :: int where
  "HEAP_MAX = 1"

definition HEAP_MIN :: int where
  "HEAP_MIN = 2"

definition hp_get :: "nat \<Rightarrow> (('w, 'e, 'z) Heap_scheme, ('w, 'e) HeapNode) prog" where
  "hp_get k = (\<lambda>h. case heap h k of None \<Rightarrow> Inl Null_Deref | Some n \<Rightarrow> Inr (n, h))"

definition hp_put :: "nat \<Rightarrow> ('w, 'e) HeapNode option \<Rightarrow> (('w, 'e, 'z) Heap_scheme, unit) prog" where
  "hp_put k n = modify (\<lambda>h. h\<lparr>heap := (heap h)(k := n)\<rparr>)"

definition Heap_NodeSwap :: "nat \<Rightarrow> nat \<Rightarrow> (('w, 'e, 'z) Heap_scheme, unit) prog" where
  "Heap_NodeSwap a b =
     bnd (hp_get a) (\<lambda>na.
     bnd (hp_get b) (\<lambda>nb.
     bnd (hp_put a (Some nb)) (\<lambda>_.
     hp_put b (Some na))))"

section \<open>Operations\<close>

text \<open>
  One round of \<open>HeapifyMax\<close> and \<open>HeapifyMin\<close>, which differ in the comparison \<open>gt\<close> only: the position to go on
  from, or None for the return.
\<close>

definition heapify_round :: "('w \<Rightarrow> 'w \<Rightarrow> bool) \<Rightarrow> nat \<Rightarrow> (('w, 'e, 'z) Heap_scheme, nat option) prog" where
  "heapify_round gt current =
     bnd (gets heap) (\<lambda>hp.
     bnd (hp_get current) (\<lambda>c.
     let largest = (case hp (2 * current) of None \<Rightarrow> current
                    | Some l \<Rightarrow> if gt (weight l) (weight c) then 2 * current else current) in
     bnd (hp_get largest) (\<lambda>m.
     let largest = (case hp (2 * current + 1) of None \<Rightarrow> largest
                    | Some r \<Rightarrow> if gt (weight r) (weight m) then 2 * current + 1 else largest) in
     if largest \<noteq> current
     then bnd (Heap_NodeSwap current largest) (\<lambda>_. ret (Some largest))
     else ret None)))"

definition heapify :: "('w \<Rightarrow> 'w \<Rightarrow> bool) \<Rightarrow> (('w, 'e, 'z) Heap_scheme, unit) prog" where
  "heapify gt =
     bnd (while_prog (\<lambda>current. current \<noteq> None) (\<lambda>current. heapify_round gt (the current)) (Some 1)) (\<lambda>_. ret ())"

definition HeapifyMax :: "(('w :: linorder, 'e, 'z) Heap_scheme, unit) prog" where
  "HeapifyMax = heapify (>)"

definition HeapifyMin :: "(('w :: linorder, 'e, 'z) Heap_scheme, unit) prog" where
  "HeapifyMin = heapify (<)"

definition Heap_Create :: "int \<Rightarrow> ('w, 'e) Heap" where
  "Heap_Create d = \<lparr>heap = Map.empty, hp_size = 0, dir = d\<rparr>"

text \<open>\<open>while (size >= (1 << pt)) ++pt;\<close>\<close>

function top_bit :: "int \<Rightarrow> nat \<Rightarrow> ('s, nat) prog" where
  "top_bit sz pt = (if pt \<ge> 31 then fail Int_Overflow else if sz \<ge> 2 ^ pt then top_bit sz (pt + 1) else ret pt)"
  by pat_completeness auto
termination by (relation "measure (\<lambda>(_, pt). 31 - pt)") auto

declare top_bit.simps [simp del]

text \<open>\<open>while (pt > 1) { if (size & (1 << --pt)) node = node->right; else node = node->left; }\<close>\<close>

fun walk :: "int \<Rightarrow> nat \<Rightarrow> nat \<Rightarrow> (('w, 'e, 'z) Heap_scheme, nat) prog" where
  "walk sz pt k =
     (if pt > 1
      then bnd (hp_get k) (\<lambda>_. walk sz (pt - 1) (if bit sz (pt - 1) then 2 * k + 1 else 2 * k))
      else ret k)"

declare walk.simps [simp del]

text \<open>
  The loops at the end of \<open>Heap_Insert\<close>: \<open>lt\<close> compares the weight of the parent with the inserted one.
\<close>

function sift_up :: "('w \<Rightarrow> 'w \<Rightarrow> bool) \<Rightarrow> 'w \<Rightarrow> nat \<Rightarrow> (('w, 'e, 'z) Heap_scheme, unit) prog" where
  "sift_up lt w k =
     (if k = 0 then ret ()
      else
        bnd (gets heap) (\<lambda>hp.
        case hp (k div 2) of
          None \<Rightarrow> ret ()
        | Some p \<Rightarrow>
            if lt (weight p) w
            then bnd (Heap_NodeSwap k (k div 2)) (\<lambda>_. sift_up lt w (k div 2))
            else ret ()))"
  by pat_completeness auto
termination by (relation "measure (\<lambda>(_, _, k). k)") auto

declare sift_up.simps [simp del]

definition Heap_Insert :: "'e option \<Rightarrow> 'w :: linorder \<Rightarrow> (('w, 'e, 'z) Heap_scheme, unit) prog" where
  "Heap_Insert elt w =
     bnd (gets hp_size) (\<lambda>s0.
     let sz = s0 + 1 in
     if sz > 2 ^ 31 - 1 then fail Int_Overflow
     else
       bnd (modify (\<lambda>h. h\<lparr>hp_size := sz\<rparr>)) (\<lambda>_.
       bnd (top_bit sz 0) (\<lambda>pt.
       bnd (walk sz (pt - 1) 1) (\<lambda>k.
       bnd (if sz = 1 then ret 1
            else bnd (hp_get k) (\<lambda>_. ret (if odd sz then 2 * k + 1 else 2 * k))) (\<lambda>k.
       bnd (hp_put k (Some \<lparr>weight = w, element = elt\<rparr>)) (\<lambda>_.
       bnd (hp_put (2 * k) None) (\<lambda>_.
       bnd (hp_put (2 * k + 1) None) (\<lambda>_.
       bnd (gets dir) (\<lambda>d.
       if d = HEAP_MAX then sift_up (<) w k else sift_up (>) w k)))))))))"

definition Heap_Top :: "(('w, 'e, 'z) Heap_scheme, 'e option) prog" where
  "Heap_Top = bnd (gets hp_size) (\<lambda>sz. if sz \<ge> 1 then bnd (hp_get 1) (\<lambda>n. ret (element n)) else ret None)"

definition Heap_TopWeight :: "(('w, 'e, 'z) Heap_scheme, 'w option) prog" where
  "Heap_TopWeight = bnd (gets hp_size) (\<lambda>sz. if sz \<ge> 1 then bnd (hp_get 1) (\<lambda>n. ret (Some (weight n))) else ret None)"

definition Heap_ExtractTop :: "(('w :: linorder, 'e, 'z) Heap_scheme, 'e option) prog" where
  "Heap_ExtractTop =
     bnd (gets hp_size) (\<lambda>sz.
     if sz < 1 then ret None
     else
       bnd (hp_get 1) (\<lambda>top.
       bnd (top_bit sz 0) (\<lambda>pt.
       bnd (walk sz (pt - 1) 1) (\<lambda>k.
       if sz = 1 then
         bnd (modify (\<lambda>h. h\<lparr>hp_size := 0\<rparr>)) (\<lambda>_.
         bnd (hp_put 1 None) (\<lambda>_.
         ret (element top)))
       else
         bnd (hp_get k) (\<lambda>_.
         let k = (if odd sz then 2 * k + 1 else 2 * k) in
         bnd (hp_get k) (\<lambda>last.
         bnd (hp_put k None) (\<lambda>_.
         bnd (hp_get 1) (\<lambda>_.
         bnd (hp_put 1 (Some last)) (\<lambda>_.
         bnd (modify (\<lambda>h. h\<lparr>hp_size := sz - 1\<rparr>)) (\<lambda>_.
         bnd (gets dir) (\<lambda>d.
         bnd (if d = HEAP_MAX then HeapifyMax else HeapifyMin) (\<lambda>_.
         ret (element top)))))))))))))"

text \<open>
  One round of \<open>Heap_Dispose\<close> on the node \<open>k\<close>: the node to go on from. The callback is an argument.
\<close>

definition dispose_round ::
  "('e \<Rightarrow> (('w, 'e, 'z) Heap_scheme, unit) prog) option \<Rightarrow> nat \<Rightarrow> (('w, 'e, 'z) Heap_scheme, nat option) prog" where
  "dispose_round element_dispose k =
     bnd (gets heap) (\<lambda>hp.
     if hp (2 * k) \<noteq> None then ret (Some (2 * k))
     else if hp (2 * k + 1) \<noteq> None then ret (Some (2 * k + 1))
     else
       bnd (hp_get k) (\<lambda>n.
       bnd (case (element_dispose, element n) of (Some f, Some e) \<Rightarrow> f e | _ \<Rightarrow> ret ()) (\<lambda>_.
       bnd (hp_put k None) (\<lambda>_.
       ret (if hp (k div 2) = None then None else Some (k div 2))))))"

definition Heap_Dispose ::
  "('e \<Rightarrow> (('w, 'e, 'z) Heap_scheme, unit) prog) option \<Rightarrow> (('w, 'e, 'z) Heap_scheme, unit) prog" where
  "Heap_Dispose element_dispose =
     bnd (gets heap) (\<lambda>hp.
     bnd (while_prog (\<lambda>node. node \<noteq> None) (\<lambda>node. dispose_round element_dispose (the node))
            (if hp 1 = None then None else Some 1)) (\<lambda>_.
     ret ()))"

section \<open>The shape of a heap\<close>

definition shaped :: "('w, 'e, 'z) Heap_scheme \<Rightarrow> nat \<Rightarrow> bool" where
  "shaped h n = (hp_size h = int n \<and> dom (heap h) = {1..n})"

definition wt :: "(nat \<rightharpoonup> ('w, 'e) HeapNode) \<Rightarrow> nat \<Rightarrow> 'w" where
  "wt hp k = weight (the (hp k))"

definition contents :: "('w, 'e, 'z) Heap_scheme \<Rightarrow> ('w, 'e) HeapNode multiset" where
  "contents h = image_mset (\<lambda>k. the (heap h k)) (mset_set (dom (heap h)))"

lemma shaped_dom: "dom (heap h) = {1..n} \<Longrightarrow> (\<exists>x. heap h k = Some x) \<longleftrightarrow> 1 \<le> k \<and> k \<le> n"
  by (metis atLeastAtMost_iff domD domI)

lemma wp_hp_get: "wp (hp_get k) Q h \<longleftrightarrow> (\<exists>x. heap h k = Some x \<and> Q x h)"
  by (simp add: wp_def hp_get_def split: option.split)

lemma wp_hp_get_Some [simp]: "heap h k = Some x \<Longrightarrow> wp (hp_get k) Q h = Q x h"
  by (simp add: wp_hp_get)

lemma wp_hp_put [simp]: "wp (hp_put k n) Q h = Q () (h\<lparr>heap := (heap h)(k := n)\<rparr>)"
  by (simp add: hp_put_def)

definition swap_pos :: "nat \<Rightarrow> nat \<Rightarrow> nat \<Rightarrow> nat" where
  "swap_pos a b k = (if k = a then b else if k = b then a else k)"

definition swapped :: "(nat \<rightharpoonup> 'n) \<Rightarrow> nat \<Rightarrow> nat \<Rightarrow> (nat \<rightharpoonup> 'n)" where
  "swapped hp a b = (\<lambda>k. hp (swap_pos a b k))"

lemma wp_swap:
  assumes "a \<in> dom (heap h)" "b \<in> dom (heap h)"
  shows "wp (Heap_NodeSwap a b) Q h = Q () (h\<lparr>heap := swapped (heap h) a b\<rparr>)"
proof -
  have "swapped (heap h) a b = (heap h)(a := heap h b, b := heap h a)"
    by (auto simp: swapped_def swap_pos_def)
  with assms show ?thesis by (auto simp: Heap_NodeSwap_def)
qed

lemma swap_pos_invol [simp]: "swap_pos a b (swap_pos a b k) = k"
  by (simp add: swap_pos_def)

lemma swap_pos_in: "a \<in> D \<Longrightarrow> b \<in> D \<Longrightarrow> swap_pos a b k \<in> D \<longleftrightarrow> k \<in> D"
  by (simp add: swap_pos_def)

lemma dom_swapped: "a \<in> dom hp \<Longrightarrow> b \<in> dom hp \<Longrightarrow> dom (swapped hp a b) = dom hp"
  using swap_pos_in [of a "dom hp" b] by (auto simp: swapped_def)

lemma contents_swapped:
  assumes "a \<in> dom (heap h)" "b \<in> dom (heap h)"
  shows "contents (h\<lparr>heap := swapped (heap h) a b\<rparr>) = contents h"
proof -
  let ?t = "swap_pos a b" and ?D = "dom (heap h)"
  have im: "?t ` ?D = ?D"
    using swap_pos_in [OF assms] by (metis (no_types, lifting) image_eqI image_subsetI subsetI subset_antisym swap_pos_invol)
  have "image_mset (\<lambda>k. the (heap h (?t k))) (mset_set ?D) =
      image_mset (\<lambda>k. the (heap h k)) (image_mset ?t (mset_set ?D))"
    by (simp add: image_mset.compositionality o_def)
  also have "image_mset ?t (mset_set ?D) = mset_set (?t ` ?D)"
    by (rule image_mset_mset_set) (metis inj_onI swap_pos_invol)
  finally show ?thesis
    using dom_swapped [OF assms] by (simp add: contents_def im) (simp add: swapped_def)
qed

section \<open>Finding the place of the last node\<close>

lemma top_bit_ret:
  assumes "0 < n" "n \<le> 30" "2 ^ (n - 1) \<le> sz" "sz < 2 ^ n"
  shows "pt \<le> n \<Longrightarrow> top_bit sz pt = ret n"
proof (induction "n - pt" arbitrary: pt)
  case 0
  with assms show ?case by (subst top_bit.simps) simp
next
  case (Suc d)
  then have "pt \<le> n - 1" by simp
  then have "(2 :: int) ^ pt \<le> 2 ^ (n - 1)" by (rule power_increasing) simp
  with assms(3) have "2 ^ pt \<le> sz" by linarith
  with Suc.hyps(1) [of "pt + 1"] show ?case
    using assms(2) Suc.hyps(2) Suc.prems by (subst top_bit.simps) simp
qed

text \<open>The number of bits of a size.\<close>

lemma bits_exist: "0 < N \<Longrightarrow> N < 2 ^ 30 \<Longrightarrow> \<exists>n>0. n \<le> 30 \<and> 2 ^ (n - 1) \<le> N \<and> N < (2 :: nat) ^ n"
proof -
  assume N: "0 < N" "N < 2 ^ 30"
  obtain j where j: "2 ^ j \<le> N" "N < 2 ^ (j + 1)" using ex_power_ivl1 [of 2 N] N by auto
  have "j < 30"
  proof (rule ccontr)
    assume "\<not> j < 30"
    then have "(2 :: nat) ^ 30 \<le> 2 ^ j" by (intro power_increasing) auto
    with j(1) N(2) show False by linarith
  qed
  with j show ?thesis by (intro exI [of _ "j + 1"]) simp
qed

lemma walk_stop: "pt \<le> 1 \<Longrightarrow> walk sz pt k = ret k"
  by (subst walk.simps) simp

lemma walk_wp:
  assumes dom: "\<And>j. 2 \<le> j \<Longrightarrow> j \<le> pt \<Longrightarrow> heap h (N div 2 ^ j) \<noteq> None" and pt: "0 < pt" and k: "k = N div 2 ^ pt"
  shows "wp (walk (int N) pt k) Q h = Q (N div 2) h"
  using dom pt k
proof (induction pt arbitrary: k)
  case (Suc pt)
  show ?case
  proof (cases "pt = 0")
    case True
    with Suc.prems show ?thesis by (simp add: walk_stop)
  next
    case False
    have "N div 2 ^ pt = 2 * (N div 2 ^ pt div 2) + N div 2 ^ pt mod 2" by simp
    also have "N div 2 ^ pt div 2 = k" using Suc.prems(3) by (simp add: div_mult2_eq [symmetric] mult.commute)
    finally have step: "N div 2 ^ pt = 2 * k + N div 2 ^ pt mod 2" .
    have "bit (int N) pt \<longleftrightarrow> odd (N div 2 ^ pt)"
      by (simp add: bit_of_nat_iff_bit) (simp add: bit_iff_odd)
    with step have next_k: "(if bit (int N) pt then 2 * k + 1 else 2 * k) = N div 2 ^ pt" by (auto simp: odd_iff_mod_2_eq_one)
    obtain x where "heap h k = Some x" using Suc.prems(1) [of "Suc pt"] Suc.prems(3) False by auto
    moreover have "wp (walk (int N) pt (N div 2 ^ pt)) Q h = Q (N div 2) h"
      by (rule Suc.IH) (use Suc.prems(1) False in auto)
    ultimately show ?thesis
      using False by (subst walk.simps) (simp add: next_k)
  qed
qed simp

text \<open>The parent of position \<open>N\<close>, found from the bits of \<open>N\<close>.\<close>

lemma find_parent:
  fixes h :: "('w, 'e, 'z) Heap_scheme"
  assumes N: "0 < N" "N < 2 ^ 30" and dom: "\<And>j. 1 \<le> j \<Longrightarrow> j < N \<Longrightarrow> heap h j \<noteq> None"
  shows "wp (bnd (top_bit (int N) 0) (\<lambda>pt. bnd (walk (int N) (pt - 1) 1) f)) Q h =
    wp (f (if N = 1 then 1 else N div 2)) Q h"
proof -
  obtain n where n: "0 < n" "n \<le> 30" "2 ^ (n - 1) \<le> N" "N < 2 ^ n" using bits_exist [OF N] by blast
  have top: "(top_bit (int N) 0 :: (('w, 'e, 'z) Heap_scheme, nat) prog) = ret n"
    by (rule top_bit_ret [OF n(1,2)]) (use n(3,4) in \<open>simp_all flip: of_nat_power\<close>)
  have one: "N div 2 ^ (n - 1) = 1"
  proof -
    have "N < 2 * 2 ^ (n - 1)" using n(1,4) by (cases n) auto
    with n(3) show ?thesis by (simp add: div_nat_eqI)
  qed
  show ?thesis
  proof (cases "n = 1")
    case True
    with n have "N = 1" by auto
    with True top show ?thesis by (simp add: walk_stop)
  next
    case False
    have "heap h (N div 2 ^ j) \<noteq> None" if "2 \<le> j" "j \<le> n - 1" for j
    proof (rule dom)
      have "(2 :: nat) ^ j \<le> 2 ^ (n - 1)" using that by (intro power_increasing) auto
      with n(3) have "2 ^ j \<le> N" by linarith
      then show "1 \<le> N div 2 ^ j" by (simp add: Suc_le_eq div_greater_zero_iff)
      have "1 < (2 :: nat) ^ j" using that by (intro one_less_power) auto
      with N(1) show "N div 2 ^ j < N" by (intro div_less_dividend)
    qed
    moreover have "N \<noteq> 1"
    proof
      assume "N = 1"
      moreover have "(1 :: nat) < 2 ^ (n - 1)" using False n(1) by (intro one_less_power) auto
      ultimately show False using n(3) by linarith
    qed
    ultimately show ?thesis
      using False n(1) one top by (simp add: walk_wp)
  qed
qed

section \<open>Restoring the order\<close>

text \<open>
  The contract of the comparison: it is a strict weak order. The two directions of the heap are the two
  interpretations.
\<close>

locale ranking =
  fixes gt :: "'w \<Rightarrow> 'w \<Rightarrow> bool"
  assumes gt_asym: "gt x y \<Longrightarrow> \<not> gt y x"
    and not_gt_trans: "\<not> gt x y \<Longrightarrow> \<not> gt y z \<Longrightarrow> \<not> gt x z"
begin

definition ordered :: "(nat \<rightharpoonup> ('w, 'e) HeapNode) \<Rightarrow> nat \<Rightarrow> bool" where
  "ordered hp n = (\<forall>j\<in>{2..n}. \<not> gt (wt hp j) (wt hp (j div 2)))"

text \<open>
  Ordered but for the arc above \<open>k\<close>, and but for the arcs below \<open>k\<close>; in both cases what is below \<open>k\<close> does not
  beat what is above it.
\<close>

definition ordered_above :: "(nat \<rightharpoonup> ('w, 'e) HeapNode) \<Rightarrow> nat \<Rightarrow> nat \<Rightarrow> bool" where
  "ordered_above hp n k = ((\<forall>j\<in>{2..n}. j \<noteq> k \<longrightarrow> \<not> gt (wt hp j) (wt hp (j div 2))) \<and>
     (\<forall>j\<in>{2..n}. j div 2 = k \<and> 2 \<le> k \<longrightarrow> \<not> gt (wt hp j) (wt hp (k div 2))))"

definition ordered_below :: "(nat \<rightharpoonup> ('w, 'e) HeapNode) \<Rightarrow> nat \<Rightarrow> nat \<Rightarrow> bool" where
  "ordered_below hp n k = ((\<forall>j\<in>{2..n}. j div 2 \<noteq> k \<longrightarrow> \<not> gt (wt hp j) (wt hp (j div 2))) \<and>
     (\<forall>j\<in>{2..n}. j div 2 = k \<and> 2 \<le> k \<longrightarrow> \<not> gt (wt hp j) (wt hp (k div 2))))"

lemma gt_irrefl: "\<not> gt x x"
  using gt_asym by blast

lemma top_best:
  assumes "ordered hp n"
  shows "1 \<le> k \<Longrightarrow> k \<le> n \<Longrightarrow> \<not> gt (wt hp k) (wt hp 1)"
proof (induction k rule: less_induct)
  case (less k)
  show ?case
  proof (cases "k = 1")
    case True
    then show ?thesis by (simp add: gt_irrefl)
  next
    case False
    with less.prems have "\<not> gt (wt hp k) (wt hp (k div 2))" using assms by (simp add: ordered_def)
    moreover have "\<not> gt (wt hp (k div 2)) (wt hp 1)"
      using less.IH [of "k div 2"] less.prems False by simp
    ultimately show ?thesis by (rule not_gt_trans)
  qed
qed

lemma wt_swapped: "wt (swapped hp a b) j = wt hp (swap_pos a b j)"
  by (simp add: wt_def swapped_def)

lemma sift_up_swap:
  assumes inv: "ordered_above hp n k" and k: "2 \<le> k" "k \<le> n" and gt: "gt (wt hp k) (wt hp (k div 2))"
  shows "ordered_above (swapped hp k (k div 2)) n (k div 2)"
proof -
  let ?p = "k div 2"
  have p: "?p < k" "1 \<le> ?p" using k by auto
  note asym = gt_asym [OF gt]
  have old: "\<not> gt (wt hp j) (wt hp (j div 2))" if "2 \<le> j" "j \<le> n" "j \<noteq> k" for j
    using inv that by (simp add: ordered_above_def)
  have low: "\<not> gt (wt hp j) (wt hp ?p)" if "2 \<le> j" "j \<le> n" "j div 2 = k" for j
    using inv that k by (simp add: ordered_above_def)
  have "\<not> gt (wt hp (swap_pos k ?p j)) (wt hp (swap_pos k ?p (j div 2)))"
    if j: "2 \<le> j" "j \<le> n" "j \<noteq> ?p" for j
  proof -
    have side: "\<not> gt (wt hp j) (wt hp k)" if "j \<noteq> k" "j div 2 = ?p"
      using not_gt_trans [OF old [OF j(1,2) that(1), unfolded that(2)] asym] .
    have "j div 2 < j" using j by simp
    consider "j = k" | "j \<noteq> k" "j div 2 = k" | "j \<noteq> k" "j div 2 = ?p" | "j \<noteq> k" "j div 2 \<noteq> k" "j div 2 \<noteq> ?p" by blast
    then show ?thesis
      by cases (use j p asym low [OF j(1,2)] old [OF j(1,2)] side in \<open>auto simp: swap_pos_def\<close>)
  qed
  moreover have "\<not> gt (wt hp (swap_pos k ?p j)) (wt hp (swap_pos k ?p (?p div 2)))"
    if j: "2 \<le> j" "j \<le> n" "j div 2 = ?p" "2 \<le> ?p" for j
  proof -
    have pp: "\<not> gt (wt hp ?p) (wt hp (?p div 2))" by (rule old) (use p k j in auto)
    have "?p div 2 < ?p" using j(4) by simp
    moreover have "\<not> gt (wt hp j) (wt hp (?p div 2))" if "j \<noteq> k"
      using not_gt_trans [OF old [OF j(1,2) that, unfolded j(3)] pp] .
    ultimately show ?thesis
      using p j pp by (cases "j = k") (auto simp: swap_pos_def)
  qed
  ultimately show ?thesis unfolding ordered_above_def wt_swapped by auto
qed

lemma heapify_swap:
  assumes inv: "ordered_below hp n k" and m: "m div 2 = k" "2 \<le> m" "m \<le> n" and gt: "gt (wt hp m) (wt hp k)"
    and best: "\<And>j. 2 \<le> j \<Longrightarrow> j \<le> n \<Longrightarrow> j div 2 = k \<Longrightarrow> \<not> gt (wt hp j) (wt hp m)"
  shows "ordered_below (swapped hp k m) n m"
proof -
  have km: "k < m" "1 \<le> k" using m by auto
  note asym = gt_asym [OF gt]
  have old: "\<not> gt (wt hp j) (wt hp (j div 2))" if "2 \<le> j" "j \<le> n" "j div 2 \<noteq> k" for j
    using inv that by (simp add: ordered_below_def)
  have low: "\<not> gt (wt hp m) (wt hp (k div 2))" if "2 \<le> k"
    using inv that m by (simp add: ordered_below_def)
  have "\<not> gt (wt hp (swap_pos k m j)) (wt hp (swap_pos k m (j div 2)))"
    if j: "2 \<le> j" "j \<le> n" "j div 2 \<noteq> m" for j
  proof -
    have "j div 2 < j" using j by simp
    consider "j = m" | "j \<noteq> m" "j div 2 = k" | "j = k" | "j \<noteq> m" "j \<noteq> k" "j div 2 \<noteq> k" by blast
    then show ?thesis
      by cases (use j m km asym low old [OF j(1,2)] best [OF j(1,2)] \<open>j div 2 < j\<close> in \<open>auto simp: swap_pos_def\<close>)
  qed
  moreover have "\<not> gt (wt hp (swap_pos k m j)) (wt hp (swap_pos k m (m div 2)))"
    if j: "2 \<le> j" "j \<le> n" "j div 2 = m" for j
    using old [OF j(1,2)] j km m by (auto simp: swap_pos_def)
  ultimately show ?thesis unfolding ordered_below_def wt_swapped by auto
qed

lemma heapify_end:
  assumes "ordered_below hp n k" "\<And>j. 2 \<le> j \<Longrightarrow> j \<le> n \<Longrightarrow> j div 2 = k \<Longrightarrow> \<not> gt (wt hp j) (wt hp k)"
  shows "ordered hp n"
  using assms by (fastforce simp: ordered_below_def ordered_def)

text \<open>The loops.\<close>

lemma sift_up_wp:
  fixes h :: "('w, 'e, 'z) Heap_scheme"
  shows "shaped h n \<Longrightarrow> 1 \<le> k \<Longrightarrow> k \<le> n \<Longrightarrow> ordered_above (heap h) n k \<Longrightarrow> wt (heap h) k = w \<Longrightarrow>
    wp (sift_up (\<lambda>p w. gt w p) w k) (\<lambda>_ h'. shaped h' n \<and> ordered (heap h') n \<and> contents h' = contents h \<and>
      dir h' = dir h) h"
proof (induction k arbitrary: h rule: less_induct)
  case (less k)
  have dom: "dom (heap h) = {1..n}" using less.prems(1) by (simp add: shaped_def)
  let ?Q = "\<lambda>_ h'. shaped h' n \<and> ordered (heap h') n \<and> contents h' = contents h \<and> dir h' = dir h"
  have stop: "ordered (heap h) n" if "k = 1 \<or> \<not> gt (wt (heap h) k) (wt (heap h) (k div 2))"
    using that less.prems(4) unfolding ordered_def ordered_above_def by auto
  show ?case
  proof (cases "k = 1")
    case True
    with dom have "heap h (k div 2) = None" by (metis atLeastAtMost_iff div_less domIff le_zero_eq less_numeral_extra(4) one_less_numeral_iff semiring_norm(76) zero_neq_one)
    with True stop less.prems(1) show ?thesis by (subst sift_up.simps) simp
  next
    case False
    with less.prems dom obtain p where p: "heap h (k div 2) = Some p"
      using shaped_dom [OF dom, of "k div 2"] by auto
    have wp: "weight p = wt (heap h) (k div 2)" by (simp add: wt_def p)
    show ?thesis
    proof (cases "gt w (weight p)")
      case True
      let ?h = "h\<lparr>heap := swapped (heap h) k (k div 2)\<rparr>"
      have in_dom: "k \<in> dom (heap h)" "k div 2 \<in> dom (heap h)" using dom less.prems(2,3) False by auto
      have "wp (sift_up (\<lambda>p w. gt w p) w (k div 2)) (\<lambda>_ h'. shaped h' n \<and> ordered (heap h') n \<and>
          contents h' = contents ?h \<and> dir h' = dir ?h) ?h"
      proof (rule less.IH)
        show "shaped ?h n" using less.prems(1) dom_swapped [OF in_dom] by (simp add: shaped_def)
        show "ordered_above (heap ?h) n (k div 2)"
          using sift_up_swap [OF less.prems(4)] less.prems False True wp by simp
        show "wt (heap ?h) (k div 2) = w" using less.prems(5) by (simp add: wt_swapped swap_pos_def)
      qed (use less.prems False in auto)
      then have "wp (sift_up (\<lambda>p w. gt w p) w (k div 2)) ?Q ?h"
        by (simp add: contents_swapped [OF in_dom])
      with True p False less.prems(2) show ?thesis
        by (subst sift_up.simps) (simp add: wp_swap [OF in_dom])
    next
      case F: False
      with stop wp less.prems(5) have "ordered (heap h) n" by simp
      with F p less.prems(1,2) show ?thesis by (subst sift_up.simps) simp
    qed
  qed
qed

lemma heapify_round_wp:
  fixes h :: "('w, 'e, 'z) Heap_scheme"
  assumes sh: "shaped h n" and k: "1 \<le> k" "k \<le> n" and inv: "ordered_below (heap h) n k"
  shows "wp (heapify_round gt k) (\<lambda>r h'. shaped h' n \<and> contents h' = contents h \<and> dir h' = dir h \<and>
    (case r of None \<Rightarrow> ordered (heap h') n | Some m \<Rightarrow> k < m \<and> m \<le> n \<and> ordered_below (heap h') n m)) h"
    (is "wp _ ?Q h")
proof -
  have dom: "dom (heap h) = {1..n}" using sh by (simp add: shaped_def)
  let ?W = "wt (heap h)"
  let ?l = "if 2 * k \<le> n \<and> gt (?W (2 * k)) (?W k) then 2 * k else k"
  let ?m = "if 2 * k + 1 \<le> n \<and> gt (?W (2 * k + 1)) (?W ?l) then 2 * k + 1 else ?l"
  have at: "heap h j = (if 1 \<le> j \<and> j \<le> n then Some (the (heap h j)) else None)" for j
    using shaped_dom [OF dom, of j] by (cases "heap h j") auto
  have "(case heap h (2 * k) of None \<Rightarrow> k | Some l \<Rightarrow> if gt (weight l) (weight (the (heap h k))) then 2 * k else k) = ?l"
    using k by (subst at) (simp add: wt_def)
  moreover have "(case heap h (2 * k + 1) of None \<Rightarrow> ?l
      | Some r \<Rightarrow> if gt (weight r) (weight (the (heap h ?l))) then 2 * k + 1 else ?l) = ?m"
    using k by (subst at) (simp add: wt_def)
  moreover have "heap h k = Some (the (heap h k))" "heap h ?l = Some (the (heap h ?l))"
    using k by (subst at, simp)+
  ultimately have run: "wp (heapify_round gt k) ?Q h =
      wp (if ?m \<noteq> k then bnd (Heap_NodeSwap k ?m) (\<lambda>_. ret (Some ?m)) else ret None) ?Q h"
    unfolding heapify_round_def Let_def by (simp only: wp_bnd wp_gets wp_hp_get_Some)
  have kids: "j = 2 * k \<or> j = 2 * k + 1" if "j div 2 = k" for j using that by auto
  have best: "\<not> gt (?W j) (?W ?m)" if "2 \<le> j" "j \<le> n" "j div 2 = k" for j
    using kids [OF that(3)] that(2) gt_irrefl [of "?W (2 * k)"] gt_irrefl [of "?W (2 * k + 1)"]
      gt_asym [of "?W (2 * k + 1)" "?W (2 * k)"] gt_asym [of "?W (2 * k + 1)" "?W k"]
      not_gt_trans [of "?W (2 * k)" "?W k" "?W (2 * k + 1)"]
    by (elim disjE) (simp_all split: if_splits)
  show ?thesis
  proof (cases "?m = k")
    case True
    have "ordered (heap h) n" by (rule heapify_end [OF inv]) (use best [unfolded True] in auto)
    then show ?thesis unfolding run using True sh by simp
  next
    case False
    have m: "?m div 2 = k" "2 \<le> ?m" "?m \<le> n" "k < ?m" using False k by (auto split: if_splits)
    have up: "gt (?W ?m) (?W k)"
      using False gt_asym [of "?W (2 * k)" "?W k"] not_gt_trans [of "?W (2 * k + 1)" "?W k" "?W (2 * k)"]
      by (auto split: if_splits)
    have in_dom: "k \<in> dom (heap h)" "?m \<in> dom (heap h)" unfolding dom using k m(2,3) by auto
    have "ordered_below (swapped (heap h) k ?m) n ?m"
      by (rule heapify_swap [OF inv m(1-3) up best])
    moreover have "shaped (h\<lparr>heap := swapped (heap h) k ?m\<rparr>) n"
      using sh dom_swapped [OF in_dom] by (simp add: shaped_def)
    ultimately have "?Q (Some ?m) (h\<lparr>heap := swapped (heap h) k ?m\<rparr>)"
      using m contents_swapped [OF in_dom] by simp
    then show ?thesis unfolding run if_P [OF False] wp_bnd wp_ret wp_swap [OF in_dom] .
  qed
qed

lemma heapify_wp:
  fixes h :: "('w, 'e, 'z) Heap_scheme"
  assumes "shaped h n" "1 \<le> n" "ordered_below (heap h) n 1"
  shows "wp (heapify gt) (\<lambda>_ h'. shaped h' n \<and> ordered (heap h') n \<and> contents h' = contents h \<and> dir h' = dir h) h"
proof -
  let ?I = "\<lambda>c h'. shaped h' n \<and> contents h' = contents h \<and> dir h' = dir h \<and>
    (case c of None \<Rightarrow> ordered (heap h') n | Some k \<Rightarrow> 1 \<le> k \<and> k \<le> n \<and> ordered_below (heap h') n k)"
  let ?r = "measure (\<lambda>(c, h' :: ('w, 'e, 'z) Heap_scheme). case c of None \<Rightarrow> 0 | Some k \<Rightarrow> n + 1 - k)"
  have "wp (while_prog (\<lambda>c. c \<noteq> None) (\<lambda>c. heapify_round gt (the c)) (Some 1)) (\<lambda>c h'. ?I c h' \<and> c = None) h"
  proof (rule wp_while_prog [where I = ?I and r = ?r])
    show "?I (Some 1) h" using assms by simp
    fix c and h' :: "('w, 'e, 'z) Heap_scheme" assume I: "?I c h'" and "c \<noteq> None"
    then obtain k where c: "c = Some k" by auto
    with I have "shaped h' n" "1 \<le> k" "k \<le> n" "ordered_below (heap h') n k" by auto
    from heapify_round_wp [OF this] show "wp (heapify_round gt (the c)) (\<lambda>c' h''. ?I c' h'' \<and> ((c', h''), c, h') \<in> ?r) h'"
      unfolding c option.sel
      by (rule wp_mono) (use I c in \<open>auto split: option.splits\<close>)
  qed auto
  then show ?thesis unfolding heapify_def wp_bnd wp_ret by (rule wp_mono) auto
qed

end

definition beats :: "int \<Rightarrow> 'w :: linorder \<Rightarrow> 'w \<Rightarrow> bool" where
  "beats d x y = (if d = HEAP_MAX then x > y else x < y)"

interpretation by_dir: ranking "beats d" for d
  by unfold_locales (auto simp: beats_def split: if_splits)

text \<open>A heap as the operations keep it: complete, and ordered by its direction.\<close>

definition heap_ok :: "('w :: linorder, 'e, 'z) Heap_scheme \<Rightarrow> bool" where
  "heap_ok h = (0 \<le> hp_size h \<and> dom (heap h) = {1..nat (hp_size h)} \<and>
     (\<forall>j\<in>{2..nat (hp_size h)}. \<not> beats (dir h) (wt (heap h) j) (wt (heap h) (j div 2))))"

lemma heap_ok_iff: "heap_ok h \<longleftrightarrow> shaped h (nat (hp_size h)) \<and> by_dir.ordered (dir h) (heap h) (nat (hp_size h))"
  by (auto simp: heap_ok_def shaped_def by_dir.ordered_def)

lemma shaped_ok: "shaped h n \<Longrightarrow> by_dir.ordered (dir h) (heap h) n \<Longrightarrow> heap_ok h \<and> hp_size h = int n"
  by (auto simp: heap_ok_iff shaped_def)


section \<open>The operations\<close>

lemma contents_upd: "contents (h\<lparr>hp_size := s\<rparr>) = contents h" "contents (h\<lparr>dir := d\<rparr>) = contents h"
  by (simp_all add: contents_def)

lemma size_contents: "shaped h n \<Longrightarrow> size (contents h) = n"
  by (simp add: contents_def shaped_def)

lemma contents_put:
  assumes "dom (heap h) = {1..n}"
  shows "contents (h\<lparr>heap := (heap h)(Suc n := Some x)\<rparr>) = add_mset x (contents h)"
proof -
  have "{1..Suc n} = insert (Suc n) {1..n}" by auto
  moreover have "image_mset (\<lambda>k. the (((heap h)(Suc n := Some x)) k)) (mset_set {1..n}) =
      image_mset (\<lambda>k. the (heap h k)) (mset_set {1..n})"
    by (rule image_mset_cong) auto
  ultimately show ?thesis using assms by (simp add: contents_def)
qed

text \<open>From the parent to the position itself.\<close>

lemma find_place:
  fixes h :: "('w, 'e, 'z) Heap_scheme"
  assumes N: "0 < N" "N < 2 ^ 30" and dom: "\<And>j. 1 \<le> j \<Longrightarrow> j < N \<Longrightarrow> heap h j \<noteq> None"
  shows "wp (bnd (top_bit (int N) 0) (\<lambda>pt. bnd (walk (int N) (pt - 1) 1) (\<lambda>k.
      bnd (if int N = 1 then ret 1 else bnd (hp_get k) (\<lambda>_. ret (if odd (int N) then 2 * k + 1 else 2 * k))) f))) Q h =
    wp (f N) Q h"
proof (subst find_parent [OF assms])
  show "wp (bnd (if int N = 1 then ret 1 else bnd (hp_get (if N = 1 then 1 else N div 2))
      (\<lambda>_. ret (if odd (int N) then 2 * (if N = 1 then 1 else N div 2) + 1 else 2 * (if N = 1 then 1 else N div 2)))) f) Q h =
    wp (f N) Q h"
  proof (cases "N = 1")
    case False
    obtain x where x: "heap h (N div 2) = Some x" using dom [of "N div 2"] N False by fastforce
    have "(if odd N then 2 * (N div 2) + 1 else 2 * (N div 2)) = N" by simp
    with False x show ?thesis by (simp del: if_split)
  qed simp
qed

lemma Heap_Insert_wp:
  assumes ok: "heap_ok h" and less: "hp_size h < 2 ^ 30 - 1"
  shows "wp (Heap_Insert e w) (\<lambda>_ h'. heap_ok h' \<and> dir h' = dir h \<and> hp_size h' = hp_size h + 1 \<and>
    contents h' = add_mset \<lparr>weight = w, element = e\<rparr> (contents h)) h"
proof -
  let ?x = "\<lparr>weight = w, element = e\<rparr>" and ?d = "dir h"
  obtain n where sz: "hp_size h = int n" using ok by (auto simp: heap_ok_def elim: nonneg_int_cases)
  have sh: "shaped h n" and ord: "by_dir.ordered ?d (heap h) n" using ok sz by (auto simp: heap_ok_iff)
  have dom: "dom (heap h) = {1..n}" using sh by (auto simp: shaped_def)
  let ?N = "Suc n"
  let ?h1 = "h\<lparr>hp_size := int ?N\<rparr>"
  let ?h2 = "h\<lparr>hp_size := int ?N, heap := (heap h)(?N := Some ?x)\<rparr>"
  have in_heap: "heap h j \<noteq> None" if "1 \<le> j" "j < ?N" for j using shaped_dom [OF dom, of j] that by auto
  have none: "heap h (2 * ?N) = None" "heap h (2 * ?N + 1) = None"
    using shaped_dom [OF dom, of "2 * ?N"] shaped_dom [OF dom, of "2 * ?N + 1"] by (cases "heap h (2 * ?N)"; cases "heap h (2 * ?N + 1)"; auto)+
  have h2: "(heap h)(?N := Some ?x, 2 * ?N := None, 2 * ?N + 1 := None) = (heap h)(?N := Some ?x)"
    using none by (auto simp: fun_eq_iff)
  have sh2: "shaped ?h2 ?N" using dom sz by (auto simp: shaped_def)
  have wt: "wt (heap ?h2) j = (if j = ?N then w else wt (heap h) j)" for j by (simp add: wt_def)
  have "by_dir.ordered_above ?d (heap ?h2) ?N ?N"
    using ord unfolding by_dir.ordered_above_def by_dir.ordered_def wt by auto
  then have "wp (sift_up (\<lambda>p w. beats ?d w p) w ?N) (\<lambda>_ h'. shaped h' ?N \<and> by_dir.ordered ?d (heap h') ?N \<and>
      contents h' = contents ?h2 \<and> dir h' = dir ?h2) ?h2"
    by (intro by_dir.sift_up_wp [OF sh2]) (simp_all add: wt_def)
  moreover have "contents ?h2 = add_mset ?x (contents h)"
    using contents_put [of ?h1 n ?x] dom by (simp add: contents_upd)
  ultimately have sift: "wp (sift_up (\<lambda>p w. beats ?d w p) w ?N) (\<lambda>_ h'. heap_ok h' \<and> dir h' = dir h \<and>
      hp_size h' = hp_size h + 1 \<and> contents h' = add_mset ?x (contents h)) ?h2"
    by (elim wp_mono) (use sz shaped_ok in force)
  have dirs: "(if ?d = HEAP_MAX then sift_up (<) w ?N else sift_up (>) w ?N) = sift_up (\<lambda>p w. beats ?d w p) w ?N"
    by (simp add: beats_def)
  have N: "hp_size h + 1 = int ?N" using sz by simp
  have no: "\<not> 2 ^ 31 - 1 < int ?N" and lim: "0 < ?N" "?N < 2 ^ 30" using less sz by auto
  have sift': "wp (if ?d = HEAP_MAX then sift_up (<) w ?N else sift_up (>) w ?N) (\<lambda>_ h'. heap_ok h' \<and>
      dir h' = dir h \<and> hp_size h' = int ?N \<and> contents h' = add_mset ?x (contents h)) ?h2"
    unfolding dirs by (rule sift [unfolded N])
  show ?thesis
    unfolding Heap_Insert_def Let_def wp_bnd [of "gets _"] wp_gets N if_not_P [OF no] wp_bnd [of "modify _"] wp_modify
    by (subst find_place [OF lim]) (use in_heap sift' in \<open>auto simp: h2 [simplified] split: if_splits\<close>)
qed


lemma contents_1: "shaped h 1 \<Longrightarrow> contents h = {#the (heap h 1)#}"
  by (simp add: contents_def shaped_def)

lemma Heap_ExtractTop_empty: "hp_size h < 1 \<Longrightarrow> Heap_ExtractTop h = Inr (None, h)"
  by (simp add: Heap_ExtractTop_def bnd_def gets_def ret_def)

lemma contents_take:
  assumes dom: "dom (heap h) = {1..Suc n}" and n: "1 \<le> n"
  shows "contents (h\<lparr>heap := (heap h)(Suc n := None, 1 := heap h (Suc n))\<rparr>) = contents h - {#the (heap h 1)#}"
proof -
  have S: "{1..Suc n} = insert (Suc n) {1..n}" and T: "{1..n} = insert 1 {2..n}" using n by auto
  let ?hp = "(heap h)(Suc n := None, 1 := heap h (Suc n))"
  have "image_mset (\<lambda>k. the (?hp k)) (mset_set {2..n}) = image_mset (\<lambda>k. the (heap h k)) (mset_set {2..n})"
    by (rule image_mset_cong) auto
  moreover have "?hp 1 = heap h (Suc n)" by simp
  ultimately have "image_mset (\<lambda>k. the (?hp k)) (mset_set {1..n}) =
      add_mset (the (heap h (Suc n))) (image_mset (\<lambda>k. the (heap h k)) (mset_set {2..n}))"
    unfolding T by (simp del: fun_upd_apply)
  moreover have "dom ?hp = {1..n}"
    using dom n by (auto simp: dom_def set_eq_iff)
  then have "contents (h\<lparr>heap := ?hp\<rparr>) = image_mset (\<lambda>k. the (?hp k)) (mset_set {1..n})"
    unfolding contents_def by (simp del: fun_upd_apply dom_fun_upd)
  moreover have "contents h = {#the (heap h 1)#} + add_mset (the (heap h (Suc n))) (image_mset (\<lambda>k. the (heap h k)) (mset_set {2..n}))"
    unfolding contents_def dom S T using n by simp
  ultimately show ?thesis by simp
qed

lemma Heap_ExtractTop_wp:
  assumes ok: "heap_ok h" and less: "hp_size h < 2 ^ 30" and pos: "1 \<le> hp_size h"
  shows "wp Heap_ExtractTop (\<lambda>r h'. heap_ok h' \<and> dir h' = dir h \<and> hp_size h' = hp_size h - 1 \<and>
    r = element (the (heap h 1)) \<and> contents h' = contents h - {#the (heap h 1)#}) h"
proof -
  let ?d = "dir h"
  obtain n where "nat (hp_size h) = Suc n" using pos by (cases "nat (hp_size h)") auto
  then have sz: "hp_size h = int (Suc n)" by simp
  let ?N = "Suc n"
  have sh: "shaped h ?N" and ord: "by_dir.ordered ?d (heap h) ?N"
    using ok unfolding heap_ok_iff \<open>nat (hp_size h) = Suc n\<close> by auto
  have dom: "dom (heap h) = {1..?N}" using sh by (simp add: shaped_def)
  have at: "heap h j = Some (the (heap h j))" if "1 \<le> j" "j \<le> ?N" for j
    using shaped_dom [OF dom, of j] that by auto
  have in_heap: "heap h j \<noteq> None" if "1 \<le> j" "j < ?N" for j using at [of j] that by auto
  have lim: "0 < ?N" "?N < 2 ^ 30" and no: "\<not> int ?N < 1" using less sz by auto
  have h1: "heap h 1 = Some (the (heap h 1))" by (rule at) auto
  show ?thesis
  proof (cases "n = 0")
    case True
    have "contents h = {#the (heap h 1)#}" using contents_1 sh True by simp
    moreover have "heap_ok (h\<lparr>hp_size := 0, heap := (heap h)(1 := None)\<rparr>)"
      using dom True by (auto simp: heap_ok_def)
    moreover have "contents (h\<lparr>hp_size := 0, heap := (heap h)(1 := None)\<rparr>) = {#}"
      using dom True by (simp add: contents_def)
    ultimately show ?thesis
      unfolding Heap_ExtractTop_def Let_def wp_bnd [of "gets _"] wp_gets sz if_not_P [OF no] wp_bnd [of "hp_get 1"] wp_hp_get_Some [OF h1]
      by (subst find_parent [OF lim]) (use True in_heap in simp_all)
  next
    case False
    let ?h2 = "h\<lparr>heap := (heap h)(?N := None, 1 := heap h ?N), hp_size := int n\<rparr>"
    have sh2: "shaped ?h2 n" using dom False by (auto simp: shaped_def dom_def set_eq_iff)
    have wt: "wt (heap ?h2) j = wt (heap h) j" if "2 \<le> j" "j \<le> n" for j using that by (simp add: wt_def)
    have "by_dir.ordered_below ?d (heap ?h2) n 1"
      unfolding by_dir.ordered_below_def
    proof (intro conjI ballI impI)
      fix j assume j: "j \<in> {2..n}" "j div 2 \<noteq> 1"
      then have j2: "2 \<le> j" "j \<le> n" "2 \<le> j div 2" "j div 2 \<le> n" by auto
      show "\<not> beats ?d (wt (heap ?h2) j) (wt (heap ?h2) (j div 2))"
        unfolding wt [OF j2(1,2)] wt [OF j2(3,4)] using j ord by (simp add: by_dir.ordered_def)
    qed simp
    then have "wp (heapify (beats ?d)) (\<lambda>_ h'. shaped h' n \<and> by_dir.ordered ?d (heap h') n \<and>
        contents h' = contents ?h2 \<and> dir h' = dir ?h2) ?h2"
      using False by (intro by_dir.heapify_wp [OF sh2]) auto
    moreover have "contents ?h2 = contents h - {#the (heap h 1)#}"
      using contents_take [OF dom] False by (simp add: contents_def)
    ultimately have restore: "wp (heapify (beats ?d)) (\<lambda>_ h'. heap_ok h' \<and> dir h' = dir h \<and> hp_size h' = int n \<and>
        contents h' = contents h - {#the (heap h 1)#}) ?h2"
      by (elim wp_mono) (use shaped_ok in force)
    have dirs: "(if ?d = HEAP_MAX then HeapifyMax else HeapifyMin) = heapify (beats ?d)"
      by (simp add: HeapifyMax_def HeapifyMin_def beats_def [abs_def])
    have k: "(if odd (int ?N) then 2 * (?N div 2) + 1 else 2 * (?N div 2)) = ?N" by simp
    have par: "heap h (?N div 2) = Some (the (heap h (?N div 2)))" and last: "heap h ?N = Some (the (heap h ?N))"
      and not1: "?N \<noteq> 1" "int ?N \<noteq> 1"
      using False by (auto intro!: at)
    have top: "heap (h\<lparr>heap := (heap h)(?N := None)\<rparr>) 1 = Some (the (heap h 1))" using h1 False by simp
    show ?thesis
      unfolding Heap_ExtractTop_def Let_def wp_bnd [of "gets _"] wp_gets sz if_not_P [OF no] wp_bnd [of "hp_get 1"] wp_hp_get_Some [OF h1]
      apply (subst find_parent [OF lim in_heap], assumption, assumption)
      unfolding if_not_P [OF not1(1)] if_not_P [OF not1(2)] wp_bnd [of "hp_get _"] wp_hp_get_Some [OF par] k
        wp_hp_get_Some [OF last] wp_bnd [of "hp_put _ _"] wp_hp_put wp_hp_get_Some [OF top] wp_bnd [of "modify _"] wp_modify
      using restore [folded dirs] last sz by (auto split: if_splits)
  qed
qed

end
