(* ===== verification/Heap_Properties.thy ===== *)
theory Heap_Properties
  imports Heap_Queue
begin

text \<open>
  What the heap of \<open>src/src/library/heap/heap.c\<close> promises: the contract of a priority queue, as a locale,
  with heap sort as its client; the interpretation on the model; and the properties.
\<close>

section \<open>Priority queues\<close>

locale priority_queue =
  fixes ok :: "'q \<Rightarrow> bool"
    and bag :: "'q \<Rightarrow> 'x multiset"
    and limit :: nat
    and after :: "'x \<Rightarrow> 'x \<Rightarrow> bool"
    and put_in :: "'x \<Rightarrow> ('q, unit) prog"
    and take_out :: "('q, 'x) prog"
  assumes put_in_law: "ok q \<Longrightarrow> size (bag q) < limit \<Longrightarrow>
      wp (put_in x) (\<lambda>_ q'. ok q' \<and> bag q' = add_mset x (bag q)) q"
    and take_out_law: "ok q \<Longrightarrow> bag q \<noteq> {#} \<Longrightarrow> size (bag q) \<le> limit \<Longrightarrow>
      wp take_out (\<lambda>x q'. ok q' \<and> x \<in># bag q \<and> bag q' = bag q - {#x#} \<and> (\<forall>y\<in>#bag q. after y x)) q"
begin

primrec drain :: "nat \<Rightarrow> ('q, 'x list) prog" where
  "drain 0 = ret []"
| "drain (Suc n) = bnd take_out (\<lambda>x. bnd (drain n) (\<lambda>xs. ret (x # xs)))"

lemma fill_wp:
  "ok q \<Longrightarrow> size (bag q) + length xs \<le> limit \<Longrightarrow>
   wp (for_each (\<lambda>x _. put_in x) xs ()) (\<lambda>_ q'. ok q' \<and> bag q' = bag q + mset xs) q"
proof (induction xs arbitrary: q)
  case (Cons x xs)
  have "wp (put_in x) (\<lambda>_ q'. ok q' \<and> bag q' = add_mset x (bag q)) q"
    using Cons.prems by (intro put_in_law) auto
  then show ?case
    unfolding for_each.simps
    by (rule wp_seq) (use Cons.prems in \<open>auto intro!: wp_mono [OF Cons.IH]\<close>)
qed simp

lemma drain_wp:
  "ok q \<Longrightarrow> size (bag q) = n \<Longrightarrow> n \<le> limit \<Longrightarrow>
   wp (drain n) (\<lambda>xs q'. ok q' \<and> bag q' = {#} \<and> mset xs = bag q \<and> sorted_wrt (\<lambda>x y. after y x) xs) q"
proof (induction n arbitrary: q)
  case (Suc n)
  have "wp take_out (\<lambda>x q'. ok q' \<and> x \<in># bag q \<and> bag q' = bag q - {#x#} \<and> (\<forall>y\<in>#bag q. after y x)) q"
    using Suc.prems by (intro take_out_law) auto
  then show ?case
    unfolding drain.simps
  proof (rule wp_seq, elim conjE)
    fix x q' assume q': "ok q'" "x \<in># bag q" "bag q' = bag q - {#x#}" "\<forall>y\<in>#bag q. after y x"
    have "wp (drain n) (\<lambda>xs q''. ok q'' \<and> bag q'' = {#} \<and> mset xs = bag q' \<and> sorted_wrt (\<lambda>x y. after y x) xs) q'"
      using Suc.prems q' by (intro Suc.IH) (simp_all add: size_Diff_singleton)
    then show "wp (bnd (drain n) (\<lambda>xs. ret (x # xs))) (\<lambda>xs q'. ok q' \<and> bag q' = {#} \<and> mset xs = bag q \<and>
        sorted_wrt (\<lambda>x y. after y x) xs) q'"
      by (rule wp_seq) (use q' in \<open>auto dest: in_diffD simp flip: set_mset_mset\<close>)
  qed
qed simp

text \<open>Everything put in comes out again, best first.\<close>

lemma sort_wp:
  assumes "ok q" "bag q = {#}" "length xs \<le> limit"
  shows "wp (bnd (for_each (\<lambda>x _. put_in x) xs ()) (\<lambda>_. drain (length xs)))
    (\<lambda>ys q'. mset ys = mset xs \<and> sorted_wrt (\<lambda>x y. after y x) ys) q"
  by (rule wp_seq [OF fill_wp [OF assms(1)]])
     (use assms(2,3) in \<open>auto intro!: wp_mono [OF drain_wp]\<close>)

end

text \<open>The node at the top, read and extracted as clients of the heap do.\<close>

definition take_top :: "(('w :: linorder, 'e, 'z) Heap_scheme, ('w, 'e) HeapNode) prog" where
  "take_top =
     bnd Heap_TopWeight (\<lambda>w.
     bnd Heap_ExtractTop (\<lambda>e.
     case w of None \<Rightarrow> fail Null_Deref | Some w \<Rightarrow> ret \<lparr>weight = w, element = e\<rparr>))"

definition insert_node :: "('w :: linorder, 'e) HeapNode \<Rightarrow> (('w, 'e, 'z) Heap_scheme, unit) prog" where
  "insert_node x = Heap_Insert (element x) (weight x)"

lemma heap_ok_size: "heap_ok h \<Longrightarrow> hp_size h = int (size (contents h))"
  using size_contents [of h "nat (hp_size h)"] by (auto simp: heap_ok_iff shaped_def)

lemma heap_top:
  assumes "heap_ok h" "1 \<le> hp_size h"
  shows "heap h 1 = Some (the (heap h 1))" "the (heap h 1) \<in># contents h"
    "y \<in># contents h \<Longrightarrow> \<not> beats (dir h) (weight y) (weight (the (heap h 1)))"
proof -
  let ?n = "nat (hp_size h)"
  have sh: "shaped h ?n" and ord: "by_dir.ordered (dir h) (heap h) ?n" using assms(1) by (auto simp: heap_ok_iff)
  have dom: "dom (heap h) = {1..?n}" using sh by (simp add: shaped_def)
  have one: "1 \<in> {1..?n}" using assms(2) by auto
  then show "heap h 1 = Some (the (heap h 1))" using dom by (metis domD option.sel)
  show "the (heap h 1) \<in># contents h" using one dom by (simp add: contents_def)
  assume "y \<in># contents h"
  then obtain k where "k \<in> {1..?n}" "y = the (heap h k)" using dom by (auto simp: contents_def)
  with by_dir.top_best [OF ord, of k] show "\<not> beats (dir h) (weight y) (weight (the (heap h 1)))"
    by (simp add: wt_def)
qed

lemma take_top_wp:
  assumes "heap_ok h" "1 \<le> hp_size h" "hp_size h < 2 ^ 30"
  shows "wp take_top (\<lambda>x h'. heap_ok h' \<and> dir h' = dir h \<and> x = the (heap h 1) \<and> contents h' = contents h - {#x#}) h"
proof -
  obtain x where x: "heap h 1 = Some x" using heap_top(1) [OF assms(1,2)] by blast
  then show ?thesis
    using assms(2) unfolding take_top_def Heap_TopWeight_def
    by simp (rule wp_mono [OF Heap_ExtractTop_wp [OF assms(1,3,2)]], cases x, simp)
qed

interpretation hq: priority_queue "\<lambda>h. heap_ok h \<and> dir h = d" contents "2 ^ 30 - 1"
    "\<lambda>y x. \<not> beats d (weight y) (weight x)" insert_node take_top for d
proof (unfold_locales, goal_cases)
  case (1 q x)
  then have "hp_size q < 2 ^ 30 - 1" using heap_ok_size [of q] by auto
  with 1 show ?case
    unfolding insert_node_def by (intro wp_mono [OF Heap_Insert_wp]) auto
next
  case (2 q)
  then have "0 < size (contents q)" by (simp add: nonempty_has_size)
  with 2 have sz: "1 \<le> hp_size q" "hp_size q < 2 ^ 30" using heap_ok_size [of q] by auto
  with 2 heap_top [of q] show ?case by (intro wp_mono [OF take_top_wp]) auto
qed

primrec take_all :: "nat \<Rightarrow> (('w :: linorder, 'e, 'z) Heap_scheme, ('w, 'e) HeapNode list) prog" where
  "take_all 0 = ret []"
| "take_all (Suc n) = bnd take_top (\<lambda>x. bnd (take_all n) (\<lambda>xs. ret (x # xs)))"

lemma drain_take_all: "hq.drain n = take_all n"
  by (induction n) simp_all

section \<open>Disposal\<close>

text \<open>
  \<open>closed D\<close>: with a node its parent is in the heap too. \<open>gone h\<close> is what the callback has been given.
\<close>

definition closed :: "nat set \<Rightarrow> bool" where
  "closed D = (finite D \<and> 0 \<notin> D \<and> (\<forall>j\<in>D. j \<noteq> 1 \<longrightarrow> j div 2 \<in> D))"

lemma closed_root: "closed D \<Longrightarrow> j \<in> D \<Longrightarrow> 1 \<in> D"
proof (induction j rule: less_induct)
  case (less j)
  show ?case
  proof (cases "j = 1")
    case False
    with less.prems have "j div 2 \<in> D" "j \<noteq> 0" unfolding closed_def by (blast, metis)
    with less.IH [of "j div 2"] less.prems(1) show ?thesis by simp
  qed (use less.prems in simp)
qed

lemma closed_leaf_root:
  assumes "closed D" "1 \<in> D" "2 \<notin> D" "3 \<notin> D"
  shows "D = {1}"
proof -
  have "j = 1" if "j \<in> D" for j
    using that
  proof (induction j rule: less_induct)
    case (less j)
    show ?case
    proof (rule ccontr)
      assume "j \<noteq> 1"
      with less.prems assms(1) have "j div 2 \<in> D" "j \<noteq> 0" unfolding closed_def by (blast, metis)
      with less.IH [of "j div 2"] have "j div 2 = 1" by simp
      then have "j = 2 \<or> j = 3" by auto
      with less.prems assms show False by auto
    qed
  qed
  with assms(2) show ?thesis by blast
qed

lemma closed_remove:
  assumes "closed D" "2 * k \<notin> D" "2 * k + 1 \<notin> D"
  shows "closed (D - {k})"
proof -
  have "j div 2 \<noteq> k" if "j \<in> D" for j using that assms(2,3) by (cases "even j") (auto elim!: oddE)
  with assms(1) show ?thesis by (auto simp: closed_def)
qed

definition elements :: "(nat \<rightharpoonup> ('w, 'e) HeapNode) \<Rightarrow> 'e multiset" where
  "elements hp = sum (\<lambda>k. case element (the (hp k)) of None \<Rightarrow> {#} | Some e \<Rightarrow> {#e#}) (dom hp)"

lemma elements_remove:
  assumes "finite (dom hp)" "hp k = Some n"
  shows "elements hp = (case element n of None \<Rightarrow> {#} | Some e \<Rightarrow> {#e#}) + elements (hp(k := None))"
proof -
  have "k \<in> dom hp" using assms(2) by auto
  then show ?thesis
    using assms unfolding elements_def by (simp add: sum.remove)
qed

definition dispose_inv ::
  "(('w, 'e, 'z) Heap_scheme \<Rightarrow> 'e multiset) \<Rightarrow> 'e multiset \<Rightarrow> nat option \<Rightarrow> ('w, 'e, 'z) Heap_scheme \<Rightarrow> bool" where
  "dispose_inv gone sum0 c h = (closed (dom (heap h)) \<and> elements (heap h) + gone h = sum0 \<and>
     (case c of None \<Rightarrow> dom (heap h) = {} | Some k \<Rightarrow> k \<in> dom (heap h)))"

lemma dispose_round_wp:
  fixes h :: "('w, 'e, 'z) Heap_scheme"
  assumes call: "\<And>e h. wp (f e) (\<lambda>_ h'. heap h' = heap h \<and> gone h' = add_mset e (gone h)) h"
    and put: "\<And>h hp. gone (h\<lparr>heap := hp\<rparr>) = gone h"
    and inv: "dispose_inv gone sum0 (Some k) h" and bound: "\<And>j. j \<in> dom (heap h) \<Longrightarrow> j \<le> b"
  shows "wp (dispose_round (Some f) k) (\<lambda>c h'. dispose_inv gone sum0 c h' \<and> dom (heap h') \<subseteq> dom (heap h) \<and>
    (card (dom (heap h')) < card (dom (heap h)) \<or>
     card (dom (heap h')) = card (dom (heap h)) \<and> (\<exists>k'. c = Some k' \<and> k < k' \<and> k' \<le> b))) h"
    (is "wp _ ?Q h")
proof -
  have cl: "closed (dom (heap h))" and el: "elements (heap h) + gone h = sum0" and k: "k \<in> dom (heap h)"
    using inv by (auto simp: dispose_inv_def)
  then obtain n where n: "heap h k = Some n" by auto
  have k0: "0 < k" using cl k by (cases k) (auto simp: closed_def)
  consider (left) "2 * k \<in> dom (heap h)" | (right) "2 * k \<notin> dom (heap h)" "2 * k + 1 \<in> dom (heap h)"
    | (leaf) "2 * k \<notin> dom (heap h)" "2 * k + 1 \<notin> dom (heap h)" by blast
  then show ?thesis
  proof cases
    case left
    then have "?Q (Some (2 * k)) h" using cl el bound k0 by (auto simp: dispose_inv_def)
    with left show ?thesis by (auto simp: dispose_round_def)
  next
    case right
    then have "?Q (Some (2 * k + 1)) h" using cl el bound k0 by (auto simp: dispose_inv_def)
    with right show ?thesis by (auto simp: dispose_round_def domIff)
  next
    case leaf
    let ?D = "dom (heap h)"
    let ?c = "if heap h (k div 2) = None then None else Some (k div 2)"
    have fin: "finite ?D" using cl by (simp add: closed_def)
    have cl': "closed (?D - {k})" by (rule closed_remove [OF cl leaf])
    have "?D - {k} = {}" if "heap h (k div 2) = None"
    proof -
      have "k = 1" using that cl k by (auto simp: closed_def)
      with closed_leaf_root [OF cl] leaf k show ?thesis by (auto simp: numeral_3_eq_3)
    qed
    moreover have "k div 2 \<noteq> k" using k0 by simp
    ultimately have stop: "case ?c of None \<Rightarrow> ?D - {k} = {} | Some j \<Rightarrow> j \<in> ?D - {k}" by auto
    have keep: "?Q ?c (h'\<lparr>heap := (heap h')(k := None)\<rparr>)"
      if "heap h' = heap h" "gone h' = (case element n of None \<Rightarrow> {#} | Some e \<Rightarrow> {#e#}) + gone h" for h'
    proof -
      have "elements ((heap h)(k := None)) + gone h' = sum0"
        using el elements_remove [OF fin n] that(2) by (simp add: ac_simps)
      then show ?thesis
        using that(1) cl' stop card_Diff1_less [OF fin k] by (auto simp: dispose_inv_def put dest: subsetD [OF _ domI])
    qed
    have run: "wp (case (Some f, element n) of (Some f, Some e) \<Rightarrow> f e | _ \<Rightarrow> ret ())
        (\<lambda>_ h'. heap h' = heap h \<and> gone h' = (case element n of None \<Rightarrow> {#} | Some e \<Rightarrow> {#e#}) + gone h) h"
      using call by (cases "element n") auto
    have none: "\<not> heap h (2 * k) \<noteq> None" "\<not> heap h (2 * k + 1) \<noteq> None" using leaf by auto
    show ?thesis
      unfolding dispose_round_def wp_bnd [of "gets _"] wp_gets if_not_P [OF none(1)] if_not_P [OF none(2)]
        wp_bnd [of "hp_get _"] wp_hp_get_Some [OF n]
      by (rule wp_seq [OF run]) (use keep in \<open>simp only: wp_bnd wp_hp_put wp_ret simp_thms\<close>)
  qed
qed

lemma Heap_Dispose_wp:
  fixes h :: "('w, 'e, 'z) Heap_scheme"
  assumes call: "\<And>e h. wp (f e) (\<lambda>_ h'. heap h' = heap h \<and> gone h' = add_mset e (gone h)) h"
    and put: "\<And>h hp. gone (h\<lparr>heap := hp\<rparr>) = gone h" and cl: "closed (dom (heap h))"
  shows "wp (Heap_Dispose (Some f)) (\<lambda>_ h'. heap h' = Map.empty \<and> gone h' = elements (heap h) + gone h) h"
proof -
  let ?t = "elements (heap h) + gone h"
  obtain b where b: "\<And>j. j \<in> dom (heap h) \<Longrightarrow> j \<le> b"
    using cl finite_nat_set_iff_bounded_le [of "dom (heap h)"] by (auto simp: closed_def)
  let ?I = "\<lambda>c h'. dispose_inv gone ?t c h' \<and> dom (heap h') \<subseteq> dom (heap h)"
  let ?m = "\<lambda>(c, h' :: ('w, 'e, 'z) Heap_scheme). (card (dom (heap h')), case c of None \<Rightarrow> 0 | Some k \<Rightarrow> b - k)"
  let ?c = "if heap h 1 = None then None else Some 1"
  have start: "dispose_inv gone ?t ?c h"
  proof -
    have "dom (heap h) = {}" if "heap h 1 = None" using closed_root [OF cl] that by (metis domIff ex_in_conv)
    with cl show ?thesis by (cases "heap h 1") (auto simp: dispose_inv_def)
  qed
  have "wp (while_prog (\<lambda>c. c \<noteq> None) (\<lambda>c. dispose_round (Some f) (the c)) ?c)
      (\<lambda>c h'. ?I c h' \<and> c = None) h"
  proof (rule wp_while_prog [where I = ?I and r = "inv_image (less_than <*lex*> less_than) ?m"])
    show "?I ?c h" using start by simp
    fix c and h' :: "('w, 'e, 'z) Heap_scheme" assume I: "?I c h'" and "c \<noteq> None"
    then obtain k where c: "c = Some k" by auto
    have inv: "dispose_inv gone ?t (Some k) h'" using I c by simp
    have bd: "j \<le> b" if "j \<in> dom (heap h')" for j using I that b by blast
    from dispose_round_wp [where gone = gone, OF call put inv bd]
    show "wp (dispose_round (Some f) (the c))
        (\<lambda>c' h''. ?I c' h'' \<and> ((c', h''), c, h') \<in> inv_image (less_than <*lex*> less_than) ?m) h'"
      unfolding c option.sel by (rule wp_mono) (use I in \<open>auto dest: subsetD [OF _ domI]\<close>)
  qed auto
  then show ?thesis
    unfolding Heap_Dispose_def wp_bnd [of "gets _"] wp_gets wp_bnd wp_ret
    by (rule wp_mono) (auto simp: dispose_inv_def elements_def)
qed

section \<open>Properties\<close>

text \<open>A heap of three nodes, for the witnesses.\<close>

definition sample_heap :: "(int, nat) Heap" where
  "sample_heap = \<lparr>heap = [1 \<mapsto> \<lparr>weight = 9, element = Some 7\<rparr>, 2 \<mapsto> \<lparr>weight = 4, element = None\<rparr>,
     3 \<mapsto> \<lparr>weight = 6, element = Some 5\<rparr>], hp_size = 3, dir = HEAP_MAX\<rparr>"

lemma dom_sample_heap: "dom (heap sample_heap) = {1, 2, 3}"
  by (auto simp: sample_heap_def)

lemma ok_sample_heap: "heap_ok sample_heap" "closed (dom (heap sample_heap))"
proof -
  have three: "{Suc 0..3} = {Suc 0, 2, 3}" "{2..3 :: nat} = {2, 3}" by auto
  show "heap_ok sample_heap"
    unfolding heap_ok_def dom_sample_heap by (simp add: sample_heap_def three wt_def beats_def)
  show "closed (dom (heap sample_heap))" unfolding dom_sample_heap by (simp add: closed_def)
qed

text \<open>
  C26. \<open>Heap_Insert\<close> and \<open>Heap_ExtractTop\<close> keep the heap complete and ordered by its direction. An insertion
  adds one node to the multiset of nodes; an extraction returns the element of a node that no other node beats
  and takes this node away.
\<close>
theorem heap_operations:
  assumes "heap_ok h" and "hp_size h < 2 ^ 30 - 1"
  shows "\<exists>h1. Heap_Insert e w h = Inr ((), h1) \<and> heap_ok h1 \<and> dir h1 = dir h \<and> hp_size h1 = hp_size h + 1 \<and>
      contents h1 = add_mset \<lparr>weight = w, element = e\<rparr> (contents h) \<and>
      (\<exists>n h2. Heap_ExtractTop h1 = Inr (element n, h2) \<and> heap_ok h2 \<and> n \<in># contents h1 \<and>
        contents h2 = contents h1 - {#n#} \<and> (\<forall>y\<in>#contents h1. \<not> beats (dir h) (weight y) (weight n)))"
proof -
  obtain h1 where h1: "Heap_Insert e w h = Inr ((), h1)" "heap_ok h1" "dir h1 = dir h" "hp_size h1 = hp_size h + 1"
      "contents h1 = add_mset \<lparr>weight = w, element = e\<rparr> (contents h)"
    using Heap_Insert_wp [OF assms, of e w] by (auto simp: wp_run)
  have sz: "1 \<le> hp_size h1" "hp_size h1 < 2 ^ 30" using h1(4) assms by (auto simp: heap_ok_def)
  obtain r h2 where "Heap_ExtractTop h1 = Inr (r, h2)" "heap_ok h2" "r = element (the (heap h1 1))"
      "contents h2 = contents h1 - {#the (heap h1 1)#}"
    using Heap_ExtractTop_wp [OF h1(2) sz(2,1)] by (auto simp: wp_run)
  with h1 heap_top(2,3) [OF h1(2) sz(1)] show ?thesis
    by (intro exI [of _ h1] conjI exI [of _ "the (heap h1 1)"] exI [of _ h2]) auto
qed

theorem heap_operations_witness:
  "\<exists>h1. Heap_Insert (Some 8) 20 sample_heap = Inr ((), h1) \<and> heap_ok h1 \<and> hp_size h1 = 4"
  using heap_operations [OF ok_sample_heap(1), of "Some 8" 20] by (auto simp: sample_heap_def)

text \<open>
  C27. Heap sort: inserting the nodes of a list into a new heap and extracting as many gives a permutation
  of the list, ordered by the direction of the heap.
\<close>
theorem heap_sort:
  fixes xs :: "('w :: linorder, 'e) HeapNode list"
  assumes "length xs \<le> 2 ^ 30 - 1"
  shows "\<exists>ys h. bnd (for_each (\<lambda>x _. Heap_Insert (element x) (weight x)) xs ())
      (\<lambda>_. take_all (length xs)) (Heap_Create d) = Inr (ys, h) \<and>
    mset ys = mset xs \<and> sorted_wrt (\<lambda>x y. \<not> beats d (weight y) (weight x)) ys"
proof -
  have "heap_ok (Heap_Create d) \<and> dir (Heap_Create d) = d" "contents (Heap_Create d) = {#}"
    by (simp_all add: Heap_Create_def heap_ok_def contents_def)
  from hq.sort_wp [OF this assms] show ?thesis by (auto simp: wp_run insert_node_def drain_take_all)
qed

theorem heap_sort_witness:
  "\<exists>ys h. bnd (for_each (\<lambda>x _. Heap_Insert (element x) (weight x))
      [\<lparr>weight = 2, element = Some 1\<rparr>, \<lparr>weight = 1, element = Some (2 :: nat)\<rparr>] ()) (\<lambda>_. take_all 2)
      (Heap_Create HEAP_MIN) = Inr (ys, h) \<and>
    mset ys = {#\<lparr>weight = 2, element = Some 1\<rparr>, \<lparr>weight = (1 :: int), element = Some 2\<rparr>#} \<and>
    sorted_wrt (\<lambda>x y. \<not> beats HEAP_MIN (weight y) (weight x)) ys"
proof -
  have "length [\<lparr>weight = 2, element = Some 1\<rparr>, \<lparr>weight = (1 :: int), element = Some (2 :: nat)\<rparr>] = 2" by simp
  from heap_sort [of "[\<lparr>weight = 2, element = Some 1\<rparr>, \<lparr>weight = (1 :: int), element = Some (2 :: nat)\<rparr>]" HEAP_MIN,
      unfolded this]
  show ?thesis by (simp del: for_each.simps)
qed

lemma top_bit_overflow: "2 ^ 30 \<le> sz \<Longrightarrow> top_bit sz pt s = Inl Int_Overflow"
proof (induction "31 - pt" arbitrary: pt)
  case 0
  then show ?case by (subst top_bit.simps) simp
next
  case (Suc n)
  then have "(2 :: int) ^ pt \<le> 2 ^ 30" by (intro power_increasing) auto
  with Suc.prems have "2 ^ pt \<le> sz" by linarith
  with Suc show ?case by (subst top_bit.simps) simp
qed

text \<open>
  C28. The bound on the size: an insertion into a well-formed heap overflows exactly when the heap holds
  2^30 - 1 nodes or more, where \<open>1 << 31\<close> would be computed.
\<close>
theorem heap_limit:
  assumes "heap_ok h"
  shows "Heap_Insert e w h = Inl Int_Overflow \<longleftrightarrow> hp_size h \<ge> 2 ^ 30 - 1"
proof
  show "hp_size h \<ge> 2 ^ 30 - 1" if "Heap_Insert e w h = Inl Int_Overflow"
    using that Heap_Insert_wp [OF assms, of e w] by (force simp: wp_def)
  assume big: "hp_size h \<ge> 2 ^ 30 - 1"
  then show "Heap_Insert e w h = Inl Int_Overflow"
    by (simp add: top_bit_overflow Heap_Insert_def bnd_def gets_def modify_def fail_def Let_def)
qed

theorem heap_limit_witness:
  "Heap_Insert None 1 sample_heap \<noteq> Inl Int_Overflow"
  using heap_limit [OF ok_sample_heap(1), of None 1] by (simp add: sample_heap_def)

text \<open>
  C29. \<open>Heap_Dispose\<close> ends for every heap in which a node's parent is in the heap too, frees every node, and
  gives every element that is not NULL to the callback exactly once.
\<close>
theorem heap_dispose:
  fixes h :: "('w, 'e, 'z) Heap_scheme"
  assumes "\<And>e h. wp (f e) (\<lambda>_ h'. heap h' = heap h \<and> gone h' = add_mset e (gone h)) h"
    and "\<And>h hp. gone (h\<lparr>heap := hp\<rparr>) = gone h" and "closed (dom (heap h))"
  shows "\<exists>h'. Heap_Dispose (Some f) h = Inr ((), h') \<and> heap h' = Map.empty \<and> gone h' = elements (heap h) + gone h"
  using Heap_Dispose_wp [where f = f and gone = gone, OF assms] by (auto simp: wp_run)

text \<open>A callback that records the elements in an extension of the state.\<close>

theorem heap_dispose_witness:
  "\<exists>h'. Heap_Dispose (Some (\<lambda>e. modify (\<lambda>h. Heap.more_update (add_mset e) h)))
      (Heap.extend sample_heap {#}) = Inr ((), h') \<and> Heap.more h' = {#5, 7 :: nat#}"
proof -
  let ?h = "Heap.extend sample_heap ({#} :: nat multiset)"
  have eq: "heap ?h = heap sample_heap" "Heap.more ?h = {#}" by (simp_all add: Heap.defs)
  have "\<exists>h'. Heap_Dispose (Some (\<lambda>e. modify (\<lambda>h. Heap.more_update (add_mset e) h))) ?h = Inr ((), h') \<and>
      heap h' = Map.empty \<and> Heap.more h' = elements (heap ?h) + Heap.more ?h"
    by (rule heap_dispose [where gone = Heap.more]) (simp_all add: eq ok_sample_heap)
  moreover have "elements (heap sample_heap) = {#5, 7#}"
    unfolding elements_def dom_sample_heap by (simp add: sample_heap_def)
  ultimately show ?thesis by (auto simp: eq)
qed

end
