(* ===== verification/Alloc_Pool.thy ===== *)
theory Alloc_Pool
  imports Impact_Prelude
begin

text \<open>
  The pool allocator, \<open>src/src/library/alloc_new/l_alloc_new.c\<close> and \<open>l_alloc_new.h\<close>.

  A pool hands out elements of one size. It takes them from a free list, and gets a block of
  \<open>num_in_block\<close> elements from \<open>malloc\<close> when the list is empty. The element \<open>i\<close> of the block \<open>b\<close> has the address
  \<open>b * num_in_block + i\<close>; the free list, which the code threads through the free elements, is the list of their
  addresses. With \<open>bypass_routines\<close> every element comes from \<open>malloc\<close>: it is named by the number of elements
  allocated before it, and \<open>bp_live\<close> lists those that are not freed. An element that is not in use must not
  be touched; the libraries that keep their data in pools read and write through \<open>in_pool\<close>.

  The sizes are \<open>int\<close>s: the size of a block overflows when its elements do not fit, and every write into a new block is
  checked against the size that \<open>malloc\<close> was called with. Calls of \<open>malloc\<close> succeed unless the size is negative.

  The counters of a pool are unbounded integers; \<open>Alloc_Properties\<close> bounds them by the number of the allocations. A double free makes the list
  that the code threads through the elements cyclic; here it has the element twice, and the two differ only from the second
  time on that the element is taken from the list.
\<close>

section \<open>Pools\<close>

record L_Alloc_Pool =
  pl_name :: string
  element_size :: int
  block_size :: int
  num_in_block :: int
  pl_head :: "nat list"
  allocated :: int
  pl_free :: int
  blocks_allocated :: int
  block_list :: "nat list"
  bypass_routines :: bool
  bp_live :: "nat list"

record alloc_lib =
  bypass_alloc_routines :: bool
  active_alloc_pools :: "nat list"
  pool_mem :: "nat \<Rightarrow> L_Alloc_Pool option"
  pool_top :: nat

definition in_pool :: "L_Alloc_Pool \<Rightarrow> nat \<Rightarrow> bool" where
  "in_pool p a = (if bypass_routines p then a \<in> set (bp_live p)
     else int a < blocks_allocated p * num_in_block p \<and> a \<notin> set (pl_head p))"

definition pool_get :: "nat \<Rightarrow> ('z alloc_lib_scheme, L_Alloc_Pool) prog" where
  "pool_get p = bnd (gets (\<lambda>g. pool_mem g p)) (\<lambda>x. case x of None \<Rightarrow> fail Dangling | Some pl \<Rightarrow> ret pl)"

definition pool_put :: "nat \<Rightarrow> L_Alloc_Pool \<Rightarrow> ('z alloc_lib_scheme, unit) prog" where
  "pool_put p pl = modify (\<lambda>g. g\<lparr>pool_mem := (pool_mem g)(p \<mapsto> pl)\<rparr>)"

text \<open>\<open>sizeof (L_Alloc_Pool_Header)\<close>, one pointer.\<close>

definition header_size :: int where
  "header_size = 8"

definition aligned_header :: int where
  "aligned_header = push_bit 3 (drop_bit 3 (header_size + 7))"

text \<open>The size of an element: room for the header, and a multiple of 4.\<close>

definition at_least_header :: "int \<Rightarrow> int" where
  "at_least_header sz = (if sz < header_size then header_size else sz)"

definition rounded_size :: "int \<Rightarrow> int" where
  "rounded_size sz = push_bit 2 (drop_bit 2 (at_least_header sz + 3))"

text \<open>
  \<open>size + 3\<close> and \<open>size * num_in_block\<close> are \<open>int\<close>s. The size of the header is a \<open>size_t\<close>, so the sum with it is converted to an
  \<open>int\<close> when it is stored.
\<close>

definition L_create_alloc_pool :: "string option \<Rightarrow> int \<Rightarrow> int \<Rightarrow> ('z alloc_lib_scheme, nat) prog" where
  "L_create_alloc_pool name sz num =
     (case name of None \<Rightarrow> fail (Exit 1)
      | Some nm \<Rightarrow>
          if at_least_header sz + 3 > INT_MAX then fail Int_Overflow
          else
          let sz = rounded_size sz in
          if num < 1 then fail (Exit 1)
          else if sz * num > INT_MAX then fail Int_Overflow
          else
            bnd (gets bypass_alloc_routines) (\<lambda>byp.
            bnd (gets pool_top) (\<lambda>p.
            bnd (modify (\<lambda>g. g\<lparr>pool_top := p + 1\<rparr>)) (\<lambda>_.
            bnd (pool_put p \<lparr>pl_name = nm, element_size = sz,
                   block_size = signed_take_bit 31 (sz * num + aligned_header), num_in_block = num,
                   pl_head = [], allocated = 0, pl_free = 0, blocks_allocated = 0, block_list = [],
                   bypass_routines = byp, bp_live = []\<rparr>) (\<lambda>_.
            bnd (modify (\<lambda>g. g\<lparr>active_alloc_pools := p # active_alloc_pools g\<rparr>)) (\<lambda>_.
            ret p))))))"

text \<open>The loop that takes a pool out of the list of active pools removes its first occurrence.\<close>

definition L_free_alloc_pool :: "nat option \<Rightarrow> ('z alloc_lib_scheme, unit) prog" where
  "L_free_alloc_pool pool =
     (case pool of None \<Rightarrow> fail (Exit 1)
      | Some p \<Rightarrow>
          bnd (pool_get p) (\<lambda>pl.
          if allocated pl \<noteq> pl_free pl then ret ()
          else modify (\<lambda>g. g\<lparr>active_alloc_pools := remove1 p (active_alloc_pools g), pool_mem := (pool_mem g)(p := None)\<rparr>)))"

text \<open>
  Element \<open>i\<close> of a block starts at \<open>element_at pl i\<close>. The loop writes a header into each element and puts it in front of the
  free list. The argument of \<open>malloc\<close> is a \<open>size_t\<close>, and no memory is large enough for a negative number converted to it.
\<close>

definition element_at :: "L_Alloc_Pool \<Rightarrow> nat \<Rightarrow> int" where
  "element_at pl i = aligned_header + int i * element_size pl"

definition new_block :: "L_Alloc_Pool \<Rightarrow> ('s, L_Alloc_Pool) prog" where
  "new_block pl =
     (let n = nat (num_in_block pl); b = nat (blocks_allocated pl) in
      if block_size pl < 0 then fail (Exit 1)
      else
        bnd (for_each (\<lambda>i h.
               if element_at pl i + header_size > block_size pl then fail Out_Of_Bounds
               else ret ((b * n + i) # h)) [0..<n] (pl_head pl)) (\<lambda>h.
        ret (pl\<lparr>block_list := b # block_list pl, pl_head := h,
          allocated := allocated pl + num_in_block pl, pl_free := pl_free pl + num_in_block pl,
          blocks_allocated := blocks_allocated pl + 1\<rparr>)))"

definition L_alloc :: "nat option \<Rightarrow> ('z alloc_lib_scheme, nat) prog" where
  "L_alloc pool =
     (case pool of None \<Rightarrow> fail (Exit 1)
      | Some p \<Rightarrow>
          bnd (pool_get p) (\<lambda>pl.
          if bypass_routines pl then
            let a = nat (allocated pl) in
            bnd (pool_put p (pl\<lparr>allocated := allocated pl + 1, bp_live := a # bp_live pl\<rparr>)) (\<lambda>_. ret a)
          else
            bnd (if pl_head pl = [] then new_block pl else ret pl) (\<lambda>pl.
            case pl_head pl of [] \<Rightarrow> fail Null_Deref
            | a # rest \<Rightarrow> bnd (pool_put p (pl\<lparr>pl_head := rest, pl_free := pl_free pl - 1\<rparr>)) (\<lambda>_. ret a))))"

definition L_free :: "nat option \<Rightarrow> nat option \<Rightarrow> ('z alloc_lib_scheme, unit) prog" where
  "L_free pool ptr =
     (case pool of None \<Rightarrow> fail Null_Deref
      | Some p \<Rightarrow>
          bnd (pool_get p) (\<lambda>pl.
          case ptr of None \<Rightarrow> fail (Exit (- 1))
          | Some a \<Rightarrow>
              if bypass_routines pl then
                if a \<in> set (bp_live pl)
                then pool_put p (pl\<lparr>pl_free := pl_free pl + 1, bp_live := remove1 a (bp_live pl)\<rparr>)
                else fail Dangling
              else
                let pl = pl\<lparr>pl_head := a # pl_head pl, pl_free := pl_free pl + 1\<rparr> in
                if pl_free pl > allocated pl then fail (Exit 1) else pool_put p pl))"

text \<open>
  Reading and writing the field of a struct that lives in a pool. \<open>rd P f p\<close> is \<open>p->f\<close> for a struct of the pool \<open>P\<close>
  names, \<open>wr P f_update p v\<close> is \<open>p->f = v\<close>. The memory has one map per field, from addresses to contents.
\<close>

definition in_use :: "nat option \<Rightarrow> 'z alloc_lib_scheme \<Rightarrow> nat \<Rightarrow> bool" where
  "in_use pool g a = (case pool of None \<Rightarrow> False
     | Some p \<Rightarrow> (case pool_mem g p of None \<Rightarrow> False | Some pl \<Rightarrow> in_pool pl a))"

definition deref :: "('z alloc_lib_scheme \<Rightarrow> nat option) \<Rightarrow> nat option \<Rightarrow> ('z alloc_lib_scheme, nat) prog" where
  "deref P ptr = (case ptr of None \<Rightarrow> fail Null_Deref
     | Some a \<Rightarrow> bnd (gets (\<lambda>g. in_use (P g) g a)) (\<lambda>b. if b then ret a else fail Dangling))"

definition rd :: "('z alloc_lib_scheme \<Rightarrow> nat option) \<Rightarrow> ('z alloc_lib_scheme \<Rightarrow> nat \<Rightarrow> 'v) \<Rightarrow> nat option \<Rightarrow> ('z alloc_lib_scheme, 'v) prog" where
  "rd P f ptr = bnd (deref P ptr) (\<lambda>a. gets (\<lambda>g. f g a))"

definition wr :: "('z alloc_lib_scheme \<Rightarrow> nat option) \<Rightarrow> (((nat \<Rightarrow> 'v) \<Rightarrow> nat \<Rightarrow> 'v) \<Rightarrow> 'z alloc_lib_scheme \<Rightarrow> 'z alloc_lib_scheme) \<Rightarrow>
    nat option \<Rightarrow> 'v \<Rightarrow> ('z alloc_lib_scheme, unit) prog" where
  "wr P upd ptr v = bnd (deref P ptr) (\<lambda>a. modify (upd (\<lambda>f. f(a := v))))"

text \<open>The statistics: a line of the report is printed when the call is verbose or an element is in use.\<close>

record alloc_report =
  rep_bypassed :: bool
  rep_name :: string
  rep_allocated :: int
  rep_free :: int
  rep_blocks :: int
  rep_kbytes :: int

definition L_print_alloc_info :: "L_Alloc_Pool \<Rightarrow> bool \<Rightarrow> alloc_report option \<times> int" where
  "L_print_alloc_info pl verbose =
     (let sz = blocks_allocated pl * block_size pl in
      (if verbose \<or> allocated pl \<noteq> pl_free pl
       then Some \<lparr>rep_bypassed = bypass_routines pl, rep_name = pl_name pl, rep_allocated = allocated pl,
              rep_free = pl_free pl, rep_blocks = blocks_allocated pl, rep_kbytes = sz div 1024\<rparr>
       else None, sz))"

definition L_summarize_allocation_info :: "('z alloc_lib_scheme, alloc_report list \<times> int) prog" where
  "L_summarize_allocation_info =
     bnd (gets active_alloc_pools) (\<lambda>ps.
     bnd (for_each (\<lambda>p (out, sz). bnd (pool_get p) (\<lambda>pl.
            case L_print_alloc_info pl True of
              (None, k) \<Rightarrow> ret (out, sz + k)
            | (Some r, k) \<Rightarrow> ret (out @ [r], sz + k))) ps ([], 0)) (\<lambda>(out, sz).
     ret (out, sz div 1024)))"

section \<open>The invariant\<close>

definition pool_ok :: "L_Alloc_Pool \<Rightarrow> bool" where
  "pool_ok p = (num_in_block p \<ge> 1 \<and> header_size \<le> element_size p \<and> element_at p (nat (num_in_block p)) \<le> block_size p \<and>
     (if bypass_routines p
      then distinct (bp_live p) \<and> (\<forall>a\<in>set (bp_live p). int a < allocated p) \<and> 0 \<le> allocated p \<and>
        allocated p - pl_free p = int (length (bp_live p))
      else distinct (pl_head p) \<and> 0 \<le> blocks_allocated p \<and> allocated p = blocks_allocated p * num_in_block p \<and>
        (\<forall>a\<in>set (pl_head p). int a < allocated p) \<and> pl_free p = int (length (pl_head p)) \<and>
        block_list p = rev [0..<nat (blocks_allocated p)]))"

text \<open>What \<open>new_block\<close> does when the elements fit into the block.\<close>

definition with_block :: "L_Alloc_Pool \<Rightarrow> L_Alloc_Pool" where
  "with_block pl =
     (let n = nat (num_in_block pl); b = nat (blocks_allocated pl) in
      pl\<lparr>block_list := b # block_list pl,
        pl_head := fold (\<lambda>i h. (b * n + i) # h) [0..<n] (pl_head pl),
        allocated := allocated pl + num_in_block pl, pl_free := pl_free pl + num_in_block pl,
        blocks_allocated := blocks_allocated pl + 1\<rparr>)"

lemma element_at_simps [simp]:
  "element_at (pl\<lparr>pl_head := h, pl_free := f\<rparr>) = element_at pl" "element_at (pl\<lparr>allocated := n, bp_live := l\<rparr>) = element_at pl"
  "element_at (pl\<lparr>pl_free := f, bp_live := l\<rparr>) = element_at pl"
  by (simp_all add: element_at_def fun_eq_iff)

lemma element_fits:
  assumes "header_size \<le> element_size p" "i < n"
  shows "element_at p i + element_size p \<le> element_at p n"
proof -
  have "(int i + 1) * element_size p \<le> int n * element_size p"
    using assms by (intro mult_right_mono) (auto simp: header_size_def)
  then show ?thesis by (simp add: element_at_def distrib_right)
qed

lemma new_block_run:
  assumes "pool_ok p"
  shows "new_block p s = Inr (with_block p, s)"
proof -
  let ?n = "nat (num_in_block p)"
  have ok: "header_size \<le> element_size p" "element_at p ?n \<le> block_size p" using assms by (auto simp: pool_ok_def)
  have "0 \<le> element_at p ?n" using ok(1) by (simp add: element_at_def header_size_def aligned_header_def)
  then have "\<not> block_size p < 0" using ok(2) by linarith
  moreover have "for_each (\<lambda>i h. if element_at p i + header_size > block_size p then fail Out_Of_Bounds else ret (f i # h)) is h s =
      Inr (fold (\<lambda>i h. f i # h) is h, s)" if "\<forall>i\<in>set is. i < ?n" for "is" and h :: "nat list" and f
    using that
  proof (induction "is" arbitrary: h)
    case (Cons i "is")
    have "element_at p i + header_size \<le> block_size p" using element_fits [OF ok(1), of i ?n] Cons.prems ok by simp
    then show ?case using Cons by (simp add: bnd_def ret_def)
  qed (simp add: ret_def)
  ultimately show ?thesis by (simp add: new_block_def with_block_def Let_def bnd_def ret_def)
qed

lemma with_block_ok:
  assumes "pool_ok p" "\<not> bypass_routines p" "pl_head p = []"
  shows "pool_ok (with_block p)" "pl_head (with_block p) \<noteq> []" "in_pool (with_block p) = in_pool p"
    "\<not> bypass_routines (with_block p)"
proof -
  let ?n = "nat (num_in_block p)" and ?b = "nat (blocks_allocated p)"
  have n: "int ?n = num_in_block p" "1 \<le> ?n" and b: "int ?b = blocks_allocated p" using assms by (auto simp: pool_ok_def)
  have "fold (\<lambda>i h. (?b * ?n + i) # h) xs h = rev (map ((+) (?b * ?n)) xs) @ h" for xs h
    by (induction xs arbitrary: h) simp_all
  then have h: "pl_head (with_block p) = rev (map ((+) (?b * ?n)) [0..<?n])"
    using assms(3) by (simp add: with_block_def Let_def)
  have set_h: "set (pl_head (with_block p)) = {?b * ?n..<?b * ?n + ?n}"
    unfolding h by (auto simp: image_iff)
  have bn: "int (?b * ?n) = blocks_allocated p * num_in_block p" using n b by simp
  show "pl_head (with_block p) \<noteq> []" using n(2) by (simp add: h)
  show "\<not> bypass_routines (with_block p)" using assms(2) by (simp add: with_block_def Let_def)
  have lt: "int a < (blocks_allocated p + 1) * num_in_block p \<longleftrightarrow> a < ?b * ?n + ?n" for a
  proof -
    have "(blocks_allocated p + 1) * num_in_block p = int (?b * ?n + ?n)"
      unfolding of_nat_add bn n(1) by (simp add: distrib_right)
    then show ?thesis by (simp only: of_nat_less_iff)
  qed
  have d: "distinct (pl_head (with_block p))" unfolding h by (simp add: distinct_map inj_on_def)
  show "pool_ok (with_block p)"
  proof -
    have f: "blocks_allocated (with_block p) = blocks_allocated p + 1" "num_in_block (with_block p) = num_in_block p"
      "allocated (with_block p) = allocated p + num_in_block p" "pl_free (with_block p) = pl_free p + num_in_block p"
      "block_list (with_block p) = ?b # block_list p" "bypass_routines (with_block p) = bypass_routines p"
      "element_size (with_block p) = element_size p" "block_size (with_block p) = block_size p"
      "element_at (with_block p) = element_at p"
      by (simp_all add: with_block_def Let_def element_at_def fun_eq_iff)
    have old: "0 \<le> blocks_allocated p" "allocated p = blocks_allocated p * num_in_block p" "pl_free p = 0"
      "block_list p = rev [0..<?b]" using assms by (auto simp: pool_ok_def)
    have nb: "nat (blocks_allocated p + 1) = Suc ?b" using old(1) by simp
    have len: "int (length (pl_head (with_block p))) = num_in_block p" unfolding h using n(1) by simp
    have below: "int a < (blocks_allocated p + 1) * num_in_block p" if "a \<in> set (pl_head (with_block p))" for a
      using that unfolding set_h by (simp only: lt) simp
    show ?thesis
      using assms(1,2) d old below len unfolding pool_ok_def f nb by (simp add: distrib_right)
  qed
  show "in_pool (with_block p) = in_pool p"
  proof
    fix a
    have "in_pool (with_block p) a \<longleftrightarrow> a < ?b * ?n + ?n \<and> a \<notin> {?b * ?n..<?b * ?n + ?n}"
      unfolding in_pool_def set_h [symmetric] lt [symmetric] using assms(2) by (simp add: with_block_def Let_def)
    moreover have "in_pool p a \<longleftrightarrow> a < ?b * ?n"
      unfolding in_pool_def bn [symmetric] of_nat_less_iff using assms(2,3) by simp
    ultimately show "in_pool (with_block p) a = in_pool p a" by auto
  qed
qed

lemma wp_new_block: "pool_ok p \<Longrightarrow> wp (new_block p) Q s = Q (with_block p) s"
  by (simp add: wp_def new_block_run)

section \<open>The contract of an allocator\<close>

text \<open>
  \<open>used\<close> are the elements in use and \<open>rest\<close> is the part of the state that belongs to the client. \<open>ok\<close> is the
  invariant of the allocator.
\<close>

locale allocator =
  fixes alloc :: "('s, nat) prog"
    and dealloc :: "nat \<Rightarrow> ('s, unit) prog"
    and used :: "'s \<Rightarrow> nat set"
    and ok :: "'s \<Rightarrow> bool"
    and rest :: "'s \<Rightarrow> 'r"
  assumes alloc: "ok s \<Longrightarrow> wp alloc (\<lambda>a s'. ok s' \<and> a \<notin> used s \<and> used s' = insert a (used s) \<and> rest s' = rest s) s"
    and dealloc: "ok s \<Longrightarrow> a \<in> used s \<Longrightarrow> wp (dealloc a) (\<lambda>_ s'. ok s' \<and> used s' = used s - {a} \<and> rest s' = rest s) s"
begin

lemma alloc_dealloc:
  assumes "ok s"
  shows "wp (bnd alloc dealloc) (\<lambda>_ s'. ok s' \<and> used s' = used s \<and> rest s' = rest s) s"
proof (rule wp_seq [OF alloc [OF assms]], elim conjE)
  fix a s' assume s': "ok s'" "a \<notin> used s" "used s' = insert a (used s)" "rest s' = rest s"
  then have "a \<in> used s'" by simp
  from dealloc [OF s'(1) this] show "wp (dealloc a) (\<lambda>_ s''. ok s'' \<and> used s'' = used s \<and> rest s'' = rest s) s'"
    using s'(2-) by (auto elim: wp_mono)
qed

lemma dealloc_all:
  assumes "ok s" "distinct xs" "set xs \<subseteq> used s"
  shows "wp (for_each (\<lambda>a _. dealloc a) xs ()) (\<lambda>_ s'. ok s' \<and> used s' = used s - set xs \<and> rest s' = rest s) s"
  using assms
proof (induction xs arbitrary: s)
  case (Cons a xs)
  have "wp (bnd (dealloc a) (\<lambda>_. for_each (\<lambda>a _. dealloc a) xs ())) (\<lambda>_ s'. ok s' \<and> used s' = used s - set (a # xs) \<and> rest s' = rest s) s"
  proof (rule wp_seq [OF dealloc [OF Cons.prems(1), of a]])
    show "a \<in> used s" using Cons.prems by simp
    fix u s' assume "ok s' \<and> used s' = used s - {a} \<and> rest s' = rest s"
    then have s': "ok s'" "used s' = used s - {a}" "rest s' = rest s" by auto
    have "wp (for_each (\<lambda>a _. dealloc a) xs ()) (\<lambda>_ s''. ok s'' \<and> used s'' = used s' - set xs \<and> rest s'' = rest s') s'"
      by (rule Cons.IH) (use Cons.prems s' in auto)
    moreover have "used s - {a} - set xs = used s - set (a # xs)" by auto
    ultimately show "wp (for_each (\<lambda>a _. dealloc a) xs ()) (\<lambda>_ s''. ok s'' \<and> used s'' = used s - set (a # xs) \<and> rest s'' = rest s) s'"
      using s' by simp
  qed
  then show ?case by simp
qed simp

end

section \<open>Pools as allocators\<close>

definition pool_used :: "nat \<Rightarrow> 'z alloc_lib_scheme \<Rightarrow> nat set" where
  "pool_used p g = (case pool_mem g p of None \<Rightarrow> {} | Some pl \<Rightarrow> Collect (in_pool pl))"

definition pool_in :: "nat \<Rightarrow> 'z alloc_lib_scheme \<Rightarrow> bool" where
  "pool_in p g = (\<exists>pl. pool_mem g p = Some pl \<and> pool_ok pl)"

text \<open>Everything but the pool \<open>p\<close>, and what does not change in \<open>p\<close>.\<close>

definition pool_shape :: "L_Alloc_Pool \<Rightarrow> int \<times> int \<times> int \<times> bool" where
  "pool_shape pl = (element_size pl, block_size pl, num_in_block pl, bypass_routines pl)"

definition pool_rest ::
  "nat \<Rightarrow> 'z alloc_lib_scheme \<Rightarrow> (int \<times> int \<times> int \<times> bool) option \<times> bool \<times> nat list \<times> (nat \<Rightarrow> L_Alloc_Pool option) \<times> nat \<times> 'z" where
  "pool_rest p g = (map_option pool_shape (pool_mem g p), bypass_alloc_routines g, active_alloc_pools g, (pool_mem g)(p := None), pool_top g,
     alloc_lib.more g)"

lemma pool_shape_simps [simp]:
  "pool_shape (pl\<lparr>pl_head := h, pl_free := f\<rparr>) = pool_shape pl" "pool_shape (pl\<lparr>allocated := n, bp_live := l\<rparr>) = pool_shape pl"
  "pool_shape (pl\<lparr>pl_free := f, bp_live := l\<rparr>) = pool_shape pl" "pool_shape (with_block pl) = pool_shape pl"
  by (simp_all add: pool_shape_def with_block_def Let_def)

lemma alloc_ok:
  assumes "pool_ok pl"
  shows "bypass_routines pl \<Longrightarrow> pool_ok (pl\<lparr>allocated := allocated pl + 1, bp_live := nat (allocated pl) # bp_live pl\<rparr>) \<and>
      \<not> in_pool pl (nat (allocated pl)) \<and>
      Collect (in_pool (pl\<lparr>allocated := allocated pl + 1, bp_live := nat (allocated pl) # bp_live pl\<rparr>)) = insert (nat (allocated pl)) (Collect (in_pool pl))"
    and "\<not> bypass_routines pl \<Longrightarrow> pl_head pl = a # xs \<Longrightarrow> pool_ok (pl\<lparr>pl_head := xs, pl_free := pl_free pl - 1\<rparr>) \<and> \<not> in_pool pl a \<and>
      Collect (in_pool (pl\<lparr>pl_head := xs, pl_free := pl_free pl - 1\<rparr>)) = insert a (Collect (in_pool pl))"
proof -
  have new: "nat (allocated pl) \<notin> set (bp_live pl)" if "bypass_routines pl"
  proof
    assume "nat (allocated pl) \<in> set (bp_live pl)"
    moreover have "\<forall>a\<in>set (bp_live pl). int a < allocated pl" "0 \<le> allocated pl" using assms that by (auto simp: pool_ok_def)
    ultimately have "int (nat (allocated pl)) < allocated pl" by blast
    then show False using \<open>0 \<le> allocated pl\<close> by simp
  qed
  then show "bypass_routines pl \<Longrightarrow> pool_ok (pl\<lparr>allocated := allocated pl + 1, bp_live := nat (allocated pl) # bp_live pl\<rparr>) \<and>
      \<not> in_pool pl (nat (allocated pl)) \<and>
      Collect (in_pool (pl\<lparr>allocated := allocated pl + 1, bp_live := nat (allocated pl) # bp_live pl\<rparr>)) = insert (nat (allocated pl)) (Collect (in_pool pl))"
    using assms by (auto simp: pool_ok_def in_pool_def)
qed (use assms in \<open>auto simp: pool_ok_def in_pool_def\<close>)

lemma free_ok:
  assumes "pool_ok pl" "in_pool pl a"
  shows "bypass_routines pl \<Longrightarrow> pool_ok (pl\<lparr>pl_free := pl_free pl + 1, bp_live := remove1 a (bp_live pl)\<rparr>) \<and>
      Collect (in_pool (pl\<lparr>pl_free := pl_free pl + 1, bp_live := remove1 a (bp_live pl)\<rparr>)) = Collect (in_pool pl) - {a}"
    and "\<not> bypass_routines pl \<Longrightarrow> pool_ok (pl\<lparr>pl_head := a # pl_head pl, pl_free := pl_free pl + 1\<rparr>) \<and>
      pl_free pl < allocated pl \<and>
      Collect (in_pool (pl\<lparr>pl_head := a # pl_head pl, pl_free := pl_free pl + 1\<rparr>)) = Collect (in_pool pl) - {a}"
proof -
  show "pool_ok (pl\<lparr>pl_free := pl_free pl + 1, bp_live := remove1 a (bp_live pl)\<rparr>) \<and>
      Collect (in_pool (pl\<lparr>pl_free := pl_free pl + 1, bp_live := remove1 a (bp_live pl)\<rparr>)) = Collect (in_pool pl) - {a}"
    if "bypass_routines pl"
    using assms that by (auto simp: pool_ok_def in_pool_def length_remove1 dest: notin_set_remove1) (cases "bp_live pl"; simp)
  show "pool_ok (pl\<lparr>pl_head := a # pl_head pl, pl_free := pl_free pl + 1\<rparr>) \<and> pl_free pl < allocated pl \<and>
      Collect (in_pool (pl\<lparr>pl_head := a # pl_head pl, pl_free := pl_free pl + 1\<rparr>)) = Collect (in_pool pl) - {a}"
    if "\<not> bypass_routines pl"
  proof -
    have "set (a # pl_head pl) \<subseteq> {..<nat (allocated pl)}" "distinct (a # pl_head pl)"
      using assms that by (auto simp: pool_ok_def in_pool_def)
    then have "length (a # pl_head pl) \<le> nat (allocated pl)"
      using card_mono [of "{..<nat (allocated pl)}" "set (a # pl_head pl)"] distinct_card [of "a # pl_head pl"] by simp
    then show ?thesis using assms that by (auto simp: pool_ok_def in_pool_def)
  qed
qed

interpretation pool: allocator "L_alloc (Some p)" "\<lambda>a. L_free (Some p) (Some a)" "pool_used p" "pool_in p" "pool_rest p" for p
proof (unfold_locales, goal_cases)
  case (1 g)
  then obtain pl where pl: "pool_mem g p = Some pl" "pool_ok pl" by (auto simp: pool_in_def)
  show ?case
  proof (cases "bypass_routines pl")
    case True
    with alloc_ok(1) [OF pl(2) True] pl show ?thesis
      by (auto simp: L_alloc_def pool_get_def pool_put_def pool_in_def pool_used_def pool_rest_def Let_def)
  next
    case False
    define q where "q = (if pl_head pl = [] then with_block pl else pl)"
    have ok: "pool_ok q" "\<not> bypass_routines q" "in_pool q = in_pool pl" "pl_head q \<noteq> []"
      using with_block_ok [OF pl(2) False] pl(2) False by (auto simp: q_def)
    have sh: "pool_shape q = pool_shape pl" by (simp add: q_def)
    obtain a xs where h: "pl_head q = a # xs" using ok(4) by (cases "pl_head q") auto
    have "wp (bnd (pool_put p (q\<lparr>pl_head := xs, pl_free := pl_free q - 1\<rparr>)) (\<lambda>_. ret a)) (\<lambda>a s'. pool_in p s' \<and> a \<notin> pool_used p g \<and>
        pool_used p s' = insert a (pool_used p g) \<and> pool_rest p s' = pool_rest p g) g"
      using alloc_ok(2) [OF ok(1,2) h] ok(3) pl
      by (simp add: pool_put_def pool_in_def pool_used_def pool_rest_def sh)
    then show ?thesis
      using h unfolding L_alloc_def pool_get_def Let_def
      by (cases "pl_head pl = []") (simp_all add: pl False q_def wp_new_block)
  qed
next
  case (2 g a)
  then obtain pl where pl: "pool_mem g p = Some pl" "pool_ok pl" "in_pool pl a" by (auto simp: pool_in_def pool_used_def)
  show ?case
  proof (cases "bypass_routines pl")
    case True
    have "a \<in> set (bp_live pl)" using pl(3) True by (simp add: in_pool_def)
    with free_ok(1) [OF pl(2,3) True] pl True show ?thesis
      by (auto simp: L_free_def pool_get_def pool_put_def pool_in_def pool_used_def pool_rest_def Let_def)
  next
    case False
    with free_ok(2) [OF pl(2,3) False] pl show ?thesis
      by (auto simp: L_free_def pool_get_def pool_put_def pool_in_def pool_used_def pool_rest_def Let_def)
  qed
qed

section \<open>Using several pools\<close>

lemma in_use_eq: "in_use (Some p) g a \<longleftrightarrow> a \<in> pool_used p g"
  by (auto simp: in_use_def pool_used_def split: option.split)

lemma wp_deref [simp]: "wp (deref P (Some a)) Q g \<longleftrightarrow> in_use (P g) g a \<and> Q a g" "wp (deref P None) Q g = False"
  by (auto simp: deref_def)

lemma wp_rd [simp]: "wp (rd P f (Some a)) Q g \<longleftrightarrow> in_use (P g) g a \<and> Q (f g a) g" "wp (rd P f None) Q g = False"
  by (auto simp: rd_def)

lemma wp_wr [simp]: "wp (wr P upd (Some a) v) Q g \<longleftrightarrow> in_use (P g) g a \<and> Q () (upd (\<lambda>f. f(a := v)) g)" "wp (wr P upd None v) Q g = False"
  by (auto simp: wr_def)

lemma pool_rest_other:
  assumes "pool_rest p g' = pool_rest p g" "q \<noteq> p"
  shows "pool_used q g' = pool_used q g" "pool_in q g' = pool_in q g"
proof -
  have "(pool_mem g')(p := None) = (pool_mem g)(p := None)" using assms(1) by (simp add: pool_rest_def)
  then have "pool_mem g' q = pool_mem g q" using assms(2) by (metis fun_upd_other)
  then show "pool_used q g' = pool_used q g" "pool_in q g' = pool_in q g" by (simp_all add: pool_used_def pool_in_def)
qed

lemma pool_rest_more: "pool_rest p g' = pool_rest p g \<Longrightarrow> alloc_lib.more g' = alloc_lib.more g"
  by (simp add: pool_rest_def)

text \<open>The elements of a block fit into an \<open>int\<close>.\<close>

definition block_fits :: "int \<Rightarrow> int \<Rightarrow> bool" where
  "block_fits sz num \<longleftrightarrow> rounded_size sz * num + aligned_header \<le> INT_MAX"

lemma rounded_size: "sz \<le> rounded_size sz" "header_size \<le> rounded_size sz" "rounded_size sz \<le> at_least_header sz + 3"
  by (auto simp: rounded_size_def at_least_header_def header_size_def push_bit_eq_mult drop_bit_eq_div)

lemma block_fits_small:
  assumes "1 \<le> num" "num \<le> 1024" "sz \<le> 1024"
  shows "block_fits sz num"
proof -
  have "rounded_size sz \<le> 1027" using rounded_size(3) [of sz] assms(3) by (auto simp: at_least_header_def header_size_def split: if_splits)
  then have "rounded_size sz * num \<le> 1027 * 1024" using assms(1,2) by (intro mult_mono) auto
  then show ?thesis by (simp add: block_fits_def aligned_header_def header_size_def INT_MAX_def)
qed

lemma create_wp:
  assumes "1 \<le> num" "block_fits sz num"
  shows "wp (L_create_alloc_pool (Some nm) sz num) (\<lambda>p g'. pool_in p g' \<and> pool_used p g' = {} \<and> p = pool_top g \<and>
    pool_top g' = p + 1 \<and> (\<forall>q. q \<noteq> p \<longrightarrow> pool_mem g' q = pool_mem g q) \<and> alloc_lib.more g' = alloc_lib.more g \<and>
    map_option pool_shape (pool_mem g' p) = Some (rounded_size sz, rounded_size sz * num + aligned_header, num, bypass_alloc_routines g) \<and>
    map_option allocated (pool_mem g' p) = Some 0) g"
proof -
  let ?s = "rounded_size sz"
  have "0 \<le> ?s * (num - 1)" using rounded_size(2) [of sz] assms(1) by (simp add: header_size_def)
  then have s: "?s \<le> ?s * num" by (simp add: right_diff_distrib)
  have fit: "?s * num + 8 \<le> INT_MAX" using assms(2) by (simp add: block_fits_def aligned_header_def header_size_def)
  have "at_least_header sz \<le> ?s" using rounded_size(1,2) [of sz] by (simp add: at_least_header_def)
  then have small: "at_least_header sz + 3 \<le> INT_MAX" using s fit by linarith
  have "signed_take_bit 31 (?s * num + 8) = ?s * num + 8"
    using s fit rounded_size(2) [of sz] by (intro signed_take_bit_int_eq_self) (auto simp: INT_MAX_def header_size_def)
  then show ?thesis using assms(1) rounded_size(2) [of sz] fit small
    by (simp add: L_create_alloc_pool_def Let_def pool_put_def pool_in_def pool_used_def pool_ok_def in_pool_def pool_shape_def element_at_def
        aligned_header_def header_size_def algebra_simps)
qed

end
