(* ===== verification/Alloc_Properties.thy ===== *)
theory Alloc_Properties
  imports Alloc_Pool
begin

text \<open>
  The properties of the pool allocator. A client is a list of calls on one pool; \<open>client\<close> keeps the elements that the
  client has and frees them by their position in that list.
\<close>

datatype pool_call = Get | Put nat

primrec client :: "nat \<Rightarrow> pool_call list \<Rightarrow> nat list \<Rightarrow> ('z alloc_lib_scheme, nat list) prog" where
  "client p [] u = ret u"
| "client p (c # cs) u =
     (case c of Get \<Rightarrow> bnd (L_alloc (Some p)) (\<lambda>a. client p cs (a # u))
      | Put i \<Rightarrow> if i < length u then bnd (L_free (Some p) (Some (u ! i))) (\<lambda>_. client p cs (take i u @ drop (Suc i) u))
          else client p cs u)"

lemma in_use_count:
  assumes "pool_ok pl"
  shows "finite (Collect (in_pool pl))" "int (card (Collect (in_pool pl))) = allocated pl - pl_free pl"
proof -
  have "finite (Collect (in_pool pl)) \<and> int (card (Collect (in_pool pl))) = allocated pl - pl_free pl"
  proof (cases "bypass_routines pl")
    case True
    then have "Collect (in_pool pl) = set (bp_live pl)" by (auto simp: in_pool_def)
    then show ?thesis using assms True distinct_card by (auto simp: pool_ok_def)
  next
    case False
    let ?n = "nat (allocated pl)"
    have ok: "distinct (pl_head pl)" "set (pl_head pl) \<subseteq> {..<?n}" "0 \<le> allocated pl" "allocated pl = blocks_allocated pl * num_in_block pl"
      "pl_free pl = int (length (pl_head pl))"
      using assms False by (auto simp: pool_ok_def)
    then have use: "Collect (in_pool pl) = {..<?n} - set (pl_head pl)" using False by (auto simp: in_pool_def)
    have "card (set (pl_head pl)) \<le> ?n" using card_mono [OF _ ok(2)] by simp
    then show ?thesis unfolding use using ok card_Diff_subset [of "set (pl_head pl)" "{..<?n}"] distinct_card [OF ok(1)] by auto
  qed
  then show "finite (Collect (in_pool pl))" "int (card (Collect (in_pool pl))) = allocated pl - pl_free pl" by auto
qed

lemma none_in_use:
  assumes "pool_ok pl"
  shows "Collect (in_pool pl) = {} \<longleftrightarrow> allocated pl = pl_free pl" "pl_free pl \<le> allocated pl"
proof -
  let ?u = "Collect (in_pool pl)"
  have "?u = {} \<longleftrightarrow> card ?u = 0" using in_use_count(1) [OF assms] by (rule card_0_eq [symmetric])
  then show "?u = {} \<longleftrightarrow> allocated pl = pl_free pl" "pl_free pl \<le> allocated pl"
    using in_use_count(2) [OF assms] by linarith+
qed

lemma report_in_use:
  assumes "pool_ok pl"
  shows "fst (L_print_alloc_info pl False) = None \<longleftrightarrow> Collect (in_pool pl) = {}"
  unfolding none_in_use(1) [OF assms] by (simp add: L_print_alloc_info_def Let_def)

text \<open>The pool of a client that has made \<open>k\<close> calls and holds the elements \<open>u\<close>.\<close>

definition serving :: "nat \<Rightarrow> int \<times> int \<times> int \<times> bool \<Rightarrow> nat list \<Rightarrow> nat \<Rightarrow> 'z alloc_lib_scheme \<Rightarrow> bool" where
  "serving p sh u k g \<longleftrightarrow> (\<exists>pl. pool_mem g p = Some pl \<and> pool_ok pl \<and> Collect (in_pool pl) = set u \<and> distinct u \<and> pool_shape pl = sh \<and>
     allocated pl \<le> num_in_block pl + int k \<and> length u \<le> k)"

lemma serving_in: "serving p sh u k g \<Longrightarrow> pool_in p g \<and> pool_used p g = set u"
  by (auto simp: serving_def pool_in_def pool_used_def)

lemma servingI:
  assumes "pool_in p g'" "pool_used p g' = set u" "distinct u" "pool_rest p g' = pool_rest p g" "serving p sh v k g" "length u \<le> l"
    and "\<exists>pl'. pool_mem g' p = Some pl' \<and> allocated pl' \<le> num_in_block pl' + int l"
  shows "serving p sh u l g'"
proof -
  obtain pl' where pl': "pool_mem g' p = Some pl'" "allocated pl' \<le> num_in_block pl' + int l" using assms(7) by blast
  moreover have "pool_ok pl'" "Collect (in_pool pl') = set u" using assms(1,2) pl'(1) by (auto simp: pool_in_def pool_used_def)
  moreover have "pool_shape pl' = sh" using assms(4,5) pl'(1) by (auto simp: pool_rest_def serving_def)
  ultimately show ?thesis using assms(3,6) by (simp add: serving_def)
qed

text \<open>A block is added only when no element is free, so the elements allocated are at most one block more than those in use.\<close>

lemma serving_alloc:
  assumes "serving p sh u k g"
  shows "wp (L_alloc (Some p)) (\<lambda>a. serving p sh (a # u) (Suc k)) g"
proof -
  obtain pl where pl: "pool_mem g p = Some pl" "pool_ok pl" "Collect (in_pool pl) = set u" "distinct u" "allocated pl \<le> num_in_block pl + int k" "length u \<le> k"
    using assms by (auto simp: serving_def)
  have count: "allocated pl - pl_free pl = int (length u)" using in_use_count(2) [OF pl(2)] pl(3) distinct_card [OF pl(4)] by simp
  have "wp (L_alloc (Some p)) (\<lambda>_ g'. \<exists>pl'. pool_mem g' p = Some pl' \<and> allocated pl' \<le> num_in_block pl' + int (Suc k)) g"
  proof (cases "bypass_routines pl \<or> pl_head pl \<noteq> []")
    case True
    then show ?thesis using pl(1,5) by (auto simp: L_alloc_def pool_get_def pool_put_def Let_def ret_def wp_def bnd_def gets_def modify_def split: list.split)
  next
    case False
    then have free: "pl_free pl = 0" using pl(2) by (simp add: pool_ok_def)
    have b: "allocated (with_block pl) = allocated pl + num_in_block pl" "num_in_block (with_block pl) = num_in_block pl" "pl_head (with_block pl) \<noteq> []"
      using with_block_ok(2) [OF pl(2)] False by (simp_all add: with_block_def Let_def)
    then show ?thesis using False pl(1,6) count free new_block_run [OF pl(2), of g]
      by (cases "pl_head (with_block pl)") (auto simp: L_alloc_def pool_get_def pool_put_def Let_def ret_def wp_def bnd_def gets_def modify_def)
  qed
  from wp_conj [OF this pool.alloc [OF conjunct1 [OF serving_in [OF assms]]]] show ?thesis
  proof (rule wp_mono, elim conjE)
    fix a h assume h: "\<exists>pl'. pool_mem h p = Some pl' \<and> allocated pl' \<le> num_in_block pl' + int (Suc k)" "pool_in p h" "a \<notin> pool_used p g"
      "pool_used p h = insert a (pool_used p g)" "pool_rest p h = pool_rest p g"
    show "serving p sh (a # u) (Suc k) h"
      by (rule servingI [OF h(2) _ _ h(5) assms _ h(1)]) (use h(3,4) pl(4,6) serving_in [OF assms] in auto)
  qed
qed

lemma serving_free:
  assumes "serving p sh u k g" "i < length u"
  shows "wp (L_free (Some p) (Some (u ! i))) (\<lambda>_. serving p sh (take i u @ drop (Suc i) u) (Suc k)) g"
proof -
  let ?v = "take i u @ drop (Suc i) u"
  obtain pl where pl: "pool_mem g p = Some pl" "distinct u" "allocated pl \<le> num_in_block pl + int k" "length u \<le> k"
    using assms(1) by (auto simp: serving_def)
  have u: "u = take i u @ u ! i # drop (Suc i) u" using assms(2) by (rule id_take_nth_drop)
  have "distinct (take i u @ u ! i # drop (Suc i) u)" using pl(2) u by simp
  then have v: "distinct ?v" "set u - {u ! i} = set ?v" by (simp, subst u, auto simp del: append_take_drop_id)
  have all: "pool_in p g" "u ! i \<in> pool_used p g" using serving_in [OF assms(1)] assms(2) by auto
  have count: "\<forall>h. L_free (Some p) (Some (u ! i)) g = Inr ((), h) \<longrightarrow> (\<exists>pl'. pool_mem h p = Some pl' \<and> allocated pl' \<le> num_in_block pl' + int (Suc k))"
    using pl(1,3) by (auto simp: L_free_def pool_get_def pool_put_def Let_def bnd_def gets_def ret_def fail_def modify_def split: if_splits)
  from pool.dealloc [OF all] obtain h where h: "L_free (Some p) (Some (u ! i)) g = Inr ((), h)" "pool_in p h" "pool_used p h = set ?v" "pool_rest p h = pool_rest p g"
    using serving_in [OF assms(1)] v(2) by (auto simp: wp_run)
  have "serving p sh ?v (Suc k) h"
    by (rule servingI [OF h(2,3) v(1) h(4) assms(1)]) (use pl(4) count h(1) in auto)
  then show ?thesis using h(1) by (simp add: wp_def)
qed

lemma client_wp:
  fixes g :: "'z alloc_lib_scheme"
  assumes "serving p sh u k g"
  shows "wp (client p cs u) (\<lambda>u' g'. serving p sh u' (k + length cs) g') g"
  using assms
proof (induction cs arbitrary: u g k)
  case (Cons c cs)
  have next_call: "wp (client p cs v) (\<lambda>u' g'. serving p sh u' (Suc k + length cs) g') h" if "serving p sh v (Suc k) h" for v k and h :: "'z alloc_lib_scheme"
    by (rule Cons.IH [OF that])
  show ?case
  proof (cases c)
    case Get
    then show ?thesis using wp_seq [OF serving_alloc [OF Cons.prems] next_call] by simp
  next
    case (Put i)
    have skip: "serving p sh u (Suc k) g" using Cons.prems by (auto simp: serving_def)
    show ?thesis
    proof (cases "i < length u")
      case True
      from wp_seq [OF serving_free [OF Cons.prems True] next_call] Put True show ?thesis by simp
    qed (use Put next_call [OF skip] in simp)
  qed
qed simp

text \<open>Different elements of a block do not overlap.\<close>

lemma elements_apart:
  assumes "pool_ok pl" "a \<noteq> b" "a div n = b div n"
  shows "element_at pl (a mod n) + element_size pl \<le> element_at pl (b mod n) \<or> element_at pl (b mod n) + element_size pl \<le> element_at pl (a mod n)"
proof -
  have "a mod n \<noteq> b mod n" using assms(2,3) by (metis div_mult_mod_eq)
  moreover have "header_size \<le> element_size pl" using assms(1) by (simp add: pool_ok_def)
  ultimately show ?thesis using element_fits [of pl "a mod n" "b mod n"] element_fits [of pl "b mod n" "a mod n"] by linarith
qed

text \<open>
  C30. The pool allocator is safe when the elements of a block fit into an \<open>int\<close>. Create a pool with at least one element per block and let a
  client allocate and free elements, so many that the counters fit into an \<open>int\<close>: no call faults, and the elements that the
  client holds are pairwise different and are exactly the elements in use; each is at least as large as asked for, and unless
  each comes from \<open>malloc\<close> by itself it lies inside of its block and overlaps no other one of the block. \<open>allocated - free\<close> is their number,
  and \<open>L_free_alloc_pool\<close> then destroys the pool exactly when the client holds none. When the elements of a block together are too large for
  an \<open>int\<close>, the creation of the pool overflows.
\<close>

theorem pool_safe:
  fixes g :: "'z alloc_lib_scheme"
  assumes "1 \<le> num"
  shows "(block_fits sz num \<and> num + int (length cs) \<le> INT_MAX \<longrightarrow>
    wp (bnd (L_create_alloc_pool (Some nm) sz num) (\<lambda>p. bnd (client p cs []) (\<lambda>u.
      bnd (pool_get p) (\<lambda>pl. bnd (L_free_alloc_pool (Some p)) (\<lambda>_. ret (p, u, pl))))))
    (\<lambda>(p, u, pl) g'. distinct u \<and> set u = Collect (in_pool pl) \<and> allocated pl - pl_free pl = int (length u) \<and> allocated pl \<le> INT_MAX \<and>
       sz \<le> element_size pl \<and> num_in_block pl = num \<and>
       (\<not> bypass_routines pl \<longrightarrow>
         (\<forall>a\<in>set u. aligned_header \<le> element_at pl (a mod nat num) \<and> element_at pl (a mod nat num) + element_size pl \<le> block_size pl) \<and>
         (\<forall>a\<in>set u. \<forall>b\<in>set u. a \<noteq> b \<and> a div nat num = b div nat num \<longrightarrow> element_at pl (a mod nat num) + element_size pl \<le> element_at pl (b mod nat num) \<or>
           element_at pl (b mod nat num) + element_size pl \<le> element_at pl (a mod nat num))) \<and>
       (pool_mem g' p = None \<longleftrightarrow> u = [])) g) \<and>
    (INT_MAX < rounded_size sz * num \<longrightarrow> L_create_alloc_pool (Some nm) sz num g = Inl Int_Overflow)"
    (is "(_ \<longrightarrow> wp (bnd ?create (\<lambda>p. bnd (client p cs []) (?use p))) ?Q g) \<and> _")
proof (intro conjI impI)
  assume fits: "block_fits sz num \<and> num + int (length cs) \<le> INT_MAX"
  let ?sh = "(rounded_size sz, rounded_size sz * num + aligned_header, num, bypass_alloc_routines g)"
  show "wp (bnd ?create (\<lambda>p. bnd (client p cs []) (?use p))) ?Q g"
  proof (rule wp_seq [OF create_wp [OF assms conjunct1 [OF fits]]], elim conjE)
    fix p and g1 :: "'z alloc_lib_scheme"
    assume "pool_in p g1" "pool_used p g1 = {}" "map_option pool_shape (pool_mem g1 p) = Some ?sh" "map_option allocated (pool_mem g1 p) = Some 0"
    then have "serving p ?sh [] 0 g1" using assms by (auto simp: serving_def pool_in_def pool_used_def pool_shape_def)
    from client_wp [OF this, of cs] show "wp (bnd (client p cs []) (?use p)) ?Q g1"
    proof (rule wp_seq)
      fix u and g2 :: "'z alloc_lib_scheme" assume "serving p ?sh u (0 + length cs) g2"
      then obtain pl where pl: "pool_mem g2 p = Some pl" "pool_ok pl" "Collect (in_pool pl) = set u" "distinct u"
        "element_size pl = rounded_size sz" "num_in_block pl = num" "allocated pl \<le> num + int (length cs)"
        by (auto simp: serving_def pool_shape_def)
      have count: "allocated pl - pl_free pl = int (length u)"
        using in_use_count(2) [OF pl(2)] distinct_card [OF pl(4)] pl(3) by simp
      have "a mod nat num < nat num" for a using assms by simp
      then have inside: "aligned_header \<le> element_at pl (a mod nat num)" "element_at pl (a mod nat num) + element_size pl \<le> block_size pl" for a
        using element_fits [of pl "a mod nat num" "nat num"] pl(2,6) by (auto simp: pool_ok_def element_at_def header_size_def)
      show "wp (?use p u) ?Q g2"
        using pl(1-5,7) count fits rounded_size(1) [of sz] pl(6) inside elements_apart [OF pl(2)]
        by (auto simp: pool_get_def L_free_alloc_pool_def)
    qed
  qed
next
  assume "INT_MAX < rounded_size sz * num"
  then show "L_create_alloc_pool (Some nm) sz num g = Inl Int_Overflow" using assms by (simp add: L_create_alloc_pool_def Let_def fail_def)
qed

definition no_pools :: alloc_lib where
  "no_pools = \<lparr>bypass_alloc_routines = False, active_alloc_pools = [], pool_mem = Map.empty, pool_top = 0\<rparr>"

theorem pool_safe_witness:
  "wp (bnd (L_create_alloc_pool (Some ''Stack'') 24 2) (\<lambda>p. bnd (client p [Get, Get, Get, Put 1, Get] []) (\<lambda>u.
      bnd (pool_get p) (\<lambda>pl. bnd (L_free_alloc_pool (Some p)) (\<lambda>_. ret (p, u, pl))))))
    (\<lambda>(p, u, pl) g'. distinct u \<and> set u = Collect (in_pool pl) \<and> allocated pl - pl_free pl = int (length u) \<and> 24 \<le> element_size pl \<and>
       (pool_mem g' p = None \<longleftrightarrow> u = [])) no_pools \<and>
   L_create_alloc_pool (Some ''Stack'') 65536 65536 no_pools = Inl Int_Overflow"
proof
  have "block_fits 24 2" by (simp add: block_fits_def rounded_size_def at_least_header_def header_size_def aligned_header_def INT_MAX_def)
  then show "wp (bnd (L_create_alloc_pool (Some ''Stack'') 24 2) (\<lambda>p. bnd (client p [Get, Get, Get, Put 1, Get] []) (\<lambda>u.
      bnd (pool_get p) (\<lambda>pl. bnd (L_free_alloc_pool (Some p)) (\<lambda>_. ret (p, u, pl))))))
    (\<lambda>(p, u, pl) g'. distinct u \<and> set u = Collect (in_pool pl) \<and> allocated pl - pl_free pl = int (length u) \<and> 24 \<le> element_size pl \<and>
       (pool_mem g' p = None \<longleftrightarrow> u = [])) no_pools"
    by (intro wp_mono [OF mp [OF conjunct1 [OF pool_safe [of 2 24 "[Get, Get, Get, Put 1, Get]" "''Stack''" no_pools]]]])
      (auto simp: INT_MAX_def)
  have "INT_MAX < rounded_size 65536 * 65536" by (simp add: rounded_size_def at_least_header_def header_size_def INT_MAX_def)
  then show "L_create_alloc_pool (Some ''Stack'') 65536 65536 no_pools = Inl Int_Overflow"
    using pool_safe [of 65536 65536 "[]" "''Stack''" no_pools] by simp
qed

text \<open>
  C31. What the check at the end of \<open>L_free\<close> finds. Freeing once more an element that is free already ends the program
  when no element of the pool is in use. Otherwise it goes through, and when that element is the last one freed, the next
  two allocations both return it.
\<close>

theorem double_free:
  assumes "pool_mem g p = Some pl" "pool_ok pl" "\<not> bypass_routines pl" "a \<in> set (pl_head pl)"
  shows "if Collect (in_pool pl) = {} then L_free (Some p) (Some a) g = Inl (Exit 1)
    else wp (bnd (L_free (Some p) (Some a)) (\<lambda>_. bnd (L_alloc (Some p)) (\<lambda>x. bnd (L_alloc (Some p)) (\<lambda>y. ret (x, y)))))
      (\<lambda>(x, y) g'. x = a \<and> y = hd (pl_head pl)) g"
proof -
  note c = none_in_use [OF assms(2)]
  show ?thesis
  proof (cases "Collect (in_pool pl) = {}")
    case True
    with assms c show ?thesis by (simp add: L_free_def pool_get_def Let_def bnd_def gets_def ret_def fail_def)
  next
    case False
    then have "pl_free pl < allocated pl" using c by auto
    with False assms show ?thesis
      by (cases "pl_head pl") (auto simp: L_free_def L_alloc_def pool_get_def pool_put_def Let_def)
  qed
qed

definition two_pool :: L_Alloc_Pool where
  "two_pool = \<lparr>pl_name = ''Stack'', element_size = 24, block_size = 56, num_in_block = 2, pl_head = [1], allocated = 2,
     pl_free = 1, blocks_allocated = 1, block_list = [0], bypass_routines = False, bp_live = []\<rparr>"

theorem double_free_witness:
  "wp (bnd (L_free (Some 0) (Some 1)) (\<lambda>_. bnd (L_alloc (Some 0)) (\<lambda>x. bnd (L_alloc (Some 0)) (\<lambda>y. ret (x, y)))))
     (\<lambda>(x, y) g'. x = 1 \<and> y = 1) (no_pools\<lparr>pool_mem := [0 \<mapsto> two_pool]\<rparr>)"
proof -
  have "in_pool two_pool 0" by (simp add: in_pool_def two_pool_def)
  then have use: "Collect (in_pool two_pool) \<noteq> {}" by auto
  have "pool_mem (no_pools\<lparr>pool_mem := [0 \<mapsto> two_pool]\<rparr>) 0 = Some two_pool" by simp
  moreover have "pool_ok two_pool" "\<not> bypass_routines two_pool" "1 \<in> set (pl_head two_pool)" "hd (pl_head two_pool) = 1"
    by (simp_all add: two_pool_def pool_ok_def element_at_def aligned_header_def header_size_def)
  ultimately show ?thesis
    using double_free [of "no_pools\<lparr>pool_mem := [0 \<mapsto> two_pool]\<rparr>" 0 two_pool 1] unfolding if_not_P [OF use] by simp
qed

end
