(* ===== verification/Stack.thy ===== *)
theory Stack
  imports Alloc_Pool Linked_List
begin

text \<open>
  The stack library, \<open>src/src/library/stack/stack.c\<close> and \<open>stack.h\<close>: doubly linked lists with a header that points to
  the top, the bottom and the element the iterator is at. Headers and elements come from two pools. A \<open>void *\<close> is an
  integer: NULL is 0, and \<open>(void *) -1\<close> marks an empty stack.
\<close>

section \<open>State\<close>

record stack_lib = alloc_lib +
  stackPool :: "nat option"
  stackElmtPool :: "nat option"
  e_ptr :: "nat \<Rightarrow> int"
  e_next :: "nat \<Rightarrow> nat option"
  e_prev :: "nat \<Rightarrow> nat option"
  s_ptr :: "nat \<Rightarrow> nat option"
  s_top :: "nat \<Rightarrow> nat option"
  s_bottom :: "nat \<Rightarrow> nat option"

section \<open>Operations\<close>

definition New_Stack :: "(stack_lib, nat option) prog" where
  "New_Stack =
     bnd (gets stackPool) (\<lambda>sp.
     bnd (if sp = None then
            bnd (L_create_alloc_pool (Some ''Stack'') 24 32) (\<lambda>p.
            bnd (modify (\<lambda>g. g\<lparr>stackPool := Some p\<rparr>)) (\<lambda>_.
            bnd (L_create_alloc_pool (Some ''StackElmt'') 24 512) (\<lambda>q.
            modify (\<lambda>g. g\<lparr>stackElmtPool := Some q\<rparr>))))
          else ret ()) (\<lambda>_.
     bnd (gets stackPool) (\<lambda>sp.
     bnd (L_alloc sp) (\<lambda>s.
     bnd (wr stackPool s_ptr_update (Some s) None) (\<lambda>_.
     bnd (wr stackPool s_top_update (Some s) None) (\<lambda>_.
     bnd (wr stackPool s_bottom_update (Some s) None) (\<lambda>_.
     ret (Some s))))))))"

definition New_Stack_Elmt :: "(stack_lib, nat option) prog" where
  "New_Stack_Elmt = bnd (gets stackElmtPool) (\<lambda>ep. bnd (L_alloc ep) (\<lambda>a. ret (Some a)))"

definition Free_Stack_Elmt :: "nat option \<Rightarrow> (stack_lib, unit) prog" where
  "Free_Stack_Elmt ptr = bnd (gets stackElmtPool) (\<lambda>ep. L_free ep ptr)"

definition free_elmts :: "nat option \<Rightarrow> (stack_lib, nat option \<times> unit) prog" where
  "free_elmts ptr = while_prog (\<lambda>r. fst r \<noteq> None) (\<lambda>r.
     bnd (rd stackElmtPool e_next (fst r)) (\<lambda>next.
     bnd (Free_Stack_Elmt (fst r)) (\<lambda>_. ret (next, ())))) (ptr, ())"

definition Free_Stack :: "nat option \<Rightarrow> (stack_lib, nat option) prog" where
  "Free_Stack stack =
     bnd (rd stackPool s_top stack) (\<lambda>ptr.
     bnd (free_elmts ptr) (\<lambda>_.
     bnd (gets stackPool) (\<lambda>sp.
     bnd (L_free sp stack) (\<lambda>_. ret None))))"

definition Clear_Stack :: "nat option \<Rightarrow> (stack_lib, unit) prog" where
  "Clear_Stack stack =
     (if stack = None then ret ()
      else
        bnd (rd stackPool s_top stack) (\<lambda>ptr.
        bnd (free_elmts ptr) (\<lambda>_.
        bnd (wr stackPool s_bottom_update stack None) (\<lambda>_.
        wr stackPool s_top_update stack None))))"

definition Push_Top :: "nat option \<Rightarrow> int \<Rightarrow> (stack_lib, unit) prog" where
  "Push_Top stack ptr =
     bnd (New_Stack_Elmt) (\<lambda>elmt.
     bnd (wr stackElmtPool e_ptr_update elmt ptr) (\<lambda>_.
     bnd (rd stackPool s_top stack) (\<lambda>top.
     if top \<noteq> None then
       bnd (wr stackElmtPool e_prev_update top elmt) (\<lambda>_.
       bnd (wr stackElmtPool e_next_update elmt top) (\<lambda>_.
       bnd (wr stackElmtPool e_prev_update elmt None) (\<lambda>_.
       wr stackPool s_top_update stack elmt)))
     else
       bnd (wr stackPool s_top_update stack elmt) (\<lambda>_.
       bnd (wr stackPool s_bottom_update stack elmt) (\<lambda>_.
       bnd (wr stackElmtPool e_prev_update elmt None) (\<lambda>_.
       wr stackElmtPool e_next_update elmt None))))))"

definition Push_Bot :: "nat option \<Rightarrow> int \<Rightarrow> (stack_lib, unit) prog" where
  "Push_Bot stack ptr =
     bnd (New_Stack_Elmt) (\<lambda>elmt.
     bnd (wr stackElmtPool e_ptr_update elmt ptr) (\<lambda>_.
     bnd (rd stackPool s_top stack) (\<lambda>top.
     if top \<noteq> None then
       bnd (rd stackPool s_bottom stack) (\<lambda>bottom.
       bnd (wr stackElmtPool e_next_update bottom elmt) (\<lambda>_.
       bnd (wr stackElmtPool e_next_update elmt None) (\<lambda>_.
       bnd (wr stackElmtPool e_prev_update elmt bottom) (\<lambda>_.
       wr stackPool s_bottom_update stack elmt))))
     else
       bnd (wr stackPool s_top_update stack elmt) (\<lambda>_.
       bnd (wr stackPool s_bottom_update stack elmt) (\<lambda>_.
       bnd (wr stackElmtPool e_prev_update elmt None) (\<lambda>_.
       wr stackElmtPool e_next_update elmt None))))))"

definition Pop :: "nat option \<Rightarrow> (stack_lib, int) prog" where
  "Pop stack =
     bnd (rd stackPool s_top stack) (\<lambda>pop.
     if pop \<noteq> None then
       bnd (rd stackElmtPool e_next pop) (\<lambda>top.
       bnd (wr stackPool s_top_update stack top) (\<lambda>_.
       bnd (if top \<noteq> None then wr stackElmtPool e_prev_update top None
            else wr stackPool s_bottom_update stack None) (\<lambda>_.
       bnd (rd stackElmtPool e_ptr pop) (\<lambda>ptr.
       bnd (Free_Stack_Elmt pop) (\<lambda>_. ret ptr)))))
     else ret (- 1))"

definition Stack_Top :: "nat option \<Rightarrow> (stack_lib, int) prog" where
  "Stack_Top stack =
     bnd (rd stackPool s_top stack) (\<lambda>top.
     if top \<noteq> None then rd stackElmtPool e_ptr top else ret (- 1))"

definition Stack_Elmt_Data :: "nat option \<Rightarrow> (stack_lib, int) prog" where
  "Stack_Elmt_Data elmt = (if elmt \<noteq> None then rd stackElmtPool e_ptr elmt else ret 0)"

text \<open>The loop of \<open>Stack_Find\<close> leaves with \<open>return\<close> at the element it has found.\<close>

definition Stack_Find :: "nat option \<Rightarrow> int \<Rightarrow> (stack_lib, nat option) prog" where
  "Stack_Find stack ptr =
     bnd (rd stackPool s_top stack) (\<lambda>top.
     bnd (while_prog (\<lambda>r. fst r \<noteq> None \<and> snd r = None) (\<lambda>r.
            bnd (rd stackElmtPool e_ptr (fst r)) (\<lambda>x.
            if x = ptr then ret (fst r, fst r)
            else bnd (rd stackElmtPool e_next (fst r)) (\<lambda>next. ret (next, None)))) (top, None)) (\<lambda>r.
     ret (snd r)))"

definition Stack_Ptr_Reset :: "nat option \<Rightarrow> (stack_lib, nat option) prog" where
  "Stack_Ptr_Reset stack =
     bnd (rd stackPool s_top stack) (\<lambda>top.
     bnd (wr stackPool s_ptr_update stack top) (\<lambda>_.
     rd stackPool s_ptr stack))"

definition Stack_Ptr_Set :: "nat option \<Rightarrow> nat option \<Rightarrow> (stack_lib, unit) prog" where
  "Stack_Ptr_Set stack ptr = (if ptr \<noteq> None then wr stackPool s_ptr_update stack ptr else ret ())"

definition Stack_Find_Next :: "nat option \<Rightarrow> (stack_lib, nat option) prog" where
  "Stack_Find_Next stack =
     bnd (rd stackPool s_ptr stack) (\<lambda>tmp.
     if tmp \<noteq> None then
       bnd (rd stackElmtPool e_next tmp) (\<lambda>tmp.
       bnd (wr stackPool s_ptr_update stack tmp) (\<lambda>_. ret tmp))
     else ret tmp)"

definition Stack_Is_Bottom :: "nat option \<Rightarrow> (stack_lib, bool) prog" where
  "Stack_Is_Bottom stack =
     bnd (rd stackPool s_ptr stack) (\<lambda>ptr.
     bnd (rd stackPool s_bottom stack) (\<lambda>bottom.
     ret (ptr \<noteq> None \<and> ptr = bottom)))"

definition Delete_Stack :: "nat option \<Rightarrow> nat option \<Rightarrow> (stack_lib, unit) prog" where
  "Delete_Stack stack ptr =
     bnd (rd stackElmtPool e_prev ptr) (\<lambda>prev.
     bnd (rd stackElmtPool e_next ptr) (\<lambda>next.
     bnd (if next \<noteq> None then
            if prev \<noteq> None then
              bnd (wr stackElmtPool e_prev_update next prev) (\<lambda>_.
              wr stackElmtPool e_next_update prev next)
            else
              bnd (wr stackPool s_top_update stack next) (\<lambda>_.
              wr stackElmtPool e_prev_update next None)
          else if prev \<noteq> None then
            bnd (wr stackElmtPool e_next_update prev None) (\<lambda>_.
            wr stackPool s_bottom_update stack prev)
          else
            bnd (wr stackPool s_bottom_update stack None) (\<lambda>_.
            wr stackPool s_top_update stack None)) (\<lambda>_.
     Free_Stack_Elmt ptr)))"

text \<open>The values that \<open>Stack_Print\<close> writes, in their order.\<close>

definition Stack_Print :: "nat option \<Rightarrow> (stack_lib, int list) prog" where
  "Stack_Print stack =
     bnd (rd stackPool s_top stack) (\<lambda>tmp.
     bnd (while_prog (\<lambda>r. fst r \<noteq> None) (\<lambda>r.
            bnd (rd stackElmtPool e_ptr (fst r)) (\<lambda>x.
            bnd (rd stackElmtPool e_next (fst r)) (\<lambda>next.
            ret (next, snd r @ [x])))) (tmp, [])) (\<lambda>r.
     ret (snd r)))"

end
