(* ===== verification/Stack_Refinement.thy ===== *)
theory Stack_Refinement
  imports Stack
begin

text \<open>
  The stack library refines stacks as lists. \<open>holds g A N\<close> says that the memory is well-formed, that \<open>A\<close> gives the contents of
  every stack in use, from the top to the bottom, and that \<open>N\<close> are the elements in use that belong to no stack.
\<close>

section \<open>The invariant\<close>

definition cell_ok :: "stack_lib \<Rightarrow> nat set \<Rightarrow> nat \<Rightarrow> nat list \<Rightarrow> bool" where
  "cell_ok g E s xs \<longleftrightarrow> distinct xs \<and> set xs \<subseteq> E \<and> dll (e_next g) (e_prev g) None xs None \<and>
     s_top g s = fst_of xs None \<and> s_bottom g s = lst_of xs None"

definition stacks_ok :: "stack_lib \<Rightarrow> nat set \<Rightarrow> nat set \<Rightarrow> (nat \<Rightarrow> nat list) \<Rightarrow> bool" where
  "stacks_ok g S E L \<longleftrightarrow> (\<forall>s\<in>S. cell_ok g E s (L s)) \<and> (\<forall>s\<in>S. \<forall>t\<in>S. s \<noteq> t \<longrightarrow> set (L s) \<inter> set (L t) = {})"

definition contents :: "stack_lib \<Rightarrow> nat set \<Rightarrow> (nat \<Rightarrow> nat list) \<Rightarrow> nat \<Rightarrow> int list option" where
  "contents g S L s = (if s \<in> S then Some (map (e_ptr g) (L s)) else None)"

definition loose :: "nat set \<Rightarrow> nat set \<Rightarrow> (nat \<Rightarrow> nat list) \<Rightarrow> nat set" where
  "loose S E L = E - (\<Union>s\<in>S. set (L s))"

definition pools_ok :: "stack_lib \<Rightarrow> nat \<Rightarrow> nat \<Rightarrow> bool" where
  "pools_ok g sp ep \<longleftrightarrow> stackPool g = Some sp \<and> stackElmtPool g = Some ep \<and> sp \<noteq> ep \<and> pool_in sp g \<and> pool_in ep g"

definition holds :: "stack_lib \<Rightarrow> (nat \<Rightarrow> int list option) \<Rightarrow> nat set \<Rightarrow> bool" where
  "holds g A N \<longleftrightarrow> stackPool g = None \<and> stackElmtPool g = None \<and> A = Map.empty \<and> N = {} \<or>
     (\<exists>sp ep L. pools_ok g sp ep \<and> stacks_ok g (pool_used sp g) (pool_used ep g) L \<and>
       A = contents g (pool_used sp g) L \<and> N = loose (pool_used sp g) (pool_used ep g) L)"

text \<open>Field updates leave the pools alone.\<close>

lemma pools_upd [simp]:
  "pool_used p (e_ptr_update f g) = pool_used p g" "pool_used p (e_next_update h g) = pool_used p g"
  "pool_used p (e_prev_update h g) = pool_used p g" "pool_used p (s_ptr_update h g) = pool_used p g"
  "pool_used p (s_top_update h g) = pool_used p g" "pool_used p (s_bottom_update h g) = pool_used p g"
  "pools_ok (e_ptr_update f g) = pools_ok g" "pools_ok (e_next_update h g) = pools_ok g"
  "pools_ok (e_prev_update h g) = pools_ok g" "pools_ok (s_ptr_update h g) = pools_ok g"
  "pools_ok (s_top_update h g) = pools_ok g" "pools_ok (s_bottom_update h g) = pools_ok g"
  by (simp_all add: pool_used_def pools_ok_def pool_in_def fun_eq_iff)

lemma pools_okD: "pools_ok g sp ep \<Longrightarrow> stackPool g = Some sp" "pools_ok g sp ep \<Longrightarrow> stackElmtPool g = Some ep"
  by (simp_all add: pools_ok_def)

lemma holdsE:
  assumes "holds g A N" "A s = Some l"
  obtains sp ep L where "pools_ok g sp ep" "stacks_ok g (pool_used sp g) (pool_used ep g) L" "s \<in> pool_used sp g"
    "A = contents g (pool_used sp g) L" "N = loose (pool_used sp g) (pool_used ep g) L" "l = map (e_ptr g) (L s)"
    "cell_ok g (pool_used ep g) s (L s)"
proof -
  obtain sp ep L where h: "pools_ok g sp ep" "stacks_ok g (pool_used sp g) (pool_used ep g) L"
    "A = contents g (pool_used sp g) L" "N = loose (pool_used sp g) (pool_used ep g) L"
    using assms unfolding holds_def by auto
  then have "s \<in> pool_used sp g" "l = map (e_ptr g) (L s)" using assms(2) by (auto simp: contents_def split: if_splits)
  with h that show thesis by (auto simp: stacks_ok_def)
qed

lemma holdsI:
  assumes "pools_ok g sp ep" "stacks_ok g (pool_used sp g) (pool_used ep g) L"
  shows "holds g (contents g (pool_used sp g) L) (loose (pool_used sp g) (pool_used ep g) L)"
  using assms unfolding holds_def by blast

text \<open>An operation changes the links of one stack only.\<close>

lemma stacks_step:
  assumes ok: "stacks_ok g S E L" "s \<in> S" "cell_ok g' E' s xs" and E': "E' - set xs = E - set (L s)"
    and e: "\<And>x. x \<in> E \<Longrightarrow> x \<notin> set (L s) \<Longrightarrow> e_ptr g' x = e_ptr g x \<and> e_next g' x = e_next g x \<and> e_prev g' x = e_prev g x"
    and t: "\<And>t. t \<in> S \<Longrightarrow> t \<noteq> s \<Longrightarrow> s_top g' t = s_top g t \<and> s_bottom g' t = s_bottom g t"
  shows "stacks_ok g' S E' (L(s := xs))" "contents g' S (L(s := xs)) = (contents g S L)(s \<mapsto> map (e_ptr g') xs)"
    "loose S E' (L(s := xs)) = loose S E L"
proof -
  have d: "set (L u) \<inter> set (L s) = {}" if "u \<in> S" "u \<noteq> s" for u using that ok by (auto simp: stacks_ok_def)
  have sub: "set (L u) \<subseteq> E" if "u \<in> S" for u using that ok(1) by (auto simp: stacks_ok_def cell_ok_def)
  have out: "x \<in> E" "x \<notin> set (L s)" "x \<in> E'" "x \<notin> set xs" if "u \<in> S" "u \<noteq> s" "x \<in> set (L u)" for u x
    using d [OF that(1,2)] sub [OF that(1)] that(3) E' by blast+
  have dll: "dll (e_next g') (e_prev g') None (L u) None = dll (e_next g) (e_prev g) None (L u) None" if "u \<in> S" "u \<noteq> s" for u
    by (rule dll_cong) (use out [OF that] e in auto)
  have cell: "cell_ok g' E' u (L u)" if "u \<in> S" "u \<noteq> s" for u
  proof -
    have "cell_ok g E u (L u)" using ok(1) that(1) by (simp add: stacks_ok_def)
    then show ?thesis using out [OF that] t [OF that] dll [OF that] by (auto simp: cell_ok_def)
  qed
  show "stacks_ok g' S E' (L(s := xs))"
    using ok cell out unfolding stacks_ok_def by (auto 0 4)
  show "contents g' S (L(s := xs)) = (contents g S L)(s \<mapsto> map (e_ptr g') xs)"
    using ok(2) out e by (auto simp: contents_def fun_eq_iff)
  have "loose S E' (L(s := xs)) = (E' - set xs) - (\<Union>u\<in>S - {s}. set (L u))" using ok(2) by (auto simp: loose_def split: if_splits)
  also have "\<dots> = loose S E L" unfolding E' using ok(2) by (auto simp: loose_def)
  finally show "loose S E' (L(s := xs)) = loose S E L" .
qed

text \<open>What the two pools promise, on the state of this library.\<close>

lemma lib_more:
  assumes "alloc_lib.more g' = alloc_lib.more (g :: stack_lib)"
  shows "stackPool g' = stackPool g" "stackElmtPool g' = stackElmtPool g" "e_ptr g' = e_ptr g" "e_next g' = e_next g" "e_prev g' = e_prev g"
    "s_ptr g' = s_ptr g" "s_top g' = s_top g" "s_bottom g' = s_bottom g"
  using assms by (cases g; cases g'; simp)+

definition same_mem :: "stack_lib \<Rightarrow> stack_lib \<Rightarrow> bool" where
  "same_mem g' g \<longleftrightarrow> e_ptr g' = e_ptr g \<and> e_next g' = e_next g \<and> e_prev g' = e_prev g \<and>
    s_ptr g' = s_ptr g \<and> s_top g' = s_top g \<and> s_bottom g' = s_bottom g"

lemma elmt_pool_frame:
  assumes "pools_ok g sp ep" "pool_rest ep g' = pool_rest ep g" "pool_in ep g'"
  shows "pools_ok g' sp ep" "pool_used sp g' = pool_used sp g" "same_mem g' g"
proof -
  have "sp \<noteq> ep" using assms(1) by (simp add: pools_ok_def)
  note o = pool_rest_other [OF assms(2) this] and m = lib_more [OF pool_rest_more [OF assms(2)]]
  show "pools_ok g' sp ep" using assms o(2) m(1,2) by (simp add: pools_ok_def)
  show "pool_used sp g' = pool_used sp g" by (rule o(1))
  show "same_mem g' g" using m by (simp add: same_mem_def)
qed

lemma elmt_alloc:
  assumes "pools_ok g sp ep"
  shows "wp New_Stack_Elmt (\<lambda>r g'. \<exists>a. r = Some a \<and> pools_ok g' sp ep \<and> a \<notin> pool_used ep g \<and>
    pool_used ep g' = insert a (pool_used ep g) \<and> pool_used sp g' = pool_used sp g \<and> same_mem g' g) g"
proof -
  have ep: "stackElmtPool g = Some ep" "pool_in ep g" "sp \<noteq> ep" using assms by (auto simp: pools_ok_def)
  have "wp (L_alloc (Some ep)) (\<lambda>a g'. pools_ok g' sp ep \<and> a \<notin> pool_used ep g \<and>
    pool_used ep g' = insert a (pool_used ep g) \<and> pool_used sp g' = pool_used sp g \<and> same_mem g' g) g"
    by (rule wp_mono [OF pool.alloc [OF ep(2)]]) (use elmt_pool_frame [OF assms] in blast)
  then show ?thesis unfolding New_Stack_Elmt_def by (auto simp: ep(1) elim: wp_mono)
qed

lemma elmt_free:
  assumes "pools_ok g sp ep" "a \<in> pool_used ep g"
  shows "wp (Free_Stack_Elmt (Some a)) (\<lambda>_ g'. pools_ok g' sp ep \<and>
    pool_used ep g' = pool_used ep g - {a} \<and> pool_used sp g' = pool_used sp g \<and> same_mem g' g) g"
proof -
  have ep: "stackElmtPool g = Some ep" "pool_in ep g" "sp \<noteq> ep" using assms by (auto simp: pools_ok_def)
  have "wp (L_free (Some ep) (Some a)) (\<lambda>_ g'. pools_ok g' sp ep \<and>
    pool_used ep g' = pool_used ep g - {a} \<and> pool_used sp g' = pool_used sp g \<and> same_mem g' g) g"
    by (rule wp_mono [OF pool.dealloc [OF ep(2) assms(2)]]) (use elmt_pool_frame [OF assms(1)] in blast)
  then show ?thesis unfolding Free_Stack_Elmt_def by (simp add: ep(1))
qed

section \<open>The operations on one stack\<close>

text \<open>
  Opening the invariant at the stack \<open>s\<close>: its elements are \<open>xs\<close>, and a state in which it has the elements \<open>ys\<close> and
  nothing else has changed satisfies the invariant again.
\<close>

definition opened :: "stack_lib \<Rightarrow> (nat \<Rightarrow> int list option) \<Rightarrow> nat set \<Rightarrow> nat \<Rightarrow> nat \<Rightarrow> nat \<Rightarrow> nat list \<Rightarrow> bool" where
  "opened g A N s sp ep xs \<longleftrightarrow> pools_ok g sp ep \<and> s \<in> pool_used sp g \<and> cell_ok g (pool_used ep g) s xs \<and>
     (\<exists>L. L s = xs \<and> stacks_ok g (pool_used sp g) (pool_used ep g) L \<and> A = contents g (pool_used sp g) L \<and>
       N = loose (pool_used sp g) (pool_used ep g) L)"

lemma open_stack:
  assumes "holds g A N" "A s = Some l"
  obtains sp ep xs where "opened g A N s sp ep xs" "l = map (e_ptr g) xs"
  using holdsE [OF assms] unfolding opened_def by metis

lemma openedD:
  assumes "opened g A N s sp ep xs"
  shows "pools_ok g sp ep" "s \<in> pool_used sp g" "distinct xs" "set xs \<subseteq> pool_used ep g"
    "dll (e_next g) (e_prev g) None xs None" "s_top g s = fst_of xs None" "s_bottom g s = lst_of xs None"
    "A s = Some (map (e_ptr g) xs)"
  using assms by (auto simp: opened_def cell_ok_def contents_def)

lemma close_stack:
  assumes "opened g A N s sp ep xs"
    and "pools_ok g' sp ep" "pool_used sp g' = pool_used sp g" "cell_ok g' (pool_used ep g') s ys"
      "pool_used ep g' - set ys = pool_used ep g - set xs"
    and "\<And>x. x \<in> pool_used ep g \<Longrightarrow> x \<notin> set xs \<Longrightarrow> e_ptr g' x = e_ptr g x \<and> e_next g' x = e_next g x \<and> e_prev g' x = e_prev g x"
    and "\<And>t. t \<noteq> s \<Longrightarrow> s_top g' t = s_top g t \<and> s_bottom g' t = s_bottom g t"
    and "l = map (e_ptr g') ys"
  shows "holds g' (A(s \<mapsto> l)) N"
proof -
  obtain L where L: "L s = xs" "s \<in> pool_used sp g" "stacks_ok g (pool_used sp g) (pool_used ep g) L"
    "A = contents g (pool_used sp g) L" "N = loose (pool_used sp g) (pool_used ep g) L" using assms(1) by (auto simp: opened_def)
  note st = stacks_step [OF L(3,2) assms(4) _ _ assms(7), unfolded L(1), OF assms(5,6)]
  show ?thesis using st holdsI [OF assms(2), of "L(s := ys)"] assms(3,8) L(4,5) by simp
qed

lemmas mem_simps = pools_okD in_use_eq same_mem_def

lemma Push_Top_wp:
  assumes "holds g A N" "A s = Some l"
  shows "wp (Push_Top (Some s) x) (\<lambda>_ g'. holds g' (A(s \<mapsto> x # l)) N) g"
proof -
  from assms obtain sp ep xs where o: "opened g A N s sp ep xs" and l: "l = map (e_ptr g) xs" by (rule open_stack)
  note c = openedD [OF o]
  from elmt_alloc [OF c(1)] obtain a g1 where run: "New_Stack_Elmt g = Inr (Some a, g1)" and p1: "pools_ok g1 sp ep"
    and a: "a \<notin> pool_used ep g" and E: "pool_used ep g1 = insert a (pool_used ep g)"
    and S: "pool_used sp g1 = pool_used sp g" and m: "same_mem g1 g" by (auto simp: wp_run)
  have new: "a \<notin> set xs" using a c(4) by auto
  define Q where "Q g' \<longleftrightarrow> pools_ok g' sp ep \<and> pool_used sp g' = pool_used sp g \<and>
      pool_used ep g' = insert a (pool_used ep g) \<and> e_ptr g' = (e_ptr g)(a := x) \<and>
      e_next g' = (e_next g)(a := fst_of xs None) \<and> e_prev g' = (link (e_prev g) (fst_of xs None) (Some a))(a := None) \<and>
      s_top g' = (s_top g)(s := Some a) \<and> s_bottom g' = (s_bottom g)(s := lst_of (a # xs) None)" for g'
  have "wp (Push_Top (Some s) x) (\<lambda>_. Q) g"
    using p1 m c(2,4,6) E S unfolding Push_Top_def
    by (cases xs) (auto simp: wp_exec [of New_Stack_Elmt, OF run] mem_simps c(7) Q_def)
  then show ?thesis
    by (rule wp_mono, intro close_stack [OF o, where ys = "a # xs"])
      (use c a new l dll_push_front [OF c(3,5) new] in \<open>auto simp: Q_def cell_ok_def\<close>)
qed

lemma Push_Bot_wp:
  assumes "holds g A N" "A s = Some l"
  shows "wp (Push_Bot (Some s) x) (\<lambda>_ g'. holds g' (A(s \<mapsto> l @ [x])) N) g"
proof -
  from assms obtain sp ep xs where o: "opened g A N s sp ep xs" and l: "l = map (e_ptr g) xs" by (rule open_stack)
  note c = openedD [OF o]
  from elmt_alloc [OF c(1)] obtain a g1 where run: "New_Stack_Elmt g = Inr (Some a, g1)" and p1: "pools_ok g1 sp ep"
    and a: "a \<notin> pool_used ep g" and E: "pool_used ep g1 = insert a (pool_used ep g)"
    and S: "pool_used sp g1 = pool_used sp g" and m: "same_mem g1 g" by (auto simp: wp_run)
  have new: "a \<notin> set xs" using a c(4) by auto
  define Q where "Q g' \<longleftrightarrow> pools_ok g' sp ep \<and> pool_used sp g' = pool_used sp g \<and>
      pool_used ep g' = insert a (pool_used ep g) \<and> e_ptr g' = (e_ptr g)(a := x) \<and>
      e_next g' = (link (e_next g) (lst_of xs None) (Some a))(a := None) \<and> e_prev g' = (e_prev g)(a := lst_of xs None) \<and>
      s_top g' = (s_top g)(s := fst_of (xs @ [a]) None) \<and> s_bottom g' = (s_bottom g)(s := Some a)" for g'
  have "wp (Push_Bot (Some s) x) (\<lambda>_. Q) g"
    using p1 m c(2,4,6) E S unfolding Push_Bot_def
    by (cases xs rule: rev_cases) (auto simp: wp_exec [of New_Stack_Elmt, OF run] mem_simps c(7) Q_def fun_upd_idem)
  then show ?thesis
    by (rule wp_mono, intro close_stack [OF o, where ys = "xs @ [a]"])
      (use c a new l dll_push_back [OF c(3,5) new] in \<open>auto simp: Q_def cell_ok_def\<close>)
qed

lemma elmt_free_wp:
  assumes "pools_ok g sp ep" "a \<in> pool_used ep g"
    and "\<And>g'. pools_ok g' sp ep \<Longrightarrow> pool_used ep g' = pool_used ep g - {a} \<Longrightarrow> pool_used sp g' = pool_used sp g \<Longrightarrow> same_mem g' g \<Longrightarrow> Q () g'"
  shows "wp (Free_Stack_Elmt (Some a)) Q g"
  by (rule wp_mono [OF elmt_free [OF assms(1,2)]]) (use assms(3) in auto)

lemma Delete_Stack_wp:
  assumes "opened g A N s sp ep (us @ a # vs)"
  shows "wp (Delete_Stack (Some s) (Some a)) (\<lambda>_ g'. holds g' (A(s \<mapsto> map (e_ptr g) (us @ vs))) N) g"
proof -
  note c = openedD [OF assms]
  have nb: "e_prev g a = lst_of us None" "e_next g a = fst_of vs None" using c(5) by auto
  define Q where "Q g' \<longleftrightarrow> pools_ok g' sp ep \<and> pool_used sp g' = pool_used sp g \<and> pool_used ep g' = pool_used ep g - {a} \<and>
      e_ptr g' = e_ptr g \<and> e_next g' = link (e_next g) (e_prev g a) (e_next g a) \<and> e_prev g' = link (e_prev g) (e_next g a) (e_prev g a) \<and>
      s_top g' = (s_top g)(s := fst_of (us @ vs) None) \<and> s_bottom g' = (s_bottom g)(s := lst_of (us @ vs) None)" for g'
  have "wp (Delete_Stack (Some s) (Some a)) (\<lambda>_. Q) g"
    unfolding Delete_Stack_def
    by (cases us rule: rev_cases; cases vs)
      (use c nb in \<open>auto simp: mem_simps Q_def fun_upd_idem intro!: elmt_free_wp [of _ sp ep]\<close>)
  then show ?thesis
    by (rule wp_mono, intro close_stack [OF assms, where ys = "us @ vs"])
      (use c nb dll_remove [OF c(3,5)] in \<open>auto simp: Q_def cell_ok_def\<close>)
qed

definition popped :: "nat \<Rightarrow> nat \<Rightarrow> nat \<Rightarrow> nat \<Rightarrow> nat list \<Rightarrow> stack_lib \<Rightarrow> stack_lib \<Rightarrow> bool" where
  "popped sp ep s a vs g g' \<longleftrightarrow> pools_ok g' sp ep \<and> pool_used sp g' = pool_used sp g \<and> pool_used ep g' = pool_used ep g - {a} \<and>
     e_ptr g' = e_ptr g \<and> e_next g' = e_next g \<and> e_prev g' = link (e_prev g) (e_next g a) None \<and>
     s_top g' = (s_top g)(s := fst_of vs None) \<and> s_bottom g' = (s_bottom g)(s := lst_of vs None) \<and> s_ptr g' = s_ptr g"

lemma Pop_popped:
  assumes "opened g A N s sp ep (a # vs)"
  shows "wp (Pop (Some s)) (\<lambda>r g'. r = e_ptr g a \<and> popped sp ep s a vs g g') g"
  unfolding Pop_def
  by (cases vs) (use openedD [OF assms] in \<open>auto simp: mem_simps popped_def fun_upd_idem intro!: elmt_free_wp [of _ sp ep]\<close>)

lemma Pop_wp:
  assumes "holds g A N" "A s = Some (x # l)"
  shows "wp (Pop (Some s)) (\<lambda>r g'. r = x \<and> holds g' (A(s \<mapsto> l)) N) g"
proof -
  from assms obtain sp ep xs where o: "opened g A N s sp ep xs" and l: "x # l = map (e_ptr g) xs" by (rule open_stack)
  from l obtain a vs where xs: "xs = a # vs" by (cases xs) auto
  note o = o [unfolded xs] and l = l [unfolded xs]
  note c = openedD [OF o]
  show ?thesis
    by (rule wp_mono [OF Pop_popped [OF o]], intro conjI close_stack [OF o, where ys = vs])
      (use c l dll_tail [OF c(3,5)] in \<open>auto simp: popped_def cell_ok_def\<close>)
qed

lemma empty_stack_wp:
  assumes "holds g A N" "A s = Some []"
  shows "wp (Pop (Some s)) (\<lambda>r g'. r = - 1 \<and> g' = g) g" "wp (Stack_Top (Some s)) (\<lambda>r g'. r = - 1 \<and> g' = g) g"
proof -
  from assms obtain sp ep xs where o: "opened g A N s sp ep xs" and l: "[] = map (e_ptr g) xs" by (rule open_stack)
  note c = openedD [OF o]
  show "wp (Pop (Some s)) (\<lambda>r g'. r = - 1 \<and> g' = g) g" "wp (Stack_Top (Some s)) (\<lambda>r g'. r = - 1 \<and> g' = g) g"
    unfolding Pop_def Stack_Top_def using c l by (auto simp: mem_simps)
qed

lemma Stack_Top_wp:
  assumes "holds g A N" "A s = Some (x # l)"
  shows "wp (Stack_Top (Some s)) (\<lambda>r g'. r = x \<and> g' = g) g"
proof -
  from assms obtain sp ep xs where o: "opened g A N s sp ep xs" and l: "x # l = map (e_ptr g) xs" by (rule open_stack)
  show ?thesis unfolding Stack_Top_def
    by (cases xs) (use openedD [OF o] l in \<open>auto simp: mem_simps\<close>)
qed

text \<open>\<open>Stack_Find\<close> returns the first element, from the top, that holds the value.\<close>

definition found_at :: "stack_lib \<Rightarrow> int \<Rightarrow> nat list \<Rightarrow> nat option \<Rightarrow> bool" where
  "found_at g y xs r \<longleftrightarrow> (case r of None \<Rightarrow> y \<notin> e_ptr g ` set xs
     | Some a \<Rightarrow> \<exists>us vs. xs = us @ a # vs \<and> e_ptr g a = y \<and> y \<notin> e_ptr g ` set us)"

lemma Stack_Find_wp:
  assumes o: "opened g A N s sp ep xs"
  shows "wp (Stack_Find (Some s) y) (\<lambda>r g'. g' = g \<and> found_at g y xs r) g"
proof -
  note c = openedD [OF o]
  have "wp (while_prog (\<lambda>r. fst r \<noteq> None \<and> snd r = None) (\<lambda>r.
            bnd (rd stackElmtPool e_ptr (fst r)) (\<lambda>x.
            if x = y then ret (fst r, fst r)
            else bnd (rd stackElmtPool e_next (fst r)) (\<lambda>next. ret (next, None)))) (fst_of xs None, None))
        (\<lambda>r g'. g' = g \<and> found_at g y xs (snd r)) g"
  proof (rule wp_walk [where I = "\<lambda>vs f t. t = g \<and> f = None \<and> (\<exists>us. xs = us @ vs \<and> y \<notin> e_ptr g ` set us)"])
    fix a vs f t
    assume "t = g \<and> f = None \<and> (\<exists>us. xs = us @ a # vs \<and> y \<notin> e_ptr g ` set us)"
    then obtain us where I: "t = g" "xs = us @ a # vs" "y \<notin> e_ptr g ` set us" by auto
    have a: "a \<in> pool_used ep g" "e_next g a = fst_of vs None" using c(4,5) I(2) by auto
    have fnd: "found_at g y xs (Some a)" if "e_ptr g a = y" using that I by (auto simp: found_at_def)
    have go: "\<exists>us'. xs = us' @ vs \<and> y \<notin> e_ptr g ` set us'" if "e_ptr g a \<noteq> y" using that I by (intro exI [of _ "us @ [a]"]) auto
    show "wp (bnd (rd stackElmtPool e_ptr (fst (Some a, f))) (\<lambda>x. if x = y then ret (fst (Some a, f), fst (Some a, f))
          else bnd (rd stackElmtPool e_next (fst (Some a, f))) (\<lambda>next. ret (next, None))))
       (\<lambda>r s'. (\<exists>f'. r = (fst_of vs None, f') \<and> s' = g \<and> f' = None \<and> (\<exists>us. xs = us @ vs \<and> y \<notin> e_ptr g ` set us)) \<or>
         \<not> (fst r \<noteq> None \<and> snd r = None) \<and> s' = g \<and> found_at g y xs (snd r)) t"
      using a fnd go c(1) by (simp add: mem_simps I(1))
  qed (auto simp: found_at_def)
  then show ?thesis unfolding Stack_Find_def using c by (simp add: mem_simps)
qed

lemma Stack_Print_wp:
  assumes "holds g A N" "A s = Some l"
  shows "wp (Stack_Print (Some s)) (\<lambda>r g'. r = l \<and> g' = g) g"
proof -
  from assms obtain sp ep xs where o: "opened g A N s sp ep xs" and l: "l = map (e_ptr g) xs" by (rule open_stack)
  note c = openedD [OF o]
  have "wp (while_prog (\<lambda>r. fst r \<noteq> None) (\<lambda>r.
            bnd (rd stackElmtPool e_ptr (fst r)) (\<lambda>x.
            bnd (rd stackElmtPool e_next (fst r)) (\<lambda>next.
            ret (next, snd r @ [x])))) (fst_of xs None, []))
        (\<lambda>r g'. snd r = l \<and> g' = g) g"
  proof (rule wp_walk [where I = "\<lambda>vs out t. t = g \<and> (\<exists>us. xs = us @ vs \<and> out = map (e_ptr g) us)"])
    fix a vs out t assume "t = g \<and> (\<exists>us. xs = us @ a # vs \<and> out = map (e_ptr g) us)"
    then obtain us where I: "t = g" "xs = us @ a # vs" "out = map (e_ptr g) us" by auto
    have a: "a \<in> pool_used ep g" "e_next g a = fst_of vs None" using c(4,5) I(2) by auto
    have "\<exists>us. xs = us @ vs \<and> out @ [e_ptr g a] = map (e_ptr g) us" using I by (intro exI [of _ "us @ [a]"]) simp
    then show "wp (bnd (rd stackElmtPool e_ptr (fst (Some a, out))) (\<lambda>x. bnd (rd stackElmtPool e_next (fst (Some a, out))) (\<lambda>next.
            ret (next, snd (Some a, out) @ [x]))))
        (\<lambda>r s'. (\<exists>out'. r = (fst_of vs None, out') \<and> s' = g \<and> (\<exists>us. xs = us @ vs \<and> out' = map (e_ptr g) us)) \<or>
           \<not> fst r \<noteq> None \<and> snd r = l \<and> s' = g) t"
      using a c(1) by (simp add: mem_simps I(1))
  qed (auto simp: l)
  then show ?thesis unfolding Stack_Print_def using c by (simp add: mem_simps)
qed

section \<open>Creating and freeing stacks\<close>

lemma free_elmts_wp:
  assumes "pools_ok g sp ep" "distinct xs" "set xs \<subseteq> pool_used ep g" "dll (e_next g) (e_prev g) None xs None"
  shows "wp (free_elmts (fst_of xs None)) (\<lambda>_ g'. pools_ok g' sp ep \<and> pool_used ep g' = pool_used ep g - set xs \<and>
    pool_used sp g' = pool_used sp g \<and> same_mem g' g) g"
  unfolding free_elmts_def
proof (rule wp_walk [where I = "\<lambda>vs (_ :: unit) t. pools_ok t sp ep \<and> pool_used sp t = pool_used sp g \<and> same_mem t g \<and>
    (\<exists>us. xs = us @ vs \<and> pool_used ep t = pool_used ep g - set us)"])
  fix a vs u t
  assume "pools_ok t sp ep \<and> pool_used sp t = pool_used sp g \<and> same_mem t g \<and>
    (\<exists>us. xs = us @ a # vs \<and> pool_used ep t = pool_used ep g - set us)"
  then obtain us where t: "pools_ok t sp ep" "pool_used sp t = pool_used sp g" "same_mem t g" "xs = us @ a # vs"
    "pool_used ep t = pool_used ep g - set us" by auto
  have a: "a \<in> pool_used ep t" "e_next t a = fst_of vs None" using t assms by (auto simp: same_mem_def)
  have "wp (Free_Stack_Elmt (Some a)) (\<lambda>_ s'. pools_ok s' sp ep \<and> pool_used sp s' = pool_used sp g \<and> same_mem s' g \<and>
      (\<exists>us. xs = us @ vs \<and> pool_used ep s' = pool_used ep g - set us)) t"
    by (rule elmt_free_wp [OF t(1) a(1)], use t in \<open>simp add: same_mem_def\<close>) auto
  then have "wp (Free_Stack_Elmt (Some a)) (\<lambda>_ s'. (pools_ok s' sp ep \<and> pool_used sp s' = pool_used sp g \<and> same_mem s' g \<and>
      (\<exists>us. xs = us @ vs \<and> pool_used ep s' = pool_used ep g - set us)) \<or> P s') t" for P
    by (rule wp_mono) simp
  then show "wp (bnd (rd stackElmtPool e_next (fst (Some a, u))) (\<lambda>next. bnd (Free_Stack_Elmt (fst (Some a, u))) (\<lambda>_. ret (next, ()))))
     (\<lambda>r s'. (\<exists>u'. r = (fst_of vs None, u') \<and> pools_ok s' sp ep \<and> pool_used sp s' = pool_used sp g \<and> same_mem s' g \<and>
        (\<exists>us. xs = us @ vs \<and> pool_used ep s' = pool_used ep g - set us)) \<or>
      \<not> fst r \<noteq> None \<and> pools_ok s' sp ep \<and> pool_used ep s' = pool_used ep g - set xs \<and> pool_used sp s' = pool_used sp g \<and> same_mem s' g) t"
    using a t(1) by (simp add: mem_simps)
qed (use assms in \<open>auto simp: same_mem_def\<close>)

lemma Clear_Stack_wp:
  assumes "holds g A N" "A s = Some l"
  shows "wp (Clear_Stack (Some s)) (\<lambda>_ g'. holds g' (A(s \<mapsto> [])) N) g"
proof -
  from assms obtain sp ep xs where o: "opened g A N s sp ep xs" by (rule open_stack)
  note c = openedD [OF o]
  from free_elmts_wp [OF c(1,3-5)] obtain r g1 where run: "free_elmts (fst_of xs None) g = Inr (r, g1)" and g1: "pools_ok g1 sp ep"
    "pool_used ep g1 = pool_used ep g - set xs" "pool_used sp g1 = pool_used sp g" "same_mem g1 g" by (auto simp: wp_run)
  define h where "h = s_top_update (\<lambda>f. f(s := None)) (s_bottom_update (\<lambda>f. f(s := None)) g1)"
  have "wp (Clear_Stack (Some s)) (\<lambda>_ g'. g' = h) g"
    unfolding Clear_Stack_def h_def using c g1 by (simp add: mem_simps wp_exec [of "free_elmts p" for p, OF run])
  moreover have "holds h (A(s \<mapsto> [])) N"
    by (rule close_stack [OF o, where ys = "[]"]) (use g1 in \<open>auto simp: h_def cell_ok_def same_mem_def\<close>)
  ultimately show ?thesis by (auto elim: wp_mono)
qed

lemma stack_pool_frame:
  assumes "pools_ok g sp ep" "pool_rest sp g' = pool_rest sp g" "pool_in sp g'"
  shows "pools_ok g' sp ep" "pool_used ep g' = pool_used ep g" "same_mem g' g"
proof -
  have "ep \<noteq> sp" using assms(1) by (simp add: pools_ok_def)
  note o = pool_rest_other [OF assms(2) this] and m = lib_more [OF pool_rest_more [OF assms(2)]]
  show "pools_ok g' sp ep" using assms o(2) m(1,2) by (simp add: pools_ok_def)
  show "pool_used ep g' = pool_used ep g" by (rule o(1))
  show "same_mem g' g" using m by (simp add: same_mem_def)
qed

text \<open>A stack header comes or goes.\<close>

lemma stacks_grow:
  assumes "stacks_ok g S E L" "s \<notin> S" "e_ptr g' = e_ptr g" "e_next g' = e_next g" "e_prev g' = e_prev g"
    "s_top g' = (s_top g)(s := None)" "s_bottom g' = (s_bottom g)(s := None)"
  shows "stacks_ok g' (insert s S) E (L(s := []))" "contents g' (insert s S) (L(s := [])) = (contents g S L)(s \<mapsto> [])"
    "loose (insert s S) E (L(s := [])) = loose S E L"
proof -
  have ne: "t \<noteq> s" if "t \<in> S" for t using assms(2) that by auto
  show "stacks_ok g' (insert s S) E (L(s := []))" using assms ne by (auto simp: stacks_ok_def cell_ok_def)
  show "contents g' (insert s S) (L(s := [])) = (contents g S L)(s \<mapsto> [])" using assms by (auto simp: contents_def fun_eq_iff)
  have "(\<Union>t\<in>S. set ((L(s := [])) t)) = (\<Union>t\<in>S. set (L t))" using ne by auto
  then show "loose (insert s S) E (L(s := [])) = loose S E L" by (simp add: loose_def)
qed

lemma stacks_shrink:
  assumes "stacks_ok g S E L" "s \<in> S" "same_mem g' g"
  shows "stacks_ok g' (S - {s}) (E - set (L s)) L" "contents g' (S - {s}) L = (contents g S L)(s := None)"
    "loose (S - {s}) (E - set (L s)) L = loose S E L"
proof -
  have "set (L t) \<inter> set (L s) = {}" "set (L t) \<subseteq> E" if "t \<in> S" "t \<noteq> s" for t
    using assms that by (auto simp: stacks_ok_def cell_ok_def)
  then show "stacks_ok g' (S - {s}) (E - set (L s)) L"
    using assms unfolding stacks_ok_def cell_ok_def same_mem_def by (auto 0 3)
  show "contents g' (S - {s}) L = (contents g S L)(s := None)"
    using assms(3) by (auto simp: contents_def fun_eq_iff same_mem_def)
  show "loose (S - {s}) (E - set (L s)) L = loose S E L" using assms(2) by (auto simp: loose_def)
qed

lemma Free_Stack_wp:
  assumes "holds g A N" "A s = Some l"
  shows "wp (Free_Stack (Some s)) (\<lambda>r g'. r = None \<and> holds g' (A(s := None)) N) g"
  using assms
proof (rule holdsE)
  fix sp ep L
  assume p: "pools_ok g sp ep" and st: "stacks_ok g (pool_used sp g) (pool_used ep g) L" "s \<in> pool_used sp g"
    and A: "A = contents g (pool_used sp g) L" "N = loose (pool_used sp g) (pool_used ep g) L"
    and c: "cell_ok g (pool_used ep g) s (L s)"
  have c: "distinct (L s)" "set (L s) \<subseteq> pool_used ep g" "dll (e_next g) (e_prev g) None (L s) None" "s_top g s = fst_of (L s) None"
    using c by (auto simp: cell_ok_def)
  from free_elmts_wp [OF p c(1-3)] obtain r g1 where run: "free_elmts (fst_of (L s) None) g = Inr (r, g1)" and g1: "pools_ok g1 sp ep"
    "pool_used ep g1 = pool_used ep g - set (L s)" "pool_used sp g1 = pool_used sp g" "same_mem g1 g" by (auto simp: wp_run)
  have "pool_in sp g1" "s \<in> pool_used sp g1" using g1 st(2) by (auto simp: pools_ok_def)
  from pool.dealloc [OF this] obtain g2 where run2: "L_free (Some sp) (Some s) g1 = Inr ((), g2)" and
    g2: "pool_in sp g2" "pool_used sp g2 = pool_used sp g1 - {s}" "pool_rest sp g2 = pool_rest sp g1" by (auto simp: wp_run)
  note fr = stack_pool_frame [OF g1(1) g2(3,1)]
  have "same_mem g2 g" using fr(3) g1(4) by (simp add: same_mem_def)
  note sh = stacks_shrink [OF st this]
  have "holds g2 (A(s := None)) N"
    using holdsI [OF fr(1), of L] sh g2(2) fr(2) g1(2,3) A by simp
  then show ?thesis unfolding Free_Stack_def using p st(2) c(4) g1(1)
    by (simp add: mem_simps wp_exec [of "free_elmts p" for p, OF run] wp_exec [of "L_free p q" for p q, OF run2])
qed

lemma contents_empty [simp]: "contents g {} L = Map.empty"
  by (simp add: contents_def fun_eq_iff)

definition ready :: "stack_lib \<Rightarrow> (nat \<Rightarrow> int list option) \<Rightarrow> nat set \<Rightarrow> bool" where
  "ready g A N \<longleftrightarrow> stackPool g \<noteq> None \<and> holds g A N"

lemma create_pools:
  assumes "stackPool g = None"
  shows "wp (bnd (L_create_alloc_pool (Some ''Stack'') 24 32) (\<lambda>p.
      bnd (modify (\<lambda>g. g\<lparr>stackPool := Some p\<rparr>)) (\<lambda>_.
      bnd (L_create_alloc_pool (Some ''StackElmt'') 24 512) (\<lambda>q.
      modify (\<lambda>g. g\<lparr>stackElmtPool := Some q\<rparr>))))) (\<lambda>_ g'. ready g' Map.empty {}) g"
proof -
  from create_wp [OF _ block_fits_small, of 32 24 "''Stack''" g] obtain p g1 where run1: "L_create_alloc_pool (Some ''Stack'') 24 32 g = Inr (p, g1)"
    and g1: "pool_in p g1" "pool_used p g1 = {}" "pool_top g1 = p + 1" by (auto simp: wp_run)
  define h where "h = g1\<lparr>stackPool := Some p\<rparr>"
  from create_wp [OF _ block_fits_small, of 512 24 "''StackElmt''" h] obtain q g2 where run2: "L_create_alloc_pool (Some ''StackElmt'') 24 512 h = Inr (q, g2)"
    and g2: "pool_in q g2" "pool_used q g2 = {}" "q = pool_top h" "\<forall>r. r \<noteq> q \<longrightarrow> pool_mem g2 r = pool_mem h r" "alloc_lib.more g2 = alloc_lib.more h"
    by (auto simp: wp_run)
  have ne: "p \<noteq> q" using g2(3) g1(3) by (simp add: h_def)
  let ?g = "g2\<lparr>stackElmtPool := Some q\<rparr>"
  have sp: "stackPool g2 = Some p" using lib_more(1) [OF g2(5)] by (simp add: h_def)
  have pm: "pool_mem g2 p = pool_mem g1 p" using ne g2(4) by (simp add: h_def)
  have ok: "pools_ok ?g p q" using ne sp g1(1) g2(1) pm by (simp add: pools_ok_def pool_in_def)
  have u: "pool_used p ?g = {}" "pool_used q ?g = {}" using g1(2) g2(2) pm by (simp_all add: pool_used_def)
  have "holds ?g Map.empty {}"
    using holdsI [OF ok, of "\<lambda>_. []"] u by (simp add: stacks_ok_def loose_def)
  then have "ready ?g Map.empty {}" using sp by (simp add: ready_def)
  then show ?thesis
    by (simp add: wp_exec [of "L_create_alloc_pool n x y" for n x y, OF run1] h_def [symmetric]
      wp_exec [of "L_create_alloc_pool n x y" for n x y, OF run2])
qed

lemma stack_alloc:
  assumes "ready g A N"
  shows "wp (bnd (gets stackPool) (\<lambda>sp.
     bnd (L_alloc sp) (\<lambda>s.
     bnd (wr stackPool s_ptr_update (Some s) None) (\<lambda>_.
     bnd (wr stackPool s_top_update (Some s) None) (\<lambda>_.
     bnd (wr stackPool s_bottom_update (Some s) None) (\<lambda>_.
     ret (Some s))))))) (\<lambda>r g'. \<exists>s. r = Some s \<and> A s = None \<and> holds g' (A(s \<mapsto> [])) N) g"
proof -
  from assms obtain sp ep L where p: "pools_ok g sp ep" and st: "stacks_ok g (pool_used sp g) (pool_used ep g) L"
    and A: "A = contents g (pool_used sp g) L" "N = loose (pool_used sp g) (pool_used ep g) L" by (auto simp: ready_def holds_def)
  have "pool_in sp g" using p by (simp add: pools_ok_def)
  from pool.alloc [OF this] obtain s g1 where run: "L_alloc (Some sp) g = Inr (s, g1)" and g1: "pool_in sp g1" "s \<notin> pool_used sp g"
    "pool_used sp g1 = insert s (pool_used sp g)" "pool_rest sp g1 = pool_rest sp g" by (auto simp: wp_run)
  note fr = stack_pool_frame [OF p g1(4,1)]
  define h where "h = s_bottom_update (\<lambda>f. f(s := None)) (s_top_update (\<lambda>f. f(s := None)) (s_ptr_update (\<lambda>f. f(s := None)) g1))"
  have h: "pools_ok h sp ep" "pool_used sp h = insert s (pool_used sp g)" "pool_used ep h = pool_used ep g"
    using fr g1(3) by (simp_all add: h_def)
  have gr: "e_ptr h = e_ptr g" "e_next h = e_next g" "e_prev h = e_prev g" "s_top h = (s_top g)(s := None)" "s_bottom h = (s_bottom g)(s := None)"
    using fr(3) by (simp_all add: h_def same_mem_def)
  have "holds h (A(s \<mapsto> [])) N"
    using stacks_grow [OF st g1(2) gr] holdsI [OF h(1), of "L(s := [])"] h(2,3) A by simp
  moreover have "A s = None" using A(1) g1(2) by (simp add: contents_def)
  ultimately show ?thesis using p fr(1) g1(3)
    by (simp add: mem_simps wp_exec [of "L_alloc P" for P, OF run] h_def)
qed

lemma New_Stack_wp:
  assumes "holds g A N"
  shows "wp New_Stack (\<lambda>r g'. \<exists>s. r = Some s \<and> A s = None \<and> holds g' (A(s \<mapsto> [])) N) g"
proof (cases "stackPool g")
  case None
  then have A: "A = Map.empty" "N = {}" using assms by (auto simp: holds_def pools_ok_def)
  show ?thesis unfolding New_Stack_def wp_bnd [of "gets stackPool"] wp_gets None A
    by (simp only: simp_thms if_True) (rule wp_seq [OF create_pools [OF None]], drule stack_alloc, simp)
next
  case (Some sp)
  then have "ready g A N" using assms by (simp add: ready_def)
  from stack_alloc [OF this] show ?thesis unfolding New_Stack_def by (simp add: Some)
qed

lemma loose_elmts_wp:
  assumes "ready g A N"
  shows "wp New_Stack_Elmt (\<lambda>r g'. \<exists>a. r = Some a \<and> a \<notin> N \<and> ready g' A (insert a N)) g"
    "a \<in> N \<Longrightarrow> wp (Free_Stack_Elmt (Some a)) (\<lambda>_ g'. ready g' A (N - {a})) g"
proof -
  from assms obtain sp ep L where p: "pools_ok g sp ep" and st: "stacks_ok g (pool_used sp g) (pool_used ep g) L"
    and A: "A = contents g (pool_used sp g) L" "N = loose (pool_used sp g) (pool_used ep g) L" by (auto simp: ready_def holds_def)
  have keep: "ready g' A (E' - (\<Union>s\<in>pool_used sp g. set (L s)))" if "pools_ok g' sp ep" "pool_used sp g' = pool_used sp g" "pool_used ep g' = E'"
    "same_mem g' g" "\<And>s. s \<in> pool_used sp g \<Longrightarrow> set (L s) \<subseteq> E'" for g' E'
  proof -
    have "stacks_ok g' (pool_used sp g') (pool_used ep g') L"
      using st that by (auto simp: stacks_ok_def cell_ok_def same_mem_def)
    moreover have "contents g' (pool_used sp g) L = A" using that(4) A by (simp add: contents_def same_mem_def fun_eq_iff)
    ultimately show ?thesis using holdsI [OF that(1)] that(1,2,3) by (auto simp: ready_def loose_def pools_okD)
  qed
  have sub: "set (L s) \<subseteq> pool_used ep g" if "s \<in> pool_used sp g" for s using st that by (auto simp: stacks_ok_def cell_ok_def)
  show "wp New_Stack_Elmt (\<lambda>r g'. \<exists>a. r = Some a \<and> a \<notin> N \<and> ready g' A (insert a N)) g"
  proof (rule wp_mono [OF elmt_alloc [OF p]], elim exE conjE, intro exI conjI)
    fix r g' a assume g': "r = Some a" "pools_ok g' sp ep" "a \<notin> pool_used ep g" "pool_used ep g' = insert a (pool_used ep g)"
      "pool_used sp g' = pool_used sp g" "same_mem g' g"
    show "r = Some a" "a \<notin> N" using g' A by (auto simp: loose_def)
    have "insert a (pool_used ep g) - (\<Union>s\<in>pool_used sp g. set (L s)) = insert a N" using g'(3) A(2) sub by (auto simp: loose_def)
    then show "ready g' A (insert a N)" using keep [OF g'(2,5,4,6)] sub by force
  qed
  show "wp (Free_Stack_Elmt (Some a)) (\<lambda>_ g'. ready g' A (N - {a})) g" if a: "a \<in> N"
  proof (rule elmt_free_wp [OF p])
    show "a \<in> pool_used ep g" using a A by (simp add: loose_def)
    fix g' assume g': "pools_ok g' sp ep" "pool_used ep g' = pool_used ep g - {a}" "pool_used sp g' = pool_used sp g" "same_mem g' g"
    have "pool_used ep g - {a} - (\<Union>s\<in>pool_used sp g. set (L s)) = N - {a}" using A(2) by (auto simp: loose_def)
    moreover have "set (L s) \<subseteq> pool_used ep g - {a}" if "s \<in> pool_used sp g" for s using sub [OF that] a A(2) that by (auto simp: loose_def)
    ultimately show "ready g' A (N - {a})" using keep [OF g'(1,3,2,4)] by simp
  qed
qed

end
