(* ===== verification/Clients.thy ===== *)
theory Clients
  imports Impact_Prelude
begin

text \<open>Clients of a library of allocated objects, as sequences of calls: the simulation that relates the objects to their specified contents.\<close>

text \<open>
  The environment \<open>env\<close> of a client holds the addresses of the objects it has created, \<open>T\<close> their specified contents, None once
  an object is freed; \<open>A\<close> gives what is at the addresses. The live objects of the client are at different
  addresses and are all that exists.
\<close>

definition sim :: "(nat \<Rightarrow> 'v option) \<Rightarrow> nat option list \<Rightarrow> 'v option list \<Rightarrow> bool" where
  "sim A env T \<longleftrightarrow> length env = length T \<and>
     (\<forall>k<length T. T ! k \<noteq> None \<longrightarrow> (\<exists>s. env ! k = Some s \<and> A s = T ! k)) \<and>
     (\<forall>k<length T. \<forall>j<length T. T ! k \<noteq> None \<longrightarrow> T ! j \<noteq> None \<longrightarrow> env ! k = env ! j \<longrightarrow> k = j) \<and>
     (\<forall>s. A s \<noteq> None \<longrightarrow> (\<exists>k<length T. T ! k \<noteq> None \<and> env ! k = Some s))"

lemma sim_new:
  assumes "sim A env T" "A s = None"
  shows "sim (A(s \<mapsto> v)) (env @ [Some s]) (T @ [Some v])"
  using assms unfolding sim_def by (auto simp: nth_append less_Suc_eq) (metis option.distinct(1))+

lemma sim_upd:
  assumes "sim A env T" "k < length T" "T ! k = Some l" "env ! k = Some s"
  shows "sim (A(s := r)) env (T[k := r])"
  unfolding sim_def
proof (intro conjI allI impI)
  have other: "env ! j \<noteq> Some s" if "j < length T" "T ! j \<noteq> None" "j \<noteq> k" for j
    using assms that unfolding sim_def by (metis option.distinct(1))
  show "length env = length (T[k := r])" using assms(1) by (simp add: sim_def)
  show "\<exists>t. env ! j = Some t \<and> (A(s := r)) t = T[k := r] ! j" if "j < length (T[k := r])" "T[k := r] ! j \<noteq> None" for j
  proof (cases "j = k")
    case False
    with that have "j < length T" "T ! j \<noteq> None" by auto
    moreover then obtain t where "env ! j = Some t" "A t = T ! j" using assms(1) by (auto simp: sim_def)
    ultimately show ?thesis using other [of j] False by simp
  qed (use assms in auto)
  show "i = j" if "i < length (T[k := r])" "j < length (T[k := r])" "T[k := r] ! i \<noteq> None" "T[k := r] ! j \<noteq> None" "env ! i = env ! j" for i j
  proof (cases "i = k \<or> j = k")
    case True
    then show ?thesis using that other [of i] other [of j] assms(4) by (cases "i = k"; cases "j = k") simp_all
  next
    case False
    then have "i < length T" "j < length T" "T ! i \<noteq> None" "T ! j \<noteq> None" using that by simp_all
    then show ?thesis using assms(1) that(5) unfolding sim_def by blast
  qed
  show "\<exists>j<length (T[k := r]). T[k := r] ! j \<noteq> None \<and> env ! j = Some t" if "(A(s := r)) t \<noteq> None" for t
  proof (cases "t = s")
    case True
    with that assms show ?thesis by (intro exI [of _ k]) auto
  next
    case False
    with that assms(1) obtain j where "j < length T" "T ! j \<noteq> None" "env ! j = Some t" by (auto simp: sim_def)
    moreover from this(3) have "j \<noteq> k" using False assms(4) by auto
    ultimately show ?thesis by (intro exI [of _ j]) auto
  qed
qed

lemma sim_start [simp]: "sim Map.empty [] []"
  by (simp add: sim_def)

lemma sim_live: "sim A env T \<Longrightarrow> k < length T \<Longrightarrow> T ! k = Some l \<Longrightarrow> k < length env \<and> (\<exists>s. env ! k = Some s \<and> A s = Some l)"
  by (auto simp: sim_def)

lemma sim_freed:
  assumes "sim A env T" "T = replicate (length T) None"
  shows "A = Map.empty"
proof -
  have "T ! k = None" if "k < length T" for k using assms(2) that by (metis nth_replicate)
  then show ?thesis using assms(1) unfolding sim_def fun_eq_iff by (metis (full_types))
qed

end
