(* ===== verification/Stack_Properties.thy ===== *)
theory Stack_Properties
  imports Stack_Refinement Clients
begin

text \<open>
  The properties of the stack library. A client creates stacks and calls the operations on them; it names a stack by
  the number of stacks created before it.
\<close>

section \<open>Clients and their specification\<close>

datatype stack_op = Op_Free | Op_Clear | Op_Push_Top int | Op_Push_Bot int | Op_Pop | Op_Top | Op_Delete int | Op_Print

datatype stack_call = Create | On nat stack_op

primrec run_op :: "stack_op \<Rightarrow> nat option \<Rightarrow> (stack_lib, int list) prog" where
  "run_op Op_Free s = bnd (Free_Stack s) (\<lambda>_. ret [])"
| "run_op Op_Clear s = bnd (Clear_Stack s) (\<lambda>_. ret [])"
| "run_op (Op_Push_Top x) s = bnd (Push_Top s x) (\<lambda>_. ret [])"
| "run_op (Op_Push_Bot x) s = bnd (Push_Bot s x) (\<lambda>_. ret [])"
| "run_op Op_Pop s = bnd (Pop s) (\<lambda>x. ret [x])"
| "run_op Op_Top s = bnd (Stack_Top s) (\<lambda>x. ret [x])"
| "run_op (Op_Delete x) s = bnd (Stack_Find s x) (\<lambda>e. if e \<noteq> None then bnd (Delete_Stack s e) (\<lambda>_. ret [1]) else ret [0])"
| "run_op Op_Print s = Stack_Print s"

fun run_calls :: "stack_call list \<Rightarrow> nat option list \<Rightarrow> (stack_lib, int list list \<times> nat option list) prog" where
  "run_calls [] env = ret ([], env)"
| "run_calls (Create # cs) env = bnd New_Stack (\<lambda>s. run_calls cs (env @ [s]))"
| "run_calls (On k c # cs) env =
     bnd (run_op c (if k < length env then env ! k else None)) (\<lambda>out.
     bnd (run_calls cs env) (\<lambda>r. ret (out # fst r, snd r)))"

text \<open>The specification: a stack is a list, and None once it is freed.\<close>

primrec spec_op :: "stack_op \<Rightarrow> int list \<Rightarrow> int list \<times> int list option" where
  "spec_op Op_Free l = ([], None)"
| "spec_op Op_Clear l = ([], Some [])"
| "spec_op (Op_Push_Top x) l = ([], Some (x # l))"
| "spec_op (Op_Push_Bot x) l = ([], Some (l @ [x]))"
| "spec_op Op_Pop l = (case l of [] \<Rightarrow> ([- 1], Some []) | x # l' \<Rightarrow> ([x], Some l'))"
| "spec_op Op_Top l = (case l of [] \<Rightarrow> ([- 1], Some []) | x # l' \<Rightarrow> ([x], Some l))"
| "spec_op (Op_Delete x) l = (if x \<in> set l then ([1], Some (remove1 x l)) else ([0], Some l))"
| "spec_op Op_Print l = (l, Some l)"

fun spec_calls :: "stack_call list \<Rightarrow> int list option list \<Rightarrow> (int list list \<times> int list option list) option" where
  "spec_calls [] T = Some ([], T)"
| "spec_calls (Create # cs) T = spec_calls cs (T @ [Some []])"
| "spec_calls (On k c # cs) T =
     (case (if k < length T then T ! k else None) of None \<Rightarrow> None
      | Some l \<Rightarrow> (case spec_calls cs (T[k := snd (spec_op c l)]) of None \<Rightarrow> None
          | Some (outs, T') \<Rightarrow> Some (fst (spec_op c l) # outs, T')))"

section \<open>The simulation\<close>

lemma run_op_wp:
  assumes "holds g A N" "A s = Some l"
  shows "wp (run_op c (Some s)) (\<lambda>out g'. out = fst (spec_op c l) \<and> holds g' (A(s := snd (spec_op c l))) N) g"
proof (cases c)
  case (Op_Delete x)
  from assms obtain sp ep xs where o: "opened g A N s sp ep xs" and l: "l = map (e_ptr g) xs" by (rule open_stack)
  have "wp (bnd (Stack_Find (Some s) x) (\<lambda>e. if e \<noteq> None then bnd (Delete_Stack (Some s) e) (\<lambda>_. ret [1]) else ret [0]))
    (\<lambda>out g'. out = fst (spec_op c l) \<and> holds g' (A(s := snd (spec_op c l))) N) g"
  proof (rule wp_seq [OF Stack_Find_wp [OF o]], elim conjE, hypsubst)
    fix e assume f: "found_at g x xs e"
    show "wp (if e \<noteq> None then bnd (Delete_Stack (Some s) e) (\<lambda>_. ret [1]) else ret [0])
      (\<lambda>out g'. out = fst (spec_op c l) \<and> holds g' (A(s := snd (spec_op c l))) N) g"
    proof (cases e)
      case None
      then show ?thesis using f assms l Op_Delete by (auto simp: found_at_def fun_upd_idem)
    next
      case (Some a)
      with f obtain us vs where e: "xs = us @ a # vs" "e_ptr g a = x" "x \<notin> e_ptr g ` set us" by (auto simp: found_at_def)
      have "x \<in> set l" "remove1 x l = map (e_ptr g) (us @ vs)" using e l by (auto simp: remove1_append)
      then show ?thesis using Delete_Stack_wp [OF o [unfolded e(1)]] Some Op_Delete by (auto elim: wp_mono)
    qed
  qed
  then show ?thesis by (simp add: Op_Delete)
next
  case Op_Pop
  then show ?thesis using assms empty_stack_wp(1) [OF assms(1), of s] Pop_wp [OF assms(1), of s]
    by (cases l) (auto elim!: wp_mono simp: fun_upd_idem)
next
  case Op_Top
  then show ?thesis using assms empty_stack_wp(2) [OF assms(1), of s] Stack_Top_wp [OF assms(1), of s]
    by (cases l) (auto elim!: wp_mono simp: fun_upd_idem)
next
  case Op_Print
  then show ?thesis using assms Stack_Print_wp [OF assms] by (auto elim!: wp_mono simp: fun_upd_idem)
qed (use Free_Stack_wp [OF assms] Clear_Stack_wp [OF assms] Push_Top_wp [OF assms] Push_Bot_wp [OF assms] in \<open>auto elim: wp_mono\<close>)

lemma calls_wp:
  assumes "holds g A N" "sim A env T" "spec_calls cs T = Some (outs, T')"
  shows "wp (run_calls cs env) (\<lambda>r g'. fst r = outs \<and> (\<exists>A'. holds g' A' N \<and> sim A' (snd r) T')) g"
  using assms
proof (induction cs env arbitrary: g A T outs rule: run_calls.induct)
  case (2 cs env)
  show ?case unfolding run_calls.simps
  proof (rule wp_seq [OF New_Stack_wp [OF 2(2)]], elim exE conjE, hypsubst)
    fix g' s assume "A s = None" "holds g' (A(s \<mapsto> [])) N"
    with 2(1) [OF this(2) sim_new [OF 2(3) this(1)]] 2(4)
    show "wp (run_calls cs (env @ [Some s])) (\<lambda>r g'. fst r = outs \<and> (\<exists>A'. holds g' A' N \<and> sim A' (snd r) T')) g'" by simp
  qed
next
  case (3 k c cs env)
  obtain l where l: "k < length T" "T ! k = Some l" using 3(4) by (auto split: option.splits if_splits)
  obtain outs' where o: "spec_calls cs (T[k := snd (spec_op c l)]) = Some (outs', T')" "outs = fst (spec_op c l) # outs'"
    using 3(4) l by (auto split: option.splits)
  obtain s where s: "env ! k = Some s" "A s = Some l" "k < length env" using 3(3) l by (auto simp: sim_def)
  show ?case unfolding run_calls.simps if_P [OF s(3)] s(1)
  proof (rule wp_seq [OF run_op_wp [OF 3(2) s(2)]], elim conjE)
    fix out g' assume g': "out = fst (spec_op c l)" "holds g' (A(s := snd (spec_op c l))) N"
    from 3(1) [OF g'(2) sim_upd [OF 3(3) l s(1)] o(1)]
    show "wp (bnd (run_calls cs env) (\<lambda>r. ret (out # fst r, snd r))) (\<lambda>r g'. fst r = outs \<and> (\<exists>A'. holds g' A' N \<and> sim A' (snd r) T')) g'"
      using g'(1) o(2) by (auto elim: wp_mono)
  qed
qed auto

text \<open>
  C32. The stack library implements stacks. Take any sequence of calls that creates stacks and uses them until they are
  freed: pushing at the top or the bottom, popping, reading the top, deleting the first element with a given value,
  clearing, printing, freeing. The calls on lists, one list per stack, predict every result. No call faults, no element is
  lost: when the client has freed all its stacks, no element and no header is in use.
\<close>

theorem stack_refines:
  assumes "stackPool g = None" "stackElmtPool g = None" "spec_calls cs [] = Some (outs, T)"
  shows "wp (run_calls cs []) (\<lambda>r g'. fst r = outs \<and>
    (T = replicate (length T) None \<longrightarrow> (\<forall>a. \<not> in_use (stackPool g') g' a \<and> \<not> in_use (stackElmtPool g') g' a))) g"
proof -
  have start: "holds g Map.empty {}" "sim Map.empty [] []" using assms(1,2) by (auto simp: holds_def sim_def)
  show ?thesis
  proof (rule wp_mono [OF calls_wp [OF start assms(3)]], elim conjE exE, rule conjI, assumption, rule impI)
    fix r g' A assume g': "holds g' A {}" "sim A (snd r) T" and T: "T = replicate (length T) None"
    have "A = Map.empty" by (rule sim_freed [OF g'(2) T])
    then show "\<forall>a. \<not> in_use (stackPool g') g' a \<and> \<not> in_use (stackElmtPool g') g' a"
      using g'(1) by (auto simp: holds_def contents_def loose_def fun_eq_iff in_use_eq pools_okD in_use_def [of None] split: if_splits)
  qed
qed

definition no_stacks :: stack_lib where
  "no_stacks = \<lparr>bypass_alloc_routines = False, active_alloc_pools = [], pool_mem = Map.empty, pool_top = 0,
     stackPool = None, stackElmtPool = None, e_ptr = \<lambda>_. 0, e_next = \<lambda>_. None, e_prev = \<lambda>_. None,
     s_ptr = \<lambda>_. None, s_top = \<lambda>_. None, s_bottom = \<lambda>_. None\<rparr>"

theorem stack_refines_witness:
  "wp (run_calls [Create, On 0 (Op_Push_Top 5), On 0 (Op_Push_Bot 7), On 0 (Op_Delete 5), On 0 Op_Pop, On 0 Op_Pop, On 0 Op_Free] [])
    (\<lambda>r g'. fst r = [[], [], [1], [7], [- 1], []] \<and> (\<forall>a. \<not> in_use (stackPool g') g' a \<and> \<not> in_use (stackElmtPool g') g' a)) no_stacks"
  using stack_refines [of no_stacks "[Create, On 0 (Op_Push_Top 5), On 0 (Op_Push_Bot 7), On 0 (Op_Delete 5), On 0 Op_Pop, On 0 Op_Pop, On 0 Op_Free]"
    "[[], [], [1], [7], [- 1], []]" "[None]"] by (simp add: no_stacks_def del: run_calls.simps)

section \<open>The iterator\<close>

text \<open>The loop of a client: \<open>for (e = Stack_Ptr_Reset (s); e; e = Stack_Find_Next (s))\<close> over \<open>Stack_Elmt_Data (e)\<close>.\<close>

definition visit :: "nat option \<Rightarrow> (stack_lib, (int \<times> bool) list) prog" where
  "visit s = bnd (Stack_Ptr_Reset s) (\<lambda>e.
     bnd (while_prog (\<lambda>r. fst r \<noteq> None) (\<lambda>r.
            bnd (Stack_Elmt_Data (fst r)) (\<lambda>x.
            bnd (Stack_Is_Bottom s) (\<lambda>b.
            bnd (Stack_Find_Next s) (\<lambda>e. ret (e, snd r @ [(x, b)]))))) (e, [])) (\<lambda>r.
     ret (snd r)))"

lemma holds_s_ptr: "holds (s_ptr_update f g) A N = holds g A N"
  by (simp add: holds_def stacks_ok_def cell_ok_def contents_def fun_eq_iff)

text \<open>
  C33. The iterator of a stack visits its elements from the top to the bottom, each once, and \<open>Stack_Is_Bottom\<close> holds exactly at the last
  one; the loop ends and leaves the contents of all the stacks as they are.
\<close>

theorem stack_iterator:
  assumes "holds g A N" "A s = Some l"
  shows "wp (visit (Some s)) (\<lambda>r g'. map fst r = l \<and> (\<forall>k<length l. snd (r ! k) \<longleftrightarrow> Suc k = length l) \<and> holds g' A N) g"
proof -
  from assms obtain sp ep xs where o: "opened g A N s sp ep xs" and l: "l = map (e_ptr g) xs" by (rule open_stack)
  note c = openedD [OF o]
  define at where "at vs = s_ptr_update (\<lambda>f. f(s := fst_of vs None)) g" for vs
  define val where "val a = (e_ptr g a, Some a = lst_of xs None)" for a
  have at_at: "s_ptr_update (\<lambda>f. f(s := fst_of vs None)) (at us) = at vs" for us vs by (simp add: at_def comp_def)
  have "wp (while_prog (\<lambda>r. fst r \<noteq> None) (\<lambda>r.
            bnd (Stack_Elmt_Data (fst r)) (\<lambda>x.
            bnd (Stack_Is_Bottom (Some s)) (\<lambda>b.
            bnd (Stack_Find_Next (Some s)) (\<lambda>e. ret (e, snd r @ [(x, b)]))))) (fst_of xs None, []))
     (\<lambda>r g'. snd r = map val xs \<and> g' = at []) (at xs)"
  proof (rule wp_walk [where I = "\<lambda>vs out t. t = at vs \<and> (\<exists>us. xs = us @ vs \<and> out = map val us)"])
    fix a vs out t assume "t = at (a # vs) \<and> (\<exists>us. xs = us @ a # vs \<and> out = map val us)"
    then obtain us where I: "t = at (a # vs)" "xs = us @ a # vs" "out = map val us" by auto
    have a: "a \<in> pool_used ep g" "e_next g a = fst_of vs None" using c(4,5) I(2) by auto
    have "xs = (us @ [a]) @ vs \<and> out @ [(e_ptr g a, Some a = s_bottom g s)] = map val (us @ [a])"
      using I c(7) by (simp add: val_def)
    then show "wp (bnd (Stack_Elmt_Data (fst (Some a, out))) (\<lambda>x. bnd (Stack_Is_Bottom (Some s)) (\<lambda>b.
            bnd (Stack_Find_Next (Some s)) (\<lambda>e. ret (e, snd (Some a, out) @ [(x, b)])))))
      (\<lambda>r s'. (\<exists>out'. r = (fst_of vs None, out') \<and> s' = at vs \<and> (\<exists>us. xs = us @ vs \<and> out' = map val us)) \<or>
        \<not> fst r \<noteq> None \<and> snd r = map val xs \<and> s' = at []) t"
      using a c(1,2) at_at [of vs "a # vs"]
      by (simp add: I(1) Stack_Elmt_Data_def Stack_Is_Bottom_def Stack_Find_Next_def at_def mem_simps)
  qed auto
  then have "wp (visit (Some s)) (\<lambda>r g'. r = map val xs \<and> g' = at []) g"
    using c by (simp add: visit_def Stack_Ptr_Reset_def mem_simps at_def)
  moreover have "snd (map val xs ! k) \<longleftrightarrow> Suc k = length l" if "k < length l" for k
  proof -
    from that l have k: "k < length xs" "xs \<noteq> []" by auto
    then have "lst_of xs None = Some (xs ! (length xs - 1))" by (simp add: lst_of_def last_conv_nth)
    then show ?thesis using k c(3) l by (auto simp: val_def nth_eq_iff_index_eq)
  qed
  moreover have "map fst (map val xs) = l" by (simp add: l val_def)
  ultimately show ?thesis using assms(1) by (auto elim!: wp_mono simp: at_def holds_s_ptr)
qed

text \<open>A stack with the elements 5 and 7.\<close>

definition one_stack :: stack_lib where
  "one_stack = \<lparr>bypass_alloc_routines = False, active_alloc_pools = [1, 0],
     pool_mem = [0 \<mapsto> \<lparr>pl_name = ''Stack'', element_size = 24, block_size = 32, num_in_block = 1, pl_head = [], allocated = 1,
         pl_free = 0, blocks_allocated = 1, block_list = [0], bypass_routines = False, bp_live = []\<rparr>,
       1 \<mapsto> \<lparr>pl_name = ''StackElmt'', element_size = 24, block_size = 56, num_in_block = 2, pl_head = [], allocated = 2,
         pl_free = 0, blocks_allocated = 1, block_list = [0], bypass_routines = False, bp_live = []\<rparr>],
     pool_top = 2, stackPool = Some 0, stackElmtPool = Some 1, e_ptr = (\<lambda>a. if a = 0 then 5 else 7),
     e_next = [0 \<mapsto> 1], e_prev = [1 \<mapsto> 0], s_ptr = Map.empty, s_top = [0 \<mapsto> 0], s_bottom = [0 \<mapsto> 1]\<rparr>"

lemma one_stack_holds: "holds one_stack [0 \<mapsto> [5, 7]] {}"
proof -
  have u: "pool_used 0 one_stack = {0}" "pool_used 1 one_stack = {0, 1}"
    by (auto simp: pool_used_def one_stack_def in_pool_def)
  have p: "pools_ok one_stack 0 1"
    by (simp add: pools_ok_def one_stack_def pool_in_def pool_ok_def element_at_def aligned_header_def header_size_def)
  have "stacks_ok one_stack (pool_used 0 one_stack) (pool_used 1 one_stack) (\<lambda>_. [0, 1])"
    unfolding u by (simp add: stacks_ok_def cell_ok_def one_stack_def)
  note h = holdsI [OF p this, unfolded u]
  have "contents one_stack {0} (\<lambda>_. [0, 1]) = [0 \<mapsto> [5, 7]]"
    by (simp add: contents_def one_stack_def fun_eq_iff)
  moreover have "loose {0} {0, 1} (\<lambda>_. [0, 1]) = {}" by (simp add: loose_def)
  ultimately show ?thesis using h by simp
qed

theorem stack_iterator_witness:
  "wp (visit (Some 0)) (\<lambda>r g'. map fst r = [5, 7] \<and> (\<forall>k<length [5, 7 :: int]. snd (r ! k) \<longleftrightarrow> Suc k = length [5, 7 :: int]) \<and>
      holds g' [0 \<mapsto> [5, 7]] {}) one_stack"
  by (rule stack_iterator [OF one_stack_holds]) simp

text \<open>
  The iterator is not moved when the element it is at goes away: advancing it afterwards reads a freed element.
\<close>

lemma stale_iterator:
  assumes "holds g A N" "A s = Some (x # l)"
  shows "bnd (Stack_Ptr_Reset (Some s)) (\<lambda>_. bnd (Pop (Some s)) (\<lambda>_. Stack_Find_Next (Some s))) g = Inl Dangling"
proof -
  define h where "h = s_ptr_update (\<lambda>f. f(s := s_top g s)) g"
  have "holds h A N" using assms(1) by (simp add: h_def holds_s_ptr)
  then obtain sp ep xs where o: "opened h A N s sp ep xs" and l: "x # l = map (e_ptr h) xs" using assms(2) by (rule open_stack)
  from l obtain a vs where xs: "xs = a # vs" by (cases xs) auto
  note c = openedD [OF o]
  have reset: "Stack_Ptr_Reset (Some s) g = Inr (Some a, h)"
    using c xs wp_run [of "Stack_Ptr_Reset (Some s)" "\<lambda>r g'. r = Some a \<and> g' = h" g]
    by (simp add: Stack_Ptr_Reset_def mem_simps h_def)
  obtain r g' where pop: "Pop (Some s) h = Inr (r, g')" and g': "popped sp ep s a vs h g'"
    using Pop_popped [OF o [unfolded xs]] by (auto simp: wp_run)
  have at: "s_ptr g' s = Some a" "s \<in> pool_used sp g'" "a \<notin> pool_used ep g'" "pools_ok g' sp ep"
    using g' c xs by (auto simp: popped_def h_def)
  then have "Stack_Find_Next (Some s) g' = Inl Dangling"
    by (simp add: Stack_Find_Next_def rd_def deref_def bnd_def gets_def ret_def fail_def mem_simps)
  then show ?thesis using reset pop by (simp add: bnd_def)
qed

end
