(* ===== verification/Sort_Properties.thy ===== *)
theory Sort_Properties
  imports Select_Sort
begin

text \<open>The properties of the two sorting libraries.\<close>

text \<open>
  C34. What \<open>merge_sort\<close> does, on arrays that are long enough. For up to 8192 elements \<open>output\<close> receives the elements of \<open>list\<close> by
  descending weight, elements of equal weight in the order they had: it is the stable sort, and the rest of
  \<open>output\<close> is untouched. For more elements it writes beyond the end of the buffer of \<open>merge\<close>. For zero or a negative
  number of elements it still copies the first one.
\<close>

theorem merge_sort_exact:
  assumes "lst \<noteq> []" "out \<noteq> []" "nat len \<le> length lst" "nat len \<le> length out"
  shows "merge_sort lst 0 0 len out =
    (if len \<le> 0 then Inr ((), out[0 := lst ! 0])
     else if nat len \<le> RECORD_SIZE then Inr ((), rev (sort_key weight_of (rev (take (nat len) lst))) @ drop (nat len) out)
     else Inl Out_Of_Bounds)"
proof (cases "len \<le> 0")
  case True
  then show ?thesis using assms(1,2)
    by (simp add: merge_sort.simps array_get_def set_cell_def bnd_def gets_def modify_def ret_def)
next
  case False
  then have "1 \<le> len" by simp
  from yields_merge_sort [OF this, of 0 lst 0 out] assms(3,4) False show ?thesis
    by (auto simp: yields_def desc_def split: sum.splits)
qed

theorem merge_sort_exact_witness:
  "merge_sort [\<lparr>weight_of = 2 :: int, index_of = 0, ptr_of = 0\<rparr>, \<lparr>weight_of = 7, index_of = 1, ptr_of = 0\<rparr>] 0 0 2
     [\<lparr>weight_of = 0, index_of = 9, ptr_of = 0\<rparr>, \<lparr>weight_of = 0, index_of = 9, ptr_of = 0\<rparr>, \<lparr>weight_of = 5, index_of = 9, ptr_of = 0\<rparr>] =
   Inr ((), [\<lparr>weight_of = 7, index_of = 1, ptr_of = 0\<rparr>, \<lparr>weight_of = 2, index_of = 0, ptr_of = 0\<rparr>, \<lparr>weight_of = 5, index_of = 9, ptr_of = 0\<rparr>])"
  using merge_sort_exact [of "[\<lparr>weight_of = 2 :: int, index_of = 0, ptr_of = 0\<rparr>, \<lparr>weight_of = 7, index_of = 1, ptr_of = 0\<rparr>]"
     "[\<lparr>weight_of = 0, index_of = 9, ptr_of = 0\<rparr>, \<lparr>weight_of = 0, index_of = 9, ptr_of = 0\<rparr>, \<lparr>weight_of = 5, index_of = 9, ptr_of = 0\<rparr>]" 2]
  by (simp add: RECORD_SIZE_def numeral_2_eq_2)

text \<open>
  C35. On up to 65536 entries \<open>min_sort\<close> sorts the first \<open>size\<close> entries by ascending weight and \<open>max_sort\<close> by descending weight; both
  permute them, leave the rest of the array alone, stay inside it, and return non-zero exactly when two of the entries have the
  same weight. More entries than that, all of the same weight, overflow the counter of the equal ones.
\<close>

theorem selection_sorts:
  fixes xs :: "('p, 'w :: linorder) ST_Entry list"
  assumes "nat sz \<le> length xs"
  shows "if sz \<le> 65536 then wp (min_sort sz) (\<lambda>r ys. mset (take (nat sz) ys) = mset (take (nat sz) xs) \<and> drop (nat sz) ys = drop (nat sz) xs \<and>
        sorted (map st_weight (take (nat sz) ys)) \<and> (r \<longleftrightarrow> \<not> distinct (map st_weight (take (nat sz) xs)))) xs \<and>
      wp (max_sort sz) (\<lambda>r ys. mset (take (nat sz) ys) = mset (take (nat sz) xs) \<and> drop (nat sz) ys = drop (nat sz) xs \<and>
        sorted (rev (map st_weight (take (nat sz) ys))) \<and> (r \<longleftrightarrow> \<not> distinct (map st_weight (take (nat sz) xs)))) xs
    else (\<forall>w. (\<forall>e\<in>set xs. st_weight e = w) \<longrightarrow> min_sort sz xs = Inl Int_Overflow \<and> max_sort sz xs = Inl Int_Overflow)"
proof (cases "sz \<le> 65536")
  case True
  have up: "sorted (map st_weight ys)" if "sorted_wrt (\<lambda>a b. \<not> st_weight b < st_weight a) ys" for ys :: "('p, 'w) ST_Entry list"
    using that by (simp add: sorted_wrt_map not_less)
  have down: "sorted (rev (map st_weight ys))" if "sorted_wrt (\<lambda>a b. \<not> st_weight a < st_weight b) ys" for ys :: "('p, 'w) ST_Entry list"
    using that by (simp add: sorted_wrt_rev sorted_wrt_map not_less)
  show ?thesis unfolding if_P [OF True] min_sort_def max_sort_def
    by (rule conjI; rule wp_mono [OF ascending.select_sort_wp [OF assms True]] wp_mono [OF descending.select_sort_wp [OF assms True]])
      (use up down in auto)
next
  case False
  then have "65536 < sz" by simp
  from select_sort_overflow [OF _ this assms] False show ?thesis
    unfolding if_not_P [OF False] min_sort_def max_sort_def same_weights_def by blast
qed

theorem selection_sorts_witness:
  "wp (min_sort 2) (\<lambda>r ys. mset (take 2 ys) = mset (take 2 [\<lparr>st_ptr = (0 :: int), st_index = 4, st_weight = 8 :: int\<rparr>, \<lparr>st_ptr = 0, st_index = 3, st_weight = 6\<rparr>]) \<and>
     sorted (map st_weight (take 2 ys)) \<and> \<not> r) [\<lparr>st_ptr = (0 :: int), st_index = 4, st_weight = 8 :: int\<rparr>, \<lparr>st_ptr = 0, st_index = 3, st_weight = 6\<rparr>] \<and>
   min_sort 65537 (replicate 65537 \<lparr>st_ptr = (0 :: int), st_index = 0, st_weight = 1 :: int\<rparr>) = Inl Int_Overflow"
proof
  let ?xs = "[\<lparr>st_ptr = (0 :: int), st_index = 4, st_weight = 8 :: int\<rparr>, \<lparr>st_ptr = 0, st_index = 3, st_weight = 6\<rparr>]"
  have "nat 2 \<le> length ?xs" by simp
  from selection_sorts [OF this] show "wp (min_sort 2) (\<lambda>r ys. mset (take 2 ys) = mset (take 2 ?xs) \<and> sorted (map st_weight (take 2 ys)) \<and> \<not> r) ?xs"
    by (auto elim!: wp_mono)
  let ?ys = "replicate 65537 \<lparr>st_ptr = (0 :: int), st_index = 0, st_weight = 1 :: int\<rparr>"
  have "nat 65537 \<le> length ?ys" by (simp only: length_replicate)
  from selection_sorts [OF this] have "(\<forall>e\<in>set ?ys. st_weight e = 1) \<longrightarrow> min_sort 65537 ?ys = Inl Int_Overflow" by simp
  moreover have "\<forall>e\<in>set ?ys. st_weight e = 1" by (simp only: set_replicate_conv_if) simp
  ultimately show "min_sort 65537 ?ys = Inl Int_Overflow" by blast
qed

end
