(* ===== verification/Symbol_Table.thy ===== *)
theory Symbol_Table
  imports Alloc_Pool Linked_List
begin

text \<open>
  The dynamic symbol tables, \<open>src/src/library/dynamic_symbol\<close>: hash tables with chaining that double when they are three
  quarters full, whose symbols are also on a list in the order they were added. The four files \<open>int_symbol.c\<close>,
  \<open>string_symbol.c\<close>, \<open>int_array_symbol.c\<close> and \<open>char_array_symbol.c\<close> are the same code for four types of keys. The
  operations here have what differs between the files as an argument, of type \<open>sym_kind\<close>: the names and sizes the pools get, the hash function, the
  comparison of two keys, the keys that are refused, and whether a symbol keeps its hash value (in
  \<open>int_symbol.c\<close> the value is the hash value). \<open>Symbol_Kinds\<close> has the four instances.

  Keys are copied into the symbol, so a key is a value. A data pointer is an integer, NULL is 0. The optional \<open>free_routine\<close> is
  a function of the client; the model records the data pointers it is called with. The hash array is
  allocated with the table; as everywhere, \<open>malloc\<close> succeeds.
\<close>

unbundle bit_operations_syntax

section \<open>State\<close>

record 'k sym_kind =
  k_prefix :: string
  k_table_bytes :: int
  k_symbol_bytes :: int
  k_stored :: bool
  k_hash :: "'k \<Rightarrow> 32 word"
  k_same :: "'k \<Rightarrow> 'k \<Rightarrow> bool"
  k_refused :: "'k \<Rightarrow> bool"

record 'k sym_lib = alloc_lib +
  Symbol_Table_pool :: "nat option"
  Symbol_pool :: "nat option"
  sy_key :: "nat \<Rightarrow> 'k"
  sy_hash_val :: "nat \<Rightarrow> 32 word"
  sy_data :: "nat \<Rightarrow> int"
  sy_table :: "nat \<Rightarrow> nat option"
  sy_next_hash :: "nat \<Rightarrow> nat option"
  sy_prev_hash :: "nat \<Rightarrow> nat option"
  sy_next_symbol :: "nat \<Rightarrow> nat option"
  sy_prev_symbol :: "nat \<Rightarrow> nat option"
  tb_name :: "nat \<Rightarrow> string"
  tb_hash :: "nat \<Rightarrow> nat option list"
  tb_hash_size :: "nat \<Rightarrow> int"
  tb_hash_mask :: "nat \<Rightarrow> int"
  tb_resize_size :: "nat \<Rightarrow> int"
  tb_head_symbol :: "nat \<Rightarrow> nat option"
  tb_tail_symbol :: "nat \<Rightarrow> nat option"
  tb_symbol_count :: "nat \<Rightarrow> int"
  freed_data :: "int list"

section \<open>Tables\<close>

text \<open>\<open>unsigned int\<close> arithmetic: the doubling loop works on 32-bit words.\<close>

definition hash_size_for :: "int \<Rightarrow> ('s, 32 word) prog" where
  "hash_size_for expected_size =
     (let min_size = word_of_int (expected_size * 2) :: 32 word in
      while_prog (\<lambda>hash_size. hash_size < min_size) (\<lambda>hash_size. ret (push_bit 1 hash_size)) 32)"

text \<open>
  The index \<open>i\<close> of the loop that clears the hash array is a signed integer: it overflows when the array has
  \<open>2^31\<close> entries.
\<close>

definition new_hash_array :: "int \<Rightarrow> ('s, nat option list) prog" where
  "new_hash_array n = (if n > 2147483647 then fail Int_Overflow else ret (replicate (nat n) None))"

definition symbol_pools :: "'k sym_kind \<Rightarrow> ('k sym_lib, unit) prog" where
  "symbol_pools K =
     bnd (gets Symbol_Table_pool) (\<lambda>pool.
     if pool = None then
       bnd (L_create_alloc_pool (Some (k_prefix K @ ''_Symbol_Table'')) (k_table_bytes K) 16) (\<lambda>p.
       bnd (modify (\<lambda>g. g\<lparr>Symbol_Table_pool := Some p\<rparr>)) (\<lambda>_.
       bnd (L_create_alloc_pool (Some (k_prefix K @ ''_Symbol'')) (k_symbol_bytes K) 64) (\<lambda>q.
       modify (\<lambda>g. g\<lparr>Symbol_pool := Some q\<rparr>))))
     else ret ())"

definition init_table :: "nat option \<Rightarrow> string \<Rightarrow> nat option list \<Rightarrow> 32 word \<Rightarrow> ('k sym_lib, unit) prog" where
  "init_table table name hash hash_size =
     bnd (wr Symbol_Table_pool tb_name_update table name) (\<lambda>_.
     bnd (wr Symbol_Table_pool tb_hash_update table hash) (\<lambda>_.
     bnd (wr Symbol_Table_pool tb_hash_size_update table (uint hash_size)) (\<lambda>_.
     bnd (wr Symbol_Table_pool tb_hash_mask_update table (uint (hash_size - 1))) (\<lambda>_.
     bnd (wr Symbol_Table_pool tb_resize_size_update table (uint (hash_size - drop_bit 2 hash_size))) (\<lambda>_.
     bnd (wr Symbol_Table_pool tb_head_symbol_update table None) (\<lambda>_.
     bnd (wr Symbol_Table_pool tb_tail_symbol_update table None) (\<lambda>_.
     wr Symbol_Table_pool tb_symbol_count_update table 0)))))))"

definition new_symbol_table :: "'k sym_kind \<Rightarrow> string \<Rightarrow> int \<Rightarrow> ('k sym_lib, nat option) prog" where
  "new_symbol_table K name expected_size =
     (let expected_size = (if expected_size < 0 then 0 else expected_size) in
      if expected_size > 1000000000 then fail (Punt (k_prefix K @ ''_Symbol_Table''))
      else
        bnd (hash_size_for expected_size) (\<lambda>hash_size.
        bnd (symbol_pools K) (\<lambda>_.
        bnd (gets Symbol_Table_pool) (\<lambda>pool.
        bnd (L_alloc pool) (\<lambda>t.
        bnd (new_hash_array (uint hash_size)) (\<lambda>hash.
        bnd (init_table (Some t) name hash hash_size) (\<lambda>_.
        ret (Some t))))))))"

definition free_data :: "bool \<Rightarrow> nat option \<Rightarrow> ('k sym_lib, unit) prog" where
  "free_data free_routine symbol =
     (if free_routine then
        bnd (rd Symbol_pool sy_data symbol) (\<lambda>d. modify (\<lambda>g. g\<lparr>freed_data := freed_data g @ [d]\<rparr>))
      else ret ())"

definition free_symbol :: "nat option \<Rightarrow> ('k sym_lib, unit) prog" where
  "free_symbol symbol = bnd (gets Symbol_pool) (\<lambda>pool. L_free pool symbol)"

definition free_symbols :: "bool \<Rightarrow> nat option \<Rightarrow> ('k sym_lib, nat option \<times> unit) prog" where
  "free_symbols free_routine head =
     while_prog (\<lambda>r. fst r \<noteq> None) (\<lambda>r.
       bnd (rd Symbol_pool sy_next_symbol (fst r)) (\<lambda>next_symbol.
       bnd (free_data free_routine (fst r)) (\<lambda>_.
       bnd (free_symbol (fst r)) (\<lambda>_.
       ret (next_symbol, ()))))) (head, ())"

definition delete_symbol_table :: "nat option \<Rightarrow> bool \<Rightarrow> ('k sym_lib, unit) prog" where
  "delete_symbol_table table free_routine =
     bnd (rd Symbol_Table_pool tb_head_symbol table) (\<lambda>head.
     bnd (free_symbols free_routine head) (\<lambda>_.
     bnd (gets Symbol_Table_pool) (\<lambda>pool.
     L_free pool table)))"

section \<open>The hash chains\<close>

definition symbol_hash :: "'k sym_kind \<Rightarrow> 'k sym_lib \<Rightarrow> nat \<Rightarrow> 32 word" where
  "symbol_hash K g a = (if k_stored K then sy_hash_val g a else k_hash K (sy_key g a))"

definition hash_slot :: "32 word \<Rightarrow> int \<Rightarrow> nat" where
  "hash_slot hash_val hash_mask = unat (hash_val AND word_of_int hash_mask)"

text \<open>Adding a symbol to the head of a chain, in the array \<open>hash\<close>.\<close>

definition chain_insert :: "nat option list \<Rightarrow> nat \<Rightarrow> nat option \<Rightarrow> ('k sym_lib, nat option list) prog" where
  "chain_insert hash slot symbol =
     bnd (array_get (Some hash) slot) (\<lambda>hash_head.
     bnd (wr Symbol_pool sy_next_hash_update symbol hash_head) (\<lambda>_.
     bnd (wr Symbol_pool sy_prev_hash_update symbol None) (\<lambda>_.
     bnd (if hash_head \<noteq> None then wr Symbol_pool sy_prev_hash_update hash_head symbol else ret ()) (\<lambda>_.
     ret (hash[slot := symbol])))))"

definition rehash :: "'k sym_kind \<Rightarrow> int \<Rightarrow> nat option \<Rightarrow> nat option list \<Rightarrow> ('k sym_lib, nat option \<times> nat option list) prog" where
  "rehash K new_hash_mask head new_hash =
     while_prog (\<lambda>r. fst r \<noteq> None) (\<lambda>r.
       bnd (deref Symbol_pool (fst r)) (\<lambda>a.
       bnd (gets (\<lambda>g. symbol_hash K g a)) (\<lambda>h.
       bnd (chain_insert (snd r) (hash_slot h new_hash_mask) (fst r)) (\<lambda>new_hash.
       bnd (rd Symbol_pool sy_next_symbol (fst r)) (\<lambda>next_symbol.
       ret (next_symbol, new_hash)))))) (head, new_hash)"

definition resize_symbol_table :: "'k sym_kind \<Rightarrow> nat option \<Rightarrow> ('k sym_lib, unit) prog" where
  "resize_symbol_table K table =
     bnd (rd Symbol_Table_pool tb_hash_size table) (\<lambda>n.
     if n * 2 > 2147483647 then fail Int_Overflow
     else
       let new_hash_size = n * 2; new_hash_mask = new_hash_size - 1 in
       bnd (new_hash_array new_hash_size) (\<lambda>new_hash.
       bnd (rd Symbol_Table_pool tb_head_symbol table) (\<lambda>head.
       bnd (rehash K new_hash_mask head new_hash) (\<lambda>r.
       bnd (wr Symbol_Table_pool tb_hash_update table (snd r)) (\<lambda>_.
       bnd (wr Symbol_Table_pool tb_hash_size_update table new_hash_size) (\<lambda>_.
       bnd (wr Symbol_Table_pool tb_hash_mask_update table new_hash_mask) (\<lambda>_.
       wr Symbol_Table_pool tb_resize_size_update table (new_hash_size - drop_bit 2 new_hash_size))))))))"

text \<open>
  The search of a chain for a key: the hash value is compared first where a symbol keeps it. The loop leaves with the
  symbol it has found.
\<close>

definition search_chain :: "'k sym_kind \<Rightarrow> 'k \<Rightarrow> nat option \<Rightarrow> ('k sym_lib, nat option \<times> nat option) prog" where
  "search_chain K key head =
     while_prog (\<lambda>r. fst r \<noteq> None \<and> snd r = None) (\<lambda>r.
       bnd (deref Symbol_pool (fst r)) (\<lambda>a.
       bnd (gets (\<lambda>g. (\<not> k_stored K \<or> sy_hash_val g a = k_hash K key) \<and> k_same K (sy_key g a) key)) (\<lambda>match.
       if match then ret (fst r, fst r)
       else bnd (rd Symbol_pool sy_next_hash (fst r)) (\<lambda>next_hash. ret (next_hash, None))))) (head, None)"

definition append_symbol :: "nat option \<Rightarrow> nat option \<Rightarrow> ('k sym_lib, unit) prog" where
  "append_symbol table symbol =
     bnd (rd Symbol_Table_pool tb_tail_symbol table) (\<lambda>tail_symbol.
     bnd (wr Symbol_pool sy_next_symbol_update symbol None) (\<lambda>_.
     bnd (wr Symbol_pool sy_prev_symbol_update symbol tail_symbol) (\<lambda>_.
     bnd (if tail_symbol = None then wr Symbol_Table_pool tb_head_symbol_update table symbol
          else wr Symbol_pool sy_next_symbol_update tail_symbol symbol) (\<lambda>_.
     wr Symbol_Table_pool tb_tail_symbol_update table symbol))))"

text \<open>
  The part of \<open>add_symbol\<close> after the array has been resized: the fields of the new symbol, and its entry in the
  list and in the chain of its key.
\<close>

definition fill_symbol :: "'k sym_kind \<Rightarrow> nat option \<Rightarrow> 'k \<Rightarrow> int \<Rightarrow> nat option \<Rightarrow> ('k sym_lib, unit) prog" where
  "fill_symbol K table key data symbol =
     bnd (wr Symbol_pool sy_key_update symbol key) (\<lambda>_.
     bnd (wr Symbol_pool sy_data_update symbol data) (\<lambda>_.
     bnd (wr Symbol_pool sy_table_update symbol table) (\<lambda>_.
     bnd (append_symbol table symbol) (\<lambda>_.
     if k_stored K then wr Symbol_pool sy_hash_val_update symbol (k_hash K key) else ret ()))))"

definition enter_symbol :: "'k sym_kind \<Rightarrow> nat option \<Rightarrow> 'k \<Rightarrow> int \<Rightarrow> int \<Rightarrow> ('k sym_lib, nat option) prog" where
  "enter_symbol K table key data symbol_count =
     bnd (gets Symbol_pool) (\<lambda>pool.
     bnd (L_alloc pool) (\<lambda>symbol.
     bnd (fill_symbol K table key data (Some symbol)) (\<lambda>_.
     bnd (rd Symbol_Table_pool tb_hash_mask table) (\<lambda>hash_mask.
     bnd (rd Symbol_Table_pool tb_hash table) (\<lambda>hash.
     bnd (array_get (Some hash) (hash_slot (k_hash K key) hash_mask)) (\<lambda>hash_head.
     bnd (search_chain K key hash_head) (\<lambda>r.
     if snd r \<noteq> None then fail (Punt (k_prefix K @ ''_add_symbol''))
     else
       bnd (chain_insert hash (hash_slot (k_hash K key) hash_mask) (Some symbol)) (\<lambda>hash.
       bnd (wr Symbol_Table_pool tb_hash_update table hash) (\<lambda>_.
       bnd (wr Symbol_Table_pool tb_symbol_count_update table (symbol_count + 1)) (\<lambda>_.
       ret (Some symbol)))))))))))"

definition add_symbol :: "'k sym_kind \<Rightarrow> nat option \<Rightarrow> 'k \<Rightarrow> int \<Rightarrow> ('k sym_lib, nat option) prog" where
  "add_symbol K table key data =
     (if k_refused K key then fail (Punt (k_prefix K @ ''_add_symbol''))
      else
        bnd (rd Symbol_Table_pool tb_symbol_count table) (\<lambda>symbol_count.
        bnd (rd Symbol_Table_pool tb_resize_size table) (\<lambda>resize_size.
        bnd (if symbol_count \<ge> resize_size then resize_symbol_table K table else ret ()) (\<lambda>_.
        enter_symbol K table key data symbol_count))))"

definition find_symbol :: "'k sym_kind \<Rightarrow> nat option \<Rightarrow> 'k \<Rightarrow> ('k sym_lib, nat option) prog" where
  "find_symbol K table key =
     (if k_refused K key then fail (Punt (k_prefix K @ ''_find_symbol''))
      else
        bnd (rd Symbol_Table_pool tb_hash_mask table) (\<lambda>hash_mask.
        bnd (rd Symbol_Table_pool tb_hash table) (\<lambda>hash.
        bnd (array_get (Some hash) (hash_slot (k_hash K key) hash_mask)) (\<lambda>hash_head.
        bnd (search_chain K key hash_head) (\<lambda>r. ret (snd r))))))"

definition find_symbol_data :: "'k sym_kind \<Rightarrow> nat option \<Rightarrow> 'k \<Rightarrow> ('k sym_lib, int) prog" where
  "find_symbol_data K table key =
     (if k_refused K key then fail (Punt (k_prefix K @ ''_find_symbol_data''))
      else
        bnd (rd Symbol_Table_pool tb_hash_mask table) (\<lambda>hash_mask.
        bnd (rd Symbol_Table_pool tb_hash table) (\<lambda>hash.
        bnd (array_get (Some hash) (hash_slot (k_hash K key) hash_mask)) (\<lambda>hash_head.
        bnd (search_chain K key hash_head) (\<lambda>r.
        if snd r \<noteq> None then rd Symbol_pool sy_data (snd r) else ret 0)))))"

section \<open>Deletion\<close>

definition chain_remove :: "'k sym_kind \<Rightarrow> nat option \<Rightarrow> nat option \<Rightarrow> ('k sym_lib, unit) prog" where
  "chain_remove K table symbol =
     bnd (deref Symbol_pool symbol) (\<lambda>a.
     bnd (gets (\<lambda>g. symbol_hash K g a)) (\<lambda>h.
     bnd (rd Symbol_Table_pool tb_hash_mask table) (\<lambda>hash_mask.
     bnd (rd Symbol_pool sy_prev_hash symbol) (\<lambda>prev_hash.
     bnd (rd Symbol_pool sy_next_hash symbol) (\<lambda>next_hash.
     bnd (if prev_hash = None then
            bnd (rd Symbol_Table_pool tb_hash table) (\<lambda>hash.
            bnd (array_put (Some hash) (hash_slot h hash_mask) next_hash) (\<lambda>hash'.
            wr Symbol_Table_pool tb_hash_update table (case hash' of None \<Rightarrow> [] | Some hash' \<Rightarrow> hash')))
          else wr Symbol_pool sy_next_hash_update prev_hash next_hash) (\<lambda>_.
     if next_hash \<noteq> None then wr Symbol_pool sy_prev_hash_update next_hash prev_hash else ret ()))))))"

definition unlink_symbol :: "nat option \<Rightarrow> nat option \<Rightarrow> ('k sym_lib, unit) prog" where
  "unlink_symbol table symbol =
     bnd (rd Symbol_pool sy_prev_symbol symbol) (\<lambda>prev_symbol.
     bnd (rd Symbol_pool sy_next_symbol symbol) (\<lambda>next_symbol.
     bnd (if prev_symbol = None then wr Symbol_Table_pool tb_head_symbol_update table next_symbol
          else wr Symbol_pool sy_next_symbol_update prev_symbol next_symbol) (\<lambda>_.
     if next_symbol = None then wr Symbol_Table_pool tb_tail_symbol_update table prev_symbol
     else wr Symbol_pool sy_prev_symbol_update next_symbol prev_symbol)))"

definition delete_symbol :: "'k sym_kind \<Rightarrow> nat option \<Rightarrow> bool \<Rightarrow> ('k sym_lib, unit) prog" where
  "delete_symbol K symbol free_routine =
     bnd (rd Symbol_pool sy_table symbol) (\<lambda>table.
     bnd (chain_remove K table symbol) (\<lambda>_.
     bnd (unlink_symbol table symbol) (\<lambda>_.
     bnd (free_data free_routine symbol) (\<lambda>_.
     bnd (free_symbol symbol) (\<lambda>_.
     bnd (rd Symbol_Table_pool tb_symbol_count table) (\<lambda>n.
     wr Symbol_Table_pool tb_symbol_count_update table (n - 1)))))))"

definition first_symbol :: "nat option \<Rightarrow> ('k sym_lib, nat option) prog" where
  "first_symbol table = rd Symbol_Table_pool tb_head_symbol table"

text \<open>
  The debugging print: the head line has the name, the number of symbols, the size of the array and the number of used entries; then
  there is a line per used entry with the keys of its chain.
\<close>

definition print_chain :: "('k \<Rightarrow> 'o) \<Rightarrow> nat option \<Rightarrow> ('k sym_lib, 'o list) prog" where
  "print_chain shown head =
     bnd (while_prog (\<lambda>r. fst r \<noteq> None) (\<lambda>r.
            bnd (rd Symbol_pool sy_key (fst r)) (\<lambda>key.
            bnd (rd Symbol_pool sy_next_hash (fst r)) (\<lambda>next_hash.
            ret (next_hash, snd r @ [shown key])))) (head, [])) (\<lambda>r.
     ret (snd r))"

definition print_symbol_table_hash ::
  "('k \<Rightarrow> 'o) \<Rightarrow> nat option \<Rightarrow> ('k sym_lib, (string \<times> int \<times> int \<times> nat) \<times> (nat \<times> 'o list) list) prog" where
  "print_symbol_table_hash shown table =
     bnd (rd Symbol_Table_pool tb_hash_size table) (\<lambda>n.
     bnd (rd Symbol_Table_pool tb_hash table) (\<lambda>hash.
     bnd (for_each (\<lambda>i lines. bnd (array_get (Some hash) i) (\<lambda>head.
            ret (if head \<noteq> None then lines + 1 else lines))) [0..<nat n] 0) (\<lambda>lines.
     bnd (rd Symbol_Table_pool tb_name table) (\<lambda>name.
     bnd (rd Symbol_Table_pool tb_symbol_count table) (\<lambda>count.
     bnd (for_each (\<lambda>i out. bnd (array_get (Some hash) i) (\<lambda>head.
            if head = None then ret out
            else bnd (print_chain shown head) (\<lambda>keys. ret (out @ [(i, keys)])))) [0..<nat n] []) (\<lambda>out.
     ret ((name, count, n, lines), out)))))))"

end
