(* ===== verification/Symbol_Memory.thy ===== *)
theory Symbol_Memory
  imports Symbol_Table
begin

text \<open>
  The memory of the symbol tables. \<open>chains\<close> describes the hash chains of an array, \<open>tab_ok\<close> one table, \<open>sym_holds g A\<close> the
  whole library: \<open>A\<close> gives for every table in use its keys and data, in the order they were added.
\<close>

section \<open>Field updates leave the pools alone\<close>

lemma pool_mem_upd [simp]:
  "pool_mem (sy_key_update f0 g) = pool_mem g"
  "pool_mem (sy_hash_val_update f1 g) = pool_mem g"
  "pool_mem (sy_data_update f2 g) = pool_mem g"
  "pool_mem (sy_table_update f3 g) = pool_mem g"
  "pool_mem (sy_next_hash_update f4 g) = pool_mem g"
  "pool_mem (sy_prev_hash_update f5 g) = pool_mem g"
  "pool_mem (sy_next_symbol_update f6 g) = pool_mem g"
  "pool_mem (sy_prev_symbol_update f7 g) = pool_mem g"
  "pool_mem (tb_name_update f8 g) = pool_mem g"
  "pool_mem (tb_hash_update f9 g) = pool_mem g"
  "pool_mem (tb_hash_size_update f10 g) = pool_mem g"
  "pool_mem (tb_hash_mask_update f11 g) = pool_mem g"
  "pool_mem (tb_resize_size_update f12 g) = pool_mem g"
  "pool_mem (tb_head_symbol_update f13 g) = pool_mem g"
  "pool_mem (tb_tail_symbol_update f14 g) = pool_mem g"
  "pool_mem (tb_symbol_count_update f15 g) = pool_mem g"
  "pool_mem (freed_data_update f16 g) = pool_mem g"
  by (simp_all add: fun_eq_iff)

lemma in_use_upd [simp]:
  "in_use P (sy_key_update f0 g) = in_use P g"
  "in_use P (sy_hash_val_update f1 g) = in_use P g"
  "in_use P (sy_data_update f2 g) = in_use P g"
  "in_use P (sy_table_update f3 g) = in_use P g"
  "in_use P (sy_next_hash_update f4 g) = in_use P g"
  "in_use P (sy_prev_hash_update f5 g) = in_use P g"
  "in_use P (sy_next_symbol_update f6 g) = in_use P g"
  "in_use P (sy_prev_symbol_update f7 g) = in_use P g"
  "in_use P (tb_name_update f8 g) = in_use P g"
  "in_use P (tb_hash_update f9 g) = in_use P g"
  "in_use P (tb_hash_size_update f10 g) = in_use P g"
  "in_use P (tb_hash_mask_update f11 g) = in_use P g"
  "in_use P (tb_resize_size_update f12 g) = in_use P g"
  "in_use P (tb_head_symbol_update f13 g) = in_use P g"
  "in_use P (tb_tail_symbol_update f14 g) = in_use P g"
  "in_use P (tb_symbol_count_update f15 g) = in_use P g"
  "in_use P (freed_data_update f16 g) = in_use P g"
  by (simp_all add: in_use_def fun_eq_iff split: option.split)

section \<open>Chains\<close>

definition slot_of :: "'k sym_kind \<Rightarrow> 'k sym_lib \<Rightarrow> int \<Rightarrow> nat \<Rightarrow> nat" where
  "slot_of K g m x = hash_slot (symbol_hash K g x) m"

definition chain_at :: "'k sym_kind \<Rightarrow> 'k sym_lib \<Rightarrow> int \<Rightarrow> nat option list \<Rightarrow> nat set \<Rightarrow> nat \<Rightarrow> nat list \<Rightarrow> bool" where
  "chain_at K g m arr S i ys \<longleftrightarrow> distinct ys \<and> dll (sy_next_hash g) (sy_prev_hash g) None ys None \<and> arr ! i = fst_of ys None \<and>
     set ys = {x \<in> S. slot_of K g m x = i}"

definition chains :: "'k sym_kind \<Rightarrow> 'k sym_lib \<Rightarrow> int \<Rightarrow> nat option list \<Rightarrow> nat set \<Rightarrow> bool" where
  "chains K g m arr S \<longleftrightarrow> (\<forall>x\<in>S. slot_of K g m x < length arr) \<and> (\<forall>i<length arr. \<exists>ys. chain_at K g m arr S i ys)"

lemma chainE:
  assumes "chains K g m arr S" "i < length arr"
  obtains ys where "chain_at K g m arr S i ys"
proof -
  from assms have "\<exists>ys. chain_at K g m arr S i ys" by (simp add: chains_def)
  then show thesis by (elim exE) (rule that)
qed

lemma chain_at_cong:
  assumes "\<And>x. x \<in> S \<Longrightarrow> symbol_hash K g' x = symbol_hash K g x"
    and "\<And>x. x \<in> S \<Longrightarrow> slot_of K g m x = i \<Longrightarrow> sy_next_hash g' x = sy_next_hash g x \<and> sy_prev_hash g' x = sy_prev_hash g x"
    and "arr' ! i = arr ! i"
    and "chain_at K g m arr S i ys"
  shows "chain_at K g' m arr' S i ys"
proof -
  have "set ys = {x \<in> S. slot_of K g m x = i}" using assms(4) by (simp add: chain_at_def)
  then have "dll (sy_next_hash g') (sy_prev_hash g') None ys None = dll (sy_next_hash g) (sy_prev_hash g) None ys None"
    using assms(2) by (intro dll_cong) auto
  moreover have "slot_of K g' m x = slot_of K g m x" if "x \<in> S" for x using assms(1) [OF that] by (simp add: slot_of_def)
  ultimately show ?thesis using assms(3,4) by (auto simp: chain_at_def)
qed

lemma chains_cong:
  assumes "\<And>x. x \<in> S \<Longrightarrow> symbol_hash K g' x = symbol_hash K g x \<and> sy_next_hash g' x = sy_next_hash g x \<and> sy_prev_hash g' x = sy_prev_hash g x"
    and "chains K g m arr S"
  shows "chains K g' m arr S"
proof -
  have "slot_of K g' m x = slot_of K g m x" if "x \<in> S" for x using assms(1) [OF that] by (simp add: slot_of_def)
  moreover have "\<exists>ys. chain_at K g' m arr S i ys" if "i < length arr" for i
  proof -
    from assms(2) that obtain ys where "chain_at K g m arr S i ys" by (rule chainE)
    have "chain_at K g' m arr S i ys" by (rule chain_at_cong [OF _ _ refl \<open>chain_at K g m arr S i ys\<close>]) (simp_all add: assms(1))
    then show ?thesis by (rule exI)
  qed
  ultimately show ?thesis using assms(2) unfolding chains_def by simp
qed

lemma chains_empty: "chains K g m (replicate n None) {}"
  by (auto simp: chains_def chain_at_def intro!: exI [of _ "[]"])

text \<open>An update of the two links of the chains.\<close>

definition relinked :: "nat set \<Rightarrow> 'k sym_lib \<Rightarrow> 'k sym_lib \<Rightarrow> bool" where
  "relinked S g g' \<longleftrightarrow> (\<exists>nh ph. g' = g\<lparr>sy_next_hash := nh, sy_prev_hash := ph\<rparr> \<and>
     (\<forall>x. x \<notin> S \<longrightarrow> nh x = sy_next_hash g x \<and> ph x = sy_prev_hash g x))"

lemma slot_of_upd [simp]: "slot_of K (sy_next_hash_update f g) = slot_of K g" "slot_of K (sy_prev_hash_update f g) = slot_of K g"
  by (simp_all add: slot_of_def symbol_hash_def fun_eq_iff)

lemma chain_insert_wp:
  assumes c: "chains K g m arr S" and a: "a \<notin> S" "slot_of K g m a = i" "i < length arr"
    and use: "in_use (Symbol_pool g) g a" "\<And>x. x \<in> S \<Longrightarrow> in_use (Symbol_pool g) g x"
  shows "wp (chain_insert arr i (Some a)) (\<lambda>arr' g'. chains K g' m arr' (insert a S) \<and> length arr' = length arr \<and>
    relinked (insert a S) g g') g"
proof -
  from c a(3) obtain ys where ys: "chain_at K g m arr S i ys" by (rule chainE)
  have y: "distinct ys" "dll (sy_next_hash g) (sy_prev_hash g) None ys None" "arr ! i = fst_of ys None"
    "set ys = {x \<in> S. slot_of K g m x = i}" using ys by (auto simp: chain_at_def)
  have new: "a \<notin> set ys" using y(4) a(1) by simp
  define h where "h = g\<lparr>sy_next_hash := (sy_next_hash g)(a := fst_of ys None), sy_prev_hash := link ((sy_prev_hash g)(a := None)) (fst_of ys None) (Some a)\<rparr>"
  have sh: "slot_of K h = slot_of K g" "symbol_hash K h x = symbol_hash K g x" for x
    by (simp_all add: h_def slot_of_def symbol_hash_def fun_eq_iff)
  have "wp (chain_insert arr i (Some a)) (\<lambda>arr' g'. arr' = arr[i := Some a] \<and> g' = h) g"
  proof (cases ys)
    case Nil
    then show ?thesis using use a(3) y(3) by (simp add: chain_insert_def h_def)
  next
    case (Cons z zs)
    have "z \<in> S" using y(4) Cons by auto
    then show ?thesis using use a(3) y(3) Cons by (simp add: chain_insert_def h_def comp_def)
  qed
  moreover have "relinked (insert a S) g h"
    unfolding relinked_def
  proof (rule exI, rule exI, rule conjI, rule h_def, intro allI impI)
    fix x assume "x \<notin> insert a S"
    then have "x \<notin> set ys" "x \<noteq> a" using y(4) by auto
    then show "((sy_next_hash g)(a := fst_of ys None)) x = sy_next_hash g x \<and>
      link ((sy_prev_hash g)(a := None)) (fst_of ys None) (Some a) x = sy_prev_hash g x" by simp
  qed
  moreover have "chains K h m (arr[i := Some a]) (insert a S)"
    unfolding chains_def
  proof (intro conjI ballI allI impI)
    fix x assume "x \<in> insert a S"
    then show "slot_of K h m x < length (arr[i := Some a])" using c a sh by (auto simp: chains_def)
  next
    fix j assume j: "j < length (arr[i := Some a])"
    show "\<exists>zs. chain_at K h m (arr[i := Some a]) (insert a S) j zs"
    proof (cases "j = i")
      case True
      have "link ((sy_prev_hash g)(a := None)) (fst_of ys None) (Some a) = (link (sy_prev_hash g) (fst_of ys None) (Some a))(a := None)"
        using new by (cases ys) (auto simp: fun_upd_twist)
      then have "dll (sy_next_hash h) (sy_prev_hash h) None (a # ys) None" using dll_push_front [OF y(1,2) new] by (simp add: h_def)
      then have "chain_at K h m (arr[i := Some a]) (insert a S) i (a # ys)"
        using y new a sh by (auto simp: chain_at_def)
      with True show ?thesis by blast
    next
      case False
      from j have "j < length arr" by simp
      with c obtain zs where zs: "chain_at K g m arr S j zs" by (rule chainE)
      have eq: "sy_next_hash h x = sy_next_hash g x \<and> sy_prev_hash h x = sy_prev_hash g x" if "x \<in> S" "slot_of K g m x = j" for x
      proof -
        have "x \<notin> set ys" "x \<noteq> a" using that y(4) a(1) False by auto
        then show ?thesis by (simp add: h_def link_end(1))
      qed
      have "chain_at K h m (arr[i := Some a]) S j zs"
        by (rule chain_at_cong [OF _ _ _ zs]) (use eq sh False in auto)
      then have "chain_at K h m (arr[i := Some a]) (insert a S) j zs" using a(2) sh False by (auto simp: chain_at_def)
      then show ?thesis by blast
    qed
  qed
  ultimately show ?thesis by (auto elim!: wp_mono)
qed

lemma chain_remove_wp:
  assumes c: "chains K g m arr S" and t: "tb_hash g t = arr" "tb_hash_mask g t = m" "in_use (Symbol_Table_pool g) g t"
    and a: "a \<in> S" and use: "\<And>x. x \<in> S \<Longrightarrow> in_use (Symbol_pool g) g x"
  shows "wp (chain_remove K (Some t) (Some a)) (\<lambda>_ g'. \<exists>h arr'. relinked S g h \<and> g' = h\<lparr>tb_hash := (tb_hash g)(t := arr')\<rparr> \<and>
    length arr' = length arr \<and> chains K g' m arr' (S - {a})) g"
proof -
  define i where "i = slot_of K g m a"
  have i: "i < length arr" using c a by (auto simp: chains_def i_def)
  with c obtain ys where ys: "chain_at K g m arr S i ys" by (rule chainE)
  have "a \<in> set ys" using ys a by (simp add: chain_at_def i_def)
  then obtain us vs where uv: "ys = us @ a # vs" by (auto simp: in_set_conv_decomp)
  have y: "distinct (us @ a # vs)" "dll (sy_next_hash g) (sy_prev_hash g) None (us @ a # vs) None" "arr ! i = fst_of ys None"
    "set (us @ a # vs) = {x \<in> S. slot_of K g m x = i}" using ys by (auto simp: chain_at_def uv)
  have nb: "sy_prev_hash g a = lst_of us None" "sy_next_hash g a = fst_of vs None" using y(2) by auto
  define nh ph where "nh = link (sy_next_hash g) (lst_of us None) (fst_of vs None)" and "ph = link (sy_prev_hash g) (fst_of vs None) (lst_of us None)"
  define arr' where "arr' = (if us = [] then arr[i := fst_of vs None] else arr)"
  define h where "h = g\<lparr>sy_next_hash := nh, sy_prev_hash := ph\<rparr>"
  define g' where "g' = h\<lparr>tb_hash := (tb_hash g)(t := arr')\<rparr>"
  have out: "x \<notin> set us \<Longrightarrow> nh x = sy_next_hash g x" "x \<notin> set vs \<Longrightarrow> ph x = sy_prev_hash g x" for x
    by (simp_all add: nh_def ph_def)
  have sub: "set us \<subseteq> S" "set vs \<subseteq> S" using y(4) by auto
  have sh: "slot_of K g' = slot_of K g" "symbol_hash K g' x = symbol_hash K g x" for x
    by (simp_all add: g'_def h_def slot_of_def symbol_hash_def fun_eq_iff)
  have slot: "hash_slot (symbol_hash K g a) (tb_hash_mask g t) = i" by (simp add: i_def slot_of_def t(2))
  have "wp (chain_remove K (Some t) (Some a)) (\<lambda>_ s'. s' = g') g"
  proof (cases us rule: rev_cases)
    case Nil
    then show ?thesis using use [OF a] t i nb sub use slot
      by (cases vs) (auto simp: chain_remove_def g'_def h_def nh_def ph_def arr'_def array_put_def comp_def)
  next
    case (snoc us' u)
    then show ?thesis using use [OF a] t i nb sub use slot
      by (cases vs) (auto simp: chain_remove_def g'_def h_def nh_def ph_def arr'_def fun_upd_idem)
  qed
  moreover have "relinked S g h"
    unfolding relinked_def by (rule exI, rule exI, rule conjI, rule h_def) (use out sub in auto)
  moreover have "chains K g' m arr' (S - {a})"
    unfolding chains_def
  proof (intro conjI ballI allI impI)
    fix x assume "x \<in> S - {a}"
    then show "slot_of K g' m x < length arr'" using c sh by (auto simp: chains_def arr'_def)
  next
    fix j assume "j < length arr'"
    then have j: "j < length arr" by (simp add: arr'_def split: if_splits)
    show "\<exists>zs. chain_at K g' m arr' (S - {a}) j zs"
    proof (cases "j = i")
      case True
      have "dll nh ph None (us @ vs) None" using dll_remove [OF y(1,2)] by (simp add: nb nh_def ph_def)
      moreover have "arr' ! i = fst_of (us @ vs) None" using i y(3) by (cases us) (auto simp: arr'_def uv)
      ultimately have "chain_at K g' m arr' (S - {a}) i (us @ vs)"
        using y sh(1) by (auto simp: chain_at_def g'_def h_def)
      with True show ?thesis by blast
    next
      case False
      from c j obtain zs where zs: "chain_at K g m arr S j zs" by (rule chainE)
      have eq: "sy_next_hash g' x = sy_next_hash g x \<and> sy_prev_hash g' x = sy_prev_hash g x" if "x \<in> S" "slot_of K g m x = j" for x
      proof -
        have "x \<notin> set us" "x \<notin> set vs" using that y(4) False by auto
        then show ?thesis using out by (simp add: g'_def h_def)
      qed
      have "chain_at K g' m arr' S j zs"
        by (rule chain_at_cong [OF _ _ _ zs]) (use eq sh False in \<open>auto simp: arr'_def\<close>)
      then have "chain_at K g' m arr' (S - {a}) j zs" using sh False by (auto simp: chain_at_def i_def)
      then show ?thesis by blast
    qed
  qed
  moreover have "length arr' = length arr" by (simp add: arr'_def)
  ultimately show ?thesis unfolding g'_def by (blast intro: wp_mono)
qed

end
