(* ===== verification/Symbol_Lookup.thy ===== *)
theory Symbol_Lookup
  imports Symbol_Memory
begin

text \<open>
  One table: the contract of a kind of keys as the locale \<open>symbol_keys\<close>, searching, resizing, and the invariant \<open>tab_ok\<close>
  of a table.
\<close>

section \<open>The invariant of a table\<close>

definition hashed :: "'k sym_kind \<Rightarrow> 'k sym_lib \<Rightarrow> nat set \<Rightarrow> bool" where
  "hashed K g S \<longleftrightarrow> (\<forall>x\<in>S. k_stored K \<longrightarrow> sy_hash_val g x = k_hash K (sy_key g x))"

definition geometry :: "'k sym_lib \<Rightarrow> nat \<Rightarrow> nat \<Rightarrow> bool" where
  "geometry g t k \<longleftrightarrow> 5 \<le> k \<and> k \<le> 30 \<and> tb_hash_size g t = 2 ^ k \<and> tb_hash_mask g t = 2 ^ k - 1 \<and>
     tb_resize_size g t = 2 ^ k - 2 ^ (k - 2) \<and> length (tb_hash g t) = 2 ^ k"

definition tab_ok :: "'k sym_kind \<Rightarrow> 'k sym_lib \<Rightarrow> nat set \<Rightarrow> nat \<Rightarrow> nat list \<Rightarrow> bool" where
  "tab_ok K g E t xs \<longleftrightarrow> distinct xs \<and> set xs \<subseteq> E \<and> dll (sy_next_symbol g) (sy_prev_symbol g) None xs None \<and>
     tb_head_symbol g t = fst_of xs None \<and> tb_tail_symbol g t = lst_of xs None \<and> tb_symbol_count g t = int (length xs) \<and>
     (\<exists>k. geometry g t k) \<and> chains K g (tb_hash_mask g t) (tb_hash g t) (set xs) \<and> inj_on (sy_key g) (set xs) \<and>
     hashed K g (set xs) \<and> (\<forall>x\<in>set xs. sy_table g x = Some t)"

lemma tab_okD:
  assumes "tab_ok K g E t xs"
  shows "distinct xs" "set xs \<subseteq> E" "dll (sy_next_symbol g) (sy_prev_symbol g) None xs None"
    "tb_head_symbol g t = fst_of xs None" "tb_tail_symbol g t = lst_of xs None" "tb_symbol_count g t = int (length xs)"
    "chains K g (tb_hash_mask g t) (tb_hash g t) (set xs)" "inj_on (sy_key g) (set xs)" "hashed K g (set xs)"
    "x \<in> set xs \<Longrightarrow> sy_table g x = Some t"
  using assms by (simp_all add: tab_ok_def)

lemma hash_slot_less: "hash_slot w (2 ^ k - 1) < 2 ^ k"
proof -
  have "word_of_int (2 ^ k - 1) = (Bit_Operations.mask k :: 32 word)" by (simp add: mask_eq_exp_minus_1)
  then have "hash_slot w (2 ^ k - 1) = unat (take_bit k w)" by (simp add: hash_slot_def take_bit_eq_mask)
  also have "\<dots> = take_bit k (unat w)" by (simp add: unsigned_take_bit_eq)
  finally show ?thesis by (simp add: take_bit_nat_less_exp)
qed

lemma geometry_slot: "geometry g t k \<Longrightarrow> hash_slot w (tb_hash_mask g t) < length (tb_hash g t)"
  using hash_slot_less [of w k] by (simp add: geometry_def)

section \<open>Searching\<close>

locale symbol_keys =
  fixes K :: "'k sym_kind"
  assumes same: "k_same K x y \<longleftrightarrow> x = y"
    and sizes: "k_table_bytes K \<le> 1024" "k_symbol_bytes K \<le> 1024"
begin

lemma symbol_hash_key: "hashed K g S \<Longrightarrow> x \<in> S \<Longrightarrow> symbol_hash K g x = k_hash K (sy_key g x)"
  by (simp add: hashed_def symbol_hash_def)

lemma search_chain_wp:
  assumes ys: "dll (sy_next_hash g) (sy_prev_hash g) None ys None" "hashed K g (set ys)"
    and use: "\<And>x. x \<in> set ys \<Longrightarrow> in_use (Symbol_pool g) g x"
  shows "wp (search_chain K key (fst_of ys None)) (\<lambda>r g'. g' = g \<and> (case snd r of None \<Rightarrow> key \<notin> sy_key g ` set ys
    | Some a \<Rightarrow> a \<in> set ys \<and> sy_key g a = key)) g"
  unfolding search_chain_def
proof (rule wp_walk [where I = "\<lambda>vs f t. t = g \<and> f = None \<and> (\<exists>us. ys = us @ vs \<and> key \<notin> sy_key g ` set us)"])
  fix a vs f t
  assume "t = g \<and> f = None \<and> (\<exists>us. ys = us @ a # vs \<and> key \<notin> sy_key g ` set us)"
  then obtain us where I: "t = g" "ys = us @ a # vs" "key \<notin> sy_key g ` set us" by auto
  have a: "in_use (Symbol_pool g) g a" "sy_next_hash g a = fst_of vs None" using use ys(1) I(2) by auto
  have hv: "k_stored K \<Longrightarrow> sy_hash_val g a = k_hash K (sy_key g a)" using ys(2) I(2) by (simp add: hashed_def)
  have go: "\<exists>us'. ys = us' @ vs \<and> key \<notin> sy_key g ` set us'" if "sy_key g a \<noteq> key" using that I by (intro exI [of _ "us @ [a]"]) auto
  show "wp (bnd (deref Symbol_pool (fst (Some a, f))) (\<lambda>a'. bnd (gets (\<lambda>g. (\<not> k_stored K \<or> sy_hash_val g a' = k_hash K key) \<and> k_same K (sy_key g a') key)) (\<lambda>match.
       if match then ret (fst (Some a, f), fst (Some a, f))
       else bnd (rd Symbol_pool sy_next_hash (fst (Some a, f))) (\<lambda>next_hash. ret (next_hash, None)))))
     (\<lambda>r s'. (\<exists>f'. r = (fst_of vs None, f') \<and> s' = g \<and> f' = None \<and> (\<exists>us. ys = us @ vs \<and> key \<notin> sy_key g ` set us)) \<or>
       \<not> (fst r \<noteq> None \<and> snd r = None) \<and> s' = g \<and> (case snd r of None \<Rightarrow> key \<notin> sy_key g ` set ys | Some a \<Rightarrow> a \<in> set ys \<and> sy_key g a = key)) t"
    using a go I(2) hv by (cases "sy_key g a = key") (auto simp: I(1) same)
qed auto

text \<open>The chain of a key has all the symbols that can have it.\<close>

lemma search_array:
  assumes c: "chains K g m arr S" and hv: "hashed K g S" and i: "hash_slot (k_hash K key) m < length arr"
    and use: "\<And>x. x \<in> S \<Longrightarrow> in_use (Symbol_pool g) g x"
  shows "wp (search_chain K key (arr ! hash_slot (k_hash K key) m))
    (\<lambda>r g'. g' = g \<and> (case snd r of None \<Rightarrow> key \<notin> sy_key g ` S | Some a \<Rightarrow> a \<in> S \<and> sy_key g a = key)) g"
proof -
  let ?i = "hash_slot (k_hash K key) m"
  from c i obtain ys where ys: "chain_at K g m arr S ?i ys" by (rule chainE)
  have set_ys: "set ys = {x \<in> S. slot_of K g m x = ?i}" and
    y: "dll (sy_next_hash g) (sy_prev_hash g) None ys None" "arr ! ?i = fst_of ys None" using ys by (auto simp: chain_at_def)
  have keys: "key \<in> sy_key g ` S \<longleftrightarrow> key \<in> sy_key g ` set ys"
    using symbol_hash_key [OF hv] unfolding set_ys by (auto simp: slot_of_def)
  have sub: "set ys \<subseteq> S" using set_ys by auto
  then have "hashed K g (set ys)" using hv by (auto simp: hashed_def)
  from search_chain_wp [OF y(1) this, of key] sub use
  have "wp (search_chain K key (fst_of ys None)) (\<lambda>r g'. g' = g \<and> (case snd r of None \<Rightarrow> key \<notin> sy_key g ` set ys
    | Some a \<Rightarrow> a \<in> set ys \<and> sy_key g a = key)) g" by blast
  then show ?thesis unfolding y(2)
    by (rule wp_mono) (use keys sub in \<open>auto split: option.splits\<close>)
qed

lemma search_table:
  assumes t: "tab_ok K g E t xs" and use: "\<And>x. x \<in> set xs \<Longrightarrow> in_use (Symbol_pool g) g x"
  shows "wp (search_chain K key (tb_hash g t ! hash_slot (k_hash K key) (tb_hash_mask g t)))
    (\<lambda>r g'. g' = g \<and> (case snd r of None \<Rightarrow> key \<notin> sy_key g ` set xs | Some a \<Rightarrow> a \<in> set xs \<and> sy_key g a = key)) g"
proof -
  obtain k where "geometry g t k" using t by (auto simp: tab_ok_def)
  then show ?thesis by (intro search_array tab_okD [OF t] geometry_slot use)
qed

end

section \<open>Resizing\<close>

lemma relinkedD:
  assumes "relinked S g h"
  shows "x \<notin> S \<Longrightarrow> sy_next_hash h x = sy_next_hash g x" "x \<notin> S \<Longrightarrow> sy_prev_hash h x = sy_prev_hash g x"
    "sy_key h = sy_key g" "sy_hash_val h = sy_hash_val g" "sy_data h = sy_data g" "sy_table h = sy_table g"
    "sy_next_symbol h = sy_next_symbol g" "sy_prev_symbol h = sy_prev_symbol g" "tb_name h = tb_name g" "tb_hash h = tb_hash g"
    "tb_hash_size h = tb_hash_size g" "tb_hash_mask h = tb_hash_mask g" "tb_resize_size h = tb_resize_size g"
    "tb_head_symbol h = tb_head_symbol g" "tb_tail_symbol h = tb_tail_symbol g" "tb_symbol_count h = tb_symbol_count g"
    "freed_data h = freed_data g" "Symbol_Table_pool h = Symbol_Table_pool g" "Symbol_pool h = Symbol_pool g" "pool_mem h = pool_mem g"
    "in_use P h = in_use P g"
  using assms unfolding relinked_def by auto

lemma relinked_trans:
  assumes "relinked S g g1" "relinked T g1 g2"
  shows "relinked (S \<union> T) g g2"
proof -
  obtain nh ph where 1: "g1 = g\<lparr>sy_next_hash := nh, sy_prev_hash := ph\<rparr>"
    "\<And>x. x \<notin> S \<Longrightarrow> nh x = sy_next_hash g x \<and> ph x = sy_prev_hash g x" using assms(1) by (auto simp: relinked_def)
  obtain nh' ph' where 2: "g2 = g1\<lparr>sy_next_hash := nh', sy_prev_hash := ph'\<rparr>"
    "\<And>x. x \<notin> T \<Longrightarrow> nh' x = sy_next_hash g1 x \<and> ph' x = sy_prev_hash g1 x" using assms(2) by (auto simp: relinked_def)
  have "g2 = g\<lparr>sy_next_hash := nh', sy_prev_hash := ph'\<rparr>" by (simp add: 1 2(1))
  moreover have "nh' x = sy_next_hash g x \<and> ph' x = sy_prev_hash g x" if "x \<notin> S \<union> T" for x
    using that 1(2) [of x] 2(2) [of x] by (simp add: 1(1))
  ultimately show ?thesis unfolding relinked_def by blast
qed

lemma relinked_refl: "relinked {} g g"
  unfolding relinked_def by (intro exI [of _ "sy_next_hash g"] exI [of _ "sy_prev_hash g"]) simp

definition resized :: "nat \<Rightarrow> nat \<Rightarrow> nat option list \<Rightarrow> 'k sym_lib \<Rightarrow> 'k sym_lib" where
  "resized t k arr h = tb_resize_size_update (\<lambda>f. f(t := 2 ^ k - 2 ^ (k - 2))) (tb_hash_mask_update (\<lambda>f. f(t := 2 ^ k - 1))
     (tb_hash_size_update (\<lambda>f. f(t := 2 ^ k)) (tb_hash_update (\<lambda>f. f(t := arr)) h)))"

context symbol_keys begin

lemma resize_loop:
  assumes t: "tab_ok K g E t xs" and m: "m = 2 ^ Suc k - 1"
    and use: "\<And>x. x \<in> set xs \<Longrightarrow> in_use (Symbol_pool g) g x"
  shows "wp (rehash K m (fst_of xs None) (replicate (2 ^ Suc k) None))
     (\<lambda>r h. relinked (set xs) g h \<and> chains K h m (snd r) (set xs) \<and> length (snd r) = 2 ^ Suc k) g"
  unfolding rehash_def
proof (rule wp_walk [where I = "\<lambda>vs arr h. \<exists>us. xs = us @ vs \<and> relinked (set us) g h \<and> chains K h m arr (set us) \<and> length arr = 2 ^ Suc k"])
    fix a vs arr h
    assume "\<exists>us. xs = us @ a # vs \<and> relinked (set us) g h \<and> chains K h m arr (set us) \<and> length arr = 2 ^ Suc k"
    then obtain us where I: "xs = us @ a # vs" "relinked (set us) g h" "chains K h m arr (set us)" "length arr = 2 ^ Suc k" by auto
    note f = relinkedD [OF I(2)]
    have a: "a \<notin> set us" "sy_next_symbol g a = fst_of vs None" using t I(1) by (auto simp: tab_ok_def)
    have use': "in_use (Symbol_pool h) h x" if "x \<in> set xs" for x using use [OF that] f by simp
    have slot: "slot_of K h m a < length arr" using hash_slot_less [of _ "Suc k"] by (simp only: slot_of_def m I(4))
    have ins: "wp (chain_insert arr (slot_of K h m a) (Some a)) (\<lambda>arr' h'. chains K h' m arr' (insert a (set us)) \<and> length arr' = length arr \<and>
      relinked (insert a (set us)) h h') h"
      by (rule chain_insert_wp [OF I(3) a(1) refl slot]) (use use' I(1) in auto)
    have "wp (chain_insert arr (slot_of K h m a) (Some a)) (\<lambda>arr' h'. in_use (Symbol_pool h') h' a \<and> sy_next_symbol h' a = fst_of vs None \<and>
      (\<exists>us. xs = us @ vs \<and> relinked (set us) g h' \<and> chains K h' m arr' (set us) \<and> length arr' = 2 ^ Suc k)) h"
    proof (rule wp_mono [OF ins], elim conjE, intro conjI)
      fix arr' h' assume h': "chains K h' m arr' (insert a (set us))" "length arr' = length arr" "relinked (insert a (set us)) h h'"
      show "in_use (Symbol_pool h') h' a" "sy_next_symbol h' a = fst_of vs None"
        using relinkedD [OF h'(3)] use' [of a] I(1) f(7) a(2) by simp_all
      show "\<exists>us. xs = us @ vs \<and> relinked (set us) g h' \<and> chains K h' m arr' (set us) \<and> length arr' = 2 ^ Suc k"
        by (rule exI [of _ "us @ [a]"]) (use relinked_trans [OF I(2) h'(3)] h'(1,2) I(1,4) in \<open>simp add: insert_absorb\<close>)
    qed
    then show "wp (bnd (deref Symbol_pool (fst (Some a, arr))) (\<lambda>a'. bnd (gets (\<lambda>g. symbol_hash K g a')) (\<lambda>h.
              bnd (chain_insert (snd (Some a, arr)) (hash_slot h m) (fst (Some a, arr))) (\<lambda>new_hash.
              bnd (rd Symbol_pool sy_next_symbol (fst (Some a, arr))) (\<lambda>next_symbol. ret (next_symbol, new_hash))))))
      (\<lambda>r s'. (\<exists>arr'. r = (fst_of vs None, arr') \<and> (\<exists>us. xs = us @ vs \<and> relinked (set us) g s' \<and> chains K s' m arr' (set us) \<and> length arr' = 2 ^ Suc k)) \<or>
        \<not> fst r \<noteq> None \<and> relinked (set xs) g s' \<and> chains K s' m (snd r) (set xs) \<and> length (snd r) = 2 ^ Suc k) h"
      using use' [of a] I(1) by (auto simp: slot_of_def elim: wp_mono)
  qed (use relinked_refl chains_empty in auto)

lemma resize_run:
  assumes t: "tab_ok K g E t xs" and k: "geometry g t k" "k < 30" and tu: "in_use (Symbol_Table_pool g) g t"
    and use: "\<And>x. x \<in> set xs \<Longrightarrow> in_use (Symbol_pool g) g x"
  shows "wp (resize_symbol_table K (Some t)) (\<lambda>_ g'. \<exists>h arr. relinked (set xs) g h \<and> chains K h (2 ^ Suc k - 1) arr (set xs) \<and>
    length arr = 2 ^ Suc k \<and> g' = resized t (Suc k) arr h) g"
proof -
  have le: "(2 :: int) ^ Suc k \<le> 2 ^ 30" using k(2) by (intro power_increasing) auto
  have n: "tb_hash_size g t * 2 = 2 ^ Suc k" "\<not> (2 :: int) ^ Suc k > 2147483647" "nat (2 ^ Suc k) = 2 ^ Suc k"
    using k le by (simp_all add: geometry_def nat_power_eq nat_mult_distrib)
  have q: "drop_bit 2 (2 ^ Suc k :: int) = 2 ^ (Suc k - 2)"
  proof -
    have "Suc k = 2 + (Suc k - 2)" using k(1) by (simp add: geometry_def)
    then have "(2 :: int) ^ Suc k = 4 * 2 ^ (Suc k - 2)" by (metis power_add power2_eq_square numeral_Bit0 mult_2 one_add_one)
    then show ?thesis by (simp add: drop_bit_eq_div)
  qed
  have head: "tb_head_symbol g t = fst_of xs None" using t by (simp add: tab_ok_def)
  note loop = resize_loop [OF t refl use, of k]
  show ?thesis
    using tu by (simp del: power_Suc add: resize_symbol_table_def Let_def new_hash_array_def n q head)
      (rule wp_mono [OF loop], auto simp: resized_def relinkedD simp del: power_Suc)
qed

end

end
