(* ===== verification/Symbol_Library.thy ===== *)
theory Symbol_Library
  imports Symbol_Lookup
begin

text \<open>
  The library of symbol tables as a whole: \<open>sym_holds K g A\<close> says that all the tables in use are well-formed and disjoint, that every
  symbol in use belongs to one, and that \<open>A\<close> gives the keys and data of each. The lemmas \<open>open_table\<close> and
  \<open>close_table\<close> reduce the proof about an operation to the table it works on.
\<close>

definition same_sym :: "'k sym_lib \<Rightarrow> 'k sym_lib \<Rightarrow> nat \<Rightarrow> bool" where
  "same_sym g' g x \<longleftrightarrow> sy_key g' x = sy_key g x \<and> sy_hash_val g' x = sy_hash_val g x \<and> sy_data g' x = sy_data g x \<and>
     sy_table g' x = sy_table g x \<and> sy_next_hash g' x = sy_next_hash g x \<and> sy_prev_hash g' x = sy_prev_hash g x \<and>
     sy_next_symbol g' x = sy_next_symbol g x \<and> sy_prev_symbol g' x = sy_prev_symbol g x"

definition same_tab :: "'k sym_lib \<Rightarrow> 'k sym_lib \<Rightarrow> nat \<Rightarrow> bool" where
  "same_tab g' g t \<longleftrightarrow> tb_hash g' t = tb_hash g t \<and> tb_hash_size g' t = tb_hash_size g t \<and> tb_hash_mask g' t = tb_hash_mask g t \<and>
     tb_resize_size g' t = tb_resize_size g t \<and> tb_head_symbol g' t = tb_head_symbol g t \<and>
     tb_tail_symbol g' t = tb_tail_symbol g t \<and> tb_symbol_count g' t = tb_symbol_count g t"

lemma tab_ok_cong:
  assumes "tab_ok K g E t xs" "\<And>x. x \<in> set xs \<Longrightarrow> same_sym g' g x" "same_tab g' g t" "set xs \<subseteq> E'"
  shows "tab_ok K g' E' t xs"
proof -
  note d = tab_okD [OF assms(1)]
  have dll: "dll (sy_next_symbol g') (sy_prev_symbol g') None xs None = dll (sy_next_symbol g) (sy_prev_symbol g) None xs None"
    by (rule dll_cong) (use assms(2) in \<open>auto simp: same_sym_def\<close>)
  have ch: "chains K g' (tb_hash_mask g t) (tb_hash g t) (set xs)"
    by (rule chains_cong [OF _ d(7)]) (use assms(2) in \<open>simp add: same_sym_def symbol_hash_def\<close>)
  have inj: "inj_on (sy_key g') (set xs)" using d(8) assms(2) by (auto simp: inj_on_def same_sym_def)
  have hv: "hashed K g' (set xs)" using d(9) assms(2) by (auto simp: hashed_def same_sym_def)
  have tab: "\<forall>x\<in>set xs. sy_table g' x = Some t" using d(10) assms(2) by (auto simp: same_sym_def)
  have geo: "\<exists>k. geometry g' t k" using assms(1,3) by (auto simp: tab_ok_def geometry_def same_tab_def)
  show ?thesis
    using d(1-6) dll ch inj hv tab geo assms(3,4) unfolding tab_ok_def by (simp add: same_tab_def)
qed

section \<open>The library\<close>

definition tables_ok :: "'k sym_kind \<Rightarrow> 'k sym_lib \<Rightarrow> nat set \<Rightarrow> nat set \<Rightarrow> (nat \<Rightarrow> nat list) \<Rightarrow> bool" where
  "tables_ok K g T E L \<longleftrightarrow> (\<forall>t\<in>T. tab_ok K g E t (L t)) \<and> (\<forall>t\<in>T. \<forall>u\<in>T. t \<noteq> u \<longrightarrow> set (L t) \<inter> set (L u) = {}) \<and>
     E = (\<Union>t\<in>T. set (L t))"

definition entry :: "'k sym_lib \<Rightarrow> nat \<Rightarrow> 'k \<times> int" where
  "entry g x = (sy_key g x, sy_data g x)"

definition entries :: "'k sym_lib \<Rightarrow> nat set \<Rightarrow> (nat \<Rightarrow> nat list) \<Rightarrow> nat \<Rightarrow> ('k \<times> int) list option" where
  "entries g T L t = (if t \<in> T then Some (map (entry g) (L t)) else None)"

definition sym_pools :: "'k sym_lib \<Rightarrow> nat \<Rightarrow> nat \<Rightarrow> bool" where
  "sym_pools g tp sp \<longleftrightarrow> Symbol_Table_pool g = Some tp \<and> Symbol_pool g = Some sp \<and> tp \<noteq> sp \<and> pool_in tp g \<and> pool_in sp g"

definition sym_holds :: "'k sym_kind \<Rightarrow> 'k sym_lib \<Rightarrow> (nat \<Rightarrow> ('k \<times> int) list option) \<Rightarrow> bool" where
  "sym_holds K g A \<longleftrightarrow> Symbol_Table_pool g = None \<and> Symbol_pool g = None \<and> A = Map.empty \<or>
     (\<exists>tp sp L. sym_pools g tp sp \<and> tables_ok K g (pool_used tp g) (pool_used sp g) L \<and> A = entries g (pool_used tp g) L)"

definition opened_table :: "'k sym_kind \<Rightarrow> 'k sym_lib \<Rightarrow> (nat \<Rightarrow> ('k \<times> int) list option) \<Rightarrow> nat \<Rightarrow> nat \<Rightarrow> nat \<Rightarrow> nat list \<Rightarrow> bool" where
  "opened_table K g A t tp sp xs \<longleftrightarrow> sym_pools g tp sp \<and> t \<in> pool_used tp g \<and> tab_ok K g (pool_used sp g) t xs \<and>
     (\<exists>L. L t = xs \<and> tables_ok K g (pool_used tp g) (pool_used sp g) L \<and> A = entries g (pool_used tp g) L)"

lemma open_table:
  assumes "sym_holds K g A" "A t = Some l"
  obtains tp sp xs where "opened_table K g A t tp sp xs" "l = map (entry g) xs"
proof -
  obtain tp sp L where h: "sym_pools g tp sp" "tables_ok K g (pool_used tp g) (pool_used sp g) L" "A = entries g (pool_used tp g) L"
    using assms unfolding sym_holds_def by auto
  then have "t \<in> pool_used tp g" "l = map (entry g) (L t)" using assms(2) by (auto simp: entries_def split: if_splits)
  with h that show thesis unfolding opened_table_def tables_ok_def by blast
qed

lemma opened_tableD:
  assumes "opened_table K g A t tp sp xs"
  shows "sym_pools g tp sp" "t \<in> pool_used tp g" "tab_ok K g (pool_used sp g) t xs" "A t = Some (map (entry g) xs)"
    "Symbol_Table_pool g = Some tp" "Symbol_pool g = Some sp"
  using assms by (auto simp: opened_table_def sym_pools_def entries_def)

lemma tables_step:
  assumes ok: "tables_ok K g T E L" "t \<in> T" "tab_ok K g' E' t xs" and E': "E' - set xs = E - set (L t)"
    and e: "\<And>x. x \<in> E \<Longrightarrow> x \<notin> set (L t) \<Longrightarrow> same_sym g' g x"
    and tb: "\<And>u. u \<in> T \<Longrightarrow> u \<noteq> t \<Longrightarrow> same_tab g' g u"
  shows "tables_ok K g' T E' (L(t := xs))" "entries g' T (L(t := xs)) = (entries g T L)(t \<mapsto> map (entry g') xs)"
proof -
  have sub: "set (L u) \<subseteq> E" if "u \<in> T" for u using ok(1) that by (auto simp: tables_ok_def)
  have d: "set (L u) \<inter> set (L t) = {}" if "u \<in> T" "u \<noteq> t" for u using that ok by (auto simp: tables_ok_def)
  have out: "x \<in> E" "x \<notin> set (L t)" "x \<in> E'" "x \<notin> set xs" if "u \<in> T" "u \<noteq> t" "x \<in> set (L u)" for u x
    using d [OF that(1,2)] sub [OF that(1)] that(3) E' by blast+
  have cell: "tab_ok K g' E' u (L u)" if "u \<in> T" "u \<noteq> t" for u
    by (rule tab_ok_cong [of K g E]) (use ok(1) that out [OF that] e tb in \<open>auto simp: tables_ok_def\<close>)
  have "E' = set xs \<union> (E - set (L t))" using tab_okD(2) [OF ok(3)] E' by auto
  moreover have "E - set (L t) = (\<Union>u\<in>T - {t}. set (L u))" using ok(1,2) d by (auto simp: tables_ok_def)
  ultimately have "E' = (\<Union>u\<in>T. set ((L(t := xs)) u))" using ok(2) by (auto split: if_splits)
  then show "tables_ok K g' T E' (L(t := xs))"
    using ok cell out unfolding tables_ok_def by (auto 0 4)
  show "entries g' T (L(t := xs)) = (entries g T L)(t \<mapsto> map (entry g') xs)"
    using ok(2) out e by (auto simp: entries_def fun_eq_iff entry_def same_sym_def)
qed

lemma opened_holds: "opened_table K g A t tp sp xs \<Longrightarrow> sym_holds K g A"
  unfolding opened_table_def sym_holds_def by blast

lemma reopen_table:
  assumes "opened_table K g A t tp sp xs"
    and "sym_pools g' tp sp" "pool_used tp g' = pool_used tp g" "tab_ok K g' (pool_used sp g') t ys"
      "pool_used sp g' - set ys = pool_used sp g - set xs"
    and "\<And>x. x \<in> pool_used sp g \<Longrightarrow> x \<notin> set xs \<Longrightarrow> same_sym g' g x"
    and "\<And>u. u \<noteq> t \<Longrightarrow> same_tab g' g u"
    and "A' = A(t \<mapsto> map (entry g') ys)"
  shows "opened_table K g' A' t tp sp ys"
proof -
  obtain L where L: "L t = xs" "t \<in> pool_used tp g" "tables_ok K g (pool_used tp g) (pool_used sp g) L"
    "A = entries g (pool_used tp g) L" using assms(1) by (auto simp: opened_table_def)
  note st = tables_step [OF L(3,2) assms(4) _ _ assms(7), unfolded L(1), OF assms(5,6)]
  show ?thesis unfolding opened_table_def
    by (intro conjI exI [of _ "L(t := ys)"]) (use st assms(2,3,4,8) L(2,4) in simp_all)
qed

lemmas close_table = opened_holds [OF reopen_table]

section \<open>Allocation\<close>

lemma sym_more:
  assumes "alloc_lib.more g' = alloc_lib.more (g :: 'k sym_lib)"
  shows "Symbol_Table_pool g' = Symbol_Table_pool g" "Symbol_pool g' = Symbol_pool g" "same_sym g' g x" "same_tab g' g t"
    "freed_data g' = freed_data g"
  using assms by (cases g; cases g'; simp add: same_sym_def same_tab_def)+

definition same_mem :: "'k sym_lib \<Rightarrow> 'k sym_lib \<Rightarrow> bool" where
  "same_mem g' g \<longleftrightarrow> alloc_lib.more g' = alloc_lib.more g"

lemma sym_pool_frame:
  assumes "sym_pools g tp sp" "p = tp \<and> q = sp \<or> p = sp \<and> q = tp" "pool_rest p g' = pool_rest p g" "pool_in p g'"
  shows "sym_pools g' tp sp" "pool_used q g' = pool_used q g" "same_mem g' g"
proof -
  have "q \<noteq> p" using assms(1,2) by (auto simp: sym_pools_def)
  note o = pool_rest_other [OF assms(3) this] and m = sym_more [OF pool_rest_more [OF assms(3)]]
  show "sym_pools g' tp sp" using assms o(2) m(1,2) by (auto simp: sym_pools_def)
  show "pool_used q g' = pool_used q g" by (rule o(1))
  show "same_mem g' g" unfolding same_mem_def by (rule pool_rest_more [OF assms(3)])
qed

lemma sym_alloc:
  assumes "sym_pools g tp sp" "p = tp \<and> q = sp \<or> p = sp \<and> q = tp"
  shows "wp (L_alloc (Some p)) (\<lambda>a g'. sym_pools g' tp sp \<and> a \<notin> pool_used p g \<and>
    pool_used p g' = insert a (pool_used p g) \<and> pool_used q g' = pool_used q g \<and> same_mem g' g) g"
proof -
  have "pool_in p g" using assms by (auto simp: sym_pools_def)
  then show ?thesis by (rule wp_mono [OF pool.alloc]) (use sym_pool_frame [OF assms] in blast)
qed

lemma sym_free:
  assumes "sym_pools g tp sp" "p = tp \<and> q = sp \<or> p = sp \<and> q = tp" "a \<in> pool_used p g"
  shows "wp (L_free (Some p) (Some a)) (\<lambda>_ g'. sym_pools g' tp sp \<and>
    pool_used p g' = pool_used p g - {a} \<and> pool_used q g' = pool_used q g \<and> same_mem g' g) g"
proof -
  have "pool_in p g" using assms by (auto simp: sym_pools_def)
  then show ?thesis by (rule wp_mono [OF pool.dealloc [OF _ assms(3)]]) (use sym_pool_frame [OF assms(1,2)] in blast)
qed

section \<open>Looking up\<close>

lemma use_symbols: "opened_table K g A t tp sp xs \<Longrightarrow> x \<in> set xs \<Longrightarrow> in_use (Symbol_pool g) g x"
  using opened_tableD [of K g A t tp sp xs] tab_okD(2) by (fastforce simp: in_use_eq)

lemma use_table: "opened_table K g A t tp sp xs \<Longrightarrow> in_use (Symbol_Table_pool g) g t"
  using opened_tableD [of K g A t tp sp xs] by (simp add: in_use_eq)

lemma opened_slot:
  assumes "opened_table K g A t tp sp xs"
  shows "hash_slot w (tb_hash_mask g t) < length (tb_hash g t)"
proof -
  obtain k where "geometry g t k" using opened_tableD(3) [OF assms] by (auto simp: tab_ok_def)
  then show ?thesis by (rule geometry_slot)
qed

context symbol_keys begin

text \<open>\<open>find_symbol\<close> returns the symbol of the key, or NULL.\<close>

definition found_symbol :: "'k sym_lib \<Rightarrow> 'k \<Rightarrow> nat list \<Rightarrow> nat option \<Rightarrow> bool" where
  "found_symbol g key xs r \<longleftrightarrow> (case r of None \<Rightarrow> key \<notin> sy_key g ` set xs | Some a \<Rightarrow> a \<in> set xs \<and> sy_key g a = key)"

lemma find_symbol_wp:
  assumes o: "opened_table K g A t tp sp xs" and "\<not> k_refused K key"
  shows "wp (find_symbol K (Some t) key) (\<lambda>r g'. g' = g \<and> found_symbol g key xs r) g"
  unfolding find_symbol_def using assms(2) use_table [OF o] opened_slot [OF o]
    search_table [OF opened_tableD(3) [OF o] use_symbols [OF o], of key]
  by (auto simp: found_symbol_def elim: wp_mono)

lemma map_of_found:
  assumes "inj_on (sy_key g) (set xs)" "found_symbol g key xs r"
  shows "map_of (map (entry g) xs) key = (case r of None \<Rightarrow> None | Some a \<Rightarrow> Some (sy_data g a))"
  using assms
proof (induction xs)
  case (Cons x xs)
  show ?case
  proof (cases "sy_key g x = key")
    case True
    moreover have "r = Some x"
    proof (cases r)
      case (Some a)
      then have "a \<in> set (x # xs)" "sy_key g a = sy_key g x" using Cons.prems(2) True by (simp_all add: found_symbol_def)
      with Some inj_onD [OF Cons.prems(1), of a x] show ?thesis by simp
    qed (use Cons.prems(2) True in \<open>simp add: found_symbol_def\<close>)
    ultimately show ?thesis by (simp add: entry_def)
  next
    case False
    then have "found_symbol g key xs r" using Cons.prems(2) by (auto simp: found_symbol_def split: option.splits)
    with False Cons show ?thesis by (auto simp: entry_def)
  qed
qed (auto simp: found_symbol_def split: option.splits)

lemma find_symbol_data_wp:
  assumes "sym_holds K g A" "A t = Some l" "\<not> k_refused K key"
  shows "wp (find_symbol_data K (Some t) key) (\<lambda>r g'. g' = g \<and> r = (case map_of l key of None \<Rightarrow> 0 | Some d \<Rightarrow> d)) g"
proof -
  from assms(1,2) obtain tp sp xs where o: "opened_table K g A t tp sp xs" and l: "l = map (entry g) xs" by (rule open_table)
  have "wp (search_chain K key (tb_hash g t ! hash_slot (k_hash K key) (tb_hash_mask g t)))
    (\<lambda>r g'. g' = g \<and> found_symbol g key xs (snd r)) g"
    using search_table [OF opened_tableD(3) [OF o] use_symbols [OF o], of key] by (simp add: found_symbol_def)
  then have "wp (search_chain K key (tb_hash g t ! hash_slot (k_hash K key) (tb_hash_mask g t)))
    (\<lambda>r g'. g' = g \<and> found_symbol g key xs (snd r) \<and> map_of l key = (case snd r of None \<Rightarrow> None | Some a \<Rightarrow> Some (sy_data g a))) g"
    by (rule wp_mono) (use map_of_found [OF tab_okD(8) [OF opened_tableD(3) [OF o]]] l in auto)
  then show ?thesis
    unfolding find_symbol_data_def using assms(3) use_table [OF o] opened_slot [OF o]
    by (auto elim!: wp_mono simp: found_symbol_def use_symbols [OF o] split: option.splits)
qed

end

end
