(* ===== verification/Symbol_Update.thy ===== *)
theory Symbol_Update
  imports Symbol_Library
begin

text \<open>The operations that change a table: adding, with the resizing it may need, and deleting.\<close>

lemma bnd_run: "m s = Inr (x, s') \<Longrightarrow> bnd m f s = f x s'"
  by (simp add: bnd_def)

lemma rd_run: "in_use (P g) g a \<Longrightarrow> rd P f (Some a) g = Inr (f g a, g)"
  by (simp add: rd_def deref_def bnd_def gets_def ret_def)

lemma array_get_run: "i < length xs \<Longrightarrow> array_get (Some xs) i s = Inr (xs ! i, s)"
  by (simp add: array_get_def ret_def)

section \<open>Adding\<close>

definition appended :: "nat \<Rightarrow> nat \<Rightarrow> nat list \<Rightarrow> 'k sym_lib \<Rightarrow> 'k sym_lib" where
  "appended t a xs g = g\<lparr>sy_next_symbol := link ((sy_next_symbol g)(a := None)) (lst_of xs None) (Some a),
     sy_prev_symbol := (sy_prev_symbol g)(a := lst_of xs None),
     tb_head_symbol := (tb_head_symbol g)(t := fst_of (xs @ [a]) None), tb_tail_symbol := (tb_tail_symbol g)(t := Some a)\<rparr>"

lemma append_run:
  assumes "tb_head_symbol g t = fst_of xs None" "tb_tail_symbol g t = lst_of xs None" "in_use (Symbol_Table_pool g) g t"
    "in_use (Symbol_pool g) g a" "\<And>x. x \<in> set xs \<Longrightarrow> in_use (Symbol_pool g) g x"
  shows "wp (append_symbol (Some t) (Some a)) (\<lambda>_ g'. g' = appended t a xs g) g"
  using assms by (cases xs rule: rev_cases) (auto simp: append_symbol_def appended_def fun_upd_idem comp_def)

lemma appended_dll:
  assumes "distinct xs" "dll (sy_next_symbol g) (sy_prev_symbol g) None xs None" "a \<notin> set xs"
  shows "dll (sy_next_symbol (appended t a xs g)) (sy_prev_symbol (appended t a xs g)) None (xs @ [a]) None"
proof -
  have "link ((sy_next_symbol g)(a := None)) (lst_of xs None) (Some a) = (link (sy_next_symbol g) (lst_of xs None) (Some a))(a := None)"
    using assms(3) by (cases xs rule: rev_cases) (auto simp: fun_upd_twist)
  then show ?thesis using dll_push_back [OF assms] by (simp add: appended_def)
qed

text \<open>The state after the fields of the new symbol are set and before the search of the chain.\<close>

definition filled :: "'k sym_kind \<Rightarrow> nat \<Rightarrow> nat \<Rightarrow> 'k \<Rightarrow> int \<Rightarrow> nat list \<Rightarrow> 'k sym_lib \<Rightarrow> 'k sym_lib" where
  "filled K t a key data xs g =
     (let h = appended t a xs (g\<lparr>sy_key := (sy_key g)(a := key), sy_data := (sy_data g)(a := data), sy_table := (sy_table g)(a := Some t)\<rparr>) in
      if k_stored K then h\<lparr>sy_hash_val := (sy_hash_val g)(a := k_hash K key)\<rparr> else h)"

lemma filled_simps [simp]:
  "sy_key (filled K t a key data xs g) = (sy_key g)(a := key)" "sy_data (filled K t a key data xs g) = (sy_data g)(a := data)"
  "sy_table (filled K t a key data xs g) = (sy_table g)(a := Some t)"
  "sy_hash_val (filled K t a key data xs g) = (if k_stored K then (sy_hash_val g)(a := k_hash K key) else sy_hash_val g)"
  "sy_next_hash (filled K t a key data xs g) = sy_next_hash g" "sy_prev_hash (filled K t a key data xs g) = sy_prev_hash g"
  "sy_next_symbol (filled K t a key data xs g) = sy_next_symbol (appended t a xs g)"
  "sy_prev_symbol (filled K t a key data xs g) = sy_prev_symbol (appended t a xs g)"
  "tb_hash (filled K t a key data xs g) = tb_hash g" "tb_hash_size (filled K t a key data xs g) = tb_hash_size g"
  "tb_hash_mask (filled K t a key data xs g) = tb_hash_mask g" "tb_resize_size (filled K t a key data xs g) = tb_resize_size g"
  "tb_symbol_count (filled K t a key data xs g) = tb_symbol_count g"
  "tb_head_symbol (filled K t a key data xs g) = (tb_head_symbol g)(t := fst_of (xs @ [a]) None)"
  "tb_tail_symbol (filled K t a key data xs g) = (tb_tail_symbol g)(t := Some a)"
  "pool_mem (filled K t a key data xs g) = pool_mem g" "in_use P (filled K t a key data xs g) = in_use P g"
  "Symbol_pool (filled K t a key data xs g) = Symbol_pool g" "Symbol_Table_pool (filled K t a key data xs g) = Symbol_Table_pool g"
  by (simp_all add: filled_def Let_def appended_def)

lemma fill_run:
  assumes "tb_head_symbol g t = fst_of xs None" "tb_tail_symbol g t = lst_of xs None" "in_use (Symbol_Table_pool g) g t"
    "in_use (Symbol_pool g) g a" "\<And>x. x \<in> set xs \<Longrightarrow> in_use (Symbol_pool g) g x"
  shows "fill_symbol K (Some t) key data (Some a) g = Inr ((), filled K t a key data xs g)"
proof -
  define h where "h = g\<lparr>sy_key := (sy_key g)(a := key), sy_data := (sy_data g)(a := data), sy_table := (sy_table g)(a := Some t)\<rparr>"
  have h: "sy_table_update (\<lambda>f. f(a := Some t)) (sy_data_update (\<lambda>f. f(a := data)) (sy_key_update (\<lambda>f. f(a := key)) g)) = h"
    by (simp add: h_def)
  have "wp (append_symbol (Some t) (Some a)) (\<lambda>_ g'. g' = appended t a xs h) h"
    by (rule append_run) (use assms in \<open>simp_all add: h_def\<close>)
  then have app: "wp (append_symbol (Some t) (Some a)) Q h = Q () (appended t a xs h)" for Q by (auto simp: wp_run)
  have "wp (fill_symbol K (Some t) key data (Some a)) (\<lambda>_ g'. g' = filled K t a key data xs g) g"
    unfolding fill_symbol_def using assms(4)
    by (simp add: h app) (simp add: filled_def Let_def h_def appended_def)
  then show ?thesis by (simp add: wp_run)
qed

definition entered :: "'k sym_kind \<Rightarrow> 'k sym_lib \<Rightarrow> nat \<Rightarrow> nat \<Rightarrow> 'k \<Rightarrow> int \<Rightarrow> int \<Rightarrow> nat list \<Rightarrow> nat \<Rightarrow> nat \<Rightarrow> 'k sym_lib \<Rightarrow> bool" where
  "entered K g t a key data n xs tp sp g' \<longleftrightarrow> (\<exists>s h arr. sym_pools s tp sp \<and> pool_used sp s = insert a (pool_used sp g) \<and>
       pool_used tp s = pool_used tp g \<and> same_mem s g \<and> relinked (insert a (set xs)) (filled K t a key data xs s) h \<and>
       length arr = length (tb_hash g t) \<and> chains K h (tb_hash_mask g t) arr (insert a (set xs)) \<and>
       g' = tb_symbol_count_update (\<lambda>f. f(t := n + 1)) (tb_hash_update (\<lambda>f. f(t := arr)) h))"

lemma relinked_freed: "relinked S g h \<Longrightarrow> freed_data h = freed_data g"
  by (auto simp: relinked_def)

lemma filled_freed: "freed_data (filled K t a key data xs g) = freed_data g"
  by (simp add: filled_def Let_def appended_def)

lemma entered_freed: "entered K g t a key data n xs tp sp g' \<Longrightarrow> freed_data g' = freed_data g"
  unfolding entered_def same_mem_def
  by (elim exE conjE) (drule relinked_freed, drule sym_more(5), simp add: filled_freed)

context symbol_keys begin

text \<open>The new symbol has its place on the list, and the chains still have the old symbols only.\<close>

lemma enter_run:
  assumes o: "opened_table K g A t tp sp xs"
  shows "\<exists>a. a \<notin> pool_used sp g \<and>
    (if key \<in> sy_key g ` set xs then enter_symbol K (Some t) key data n g = Inl (Punt (k_prefix K @ ''_add_symbol''))
     else wp (enter_symbol K (Some t) key data n) (\<lambda>r g'. r = Some a \<and> entered K g t a key data n xs tp sp g') g)"
proof -
  note d = tab_okD [OF opened_tableD(3) [OF o]]
  note sp = opened_tableD(6) [OF o]
  obtain a s where run: "L_alloc (Some sp) g = Inr (a, s)" and s: "sym_pools s tp sp" "a \<notin> pool_used sp g" "pool_used sp s = insert a (pool_used sp g)"
    "pool_used tp s = pool_used tp g" "same_mem s g"
    using sym_alloc [OF opened_tableD(1) [OF o], of sp tp] by (auto simp: wp_run)
  note m = sym_more [OF s(5) [unfolded same_mem_def]]
  have mt: "tb_head_symbol s t = fst_of xs None" "tb_tail_symbol s t = lst_of xs None" "tb_hash s t = tb_hash g t" "tb_hash_mask s t = tb_hash_mask g t"
    using m(4) [of t] d(4,5) by (simp_all add: same_tab_def)
  have ms: "sy_key s x = sy_key g x" "sy_hash_val s x = sy_hash_val g x" "sy_next_hash s x = sy_next_hash g x" "sy_prev_hash s x = sy_prev_hash g x" for x
    using m(3) [of x] by (simp_all add: same_sym_def)
  have new: "a \<notin> set xs" using d(2) s(2) by auto
  have us: "in_use (Symbol_Table_pool s) s t" "in_use (Symbol_pool s) s a" "x \<in> set xs \<Longrightarrow> in_use (Symbol_pool s) s x" for x
    using s opened_tableD [OF o] d(2) m(1,2) by (auto simp: in_use_eq)
  define f where "f = filled K t a key data xs s"
  let ?i = "hash_slot (k_hash K key) (tb_hash_mask g t)" and ?arr = "tb_hash g t" and ?m = "tb_hash_mask g t"
  have ch: "chains K f ?m ?arr (set xs)"
    by (rule chains_cong [OF _ d(7)]) (use new ms in \<open>auto simp: f_def symbol_hash_def\<close>)
  have hv: "hashed K f (set xs)" using d(9) new ms by (auto simp: hashed_def f_def)
  have keys: "sy_key f ` set xs = sy_key g ` set xs" using new ms by (auto simp: f_def)
  have i: "?i < length ?arr" by (rule opened_slot [OF o])
  have fu: "in_use (Symbol_pool f) f a" "in_use (Symbol_Table_pool f) f t" "x \<in> set xs \<Longrightarrow> in_use (Symbol_pool f) f x" for x
    using us by (auto simp: f_def)
  have slot: "slot_of K f ?m a = ?i" by (simp add: slot_of_def symbol_hash_def f_def)
  obtain r where search: "search_chain K key (?arr ! ?i) f = Inr (r, f)" and
    r: "case snd r of None \<Rightarrow> key \<notin> sy_key g ` set xs | Some b \<Rightarrow> b \<in> set xs \<and> sy_key f b = key"
    using search_array [OF ch hv i fu(3)] unfolding wp_run keys by fastforce
  have fill: "fill_symbol K (Some t) key data (Some a) s = Inr ((), f)"
    unfolding f_def by (rule fill_run [OF mt(1,2) us])
  have fm: "tb_hash f t = ?arr" "tb_hash_mask f t = ?m" using mt by (simp_all add: f_def)
  have rd_t: "rd Symbol_Table_pool q (Some t) f = Inr (q f t, f)" for q by (rule rd_run) (rule fu(2))
  have arr_i: "array_get (Some ?arr) ?i f = Inr (?arr ! ?i, f)" by (rule array_get_run) (rule i)
  have start: "enter_symbol K (Some t) key data n g = (if snd r \<noteq> None then fail (Punt (k_prefix K @ ''_add_symbol''))
     else bnd (chain_insert ?arr ?i (Some a)) (\<lambda>hash. bnd (wr Symbol_Table_pool tb_hash_update (Some t) hash) (\<lambda>_.
       bnd (wr Symbol_Table_pool tb_symbol_count_update (Some t) (n + 1)) (\<lambda>_. ret (Some a))))) f"
    unfolding enter_symbol_def
    by (subst bnd_run [of "gets Symbol_pool" g "Some sp" g], simp add: gets_def sp,
      subst bnd_run [of "L_alloc (Some sp)" g, OF run], subst bnd_run [of "fill_symbol K (Some t) key data (Some a)" s, OF fill],
      subst bnd_run [of "rd Symbol_Table_pool tb_hash_mask (Some t)" f, OF rd_t], subst bnd_run [of "rd Symbol_Table_pool tb_hash (Some t)" f, OF rd_t],
      unfold fm, subst bnd_run [of "array_get (Some ?arr) ?i" f, OF arr_i],
      subst bnd_run [of "search_chain K key (?arr ! ?i)" f, OF search], rule refl)
  have ins: "wp (chain_insert ?arr ?i (Some a)) (\<lambda>arr' h. chains K h ?m arr' (insert a (set xs)) \<and> length arr' = length ?arr \<and>
    relinked (insert a (set xs)) f h) f"
    by (rule chain_insert_wp [OF ch new slot i fu(1,3)])
  define r' where "r' = snd r"
  show ?thesis
  proof (intro exI [of _ a] conjI, rule s(2))
    show "if key \<in> sy_key g ` set xs then enter_symbol K (Some t) key data n g = Inl (Punt (k_prefix K @ ''_add_symbol''))
     else wp (enter_symbol K (Some t) key data n) (\<lambda>r g'. r = Some a \<and> entered K g t a key data n xs tp sp g') g"
    proof (cases r')
      case (Some b)
      then have "key \<in> sy_key g ` set xs" using r keys by (force simp: r'_def)
      with Some show ?thesis by (simp add: start r'_def [symmetric] fail_def)
    next
      case None
      have "wp (bnd (chain_insert ?arr ?i (Some a)) (\<lambda>hash. bnd (wr Symbol_Table_pool tb_hash_update (Some t) hash) (\<lambda>_.
         bnd (wr Symbol_Table_pool tb_symbol_count_update (Some t) (n + 1)) (\<lambda>_. ret (Some a)))))
        (\<lambda>r g'. r = Some a \<and> entered K g t a key data n xs tp sp g') f"
      proof (rule wp_seq [OF ins], elim conjE)
        fix arr h assume h: "chains K h ?m arr (insert a (set xs))" "length arr = length ?arr" "relinked (insert a (set xs)) f h"
        have "entered K g t a key data n xs tp sp (tb_symbol_count_update (\<lambda>f. f(t := n + 1)) (tb_hash_update (\<lambda>f. f(t := arr)) h))"
          unfolding entered_def by (intro exI [of _ s] exI [of _ h] exI [of _ arr]) (use h s in \<open>simp add: f_def\<close>)
        then show "wp (bnd (wr Symbol_Table_pool tb_hash_update (Some t) arr) (\<lambda>_.
           bnd (wr Symbol_Table_pool tb_symbol_count_update (Some t) (n + 1)) (\<lambda>_. ret (Some a))))
          (\<lambda>r g'. r = Some a \<and> entered K g t a key data n xs tp sp g') h"
          using fu(2) h(3) by (simp add: relinkedD)
      qed
      moreover have "key \<notin> sy_key g ` set xs" using None r by (simp add: r'_def)
      ultimately show ?thesis using None unfolding wp_def start r'_def [symmetric] by simp
    qed
  qed
qed

lemma entered_opened:
  assumes o: "opened_table K g A t tp sp xs" and e: "entered K g t a key data (int (length xs)) xs tp sp g'"
    and a: "a \<notin> pool_used sp g" and key: "key \<notin> sy_key g ` set xs"
  shows "opened_table K g' (A(t \<mapsto> map (entry g) xs @ [(key, data)])) t tp sp (xs @ [a])"
proof -
  note d = tab_okD [OF opened_tableD(3) [OF o]]
  obtain s h arr where s: "sym_pools s tp sp" "pool_used sp s = insert a (pool_used sp g)" "pool_used tp s = pool_used tp g" "same_mem s g"
    and h: "relinked (insert a (set xs)) (filled K t a key data xs s) h" and arr: "length arr = length (tb_hash g t)"
    "chains K h (tb_hash_mask g t) arr (insert a (set xs))"
    and g': "g' = tb_symbol_count_update (\<lambda>f. f(t := int (length xs) + 1)) (tb_hash_update (\<lambda>f. f(t := arr)) h)"
    using e unfolding entered_def by blast
  note m = sym_more [OF s(4) [unfolded same_mem_def]]
  note ms = m(3) [unfolded same_sym_def] and mt = m(4) [unfolded same_tab_def]
  note hD = relinkedD [OF h]
  have new: "a \<notin> set xs" using d(2) a by auto
  have pm: "pool_mem g' = pool_mem s" using hD(20) by (simp add: g')
  have pools: "sym_pools g' tp sp" "pool_used tp g' = pool_used tp g" "pool_used sp g' = insert a (pool_used sp g)"
    using s pm hD(18,19) by (simp_all add: sym_pools_def pool_in_def pool_used_def g')
  have dll: "dll (sy_next_symbol g') (sy_prev_symbol g') None (xs @ [a]) None"
  proof -
    have "dll (sy_next_symbol s) (sy_prev_symbol s) None xs None"
      using d(3) ms by (subst dll_cong [of xs _ "sy_next_symbol g" _ "sy_prev_symbol g"]) auto
    from appended_dll [OF d(1) this new, of t] show ?thesis using hD(7,8) by (simp add: g')
  qed
  have ch: "chains K g' (tb_hash_mask g' t) (tb_hash g' t) (set (xs @ [a]))"
  proof -
    have "chains K g' (tb_hash_mask g t) arr (insert a (set xs))" by (rule chains_cong [OF _ arr(2)]) (simp add: g' symbol_hash_def)
    then show ?thesis using hD(12) mt by (simp add: g')
  qed
  have inj: "inj_on (sy_key g') (set (xs @ [a]))" using d(8) hD(3) ms new key by (auto simp: g' inj_on_def)
  have hv: "hashed K g' (set (xs @ [a]))" using d(9) hD(3,4) ms new by (auto simp: g' hashed_def)
  have tab: "\<forall>x\<in>set (xs @ [a]). sy_table g' x = Some t" using d(10) hD(6) ms by (auto simp: g')
  have geo: "\<exists>k. geometry g' t k"
    using opened_tableD(3) [OF o] hD(11-13) mt arr(1) by (auto simp: tab_ok_def geometry_def g')
  have ends: "tb_head_symbol g' t = fst_of (xs @ [a]) None" "tb_tail_symbol g' t = lst_of (xs @ [a]) None" "tb_symbol_count g' t = int (length (xs @ [a]))"
    using hD(14,15) by (simp_all add: g')
  have "tab_ok K g' (pool_used sp g') t (xs @ [a])"
    unfolding tab_ok_def using d(1,2) new pools(3) dll ch inj hv tab geo ends by auto
  moreover have "same_sym g' g x" if "x \<in> pool_used sp g" "x \<notin> set xs" for x
  proof -
    have "x \<noteq> a" using that a by auto
    moreover have "sy_next_symbol (appended t a xs s) x = sy_next_symbol s x" "sy_prev_symbol (appended t a xs s) x = sy_prev_symbol s x"
      using \<open>x \<noteq> a\<close> that(2) by (simp_all add: appended_def)
    ultimately show ?thesis using that hD ms [of x] by (simp add: same_sym_def g')
  qed
  moreover have "same_tab g' g u" if "u \<noteq> t" for u using that hD mt [of u] by (simp add: same_tab_def g')
  moreover have "map (entry g') (xs @ [a]) = map (entry g) xs @ [(key, data)]"
    using hD(3,5) ms new by (auto simp: entry_def g')
  ultimately show ?thesis
    using pools a d(2) by (intro reopen_table [OF o]) auto
qed

lemma resized_simps [simp]:
  "sy_key (resized t k arr h) = sy_key h" "sy_hash_val (resized t k arr h) = sy_hash_val h" "sy_data (resized t k arr h) = sy_data h"
  "sy_table (resized t k arr h) = sy_table h" "sy_next_hash (resized t k arr h) = sy_next_hash h" "sy_prev_hash (resized t k arr h) = sy_prev_hash h"
  "sy_next_symbol (resized t k arr h) = sy_next_symbol h" "sy_prev_symbol (resized t k arr h) = sy_prev_symbol h"
  "tb_hash (resized t k arr h) = (tb_hash h)(t := arr)" "tb_hash_size (resized t k arr h) = (tb_hash_size h)(t := 2 ^ k)"
  "tb_hash_mask (resized t k arr h) = (tb_hash_mask h)(t := 2 ^ k - 1)"
  "tb_resize_size (resized t k arr h) = (tb_resize_size h)(t := 2 ^ k - 2 ^ (k - 2))"
  "tb_head_symbol (resized t k arr h) = tb_head_symbol h" "tb_tail_symbol (resized t k arr h) = tb_tail_symbol h"
  "tb_symbol_count (resized t k arr h) = tb_symbol_count h" "pool_mem (resized t k arr h) = pool_mem h"
  "Symbol_pool (resized t k arr h) = Symbol_pool h" "Symbol_Table_pool (resized t k arr h) = Symbol_Table_pool h"
  by (simp_all add: resized_def)

lemma resize_wp:
  assumes o: "opened_table K g A t tp sp xs" and k: "geometry g t k" "k < 30"
  shows "wp (resize_symbol_table K (Some t)) (\<lambda>_ g'. opened_table K g' A t tp sp xs \<and> geometry g' t (Suc k) \<and> freed_data g' = freed_data g) g"
proof (rule wp_mono [OF resize_run [OF opened_tableD(3) [OF o] k use_table [OF o] use_symbols [OF o]]], assumption, elim exE conjE)
  fix u g' h arr assume h: "relinked (set xs) g h" "chains K h (2 ^ Suc k - 1) arr (set xs)" "length arr = 2 ^ Suc k" "g' = resized t (Suc k) arr h"
  note d = tab_okD [OF opened_tableD(3) [OF o]]
  note hD = relinkedD [OF h(1)]
  have pools: "sym_pools g' tp sp" "pool_used p g' = pool_used p g" for p
    using opened_tableD(1) [OF o] hD(18-20) by (simp_all add: sym_pools_def pool_in_def pool_used_def h(4))
  have geo: "geometry g' t (Suc k)" using k h(3) by (simp add: geometry_def h(4) del: power_Suc)
  have ch: "chains K g' (tb_hash_mask g' t) (tb_hash g' t) (set xs)"
    by (simp add: h(4) del: power_Suc) (rule chains_cong [OF _ h(2)], simp add: symbol_hash_def)
  have "tab_ok K g' (pool_used sp g') t xs"
    unfolding tab_ok_def using d hD geo ch pools(2) by (auto simp: h(4) hashed_def)
  moreover have "same_sym g' g x" if "x \<notin> set xs" for x using hD that by (simp add: same_sym_def h(4))
  moreover have "same_tab g' g u" if "u \<noteq> t" for u using hD that by (simp add: same_tab_def h(4))
  moreover have "A = A(t \<mapsto> map (entry g') xs)" using opened_tableD(4) [OF o] hD(3,5) by (simp add: entry_def h(4) fun_upd_idem)
  ultimately have "opened_table K g' A t tp sp xs" using pools by (intro reopen_table [OF o]) auto
  moreover have "freed_data g' = freed_data g" using h(1) by (auto simp: relinked_def h(4) resized_def)
  ultimately show "opened_table K g' A t tp sp xs \<and> geometry g' t (Suc k) \<and> freed_data g' = freed_data g" using geo by simp
qed

text \<open>The array is at most three quarters full when a symbol is added.\<close>

lemma add_symbol_run:
  assumes "sym_holds K g A" "A t = Some l" "\<not> k_refused K key" "length l < 3 * 2 ^ 28"
  shows "if key \<in> fst ` set l then add_symbol K (Some t) key data g = Inl (Punt (k_prefix K @ ''_add_symbol''))
    else wp (add_symbol K (Some t) key data) (\<lambda>r g'. r \<noteq> None \<and> sym_holds K g' (A(t \<mapsto> l @ [(key, data)])) \<and> freed_data g' = freed_data g) g"
proof -
  from assms(1,2) obtain tp sp xs where o: "opened_table K g A t tp sp xs" and l: "l = map (entry g) xs" by (rule open_table)
  obtain k where k: "geometry g t k" using opened_tableD(3) [OF o] by (auto simp: tab_ok_def)
  note ut = use_table [OF o]
  have count: "tb_symbol_count g t = int (length xs)" using opened_tableD(3) [OF o] by (simp add: tab_ok_def)
  have "wp (if tb_symbol_count g t \<ge> tb_resize_size g t then resize_symbol_table K (Some t) else ret ())
    (\<lambda>_ g'. opened_table K g' A t tp sp xs \<and> freed_data g' = freed_data g) g"
  proof (cases "tb_symbol_count g t \<ge> tb_resize_size g t")
    case True
    have "k < 30"
    proof (rule ccontr)
      assume "\<not> k < 30"
      then have "k = 30" using k by (simp add: geometry_def)
      then show False using True k count assms(4) l by (simp add: geometry_def)
    qed
    with True show ?thesis using resize_wp [OF o k] by (auto elim: wp_mono)
  qed (use o in simp)
  then obtain u g1 where r: "(if tb_symbol_count g t \<ge> tb_resize_size g t then resize_symbol_table K (Some t) else ret ()) g = Inr (u, g1)"
    and o1: "opened_table K g1 A t tp sp xs" and fd: "freed_data g1 = freed_data g" by (auto simp: wp_run)
  have l1: "l = map (entry g1) xs" using opened_tableD(4) [OF o1] assms(2) by simp
  then have keys: "fst ` set l = sy_key g1 ` set xs" by (auto simp: entry_def image_image)
  have rdt: "rd Symbol_Table_pool q (Some t) g = Inr (q g t, g)" for q by (rule rd_run) (rule ut)
  have run: "add_symbol K (Some t) key data g = enter_symbol K (Some t) key data (int (length xs)) g1"
    unfolding add_symbol_def if_not_P [OF assms(3)]
    by (subst bnd_run [of "rd Symbol_Table_pool tb_symbol_count (Some t)" g, OF rdt], subst bnd_run [of "rd Symbol_Table_pool tb_resize_size (Some t)" g, OF rdt],
      subst bnd_run [of "if tb_symbol_count g t \<ge> tb_resize_size g t then resize_symbol_table K (Some t) else ret ()" g, OF r], simp add: count)
  from enter_run [OF o1, of key data "int (length xs)"] obtain a where a: "a \<notin> pool_used sp g1" and
    e: "if key \<in> sy_key g1 ` set xs then enter_symbol K (Some t) key data (int (length xs)) g1 = Inl (Punt (k_prefix K @ ''_add_symbol''))
     else wp (enter_symbol K (Some t) key data (int (length xs))) (\<lambda>r g'. r = Some a \<and> entered K g1 t a key data (int (length xs)) xs tp sp g') g1"
    by blast
  show ?thesis
  proof (cases "key \<in> fst ` set l")
    case True
    then show ?thesis using e run keys by simp
  next
    case False
    then have "wp (add_symbol K (Some t) key data) (\<lambda>r g'. r = Some a \<and> entered K g1 t a key data (int (length xs)) xs tp sp g') g"
      using e run keys by (simp add: wp_def)
    then have "wp (add_symbol K (Some t) key data) (\<lambda>r g'. r \<noteq> None \<and> sym_holds K g' (A(t \<mapsto> l @ [(key, data)])) \<and> freed_data g' = freed_data g) g"
      by (rule wp_mono) (use opened_holds [OF entered_opened [OF o1 _ a]] entered_freed [of K g1 t a key data "int (length xs)" xs tp sp] fd False keys l1 in auto)
    with False show ?thesis by simp
  qed
qed

end

end
