(* ===== verification/Symbol_Delete.thy ===== *)
theory Symbol_Delete
  imports Symbol_Update
begin

text \<open>Deleting symbols and tables, and creating tables.\<close>

section \<open>Deleting a symbol\<close>

definition unlinked :: "nat \<Rightarrow> nat list \<Rightarrow> nat list \<Rightarrow> 'k sym_lib \<Rightarrow> 'k sym_lib" where
  "unlinked t us vs g = g\<lparr>sy_next_symbol := link (sy_next_symbol g) (lst_of us None) (fst_of vs None),
     sy_prev_symbol := link (sy_prev_symbol g) (fst_of vs None) (lst_of us None),
     tb_head_symbol := (tb_head_symbol g)(t := fst_of (us @ vs) None), tb_tail_symbol := (tb_tail_symbol g)(t := lst_of (us @ vs) None)\<rparr>"

lemma unlinked_simps [simp]:
  "sy_key (unlinked t us vs g) = sy_key g" "sy_hash_val (unlinked t us vs g) = sy_hash_val g" "sy_data (unlinked t us vs g) = sy_data g"
  "sy_table (unlinked t us vs g) = sy_table g" "sy_next_hash (unlinked t us vs g) = sy_next_hash g" "sy_prev_hash (unlinked t us vs g) = sy_prev_hash g"
  "tb_hash (unlinked t us vs g) = tb_hash g" "tb_hash_size (unlinked t us vs g) = tb_hash_size g" "tb_hash_mask (unlinked t us vs g) = tb_hash_mask g"
  "tb_resize_size (unlinked t us vs g) = tb_resize_size g" "tb_symbol_count (unlinked t us vs g) = tb_symbol_count g"
  "pool_mem (unlinked t us vs g) = pool_mem g" "Symbol_pool (unlinked t us vs g) = Symbol_pool g"
  "Symbol_Table_pool (unlinked t us vs g) = Symbol_Table_pool g" "in_use P (unlinked t us vs g) = in_use P g"
  "freed_data (unlinked t us vs g) = freed_data g"
  by (simp_all add: unlinked_def)

lemma unlink_run:
  assumes "dll (sy_next_symbol g) (sy_prev_symbol g) None (us @ a # vs) None" "tb_head_symbol g t = fst_of (us @ a # vs) None"
    "tb_tail_symbol g t = lst_of (us @ a # vs) None" "in_use (Symbol_Table_pool g) g t"
    "\<And>x. x \<in> set (us @ a # vs) \<Longrightarrow> in_use (Symbol_pool g) g x"
  shows "wp (unlink_symbol (Some t) (Some a)) (\<lambda>_ g'. g' = unlinked t us vs g) g"
proof -
  have nb: "sy_prev_symbol g a = lst_of us None" "sy_next_symbol g a = fst_of vs None" using assms(1) by auto
  show ?thesis
    using assms(2-5) nb unfolding unlink_symbol_def unlinked_def
    by (cases us rule: rev_cases; cases vs) (auto simp: fun_upd_idem comp_def)
qed

definition logged :: "bool \<Rightarrow> nat \<Rightarrow> 'k sym_lib \<Rightarrow> 'k sym_lib" where
  "logged fr a g = (if fr then g\<lparr>freed_data := freed_data g @ [sy_data g a]\<rparr> else g)"

lemma logged_simps [simp]:
  "same_sym h (logged fr a g) x = same_sym h g x" "same_tab h (logged fr a g) u = same_tab h g u"
  "same_sym (logged fr a g) h x = same_sym g h x" "same_tab (logged fr a g) h u = same_tab g h u" "pool_mem (logged fr a g) = pool_mem g"
  "Symbol_pool (logged fr a g) = Symbol_pool g" "Symbol_Table_pool (logged fr a g) = Symbol_Table_pool g"
  "tb_symbol_count (logged fr a g) = tb_symbol_count g" "in_use P (logged fr a g) = in_use P g"
  "pool_used p (logged fr a g) = pool_used p g" "sym_pools (logged fr a g) = sym_pools g"
  by (simp_all add: logged_def same_sym_def same_tab_def pool_used_def sym_pools_def pool_in_def fun_eq_iff)

lemma free_data_run: "in_use (Symbol_pool g) g a \<Longrightarrow> free_data fr (Some a) g = Inr ((), logged fr a g)"
  by (simp add: free_data_def logged_def rd_def deref_def bnd_def gets_def modify_def ret_def)

text \<open>The state a deletion ends in: the links are taken out, the symbol is back in its pool.\<close>

definition deleted :: "'k sym_kind \<Rightarrow> bool \<Rightarrow> 'k sym_lib \<Rightarrow> nat \<Rightarrow> nat list \<Rightarrow> nat \<Rightarrow> nat list \<Rightarrow> nat \<Rightarrow> nat \<Rightarrow> 'k sym_lib \<Rightarrow> bool" where
  "deleted K fr g t us a vs tp sp g' \<longleftrightarrow> (\<exists>h arr s. relinked (set (us @ a # vs)) g h \<and> length arr = length (tb_hash g t) \<and>
     chains K (h\<lparr>tb_hash := (tb_hash g)(t := arr)\<rparr>) (tb_hash_mask g t) arr (set (us @ vs)) \<and>
     sym_pools s tp sp \<and> pool_used sp s = pool_used sp g - {a} \<and> pool_used tp s = pool_used tp g \<and>
     same_mem s (logged fr a (unlinked t us vs (h\<lparr>tb_hash := (tb_hash g)(t := arr)\<rparr>))) \<and>
     g' = tb_symbol_count_update (\<lambda>f. f(t := tb_symbol_count g t - 1)) s)"

lemma delete_run:
  assumes o: "opened_table K g A t tp sp (us @ a # vs)"
  shows "wp (delete_symbol K (Some a) fr) (\<lambda>_ g'. deleted K fr g t us a vs tp sp g') g"
proof -
  let ?xs = "us @ a # vs"
  note d = tab_okD [OF opened_tableD(3) [OF o]]
  note us = use_symbols [OF o]
  have "a \<in> set ?xs" by simp
  have "wp (chain_remove K (Some t) (Some a)) (\<lambda>_ g'. \<exists>h arr. relinked (set ?xs) g h \<and> g' = h\<lparr>tb_hash := (tb_hash g)(t := arr)\<rparr> \<and>
    length arr = length (tb_hash g t) \<and> chains K g' (tb_hash_mask g t) arr (set ?xs - {a})) g"
    by (rule chain_remove_wp [OF d(7) refl refl use_table [OF o] \<open>a \<in> set ?xs\<close> us])
  then obtain g1 h arr where rem: "chain_remove K (Some t) (Some a) g = Inr ((), g1)" and h: "relinked (set ?xs) g h"
    and g1: "g1 = h\<lparr>tb_hash := (tb_hash g)(t := arr)\<rparr>" and arr: "length arr = length (tb_hash g t)"
      "chains K g1 (tb_hash_mask g t) arr (set ?xs - {a})" by (auto simp: wp_run)
  note hD = relinkedD [OF h]
  have u1: "in_use (Symbol_Table_pool g1) g1 t" "x \<in> set ?xs \<Longrightarrow> in_use (Symbol_pool g1) g1 x" for x
    using us use_table [OF o] hD(18,19,21) by (simp_all add: g1)
  define g2 where "g2 = unlinked t us vs g1"
  have "wp (unlink_symbol (Some t) (Some a)) (\<lambda>_ g'. g' = unlinked t us vs g1) g1"
    by (rule unlink_run) (use d(3-5) hD u1 in \<open>simp_all add: g1\<close>)
  then have unl: "unlink_symbol (Some t) (Some a) g1 = Inr ((), g2)" by (simp add: wp_run g2_def)
  have u2: "in_use (Symbol_pool (logged fr a g2)) (logged fr a g2) a" "in_use (Symbol_pool g2) g2 a" using u1(2) [of a] by (simp_all add: g2_def)
  have eq: "sym_pools (logged fr a g2) tp sp" "pool_used p (logged fr a g2) = pool_used p g" for p
    using opened_tableD(1) [OF o] hD(18-20) by (simp_all add: g2_def g1 sym_pools_def pool_in_def pool_used_def)
  have asp: "a \<in> pool_used sp (logged fr a g2)" using d(2) eq(2) by auto
  have eq': "pool_used p g2 = pool_used p g" for p using eq(2) by simp
  from sym_free [OF eq(1) _ asp, of tp] obtain s where fre: "L_free (Some sp) (Some a) (logged fr a g2) = Inr ((), s)" and
    s: "sym_pools s tp sp" "pool_used sp s = pool_used sp g - {a}" "pool_used tp s = pool_used tp g" "same_mem s (logged fr a g2)"
    by (auto simp: wp_run eq')
  have "Symbol_pool (logged fr a g2) = Some sp" using eq(1) by (simp add: sym_pools_def)
  then have fs: "free_symbol (Some a) (logged fr a g2) = Inr ((), s)" using fre by (simp add: free_symbol_def bnd_def gets_def)
  have ust: "in_use (Symbol_Table_pool s) s t" using s(1,3) opened_tableD(2) [OF o] by (simp add: sym_pools_def in_use_eq)
  have cnt: "tb_symbol_count s t = tb_symbol_count g t"
    using sym_more(4) [OF s(4) [unfolded same_mem_def], of t] hD(16) by (simp add: same_tab_def g2_def g1)
  define g5 where "g5 = tb_symbol_count_update (\<lambda>f. f(t := tb_symbol_count g t - 1)) s"
  have "set ?xs - {a} = set (us @ vs)" using d(1) by auto
  then have del: "deleted K fr g t us a vs tp sp g5"
    unfolding deleted_def g5_def using h arr s by (intro exI [of _ h] exI [of _ arr] exI [of _ s]) (simp add: g2_def g1)
  have "sy_table g a = Some t" using d(10) by simp
  then show ?thesis
    using us [of a] ust del unfolding delete_symbol_def
    by (simp add: cnt g5_def wp_exec [of "chain_remove K q r" for q r, OF rem] wp_exec [of "unlink_symbol q r" for q r, OF unl]
      wp_exec [of "free_data q r" for q r, OF free_data_run [OF u2(2)]] wp_exec [of "free_symbol r" for r, OF fs])
qed

lemma deleted_opened:
  assumes o: "opened_table K g A t tp sp (us @ a # vs)" and e: "deleted K fr g t us a vs tp sp g'"
  shows "opened_table K g' (A(t \<mapsto> map (entry g) (us @ vs))) t tp sp (us @ vs)"
    and "freed_data g' = freed_data g @ (if fr then [sy_data g a] else [])"
proof -
  let ?xs = "us @ a # vs"
  note d = tab_okD [OF opened_tableD(3) [OF o]]
  obtain h arr s where h: "relinked (set ?xs) g h" and arr: "length arr = length (tb_hash g t)"
     "chains K (h\<lparr>tb_hash := (tb_hash g)(t := arr)\<rparr>) (tb_hash_mask g t) arr (set (us @ vs))"
    and s: "sym_pools s tp sp" "pool_used sp s = pool_used sp g - {a}" "pool_used tp s = pool_used tp g"
     "same_mem s (logged fr a (unlinked t us vs (h\<lparr>tb_hash := (tb_hash g)(t := arr)\<rparr>)))"
    and g': "g' = tb_symbol_count_update (\<lambda>f. f(t := tb_symbol_count g t - 1)) s"
    using e unfolding deleted_def by blast
  define g2 where "g2 = unlinked t us vs (h\<lparr>tb_hash := (tb_hash g)(t := arr)\<rparr>)"
  note m = sym_more [OF s(4) [unfolded same_mem_def]]
  have ms: "same_sym s g2 x" and mt: "same_tab s g2 u" for x u using m(3,4) by (simp_all add: g2_def)
  note ms = ms [unfolded same_sym_def] and mt = mt [unfolded same_tab_def]
  note hD = relinkedD [OF h]
  have pools: "sym_pools g' tp sp" "pool_used tp g' = pool_used tp g" "pool_used sp g' = pool_used sp g - {a}"
    using s by (simp_all add: sym_pools_def pool_in_def pool_used_def g')
  have g2': "sy_next_symbol g2 = link (sy_next_symbol g) (lst_of us None) (fst_of vs None)"
    "sy_prev_symbol g2 = link (sy_prev_symbol g) (fst_of vs None) (lst_of us None)"
    "tb_head_symbol g2 = (tb_head_symbol g)(t := fst_of (us @ vs) None)" "tb_tail_symbol g2 = (tb_tail_symbol g)(t := lst_of (us @ vs) None)"
    using hD by (simp_all add: g2_def unlinked_def)
  have dll: "dll (sy_next_symbol g') (sy_prev_symbol g') None (us @ vs) None"
  proof -
    have "sy_prev_symbol g a = lst_of us None" "sy_next_symbol g a = fst_of vs None" using d(3) by auto
    then have "dll (sy_next_symbol g2) (sy_prev_symbol g2) None (us @ vs) None"
      using dll_remove [OF d(1,3)] unfolding g2' by simp
    then show ?thesis using ms by (subst dll_cong [of "us @ vs" _ "sy_next_symbol g2" _ "sy_prev_symbol g2"]) (auto simp: g')
  qed
  have ch: "chains K g' (tb_hash_mask g' t) (tb_hash g' t) (set (us @ vs))"
  proof -
    have "chains K g' (tb_hash_mask g t) arr (set (us @ vs))"
      by (rule chains_cong [OF _ arr(2)]) (use ms in \<open>simp add: g' symbol_hash_def g2_def\<close>)
    then show ?thesis using hD(12) mt by (simp add: g' g2_def)
  qed
  have keys: "sy_key g' x = sy_key g x" "sy_hash_val g' x = sy_hash_val g x" "sy_data g' x = sy_data g x" "sy_table g' x = sy_table g x" for x
    using ms [of x] hD(3-6) by (simp_all add: g' g2_def)
  have inj: "inj_on (sy_key g') (set (us @ vs))" using d(8) keys by (auto simp: inj_on_def)
  have hv: "hashed K g' (set (us @ vs))" using d(9) keys by (auto simp: hashed_def)
  have tab: "\<forall>x\<in>set (us @ vs). sy_table g' x = Some t" using d(10) keys by auto
  have geo: "\<exists>k. geometry g' t k"
    using opened_tableD(3) [OF o] hD(11-13) mt arr(1) by (auto simp: tab_ok_def geometry_def g' g2_def)
  have ends: "tb_head_symbol g' t = fst_of (us @ vs) None" "tb_tail_symbol g' t = lst_of (us @ vs) None"
    "tb_symbol_count g' t = int (length (us @ vs))"
    using mt g2' d(6) by (simp_all add: g')
  have "tab_ok K g' (pool_used sp g') t (us @ vs)"
    unfolding tab_ok_def using d(1,2) pools(3) dll ch inj hv tab geo ends by auto
  moreover have "same_sym g' g x" if "x \<in> pool_used sp g" "x \<notin> set ?xs" for x
    using that hD ms [of x] keys g2'(1,2) by (simp add: same_sym_def g' g2_def)
  moreover have "same_tab g' g u" if "u \<noteq> t" for u using that hD mt [of u] g2'(3,4) by (simp add: same_tab_def g' g2_def)
  moreover have "map (entry g') (us @ vs) = map (entry g) (us @ vs)" using keys by (simp add: entry_def)
  ultimately show "opened_table K g' (A(t \<mapsto> map (entry g) (us @ vs))) t tp sp (us @ vs)"
    using pools d(1,2) by (intro reopen_table [OF o]) auto
  show "freed_data g' = freed_data g @ (if fr then [sy_data g a] else [])"
    using m(5) hD(5,17) by (simp add: g' logged_def unlinked_def)
qed

end
