(* ===== verification/Symbol_Create.thy ===== *)
theory Symbol_Create
  imports Symbol_Delete
begin

text \<open>Deleting a table, and creating one.\<close>

section \<open>Deleting a table\<close>

definition same_fields :: "'k sym_lib \<Rightarrow> 'k sym_lib \<Rightarrow> bool" where
  "same_fields g' g \<longleftrightarrow> (\<forall>x. same_sym g' g x) \<and> (\<forall>t. same_tab g' g t)"

lemma same_fields_more: "same_mem g' g \<Longrightarrow> same_fields g' g"
  using sym_more(3,4) by (auto simp: same_fields_def same_mem_def)

lemma same_fields_refl [simp]: "same_fields g g"
  by (simp add: same_fields_def same_sym_def same_tab_def)

lemma same_fields_trans: "same_fields g2 g1 \<Longrightarrow> same_fields g1 g \<Longrightarrow> same_fields g2 g"
  by (simp add: same_fields_def same_sym_def same_tab_def)

lemma same_fields_logged [simp]: "same_fields (logged fr a g) g"
  by (simp add: same_fields_def same_sym_def same_tab_def logged_def)

lemma tables_shrink:
  assumes "tables_ok K g T E L" "t \<in> T" "same_fields g' g"
  shows "tables_ok K g' (T - {t}) (E - set (L t)) L" "entries g' (T - {t}) L = (entries g T L)(t := None)"
proof -
  have d: "set (L u) \<inter> set (L t) = {}" "set (L u) \<subseteq> E" if "u \<in> T" "u \<noteq> t" for u
    using assms(1,2) that by (auto simp: tables_ok_def)
  have "tab_ok K g' (E - set (L t)) u (L u)" if "u \<in> T" "u \<noteq> t" for u
  proof (rule tab_ok_cong [of K g E])
    show "set (L u) \<subseteq> E - set (L t)" using d [OF that] by blast
  qed (use assms that in \<open>auto simp: tables_ok_def same_fields_def\<close>)
  moreover have "E - set (L t) = (\<Union>u\<in>T - {t}. set (L u))"
  proof -
    have "E = (\<Union>u\<in>T. set (L u))" using assms(1) by (simp add: tables_ok_def)
    then show ?thesis using d(1) by blast
  qed
  ultimately show "tables_ok K g' (T - {t}) (E - set (L t)) L" using assms(1) by (auto simp: tables_ok_def)
  show "entries g' (T - {t}) L = (entries g T L)(t := None)"
    using assms(3) by (auto simp: entries_def fun_eq_iff entry_def same_fields_def same_sym_def)
qed

lemma tables_grow:
  assumes "tables_ok K g T E L" "t \<notin> T" "\<And>x. same_sym g' g x" "\<And>u. u \<noteq> t \<Longrightarrow> same_tab g' g u" "tab_ok K g' E t []"
  shows "tables_ok K g' (insert t T) E (L(t := []))" "entries g' (insert t T) (L(t := [])) = (entries g T L)(t \<mapsto> [])"
proof -
  have ne: "u \<noteq> t" if "u \<in> T" for u using assms(2) that by auto
  have "tab_ok K g' E u (L u)" if "u \<in> T" for u
    by (rule tab_ok_cong [of K g E]) (use assms that ne [OF that] in \<open>auto simp: tables_ok_def\<close>)
  moreover have "E = (\<Union>u\<in>T. set ((L(t := [])) u))" using assms(1) ne by (auto simp: tables_ok_def)
  ultimately show "tables_ok K g' (insert t T) E (L(t := []))" using assms(1,5) ne by (auto simp: tables_ok_def)
  show "entries g' (insert t T) (L(t := [])) = (entries g T L)(t \<mapsto> [])"
    using assms(2,3) by (auto simp: entries_def fun_eq_iff entry_def same_sym_def)
qed

lemma free_symbols_wp:
  assumes p: "sym_pools g tp sp" and xs: "distinct xs" "set xs \<subseteq> pool_used sp g" "dll (sy_next_symbol g) (sy_prev_symbol g) None xs None"
  shows "wp (free_symbols fr (fst_of xs None))
     (\<lambda>_ g'. sym_pools g' tp sp \<and> pool_used sp g' = pool_used sp g - set xs \<and> pool_used tp g' = pool_used tp g \<and> same_fields g' g \<and>
       freed_data g' = freed_data g @ (if fr then map (sy_data g) xs else [])) g"
  unfolding free_symbols_def
proof (rule wp_walk [where I = "\<lambda>vs (_ :: unit) h. \<exists>us. xs = us @ vs \<and> sym_pools h tp sp \<and> pool_used sp h = pool_used sp g - set us \<and>
    pool_used tp h = pool_used tp g \<and> same_fields h g \<and> freed_data h = freed_data g @ (if fr then map (sy_data g) us else [])"])
  fix a vs u h
  assume "\<exists>us. xs = us @ a # vs \<and> sym_pools h tp sp \<and> pool_used sp h = pool_used sp g - set us \<and>
    pool_used tp h = pool_used tp g \<and> same_fields h g \<and> freed_data h = freed_data g @ (if fr then map (sy_data g) us else [])"
  then obtain us where I: "xs = us @ a # vs" "sym_pools h tp sp" "pool_used sp h = pool_used sp g - set us"
    "pool_used tp h = pool_used tp g" "same_fields h g" "freed_data h = freed_data g @ (if fr then map (sy_data g) us else [])" by auto
  have eq: "sy_next_symbol h x = sy_next_symbol g x" "sy_data h x = sy_data g x" for x using I(5) by (auto simp: same_fields_def same_sym_def)
  have a: "a \<in> pool_used sp h" "sy_next_symbol h a = fst_of vs None" using xs I(1,3) eq by auto
  then have use: "in_use (Symbol_pool h) h a" using I(2) by (simp add: sym_pools_def in_use_eq)
  have l: "sym_pools (logged fr a h) tp sp" "a \<in> pool_used sp (logged fr a h)" using I(2) a(1) by simp_all
  from sym_free [OF l(1) _ l(2), of tp] obtain s where fre: "L_free (Some sp) (Some a) (logged fr a h) = Inr ((), s)" and
    s: "sym_pools s tp sp" "pool_used sp s = pool_used sp h - {a}" "pool_used tp s = pool_used tp h" "same_mem s (logged fr a h)"
    by (auto simp: wp_run)
  have fs: "free_symbol (Some a) (logged fr a h) = Inr ((), s)" using fre I(2) by (simp add: free_symbol_def bnd_def gets_def sym_pools_def)
  have "same_fields s g" by (rule same_fields_trans [OF same_fields_more [OF s(4)] same_fields_trans [OF same_fields_logged I(5)]])
  moreover have "freed_data s = freed_data g @ (if fr then map (sy_data g) (us @ [a]) else [])"
    using sym_more(5) [OF s(4) [unfolded same_mem_def]] I(6) eq by (simp add: logged_def)
  ultimately have "\<exists>us. xs = us @ vs \<and> sym_pools s tp sp \<and> pool_used sp s = pool_used sp g - set us \<and>
    pool_used tp s = pool_used tp g \<and> same_fields s g \<and> freed_data s = freed_data g @ (if fr then map (sy_data g) us else [])"
    using I s by (intro exI [of _ "us @ [a]"]) auto
  then show "wp (bnd (rd Symbol_pool sy_next_symbol (fst (Some a, u))) (\<lambda>next_symbol. bnd (free_data fr (fst (Some a, u))) (\<lambda>_.
       bnd (free_symbol (fst (Some a, u))) (\<lambda>_. ret (next_symbol, ())))))
     (\<lambda>r s'. (\<exists>u'. r = (fst_of vs None, u') \<and> (\<exists>us. xs = us @ vs \<and> sym_pools s' tp sp \<and> pool_used sp s' = pool_used sp g - set us \<and>
        pool_used tp s' = pool_used tp g \<and> same_fields s' g \<and> freed_data s' = freed_data g @ (if fr then map (sy_data g) us else []))) \<or>
      \<not> fst r \<noteq> None \<and> sym_pools s' tp sp \<and> pool_used sp s' = pool_used sp g - set xs \<and> pool_used tp s' = pool_used tp g \<and> same_fields s' g \<and>
        freed_data s' = freed_data g @ (if fr then map (sy_data g) xs else [])) h"
    using use a(2) by (simp add: wp_exec [of "free_data q r" for q r, OF free_data_run [OF use]] wp_exec [of "free_symbol r" for r, OF fs])
qed (use p in auto)

lemma delete_table_wp:
  assumes "sym_holds K g A" "A t = Some l"
  shows "wp (delete_symbol_table (Some t) fr) (\<lambda>_ g'. sym_holds K g' (A(t := None)) \<and>
    freed_data g' = freed_data g @ (if fr then map snd l else [])) g"
proof -
  from assms obtain tp sp xs where o: "opened_table K g A t tp sp xs" and l: "l = map (entry g) xs" by (rule open_table)
  then obtain L where L: "L t = xs" "tables_ok K g (pool_used tp g) (pool_used sp g) L" "A = entries g (pool_used tp g) L"
    by (auto simp: opened_table_def)
  note d = tab_okD [OF opened_tableD(3) [OF o]]
  from free_symbols_wp [OF opened_tableD(1) [OF o] d(1-3), of fr] obtain r h where loop:
    "free_symbols fr (fst_of xs None) g = Inr (r, h)"
    and h: "sym_pools h tp sp" "pool_used sp h = pool_used sp g - set xs" "pool_used tp h = pool_used tp g" "same_fields h g"
      "freed_data h = freed_data g @ (if fr then map (sy_data g) xs else [])" unfolding wp_run by blast
  have "t \<in> pool_used tp h" using h(3) opened_tableD(2) [OF o] by simp
  from sym_free [OF h(1) _ this, of sp] obtain s where fre: "L_free (Some tp) (Some t) h = Inr ((), s)" and
    s: "sym_pools s tp sp" "pool_used tp s = pool_used tp h - {t}" "pool_used sp s = pool_used sp h" "same_mem s h" by (auto simp: wp_run)
  have sf: "same_fields s g" by (rule same_fields_trans [OF same_fields_more [OF s(4)] h(4)])
  note sh = tables_shrink [OF L(2) opened_tableD(2) [OF o] sf, unfolded L(1)]
  have holds: "sym_holds K s (A(t := None))"
    unfolding sym_holds_def by (rule disjI2, rule exI [of _ tp], rule exI [of _ sp], rule exI [of _ L]) (use s h sh L(3) in simp)
  have fd: "freed_data s = freed_data g @ (if fr then map snd l else [])"
    using sym_more(5) [OF s(4) [unfolded same_mem_def]] h(5) l by (simp add: entry_def comp_def)
  have rdt: "rd Symbol_Table_pool tb_head_symbol (Some t) g = Inr (fst_of xs None, g)"
    using rd_run [of Symbol_Table_pool g t tb_head_symbol] use_table [OF o] d(4) by simp
  have "delete_symbol_table (Some t) fr g = Inr ((), s)"
    unfolding delete_symbol_table_def
    by (subst bnd_run [of "rd Symbol_Table_pool tb_head_symbol (Some t)" g, OF rdt], subst bnd_run [of "free_symbols fr (fst_of xs None)" g, OF loop])
      (use h(1) fre in \<open>simp add: bnd_def gets_def sym_pools_def\<close>)
  then show ?thesis using holds fd by (simp add: wp_def)
qed

section \<open>Creating a table\<close>

text \<open>The size of the array: the least power of two from 32 on that is at least twice the expected number of symbols.\<close>

definition best_size :: "int \<Rightarrow> nat \<Rightarrow> bool" where
  "best_size n k \<longleftrightarrow> 5 \<le> k \<and> k \<le> 31 \<and> n * 2 \<le> 2 ^ k \<and> (k = 5 \<or> 2 ^ (k - 1) < n * 2)"

definition two_to :: "nat \<Rightarrow> 32 word" where
  "two_to k = word_of_int (2 ^ k)"

lemma uint_wi: "0 \<le> x \<Longrightarrow> x < 2 ^ 32 \<Longrightarrow> uint (word_of_int x :: 32 word) = x"
  by (subst uint_word_of_int_eq) (simp add: take_bit_int_eq_self)

lemma uint_two_to: "k \<le> 31 \<Longrightarrow> uint (two_to k) = 2 ^ k"
  unfolding two_to_def by (rule uint_wi) (use power_strict_increasing [of k 32 "2 :: int"] in simp_all)

lemma hash_size_run:
  assumes "0 \<le> n" "n \<le> 1000000000"
  obtains k where "hash_size_for n s = Inr (two_to k, s)" "best_size n k"
proof -
  define m :: "32 word" where "m = word_of_int (n * 2)"
  have m: "uint m = n * 2" unfolding m_def by (rule uint_wi) (use assms in simp_all)
  have "wp (while_prog (\<lambda>h. h < m) (\<lambda>h. ret (push_bit 1 h)) 32) (\<lambda>r s'. s' = s \<and> (\<exists>k. r = two_to k \<and> best_size n k)) s"
  proof (rule wp_while_prog [where r = "measure (\<lambda>(h, _). nat (2 ^ 32 - uint h))" and
      I = "\<lambda>h s'. s' = s \<and> (\<exists>k. h = two_to k \<and> 5 \<le> k \<and> k \<le> 31 \<and> (k = 5 \<or> 2 ^ (k - 1) < n * 2))"])
    show "s = s \<and> (\<exists>k. (32 :: 32 word) = two_to k \<and> 5 \<le> k \<and> k \<le> 31 \<and> (k = 5 \<or> 2 ^ (k - 1) < n * 2))"
      by (intro conjI exI [of _ 5]) (simp_all add: two_to_def)
  next
    fix h s' assume "s' = s \<and> (\<exists>k. h = two_to k \<and> 5 \<le> k \<and> k \<le> 31 \<and> (k = 5 \<or> 2 ^ (k - 1) < n * 2))" and less: "h < m"
    then obtain k where k: "s' = s" "h = two_to k" "5 \<le> k" "k \<le> 31" by auto
    have lt: "2 ^ k < n * 2" using less k by (simp add: word_less_alt m uint_two_to)
    have "k \<noteq> 31" using lt assms(2) by auto
    then have k30: "k \<le> 30" using k(4) by simp
    have dbl: "two_to k * 2 = two_to (Suc k)" by (simp add: two_to_def flip: wi_hom_mult)
    then have push: "push_bit 1 h = two_to (Suc k)" by (simp add: k(2) push_bit_eq_mult)
    have "uint (push_bit 1 h) = 2 * 2 ^ k" unfolding push using k30 by (subst uint_two_to) simp_all
    moreover have "uint h = 2 ^ k" using k by (simp add: uint_two_to)
    moreover have "(2 :: int) ^ k \<le> 2 ^ 30" using k30 by (intro power_increasing) auto
    ultimately show "wp (ret (push_bit 1 h)) (\<lambda>h' s''. (s'' = s \<and> (\<exists>k. h' = two_to k \<and> 5 \<le> k \<and> k \<le> 31 \<and> (k = 5 \<or> 2 ^ (k - 1) < n * 2))) \<and>
      ((h', s''), (h, s')) \<in> measure (\<lambda>(h, _). nat (2 ^ 32 - uint h))) s'"
      using k k30 lt by (auto simp: push dbl intro!: exI [of _ "Suc k"])
  next
    fix h s' assume "s' = s \<and> (\<exists>k. h = two_to k \<and> 5 \<le> k \<and> k \<le> 31 \<and> (k = 5 \<or> 2 ^ (k - 1) < n * 2))" "\<not> h < m"
    then show "s' = s \<and> (\<exists>k. h = two_to k \<and> best_size n k)"
      by (auto simp: best_size_def word_less_alt m uint_two_to not_less)
  qed simp
  then show thesis using that unfolding hash_size_for_def Let_def wp_run m_def by auto
qed

definition created :: "nat \<Rightarrow> string \<Rightarrow> nat \<Rightarrow> 'k sym_lib \<Rightarrow> 'k sym_lib" where
  "created t name k g = g\<lparr>tb_name := (tb_name g)(t := name), tb_hash := (tb_hash g)(t := replicate (2 ^ k) None),
     tb_hash_size := (tb_hash_size g)(t := 2 ^ k), tb_hash_mask := (tb_hash_mask g)(t := 2 ^ k - 1),
     tb_resize_size := (tb_resize_size g)(t := 2 ^ k - 2 ^ (k - 2)), tb_head_symbol := (tb_head_symbol g)(t := None),
     tb_tail_symbol := (tb_tail_symbol g)(t := None), tb_symbol_count := (tb_symbol_count g)(t := 0)\<rparr>"

lemma resize_size_word:
  assumes "2 \<le> k" "k \<le> 31"
  shows "uint (two_to k - drop_bit 2 (two_to k)) = 2 ^ k - 2 ^ (k - 2)" "uint (two_to k - 1) = 2 ^ k - 1"
proof -
  have k: "uint (two_to k) = 2 ^ k" using assms(2) by (rule uint_two_to)
  have "k = 2 + (k - 2)" using assms(1) by simp
  then have "(2 :: int) ^ k = 2 ^ (2 + (k - 2))" by (rule arg_cong)
  also have "\<dots> = 4 * 2 ^ (k - 2)" by (subst power_add) simp
  finally have q: "(2 :: int) ^ k = 4 * 2 ^ (k - 2)" .
  have d: "uint (drop_bit 2 (two_to k)) = 2 ^ (k - 2)"
    by (simp add: drop_bit_eq_div uint_div_distrib k q)
  show "uint (two_to k - drop_bit 2 (two_to k)) = 2 ^ k - 2 ^ (k - 2)"
    using iffD1 [OF uint_sub_lem, of "drop_bit 2 (two_to k)" "two_to k"] d k q by simp
  show "uint (two_to k - 1) = 2 ^ k - 1"
    using iffD1 [OF uint_sub_lem, of 1 "two_to k"] k by simp
qed

lemma init_table_run:
  assumes "in_use (Symbol_Table_pool g) g t" "2 \<le> k" "k \<le> 31"
  shows "init_table (Some t) name (replicate (2 ^ k) None) (two_to k) g = Inr ((), created t name k g)"
proof -
  have "wp (init_table (Some t) name (replicate (2 ^ k) None) (two_to k)) (\<lambda>_ g'. g' = created t name k g) g"
    using assms(1) unfolding init_table_def resize_size_word [OF assms(2,3)] uint_two_to [OF assms(3)]
    by (simp add: created_def)
  then show ?thesis by (simp add: wp_run)
qed

lemma created_ok:
  assumes "5 \<le> k" "k \<le> 30"
  shows "tab_ok K (created t name k g) E t []" "u \<noteq> t \<Longrightarrow> same_tab (created t name k g) g u" "same_sym (created t name k g) g x"
  using assms chains_empty by (auto simp: tab_ok_def created_def geometry_def same_tab_def same_sym_def hashed_def)

text \<open>The tables that \<open>new_symbol_table\<close> leaves: a new one, empty, of the best size.\<close>

definition table_added :: "'k sym_kind \<Rightarrow> (nat \<Rightarrow> ('k \<times> int) list option) \<Rightarrow> string \<Rightarrow> nat \<Rightarrow> nat option \<Rightarrow> 'k sym_lib \<Rightarrow> bool" where
  "table_added K A name k r g \<longleftrightarrow> (\<exists>t. r = Some t \<and> A t = None \<and> sym_holds K g (A(t \<mapsto> [])) \<and>
     tb_name g t = name \<and> tb_hash g t = replicate (2 ^ k) None \<and> tb_hash_size g t = 2 ^ k \<and> tb_resize_size g t = 3 * 2 ^ (k - 2))"

lemma gets_run: "bnd (gets f) h s = h (f s) s"
  by (simp add: bnd_def gets_def)

lemma alloc_table_wp:
  assumes h: "sym_holds K g A" "Symbol_Table_pool g \<noteq> None"
  shows "wp (L_alloc (Symbol_Table_pool g)) (\<lambda>t g'. A t = None \<and> in_use (Symbol_Table_pool g') g' t \<and> freed_data g' = freed_data g \<and>
    (\<forall>k name. 5 \<le> k \<longrightarrow> k \<le> 30 \<longrightarrow> sym_holds K (created t name k g') (A(t \<mapsto> [])))) g"
proof -
  from h obtain tp sp L where o: "sym_pools g tp sp" "tables_ok K g (pool_used tp g) (pool_used sp g) L" "A = entries g (pool_used tp g) L"
    by (auto simp: sym_holds_def)
  have tp: "Symbol_Table_pool g = Some tp" using o(1) by (simp add: sym_pools_def)
  have "wp (L_alloc (Some tp)) (\<lambda>t g'. A t = None \<and> in_use (Symbol_Table_pool g') g' t \<and> freed_data g' = freed_data g \<and>
    (\<forall>k name. 5 \<le> k \<longrightarrow> k \<le> 30 \<longrightarrow> sym_holds K (created t name k g') (A(t \<mapsto> [])))) g"
  proof (rule wp_mono [OF sym_alloc [OF o(1), of tp sp]], blast)
    fix t g' assume s: "sym_pools g' tp sp \<and> t \<notin> pool_used tp g \<and> pool_used tp g' = insert t (pool_used tp g) \<and>
      pool_used sp g' = pool_used sp g \<and> same_mem g' g"
    then have m: "same_fields g' g" "freed_data g' = freed_data g"
      using same_fields_more sym_more(5) by (auto simp: same_mem_def)
    have "sym_holds K (created t name k g') (A(t \<mapsto> []))" if k: "5 \<le> k" "k \<le> 30" for k name
    proof -
      let ?c = "created t name k g'"
      note c = created_ok [OF k]
      have sym: "same_sym ?c g x" for x using c(3) [of t name g' x] m(1) by (simp add: same_fields_def same_sym_def)
      have tab: "same_tab ?c g u" if "u \<noteq> t" for u using c(2) [OF that, of name g'] m(1) by (simp add: same_fields_def same_tab_def)
      note gr = tables_grow [OF o(2) _ sym tab c(1)]
      have po: "sym_pools ?c tp sp" "pool_used tp ?c = insert t (pool_used tp g)" "pool_used sp ?c = pool_used sp g"
        using s by (simp_all add: created_def sym_pools_def pool_in_def pool_used_def)
      show ?thesis unfolding sym_holds_def
        by (rule disjI2, rule exI [of _ tp], rule exI [of _ sp], rule exI [of _ "L(t := [])"]) (use gr po s o(3) in simp)
    qed
    moreover have "in_use (Symbol_Table_pool g') g' t" using s by (simp add: sym_pools_def in_use_eq)
    ultimately show "A t = None \<and> in_use (Symbol_Table_pool g') g' t \<and> freed_data g' = freed_data g \<and>
      (\<forall>k name. 5 \<le> k \<longrightarrow> k \<le> 30 \<longrightarrow> sym_holds K (created t name k g') (A(t \<mapsto> [])))"
      using s m(2) o(3) by (simp add: entries_def)
  qed
  then show ?thesis by (simp add: tp)
qed

lemma best_size_bounds:
  assumes "best_size n k"
  shows "n \<le> 2 ^ 29 \<Longrightarrow> k \<le> 30" "2 ^ 29 < n \<Longrightarrow> k = 31"
proof -
  have k: "5 \<le> k" "k \<le> 31" "n * 2 \<le> 2 ^ k" "k = 5 \<or> 2 ^ (k - 1) < n * 2" using assms by (auto simp: best_size_def)
  show "k \<le> 30" if "n \<le> 2 ^ 29"
  proof (rule ccontr)
    assume "\<not> k \<le> 30"
    then have "k = 31" using k by simp
    then show False using k(4) that by simp
  qed
  show "k = 31" if "2 ^ 29 < n"
  proof (rule ccontr)
    assume "k \<noteq> 31"
    then have "(2 :: int) ^ k \<le> 2 ^ 30" using k(2) by (intro power_increasing) auto
    then show False using k(3) that by simp
  qed
qed

lemma new_table_huge: "max 0 n > 1000000000 \<Longrightarrow> new_symbol_table K name n g = Inl (Punt (k_prefix K @ ''_Symbol_Table''))"
  by (simp add: new_symbol_table_def fail_def max_def split: if_splits)

context symbol_keys begin

lemma symbol_pools_wp:
  assumes "sym_holds K g A"
  shows "wp (symbol_pools K) (\<lambda>_ g'. sym_holds K g' A \<and> Symbol_Table_pool g' \<noteq> None \<and> freed_data g' = freed_data g) g"
proof (cases "Symbol_Table_pool g")
  case None
  then have A: "A = Map.empty" using assms by (auto simp: sym_holds_def sym_pools_def)
  let ?n1 = "k_prefix K @ ''_Symbol_Table''" and ?n2 = "k_prefix K @ ''_Symbol''"
  from create_wp [OF _ block_fits_small, of 16 "k_table_bytes K" ?n1 g] sizes obtain p g1 where run1: "L_create_alloc_pool (Some ?n1) (k_table_bytes K) 16 g = Inr (p, g1)"
    and g1: "pool_in p g1" "pool_used p g1 = {}" "pool_top g1 = p + 1" "alloc_lib.more g1 = alloc_lib.more g" by (auto simp: wp_run)
  define h where "h = g1\<lparr>Symbol_Table_pool := Some p\<rparr>"
  from create_wp [OF _ block_fits_small, of 64 "k_symbol_bytes K" ?n2 h] sizes obtain q g2 where run2: "L_create_alloc_pool (Some ?n2) (k_symbol_bytes K) 64 h = Inr (q, g2)"
    and g2: "pool_in q g2" "pool_used q g2 = {}" "q = pool_top h" "\<forall>r. r \<noteq> q \<longrightarrow> pool_mem g2 r = pool_mem h r" "alloc_lib.more g2 = alloc_lib.more h"
    by (auto simp: wp_run)
  have ne: "p \<noteq> q" using g2(3) g1(3) by (simp add: h_def)
  let ?g = "g2\<lparr>Symbol_pool := Some q\<rparr>"
  have tp: "Symbol_Table_pool g2 = Some p" using sym_more(1) [OF g2(5)] by (simp add: h_def)
  have pm: "pool_mem g2 p = pool_mem g1 p" using ne g2(4) by (simp add: h_def)
  have ok: "sym_pools ?g p q" using ne tp g1(1) g2(1) pm by (simp add: sym_pools_def pool_in_def)
  have u: "pool_used p ?g = {}" "pool_used q ?g = {}" using g1(2) g2(2) pm by (simp_all add: pool_used_def)
  have "sym_holds K ?g Map.empty"
    unfolding sym_holds_def
    by (rule disjI2, rule exI [of _ p], rule exI [of _ q], rule exI [of _ "\<lambda>_. []"])
      (use ok u in \<open>simp add: tables_ok_def entries_def fun_eq_iff\<close>)
  moreover have "freed_data ?g = freed_data g" using sym_more(5) [OF g2(5)] sym_more(5) [OF g1(4)] by (simp add: h_def)
  ultimately show ?thesis using tp A unfolding symbol_pools_def
    by (simp add: None wp_exec [of "L_create_alloc_pool n x y" for n x y, OF run1] h_def [symmetric]
      wp_exec [of "L_create_alloc_pool n x y" for n x y, OF run2])
qed (use assms in \<open>simp add: symbol_pools_def\<close>)

lemma new_table_wp:
  assumes h: "sym_holds K g A" and n: "n \<le> 2 ^ 29"
  shows "wp (new_symbol_table K name n) (\<lambda>r g'. freed_data g' = freed_data g \<and> (\<exists>k \<le> 30. best_size (max 0 n) k \<and> table_added K A name k r g')) g"
proof -
  have m: "(if n < 0 then 0 else n) = max 0 n" by simp
  have n0: "0 \<le> max 0 n" "max 0 n \<le> 1000000000" "max 0 n \<le> 2 ^ 29" using n by simp_all
  from hash_size_run [OF n0(1,2), of g] obtain k where hs: "hash_size_for (max 0 n) g = Inr (two_to k, g)" and bs: "best_size (max 0 n) k" .
  have k: "5 \<le> k" "k \<le> 30" using best_size_bounds(1) [OF bs n0(3)] bs by (auto simp: best_size_def)
  obtain g1 where run1: "symbol_pools K g = Inr ((), g1)" and g1: "sym_holds K g1 A" "Symbol_Table_pool g1 \<noteq> None" "freed_data g1 = freed_data g"
    using symbol_pools_wp [OF h] by (auto simp: wp_run)
  obtain t g2 where run2: "L_alloc (Symbol_Table_pool g1) g1 = Inr (t, g2)" and g2: "A t = None" "in_use (Symbol_Table_pool g2) g2 t"
    "freed_data g2 = freed_data g" "sym_holds K (created t name k g2) (A(t \<mapsto> []))"
    using alloc_table_wp [OF g1(1,2)] k g1(3) by (auto simp: wp_run)
  have arr: "new_hash_array (uint (two_to k)) g2 = Inr (replicate (2 ^ k) None, g2)"
  proof -
    have "(2 :: int) ^ k \<le> 2 ^ 30" using k(2) by (intro power_increasing) auto
    then show ?thesis using k by (simp add: new_hash_array_def uint_two_to ret_def nat_power_eq)
  qed
  have q: "(2 :: int) ^ k - 2 ^ (k - 2) = 3 * 2 ^ (k - 2)"
  proof -
    have "k = 2 + (k - 2)" using k by simp
    then have "(2 :: int) ^ k = 2 ^ (2 + (k - 2))" by (rule arg_cong)
    then show ?thesis by (simp add: power_add)
  qed
  have ini: "init_table (Some t) name (replicate (2 ^ k) None) (two_to k) g2 = Inr ((), created t name k g2)"
    using g2(2) k by (intro init_table_run) simp_all
  have le: "\<not> max 0 n > 1000000000" using n0(2) by simp
  have "new_symbol_table K name n g = Inr (Some t, created t name k g2)"
    unfolding new_symbol_table_def Let_def m
    using le by (simp add: bnd_run [of "hash_size_for (max 0 n)" g, OF hs] bnd_run [of "symbol_pools K" g, OF run1]
       bnd_run [of "L_alloc (Symbol_Table_pool g1)" g1, OF run2] bnd_run [of "new_hash_array (uint (two_to k))" g2, OF arr]
       
       bnd_run [of "init_table (Some t) name (replicate (2 ^ k) None) (two_to k)" g2, OF ini] gets_run ret_def)
  moreover have "table_added K A name k (Some t) (created t name k g2)"
    unfolding table_added_def using g2(1,4) q by (simp add: created_def)
  moreover have "freed_data (created t name k g2) = freed_data g" using g2(3) by (simp add: created_def)
  ultimately show ?thesis using bs k(2) by (auto simp: wp_run)
qed

lemma new_table_overflow:
  assumes h: "sym_holds K g A" and n: "2 ^ 29 < n" "n \<le> 1000000000"
  shows "new_symbol_table K name n g = Inl Int_Overflow"
proof -
  from hash_size_run [of n g] n obtain k where hs: "hash_size_for n g = Inr (two_to k, g)" and bs: "best_size n k" by auto
  have k: "k = 31" using best_size_bounds(2) [OF bs n(1)] .
  obtain g1 where run1: "symbol_pools K g = Inr ((), g1)" and g1: "sym_holds K g1 A" "Symbol_Table_pool g1 \<noteq> None"
    using symbol_pools_wp [OF h] by (auto simp: wp_run)
  obtain t g2 where run2: "L_alloc (Symbol_Table_pool g1) g1 = Inr (t, g2)"
    using alloc_table_wp [OF g1(1,2)] by (auto simp: wp_run)
  have big: "uint (two_to k) > 2147483647" using k by (subst uint_two_to) simp_all
  have "(if n < 0 then 0 else n) = n" using n by simp
  then show ?thesis
    unfolding new_symbol_table_def Let_def
    using n big by (simp add: bnd_run [of "hash_size_for n" g, OF hs] bnd_run [of "symbol_pools K" g, OF run1]
       bnd_run [of "L_alloc (Symbol_Table_pool g1)" g1, OF run2] new_hash_array_def gets_run)
qed

end

end
