(* ===== verification/Symbol_Client.thy ===== *)
theory Symbol_Client
  imports Symbol_Create Clients
begin

text \<open>
  Clients of the symbol tables, as sequences of calls, and their specification on lists of keys and data. A client names a table by the number of
  tables it has created before it. The simulation is proved once, for all kinds of keys that satisfy the contract \<open>symbol_keys\<close>.
\<close>

section \<open>Clients\<close>

datatype 'k table_op = Add 'k int | Find 'k | Find_Data 'k | Remove 'k bool | List_All | Drop bool

datatype 'k table_call = New string int | On_Table nat "'k table_op"

text \<open>The loop of a client over the contents list of a table, from \<open>head_symbol\<close> along \<open>next_symbol\<close>.\<close>

definition table_data :: "nat option \<Rightarrow> ('k sym_lib, int list) prog" where
  "table_data table =
     bnd (first_symbol table) (\<lambda>head.
     bnd (while_prog (\<lambda>r. fst r \<noteq> None) (\<lambda>r.
            bnd (rd Symbol_pool sy_data (fst r)) (\<lambda>d.
            bnd (rd Symbol_pool sy_next_symbol (fst r)) (\<lambda>next_symbol.
            ret (next_symbol, snd r @ [d])))) (head, [])) (\<lambda>r.
     ret (snd r)))"

text \<open>The functions of a file, as the client calls them.\<close>

record 'k table_lib =
  l_new_symbol_table :: "string \<Rightarrow> int \<Rightarrow> ('k sym_lib, nat option) prog"
  l_delete_symbol_table :: "nat option \<Rightarrow> bool \<Rightarrow> ('k sym_lib, unit) prog"
  l_add_symbol :: "nat option \<Rightarrow> 'k \<Rightarrow> int \<Rightarrow> ('k sym_lib, nat option) prog"
  l_find_symbol :: "nat option \<Rightarrow> 'k \<Rightarrow> ('k sym_lib, nat option) prog"
  l_find_symbol_data :: "nat option \<Rightarrow> 'k \<Rightarrow> ('k sym_lib, int) prog"
  l_delete_symbol :: "nat option \<Rightarrow> bool \<Rightarrow> ('k sym_lib, unit) prog"

definition lib_of :: "'k sym_kind \<Rightarrow> 'k table_lib" where
  "lib_of K = \<lparr>l_new_symbol_table = new_symbol_table K, l_delete_symbol_table = delete_symbol_table, l_add_symbol = add_symbol K,
     l_find_symbol = find_symbol K, l_find_symbol_data = find_symbol_data K, l_delete_symbol = delete_symbol K\<rparr>"

lemma lib_of_simps [simp]:
  "l_new_symbol_table (lib_of K) = new_symbol_table K" "l_delete_symbol_table (lib_of K) = delete_symbol_table"
  "l_add_symbol (lib_of K) = add_symbol K" "l_find_symbol (lib_of K) = find_symbol K"
  "l_find_symbol_data (lib_of K) = find_symbol_data K" "l_delete_symbol (lib_of K) = delete_symbol K"
  by (simp_all add: lib_of_def)

primrec run_table_op :: "'k table_lib \<Rightarrow> 'k table_op \<Rightarrow> nat option \<Rightarrow> ('k sym_lib, int list) prog" where
  "run_table_op L (Add key d) t = bnd (l_add_symbol L t key d) (\<lambda>_. ret [])"
| "run_table_op L (Find key) t =
     bnd (l_find_symbol L t key) (\<lambda>s. if s \<noteq> None then bnd (rd Symbol_pool sy_data s) (\<lambda>d. ret [d]) else ret [])"
| "run_table_op L (Find_Data key) t = bnd (l_find_symbol_data L t key) (\<lambda>d. ret [d])"
| "run_table_op L (Remove key fr) t =
     bnd (l_find_symbol L t key) (\<lambda>s. if s \<noteq> None then bnd (l_delete_symbol L s fr) (\<lambda>_. ret [1]) else ret [0])"
| "run_table_op L List_All t = table_data t"
| "run_table_op L (Drop fr) t = bnd (l_delete_symbol_table L t fr) (\<lambda>_. ret [])"

fun run_table_calls :: "'k table_lib \<Rightarrow> 'k table_call list \<Rightarrow> nat option list \<Rightarrow> ('k sym_lib, int list list \<times> nat option list) prog" where
  "run_table_calls L [] env = ret ([], env)"
| "run_table_calls L (New name n # cs) env = bnd (l_new_symbol_table L name n) (\<lambda>t. run_table_calls L cs (env @ [t]))"
| "run_table_calls L (On_Table k c # cs) env =
     bnd (run_table_op L c (if k < length env then env ! k else None)) (\<lambda>out.
     bnd (run_table_calls L cs env) (\<lambda>r. ret (out # fst r, snd r)))"

section \<open>The specification\<close>

text \<open>
  A call gives a fault, or its output, the new contents of the table (None when it is deleted) and the data the
  free routine is called with.
\<close>

primrec spec_table_op :: "'k sym_kind \<Rightarrow> 'k table_op \<Rightarrow> ('k \<times> int) list \<Rightarrow> fault + int list \<times> ('k \<times> int) list option \<times> int list" where
  "spec_table_op K (Add key d) l =
     (if k_refused K key \<or> key \<in> fst ` set l then Inl (Punt (k_prefix K @ ''_add_symbol'')) else Inr ([], Some (l @ [(key, d)]), []))"
| "spec_table_op K (Find key) l =
     (if k_refused K key then Inl (Punt (k_prefix K @ ''_find_symbol'')) else Inr (case map_of l key of None \<Rightarrow> [] | Some d \<Rightarrow> [d], Some l, []))"
| "spec_table_op K (Find_Data key) l =
     (if k_refused K key then Inl (Punt (k_prefix K @ ''_find_symbol_data''))
      else Inr ([case map_of l key of None \<Rightarrow> 0 | Some d \<Rightarrow> d], Some l, []))"
| "spec_table_op K (Remove key fr) l =
     (if k_refused K key then Inl (Punt (k_prefix K @ ''_find_symbol''))
      else case map_of l key of None \<Rightarrow> Inr ([0], Some l, [])
        | Some d \<Rightarrow> Inr ([1], Some (filter (\<lambda>e. fst e \<noteq> key) l), if fr then [d] else []))"
| "spec_table_op K List_All l = Inr (map snd l, Some l, [])"
| "spec_table_op K (Drop fr) l = Inr ([], None, if fr then map snd l else [])"

definition spec_new_table :: "'k sym_kind \<Rightarrow> int \<Rightarrow> fault + ('k \<times> int) list" where
  "spec_new_table K n = (if n > 1000000000 then Inl (Punt (k_prefix K @ ''_Symbol_Table''))
     else if n > 2 ^ 29 then Inl Int_Overflow else Inr [])"

fun spec_table_calls :: "'k sym_kind \<Rightarrow> 'k table_call list \<Rightarrow> ('k \<times> int) list option list \<Rightarrow>
    (fault + int list list \<times> ('k \<times> int) list option list \<times> int list) option" where
  "spec_table_calls K [] T = Some (Inr ([], T, []))"
| "spec_table_calls K (New name n # cs) T =
     (case spec_new_table K n of Inl f \<Rightarrow> Some (Inl f) | Inr l \<Rightarrow> spec_table_calls K cs (T @ [Some l]))"
| "spec_table_calls K (On_Table k c # cs) T =
     (case (if k < length T then T ! k else None) of None \<Rightarrow> None
      | Some l \<Rightarrow> (case spec_table_op K c l of Inl f \<Rightarrow> Some (Inl f)
        | Inr (out, l', freed) \<Rightarrow> (case spec_table_calls K cs (T[k := l']) of
              Some (Inr (outs, T', freed')) \<Rightarrow> Some (Inr (out # outs, T', freed @ freed'))
            | r \<Rightarrow> r)))"

definition nothing_in_use :: "'k sym_lib \<Rightarrow> bool" where
  "nothing_in_use g \<longleftrightarrow> (\<forall>a. \<not> in_use (Symbol_Table_pool g) g a \<and> \<not> in_use (Symbol_pool g) g a)"

definition tables_as_specified :: "int list list \<times> ('k \<times> int) list option list \<times> int list \<Rightarrow> int list list \<times> nat option list \<Rightarrow>
    'k sym_lib \<Rightarrow> bool" where
  "tables_as_specified x r g' \<longleftrightarrow> fst r = fst x \<and> freed_data g' = snd (snd x) \<and>
     (fst (snd x) = replicate (length (fst (snd x))) None \<longrightarrow> nothing_in_use g')"

section \<open>Results and faults\<close>

definition meets :: "('s, 'a) prog \<Rightarrow> fault + 'b \<Rightarrow> ('b \<Rightarrow> 'a \<Rightarrow> 's \<Rightarrow> bool) \<Rightarrow> 's \<Rightarrow> bool" where
  "meets m r Q s = (case r of Inl f \<Rightarrow> m s = Inl f | Inr x \<Rightarrow> wp m (Q x) s)"

lemma meets_simps [simp]: "meets m (Inl f) Q s \<longleftrightarrow> m s = Inl f" "meets m (Inr x) Q s \<longleftrightarrow> wp m (Q x) s"
  by (simp_all add: meets_def)

lemma bnd_stop: "m s = Inl f \<Longrightarrow> bnd m h s = Inl f"
  by (simp add: bnd_def)

lemma meets_seq:
  assumes "wp m P s" "\<And>x s'. P x s' \<Longrightarrow> meets (f x) r Q s'"
  shows "meets (bnd m f) r Q s"
proof (cases r)
  case (Inl e)
  from assms(1) obtain x s' where "m s = Inr (x, s')" "P x s'" by (auto simp: wp_run)
  with assms(2) [of x s'] Inl show ?thesis by (simp add: bnd_run [of m s])
qed (use assms in \<open>auto elim: wp_mono\<close>)

section \<open>The calls on one table\<close>

lemma table_data_wp:
  assumes "opened_table K g A t tp sp xs"
  shows "wp (table_data (Some t)) (\<lambda>r g'. r = map (sy_data g) xs \<and> g' = g) g"
proof -
  note d = tab_okD [OF opened_tableD(3) [OF assms]]
  have "wp (while_prog (\<lambda>r. fst r \<noteq> None) (\<lambda>r.
            bnd (rd Symbol_pool sy_data (fst r)) (\<lambda>d.
            bnd (rd Symbol_pool sy_next_symbol (fst r)) (\<lambda>next_symbol.
            ret (next_symbol, snd r @ [d])))) (fst_of xs None, [])) (\<lambda>r g'. snd r = map (sy_data g) xs \<and> g' = g) g"
  proof (rule wp_walk [where I = "\<lambda>vs out h. h = g \<and> (\<exists>us. xs = us @ vs \<and> out = map (sy_data g) us)"])
    fix a vs out h assume "h = g \<and> (\<exists>us. xs = us @ a # vs \<and> out = map (sy_data g) us)"
    then obtain us where I: "h = g" "xs = us @ a # vs" "out = map (sy_data g) us" by auto
    have "in_use (Symbol_pool g) g a" "sy_next_symbol g a = fst_of vs None" using use_symbols [OF assms, of a] d(3) I(2) by auto
    moreover have "xs = (us @ [a]) @ vs \<and> out @ [sy_data g a] = map (sy_data g) (us @ [a])" using I by simp
    ultimately show "wp (bnd (rd Symbol_pool sy_data (fst (Some a, out))) (\<lambda>d.
            bnd (rd Symbol_pool sy_next_symbol (fst (Some a, out))) (\<lambda>next_symbol.
            ret (next_symbol, snd (Some a, out) @ [d]))))
      (\<lambda>r s'. (\<exists>out'. r = (fst_of vs None, out') \<and> s' = g \<and> (\<exists>us. xs = us @ vs \<and> out' = map (sy_data g) us)) \<or>
        \<not> fst r \<noteq> None \<and> snd r = map (sy_data g) xs \<and> s' = g) h"
      by (auto simp: I(1))
  qed auto
  then show ?thesis using use_table [OF assms] d(4) by (simp add: table_data_def first_symbol_def)
qed

text \<open>The entries that stay when a symbol is taken out are those with another key.\<close>

lemma entries_without:
  assumes "inj_on (sy_key g) (set (us @ a # vs))" "distinct (us @ a # vs)"
  shows "filter (\<lambda>e. fst e \<noteq> sy_key g a) (map (entry g) (us @ a # vs)) = map (entry g) (us @ vs)"
proof -
  have "sy_key g x \<noteq> sy_key g a" if "x \<in> set (us @ vs)" for x
    using inj_onD [OF assms(1), of x a] assms(2) that by auto
  then have "filter (\<lambda>e. fst e \<noteq> sy_key g a) (map (entry g) xs) = map (entry g) xs" if "set xs \<subseteq> set (us @ vs)" for xs
    using that by (auto simp: filter_id_conv entry_def)
  from this [of us] this [of vs] show ?thesis by (simp add: entry_def)
qed

context symbol_keys begin

text \<open>\<open>op_done A t g\<close>: what a call of the client on the table \<open>t\<close> leaves.\<close>

definition op_done :: "(nat \<Rightarrow> ('k \<times> int) list option) \<Rightarrow> nat \<Rightarrow> 'k sym_lib \<Rightarrow> int list \<times> ('k \<times> int) list option \<times> int list \<Rightarrow>
    int list \<Rightarrow> 'k sym_lib \<Rightarrow> bool" where
  "op_done A t g x r g' \<longleftrightarrow> r = fst x \<and> sym_holds K g' (A(t := fst (snd x))) \<and> freed_data g' = freed_data g @ snd (snd x)"

lemma add_meets:
  assumes "sym_holds K g A" "A t = Some l" "length l < 3 * 2 ^ 28"
  shows "meets (run_table_op (lib_of K) (Add key d) (Some t)) (spec_table_op K (Add key d) l) (op_done A t g) g"
proof (cases "k_refused K key")
  case True
  then show ?thesis by (simp add: bnd_stop add_symbol_def fail_def)
next
  case False
  from add_symbol_run [OF assms(1,2) False assms(3), of d] False show ?thesis
    by (auto simp: bnd_stop op_done_def elim: wp_mono split: if_splits)
qed

lemma find_meets:
  assumes "sym_holds K g A" "A t = Some l"
  shows "meets (run_table_op (lib_of K) (Find key) (Some t)) (spec_table_op K (Find key) l) (op_done A t g) g"
proof (cases "k_refused K key")
  case True
  then show ?thesis by (simp add: bnd_stop find_symbol_def fail_def)
next
  case False
  from assms(1,2) obtain tp sp xs where o: "opened_table K g A t tp sp xs" and l: "l = map (entry g) xs" by (rule open_table)
  note inj = tab_okD(8) [OF opened_tableD(3) [OF o]]
  have "wp (run_table_op (lib_of K) (Find key) (Some t)) (op_done A t g (case map_of l key of None \<Rightarrow> [] | Some d \<Rightarrow> [d], Some l, [])) g"
    unfolding run_table_op.simps lib_of_simps
  proof (rule wp_seq [OF find_symbol_wp [OF o False]], elim conjE, hypsubst)
    fix r assume f: "found_symbol g key xs r"
    then have "in_use (Symbol_pool g) g a" if "r = Some a" for a using that use_symbols [OF o] by (simp add: found_symbol_def)
    then show "wp (if r \<noteq> None then bnd (rd Symbol_pool sy_data r) (\<lambda>d. ret [d]) else ret [])
      (op_done A t g (case map_of l key of None \<Rightarrow> [] | Some d \<Rightarrow> [d], Some l, [])) g"
      using map_of_found [OF inj f] assms by (auto simp: l op_done_def fun_upd_idem split: option.splits)
  qed
  with False show ?thesis by simp
qed

lemma find_data_meets:
  assumes "sym_holds K g A" "A t = Some l"
  shows "meets (run_table_op (lib_of K) (Find_Data key) (Some t)) (spec_table_op K (Find_Data key) l) (op_done A t g) g"
proof (cases "k_refused K key")
  case True
  then show ?thesis by (simp add: bnd_stop find_symbol_data_def fail_def)
next
  case False
  from find_symbol_data_wp [OF assms False] False assms show ?thesis
    by (auto simp: op_done_def fun_upd_idem elim: wp_mono)
qed

lemma remove_meets:
  assumes "sym_holds K g A" "A t = Some l"
  shows "meets (run_table_op (lib_of K) (Remove key fr) (Some t)) (spec_table_op K (Remove key fr) l) (op_done A t g) g"
proof (cases "k_refused K key")
  case True
  then show ?thesis by (simp add: bnd_stop find_symbol_def fail_def)
next
  case False
  from assms(1,2) obtain tp sp xs where o: "opened_table K g A t tp sp xs" and l: "l = map (entry g) xs" by (rule open_table)
  note t = tab_okD [OF opened_tableD(3) [OF o]]
  have "meets (run_table_op (lib_of K) (Remove key fr) (Some t)) (case map_of l key of None \<Rightarrow> Inr ([0], Some l, [])
        | Some d \<Rightarrow> Inr ([1], Some (filter (\<lambda>e. fst e \<noteq> key) l), if fr then [d] else [])) (op_done A t g) g"
    unfolding run_table_op.simps lib_of_simps
  proof (rule meets_seq [OF find_symbol_wp [OF o False]], elim conjE, hypsubst)
    fix r assume f: "found_symbol g key xs r"
    show "meets (if r \<noteq> None then bnd (delete_symbol K r fr) (\<lambda>_. ret [1]) else ret [0]) (case map_of l key of None \<Rightarrow> Inr ([0], Some l, [])
        | Some d \<Rightarrow> Inr ([1], Some (filter (\<lambda>e. fst e \<noteq> key) l), if fr then [d] else [])) (op_done A t g) g"
    proof (cases r)
      case None
      then show ?thesis using map_of_found [OF t(8) f] assms l by (simp add: op_done_def fun_upd_idem)
    next
      case (Some a)
      with f have a: "a \<in> set xs" "sy_key g a = key" by (simp_all add: found_symbol_def)
      then obtain us vs where xs: "xs = us @ a # vs" by (auto simp: in_set_conv_decomp)
      note o' = o [unfolded xs]
      have "wp (delete_symbol K r fr) (\<lambda>_ g'. sym_holds K g' (A(t \<mapsto> filter (\<lambda>e. fst e \<noteq> key) l)) \<and>
        freed_data g' = freed_data g @ (if fr then [sy_data g a] else [])) g"
        unfolding Some
      proof (rule wp_mono [OF delete_run [OF o', of fr]])
        fix u g' assume e: "deleted K fr g t us a vs tp sp g'"
        have "filter (\<lambda>e. fst e \<noteq> key) l = map (entry g) (us @ vs)"
          using entries_without [of g us a vs] t(1,8) a(2) by (simp add: l xs)
        then show "sym_holds K g' (A(t \<mapsto> filter (\<lambda>e. fst e \<noteq> key) l)) \<and> freed_data g' = freed_data g @ (if fr then [sy_data g a] else [])"
          using opened_holds [OF deleted_opened(1) [OF o' e]] deleted_opened(2) [OF o' e] by simp
      qed
      then show ?thesis using map_of_found [OF t(8) f] Some by (auto simp: l op_done_def elim!: wp_mono)
    qed
  qed
  with False show ?thesis by simp
qed

lemma table_op_meets:
  assumes "sym_holds K g A" "A t = Some l" "length l < 3 * 2 ^ 28"
  shows "meets (run_table_op (lib_of K) c (Some t)) (spec_table_op K c l) (op_done A t g) g"
proof (cases c)
  case List_All
  from assms(1,2) obtain tp sp xs where o: "opened_table K g A t tp sp xs" and l: "l = map (entry g) xs" by (rule open_table)
  have "map snd l = map (sy_data g) xs" by (simp add: l entry_def)
  with table_data_wp [OF o] show ?thesis using List_All assms by (auto simp: op_done_def fun_upd_idem elim: wp_mono)
next
  case (Drop fr)
  then show ?thesis using delete_table_wp [OF assms(1,2), of fr] by (auto simp: op_done_def elim: wp_mono)
qed (use add_meets [OF assms] find_meets [OF assms(1,2)] find_data_meets [OF assms(1,2)] remove_meets [OF assms(1,2)] in blast)+


section \<open>Sequences of calls\<close>

lemma new_table_meets:
  assumes "sym_holds K g A"
  shows "meets (new_symbol_table K name n) (spec_new_table K n)
    (\<lambda>l r g'. \<exists>t. r = Some t \<and> A t = None \<and> sym_holds K g' (A(t \<mapsto> l)) \<and> freed_data g' = freed_data g) g"
proof -
  consider "n > 1000000000" | "2 ^ 29 < n" "n \<le> 1000000000" | "n \<le> 2 ^ 29" by linarith
  then show ?thesis
  proof cases
    case 1
    then show ?thesis by (simp add: spec_new_table_def new_table_huge)
  next
    case 2
    then show ?thesis by (simp add: spec_new_table_def new_table_overflow [OF assms])
  next
    case 3
    then show ?thesis using new_table_wp [OF assms 3, of name]
      by (auto simp: spec_new_table_def table_added_def elim!: wp_mono)
  qed
qed

definition calls_done :: "int list \<Rightarrow> int list list \<times> ('k \<times> int) list option list \<times> int list \<Rightarrow> int list list \<times> nat option list \<Rightarrow> 'k sym_lib \<Rightarrow> bool" where
  "calls_done old x r g' \<longleftrightarrow> fst r = fst x \<and> freed_data g' = old @ snd (snd x) \<and>
     (\<exists>A'. sym_holds K g' A' \<and> sim A' (snd r) (fst (snd x)))"

lemma spec_table_op_length: "spec_table_op K c l = Inr (out, Some l', freed) \<Longrightarrow> length l' \<le> Suc (length l)"
  by (cases c) (auto split: if_splits option.splits simp: length_filter_le le_SucI)

text \<open>No table can hold more symbols than the client has made calls.\<close>

definition room :: "('k \<times> int) list option list \<Rightarrow> nat \<Rightarrow> bool" where
  "room T n \<longleftrightarrow> (\<forall>k<length T. \<forall>l. T ! k = Some l \<longrightarrow> length l + n \<le> 3 * 2 ^ 28)"

lemma room_new: "room T (Suc n) \<Longrightarrow> n \<le> 3 * 2 ^ 28 \<Longrightarrow> room (T @ [Some []]) n"
  by (auto simp: room_def nth_append less_Suc_eq dest: add_leD1)

lemma room_step:
  assumes "room T (Suc n)" "k < length T" "T ! k = Some l" "spec_table_op K c l = Inr (out, l', freed)"
  shows "room (T[k := l']) n"
  unfolding room_def
proof (intro allI impI)
  fix j m assume j: "j < length (T[k := l'])" "T[k := l'] ! j = Some m"
  have r: "length m + Suc n \<le> 3 * 2 ^ 28" if "T ! i = Some m" "i < length T" for i m using assms(1) that unfolding room_def by blast
  show "length m + n \<le> 3 * 2 ^ 28"
  proof (cases "j = k")
    case True
    with j assms(2) have "l' = Some m" by simp
    with spec_table_op_length [of c l out m freed] assms(4) r [OF assms(3,2)] show ?thesis by simp
  next
    case False
    with j r [of j m] show ?thesis by simp
  qed
qed

lemma table_calls_meet:
  assumes "sym_holds K g A" "sim A env T" "spec_table_calls K cs T = Some r" "room T (length cs)" "length cs \<le> 3 * 2 ^ 28"
  shows "meets (run_table_calls (lib_of K) cs env) r (calls_done (freed_data g)) g"
  using assms
proof (induction cs arbitrary: g A T env r)
  case Nil
  then show ?case by (auto simp: calls_done_def)
next
  case (Cons call cs)
  note IH = Cons.IH and pre = Cons.prems
  show ?case
  proof (cases call)
    case (New name n)
    from new_table_meets [OF pre(1), of name n] show ?thesis
    proof (cases "spec_new_table K n")
      case (Inl e)
      with new_table_meets [OF pre(1), of name n] pre(3) show ?thesis by (auto simp: New bnd_stop)
    next
      case (Inr l)
      then have l: "l = []" by (auto simp: spec_new_table_def split: if_splits)
      have new: "wp (new_symbol_table K name n) (\<lambda>r g'. \<exists>t. r = Some t \<and> A t = None \<and> sym_holds K g' (A(t \<mapsto> [])) \<and> freed_data g' = freed_data g) g"
        using new_table_meets [OF pre(1), of name n] Inr l by simp
      show ?thesis unfolding New run_table_calls.simps lib_of_simps
      proof (rule meets_seq [OF new], elim exE conjE)
        fix t' g' t assume t: "t' = Some t" "A t = None" "sym_holds K g' (A(t \<mapsto> []))" "freed_data g' = freed_data g"
        from pre(3) have "spec_table_calls K cs (T @ [Some []]) = Some r" by (simp add: New Inr l)
        from IH [OF t(3) sim_new [OF pre(2) t(2)] this] pre(4,5) t(1,4) room_new
        show "meets (run_table_calls (lib_of K) cs (env @ [t'])) r (calls_done (freed_data g)) g'" by simp
      qed
    qed
  next
    case (On_Table k c)
    obtain l where l: "k < length T" "T ! k = Some l" using pre(3) by (auto simp: On_Table split: option.splits if_splits)
    from sim_live [OF pre(2) l] obtain s where s: "k < length env" "env ! k = Some s" "A s = Some l" by auto
    have "length l + length (call # cs) \<le> 3 * 2 ^ 28" using pre(4) l unfolding room_def by blast
    then have len: "length l < 3 * 2 ^ 28" by simp
    note op = table_op_meets [OF pre(1) s(3) len, of c]
    show ?thesis
    proof (cases "spec_table_op K c l")
      case (Inl e)
      with op pre(3) l s show ?thesis by (auto simp: On_Table bnd_stop)
    next
      case (Inr x)
      obtain out l' freed where x: "x = (out, l', freed)" by (cases x)
      obtain r' where r': "spec_table_calls K cs (T[k := l']) = Some r'" and
        r: "r = (case r' of Inl e \<Rightarrow> Inl e | Inr (outs, T', freed') \<Rightarrow> Inr (out # outs, T', freed @ freed'))"
        using pre(3) l Inr x by (auto simp: On_Table split: option.splits sum.splits)
      have op': "wp (run_table_op (lib_of K) c (Some s)) (op_done A s g x) g" using op Inr by simp
      show ?thesis unfolding On_Table run_table_calls.simps if_P [OF s(1)] s(2)
      proof (rule meets_seq [OF op'])
        fix o' g' assume d: "op_done A s g x o' g'"
        then have h: "sym_holds K g' (A(s := l'))" and fd: "freed_data g' = freed_data g @ freed" and o': "o' = out" by (simp_all add: op_done_def x)
        have rest: "meets (run_table_calls (lib_of K) cs env) r' (calls_done (freed_data g')) g'"
          by (rule IH [OF h sim_upd [OF pre(2) l s(2)] r' room_step [OF _ l Inr [unfolded x]]]) (use pre(4,5) in simp_all)
        show "meets (bnd (run_table_calls (lib_of K) cs env) (\<lambda>r. ret (o' # fst r, snd r))) r (calls_done (freed_data g)) g'"
        proof (cases r')
          case (Inl e)
          with rest r show ?thesis by (simp add: bnd_stop)
        next
          case (Inr y)
          with rest r show ?thesis by (cases y) (auto simp: o' fd calls_done_def elim!: wp_mono)
        qed
      qed
    qed
  qed
qed

text \<open>What is left when the client has deleted all its tables: nothing.\<close>

lemma all_deleted:
  assumes "sym_holds K g A" "sim A env T" "T = replicate (length T) None"
  shows "nothing_in_use g"
proof -
  have "A = Map.empty" by (rule sim_freed [OF assms(2,3)])
  with assms(1) have "Symbol_Table_pool g = None \<and> Symbol_pool g = None \<or>
    (\<exists>tp sp. sym_pools g tp sp \<and> pool_used tp g = {} \<and> pool_used sp g = {})"
    by (auto simp: sym_holds_def tables_ok_def entries_def fun_eq_iff split: if_splits)
  then show ?thesis
    by (auto simp: nothing_in_use_def sym_pools_def in_use_eq in_use_def [of None])
qed


text \<open>The refinement theorem, from an empty library.\<close>

theorem tables_refine:
  assumes "Symbol_Table_pool g = None" "Symbol_pool g = None" "freed_data g = []" "spec_table_calls K cs [] = Some r" "length cs \<le> 3 * 2 ^ 28"
  shows "meets (run_table_calls (lib_of K) cs []) r tables_as_specified g"
proof -
  have start: "sym_holds K g Map.empty" "room [] (length cs)" using assms(1,2) by (simp_all add: sym_holds_def room_def)
  note m = table_calls_meet [OF start(1) sim_start assms(4) start(2) assms(5)]
  show ?thesis
  proof (cases r)
    case (Inr x)
    with m have "wp (run_table_calls (lib_of K) cs []) (calls_done (freed_data g) x) g" by simp
    then have "wp (run_table_calls (lib_of K) cs []) (tables_as_specified x) g"
      by (rule wp_mono) (auto simp: calls_done_def tables_as_specified_def assms(3) dest: all_deleted)
    with Inr show ?thesis by simp
  qed (use m in simp)
qed

end

end
