(* ===== verification/Symbol_Kinds.thy ===== *)
theory Symbol_Kinds
  imports Symbol_Client
begin

text \<open>
  The four files of the dynamic symbol tables as instances. A C string is the list of the characters before the terminating NUL, an array with its
  length is a list; \<open>strcmp\<close> gives 0 exactly for equal strings. The sizes of the structures are those of a 64-bit machine.
\<close>

section \<open>\<open>int_symbol.c\<close>\<close>

text \<open>The index is taken from the value itself, \<open>value & hash_mask\<close>; there is no other hash value.\<close>

definition INT_kind :: "int sym_kind" where
  "INT_kind = \<lparr>k_prefix = ''INT'', k_table_bytes = 56, k_symbol_bytes = 56, k_stored = False, k_hash = word_of_int,
     k_same = (=), k_refused = (\<lambda>_. False)\<rparr>"

definition INT_new_symbol_table :: "string \<Rightarrow> int \<Rightarrow> (int sym_lib, nat option) prog" where
  "INT_new_symbol_table = new_symbol_table INT_kind"

definition INT_delete_symbol_table :: "nat option \<Rightarrow> bool \<Rightarrow> (int sym_lib, unit) prog" where
  "INT_delete_symbol_table = delete_symbol_table"

definition INT_resize_symbol_table :: "nat option \<Rightarrow> (int sym_lib, unit) prog" where
  "INT_resize_symbol_table = resize_symbol_table INT_kind"

definition INT_add_symbol :: "nat option \<Rightarrow> int \<Rightarrow> int \<Rightarrow> (int sym_lib, nat option) prog" where
  "INT_add_symbol = add_symbol INT_kind"

definition INT_find_symbol :: "nat option \<Rightarrow> int \<Rightarrow> (int sym_lib, nat option) prog" where
  "INT_find_symbol = find_symbol INT_kind"

definition INT_find_symbol_data :: "nat option \<Rightarrow> int \<Rightarrow> (int sym_lib, int) prog" where
  "INT_find_symbol_data = find_symbol_data INT_kind"

definition INT_delete_symbol :: "nat option \<Rightarrow> bool \<Rightarrow> (int sym_lib, unit) prog" where
  "INT_delete_symbol = delete_symbol INT_kind"

definition INT_print_symbol_table_hash ::
  "nat option \<Rightarrow> (int sym_lib, (string \<times> int \<times> int \<times> nat) \<times> (nat \<times> int list) list) prog" where
  "INT_print_symbol_table_hash = print_symbol_table_hash (\<lambda>v. v)"

section \<open>\<open>string_symbol.c\<close>\<close>

text \<open>The hash value is multiplied by 17 with a shift and an addition, then the character is added, read as \<open>unsigned char\<close>.\<close>

primrec hash_string_loop :: "32 word \<Rightarrow> string \<Rightarrow> 32 word" where
  "hash_string_loop hash_val [] = hash_val"
| "hash_string_loop hash_val (ch # ptr) = hash_string_loop (hash_val + push_bit 4 hash_val + of_char ch) ptr"

definition STRING_hash_string :: "string \<Rightarrow> 32 word" where
  "STRING_hash_string string = hash_string_loop 0 string"

definition STRING_kind :: "string sym_kind" where
  "STRING_kind = \<lparr>k_prefix = ''STRING'', k_table_bytes = 56, k_symbol_bytes = 64, k_stored = True, k_hash = STRING_hash_string,
     k_same = (=), k_refused = (\<lambda>_. False)\<rparr>"

definition STRING_new_symbol_table :: "string \<Rightarrow> int \<Rightarrow> (string sym_lib, nat option) prog" where
  "STRING_new_symbol_table = new_symbol_table STRING_kind"

definition STRING_delete_symbol_table :: "nat option \<Rightarrow> bool \<Rightarrow> (string sym_lib, unit) prog" where
  "STRING_delete_symbol_table = delete_symbol_table"

definition STRING_resize_symbol_table :: "nat option \<Rightarrow> (string sym_lib, unit) prog" where
  "STRING_resize_symbol_table = resize_symbol_table STRING_kind"

definition STRING_add_symbol :: "nat option \<Rightarrow> string \<Rightarrow> int \<Rightarrow> (string sym_lib, nat option) prog" where
  "STRING_add_symbol = add_symbol STRING_kind"

definition STRING_find_symbol :: "nat option \<Rightarrow> string \<Rightarrow> (string sym_lib, nat option) prog" where
  "STRING_find_symbol = find_symbol STRING_kind"

definition STRING_find_symbol_data :: "nat option \<Rightarrow> string \<Rightarrow> (string sym_lib, int) prog" where
  "STRING_find_symbol_data = find_symbol_data STRING_kind"

definition STRING_delete_symbol :: "nat option \<Rightarrow> bool \<Rightarrow> (string sym_lib, unit) prog" where
  "STRING_delete_symbol = delete_symbol STRING_kind"

definition STRING_print_symbol_table_hash ::
  "nat option \<Rightarrow> (string sym_lib, (string \<times> int \<times> int \<times> nat) \<times> (nat \<times> string list) list) prog" where
  "STRING_print_symbol_table_hash = print_symbol_table_hash (\<lambda>s. s)"

definition STRING_first_symbol :: "nat option \<Rightarrow> (string sym_lib, nat option) prog" where
  "STRING_first_symbol = first_symbol"

section \<open>\<open>int_array_symbol.c\<close>\<close>

primrec hash_int_array_loop :: "32 word \<Rightarrow> int list \<Rightarrow> 32 word" where
  "hash_int_array_loop hash_val [] = hash_val"
| "hash_int_array_loop hash_val (x # xs) = hash_int_array_loop (hash_val + push_bit 4 hash_val + word_of_int x) xs"

definition INT_ARRAY_hash_int_array :: "int list \<Rightarrow> 32 word" where
  "INT_ARRAY_hash_int_array int_array = hash_int_array_loop 0 int_array"

text \<open>The loop that compares two arrays of the same length leaves at the first difference.\<close>

fun elements_match :: "'e list \<Rightarrow> 'e list \<Rightarrow> bool" where
  "elements_match (x # xs) (y # ys) = (if x \<noteq> y then False else elements_match xs ys)"
| "elements_match _ _ = True"

definition array_match :: "'e list \<Rightarrow> 'e list \<Rightarrow> bool" where
  "array_match xs ys = (length xs = length ys \<and> elements_match xs ys)"

definition array_refused :: "'e list \<Rightarrow> bool" where
  "array_refused xs = (length xs < 1)"

text \<open>The print loop of \<open>int_array_symbol.c\<close> starts at index 0 after the first element has been printed.\<close>

definition shown_int_array :: "int list \<Rightarrow> int list" where
  "shown_int_array int_array = int_array ! 0 # map (\<lambda>i. int_array ! i) [0..<length int_array]"

definition INT_ARRAY_kind :: "int list sym_kind" where
  "INT_ARRAY_kind = \<lparr>k_prefix = ''INT_ARRAY'', k_table_bytes = 56, k_symbol_bytes = 64, k_stored = True, k_hash = INT_ARRAY_hash_int_array,
     k_same = array_match, k_refused = array_refused\<rparr>"

definition INT_ARRAY_new_symbol_table :: "string \<Rightarrow> int \<Rightarrow> (int list sym_lib, nat option) prog" where
  "INT_ARRAY_new_symbol_table = new_symbol_table INT_ARRAY_kind"

definition INT_ARRAY_delete_symbol_table :: "nat option \<Rightarrow> bool \<Rightarrow> (int list sym_lib, unit) prog" where
  "INT_ARRAY_delete_symbol_table = delete_symbol_table"

definition INT_ARRAY_resize_symbol_table :: "nat option \<Rightarrow> (int list sym_lib, unit) prog" where
  "INT_ARRAY_resize_symbol_table = resize_symbol_table INT_ARRAY_kind"

definition INT_ARRAY_add_symbol :: "nat option \<Rightarrow> int list \<Rightarrow> int \<Rightarrow> (int list sym_lib, nat option) prog" where
  "INT_ARRAY_add_symbol = add_symbol INT_ARRAY_kind"

definition INT_ARRAY_find_symbol :: "nat option \<Rightarrow> int list \<Rightarrow> (int list sym_lib, nat option) prog" where
  "INT_ARRAY_find_symbol = find_symbol INT_ARRAY_kind"

definition INT_ARRAY_find_symbol_data :: "nat option \<Rightarrow> int list \<Rightarrow> (int list sym_lib, int) prog" where
  "INT_ARRAY_find_symbol_data = find_symbol_data INT_ARRAY_kind"

definition INT_ARRAY_delete_symbol :: "nat option \<Rightarrow> bool \<Rightarrow> (int list sym_lib, unit) prog" where
  "INT_ARRAY_delete_symbol = delete_symbol INT_ARRAY_kind"

definition INT_ARRAY_print_symbol_table_hash ::
  "nat option \<Rightarrow> (int list sym_lib, (string \<times> int \<times> int \<times> nat) \<times> (nat \<times> int list list) list) prog" where
  "INT_ARRAY_print_symbol_table_hash = print_symbol_table_hash shown_int_array"

section \<open>\<open>char_array_symbol.c\<close>\<close>

primrec hash_char_array_loop :: "32 word \<Rightarrow> string \<Rightarrow> 32 word" where
  "hash_char_array_loop hash_val [] = hash_val"
| "hash_char_array_loop hash_val (x # xs) = hash_char_array_loop (hash_val + push_bit 4 hash_val + of_char x) xs"

definition CHAR_ARRAY_hash_char_array :: "string \<Rightarrow> 32 word" where
  "CHAR_ARRAY_hash_char_array char_array = hash_char_array_loop 0 char_array"

definition shown_char_array :: "string \<Rightarrow> string" where
  "shown_char_array char_array = char_array ! 0 # map (\<lambda>i. char_array ! i) [1..<length char_array]"

definition CHAR_ARRAY_kind :: "string sym_kind" where
  "CHAR_ARRAY_kind = \<lparr>k_prefix = ''CHAR_ARRAY'', k_table_bytes = 56, k_symbol_bytes = 64, k_stored = True, k_hash = CHAR_ARRAY_hash_char_array,
     k_same = array_match, k_refused = array_refused\<rparr>"

definition CHAR_ARRAY_new_symbol_table :: "string \<Rightarrow> int \<Rightarrow> (string sym_lib, nat option) prog" where
  "CHAR_ARRAY_new_symbol_table = new_symbol_table CHAR_ARRAY_kind"

definition CHAR_ARRAY_delete_symbol_table :: "nat option \<Rightarrow> bool \<Rightarrow> (string sym_lib, unit) prog" where
  "CHAR_ARRAY_delete_symbol_table = delete_symbol_table"

definition CHAR_ARRAY_resize_symbol_table :: "nat option \<Rightarrow> (string sym_lib, unit) prog" where
  "CHAR_ARRAY_resize_symbol_table = resize_symbol_table CHAR_ARRAY_kind"

definition CHAR_ARRAY_add_symbol :: "nat option \<Rightarrow> string \<Rightarrow> int \<Rightarrow> (string sym_lib, nat option) prog" where
  "CHAR_ARRAY_add_symbol = add_symbol CHAR_ARRAY_kind"

definition CHAR_ARRAY_find_symbol :: "nat option \<Rightarrow> string \<Rightarrow> (string sym_lib, nat option) prog" where
  "CHAR_ARRAY_find_symbol = find_symbol CHAR_ARRAY_kind"

definition CHAR_ARRAY_find_symbol_data :: "nat option \<Rightarrow> string \<Rightarrow> (string sym_lib, int) prog" where
  "CHAR_ARRAY_find_symbol_data = find_symbol_data CHAR_ARRAY_kind"

definition CHAR_ARRAY_delete_symbol :: "nat option \<Rightarrow> bool \<Rightarrow> (string sym_lib, unit) prog" where
  "CHAR_ARRAY_delete_symbol = delete_symbol CHAR_ARRAY_kind"

definition CHAR_ARRAY_print_symbol_table_hash ::
  "nat option \<Rightarrow> (string sym_lib, (string \<times> int \<times> int \<times> nat) \<times> (nat \<times> string list) list) prog" where
  "CHAR_ARRAY_print_symbol_table_hash = print_symbol_table_hash shown_char_array"

section \<open>The contract of the kinds\<close>

lemma elements_match_eq: "length xs = length ys \<Longrightarrow> elements_match xs ys \<longleftrightarrow> xs = ys"
  by (induction xs ys rule: list_induct2) simp_all

lemma array_match_eq: "array_match xs ys \<longleftrightarrow> xs = ys"
  by (auto simp: array_match_def elements_match_eq)

interpretation int_keys: symbol_keys INT_kind
  by unfold_locales (simp_all add: INT_kind_def)

interpretation string_keys: symbol_keys STRING_kind
  by unfold_locales (simp_all add: STRING_kind_def)

interpretation int_array_keys: symbol_keys INT_ARRAY_kind
  by unfold_locales (simp_all add: INT_ARRAY_kind_def array_match_eq)

interpretation char_array_keys: symbol_keys CHAR_ARRAY_kind
  by unfold_locales (simp_all add: CHAR_ARRAY_kind_def array_match_eq)

text \<open>The hash of an array is the polynomial at 17 of its elements; the integer arrays are shown with the first element twice.\<close>

lemma hash_step: "h + push_bit 4 h + c = 17 * h + (c :: 32 word)"
  by (simp add: push_bit_eq_mult)

lemma hash_int_array_fold: "hash_int_array_loop h xs = fold (\<lambda>x h. 17 * h + word_of_int x) xs h"
  by (induction xs arbitrary: h) (simp_all add: hash_step)

lemma shown_int_array: "xs \<noteq> [] \<Longrightarrow> shown_int_array xs = hd xs # xs"
  by (simp add: shown_int_array_def hd_conv_nth map_nth)

lemma shown_char_array: "xs \<noteq> [] \<Longrightarrow> shown_char_array xs = xs"
  by (cases xs) (simp_all add: shown_char_array_def map_nth comp_def del: upt_Suc flip: map_Suc_upt)

end
