(* ===== verification/Symbol_Properties.thy ===== *)
theory Symbol_Properties
  imports Symbol_Kinds
begin

text \<open>
  The properties of the dynamic symbol tables. Each kind of tables refines the specification \<open>spec_table_calls\<close> on lists of keys and data,
  faults included.
\<close>

section \<open>The functions of the four files\<close>

definition STRING_lib :: "string table_lib" where
  "STRING_lib = \<lparr>l_new_symbol_table = STRING_new_symbol_table, l_delete_symbol_table = STRING_delete_symbol_table,
     l_add_symbol = STRING_add_symbol, l_find_symbol = STRING_find_symbol, l_find_symbol_data = STRING_find_symbol_data,
     l_delete_symbol = STRING_delete_symbol\<rparr>"

definition INT_lib :: "int table_lib" where
  "INT_lib = \<lparr>l_new_symbol_table = INT_new_symbol_table, l_delete_symbol_table = INT_delete_symbol_table,
     l_add_symbol = INT_add_symbol, l_find_symbol = INT_find_symbol, l_find_symbol_data = INT_find_symbol_data,
     l_delete_symbol = INT_delete_symbol\<rparr>"

definition INT_ARRAY_lib :: "int list table_lib" where
  "INT_ARRAY_lib = \<lparr>l_new_symbol_table = INT_ARRAY_new_symbol_table, l_delete_symbol_table = INT_ARRAY_delete_symbol_table,
     l_add_symbol = INT_ARRAY_add_symbol, l_find_symbol = INT_ARRAY_find_symbol, l_find_symbol_data = INT_ARRAY_find_symbol_data,
     l_delete_symbol = INT_ARRAY_delete_symbol\<rparr>"

definition CHAR_ARRAY_lib :: "string table_lib" where
  "CHAR_ARRAY_lib = \<lparr>l_new_symbol_table = CHAR_ARRAY_new_symbol_table, l_delete_symbol_table = CHAR_ARRAY_delete_symbol_table,
     l_add_symbol = CHAR_ARRAY_add_symbol, l_find_symbol = CHAR_ARRAY_find_symbol, l_find_symbol_data = CHAR_ARRAY_find_symbol_data,
     l_delete_symbol = CHAR_ARRAY_delete_symbol\<rparr>"

lemmas lib_ops =
  STRING_new_symbol_table_def STRING_delete_symbol_table_def STRING_add_symbol_def STRING_find_symbol_def STRING_find_symbol_data_def STRING_delete_symbol_def
  INT_new_symbol_table_def INT_delete_symbol_table_def INT_add_symbol_def INT_find_symbol_def INT_find_symbol_data_def INT_delete_symbol_def
  INT_ARRAY_new_symbol_table_def INT_ARRAY_delete_symbol_table_def INT_ARRAY_add_symbol_def INT_ARRAY_find_symbol_def
  INT_ARRAY_find_symbol_data_def INT_ARRAY_delete_symbol_def
  CHAR_ARRAY_new_symbol_table_def CHAR_ARRAY_delete_symbol_table_def CHAR_ARRAY_add_symbol_def CHAR_ARRAY_find_symbol_def
  CHAR_ARRAY_find_symbol_data_def CHAR_ARRAY_delete_symbol_def

lemma libs: "STRING_lib = lib_of STRING_kind" "INT_lib = lib_of INT_kind" "INT_ARRAY_lib = lib_of INT_ARRAY_kind" "CHAR_ARRAY_lib = lib_of CHAR_ARRAY_kind"
  by (simp_all add: STRING_lib_def INT_lib_def INT_ARRAY_lib_def CHAR_ARRAY_lib_def lib_of_def lib_ops)

text \<open>The globals before the first call; \<open>k\<close> is what is in the memory of the keys.\<close>

definition no_tables :: "'k \<Rightarrow> 'k sym_lib" where
  "no_tables k = \<lparr>bypass_alloc_routines = False, active_alloc_pools = [], pool_mem = Map.empty, pool_top = 0,
     Symbol_Table_pool = None, Symbol_pool = None, sy_key = \<lambda>_. k, sy_hash_val = \<lambda>_. 0, sy_data = \<lambda>_. 0, sy_table = \<lambda>_. None,
     sy_next_hash = \<lambda>_. None, sy_prev_hash = \<lambda>_. None, sy_next_symbol = \<lambda>_. None, sy_prev_symbol = \<lambda>_. None,
     tb_name = \<lambda>_. [], tb_hash = \<lambda>_. [], tb_hash_size = \<lambda>_. 0, tb_hash_mask = \<lambda>_. 0, tb_resize_size = \<lambda>_. 0,
     tb_head_symbol = \<lambda>_. None, tb_tail_symbol = \<lambda>_. None, tb_symbol_count = \<lambda>_. 0, freed_data = []\<rparr>"

lemma no_tables_simps [simp]:
  "Symbol_Table_pool (no_tables k) = None" "Symbol_pool (no_tables k) = None" "freed_data (no_tables k) = []"
  by (simp_all add: no_tables_def)

section \<open>Refinement\<close>

text \<open>
  C36. Tables keyed by strings. Take any sequence of calls that creates tables and uses them: adding symbols (with the doubling of
  the hash array), looking up the symbol or the data of a name, deleting the symbol of a name, listing the data in the order of
  addition, deleting a table. The calls on lists of names and data predict every result, and also the calls that stop the
  program: adding a name twice, and creating a table that is too large. The free routine is called with exactly the data of the
  deleted symbols, in order. When all the tables are deleted nothing is in use.
\<close>

theorem string_tables_refine:
  assumes "Symbol_Table_pool g = None" "Symbol_pool g = None" "freed_data g = []" "spec_table_calls STRING_kind cs [] = Some r" "length cs \<le> 3 * 2 ^ 28"
  shows "meets (run_table_calls STRING_lib cs []) r tables_as_specified g"
  unfolding libs using assms by (rule string_keys.tables_refine)

definition string_calls :: "string table_call list" where
  "string_calls = [New ''types'' 10, On_Table 0 (Add ''int'' 1), On_Table 0 (Add ''float'' 2), On_Table 0 (Find_Data ''float''),
     On_Table 0 (Find_Data ''char''), On_Table 0 (Remove ''int'' True), On_Table 0 (Find ''int''), On_Table 0 (Add ''int'' 3),
     On_Table 0 List_All, On_Table 0 (Drop True)]"

lemma string_calls_spec:
  "spec_table_calls STRING_kind string_calls [] = Some (Inr ([[], [], [2], [0], [1], [], [], [2, 3], []], [None], [1, 2, 3]))"
  by (simp add: string_calls_def spec_new_table_def STRING_kind_def)

theorem string_tables_refine_witness:
  "meets (run_table_calls STRING_lib string_calls []) (Inr ([[], [], [2], [0], [1], [], [], [2, 3], []], [None], [1, 2, 3]))
     tables_as_specified (no_tables [])"
  by (rule string_tables_refine [OF _ _ _ string_calls_spec]) (simp_all add: string_calls_def)

text \<open>
  C37. The same for the tables keyed by integers, where the index of a symbol comes from its value.
\<close>

theorem int_tables_refine:
  assumes "Symbol_Table_pool g = None" "Symbol_pool g = None" "freed_data g = []" "spec_table_calls INT_kind cs [] = Some r" "length cs \<le> 3 * 2 ^ 28"
  shows "meets (run_table_calls INT_lib cs []) r tables_as_specified g"
  unfolding libs using assms by (rule int_keys.tables_refine)

text \<open>Adding a value twice stops the program.\<close>

theorem int_tables_refine_witness:
  "run_table_calls INT_lib [New ''ids'' (- 1), On_Table 0 (Add (- 5) 1), On_Table 0 (Add 27 2), On_Table 0 (Add (- 5) 3)] [] (no_tables 0) =
     Inl (Punt ''INT_add_symbol'')"
  using int_tables_refine [of "no_tables 0" "[New ''ids'' (- 1), On_Table 0 (Add (- 5) 1), On_Table 0 (Add 27 2), On_Table 0 (Add (- 5) 3)]"
    "Inl (Punt ''INT_add_symbol'')"] by (simp add: spec_new_table_def INT_kind_def)

text \<open>
  C38. The same for the tables keyed by arrays of integers and by arrays of characters; a call with an empty array stops the program.
\<close>

theorem array_tables_refine:
  assumes "Symbol_Table_pool g = None" "Symbol_pool g = None" "freed_data g = []" "spec_table_calls INT_ARRAY_kind cs [] = Some r" "length cs \<le> 3 * 2 ^ 28"
    and "Symbol_Table_pool h = None" "Symbol_pool h = None" "freed_data h = []" "spec_table_calls CHAR_ARRAY_kind ds [] = Some s" "length ds \<le> 3 * 2 ^ 28"
  shows "meets (run_table_calls INT_ARRAY_lib cs []) r tables_as_specified g \<and> meets (run_table_calls CHAR_ARRAY_lib ds []) s tables_as_specified h"
  unfolding libs using int_array_keys.tables_refine [OF assms(1-5)] char_array_keys.tables_refine [OF assms(6-10)] by blast

theorem array_tables_refine_witness:
  "meets (run_table_calls INT_ARRAY_lib [New ''dims'' 4, On_Table 0 (Add [2, 3] 1), On_Table 0 (Add [2] 2), On_Table 0 (Find_Data [2]), On_Table 0 (Drop False)] [])
     (Inr ([[], [], [2], []], [None], [])) tables_as_specified (no_tables []) \<and>
   run_table_calls CHAR_ARRAY_lib [New ''bytes'' 4, On_Table 0 (Find [])] [] (no_tables []) = Inl (Punt ''CHAR_ARRAY_find_symbol'')"
  using array_tables_refine [of "no_tables []" "[New ''dims'' 4, On_Table 0 (Add [2, 3] 1), On_Table 0 (Add [2] 2), On_Table 0 (Find_Data [2]), On_Table 0 (Drop False)]"
    "Inr ([[], [], [2], []], [None], [])" "no_tables []" "[New ''bytes'' 4, On_Table 0 (Find [])]" "Inl (Punt ''CHAR_ARRAY_find_symbol'')"]
  by (simp add: spec_new_table_def INT_ARRAY_kind_def CHAR_ARRAY_kind_def array_refused_def)

section \<open>The size of a new table\<close>

lemma best_size_least:
  assumes "best_size n k" "5 \<le> j" "n * 2 \<le> 2 ^ j"
  shows "k \<le> j"
proof (rule ccontr)
  assume j: "\<not> k \<le> j"
  then have "(2 :: int) ^ j \<le> 2 ^ (k - 1)" by (intro power_increasing) auto
  moreover have "2 ^ (k - 1) < n * 2" using assms(1,2) j by (auto simp: best_size_def)
  ultimately show False using assms(3) by linarith
qed

text \<open>
  C39. A new table is empty and its array has the least power of two from 32 on that is at least twice the expected number of symbols,
  all entries NULL; a negative expected number counts as 0. It is resized when three quarters are full.
\<close>

theorem new_table_size:
  assumes "sym_holds INT_kind g A" "n \<le> 2 ^ 29"
  shows "wp (INT_new_symbol_table name n) (\<lambda>r g'. \<exists>t k. r = Some t \<and> A t = None \<and> sym_holds INT_kind g' (A(t \<mapsto> [])) \<and>
    tb_hash g' t = replicate (2 ^ k) None \<and> tb_hash_size g' t = 2 ^ k \<and> 4 * tb_resize_size g' t = 3 * 2 ^ k \<and>
    5 \<le> k \<and> max 0 n * 2 \<le> 2 ^ k \<and> (\<forall>j. 5 \<le> j \<and> max 0 n * 2 \<le> 2 ^ j \<longrightarrow> k \<le> j)) g"
  unfolding INT_new_symbol_table_def
proof (rule wp_mono [OF int_keys.new_table_wp [OF assms]], elim conjE exE)
  fix r g' k assume b: "best_size (max 0 n) k" and t: "table_added INT_kind A name k r g'"
  have k: "5 \<le> k" "max 0 n * 2 \<le> 2 ^ k" using b by (simp_all add: best_size_def)
  have q: "4 * (2 :: int) ^ (k - 2) = 2 ^ k"
  proof -
    have "(2 :: int) ^ 2 * 2 ^ (k - 2) = 2 ^ (2 + (k - 2))" by (rule power_add [symmetric])
    also have "2 + (k - 2) = k" using k(1) by simp
    finally show ?thesis by simp
  qed
  show "\<exists>t k. r = Some t \<and> A t = None \<and> sym_holds INT_kind g' (A(t \<mapsto> [])) \<and>
    tb_hash g' t = replicate (2 ^ k) None \<and> tb_hash_size g' t = 2 ^ k \<and> 4 * tb_resize_size g' t = 3 * 2 ^ k \<and>
    5 \<le> k \<and> max 0 n * 2 \<le> 2 ^ k \<and> (\<forall>j. 5 \<le> j \<and> max 0 n * 2 \<le> 2 ^ j \<longrightarrow> k \<le> j)"
    using t k q best_size_least [OF b] unfolding table_added_def by auto
qed

lemma no_tables_hold: "sym_holds K (no_tables k) Map.empty"
  by (simp add: sym_holds_def)

theorem new_table_size_witness:
  "wp (INT_new_symbol_table ''ids'' 100) (\<lambda>r g'. \<exists>t. r = Some t \<and> tb_hash_size g' t = 256 \<and> tb_resize_size g' t = 192) (no_tables 0)"
proof (rule wp_mono [OF new_table_size [OF no_tables_hold]], simp, elim exE conjE)
  fix r :: "nat option" and g' :: "int sym_lib" and t k
  assume h: "r = Some t" "tb_hash_size g' t = 2 ^ k" "4 * tb_resize_size g' t = 3 * 2 ^ k" "max 0 100 * 2 \<le> (2 :: int) ^ k"
    "\<forall>j. 5 \<le> j \<and> max 0 100 * 2 \<le> (2 :: int) ^ j \<longrightarrow> k \<le> j"
  have "k \<le> 8" using h(5) by (auto dest: spec [of _ 8])
  moreover have "\<not> k \<le> 7"
  proof
    assume "k \<le> 7"
    then have "(2 :: int) ^ k \<le> 2 ^ 7" by (intro power_increasing) auto
    then show False using h(4) by simp
  qed
  ultimately have "k = 8" by simp
  with h show "\<exists>t. r = Some t \<and> tb_hash_size g' t = 256 \<and> tb_resize_size g' t = 192" by simp
qed

text \<open>
  C40. The limit of the size is too high: for an expected number from \<open>2^29 + 1\<close> to a billion, which the check at the start of the function
  accepts, the size is \<open>2^31\<close> and the loop that clears the array overflows its index. Above a billion the call stops the program.
\<close>

theorem new_table_overflows:
  assumes "sym_holds STRING_kind g A" "2 ^ 29 < n"
  shows "STRING_new_symbol_table name n g = Inl (if n > 1000000000 then Punt ''STRING_Symbol_Table'' else Int_Overflow)"
  using assms string_keys.new_table_overflow [OF assms] new_table_huge [of n STRING_kind name g]
  by (auto simp: STRING_new_symbol_table_def STRING_kind_def)

theorem new_table_overflows_witness:
  "STRING_new_symbol_table ''types'' 600000000 (no_tables []) = Inl Int_Overflow"
  using new_table_overflows [OF no_tables_hold, of 600000000 "''types''"] by simp

end
