(* ===== verification/Spec2Isabelle.thy ===== *)
theory Spec2Isabelle
  imports Graph_Properties Dataflow_Properties Dataflow_Construction Trace_Properties Heap_Properties Alloc_Properties Stack_Properties Sort_Properties Symbol_Properties
begin

text \<open>
  A verification of the core library of the IMPACT compiler.

  \<^bold>\<open>The program.\<close> IMPACT is an optimising compiler for C written in C. Its front end works on Pcode
  (\<open>src/src/Pcode\<close>), its back end on Lcode (\<open>src/src/Lcode\<close>); both rest on the libraries under
  \<open>src/src/library\<close>. The development is about the libraries that carry the analyses and the containers
  of the compiler: sets of integers (\<open>libflow/set.c\<close>), graphs (\<open>libflow/graph.c\<close>), the dataflow analyses over
  both (\<open>libflow/dataflow.c\<close>), trace selection over weighted graphs (\<open>libflow/trace.c\<close>), the priority queue (\<open>heap/heap.c\<close>), the pool allocator
  (\<open>alloc_new/l_alloc_new.c\<close>), stacks (\<open>stack/stack.c\<close>), sorting (\<open>sort\<close>) and the symbol tables
  (\<open>dynamic_symbol\<close>). The analyses keep their results in sets, make and dispose of sets by the thousand, and
  walk the arcs of a graph; trace selection keeps dominators in sets, sorts nodes and arcs and builds a second graph, of the traces;
  stacks and symbol tables take their elements from the pools.

  \<^bold>\<open>How C is written here.\<close> \<open>Impact_Prelude\<close>: a C function is a state transformer that returns a result
  or a fault; NULL dereference, access out of bounds, signed overflow, \<open>exit\<close>, the \<open>punt\<close> functions and
  divergence are faults. \<open>wp\<close> is total correctness, so every theorem with \<open>wp\<close> or with \<open>= Inr ...\<close> says that
  the code ends without a fault.

  \<^bold>\<open>Sets.\<close> \<open>Set_Base\<close> has the descriptors with their two sides (non-negative and negative elements), vectors of
  eight 32-bit words, allocation and enlargement, the check against double disposal, membership,
  insertion and deletion; \<open>Set_Algebra\<close> copying, union, intersection, difference and their accumulating
  and fused variants, and compression; \<open>Set_Query\<close> the tests; \<open>Set_Enum\<close> counting, comparison, listing and
  iterators. \<open>Set_Interface\<close> states as the locale \<open>set_library\<close> what clients rely on and interprets it on the
  model, and has what clients that keep sets in a table share; \<open>Set_Properties\<close> has the properties.

  \<^bold>\<open>Graphs.\<close> \<open>Graph\<close> models nodes, arcs, traversals and graphs. \<open>Graph_Search\<close> is depth-first search apart from any
  program, and \<open>Graph_Traversals\<close> carries the recursive functions of the code through it: marking, visiting, the test
  for cycles, removal. \<open>Graph_Links\<close> is about the double bookkeeping of arcs at both of their ends and about what
  freeing a graph leaves.
  \<open>Graph_Properties\<close> has the properties.

  \<^bold>\<open>Dataflow.\<close> \<open>Dataflow\<close> models the tables of
  nodes and registers, the construction of the flow graph and the five analyses, with the fragments
  the C text repeats as definitions of their own. \<open>Fixpoint\<close> is the theory of round-robin iteration
  (locale \<open>chain\<close>, interpreted for the analyses that grow their sets and for those that shrink them);
  \<open>Flow_Paths\<close> relates the least and the greatest solution to paths. \<open>Dataflow_Tables\<close> has the ownership
  discipline of the tables (no two fields hold the same descriptor, so no disposal frees a set that
  is still in use) and the loop of an analysis; \<open>Dataflow_Analyses\<close>, \<open>Dataflow_Live\<close> and \<open>Dataflow_Meet\<close> carry each
  analysis through it; \<open>Dataflow_Properties\<close> states the results over paths. \<open>Dataflow_Build\<close> and \<open>Dataflow_Reset\<close>
  prove that the construction calls build the graph the client describes and that starting a graph frees the
  previous one; \<open>Dataflow_Construction\<close> composes construction and analysis.

  \<^bold>\<open>Trace selection.\<close> \<open>Trace\<close> models the extension fields of the nodes with their dominators and levels, the weights and the choice of the
  best neighbour, \<open>Trace_Selection\<close> the two ways of selecting traces, \<open>Trace_Placement\<close> the placement and the report. \<open>Trace_Dominators\<close>
  takes the dominators from the iteration theory and the paths of the analyses. \<open>Trace_Marks\<close> is about the types and flags the
  selection writes into nodes and arcs, \<open>Trace_Growth\<close> and \<open>Trace_Partition\<close> about traces grown from seeds, \<open>Trace_Joining\<close> and \<open>Trace_Arcs\<close>
  about traces joined arc by arc: in both cases the nodes are partitioned into paths, and in the second one no two can be joined
  any more. \<open>Trace_Graph\<close>, \<open>Trace_Layout\<close> and \<open>Trace_Placing\<close> carry this through the graph of the traces to the new chain of the nodes,
  \<open>Trace_Report\<close> is about the rounded sums of the report; \<open>Trace_Properties\<close> has the properties.

  \<^bold>\<open>Heap.\<close> \<open>Heap_Queue\<close> models the binary heap and proves the operations; the locale \<open>ranking\<close> is the contract of
  the comparison and is interpreted for both directions. \<open>Heap_Properties\<close> states the contract of a priority
  queue as a locale with heap sort as its client, interprets it, and has the properties.

  \<^bold>\<open>Pools and lists.\<close> \<open>Alloc_Pool\<close> models the pool allocator with its free lists and blocks, the checked access to
  the fields of an element in use, and states as the locale \<open>allocator\<close> what its clients rely on, interpreted on the
  model; \<open>Alloc_Properties\<close> has its properties. \<open>Linked_List\<close> is the theory of doubly linked lists that stacks and symbol
  tables share, \<open>Clients\<close> the simulation between the objects a client holds and their specified contents. \<open>Stack\<close> is the
  model of the stack library, \<open>Stack_Refinement\<close> and \<open>Stack_Properties\<close> prove that it refines lists.

  \<^bold>\<open>Sorting.\<close> \<open>Merge_Sort\<close> and \<open>Select_Sort\<close>; the locale \<open>selection\<close> is the contract of the comparison and is interpreted for
  both directions. \<open>Sort_Properties\<close> has the properties, with the sizes from which \<open>merge_sort\<close> leaves its buffer.

  \<^bold>\<open>Symbol tables.\<close> The four files of \<open>dynamic_symbol\<close> are one program for four types of keys: \<open>Symbol_Table\<close> models it with the
  parts that differ as an argument, and \<open>Symbol_Kinds\<close> has the four instances (\<open>STRING_add_symbol\<close> and so on).
  \<open>Symbol_Memory\<close> is about the chains in memory, \<open>Symbol_Lookup\<close> has the invariant of a table, the locale
  \<open>symbol_keys\<close> (the contract of a kind of keys), searching and resizing, \<open>Symbol_Library\<close> the invariant of all tables together,
  \<open>Symbol_Update\<close>, \<open>Symbol_Delete\<close> and \<open>Symbol_Create\<close> the operations. \<open>Symbol_Client\<close> proves in the locale that every sequence of
  calls refines the calls on association lists, faults included; \<open>Symbol_Properties\<close> states this for the four kinds.

  \<^bold>\<open>Bounds and fuel.\<close> \<open>while_prog\<close> needs no fuel: a loop that does not end is the fault \<open>Diverges\<close>, and the
  theorems exclude it by a well-founded measure (the number of elements still missing or left in the
  sets for the analyses). The recursive traversals of \<open>Graph\<close> take a bound on their depth, one more
  than the number of nodes there are. Node and register identifiers are below 16384 as in
  \<open>dataflow.h\<close>; a graph for trace selection has fewer than 8192 nodes and 16384 arcs, the sizes of the local arrays, and
  \<open>SelectTraces\<close> makes at most one trace for each node, as the loop of the code; the heap is limited to 2^30 - 1 nodes by the shift in its code, which is a theorem.

  \<^bold>\<open>Numbers.\<close> The weights of nodes and arcs are rational numbers, those of the queue and of sorting elements of a linear order: there is no
  NaN and no infinity. The report on a trace selection adds and divides doubles; how a result is rounded is a parameter \<open>fl\<close> of its
  definitions, and \<open>rounding\<close> in \<open>Trace_Report\<close> says what the theorems use of it: it is monotone, leaves rounded numbers alone, and the whole numbers up
  to 2^53 are doubles. Each sum of the report is rounded after every addition, in the order of the code. The selection of traces compares weights without
  rounding them; what is proved of it (the partition, the order, the flags) holds whatever the weights are and whatever neighbours are chosen. The sizes
  of a pool are an \<open>int\<close>: \<open>size + 3\<close> and \<open>size * num_in_block\<close> can overflow, and the writes into a new block are checked against its size; so is
  the counter of equal entries in \<open>min_sort\<close> and \<open>max_sort\<close>, which 65537 equal entries overflow. Vectors of sets are words: the \<open>1 << 31\<close> that reads or
  sets the last bit of a word has the value compilers give it, while the shift that limits the heap is a fault. The identifiers and sizes of sets (\<open>SetId\<close>, \<open>Set_size\<close>),
  the counters of a pool (\<open>pool_safe\<close> bounds them by the number of calls) and the product printed by \<open>L_print_alloc_info\<close> are unbounded.

  \<^bold>\<open>Aliasing.\<close> A set is a descriptor by value, with the identity of the C object in it. Where a function changes its first argument in place
  before it reads another one, as \<open>Set_subtract_union_acc\<close>, the case of the same descriptor is part of the definition. A double free makes the free list of a
  pool cyclic in the code; the model has the element twice in a finite list, and the two agree until the element is taken from the list
  for the second time.

  \<^bold>\<open>Not modelled.\<close> Output functions and memory statistics, except where an output is the contents of a container;
  \<open>malloc\<close> is taken to succeed; the recycling of arc cells and graph headers; the counter \<open>change\<close> of the
  analyses is unbounded, it is at most the number of nodes. The free
  routine a client passes is recorded by the data it is called with. The rest of the compiler is listed in the manifest with
  the reason for each part: the older hash tables, lists and sparse arrays of the library, and the programs on
  Lcode and Pcode, which have data structures of their own.
\<close>

end
